(* ===== verification/Prelude.thy ===== *)
theory Prelude
  imports Main "HOL-Library.Multiset" "HOL-Library.Signed_Division"
begin

text \<open>
  Shared vocabulary of the development.

  \<^item> Results: the engine reports a refusal by throwing.  A fallible function returns
    \<open>error + 'a\<close>; the constructors of \<open>error\<close> are the error classes of the source and
    carry the fixed part of the message (the text before the first interpolated value),
    or the error code where the class has one.
  \<^item> \<open>BigInt\<close>: JavaScript's unbounded integers are \<open>int\<close>; its division and remainder
    truncate towards zero and are \<open>sdiv\<close> and \<open>smod\<close> of the library.
  \<^item> \<open>Array.prototype.sort\<close>: a stable sort by a comparator, \<open>js_sort\<close>.
  \<^item> Facts about results, sums and quotients that the component proofs share; the
    simplification collections \<open>result_simps\<close> and \<open>unit_simps\<close>.
\<close>

named_theorems result_simps \<open>decomposing results that are known to be Inr\<close>
named_theorems unit_simps \<open>money operations rewritten to operations on ledger units\<close>

section \<open>Results and refusals\<close>

datatype error =
    Error string
  | RangeError string
  | TypeError string
  | RationalError string
  | PresentValueError string
  | AllocationApportionError string
  | InventoryError string
  | UnitConversionError string
  | NettingMathError string
  | TaxCalculationError string
  | PostingError string
  | AmortizationError string
  | RevenueRecognitionError string
  | RebateError string
  | PaymentTermsDueDateError string
  | DepreciationFormulaError string
  | DepreciationRefusalError string
  | InternalBillingPolicyError string
  | UsageBillingError string
  | EquityError string

type_synonym 'a result = "error + 'a"

fun bindE :: "'e + 'a \<Rightarrow> ('a \<Rightarrow> 'e + 'b) \<Rightarrow> 'e + 'b" where
  "bindE (Inl e) f = Inl e"
| "bindE (Inr x) f = f x"

text \<open>\<open>x ?? d\<close>: the default of a value that may be absent.\<close>

definition or_else :: "'a option \<Rightarrow> 'a \<Rightarrow> 'a" where
  "or_else x d = (case x of None \<Rightarrow> d | Some v \<Rightarrow> v)"

lemma or_else_simps [simp]: "or_else None d = d" "or_else (Some v) d = v"
  by (simp_all add: or_else_def)

text \<open>A guard: continue when the condition holds, refuse with the error otherwise.\<close>

definition ensure :: "bool \<Rightarrow> 'e \<Rightarrow> 'e + unit" where
  "ensure b e = (if b then Inr () else Inl e)"

text \<open>\<open>Array.prototype.map\<close> with a callback that may throw: the first refusal wins.\<close>

fun traverse :: "('a \<Rightarrow> 'e + 'b) \<Rightarrow> 'a list \<Rightarrow> 'e + 'b list" where
  "traverse f [] = Inr []"
| "traverse f (x # xs) = bindE (f x) (\<lambda>y. bindE (traverse f xs) (\<lambda>ys. Inr (y # ys)))"

text \<open>A \<open>for ... of\<close> loop whose body may throw, threading the loop's variables.\<close>

fun foldE :: "('s \<Rightarrow> 'a \<Rightarrow> 'e + 's) \<Rightarrow> 's \<Rightarrow> 'a list \<Rightarrow> 'e + 's" where
  "foldE f s [] = Inr s"
| "foldE f s (x # xs) = bindE (f s x) (\<lambda>s'. foldE f s' xs)"

lemma bindE_cong [fundef_cong]:
  "m = m' \<Longrightarrow> (\<And>x. m' = Inr x \<Longrightarrow> f x = f' x) \<Longrightarrow> bindE m f = bindE m' f'"
  by (cases m') auto

lemma bindE_Inr_iff [result_simps]: "bindE m f = Inr y \<longleftrightarrow> (\<exists>x. m = Inr x \<and> f x = Inr y)"
  by (cases m) auto

lemma bindE_InrE:
  assumes "bindE m f = Inr y"
  obtains x where "m = Inr x" and "f x = Inr y"
  using assms by (cases m) auto

lemma bindE_Inl_iff: "bindE m f = Inl e \<longleftrightarrow> m = Inl e \<or> (\<exists>x. m = Inr x \<and> f x = Inl e)"
  by (cases m) auto

lemma bindE_assoc: "bindE (bindE m f) g = bindE m (\<lambda>x. bindE (f x) g)"
  by (cases m) auto

lemma ensure_True [simp]: "ensure True e = Inr ()"
  and ensure_False [simp]: "ensure False e = Inl e"
  by (simp_all add: ensure_def)

lemma ensure_Inr_iff [result_simps]: "ensure b e = Inr u \<longleftrightarrow> b"
  by (simp add: ensure_def)

lemma ensure_Inl_iff [result_simps]: "ensure b e = Inl e' \<longleftrightarrow> \<not> b \<and> e' = e"
  by (auto simp: ensure_def)

lemma traverse_map_Inr:
  "(\<And>x. x \<in> set xs \<Longrightarrow> f x = Inr (g x)) \<Longrightarrow> traverse f xs = Inr (map g xs)"
  by (induction xs) auto

lemma traverse_Inr_iff:
  "traverse f xs = Inr ys \<longleftrightarrow> list_all2 (\<lambda>x y. f x = Inr y) xs ys"
  by (induction xs arbitrary: ys) (auto simp: bindE_Inr_iff list_all2_Cons1)

lemma traverse_length: "traverse f xs = Inr ys \<Longrightarrow> length ys = length xs"
  by (simp add: traverse_Inr_iff list_all2_lengthD)

lemma traverse_map: "traverse f (map g xs) = traverse (\<lambda>x. f (g x)) xs"
  by (induction xs) auto

lemma traverse_cong [fundef_cong]:
  "xs = ys \<Longrightarrow> (\<And>x. x \<in> set ys \<Longrightarrow> f x = g x) \<Longrightarrow> traverse f xs = traverse g ys"
  by (induction xs arbitrary: ys) (auto intro: bindE_cong)

text \<open>A loop invariant of a throwing loop that ran to its end.\<close>

lemma foldE_invariant:
  assumes "foldE f s xs = Inr t" and "P s"
    and "\<And>s x s'. P s \<Longrightarrow> x \<in> set xs \<Longrightarrow> f s x = Inr s' \<Longrightarrow> P s'"
  shows "P t"
  using assms
proof (induction xs arbitrary: s)
  case Nil
  then show ?case by simp
next
  case (Cons x xs)
  from Cons.prems(1) obtain s' where s': "f s x = Inr s'" "foldE f s' xs = Inr t"
    by (auto simp: bindE_Inr_iff)
  have "P s'" by (rule Cons.prems(3) [OF Cons.prems(2) _ s'(1)]) simp
  from s'(2) this show ?case
  proof (rule Cons.IH)
    fix s y s' assume "P s" "y \<in> set xs" "f s y = Inr s'"
    then show "P s'" using Cons.prems(3) [of s y s'] by simp
  qed
qed

lemma foldE_append: "foldE f s (xs @ ys) = bindE (foldE f s xs) (\<lambda>s'. foldE f s' ys)"
  by (induction xs arbitrary: s) (simp_all add: bindE_assoc)

lemma foldE_Inr_total:
  "(\<And>s x. x \<in> set xs \<Longrightarrow> \<exists>s'. f s x = Inr s') \<Longrightarrow> \<exists>t. foldE f s xs = Inr t"
proof (induction xs arbitrary: s)
  case Nil
  then show ?case by simp
next
  case (Cons x xs)
  then obtain s' where "f s x = Inr s'" by fastforce
  moreover have "\<exists>t. foldE f s' xs = Inr t" using Cons by simp
  ultimately show ?case by simp
qed

section \<open>Text codecs\<close>

text \<open>
  The engine stores and exchanges values as text.  A codec prints every value of its domain so that the
  reader gets it back; an exact codec reads nothing else, so text and value are interchangeable.
\<close>

locale text_codec =
  fixes encode :: "'a \<Rightarrow> string" and decode :: "string \<Rightarrow> error + 'a" and admits :: "'a \<Rightarrow> bool"
  assumes decode_encode: "admits x \<Longrightarrow> decode (encode x) = Inr x"
begin

lemma encode_inject: "admits x \<Longrightarrow> admits y \<Longrightarrow> encode x = encode y \<longleftrightarrow> x = y"
  using decode_encode by (metis sum.inject(2))

lemma decode_all: "\<forall>x \<in> set xs. admits x \<Longrightarrow> traverse decode (map encode xs) = Inr xs"
  by (induction xs) (auto simp: decode_encode)

end

locale exact_codec = text_codec +
  assumes encode_decode: "decode s = Inr x \<Longrightarrow> admits x \<and> encode x = s"
begin

lemma decode_Inr_iff: "decode s = Inr x \<longleftrightarrow> admits x \<and> s = encode x"
  using decode_encode encode_decode by blast

lemma decode_inject: "decode s = Inr x \<Longrightarrow> decode t = Inr x \<Longrightarrow> s = t"
  by (auto simp: decode_Inr_iff)

end

section \<open>Quotients\<close>

lemma div_int_iff:
  assumes "0 < (d::int)"
  shows "a div d = r \<longleftrightarrow> r * d \<le> a \<and> a < r * d + d"
proof
  assume "a div d = r"
  then have "a = r * d + a mod d" by (metis div_mult_mod_eq)
  with assms pos_mod_sign [of d a] pos_mod_bound [of d a]
  show "r * d \<le> a \<and> a < r * d + d" by linarith
next
  assume "r * d \<le> a \<and> a < r * d + d"
  then show "a div d = r"
    by (intro int_div_pos_eq [where r = "a - d * r"]) (auto simp: algebra_simps)
qed

lemma sdiv_nonneg: "0 \<le> a \<Longrightarrow> 0 < b \<Longrightarrow> a sdiv b = a div (b::int)"
  by (cases "a = 0") (simp_all add: signed_divide_int_def)

lemma smod_nonneg: "0 \<le> a \<Longrightarrow> 0 < b \<Longrightarrow> a smod b = a mod (b::int)"
  by (cases "a = 0") (simp_all add: signed_modulo_int_def)

lemma abs_smod_less: "0 < b \<Longrightarrow> \<bar>a smod b\<bar> < (b::int)"
  by (simp add: signed_modulo_int_def abs_mult abs_sgn_eq)

section \<open>Sums over lists\<close>

lemma sum_list_map_uminus: "sum_list (map (\<lambda>x. - f x) xs) = - (sum_list (map f xs) :: int)"
  by (induction xs) auto

lemma sum_list_uminus [simp]: "sum_list (map uminus xs) = - (sum_list xs :: int)"
  by (induction xs) auto

lemma sum_list_div_mod:
  "0 < d \<Longrightarrow> sum_list xs = d * sum_list (map (\<lambda>x. x div d) xs) + sum_list (map (\<lambda>x. x mod d) xs)"
  for d :: int
  by (induction xs) (auto simp: algebra_simps minus_mod_eq_mult_div [symmetric])

lemma sum_list_lt_length:
  "xs \<noteq> [] \<Longrightarrow> (\<And>x. x \<in> set xs \<Longrightarrow> f x < d) \<Longrightarrow> sum_list (map f xs) < d * int (length xs)"
  for d :: int
proof (induction xs)
  case (Cons x xs)
  then show ?case
    by (cases "xs = []") (auto simp: algebra_simps intro: add_strict_mono)
qed simp

lemma sum_list_update_int:
  "k < length xs \<Longrightarrow> sum_list (xs[k := x]) = sum_list xs + x - (xs ! k :: int)"
proof (induction xs arbitrary: k)
  case (Cons y ys)
  then show ?case by (cases k) auto
qed simp

lemma sum_list_nonneg_int: "(\<And>x. x \<in> set xs \<Longrightarrow> 0 \<le> f x) \<Longrightarrow> 0 \<le> (sum_list (map f xs) :: int)"
  by (induction xs) auto

text \<open>Elements below \<open>d\<close> sum to at most \<open>d - 1\<close> for each positive one.\<close>

lemma sum_list_le_positives:
  "(\<And>x. x \<in> set xs \<Longrightarrow> x < d) \<Longrightarrow> sum_list xs \<le> (d - 1) * int (length (filter (\<lambda>x. 0 < x) xs))"
  for d :: int
proof (induction xs)
  case (Cons x xs)
  then have "sum_list xs \<le> (d - 1) * int (length (filter (\<lambda>x. 0 < x) xs))" and "x \<le> d - 1" by auto
  then show ?case by (simp add: algebra_simps)
qed simp

lemma fold_plus_sum_list: "fold (\<lambda>x acc. acc + f x) xs (a::int) = a + sum_list (map f xs)"
  by (induction xs arbitrary: a) auto

section \<open>\<open>findIndex\<close>, rethrowing\<close>

text \<open>\<open>xs.findIndex(p)\<close>: the first index where the predicate holds, or \<open>-1\<close>.\<close>

definition findIndex :: "('a \<Rightarrow> bool) \<Rightarrow> 'a list \<Rightarrow> int" where
  "findIndex p xs = (let n = length (takeWhile (\<lambda>x. \<not> p x) xs) in
     if n < length xs then int n else - 1)"

lemma findIndex_found:
  assumes "x \<in> set xs" "p x"
  shows "0 \<le> findIndex p xs" "findIndex p xs < int (length xs)" "p (xs ! nat (findIndex p xs))"
proof -
  let ?n = "length (takeWhile (\<lambda>x. \<not> p x) xs)"
  have n: "?n < length xs"
    using assms by (metis (mono_tags, lifting) length_takeWhile_le nat_less_le takeWhile_eq_all_conv takeWhile_eq_take take_all)
  then show "0 \<le> findIndex p xs" "findIndex p xs < int (length xs)" by (simp_all add: findIndex_def Let_def)
  show "p (xs ! nat (findIndex p xs))" using nth_length_takeWhile [OF n] n by (simp add: findIndex_def Let_def)
qed

lemma find_member: "find p xs = Some x \<Longrightarrow> x \<in> set xs \<and> p x"
  by (auto simp: find_Some_iff)

text \<open>\<open>try ... catch { throw e }\<close>\<close>

definition rethrow :: "'e \<Rightarrow> 'e + 'a \<Rightarrow> 'e + 'a" where
  "rethrow e m = (case m of Inl _ \<Rightarrow> Inl e | Inr x \<Rightarrow> Inr x)"

lemma rethrow_simps [simp]: "rethrow e (Inr x) = Inr x" "rethrow e (Inl e') = Inl e"
  by (simp_all add: rethrow_def)

lemma rethrow_Inr_iff [result_simps]: "rethrow e m = Inr x \<longleftrightarrow> m = Inr x"
  by (cases m) auto

section \<open>\<open>Array.prototype.sort\<close> with a comparator\<close>

text \<open>
  The comparator returns a negative, zero or positive number.  The sort is stable:
  an element is placed in front of the elements that compare equal to it and came later.
\<close>

fun insort_by :: "('a \<Rightarrow> 'a \<Rightarrow> int) \<Rightarrow> 'a \<Rightarrow> 'a list \<Rightarrow> 'a list" where
  "insort_by c x [] = [x]"
| "insort_by c x (y # ys) = (if c x y \<le> 0 then x # y # ys else y # insort_by c x ys)"

definition js_sort :: "('a \<Rightarrow> 'a \<Rightarrow> int) \<Rightarrow> 'a list \<Rightarrow> 'a list" where
  "js_sort c xs = foldr (insort_by c) xs []"

lemma js_sort_simps [simp]:
  "js_sort c [] = []"
  "js_sort c (x # xs) = insort_by c x (js_sort c xs)"
  by (simp_all add: js_sort_def)

lemma mset_insort_by [simp]: "mset (insort_by c x xs) = add_mset x (mset xs)"
  by (induction xs) auto

lemma mset_js_sort [simp]: "mset (js_sort c xs) = mset xs"
  by (induction xs) auto

lemma set_js_sort [simp]: "set (js_sort c xs) = set xs"
  by (metis mset_js_sort set_mset_mset)

lemma length_js_sort [simp]: "length (js_sort c xs) = length xs"
  by (metis mset_js_sort size_mset)

lemma distinct_js_sort [simp]: "distinct (js_sort c xs) \<longleftrightarrow> distinct xs"
  by (metis mset_eq_imp_distinct_iff mset_js_sort)

lemma sum_list_js_sort: "sum_list (map f (js_sort c xs)) = (sum_list (map f xs) :: int)"
  by (metis mset_js_sort mset_map sum_mset_sum_list)

text \<open>With a consistent comparator (total and transitive) the result is ordered.\<close>

lemma set_insort_by: "set (insort_by c x xs) = insert x (set xs)"
  by (induction xs) auto

lemma sorted_wrt_insort_by:
  assumes "\<And>x y. c x y \<le> 0 \<or> c y x \<le> 0" and "transp (\<lambda>x y. c x y \<le> 0)"
    and "sorted_wrt (\<lambda>x y. c x y \<le> 0) xs"
  shows "sorted_wrt (\<lambda>x y. c x y \<le> 0) (insort_by c x xs)"
  using assms(3)
proof (induction xs)
  case Nil
  then show ?case by simp
next
  case (Cons y ys)
  show ?case
  proof (cases "c x y \<le> 0")
    case True
    then have "\<forall>z\<in>set ys. c x z \<le> 0"
      using Cons.prems assms(2) by (auto dest: transpD)
    with True Cons.prems show ?thesis by simp
  next
    case False
    then have "c y x \<le> 0" using assms(1) by blast
    with False Cons show ?thesis by (simp add: set_insort_by)
  qed
qed

lemma sorted_wrt_js_sort:
  assumes "\<And>x y. c x y \<le> 0 \<or> c y x \<le> 0" and "transp (\<lambda>x y. c x y \<le> 0)"
  shows "sorted_wrt (\<lambda>x y. c x y \<le> 0) (js_sort c xs)"
  by (induction xs) (simp_all add: sorted_wrt_insort_by assms)

text \<open>A comparator that is total, transitive and tells the elements apart sorts every arrangement of them alike.\<close>

lemma sorted_wrt_unique:
  assumes "sorted_wrt R xs" "sorted_wrt R ys" "mset xs = mset ys" "\<And>x y. x \<in> set xs \<Longrightarrow> y \<in> set xs \<Longrightarrow> R x y \<Longrightarrow> R y x \<Longrightarrow> x = y"
  shows "xs = ys"
  using assms
proof (induction xs arbitrary: ys)
  case (Cons x xs)
  then obtain y ys' where ys: "ys = y # ys'" by (cases ys) auto
  have s: "set (x # xs) = set ys" using Cons.prems(3) by (metis set_mset_mset)
  have "x = y"
  proof (rule ccontr)
    assume "x \<noteq> y"
    then have "x \<in> set ys'" "y \<in> set xs" using s ys by auto
    then show False using Cons.prems(1,2) ys \<open>x \<noteq> y\<close> Cons.prems(4) [of x y] by simp
  qed
  moreover have "xs = ys'" by (rule Cons.IH) (use Cons.prems ys \<open>x = y\<close> in simp_all)
  ultimately show ?case using ys by simp
qed simp

lemma js_sort_perm:
  assumes "\<And>x y. c x y \<le> 0 \<or> c y x \<le> 0" "transp (\<lambda>x y. c x y \<le> (0::int))" "mset xs = mset ys"
    "\<And>x y. x \<in> set xs \<Longrightarrow> y \<in> set xs \<Longrightarrow> c x y \<le> 0 \<Longrightarrow> c y x \<le> 0 \<Longrightarrow> x = y"
  shows "js_sort c xs = js_sort c ys"
  by (rule sorted_wrt_unique [OF sorted_wrt_js_sort [OF assms(1,2)] sorted_wrt_js_sort [OF assms(1,2)]]) (use assms(3,4) in simp_all)

text \<open>A fold whose steps commute does not see the order of the list.\<close>

lemma foldE_as_fold: "foldE f s xs = fold (\<lambda>x r. bindE r (\<lambda>a. f a x)) xs (Inr s)"
proof (induction xs arbitrary: s)
  case (Cons x xs)
  have "fold (\<lambda>x r. bindE r (\<lambda>a. f a x)) xs (Inl e) = Inl e" for e by (induction xs) simp_all
  then show ?case using Cons by (cases "f s x") simp_all
qed simp

lemma foldE_perm:
  assumes "\<And>x y a. x \<in> set xs \<Longrightarrow> y \<in> set xs \<Longrightarrow> bindE (f a x) (\<lambda>b. f b y) = bindE (f a y) (\<lambda>b. f b x)" "mset xs = mset ys"
  shows "foldE f s xs = foldE f s ys"
proof -
  have "fold (\<lambda>x r. bindE r (\<lambda>a. f a x)) xs = fold (\<lambda>x r. bindE r (\<lambda>a. f a x)) ys"
  proof (rule fold_multiset_equiv [OF _ assms(2)])
    fix x y assume "x \<in> set xs" "y \<in> set xs"
    note c = assms(1) [OF this]
    show "(\<lambda>r. bindE r (\<lambda>a. f a x)) \<circ> (\<lambda>r. bindE r (\<lambda>a. f a y)) = (\<lambda>r. bindE r (\<lambda>a. f a y)) \<circ> (\<lambda>r. bindE r (\<lambda>a. f a x))"
    proof
      fix r show "((\<lambda>r. bindE r (\<lambda>a. f a x)) \<circ> (\<lambda>r. bindE r (\<lambda>a. f a y))) r = ((\<lambda>r. bindE r (\<lambda>a. f a y)) \<circ> (\<lambda>r. bindE r (\<lambda>a. f a x))) r"
        by (cases r) (simp_all add: c)
    qed
  qed
  then show ?thesis by (simp add: foldE_as_fold)
qed

text \<open>A call that returns a value rather than throwing.\<close>

definition returns :: "'a result \<Rightarrow> bool" where
  "returns m \<longleftrightarrow> (case m of Inr _ \<Rightarrow> True | Inl _ \<Rightarrow> False)"

lemma returnsE: "returns m \<Longrightarrow> (\<And>x. m = Inr x \<Longrightarrow> thesis) \<Longrightarrow> thesis"
  by (cases m) (auto simp: returns_def)

end
