(* ===== verification/Js_Text.thy ===== *)
theory Js_Text
  imports Prelude Complex_Main "HOL-Library.Code_Target_Nat"
begin

text \<open>
  The part of JavaScript's strings the engine's decimal code uses.  A string is a list of
  code units below 256 (a Latin-1 \<open>char\<close>); \<open>trim\<close> removes the white space among them.
  \<open>BigInt(text)\<close> and \<open>toString\<close> are \<open>bigint_of_text\<close> and \<open>bigint_text\<close>; the regular
  expressions of the source are boolean functions over the text.  The facts relate digit
  strings to the numbers they denote and show that printing and reading are inverse.
\<close>

section \<open>Characters and slices\<close>

definition is_digit :: "char \<Rightarrow> bool" where
  "is_digit c \<longleftrightarrow> 48 \<le> (of_char c :: nat) \<and> (of_char c :: nat) \<le> 57"

definition nonzero_digit :: "char \<Rightarrow> bool" where
  "nonzero_digit c \<longleftrightarrow> 49 \<le> (of_char c :: nat) \<and> (of_char c :: nat) \<le> 57"

definition is_sign :: "char \<Rightarrow> bool" where
  "is_sign c \<longleftrightarrow> c = CHR ''-'' \<or> c = CHR ''+''"

definition is_white :: "char \<Rightarrow> bool" where
  "is_white c \<longleftrightarrow> (9 \<le> (of_char c :: nat) \<and> (of_char c :: nat) \<le> 13)
     \<or> (of_char c :: nat) = 32 \<or> (of_char c :: nat) = 160"

definition trim :: "string \<Rightarrow> string" where
  "trim s = rev (dropWhile is_white (rev (dropWhile is_white s)))"

definition starts_minus :: "string \<Rightarrow> bool" where
  "starts_minus s = (case s of [] \<Rightarrow> False | c # _ \<Rightarrow> c = CHR ''-'')"

text \<open>\<open>s.replace(/^[-+]/, "")\<close>\<close>

definition strip_sign :: "string \<Rightarrow> string" where
  "strip_sign s = (case s of [] \<Rightarrow> [] | c # r \<Rightarrow> if is_sign c then r else s)"

text \<open>\<open>s <= t\<close> and \<open>s < t\<close> on texts: by character code, a prefix first.\<close>

fun text_less_eq :: "string \<Rightarrow> string \<Rightarrow> bool" where
  "text_less_eq [] t = True"
| "text_less_eq (c # s) [] = False"
| "text_less_eq (c # s) (e # t) = (of_char c < (of_char e :: nat) \<or> c = e \<and> text_less_eq s t)"

definition text_less :: "string \<Rightarrow> string \<Rightarrow> bool" where
  "text_less s t \<longleftrightarrow> s \<noteq> t \<and> text_less_eq s t"

lemma text_less_eq_refl [simp]: "text_less_eq s s"
  by (induction s) simp_all

lemma text_less_eq_total: "text_less_eq s t \<or> text_less_eq t s"
  by (induction s t rule: text_less_eq.induct) auto

lemma text_less_eq_Nil [simp]: "text_less_eq s [] \<longleftrightarrow> s = []"
  by (cases s) simp_all

lemma text_less_eq_antisym: "text_less_eq s t \<Longrightarrow> text_less_eq t s \<Longrightarrow> s = t"
  by (induction s t rule: text_less_eq.induct) auto

lemma text_less_eq_trans: "text_less_eq s t \<Longrightarrow> text_less_eq t u \<Longrightarrow> text_less_eq s u"
proof (induction s t arbitrary: u rule: text_less_eq.induct)
  case (3 c s e t)
  then show ?case by (cases u) auto
qed simp_all

text \<open>\<open>s || fallback\<close>: the empty string is falsy.\<close>

definition or_text :: "string \<Rightarrow> string \<Rightarrow> string" where
  "or_text s d = (if s = [] then d else s)"

definition padStart :: "string \<Rightarrow> nat \<Rightarrow> char \<Rightarrow> string" where
  "padStart s n c = replicate (n - length s) c @ s"

definition padEnd :: "string \<Rightarrow> nat \<Rightarrow> char \<Rightarrow> string" where
  "padEnd s n c = s @ replicate (n - length s) c"

text \<open>\<open>s.slice(-n)\<close> and \<open>s.slice(0, -n)\<close> for \<open>n > 0\<close>.\<close>

definition last_chars :: "nat \<Rightarrow> string \<Rightarrow> string" where
  "last_chars n s = drop (length s - n) s"

definition but_last_chars :: "nat \<Rightarrow> string \<Rightarrow> string" where
  "but_last_chars n s = take (length s - n) s"

text \<open>\<open>s.replace(/0+$/, "")\<close>\<close>

definition strip_trailing_zeros :: "string \<Rightarrow> string" where
  "strip_trailing_zeros s = rev (dropWhile (\<lambda>c. c = CHR ''0'') (rev s))"

text \<open>\<open>const [whole = "", fraction = ""] = s.split(".")\<close>\<close>

definition split_dot :: "string \<Rightarrow> string \<times> string" where
  "split_dot s = (takeWhile (\<lambda>c. c \<noteq> CHR ''.'') s,
     (case dropWhile (\<lambda>c. c \<noteq> CHR ''.'') s of
        [] \<Rightarrow> [] | _ # r \<Rightarrow> takeWhile (\<lambda>c. c \<noteq> CHR ''.'') r))"

section \<open>Numbers and their digits\<close>

definition digit_val :: "char \<Rightarrow> nat" where
  "digit_val c = of_char c - 48"

definition digit_char :: "nat \<Rightarrow> char" where
  "digit_char n = char_of (48 + n)"

definition digits_val :: "string \<Rightarrow> nat" where
  "digits_val s = foldl (\<lambda>acc c. acc * 10 + digit_val c) 0 s"

fun nat_text :: "nat \<Rightarrow> string" where
  "nat_text n = (if n < 10 then [digit_char n] else nat_text (n div 10) @ [digit_char (n mod 10)])"

declare nat_text.simps [simp del]

definition bigint_text :: "int \<Rightarrow> string" where
  "bigint_text u = (if u < 0 then CHR ''-'' # nat_text (nat (- u)) else nat_text (nat u))"

text \<open>\<open>BigInt(text)\<close> for a text of an optional minus sign and digits; \<open>BigInt("")\<close> is zero.\<close>

definition bigint_of_text :: "string \<Rightarrow> int" where
  "bigint_of_text s = (if starts_minus s then - int (digits_val (tl s)) else int (digits_val s))"

text \<open>\<open>/^(\d+(\.\d*)?|\.\d+)$/\<close>: an unsigned plain decimal.\<close>

definition plain_decimal :: "string \<Rightarrow> bool" where
  "plain_decimal s = (let w = takeWhile is_digit s; r = dropWhile is_digit s in
     (case r of
        [] \<Rightarrow> w \<noteq> []
      | c # f \<Rightarrow> c = CHR ''.'' \<and> list_all is_digit f \<and> (w \<noteq> [] \<or> f \<noteq> [])))"

text \<open>\<open>/^[-+]?(\d+(\.\d*)?|\.\d+)$/\<close>\<close>

definition signed_plain_decimal :: "string \<Rightarrow> bool" where
  "signed_plain_decimal s = plain_decimal (strip_sign s)"

text \<open>
  The exponent part: \<open>/[eE]([-+]?\d+)$/\<close> matched on a decimal splits it at its only
  \<open>e\<close> or \<open>E\<close> into the text before and the exponent text.
\<close>

definition is_exp_mark :: "char \<Rightarrow> bool" where
  "is_exp_mark c \<longleftrightarrow> c = CHR ''e'' \<or> c = CHR ''E''"

definition exponent_match :: "string \<Rightarrow> (string \<times> string) option" where
  "exponent_match s = (case dropWhile (\<lambda>c. \<not> is_exp_mark c) s of
     [] \<Rightarrow> None | _ # r \<Rightarrow> Some (takeWhile (\<lambda>c. \<not> is_exp_mark c) s, r))"

text \<open>\<open>/^[-+]?\d+$/\<close>\<close>

definition integer_text :: "string \<Rightarrow> bool" where
  "integer_text s = (strip_sign s \<noteq> [] \<and> list_all is_digit (strip_sign s))"

text \<open>\<open>/^[-+]?(\d+(\.\d*)?|\.\d+)([eE][-+]?\d+)?$/\<close>\<close>

definition decimal_number :: "string \<Rightarrow> bool" where
  "decimal_number s = (let u = strip_sign s in
     (case exponent_match u of
        None \<Rightarrow> plain_decimal u
      | Some (m, e) \<Rightarrow> plain_decimal m \<and> integer_text e))"

text \<open>\<open>Number(text)\<close> of a text that matches \<open>/^[-+]?\d+$/\<close>.\<close>

definition number_of_integer_text :: "string \<Rightarrow> int" where
  "number_of_integer_text s =
     (if starts_minus s then - int (digits_val (strip_sign s)) else int (digits_val (strip_sign s)))"

text \<open>\<open>fraction.length > k && /[1-9]/.test(fraction.slice(k))\<close>\<close>

definition loses_precision :: "nat \<Rightarrow> string \<Rightarrow> bool" where
  "loses_precision k f \<longleftrightarrow> k < length f \<and> list_ex nonzero_digit (drop k f)"

text \<open>\<open>BigInt(whole || "0") * 10^k + BigInt((fraction + "0".repeat(k)).slice(0, k))\<close>\<close>

definition scaled_units :: "nat \<Rightarrow> string \<Rightarrow> string \<Rightarrow> int" where
  "scaled_units k w f = bigint_of_text (or_text w ''0'') * 10 ^ k
     + bigint_of_text (take k (f @ replicate k CHR ''0''))"

section \<open>Facts about digits\<close>

lemma digit_val_digit_char [simp]: "n < 10 \<Longrightarrow> digit_val (digit_char n) = n"
  by (simp add: digit_val_def digit_char_def)

lemma digit_char_zero [simp]: "digit_char 0 = CHR ''0''"
  by code_simp

lemma is_digit_digit_char [simp]: "n < 10 \<Longrightarrow> is_digit (digit_char n)"
  by (simp add: is_digit_def digit_char_def)

lemma digit_val_less: "is_digit c \<Longrightarrow> digit_val c < 10"
  by (auto simp: is_digit_def digit_val_def)

lemma is_digit_zero [simp]: "is_digit CHR ''0''"
  and digit_val_zero [simp]: "digit_val CHR ''0'' = 0"
  by (simp_all add: is_digit_def digit_val_def)

lemma not_digit_marks [simp]:
  "\<not> is_digit CHR ''-''" "\<not> is_digit CHR ''+''" "\<not> is_digit CHR ''.''"
  "\<not> is_digit CHR ''e''" "\<not> is_digit CHR ''E''"
  by (simp_all add: is_digit_def)

lemma digit_not_mark:
  assumes "is_digit c"
  shows "\<not> is_sign c" "c \<noteq> CHR ''-''" "c \<noteq> CHR ''.''" "\<not> is_exp_mark c" "\<not> is_white c"
  using assms by (auto simp: is_sign_def is_exp_mark_def is_digit_def is_white_def)

lemma nonzero_digit_iff: "is_digit c \<Longrightarrow> nonzero_digit c \<longleftrightarrow> digit_val c \<noteq> 0"
  by (auto simp: is_digit_def nonzero_digit_def digit_val_def)

lemma foldl_digits_shift:
  "foldl (\<lambda>acc c. acc * 10 + digit_val c) a s = a * 10 ^ length s + digits_val s"
  unfolding digits_val_def
proof (induction s arbitrary: a)
  case Nil
  then show ?case by simp
next
  case (Cons c s)
  have "foldl (\<lambda>acc c. acc * 10 + digit_val c) a (c # s)
      = (a * 10 + digit_val c) * 10 ^ length s + foldl (\<lambda>acc c. acc * 10 + digit_val c) 0 s"
    using Cons.IH [of "a * 10 + digit_val c"] by simp
  also have "\<dots> = a * 10 ^ length (c # s)
      + (digit_val c * 10 ^ length s + foldl (\<lambda>acc c. acc * 10 + digit_val c) 0 s)"
    by (simp add: algebra_simps)
  also have "digit_val c * 10 ^ length s + foldl (\<lambda>acc c. acc * 10 + digit_val c) 0 s
      = foldl (\<lambda>acc c. acc * 10 + digit_val c) 0 (c # s)"
    using Cons.IH [of "digit_val c"] by simp
  finally show ?case .
qed

lemma digits_val_Nil [simp]: "digits_val [] = 0"
  by (simp add: digits_val_def)

lemma digits_val_append: "digits_val (s @ t) = digits_val s * 10 ^ length t + digits_val t"
  using foldl_digits_shift [of "digits_val s" t] by (simp add: digits_val_def)

lemma digits_val_Cons: "digits_val (c # s) = digit_val c * 10 ^ length s + digits_val s"
  using digits_val_append [of "[c]" s] by (simp add: digits_val_def)

lemma digits_val_zeros [simp]: "digits_val (replicate n CHR ''0'') = 0"
  by (induction n) (auto simp: digits_val_Cons)

lemma digits_val_less: "list_all is_digit s \<Longrightarrow> digits_val s < 10 ^ length s"
proof (induction s)
  case Nil
  then show ?case by simp
next
  case (Cons c s)
  then have "digit_val c \<le> 9" and "digits_val s < 10 ^ length s"
    using digit_val_less by fastforce+
  then have "digit_val c * 10 ^ length s + digits_val s < 9 * 10 ^ length s + 10 ^ length s"
    by (intro add_le_less_mono mult_right_mono) auto
  then show ?case by (simp add: digits_val_Cons)
qed

lemma digits_val_eq_0_iff:
  "list_all is_digit s \<Longrightarrow> digits_val s = 0 \<longleftrightarrow> \<not> list_ex nonzero_digit s"
  by (induction s) (auto simp: digits_val_Cons nonzero_digit_iff)

lemma digits_val_padStart [simp]: "digits_val (padStart s n CHR ''0'') = digits_val s"
  by (simp add: padStart_def digits_val_append)

lemma list_all_digit_replicate [simp]: "list_all is_digit (replicate n CHR ''0'')"
  by (simp add: list_all_iff)

lemma list_all_digit_padStart [simp]:
  "list_all is_digit (padStart s n CHR ''0'') \<longleftrightarrow> list_all is_digit s"
  by (auto simp: padStart_def)

lemma length_padStart [simp]: "length (padStart s n c) = max n (length s)"
  by (simp add: padStart_def)

lemma nat_text_digits [simp]: "list_all is_digit (nat_text n)"
  by (induction n rule: nat_text.induct) (subst nat_text.simps, simp)

lemma nat_text_not_Nil [simp]: "nat_text n \<noteq> []"
  by (subst nat_text.simps) simp

lemma digits_val_nat_text [simp]: "digits_val (nat_text n) = n"
proof (induction n rule: nat_text.induct)
  case (1 n)
  show ?case
  proof (cases "n < 10")
    case True
    then show ?thesis by (simp add: nat_text.simps [of n] digits_val_Cons)
  next
    case False
    then have "digits_val (nat_text n) = n div 10 * 10 + n mod 10"
      using 1 by (simp add: nat_text.simps [of n] digits_val_append digits_val_Cons)
    then show ?thesis by simp
  qed
qed

lemma length_nat_text_le: "n < 10 ^ k \<Longrightarrow> 0 < k \<Longrightarrow> length (nat_text n) \<le> k"
proof (induction n arbitrary: k rule: nat_text.induct)
  case (1 n)
  show ?case
  proof (cases "n < 10")
    case True
    with 1 show ?thesis by (simp add: nat_text.simps [of n])
  next
    case False
    with 1(2) obtain j where k: "k = Suc j" "0 < j"
      by (cases k; cases "k - 1") auto
    with 1(2) have "n div 10 < 10 ^ j" by (simp add: div_less_iff_less_mult mult.commute)
    with 1(1) False k have "length (nat_text (n div 10)) \<le> j" by blast
    with False k show ?thesis by (simp add: nat_text.simps [of n])
  qed
qed

lemma nat_text_pos_hd: "0 < n \<Longrightarrow> hd (nat_text n) \<noteq> CHR ''0''"
proof (induction n rule: nat_text.induct)
  case (1 n)
  show ?case
  proof (cases "n < 10")
    case True
    then have "digit_val (digit_char n) \<noteq> digit_val CHR ''0''" using 1 by simp
    then have "digit_char n \<noteq> CHR ''0''" by metis
    with True show ?thesis by (simp add: nat_text.simps [of n])
  next
    case False
    with 1 show ?thesis by (simp add: nat_text.simps [of n])
  qed
qed

section \<open>Decomposing decimal texts\<close>

lemma starts_minus_simps [simp]:
  "starts_minus [] = False" "starts_minus (c # s) \<longleftrightarrow> c = CHR ''-''"
  by (simp_all add: starts_minus_def)

lemma strip_sign_simps [simp]:
  "strip_sign [] = []" "strip_sign (c # s) = (if is_sign c then s else c # s)"
  by (simp_all add: strip_sign_def)

lemma is_sign_marks [simp]: "is_sign CHR ''-''" "is_sign CHR ''+''" "\<not> is_sign CHR ''.''"
  by (simp_all add: is_sign_def)

lemma digits_no_minus: "list_all is_digit s \<Longrightarrow> \<not> starts_minus s"
  by (cases s) (auto simp: digit_not_mark)

lemma digits_strip_sign [simp]: "list_all is_digit s \<Longrightarrow> strip_sign s = s"
  by (cases s) (auto simp: digit_not_mark)

lemma bigint_of_digits: "list_all is_digit s \<Longrightarrow> bigint_of_text s = int (digits_val s)"
  by (simp add: bigint_of_text_def digits_no_minus)

lemma bigint_roundtrip: "bigint_of_text (bigint_text u) = u"
  by (simp add: bigint_text_def bigint_of_text_def digits_no_minus)

lemma takeWhile_digits: "list_all is_digit w \<Longrightarrow> takeWhile is_digit (w @ c # r) = (if is_digit c then w @ takeWhile is_digit (c # r) else w)"
  by (induction w) auto

lemma takeWhile_no_dot:
  "list_all is_digit w \<Longrightarrow> takeWhile (\<lambda>c. c \<noteq> CHR ''.'') (w @ CHR ''.'' # r) = w"
  "list_all is_digit w \<Longrightarrow> dropWhile (\<lambda>c. c \<noteq> CHR ''.'') (w @ CHR ''.'' # r) = CHR ''.'' # r"
  "list_all is_digit w \<Longrightarrow> takeWhile (\<lambda>c. c \<noteq> CHR ''.'') w = w"
  "list_all is_digit w \<Longrightarrow> dropWhile (\<lambda>c. c \<noteq> CHR ''.'') w = []"
  by (induction w) (auto simp: digit_not_mark)

lemma split_dot_digits [simp]:
  assumes "list_all is_digit w"
  shows "split_dot w = (w, [])"
    and "list_all is_digit f \<Longrightarrow> split_dot (w @ CHR ''.'' # f) = (w, f)"
  using assms by (simp_all add: split_dot_def takeWhile_no_dot)

text \<open>Every plain decimal is digits, optionally followed by a point and more digits.\<close>

lemma plain_decimalE:
  assumes "plain_decimal s"
  obtains w f where "split_dot s = (w, f)" "list_all is_digit w" "list_all is_digit f"
    "s = w \<or> s = w @ CHR ''.'' # f" "w \<noteq> [] \<or> f \<noteq> []"
proof -
  let ?w = "takeWhile is_digit s"
  have w: "list_all is_digit ?w" by (auto simp: list_all_iff dest: set_takeWhileD)
  have s: "s = ?w @ dropWhile is_digit s" by simp
  show thesis
  proof (cases "dropWhile is_digit s")
    case Nil
    with s have "s = ?w" by simp
    with w have "list_all is_digit s" by simp
    moreover from assms Nil \<open>s = ?w\<close> have "s \<noteq> []" by (auto simp: plain_decimal_def)
    ultimately show thesis using that [of s "[]"] by simp
  next
    case (Cons c f)
    with assms have f: "c = CHR ''.''" "list_all is_digit f" "?w \<noteq> [] \<or> f \<noteq> []"
      by (simp_all add: plain_decimal_def)
    with s Cons have "s = ?w @ CHR ''.'' # f" by simp
    moreover have "split_dot (?w @ CHR ''.'' # f) = (?w, f)"
      by (rule split_dot_digits(2) [OF w f(2)])
    ultimately show thesis using w f(2,3) that [of ?w f] by simp
  qed
qed

lemma plain_decimal_chars: "plain_decimal s \<Longrightarrow> c \<in> set s \<Longrightarrow> is_digit c \<or> c = CHR ''.''"
  by (erule plain_decimalE) (auto simp: list_all_iff)

lemma exponent_match_None: "(\<And>c. c \<in> set s \<Longrightarrow> \<not> is_exp_mark c) \<Longrightarrow> exponent_match s = None"
proof -
  assume "\<And>c. c \<in> set s \<Longrightarrow> \<not> is_exp_mark c"
  then have "dropWhile (\<lambda>c. \<not> is_exp_mark c) s = []" by (simp add: dropWhile_eq_Nil_conv)
  then show ?thesis by (simp only: exponent_match_def list.case)
qed

lemma exponent_match_plain: "plain_decimal s \<Longrightarrow> exponent_match s = None"
  by (rule exponent_match_None) (auto dest!: plain_decimal_chars simp: digit_not_mark is_exp_mark_def)

section \<open>Scaled values\<close>

lemma scaled_units_digits:
  assumes "list_all is_digit w" "list_all is_digit f"
  shows "scaled_units k w f
    = int (digits_val w) * 10 ^ k + int (digits_val (take k (f @ replicate k CHR ''0'')))"
proof -
  have "list_all is_digit (take k (f @ replicate k CHR ''0''))"
    using assms(2) by (auto simp: list_all_iff dest!: in_set_takeD)
  then have "bigint_of_text (take k (f @ replicate k CHR ''0''))
      = int (digits_val (take k (f @ replicate k CHR ''0'')))" by (rule bigint_of_digits)
  moreover have "bigint_of_text (or_text w ''0'') = int (digits_val w)"
    using assms(1) by (auto simp: or_text_def bigint_of_digits digits_val_Cons)
  ultimately show ?thesis by (simp add: scaled_units_def)
qed

lemma digits_val_take_pad:
  assumes "list_all is_digit f"
  shows "digits_val f * 10 ^ k
    = digits_val (take k (f @ replicate k CHR ''0'')) * 10 ^ length f
      + digits_val (drop k f) * 10 ^ k"
proof (cases "length f \<le> k")
  case True
  then have "take k (f @ replicate k CHR ''0'') = f @ replicate (k - length f) CHR ''0''"
    by (simp add: min_def)
  with True show ?thesis
    by (simp add: digits_val_append power_add [symmetric])
next
  case False
  then have "digits_val f = digits_val (take k f) * 10 ^ (length f - k) + digits_val (drop k f)"
    using digits_val_append [of "take k f" "drop k f"] by simp
  moreover have "10 ^ (length f - k) * 10 ^ k = (10::nat) ^ length f"
    using False by (simp add: power_add [symmetric])
  ultimately show ?thesis using False by (simp add: algebra_simps)
qed

text \<open>
  The scaled reading of \<open>w.f\<close> is its value times \<open>10 ^ k\<close> exactly when no digit is lost.
\<close>

lemma scaled_units_exact:
  assumes "list_all is_digit w" "list_all is_digit f" "\<not> loses_precision k f"
  shows "(of_int (scaled_units k w f) :: rat)
    = of_nat (digits_val (w @ f)) / 10 ^ length f * 10 ^ k"
proof -
  have "list_all is_digit (drop k f)" using assms(2) by (auto simp: list_all_iff dest: in_set_dropD)
  then have "digits_val (drop k f) = 0"
    using assms(3) digits_val_eq_0_iff by (cases "k < length f") (auto simp: loses_precision_def)
  with digits_val_take_pad [OF assms(2), of k]
  have "digits_val f * 10 ^ k = digits_val (take k (f @ replicate k CHR ''0'')) * 10 ^ length f"
    by simp
  then have "(of_nat (digits_val f) :: rat) * 10 ^ k
      = of_nat (digits_val (take k (f @ replicate k CHR ''0''))) * 10 ^ length f"
    by (metis of_nat_mult of_nat_numeral of_nat_power)
  then show ?thesis
    by (simp add: scaled_units_digits [OF assms(1,2)] digits_val_append field_simps)
qed

lemma loses_precision_not_integral:
  assumes "list_all is_digit w" "list_all is_digit f" "loses_precision k f"
  shows "(of_int u :: rat) \<noteq> of_nat (digits_val (w @ f)) / 10 ^ length f * 10 ^ k"
proof
  let ?p = "digits_val (take k f)" and ?q = "digits_val (drop k f)" and ?e = "length f - k"
  assume "(of_int u :: rat) = of_nat (digits_val (w @ f)) / 10 ^ length f * 10 ^ k"
  then have "(of_int u :: rat) * 10 ^ length f = of_nat (digits_val (w @ f)) * 10 ^ k"
    by (simp add: field_simps)
  then have "(of_int (u * 10 ^ length f) :: rat) = of_int (int (digits_val (w @ f)) * 10 ^ k)"
    by simp
  then have eq: "u * 10 ^ length f = int (digits_val (w @ f)) * 10 ^ k"
    by (simp only: of_int_eq_iff)
  have k: "k < length f" using assms(3) by (simp add: loses_precision_def)
  have dig: "list_all is_digit (drop k f)"
    using assms(2) by (auto simp: list_all_iff dest: in_set_dropD)
  have q: "0 < ?q" "?q < 10 ^ ?e"
    using assms(3) digits_val_eq_0_iff [OF dig] digits_val_less [OF dig]
    by (auto simp: loses_precision_def)
  have "(10::int) ^ length f = 10 ^ ?e * 10 ^ k" using k by (simp add: power_add [symmetric])
  with eq have "u * 10 ^ ?e = int (digits_val (w @ f))" by simp
  also have "digits_val (w @ f) = (digits_val w * 10 ^ k + ?p) * 10 ^ ?e + ?q"
    using k digits_val_append [of "w @ take k f" "drop k f"]
    by (simp add: digits_val_append)
  finally have "u * 10 ^ ?e = int (digits_val w * 10 ^ k + ?p) * 10 ^ ?e + int ?q" by simp
  then have "int ?q = (u - int (digits_val w * 10 ^ k + ?p)) * 10 ^ ?e"
    by (simp add: algebra_simps)
  then have "(10::int) ^ ?e dvd int ?q" by simp
  with q show False
    by (metis (mono_tags, lifting) nat_dvd_not_less of_nat_dvd_iff of_nat_numeral of_nat_power)
qed

lemma digits_val_or_take: "digits_val (or_text (take k p) ''0'' @ drop k p) = digits_val p"
  by (auto simp: or_text_def digits_val_Cons)

section \<open>Trimming\<close>

lemma not_white_marks [simp]: "\<not> is_white CHR ''-''" "\<not> is_white CHR ''+''" "\<not> is_white CHR ''.''"
  by (simp_all add: is_white_def)

lemma dropWhile_hd_id: "s = [] \<or> \<not> P (hd s) \<Longrightarrow> dropWhile P s = s"
  by (cases s) auto

lemma trim_id: "s = [] \<or> (\<not> is_white (hd s) \<and> \<not> is_white (last s)) \<Longrightarrow> trim s = s"
  by (auto simp: trim_def dropWhile_hd_id hd_rev)

lemma set_trim: "c \<in> set (trim s) \<Longrightarrow> c \<in> set s"
  unfolding trim_def by (auto dest!: set_dropWhileD)

text \<open>Stripping trailing zeros: what is left, and that the value only loses the zeros.\<close>

lemma strip_trailing_zeros_split:
  "s = strip_trailing_zeros s @ replicate (length s - length (strip_trailing_zeros s)) CHR ''0''"
proof (induction s rule: rev_induct)
  case (snoc c s)
  show ?case
  proof (cases "c = CHR ''0''")
    case True
    then have strip: "strip_trailing_zeros (s @ [c]) = strip_trailing_zeros s" by (simp add: strip_trailing_zeros_def)
    have "length (strip_trailing_zeros s) \<le> length s" by (metis length_append le_add1 snoc.IH)
    then have "replicate (length (s @ [c]) - length (strip_trailing_zeros s)) CHR ''0''
        = replicate (length s - length (strip_trailing_zeros s)) CHR ''0'' @ [c]"
      using True by (simp add: Suc_diff_le replicate_append_same)
    then show ?thesis unfolding strip using snoc.IH by (metis append.assoc)
  qed (simp add: strip_trailing_zeros_def)
qed (simp add: strip_trailing_zeros_def)

lemma list_all_strip_trailing_zeros: "list_all P s \<Longrightarrow> list_all P (strip_trailing_zeros s)"
  by (auto simp: strip_trailing_zeros_def list_all_iff dest!: set_dropWhileD)

lemma digits_val_strip_trailing_zeros:
  "digits_val s = digits_val (strip_trailing_zeros s) * 10 ^ (length s - length (strip_trailing_zeros s))"
  using arg_cong [OF strip_trailing_zeros_split [of s], of digits_val]
  by (simp only: digits_val_append digits_val_zeros length_replicate add_0_right)

end
