(* ===== verification/Rounding.thy ===== *)
theory Rounding
  imports Prelude Complex_Main
begin

text \<open>
  Rounding to the nearest integer with halves away from zero, the one rounding rule of the
  engine.  \<open>half_away\<close> states it on rationals; \<open>round_quot\<close> is the integer quotient the code
  computes, \<open>(\<bar>n\<bar> + d / 2) / d\<close> with the sign put back.  The facts connect the two and give
  the laws the components use: nearness, symmetry, monotonicity, exactness on multiples and
  shifting by whole quotients.
\<close>

definition half_away :: "rat \<Rightarrow> int" where
  "half_away x = (if x < 0 then - \<lfloor>1 / 2 - x\<rfloor> else \<lfloor>x + 1 / 2\<rfloor>)"

definition round_quot :: "int \<Rightarrow> int \<Rightarrow> int" where
  "round_quot n d = sgn n * ((\<bar>n\<bar> + d div 2) div d)"

lemma round_quot_zero [simp]: "round_quot 0 d = 0"
  by (simp add: round_quot_def)

lemma round_quot_minus [simp]: "round_quot (- n) d = - round_quot n d"
  by (simp add: round_quot_def)

lemma round_quot_nonneg_eq: "0 \<le> n \<Longrightarrow> 0 < d \<Longrightarrow> round_quot n d = (n + d div 2) div d"
  by (cases "n = 0") (simp_all add: round_quot_def)

lemma round_quot_iff:
  assumes "0 \<le> n" "0 < d"
  shows "round_quot n d = r \<longleftrightarrow> (2 * r - 1) * d \<le> 2 * n \<and> 2 * n < (2 * r + 1) * d"
proof -
  have "round_quot n d = r \<longleftrightarrow> r * d \<le> n + d div 2 \<and> n + d div 2 < r * d + d"
    using assms by (simp add: round_quot_nonneg_eq div_int_iff)
  also have "\<dots> \<longleftrightarrow> 2 * (r * d) - d \<le> 2 * n \<and> 2 * n < 2 * (r * d) + d"
    by (cases "even d") (auto elim!: evenE oddE)
  finally show ?thesis by (simp add: algebra_simps)
qed

lemma round_quot_nonneg: "0 \<le> n \<Longrightarrow> 0 < d \<Longrightarrow> 0 \<le> round_quot n d"
  by (simp add: round_quot_nonneg_eq pos_imp_zdiv_nonneg_iff)

lemma round_quot_near:
  assumes "0 < d"
  shows "2 * \<bar>n - round_quot n d * d\<bar> \<le> d"
proof -
  have pos: "2 * \<bar>m - round_quot m d * d\<bar> \<le> d" if "0 \<le> m" for m
  proof -
    have "2 * (round_quot m d * d) - d \<le> 2 * m" "2 * m < 2 * (round_quot m d * d) + d"
      using round_quot_iff [OF that assms, of "round_quot m d"] by (simp_all add: algebra_simps)
    then show ?thesis by (auto simp: abs_if)
  qed
  show ?thesis
  proof (cases "0 \<le> n")
    case True
    then show ?thesis by (rule pos)
  next
    case False
    then show ?thesis using pos [of "- n"] by (simp add: abs_minus_commute)
  qed
qed

lemma round_quot_half_away:
  assumes "0 < d"
  shows "round_quot n d = half_away (of_int n / of_int d)"
proof -
  have pos: "round_quot m d = \<lfloor>(of_int m / of_int d :: rat) + 1 / 2\<rfloor>" if m: "0 \<le> m" for m
  proof -
    let ?r = "round_quot m d"
    have "(2 * ?r - 1) * d \<le> 2 * m" "2 * m < (2 * ?r + 1) * d"
      using round_quot_iff [OF m assms, of ?r] by simp_all
    then have "of_int ((2 * ?r - 1) * d) \<le> (of_int (2 * m) :: rat)"
      "(of_int (2 * m) :: rat) < of_int ((2 * ?r + 1) * d)"
      by (simp_all only: of_int_le_iff of_int_less_iff)
    then have "(of_int ?r :: rat) \<le> of_int m / of_int d + 1 / 2"
      "(of_int m / of_int d + 1 / 2 :: rat) < of_int ?r + 1"
      using assms by (simp_all add: field_simps)
    then show ?thesis by (intro floor_unique [symmetric])
  qed
  show ?thesis
  proof (cases "0 \<le> n")
    case True
    then show ?thesis using assms pos by (simp add: half_away_def divide_less_0_iff)
  next
    case False
    then show ?thesis using assms pos [of "- n"]
      by (simp add: half_away_def divide_less_0_iff algebra_simps)
  qed
qed

lemma round_quot_mult [simp]:
  assumes "0 < d"
  shows "round_quot (k * d) d = k" "round_quot (d * k) d = k"
proof -
  have pos: "round_quot (m * d) d = m" if "0 \<le> m" for m
    using that assms by (subst round_quot_iff) (auto simp: algebra_simps)
  show "round_quot (k * d) d = k"
  proof (cases "0 \<le> k")
    case False
    then show ?thesis using pos [of "- k"] by simp
  qed (rule pos)
  then show "round_quot (d * k) d = k" by (simp add: mult.commute)
qed

lemma round_quot_shift:
  assumes "0 \<le> n" "0 \<le> n + k * d" "0 < d"
  shows "round_quot (n + k * d) d = round_quot n d + k"
proof -
  have "(n + k * d + d div 2) div d = (n + d div 2) div d + k"
    using assms(3) by (metis add.assoc add.commute div_mult_self1 less_irrefl)
  then show ?thesis using assms by (simp add: round_quot_nonneg_eq)
qed

lemma round_quot_mono:
  assumes "n \<le> m" "0 < d"
  shows "round_quot n d \<le> round_quot m d"
proof -
  have pos: "round_quot a d \<le> round_quot b d" if "0 \<le> a" "a \<le> b" for a b
    using that assms(2) by (simp add: round_quot_nonneg_eq zdiv_mono1)
  consider "0 \<le> n" | "n < 0" "0 \<le> m" | "m < 0" by linarith
  then show ?thesis
  proof cases
    case 1
    then show ?thesis using pos assms(1) by simp
  next
    case 2
    then have "0 \<le> round_quot (- n) d" "0 \<le> round_quot m d"
      using assms(2) by (simp_all add: round_quot_nonneg del: round_quot_minus)
    then show ?thesis by simp
  next
    case 3
    then show ?thesis using pos [of "- m" "- n"] assms(1) by simp
  qed
qed

lemma half_away_near: "\<bar>of_int (half_away x) - x\<bar> \<le> 1 / 2"
proof -
  have near: "\<bar>of_int \<lfloor>y + 1 / 2\<rfloor> - y\<bar> \<le> 1 / 2" for y :: rat
  proof -
    define p :: rat where "p = of_int \<lfloor>y + 1 / 2\<rfloor>"
    have "p \<le> y + 1 / 2" "y + 1 / 2 < p + 1" unfolding p_def by linarith+
    then show ?thesis unfolding p_def [symmetric] by (simp add: abs_if)
  qed
  show ?thesis
    using near [of x] near [of "- x"] by (auto simp: half_away_def abs_minus_commute algebra_simps)
qed

lemma half_away_of_int [simp]: "half_away (of_int k) = k"
proof -
  have "\<lfloor>(of_int m :: rat) + 1 / 2\<rfloor> = m" for m by (rule floor_unique) simp_all
  from this [of k] this [of "- k"] show ?thesis
    by (simp add: half_away_def algebra_simps)
qed

lemma half_away_minus: "half_away (- x) = - half_away x"
  using half_away_of_int [of 0] by (cases "x = 0") (simp_all add: half_away_def algebra_simps)

lemma round_quot_pos_sign: "0 < round_quot n d \<Longrightarrow> 0 < d \<Longrightarrow> 0 < n"
proof (rule ccontr)
  assume *: "0 < round_quot n d" "0 < d" "\<not> 0 < n"
  then have "0 \<le> round_quot (- n) d" by (simp add: round_quot_nonneg del: round_quot_minus)
  with * show False by simp
qed

lemma half_away_mono:
  assumes "x \<le> y"
  shows "half_away x \<le> half_away y"
proof -
  have pos: "half_away a \<le> half_away b" if "0 \<le> a" "a \<le> b" for a b
    using that by (simp add: half_away_def floor_mono)
  have nonneg: "0 \<le> half_away a" if "0 \<le> a" for a using pos [of 0 a] that half_away_of_int [of 0] by simp
  consider "0 \<le> x" | "x < 0" "0 \<le> y" | "y < 0" by linarith
  then show ?thesis
  proof cases
    case 1
    then show ?thesis using pos assms by simp
  next
    case 2
    then show ?thesis using nonneg [of y] nonneg [of "- x"] half_away_minus [of x] by simp
  next
    case 3
    then show ?thesis using pos [of "- y" "- x"] assms half_away_minus [of x] half_away_minus [of y] by simp
  qed
qed

lemma half_away_nonneg: "0 \<le> x \<Longrightarrow> 0 \<le> half_away x"
  using half_away_mono [of 0 x] half_away_of_int [of 0] by simp

end
