(* ===== verification/Money.thy ===== *)
theory Money
  imports Js_Text Rounding
begin

text \<open>
  \<open>engine/src/money/money.ts\<close>: ledger money as decimal text, computed exactly in integer
  units of 1/10000.  This theory has the reader \<open>toUnits\<close>, the printer \<open>fromUnits\<close>, the
  rounding division \<open>roundDiv\<close> and the arithmetic built on them; the splitting functions
  of the same file are in \<open>Money_Split\<close>.  An argument the source types
  \<open>string | number\<close> is its text \<open>String(value)\<close>; a \<open>number\<close> that the code requires to be
  an integer is an \<open>int\<close>.

  The facts: \<open>toUnits\<close> returns \<open>u\<close> exactly for the texts that denote \<open>u / 10000\<close> and
  refuses every other text, printing and reading are inverse, \<open>roundDiv\<close> is rounding to
  the nearest integer with halves away from zero, and every operation is the exact
  rational result rounded once.
\<close>

section \<open>Definitions\<close>

abbreviation SCALE :: int where "SCALE \<equiv> 10000"
abbreviation RATE_SCALE :: int where "RATE_SCALE \<equiv> 10000000000"
abbreviation MAX_SCIENTIFIC_EXPONENT :: int where "MAX_SCIENTIFIC_EXPONENT \<equiv> 10000"

text \<open>
  \<open>Number(text)\<close> is exact below \<open>2 ^ 53\<close> and at least \<open>2 ^ 53\<close> above it, so the two
  tests read the same on the integer the text denotes.
\<close>

definition parseBoundedExponent :: "string \<Rightarrow> int result" where
  "parseBoundedExponent t = (let exponent = number_of_integer_text t in
     if \<not> \<bar>exponent\<bar> \<le> 9007199254740991 \<or> \<bar>exponent\<bar> > MAX_SCIENTIFIC_EXPONENT
     then Inl (Error ''scientific exponent out of supported range'')
     else Inr exponent)"

definition decimalFactorUnits :: "string \<Rightarrow> int result" where
  "decimalFactorUnits value = (let raw = trim value in
     if \<not> signed_plain_decimal raw then Inl (Error ''not a decimal factor'')
     else let negative = starts_minus raw; unsigned = strip_sign raw;
              (whole, fraction) = split_dot unsigned in
       if loses_precision 10 fraction
       then Inl (Error ''decimal factor loses precision beyond 10 decimal places'')
       else let units = scaled_units 10 whole fraction in
         Inr (if negative then - units else units))"

definition roundDiv :: "int \<Rightarrow> int \<Rightarrow> int result" where
  "roundDiv numerator denominator =
     (if denominator \<le> 0 then Inl (Error ''denominator must be greater than zero'')
      else let negative = numerator < 0;
               absolute = (if negative then - numerator else numerator);
               rounded = (absolute + denominator sdiv 2) sdiv denominator
           in Inr (if negative then - rounded else rounded))"

text \<open>\<open>CANONICAL_MONEY = /^-?\d+\.\d{4}$/\<close>\<close>

definition canonical_money :: "string \<Rightarrow> bool" where
  "canonical_money s = (let u = (if starts_minus s then tl s else s);
       w = takeWhile is_digit u; r = dropWhile is_digit u in
     w \<noteq> [] \<and> (case r of [] \<Rightarrow> False
       | c # f \<Rightarrow> c = CHR ''.'' \<and> length f = 4 \<and> list_all is_digit f))"

text \<open>Expanding scientific notation: the point moves by the exponent.\<close>

definition shift_point :: "int \<Rightarrow> string \<Rightarrow> string \<Rightarrow> string \<times> string" where
  "shift_point e intPart fracPart =
     (if e > 0 then
        let n = nat e; f = padEnd fracPart n CHR ''0'' in (intPart @ take n f, drop n f)
      else if e < 0 then
        let n = nat (- e); i = padStart intPart n CHR ''0'' in
        (or_text (but_last_chars n i) ''0'', last_chars n i @ fracPart)
      else (intPart, fracPart))"

definition units_of_parts :: "bool \<Rightarrow> string \<times> string \<Rightarrow> int result" where
  "units_of_parts negative parts = (case parts of (intPart, fracPart) \<Rightarrow>
     if loses_precision 4 fracPart then Inl (Error ''loses precision beyond 4 decimal places'')
     else let units = bigint_of_text (or_text intPart ''0'') * SCALE
                        + bigint_of_text (take 4 (fracPart @ ''0000''))
          in Inr (if negative then - units else units))"

definition toUnits_general :: "string \<Rightarrow> int result" where
  "toUnits_general s = (let str = trim s in
     if \<not> decimal_number str then Inl (Error ''not a decimal number'')
     else let negative = starts_minus str; u = strip_sign str in
       (case exponent_match u of
          None \<Rightarrow> units_of_parts negative (case split_dot u of (i, f) \<Rightarrow> shift_point 0 i f)
        | Some (m, t) \<Rightarrow> bindE (parseBoundedExponent t) (\<lambda>e.
            units_of_parts negative (case split_dot m of (i, f) \<Rightarrow> shift_point e i f))))"

definition toUnits :: "string \<Rightarrow> int result" where
  "toUnits s = (if canonical_money s then Inr (bigint_of_text (remove1 CHR ''.'' s))
                else toUnits_general s)"

definition fromUnits :: "int \<Rightarrow> string" where
  "fromUnits u = (let negative = u < 0; a = (if negative then - u else u);
       i = a sdiv SCALE; frac = padStart (bigint_text (a smod SCALE)) 4 CHR ''0''
     in (if negative then ''-'' else []) @ bigint_text i @ ''.'' @ frac)"

definition add_money :: "string \<Rightarrow> string \<Rightarrow> string result" where
  "add_money a b = bindE (toUnits a) (\<lambda>ua. bindE (toUnits b) (\<lambda>ub. Inr (fromUnits (ua + ub))))"

definition neg_money :: "string \<Rightarrow> string result" where
  "neg_money a = bindE (toUnits a) (\<lambda>ua. Inr (fromUnits (- ua)))"

definition abs_money :: "string \<Rightarrow> string result" where
  "abs_money a = bindE (toUnits a) (\<lambda>units. Inr (fromUnits (if units < 0 then - units else units)))"

definition sum_money :: "string list \<Rightarrow> string result" where
  "sum_money xs = bindE (foldE (\<lambda>acc x. bindE (toUnits x) (\<lambda>u. Inr (acc + u))) 0 xs)
     (\<lambda>u. Inr (fromUnits u))"

definition toCents :: "string \<Rightarrow> int result" where
  "toCents value = bindE (toUnits value) (\<lambda>u. roundDiv u 100)"

definition quantumScale :: "int \<Rightarrow> int result" where
  "quantumScale quantum =
     (if quantum < 0 \<or> quantum > 4
      then Inl (Error ''currency quantum must be an integer from 0 through 4'')
      else Inr (10 ^ nat (4 - quantum)))"

definition isZero :: "string \<Rightarrow> bool result" where
  "isZero a = bindE (toUnits a) (\<lambda>u. Inr (u = 0))"

definition cmp_money :: "string \<Rightarrow> string \<Rightarrow> int result" where
  "cmp_money a b = bindE (toUnits a) (\<lambda>ua. bindE (toUnits b) (\<lambda>ub.
     let d = ua - ub in Inr (if d < 0 then - 1 else if d > 0 then 1 else 0)))"

definition mul_money :: "string \<Rightarrow> string \<Rightarrow> string result" where
  "mul_money a b = bindE (toUnits a) (\<lambda>ua. bindE (toUnits b) (\<lambda>ub.
     bindE (roundDiv (ua * ub) SCALE) (\<lambda>q. Inr (fromUnits q))))"

text \<open>\<open>s.replace(/^\+/, "")\<close> and \<open>/^\+?(\d+(\.\d*)?|\.\d+)$/\<close>\<close>

definition strip_plus :: "string \<Rightarrow> string" where
  "strip_plus s = (case s of [] \<Rightarrow> [] | c # r \<Rightarrow> if c = CHR ''+'' then r else s)"

definition div_money :: "string \<Rightarrow> string \<Rightarrow> string result" where
  "div_money a b = (let raw = trim b; negative = starts_minus raw;
       magnitude = (if negative then tl raw else raw) in
     if \<not> plain_decimal (strip_plus magnitude) then Inl (Error ''not a numeric divisor'')
     else let (whole, fraction) = split_dot (strip_plus magnitude) in
       if loses_precision 10 fraction
       then Inl (Error ''divisor loses precision beyond 10 decimal places'')
       else let divisorUnits = scaled_units 10 whole fraction in
         if divisorUnits = 0 then Inl (Error ''cannot divide by zero'')
         else bindE (toUnits a) (\<lambda>ua. bindE (roundDiv (ua * RATE_SCALE) divisorUnits) (\<lambda>q.
           Inr (fromUnits (if negative then - q else q)))))"

definition mulDecimalFactors :: "string \<Rightarrow> string list \<Rightarrow> int \<Rightarrow> int \<Rightarrow> int \<Rightarrow> string result" where
  "mulDecimalFactors amount factors ratioNumerator ratioDenominator decimalPlaces =
     (if decimalPlaces < 0 \<or> decimalPlaces > 4
      then Inl (Error ''decimalPlaces must be an integer from 0 through 4'')
      else if ratioNumerator < 0 then Inl (Error ''ratio numerator cannot be negative'')
      else if ratioDenominator \<le> 0 then Inl (Error ''ratio denominator must be greater than zero'')
      else bindE (toUnits amount) (\<lambda>ua.
        bindE (foldE (\<lambda>(n, d) factor. bindE (decimalFactorUnits factor) (\<lambda>fu.
                 Inr (n * fu, d * RATE_SCALE))) (ua * ratioNumerator, ratioDenominator) factors)
        (\<lambda>(n, d). let quantum = 10 ^ nat (4 - decimalPlaces) in
          bindE (roundDiv n (d * quantum)) (\<lambda>q. Inr (fromUnits (q * quantum))))))"

definition mulDecimal :: "string \<Rightarrow> string \<Rightarrow> string result" where
  "mulDecimal amount factor = mulDecimalFactors amount [factor] 1 1 4"

definition mulPercent :: "string \<Rightarrow> string \<Rightarrow> int \<Rightarrow> string result" where
  "mulPercent amount percent decimalPlaces =
     (if decimalPlaces < 0 \<or> decimalPlaces > 4
      then Inl (Error ''decimalPlaces must be an integer from 0 through 4'')
      else let t = trim percent; (whole, fraction) = split_dot (strip_sign t) in
        if \<not> signed_plain_decimal t \<or> length fraction > 18
        then Inl (Error ''not a plain percentage with at most 18 decimal places'')
        else let percentUnits = bigint_of_text (or_text whole ''0'' @ fraction)
                                  * (if starts_minus t then - 1 else 1);
                 quantum = 10 ^ nat (4 - decimalPlaces)
          in bindE (toUnits amount) (\<lambda>ua.
               bindE (roundDiv (ua * percentUnits) (100 * 10 ^ length fraction * quantum))
                 (\<lambda>roundedQuanta. Inr (fromUnits (roundedQuanta * quantum)))))"

definition mulRatio :: "string \<Rightarrow> int \<Rightarrow> int \<Rightarrow> string result" where
  "mulRatio amount numerator denominator =
     (if numerator < 0 then Inl (Error ''ratio numerator cannot be negative'')
      else if denominator \<le> 0 then Inl (Error ''ratio denominator must be greater than zero'')
      else bindE (toUnits amount) (\<lambda>ua.
        bindE (roundDiv (ua * numerator) denominator) (\<lambda>q. Inr (fromUnits q))))"

text \<open>\<open>coveredDays\<close> may carry a fraction; \<open>BigInt(totalDays)\<close> requires an integer.\<close>

definition prorateDays :: "string \<Rightarrow> rat \<Rightarrow> int \<Rightarrow> string result" where
  "prorateDays fullAmount coveredDays totalDays =
     (if \<not> totalDays > 0 then Inr ''0.0000''
      else let covered = max 0 (min totalDays \<lfloor>coveredDays\<rfloor>) in
        mulRatio fullAmount covered totalDays)"

definition normalizeMoney :: "string \<Rightarrow> string result" where
  "normalizeMoney value = bindE (toUnits value) (\<lambda>u. Inr (fromUnits u))"

abbreviation MAX_LEDGER_WHOLE_DIGITS :: nat where "MAX_LEDGER_WHOLE_DIGITS \<equiv> 15"

definition wholeDigits :: "string \<Rightarrow> nat" where
  "wholeDigits canonical =
     length (dropWhile (\<lambda>c. c = CHR ''0'') (fst (split_dot (strip_sign canonical))))"

definition fitsLedgerRange :: "string \<Rightarrow> bool" where
  "fitsLedgerRange canonical \<longleftrightarrow> wholeDigits canonical \<le> MAX_LEDGER_WHOLE_DIGITS"

record ledger_side_totals =
  debits :: string
  credits :: string

definition ledgerSideTotals :: "string list \<Rightarrow> ledger_side_totals result" where
  "ledgerSideTotals amounts =
     bindE (foldE (\<lambda>(positives, negatives) amount. bindE (cmp_money amount ''0'') (\<lambda>c.
              if c < 0 then Inr (positives, negatives @ [amount])
              else Inr (positives @ [amount], negatives))) ([], []) amounts)
       (\<lambda>(positives, negatives). bindE (sum_money positives) (\<lambda>d.
          bindE (traverse neg_money negatives) (\<lambda>ns. bindE (sum_money ns) (\<lambda>c.
            Inr \<lparr>debits = d, credits = c\<rparr>))))"

definition roundMoney :: "string \<Rightarrow> int \<Rightarrow> string result" where
  "roundMoney value decimalPlaces =
     (if decimalPlaces < 0 \<or> decimalPlaces > 4
      then Inl (Error ''decimalPlaces must be an integer from 0 through 4'')
      else let quantum = 10 ^ nat (4 - decimalPlaces) in
        bindE (toUnits value) (\<lambda>u. bindE (roundDiv u quantum) (\<lambda>q.
          Inr (fromUnits (q * quantum)))))"

definition formatMoney :: "string \<Rightarrow> int \<Rightarrow> string result" where
  "formatMoney value decimalPlaces = bindE (roundMoney value decimalPlaces) (\<lambda>rounded.
     let (whole, fraction) = split_dot rounded in
     Inr (if decimalPlaces = 0 then whole
          else whole @ ''.'' @ take (nat decimalPlaces) fraction))"

text \<open>The rate reader that \<open>mulRate\<close> and \<open>divRate\<close> open with.\<close>

definition fx_rate_units :: "string \<Rightarrow> int result" where
  "fx_rate_units rate = (let raw = trim rate in
     if \<not> plain_decimal (strip_plus raw) then Inl (Error ''not a positive FX rate'')
     else let (whole, fraction) = split_dot (strip_plus raw) in
       if loses_precision 10 fraction
       then Inl (Error ''FX rate loses precision beyond 10 decimal places'')
       else let rateUnits = scaled_units 10 whole fraction in
         if rateUnits \<le> 0 then Inl (Error ''FX rate must be greater than zero'')
         else Inr rateUnits)"

definition mulRate :: "string \<Rightarrow> string \<Rightarrow> string result" where
  "mulRate amount rate = bindE (fx_rate_units rate) (\<lambda>rateUnits.
     bindE (toUnits amount) (\<lambda>ua. bindE (roundDiv (ua * rateUnits) RATE_SCALE) (\<lambda>q.
       Inr (fromUnits q))))"

definition divRate :: "string \<Rightarrow> string \<Rightarrow> string result" where
  "divRate amount rate = bindE (fx_rate_units rate) (\<lambda>rateUnits.
     bindE (toUnits amount) (\<lambda>ua. bindE (roundDiv (ua * RATE_SCALE) rateUnits) (\<lambda>q.
       Inr (fromUnits q))))"

definition normalizeDecimal :: "string \<Rightarrow> int \<Rightarrow> string result" where
  "normalizeDecimal value decimalPlaces =
     (if decimalPlaces < 0 \<or> decimalPlaces > 10
      then Inl (Error ''decimalPlaces must be an integer from 0 through 10'')
      else let raw0 = trim value in
        if \<not> decimal_number raw0 then Inl (Error ''not a decimal number'')
        else let negative = starts_minus raw0; raw1 = strip_sign raw0 in
          bindE (case exponent_match raw1 of
                   None \<Rightarrow> Inr (raw1, 0)
                 | Some (m, t) \<Rightarrow> bindE (parseBoundedExponent t) (\<lambda>e. Inr (m, e)))
          (\<lambda>(raw, exponent).
            let (wholePart, fractionPart) = split_dot raw;
                digits0 = or_text (wholePart @ fractionPart) ''0'';
                index0 = int (length wholePart) + exponent;
                (digits, index) =
                  (if index0 \<le> 0 then (replicate (nat (- index0)) CHR ''0'' @ digits0, 0)
                   else if index0 \<ge> int (length digits0)
                   then (padEnd digits0 (nat index0) CHR ''0'', nat index0)
                   else (digits0, nat index0));
                whole0 = or_text (take index digits) ''0'';
                fraction0 = drop index digits; dp = nat decimalPlaces
            in if loses_precision dp fraction0
               then Inl (Error ''decimal loses precision beyond decimal places'')
               else let whole = or_text (dropWhile (\<lambda>c. c = CHR ''0'') whole0) ''0'';
                        fraction = padEnd (take dp fraction0) dp CHR ''0'';
                        zero = (whole = ''0'' \<and> \<not> list_ex nonzero_digit fraction)
                    in Inr ((if negative \<and> \<not> zero then ''-'' else []) @ whole
                            @ (if decimalPlaces > 0 then CHR ''.'' # fraction else []))))"

section \<open>Rounding division\<close>

lemma roundDiv_pos [unit_simps]: "0 < d \<Longrightarrow> roundDiv n d = Inr (round_quot n d)"
  by (auto simp: roundDiv_def round_quot_def Let_def sdiv_nonneg pos_imp_zdiv_nonneg_iff sgn_if)

lemma roundDiv_Inr_iff [result_simps]: "roundDiv n d = Inr q \<longleftrightarrow> 0 < d \<and> q = round_quot n d"
  by (cases "0 < d") (auto simp: roundDiv_pos, simp add: roundDiv_def)

section \<open>Printing\<close>

lemma fromUnits_eq:
  "fromUnits u = (if u < 0 then ''-'' else []) @ nat_text (nat (\<bar>u\<bar> div SCALE))
     @ CHR ''.'' # padStart (nat_text (nat (\<bar>u\<bar> mod SCALE))) 4 CHR ''0''"
proof -
  have a: "(if u < 0 then - u else u) = \<bar>u\<bar>" by simp
  have b: "\<not> \<bar>u\<bar> div SCALE < 0" "\<not> \<bar>u\<bar> mod SCALE < 0" by (simp_all add: not_less pos_imp_zdiv_nonneg_iff)
  show ?thesis
    by (simp add: fromUnits_def a b bigint_text_def sdiv_nonneg smod_nonneg Let_def)
qed

lemma length_cents: "length (padStart (nat_text (nat (\<bar>u\<bar> mod SCALE))) 4 CHR ''0'') = 4"
proof -
  have "nat (\<bar>u\<bar> mod SCALE) < 10 ^ 4" by simp
  then have "length (nat_text (nat (\<bar>u\<bar> mod SCALE))) \<le> 4" by (rule length_nat_text_le) simp
  then show ?thesis by simp
qed

text \<open>The shape of a canonical money text, and that \<open>fromUnits\<close> always prints one.\<close>

lemma canonical_money_iff:
  "canonical_money s \<longleftrightarrow> (\<exists>w f. list_all is_digit w \<and> w \<noteq> [] \<and> list_all is_digit f \<and> length f = 4
     \<and> s = (if starts_minus s then ''-'' else []) @ w @ CHR ''.'' # f)"
  (is "_ \<longleftrightarrow> (\<exists>w f. ?shape w f)")
proof
  let ?u = "if starts_minus s then tl s else s"
  let ?w = "takeWhile is_digit ?u"
  assume c: "canonical_money s"
  then obtain f where f: "dropWhile is_digit ?u = CHR ''.'' # f" "length f = 4" "list_all is_digit f" "?w \<noteq> []"
    by (auto simp: canonical_money_def Let_def split: list.splits)
  have "?u = ?w @ CHR ''.'' # f" unfolding f(1) [symmetric] by (rule takeWhile_dropWhile_id [symmetric])
  then have "(if starts_minus s then ''-'' else []) @ ?u
      = (if starts_minus s then ''-'' else []) @ ?w @ CHR ''.'' # f" by (rule arg_cong)
  moreover have "s = (if starts_minus s then ''-'' else []) @ ?u" by (cases s) auto
  ultimately have "s = (if starts_minus s then ''-'' else []) @ ?w @ CHR ''.'' # f"
    by (rule trans [rotated])
  moreover have "list_all is_digit ?w" by (auto simp: list_all_iff dest: set_takeWhileD)
  ultimately show "\<exists>w f. ?shape w f" using f by blast
next
  assume "\<exists>w f. ?shape w f"
  then obtain w f where *: "list_all is_digit w" "w \<noteq> []" "list_all is_digit f" "length f = 4"
    and s: "s = (if starts_minus s then ''-'' else []) @ w @ CHR ''.'' # f" by blast
  let ?u = "if starts_minus s then tl s else s"
  have u: "?u = w @ CHR ''.'' # f"
  proof (cases "starts_minus s")
    case True
    with s have "s = CHR ''-'' # w @ CHR ''.'' # f" by simp
    then show ?thesis by simp
  next
    case False
    with s show ?thesis by simp
  qed
  have "takeWhile is_digit ?u = w" "dropWhile is_digit ?u = CHR ''.'' # f"
    using * unfolding u by (auto simp: takeWhile_append2 dropWhile_append2 list_all_iff)
  with * show "canonical_money s" by (simp add: canonical_money_def Let_def)
qed

lemma digits_starts_minus: "list_all is_digit w \<Longrightarrow> w \<noteq> [] \<Longrightarrow> \<not> starts_minus (w @ r)"
  by (cases w) (auto simp: digit_not_mark)

lemma fromUnits_canonical: "canonical_money (fromUnits u)"
  unfolding canonical_money_iff
  by (rule exI [of _ "nat_text (nat (\<bar>u\<bar> div SCALE))"],
      rule exI [of _ "padStart (nat_text (nat (\<bar>u\<bar> mod SCALE))) 4 CHR ''0''"])
    (simp add: fromUnits_eq length_cents digits_starts_minus del: length_padStart)

section \<open>Reading: the value a decimal text denotes\<close>

text \<open>
  The reference reading of a decimal text: its sign, the digits before and after the point
  and its exponent, and the rational number they denote.
\<close>

definition decimal_parts :: "string \<Rightarrow> (bool \<times> string \<times> string \<times> int) option" where
  "decimal_parts s = (let t = trim s; u = strip_sign t in
     if \<not> decimal_number t then None
     else (case exponent_match u of
         None \<Rightarrow> (case split_dot u of (w, f) \<Rightarrow> Some (starts_minus t, w, f, 0))
       | Some (m, e) \<Rightarrow>
           (case split_dot m of (w, f) \<Rightarrow> Some (starts_minus t, w, f, number_of_integer_text e))))"

definition signed_value :: "bool \<Rightarrow> string \<Rightarrow> string \<Rightarrow> int \<Rightarrow> rat" where
  "signed_value n w f e =
     (if n then - 1 else 1) * (of_nat (digits_val (w @ f)) / 10 ^ length f * 10 powi e)"

definition decimal_value :: "string \<Rightarrow> rat option" where
  "decimal_value s = map_option (\<lambda>(n, w, f, e). signed_value n w f e) (decimal_parts s)"

definition exponent_in_range :: "string \<Rightarrow> bool" where
  "exponent_in_range s =
     (case decimal_parts s of None \<Rightarrow> False | Some (_, _, _, e) \<Rightarrow> \<bar>e\<bar> \<le> MAX_SCIENTIFIC_EXPONENT)"

lemma decimal_parts_digits:
  assumes "decimal_parts s = Some (n, w, f, e)"
  shows "list_all is_digit w" "list_all is_digit f" "w \<noteq> [] \<or> f \<noteq> []"
proof -
  from assms obtain m where m: "plain_decimal m" "split_dot m = (w, f)"
    by (auto simp: decimal_parts_def Let_def decimal_number_def split: if_splits option.splits prod.splits)
  then show "list_all is_digit w" "list_all is_digit f" "w \<noteq> [] \<or> f \<noteq> []"
    by (auto elim!: plain_decimalE)
qed

lemma parseBoundedExponent_eq:
  "parseBoundedExponent t = (if \<bar>number_of_integer_text t\<bar> \<le> MAX_SCIENTIFIC_EXPONENT
     then Inr (number_of_integer_text t)
     else Inl (Error ''scientific exponent out of supported range''))"
  by (auto simp: parseBoundedExponent_def Let_def)

lemma toUnits_general_parts:
  "toUnits_general s = (case decimal_parts s of
     None \<Rightarrow> Inl (Error ''not a decimal number'')
   | Some (n, w, f, e) \<Rightarrow>
       if \<bar>e\<bar> \<le> MAX_SCIENTIFIC_EXPONENT then units_of_parts n (shift_point e w f)
       else Inl (Error ''scientific exponent out of supported range''))"
  by (simp add: toUnits_general_def decimal_parts_def Let_def parseBoundedExponent_eq
      split: option.splits prod.splits)

lemma shift_point_digits:
  assumes "list_all is_digit w" "list_all is_digit f" "shift_point e w f = (i, g)"
  shows "list_all is_digit i" "list_all is_digit g"
  using assms
  by (auto simp: shift_point_def Let_def padEnd_def padStart_def or_text_def but_last_chars_def
      last_chars_def list_all_iff split: if_splits dest!: in_set_takeD in_set_dropD)

text \<open>Moving the point by the exponent keeps the value.\<close>

lemma shift_point_value:
  assumes "list_all is_digit w" "list_all is_digit f" "shift_point e w f = (i, g)"
  shows "(of_nat (digits_val (i @ g)) / 10 ^ length g :: rat)
    = of_nat (digits_val (w @ f)) / 10 ^ length f * 10 powi e"
proof -
  consider (pos) "e > 0" | (neg) "e < 0" | (zero) "e = 0" by linarith
  then show ?thesis
  proof cases
    case pos
    let ?n = "nat e" and ?p = "padEnd f (nat e) CHR ''0''"
    have "i = w @ take ?n ?p" "g = drop ?n ?p"
      using assms(3) pos by (auto simp: shift_point_def Let_def)
    then have "i @ g = w @ ?p" and "length g = length f - ?n"
      by (simp, simp add: padEnd_def)
    then have "i @ g = w @ f @ replicate (?n - length f) CHR ''0''"
      and "length g = length f - ?n" by (simp_all add: padEnd_def)
    then have "digits_val (i @ g) = digits_val (w @ f) * 10 ^ (?n - length f)"
      by (simp add: digits_val_append algebra_simps power_add)
    moreover have "(10::rat) ^ (?n - length f) / 10 ^ (length f - ?n) = 10 ^ ?n / 10 ^ length f"
      by (cases "?n \<le> length f") (simp_all add: field_simps power_add [symmetric])
    moreover have "(10::rat) powi e = 10 ^ ?n" using pos by (simp add: power_int_def)
    ultimately show ?thesis using \<open>length g = _\<close> by (simp add: field_simps)
  next
    case neg
    let ?n = "nat (- e)" and ?p = "padStart w (nat (- e)) CHR ''0''"
    have ig: "i = or_text (but_last_chars ?n ?p) ''0''" "g = last_chars ?n ?p @ f"
      using assms(3) neg by (auto simp: shift_point_def Let_def)
    have "digits_val (i @ last_chars ?n ?p) = digits_val ?p"
      unfolding ig(1) but_last_chars_def last_chars_def by (rule digits_val_or_take)
    then have "digits_val (i @ last_chars ?n ?p) = digits_val w" by simp
    moreover have "digits_val (i @ g) = digits_val (i @ last_chars ?n ?p) * 10 ^ length f + digits_val f"
      by (simp add: ig(2) digits_val_append algebra_simps power_add)
    ultimately have "digits_val (i @ g) = digits_val (w @ f)"
      by (simp add: digits_val_append)
    moreover have "length g = ?n + length f" by (simp add: ig(2) last_chars_def)
    moreover have "(10::rat) powi e = 1 / 10 ^ ?n" using neg by (simp add: power_int_def field_simps)
    ultimately show ?thesis by (simp add: power_add)
  next
    case zero
    then show ?thesis using assms(3) by (simp add: shift_point_def)
  qed
qed

lemma units_of_parts_scaled:
  "units_of_parts n (i, g) = (if loses_precision 4 g
     then Inl (Error ''loses precision beyond 4 decimal places'')
     else Inr ((if n then - 1 else 1) * scaled_units 4 i g))"
  by (simp add: units_of_parts_def scaled_units_def Let_def numeral_eq_Suc)

lemma units_of_parts_exact:
  assumes "list_all is_digit i" "list_all is_digit g"
  shows "units_of_parts n (i, g) = Inr u
    \<longleftrightarrow> of_int u = (if n then - 1 else 1) * (of_nat (digits_val (i @ g)) / 10 ^ length g * 10000 :: rat)"
proof (cases "loses_precision 4 g")
  case True
  then show ?thesis
    using loses_precision_not_integral [OF assms True, of u] loses_precision_not_integral [OF assms True, of "- u"]
    by (auto simp: units_of_parts_scaled)
next
  case False
  have "of_nat (digits_val (i @ g)) / 10 ^ length g * 10000 = (of_int (scaled_units 4 i g) :: rat)"
    using scaled_units_exact [OF assms False] by simp
  then show ?thesis
    by (simp add: units_of_parts_scaled False) (metis of_int_eq_iff of_int_minus)
qed

lemma toUnits_general_exact:
  "toUnits_general s = Inr u
    \<longleftrightarrow> exponent_in_range s \<and> decimal_value s = Some (of_int u / 10000)"
proof (cases "decimal_parts s")
  case None
  then show ?thesis by (simp add: toUnits_general_parts decimal_value_def exponent_in_range_def)
next
  case (Some p)
  then obtain n w f e where p: "decimal_parts s = Some (n, w, f, e)" by (cases p) auto
  obtain i g where ig: "shift_point e w f = (i, g)" by (cases "shift_point e w f")
  note d = decimal_parts_digits [OF p]
  note u = units_of_parts_exact [OF shift_point_digits [OF d(1,2) ig], of n u]
  have "toUnits_general s = Inr u \<longleftrightarrow> \<bar>e\<bar> \<le> MAX_SCIENTIFIC_EXPONENT \<and> units_of_parts n (i, g) = Inr u"
    by (simp add: toUnits_general_parts p ig)
  also have "\<dots> \<longleftrightarrow> \<bar>e\<bar> \<le> MAX_SCIENTIFIC_EXPONENT \<and> of_int u = signed_value n w f e * 10000"
    unfolding u shift_point_value [OF d(1,2) ig] signed_value_def by simp
  also have "\<dots> \<longleftrightarrow> exponent_in_range s \<and> decimal_value s = Some (of_int u / 10000)"
    by (auto simp: exponent_in_range_def decimal_value_def p)
  finally show ?thesis .
qed

text \<open>The fast path for canonical texts computes what the general reader computes.\<close>

lemma digits_trim_sign:
  assumes "list_all is_digit w" "w \<noteq> []" "list_all is_digit f" "f \<noteq> []"
    and s: "s = (if n then ''-'' else []) @ w @ CHR ''.'' # f"
  shows "decimal_parts s = Some (n, w, f, 0)"
proof -
  have hd: "hd s = (if n then CHR ''-'' else hd w)" and last: "last s = last f"
    using assms(2,4) s by auto
  have "is_digit (hd w)" "is_digit (last f)" using assms by (auto simp: list_all_iff)
  then have "trim s = s"
    by (intro trim_id) (auto simp: hd last digit_not_mark)
  moreover have strip: "strip_sign s = w @ CHR ''.'' # f" and "starts_minus s = n"
    using s assms(1,2) by (cases w; auto simp: digit_not_mark)+
  moreover have plain: "plain_decimal (w @ CHR ''.'' # f)"
    using assms by (simp add: plain_decimal_def takeWhile_append2 dropWhile_append2 list_all_iff)
  moreover have "exponent_match (w @ CHR ''.'' # f) = None" by (rule exponent_match_plain [OF plain])
  ultimately show ?thesis using assms(1,3)
    by (simp add: decimal_parts_def decimal_number_def Let_def)
qed

lemma canonical_fast_path:
  assumes "canonical_money s"
  shows "toUnits_general s = Inr (bigint_of_text (remove1 CHR ''.'' s))"
proof -
  obtain w f where *: "list_all is_digit w" "w \<noteq> []" "list_all is_digit f" "length f = 4"
    and s: "s = (if starts_minus s then ''-'' else []) @ w @ CHR ''.'' # f"
    using assms unfolding canonical_money_iff by blast
  have "f \<noteq> []" using *(4) by auto
  then have parts: "decimal_parts s = Some (starts_minus s, w, f, 0)"
    by (rule digits_trim_sign [OF *(1-3) _ s])
  have dot: "CHR ''.'' \<notin> set w" using *(1) by (auto simp: list_all_iff)
  have "remove1 CHR ''.'' s = (if starts_minus s then ''-'' else []) @ w @ f"
    using dot by (subst s) (auto simp: remove1_append)
  moreover have "\<not> starts_minus (w @ f)" by (rule digits_starts_minus [OF *(1,2)])
  ultimately have "bigint_of_text (remove1 CHR ''.'' s)
      = (if starts_minus s then - 1 else 1) * int (digits_val (w @ f))"
    by (simp add: bigint_of_text_def)
  moreover have "\<not> loses_precision 4 f" using *(4) by (simp add: loses_precision_def)
  moreover have "scaled_units 4 w f = int (digits_val (w @ f))"
    using *(4) by (simp add: scaled_units_digits [OF *(1,3)] digits_val_append)
  ultimately show ?thesis
    by (simp add: toUnits_general_parts parts shift_point_def units_of_parts_scaled)
qed

lemma toUnits_eq_general: "toUnits s = toUnits_general s"
  by (simp add: toUnits_def canonical_fast_path)

lemma toUnits_value:
  "toUnits s = Inr u \<longleftrightarrow> exponent_in_range s \<and> decimal_value s = Some (of_int u / 10000)"
  by (simp add: toUnits_eq_general toUnits_general_exact)

lemma fromUnits_shape:
  obtains w f where "fromUnits u = (if u < 0 then ''-'' else []) @ w @ CHR ''.'' # f"
    "list_all is_digit w" "w \<noteq> []" "list_all is_digit f" "length f = 4" "int (digits_val (w @ f)) = \<bar>u\<bar>"
proof -
  let ?w = "nat_text (nat (\<bar>u\<bar> div SCALE))"
  let ?f = "padStart (nat_text (nat (\<bar>u\<bar> mod SCALE))) 4 CHR ''0''"
  have "digits_val (?w @ ?f) = nat (\<bar>u\<bar> div SCALE) * 10 ^ 4 + nat (\<bar>u\<bar> mod SCALE)"
    by (simp add: digits_val_append length_cents del: length_padStart)
  then have "int (digits_val (?w @ ?f)) = \<bar>u\<bar> div SCALE * SCALE + \<bar>u\<bar> mod SCALE"
    by (simp add: pos_imp_zdiv_nonneg_iff)
  then have "int (digits_val (?w @ ?f)) = \<bar>u\<bar>" by simp
  with fromUnits_eq [of u] length_cents [of u] show thesis
    by (intro that [of ?w ?f]) (simp_all del: length_padStart)
qed

lemma fromUnits_value: "decimal_value (fromUnits u) = Some (of_int u / 10000)"
  and fromUnits_exponent: "exponent_in_range (fromUnits u)"
proof -
  obtain w f where s: "fromUnits u = (if u < 0 then ''-'' else []) @ w @ CHR ''.'' # f"
    "list_all is_digit w" "w \<noteq> []" "list_all is_digit f" "length f = 4" "int (digits_val (w @ f)) = \<bar>u\<bar>"
    by (rule fromUnits_shape)
  have "f \<noteq> []" using s(5) by auto
  then have parts: "decimal_parts (fromUnits u) = Some (u < 0, w, f, 0)"
    by (intro digits_trim_sign) (simp_all add: s)
  have "(of_nat (digits_val (w @ f)) :: rat) = of_int \<bar>u\<bar>" using s(6) by (metis of_int_of_nat_eq)
  then show "decimal_value (fromUnits u) = Some (of_int u / 10000)"
    by (simp add: decimal_value_def parts signed_value_def s(5))
  show "exponent_in_range (fromUnits u)" by (simp add: exponent_in_range_def parts)
qed

lemma toUnits_fromUnits [simp, unit_simps]: "toUnits (fromUnits u) = Inr u"
  by (simp add: toUnits_value fromUnits_value fromUnits_exponent)

lemma fromUnits_inject [simp]: "fromUnits u = fromUnits v \<longleftrightarrow> u = v"
  by (metis sum.inject(2) toUnits_fromUnits)

interpretation money_text: text_codec fromUnits toUnits "\<lambda>_. True"
  by unfold_locales simp

section \<open>Arithmetic on units\<close>

lemma toUnits_zero_texts [simp, unit_simps]:
  "toUnits ''0'' = Inr 0" "toUnits ''0.0000'' = Inr 0" "toUnits ''1'' = Inr 10000" "toUnits ''100'' = Inr 1000000"
  by code_simp+

lemma fromUnits_zero: "fromUnits 0 = ''0.0000''"
  by code_simp

lemma add_money_units [unit_simps]:
  "toUnits a = Inr ua \<Longrightarrow> toUnits b = Inr ub \<Longrightarrow> add_money a b = Inr (fromUnits (ua + ub))"
  by (simp add: add_money_def)

lemma neg_money_units [unit_simps]: "toUnits a = Inr ua \<Longrightarrow> neg_money a = Inr (fromUnits (- ua))"
  by (simp add: neg_money_def)

lemma abs_money_units [unit_simps]: "toUnits a = Inr ua \<Longrightarrow> abs_money a = Inr (fromUnits \<bar>ua\<bar>)"
  by (simp add: abs_money_def abs_if)

lemma normalizeMoney_units [unit_simps]: "toUnits a = Inr ua \<Longrightarrow> normalizeMoney a = Inr (fromUnits ua)"
  by (simp add: normalizeMoney_def)

lemma cmp_money_units [unit_simps]:
  "toUnits a = Inr ua \<Longrightarrow> toUnits b = Inr ub \<Longrightarrow> cmp_money a b = Inr (sgn (ua - ub))"
  by (auto simp: cmp_money_def Let_def sgn_if)

lemma isZero_units [unit_simps]: "toUnits a = Inr ua \<Longrightarrow> isZero a = Inr (ua = 0)"
  by (simp add: isZero_def)

lemma foldE_toUnits:
  "traverse toUnits xs = Inr us
    \<Longrightarrow> foldE (\<lambda>acc x. bindE (toUnits x) (\<lambda>u. Inr (acc + u))) a xs = Inr (a + sum_list us)"
  by (induction xs arbitrary: us a) (auto simp: bindE_Inr_iff add.assoc)

lemma sum_money_units [unit_simps]:
  "traverse toUnits xs = Inr us \<Longrightarrow> sum_money xs = Inr (fromUnits (sum_list us))"
  by (simp add: sum_money_def foldE_toUnits)

lemma traverse_toUnits_fromUnits [simp, unit_simps]: "traverse toUnits (map fromUnits us) = Inr us"
  by (induction us) auto

lemma traverse_toUnits_map [simp, unit_simps]:
  "traverse toUnits (map (\<lambda>x. fromUnits (f x)) xs) = Inr (map f xs)"
  by (induction xs) auto

lemma mul_money_units [unit_simps]:
  "toUnits a = Inr ua \<Longrightarrow> toUnits b = Inr ub \<Longrightarrow> mul_money a b = Inr (fromUnits (round_quot (ua * ub) SCALE))"
  by (simp add: mul_money_def roundDiv_pos)

lemma mulRatio_units [unit_simps]:
  "toUnits a = Inr ua \<Longrightarrow> 0 \<le> n \<Longrightarrow> 0 < d \<Longrightarrow> mulRatio a n d = Inr (fromUnits (round_quot (ua * n) d))"
  by (simp add: mulRatio_def roundDiv_pos)

lemma roundMoney_units [unit_simps]:
  "toUnits a = Inr ua \<Longrightarrow> 0 \<le> dp \<Longrightarrow> dp \<le> 4
    \<Longrightarrow> roundMoney a dp = Inr (fromUnits (round_quot ua (10 ^ nat (4 - dp)) * 10 ^ nat (4 - dp)))"
  by (simp add: roundMoney_def roundDiv_pos Let_def)

lemma mulRate_units [unit_simps]:
  "toUnits a = Inr ua \<Longrightarrow> fx_rate_units r = Inr ru \<Longrightarrow> mulRate a r = Inr (fromUnits (round_quot (ua * ru) RATE_SCALE))"
  by (simp add: mulRate_def roundDiv_pos)

lemma fx_rate_units_pos: "fx_rate_units r = Inr ru \<Longrightarrow> 0 < ru"
  by (auto simp: fx_rate_units_def Let_def split: if_splits prod.splits)

lemma divRate_units [unit_simps]:
  "toUnits a = Inr ua \<Longrightarrow> fx_rate_units r = Inr ru \<Longrightarrow> divRate a r = Inr (fromUnits (round_quot (ua * RATE_SCALE) ru))"
  by (simp add: divRate_def roundDiv_pos fx_rate_units_pos)

text \<open>A plain decimal text, its value and its reading at \<open>k\<close> decimal places.\<close>

definition plain_value :: "string \<Rightarrow> rat" where
  "plain_value s = (case split_dot (strip_sign s) of (w, f) \<Rightarrow>
     (if starts_minus s then - 1 else 1) * (of_nat (digits_val (w @ f)) / 10 ^ length f))"

lemma plain_split_digits:
  "plain_decimal s \<Longrightarrow> split_dot s = (w, f) \<Longrightarrow> list_all is_digit w \<and> list_all is_digit f"
  by (auto elim!: plain_decimalE)

lemma plain_decimal_not_sign: "plain_decimal s \<Longrightarrow> strip_sign s = s \<and> \<not> starts_minus s"
  by (cases s) (auto dest!: plain_decimal_chars [where c = "hd s"] simp: digit_not_mark is_sign_def)

lemma strip_plus_sign: "\<not> starts_minus s \<Longrightarrow> strip_plus s = strip_sign s"
  by (cases s) (auto simp: strip_plus_def is_sign_def)

lemma fx_rate_units_value:
  assumes "fx_rate_units r = Inr ru"
  shows "plain_value (trim r) = of_int ru / 10 ^ 10"
proof -
  let ?t = "strip_plus (trim r)"
  obtain w f where wf: "split_dot ?t = (w, f)" by (cases "split_dot ?t")
  have p: "plain_decimal ?t" and l: "\<not> loses_precision 10 f" and ru: "ru = scaled_units 10 w f"
    using assms wf by (auto simp: fx_rate_units_def Let_def split: if_splits)
  have "\<not> starts_minus (trim r)"
    using p by (cases "trim r") (auto simp: strip_plus_def dest!: plain_decimal_not_sign)
  moreover note plain_split_digits [OF p wf]
  ultimately show ?thesis
    using wf scaled_units_exact [of w f 10] l by (simp add: plain_value_def ru strip_plus_sign)
qed

text \<open>A printed amount is a signed plain decimal with four places.\<close>

lemma fromUnits_plain:
  shows trim_fromUnits [simp]: "trim (fromUnits u) = fromUnits u"
    and starts_minus_fromUnits [simp]: "starts_minus (fromUnits u) \<longleftrightarrow> u < 0"
    and signed_plain_fromUnits [simp]: "signed_plain_decimal (fromUnits u)"
    and places_fromUnits [simp]: "length (snd (split_dot (strip_sign (fromUnits u)))) = 4"
    and plain_value_fromUnits [simp]: "plain_value (fromUnits u) = of_int u / 10000"
proof -
  obtain w f where s: "fromUnits u = (if u < 0 then ''-'' else []) @ w @ CHR ''.'' # f"
    "list_all is_digit w" "w \<noteq> []" "list_all is_digit f" "length f = 4" "int (digits_val (w @ f)) = \<bar>u\<bar>"
    by (rule fromUnits_shape)
  have "f \<noteq> []" using s(5) by auto
  then have ends: "is_digit (hd w)" "is_digit (last f)" using s(2-4) by (auto simp: list_all_iff)
  have hd: "hd (fromUnits u) = (if u < 0 then CHR ''-'' else hd w)" and last: "last (fromUnits u) = last f"
    using s(1,3) \<open>f \<noteq> []\<close> by auto
  show "trim (fromUnits u) = fromUnits u" by (intro trim_id) (auto simp: hd last digit_not_mark ends)
  have minus: "starts_minus (fromUnits u) \<longleftrightarrow> u < 0"
    and strip: "strip_sign (fromUnits u) = w @ CHR ''.'' # f"
    using s(1-3) by (cases w; auto simp: digit_not_mark)+
  from minus show "starts_minus (fromUnits u) \<longleftrightarrow> u < 0" .
  show "signed_plain_decimal (fromUnits u)" unfolding signed_plain_decimal_def strip
    using s by (simp add: plain_decimal_def takeWhile_append2 dropWhile_append2 list_all_iff)
  show "length (snd (split_dot (strip_sign (fromUnits u)))) = 4" unfolding strip using s by simp
  have "(of_nat (digits_val (w @ f)) :: rat) = of_int \<bar>u\<bar>" using s(6) by (metis of_int_of_nat_eq)
  then show "plain_value (fromUnits u) = of_int u / 10000"
    using s(2,4,5) by (simp add: plain_value_def minus strip)
qed

text \<open>The percentage reader: digits of the text over a power of ten.\<close>

lemma mulPercent_units [unit_simps]:
  assumes "toUnits a = Inr ua" "0 \<le> dp" "dp \<le> 4" "signed_plain_decimal (trim p)"
    and "length (snd (split_dot (strip_sign (trim p)))) \<le> 18"
  shows "mulPercent a p dp = Inr (fromUnits
    (half_away (of_int ua * plain_value (trim p) / (100 * 10 ^ nat (4 - dp))) * 10 ^ nat (4 - dp)))"
proof -
  let ?t = "trim p" and ?q = "10 ^ nat (4 - dp) :: int"
  let ?sg = "if starts_minus ?t then - 1 else 1 :: int"
  obtain w f where wf: "split_dot (strip_sign ?t) = (w, f)" by (cases "split_dot (strip_sign ?t)")
  have d: "list_all is_digit w" "list_all is_digit f"
    using plain_split_digits [OF _ wf] assms(4) by (simp_all add: signed_plain_decimal_def)
  have "bigint_of_text (or_text w ''0'' @ f) = int (digits_val (w @ f))"
    using d by (auto simp: bigint_of_digits or_text_def digits_val_Cons)
  then have "mulPercent a p dp = Inr (fromUnits
      (round_quot (ua * (int (digits_val (w @ f)) * ?sg)) (100 * 10 ^ length f * ?q) * ?q))"
    using assms wf by (simp add: mulPercent_def Let_def roundDiv_pos not_less)
  also have "round_quot (ua * (int (digits_val (w @ f)) * ?sg)) (100 * 10 ^ length f * ?q)
      = half_away (of_int ua * plain_value ?t / (100 * 10 ^ nat (4 - dp)))"
    by (subst round_quot_half_away) (auto simp: plain_value_def wf field_simps)
  finally show ?thesis .
qed

section \<open>Ledger range\<close>

lemma length_nat_text_iff: "0 < k \<Longrightarrow> length (nat_text n) \<le> k \<longleftrightarrow> n < 10 ^ k"
proof
  assume "0 < k" "length (nat_text n) \<le> k"
  moreover have "n < 10 ^ length (nat_text n)" using digits_val_less [OF nat_text_digits, of n] by simp
  ultimately show "n < 10 ^ k" by (meson le_less_trans less_le_trans nat_less_le one_le_numeral power_increasing)
qed (rule length_nat_text_le)

lemma wholeDigits_fromUnits: "wholeDigits (fromUnits u) = (if \<bar>u\<bar> div SCALE = 0 then 0
    else length (nat_text (nat (\<bar>u\<bar> div SCALE))))"
proof -
  let ?w = "nat_text (nat (\<bar>u\<bar> div SCALE))"
  have "strip_sign (fromUnits u) = ?w @ CHR ''.'' # padStart (nat_text (nat (\<bar>u\<bar> mod SCALE))) 4 CHR ''0''"
    using nat_text_digits [of "nat (\<bar>u\<bar> div SCALE)"]
    by (cases ?w) (auto simp: fromUnits_eq digit_not_mark)
  then have split: "fst (split_dot (strip_sign (fromUnits u))) = ?w" by simp
  show ?thesis
  proof (cases "\<bar>u\<bar> div SCALE = 0")
    case True
    then show ?thesis unfolding wholeDigits_def split by (simp add: nat_text.simps)
  next
    case False
    then have "0 < nat (\<bar>u\<bar> div SCALE)" by (simp add: pos_imp_zdiv_pos_iff)
    then have "dropWhile (\<lambda>c. c = CHR ''0'') ?w = ?w" by (intro dropWhile_hd_id) (simp add: nat_text_pos_hd)
    with False show ?thesis unfolding wholeDigits_def split by simp
  qed
qed

lemma fitsLedgerRange_units: "fitsLedgerRange (fromUnits u) \<longleftrightarrow> \<bar>u\<bar> < 10 ^ 19"
proof (cases "\<bar>u\<bar> div SCALE = 0")
  case True
  then have "\<bar>u\<bar> < 10000" by (simp add: div_int_iff)
  with True show ?thesis by (simp add: fitsLedgerRange_def wholeDigits_fromUnits)
next
  case False
  then have "fitsLedgerRange (fromUnits u) \<longleftrightarrow> nat (\<bar>u\<bar> div SCALE) < 10 ^ 15"
    by (simp add: fitsLedgerRange_def wholeDigits_fromUnits length_nat_text_iff)
  also have "\<dots> \<longleftrightarrow> \<bar>u\<bar> div SCALE < 10 ^ 15" by auto
  also have "\<dots> \<longleftrightarrow> \<bar>u\<bar> < 10 ^ 19" by simp linarith
  finally show ?thesis .
qed

section \<open>Side totals\<close>

lemma traverse_append:
  "traverse f xs = Inr us \<Longrightarrow> traverse f ys = Inr vs \<Longrightarrow> traverse f (xs @ ys) = Inr (us @ vs)"
  by (induction xs arbitrary: us) (auto simp: bindE_Inr_iff)

lemma ledgerSideTotals_loop:
  assumes "traverse toUnits xs = Inr us"
  shows "\<exists>ps ns pu nu.
    foldE (\<lambda>(positives, negatives) amount. bindE (cmp_money amount ''0'') (\<lambda>c.
        if c < 0 then Inr (positives, negatives @ [amount])
        else Inr (positives @ [amount], negatives))) (P, N) xs = Inr (P @ ps, N @ ns)
    \<and> traverse toUnits ps = Inr pu \<and> traverse toUnits ns = Inr nu
    \<and> list_all (\<lambda>u. 0 \<le> u) pu \<and> list_all (\<lambda>u. u < 0) nu
    \<and> sum_list us = sum_list pu + sum_list nu"
  using assms
proof (induction xs arbitrary: us P N)
  case Nil
  then show ?case by (intro exI [of _ "[]"]) simp
next
  case (Cons x xs)
  then obtain u vs where u: "toUnits x = Inr u" "traverse toUnits xs = Inr vs" "us = u # vs"
    by (auto simp: bindE_Inr_iff)
  have c: "cmp_money x ''0'' = Inr (sgn u)" using cmp_money_units [OF u(1) toUnits_zero_texts(1)] by simp
  show ?case
  proof (cases "u < 0")
    case True
    obtain ps ns pu nu where *: "foldE (\<lambda>(positives, negatives) amount. bindE (cmp_money amount ''0'') (\<lambda>c.
        if c < 0 then Inr (positives, negatives @ [amount])
        else Inr (positives @ [amount], negatives))) (P, N @ [x]) xs = Inr (P @ ps, N @ [x] @ ns)"
      "traverse toUnits ps = Inr pu" "traverse toUnits ns = Inr nu" "list_all (\<lambda>u. 0 \<le> u) pu"
      "list_all (\<lambda>u. u < 0) nu" "sum_list vs = sum_list pu + sum_list nu"
      using Cons.IH [OF u(2), of P "N @ [x]"] by auto
    then show ?thesis using True c u
      by (intro exI [of _ ps] exI [of _ "x # ns"] exI [of _ pu] exI [of _ "u # nu"]) simp
  next
    case False
    obtain ps ns pu nu where *: "foldE (\<lambda>(positives, negatives) amount. bindE (cmp_money amount ''0'') (\<lambda>c.
        if c < 0 then Inr (positives, negatives @ [amount])
        else Inr (positives @ [amount], negatives))) (P @ [x], N) xs = Inr (P @ [x] @ ps, N @ ns)"
      "traverse toUnits ps = Inr pu" "traverse toUnits ns = Inr nu" "list_all (\<lambda>u. 0 \<le> u) pu"
      "list_all (\<lambda>u. u < 0) nu" "sum_list vs = sum_list pu + sum_list nu"
      using Cons.IH [OF u(2), of "P @ [x]" N] by auto
    then show ?thesis using False c u
      by (intro exI [of _ "x # ps"] exI [of _ ns] exI [of _ "u # pu"] exI [of _ nu]) simp
  qed
qed

lemma traverse_neg_money:
  "traverse toUnits ns = Inr nu \<Longrightarrow> traverse neg_money ns = Inr (map (\<lambda>u. fromUnits (- u)) nu)"
  by (induction ns arbitrary: nu) (auto simp: bindE_Inr_iff neg_money_def)

section \<open>Properties\<close>

text \<open>
  C1: \<open>toUnits\<close> is exact.  It returns \<open>u\<close> for a text precisely when the text is a decimal
  numeral (plain or scientific, with an exponent of at most 10000 in magnitude) whose value is
  \<open>u / 10000\<close>; it refuses everything else, so no digit is ever rounded away.
\<close>

theorem toUnits_exact:
  "toUnits s = Inr u \<longleftrightarrow> exponent_in_range s \<and> decimal_value s = Some (of_int u / 10000)"
  by (rule toUnits_value)

text \<open>
  C2: printing and reading ledger money are inverse: \<open>fromUnits\<close> always prints the canonical
  four-decimal form, and reading it back gives the same units.
\<close>

theorem money_roundtrip: "canonical_money (fromUnits u) \<and> toUnits (fromUnits u) = Inr u"
  by (simp add: fromUnits_canonical)

text \<open>
  The fast path of \<open>toUnits\<close> for canonical texts (drop the point, read one integer) agrees
  with the general decimal reader on every text.
\<close>

theorem toUnits_fast_path: "toUnits s = toUnits_general s"
  by (rule toUnits_eq_general)

text \<open>
  \<open>roundDiv\<close> rounds the exact quotient to the nearest integer with halves away from zero,
  for every numerator, and refuses a denominator that is not positive.
\<close>

theorem roundDiv_half_away:
  "roundDiv n d = (if d \<le> 0 then Inl (Error ''denominator must be greater than zero'')
     else Inr (half_away (of_int n / of_int d)))"
  by (simp add: roundDiv_pos round_quot_half_away not_le) (simp add: roundDiv_def)

text \<open>
  The range gate: a printed amount passes \<open>fitsLedgerRange\<close> exactly when it fits the
  ledger's \<open>numeric(19,4)\<close> columns, nineteen digits in all.
\<close>

theorem fitsLedgerRange_numeric_19_4: "fitsLedgerRange (fromUnits u) \<longleftrightarrow> \<bar>u\<bar> < 10 ^ 19"
  by (rule fitsLedgerRange_units)

text \<open>
  \<open>mulPercent\<close> computes amount times percentage exactly and rounds once, to the
  requested number of decimal places with halves away from zero.
\<close>

theorem mulPercent_rounds_once:
  assumes "toUnits a = Inr ua" "0 \<le> dp" "dp \<le> 4" "signed_plain_decimal (trim p)"
    and "length (snd (split_dot (strip_sign (trim p)))) \<le> 18"
  shows "mulPercent a p dp = Inr (fromUnits
    (half_away (of_int ua * plain_value (trim p) / (100 * 10 ^ nat (4 - dp))) * 10 ^ nat (4 - dp)))"
  by (rule mulPercent_units [OF assms])

theorem mulPercent_rounds_once_witness:
  "mulPercent ''19.9900'' ''13.25'' 2 = Inr (fromUnits
    (half_away (199900 * plain_value ''13.25'' / (100 * 10 ^ nat (4 - 2))) * 10 ^ nat (4 - 2)))"
proof -
  have t: "trim ''13.25'' = ''13.25''" by code_simp
  have "toUnits ''19.9900'' = Inr 199900" by code_simp
  moreover have "signed_plain_decimal (trim ''13.25'')" by code_simp
  moreover have "length (snd (split_dot (strip_sign (trim ''13.25'')))) \<le> 18" by code_simp
  ultimately show ?thesis
    using mulPercent_rounds_once [of "''19.9900''" 199900 2 "''13.25''"] by (simp add: t)
qed

text \<open>
  \<open>ledgerSideTotals\<close> splits a set of amounts into debits and credits without losing a
  unit: both totals are non-negative and debits minus credits is the signed sum.
\<close>

theorem ledgerSideTotals_sum:
  assumes "traverse toUnits amounts = Inr us"
  shows "\<exists>d c. ledgerSideTotals amounts = Inr \<lparr>debits = fromUnits d, credits = fromUnits c\<rparr>
    \<and> 0 \<le> d \<and> 0 \<le> c \<and> d - c = sum_list us"
proof -
  obtain ps ns pu nu where *:
    "foldE (\<lambda>(positives, negatives) amount. bindE (cmp_money amount ''0'') (\<lambda>c.
        if c < 0 then Inr (positives, negatives @ [amount])
        else Inr (positives @ [amount], negatives))) ([], []) amounts = Inr (ps, ns)"
    "traverse toUnits ps = Inr pu" "traverse toUnits ns = Inr nu"
    "list_all (\<lambda>u. 0 \<le> u) pu" "list_all (\<lambda>u. u < 0) nu" "sum_list us = sum_list pu + sum_list nu"
    using ledgerSideTotals_loop [OF assms, of "[]" "[]"] by auto
  have "sum_money (map (\<lambda>u. fromUnits (- u)) nu) = Inr (fromUnits (- sum_list nu))"
    by (simp add: sum_money_units [OF traverse_toUnits_map] uminus_sum_list_map comp_def)
  then have "ledgerSideTotals amounts
      = Inr \<lparr>debits = fromUnits (sum_list pu), credits = fromUnits (- sum_list nu)\<rparr>"
    using * by (simp add: ledgerSideTotals_def sum_money_units traverse_neg_money)
  moreover have "0 \<le> sum_list pu" using *(4) by (intro sum_list_nonneg) (auto simp: list_all_iff)
  moreover have "0 \<le> - sum_list nu" using *(5) by (induction nu) auto
  ultimately show ?thesis using *(6) by (intro exI [of _ "sum_list pu"] exI [of _ "- sum_list nu"]) simp
qed

theorem ledgerSideTotals_sum_witness:
  "\<exists>d c. ledgerSideTotals [''10.0000'', ''-2.5000''] = Inr \<lparr>debits = fromUnits d, credits = fromUnits c\<rparr>
    \<and> 0 \<le> d \<and> 0 \<le> c \<and> d - c = 75000"
proof -
  have "traverse toUnits [''10.0000'', ''-2.5000''] = Inr [100000, - 25000]" by code_simp
  from ledgerSideTotals_sum [OF this] show ?thesis by simp
qed

end
