(* ===== verification/Money_Split.thy ===== *)
theory Money_Split
  imports Money
begin

text \<open>
  The splitting functions of \<open>engine/src/money/money.ts\<close>: \<open>apportion\<close> divides integer units
  over weights and \<open>allocateLargestRemainder\<close> rounds a column of amounts to a total.  Both
  floor first and deal the leftover units with \<open>dealLargestRemainder\<close>.  The facts: parts sum
  to the total exactly, each part is its floor or one unit more, a part with no remainder
  never receives a unit, and the parts that do have the largest remainders.
\<close>

section \<open>Definitions\<close>

text \<open>The order in which units are dealt: largest remainder first, ties by index.\<close>

definition remainder_order :: "int list \<Rightarrow> bool \<Rightarrow> nat list" where
  "remainder_order remainders ties_first = js_sort (\<lambda>a b.
     if remainders ! b > remainders ! a then 1
     else if remainders ! b < remainders ! a then - 1
     else if ties_first then int a - int b else int b - int a) [0..<length remainders]"

definition dealLargestRemainder :: "int list \<Rightarrow> int list \<Rightarrow> int \<Rightarrow> bool \<Rightarrow> int \<Rightarrow> int list" where
  "dealLargestRemainder parts remainders cnt ties_first step =
     fold (\<lambda>i ps. ps[i := ps ! i + step]) (take (nat cnt) (remainder_order remainders ties_first)) parts"

definition allocateLargestRemainder :: "string list \<Rightarrow> int \<Rightarrow> string list result" where
  "allocateLargestRemainder exactAmounts decimalPlaces =
     (if decimalPlaces < 0 \<or> decimalPlaces > 4
      then Inl (Error ''decimalPlaces must be an integer from 0 through 4'')
      else if exactAmounts = [] then Inr []
      else let quantum = 10 ^ nat (4 - decimalPlaces) in
        bindE (traverse toUnits exactAmounts) (\<lambda>units.
        bindE (roundDiv (sum_list units) quantum) (\<lambda>target.
          let allocated = map (\<lambda>amount. amount sdiv quantum) units;
              remainders = map2 (\<lambda>amount cents. amount - cents * quantum) units allocated;
              outstanding = target - sum_list allocated;
              dealt = (if outstanding > 0
                       then dealLargestRemainder allocated remainders outstanding True 1
                       else if outstanding < 0
                       then dealLargestRemainder allocated (map uminus remainders) (- outstanding) True (- 1)
                       else allocated)
          in Inr (map (\<lambda>cents. fromUnits (cents * quantum)) dealt))))"

datatype apportion_residual = Largest_remainder | Largest_remainder_last | Absorber int

text \<open>\<open>residual.absorber >= 0 && residual.absorber < weights.length\<close>, for an absorber\<close>

definition absorber_in_range :: "apportion_residual \<Rightarrow> nat \<Rightarrow> bool" where
  "absorber_in_range residual n =
     (case residual of Absorber a \<Rightarrow> 0 \<le> a \<and> a < int n | _ \<Rightarrow> True)"

definition apportion :: "int \<Rightarrow> int list \<Rightarrow> apportion_residual \<Rightarrow> int list result" where
  "apportion tot weights residual =
     (if list_ex (\<lambda>w. w < 0) weights then Inl (Error ''apportion weight is negative'')
      else if \<not> absorber_in_range residual (length weights)
      then Inl (Error ''apportion absorber is not one of the parts'')
      else if tot = 0 then Inr (map (\<lambda>_. 0) weights)
      else let weightTotal = sum_list weights in
        if weightTotal = 0
        then Inl (Error ''cannot apportion units over parts whose weights sum to zero'')
        else let negative = tot < 0;
                 magnitude = (if negative then - tot else tot);
                 parts = map (\<lambda>w. (magnitude * w) sdiv weightTotal) weights;
                 leftover = magnitude - sum_list parts;
                 remainders = map (\<lambda>w. (magnitude * w) smod weightTotal) weights;
                 dealt = (case residual of
                     Absorber a \<Rightarrow> parts[nat a := parts ! nat a + leftover]
                   | Largest_remainder \<Rightarrow> dealLargestRemainder parts remainders leftover True 1
                   | Largest_remainder_last \<Rightarrow> dealLargestRemainder parts remainders leftover False 1)
             in Inr (if negative then map uminus dealt else dealt))"

section \<open>Dealing units\<close>

lemma set_remainder_order [simp]: "set (remainder_order rem t) = {0..<length rem}"
  by (simp add: remainder_order_def)

lemma distinct_remainder_order [simp]: "distinct (remainder_order rem t)"
  by (simp add: remainder_order_def)

lemma length_remainder_order [simp]: "length (remainder_order rem t) = length rem"
  by (simp add: remainder_order_def)

lemma remainder_order_sorted:
  "sorted_wrt (\<lambda>a b. rem ! a \<ge> rem ! b) (remainder_order rem t)"
proof -
  let ?c = "\<lambda>a b. if rem ! b > rem ! a then 1 else if rem ! b < rem ! a then - 1
    else if t then int a - int b else int b - int a"
  have "sorted_wrt (\<lambda>x y. ?c x y \<le> 0) (js_sort ?c [0..<length rem])"
    by (rule sorted_wrt_js_sort) (auto simp: transp_def split: if_splits)
  then show ?thesis
    unfolding remainder_order_def by (rule sorted_wrt_mono_rel [rotated]) (auto split: if_splits)
qed

text \<open>Positions that are dealt a unit have remainders at least those of the others.\<close>

lemma remainder_order_top:
  assumes "i \<in> set (take k (remainder_order rem t))" "j < length rem"
    and "j \<notin> set (take k (remainder_order rem t))"
  shows "rem ! j \<le> rem ! i"
proof -
  let ?o = "remainder_order rem t"
  have "j \<in> set ?o" using assms(2) by simp
  then have "j \<in> set (drop k ?o)" using assms(3) by (metis Un_iff append_take_drop_id set_append)
  moreover have "sorted_wrt (\<lambda>a b. rem ! a \<ge> rem ! b) (take k ?o @ drop k ?o)"
    by (simp add: remainder_order_sorted)
  ultimately show ?thesis using assms(1) by (simp only: sorted_wrt_append)
qed

lemma remainder_order_positives:
  "length (filter (\<lambda>i. 0 < rem ! i) (remainder_order rem t)) = length (filter (\<lambda>x. 0 < x) rem)"
proof -
  have "mset (remainder_order rem t) = mset [0..<length rem]" by (simp add: remainder_order_def)
  then have "size (filter_mset (\<lambda>i. 0 < rem ! i) (mset (remainder_order rem t)))
      = size (filter_mset (\<lambda>i. 0 < rem ! i) (mset [0..<length rem]))" by simp
  then have "length (filter (\<lambda>i. 0 < rem ! i) (remainder_order rem t))
      = length (filter (\<lambda>i. 0 < rem ! i) [0..<length rem])"
    by (metis mset_filter size_mset)
  also have "\<dots> = length (filter (\<lambda>x. 0 < x) (map ((!) rem) [0..<length rem]))"
    by (simp add: filter_map comp_def)
  finally show ?thesis by (simp add: map_nth)
qed

text \<open>Dealing no more units than there are positive remainders reaches only those.\<close>

lemma remainder_order_top_positive:
  assumes "k \<le> length (filter (\<lambda>x. 0 < x) rem)" "i \<in> set (take k (remainder_order rem t))"
  shows "0 < rem ! i"
proof (rule ccontr)
  let ?o = "remainder_order rem t"
  assume "\<not> 0 < rem ! i"
  from assms(2) obtain p where p: "p < k" "p < length ?o" "?o ! p = i" by (auto simp: in_set_conv_nth)
  have "rem ! j \<le> 0" if "j \<in> set (drop p ?o)" for j
  proof -
    from that obtain q where q: "p \<le> q" "q < length ?o" "?o ! q = j"
      by (auto simp: in_set_conv_nth) (metis add.commute le_add2 less_diff_conv)
    then have "p = q \<or> rem ! (?o ! p) \<ge> rem ! (?o ! q)"
      using sorted_wrt_nth_less [OF remainder_order_sorted [of rem t], of p q] by (cases "p = q") auto
    then show ?thesis using p q \<open>\<not> 0 < rem ! i\<close> by auto
  qed
  then have "filter (\<lambda>i. 0 < rem ! i) (drop p ?o) = []" by (force simp: filter_empty_conv)
  then have "length (filter (\<lambda>i. 0 < rem ! i) ?o) \<le> length (filter (\<lambda>i. 0 < rem ! i) (take p ?o))"
    by (metis append_Nil2 append_take_drop_id filter_append order_refl)
  also have "\<dots> \<le> p" by (metis length_filter_le length_take min.boundedE order_trans)
  finally show False using assms(1) p(1) by (simp add: remainder_order_positives)
qed

lemma fold_add_at:
  assumes "distinct is" "set is \<subseteq> {0..<length ps}"
  shows "length (fold (\<lambda>i ps. ps[i := ps ! i + step]) is ps) = length ps"
    and "j < length ps \<Longrightarrow> fold (\<lambda>i ps. ps[i := ps ! i + step]) is ps ! j
           = ps ! j + (if j \<in> set is then step else (0::int))"
    and "sum_list (fold (\<lambda>i ps. ps[i := ps ! i + step]) is ps) = sum_list ps + step * int (length is)"
  using assms
  by (induction "is" arbitrary: ps) (auto simp: sum_list_update_int nth_list_update algebra_simps)

lemma deal_length [simp]:
  assumes "length rem = length parts"
  shows "length (dealLargestRemainder parts rem c t step) = length parts"
  unfolding dealLargestRemainder_def
  by (rule fold_add_at(1)) (use assms in \<open>auto dest: in_set_takeD\<close>)

lemma deal_nth:
  assumes "length rem = length parts" "j < length parts"
  shows "dealLargestRemainder parts rem c t step ! j
    = parts ! j + (if j \<in> set (take (nat c) (remainder_order rem t)) then step else 0)"
  unfolding dealLargestRemainder_def
  by (rule fold_add_at(2)) (use assms in \<open>auto dest: in_set_takeD\<close>)

lemma deal_sum:
  assumes "length rem = length parts" "0 \<le> c" "c \<le> int (length parts)"
  shows "sum_list (dealLargestRemainder parts rem c t step) = sum_list parts + step * c"
proof -
  have "sum_list (dealLargestRemainder parts rem c t step)
      = sum_list parts + step * int (length (take (nat c) (remainder_order rem t)))"
    unfolding dealLargestRemainder_def
    by (rule fold_add_at(3)) (use assms in \<open>auto dest: in_set_takeD\<close>)
  then show ?thesis using assms by simp
qed

section \<open>Proportional parts\<close>

text \<open>
  The contract a splitter of integer units gives its callers, stated once: the same number of
  parts as weights, and a sum that is the total to the unit.  \<open>apportion\<close> satisfies it under
  each residual policy.
\<close>

locale unit_splitter =
  fixes split_units :: "int \<Rightarrow> int list \<Rightarrow> error + int list"
    and admissible :: "int \<Rightarrow> int list \<Rightarrow> bool"
  assumes split_total: "admissible tot ws \<Longrightarrow> \<exists>ps. split_units tot ws = Inr ps"
    and split_length: "split_units tot ws = Inr ps \<Longrightarrow> length ps = length ws"
    and split_sum: "split_units tot ws = Inr ps \<Longrightarrow> sum_list ps = tot"
begin

text \<open>What a caller that splits several totals over the same weights relies on.\<close>

lemma split_many_sum:
  "traverse (\<lambda>tot. split_units tot ws) tots = Inr pss \<Longrightarrow> sum_list (map sum_list pss) = sum_list tots"
  by (induction tots arbitrary: pss) (auto simp: bindE_Inr_iff dest!: split_sum)

lemma split_conserves:
  assumes "admissible tot ws"
  obtains ps where "split_units tot ws = Inr ps" "length ps = length ws" "sum_list ps = tot"
  using split_total [OF assms] split_length split_sum by blast

text \<open>The printed parts add up to the printed total.\<close>

lemma split_texts_sum: "split_units tot ws = Inr ps \<Longrightarrow> sum_money (map fromUnits ps) = Inr (fromUnits tot)"
  using sum_money_units [OF money_text.decode_all, of ps] by (simp add: split_sum)

text \<open>Moving units between parts after the split keeps the total, as an up-front amount in the first part does.\<close>

lemma split_then_add:
  assumes "split_units (tot - a) ws = Inr ps" "ws \<noteq> []"
  shows "sum_list (ps[0 := ps ! 0 + a]) = tot" "length (ps[0 := ps ! 0 + a]) = length ws"
  using assms split_length [OF assms(1)] split_sum [OF assms(1)] by (simp_all add: sum_list_update_int)

end

lemma sum_list_pos_weights:
  "\<not> list_ex (\<lambda>w. w < 0) ws \<Longrightarrow> sum_list ws \<noteq> 0 \<Longrightarrow> 0 < (sum_list ws :: int)"
  using sum_list_nonneg [of ws] by (fastforce simp: list_ex_iff)

text \<open>The floors, the remainders and the leftover of a magnitude over positive weights.\<close>

lemma floors_leftover:
  fixes m :: int
  assumes "0 < W" "0 \<le> m" "W = sum_list ws"
  shows "(m - sum_list (map (\<lambda>w. m * w div W) ws)) * W = sum_list (map (\<lambda>w. m * w mod W) ws)"
proof -
  have "m * W = sum_list (map (\<lambda>w. m * w) ws)" by (simp add: assms(3) sum_list_const_mult)
  also have "\<dots> = W * sum_list (map (\<lambda>w. m * w div W) ws) + sum_list (map (\<lambda>w. m * w mod W) ws)"
    using sum_list_div_mod [OF assms(1), of "map (\<lambda>w. m * w) ws"] by (simp add: comp_def)
  finally show ?thesis by (simp add: algebra_simps)
qed

lemma leftover_bounds:
  fixes m :: int
  assumes "0 < W" "0 \<le> m" "W = sum_list ws"
  defines "l \<equiv> m - sum_list (map (\<lambda>w. m * w div W) ws)"
    and "rems \<equiv> map (\<lambda>w. m * w mod W) ws"
  shows "0 \<le> l" "nat l \<le> length (filter (\<lambda>x. 0 < x) rems)" "l \<le> int (length ws)"
proof -
  let ?c = "int (length (filter (\<lambda>x. 0 < x) rems))"
  have eq: "l * W = sum_list rems" unfolding l_def rems_def by (rule floors_leftover [OF assms(1-3)])
  have "0 \<le> sum_list rems" using assms(1) unfolding rems_def by (intro sum_list_nonneg) auto
  with eq assms(1) show "0 \<le> l" by (metis mult.commute zero_le_mult_iff not_less)
  have "sum_list rems \<le> (W - 1) * ?c" by (rule sum_list_le_positives) (auto simp: rems_def assms(1))
  also have "\<dots> \<le> W * ?c" by (simp add: algebra_simps)
  finally have "l \<le> ?c" using eq assms(1) by (metis mult.commute mult_le_cancel_left_pos)
  then show "nat l \<le> length (filter (\<lambda>x. 0 < x) rems)" by linarith
  moreover have "length (filter (\<lambda>x. 0 < x) rems) \<le> length ws" unfolding rems_def by (metis length_filter_le length_map)
  ultimately show "l \<le> int (length ws)" by linarith
qed

definition floor_parts :: "int \<Rightarrow> int list \<Rightarrow> int list" where
  "floor_parts m ws = map (\<lambda>w. m * w div sum_list ws) ws"

definition part_remainders :: "int \<Rightarrow> int list \<Rightarrow> int list" where
  "part_remainders m ws = map (\<lambda>w. m * w mod sum_list ws) ws"

text \<open>\<open>apportion\<close> on accepted input, in terms of floors and remainders of the magnitude.\<close>

lemma apportion_accepted:
  assumes "\<not> list_ex (\<lambda>w. w < 0) ws" "sum_list ws \<noteq> 0" "tot \<noteq> 0"
    and "absorber_in_range r (length ws)"
  defines "m \<equiv> \<bar>tot\<bar>"
  defines "l \<equiv> m - sum_list (floor_parts m ws)"
  shows "apportion tot ws r = Inr (map ((*) (sgn tot)) (case r of
      Absorber a \<Rightarrow> (floor_parts m ws)[nat a := floor_parts m ws ! nat a + l]
    | Largest_remainder \<Rightarrow> dealLargestRemainder (floor_parts m ws) (part_remainders m ws) l True 1
    | Largest_remainder_last \<Rightarrow> dealLargestRemainder (floor_parts m ws) (part_remainders m ws) l False 1))"
proof -
  have W: "0 < sum_list ws" using assms(1,2) by (rule sum_list_pos_weights)
  have mag: "(if tot < 0 then - tot else tot) = m" by (simp add: m_def)
  have w0: "0 \<le> m * w" if "w \<in> set ws" for w
    using assms(1) that by (auto simp: m_def list_ex_iff not_less)
  have f: "map (\<lambda>w. (m * w) sdiv sum_list ws) ws = floor_parts m ws"
    unfolding floor_parts_def by (rule map_cong) (auto simp: sdiv_nonneg w0 W)
  have rr: "map (\<lambda>w. (m * w) smod sum_list ws) ws = part_remainders m ws"
    unfolding part_remainders_def by (rule map_cong) (auto simp: smod_nonneg w0 W)
  have sg: "(if tot < 0 then map uminus xs else xs) = map ((*) (sgn tot)) xs" for xs :: "int list"
    using assms(3) by (auto simp: sgn_if intro: map_idI [symmetric])
  show ?thesis
    unfolding apportion_def Let_def mag f rr sg l_def using assms(1-4) by simp
qed

lemma length_floor_parts [simp]: "length (floor_parts m ws) = length ws"
  and length_part_remainders [simp]: "length (part_remainders m ws) = length ws"
  by (simp_all add: floor_parts_def part_remainders_def)

lemma sum_list_scale: "sum_list (map ((*) k) xs) = k * (sum_list xs :: int)"
  by (simp add: sum_list_const_mult)

lemma apportion_Inr_cases:
  assumes "apportion tot ws r = Inr ps"
  obtains (zero) "tot = 0" "ps = map (\<lambda>_. 0) ws"
  | (split) "\<not> list_ex (\<lambda>w. w < 0) ws" "sum_list ws \<noteq> 0" "tot \<noteq> 0"
      "absorber_in_range r (length ws)"
proof (cases "tot = 0")
  case True
  with assms zero show thesis by (auto simp: apportion_def split: if_splits)
next
  case False
  with assms have "\<not> list_ex (\<lambda>w. w < 0) ws" "sum_list ws \<noteq> 0"
    "absorber_in_range r (length ws)"
    by (auto simp: apportion_def Let_def split: if_splits)
  with False split show thesis by blast
qed

lemma apportion_length: "apportion tot ws r = Inr ps \<Longrightarrow> length ps = length ws"
proof -
  assume "apportion tot ws r = Inr ps"
  then show ?thesis
  proof (cases rule: apportion_Inr_cases)
    case split
    show ?thesis using apportion_accepted [OF split] \<open>apportion tot ws r = Inr ps\<close>
      by (auto split: apportion_residual.splits)
  qed simp
qed

lemma floor_parts_leftover:
  assumes "\<not> list_ex (\<lambda>w. w < 0) ws" "sum_list ws \<noteq> 0" "0 \<le> m"
  defines "l \<equiv> m - sum_list (floor_parts m ws)"
  shows "0 \<le> l" "nat l \<le> length (filter (\<lambda>x. 0 < x) (part_remainders m ws))" "l \<le> int (length ws)"
  using leftover_bounds [OF sum_list_pos_weights [OF assms(1,2)] assms(3) refl]
  by (simp_all add: l_def floor_parts_def part_remainders_def)

lemma apportion_sum:
  assumes "apportion tot ws r = Inr ps"
  shows "sum_list ps = tot"
  using assms
proof (cases rule: apportion_Inr_cases)
  case zero
  then show ?thesis by (induction ws) auto
next
  case split
  let ?m = "\<bar>tot\<bar>"
  let ?l = "?m - sum_list (floor_parts ?m ws)"
  note b = floor_parts_leftover [OF split(1,2) abs_ge_zero [of tot]]
  have m: "sgn tot * ?m = tot" by (simp add: sgn_mult_abs)
  note eq = apportion_accepted [OF split]
  show ?thesis
  proof (cases r)
    case (Absorber a)
    with split(4) have "nat a < length ws" by (auto simp: absorber_in_range_def)
    moreover from Absorber eq assms
    have "ps = map ((*) (sgn tot)) ((floor_parts ?m ws)[nat a := floor_parts ?m ws ! nat a + ?l])" by simp
    ultimately show ?thesis using m by (simp add: sum_list_scale sum_list_update_int)
  next
    case Largest_remainder
    with eq assms have "ps = map ((*) (sgn tot))
        (dealLargestRemainder (floor_parts ?m ws) (part_remainders ?m ws) ?l True 1)" by simp
    then show ?thesis using m b by (simp add: sum_list_scale deal_sum)
  next
    case Largest_remainder_last
    with eq assms have "ps = map ((*) (sgn tot))
        (dealLargestRemainder (floor_parts ?m ws) (part_remainders ?m ws) ?l False 1)" by simp
    then show ?thesis using m b by (simp add: sum_list_scale deal_sum)
  qed
qed

lemma apportion_accepts:
  assumes "\<not> list_ex (\<lambda>w. w < 0) ws" "sum_list ws \<noteq> 0"
    and "absorber_in_range r (length ws)"
  shows "\<exists>ps. apportion tot ws r = Inr ps"
proof (cases "tot = 0")
  case True
  with assms show ?thesis by (simp add: apportion_def)
next
  case False
  show ?thesis using apportion_accepted [OF assms(1,2) False assms(3)] by blast
qed

lemma apportion_accepts_iff:
  "(\<exists>ps. apportion tot ws r = Inr ps) \<longleftrightarrow> \<not> list_ex (\<lambda>w. w < 0) ws
     \<and> absorber_in_range r (length ws) \<and> (sum_list ws = 0 \<longrightarrow> tot = 0)"
  by (auto simp: apportion_def Let_def)

interpretation largest: unit_splitter "\<lambda>tot ws. apportion tot ws Largest_remainder"
  "\<lambda>tot ws. \<not> list_ex (\<lambda>w. w < 0) ws \<and> (sum_list ws = 0 \<longrightarrow> tot = 0)"
  by unfold_locales (simp_all add: apportion_accepts_iff apportion_length apportion_sum absorber_in_range_def)

interpretation largest_last: unit_splitter "\<lambda>tot ws. apportion tot ws Largest_remainder_last"
  "\<lambda>tot ws. \<not> list_ex (\<lambda>w. w < 0) ws \<and> (sum_list ws = 0 \<longrightarrow> tot = 0)"
  by unfold_locales (simp_all add: apportion_accepts_iff apportion_length apportion_sum absorber_in_range_def)

interpretation absorbed: unit_splitter "\<lambda>tot ws. apportion tot ws (Absorber a)"
  "\<lambda>tot ws. \<not> list_ex (\<lambda>w. w < 0) ws \<and> (sum_list ws = 0 \<longrightarrow> tot = 0) \<and> 0 \<le> a \<and> a < int (length ws)" for a
  by unfold_locales (simp_all add: apportion_accepts_iff apportion_length apportion_sum absorber_in_range_def)

text \<open>Under largest remainder every part is its floor, or one unit more where a remainder was left.\<close>

lemma apportion_largest_parts:
  assumes "apportion tot ws r = Inr ps" "r = Largest_remainder \<or> r = Largest_remainder_last"
    and "tot \<noteq> 0" "i < length ws"
  defines "fl \<equiv> \<bar>tot\<bar> * ws ! i div sum_list ws" and "rm \<equiv> \<bar>tot\<bar> * ws ! i mod sum_list ws"
  shows "ps ! i = sgn tot * fl \<or> (0 < rm \<and> ps ! i = sgn tot * (fl + 1))"
  using assms(1)
proof (cases rule: apportion_Inr_cases)
  case zero
  with assms(3) show ?thesis by simp
next
  case split
  let ?m = "\<bar>tot\<bar>" and ?f = "r = Largest_remainder"
  let ?l = "?m - sum_list (floor_parts ?m ws)"
  let ?top = "set (take (nat ?l) (remainder_order (part_remainders ?m ws) ?f))"
  have "ps = map ((*) (sgn tot)) (dealLargestRemainder (floor_parts ?m ws) (part_remainders ?m ws) ?l ?f 1)"
    using apportion_accepted [OF split] assms(1,2) by auto
  then have "ps ! i = sgn tot * (floor_parts ?m ws ! i + (if i \<in> ?top then 1 else 0))"
    using assms(4) by (simp add: deal_nth)
  moreover have "floor_parts ?m ws ! i = fl" "part_remainders ?m ws ! i = rm"
    using assms(4) by (simp_all add: floor_parts_def part_remainders_def fl_def rm_def)
  moreover have "0 < part_remainders ?m ws ! i" if "i \<in> ?top"
    using floor_parts_leftover(2) [OF split(1,2) abs_ge_zero [of tot]] that
    by (rule remainder_order_top_positive)
  ultimately show ?thesis by auto
qed

text \<open>A negative total mirrors the positive one unit for unit.\<close>

lemma apportion_minus:
  assumes "apportion tot ws r = Inr ps"
  shows "apportion (- tot) ws r = Inr (map uminus ps)"
  using assms
proof (cases rule: apportion_Inr_cases)
  case zero
  with assms show ?thesis by simp
next
  case split
  have "- tot \<noteq> 0" using split(3) by simp
  note eq = apportion_accepted [OF split(1,2) this split(4), unfolded abs_minus_cancel]
  show ?thesis unfolding eq using apportion_accepted [OF split] assms by (auto simp: comp_def)
qed

section \<open>Rounding a column to its total\<close>

lemma units_sdiv_smod: "0 < q \<Longrightarrow> u = u sdiv q * q + (u - u sdiv q * q :: int) \<and> \<bar>u - u sdiv q * q\<bar> < q"
  by (simp add: minus_sdiv_mult_eq_smod sdiv_mult_smod_eq abs_smod_less)

text \<open>
  The units outstanding after truncation towards zero: no more than the lines whose remainder
  points that way, so each line moves at most one quantum in the direction of its remainder.
\<close>

lemma outstanding_bound:
  fixes q :: int and us :: "int list"
  assumes "0 < q"
  defines "rems \<equiv> map (\<lambda>u. u - u sdiv q * q) us"
    and "o_units \<equiv> round_quot (sum_list us) q - sum_list (map (\<lambda>u. u sdiv q) us)"
  shows "o_units \<le> int (length (filter (\<lambda>x. 0 < x) rems))"
    and "- o_units \<le> int (length (filter (\<lambda>x. 0 < x) (map uminus rems)))"
proof -
  let ?A = "sum_list (map (\<lambda>u. u sdiv q) us)" and ?T = "round_quot (sum_list us) q"
  have bound: "x < q" if "x \<in> set rems \<union> set (map uminus rems)" for x
    using that units_sdiv_smod [OF assms(1)] by (auto simp: rems_def abs_less_iff)
  have "sum_list us = ?A * q + sum_list rems"
    unfolding rems_def by (induction us) (auto simp: algebra_simps)
  then have "sum_list us - ?T * q = sum_list rems - o_units * q"
    by (simp add: o_units_def algebra_simps)
  with round_quot_near [OF assms(1), of "sum_list us"]
  have near: "2 * \<bar>sum_list rems - o_units * q\<bar> \<le> q" by simp
  have key: "k \<le> int c" if "s \<le> (q - 1) * int c" "2 * (k * q - s) \<le> q" for k s :: int and c :: nat
  proof (rule ccontr)
    assume "\<not> k \<le> int c"
    then have "(int c + 1) * q \<le> k * q" using assms(1) by (intro mult_right_mono) auto
    then have "int c * q + q \<le> k * q" by (simp add: algebra_simps)
    moreover have "s \<le> int c * q - int c" using that(1) by (simp add: algebra_simps)
    moreover have "2 * (k * q) - 2 * s \<le> q" using that(2) by (simp add: algebra_simps)
    ultimately show False using assms(1) of_nat_0_le_iff [of c] by linarith
  qed
  have n1: "2 * (o_units * q - sum_list rems) \<le> q"
    and n2: "2 * (- o_units * q - sum_list (map uminus rems)) \<le> q"
    using near by (auto simp: abs_if algebra_simps split: if_splits)
  show "o_units \<le> int (length (filter (\<lambda>x. 0 < x) rems))"
    by (rule key [OF sum_list_le_positives n1]) (use bound in auto)
  show "- o_units \<le> int (length (filter (\<lambda>x. 0 < x) (map uminus rems)))"
    by (rule key [OF sum_list_le_positives n2]) (use bound in auto)
qed

text \<open>The result of \<open>allocateLargestRemainder\<close> as quanta per line.\<close>

definition allocated_quanta :: "int \<Rightarrow> int list \<Rightarrow> int list" where
  "allocated_quanta q us = (let a = map (\<lambda>u. u sdiv q) us;
       rems = map (\<lambda>u. u - u sdiv q * q) us;
       l = round_quot (sum_list us) q - sum_list a in
     if l > 0 then dealLargestRemainder a rems l True 1
     else if l < 0 then dealLargestRemainder a (map uminus rems) (- l) True (- 1) else a)"

lemma allocateLargestRemainder_eq:
  assumes "0 \<le> dp" "dp \<le> 4" "xs \<noteq> []" "traverse toUnits xs = Inr us"
  shows "allocateLargestRemainder xs dp
    = Inr (map (\<lambda>c. fromUnits (c * 10 ^ nat (4 - dp))) (allocated_quanta (10 ^ nat (4 - dp)) us))"
proof -
  have rems: "map2 (\<lambda>amount cents. amount - cents * q) us (map (\<lambda>u. u sdiv q) us)
      = map (\<lambda>u. u - u sdiv q * q) us" for q :: int
    by (induction us) auto
  show ?thesis using assms
    by (simp add: allocateLargestRemainder_def allocated_quanta_def roundDiv_pos rems Let_def)
qed

lemma length_allocated_quanta [simp]: "length (allocated_quanta q us) = length us"
  by (simp add: allocated_quanta_def Let_def)

lemma allocated_quanta_sum:
  assumes "0 < q"
  shows "sum_list (allocated_quanta q us) = round_quot (sum_list us) q"
proof -
  let ?rems = "map (\<lambda>u. u - u sdiv q * q) us"
  let ?l = "round_quot (sum_list us) q - sum_list (map (\<lambda>u. u sdiv q) us)"
  note b = outstanding_bound [OF assms, of us]
  have "?l \<le> int (length us)" "- ?l \<le> int (length us)"
    using b length_filter_le [of "\<lambda>x. 0 < x" ?rems] length_filter_le [of "\<lambda>x. 0 < x" "map uminus ?rems"]
    by (simp_all del: length_filter_le)
  then show ?thesis by (simp add: allocated_quanta_def Let_def deal_sum)
qed

lemma allocated_quanta_near:
  assumes "0 < q" "i < length us"
  shows "\<bar>allocated_quanta q us ! i * q - us ! i\<bar> < q"
proof -
  let ?rems = "map (\<lambda>u. u - u sdiv q * q) us"
  let ?l = "round_quot (sum_list us) q - sum_list (map (\<lambda>u. u sdiv q) us)"
  note b = outstanding_bound [OF assms(1), of us]
  let ?r = "us ! i - us ! i sdiv q * q"
  have r: "\<bar>?r\<bar> < q" using units_sdiv_smod [OF assms(1)] by blast
  have pos: "0 < ?r" if "i \<in> set (take (nat ?l) (remainder_order ?rems True))"
  proof -
    have "nat ?l \<le> length (filter (\<lambda>x. 0 < x) ?rems)" using b(1) by linarith
    from remainder_order_top_positive [OF this that] show ?thesis using assms(2) by simp
  qed
  have neg: "?r < 0" if "i \<in> set (take (nat (- ?l)) (remainder_order (map uminus ?rems) True))"
  proof -
    have "nat (- ?l) \<le> length (filter (\<lambda>x. 0 < x) (map uminus ?rems))" using b(2) by linarith
    from remainder_order_top_positive [OF this that] show ?thesis using assms(2) by simp
  qed
  consider (p) "?l > 0" | (n) "?l < 0" | (z) "?l = 0" by linarith
  then show ?thesis
  proof cases
    case p
    then have "allocated_quanta q us ! i = us ! i sdiv q
        + (if i \<in> set (take (nat ?l) (remainder_order ?rems True)) then 1 else 0)"
      using assms(2) by (simp add: allocated_quanta_def Let_def deal_nth)
    then show ?thesis using r pos by (auto simp: algebra_simps abs_if split: if_splits)
  next
    case n
    then have "allocated_quanta q us ! i = us ! i sdiv q
        + (if i \<in> set (take (nat (- ?l)) (remainder_order (map uminus ?rems) True)) then - 1 else 0)"
      using assms(2) by (simp add: allocated_quanta_def Let_def deal_nth)
    then show ?thesis using r neg by (auto simp: algebra_simps abs_if split: if_splits)
  next
    case z
    then have "allocated_quanta q us ! i = us ! i sdiv q"
      using assms(2) by (simp add: allocated_quanta_def Let_def)
    then show ?thesis using r by (simp add: abs_minus_commute)
  qed
qed

text \<open>Which parts receive a leftover unit: those whose remainders are largest.\<close>

lemma apportion_largest_fair:
  assumes "apportion tot ws r = Inr ps" "r = Largest_remainder \<or> r = Largest_remainder_last"
    and "tot \<noteq> 0" "i < length ws" "j < length ws"
    and "ps ! i = sgn tot * (\<bar>tot\<bar> * ws ! i div sum_list ws + 1)"
    and "ps ! j = sgn tot * (\<bar>tot\<bar> * ws ! j div sum_list ws)"
  shows "\<bar>tot\<bar> * ws ! j mod sum_list ws \<le> \<bar>tot\<bar> * ws ! i mod sum_list ws"
  using assms(1)
proof (cases rule: apportion_Inr_cases)
  case zero
  with assms(3) show ?thesis by simp
next
  case split
  let ?m = "\<bar>tot\<bar>" and ?f = "r = Largest_remainder"
  let ?l = "?m - sum_list (floor_parts ?m ws)"
  let ?top = "set (take (nat ?l) (remainder_order (part_remainders ?m ws) ?f))"
  have ps: "ps = map ((*) (sgn tot)) (dealLargestRemainder (floor_parts ?m ws) (part_remainders ?m ws) ?l ?f 1)"
    using apportion_accepted [OF split] assms(1,2) by auto
  have bump: "ps ! k = sgn tot * (?m * ws ! k div sum_list ws + (if k \<in> ?top then 1 else 0))"
    if "k < length ws" for k
    using that by (simp add: ps deal_nth) (simp add: floor_parts_def)
  have "sgn tot \<noteq> 0" using assms(3) by (simp add: sgn_if)
  then have "i \<in> ?top" "j \<notin> ?top" using bump [OF assms(4)] bump [OF assms(5)] assms(6,7)
    by (auto split: if_splits)
  then have "part_remainders ?m ws ! j \<le> part_remainders ?m ws ! i"
    using assms(5) by (intro remainder_order_top) auto
  then show ?thesis using assms(4,5) by (simp add: part_remainders_def)
qed

section \<open>Properties\<close>

text \<open>
  C3: \<open>apportion\<close> conserves every unit.  Under every residual policy it answers exactly when
  the weights are non-negative, the absorber is one of the parts and a nonzero total has a
  nonzero weight to go to; the answer has one part per weight and sums to the total.
\<close>

theorem apportion_exact:
  "(\<exists>ps. apportion tot ws r = Inr ps \<and> length ps = length ws \<and> sum_list ps = tot)
    \<longleftrightarrow> (\<forall>w \<in> set ws. 0 \<le> w) \<and> absorber_in_range r (length ws) \<and> (sum_list ws = 0 \<longrightarrow> tot = 0)"
proof -
  have "(\<exists>ps. apportion tot ws r = Inr ps \<and> length ps = length ws \<and> sum_list ps = tot)
      \<longleftrightarrow> (\<exists>ps. apportion tot ws r = Inr ps)"
    using apportion_length [of tot ws r] apportion_sum [of tot ws r] by blast
  also have "\<dots> \<longleftrightarrow> \<not> list_ex (\<lambda>w. w < 0) ws \<and> absorber_in_range r (length ws)
      \<and> (sum_list ws = 0 \<longrightarrow> tot = 0)"
    by (rule apportion_accepts_iff)
  also have "\<not> list_ex (\<lambda>w. w < 0) ws \<longleftrightarrow> (\<forall>w \<in> set ws. 0 \<le> w)"
    by (simp add: list_ex_iff not_less)
  finally show ?thesis .
qed

theorem apportion_exact_witness:
  "\<exists>ps. apportion (- 100) [1, 1, 1] (Absorber 2) = Inr ps \<and> length ps = length [1, 1, 1 :: int] \<and> sum_list ps = - 100"
  using apportion_exact [of "- 100" "[1, 1, 1]" "Absorber 2"] by (simp add: absorber_in_range_def)

text \<open>
  The largest-remainder policies are fair: each part is its exact share floored (in
  magnitude), or one unit more; a part with no remainder never gets the extra unit; and a part
  that gets it has a remainder at least as large as that of any part that does not.
\<close>

theorem apportion_largest_remainder:
  assumes "apportion tot ws r = Inr ps" "r = Largest_remainder \<or> r = Largest_remainder_last"
    and "tot \<noteq> 0" "i < length ws" "j < length ws"
  defines "fl \<equiv> \<lambda>k. \<bar>tot\<bar> * ws ! k div sum_list ws" and "rm \<equiv> \<lambda>k. \<bar>tot\<bar> * ws ! k mod sum_list ws"
  shows "(ps ! i = sgn tot * fl i \<or> (0 < rm i \<and> ps ! i = sgn tot * (fl i + 1)))
    \<and> (ps ! i = sgn tot * (fl i + 1) \<and> ps ! j = sgn tot * fl j \<longrightarrow> rm j \<le> rm i)"
  using apportion_largest_parts [OF assms(1-4)] apportion_largest_fair [OF assms(1-5)]
  by (auto simp: fl_def rm_def)

theorem apportion_largest_remainder_witness:
  "apportion 100 [1, 1, 1] Largest_remainder = Inr [34, 33, 33] \<and> (100 * 1 mod 3 :: int) \<le> 100 * 1 mod 3"
proof -
  have a: "apportion 100 [1, 1, 1] Largest_remainder = Inr [34, 33, 33]" by code_simp
  show ?thesis using a apportion_largest_remainder [OF a, of 0 1] by simp
qed

text \<open>
  A credit mirrors the matching debit unit for unit: negating the total negates every part.
\<close>

theorem apportion_mirrors:
  assumes "apportion tot ws r = Inr ps"
  shows "apportion (- tot) ws r = Inr (map uminus ps)"
  by (rule apportion_minus [OF assms])

theorem apportion_mirrors_witness:
  "apportion (- 100) [1, 1, 1] Largest_remainder_last = Inr [- 33, - 33, - 34]"
proof -
  have a: "apportion 100 [1, 1, 1] Largest_remainder_last = Inr [33, 33, 34]" by code_simp
  show ?thesis using apportion_mirrors [OF a] by simp
qed

text \<open>
  \<open>allocateLargestRemainder\<close> rounds a column of amounts so that the rounded lines sum to
  the rounded total exactly, every line is a whole number of quanta, and no line moves by a
  full quantum.
\<close>

theorem allocateLargestRemainder_total:
  assumes "0 \<le> dp" "dp \<le> 4" "traverse toUnits xs = Inr us"
  defines "q \<equiv> 10 ^ nat (4 - dp)"
  shows "\<exists>cs. allocateLargestRemainder xs dp = Inr (map (\<lambda>c. fromUnits (c * q)) cs)
    \<and> length cs = length us \<and> sum_list (map (\<lambda>c. c * q) cs) = half_away (of_int (sum_list us) / of_int q) * q
    \<and> (\<forall>i < length us. \<bar>cs ! i * q - us ! i\<bar> < q)"
proof (cases "xs = []")
  case True
  with assms have "us = []" by simp
  moreover have "half_away 0 = 0" using half_away_of_int [of 0] by simp
  ultimately show ?thesis using True assms(1,2)
    by (intro exI [of _ "[]"]) (simp add: allocateLargestRemainder_def)
next
  case False
  have q: "0 < q" by (simp add: q_def)
  let ?cs = "allocated_quanta q us"
  have "allocateLargestRemainder xs dp = Inr (map (\<lambda>c. fromUnits (c * q)) ?cs)"
    unfolding q_def by (rule allocateLargestRemainder_eq [OF assms(1,2) False assms(3)])
  moreover have "sum_list (map (\<lambda>c. c * q) ?cs) = half_away (of_int (sum_list us) / of_int q) * q"
    using q by (simp add: sum_list_mult_const allocated_quanta_sum round_quot_half_away)
  ultimately show ?thesis using allocated_quanta_near [OF q] by (intro exI [of _ ?cs]) simp
qed

theorem allocateLargestRemainder_total_witness:
  "\<exists>cs. allocateLargestRemainder [''0.0050'', ''0.0050''] 2 = Inr (map (\<lambda>c. fromUnits (c * 100)) cs)
    \<and> length cs = 2 \<and> sum_list (map (\<lambda>c. c * 100) cs) = 100"
proof -
  have a: "traverse toUnits [''0.0050'', ''0.0050''] = Inr [50, 50]" by code_simp
  have h: "half_away (of_int (sum_list [50, 50]) / of_int (10 ^ nat (4 - 2))) = 1"
    using half_away_of_int [of 1] by simp
  have q: "(10 ^ nat (4 - 2) :: int) = 100" by simp
  obtain cs where "allocateLargestRemainder [''0.0050'', ''0.0050''] 2 = Inr (map (\<lambda>c. fromUnits (c * 100)) cs)"
    and "length cs = length [50, 50 :: int]" and "sum_list (map (\<lambda>c. c * 100) cs) = 1 * 100"
    using allocateLargestRemainder_total [OF _ _ a, of 2, unfolded h, unfolded q] by auto
  then show ?thesis by (intro exI [of _ cs]) simp
qed

end
