(* ===== verification/Allocation.thy ===== *)
theory Allocation
  imports Money_Split
begin

text \<open>
  \<open>engine/src/allocations/apportion.ts\<close>: allocation rules turn a ledger amount into amounts
  per target.  \<open>fixedPercentWeights\<close> and \<open>steppedWeights\<close> turn a rule's targets into weights,
  \<open>apportionTargets\<close> splits the amount over them and books the rounding residual on one
  absorber.  Weights are decimal texts read at ten places.
\<close>

section \<open>Definitions\<close>

abbreviation WEIGHT_SCALE :: int where "WEIGHT_SCALE \<equiv> 10000000000"
abbreviation PERCENT_HUNDRED_UNITS :: int where "PERCENT_HUNDRED_UNITS \<equiv> 100 * 10000"

datatype residual_policy = Largest_share | First_target | Last_target | Explicit_target

record weighted_target =
  wt_key :: string
  wt_weight :: string
  wt_isRemainder :: bool

record apportioned_target =
  at_key :: string
  at_weight :: string
  at_share :: string
  at_amount :: string
  at_residual :: string

record apportion_result =
  ar_total :: string
  ar_weightTotal :: string
  ar_targets :: "apportioned_target list"
  ar_residualKey :: "string option"

text \<open>
  \<open>/^([-+])?(\d+)?(?:\.(\d*))?$/\<close> with at least one digit on some side of the point is an
  optionally signed plain decimal.
\<close>

definition parseWeightUnits :: "string \<Rightarrow> int result" where
  "parseWeightUnits value = (let raw = trim value; (whole, frac) = split_dot (strip_sign raw) in
     if \<not> signed_plain_decimal raw then Inl (AllocationApportionError ''weight_invalid'')
     else if length frac > 10 then Inl (AllocationApportionError ''weight_precision'')
     else let magnitude = scaled_units 10 whole frac in
       Inr (if starts_minus raw then - magnitude else magnitude))"

definition formatWeightUnits :: "int \<Rightarrow> string" where
  "formatWeightUnits units = (let negative = units < 0; a = (if negative then - units else units);
       i = bigint_text (a sdiv WEIGHT_SCALE);
       frac = strip_trailing_zeros (padStart (bigint_text (a smod WEIGHT_SCALE)) 10 CHR ''0'')
     in (if negative then ''-'' else []) @ (if frac = [] then i else i @ ''.'' @ frac))"

definition formatShare10 :: "int \<Rightarrow> int \<Rightarrow> string result" where
  "formatShare10 weightUnits weightTotalUnits =
     bindE (roundDiv (weightUnits * WEIGHT_SCALE) weightTotalUnits) (\<lambda>quanta.
       Inr (bigint_text (quanta sdiv WEIGHT_SCALE) @ ''.''
            @ padStart (bigint_text (quanta smod WEIGHT_SCALE)) 10 CHR ''0''))"

type_synonym parsed_weight = "weighted_target \<times> int"

text \<open>Who absorbs the residual.\<close>

definition absorber_key ::
  "residual_policy \<Rightarrow> string option \<Rightarrow> parsed_weight \<Rightarrow> parsed_weight list \<Rightarrow> string result" where
  "absorber_key policy residualKey first parsed =
     (let soleRemainder = find (\<lambda>p. wt_isRemainder (fst p)) parsed in
      case policy of
        Explicit_target \<Rightarrow>
          (case residualKey of
             Some k \<Rightarrow> if k \<in> set (map (wt_key \<circ> fst) parsed) then Inr k
                       else Inl (AllocationApportionError ''residual_unknown'')
           | None \<Rightarrow> (case soleRemainder of Some p \<Rightarrow> Inr (wt_key (fst p))
                     | None \<Rightarrow> Inl (AllocationApportionError ''residual_missing'')))
      | _ \<Rightarrow> (case soleRemainder of Some p \<Rightarrow> Inr (wt_key (fst p))
         | None \<Rightarrow> (case policy of
               First_target \<Rightarrow> Inr (wt_key (fst first))
             | Last_target \<Rightarrow> Inr (wt_key (fst (last (first # parsed))))
             | _ \<Rightarrow> Inr (wt_key (fst (fold (\<lambda>p best. if snd p > snd best then p else best) parsed first))))))"

text \<open>The validation that opens \<open>apportionTargets\<close>: the total and the parsed weights.\<close>

definition parse_targets :: "string \<Rightarrow> weighted_target list \<Rightarrow> (int \<times> parsed_weight list) result" where
  "parse_targets total_text weights =
     bindE (rethrow (AllocationApportionError ''total_invalid'') (toUnits total_text)) (\<lambda>totalUnits.
     bindE (ensure (distinct (map wt_key weights)) (AllocationApportionError ''duplicate_key'')) (\<lambda>_.
     bindE (traverse (\<lambda>w. bindE (parseWeightUnits (wt_weight w)) (\<lambda>u. Inr (w, u))) weights) (\<lambda>parsed.
     bindE (ensure (\<not> list_ex (\<lambda>p. snd p < 0) parsed) (AllocationApportionError ''weight_negative'')) (\<lambda>_.
     bindE (ensure (\<not> length (filter (\<lambda>p. wt_isRemainder (fst p)) parsed) > 1)
              (AllocationApportionError ''remainder_count'')) (\<lambda>_.
       Inr (totalUnits, parsed))))))"

text \<open>One row of the result: the absorber's memo is what it holds beyond its floored share.\<close>

definition apportioned_row ::
  "int \<Rightarrow> int list \<Rightarrow> int \<Rightarrow> int list \<Rightarrow> nat \<times> parsed_weight \<Rightarrow> apportioned_target result" where
  "apportioned_row totalUnits splitWeights absorberIndex amounts row = (case row of (index, (w, units)) \<Rightarrow>
     let amount = amounts ! index; weightTotalUnits = sum_list splitWeights;
         residualUnits = (if int index = absorberIndex
           then amount - (totalUnits * splitWeights ! index) sdiv weightTotalUnits else 0)
     in bindE (formatShare10 units weightTotalUnits) (\<lambda>share.
          Inr \<lparr>at_key = wt_key w, at_weight = wt_weight w, at_share = share,
               at_amount = fromUnits amount, at_residual = fromUnits residualUnits\<rparr>))"

definition apportion_parsed ::
  "residual_policy \<Rightarrow> string option \<Rightarrow> int \<Rightarrow> parsed_weight list \<Rightarrow> apportion_result result" where
  "apportion_parsed policy residualKey totalUnits parsed =
     (let canonicalTotal = fromUnits totalUnits in
      case parsed of
       [] \<Rightarrow> if totalUnits \<noteq> 0 then Inl (AllocationApportionError ''no_targets'')
             else Inr \<lparr>ar_total = canonicalTotal, ar_weightTotal = ''0'', ar_targets = [], ar_residualKey = None\<rparr>
     | first # _ \<Rightarrow>
         bindE (absorber_key policy residualKey first parsed) (\<lambda>absorberKey.
         let splitWeights = map snd parsed; weightTotalUnits = sum_list splitWeights in
         if weightTotalUnits = 0 then Inl (AllocationApportionError ''no_driver_weight'')
         else let absorberIndex = findIndex (\<lambda>p. wt_key (fst p) = absorberKey) parsed in
           bindE (apportion totalUnits splitWeights (Absorber absorberIndex)) (\<lambda>amounts.
           bindE (traverse (apportioned_row totalUnits splitWeights absorberIndex amounts)
                    (zip [0..<length parsed] parsed)) (\<lambda>targets.
             Inr \<lparr>ar_total = canonicalTotal, ar_weightTotal = formatWeightUnits weightTotalUnits,
                  ar_targets = targets, ar_residualKey = Some absorberKey\<rparr>))))"

definition apportionTargets ::
  "string \<Rightarrow> weighted_target list \<Rightarrow> residual_policy \<Rightarrow> string option \<Rightarrow> apportion_result result" where
  "apportionTargets total_text weights policy residualKey =
     bindE (parse_targets total_text weights) (\<lambda>(totalUnits, parsed).
       apportion_parsed policy residualKey totalUnits parsed)"

text \<open>\<open>t.id ?? `sequence:${t.sequence}`\<close>: the key of a rule target.\<close>

record rule_target =
  rt_id :: "string option"
  rt_sequence :: int
  rt_fixedPercent :: "string option"
  rt_isRemainder :: bool

definition rule_target_key :: "rule_target \<Rightarrow> string" where
  "rule_target_key t = (case rt_id t of Some i \<Rightarrow> i | None \<Rightarrow> ''sequence:'' @ bigint_text (rt_sequence t))"

definition fixed_percent_step :: "int \<times> weighted_target list \<Rightarrow> rule_target \<Rightarrow> (int \<times> weighted_target list) result" where
  "fixed_percent_step acc t = (case acc of (tot, out) \<Rightarrow>
     let key = rule_target_key t in
     if rt_isRemainder t
     then Inr (tot, out @ [\<lparr>wt_key = key, wt_weight = ''0'', wt_isRemainder = True\<rparr>])
     else (case rt_fixedPercent t of
         None \<Rightarrow> Inl (AllocationApportionError ''fixed_percent_missing'')
       | Some p \<Rightarrow>
           bindE (rethrow (AllocationApportionError ''fixed_percent_invalid'') (toUnits p)) (\<lambda>units.
             if units \<le> 0 \<or> units > PERCENT_HUNDRED_UNITS
             then Inl (AllocationApportionError ''fixed_percent_range'')
             else Inr (tot + units,
               out @ [\<lparr>wt_key = key, wt_weight = fromUnits units, wt_isRemainder = False\<rparr>]))))"

text \<open>\<open>remainder.weight = ...\<close> on the first remainder target of the list.\<close>

fun set_remainder_weight :: "string \<Rightarrow> weighted_target list \<Rightarrow> weighted_target list" where
  "set_remainder_weight wt [] = []"
| "set_remainder_weight wt (w # ws) =
     (if wt_isRemainder w then w\<lparr>wt_weight := wt\<rparr> # ws else w # set_remainder_weight wt ws)"

definition fixedPercentWeights :: "rule_target list \<Rightarrow> weighted_target list result" where
  "fixedPercentWeights targets =
     (if length (filter rt_isRemainder targets) > 1 then Inl (AllocationApportionError ''remainder_count'')
      else bindE (foldE fixed_percent_step (0, []) targets) (\<lambda>(tot, out).
        if tot > PERCENT_HUNDRED_UNITS then Inl (AllocationApportionError ''fixed_percent_sum'')
        else let remainder = find wt_isRemainder out in
          if remainder = None \<and> tot < PERCENT_HUNDRED_UNITS
          then Inl (AllocationApportionError ''fixed_percent_sum'')
          else Inr (if remainder \<noteq> None
                    then set_remainder_weight (fromUnits (PERCENT_HUNDRED_UNITS - tot)) out else out)))"

record stepped_tier =
  st_upTo :: "string option"
  st_targetKey :: "string option"

record stepped_state =
  ss_seen :: "string list"
  ss_prev :: int
  ss_remaining :: int
  ss_out :: "weighted_target list"

definition stepped_step ::
  "nat \<Rightarrow> stepped_state \<Rightarrow> nat \<times> stepped_tier \<Rightarrow> stepped_state result" where
  "stepped_step n s it = (case it of (index, tier) \<Rightarrow>
     let key = (case st_targetKey tier of Some k \<Rightarrow> k | None \<Rightarrow> ''tier:'' @ nat_text (index + 1)) in
     bindE (ensure (key \<notin> set (ss_seen s)) (AllocationApportionError ''duplicate_key'')) (\<lambda>_.
     bindE (case st_upTo tier of
         Some bound \<Rightarrow>
           bindE (rethrow (AllocationApportionError ''stepped_tiers'') (toUnits bound)) (\<lambda>cap.
           bindE (ensure (\<not> cap < 0) (AllocationApportionError ''stepped_tiers'')) (\<lambda>_.
           bindE (ensure (\<not> cap \<le> ss_prev s) (AllocationApportionError ''stepped_tiers'')) (\<lambda>_.
             Inr (Some cap))))
       | None \<Rightarrow> if index \<noteq> n - 1 then Inl (AllocationApportionError ''stepped_tiers'') else Inr None)
     (\<lambda>cap.
       let width = (case cap of None \<Rightarrow> ss_remaining s | Some c \<Rightarrow> c - ss_prev s);
           taken = (if width < ss_remaining s then width else ss_remaining s)
       in Inr \<lparr>ss_seen = key # ss_seen s,
               ss_prev = (case cap of None \<Rightarrow> ss_prev s | Some c \<Rightarrow> c),
               ss_remaining = ss_remaining s - taken,
               ss_out = ss_out s @ [\<lparr>wt_key = key, wt_weight = fromUnits taken, wt_isRemainder = False\<rparr>]\<rparr>)))"

definition steppedWeights :: "string \<Rightarrow> stepped_tier list \<Rightarrow> weighted_target list result" where
  "steppedWeights total_text tiers =
     bindE (rethrow (AllocationApportionError ''total_invalid'') (toUnits total_text)) (\<lambda>totalUnits.
     if tiers = [] then Inl (AllocationApportionError ''stepped_tiers'')
     else bindE (foldE (stepped_step (length tiers))
            \<lparr>ss_seen = [], ss_prev = 0,
             ss_remaining = (if totalUnits < 0 then - totalUnits else totalUnits), ss_out = []\<rparr>
            (zip [0..<length tiers] tiers)) (\<lambda>s.
       if ss_remaining s > 0 then Inl (AllocationApportionError ''stepped_tiers'')
       else Inr (ss_out s)))"

section \<open>Reading weights\<close>

lemma parseWeightUnits_value:
  assumes "signed_plain_decimal (trim v)" "length (snd (split_dot (strip_sign (trim v)))) \<le> 10"
  shows "\<exists>u. parseWeightUnits v = Inr u \<and> of_int u = plain_value (trim v) * 10 ^ 10"
proof -
  obtain w f where wf: "split_dot (strip_sign (trim v)) = (w, f)" by (cases "split_dot (strip_sign (trim v))")
  have d: "list_all is_digit w" "list_all is_digit f"
    using plain_split_digits [OF _ wf] assms(1) by (simp_all add: signed_plain_decimal_def)
  have "\<not> loses_precision 10 f" using assms(2) wf by (simp add: loses_precision_def)
  from scaled_units_exact [OF d this] show ?thesis
    using assms wf by (simp add: parseWeightUnits_def Let_def plain_value_def)
qed

lemma parseWeightUnits_fromUnits [simp]: "parseWeightUnits (fromUnits u) = Inr (u * 1000000)"
proof -
  obtain v where v: "parseWeightUnits (fromUnits u) = Inr v" "of_int v = (of_int u / 10000 :: rat) * 10 ^ 10"
    using parseWeightUnits_value [of "fromUnits u"] by auto
  then have "(of_int v :: rat) = of_int (u * 1000000)" by simp
  with v(1) show ?thesis by (simp only: of_int_eq_iff)
qed

section \<open>Apportioning\<close>

lemma traverse_parsed:
  "traverse (\<lambda>w. bindE (parseWeightUnits (wt_weight w)) (\<lambda>u. Inr (w, u))) ws = Inr parsed
    \<Longrightarrow> map fst parsed = ws \<and> traverse (\<lambda>w. parseWeightUnits (wt_weight w)) ws = Inr (map snd parsed)"
  by (induction ws arbitrary: parsed) (auto simp: bindE_Inr_iff)

lemma absorber_key_member:
  assumes "absorber_key pol rk first parsed = Inr k" "first \<in> set parsed"
  shows "k \<in> set (map (wt_key \<circ> fst) parsed)"
proof -
  have best: "fold (\<lambda>p best. if snd p > snd best then p else best) ps b \<in> set parsed"
    if "set ps \<subseteq> set parsed" "b \<in> set parsed" for ps and b :: parsed_weight
    using that by (induction ps arbitrary: b) auto
  have l: "last (first # parsed) \<in> set parsed"
    using assms(2) by (cases parsed) auto
  have mem: "wt_key (fst p) \<in> set (map (wt_key \<circ> fst) parsed)" if "p \<in> set parsed" for p
    using that by auto
  show ?thesis
  proof (cases "find (\<lambda>p. wt_isRemainder (fst p)) parsed")
    case None
    then show ?thesis using assms(1) mem [OF l] mem [OF assms(2)] mem [OF best [OF subset_refl assms(2)]]
      by (simp add: absorber_key_def Let_def split: residual_policy.splits option.splits if_splits)
  next
    case (Some p)
    then have "p \<in> set parsed" by (simp add: find_member)
    then show ?thesis using assms(1) Some
      by (auto simp add: absorber_key_def Let_def split: residual_policy.splits option.splits if_splits)
  qed
qed

lemma parse_targets_Inr:
  assumes "parse_targets t ws = Inr (tu, parsed)"
  shows "toUnits t = Inr tu" "distinct (map wt_key ws)" "map fst parsed = ws"
    "traverse (\<lambda>w. parseWeightUnits (wt_weight w)) ws = Inr (map snd parsed)"
    "\<not> list_ex (\<lambda>p. snd p < 0) parsed"
  using assms by (auto simp: parse_targets_def result_simps dest: traverse_parsed)

lemma apportion_parsed_InrE:
  assumes "apportion_parsed pol rk tu parsed = Inr res" "parsed = p0 # rest"
  obtains k amounts where "absorber_key pol rk p0 parsed = Inr k" "sum_list (map snd parsed) \<noteq> 0"
    "apportion tu (map snd parsed) (Absorber (findIndex (\<lambda>p. wt_key (fst p) = k) parsed)) = Inr amounts"
    "traverse (apportioned_row tu (map snd parsed) (findIndex (\<lambda>p. wt_key (fst p) = k) parsed) amounts)
        (zip [0..<length parsed] parsed) = Inr (ar_targets res)"
    "ar_residualKey res = Some k"
proof -
  have r: "bindE (absorber_key pol rk p0 parsed) (\<lambda>k.
      if sum_list (map snd parsed) = 0 then Inl (AllocationApportionError ''no_driver_weight'')
      else bindE (apportion tu (map snd parsed) (Absorber (findIndex (\<lambda>p. wt_key (fst p) = k) parsed))) (\<lambda>amounts.
           bindE (traverse (apportioned_row tu (map snd parsed) (findIndex (\<lambda>p. wt_key (fst p) = k) parsed) amounts)
                    (zip [0..<length parsed] parsed)) (\<lambda>targets.
             Inr \<lparr>ar_total = fromUnits tu, ar_weightTotal = formatWeightUnits (sum_list (map snd parsed)),
                  ar_targets = targets, ar_residualKey = Some k\<rparr>))) = Inr res"
    using assms(1) unfolding apportion_parsed_def Let_def assms(2) list.case .
  from r show thesis
  proof (rule bindE_InrE)
    fix k assume k: "absorber_key pol rk p0 parsed = Inr k"
      and r: "(if sum_list (map snd parsed) = 0 then Inl (AllocationApportionError ''no_driver_weight'')
      else bindE (apportion tu (map snd parsed) (Absorber (findIndex (\<lambda>p. wt_key (fst p) = k) parsed))) (\<lambda>amounts.
           bindE (traverse (apportioned_row tu (map snd parsed) (findIndex (\<lambda>p. wt_key (fst p) = k) parsed) amounts)
                    (zip [0..<length parsed] parsed)) (\<lambda>targets.
             Inr \<lparr>ar_total = fromUnits tu, ar_weightTotal = formatWeightUnits (sum_list (map snd parsed)),
                  ar_targets = targets, ar_residualKey = Some k\<rparr>))) = Inr res"
    have W: "sum_list (map snd parsed) \<noteq> 0" using r by (cases "sum_list (map snd parsed) = 0") simp_all
    from r show thesis unfolding if_not_P [OF W]
      by (elim bindE_InrE) (rule that [OF k W], assumption, auto)
  qed
qed

lemma apportioned_row_Inr:
  assumes "apportioned_row tu us ai amounts (i, p) = Inr row"
  shows "at_key row = wt_key (fst p) \<and> at_weight row = wt_weight (fst p)
    \<and> at_amount row = fromUnits (amounts ! i)
    \<and> at_residual row = fromUnits (if int i = ai then amounts ! i - (tu * us ! i) sdiv sum_list us else 0)"
  using assms unfolding apportioned_row_def by (cases p) (auto simp: Let_def elim!: bindE_InrE)

lemma apportioned_rows_nth:
  assumes "traverse (apportioned_row tu us ai amounts) (zip [0..<length ps] ps) = Inr rows" "i < length ps"
  shows "apportioned_row tu us ai amounts (i, ps ! i) = Inr (rows ! i)"
  using assms by (auto simp: traverse_Inr_iff list_all2_conv_all_nth)

text \<open>What a successful apportionment consists of.\<close>

lemma apportionTargets_InrE:
  assumes "apportionTargets t ws pol rk = Inr res" "ws \<noteq> []"
  obtains tu us ai amounts k where "toUnits t = Inr tu" "distinct (map wt_key ws)"
    "traverse (\<lambda>w. parseWeightUnits (wt_weight w)) ws = Inr us" "sum_list us \<noteq> 0"
    "0 \<le> ai" "ai < int (length ws)" "wt_key (ws ! nat ai) = k" "ar_residualKey res = Some k"
    "apportion tu us (Absorber ai) = Inr amounts"
    "length (ar_targets res) = length ws"
    "\<And>i. i < length ws \<Longrightarrow> at_key (ar_targets res ! i) = wt_key (ws ! i)
        \<and> at_amount (ar_targets res ! i) = fromUnits (amounts ! i)
        \<and> at_residual (ar_targets res ! i)
            = fromUnits (if int i = ai then amounts ! i - (tu * us ! i) sdiv sum_list us else 0)"
proof -
  from assms(1) obtain tu parsed where pt: "parse_targets t ws = Inr (tu, parsed)"
    and ap: "apportion_parsed pol rk tu parsed = Inr res"
    unfolding apportionTargets_def by (elim bindE_InrE) (auto split: prod.splits)
  note facts = parse_targets_Inr [OF pt]
  have ws: "map fst parsed = ws" and len: "length parsed = length ws" using facts by auto
  with assms(2) obtain p0 rest where p0: "parsed = p0 # rest" by (cases parsed) auto
  let ?us = "map snd parsed"
  obtain k amounts where
    k: "absorber_key pol rk p0 parsed = Inr k" and W: "sum_list ?us \<noteq> 0"
    and ap: "apportion tu ?us (Absorber (findIndex (\<lambda>p. wt_key (fst p) = k) parsed)) = Inr amounts"
    and tr: "traverse (apportioned_row tu ?us (findIndex (\<lambda>p. wt_key (fst p) = k) parsed) amounts)
        (zip [0..<length parsed] parsed) = Inr (ar_targets res)"
    and rk: "ar_residualKey res = Some k"
    by (rule apportion_parsed_InrE [OF ap p0])
  define ai where "ai = findIndex (\<lambda>p. wt_key (fst p) = k) parsed"
  have "k \<in> set (map (wt_key \<circ> fst) parsed)" using absorber_key_member [OF k] p0 by simp
  then obtain p where "p \<in> set parsed" "wt_key (fst p) = k" by auto
  note ai = findIndex_found [where p = "\<lambda>p. wt_key (fst p) = k", OF this, folded ai_def]
  have key: "wt_key (ws ! nat ai) = k"
    unfolding ws [symmetric] using ai by simp
  have len': "length (ar_targets res) = length ws" using traverse_length [OF tr] len by simp
  have nth: "at_key (ar_targets res ! i) = wt_key (ws ! i)
      \<and> at_amount (ar_targets res ! i) = fromUnits (amounts ! i)
      \<and> at_residual (ar_targets res ! i)
          = fromUnits (if int i = ai then amounts ! i - (tu * ?us ! i) sdiv sum_list ?us else 0)"
    if "i < length ws" for i
  proof -
    have "fst (parsed ! i) = ws ! i" unfolding ws [symmetric] using that len by simp
    with apportioned_row_Inr [OF apportioned_rows_nth [OF tr, unfolded len, OF that]]
    show ?thesis unfolding ai_def by simp
  qed
  have lt: "ai < int (length ws)" using ai(2) len by simp
  show thesis
    by (rule that [OF facts(1,2,4) W ai(1) lt key rk ap [folded ai_def] len']) (rule nth)
qed

section \<open>Weights of percent grids\<close>

lemma traverse_snoc:
  "traverse f xs = Inr ys \<Longrightarrow> f x = Inr y \<Longrightarrow> traverse f (xs @ [x]) = Inr (ys @ [y])"
  by (rule traverse_append) simp_all

definition percent_inv :: "int \<times> weighted_target list \<Rightarrow> bool" where
  "percent_inv acc = (case acc of (tot, out) \<Rightarrow>
     (\<exists>us. traverse (\<lambda>w. toUnits (wt_weight w)) out = Inr us \<and> sum_list us = tot \<and> (\<forall>u \<in> set us. 0 \<le> u))
     \<and> (\<forall>w \<in> set out. wt_isRemainder w \<longrightarrow> wt_weight w = ''0''))"

lemma percent_inv_step:
  assumes "percent_inv acc" "fixed_percent_step acc t = Inr acc'"
  shows "percent_inv acc'"
proof -
  obtain tot out where acc: "acc = (tot, out)" by (cases acc)
  from assms(1) acc obtain us where us: "traverse (\<lambda>w. toUnits (wt_weight w)) out = Inr us" "sum_list us = tot" "\<forall>u \<in> set us. 0 \<le> u"
    and z: "\<forall>w \<in> set out. wt_isRemainder w \<longrightarrow> wt_weight w = ''0''"
    by (auto simp: percent_inv_def)
  show ?thesis
  proof (cases "rt_isRemainder t")
    case True
    then have "acc' = (tot, out @ [\<lparr>wt_key = rule_target_key t, wt_weight = ''0'', wt_isRemainder = True\<rparr>])"
      using assms(2) acc by (simp add: fixed_percent_step_def Let_def)
    then show ?thesis using us z traverse_snoc [OF us(1), of _ 0]
      by (auto simp: percent_inv_def)
  next
    case False
    then obtain u where "0 \<le> u" "acc' = (tot + u,
        out @ [\<lparr>wt_key = rule_target_key t, wt_weight = fromUnits u, wt_isRemainder = False\<rparr>])"
      using assms(2) acc
      by (auto simp: fixed_percent_step_def Let_def result_simps split: option.splits if_splits)
    then show ?thesis using us z traverse_snoc [OF us(1), of _ u]
      by (auto simp: percent_inv_def)
  qed
qed

lemma set_remainder_weight_units:
  assumes "traverse (\<lambda>w. toUnits (wt_weight w)) out = Inr us" "find wt_isRemainder out \<noteq> None"
    and "\<forall>w \<in> set out. wt_isRemainder w \<longrightarrow> wt_weight w = ''0''" and "0 \<le> r" "\<forall>u \<in> set us. 0 \<le> u"
  shows "\<exists>vs. traverse (\<lambda>w. toUnits (wt_weight w)) (set_remainder_weight (fromUnits r) out) = Inr vs
    \<and> sum_list vs = sum_list us + r \<and> (\<forall>u \<in> set vs. 0 \<le> u)"
  using assms
proof (induction out arbitrary: us)
  case (Cons w out)
  from Cons.prems(1) obtain u vs where u: "toUnits (wt_weight w) = Inr u"
    "traverse (\<lambda>w. toUnits (wt_weight w)) out = Inr vs" "us = u # vs" by (auto simp: bindE_Inr_iff)
  show ?case
  proof (cases "wt_isRemainder w")
    case True
    with Cons.prems(3) u(1) have "u = 0" by simp
    with True u Cons.prems show ?thesis by simp
  next
    case False
    then obtain vs' where "\<forall>u \<in> set vs'. 0 \<le> u" and "traverse (\<lambda>w. toUnits (wt_weight w)) (set_remainder_weight (fromUnits r) out) = Inr vs'"
      "sum_list vs' = sum_list vs + r" using Cons.IH [OF u(2)] Cons.prems u(3) by auto
    with False u Cons.prems show ?thesis by simp
  qed
qed simp

lemma fixedPercentWeights_units:
  assumes "fixedPercentWeights ts = Inr ws"
  shows "\<exists>us. traverse (\<lambda>w. toUnits (wt_weight w)) ws = Inr us \<and> sum_list us = PERCENT_HUNDRED_UNITS
    \<and> (\<forall>u \<in> set us. 0 \<le> u)"
proof -
  obtain tot out where f: "foldE fixed_percent_step (0, []) ts = Inr (tot, out)"
    using assms by (auto simp: fixedPercentWeights_def result_simps split: if_splits)
  with assms have le: "\<not> tot > PERCENT_HUNDRED_UNITS"
    and r: "\<not> (find wt_isRemainder out = None \<and> tot < PERCENT_HUNDRED_UNITS)"
    and ws: "ws = (if find wt_isRemainder out \<noteq> None
        then set_remainder_weight (fromUnits (PERCENT_HUNDRED_UNITS - tot)) out else out)"
    by (simp_all add: fixedPercentWeights_def Let_def split: if_splits)
  have "percent_inv (tot, out)"
    by (rule foldE_invariant [where P = percent_inv, OF f])
      (simp add: percent_inv_def, rule percent_inv_step)
  then obtain us where us: "traverse (\<lambda>w. toUnits (wt_weight w)) out = Inr us" "sum_list us = tot" "\<forall>u \<in> set us. 0 \<le> u"
    and z: "\<forall>w \<in> set out. wt_isRemainder w \<longrightarrow> wt_weight w = ''0''"
    by (auto simp: percent_inv_def)
  show ?thesis
  proof (cases "find wt_isRemainder out = None")
    case True
    with r le us ws show ?thesis by auto
  next
    case False
    with set_remainder_weight_units [OF us(1) False z _ us(3), of "PERCENT_HUNDRED_UNITS - tot"] us(2) ws le
    show ?thesis by simp
  qed
qed

section \<open>Weights of stepped tiers\<close>

text \<open>
  The loop invariant of \<open>steppedWeights\<close>: the slices taken so far and the remaining magnitude sum
  to the magnitude of the amount, no slice is negative, and the keys are those already seen.
\<close>

definition stepped_inv :: "int \<Rightarrow> stepped_state \<Rightarrow> bool" where
  "stepped_inv m s \<longleftrightarrow> 0 \<le> ss_remaining s \<and> distinct (map wt_key (ss_out s))
     \<and> set (map wt_key (ss_out s)) = set (ss_seen s) \<and> filter wt_isRemainder (ss_out s) = []
     \<and> (\<exists>us. map wt_weight (ss_out s) = map fromUnits us \<and> (\<forall>u \<in> set us. 0 \<le> u)
          \<and> sum_list us + ss_remaining s = m)"

lemma stepped_step_Inr:
  assumes "stepped_step n s (i, tier) = Inr s'" "0 \<le> ss_remaining s"
  obtains key taken where "key \<notin> set (ss_seen s)" "0 \<le> taken" "taken \<le> ss_remaining s"
    "ss_seen s' = key # ss_seen s" "ss_remaining s' = ss_remaining s - taken"
    "ss_out s' = ss_out s @ [\<lparr>wt_key = key, wt_weight = fromUnits taken, wt_isRemainder = False\<rparr>]"
proof -
  define key where "key = (case st_targetKey tier of Some k \<Rightarrow> k | None \<Rightarrow> ''tier:'' @ nat_text (i + 1))"
  have new: "key \<notin> set (ss_seen s)" using assms(1) unfolding stepped_step_def Let_def key_def
    by (auto elim!: bindE_InrE simp: result_simps)
  show thesis
  proof (cases "st_upTo tier")
    case None
    with assms(1) have "s' = \<lparr>ss_seen = key # ss_seen s, ss_prev = ss_prev s, ss_remaining = 0,
        ss_out = ss_out s @ [\<lparr>wt_key = key, wt_weight = fromUnits (ss_remaining s), wt_isRemainder = False\<rparr>]\<rparr>"
      unfolding stepped_step_def Let_def key_def by (auto elim!: bindE_InrE simp: result_simps split: if_splits)
    with that [OF new, of "ss_remaining s"] assms(2) show thesis by simp
  next
    case (Some bound)
    with assms(1) obtain cap where cap: "ss_prev s < cap"
      and s': "s' = \<lparr>ss_seen = key # ss_seen s, ss_prev = cap,
        ss_remaining = ss_remaining s - min (cap - ss_prev s) (ss_remaining s),
        ss_out = ss_out s @ [\<lparr>wt_key = key, wt_weight = fromUnits (min (cap - ss_prev s) (ss_remaining s)), wt_isRemainder = False\<rparr>]\<rparr>"
      unfolding stepped_step_def Let_def key_def
      by (auto elim!: bindE_InrE simp: result_simps split: if_splits)
    show thesis by (rule that [OF new, of "min (cap - ss_prev s) (ss_remaining s)"]) (use cap assms(2) s' in auto)
  qed
qed

lemma stepped_inv_step:
  assumes "stepped_inv m s" "stepped_step n s it = Inr s'"
  shows "stepped_inv m s'"
proof -
  obtain i tier where it: "it = (i, tier)" by (cases it)
  have r: "0 \<le> ss_remaining s" and d: "distinct (map wt_key (ss_out s))"
    and keys: "set (map wt_key (ss_out s)) = set (ss_seen s)" and fl: "filter wt_isRemainder (ss_out s) = []"
    using assms(1) by (simp_all add: stepped_inv_def)
  obtain us where us: "map wt_weight (ss_out s) = map fromUnits us" "\<forall>u \<in> set us. 0 \<le> u"
    "sum_list us + ss_remaining s = m" using assms(1) by (auto simp: stepped_inv_def)
  obtain key taken where k: "key \<notin> set (ss_seen s)" "0 \<le> taken" "taken \<le> ss_remaining s"
    "ss_seen s' = key # ss_seen s" "ss_remaining s' = ss_remaining s - taken"
    "ss_out s' = ss_out s @ [\<lparr>wt_key = key, wt_weight = fromUnits taken, wt_isRemainder = False\<rparr>]"
    by (rule stepped_step_Inr [OF assms(2) [unfolded it] r])
  have "\<exists>vs. map wt_weight (ss_out s') = map fromUnits vs \<and> (\<forall>u \<in> set vs. 0 \<le> u)
      \<and> sum_list vs + ss_remaining s' = m"
    by (rule exI [of _ "us @ [taken]"]) (use us k in auto)
  moreover have "distinct (map wt_key (ss_out s'))" "set (map wt_key (ss_out s')) = set (ss_seen s')"
    using d keys k by auto
  ultimately show ?thesis using k fl by (simp add: stepped_inv_def)
qed

lemma steppedWeights_InrE:
  assumes "steppedWeights t tiers = Inr ws"
  obtains tu us where "toUnits t = Inr tu" "ws \<noteq> []" "distinct (map wt_key ws)" "filter wt_isRemainder ws = []"
    "map wt_weight ws = map fromUnits us" "\<forall>u \<in> set us. 0 \<le> u" "sum_list us = \<bar>tu\<bar>"
proof -
  let ?s0 = "\<lambda>tu. \<lparr>ss_seen = [], ss_prev = 0, ss_remaining = (if tu < 0 then - tu else tu), ss_out = []\<rparr> :: stepped_state"
  obtain tu where tu: "toUnits t = Inr tu" and ne: "tiers \<noteq> []" and
    r: "bindE (foldE (stepped_step (length tiers)) (?s0 tu) (zip [0..<length tiers] tiers)) (\<lambda>s.
       if ss_remaining s > 0 then Inl (AllocationApportionError ''stepped_tiers'') else Inr (ss_out s)) = Inr ws"
    using assms unfolding steppedWeights_def
    by (elim bindE_InrE) (auto simp: result_simps simp del: foldE.simps split: if_splits)
  from r obtain s where f: "foldE (stepped_step (length tiers)) (?s0 tu) (zip [0..<length tiers] tiers) = Inr s"
    and le: "\<not> ss_remaining s > 0" and ws: "ws = ss_out s" by (elim bindE_InrE) (auto split: if_splits)
  have inv: "stepped_inv \<bar>tu\<bar> s"
    by (rule foldE_invariant [where P = "stepped_inv \<bar>tu\<bar>", OF f])
      (simp add: stepped_inv_def, rule stepped_inv_step)
  have "ss_out s \<noteq> []"
  proof -
    obtain n where n: "length tiers = Suc n" using ne by (cases tiers) auto
    have "length (ss_out s) = length (zip [0..<length tiers] tiers)"
    proof -
      have "foldE (stepped_step k) a xs = Inr b \<Longrightarrow> stepped_inv m a \<Longrightarrow> length (ss_out b) = length (ss_out a) + length xs"
        for k a xs b m
      proof (induction xs arbitrary: a)
        case (Cons x xs)
        then obtain c where c: "stepped_step k a x = Inr c" "foldE (stepped_step k) c xs = Inr b"
          by (auto simp: bindE_Inr_iff)
        obtain i tier where x: "x = (i, tier)" by (cases x)
        have "length (ss_out c) = Suc (length (ss_out a))"
          using Cons.prems(2) by (rule_tac stepped_step_Inr [OF c(1) [unfolded x]]) (auto simp: stepped_inv_def)
        with Cons.IH [OF c(2) stepped_inv_step [OF Cons.prems(2) c(1)]] show ?case by simp
      qed simp
      from this [OF f, of "\<bar>tu\<bar>"] show ?thesis by (simp add: stepped_inv_def)
    qed
    then show ?thesis using n by auto
  qed
  with inv le ws that [OF tu] show thesis unfolding stepped_inv_def by auto
qed

section \<open>When an apportionment is accepted\<close>

lemma formatShare10_total: "0 < W \<Longrightarrow> \<exists>s. formatShare10 u W = Inr s"
  by (simp add: formatShare10_def roundDiv_pos)

lemma apportioned_rows_total:
  assumes "0 < sum_list us"
  shows "\<exists>rows. traverse (apportioned_row tu us ai amounts) xs = Inr rows"
proof (induction xs)
  case (Cons x xs)
  obtain i w u where x: "x = (i, w, u)" by (cases x)
  obtain sh where "formatShare10 u (sum_list us) = Inr sh" using formatShare10_total [OF assms] by blast
  with Cons x show ?case by (auto simp: apportioned_row_def Let_def)
qed simp

lemma absorber_key_total: "pol \<noteq> Explicit_target \<Longrightarrow> \<exists>k. absorber_key pol rk first parsed = Inr k"
  by (cases pol; cases "find (\<lambda>p. wt_isRemainder (fst p)) parsed") (simp_all add: absorber_key_def)

lemma apportionTargets_accepts:
  assumes "toUnits t = Inr tu" "ws \<noteq> []" "distinct (map wt_key ws)"
    "traverse (\<lambda>w. parseWeightUnits (wt_weight w)) ws = Inr us"
    "\<forall>u \<in> set us. 0 \<le> u" "sum_list us \<noteq> 0" "length (filter wt_isRemainder ws) \<le> 1"
    "pol \<noteq> Explicit_target"
  shows "\<exists>res. apportionTargets t ws pol rk = Inr res"
proof -
  let ?ps = "zip ws us"
  have len: "length us = length ws" by (rule traverse_length [OF assms(4)])
  have parsed: "traverse (\<lambda>w. bindE (parseWeightUnits (wt_weight w)) (\<lambda>u. Inr (w, u))) ws = Inr ?ps"
    using assms(4) len unfolding traverse_Inr_iff list_all2_conv_all_nth by simp
  have snds: "map snd ?ps = us" and fsts: "map fst ?ps = ws" using len by simp_all
  have nn: "\<not> list_ex (\<lambda>p. snd p < 0) ?ps"
    using assms(5) by (auto simp: list_ex_iff not_less dest: set_zip_rightD)
  have "length (filter (\<lambda>p. wt_isRemainder (fst p)) ?ps) = length (filter wt_isRemainder (map fst ?ps))"
    by (simp add: filter_map o_def)
  then have r1: "\<not> length (filter (\<lambda>p. wt_isRemainder (fst p)) ?ps) > 1" using assms(7) fsts by simp
  have pt: "parse_targets t ws = Inr (tu, ?ps)"
    using assms(1,3) parsed nn r1 by (simp add: parse_targets_def)
  obtain p0 rest where p0: "?ps = p0 # rest" using assms(2) len by (cases ws; cases us) auto
  obtain k where k: "absorber_key pol rk p0 ?ps = Inr k"
    using absorber_key_total [OF assms(8)] by blast
  have "k \<in> set (map (wt_key \<circ> fst) ?ps)" using absorber_key_member [OF k] p0 by simp
  then obtain p where "p \<in> set ?ps" "wt_key (fst p) = k" by auto
  note ai = findIndex_found [where p = "\<lambda>p. wt_key (fst p) = k", OF this]
  let ?ai = "findIndex (\<lambda>p. wt_key (fst p) = k) ?ps"
  have ar: "absorber_in_range (Absorber ?ai) (length us)" using ai len by (simp add: absorber_in_range_def)
  have neg: "\<not> list_ex (\<lambda>w. w < 0) us" using assms(5) by (auto simp: list_ex_iff not_less)
  obtain amounts where am: "apportion tu us (Absorber ?ai) = Inr amounts"
    using apportion_accepts [OF neg assms(6) ar] by blast
  have "0 < sum_list us" using assms(5,6) sum_list_nonneg_int [of us id] by auto
  then obtain rows where rows: "traverse (apportioned_row tu us ?ai amounts) (zip [0..<length ?ps] ?ps) = Inr rows"
    using apportioned_rows_total by blast
  have "\<exists>res. apportion_parsed pol rk tu ?ps = Inr res"
    unfolding apportion_parsed_def Let_def
    by (subst p0, subst list.case) (simp only: k bindE.simps snds assms(6) if_False am rows sum.inject ex_simps simp_thms)
  then show ?thesis by (simp add: apportionTargets_def pt)
qed

text \<open>Weights that sum to the magnitude itself are reproduced exactly, with the sign of the total.\<close>

lemma apportion_proportional:
  assumes "tu \<noteq> 0" "0 < c" "\<forall>u \<in> set us. 0 \<le> u" "sum_list us = \<bar>tu\<bar>" "0 \<le> ai" "ai < int (length us)"
  shows "apportion tu (map ((*) c) us) (Absorber ai) = Inr (map ((*) (sgn tu)) us)"
proof -
  let ?ws = "map ((*) c) us"
  have W: "sum_list ?ws = c * \<bar>tu\<bar>" using assms(4) by (simp add: sum_list_const_mult)
  have "floor_parts \<bar>tu\<bar> ?ws = us"
    using assms(1,2) unfolding floor_parts_def W by (intro nth_equalityI) (simp_all add: mult.commute mult.left_commute)
  moreover have "\<not> list_ex (\<lambda>w. w < 0) ?ws"
    using assms(2,3) by (auto simp: list_ex_iff not_less)
  moreover have "sum_list ?ws \<noteq> 0" using W assms(1,2) by simp
  ultimately show ?thesis
    using apportion_accepted [of ?ws tu "Absorber ai"] assms by (simp add: absorber_in_range_def)
qed

section \<open>Properties\<close>

text \<open>
  An accepted apportionment conserves the amount: the rows are the targets in order, the row
  amounts sum to exactly the total that was split, and only the declared absorber's row carries a
  rounding residual.
\<close>

theorem apportionTargets_conserves:
  assumes "apportionTargets t ws pol rk = Inr res"
  shows "map at_key (ar_targets res) = map wt_key ws
    \<and> (\<exists>us. traverse toUnits (map at_amount (ar_targets res)) = Inr us \<and> toUnits t = Inr (sum_list us))
    \<and> (\<forall>row \<in> set (ar_targets res). at_residual row = ''0.0000'' \<or> ar_residualKey res = Some (at_key row))"
proof (cases "ws = []")
  case True
  then show ?thesis using assms
    by (auto simp: apportionTargets_def parse_targets_def apportion_parsed_def result_simps split: if_splits)
next
  case False
  obtain tu us ai amounts k where facts: "toUnits t = Inr tu" "ar_residualKey res = Some k"
    "wt_key (ws ! nat ai) = k" "apportion tu us (Absorber ai) = Inr amounts" "0 \<le> ai"
    "traverse (\<lambda>w. parseWeightUnits (wt_weight w)) ws = Inr us"
    and len: "length (ar_targets res) = length ws"
    and nth: "\<And>i. i < length ws \<Longrightarrow> at_key (ar_targets res ! i) = wt_key (ws ! i)
        \<and> at_amount (ar_targets res ! i) = fromUnits (amounts ! i)
        \<and> at_residual (ar_targets res ! i)
            = fromUnits (if int i = ai then amounts ! i - (tu * us ! i) sdiv sum_list us else 0)"
    by (rule apportionTargets_InrE [OF assms False]) blast
  have "length amounts = length ws"
    using apportion_length [OF facts(4)] traverse_length [OF facts(6)] by simp
  then have "map at_amount (ar_targets res) = map fromUnits amounts"
    using len nth by (intro nth_equalityI) simp_all
  then have "\<exists>vs. traverse toUnits (map at_amount (ar_targets res)) = Inr vs \<and> toUnits t = Inr (sum_list vs)"
    using facts(1) apportion_sum [OF facts(4)] by simp
  moreover have "map at_key (ar_targets res) = map wt_key ws" using len nth by (intro nth_equalityI) simp_all
  moreover have "at_residual row = ''0.0000'' \<or> ar_residualKey res = Some (at_key row)"
    if "row \<in> set (ar_targets res)" for row
  proof -
    from that len obtain i where "i < length ws" "row = ar_targets res ! i" by (auto simp: in_set_conv_nth)
    with nth facts show ?thesis by (cases "int i = ai") (auto simp: fromUnits_zero)
  qed
  ultimately show ?thesis by blast
qed

theorem apportionTargets_conserves_witness:
  "\<exists>res us. apportionTargets ''100.00''
      [\<lparr>wt_key = ''a'', wt_weight = ''1'', wt_isRemainder = False\<rparr>,
       \<lparr>wt_key = ''b'', wt_weight = ''2'', wt_isRemainder = False\<rparr>] Largest_share None = Inr res
    \<and> traverse toUnits (map at_amount (ar_targets res)) = Inr us \<and> sum_list us = 1000000"
proof -
  let ?ws = "[\<lparr>wt_key = ''a'', wt_weight = ''1'', wt_isRemainder = False\<rparr>,
       \<lparr>wt_key = ''b'', wt_weight = ''2'', wt_isRemainder = False\<rparr>]"
  have t: "toUnits ''100.00'' = Inr 1000000" by code_simp
  have p: "traverse (\<lambda>w. parseWeightUnits (wt_weight w)) ?ws = Inr [10000000000, 20000000000]" by code_simp
  obtain res where "apportionTargets ''100.00'' ?ws Largest_share None = Inr res"
    using apportionTargets_accepts [OF t _ _ p, of Largest_share None] by auto
  with apportionTargets_conserves [OF this] t show ?thesis by auto
qed

text \<open>
  A fixed-percent rule that is accepted always distributes exactly one hundred percent: the
  weights of \<open>fixedPercentWeights\<close>, the remainder target's included, are ledger amounts that sum
  to 100.0000, and no weight is negative.
\<close>

theorem fixedPercentWeights_hundred:
  assumes "fixedPercentWeights ts = Inr ws"
  shows "\<exists>us. traverse (\<lambda>w. toUnits (wt_weight w)) ws = Inr us \<and> sum_list us = 100 * 10000
    \<and> (\<forall>u \<in> set us. 0 \<le> u)"
  using fixedPercentWeights_units [OF assms] by simp

theorem fixedPercentWeights_hundred_witness:
  "\<exists>ws us. fixedPercentWeights
      [\<lparr>rt_id = Some ''a'', rt_sequence = 1, rt_fixedPercent = Some ''33.3333'', rt_isRemainder = False\<rparr>,
       \<lparr>rt_id = None, rt_sequence = 2, rt_fixedPercent = None, rt_isRemainder = True\<rparr>] = Inr ws
    \<and> traverse (\<lambda>w. toUnits (wt_weight w)) ws = Inr us \<and> sum_list us = 1000000"
proof -
  let ?ts = "[\<lparr>rt_id = Some ''a'', rt_sequence = 1, rt_fixedPercent = Some ''33.3333'', rt_isRemainder = False\<rparr>,
       \<lparr>rt_id = None, rt_sequence = 2, rt_fixedPercent = None, rt_isRemainder = True\<rparr>]"
  have "fixedPercentWeights ?ts = Inr
      [\<lparr>wt_key = ''a'', wt_weight = ''33.3333'', wt_isRemainder = False\<rparr>,
       \<lparr>wt_key = ''sequence:2'', wt_weight = ''66.6667'', wt_isRemainder = True\<rparr>]" by code_simp
  with fixedPercentWeights_hundred [of ?ts] show ?thesis by fastforce
qed

text \<open>
  Tiers that are accepted cover the whole amount, and apportioning the amount over the tier
  weights gives back each tier's slice to the unit, with the sign of the amount and no residual
  moved between tiers: there are slices, none negative, which sum to the magnitude and which are
  both the weights and, signed, the amounts.
\<close>

theorem steppedWeights_slices:
  assumes "steppedWeights t tiers = Inr ws" "toUnits t = Inr tu" "tu \<noteq> 0" "pol \<noteq> Explicit_target"
  shows "\<exists>slices res. map wt_weight ws = map fromUnits slices \<and> (\<forall>u \<in> set slices. 0 \<le> u)
    \<and> sum_list slices = \<bar>tu\<bar> \<and> apportionTargets t ws pol rk = Inr res
    \<and> map at_amount (ar_targets res) = map (\<lambda>u. fromUnits (sgn tu * u)) slices"
proof -
  obtain us where us: "ws \<noteq> []" "distinct (map wt_key ws)" "filter wt_isRemainder ws = []"
    "map wt_weight ws = map fromUnits us" "\<forall>u \<in> set us. 0 \<le> u" "sum_list us = \<bar>tu\<bar>"
    by (rule steppedWeights_InrE [OF assms(1)]) (use assms(2) in auto)
  let ?vs = "map ((*) 1000000) us"
  have len: "length us = length ws" using us(4) by (metis length_map)
  have parse: "traverse (\<lambda>w. parseWeightUnits (wt_weight w)) ws = Inr ?vs"
  proof -
    have "traverse parseWeightUnits (map fromUnits us) = Inr ?vs"
      by (induction us) (auto simp: mult.commute)
    then show ?thesis using traverse_map [of parseWeightUnits wt_weight ws] us(4) by simp
  qed
  have "sum_list ?vs = 1000000 * \<bar>tu\<bar>" using us(6) by (simp add: sum_list_const_mult)
  then obtain res where res: "apportionTargets t ws pol rk = Inr res"
    using apportionTargets_accepts [OF assms(2) us(1,2) parse _ _ _ assms(4), of rk] us(3,5) assms(3) by auto
  obtain ai amounts where ai: "0 \<le> ai" "ai < int (length ws)" "apportion tu ?vs (Absorber ai) = Inr amounts"
    and len': "length (ar_targets res) = length ws"
    and nth: "\<And>i. i < length ws \<Longrightarrow> at_amount (ar_targets res ! i) = fromUnits (amounts ! i)"
    by (rule apportionTargets_InrE [OF res us(1)]) (use assms(2) parse in auto)
  have "amounts = map ((*) (sgn tu)) us"
    using apportion_proportional [OF assms(3) _ us(5,6) ai(1), of 1000000] ai len by simp
  then have "map at_amount (ar_targets res) = map (\<lambda>u. fromUnits (sgn tu * u)) us"
    using nth len len' by (intro nth_equalityI) simp_all
  with us res show ?thesis by blast
qed

theorem steppedWeights_slices_witness:
  "\<exists>ws slices res. steppedWeights ''-15''
      [\<lparr>st_upTo = Some ''10'', st_targetKey = None\<rparr>, \<lparr>st_upTo = None, st_targetKey = None\<rparr>] = Inr ws
    \<and> map wt_weight ws = map fromUnits slices \<and> sum_list slices = \<bar>- 150000\<bar>
    \<and> apportionTargets ''-15'' ws Largest_share None = Inr res
    \<and> map at_amount (ar_targets res) = map (\<lambda>u. fromUnits (sgn (- 150000) * u)) slices"
proof -
  have w: "steppedWeights ''-15'' [\<lparr>st_upTo = Some ''10'', st_targetKey = None\<rparr>, \<lparr>st_upTo = None, st_targetKey = None\<rparr>]
    = Inr [\<lparr>wt_key = ''tier:1'', wt_weight = ''10.0000'', wt_isRemainder = False\<rparr>,
        \<lparr>wt_key = ''tier:2'', wt_weight = ''5.0000'', wt_isRemainder = False\<rparr>]"
  proof -
    let ?s1 = "\<lparr>ss_seen = [''tier:1''], ss_prev = 100000, ss_remaining = 50000,
        ss_out = [\<lparr>wt_key = ''tier:1'', wt_weight = ''10.0000'', wt_isRemainder = False\<rparr>]\<rparr>"
    have t: "toUnits ''-15'' = Inr (- 150000)" by code_simp
    have s1: "stepped_step 2 \<lparr>ss_seen = [], ss_prev = 0, ss_remaining = 150000, ss_out = []\<rparr>
        (0, \<lparr>st_upTo = Some ''10'', st_targetKey = None\<rparr>) = Inr ?s1" by code_simp
    have s2: "stepped_step 2 ?s1 (1, \<lparr>st_upTo = None, st_targetKey = None\<rparr>)
        = Inr \<lparr>ss_seen = [''tier:2'', ''tier:1''], ss_prev = 100000, ss_remaining = 0,
            ss_out = [\<lparr>wt_key = ''tier:1'', wt_weight = ''10.0000'', wt_isRemainder = False\<rparr>,
              \<lparr>wt_key = ''tier:2'', wt_weight = ''5.0000'', wt_isRemainder = False\<rparr>]\<rparr>" by code_simp
    have z: "zip [0..<2] [a, b] = [(0, a), (1, b)]" for a b :: stepped_tier by (simp add: numeral_2_eq_2)
    have n: "length [a, b] = 2" for a b :: stepped_tier by simp
    show ?thesis unfolding steppedWeights_def n t z by (simp add: s1 s2 [unfolded One_nat_def])
  qed
  have t: "toUnits ''-15'' = Inr (- 150000)" by code_simp
  have n: "- 150000 \<noteq> (0 :: int)" "Largest_share \<noteq> Explicit_target" by simp_all
  from w steppedWeights_slices [OF w t n, of None] show ?thesis by blast
qed

end
