(* ===== verification/Exact_Decimal.thy ===== *)
theory Exact_Decimal
  imports Money
begin

text \<open>
  Exact decimals of any scale: \<open>packages/forms-core/src/decimals.ts\<close>, the shared grammar of forms
  and engine, and \<open>engine/src/money/exact-decimal.ts\<close>, the request-boundary helpers built on it.
  A decimal is a pair of integer units and a scale; \<open>exact_value\<close> is the rational it denotes.
  The properties show that reading, canonical printing, comparison and subtraction are exact and
  that multiplication and division round once, half away from zero.
\<close>

section \<open>The shared decimal grammar\<close>

record exact_decimal =
  ed_units :: int
  ed_scale :: nat

abbreviation MAX_EXACT_EXPONENT :: int where "MAX_EXACT_EXPONENT \<equiv> 10000"

text \<open>\<open>s.replace(/^0+/, "")\<close> and \<open>s.replace(/0+$/, "")\<close>\<close>

definition strip_leading_zeros :: "string \<Rightarrow> string" where
  "strip_leading_zeros s = dropWhile (\<lambda>c. c = CHR ''0'') s"

definition strip_end_zeros :: "string \<Rightarrow> string" where
  "strip_end_zeros s = rev (dropWhile (\<lambda>c. c = CHR ''0'') (rev s))"

text \<open>The part after the match: the digits and the exponent become units and a scale.\<close>

definition exact_of_match :: "bool \<Rightarrow> string \<Rightarrow> int \<Rightarrow> exact_decimal option" where
  "exact_of_match negative mantissa exponent =
     (if \<not> \<bar>exponent\<bar> \<le> 9007199254740991 \<or> \<bar>exponent\<bar> > MAX_EXACT_EXPONENT then None
      else let (intPart, fracPart) = split_dot mantissa;
               digits0 = or_text (strip_leading_zeros (intPart @ fracPart)) ''0'';
               scale0 = int (length fracPart) - exponent;
               (digits, scale) = (if scale0 < 0 then (digits0 @ replicate (nat (- scale0)) CHR ''0'', 0)
                                  else (digits0, nat scale0));
               units = bigint_of_text digits
           in Some \<lparr>ed_units = (if negative then - units else units), ed_scale = scale\<rparr>)"

definition parseExactDecimalParts :: "string \<Rightarrow> bool \<Rightarrow> exact_decimal option" where
  "parseExactDecimalParts raw allowScientific = (let t = trim raw; u = strip_sign t in
     if \<not> decimal_number t then None
     else (case exponent_match u of
         None \<Rightarrow> exact_of_match (starts_minus t) u 0
       | Some (m, e) \<Rightarrow> if \<not> allowScientific then None
                        else exact_of_match (starts_minus t) m (number_of_integer_text e)))"

text \<open>
  \<open>whole.replace(/^0+(?=\d)/, "")\<close> drops leading zeros up to the last digit.
\<close>

definition strip_zeros_keep_one :: "string \<Rightarrow> string" where
  "strip_zeros_keep_one s = or_text (strip_leading_zeros s) (last_chars 1 s)"

definition renderExactDecimal :: "int \<Rightarrow> nat \<Rightarrow> string" where
  "renderExactDecimal units scale = (let negative = units < 0;
       digits = bigint_text (if negative then - units else units) in
     if scale = 0 then (if negative \<and> digits \<noteq> ''0'' then ''-'' else []) @ digits
     else let padded = padStart digits (scale + 1) CHR ''0'';
              whole = or_text (strip_zeros_keep_one (but_last_chars scale padded)) ''0'';
              fraction = strip_end_zeros (last_chars scale padded);
              zero = (whole = ''0'' \<and> fraction = [])
          in (if negative \<and> \<not> zero then ''-'' else []) @ whole
             @ (if fraction \<noteq> [] then CHR ''.'' # fraction else []))"

definition canonicalPlainDecimal :: "string \<Rightarrow> int \<Rightarrow> string option" where
  "canonicalPlainDecimal value maxScale =
     (case parseExactDecimalParts value False of
        None \<Rightarrow> None
      | Some parts \<Rightarrow> if maxScale < 0 \<or> int (ed_scale parts) > maxScale then None
                      else Some (renderExactDecimal (ed_units parts) (ed_scale parts)))"

text \<open>\<open>canonicalDecimal\<close> of the forms package on a text: scientific spellings are measured too.\<close>

definition forms_canonicalDecimal :: "string \<Rightarrow> int \<Rightarrow> string option" where
  "forms_canonicalDecimal value maxScale =
     (case parseExactDecimalParts value True of
        None \<Rightarrow> None
      | Some parts \<Rightarrow> if maxScale < 0 \<or> int (ed_scale parts) > maxScale then None
                      else Some (renderExactDecimal (ed_units parts) (ed_scale parts)))"

definition compareExactDecimals :: "exact_decimal \<Rightarrow> exact_decimal \<Rightarrow> int" where
  "compareExactDecimals left right = (let difference =
       ed_units left * 10 ^ ed_scale right - ed_units right * 10 ^ ed_scale left
     in if difference < 0 then - 1 else if difference > 0 then 1 else 0)"

section \<open>The request-boundary helpers\<close>

definition canonicalDecimal :: "string \<Rightarrow> int \<Rightarrow> string option" where
  "canonicalDecimal value maxScale = canonicalPlainDecimal value maxScale"

definition scaled_text_units :: "string \<Rightarrow> nat \<Rightarrow> int" where
  "scaled_text_units value scale = (let negative = starts_minus value;
       (whole, fraction) = split_dot (strip_sign value);
       res = bigint_of_text (or_text whole ''0'') * 10 ^ scale
             + bigint_of_text (or_text (take scale (fraction @ replicate scale CHR ''0'')) ''0'')
     in if negative then - res else res)"

definition compareDecimal :: "string \<Rightarrow> string \<Rightarrow> int" where
  "compareDecimal left right = (let scale = max (length (snd (split_dot left))) (length (snd (split_dot right)));
       difference = scaled_text_units left scale - scaled_text_units right scale
     in if difference < 0 then - 1 else if difference > 0 then 1 else 0)"

definition isZeroDecimal :: "string \<Rightarrow> bool" where
  "isZeroDecimal value \<longleftrightarrow> compareDecimal value ''0'' = 0"

definition isPositiveDecimal :: "string \<Rightarrow> bool" where
  "isPositiveDecimal value \<longleftrightarrow> compareDecimal value ''0'' > 0"

definition canonicalNonNegativeDecimal :: "string \<Rightarrow> int \<Rightarrow> string option" where
  "canonicalNonNegativeDecimal value maxScale =
     (case canonicalDecimal value maxScale of
        None \<Rightarrow> None
      | Some canonical \<Rightarrow> if compareDecimal canonical ''0'' < 0 then None else Some canonical)"

definition fixedDecimal :: "string \<Rightarrow> nat \<Rightarrow> string result" where
  "fixedDecimal value scale = (case canonicalDecimal value (int scale) of
       None \<Rightarrow> Inl (Error ''invalid decimal'')
     | Some canonical \<Rightarrow>
         let negative = starts_minus canonical;
             (whole, fraction) = split_dot (if negative then tl canonical else canonical)
         in Inr ((if negative then ''-'' else []) @ whole @ CHR ''.'' # padEnd fraction scale CHR ''0''))"

definition toScaled :: "string \<Rightarrow> exact_decimal option" where
  "toScaled value = parseExactDecimalParts value True"

definition parseExactDecimal :: "string \<Rightarrow> string option" where
  "parseExactDecimal value = (case toScaled value of
       None \<Rightarrow> None
     | Some scaled \<Rightarrow>
         let negative = ed_units scaled < 0;
             digits = bigint_text (if negative then - ed_units scaled else ed_units scaled) in
         if ed_scale scaled = 0 then Some ((if negative \<and> digits \<noteq> ''0'' then ''-'' else []) @ digits)
         else let padded = padStart digits (ed_scale scaled + 1) CHR ''0'';
                  whole = but_last_chars (ed_scale scaled) padded;
                  fraction = last_chars (ed_scale scaled) padded;
                  all_zero = (whole = ''0'' \<and> fraction \<noteq> [] \<and> list_all (\<lambda>c. c = CHR ''0'') fraction)
              in Some ((if negative \<and> \<not> all_zero then ''-'' else []) @ whole @ CHR ''.'' # fraction))"

definition divideDecimal :: "string \<Rightarrow> string \<Rightarrow> int \<Rightarrow> string result" where
  "divideDecimal dividend divisor scale =
     (if scale < 0 \<or> scale > 18
      then Inl (Error ''division scale must be an integer from 0 through 18'')
      else (case (toScaled dividend, toScaled divisor) of
          (Some left, Some right) \<Rightarrow>
            if ed_units right = 0 then Inl (Error ''cannot divide by zero'')
            else let n = nat scale;
                numerator = ed_units left * 10 ^ (ed_scale right + n);
                denominator = ed_units right * 10 ^ ed_scale left;
                negative = ((numerator < 0) \<noteq> (denominator < 0));
                absNumerator = (if numerator < 0 then - numerator else numerator);
                absDenominator = (if denominator < 0 then - denominator else denominator);
                rounded = (absNumerator + absDenominator sdiv 2) sdiv absDenominator;
                digits = bigint_text rounded;
                sign = (if negative \<and> rounded \<noteq> 0 then ''-'' else [])
              in if n = 0 then Inr (sign @ digits)
                 else let padded = padStart digits (n + 1) CHR ''0''
                      in Inr (sign @ but_last_chars n padded @ CHR ''.'' # last_chars n padded)
        | _ \<Rightarrow> Inl (Error ''not exact decimals'')))"

definition multiplyDecimal :: "string \<Rightarrow> string \<Rightarrow> int \<Rightarrow> string result" where
  "multiplyDecimal left right scale = (case (toScaled left, toScaled right) of
       (Some a, Some b) \<Rightarrow>
         divideDecimal (bigint_text (ed_units a * ed_units b))
           (bigint_text (10 ^ (ed_scale a + ed_scale b))) scale
     | _ \<Rightarrow> Inl (Error ''not exact decimal factors''))"

definition subtractDecimal :: "string \<Rightarrow> string \<Rightarrow> string result" where
  "subtractDecimal left right = (case (toScaled left, toScaled right) of
       (Some a, Some b) \<Rightarrow>
         let scale = max (ed_scale a) (ed_scale b);
             difference = ed_units a * 10 ^ (scale - ed_scale a) - ed_units b * 10 ^ (scale - ed_scale b)
         in divideDecimal (bigint_text difference) (bigint_text (10 ^ scale)) (int scale)
     | _ \<Rightarrow> Inl (Error ''not exact decimals''))"

section \<open>Reading\<close>

definition exact_value :: "exact_decimal \<Rightarrow> rat" where
  "exact_value p = of_int (ed_units p) / 10 ^ ed_scale p"

lemma digits_val_strip_leading: "digits_val (strip_leading_zeros s) = digits_val s"
  by (induction s) (auto simp: strip_leading_zeros_def digits_val_Cons)

lemma strip_leading_digits: "list_all is_digit s \<Longrightarrow> list_all is_digit (strip_leading_zeros s)"
  by (auto simp: strip_leading_zeros_def list_all_iff dest: set_dropWhileD)

lemma or_zero_digits:
  "list_all is_digit s \<Longrightarrow> list_all is_digit (or_text s ''0'')" "digits_val (or_text s ''0'') = digits_val s"
  by (auto simp: or_text_def digits_val_Cons)

lemma exact_of_match_value:
  assumes "split_dot m = (w, f)" "list_all is_digit w" "list_all is_digit f"
  shows "exact_of_match n m e = None \<longleftrightarrow> MAX_EXACT_EXPONENT < \<bar>e\<bar>"
    and "exact_of_match n m e = Some p \<Longrightarrow> exact_value p = signed_value n w f e"
    and "exact_of_match n m e = Some p \<Longrightarrow> ed_scale p = nat (int (length f) - e)"
proof -
  show "exact_of_match n m e = None \<longleftrightarrow> MAX_EXACT_EXPONENT < \<bar>e\<bar>"
    by (auto simp: exact_of_match_def Let_def assms(1))
  show "exact_of_match n m e = Some p \<Longrightarrow> ed_scale p = nat (int (length f) - e)"
    by (auto simp: exact_of_match_def Let_def assms(1) split: if_splits)
  assume p: "exact_of_match n m e = Some p"
  define d where "d = or_text (strip_leading_zeros (w @ f)) ''0''"
  define k where "k = int (length f) - e"
  have d: "list_all is_digit d" "digits_val d = digits_val (w @ f)"
    using or_zero_digits strip_leading_digits [of "w @ f"] assms(2,3)
    by (simp_all add: d_def digits_val_strip_leading)
  have e: "e = int (length f) - k" by (simp add: k_def)
  have powi: "(10::rat) powi e = 10 ^ length f * 10 powi (- k)"
    unfolding e using power_int_diff [of "10::rat" "int (length f)" k]
    by (simp add: power_int_minus field_simps)
  show "exact_value p = signed_value n w f e"
  proof (cases "k < 0")
    case True
    have dd: "list_all is_digit (d @ replicate (nat (- k)) CHR ''0'')" using d by simp
    have "p = \<lparr>ed_units = (if n then - 1 else 1) * bigint_of_text (d @ replicate (nat (- k)) CHR ''0''), ed_scale = 0\<rparr>"
      using p True by (auto simp: exact_of_match_def Let_def assms(1) d_def k_def split: if_splits)
    moreover have "(10::rat) powi (- k) = 10 ^ nat (- k)" using True by (simp add: power_int_def)
    ultimately show ?thesis using d powi
      by (simp add: exact_value_def signed_value_def bigint_of_digits [OF dd] digits_val_append [of d])
  next
    case False
    have "p = \<lparr>ed_units = (if n then - 1 else 1) * bigint_of_text d, ed_scale = nat k\<rparr>"
      using p False by (auto simp: exact_of_match_def Let_def assms(1) d_def k_def split: if_splits)
    moreover have "(10::rat) powi (- k) = 1 / 10 ^ nat k"
      using False by (simp add: power_int_minus power_int_def field_simps)
    ultimately show ?thesis using d powi
      by (simp add: exact_value_def signed_value_def bigint_of_digits [OF d(1)])
  qed
qed

lemma parse_of_parts:
  "decimal_parts s = None \<Longrightarrow> parseExactDecimalParts s a = None"
  "decimal_parts s = Some (n, w, f, e) \<Longrightarrow>
     \<exists>m. split_dot m = (w, f) \<and> parseExactDecimalParts s True = exact_of_match n m e"
  by (auto simp: decimal_parts_def parseExactDecimalParts_def Let_def split: if_splits option.splits prod.splits)

lemma parseExactDecimalParts_iff:
  "(\<exists>p. parseExactDecimalParts s True = Some p \<and> decimal_value s = Some (exact_value p)) \<longleftrightarrow> exponent_in_range s"
  "parseExactDecimalParts s True = Some p \<Longrightarrow> decimal_value s = Some (exact_value p) \<and> exponent_in_range s"
proof -
  have "parseExactDecimalParts s True = None \<and> \<not> exponent_in_range s
    \<or> (\<exists>p. parseExactDecimalParts s True = Some p \<and> exponent_in_range s \<and> decimal_value s = Some (exact_value p))"
  proof (cases "decimal_parts s")
    case None
    then show ?thesis by (simp add: parse_of_parts exponent_in_range_def)
  next
    case (Some q)
    obtain n w f e where q: "decimal_parts s = Some (n, w, f, e)" using Some by (cases q) auto
    obtain m where m: "split_dot m = (w, f)" "parseExactDecimalParts s True = exact_of_match n m e"
      using parse_of_parts(2) [OF q] by blast
    note mv = exact_of_match_value [OF m(1) decimal_parts_digits(1,2) [OF q], of n e]
    show ?thesis
    proof (cases "exact_of_match n m e")
      case None
      then show ?thesis using mv(1) m(2) q by (simp add: exponent_in_range_def)
    next
      case (Some p)
      then show ?thesis using mv(1) mv(2) [OF Some] m(2) q
        by (auto simp: exponent_in_range_def decimal_value_def)
    qed
  qed
  then show "(\<exists>p. parseExactDecimalParts s True = Some p \<and> decimal_value s = Some (exact_value p)) \<longleftrightarrow> exponent_in_range s"
    and "parseExactDecimalParts s True = Some p \<Longrightarrow> decimal_value s = Some (exact_value p) \<and> exponent_in_range s"
    by auto
qed

lemma parse_plain_iff:
  "parseExactDecimalParts s False = Some p \<longleftrightarrow> signed_plain_decimal (trim s) \<and> parseExactDecimalParts s True = Some p"
  by (auto simp: parseExactDecimalParts_def Let_def decimal_number_def signed_plain_decimal_def
      exponent_match_plain split: if_splits option.splits prod.splits)

lemma parse_plain_scale:
  "parseExactDecimalParts s False = Some p \<Longrightarrow> ed_scale p = length (snd (split_dot (strip_sign (trim s))))"
  by (auto simp: parseExactDecimalParts_def exact_of_match_def Let_def
      split: if_splits option.splits prod.splits)

section \<open>Printing\<close>

text \<open>Texts of an optional minus sign, digits, and optionally a point and digits.\<close>

lemma decimal_parts_integer:
  assumes "list_all is_digit w" "w \<noteq> []" and s: "s = (if n then ''-'' else []) @ w"
  shows "decimal_parts s = Some (n, w, [], 0)" "trim s = s" "signed_plain_decimal s" "strip_sign s = w"
proof -
  have "is_digit (hd w)" "is_digit (last w)" using assms by (auto simp: list_all_iff)
  then show t: "trim s = s" using assms
    by (intro trim_id) (auto simp: digit_not_mark)
  show strip: "strip_sign s = w" using assms by (cases w) (auto simp: digit_not_mark)
  have m: "starts_minus s = n" using s assms(1,2) by (cases w) (auto simp: digit_not_mark)
  have tw: "takeWhile is_digit w = w" and dw: "dropWhile is_digit w = []"
    using assms(1) by (simp_all add: list_all_iff)
  have plain: "plain_decimal w" unfolding plain_decimal_def Let_def tw dw using assms(2) by simp
  show "signed_plain_decimal s" by (simp add: signed_plain_decimal_def strip plain)
  show "decimal_parts s = Some (n, w, [], 0)" using assms(1) t strip m plain
    by (simp add: decimal_parts_def decimal_number_def Let_def exponent_match_plain)
qed

lemma decimal_parts_fixed:
  assumes "list_all is_digit w" "w \<noteq> []" "list_all is_digit f" "f \<noteq> []"
    and s: "s = (if n then ''-'' else []) @ w @ CHR ''.'' # f"
  shows "decimal_parts s = Some (n, w, f, 0)" "trim s = s" "signed_plain_decimal s"
    "strip_sign s = w @ CHR ''.'' # f"
proof -
  show "decimal_parts s = Some (n, w, f, 0)" by (rule digits_trim_sign [OF assms])
  have "is_digit (hd w)" "is_digit (last f)" using assms by (auto simp: list_all_iff)
  then show "trim s = s" using assms by (intro trim_id) (auto simp: digit_not_mark)
  show strip: "strip_sign s = w @ CHR ''.'' # f" using assms by (cases w) (auto simp: digit_not_mark)
  have "plain_decimal (w @ CHR ''.'' # f)"
    using assms by (simp add: plain_decimal_def takeWhile_append2 dropWhile_append2 list_all_iff)
  then show "signed_plain_decimal s" by (simp add: signed_plain_decimal_def strip)
qed

lemma sign_of_nat_rat:
  "int d = \<bar>u\<bar> \<Longrightarrow> (if u < 0 then - 1 else 1) * (of_nat d / x) = (of_int u / x :: rat)"
proof -
  assume d: "int d = \<bar>u\<bar>"
  have "(of_nat d :: rat) = of_int (int d)" by simp
  also have "\<dots> = of_int \<bar>u\<bar>" by (simp only: d)
  finally show ?thesis by simp
qed

text \<open>A text with these parts denotes \<open>u / 10 ^ k\<close>.\<close>

lemma decimal_value_integer:
  assumes "list_all is_digit w" "w \<noteq> []" "int (digits_val w) = \<bar>u\<bar>"
  shows "decimal_value ((if u < 0 then ''-'' else []) @ w) = Some (of_int u)"
  unfolding decimal_value_def decimal_parts_integer(1) [OF assms(1,2) refl]
  using sign_of_nat_rat [OF assms(3), of 1] by (simp add: signed_value_def)

lemma decimal_value_fixed:
  assumes "list_all is_digit w" "w \<noteq> []" "list_all is_digit f" "f \<noteq> []" "int (digits_val (w @ f)) = \<bar>u\<bar>"
  shows "decimal_value ((if u < 0 then ''-'' else []) @ w @ CHR ''.'' # f) = Some (of_int u / 10 ^ length f)"
  unfolding decimal_value_def decimal_parts_fixed(1) [OF assms(1-4) refl]
  using sign_of_nat_rat [OF assms(5), of "10 ^ length f"] by (simp add: signed_value_def)

lemma pad_split:
  assumes "padded = padStart (nat_text n) (Suc k) CHR ''0''"
  shows "but_last_chars k padded @ last_chars k padded = padded" "length (last_chars k padded) = k"
    "but_last_chars k padded \<noteq> []" "list_all is_digit (but_last_chars k padded)"
    "list_all is_digit (last_chars k padded)" "digits_val (but_last_chars k padded @ last_chars k padded) = n"
proof -
  have l: "Suc k \<le> length padded" and d: "list_all is_digit padded" and v: "digits_val padded = n"
    using assms by simp_all
  then show "length (last_chars k padded) = k" "but_last_chars k padded \<noteq> []"
    by (auto simp: last_chars_def but_last_chars_def)
  show s: "but_last_chars k padded @ last_chars k padded = padded"
    by (simp add: last_chars_def but_last_chars_def)
  show "list_all is_digit (but_last_chars k padded)" "list_all is_digit (last_chars k padded)"
    using d by (auto simp: last_chars_def but_last_chars_def list_all_iff dest: in_set_takeD in_set_dropD)
  show "digits_val (but_last_chars k padded @ last_chars k padded) = n" using v s by simp
qed

lemma bigint_text_nonneg: "0 \<le> u \<Longrightarrow> bigint_text u = nat_text (nat u)"
  by (simp add: bigint_text_def)

lemma bigint_text_value: "decimal_value (bigint_text u) = Some (of_int u)" "exponent_in_range (bigint_text u)"
proof -
  have t: "bigint_text u = (if u < 0 then ''-'' else []) @ nat_text (nat \<bar>u\<bar>)" by (simp add: bigint_text_def)
  then show "decimal_value (bigint_text u) = Some (of_int u)" by (simp only:) (rule decimal_value_integer, simp_all)
  show "exponent_in_range (bigint_text u)"
    using decimal_parts_integer(1) [OF nat_text_digits nat_text_not_Nil t] by (simp add: exponent_in_range_def)
qed

lemma toScaled_bigint: "\<exists>p. toScaled (bigint_text u) = Some p \<and> exact_value p = of_int u"
proof -
  obtain p where "parseExactDecimalParts (bigint_text u) True = Some p"
      "decimal_value (bigint_text u) = Some (exact_value p)"
    using parseExactDecimalParts_iff(1) [of "bigint_text u"] bigint_text_value(2) by blast
  then show ?thesis using bigint_text_value(1) [of u] by (simp add: toScaled_def)
qed

section \<open>Division, multiplication, subtraction\<close>

lemma half_up_magnitude:
  fixes n d :: int
  assumes "d \<noteq> 0"
  defines "q \<equiv> half_away (of_int n / of_int d)"
  shows "(\<bar>n\<bar> + \<bar>d\<bar> sdiv 2) sdiv \<bar>d\<bar> = \<bar>q\<bar>"
    and "((n < 0) \<noteq> (d < 0)) \<and> \<bar>q\<bar> \<noteq> 0 \<longleftrightarrow> q < 0"
proof -
  have "(of_int n / of_int d :: rat) = of_int (n * sgn d) / of_int \<bar>d\<bar>"
    using assms(1) by (auto simp: sgn_if abs_if field_simps)
  then have q: "q = round_quot (n * sgn d) \<bar>d\<bar>"
    unfolding q_def using round_quot_half_away [of "\<bar>d\<bar>" "n * sgn d"] assms(1) by simp
  let ?r = "(\<bar>n\<bar> + \<bar>d\<bar> div 2) div \<bar>d\<bar>"
  have r0: "0 \<le> ?r" using assms(1) by (simp add: pos_imp_zdiv_nonneg_iff)
  have "\<bar>n * sgn d\<bar> = \<bar>n\<bar>" using assms(1) by (simp add: abs_mult)
  then have q': "q = sgn (n * sgn d) * ?r" unfolding q round_quot_def by simp
  have "(\<bar>n\<bar> + \<bar>d\<bar> sdiv 2) sdiv \<bar>d\<bar> = ?r" using assms(1) by (simp add: sdiv_nonneg)
  moreover have "\<bar>q\<bar> = ?r"
  proof (cases "n = 0")
    case True
    have "\<bar>d\<bar> div 2 div \<bar>d\<bar> = 0"
      using assms(1) by (intro div_pos_pos_trivial) (simp_all add: div_int_iff)
    with True q' show ?thesis by simp
  next
    case False
    then have "\<bar>sgn (n * sgn d)\<bar> = 1" using assms(1) by (simp add: sgn_mult abs_mult)
    then have "\<bar>q\<bar> = \<bar>?r\<bar>" unfolding q' abs_mult by simp
    with r0 show ?thesis by linarith
  qed
  ultimately show "(\<bar>n\<bar> + \<bar>d\<bar> sdiv 2) sdiv \<bar>d\<bar> = \<bar>q\<bar>" by simp
  have "sgn (n * sgn d) = (if n = 0 then 0 else if (n < 0) \<noteq> (d < 0) then - 1 else 1)"
    using assms(1) by (auto simp: sgn_mult sgn_if)
  with q' r0 show "((n < 0) \<noteq> (d < 0)) \<and> \<bar>q\<bar> \<noteq> 0 \<longleftrightarrow> q < 0"
    by (auto simp: zero_less_mult_iff mult_less_0_iff split: if_splits)
qed

lemma fixed_text_value:
  "decimal_value ((if u < 0 then ''-'' else []) @ nat_text (nat \<bar>u\<bar>)) = Some (of_int u)"
  "0 < k \<Longrightarrow> decimal_value ((if u < 0 then ''-'' else [])
     @ but_last_chars k (padStart (nat_text (nat \<bar>u\<bar>)) (Suc k) CHR ''0'')
     @ CHR ''.'' # last_chars k (padStart (nat_text (nat \<bar>u\<bar>)) (Suc k) CHR ''0'')) = Some (of_int u / 10 ^ k)"
proof -
  show "decimal_value ((if u < 0 then ''-'' else []) @ nat_text (nat \<bar>u\<bar>)) = Some (of_int u)"
    by (rule decimal_value_integer) simp_all
  assume "0 < k"
  let ?p = "padStart (nat_text (nat \<bar>u\<bar>)) (Suc k) CHR ''0''"
  note ps = pad_split [of ?p "nat \<bar>u\<bar>" k, OF refl]
  have "last_chars k ?p \<noteq> []" using ps(2) \<open>0 < k\<close> by (metis less_irrefl list.size(3))
  moreover have "int (digits_val (but_last_chars k ?p @ last_chars k ?p)) = \<bar>u\<bar>" unfolding ps(6) by simp
  ultimately have "decimal_value ((if u < 0 then ''-'' else []) @ but_last_chars k ?p @ CHR ''.'' # last_chars k ?p)
      = Some (of_int u / 10 ^ length (last_chars k ?p))"
    by (intro decimal_value_fixed) (use ps in auto)
  then show "decimal_value ((if u < 0 then ''-'' else []) @ but_last_chars k ?p @ CHR ''.'' # last_chars k ?p)
      = Some (of_int u / 10 ^ k)" unfolding ps(2) .
qed

lemma divideDecimal_value:
  assumes "toScaled a = Some p" "toScaled b = Some q" "exact_value q \<noteq> 0" "0 \<le> s" "s \<le> 18"
  shows "\<exists>t. divideDecimal a b s = Inr t
    \<and> decimal_value t = Some (of_int (half_away (exact_value p / exact_value q * 10 ^ nat s)) / 10 ^ nat s)"
proof -
  define n where "n = nat s"
  define N where "N = ed_units p * 10 ^ (ed_scale q + n)"
  define D where "D = ed_units q * 10 ^ ed_scale p"
  define r where "r = half_away (of_int N / of_int D)"
  have uq: "ed_units q \<noteq> 0" using assms(3) by (auto simp: exact_value_def)
  then have D: "D \<noteq> 0" by (simp add: D_def)
  have "(of_int N / of_int D :: rat) = exact_value p / exact_value q * 10 ^ n"
    using uq by (simp add: N_def D_def exact_value_def field_simps power_add)
  then have r: "r = half_away (exact_value p / exact_value q * 10 ^ n)" by (simp add: r_def)
  have mag: "(\<bar>N\<bar> + \<bar>D\<bar> sdiv 2) sdiv \<bar>D\<bar> = \<bar>r\<bar>"
    and sgn: "((N < 0) \<noteq> (D < 0)) \<and> \<bar>r\<bar> \<noteq> 0 \<longleftrightarrow> r < 0"
    using half_up_magnitude [OF D, of N] by (simp_all add: r_def)
  have absif: "(if x < 0 then - x else x) = \<bar>x\<bar>" for x :: int by simp
  have dt: "bigint_text \<bar>r\<bar> = nat_text (nat \<bar>r\<bar>)" by (simp add: bigint_text_nonneg)
  have "divideDecimal a b s = Inr (if n = 0 then (if r < 0 then ''-'' else []) @ nat_text (nat \<bar>r\<bar>)
      else (if r < 0 then ''-'' else []) @ but_last_chars n (padStart (nat_text (nat \<bar>r\<bar>)) (Suc n) CHR ''0'')
        @ CHR ''.'' # last_chars n (padStart (nat_text (nat \<bar>r\<bar>)) (Suc n) CHR ''0''))"
    using assms(4,5) uq
    unfolding divideDecimal_def assms(1,2) Let_def n_def [symmetric] prod.case option.case
      N_def [symmetric] D_def [symmetric] absif mag dt sgn by simp
  then show ?thesis
    using fixed_text_value(1) [of r] fixed_text_value(2) [of n r] r unfolding n_def [symmetric]
    by (cases "n = 0") simp_all
qed

lemma multiplyDecimal_value:
  assumes "toScaled a = Some p" "toScaled b = Some q" "0 \<le> s" "s \<le> 18"
  shows "\<exists>t. multiplyDecimal a b s = Inr t
    \<and> decimal_value t = Some (of_int (half_away (exact_value p * exact_value q * 10 ^ nat s)) / 10 ^ nat s)"
proof -
  obtain x where x: "toScaled (bigint_text (ed_units p * ed_units q)) = Some x"
    "exact_value x = of_int (ed_units p * ed_units q)" using toScaled_bigint by blast
  obtain y where y: "toScaled (bigint_text (10 ^ (ed_scale p + ed_scale q))) = Some y"
    "exact_value y = of_int (10 ^ (ed_scale p + ed_scale q))" using toScaled_bigint by blast
  have e: "exact_value x / exact_value y = exact_value p * exact_value q"
    unfolding x(2) y(2) by (simp add: exact_value_def power_add)
  have "exact_value y \<noteq> 0" using y(2) by simp
  from divideDecimal_value [OF x(1) y(1) this assms(3,4), unfolded e] show ?thesis
    by (simp add: multiplyDecimal_def assms(1,2))
qed

lemma subtractDecimal_value:
  assumes "toScaled a = Some p" "toScaled b = Some q" "ed_scale p \<le> 18" "ed_scale q \<le> 18"
  shows "\<exists>t. subtractDecimal a b = Inr t \<and> decimal_value t = Some (exact_value p - exact_value q)"
proof -
  define s where "s = max (ed_scale p) (ed_scale q)"
  define d where "d = ed_units p * 10 ^ (s - ed_scale p) - ed_units q * 10 ^ (s - ed_scale q)"
  obtain x where x: "toScaled (bigint_text d) = Some x" "exact_value x = of_int d" using toScaled_bigint by blast
  obtain y where y: "toScaled (bigint_text (10 ^ s)) = Some y" "exact_value y = of_int (10 ^ s)"
    using toScaled_bigint by blast
  have shift: "of_int (u * 10 ^ (s - k)) / 10 ^ s = (of_int u / 10 ^ k :: rat)" if "k \<le> s" for u k
    using that by (simp add: field_simps flip: power_add)
  have "(of_int d / 10 ^ s :: rat) = exact_value p - exact_value q"
    using shift [of "ed_scale p" "ed_units p"] shift [of "ed_scale q" "ed_units q"]
    by (simp add: d_def s_def exact_value_def diff_divide_distrib)
  moreover have "half_away (of_int d / of_int (10 ^ s) * 10 ^ s) = d"
    using half_away_of_int [of d] by simp
  moreover have "subtractDecimal a b = divideDecimal (bigint_text d) (bigint_text (10 ^ s)) (int s)"
    by (simp add: subtractDecimal_def assms(1,2) s_def [symmetric] d_def [symmetric] Let_def)
  ultimately show ?thesis
    using divideDecimal_value [OF x(1) y(1), of "int s"] x(2) y(2) assms(3,4) by (simp add: s_def)
qed

section \<open>Canonical text\<close>

lemma strip_leading_nat_text: "0 < n \<Longrightarrow> strip_leading_zeros (nat_text n) = nat_text n"
  unfolding strip_leading_zeros_def using nat_text_pos_hd [of n] by (intro dropWhile_hd_id) simp

lemma strip_leading_zeros_append: "strip_leading_zeros (replicate k CHR ''0'' @ s) = strip_leading_zeros s"
  by (simp add: strip_leading_zeros_def dropWhile_append)

lemma nat_text_zero [simp]: "nat_text 0 = ''0''"
  by (simp add: nat_text.simps)

lemma nat_text_times_ten: "0 < n \<Longrightarrow> nat_text (n * 10) = nat_text n @ ''0''"
  by (subst nat_text.simps) simp

lemma strip_end_zero [simp]: "strip_end_zeros (s @ ''0'') = strip_end_zeros s"
  by (simp add: strip_end_zeros_def)

lemma last_chars_snoc: "k \<le> length s \<Longrightarrow> last_chars (Suc k) (s @ [c]) = last_chars k s @ [c]"
  by (simp add: last_chars_def Suc_diff_le)

lemma but_last_chars_snoc: "k \<le> length s \<Longrightarrow> but_last_chars (Suc k) (s @ [c]) = but_last_chars k s"
  by (simp add: but_last_chars_def)

lemma padStart_snoc: "padStart (s @ [c]) (Suc n) z = padStart s n z @ [c]"
  by (simp add: padStart_def)

lemma strip_keep_nat_text: "or_text (strip_zeros_keep_one (nat_text n)) ''0'' = nat_text n"
proof (cases "n = 0")
  case True
  then show ?thesis by (simp add: strip_zeros_keep_one_def strip_leading_zeros_def or_text_def last_chars_def)
next
  case False
  then show ?thesis by (simp add: strip_zeros_keep_one_def strip_leading_nat_text or_text_def)
qed

text \<open>One more trailing zero does not change the text, so the text depends on the value alone.\<close>

lemma renderExactDecimal_times_ten: "renderExactDecimal (u * 10) (Suc k) = renderExactDecimal u k"
proof (cases "u = 0")
  case True
  have pad: "padStart ''0'' (Suc j + 1) CHR ''0'' = ''0'' @ replicate (Suc j) CHR ''0''" for j
    by (simp add: padStart_def replicate_append_same)
  have se: "strip_end_zeros (replicate j CHR ''0'') = []" for j
    by (simp add: strip_end_zeros_def)
  have l: "last_chars (Suc j) (''0'' @ replicate (Suc j) CHR ''0'') = replicate (Suc j) CHR ''0''"
    "but_last_chars (Suc j) (''0'' @ replicate (Suc j) CHR ''0'') = ''0''" for j
    by (simp_all add: last_chars_def but_last_chars_def)
  have b: "bigint_text (if (0::int) < 0 then - 0 else 0) = ''0''" by (simp add: bigint_text_def)
  have "renderExactDecimal 0 (Suc j) = ''0''" for j
    unfolding renderExactDecimal_def Let_def b pad l se
    using strip_keep_nat_text [of 0] by simp
  moreover have "renderExactDecimal 0 0 = ''0''" by (simp add: renderExactDecimal_def bigint_text_def)
  ultimately show ?thesis using True by (cases k) simp_all
next
  case False
  let ?n = "nat \<bar>u\<bar>"
  have n: "0 < ?n" using False by simp
  have t: "bigint_text (if u * 10 < 0 then - (u * 10) else u * 10) = nat_text ?n @ ''0''"
  proof -
    have "nat \<bar>u * 10\<bar> = ?n * 10" by (simp add: abs_mult nat_mult_distrib)
    moreover have "bigint_text (if u * 10 < 0 then - (u * 10) else u * 10) = nat_text (nat \<bar>u * 10\<bar>)"
      by (simp add: bigint_text_def)
    ultimately show ?thesis using nat_text_times_ten [OF n] by simp
  qed
  have t': "bigint_text (if u < 0 then - u else u) = nat_text ?n" by (simp add: bigint_text_def)
  have ne: "nat_text ?n \<noteq> ''0''" using n nat_text_pos_hd [OF n] by (metis list.sel(1))
  let ?p = "padStart (nat_text ?n) (Suc k) CHR ''0''"
  have p: "padStart (nat_text ?n @ ''0'') (Suc k + 1) CHR ''0'' = ?p @ ''0''" by (simp add: padStart_snoc)
  have k: "k \<le> length ?p" by simp
  show ?thesis
  proof (cases "k = 0")
    case True
    then have p0: "?p = nat_text ?n" by (cases "nat_text ?n") (simp_all add: padStart_def)
    have a: "but_last_chars (Suc k) (?p @ ''0'') = nat_text ?n" "last_chars (Suc k) (?p @ ''0'') = ''0''"
      using True p0 by (simp_all add: but_last_chars_def last_chars_def)
    show ?thesis unfolding renderExactDecimal_def t t' p Let_def a using True ne
      by (simp add: strip_keep_nat_text strip_end_zeros_def)
  next
    case False
    then show ?thesis
      unfolding renderExactDecimal_def t t' p Let_def last_chars_snoc [OF k] but_last_chars_snoc [OF k]
      by simp
  qed
qed

lemma renderExactDecimal_cong:
  assumes "of_int u / 10 ^ k = (of_int v / 10 ^ l :: rat)"
  shows "renderExactDecimal u k = renderExactDecimal v l"
proof -
  have shift: "renderExactDecimal (u * 10 ^ j) (k + j) = renderExactDecimal u k" for u k j
    by (induction j) (simp_all add: renderExactDecimal_times_ten mult.assoc [symmetric]
        mult.commute [of 10] renderExactDecimal_times_ten)
  have "(of_int (u * 10 ^ l) :: rat) = of_int (v * 10 ^ k)" using assms by (simp add: field_simps)
  then have "u * 10 ^ l = v * 10 ^ k" by (simp only: of_int_eq_iff)
  then show ?thesis using shift [of u l k] shift [of v k l] by (simp add: add.commute)
qed

lemma strip_keep_props:
  assumes "list_all is_digit s" "s \<noteq> []"
  shows "list_all is_digit (or_text (strip_zeros_keep_one s) ''0'')" "or_text (strip_zeros_keep_one s) ''0'' \<noteq> []"
    "digits_val (or_text (strip_zeros_keep_one s) ''0'') = digits_val s"
proof -
  let ?t = "strip_zeros_keep_one s"
  have lc: "list_all is_digit (last_chars 1 s)"
    using assms(1) by (auto simp: last_chars_def list_all_iff dest: in_set_dropD)
  have "list_all is_digit ?t"
    using strip_leading_digits [OF assms(1)] lc by (simp add: strip_zeros_keep_one_def or_text_def)
  then show "list_all is_digit (or_text ?t ''0'')" by (rule or_zero_digits)
  show "or_text ?t ''0'' \<noteq> []" by (simp add: or_text_def)
  have "digits_val ?t = digits_val s"
  proof (cases "strip_leading_zeros s = []")
    case True
    then have "\<forall>c \<in> set s. c = CHR ''0''" by (simp add: strip_leading_zeros_def)
    then have s: "s = replicate (length s) CHR ''0''" by (simp add: replicate_length_same)
    have "digits_val (last_chars 1 (replicate n CHR ''0'')) = 0" for n by (simp add: last_chars_def)
    then have "digits_val (last_chars 1 s) = 0" using s by metis
    moreover have "digits_val s = 0" using s by (metis digits_val_zeros)
    ultimately show ?thesis using True by (simp add: strip_zeros_keep_one_def or_text_def)
  next
    case False
    then show ?thesis by (simp add: strip_zeros_keep_one_def or_text_def digits_val_strip_leading)
  qed
  then show "digits_val (or_text ?t ''0'') = digits_val s" by (simp add: or_zero_digits)
qed

lemma strip_end_split: "\<exists>j. s = strip_end_zeros s @ replicate j CHR ''0''"
proof -
  let ?z = "takeWhile (\<lambda>c. c = CHR ''0'') (rev s)"
  have "\<forall>c \<in> set ?z. c = CHR ''0''" by (auto dest: set_takeWhileD)
  then have z: "replicate (length ?z) CHR ''0'' = ?z" by (rule replicate_length_same)
  have "rev s = ?z @ dropWhile (\<lambda>c. c = CHR ''0'') (rev s)" by simp
  then have "rev (rev s) = rev (?z @ dropWhile (\<lambda>c. c = CHR ''0'') (rev s))" by (rule arg_cong)
  then have "s = strip_end_zeros s @ rev ?z" by (simp only: rev_rev_ident rev_append strip_end_zeros_def)
  also have "rev ?z = replicate (length ?z) CHR ''0''" using arg_cong [OF z, of rev] by simp
  finally show ?thesis by blast
qed

text \<open>The canonical text: an optional sign, digits, and the fraction without its trailing zeros.\<close>

lemma renderExactDecimal_shape:
  obtains w f x where "renderExactDecimal u k = (if x < 0 then ''-'' else []) @ w @ (if f \<noteq> [] then CHR ''.'' # f else [])"
    "list_all is_digit w" "w \<noteq> []" "list_all is_digit f" "length f \<le> k" "int (digits_val (w @ f)) = \<bar>x\<bar>" "u = x * 10 ^ (k - length f)"
proof -
  have bt: "bigint_text (if u < 0 then - u else u) = nat_text (nat \<bar>u\<bar>)" by (simp add: bigint_text_def)
  show thesis
  proof (cases "k = 0")
    case True
    have "u < 0 \<Longrightarrow> nat_text (nat \<bar>u\<bar>) \<noteq> ''0''" using nat_text_pos_hd [of "nat \<bar>u\<bar>"] by auto
    then have "renderExactDecimal u k = (if u < 0 then ''-'' else []) @ nat_text (nat \<bar>u\<bar>)"
      using True unfolding renderExactDecimal_def Let_def bt by auto
    then show ?thesis using that [of u "nat_text (nat \<bar>u\<bar>)" "[]"] nat_text_digits nat_text_not_Nil True by simp
  next
    case False
    let ?p = "padStart (nat_text (nat \<bar>u\<bar>)) (Suc k) CHR ''0''"
    define w where "w = or_text (strip_zeros_keep_one (but_last_chars k ?p)) ''0''"
    define f where "f = strip_end_zeros (last_chars k ?p)"
    note ps = pad_split [of ?p "nat \<bar>u\<bar>" k, OF refl]
    have w: "list_all is_digit w" "w \<noteq> []" "digits_val w = digits_val (but_last_chars k ?p)"
      using strip_keep_props [OF ps(4,3)] by (simp_all add: w_def)
    obtain j where j: "last_chars k ?p = f @ replicate j CHR ''0''" using strip_end_split f_def by blast
    have fd: "list_all is_digit f" and len: "k = length f + j"
      using ps(2,5) unfolding j by simp_all
    have "digits_val (w @ f) * 10 ^ j = digits_val (but_last_chars k ?p @ last_chars k ?p)"
      unfolding j using w(3) by (simp add: digits_val_append power_add algebra_simps)
    then have "int (digits_val (w @ f) * 10 ^ j) = \<bar>u\<bar>" unfolding ps(6) by simp
    then have v: "int (digits_val (w @ f)) * 10 ^ j = \<bar>u\<bar>" by simp
    define x where "x = sgn u * int (digits_val (w @ f))"
    have ux: "u = x * 10 ^ j" using v by (simp add: x_def mult.assoc mult_sgn_abs)
    have x: "int (digits_val (w @ f)) = \<bar>x\<bar>" "x < 0 \<longleftrightarrow> u < 0"
      using v unfolding ux by (auto simp: abs_mult mult_less_0_iff)
    have "\<not> (u < 0 \<and> w = ''0'' \<and> f = [])" using v by (auto simp: digits_val_Cons)
    then have "renderExactDecimal u k
        = (if x < 0 then ''-'' else []) @ w @ (if f \<noteq> [] then CHR ''.'' # f else [])"
      using False unfolding renderExactDecimal_def Let_def bt x(2) by (auto simp: w_def f_def)
    then show ?thesis using that [of x w f] w(1,2) fd len x(1) ux by simp
  qed
qed

text \<open>The canonical text is a plain decimal with at most \<open>k\<close> places and the value \<open>u / 10 ^ k\<close>.\<close>

lemma renderExactDecimal_text:
  "decimal_value (renderExactDecimal u k) = Some (of_int u / 10 ^ k)
    \<and> exponent_in_range (renderExactDecimal u k)
    \<and> trim (renderExactDecimal u k) = renderExactDecimal u k
    \<and> signed_plain_decimal (renderExactDecimal u k)
    \<and> length (snd (split_dot (strip_sign (renderExactDecimal u k)))) \<le> k"
proof -
  obtain w f x where r: "renderExactDecimal u k = (if x < 0 then ''-'' else []) @ w @ (if f \<noteq> [] then CHR ''.'' # f else [])"
    and w: "list_all is_digit w" "w \<noteq> []" and fd: "list_all is_digit f" and len: "length f \<le> k"
    and x: "int (digits_val (w @ f)) = \<bar>x\<bar>" "u = x * 10 ^ (k - length f)" by (rule renderExactDecimal_shape)
  have "(10::rat) ^ k = 10 ^ (k - length f) * 10 ^ length f" using len by (simp flip: power_add)
  then have val: "(of_int x / 10 ^ length f :: rat) = of_int u / 10 ^ k" unfolding x(2) by simp
  show ?thesis
  proof (cases "f = []")
    case True
    then have r': "renderExactDecimal u k = (if x < 0 then ''-'' else []) @ w" using r by simp
    note g = decimal_parts_integer [OF w r']
    show ?thesis using g decimal_value_integer [OF w, of x] True x(1) val r' w(1) by (simp add: exponent_in_range_def)
  next
    case False
    then have r': "renderExactDecimal u k = (if x < 0 then ''-'' else []) @ w @ CHR ''.'' # f" using r by simp
    note g = decimal_parts_fixed [OF w fd False r']
    have "snd (split_dot (strip_sign (renderExactDecimal u k))) = f" unfolding g(4) using w(1) fd by simp
    then show ?thesis using g decimal_value_fixed [OF w fd False x(1)] val r' len by (simp add: exponent_in_range_def)
  qed
qed

lemma canonicalPlainDecimal_Some:
  assumes "canonicalPlainDecimal v m = Some t"
  obtains p where "parseExactDecimalParts v False = Some p" "int (ed_scale p) \<le> m"
    "t = renderExactDecimal (ed_units p) (ed_scale p)" "decimal_value v = Some (exact_value p)"
proof -
  from assms obtain p where p: "parseExactDecimalParts v False = Some p" "int (ed_scale p) \<le> m"
    "t = renderExactDecimal (ed_units p) (ed_scale p)"
    by (auto simp: canonicalPlainDecimal_def split: option.splits if_splits)
  then have "parseExactDecimalParts v True = Some p" by (simp only: parse_plain_iff)
  then have "decimal_value v = Some (exact_value p)" by (simp add: parseExactDecimalParts_iff(2))
  with p show thesis by (rule that)
qed

lemma canonicalPlainDecimal_value:
  assumes "canonicalPlainDecimal v m = Some t"
  shows "decimal_value t = decimal_value v"
proof -
  obtain p where "t = renderExactDecimal (ed_units p) (ed_scale p)" "decimal_value v = Some (exact_value p)"
    by (rule canonicalPlainDecimal_Some [OF assms]) blast
  then show ?thesis using renderExactDecimal_text by (simp add: exact_value_def)
qed

lemma canonicalPlainDecimal_idem:
  assumes "canonicalPlainDecimal v m = Some t"
  shows "canonicalPlainDecimal t m = Some t"
proof -
  obtain p :: exact_decimal where p: "int (ed_scale p) \<le> m" "t = renderExactDecimal (ed_units p) (ed_scale p)"
    by (rule canonicalPlainDecimal_Some [OF assms]) blast
  note r = renderExactDecimal_text [of "ed_units p" "ed_scale p", folded p(2)]
  obtain q where q: "parseExactDecimalParts t True = Some q" "decimal_value t = Some (exact_value q)"
    using parseExactDecimalParts_iff(1) [of t] r by blast
  then have q': "parseExactDecimalParts t False = Some q" using parse_plain_iff r by simp
  have "ed_scale q \<le> ed_scale p" using parse_plain_scale [OF q'] r by simp
  moreover have "renderExactDecimal (ed_units q) (ed_scale q) = t"
    unfolding p(2) using q(2) r by (intro renderExactDecimal_cong) (simp add: exact_value_def)
  ultimately show ?thesis using p(1) q' by (simp add: canonicalPlainDecimal_def)
qed

lemma canonicalPlainDecimal_unique:
  assumes "canonicalPlainDecimal v m = Some t" "canonicalPlainDecimal v' m' = Some t'"
  shows "t = t' \<longleftrightarrow> decimal_value v = decimal_value v'"
proof
  assume "t = t'"
  then show "decimal_value v = decimal_value v'"
    using canonicalPlainDecimal_value [OF assms(1)] canonicalPlainDecimal_value [OF assms(2)] by simp
next
  assume eq: "decimal_value v = decimal_value v'"
  obtain p where p: "t = renderExactDecimal (ed_units p) (ed_scale p)" "decimal_value v = Some (exact_value p)"
    by (rule canonicalPlainDecimal_Some [OF assms(1)]) blast
  obtain p' where p': "t' = renderExactDecimal (ed_units p') (ed_scale p')" "decimal_value v' = Some (exact_value p')"
    by (rule canonicalPlainDecimal_Some [OF assms(2)]) blast
  show "t = t'" unfolding p(1) p'(1) using eq p(2) p'(2)
    by (intro renderExactDecimal_cong) (simp add: exact_value_def)
qed

text \<open>The fixed text: the digits with exactly \<open>k\<close> of them behind the point.\<close>

lemma fixedDecimal_shape:
  assumes "fixedDecimal v k = Inr t" "0 < k"
  obtains w f x where "t = (if x < 0 then ''-'' else []) @ w @ CHR ''.'' # f" "list_all is_digit w" "w \<noteq> []" "list_all is_digit f" "length f = k"
    "int (digits_val (w @ f)) = \<bar>x\<bar>" "decimal_value v = Some (of_int x / 10 ^ k)"
proof -
  obtain c where c: "canonicalPlainDecimal v (int k) = Some c" using assms(1) by (auto simp: fixedDecimal_def canonicalDecimal_def split: option.splits)
  then obtain p :: exact_decimal where p: "c = renderExactDecimal (ed_units p) (ed_scale p)" "int (ed_scale p) \<le> int k" by (rule canonicalPlainDecimal_Some) blast
  obtain w f x where r: "c = (if x < 0 then ''-'' else []) @ w @ (if f \<noteq> [] then CHR ''.'' # f else [])"
    and w: "list_all is_digit w" "w \<noteq> []" and fd: "list_all is_digit f" and len: "length f \<le> ed_scale p"
    and x: "int (digits_val (w @ f)) = \<bar>x\<bar>" "ed_units p = x * 10 ^ (ed_scale p - length f)"
    unfolding p(1) by (rule renderExactDecimal_shape)
  define z where "z = replicate (k - length f) CHR ''0''"
  let ?y = "x * 10 ^ (k - length f)"
  have y: "?y < 0 \<longleftrightarrow> x < 0" by (simp add: mult_less_0_iff)
  have m: "starts_minus c \<longleftrightarrow> x < 0" using r w by (cases w) (auto simp: digit_not_mark)
  have "split_dot (if x < 0 then tl c else c) = (w, f)" using r w(1) fd by (cases "f = []"; cases "x < 0") simp_all
  then have t: "t = (if ?y < 0 then ''-'' else []) @ w @ CHR ''.'' # (f @ z)"
    unfolding y using assms(1) c m by (auto simp: fixedDecimal_def canonicalDecimal_def Let_def padEnd_def z_def)
  have fz: "list_all is_digit (f @ z)" "length (f @ z) = k" using fd len p(2) by (auto simp: z_def)
  have "digits_val (w @ f @ z) = digits_val (w @ f) * 10 ^ (k - length f)" using digits_val_append [of "w @ f" z] by (simp add: z_def)
  then have d: "int (digits_val (w @ f @ z)) = \<bar>?y\<bar>" using x(1) by (simp add: abs_mult)
  have "(10::rat) ^ k = 10 ^ (k - length f) * 10 ^ length f" using len p(2) by (simp flip: power_add)
  moreover have "(10::rat) ^ ed_scale p = 10 ^ (ed_scale p - length f) * 10 ^ length f" using len by (simp flip: power_add)
  moreover have "decimal_value v = Some (of_int (ed_units p) / 10 ^ ed_scale p)"
    using renderExactDecimal_text [of "ed_units p" "ed_scale p"] canonicalPlainDecimal_value [OF c] p(1) by simp
  ultimately have "decimal_value v = Some (of_int ?y / 10 ^ k)" using x(2) by simp
  with t w fz d show thesis by (rule that [of ?y w "f @ z"])
qed

lemma fixedDecimal_value:
  assumes "fixedDecimal v k = Inr t" "0 < k"
  shows "decimal_value t = decimal_value v" "exponent_in_range t"
proof -
  obtain w f x where t: "t = (if x < 0 then ''-'' else []) @ w @ CHR ''.'' # f" and d: "list_all is_digit w" "w \<noteq> []" "list_all is_digit f" "length f = k"
    "int (digits_val (w @ f)) = \<bar>x\<bar>" "decimal_value v = Some (of_int x / 10 ^ k)" by (rule fixedDecimal_shape [OF assms])
  have "f \<noteq> []" using d(4) assms(2) by auto
  then show "decimal_value t = decimal_value v" "exponent_in_range t"
    using decimal_value_fixed [OF d(1-3) _ d(5)] decimal_parts_fixed(1) [OF d(1-3) _ t] d(4,6) t by (simp_all add: exponent_in_range_def)
qed

section \<open>Comparison\<close>

lemma split_dot_snd_strip: "plain_decimal (strip_sign s) \<Longrightarrow> snd (split_dot s) = snd (split_dot (strip_sign s))"
  by (cases s) (auto simp: split_dot_def is_sign_def)

lemma scaled_text_units_value:
  assumes "signed_plain_decimal s" "length (snd (split_dot (strip_sign s))) \<le> k"
  shows "(of_int (scaled_text_units s k) :: rat) = plain_value s * 10 ^ k"
proof -
  obtain w f where wf: "split_dot (strip_sign s) = (w, f)" by (cases "split_dot (strip_sign s)")
  have d: "list_all is_digit w" "list_all is_digit f"
    using plain_split_digits [OF _ wf] assms(1) by (simp_all add: signed_plain_decimal_def)
  have "\<not> loses_precision k f" using assms(2) wf by (simp add: loses_precision_def)
  moreover have "bigint_of_text (or_text x ''0'') = bigint_of_text x" for x
    by (simp add: or_text_def bigint_of_text_def digits_val_Cons)
  then have "scaled_text_units s k = (if starts_minus s then - 1 else 1) * scaled_units k w f"
    by (simp add: scaled_text_units_def scaled_units_def Let_def wf)
  ultimately show ?thesis using scaled_units_exact [OF d] by (simp add: plain_value_def wf)
qed

lemma compareDecimal_value:
  assumes "signed_plain_decimal a" "signed_plain_decimal b"
  shows "of_int (compareDecimal a b) = sgn (plain_value a - plain_value b)"
proof -
  define k where "k = max (length (snd (split_dot a))) (length (snd (split_dot b)))"
  define d where "d = scaled_text_units a k - scaled_text_units b k"
  have "length (snd (split_dot (strip_sign a))) \<le> k" "length (snd (split_dot (strip_sign b))) \<le> k"
    using assms by (simp_all add: k_def signed_plain_decimal_def split_dot_snd_strip)
  then have "(of_int d :: rat) = (plain_value a - plain_value b) * 10 ^ k"
    using scaled_text_units_value assms by (simp add: d_def left_diff_distrib)
  then have s: "sgn (of_int d :: rat) = sgn (plain_value a - plain_value b)" by (simp add: sgn_mult)
  have "compareDecimal a b = sgn d"
    unfolding compareDecimal_def Let_def k_def [symmetric] d_def [symmetric] by (simp add: sgn_if)
  with s show ?thesis by (simp add: sgn_if split: if_splits)
qed

section \<open>\<open>normalizeDecimal\<close>\<close>

text \<open>The digits of \<open>w.f\<close> times \<open>10 ^ e\<close> and the index of the point in them.\<close>

definition place_point :: "string \<Rightarrow> string \<Rightarrow> int \<Rightarrow> string \<times> nat" where
  "place_point w f e = (let digits0 = or_text (w @ f) ''0''; index0 = int (length w) + e in
     if index0 \<le> 0 then (replicate (nat (- index0)) CHR ''0'' @ digits0, 0)
     else if index0 \<ge> int (length digits0) then (padEnd digits0 (nat index0) CHR ''0'', nat index0)
     else (digits0, nat index0))"

definition normalized_text :: "bool \<Rightarrow> string \<Rightarrow> nat \<Rightarrow> int \<Rightarrow> string result" where
  "normalized_text negative digits index dp = (let whole0 = or_text (take index digits) ''0'';
       fraction0 = drop index digits in
     if loses_precision (nat dp) fraction0
     then Inl (Error ''decimal loses precision beyond decimal places'')
     else let whole = or_text (dropWhile (\<lambda>c. c = CHR ''0'') whole0) ''0'';
              fraction = padEnd (take (nat dp) fraction0) (nat dp) CHR ''0'';
              zero = (whole = ''0'' \<and> \<not> list_ex nonzero_digit fraction)
          in Inr ((if negative \<and> \<not> zero then ''-'' else []) @ whole
                  @ (if dp > 0 then CHR ''.'' # fraction else [])))"

lemma normalizeDecimal_parts:
  assumes "decimal_parts s = Some (n, w, f, e)" "0 \<le> dp" "dp \<le> 10"
  shows "normalizeDecimal s dp = (if \<bar>e\<bar> \<le> MAX_SCIENTIFIC_EXPONENT
      then (case place_point w f e of (digits, index) \<Rightarrow> normalized_text n digits index dp)
      else Inl (Error ''scientific exponent out of supported range''))"
proof -
  have g: "\<not> (dp < 0 \<or> dp > 10)" using assms(2,3) by simp
  obtain m where m: "split_dot m = (w, f)" "decimal_number (trim s)" "n = starts_minus (trim s)"
    and x: "exponent_match (strip_sign (trim s)) = None \<and> m = strip_sign (trim s) \<and> e = 0
      \<or> (\<exists>t. exponent_match (strip_sign (trim s)) = Some (m, t) \<and> e = number_of_integer_text t)"
    using assms(1) by (auto simp: decimal_parts_def Let_def split: if_splits option.splits prod.splits)
  have p: "bindE (case exponent_match (strip_sign (trim s)) of None \<Rightarrow> Inr (strip_sign (trim s), 0)
         | Some (m, t) \<Rightarrow> bindE (parseBoundedExponent t) (\<lambda>e. Inr (m, e))) F
      = (if \<bar>e\<bar> \<le> MAX_SCIENTIFIC_EXPONENT then F (m, e)
         else Inl (Error ''scientific exponent out of supported range''))" for F :: "string \<times> int \<Rightarrow> string result"
    using x by (auto simp: parseBoundedExponent_eq)
  show ?thesis
    unfolding normalizeDecimal_def if_not_P [OF g] Let_def p m(3) [symmetric]
    using m(1,2) by (simp add: place_point_def normalized_text_def Let_def)
qed

lemma place_point_value:
  assumes "list_all is_digit w" "list_all is_digit f" "w \<noteq> [] \<or> f \<noteq> []" "place_point w f e = (digits, index)"
  shows "list_all is_digit digits" "index \<le> length digits"
    "(of_nat (digits_val digits) / 10 ^ (length digits - index) :: rat)
      = of_nat (digits_val (w @ f)) / 10 ^ length f * 10 powi e"
proof -
  have d0: "or_text (w @ f) ''0'' = w @ f" using assms(3) by (auto simp: or_text_def)
  define l where "l = int (length w)"
  define x where "x = l + e"
  have e: "e = x - l" by (simp add: x_def)
  have powi: "(10::rat) powi (int a - int b) = 10 ^ a / 10 ^ b" for a b by (simp add: power_int_diff)
  consider (lo) "x \<le> 0" | (hi) "0 < x" "int (length (w @ f)) \<le> x" | (mid) "0 < x" "x < int (length (w @ f))"
    by linarith
  then have "list_all is_digit digits \<and> index \<le> length digits \<and>
     (of_nat (digits_val digits) / 10 ^ (length digits - index) :: rat)
      = of_nat (digits_val (w @ f)) / 10 ^ length f * 10 powi e"
  proof cases
    case lo
    then have p: "digits = replicate (nat (- x)) CHR ''0'' @ w @ f" "index = 0"
      using assms(4) by (simp_all add: place_point_def Let_def d0 x_def l_def)
    define k where "k = nat (- x)"
    have e': "e = int 0 - int (k + length w)" using lo by (simp add: k_def e l_def)
    have "(10::rat) powi e = 1 / 10 ^ (k + length w)" unfolding e' powi by simp
    then show ?thesis using assms(1,2) p
      by (simp add: k_def [symmetric] digits_val_append [of "replicate k _"] power_add field_simps)
  next
    case hi
    then have p: "digits = padEnd (w @ f) (nat x) CHR ''0''" "index = nat x"
      using assms(4) by (auto simp: place_point_def Let_def d0 x_def l_def)
    define k where "k = nat x - length (w @ f)"
    have e': "e = int (k + length f) - int 0" using hi by (simp add: k_def e l_def)
    have "(10::rat) powi e = 10 ^ (k + length f)" unfolding e' powi by simp
    moreover have "digits = (w @ f) @ replicate k CHR ''0''" by (simp add: p padEnd_def k_def)
    moreover have "length digits = index" using hi p by (simp add: padEnd_def)
    ultimately show ?thesis using assms(1,2)
      by (simp add: digits_val_append [of "w @ f" "replicate k _", simplified] power_add)
  next
    case mid
    then have p: "digits = w @ f" "index = nat x"
      using assms(4) by (auto simp: place_point_def Let_def d0 x_def l_def)
    define k where "k = length (w @ f) - nat x"
    have e': "e = int (length f) - int k" using mid by (simp add: k_def e l_def)
    have "(10::rat) powi e = 10 ^ length f / 10 ^ k" unfolding e' powi ..
    then show ?thesis using assms(1,2) p mid by (simp add: k_def)
  qed
  then show "list_all is_digit digits" "index \<le> length digits"
    "(of_nat (digits_val digits) / 10 ^ (length digits - index) :: rat)
      = of_nat (digits_val (w @ f)) / 10 ^ length f * 10 powi e" by simp_all
qed

lemma digit_zero_char: "is_digit c \<Longrightarrow> digit_val c = 0 \<Longrightarrow> c = CHR ''0''"
proof -
  assume "is_digit c" "digit_val c = 0"
  then have "(of_char c :: nat) = of_char CHR ''0''" by (simp add: is_digit_def digit_val_def)
  then show ?thesis by (simp only: of_char_eq_iff)
qed

lemma strip_leading_all: "list_all is_digit s \<Longrightarrow> strip_leading_zeros s = [] \<longleftrightarrow> digits_val s = 0"
proof (induction s)
  case (Cons c s)
  then have d: "is_digit c" "strip_leading_zeros s = [] \<longleftrightarrow> digits_val s = 0" by simp_all
  show ?case
  proof (cases "c = CHR ''0''")
    case True
    then show ?thesis using d(2) by (simp add: strip_leading_zeros_def digits_val_Cons)
  next
    case False
    then have "digit_val c \<noteq> 0" using digit_zero_char [OF d(1)] by blast
    with False show ?thesis by (simp add: strip_leading_zeros_def digits_val_Cons)
  qed
qed (simp add: strip_leading_zeros_def)

lemma normalized_text_value:
  assumes "list_all is_digit digits" "index \<le> length digits" "0 \<le> dp"
    and "normalized_text n digits index dp = Inr t"
  shows "decimal_value t = Some ((if n then - 1 else 1) * (of_nat (digits_val digits) / 10 ^ (length digits - index)))"
proof -
  define d where "d = nat dp"
  define w0 where "w0 = take index digits"
  define f0 where "f0 = drop index digits"
  have dd: "list_all is_digit w0" "list_all is_digit f0" "digits = w0 @ f0" "length f0 = length digits - index"
    using assms(1) by (auto simp: w0_def f0_def list_all_iff dest: in_set_takeD in_set_dropD)
  define w where "w = or_text (strip_leading_zeros (or_text w0 ''0'')) ''0''"
  define f where "f = take d (f0 @ replicate d CHR ''0'')"
  have fp: "padEnd (take d f0) d CHR ''0'' = f"
    by (simp add: padEnd_def f_def)
  have "list_all is_digit (or_text w0 ''0'')" "digits_val (or_text w0 ''0'') = digits_val w0"
    using dd(1) by (simp_all add: or_zero_digits)
  then have w: "list_all is_digit w" "digits_val w = digits_val w0" "w \<noteq> []"
    unfolding w_def using or_zero_digits strip_leading_digits digits_val_strip_leading by (auto simp: or_text_def)
  have fd: "list_all is_digit f" "length f = d"
    using dd(2) by (auto simp: f_def list_all_iff dest: in_set_takeD)
  have np: "\<not> loses_precision d f0" using assms(4)
    by (auto simp: normalized_text_def Let_def f0_def d_def split: if_splits)
  have val: "(of_nat (digits_val (w @ f)) :: rat) = of_nat (digits_val digits) / 10 ^ length f0 * 10 ^ d"
  proof -
    have "int (digits_val (w @ f)) = scaled_units d w0 f0"
      unfolding scaled_units_digits [OF dd(1,2)] f_def [symmetric] by (simp add: digits_val_append w(2) fd(2))
    then have "(of_int (int (digits_val (w @ f))) :: rat) = of_int (scaled_units d w0 f0)" by (simp only:)
    then show ?thesis using scaled_units_exact [OF dd(1,2) np] dd(3) by simp
  qed
  define u where "u = (if n then - 1 else 1) * int (digits_val (w @ f))"
  have z: "w = ''0'' \<and> \<not> list_ex nonzero_digit f \<longleftrightarrow> digits_val (w @ f) = 0"
  proof -
    have "w = ''0''" if "digits_val w = 0"
      using that strip_leading_all [of "or_text w0 ''0''"] \<open>list_all is_digit (or_text w0 ''0'')\<close>
        \<open>digits_val (or_text w0 ''0'') = digits_val w0\<close> w(2) by (simp add: w_def or_text_def)
    then have "w = ''0'' \<longleftrightarrow> digits_val w = 0" by (auto simp: digits_val_Cons)
    then show ?thesis using digits_val_eq_0_iff [OF fd(1)] by (simp add: digits_val_append)
  qed
  have u: "u < 0 \<longleftrightarrow> n \<and> digits_val (w @ f) \<noteq> 0" "int (digits_val (w @ f)) = \<bar>u\<bar>" by (auto simp: u_def)
  have t: "t = (if u < 0 then ''-'' else []) @ w @ (if dp > 0 then CHR ''.'' # f else [])"
    using assms(4) np unfolding normalized_text_def Let_def d_def [symmetric] f0_def [symmetric] w0_def [symmetric]
      strip_leading_zeros_def [symmetric] w_def [symmetric] fp z u(1) by simp
  have "(of_int u / 10 ^ d :: rat) = (if n then - 1 else 1) * (of_nat (digits_val digits) / 10 ^ length f0)"
    using val by (simp add: u_def)
  moreover have "decimal_value t = Some (of_int u / 10 ^ d)"
  proof (cases "dp > 0")
    case True
    then have "f \<noteq> []" using fd(2) by (auto simp: d_def)
    from decimal_value_fixed [OF w(1,3) fd(1) this u(2)] True show ?thesis by (simp add: t fd(2))
  next
    case False
    then have "f = []" "d = 0" using fd(2) assms(3) by (auto simp: d_def)
    then show ?thesis using decimal_value_integer [OF w(1,3), of u] u(2) False by (simp add: t)
  qed
  ultimately show ?thesis using dd(4) by simp
qed

lemma normalizeDecimal_value:
  assumes "normalizeDecimal s dp = Inr t"
  shows "decimal_value t = decimal_value s \<and> decimal_value s \<noteq> None"
proof -
  have dp: "0 \<le> dp" "dp \<le> 10" using assms by (auto simp: normalizeDecimal_def split: if_splits)
  have "decimal_number (trim s)" using assms dp by (auto simp: normalizeDecimal_def Let_def split: if_splits)
  then obtain n w f e where p: "decimal_parts s = Some (n, w, f, e)"
    by (cases "decimal_parts s") (auto simp: decimal_parts_def Let_def split: option.splits prod.splits)
  note d = decimal_parts_digits [OF p]
  obtain digits index where pp: "place_point w f e = (digits, index)" by (cases "place_point w f e")
  note v = place_point_value [OF d pp]
  have "normalized_text n digits index dp = Inr t"
    using assms unfolding normalizeDecimal_parts [OF p dp] pp by (simp split: if_splits)
  from normalized_text_value [OF v(1,2) dp(1) this] v(3) show ?thesis
    by (simp add: decimal_value_def p signed_value_def)
qed

section \<open>Properties\<close>

text \<open>
  Canonical request text identifies a number: two inputs that pass \<open>canonicalDecimal\<close> get
  the same text exactly when they denote the same number, and the text denotes that number.
\<close>

theorem canonicalDecimal_unique:
  assumes "canonicalDecimal v m = Some t" "canonicalDecimal v' m' = Some t'"
  shows "decimal_value t = decimal_value v \<and> (t = t' \<longleftrightarrow> decimal_value v = decimal_value v')"
  using assms canonicalPlainDecimal_value canonicalPlainDecimal_unique unfolding canonicalDecimal_def by blast

theorem canonicalDecimal_unique_witness:
  "decimal_value ''1.5'' = decimal_value ''+01.50'' \<and> decimal_value ''+01.50'' = decimal_value ''1.500''"
proof -
  have a: "canonicalDecimal ''+01.50'' 4 = Some ''1.5''" by code_simp
  have b: "canonicalDecimal ''1.500'' 8 = Some ''1.5''" by code_simp
  show ?thesis using canonicalDecimal_unique [OF a b] by simp
qed

text \<open>
  Canonicalising is a retraction: text that \<open>canonicalDecimal\<close> returned passes it again at the
  same limit, unchanged.
\<close>

theorem canonicalDecimal_roundtrip:
  assumes "canonicalDecimal v m = Some t"
  shows "canonicalDecimal t m = Some t"
  using canonicalPlainDecimal_idem assms unfolding canonicalDecimal_def .

theorem canonicalDecimal_roundtrip_witness: "canonicalDecimal ''-0.05'' 2 = Some ''-0.05''"
proof -
  have a: "canonicalDecimal '' -.050'' 3 = Some ''-0.05''" by code_simp
  have b: "canonicalDecimal ''-00.05'' 2 = Some ''-0.05''" by code_simp
  show ?thesis by (rule canonicalDecimal_roundtrip [OF b])
qed

text \<open>
  Exact-decimal arithmetic rounds once.  Two texts that denote \<open>x\<close> and \<open>y\<close> multiply and divide
  to a text that denotes the exact product or quotient rounded half away from zero at the
  requested scale; the operations accept every such pair (for division, every nonzero divisor).
\<close>

theorem decimal_arithmetic_rounds_once:
  assumes "decimal_value a = Some x" "exponent_in_range a" "decimal_value b = Some y" "exponent_in_range b"
    and "0 \<le> s" "s \<le> 18"
  shows "(\<exists>t. multiplyDecimal a b s = Inr t
        \<and> decimal_value t = Some (of_int (half_away (x * y * 10 ^ nat s)) / 10 ^ nat s))
    \<and> (y \<noteq> 0 \<longrightarrow> (\<exists>t. divideDecimal a b s = Inr t
        \<and> decimal_value t = Some (of_int (half_away (x / y * 10 ^ nat s)) / 10 ^ nat s)))"
proof -
  obtain p where p: "toScaled a = Some p" "exact_value p = x"
    using parseExactDecimalParts_iff(1) [of a] assms(1,2) by (auto simp: toScaled_def)
  obtain q where q: "toScaled b = Some q" "exact_value q = y"
    using parseExactDecimalParts_iff(1) [of b] assms(3,4) by (auto simp: toScaled_def)
  show ?thesis
    using multiplyDecimal_value [OF p(1) q(1) assms(5,6)] divideDecimal_value [OF p(1) q(1) _ assms(5,6)] p(2) q(2)
    by simp
qed

theorem decimal_arithmetic_rounds_once_witness:
  "(\<exists>t. divideDecimal ''1'' ''100'' 4 = Inr t \<and> decimal_value t = Some (of_int (half_away (1 / 100 * 10 ^ 4)) / 10 ^ 4))"
proof -
  have a: "decimal_value ''1'' = Some 1" "exponent_in_range ''1''"
    using toUnits_value [of "''1''" 10000] by simp_all
  have b: "decimal_value ''100'' = Some 100" "exponent_in_range ''100''"
    using toUnits_value [of "''100''" 1000000] by simp_all
  from decimal_arithmetic_rounds_once [OF a b, of 4] show ?thesis by simp
qed

text \<open>
  \<open>compareDecimal\<close> compares plain decimals of different scales by value: the result is the
  sign of the difference of the two numbers.
\<close>

theorem compareDecimal_by_value:
  assumes "signed_plain_decimal a" "signed_plain_decimal b"
  shows "of_int (compareDecimal a b) = sgn (plain_value a - plain_value b)"
  by (rule compareDecimal_value [OF assms])

theorem compareDecimal_by_value_witness:
  "of_int (compareDecimal ''-1.5'' ''2.25'') = sgn (plain_value ''-1.5'' - plain_value ''2.25'')"
proof -
  have "signed_plain_decimal ''-1.5''" "signed_plain_decimal ''2.25''" by code_simp+
  then show ?thesis by (rule compareDecimal_by_value)
qed

end
