(* ===== verification/Costing.thy ===== *)
theory Costing
  imports Exact_Decimal
begin

text \<open>
  \<open>engine/src/inventory/costing.ts\<close>: the arithmetic of the inventory subledger.  Quantities and
  costs are ledger units (four decimal places) carried as decimal text.  The theory holds the
  extension of quantities by costs, the exact representation of a carried value by at most two
  cost fragments, unit conversion, and the three costing methods: FIFO layers, the moving-average
  pool and standard cost.  The properties show that value is conserved by every method.
\<close>

section \<open>Extending quantities\<close>

definition mulUnits :: "int \<Rightarrow> int \<Rightarrow> int" where
  "mulUnits a b = (let product = a * b; negative = product < 0;
       abs' = (if negative then - product else product);
       rounded = (abs' + SCALE sdiv 2) sdiv SCALE
     in if negative then - rounded else rounded)"

definition divUnits :: "int \<Rightarrow> int \<Rightarrow> int" where
  "divUnits value qty = (if qty = 0 then 0
     else let num = value * SCALE; negative = ((num < 0) \<noteq> (qty < 0));
              absNum = (if num < 0 then - num else num);
              absQty = (if qty < 0 then - qty else qty);
              rounded = (absNum + absQty sdiv 2) sdiv absQty
          in if negative then - rounded else rounded)"

definition extendCost :: "string \<Rightarrow> string \<Rightarrow> string result" where
  "extendCost quantity unitCost = bindE (toUnits quantity) (\<lambda>q. bindE (toUnits unitCost) (\<lambda>c.
     Inr (fromUnits (mulUnits q c))))"

record cost_fragment =
  cf_quantity :: string
  cf_unitCost :: string

definition split_fragments :: "int \<Rightarrow> int \<Rightarrow> cost_fragment list result" where
  "split_fragments q v = (let lowRate = (v * SCALE) sdiv q; lowValue = mulUnits q lowRate in
     if lowValue = v then Inr [\<lparr>cf_quantity = fromUnits q, cf_unitCost = fromUnits lowRate\<rparr>]
     else let highRate = lowRate + 1 in
       if mulUnits q highRate = v
       then Inr [\<lparr>cf_quantity = fromUnits q, cf_unitCost = fromUnits highRate\<rparr>]
       else let highQuantity = (v - lowValue) * SCALE in
         if highQuantity \<le> 0 \<or> highQuantity \<ge> q
         then Inl (InventoryError ''cannot be represented exactly at ledger precision'')
         else Inr [\<lparr>cf_quantity = fromUnits (q - highQuantity), cf_unitCost = fromUnits lowRate\<rparr>,
                   \<lparr>cf_quantity = fromUnits highQuantity, cf_unitCost = fromUnits highRate\<rparr>])"

definition exactCostFragments :: "string \<Rightarrow> string \<Rightarrow> string option \<Rightarrow> cost_fragment list result" where
  "exactCostFragments quantity value sourceUnitCost =
     bindE (toUnits quantity) (\<lambda>q. bindE (toUnits value) (\<lambda>v.
     if q \<le> 0 \<or> v < 0
     then Inl (InventoryError ''inventory layers require a positive quantity and a non-negative value'')
     else bindE (case sourceUnitCost of
           None \<Rightarrow> Inr False
         | Some c \<Rightarrow> bindE (extendCost quantity c) (\<lambda>e. bindE (toUnits e) (\<lambda>u. Inr (u = v))))
       (\<lambda>exact. case (exact, sourceUnitCost) of
           (True, Some c) \<Rightarrow> Inr [\<lparr>cf_quantity = fromUnits q, cf_unitCost = c\<rparr>]
         | _ \<Rightarrow> split_fragments q v)))"

section \<open>Unit conversion\<close>

text \<open>
  \<open>toLowerCase\<close> on code units below 256.  A configured conversion factor is a JavaScript number:
  not finite, or finite with the decimal text \<open>String(factor)\<close> prints.
\<close>

definition lower_char :: "char \<Rightarrow> char" where
  "lower_char c = (let n = (of_char c :: nat) in
     if (65 \<le> n \<and> n \<le> 90) \<or> (192 \<le> n \<and> n \<le> 222 \<and> n \<noteq> 215) then char_of (n + 32) else c)"

definition toLowerCase :: "string \<Rightarrow> string" where
  "toLowerCase s = map lower_char s"

definition INVENTORY_UNIT_ALIASES :: "(string \<times> string) list" where
  "INVENTORY_UNIT_ALIASES = [(''each'', ''ea''), (''pcs'', ''pc''), (''piece'', ''pc''), (''pieces'', ''pc'')]"

definition normalizeInventoryUnit :: "string option \<Rightarrow> string" where
  "normalizeInventoryUnit unit = (let folded = toLowerCase (trim (case unit of None \<Rightarrow> [] | Some u \<Rightarrow> u)) in
     case map_of INVENTORY_UNIT_ALIASES folded of Some a \<Rightarrow> a | None \<Rightarrow> folded)"

definition sameInventoryUnit :: "string option \<Rightarrow> string option \<Rightarrow> string option \<Rightarrow> bool" where
  "sameInventoryUnit left right baseUnit = (let
       fold_unit = (\<lambda>unit. or_text (normalizeInventoryUnit unit) (normalizeInventoryUnit baseUnit))
     in fold_unit left = fold_unit right)"

datatype js_number = Not_finite | Finite string

text \<open>\<open>factor <= 0\<close> for a finite number printed by \<open>String\<close>: a minus sign, or no nonzero digit in
  the mantissa.\<close>

definition js_positive :: "string \<Rightarrow> bool" where
  "js_positive t \<longleftrightarrow> \<not> starts_minus t \<and> list_ex nonzero_digit (takeWhile (\<lambda>c. \<not> is_exp_mark c) t)"

text \<open>\<open>conversions[trimmed] ?? conversions[folded] ?? (first key that folds to it)\<close>\<close>

definition conversion_lookup :: "(string \<times> js_number) list \<Rightarrow> string \<Rightarrow> string \<Rightarrow> js_number option" where
  "conversion_lookup conversions trimmed folded =
     (case map_of conversions trimmed of Some f \<Rightarrow> Some f
      | None \<Rightarrow> (case map_of conversions folded of Some f \<Rightarrow> Some f
         | None \<Rightarrow> (case find (\<lambda>k. toLowerCase k = folded) (map fst conversions) of
              None \<Rightarrow> None | Some k \<Rightarrow> map_of conversions k)))"

definition inventoryConversionFactor ::
  "string option \<Rightarrow> (string \<times> js_number) list \<Rightarrow> string \<Rightarrow> string result" where
  "inventoryConversionFactor unit conversions baseUnit = (let folded = normalizeInventoryUnit unit in
     if folded = [] \<or> folded = normalizeInventoryUnit (Some baseUnit) then Inr ''1''
     else let trimmed = trim (case unit of None \<Rightarrow> [] | Some u \<Rightarrow> u) in
       (case conversion_lookup conversions trimmed folded of
          Some (Finite t) \<Rightarrow>
            if \<not> js_positive t then Inl (UnitConversionError ''no conversion to the base unit'')
            else (case canonicalDecimal t 4 of
                None \<Rightarrow> Inl (UnitConversionError ''cannot be expressed exactly'')
              | Some exact \<Rightarrow> Inr exact)
        | _ \<Rightarrow> Inl (UnitConversionError ''no conversion to the base unit'')))"

definition toBaseQuantity ::
  "string \<Rightarrow> string option \<Rightarrow> (string \<times> js_number) list \<Rightarrow> string \<Rightarrow> string result" where
  "toBaseQuantity quantity unit conversions baseUnit =
     bindE (inventoryConversionFactor unit conversions baseUnit) (\<lambda>factor.
     bindE (toUnits quantity) (\<lambda>q. bindE (toUnits factor) (\<lambda>f. Inr (fromUnits (mulUnits q f)))))"

definition toExactBaseQuantity ::
  "string \<Rightarrow> string option \<Rightarrow> (string \<times> js_number) list \<Rightarrow> string \<Rightarrow> string result" where
  "toExactBaseQuantity quantity unit conversions baseUnit =
     (case canonicalDecimal quantity 8 of
        None \<Rightarrow> Inl (InventoryError ''quantity must be exact decimal text with at most eight places'')
      | Some exact \<Rightarrow> bindE (inventoryConversionFactor unit conversions baseUnit) (\<lambda>factor.
          multiplyDecimal exact factor 12))"

definition toExactStockQuantity ::
  "string \<Rightarrow> string option \<Rightarrow> (string \<times> js_number) list \<Rightarrow> string \<Rightarrow> string result" where
  "toExactStockQuantity quantity unit conversions baseUnit =
     bindE (toExactBaseQuantity quantity unit conversions baseUnit) (\<lambda>exact.
       rethrow (InventoryError ''cannot be stored exactly with four decimal places'')
         (normalizeDecimal exact 4))"

section \<open>FIFO\<close>

record cost_layer =
  cl_id :: string
  cl_remaining :: string
  cl_unitCost :: string

record layer_consumption =
  lc_layerId :: string
  lc_quantity :: string
  lc_unitCost :: string
  lc_cost :: string

record fifo_result =
  fr_consumptions :: "layer_consumption list"
  fr_totalCost :: string
  fr_shortfallQuantity :: string
  fr_shortfallCost :: string

text \<open>The loop over the layers: the consumptions, their cost and the need that is left.\<close>

fun fifo_loop :: "cost_layer list \<Rightarrow> int \<Rightarrow> (layer_consumption list \<times> int \<times> int) result" where
  "fifo_loop [] need = Inr ([], 0, need)"
| "fifo_loop (layer # layers) need =
     (if need \<le> 0 then Inr ([], 0, need)
      else bindE (toUnits (cl_remaining layer)) (\<lambda>avail.
        if avail \<le> 0 then fifo_loop layers need
        else let tk = (if avail < need then avail else need) in
          bindE (toUnits (cl_unitCost layer)) (\<lambda>cu.
          let cost = mulUnits avail cu - mulUnits (avail - tk) cu in
          bindE (fifo_loop layers (need - tk)) (\<lambda>(consumptions, costUnits, left).
            Inr (\<lparr>lc_layerId = cl_id layer, lc_quantity = fromUnits tk,
                  lc_unitCost = cl_unitCost layer, lc_cost = fromUnits cost\<rparr> # consumptions,
                 cost + costUnits, left)))))"

definition consumeFifo :: "cost_layer list \<Rightarrow> string \<Rightarrow> string \<Rightarrow> fifo_result result" where
  "consumeFifo layers quantity fallbackUnitCost = bindE (toUnits quantity) (\<lambda>need0.
     if need0 \<le> 0
     then Inr \<lparr>fr_consumptions = [], fr_totalCost = ''0'', fr_shortfallQuantity = ''0'', fr_shortfallCost = ''0''\<rparr>
     else bindE (fifo_loop layers need0) (\<lambda>(consumptions, totalCostUnits, need).
       if need > 0
       then bindE (toUnits fallbackUnitCost) (\<lambda>fu. let sc = mulUnits need fu in
         Inr \<lparr>fr_consumptions = consumptions, fr_totalCost = fromUnits (totalCostUnits + sc),
              fr_shortfallQuantity = fromUnits need, fr_shortfallCost = fromUnits sc\<rparr>)
       else Inr \<lparr>fr_consumptions = consumptions, fr_totalCost = fromUnits totalCostUnits,
                 fr_shortfallQuantity = ''0'', fr_shortfallCost = ''0''\<rparr>))"

section \<open>Moving average and standard cost\<close>

record moving_average_state =
  ma_quantity :: string
  ma_value :: string

definition receiveMovingAverage :: "moving_average_state \<Rightarrow> string \<Rightarrow> string \<Rightarrow> moving_average_state result" where
  "receiveMovingAverage state quantity unitCost =
     bindE (toUnits (ma_quantity state)) (\<lambda>sq. bindE (toUnits quantity) (\<lambda>uq.
     bindE (toUnits (ma_value state)) (\<lambda>sv. bindE (toUnits unitCost) (\<lambda>uc.
       Inr \<lparr>ma_quantity = fromUnits (sq + uq), ma_value = fromUnits (sv + mulUnits uq uc)\<rparr>))))"

record moving_average_issue =
  mi_cost :: string
  mi_state :: moving_average_state
  mi_unitCost :: string

definition issueMovingAverage :: "moving_average_state \<Rightarrow> string \<Rightarrow> moving_average_issue result" where
  "issueMovingAverage state quantity =
     bindE (toUnits (ma_quantity state)) (\<lambda>onQty. bindE (toUnits (ma_value state)) (\<lambda>onVal.
     bindE (toUnits quantity) (\<lambda>issQty.
     bindE (if onQty = issQty then Inr onVal
            else if onQty \<le> 0 then Inr 0
            else roundDiv (onVal * issQty) onQty) (\<lambda>costUnits.
       let unitCost = (if onQty \<noteq> 0 then divUnits onVal onQty else 0) in
       Inr \<lparr>mi_cost = fromUnits costUnits,
            mi_state = \<lparr>ma_quantity = fromUnits (onQty - issQty), ma_value = fromUnits (onVal - costUnits)\<rparr>,
            mi_unitCost = fromUnits unitCost\<rparr>))))"

record standard_receipt =
  sr_inventoryValue :: string
  sr_variance :: string

definition receiveStandard :: "string \<Rightarrow> string \<Rightarrow> string \<Rightarrow> standard_receipt result" where
  "receiveStandard quantity actualUnitCost standardCost =
     bindE (toUnits quantity) (\<lambda>q. bindE (toUnits standardCost) (\<lambda>std.
     bindE (toUnits actualUnitCost) (\<lambda>act.
       let inventoryValue = mulUnits q std; variance = mulUnits q act - inventoryValue in
       Inr \<lparr>sr_inventoryValue = fromUnits inventoryValue, sr_variance = fromUnits variance\<rparr>)))"

definition issueStandard :: "string \<Rightarrow> string \<Rightarrow> string result" where
  "issueStandard quantity standardCost = bindE (toUnits quantity) (\<lambda>q.
     bindE (toUnits standardCost) (\<lambda>s. Inr (fromUnits (mulUnits q s))))"

definition unitCostPerQuantity :: "string \<Rightarrow> string \<Rightarrow> string option result" where
  "unitCostPerQuantity value quantity = bindE (toUnits quantity) (\<lambda>q.
     if q = 0 then Inr None
     else bindE (toUnits value) (\<lambda>v0. let v = v0 * 10000 in
       bindE (if q < 0 then roundDiv (- v) (- q) else roundDiv v q) (\<lambda>u. Inr (Some (fromUnits u)))))"

section \<open>Rounded products\<close>

lemma mulUnits_round: "mulUnits a b = round_quot (a * b) SCALE"
  by (auto simp: mulUnits_def round_quot_def Let_def sdiv_nonneg sgn_if)

lemma mulUnits_zero [simp]: "mulUnits 0 c = 0" "mulUnits q 0 = 0"
  by (simp_all add: mulUnits_round)

lemma mulUnits_half_away: "mulUnits a b = half_away (of_int a * of_int b / 10000)"
  using round_quot_half_away [of SCALE "a * b"] by (simp add: mulUnits_round)

lemma divUnits_half_away: "q \<noteq> 0 \<Longrightarrow> divUnits v q = half_away (of_int v * 10000 / of_int q)"
proof -
  assume q: "q \<noteq> 0"
  let ?h = "half_away (of_int (v * SCALE) / of_int q)"
  note m = half_up_magnitude [OF q, of "v * SCALE"]
  have absif: "(if x < 0 then - x else x) = \<bar>x\<bar>" for x :: int by simp
  have "divUnits v q = (if (v * SCALE < 0) \<noteq> (q < 0) then - \<bar>?h\<bar> else \<bar>?h\<bar>)"
    using q unfolding divUnits_def Let_def absif m(1) by simp
  also have "\<dots> = ?h" using m(2) by (cases "(v * SCALE < 0) \<noteq> (q < 0)") auto
  finally show ?thesis by simp
qed

section \<open>Cost fragments\<close>

text \<open>The defensive refusal of the splitting step is unreachable.\<close>

lemma split_bounds:
  fixes q v :: int
  assumes "0 < q" "0 \<le> v"
  defines "L \<equiv> v * SCALE div q"
  assumes "mulUnits q L \<noteq> v" "mulUnits q (L + 1) \<noteq> v"
  shows "mulUnits q L < v" "(v - mulUnits q L) * SCALE < q"
proof -
  define A where "A = q * L"
  have L0: "0 \<le> L" using assms(1,2) by (simp add: L_def pos_imp_zdiv_nonneg_iff)
  then have A0: "0 \<le> A" using assms(1) by (simp add: A_def)
  have LA: "A \<le> v * SCALE" "v * SCALE < A + q"
    using div_int_iff [OF assms(1), of "v * SCALE" L] by (simp_all add: L_def A_def mult.commute)
  define lv where "lv = mulUnits q L"
  have lv: "2 * A < (2 * lv + 1) * SCALE"
    using round_quot_iff [OF A0, of SCALE lv] by (simp add: lv_def mulUnits_round A_def)
  have "round_quot A SCALE \<le> round_quot (v * SCALE) SCALE" by (rule round_quot_mono) (use LA in simp_all)
  then have "lv \<le> v" by (simp add: lv_def mulUnits_round A_def)
  then show "mulUnits q L < v" using assms(4) by (simp add: lv_def)
  have hA: "mulUnits q (L + 1) = round_quot (A + q) SCALE" by (simp add: mulUnits_round A_def algebra_simps)
  have "round_quot (v * SCALE) SCALE \<le> round_quot (A + q) SCALE" by (rule round_quot_mono) (use LA in simp_all)
  then have "v + 1 \<le> round_quot (A + q) SCALE" using assms(5) hA by simp
  moreover have "(2 * round_quot (A + q) SCALE - 1) * SCALE \<le> 2 * (A + q)"
    using round_quot_iff [of "A + q" SCALE "round_quot (A + q) SCALE"] A0 assms(1) by simp
  ultimately have "(2 * v + 1) * SCALE \<le> 2 * (A + q)" by simp
  with lv LA show "(v - mulUnits q L) * SCALE < q" unfolding lv_def [symmetric] by simp
qed

lemma fragment_values:
  assumes "0 \<le> L" "0 \<le> k" "k * SCALE < q"
  shows "mulUnits (q - k * SCALE) L + mulUnits (k * SCALE) (L + 1) = mulUnits q L + k"
proof -
  have e: "(q - k * SCALE) * L = q * L + (- (k * L)) * SCALE" by (simp add: algebra_simps)
  have "0 \<le> (q - k * SCALE) * L" using assms by simp
  then have "0 \<le> q * L + (- (k * L)) * SCALE" unfolding e .
  moreover have "0 \<le> q * L" using assms by simp
  ultimately have "mulUnits (q - k * SCALE) L = mulUnits q L - k * L"
    using round_quot_shift [of "q * L" "- (k * L)" SCALE] unfolding mulUnits_round e by simp
  moreover have "mulUnits (k * SCALE) (L + 1) = k * (L + 1)"
  proof -
    have "k * SCALE * (L + 1) = k * (L + 1) * SCALE" by simp
    then show ?thesis unfolding mulUnits_round by (simp only: round_quot_mult(1))
  qed
  ultimately show ?thesis by (simp add: algebra_simps)
qed

definition fragment_units :: "cost_fragment \<Rightarrow> (int \<times> int) result" where
  "fragment_units fr = bindE (toUnits (cf_quantity fr)) (\<lambda>q. bindE (toUnits (cf_unitCost fr)) (\<lambda>c. Inr (q, c)))"

lemma split_fragments_exact:
  assumes "0 < q" "0 \<le> v"
  shows "\<exists>frs us. split_fragments q v = Inr frs \<and> traverse fragment_units frs = Inr us \<and> length us \<le> 2
    \<and> (\<forall>(fq, fc) \<in> set us. 0 < fq \<and> 0 \<le> fc) \<and> sum_list (map fst us) = q
    \<and> sum_list (map (\<lambda>(fq, fc). mulUnits fq fc) us) = v"
proof -
  define L where "L = v * SCALE div q"
  have L: "(v * SCALE) sdiv q = L" using assms by (simp add: sdiv_nonneg L_def)
  have L0: "0 \<le> L" using assms by (simp add: L_def pos_imp_zdiv_nonneg_iff)
  consider (low) "mulUnits q L = v" | (high) "mulUnits q L \<noteq> v" "mulUnits q (L + 1) = v"
    | (split) "mulUnits q L \<noteq> v" "mulUnits q (L + 1) \<noteq> v" by blast
  then show ?thesis
  proof cases
    case split
    define k where "k = v - mulUnits q L"
    have k: "0 < k" "k * SCALE < q"
      using split_bounds [OF assms] split unfolding k_def L_def by simp_all
    have "\<not> (k * SCALE \<le> 0 \<or> k * SCALE \<ge> q)" using k by simp
    then have "split_fragments q v = Inr
        [\<lparr>cf_quantity = fromUnits (q - k * SCALE), cf_unitCost = fromUnits L\<rparr>,
         \<lparr>cf_quantity = fromUnits (k * SCALE), cf_unitCost = fromUnits (L + 1)\<rparr>]"
      using split unfolding split_fragments_def Let_def L k_def by simp
    moreover have "mulUnits (q - k * SCALE) L + mulUnits (k * SCALE) (L + 1) = v"
      using fragment_values [OF L0 _ k(2)] k(1) by (simp add: k_def)
    ultimately show ?thesis using k L0 by (auto simp: fragment_units_def)
  qed (use assms L0 in \<open>auto simp: split_fragments_def Let_def L fragment_units_def\<close>)
qed

section \<open>FIFO against its specification\<close>

text \<open>
  The specification takes from each layer in turn what it has, up to what is still needed.
\<close>

fun fifo_takes :: "int \<Rightarrow> int list \<Rightarrow> int list" where
  "fifo_takes need [] = []"
| "fifo_takes need (a # as) = (let t = min (max 0 a) (max 0 need) in t # fifo_takes (need - t) as)"

definition stored_value :: "int \<Rightarrow> int \<Rightarrow> int" where
  "stored_value avail cu = mulUnits (max 0 avail) cu"

lemma fifo_takes_nonpos: "need \<le> 0 \<Longrightarrow> fifo_takes need as = map (\<lambda>_. 0) as"
  by (induction as arbitrary: need) (auto simp: Let_def)

lemma length_fifo_takes [simp]: "length (fifo_takes need as) = length as"
  by (induction as arbitrary: need) (auto simp: Let_def)

lemma fifo_takes_bounds: "i < length as \<Longrightarrow> 0 \<le> fifo_takes need as ! i \<and> fifo_takes need as ! i \<le> max 0 (as ! i)"
proof (induction as arbitrary: need i)
  case (Cons a as)
  then show ?case by (cases i) (auto simp: Let_def)
qed simp

lemma sum_fifo_takes: "0 \<le> need \<Longrightarrow> sum_list (fifo_takes need as) = min need (sum_list (map (max 0) as))"
proof (induction as arbitrary: need)
  case (Cons a as)
  have "0 \<le> sum_list (map (max 0) as)" by (rule sum_list_nonneg_int) simp
  with Cons.prems Cons.IH [of "need - min (max 0 a) (max 0 need)"] show ?case by (simp add: Let_def) linarith
qed simp

text \<open>A layer is touched only when every older layer is exhausted.\<close>

lemma fifo_takes_oldest_first:
  "i < j \<Longrightarrow> j < length as \<Longrightarrow> 0 < fifo_takes need as ! j \<Longrightarrow> fifo_takes need as ! i = max 0 (as ! i)"
proof (induction as arbitrary: need i j)
  case (Cons a as)
  let ?t = "min (max 0 a) (max 0 need)"
  obtain j' where j: "j = Suc j'" using Cons.prems by (cases j) auto
  show ?case
  proof (cases i)
    case 0
    have "\<not> need - ?t \<le> 0"
    proof
      assume "need - ?t \<le> 0"
      then have "fifo_takes (need - ?t) as ! j' = 0" using Cons.prems j by (simp add: fifo_takes_nonpos)
      with Cons.prems j show False by (simp add: Let_def)
    qed
    with 0 show ?thesis by (auto simp: Let_def)
  next
    case (Suc i')
    with Cons j show ?thesis by (auto simp: Let_def)
  qed
qed simp

type_synonym layer_units = "string \<times> string \<times> int \<times> int"

text \<open>The consumption rows the specification gives: one per layer with a positive take.\<close>

definition fifo_rows :: "cost_layer list \<Rightarrow> int list \<Rightarrow> int list \<Rightarrow> int list \<Rightarrow> layer_consumption list" where
  "fifo_rows layers as cs ts = map (\<lambda>(l, a, c, t). \<lparr>lc_layerId = cl_id l, lc_quantity = fromUnits t,
      lc_unitCost = cl_unitCost l, lc_cost = fromUnits (stored_value a c - stored_value (a - t) c)\<rparr>)
    (filter (\<lambda>(l, a, c, t). 0 < t) (zip layers (zip as (zip cs ts))))"

definition fifo_cost :: "int list \<Rightarrow> int list \<Rightarrow> int list \<Rightarrow> int" where
  "fifo_cost as cs ts = sum_list (map (\<lambda>(a, c, t). stored_value a c - stored_value (a - t) c) (zip as (zip cs ts)))"

lemma fifo_rows_zeros: "fifo_rows layers as cs (map (\<lambda>_. 0) bs) = []"
proof -
  have "filter (\<lambda>(l, a, c, t). 0 < t) (zip layers (zip as (zip cs (map (\<lambda>_. 0 :: int) bs)))) = []"
    by (auto simp: filter_empty_conv dest!: set_zip_rightD)
  then show ?thesis unfolding fifo_rows_def by simp
qed

lemma fifo_cost_zeros: "fifo_cost as cs (map (\<lambda>_. 0) bs) = 0"
  unfolding fifo_cost_def
proof (induction as arbitrary: cs bs)
  case (Cons a as)
  then show ?case by (cases cs; cases bs) auto
qed simp

lemma fifo_loop_refines:
  assumes "traverse (\<lambda>l. toUnits (cl_remaining l)) layers = Inr as"
    "traverse (\<lambda>l. toUnits (cl_unitCost l)) layers = Inr cs"
  shows "fifo_loop layers need = Inr (fifo_rows layers as cs (fifo_takes need as),
    fifo_cost as cs (fifo_takes need as), need - sum_list (fifo_takes need as))"
  using assms
proof (induction layers arbitrary: as cs need)
  case Nil
  then show ?case by (simp add: fifo_rows_def fifo_cost_def)
next
  case (Cons l ls)
  from Cons.prems obtain a as' c cs' where u: "toUnits (cl_remaining l) = Inr a" "toUnits (cl_unitCost l) = Inr c"
    and as: "as = a # as'" "traverse (\<lambda>l. toUnits (cl_remaining l)) ls = Inr as'"
    and cs: "cs = c # cs'" "traverse (\<lambda>l. toUnits (cl_unitCost l)) ls = Inr cs'"
    by (auto simp: bindE_Inr_iff)
  note IH = Cons.IH [OF as(2) cs(2)]
  consider "need \<le> 0" | "0 < need" "a \<le> 0" | "0 < need" "0 < a" by linarith
  then show ?case
  proof cases
    case 1
    then have t: "fifo_takes need as = map (\<lambda>_. 0) as" by (rule fifo_takes_nonpos)
    have "sum_list (map (\<lambda>_. 0 :: int) as) = 0" by (induction as) auto
    with 1 show ?thesis unfolding t fifo_rows_zeros fifo_cost_zeros by simp
  next
    case 2
    then show ?thesis using u IH as(1) cs(1)
      by (simp add: Let_def fifo_rows_def fifo_cost_def)
  next
    case 3
    let ?t = "min a need"
    have t: "(if a < need then a else need) = ?t" "min (max 0 a) (max 0 need) = ?t" and pos: "0 < ?t" "0 \<le> a - ?t"
      using 3 by auto
    have v: "mulUnits a c - mulUnits (a - ?t) c = stored_value a c - stored_value (a - ?t) c"
      using 3 pos by (simp add: stored_value_def)
    have n: "\<not> need \<le> 0" "\<not> a \<le> 0" using 3 by simp_all
    show ?thesis using pos(1)
      unfolding as(1) cs(1) fifo_loop.simps fifo_takes.simps u bindE.simps if_not_P [OF n(1)] if_not_P [OF n(2)]
        t Let_def v IH [of "need - ?t"]
      by (simp add: fifo_rows_def fifo_cost_def)
  qed
qed

section \<open>The moving-average pool\<close>

text \<open>A pool state read as units, and a run of issues.\<close>

definition pool_units :: "moving_average_state \<Rightarrow> (int \<times> int) result" where
  "pool_units s = bindE (toUnits (ma_quantity s)) (\<lambda>q. bindE (toUnits (ma_value s)) (\<lambda>v. Inr (q, v)))"

lemma pool_units_Inr: "pool_units s = Inr (q, v) \<longleftrightarrow> toUnits (ma_quantity s) = Inr q \<and> toUnits (ma_value s) = Inr v"
  by (auto simp: pool_units_def bindE_Inr_iff)

text \<open>The cost of an issue, in units.\<close>

definition issue_cost :: "int \<Rightarrow> int \<Rightarrow> int \<Rightarrow> int" where
  "issue_cost q v i = (if q = i then v else if q \<le> 0 then 0 else round_quot (v * i) q)"

lemma issueMovingAverage_units:
  assumes "pool_units s = Inr (q, v)" "toUnits x = Inr i"
  shows "issueMovingAverage s x = Inr \<lparr>mi_cost = fromUnits (issue_cost q v i),
    mi_state = \<lparr>ma_quantity = fromUnits (q - i), ma_value = fromUnits (v - issue_cost q v i)\<rparr>,
    mi_unitCost = fromUnits (if q \<noteq> 0 then divUnits v q else 0)\<rparr>"
  using assms by (auto simp: pool_units_Inr issueMovingAverage_def issue_cost_def roundDiv_pos Let_def)

lemma issue_cost_bounds:
  assumes "0 \<le> v" "0 < i" "i \<le> q"
  shows "0 \<le> issue_cost q v i" "issue_cost q v i \<le> v"
proof -
  have nn: "0 \<le> v * i" and le: "v * i \<le> v * q" using assms by (simp_all add: mult_left_mono)
  have q: "0 < q" using assms by simp
  show "0 \<le> issue_cost q v i" using assms round_quot_nonneg [OF nn q] by (simp add: issue_cost_def)
  have "round_quot (v * i) q \<le> round_quot (v * q) q" by (rule round_quot_mono [OF le q])
  then show "issue_cost q v i \<le> v" using q assms by (simp add: issue_cost_def)
qed

text \<open>Issuing a list of quantities one after the other: the costs and the final state.\<close>

fun issue_all :: "moving_average_state \<Rightarrow> string list \<Rightarrow> (string list \<times> moving_average_state) result" where
  "issue_all s [] = Inr ([], s)"
| "issue_all s (x # xs) = bindE (issueMovingAverage s x) (\<lambda>r.
     bindE (issue_all (mi_state r) xs) (\<lambda>(costs, t). Inr (mi_cost r # costs, t)))"

lemma issue_all_conserves:
  assumes "pool_units s = Inr (q, v)" "0 \<le> v" "traverse toUnits xs = Inr is" "\<forall>i \<in> set is. 0 < i" "sum_list is \<le> q"
  shows "\<exists>costs cs t. issue_all s xs = Inr (costs, t) \<and> traverse toUnits costs = Inr cs \<and> (\<forall>c \<in> set cs. 0 \<le> c)
    \<and> pool_units t = Inr (q - sum_list is, v - sum_list cs) \<and> 0 \<le> v - sum_list cs
    \<and> (xs \<noteq> [] \<and> sum_list is = q \<longrightarrow> sum_list cs = v)"
  using assms
proof (induction xs arbitrary: s q v "is")
  case Nil
  then show ?case by simp
next
  case (Cons x xs)
  from Cons.prems(3) obtain i is' where i: "toUnits x = Inr i" "traverse toUnits xs = Inr is'" "is = i # is'"
    by (auto simp: bindE_Inr_iff)
  have nn: "0 \<le> sum_list is'" using Cons.prems(4) i(3) sum_list_nonneg_int [of is' id] by fastforce
  have ip: "0 < i" "i \<le> q" using Cons.prems(4,5) i(3) nn by simp_all
  define c where "c = issue_cost q v i"
  let ?s = "\<lparr>ma_quantity = fromUnits (q - i), ma_value = fromUnits (v - c)\<rparr>"
  have c: "0 \<le> c" "0 \<le> v - c" using issue_cost_bounds [OF Cons.prems(2) ip] by (simp_all add: c_def)
  have p: "pool_units ?s = Inr (q - i, v - c)" by (simp add: pool_units_Inr)
  obtain costs cs t where IH: "issue_all ?s xs = Inr (costs, t)" "traverse toUnits costs = Inr cs" "\<forall>c \<in> set cs. 0 \<le> c"
    "pool_units t = Inr (q - i - sum_list is', v - c - sum_list cs)" "0 \<le> v - c - sum_list cs"
    "xs \<noteq> [] \<and> sum_list is' = q - i \<longrightarrow> sum_list cs = v - c"
    using Cons.IH [OF p c(2) i(2)] Cons.prems(4,5) i(3) by auto
  have drain: "c + sum_list cs = v" if "sum_list is = q"
  proof (cases "xs = []")
    case True
    then have "i = q" "cs = []" using that i IH by auto
    then show ?thesis by (simp add: c_def issue_cost_def)
  next
    case False
    then show ?thesis using IH(6) that i(3) by simp
  qed
  show ?case
    by (intro exI [of _ "fromUnits c # costs"] exI [of _ "c # cs"] exI [of _ t])
      (use IH c drain i in \<open>auto simp: issueMovingAverage_units [OF Cons.prems(1) i(1)] c_def [symmetric] algebra_simps\<close>)
qed

section \<open>Exact conversion\<close>

lemma canonical_scaled:
  assumes "canonicalDecimal v (int m) = Some t"
  shows "\<exists>p. toScaled t = Some p \<and> exact_value p * 10 ^ m \<in> \<int>"
proof -
  have "canonicalPlainDecimal t (int m) = Some t"
    using canonicalPlainDecimal_idem assms unfolding canonicalDecimal_def .
  then obtain p where p: "parseExactDecimalParts t False = Some p" "ed_scale p \<le> m"
    by (rule canonicalPlainDecimal_Some) simp
  then have "(10 :: rat) ^ m = 10 ^ ed_scale p * 10 ^ (m - ed_scale p)" by (simp flip: power_add)
  then have "exact_value p * 10 ^ m = of_int (ed_units p * 10 ^ (m - ed_scale p))"
    by (simp add: exact_value_def)
  then have "exact_value p * 10 ^ m \<in> \<int>" by (simp only: Ints_of_int)
  moreover have "toScaled t = Some p" using p(1) parse_plain_iff by (simp add: toScaled_def)
  ultimately show ?thesis by blast
qed

lemma conversion_factor_scaled:
  assumes "inventoryConversionFactor unit conversions baseUnit = Inr f"
  shows "\<exists>r. toScaled f = Some r \<and> exact_value r * 10 ^ 4 \<in> \<int>"
proof -
  have "f = ''1'' \<or> (\<exists>t. canonicalDecimal t 4 = Some f)"
    using assms unfolding inventoryConversionFactor_def Let_def
    by (auto split: if_splits option.splits js_number.splits)
  moreover have "canonicalDecimal ''1'' 4 = Some ''1''" by code_simp
  ultimately obtain t where "canonicalDecimal t (int 4) = Some f" by auto
  then show ?thesis by (rule canonical_scaled)
qed

section \<open>Properties\<close>

text \<open>
  A carried inventory value is always represented exactly.  For a positive quantity and a
  non-negative value \<open>exactCostFragments\<close> succeeds (its second refusal is unreachable), returns at
  most two fragments with positive quantities that sum to the quantity, and the extensions of the
  fragments at ledger precision sum to exactly the value.
\<close>

theorem exactCostFragments_exact:
  assumes "toUnits quantity = Inr q" "toUnits value = Inr v" "0 < q" "0 \<le> v"
    and "\<forall>c. sourceUnitCost = Some c \<longrightarrow> (\<exists>cu. toUnits c = Inr cu \<and> 0 \<le> cu)"
  shows "\<exists>frs us. exactCostFragments quantity value sourceUnitCost = Inr frs
    \<and> traverse fragment_units frs = Inr us \<and> length us \<le> 2 \<and> (\<forall>(fq, fc) \<in> set us. 0 < fq \<and> 0 \<le> fc)
    \<and> sum_list (map fst us) = q \<and> sum_list (map (\<lambda>(fq, fc). mulUnits fq fc) us) = v"
proof (cases "\<exists>c cu. sourceUnitCost = Some c \<and> toUnits c = Inr cu \<and> mulUnits q cu = v")
  case True
  then obtain c cu where c: "sourceUnitCost = Some c" "toUnits c = Inr cu" "mulUnits q cu = v" by blast
  then have "exactCostFragments quantity value sourceUnitCost = Inr [\<lparr>cf_quantity = fromUnits q, cf_unitCost = c\<rparr>]"
    using assms(1-4) by (simp add: exactCostFragments_def extendCost_def)
  moreover have "0 \<le> cu" using assms(5) c(1,2) by auto
  ultimately show ?thesis using c assms(3) by (auto simp: fragment_units_def)
next
  case False
  then have "exactCostFragments quantity value sourceUnitCost = split_fragments q v"
    using assms by (cases sourceUnitCost) (auto simp: exactCostFragments_def extendCost_def)
  then show ?thesis using split_fragments_exact [OF assms(3,4)] by simp
qed

theorem exactCostFragments_exact_witness:
  "\<exists>frs us. exactCostFragments ''3'' ''10.0001'' None = Inr frs
    \<and> traverse fragment_units frs = Inr us \<and> length us \<le> 2 \<and> (\<forall>(fq, fc) \<in> set us. 0 < fq \<and> 0 \<le> fc)
    \<and> sum_list (map fst us) = 30000 \<and> sum_list (map (\<lambda>(fq, fc). mulUnits fq fc) us) = 100001"
proof -
  have "toUnits ''3'' = Inr 30000" "toUnits ''10.0001'' = Inr 100001" by code_simp+
  from exactCostFragments_exact [OF this, of None] show ?thesis by simp
qed

text \<open>
  C22: \<open>consumeFifo\<close> refines the FIFO specification.  Whatever the layers hold, an issue of a
  positive quantity succeeds; it consumes from the layers in order, touching one only after every
  older one is exhausted; consumed quantities and shortfall add up to the quantity issued; and the
  cost is exactly the drop in the stored value of the layers plus the shortfall at the fallback
  cost, so no money unit is created or lost on a fractional withdrawal.
\<close>

theorem consumeFifo_refines_specification:
  assumes "traverse (\<lambda>l. toUnits (cl_remaining l)) layers = Inr as"
    and "traverse (\<lambda>l. toUnits (cl_unitCost l)) layers = Inr cs"
    and "toUnits quantity = Inr need" "0 < need" "toUnits fallback = Inr fu"
  defines "ts \<equiv> fifo_takes need as"
  shows "\<exists>res s. consumeFifo layers quantity fallback = Inr res
    \<and> fr_consumptions res = fifo_rows layers as cs ts
    \<and> toUnits (fr_shortfallQuantity res) = Inr s \<and> 0 \<le> s \<and> sum_list ts + s = need
    \<and> s = max 0 (need - sum_list (map (max 0) as))
    \<and> toUnits (fr_totalCost res) = Inr (fifo_cost as cs ts + mulUnits s fu)
    \<and> (\<forall>j < length as. \<forall>i < j. 0 < ts ! j \<longrightarrow> ts ! i = max 0 (as ! i))"
proof -
  have sum: "sum_list ts = min need (sum_list (map (max 0) as))"
    unfolding ts_def using sum_fifo_takes [of need as] assms(4) by simp
  define s where "s = need - sum_list ts"
  have s: "0 \<le> s" "s = max 0 (need - sum_list (map (max 0) as))" using sum by (auto simp: s_def)
  have loop: "fifo_loop layers need = Inr (fifo_rows layers as cs ts, fifo_cost as cs ts, s)"
    unfolding s_def ts_def by (rule fifo_loop_refines [OF assms(1,2)])
  have ord: "\<forall>j < length as. \<forall>i < j. 0 < ts ! j \<longrightarrow> ts ! i = max 0 (as ! i)"
    unfolding ts_def using fifo_takes_oldest_first by blast
  show ?thesis
  proof (cases "0 < s")
    case True
    then show ?thesis
      using assms(3-5) loop s ord s_def by (intro exI [of _ s] exI) (auto simp: consumeFifo_def Let_def)
  next
    case False
    then have "s = 0" using s(1) by simp
    then show ?thesis
      using assms(3-5) loop s ord s_def by (intro exI [of _ s] exI) (auto simp: consumeFifo_def Let_def)
  qed
qed

theorem consumeFifo_refines_specification_witness:
  "\<exists>res. consumeFifo [\<lparr>cl_id = ''a'', cl_remaining = ''1'', cl_unitCost = ''100''\<rparr>,
      \<lparr>cl_id = ''b'', cl_remaining = ''1'', cl_unitCost = ''1''\<rparr>] ''1'' ''0'' = Inr res
    \<and> toUnits (fr_totalCost res) = Inr (fifo_cost [10000, 10000] [1000000, 10000] [10000, 0])"
proof -
  let ?ls = "[\<lparr>cl_id = ''a'', cl_remaining = ''1'', cl_unitCost = ''100''\<rparr>,
      \<lparr>cl_id = ''b'', cl_remaining = ''1'', cl_unitCost = ''1''\<rparr>]"
  have a: "traverse (\<lambda>l. toUnits (cl_remaining l)) ?ls = Inr [10000, 10000]"
    "traverse (\<lambda>l. toUnits (cl_unitCost l)) ?ls = Inr [1000000, 10000]" by simp_all
  have q: "toUnits ''1'' = Inr 10000" "0 < (10000 :: int)" "toUnits ''0'' = Inr 0" by simp_all
  have t: "fifo_takes 10000 [10000, 10000] = [10000, 0]" by (simp add: Let_def)
  from consumeFifo_refines_specification [OF a q] show ?thesis unfolding t by auto
qed

text \<open>
  C23: a moving-average pool never loses or invents value.  Any run of positive issues within the
  quantity on hand succeeds; no issue has a negative cost; the pool's value falls by exactly the
  costs and never below zero; and a run that issues the whole quantity, in however many parts,
  costs exactly the pool's value.
\<close>

theorem issueMovingAverage_drains_exactly:
  assumes "pool_units s = Inr (q, v)" "0 \<le> v" "traverse toUnits xs = Inr is" "\<forall>i \<in> set is. 0 < i" "sum_list is \<le> q"
  shows "\<exists>costs cs t. issue_all s xs = Inr (costs, t) \<and> traverse toUnits costs = Inr cs \<and> (\<forall>c \<in> set cs. 0 \<le> c)
    \<and> pool_units t = Inr (q - sum_list is, v - sum_list cs) \<and> 0 \<le> v - sum_list cs
    \<and> (xs \<noteq> [] \<and> sum_list is = q \<longrightarrow> sum_list cs = v)"
  by (rule issue_all_conserves [OF assms])

theorem issueMovingAverage_drains_exactly_witness:
  "\<exists>costs cs t. issue_all \<lparr>ma_quantity = ''3.0000'', ma_value = ''100''\<rparr> [''1'', ''1'', ''1''] = Inr (costs, t)
    \<and> traverse toUnits costs = Inr cs \<and> sum_list cs = 1000000 \<and> pool_units t = Inr (0, 0)"
proof -
  have q: "toUnits ''3.0000'' = Inr 30000" by code_simp
  then have p: "pool_units \<lparr>ma_quantity = ''3.0000'', ma_value = ''100''\<rparr> = Inr (30000, 1000000)"
    by (simp add: pool_units_Inr)
  have x: "traverse toUnits [''1'', ''1'', ''1''] = Inr [10000, 10000, 10000]" by simp
  from issueMovingAverage_drains_exactly [OF p _ x] show ?thesis by fastforce
qed

text \<open>
  A receipt at standard cost splits the actual receipt total without remainder: inventory value
  plus purchase price variance is the actual extension, and issuing the same quantity at standard
  takes out exactly the value the receipt put in.
\<close>

theorem receiveStandard_splits_actual:
  assumes "toUnits quantity = Inr q" "toUnits actual = Inr a" "toUnits standard = Inr std"
  shows "\<exists>r value variance. receiveStandard quantity actual standard = Inr r
    \<and> toUnits (sr_inventoryValue r) = Inr value \<and> toUnits (sr_variance r) = Inr variance
    \<and> value + variance = half_away (of_int q * of_int a / 10000)
    \<and> issueStandard quantity standard = Inr (sr_inventoryValue r)"
  using assms by (simp add: receiveStandard_def issueStandard_def Let_def mulUnits_half_away)

theorem receiveStandard_splits_actual_witness:
  "\<exists>r value variance. receiveStandard ''1'' ''100'' ''1'' = Inr r
    \<and> toUnits (sr_inventoryValue r) = Inr value \<and> toUnits (sr_variance r) = Inr variance
    \<and> value + variance = half_away (of_int 10000 * of_int 1000000 / 10000)
    \<and> issueStandard ''1'' ''1'' = Inr (sr_inventoryValue r)"
  by (rule receiveStandard_splits_actual) simp_all

text \<open>
  A directed stock quantity is converted exactly or refused.  When \<open>toExactStockQuantity\<close>
  returns, the stored text denotes the product of the document quantity and the conversion factor,
  with no rounding at the intermediate twelve places nor at the stored four.
\<close>

theorem toExactStockQuantity_exact:
  assumes "toExactStockQuantity quantity unit conversions baseUnit = Inr t"
  shows "\<exists>factor x y. inventoryConversionFactor unit conversions baseUnit = Inr factor
    \<and> decimal_value quantity = Some x \<and> decimal_value factor = Some y \<and> decimal_value t = Some (x * y)"
proof -
  from assms obtain exact where ex: "toExactBaseQuantity quantity unit conversions baseUnit = Inr exact"
    and nd: "normalizeDecimal exact 4 = Inr t"
    by (auto simp: toExactStockQuantity_def result_simps)
  from ex obtain c f where c: "canonicalDecimal quantity 8 = Some c"
    and f: "inventoryConversionFactor unit conversions baseUnit = Inr f" and m: "multiplyDecimal c f 12 = Inr exact"
    by (auto simp: toExactBaseQuantity_def result_simps split: option.splits)
  obtain p where p: "toScaled c = Some p" "exact_value p * 10 ^ 8 \<in> \<int>" using canonical_scaled [of quantity 8 c] c by auto
  obtain r where r: "toScaled f = Some r" "exact_value r * 10 ^ 4 \<in> \<int>"
    using conversion_factor_scaled [OF f] by blast
  have "exact_value p * exact_value r * 10 ^ 12 = exact_value p * 10 ^ 8 * (exact_value r * 10 ^ 4)" by simp
  also have "\<dots> \<in> \<int>" using p(2) r(2) by (rule Ints_mult)
  finally obtain k where k: "exact_value p * exact_value r * 10 ^ 12 = of_int k" by (auto elim: Ints_cases)
  obtain e where e: "multiplyDecimal c f 12 = Inr e"
    "decimal_value e = Some (of_int (half_away (exact_value p * exact_value r * 10 ^ nat 12)) / 10 ^ nat 12)"
    using multiplyDecimal_value [OF p(1) r(1), of 12] by auto
  have "decimal_value e = Some (of_int k / 10 ^ 12)" using e(2) k by simp
  also have "\<dots> = Some (exact_value p * exact_value r)" by (simp flip: k)
  finally have "decimal_value exact = Some (exact_value p * exact_value r)" using e(1) m by simp
  then have "decimal_value t = Some (exact_value p * exact_value r)" using normalizeDecimal_value [OF nd] by simp
  moreover have "decimal_value quantity = Some (exact_value p)"
    using canonicalPlainDecimal_value [OF c [unfolded canonicalDecimal_def]] parseExactDecimalParts_iff(2) p(1)
    by (simp add: toScaled_def)
  moreover have "decimal_value f = Some (exact_value r)"
    using parseExactDecimalParts_iff(2) r(1) by (simp add: toScaled_def)
  ultimately show ?thesis using f by blast
qed

theorem toExactStockQuantity_exact_witness:
  "\<exists>factor x y. inventoryConversionFactor (Some '' Box'') [(''box'', Finite ''12'')] ''ea'' = Inr factor
    \<and> decimal_value ''2.5'' = Some x \<and> decimal_value factor = Some y \<and> decimal_value ''30.0000'' = Some (x * y)"
proof -
  have "toExactStockQuantity ''2.5'' (Some '' Box'') [(''box'', Finite ''12'')] ''ea'' = Inr ''30.0000''" by code_simp
  then show ?thesis by (rule toExactStockQuantity_exact)
qed

end
