(* ===== verification/Netting.thy ===== *)
theory Netting
  imports Money "HOL-Library.List_Lexorder" "HOL-Library.Char_ord"
begin

text \<open>
  \<open>engine/src/intercompany/netting-math.ts\<close>: netting and cash settlement between two entities of
  a group.  Each entity first offsets what it is owed against what it owes, oldest first, in its own
  books; the remaining net amount may move as cash; every cleared amount releases its carrying
  amount and books the exchange difference.  JavaScript's \<open>Map\<close> is a partial function; strings are
  compared by code unit, which is the lexicographic order of the library.
\<close>

section \<open>Data\<close>

datatype netting_component_kind = Open_item | Due_position

record netting_component =
  nc_key :: string
  nc_pairId :: string
  nc_subsidiaryId :: string
  nc_counterpartySubsidiaryId :: string
  nc_currency :: string
  nc_functionalCurrency :: string
  nc_component :: netting_component_kind
  nc_accountId :: string
  nc_journalLineId :: "string option"
  nc_documentId :: "string option"
  nc_partyId :: "string option"
  nc_openTransaction :: string
  nc_openCarrying :: string
  nc_sortKey :: string

record netting_allocation =
  na_component :: netting_component
  na_netted :: string
  na_cash :: string
  na_rate :: string
  na_carryingCleared :: string
  na_spotCleared :: string
  na_realizedFx :: string

record netting_pair_result =
  np_pairId :: string
  np_currency :: string
  np_fromSubsidiaryId :: string
  np_toSubsidiaryId :: string
  np_fromNet :: string
  np_toNet :: string
  np_unreconciled :: string
  np_fromNetted :: string
  np_toNetted :: string
  np_cashToFrom :: string
  np_allocations :: "netting_allocation list"

record netting_input =
  ni_pairId :: string
  ni_currency :: string
  ni_fromSubsidiaryId :: string
  ni_toSubsidiaryId :: string
  ni_components :: "netting_component list"
  ni_settleCash :: bool

section \<open>Clearing\<close>

text \<open>The comparator of \<open>ordered\<close>.\<close>

definition component_order :: "netting_component \<Rightarrow> netting_component \<Rightarrow> int" where
  "component_order a b =
     (if nc_component a \<noteq> nc_component b then (if nc_component a = Open_item then - 1 else 1)
      else if nc_sortKey a \<noteq> nc_sortKey b then (if nc_sortKey a < nc_sortKey b then - 1 else 1)
      else if nc_key a < nc_key b then - 1 else if nc_key a > nc_key b then 1 else 0)"

text \<open>
  An item is a component with its open transaction amount in units; the code reads the amount
  again wherever it needs it.
\<close>

type_synonym item = "netting_component \<times> int"
type_synonym amounts = "string \<rightharpoonup> int"

abbreviation item_key :: "item \<Rightarrow> string" where "item_key x \<equiv> nc_key (fst x)"

definition ordered :: "item list \<Rightarrow> item list" where
  "ordered items = js_sort (\<lambda>a b. component_order (fst a) (fst b)) items"

text \<open>\<open>m.get(key) ?? 0n\<close>\<close>

definition amount_at :: "amounts \<Rightarrow> string \<Rightarrow> int" where
  "amount_at m k = (case m k of None \<Rightarrow> 0 | Some u \<Rightarrow> u)"

fun clear_loop :: "string list \<Rightarrow> amounts \<Rightarrow> int \<Rightarrow> (string \<times> int) list \<times> amounts \<times> int" where
  "clear_loop [] remaining left = ([], remaining, left)"
| "clear_loop (key # keys) remaining left =
     (if left = 0 then ([], remaining, left)
      else let open_amount = amount_at remaining key; tk = min \<bar>open_amount\<bar> left in
        if tk = 0 then clear_loop keys remaining left
        else let remaining' = remaining(key \<mapsto> (if open_amount > 0 then open_amount - tk else open_amount + tk));
                 (cleared, remaining'', left') = clear_loop keys remaining' (left - tk)
             in ((key, tk) # cleared, remaining'', left'))"

definition clearInOrder :: "item list \<Rightarrow> amounts \<Rightarrow> int \<Rightarrow> ((string \<times> int) list \<times> amounts) result" where
  "clearInOrder components remaining amount =
     (case clear_loop (map item_key components) remaining amount of (cleared, remaining', left) \<Rightarrow>
        if left \<noteq> 0
        then Inl (NettingMathError ''netting allocation exceeded the open amounts it was computed from'')
        else Inr (cleared, remaining'))"

text \<open>\<open>for (const [key, units] of cleared) m.set(key, sign * units)\<close>\<close>

definition set_all :: "int \<Rightarrow> (string \<times> int) list \<Rightarrow> amounts \<Rightarrow> amounts" where
  "set_all sign cleared m = fold (\<lambda>(key, units) m. m(key \<mapsto> sign * units)) cleared m"

section \<open>Carrying amounts and translation\<close>

definition carryingForSettlement :: "string \<Rightarrow> string \<Rightarrow> string \<Rightarrow> string result" where
  "carryingForSettlement openCarrying openTransaction settled =
     bindE (toUnits openTransaction) (\<lambda>ot. bindE (toUnits settled) (\<lambda>st.
     let openT = \<bar>ot\<bar>; settledT = \<bar>st\<bar> in
     if settledT = 0 then Inr ''0.0000''
     else if settledT > openT then Inl (NettingMathError ''a settlement cannot exceed the open amount'')
     else bindE (toUnits openCarrying) (\<lambda>carrying.
       bindE (if settledT = openT then Inr \<bar>carrying\<bar>
              else bindE (mulRatio (fromUnits \<bar>carrying\<bar>) settledT openT) toUnits) (\<lambda>magnitude.
         Inr (fromUnits (if st < 0 then - magnitude else magnitude))))))"

definition spotTranslation :: "string \<Rightarrow> string \<Rightarrow> string result" where
  "spotTranslation amount rate = bindE (toUnits amount) (\<lambda>units.
     bindE (bindE (mulRate (fromUnits \<bar>units\<bar>) rate) toUnits) (\<lambda>magnitude.
       Inr (fromUnits (if units < 0 then - magnitude else magnitude))))"

section \<open>One pair and currency\<close>

definition check_component ::
  "netting_input \<Rightarrow> amounts \<times> item list \<Rightarrow> netting_component \<Rightarrow> (amounts \<times> item list) result" where
  "check_component inp acc c = (case acc of (remaining, items) \<Rightarrow>
     bindE (ensure (remaining (nc_key c) = None)
       (NettingMathError ''a netting component identity must occur only once'')) (\<lambda>_.
     bindE (ensure (\<not> (nc_pairId c \<noteq> ni_pairId inp \<or> nc_currency c \<noteq> ni_currency inp))
       (NettingMathError ''a netting component does not belong to the pair and currency being allocated'')) (\<lambda>_.
     bindE (ensure (\<not> (nc_subsidiaryId c \<noteq> ni_fromSubsidiaryId inp \<and> nc_subsidiaryId c \<noteq> ni_toSubsidiaryId inp))
       (NettingMathError ''a netting component belongs to neither entity of the pair'')) (\<lambda>_.
     let counterparty = (if nc_subsidiaryId c = ni_fromSubsidiaryId inp then ni_toSubsidiaryId inp
                         else ni_fromSubsidiaryId inp) in
     bindE (ensure (nc_counterpartySubsidiaryId c = counterparty)
       (NettingMathError ''a netting component must identify the other entity of its pair'')) (\<lambda>_.
     bindE (toUnits (nc_openTransaction c)) (\<lambda>opn. bindE (toUnits (nc_openCarrying c)) (\<lambda>carrying.
       if opn \<noteq> 0 \<and> carrying \<noteq> 0 \<and> (opn < 0) \<noteq> (carrying < 0)
       then Inl (NettingMathError ''carries a functional amount of the opposite sign'')
       else Inr (remaining(nc_key c \<mapsto> opn), items @ [(c, opn)]))))))))"

definition side_of :: "item list \<Rightarrow> string \<Rightarrow> item list" where
  "side_of items subsidiaryId =
     ordered (filter (\<lambda>x. nc_subsidiaryId (fst x) = subsidiaryId \<and> snd x \<noteq> 0) items)"

text \<open>Netting inside one entity: the new balances, its net position and what it netted.\<close>

definition net_side ::
  "item list \<Rightarrow> amounts \<times> amounts \<Rightarrow> string \<Rightarrow> (amounts \<times> amounts \<times> int \<times> int) result" where
  "net_side items state subsidiaryId = (case state of (remaining, nettedBy) \<Rightarrow>
     let components = side_of items subsidiaryId;
         owedTo = filter (\<lambda>x. snd x > 0) components; owedBy = filter (\<lambda>x. snd x < 0) components;
         totalOwedTo = sum_list (map snd owedTo); totalOwedBy = sum_list (map (\<lambda>x. \<bar>snd x\<bar>) owedBy);
         nettable = min totalOwedTo totalOwedBy in
     bindE (clearInOrder owedTo remaining nettable) (\<lambda>(to_cleared, remaining1).
     bindE (clearInOrder owedBy remaining1 nettable) (\<lambda>(by_cleared, remaining2).
       Inr (remaining2, set_all (- 1) by_cleared (set_all 1 to_cleared nettedBy),
            totalOwedTo - totalOwedBy, nettable))))"

definition cash_to_from :: "bool \<Rightarrow> int \<Rightarrow> int \<Rightarrow> int" where
  "cash_to_from settleCash fromNet toNet =
     (if \<not> settleCash then 0
      else if fromNet > 0 \<and> toNet < 0 then min fromNet (- toNet)
      else if fromNet < 0 \<and> toNet > 0 then - (min (- fromNet) toNet) else 0)"

definition settle_cash :: "netting_input \<Rightarrow> item list \<Rightarrow> amounts \<Rightarrow> int \<Rightarrow> amounts result" where
  "settle_cash inp items remaining cashToFrom =
     (if cashToFrom = 0 then Inr Map.empty
      else let receiver = (if cashToFrom > 0 then ni_fromSubsidiaryId inp else ni_toSubsidiaryId inp);
               payer = (if cashToFrom > 0 then ni_toSubsidiaryId inp else ni_fromSubsidiaryId inp);
               amount = \<bar>cashToFrom\<bar>;
               receiverOpen = filter (\<lambda>x. amount_at remaining (item_key x) > 0) (side_of items receiver);
               payerOpen = filter (\<lambda>x. amount_at remaining (item_key x) < 0) (side_of items payer) in
        bindE (clearInOrder receiverOpen remaining amount) (\<lambda>(rec_cleared, remaining1).
        bindE (clearInOrder payerOpen remaining1 amount) (\<lambda>(pay_cleared, _).
          Inr (set_all (- 1) pay_cleared (set_all 1 rec_cleared Map.empty)))))"

definition allocation_row ::
  "(string \<Rightarrow> string) \<Rightarrow> amounts \<Rightarrow> amounts \<Rightarrow> item \<Rightarrow> netting_allocation result" where
  "allocation_row rateFor nettedBy cashBy x = (let component = fst x;
       netted = amount_at nettedBy (nc_key component); cash = amount_at cashBy (nc_key component);
       cleared = netted + cash; rate = rateFor (nc_subsidiaryId component);
       clearedText = fromUnits cleared in
     bindE (if cleared = 0 then Inr ''0.0000''
            else carryingForSettlement (nc_openCarrying component) (nc_openTransaction component) clearedText)
       (\<lambda>carryingCleared.
     bindE (spotTranslation clearedText rate) (\<lambda>spotCleared.
     bindE (toUnits spotCleared) (\<lambda>s. bindE (toUnits carryingCleared) (\<lambda>c.
       Inr \<lparr>na_component = component, na_netted = fromUnits netted, na_cash = fromUnits cash,
            na_rate = rate, na_carryingCleared = carryingCleared, na_spotCleared = spotCleared,
            na_realizedFx = fromUnits (s - c)\<rparr>)))))"

definition allocatePairNetting :: "(string \<Rightarrow> string) \<Rightarrow> netting_input \<Rightarrow> netting_pair_result result" where
  "allocatePairNetting rateFor inp =
     (if ni_fromSubsidiaryId inp = ni_toSubsidiaryId inp
      then Inl (NettingMathError ''a netting pair must contain two different entities'')
      else bindE (foldE (check_component inp) (Map.empty, []) (ni_components inp)) (\<lambda>(remaining0, items).
        bindE (net_side items (remaining0, Map.empty) (ni_fromSubsidiaryId inp)) (\<lambda>(remaining1, netted1, fromNet, fromNetted).
        bindE (net_side items (remaining1, netted1) (ni_toSubsidiaryId inp)) (\<lambda>(remaining2, nettedBy, toNet, toNetted).
        let cashToFrom = cash_to_from (ni_settleCash inp) fromNet toNet in
        bindE (settle_cash inp items remaining2 cashToFrom) (\<lambda>cashBy.
        bindE (traverse (allocation_row rateFor nettedBy cashBy) (ordered items)) (\<lambda>allocations.
          Inr \<lparr>np_pairId = ni_pairId inp, np_currency = ni_currency inp,
               np_fromSubsidiaryId = ni_fromSubsidiaryId inp, np_toSubsidiaryId = ni_toSubsidiaryId inp,
               np_fromNet = fromUnits fromNet, np_toNet = fromUnits toNet,
               np_unreconciled = fromUnits (fromNet + toNet),
               np_fromNetted = fromUnits fromNetted, np_toNetted = fromUnits toNetted,
               np_cashToFrom = fromUnits cashToFrom, np_allocations = allocations\<rparr>))))))"

section \<open>Lines that carry an exact functional amount\<close>

definition rateText :: "int \<Rightarrow> string result" where
  "rateText units = (let whole = units sdiv RATE_SCALE in
     if length (bigint_text whole) > 9
     then Inl (NettingMathError ''a carrying-rate translation exceeds the exchange-rate range of the ledger'')
     else Inr (bigint_text whole @ CHR ''.'' # padStart (bigint_text (units smod RATE_SCALE)) 10 CHR ''0''))"

record translated_line =
  tl_txnAmount :: string
  tl_fxRate :: string
  tl_amount :: string

text \<open>The lines for the magnitudes \<open>tAbs\<close> and \<open>fAbs\<close>, once the amounts have passed the checks.\<close>

definition magnitude_lines :: "int \<Rightarrow> int \<Rightarrow> int \<Rightarrow> translated_line list result" where
  "magnitude_lines sign tAbs fAbs =
     bindE (roundDiv (fAbs * RATE_SCALE) tAbs) (\<lambda>single.
     bindE (roundDiv (tAbs * single) RATE_SCALE) (\<lambda>translated.
     if single > 0 \<and> translated = fAbs
     then bindE (rateText single) (\<lambda>r.
       Inr [\<lparr>tl_txnAmount = fromUnits (sign * tAbs), tl_fxRate = r, tl_amount = fromUnits (sign * fAbs)\<rparr>])
     else if tAbs \<le> SCALE
     then Inl (NettingMathError ''a carrying amount cannot be represented at ledger precision'')
     else let bodyTxn = tAbs - SCALE in
       bindE (roundDiv (bodyTxn * single) RATE_SCALE) (\<lambda>bodyAmount.
       let tailAmount = fAbs - bodyAmount in
       if single \<le> 0 \<or> tailAmount \<le> 0
       then Inl (NettingMathError ''a carrying amount cannot be represented at ledger precision'')
       else let tailRate = tailAmount * (RATE_SCALE sdiv SCALE) in
         bindE (rateText single) (\<lambda>r1. bindE (rateText tailRate) (\<lambda>r2.
           Inr [\<lparr>tl_txnAmount = fromUnits (sign * bodyTxn), tl_fxRate = r1, tl_amount = fromUnits (sign * bodyAmount)\<rparr>,
                \<lparr>tl_txnAmount = fromUnits (sign * SCALE), tl_fxRate = r2, tl_amount = fromUnits (sign * tailAmount)\<rparr>])))))"

definition carryingRateLines :: "string \<Rightarrow> string \<Rightarrow> translated_line list result" where
  "carryingRateLines txnAmount functionalAmount =
     bindE (toUnits txnAmount) (\<lambda>t. bindE (toUnits functionalAmount) (\<lambda>f.
     if t = 0 then Inl (NettingMathError ''a translated line needs a non-zero transaction amount'')
     else if f = 0 \<or> (t < 0) \<noteq> (f < 0)
     then Inl (NettingMathError ''a carrying amount must be non-zero and share the sign of its transaction amount'')
     else magnitude_lines (if t < 0 then - 1 else 1) \<bar>t\<bar> \<bar>f\<bar>))"

section \<open>Facts about clearing\<close>

lemma amount_at_empty [simp]: "amount_at Map.empty k = 0"
  and amount_at_upd [simp]: "amount_at (m(k \<mapsto> u)) l = (if l = k then u else amount_at m l)"
  by (simp_all add: amount_at_def)

definition taken :: "(string \<times> int) list \<Rightarrow> string \<Rightarrow> int" where
  "taken cleared k = amount_at (map_of cleared) k"

lemma taken_simps [simp]: "taken [] k = 0" "taken ((l, u) # cl) k = (if k = l then u else taken cl k)"
  by (simp_all add: taken_def)

lemma taken_outside: "k \<notin> fst ` set cl \<Longrightarrow> taken cl k = 0"
  by (simp add: taken_def amount_at_def map_of_eq_None_iff [THEN iffD2])

text \<open>
  What clearing does: it takes from each key in turn, at most its balance, and reduces the balance
  towards zero by what it took; what is left over is what the balances cannot cover.
\<close>

lemma clear_loop_spec:
  assumes "clear_loop ks m left = (cl, m', left')" "distinct ks" "0 \<le> left"
  shows "fst ` set cl \<subseteq> set ks \<and> distinct (map fst cl)
    \<and> (\<forall>k. 0 \<le> taken cl k \<and> taken cl k \<le> \<bar>amount_at m k\<bar>)
    \<and> (\<forall>k. amount_at m' k = amount_at m k - sgn (amount_at m k) * taken cl k)
    \<and> sum_list (map (taken cl) ks) + left' = left
    \<and> left' = max 0 (left - sum_list (map (\<lambda>k. \<bar>amount_at m k\<bar>) ks))"
  using assms
proof (induction ks arbitrary: m left cl m' left')
  case Nil
  then show ?case by auto
next
  case (Cons k ks)
  have pos: "0 \<le> sum_list (map (\<lambda>k. \<bar>amount_at m k\<bar>) ks)" by (rule sum_list_nonneg_int) simp
  let ?o = "amount_at m k"
  consider "left = 0" | "left \<noteq> 0" "min \<bar>?o\<bar> left = 0" | "left \<noteq> 0" "min \<bar>?o\<bar> left \<noteq> 0" by blast
  then show ?case
  proof cases
    case 1
    have "sum_list (map (\<lambda>k. 0 :: int) ks) = 0" by (induction ks) auto
    moreover have "taken [] = (\<lambda>k. 0)" by (rule ext) simp
    ultimately show ?thesis using 1 Cons.prems pos by auto
  next
    case 2
    then have o: "?o = 0" using Cons.prems(3) by (auto simp: min_def split: if_splits)
    have r: "clear_loop ks m left = (cl, m', left')" using 2 o Cons.prems(1) by (simp add: Let_def)
    have d: "distinct ks" "k \<notin> set ks" using Cons.prems(2) by simp_all
    have IH: "fst ` set cl \<subseteq> set ks" "distinct (map fst cl)"
      "\<forall>k. 0 \<le> taken cl k \<and> taken cl k \<le> \<bar>amount_at m k\<bar>"
      "\<forall>k. amount_at m' k = amount_at m k - sgn (amount_at m k) * taken cl k"
      "sum_list (map (taken cl) ks) + left' = left"
      "left' = max 0 (left - sum_list (map (\<lambda>k. \<bar>amount_at m k\<bar>) ks))"
      using Cons.IH [OF r d(1) Cons.prems(3)] by blast+
    have "taken cl k = 0" using IH(3) o by (metis abs_0 order_antisym)
    then have "sum_list (map (taken cl) (k # ks)) + left' = left" using IH(5) by simp
    moreover have "left' = max 0 (left - sum_list (map (\<lambda>k. \<bar>amount_at m k\<bar>) (k # ks)))"
      using IH(6) o by simp
    moreover have "fst ` set cl \<subseteq> set (k # ks)" using IH(1) by auto
    ultimately show ?thesis using IH(2,3,4) by blast
  next
    case 3
    let ?t = "min \<bar>?o\<bar> left"
    let ?m = "m(k \<mapsto> (if ?o > 0 then ?o - ?t else ?o + ?t))"
    obtain cl2 m2 left2 where r: "clear_loop ks ?m (left - ?t) = (cl2, m2, left2)"
      by (cases "clear_loop ks ?m (left - ?t)")
    have res: "cl = (k, ?t) # cl2" "m' = m2" "left' = left2"
      using 3 Cons.prems(1) r by (auto simp: Let_def)
    have t: "0 < ?t" using 3 Cons.prems(3) by auto
    have d: "distinct ks" and k: "k \<notin> set ks" using Cons.prems(2) by simp_all
    have l0: "0 \<le> left - ?t" by simp
    have IH: "fst ` set cl2 \<subseteq> set ks" "distinct (map fst cl2)"
      "\<And>l. 0 \<le> taken cl2 l \<and> taken cl2 l \<le> \<bar>amount_at ?m l\<bar>"
      "\<And>l. amount_at m2 l = amount_at ?m l - sgn (amount_at ?m l) * taken cl2 l"
      "sum_list (map (taken cl2) ks) + left2 = left - ?t"
      "left2 = max 0 (left - ?t - sum_list (map (\<lambda>l. \<bar>amount_at ?m l\<bar>) ks))"
      using Cons.IH [OF r d l0] by blast+
    have tk: "taken cl2 k = 0" by (rule taken_outside) (use IH(1) k in blast)
    have mk: "amount_at ?m k = ?o - sgn ?o * ?t" using t by (auto simp: sgn_if)
    have same: "map (\<lambda>l. \<bar>amount_at ?m l\<bar>) ks = map (\<lambda>l. \<bar>amount_at m l\<bar>) ks"
      "map (taken cl) ks = map (taken cl2) ks"
      using k by (auto simp: res(1))
    have "0 \<le> taken cl l \<and> taken cl l \<le> \<bar>amount_at m l\<bar>" for l
      using IH(3) [of l] t by (cases "l = k") (simp_all add: res(1))
    moreover have "amount_at m' l = amount_at m l - sgn (amount_at m l) * taken cl l" for l
      using IH(4) [of l] tk mk by (cases "l = k") (simp_all add: res)
    moreover have "left' = max 0 (left - sum_list (map (\<lambda>k. \<bar>amount_at m k\<bar>) (k # ks)))"
      using IH(6) pos unfolding same res by auto
    moreover have "sum_list (map (taken cl) (k # ks)) + left' = left"
      using IH(5) unfolding list.map same(2) by (simp add: res)
    moreover have "fst ` set cl \<subseteq> set (k # ks)" "distinct (map fst cl)"
      using IH(1,2) k unfolding res(1) by auto
    ultimately show ?thesis by blast
  qed
qed

lemma clearInOrder_total:
  assumes "distinct (map item_key xs)" "0 \<le> amount" "amount \<le> sum_list (map (\<lambda>x. \<bar>amount_at m (item_key x)\<bar>) xs)"
  obtains cl m' where "clearInOrder xs m amount = Inr (cl, m')" "fst ` set cl \<subseteq> item_key ` set xs" "distinct (map fst cl)"
    "\<forall>k. 0 \<le> taken cl k \<and> taken cl k \<le> \<bar>amount_at m k\<bar>"
    "\<forall>k. amount_at m' k = amount_at m k - sgn (amount_at m k) * taken cl k"
    "sum_list (map (\<lambda>x. taken cl (item_key x)) xs) = amount"
proof -
  obtain cl m' left where r: "clear_loop (map item_key xs) m amount = (cl, m', left)"
    by (cases "clear_loop (map item_key xs) m amount")
  note s = clear_loop_spec [OF r assms(1,2)]
  have "left = 0" using s assms(3) by (simp add: o_def)
  with r s show thesis by (intro that [of cl m']) (auto simp: clearInOrder_def o_def)
qed

lemma set_all_amount:
  "distinct (map fst cl) \<Longrightarrow> amount_at (set_all s cl m) k = (if k \<in> fst ` set cl then s * taken cl k else amount_at m k)"
proof (induction cl arbitrary: m)
  case Nil
  then show ?case by (simp add: set_all_def)
next
  case (Cons p cl)
  obtain l u where p: "p = (l, u)" by (cases p)
  have "amount_at (set_all s (p # cl) m) k = amount_at (set_all s cl (m(l \<mapsto> s * u))) k"
    by (simp add: set_all_def p)
  then show ?case using Cons by (auto simp: p)
qed

section \<open>The validated items\<close>

definition item_ok :: "netting_input \<Rightarrow> item \<Rightarrow> bool" where
  "item_ok inp x \<longleftrightarrow> toUnits (nc_openTransaction (fst x)) = Inr (snd x)
     \<and> (\<exists>cu. toUnits (nc_openCarrying (fst x)) = Inr cu)
     \<and> nc_subsidiaryId (fst x) \<in> {ni_fromSubsidiaryId inp, ni_toSubsidiaryId inp}"

definition checked :: "netting_input \<Rightarrow> amounts \<Rightarrow> item list \<Rightarrow> bool" where
  "checked inp m items \<longleftrightarrow> distinct (map item_key items) \<and> dom m = item_key ` set items
     \<and> (\<forall>x \<in> set items. m (item_key x) = Some (snd x) \<and> item_ok inp x)"

lemma check_component_Inr:
  assumes "check_component inp (m, items) c = Inr acc"
  obtains opn where "m (nc_key c) = None" "acc = (m(nc_key c \<mapsto> opn), items @ [(c, opn)])" "item_ok inp (c, opn)"
  using assms unfolding check_component_def item_ok_def Let_def prod.case
  by (elim bindE_InrE) (auto simp: result_simps split: if_splits)

lemma checked_step:
  assumes "checked inp m items" "check_component inp (m, items) c = Inr (m', items')"
  shows "checked inp m' items' \<and> map fst items' = map fst items @ [c]"
proof -
  obtain opn where o: "m (nc_key c) = None" "(m', items') = (m(nc_key c \<mapsto> opn), items @ [(c, opn)])"
    "item_ok inp (c, opn)" by (rule check_component_Inr [OF assms(2)])
  have "nc_key c \<notin> item_key ` set items" using assms(1) o(1) by (auto simp: checked_def domIff)
  then show ?thesis using assms(1) o by (auto simp: checked_def)
qed

lemma checked_fold:
  "foldE (check_component inp) (m, items) cs = Inr (m', items') \<Longrightarrow> checked inp m items
    \<Longrightarrow> checked inp m' items' \<and> map fst items' = map fst items @ cs"
proof (induction cs arbitrary: m items)
  case (Cons c cs)
  then obtain m1 items1 where s: "check_component inp (m, items) c = Inr (m1, items1)"
    "foldE (check_component inp) (m1, items1) cs = Inr (m', items')" by (auto simp: bindE_Inr_iff)
  with checked_step [OF Cons.prems(2) s(1)] Cons.IH [OF s(2)] show ?case by simp
qed simp

lemma key_inj:
  assumes "distinct (map item_key items)" "x \<in> set items" "y \<in> set items" "item_key x = item_key y"
  shows "x = y"
  using assms by (auto simp: distinct_map dest: inj_onD)

section \<open>Netting one side\<close>

lemma sum_by_sign:
  "sum_list (map g xs) = sum_list (map g (filter (\<lambda>x. 0 < f x) xs)) + sum_list (map g (filter (\<lambda>x. f x < 0) xs))
    + (sum_list (map g (filter (\<lambda>x. f x = 0) xs)) :: int)" for f :: "'a \<Rightarrow> int"
  by (induction xs) auto

lemma set_side_of [simp]: "set (side_of items s) = {x \<in> set items. nc_subsidiaryId (fst x) = s \<and> snd x \<noteq> 0}"
  by (auto simp: side_of_def ordered_def)

lemma sum_side_of:
  "sum_list (map g (filter P (side_of items s)))
    = (sum_list (map g (filter P (filter (\<lambda>x. nc_subsidiaryId (fst x) = s \<and> snd x \<noteq> 0) items))) :: int)"
proof -
  have "mset (filter P (side_of items s)) = mset (filter P (filter (\<lambda>x. nc_subsidiaryId (fst x) = s \<and> snd x \<noteq> 0) items))"
    by (simp only: side_of_def ordered_def mset_filter mset_js_sort)
  then show ?thesis unfolding sum_mset_sum_list [symmetric] mset_map by (simp only:)
qed

lemma distinct_side_of:
  assumes "distinct (map item_key items)"
  shows "distinct (map item_key (filter P (side_of items s)))"
proof -
  let ?xs = "filter (\<lambda>x. nc_subsidiaryId (fst x) = s \<and> snd x \<noteq> 0) items"
  have "mset (map item_key (side_of items s)) = mset (map item_key ?xs)" by (simp add: side_of_def ordered_def)
  moreover have "distinct (map item_key ?xs)" using assms by (rule distinct_map_filter)
  ultimately have "distinct (map item_key (side_of items s))" using mset_eq_imp_distinct_iff by blast
  then show ?thesis by (rule distinct_map_filter)
qed

abbreviation side_items :: "item list \<Rightarrow> string \<Rightarrow> item list" where
  "side_items items s \<equiv> filter (\<lambda>x. nc_subsidiaryId (fst x) = s) items"

text \<open>
  Two clearings of the same amount, one over items with a positive and one over items with a
  negative balance: what they record in \<open>nb\<close> is what the balances lose, never more than the balance
  and of its sign, and sums to plus and minus the amount.
\<close>

definition recorded :: "amounts \<Rightarrow> amounts \<Rightarrow> amounts \<Rightarrow> string \<Rightarrow> bool" where
  "recorded m m' d k \<longleftrightarrow> amount_at m' k = amount_at m k - amount_at d k
     \<and> 0 \<le> sgn (amount_at m k) * amount_at d k \<and> \<bar>amount_at d k\<bar> \<le> \<bar>amount_at m k\<bar>"

lemma clear_two:
  assumes dT: "distinct (map item_key T)" and dB: "distinct (map item_key B)"
    and pT: "\<forall>x \<in> set T. 0 < amount_at m (item_key x)" and pB: "\<forall>x \<in> set B. amount_at m (item_key x) < 0"
    and nb: "\<forall>x \<in> set T \<union> set B. amount_at nb (item_key x) = 0"
    and a: "0 \<le> a" "a \<le> sum_list (map (\<lambda>x. amount_at m (item_key x)) T)"
      "a \<le> sum_list (map (\<lambda>x. - amount_at m (item_key x)) B)"
  obtains clT m1 clB m2 d where "clearInOrder T m a = Inr (clT, m1)" "clearInOrder B m1 a = Inr (clB, m2)"
    "d = set_all (- 1) clB (set_all 1 clT nb)"
    "\<forall>k. k \<notin> item_key ` (set T \<union> set B) \<longrightarrow> amount_at m2 k = amount_at m k \<and> amount_at d k = amount_at nb k"
    "\<forall>x \<in> set T \<union> set B. recorded m m2 d (item_key x)"
    "sum_list (map (\<lambda>x. amount_at d (item_key x)) T) = a" "sum_list (map (\<lambda>x. amount_at d (item_key x)) B) = - a"
proof -
  have aT: "map (\<lambda>x. \<bar>amount_at m (item_key x)\<bar>) T = map (\<lambda>x. amount_at m (item_key x)) T" using pT by auto
  obtain clT m1 where cT: "clearInOrder T m a = Inr (clT, m1)" "fst ` set clT \<subseteq> item_key ` set T" "distinct (map fst clT)"
    "\<forall>k. 0 \<le> taken clT k \<and> taken clT k \<le> \<bar>amount_at m k\<bar>"
    "\<forall>k. amount_at m1 k = amount_at m k - sgn (amount_at m k) * taken clT k"
    "sum_list (map (\<lambda>x. taken clT (item_key x)) T) = a"
    by (rule clearInOrder_total [OF dT a(1) a(2) [folded aT]])
  have TB: "k \<in> item_key ` set T \<Longrightarrow> k \<notin> item_key ` set B" for k using pT pB by fastforce
  have offT: "taken clT k = 0" if "k \<notin> item_key ` set T" for k using cT(2) that by (intro taken_outside) blast
  have m1B: "amount_at m1 k = amount_at m k" if "k \<in> item_key ` set B" for k
    using spec [OF cT(5), of k] offT [of k] TB [of k] that by auto
  have aB: "map (\<lambda>x. \<bar>amount_at m1 (item_key x)\<bar>) B = map (\<lambda>x. - amount_at m (item_key x)) B" using m1B pB by auto
  obtain clB m2 where cB: "clearInOrder B m1 a = Inr (clB, m2)" "fst ` set clB \<subseteq> item_key ` set B" "distinct (map fst clB)"
    "\<forall>k. 0 \<le> taken clB k \<and> taken clB k \<le> \<bar>amount_at m1 k\<bar>"
    "\<forall>k. amount_at m2 k = amount_at m1 k - sgn (amount_at m1 k) * taken clB k"
    "sum_list (map (\<lambda>x. taken clB (item_key x)) B) = a"
    by (rule clearInOrder_total [OF dB a(1) a(3) [folded aB]])
  have offB: "taken clB k = 0" if "k \<notin> item_key ` set B" for k using cB(2) that by (intro taken_outside) blast
  define d where "d = set_all (- 1) clB (set_all 1 clT nb)"
  have d: "amount_at d k = (if k \<in> fst ` set clB then - taken clB k
      else if k \<in> fst ` set clT then taken clT k else amount_at nb k)" for k
    unfolding d_def set_all_amount [OF cB(3)] set_all_amount [OF cT(3)] by simp
  have dT': "amount_at d k = taken clT k" if "k \<in> item_key ` set T" for k
  proof -
    have "k \<notin> fst ` set clB" "amount_at nb k = 0" using TB [OF that] cB(2) nb that by blast+
    then show ?thesis using d [of k] taken_outside [of k clT] by simp
  qed
  have dB': "amount_at d k = - taken clB k" if "k \<in> item_key ` set B" for k
  proof -
    have "k \<notin> fst ` set clT" "amount_at nb k = 0" using TB [of k] cT(2) nb that by blast+
    then show ?thesis using d [of k] taken_outside [of k clB] by simp
  qed
  have recT: "recorded m m2 d (item_key x)" if "x \<in> set T" for x
  proof -
    let ?k = "item_key x"
    have k: "?k \<in> item_key ` set T" using that by simp
    have "taken clB ?k = 0" by (rule offB [OF TB [OF k]])
    then show ?thesis using spec [OF cT(4), of ?k] spec [OF cT(5), of ?k] spec [OF cB(5), of ?k] dT' [OF k] bspec [OF pT that]
      by (simp add: recorded_def)
  qed
  have recB: "recorded m m2 d (item_key x)" if "x \<in> set B" for x
  proof -
    let ?k = "item_key x"
    have k: "?k \<in> item_key ` set B" using that by simp
    show ?thesis using spec [OF cB(4), of ?k] spec [OF cB(5), of ?k] m1B [OF k] dB' [OF k] bspec [OF pB that]
      by (simp add: recorded_def)
  qed
  have frame: "amount_at m2 k = amount_at m k \<and> amount_at d k = amount_at nb k"
    if "k \<notin> item_key ` (set T \<union> set B)" for k
  proof -
    have k: "k \<notin> item_key ` set T" "k \<notin> item_key ` set B" using that by auto
    then have "k \<notin> fst ` set clT" "k \<notin> fst ` set clB" using cT(2) cB(2) by blast+
    then show ?thesis using offT [OF k(1)] offB [OF k(2)] spec [OF cT(5), of k] spec [OF cB(5), of k] d [of k] by simp
  qed
  have mT: "map (\<lambda>x. amount_at d (item_key x)) T = map (\<lambda>x. taken clT (item_key x)) T"
    and mB: "map (\<lambda>x. amount_at d (item_key x)) B = map (\<lambda>x. - taken clB (item_key x)) B" using dT' dB' by simp_all
  have "sum_list (map (\<lambda>x. amount_at d (item_key x)) T) = a" "sum_list (map (\<lambda>x. amount_at d (item_key x)) B) = - a"
    unfolding mT mB sum_list_map_uminus cT(6) cB(6) by simp_all
  moreover have "\<forall>x \<in> set T \<union> set B. recorded m m2 d (item_key x)" using recT recB by blast
  ultimately show thesis using that [OF cT(1) cB(1) d_def] frame by blast
qed

text \<open>Netting one entity: always possible, and it clears as much of what it is owed as of what it owes.\<close>

definition net_items :: "item list \<Rightarrow> (int \<Rightarrow> bool) \<Rightarrow> string \<Rightarrow> item list" where
  "net_items items P s = filter (\<lambda>x. P (snd x)) (side_of items s)"

lemma net_items_simps:
  assumes "\<not> P 0"
  shows "set (net_items items P s) = {x \<in> set items. nc_subsidiaryId (fst x) = s \<and> P (snd x)}"
    "sum_list (map g (net_items items P s)) = (sum_list (map g (filter (\<lambda>x. P (snd x)) (side_items items s))) :: int)"
proof -
  show "set (net_items items P s) = {x \<in> set items. nc_subsidiaryId (fst x) = s \<and> P (snd x)}"
    using assms by (auto simp: net_items_def)
  have "filter (\<lambda>x. P (snd x)) (filter (\<lambda>x. nc_subsidiaryId (fst x) = s \<and> snd x \<noteq> 0) items)
      = filter (\<lambda>x. P (snd x)) (side_items items s)" using assms by (induction items) auto
  then show "sum_list (map g (net_items items P s)) = sum_list (map g (filter (\<lambda>x. P (snd x)) (side_items items s)))"
    by (simp only: net_items_def sum_side_of)
qed

lemma side_sums:
  fixes g :: "item \<Rightarrow> int"
  assumes "\<forall>x \<in> set (side_items items s). snd x = 0 \<longrightarrow> g x = 0"
  shows "sum_list (map g (side_items items s))
    = sum_list (map g (net_items items (\<lambda>u. u > 0) s)) + sum_list (map g (net_items items (\<lambda>u. u < 0) s))"
proof -
  have "sum_list (map g (filter (\<lambda>x. snd x = 0) (side_items items s))) = 0"
    using assms by (induction items) auto
  then show ?thesis
    using sum_by_sign [of g "side_items items s" snd] by (simp add: net_items_simps)
qed

lemma net_side_spec:
  assumes dist: "distinct (map item_key items)"
    and start: "\<forall>x \<in> set (side_items items s). amount_at m (item_key x) = snd x \<and> amount_at nb (item_key x) = 0"
  obtains m' nb' nettable where
    "net_side items (m, nb) s = Inr (m', nb', sum_list (map snd (side_items items s)), nettable)"
    "\<forall>k. k \<notin> item_key ` set (side_items items s) \<longrightarrow> amount_at m' k = amount_at m k \<and> amount_at nb' k = amount_at nb k"
    "\<forall>x \<in> set (side_items items s). recorded m m' nb' (item_key x)"
    "sum_list (map (\<lambda>x. amount_at nb' (item_key x)) (side_items items s)) = 0"
proof -
  let ?S = "side_items items s"
  define T where "T = net_items items (\<lambda>u. u > 0) s"
  define B where "B = net_items items (\<lambda>u. u < 0) s"
  have sT: "set T = {x \<in> set ?S. snd x > 0}" and sB: "set B = {x \<in> set ?S. snd x < 0}"
    by (auto simp: T_def B_def net_items_simps)
  define TT where "TT = sum_list (map snd T)"
  define TB where "TB = sum_list (map (\<lambda>x. \<bar>snd x\<bar>) B)"
  have mT: "map (\<lambda>x. amount_at m (item_key x)) T = map snd T"
    and mB: "map (\<lambda>x. - amount_at m (item_key x)) B = map (\<lambda>x. \<bar>snd x\<bar>) B" using start sT sB by auto
  have n0: "0 \<le> min TT TB" unfolding TT_def TB_def by (auto intro!: sum_list_nonneg_int simp: sT)
  have dTB: "distinct (map item_key T)" "distinct (map item_key B)"
    unfolding T_def B_def net_items_def by (rule distinct_side_of [OF dist])+
  have pTB: "\<forall>x \<in> set T. 0 < amount_at m (item_key x)" "\<forall>x \<in> set B. amount_at m (item_key x) < 0"
    "\<forall>x \<in> set T \<union> set B. amount_at nb (item_key x) = 0" using start sT sB by auto
  have le: "min TT TB \<le> sum_list (map (\<lambda>x. amount_at m (item_key x)) T)"
    "min TT TB \<le> sum_list (map (\<lambda>x. - amount_at m (item_key x)) B)" unfolding mT mB by (simp_all add: TT_def TB_def)
  obtain clT m1 clB m2 d where c: "clearInOrder T m (min TT TB) = Inr (clT, m1)"
    "clearInOrder B m1 (min TT TB) = Inr (clB, m2)" "d = set_all (- 1) clB (set_all 1 clT nb)"
    "\<forall>k. k \<notin> item_key ` (set T \<union> set B) \<longrightarrow> amount_at m2 k = amount_at m k \<and> amount_at d k = amount_at nb k"
    "\<forall>x \<in> set T \<union> set B. recorded m m2 d (item_key x)"
    "sum_list (map (\<lambda>x. amount_at d (item_key x)) T) = min TT TB"
    "sum_list (map (\<lambda>x. amount_at d (item_key x)) B) = - min TT TB"
    by (rule clear_two [OF dTB pTB n0 le])
  have zeroes: "item_key x \<notin> item_key ` (set T \<union> set B)" if "x \<in> set ?S" "snd x = 0" for x
  proof
    assume "item_key x \<in> item_key ` (set T \<union> set B)"
    then obtain y where y: "y \<in> set T \<union> set B" "item_key x = item_key y" by blast
    then have "y \<in> set items" "snd y \<noteq> 0" using sT sB by auto
    moreover have "x \<in> set items" using that(1) by simp
    ultimately show False using key_inj [OF dist, of x y] y(2) that(2) by simp
  qed
  have rec: "recorded m m2 d (item_key x)" if x: "x \<in> set ?S" for x
  proof (cases "snd x = 0")
    case True
    then show ?thesis using c(4) zeroes [OF x True] bspec [OF start x] by (simp add: recorded_def)
  next
    case False
    then have "x \<in> set T \<union> set B" unfolding sT sB using x by (simp add: linorder_neq_iff) blast
    with c(5) show ?thesis by blast
  qed
  have "sum_list (map (\<lambda>x. amount_at d (item_key x)) ?S) = 0"
  proof -
    have "\<forall>x \<in> set ?S. snd x = 0 \<longrightarrow> amount_at d (item_key x) = 0" using c(4) zeroes start by metis
    from side_sums [OF this, folded T_def B_def] show ?thesis unfolding c(6,7) by simp
  qed
  moreover have "sum_list (map snd ?S) = TT - TB"
  proof -
    have nB: "map snd B = map (\<lambda>x. - \<bar>snd x\<bar>) B" using sB by auto
    have "sum_list (map snd B) = - TB" unfolding nB sum_list_map_uminus TB_def ..
    then show ?thesis using side_sums [where g = snd and items = items and s = s, folded T_def B_def]
      by (simp add: TT_def)
  qed
  moreover have "net_side items (m, nb) s = Inr (m2, d, TT - TB, min TT TB)"
  proof -
    have f: "filter (\<lambda>x. snd x > 0) (side_of items s) = T" "filter (\<lambda>x. snd x < 0) (side_of items s) = B"
      by (simp_all add: T_def B_def net_items_def)
    show ?thesis unfolding net_side_def prod.case Let_def f TT_def [symmetric] TB_def [symmetric]
      by (simp add: c(1,2,3))
  qed
  moreover have "\<forall>k. k \<notin> item_key ` set ?S \<longrightarrow> amount_at m2 k = amount_at m k \<and> amount_at d k = amount_at nb k"
    using c(4) sT sB by blast
  ultimately show thesis using that [of m2 d "min TT TB"] rec by simp
qed

section \<open>Cash\<close>

lemma sum_filter_zero: "(\<forall>x \<in> set xs. \<not> P x \<longrightarrow> g x = 0) \<Longrightarrow> sum_list (map g (filter P xs)) = (sum_list (map g xs) :: int)"
  by (induction xs) auto

lemma sum_filter_ge: "(\<forall>x \<in> set xs. \<not> P x \<longrightarrow> g x \<le> 0) \<Longrightarrow> sum_list (map g xs) \<le> (sum_list (map g (filter P xs)) :: int)"
  by (induction xs) auto

lemma filter_side: "filter P (filter (\<lambda>x. nc_subsidiaryId (fst x) = s \<and> snd x \<noteq> 0) items)
    = filter (\<lambda>x. P x \<and> snd x \<noteq> 0) (side_items items s)"
  by (induction items) auto

lemma sum_side_zero:
  assumes "\<forall>x \<in> set (side_items items s). \<not> (P x \<and> snd x \<noteq> 0) \<longrightarrow> g x = (0 :: int)"
  shows "sum_list (map g (filter P (side_of items s))) = sum_list (map g (side_items items s))"
  unfolding sum_side_of filter_side by (rule sum_filter_zero [OF assms])

lemma sum_side_ge:
  assumes "\<forall>x \<in> set (side_items items s). \<not> (P x \<and> snd x \<noteq> 0) \<longrightarrow> g x \<le> (0 :: int)"
  shows "sum_list (map g (side_items items s)) \<le> sum_list (map g (filter P (side_of items s)))"
  unfolding sum_side_of filter_side by (rule sum_filter_ge [OF assms])

text \<open>
  An item after netting: what remains is its open amount less what was netted, and it was netted
  towards zero only.
\<close>

definition netted_item :: "amounts \<Rightarrow> amounts \<Rightarrow> item \<Rightarrow> bool" where
  "netted_item rem nb x \<longleftrightarrow> (let n = amount_at nb (item_key x) in
     amount_at rem (item_key x) = snd x - n \<and> 0 \<le> sgn (snd x) * n \<and> \<bar>n\<bar> \<le> \<bar>snd x\<bar>)"

definition settled_item :: "amounts \<Rightarrow> amounts \<Rightarrow> item \<Rightarrow> bool" where
  "settled_item nb cb x \<longleftrightarrow> (let n = amount_at nb (item_key x); c = amount_at cb (item_key x) in
     0 \<le> sgn (snd x) * n \<and> 0 \<le> sgn (snd x) * c \<and> \<bar>n + c\<bar> \<le> \<bar>snd x\<bar>)"

lemma netted_sign:
  assumes "netted_item rem nb x"
  shows "0 < amount_at rem (item_key x) \<Longrightarrow> 0 < snd x" "amount_at rem (item_key x) < 0 \<Longrightarrow> snd x < 0"
  using assms by (auto simp: netted_item_def Let_def sgn_if split: if_splits)

lemma netted_then_cash:
  assumes "netted_item rem nb x" "recorded rem rem' cb (item_key x)"
  shows "settled_item nb cb x"
proof -
  obtain n c r where v: "n = amount_at nb (item_key x)" "c = amount_at cb (item_key x)" "r = amount_at rem (item_key x)"
    by blast
  have "r = snd x - n" "0 \<le> sgn (snd x) * n" "\<bar>n\<bar> \<le> \<bar>snd x\<bar>" "0 \<le> sgn r * c" "\<bar>c\<bar> \<le> \<bar>r\<bar>"
    using assms by (simp_all add: netted_item_def recorded_def Let_def v)
  then show ?thesis
    by (auto simp: settled_item_def Let_def v [symmetric] sgn_if split: if_splits)
qed

lemma netted_no_cash: "netted_item rem nb x \<Longrightarrow> amount_at cb (item_key x) = 0 \<Longrightarrow> settled_item nb cb x"
  by (simp add: netted_item_def settled_item_def Let_def)

text \<open>Moving an amount that the receiver is owed and the payer owes.\<close>

lemma cash_pair:
  assumes dist: "distinct (map item_key items)" and ne: "r \<noteq> p" and net: "\<forall>x \<in> set items. netted_item rem nb x"
    and zr: "sum_list (map (\<lambda>x. amount_at nb (item_key x)) (side_items items r)) = 0"
    and zp: "sum_list (map (\<lambda>x. amount_at nb (item_key x)) (side_items items p)) = 0"
    and a: "0 \<le> a" "a \<le> sum_list (map snd (side_items items r))" "a \<le> - sum_list (map snd (side_items items p))"
  defines "T \<equiv> filter (\<lambda>x. amount_at rem (item_key x) > 0) (side_of items r)"
    and "B \<equiv> filter (\<lambda>x. amount_at rem (item_key x) < 0) (side_of items p)"
  obtains clT m1 clB m2 d where "clearInOrder T rem a = Inr (clT, m1)" "clearInOrder B m1 a = Inr (clB, m2)"
    "d = set_all (- 1) clB (set_all 1 clT Map.empty)" "\<forall>x \<in> set items. settled_item nb d x"
    "sum_list (map (\<lambda>x. amount_at d (item_key x)) (side_items items r)) = a"
    "sum_list (map (\<lambda>x. amount_at d (item_key x)) (side_items items p)) = - a"
proof -
  let ?rem = "\<lambda>x. amount_at rem (item_key x)"
  have sub: "sum_list (map ?rem (side_items items s)) = sum_list (map snd (side_items items s))
      - sum_list (map (\<lambda>x. amount_at nb (item_key x)) (side_items items s))" for s
    using net by (induction items) (auto simp: netted_item_def Let_def)
  have "sum_list (map ?rem (side_items items r)) \<le> sum_list (map ?rem T)"
    unfolding T_def by (rule sum_side_ge) (use net netted_sign in \<open>force simp: not_less\<close>)
  then have leT: "a \<le> sum_list (map ?rem T)" using a(2) sub [of r] zr by simp
  have "sum_list (map (\<lambda>x. - ?rem x) (side_items items p)) \<le> sum_list (map (\<lambda>x. - ?rem x) B)"
    unfolding B_def by (rule sum_side_ge) (use net netted_sign in \<open>force simp: not_less\<close>)
  then have leB: "a \<le> sum_list (map (\<lambda>x. - ?rem x) B)" using a(3) sub [of p] zp by (simp add: sum_list_map_uminus)
  have dTB: "distinct (map item_key T)" "distinct (map item_key B)"
    unfolding T_def B_def by (rule distinct_side_of [OF dist])+
  have pTB: "\<forall>x \<in> set T. 0 < ?rem x" "\<forall>x \<in> set B. ?rem x < 0"
    "\<forall>x \<in> set T \<union> set B. amount_at Map.empty (item_key x) = 0" by (auto simp: T_def B_def)
  obtain clT m1 clB m2 d where c: "clearInOrder T rem a = Inr (clT, m1)" "clearInOrder B m1 a = Inr (clB, m2)"
    "d = set_all (- 1) clB (set_all 1 clT Map.empty)"
    "\<forall>k. k \<notin> item_key ` (set T \<union> set B) \<longrightarrow> amount_at m2 k = amount_at rem k \<and> amount_at d k = amount_at Map.empty k"
    "\<forall>x \<in> set T \<union> set B. recorded rem m2 d (item_key x)"
    "sum_list (map (\<lambda>x. amount_at d (item_key x)) T) = a" "sum_list (map (\<lambda>x. amount_at d (item_key x)) B) = - a"
    by (rule clear_two [OF dTB pTB a(1) leT leB])
  have off: "amount_at d (item_key x) = 0" if "x \<in> set items" "x \<notin> set T \<union> set B" for x
  proof -
    have "item_key x \<notin> item_key ` (set T \<union> set B)"
    proof
      assume "item_key x \<in> item_key ` (set T \<union> set B)"
      then obtain y where y: "y \<in> set T \<union> set B" "item_key x = item_key y" by blast
      then have "y \<in> set items" by (auto simp: T_def B_def)
      with key_inj [OF dist that(1) this y(2)] y(1) that(2) show False by simp
    qed
    with c(4) show ?thesis by simp
  qed
  have "\<forall>x \<in> set items. settled_item nb d x"
    using net c(5) off netted_then_cash netted_no_cash by metis
  moreover have "sum_list (map (\<lambda>x. amount_at d (item_key x)) T) = sum_list (map (\<lambda>x. amount_at d (item_key x)) (side_items items r))"
    unfolding T_def by (rule sum_side_zero) (use off ne in \<open>auto simp: T_def B_def\<close>)
  moreover have "sum_list (map (\<lambda>x. amount_at d (item_key x)) B) = sum_list (map (\<lambda>x. amount_at d (item_key x)) (side_items items p))"
    unfolding B_def by (rule sum_side_zero) (use off ne in \<open>auto simp: T_def B_def\<close>)
  ultimately show thesis using that [OF c(1,2,3)] c(6,7) by simp
qed

lemma cash_to_from_cases:
  fixes f t :: int and b :: bool
  defines "c \<equiv> cash_to_from b f t"
  shows "c = 0 \<or> (0 < c \<and> c \<le> f \<and> c \<le> - t) \<or> (c < 0 \<and> - c \<le> t \<and> - c \<le> - f)"
  by (auto simp: c_def cash_to_from_def min_def)

lemma settle_cash_spec:
  assumes dist: "distinct (map item_key items)" and ne: "ni_fromSubsidiaryId inp \<noteq> ni_toSubsidiaryId inp"
    and net: "\<forall>x \<in> set items. netted_item rem nb x"
    and zero: "\<forall>s \<in> {ni_fromSubsidiaryId inp, ni_toSubsidiaryId inp}.
      sum_list (map (\<lambda>x. amount_at nb (item_key x)) (side_items items s)) = 0"
  defines "fromNet \<equiv> sum_list (map snd (side_items items (ni_fromSubsidiaryId inp)))"
    and "toNet \<equiv> sum_list (map snd (side_items items (ni_toSubsidiaryId inp)))"
  defines "cash \<equiv> cash_to_from (ni_settleCash inp) fromNet toNet"
  shows "\<exists>cb. settle_cash inp items rem cash = Inr cb \<and> (\<forall>x \<in> set items. settled_item nb cb x)
    \<and> sum_list (map (\<lambda>x. amount_at cb (item_key x)) (side_items items (ni_fromSubsidiaryId inp))) = cash
    \<and> sum_list (map (\<lambda>x. amount_at cb (item_key x)) (side_items items (ni_toSubsidiaryId inp))) = - cash"
proof -
  consider "cash = 0" | "0 < cash" "cash \<le> fromNet" "cash \<le> - toNet" | "cash < 0" "- cash \<le> toNet" "- cash \<le> - fromNet"
    using cash_to_from_cases [of "ni_settleCash inp" fromNet toNet] unfolding cash_def by blast
  then show ?thesis
  proof cases
    case 1
    have z: "sum_list (map (\<lambda>x. amount_at Map.empty (item_key x)) xs) = 0" for xs by (induction xs) auto
    have "\<forall>x \<in> set items. settled_item nb Map.empty x"
    proof
      fix x assume "x \<in> set items"
      with net show "settled_item nb Map.empty x" by (intro netted_no_cash [of rem]) simp_all
    qed
    then show ?thesis using 1 z by (intro exI [of _ Map.empty]) (simp add: settle_cash_def)
  next
    case 2
    then have a: "0 \<le> cash" "cash \<le> fromNet" "cash \<le> - toNet" by simp_all
    obtain clT m1 clB m2 d where
      "clearInOrder (filter (\<lambda>x. amount_at rem (item_key x) > 0) (side_of items (ni_fromSubsidiaryId inp))) rem cash = Inr (clT, m1)"
      "clearInOrder (filter (\<lambda>x. amount_at rem (item_key x) < 0) (side_of items (ni_toSubsidiaryId inp))) m1 cash = Inr (clB, m2)"
      "d = set_all (- 1) clB (set_all 1 clT Map.empty)" "\<forall>x \<in> set items. settled_item nb d x"
      "sum_list (map (\<lambda>x. amount_at d (item_key x)) (side_items items (ni_fromSubsidiaryId inp))) = cash"
      "sum_list (map (\<lambda>x. amount_at d (item_key x)) (side_items items (ni_toSubsidiaryId inp))) = - cash"
      by (rule cash_pair [OF dist ne net, of cash]) (use zero a in \<open>auto simp: fromNet_def toNet_def\<close>)
    then show ?thesis using 2(1) by (intro exI [of _ d]) (simp add: settle_cash_def Let_def)
  next
    case 3
    then have a: "0 \<le> - cash" "- cash \<le> toNet" "- cash \<le> - fromNet" by simp_all
    obtain clT m1 clB m2 d where
      "clearInOrder (filter (\<lambda>x. amount_at rem (item_key x) > 0) (side_of items (ni_toSubsidiaryId inp))) rem (- cash) = Inr (clT, m1)"
      "clearInOrder (filter (\<lambda>x. amount_at rem (item_key x) < 0) (side_of items (ni_fromSubsidiaryId inp))) m1 (- cash) = Inr (clB, m2)"
      "d = set_all (- 1) clB (set_all 1 clT Map.empty)" "\<forall>x \<in> set items. settled_item nb d x"
      "sum_list (map (\<lambda>x. amount_at d (item_key x)) (side_items items (ni_toSubsidiaryId inp))) = - cash"
      "sum_list (map (\<lambda>x. amount_at d (item_key x)) (side_items items (ni_fromSubsidiaryId inp))) = - (- cash)"
      by (rule cash_pair [OF dist ne [symmetric] net, of "- cash"]) (use zero a in \<open>auto simp: fromNet_def toNet_def\<close>)
    then show ?thesis using 3(1) by (intro exI [of _ d]) (simp add: settle_cash_def Let_def)
  qed
qed

section \<open>Carrying amounts\<close>

lemma carryingForSettlement_units:
  assumes "toUnits oc = Inr cu" "toUnits ot = Inr o'" "\<bar>s\<bar> \<le> \<bar>o'\<bar>"
  shows "carryingForSettlement oc ot (fromUnits s)
    = Inr (fromUnits (if s = 0 then 0 else sgn s * (if \<bar>s\<bar> = \<bar>o'\<bar> then \<bar>cu\<bar> else round_quot (\<bar>cu\<bar> * \<bar>s\<bar>) \<bar>o'\<bar>)))"
proof (cases "s = 0")
  case True
  then show ?thesis using assms(1,2) by (simp add: carryingForSettlement_def fromUnits_zero)
next
  case False
  then have "0 < \<bar>o'\<bar>" using assms(3) by simp
  with False assms show ?thesis
    by (auto simp: carryingForSettlement_def Let_def mulRatio_units sgn_if)
qed

lemma spotTranslation_units:
  assumes "fx_rate_units r = Inr ru"
  shows "spotTranslation (fromUnits s) r = Inr (fromUnits (sgn s * round_quot (\<bar>s\<bar> * ru) RATE_SCALE))"
  using mulRate_units [OF toUnits_fromUnits assms, of "\<bar>s\<bar>"]
  by (cases "s = 0") (auto simp: spotTranslation_def sgn_if)

lemma allocation_row_total:
  assumes "item_ok inp x" "settled_item nb cb x" "fx_rate_units (rateFor (nc_subsidiaryId (fst x))) = Inr ru"
  shows "\<exists>a. allocation_row rateFor nb cb x = Inr a \<and> na_component a = fst x
    \<and> na_netted a = fromUnits (amount_at nb (item_key x)) \<and> na_cash a = fromUnits (amount_at cb (item_key x))"
proof -
  let ?s = "amount_at nb (item_key x) + amount_at cb (item_key x)"
  obtain cu where cu: "toUnits (nc_openCarrying (fst x)) = Inr cu" "toUnits (nc_openTransaction (fst x)) = Inr (snd x)"
    using assms(1) by (auto simp: item_ok_def)
  have "\<bar>?s\<bar> \<le> \<bar>snd x\<bar>" using assms(2) by (simp add: settled_item_def Let_def)
  from carryingForSettlement_units [OF cu this] spotTranslation_units [OF assms(3), of ?s]
  show ?thesis by (simp add: allocation_row_def Let_def)
qed

lemma allocation_rows_total:
  assumes "\<forall>x \<in> set xs. item_ok inp x \<and> settled_item nb cb x \<and> (\<exists>ru. fx_rate_units (rateFor (nc_subsidiaryId (fst x))) = Inr ru)"
  shows "\<exists>as. traverse (allocation_row rateFor nb cb) xs = Inr as \<and> map na_component as = map fst xs
    \<and> map na_netted as = map (\<lambda>x. fromUnits (amount_at nb (item_key x))) xs
    \<and> map na_cash as = map (\<lambda>x. fromUnits (amount_at cb (item_key x))) xs"
  using assms
proof (induction xs)
  case (Cons x xs)
  then obtain ru where "item_ok inp x" "settled_item nb cb x" "fx_rate_units (rateFor (nc_subsidiaryId (fst x))) = Inr ru" by auto
  from allocation_row_total [where rateFor = rateFor, OF this] Cons show ?case by auto
qed simp

text \<open>Both entities net in turn; the second is not disturbed by the first.\<close>

lemma net_both_sides:
  assumes ne: "f \<noteq> t" and dist: "distinct (map item_key items)"
    and at0: "\<forall>x \<in> set items. amount_at rem0 (item_key x) = snd x \<and> nc_subsidiaryId (fst x) \<in> {f, t}"
  obtains m1 nb1 n1 m2 nb n2 where
    "net_side items (rem0, Map.empty) f = Inr (m1, nb1, sum_list (map snd (side_items items f)), n1)"
    "net_side items (m1, nb1) t = Inr (m2, nb, sum_list (map snd (side_items items t)), n2)"
    "\<forall>x \<in> set items. netted_item m2 nb x"
    "\<forall>s \<in> {f, t}. sum_list (map (\<lambda>x. amount_at nb (item_key x)) (side_items items s)) = 0"
proof -
  have start1: "\<forall>x \<in> set (side_items items f). amount_at rem0 (item_key x) = snd x \<and> amount_at Map.empty (item_key x) = 0"
    using at0 by auto
  obtain m1 nb1 n1 where s1: "net_side items (rem0, Map.empty) f = Inr (m1, nb1, sum_list (map snd (side_items items f)), n1)"
    "\<forall>k. k \<notin> item_key ` set (side_items items f) \<longrightarrow> amount_at m1 k = amount_at rem0 k \<and> amount_at nb1 k = amount_at Map.empty k"
    "\<forall>x \<in> set (side_items items f). recorded rem0 m1 nb1 (item_key x)"
    "sum_list (map (\<lambda>x. amount_at nb1 (item_key x)) (side_items items f)) = 0"
    by (rule net_side_spec [OF dist start1])
  have apart: "item_key x \<notin> item_key ` set (side_items items s)" if "x \<in> set items" "nc_subsidiaryId (fst x) \<noteq> s" for x s
    using key_inj [OF dist that(1)] that by auto
  have start2: "\<forall>x \<in> set (side_items items t). amount_at m1 (item_key x) = snd x \<and> amount_at nb1 (item_key x) = 0"
    using s1(2) apart [of _ f] at0 ne by auto
  obtain m2 nb n2 where s2: "net_side items (m1, nb1) t = Inr (m2, nb, sum_list (map snd (side_items items t)), n2)"
    "\<forall>k. k \<notin> item_key ` set (side_items items t) \<longrightarrow> amount_at m2 k = amount_at m1 k \<and> amount_at nb k = amount_at nb1 k"
    "\<forall>x \<in> set (side_items items t). recorded m1 m2 nb (item_key x)"
    "sum_list (map (\<lambda>x. amount_at nb (item_key x)) (side_items items t)) = 0"
    by (rule net_side_spec [OF dist start2])
  have same: "amount_at m2 (item_key x) = amount_at m1 (item_key x) \<and> amount_at nb (item_key x) = amount_at nb1 (item_key x)"
    if "x \<in> set (side_items items f)" for x
    using s2(2) apart [of x t] that ne by auto
  have net: "netted_item m2 nb x" if x: "x \<in> set items" for x
  proof (cases "nc_subsidiaryId (fst x) = f")
    case True
    then have "x \<in> set (side_items items f)" using x by simp
    from bspec [OF s1(3) this] same [OF this] bspec [OF at0 x] show ?thesis
      by (simp add: netted_item_def recorded_def Let_def)
  next
    case False
    then have "x \<in> set (side_items items t)" using x at0 by auto
    from bspec [OF s2(3) this] bspec [OF start2 this] show ?thesis
      by (simp add: netted_item_def recorded_def Let_def)
  qed
  have "map (\<lambda>x. amount_at nb (item_key x)) (side_items items f) = map (\<lambda>x. amount_at nb1 (item_key x)) (side_items items f)"
    using same by simp
  then have "sum_list (map (\<lambda>x. amount_at nb (item_key x)) (side_items items f)) = 0" using s1(4) by (simp only:)
  with s2(4) net show thesis by (intro that [OF s1(1) s2(1)]) auto
qed

lemma allocatePairNetting_spec:
  assumes ne: "ni_fromSubsidiaryId inp \<noteq> ni_toSubsidiaryId inp"
    and ok: "foldE (check_component inp) (Map.empty, []) (ni_components inp) = Inr (rem0, items)"
    and rates: "\<forall>s \<in> {ni_fromSubsidiaryId inp, ni_toSubsidiaryId inp}. \<exists>ru. fx_rate_units (rateFor s) = Inr ru"
  shows "\<exists>res nb cb cash. allocatePairNetting rateFor inp = Inr res
    \<and> map na_component (np_allocations res) = map fst (ordered items)
    \<and> map na_netted (np_allocations res) = map (\<lambda>x. fromUnits (amount_at nb (item_key x))) (ordered items)
    \<and> map na_cash (np_allocations res) = map (\<lambda>x. fromUnits (amount_at cb (item_key x))) (ordered items)
    \<and> (\<forall>x \<in> set items. settled_item nb cb x)
    \<and> (\<forall>s \<in> {ni_fromSubsidiaryId inp, ni_toSubsidiaryId inp}.
          sum_list (map (\<lambda>x. amount_at nb (item_key x)) (side_items items s)) = 0)
    \<and> np_cashToFrom res = fromUnits cash
    \<and> sum_list (map (\<lambda>x. amount_at cb (item_key x)) (side_items items (ni_fromSubsidiaryId inp))) = cash
    \<and> sum_list (map (\<lambda>x. amount_at cb (item_key x)) (side_items items (ni_toSubsidiaryId inp))) = - cash
    \<and> cash = cash_to_from (ni_settleCash inp) (sum_list (map snd (side_items items (ni_fromSubsidiaryId inp))))
        (sum_list (map snd (side_items items (ni_toSubsidiaryId inp))))"
proof -
  let ?f = "ni_fromSubsidiaryId inp" and ?t = "ni_toSubsidiaryId inp"
  have "checked inp Map.empty []" by (simp add: checked_def)
  then have ch: "checked inp rem0 items" using checked_fold [OF ok] by simp
  then have dist: "distinct (map item_key items)" and iok: "\<forall>x \<in> set items. item_ok inp x"
    and at0: "\<forall>x \<in> set items. amount_at rem0 (item_key x) = snd x" by (auto simp: checked_def amount_at_def)
  have at1: "\<forall>x \<in> set items. amount_at rem0 (item_key x) = snd x \<and> nc_subsidiaryId (fst x) \<in> {?f, ?t}"
    using at0 iok by (auto simp: item_ok_def)
  obtain m1 nb1 n1 m2 nb n2 where
    s1: "net_side items (rem0, Map.empty) ?f = Inr (m1, nb1, sum_list (map snd (side_items items ?f)), n1)"
    and s2: "net_side items (m1, nb1) ?t = Inr (m2, nb, sum_list (map snd (side_items items ?t)), n2)"
    and net: "\<forall>x \<in> set items. netted_item m2 nb x"
    and zero: "\<forall>s \<in> {?f, ?t}. sum_list (map (\<lambda>x. amount_at nb (item_key x)) (side_items items s)) = 0"
    by (rule net_both_sides [OF ne dist at1])
  define cash where "cash = cash_to_from (ni_settleCash inp) (sum_list (map snd (side_items items ?f)))
        (sum_list (map snd (side_items items ?t)))"
  obtain cb where cb: "settle_cash inp items m2 cash = Inr cb" "\<forall>x \<in> set items. settled_item nb cb x"
    "sum_list (map (\<lambda>x. amount_at cb (item_key x)) (side_items items ?f)) = cash"
    "sum_list (map (\<lambda>x. amount_at cb (item_key x)) (side_items items ?t)) = - cash"
    using settle_cash_spec [OF dist ne net zero] unfolding cash_def by blast
  have "\<forall>x \<in> set (ordered items). item_ok inp x \<and> settled_item nb cb x
      \<and> (\<exists>ru. fx_rate_units (rateFor (nc_subsidiaryId (fst x))) = Inr ru)"
    using iok cb(2) rates by (auto simp: ordered_def item_ok_def)
  from allocation_rows_total [OF this] obtain as where as:
    "traverse (allocation_row rateFor nb cb) (ordered items) = Inr as" "map na_component as = map fst (ordered items)"
    "map na_netted as = map (\<lambda>x. fromUnits (amount_at nb (item_key x))) (ordered items)"
    "map na_cash as = map (\<lambda>x. fromUnits (amount_at cb (item_key x))) (ordered items)" by blast
  define res where "res = \<lparr>np_pairId = ni_pairId inp, np_currency = ni_currency inp,
      np_fromSubsidiaryId = ?f, np_toSubsidiaryId = ?t,
      np_fromNet = fromUnits (sum_list (map snd (side_items items ?f))),
      np_toNet = fromUnits (sum_list (map snd (side_items items ?t))),
      np_unreconciled = fromUnits (sum_list (map snd (side_items items ?f)) + sum_list (map snd (side_items items ?t))),
      np_fromNetted = fromUnits n1, np_toNetted = fromUnits n2,
      np_cashToFrom = fromUnits cash, np_allocations = as\<rparr>"
  have "allocatePairNetting rateFor inp = Inr res"
    using ne unfolding allocatePairNetting_def ok bindE.simps prod.case s1 s2 Let_def cash_def [symmetric] cb(1) as(1)
    by (simp add: res_def)
  moreover have "np_allocations res = as" "np_cashToFrom res = fromUnits cash" by (simp_all add: res_def)
  ultimately show ?thesis using as(2-4) cb(2-4) zero cash_def by metis
qed

section \<open>Rate lines\<close>

lemma rateText_reads_back:
  assumes "rateText u = Inr r" "0 < u"
  shows "fx_rate_units r = Inr u"
proof -
  let ?w = "nat_text (nat (u div RATE_SCALE))" and ?f = "padStart (nat_text (nat (u mod RATE_SCALE))) 10 CHR ''0''"
  have "\<not> u div RATE_SCALE < 0" "\<not> u mod RATE_SCALE < 0" using assms(2) by (simp_all add: not_less pos_imp_zdiv_nonneg_iff)
  then have r: "r = ?w @ CHR ''.'' # ?f"
    using assms by (auto simp: rateText_def Let_def sdiv_nonneg smod_nonneg bigint_text_def split: if_splits)
  have "nat (u mod RATE_SCALE) < 10 ^ 10" by (simp add: nat_less_iff)
  then have lf: "length ?f = 10" using length_nat_text_le [of "nat (u mod RATE_SCALE)" 10] by simp
  have dw: "list_all is_digit ?w" "?w \<noteq> []" and df: "list_all is_digit ?f" by simp_all
  have fne: "?f \<noteq> []" using lf by (metis list.size(3) zero_neq_numeral)
  have "is_digit (hd ?w)" "is_digit (last ?f)" using dw df fne by (auto simp: list_all_iff simp del: list_all_digit_padStart)
  then have tr: "trim r = r" using dw(2) fne by (intro trim_id) (auto simp: r digit_not_mark)
  have sp: "strip_plus r = r" using \<open>is_digit (hd ?w)\<close> dw(2) unfolding r
    by (cases ?w) (auto simp: strip_plus_def)
  have plain: "plain_decimal r" unfolding r
    using dw df fne by (simp add: plain_decimal_def takeWhile_append2 dropWhile_append2 list_all_iff)
  have sd: "split_dot r = (?w, ?f)" unfolding r by (rule split_dot_digits(2) [OF dw(1) df])
  have np: "\<not> loses_precision 10 ?f" using lf by (simp add: loses_precision_def)
  have "take 10 (?f @ replicate 10 CHR ''0'') = ?f" using lf by simp
  then have "scaled_units 10 ?w ?f = int (digits_val ?w) * 10 ^ 10 + int (digits_val ?f)"
    unfolding scaled_units_digits [OF dw(1) df] by (simp only:)
  also have "\<dots> = u div RATE_SCALE * RATE_SCALE + u mod RATE_SCALE"
    using assms(2) by (simp add: pos_imp_zdiv_nonneg_iff)
  finally have "scaled_units 10 ?w ?f = u" by simp
  then show ?thesis using assms(2) tr sp plain sd np by (simp add: fx_rate_units_def Let_def)
qed

lemma rateText_total: "0 \<le> u \<Longrightarrow> u < 10 ^ 19 \<Longrightarrow> \<exists>r. rateText u = Inr r"
proof -
  assume u: "0 \<le> u" "u < 10 ^ 19"
  then have "u div RATE_SCALE < 10 ^ 9" by (simp add: div_less_iff_less_mult)
  then have "nat (u div RATE_SCALE) < 10 ^ 9" using u(1) by (simp add: nat_less_iff pos_imp_zdiv_nonneg_iff)
  then have "length (nat_text (nat (u div RATE_SCALE))) \<le> 9" by (rule length_nat_text_le) simp
  moreover have "\<not> u div RATE_SCALE < 0" using u(1) by (simp add: not_less pos_imp_zdiv_nonneg_iff)
  ultimately show ?thesis using u(1)
    by (simp add: rateText_def Let_def sdiv_nonneg bigint_text_def)
qed

text \<open>A line states an amount in both currencies; its functional amount is the translation at its rate.\<close>

definition line_exact :: "translated_line \<Rightarrow> int \<Rightarrow> int \<Rightarrow> bool" where
  "line_exact l txn amt \<longleftrightarrow> tl_txnAmount l = fromUnits txn \<and> tl_amount l = fromUnits amt
     \<and> spotTranslation (tl_txnAmount l) (tl_fxRate l) = Inr (tl_amount l)"

lemma line_exactI:
  assumes "rateText ru = Inr r" "0 < ru" "0 < t" "round_quot (t * ru) RATE_SCALE = a" "s = 1 \<or> s = - 1"
  shows "line_exact \<lparr>tl_txnAmount = fromUnits (s * t), tl_fxRate = r, tl_amount = fromUnits (s * a)\<rparr> (s * t) (s * a)"
  using spotTranslation_units [OF rateText_reads_back [OF assms(1,2)], of "s * t"] assms(3-5)
  by (auto simp: line_exact_def)

lemma magnitude_lines_exact:
  assumes "0 < t" "s = 1 \<or> s = - 1" "magnitude_lines s t f = Inr ls"
  shows "\<exists>us. list_all2 (\<lambda>l (a, b). line_exact l a b) ls us \<and> sum_list (map fst us) = s * t \<and> sum_list (map snd us) = s * f"
proof -
  define q where "q = round_quot (f * RATE_SCALE) t"
  define b where "b = round_quot ((t - SCALE) * q) RATE_SCALE"
  have rs: "0 < (RATE_SCALE :: int)" and sc: "RATE_SCALE sdiv SCALE = (1000000 :: int)" by (simp_all add: sdiv_nonneg)
  note body = assms(3) [unfolded magnitude_lines_def roundDiv_pos [OF assms(1)] roundDiv_pos [OF rs] bindE.simps Let_def
      q_def [symmetric] b_def [symmetric] sc]
  show ?thesis
  proof (cases "q > 0 \<and> round_quot (t * q) RATE_SCALE = f")
    case True
    then obtain r where r: "rateText q = Inr r"
      and ls: "ls = [\<lparr>tl_txnAmount = fromUnits (s * t), tl_fxRate = r, tl_amount = fromUnits (s * f)\<rparr>]"
      using body unfolding if_P [OF True] by (auto elim!: bindE_InrE)
    have "line_exact \<lparr>tl_txnAmount = fromUnits (s * t), tl_fxRate = r, tl_amount = fromUnits (s * f)\<rparr> (s * t) (s * f)"
      by (rule line_exactI [OF r _ assms(1) _ assms(2)]) (use True in simp_all)
    then show ?thesis by (intro exI [of _ "[(s * t, s * f)]"]) (simp add: ls)
  next
    case False
    have g: "SCALE < t" "0 < q" "0 < f - b"
      using body unfolding if_not_P [OF False] by (auto split: if_splits)
    then obtain r1 r2 where r: "rateText q = Inr r1" "rateText ((f - b) * 1000000) = Inr r2"
      and ls: "ls = [\<lparr>tl_txnAmount = fromUnits (s * (t - SCALE)), tl_fxRate = r1, tl_amount = fromUnits (s * b)\<rparr>,
        \<lparr>tl_txnAmount = fromUnits (s * SCALE), tl_fxRate = r2, tl_amount = fromUnits (s * (f - b))\<rparr>]"
      using body unfolding if_not_P [OF False] by (auto elim!: bindE_InrE split: if_splits)
    have l1: "line_exact \<lparr>tl_txnAmount = fromUnits (s * (t - SCALE)), tl_fxRate = r1, tl_amount = fromUnits (s * b)\<rparr>
        (s * (t - SCALE)) (s * b)"
      by (rule line_exactI [OF r(1) _ _ _ assms(2)]) (use g in \<open>simp_all add: b_def\<close>)
    have "SCALE * ((f - b) * 1000000) = (f - b) * RATE_SCALE" by simp
    then have tail: "round_quot (SCALE * ((f - b) * 1000000)) RATE_SCALE = f - b"
      by (simp only: round_quot_mult(1) [OF rs])
    have l2: "line_exact \<lparr>tl_txnAmount = fromUnits (s * SCALE), tl_fxRate = r2, tl_amount = fromUnits (s * (f - b))\<rparr>
        (s * SCALE) (s * (f - b))"
      by (rule line_exactI [OF r(2) _ _ tail assms(2)]) (use g in simp_all)
    show ?thesis
      by (rule exI [of _ "[(s * (t - SCALE), s * b), (s * SCALE, s * (f - b))]"])
        (use l1 l2 in \<open>simp add: ls right_diff_distrib\<close>)
  qed
qed

lemma carryingRateLines_exact_lines:
  assumes "toUnits txn = Inr t" "toUnits fun = Inr f" "carryingRateLines txn fun = Inr ls"
  shows "\<exists>us. list_all2 (\<lambda>l (a, b). line_exact l a b) ls us \<and> sum_list (map fst us) = t \<and> sum_list (map snd us) = f"
proof -
  define s :: int where "s = (if t < 0 then - 1 else 1)"
  have nz: "t \<noteq> 0" "(t < 0) = (f < 0)" and m: "magnitude_lines s \<bar>t\<bar> \<bar>f\<bar> = Inr ls"
    using assms by (auto simp: carryingRateLines_def s_def split: if_splits)
  have "s * \<bar>t\<bar> = t" "s * \<bar>f\<bar> = f" using nz by (auto simp: s_def)
  with magnitude_lines_exact [OF _ _ m] nz(1) show ?thesis by (simp add: s_def split: if_splits)
qed

text \<open>Below a million transaction units one line always suffices.\<close>

lemma single_rate_suffices:
  assumes "0 < t" "t < 10 ^ 10" "0 < f"
  defines "q \<equiv> round_quot (f * RATE_SCALE) t"
  shows "0 < q" "round_quot (t * q) RATE_SCALE = f"
proof -
  have n: "0 \<le> f * RATE_SCALE" using assms(3) by simp
  have q: "(2 * q - 1) * t \<le> 2 * (f * RATE_SCALE)" "2 * (f * RATE_SCALE) < (2 * q + 1) * t"
    using round_quot_iff [OF n assms(1), of q] by (simp_all add: q_def)
  define x where "x = t * q"
  have x: "2 * x - t \<le> 2 * (f * RATE_SCALE)" "2 * (f * RATE_SCALE) < 2 * x + t"
    using q by (simp_all add: x_def algebra_simps)
  have "0 < x" using x(2) assms(2,3) by simp
  then show "0 < q" using assms(1) by (simp add: x_def zero_less_mult_iff)
  show "round_quot (t * q) RATE_SCALE = f"
    unfolding x_def [symmetric] using \<open>0 < x\<close> x assms(2) by (subst round_quot_iff) simp_all
qed

lemma carryingRateLines_single:
  assumes "toUnits txn = Inr t" "toUnits fun = Inr f" "t \<noteq> 0" "f \<noteq> 0" "(t < 0) = (f < 0)"
    "\<bar>t\<bar> < 10 ^ 10" "\<bar>f\<bar> \<le> 10 ^ 8 * \<bar>t\<bar>"
  shows "\<exists>l. carryingRateLines txn fun = Inr [l]"
proof -
  define q where "q = round_quot (\<bar>f\<bar> * RATE_SCALE) \<bar>t\<bar>"
  have ta: "0 < \<bar>t\<bar>" and fa: "0 < \<bar>f\<bar>" and rs: "0 < (RATE_SCALE :: int)" using assms(3,4) by simp_all
  have q: "0 < q" "round_quot (\<bar>t\<bar> * q) RATE_SCALE = \<bar>f\<bar>"
    using single_rate_suffices [OF ta assms(6) fa] by (simp_all add: q_def)
  have "q \<le> round_quot (10 ^ 18 * \<bar>t\<bar>) \<bar>t\<bar>"
    unfolding q_def by (rule round_quot_mono [OF _ ta]) (use assms(7) in simp)
  then have "q < 10 ^ 19" using ta by simp
  then obtain r where "rateText q = Inr r" using rateText_total [of q] q(1) by auto
  then show ?thesis using assms(1-5) q
    by (simp add: carryingRateLines_def magnitude_lines_def roundDiv_pos [OF ta] roundDiv_pos [OF rs] q_def [symmetric])
qed

section \<open>Properties\<close>

text \<open>
  C21: netting a validated pair always succeeds and balances.  Once the components pass the checks
  and both entities have a positive rate, \<open>allocatePairNetting\<close> returns (its internal
  ``exceeded the open amounts'' refusal is unreachable); inside each entity the netted amounts sum
  to zero; the cash cleared on the two sides is \<open>cashToFrom\<close> and its negative, no more than either
  entity's own net position shows; and no component is cleared against its sign or past its open
  amount.
\<close>

theorem allocatePairNetting_balanced:
  assumes "ni_fromSubsidiaryId inp \<noteq> ni_toSubsidiaryId inp"
    and "foldE (check_component inp) (Map.empty, []) (ni_components inp) = Inr (rem0, items)"
    and "\<forall>s \<in> {ni_fromSubsidiaryId inp, ni_toSubsidiaryId inp}. \<exists>ru. fx_rate_units (rateFor s) = Inr ru"
  shows "\<exists>res nb cb cash. allocatePairNetting rateFor inp = Inr res
    \<and> map na_component (np_allocations res) = map fst (ordered items)
    \<and> map na_netted (np_allocations res) = map (\<lambda>x. fromUnits (amount_at nb (item_key x))) (ordered items)
    \<and> map na_cash (np_allocations res) = map (\<lambda>x. fromUnits (amount_at cb (item_key x))) (ordered items)
    \<and> (\<forall>x \<in> set items. settled_item nb cb x)
    \<and> (\<forall>s \<in> {ni_fromSubsidiaryId inp, ni_toSubsidiaryId inp}.
          sum_list (map (\<lambda>x. amount_at nb (item_key x)) (side_items items s)) = 0)
    \<and> np_cashToFrom res = fromUnits cash
    \<and> sum_list (map (\<lambda>x. amount_at cb (item_key x)) (side_items items (ni_fromSubsidiaryId inp))) = cash
    \<and> sum_list (map (\<lambda>x. amount_at cb (item_key x)) (side_items items (ni_toSubsidiaryId inp))) = - cash
    \<and> cash = cash_to_from (ni_settleCash inp) (sum_list (map snd (side_items items (ni_fromSubsidiaryId inp))))
        (sum_list (map snd (side_items items (ni_toSubsidiaryId inp))))"
  by (rule allocatePairNetting_spec [OF assms])

definition sample_component :: "string \<Rightarrow> string \<Rightarrow> string \<Rightarrow> string \<Rightarrow> netting_component" where
  "sample_component k s c amt = \<lparr>nc_key = k, nc_pairId = ''p'', nc_subsidiaryId = s, nc_counterpartySubsidiaryId = c,
     nc_currency = ''USD'', nc_functionalCurrency = ''USD'', nc_component = Open_item, nc_accountId = ''a'',
     nc_journalLineId = None, nc_documentId = None, nc_partyId = None,
     nc_openTransaction = amt, nc_openCarrying = amt, nc_sortKey = k\<rparr>"

theorem allocatePairNetting_balanced_witness:
  "\<exists>res. allocatePairNetting (\<lambda>_. ''1'') \<lparr>ni_pairId = ''p'', ni_currency = ''USD'', ni_fromSubsidiaryId = ''x'',
      ni_toSubsidiaryId = ''y'', ni_components = [sample_component ''i'' ''x'' ''y'' ''100'', sample_component ''j'' ''y'' ''x'' ''-1''],
      ni_settleCash = True\<rparr> = Inr res \<and> np_cashToFrom res = fromUnits 10000"
proof -
  let ?inp = "\<lparr>ni_pairId = ''p'', ni_currency = ''USD'', ni_fromSubsidiaryId = ''x'',
      ni_toSubsidiaryId = ''y'', ni_components = [sample_component ''i'' ''x'' ''y'' ''100'', sample_component ''j'' ''y'' ''x'' ''-1''],
      ni_settleCash = True\<rparr>"
  let ?items = "[(sample_component ''i'' ''x'' ''y'' ''100'', 1000000), (sample_component ''j'' ''y'' ''x'' ''-1'', - 10000)]"
  have m: "toUnits ''-1'' = Inr (- 10000)" "fx_rate_units ''1'' = Inr RATE_SCALE" by code_simp+
  have ok: "foldE (check_component ?inp) (Map.empty, []) (ni_components ?inp)
      = Inr ([''i'' \<mapsto> 1000000, ''j'' \<mapsto> - 10000], ?items)"
    by (simp add: check_component_def sample_component_def Let_def m)
  have ne: "ni_fromSubsidiaryId ?inp \<noteq> ni_toSubsidiaryId ?inp" by simp
  have r: "\<forall>s \<in> {ni_fromSubsidiaryId ?inp, ni_toSubsidiaryId ?inp}. \<exists>ru. fx_rate_units ((\<lambda>_. ''1'') s) = Inr ru"
    using m by simp
  have c: "cash_to_from (ni_settleCash ?inp) (sum_list (map snd (side_items ?items (ni_fromSubsidiaryId ?inp))))
        (sum_list (map snd (side_items ?items (ni_toSubsidiaryId ?inp)))) = 10000"
    by (simp add: sample_component_def cash_to_from_def)
  from allocatePairNetting_balanced [OF ne ok r, unfolded c] show ?thesis
    by - (elim exE conjE, rule exI, rule conjI, assumption, simp only:)
qed

text \<open>
  A settlement releases the carrying amount in proportion and never overshoots.  Within the open
  amount \<open>carryingForSettlement\<close> succeeds with the sign of the settlement and at most the carrying
  magnitude; settling all of the open amount releases all of the carrying amount; settling more is
  refused.
\<close>

theorem carryingForSettlement_bounded:
  assumes "toUnits openCarrying = Inr cu" "toUnits openTransaction = Inr o'" "toUnits settled = Inr s" "s \<noteq> 0"
  shows "(\<bar>s\<bar> \<le> \<bar>o'\<bar> \<longrightarrow> (\<exists>m. carryingForSettlement openCarrying openTransaction settled = Inr (fromUnits (sgn s * m))
      \<and> 0 \<le> m \<and> m \<le> \<bar>cu\<bar> \<and> (\<bar>s\<bar> = \<bar>o'\<bar> \<longrightarrow> m = \<bar>cu\<bar>)))
    \<and> (\<bar>s\<bar> > \<bar>o'\<bar> \<longrightarrow> carryingForSettlement openCarrying openTransaction settled
        = Inl (NettingMathError ''a settlement cannot exceed the open amount''))"
proof -
  have eq: "carryingForSettlement openCarrying openTransaction settled = carryingForSettlement openCarrying openTransaction (fromUnits s)"
    using assms by (simp add: carryingForSettlement_def)
  have "0 \<le> round_quot (\<bar>cu\<bar> * \<bar>s\<bar>) \<bar>o'\<bar> \<and> round_quot (\<bar>cu\<bar> * \<bar>s\<bar>) \<bar>o'\<bar> \<le> \<bar>cu\<bar>" if le: "\<bar>s\<bar> \<le> \<bar>o'\<bar>"
  proof -
    have o0: "0 < \<bar>o'\<bar>" using le assms(4) by simp
    have "round_quot (\<bar>cu\<bar> * \<bar>s\<bar>) \<bar>o'\<bar> \<le> round_quot (\<bar>cu\<bar> * \<bar>o'\<bar>) \<bar>o'\<bar>"
      by (rule round_quot_mono [OF _ o0]) (use le in \<open>simp add: mult_left_mono\<close>)
    then show ?thesis using o0 by (simp add: round_quot_nonneg)
  qed
  moreover have "carryingForSettlement openCarrying openTransaction settled
      = Inl (NettingMathError ''a settlement cannot exceed the open amount'')" if "\<bar>s\<bar> > \<bar>o'\<bar>"
    using that assms by (simp add: carryingForSettlement_def)
  ultimately show ?thesis
    using carryingForSettlement_units [OF assms(1,2), of s] assms(4) unfolding eq by auto
qed

theorem carryingForSettlement_bounded_witness:
  "\<exists>m. carryingForSettlement ''1'' ''100'' ''1'' = Inr (fromUnits (sgn 10000 * m)) \<and> 0 \<le> m \<and> m \<le> 10000"
  using carryingForSettlement_bounded [of "''1''" 10000 "''100''" 1000000 "''1''" 10000] by auto

text \<open>
  The ledger lines of a carrying amount are exact.  Whenever \<open>carryingRateLines\<close> returns, each
  line's functional amount is the translation of its transaction amount at its own ten-decimal
  rate, and the lines sum to exactly the transaction amount and exactly the functional amount.
\<close>

theorem carryingRateLines_exact:
  assumes "toUnits txn = Inr t" "toUnits fun = Inr f" "carryingRateLines txn fun = Inr ls"
  shows "\<exists>us. list_all2 (\<lambda>l (a, b). line_exact l a b) ls us \<and> sum_list (map fst us) = t \<and> sum_list (map snd us) = f"
  by (rule carryingRateLines_exact_lines [OF assms])

theorem carryingRateLines_exact_witness:
  "\<exists>us. list_all2 (\<lambda>l (a, b). line_exact l a b)
      [\<lparr>tl_txnAmount = ''-3.0000'', tl_fxRate = ''0.3333333333'', tl_amount = ''-1.0000''\<rparr>] us
    \<and> sum_list (map fst us) = - 30000 \<and> sum_list (map snd us) = - 10000"
proof -
  have t: "toUnits ''-3'' = Inr (- 30000)" "toUnits ''-1'' = Inr (- 10000)" by code_simp+
  have l: "carryingRateLines ''-3'' ''-1''
      = Inr [\<lparr>tl_txnAmount = ''-3.0000'', tl_fxRate = ''0.3333333333'', tl_amount = ''-1.0000''\<rparr>]" by code_simp
  show ?thesis by (rule carryingRateLines_exact [OF t l])
qed

text \<open>
  C40: \<open>carryingRateLines\<close> refuses nothing of ordinary size: for amounts of the same sign, below a
  million transaction units and at a rate of at most \<open>10 ^ 8\<close>, it returns, and with a single line.
\<close>

theorem carryingRateLines_returns:
  assumes "toUnits txn = Inr t" "toUnits fun = Inr f" "t \<noteq> 0" "f \<noteq> 0" "(t < 0) = (f < 0)"
    and "\<bar>t\<bar> < 10 ^ 10" "\<bar>f\<bar> \<le> 10 ^ 8 * \<bar>t\<bar>"
  shows "\<exists>l. carryingRateLines txn fun = Inr [l]"
  by (rule carryingRateLines_single [OF assms])

theorem carryingRateLines_returns_witness: "\<exists>l. carryingRateLines ''100'' ''1'' = Inr [l]"
  by (rule carryingRateLines_returns [of _ 1000000 _ 10000]) simp_all

end
