(* ===== verification/Tax.thy ===== *)
theory Tax
  imports Money
begin

text \<open>
  \<open>engine/src/tax/tax.ts\<close>: indirect tax on a document line.  A profile of components (standard,
  withholding, reverse charge; inclusive or exclusive; compounding or not) is validated, the net of
  a tax-inclusive amount is found by integer binary search, and the components are calculated from
  the net with their own rounding.  Object identity of a configuration (\<open>config === adjustable\<close>) is
  its index in the validated list, where every tax code occurs once.
\<close>

section \<open>Configuration\<close>

datatype tax_calculation_type = Standard | Withholding | Reverse_charge

record tax_component_config =
  tc_taxCodeId :: string
  tc_code :: "string option"
  tc_sequence :: int
  tc_ratePercent :: string
  tc_recoverablePercent :: "string option"
  tc_calculationType :: "tax_calculation_type option"
  tc_priceIncludesTax :: "bool option"
  tc_compoundOnPrevious :: "bool option"
  tc_roundingScale :: "int option"
  tc_collectedAccountId :: "string option"
  tc_paidAccountId :: "string option"
  tc_withholdingAccountId :: "string option"

record computed_tax_component =
  ct_taxCodeId :: string
  ct_code :: "string option"
  ct_sequence :: int
  ct_ratePercent :: string
  ct_recoverablePercent :: string
  ct_taxableAmount :: string
  ct_taxAmount :: string
  ct_recoverableAmount :: string
  ct_nonrecoverableAmount :: string
  ct_calculationType :: tax_calculation_type
  ct_priceIncludesTax :: bool
  ct_compoundOnPrevious :: bool
  ct_roundingScale :: int
  ct_collectedAccountId :: "string option"
  ct_paidAccountId :: "string option"
  ct_withholdingAccountId :: "string option"
  ct_overridden :: bool

record computed_line_tax =
  lt_inputAmount :: string
  lt_netAmount :: string
  lt_taxTotal :: string
  lt_total :: string
  lt_components :: "computed_tax_component list"
  lt_overridden :: bool

text \<open>\<open>field ?? default\<close>\<close>

definition or_default :: "'a option \<Rightarrow> 'a \<Rightarrow> 'a" where
  "or_default x d = (case x of Some v \<Rightarrow> v | None \<Rightarrow> d)"

definition kind_of :: "tax_component_config \<Rightarrow> tax_calculation_type" where
  "kind_of c = or_default (tc_calculationType c) Standard"

definition recoverable_of :: "tax_component_config \<Rightarrow> string" where
  "recoverable_of c = or_default (tc_recoverablePercent c) ''100''"

definition scale_of :: "tax_component_config \<Rightarrow> int" where
  "scale_of c = or_default (tc_roundingScale c) 2"

definition includes_tax :: "tax_component_config \<Rightarrow> bool" where
  "includes_tax c = or_default (tc_priceIncludesTax c) False"

definition compounds :: "tax_component_config \<Rightarrow> bool" where
  "compounds c = or_default (tc_compoundOnPrevious c) False"

definition check_config :: "string list \<Rightarrow> tax_component_config \<Rightarrow> string list result" where
  "check_config seen c =
     bindE (ensure (tc_taxCodeId c \<noteq> []) (TaxCalculationError ''tax component is missing its tax code'')) (\<lambda>_.
     bindE (ensure (tc_taxCodeId c \<notin> set seen) (TaxCalculationError ''tax code occurs more than once'')) (\<lambda>_.
     bindE (rethrow (TaxCalculationError ''tax rate must be an exact decimal with at most 4 decimal places'')
       (toUnits (tc_ratePercent c))) (\<lambda>rateUnits.
     bindE (ensure (\<not> rateUnits < 0) (TaxCalculationError ''tax rate cannot be negative'')) (\<lambda>_.
     bindE (rethrow (TaxCalculationError ''recoverable percentage must be an exact decimal between 0 and 100'')
       (toUnits (recoverable_of c))) (\<lambda>recoverable.
     bindE (ensure (\<not> (recoverable < 0 \<or> recoverable > 100 * SCALE))
       (TaxCalculationError ''recoverable percentage must be between 0 and 100'')) (\<lambda>_.
     bindE (ensure (\<not> (scale_of c < 0 \<or> scale_of c > 4))
       (TaxCalculationError ''tax rounding scale must be an integer from 0 through 4'')) (\<lambda>_.
     bindE (ensure (\<not> (includes_tax c \<and> kind_of c \<noteq> Standard))
       (TaxCalculationError ''withholding and reverse-charge taxes cannot be price-inclusive'')) (\<lambda>_.
       Inr (tc_taxCodeId c # seen)))))))))"

definition validateConfig :: "tax_component_config list \<Rightarrow> tax_component_config list result" where
  "validateConfig components = (let sorted = js_sort (\<lambda>a b. tc_sequence a - tc_sequence b) components in
     bindE (foldE check_config [] sorted) (\<lambda>_.
     let standards = filter (\<lambda>c. kind_of c = Standard) sorted;
         inclusiveCount = length (filter includes_tax standards) in
     if inclusiveCount > 0 \<and> inclusiveCount \<noteq> length standards
     then Inl (TaxCalculationError ''a tax profile cannot mix inclusive and exclusive standard components'')
     else Inr sorted))"

section \<open>Calculating from the net\<close>

record tax_override =
  ov_amount :: string
  ov_includedOnly :: bool

definition eligible :: "tax_override option \<Rightarrow> tax_component_config \<Rightarrow> bool" where
  "eligible override config \<longleftrightarrow> kind_of config = Standard
     \<and> (case override of None \<Rightarrow> True | Some ov \<Rightarrow> \<not> ov_includedOnly ov \<or> includes_tax config)"

text \<open>\<open>[...configs].reverse().find(eligible)\<close>, as an index\<close>

definition last_index :: "('a \<Rightarrow> bool) \<Rightarrow> 'a list \<Rightarrow> nat option" where
  "last_index p xs = (let is = filter (\<lambda>i. p (xs ! i)) [0..<length xs] in if is = [] then None else Some (last is))"

record calc_state =
  cs_priorEligibleTax :: string
  cs_priorTax :: string
  cs_computed :: "computed_tax_component list"

definition computed_component ::
  "tax_component_config \<Rightarrow> string \<Rightarrow> string \<Rightarrow> string \<Rightarrow> string \<Rightarrow> bool \<Rightarrow> computed_tax_component result" where
  "computed_component config taxableAmount taxAmount recoverableAmount nonrecoverableAmount overridden =
     bindE (normalizeMoney (tc_ratePercent config)) (\<lambda>rate. bindE (normalizeMoney (recoverable_of config)) (\<lambda>rec.
       Inr \<lparr>ct_taxCodeId = tc_taxCodeId config, ct_code = tc_code config, ct_sequence = tc_sequence config,
            ct_ratePercent = rate, ct_recoverablePercent = rec, ct_taxableAmount = taxableAmount,
            ct_taxAmount = taxAmount, ct_recoverableAmount = recoverableAmount,
            ct_nonrecoverableAmount = nonrecoverableAmount, ct_calculationType = kind_of config,
            ct_priceIncludesTax = includes_tax config, ct_compoundOnPrevious = compounds config,
            ct_roundingScale = scale_of config, ct_collectedAccountId = tc_collectedAccountId config,
            ct_paidAccountId = tc_paidAccountId config, ct_withholdingAccountId = tc_withholdingAccountId config,
            ct_overridden = overridden\<rparr>))"

definition component_tax ::
  "string \<Rightarrow> tax_override option \<Rightarrow> bool \<Rightarrow> calc_state \<Rightarrow> tax_component_config \<Rightarrow> (string \<times> string) result" where
  "component_tax netAmount override adjusted s config =
     bindE (if compounds config then add_money netAmount (cs_priorTax s) else Inr netAmount) (\<lambda>taxableAmount.
     bindE (case (adjusted, override) of
         (True, Some ov) \<Rightarrow> bindE (normalizeMoney (ov_amount ov)) (\<lambda>a. bindE (toUnits a) (\<lambda>ua.
           bindE (toUnits (cs_priorEligibleTax s)) (\<lambda>up. Inr (fromUnits (ua - up)))))
       | _ \<Rightarrow> mulPercent taxableAmount (tc_ratePercent config) (scale_of config)) (\<lambda>taxAmount.
       Inr (taxableAmount, taxAmount)))"

definition calc_step ::
  "string \<Rightarrow> tax_override option \<Rightarrow> nat option \<Rightarrow> calc_state \<Rightarrow> nat \<times> tax_component_config \<Rightarrow> calc_state result" where
  "calc_step netAmount override adjustable s ic = (case ic of (index, config) \<Rightarrow>
     let adjusted = (adjustable = Some index) in
     bindE (component_tax netAmount override adjusted s config) (\<lambda>(taxableAmount, taxAmount).
     bindE (toUnits taxAmount) (\<lambda>ut.
     bindE (ensure (\<not> ut < 0) (TaxCalculationError ''manual tax override cannot make a component negative'')) (\<lambda>_.
     bindE (if eligible override config then add_money (cs_priorEligibleTax s) taxAmount
            else Inr (cs_priorEligibleTax s)) (\<lambda>priorEligibleTax.
     bindE (mulPercent taxAmount (recoverable_of config) 4) (\<lambda>recoverableAmount.
     bindE (toUnits recoverableAmount) (\<lambda>ur.
     bindE (computed_component config taxableAmount taxAmount recoverableAmount (fromUnits (ut - ur)) adjusted) (\<lambda>component.
     bindE (if kind_of config \<noteq> Withholding then add_money (cs_priorTax s) taxAmount else Inr (cs_priorTax s)) (\<lambda>priorTax.
       Inr \<lparr>cs_priorEligibleTax = priorEligibleTax, cs_priorTax = priorTax,
            cs_computed = cs_computed s @ [component]\<rparr>)))))))))"

definition calculateFromNet ::
  "string \<Rightarrow> tax_component_config list \<Rightarrow> tax_override option \<Rightarrow> computed_tax_component list result" where
  "calculateFromNet netAmount configs override =
     (let adjustable = (case override of None \<Rightarrow> None | Some _ \<Rightarrow> last_index (eligible override) configs) in
      if override \<noteq> None \<and> adjustable = None
      then Inl (TaxCalculationError ''a manual tax override requires a standard tax component'')
      else bindE (foldE (calc_step netAmount override adjustable)
             \<lparr>cs_priorEligibleTax = ''0'', cs_priorTax = ''0'', cs_computed = []\<rparr>
             (zip [0..<length configs] configs)) (\<lambda>s. Inr (cs_computed s)))"

definition includedStandardTax :: "computed_tax_component list \<Rightarrow> string result" where
  "includedStandardTax components =
     sum_money (map ct_taxAmount (filter (\<lambda>c. ct_calculationType c = Standard \<and> ct_priceIncludesTax c) components))"

section \<open>Extracting the net of an inclusive amount\<close>

definition components_at ::
  "tax_component_config list \<Rightarrow> string option \<Rightarrow> string \<Rightarrow> computed_tax_component list option result" where
  "components_at configs overrideAmount net = (case overrideAmount of
       None \<Rightarrow> bindE (calculateFromNet net configs None) (\<lambda>cs. Inr (Some cs))
     | Some amount \<Rightarrow>
         bindE (calculateFromNet net configs None) (\<lambda>original.
         let standards = filter (\<lambda>c. ct_calculationType c = Standard) original in
         if standards = []
         then Inl (TaxCalculationError ''a manual tax override requires a standard tax component'')
         else bindE (sum_money (map ct_taxAmount (butlast standards))) (\<lambda>fixed.
           bindE (toUnits fixed) (\<lambda>uf. bindE (toUnits amount) (\<lambda>ua.
             if uf > ua then Inr None
             else bindE (calculateFromNet net configs (Some \<lparr>ov_amount = amount, ov_includedOnly = False\<rparr>))
               (\<lambda>cs. Inr (Some cs)))))))"

text \<open>The gross of a candidate net, or nothing when the override cannot hold there.\<close>

definition gross_at :: "tax_component_config list \<Rightarrow> string option \<Rightarrow> int \<Rightarrow> int option result" where
  "gross_at configs overrideAmount net = bindE (components_at configs overrideAmount (fromUnits net)) (\<lambda>r.
     case r of None \<Rightarrow> Inr None
     | Some cs \<Rightarrow> bindE (includedStandardTax cs) (\<lambda>t. bindE (toUnits t) (\<lambda>u. Inr (Some (net + u)))))"

datatype search_outcome = Found int | Closed int int

lemma sdiv_mid: "(low::int) \<le> high \<Longrightarrow> low \<le> (low + high) sdiv 2 \<and> (low + high) sdiv 2 \<le> high"
  by (cases "0 \<le> low + high") (auto simp: signed_divide_int_def sgn_if)

function inclusive_search ::
  "(int \<Rightarrow> int option result) \<Rightarrow> int \<Rightarrow> int \<Rightarrow> int \<Rightarrow> search_outcome result" where
  "inclusive_search g target low high =
     (if low \<le> high then let mid = (low + high) sdiv 2 in
        bindE (g mid) (\<lambda>r. case r of
          None \<Rightarrow> inclusive_search g target low (mid - 1)
        | Some gross \<Rightarrow>
            if gross = target then Inr (Found mid)
            else if gross < target then inclusive_search g target (mid + 1) high
            else inclusive_search g target low (mid - 1))
      else Inr (Closed low high))"
  by pat_completeness auto
termination
  by (relation "measure (\<lambda>(g, target, low, high). nat (high - low + 1))")
    (use sdiv_mid in \<open>fastforce simp: nat_less_eq_zless\<close>)+

declare inclusive_search.simps [simp del]

definition candidate_step ::
  "(int \<Rightarrow> int option result) \<Rightarrow> int \<Rightarrow> int \<times> int option \<Rightarrow> int \<Rightarrow> (int \<times> int option) result" where
  "candidate_step g target acc candidate = (case acc of (best, bestDistance) \<Rightarrow>
     bindE (g candidate) (\<lambda>r. case r of
       None \<Rightarrow> Inr (best, bestDistance)
     | Some gross \<Rightarrow>
         let distance = (if gross \<ge> target then gross - target else target - gross) in
         Inr (if (case bestDistance of None \<Rightarrow> True
                  | Some d \<Rightarrow> distance < d \<or> (distance = d \<and> candidate < best))
              then (candidate, Some distance) else (best, bestDistance))))"

definition extractInclusiveNet ::
  "string \<Rightarrow> tax_component_config list \<Rightarrow> string option \<Rightarrow> string result" where
  "extractInclusiveNet inputAmount configs overrideAmount = bindE (toUnits inputAmount) (\<lambda>target.
     if target < 0 then Inl (TaxCalculationError ''tax input amount cannot be negative'')
     else bindE (inclusive_search (gross_at configs overrideAmount) target 0 target) (\<lambda>out.
       case out of
         Found net \<Rightarrow> Inr (fromUnits net)
       | Closed low high \<Rightarrow>
           let candidates = filter (\<lambda>u. 0 \<le> u \<and> u \<le> target) [high, low];
               best0 = (case candidates of [] \<Rightarrow> 0 | c # _ \<Rightarrow> c) in
           bindE (foldE (candidate_step (gross_at configs overrideAmount) target) (best0, None) candidates)
             (\<lambda>(best, bestDistance).
             if overrideAmount \<noteq> None \<and> bestDistance \<noteq> Some 0
             then Inl (TaxCalculationError ''manual tax override cannot reconcile to the tax-inclusive amount'')
             else Inr (fromUnits best))))"

section \<open>A line\<close>

record tax_options =
  to_overridden :: bool
  to_taxAmount :: "string option"

text \<open>\<open>opts.taxAmount == null || opts.taxAmount === ""\<close>\<close>

definition missing_amount :: "tax_options \<Rightarrow> bool" where
  "missing_amount opts \<longleftrightarrow> to_taxAmount opts = None \<or> to_taxAmount opts = Some []"

text \<open>Making an inclusive line cross-foot: the residue goes to the last included component.\<close>

definition cross_foot ::
  "string \<Rightarrow> string \<Rightarrow> tax_component_config list \<Rightarrow> computed_tax_component list \<Rightarrow> computed_tax_component list result" where
  "cross_foot canonicalInput netAmount configs components =
     bindE (toUnits canonicalInput) (\<lambda>ui. bindE (toUnits netAmount) (\<lambda>un.
     let expectedIncludedTax = fromUnits (ui - un) in
     bindE (includedStandardTax components) (\<lambda>computedIncludedTax.
     bindE (cmp_money expectedIncludedTax computedIncludedTax) (\<lambda>c.
       if c \<noteq> 0
       then calculateFromNet netAmount configs (Some \<lparr>ov_amount = expectedIncludedTax, ov_includedOnly = True\<rparr>)
       else Inr components))))"

definition line_totals :: "string \<Rightarrow> string \<Rightarrow> computed_tax_component list \<Rightarrow> computed_line_tax result" where
  "line_totals canonicalInput netAmount components =
     bindE (sum_money (map ct_taxAmount (filter (\<lambda>c. ct_calculationType c = Standard) components))) (\<lambda>standard.
     bindE (sum_money (map ct_taxAmount (filter (\<lambda>c. ct_calculationType c = Withholding) components))) (\<lambda>withholding.
     bindE (toUnits standard) (\<lambda>us. bindE (toUnits withholding) (\<lambda>uw.
     let taxTotal = fromUnits (us - uw) in
     bindE (add_money netAmount taxTotal) (\<lambda>tot.
       Inr \<lparr>lt_inputAmount = canonicalInput, lt_netAmount = netAmount, lt_taxTotal = taxTotal, lt_total = tot,
            lt_components = components, lt_overridden = list_ex ct_overridden components\<rparr>)))))"

text \<open>The line of a validated, non-empty profile, once the manual override has been read.\<close>

definition compute_configured ::
  "string \<Rightarrow> tax_component_config list \<Rightarrow> string option \<Rightarrow> computed_line_tax result" where
  "compute_configured canonicalInput configs manualOverride = (let inclusive = list_ex includes_tax configs in
     bindE (if inclusive then extractInclusiveNet canonicalInput configs manualOverride
            else Inr canonicalInput) (\<lambda>netAmount.
     bindE (calculateFromNet netAmount configs
       (case manualOverride of None \<Rightarrow> None | Some a \<Rightarrow> Some \<lparr>ov_amount = a, ov_includedOnly = False\<rparr>)) (\<lambda>components0.
     bindE (if inclusive \<and> manualOverride = None then cross_foot canonicalInput netAmount configs components0
            else Inr components0) (\<lambda>components.
       line_totals canonicalInput netAmount components))))"

definition compute_nonnegative ::
  "string \<Rightarrow> tax_component_config list \<Rightarrow> tax_options \<Rightarrow> computed_line_tax result" where
  "compute_nonnegative canonicalInput rawConfigs opts = bindE (validateConfig rawConfigs) (\<lambda>configs.
     if configs = [] then
       if to_overridden opts
       then Inl (TaxCalculationError ''a manual tax override requires a standard tax component'')
       else Inr \<lparr>lt_inputAmount = canonicalInput, lt_netAmount = canonicalInput, lt_taxTotal = ''0.0000'',
                 lt_total = canonicalInput, lt_components = [], lt_overridden = False\<rparr>
     else if to_overridden opts \<and> missing_amount opts
     then Inl (TaxCalculationError ''manual tax override is missing its amount'')
     else bindE (if to_overridden opts
                 then bindE (normalizeMoney (or_default (to_taxAmount opts) [])) (\<lambda>a. Inr (Some a))
                 else Inr None) (\<lambda>manualOverride. compute_configured canonicalInput configs manualOverride))"

definition neg_text :: "string \<Rightarrow> string result" where
  "neg_text a = bindE (toUnits a) (\<lambda>u. Inr (fromUnits (- u)))"

definition negate_component :: "computed_tax_component \<Rightarrow> computed_tax_component result" where
  "negate_component c = bindE (neg_text (ct_taxableAmount c)) (\<lambda>a. bindE (neg_text (ct_taxAmount c)) (\<lambda>b.
     bindE (neg_text (ct_recoverableAmount c)) (\<lambda>d. bindE (neg_text (ct_nonrecoverableAmount c)) (\<lambda>e.
       Inr (c\<lparr>ct_taxableAmount := a, ct_taxAmount := b, ct_recoverableAmount := d, ct_nonrecoverableAmount := e\<rparr>)))))"

definition negate_line :: "string \<Rightarrow> computed_line_tax \<Rightarrow> computed_line_tax result" where
  "negate_line canonicalInput magnitude = bindE (neg_text (lt_netAmount magnitude)) (\<lambda>n.
     bindE (neg_text (lt_taxTotal magnitude)) (\<lambda>t. bindE (neg_text (lt_total magnitude)) (\<lambda>tot.
     bindE (traverse negate_component (lt_components magnitude)) (\<lambda>cs.
       Inr (magnitude\<lparr>lt_inputAmount := canonicalInput, lt_netAmount := n, lt_taxTotal := t, lt_total := tot,
                      lt_components := cs\<rparr>)))))"

definition computeLineTaxes ::
  "string \<Rightarrow> tax_component_config list \<Rightarrow> tax_options \<Rightarrow> computed_line_tax result" where
  "computeLineTaxes inputAmount rawConfigs opts =
     bindE (normalizeMoney inputAmount) (\<lambda>canonicalInput. bindE (toUnits canonicalInput) (\<lambda>inputUnits.
     if inputUnits < 0 then
       bindE (if missing_amount opts then Inr None
              else bindE (normalizeMoney (or_default (to_taxAmount opts) [])) (\<lambda>a.
                bindE (toUnits a) (\<lambda>u. Inr (Some u)))) (\<lambda>overrideUnits.
       if (case overrideUnits of None \<Rightarrow> False | Some u \<Rightarrow> u > 0)
       then Inl (TaxCalculationError ''tax override must have the same sign as its taxable amount'')
       else bindE (compute_nonnegative (fromUnits (- inputUnits)) rawConfigs
           (if to_overridden opts
            then \<lparr>to_overridden = True, to_taxAmount =
                   (case overrideUnits of None \<Rightarrow> to_taxAmount opts | Some u \<Rightarrow> Some (fromUnits (- u)))\<rparr>
            else opts)) (\<lambda>magnitude. negate_line canonicalInput magnitude))
     else compute_nonnegative canonicalInput rawConfigs opts))"

section \<open>One code\<close>

record tax_resolution =
  tr_taxAmount :: string
  tr_computed :: string
  tr_overridden :: bool

definition computeLineTax :: "string \<Rightarrow> string \<Rightarrow> string result" where
  "computeLineTax amount ratePercent = bindE (normalizeMoney amount) (\<lambda>a. mulPercent a ratePercent 2)"

definition resolveLineTax :: "string \<Rightarrow> string \<Rightarrow> tax_options \<Rightarrow> tax_resolution result" where
  "resolveLineTax amount ratePercent opts = bindE (computeLineTax amount ratePercent) (\<lambda>computed.
     if to_overridden opts \<and> \<not> missing_amount opts
     then bindE (normalizeMoney (or_default (to_taxAmount opts) [])) (\<lambda>a.
       Inr \<lparr>tr_taxAmount = a, tr_computed = computed, tr_overridden = True\<rparr>)
     else Inr \<lparr>tr_taxAmount = computed, tr_computed = computed, tr_overridden = False\<rparr>)"

definition taxVaries :: "tax_resolution \<Rightarrow> bool result" where
  "taxVaries res = bindE (toUnits (tr_taxAmount res)) (\<lambda>a. bindE (toUnits (tr_computed res)) (\<lambda>b.
     let delta = a - b in
     Inr (tr_overridden res \<and> (if delta < 0 then - delta else delta) > 50)))"

section \<open>What one component consists of\<close>

text \<open>
  A computed component: its tax is a ledger amount that is not negative, and its recoverable and
  nonrecoverable parts add up to it.
\<close>

definition component_units :: "computed_tax_component \<Rightarrow> int \<Rightarrow> bool" where
  "component_units c t \<longleftrightarrow> toUnits (ct_taxAmount c) = Inr t \<and> 0 \<le> t
     \<and> (\<exists>r ta. ct_recoverableAmount c = fromUnits r \<and> ct_nonrecoverableAmount c = fromUnits (t - r)
          \<and> toUnits (ct_taxableAmount c) = Inr ta)"

definition tax_of :: "computed_tax_component \<Rightarrow> int" where
  "tax_of c = (case toUnits (ct_taxAmount c) of Inr t \<Rightarrow> t | Inl _ \<Rightarrow> 0)"

lemma component_units_tax_of: "component_units c t \<Longrightarrow> tax_of c = t"
  by (simp add: component_units_def tax_of_def)

definition component_ok :: "computed_tax_component \<Rightarrow> bool" where
  "component_ok c \<longleftrightarrow> component_units c (tax_of c)"

lemma component_okI: "component_units c t \<Longrightarrow> component_ok c"
  by (simp add: component_ok_def component_units_tax_of)

lemma component_ok_tax: "component_ok c \<Longrightarrow> toUnits (ct_taxAmount c) = Inr (tax_of c) \<and> 0 \<le> tax_of c"
  by (simp add: component_ok_def component_units_def)

lemma traverse_tax: "\<forall>c \<in> set cs. component_ok c \<Longrightarrow> traverse toUnits (map ct_taxAmount cs) = Inr (map tax_of cs)"
  by (induction cs) (auto simp: component_ok_tax)

lemma mulPercent_text: "mulPercent a p dp = Inr t \<Longrightarrow> \<exists>u. t = fromUnits u"
  by (auto simp: mulPercent_def Let_def result_simps split: if_splits prod.splits)

lemma mulPercent_amount: "mulPercent a p dp = Inr t \<Longrightarrow> \<exists>u. toUnits a = Inr u"
  by (auto simp: mulPercent_def Let_def result_simps split: if_splits prod.splits)

definition eligible_component :: "tax_override option \<Rightarrow> computed_tax_component \<Rightarrow> bool" where
  "eligible_component override c \<longleftrightarrow> ct_calculationType c = Standard
     \<and> (case override of None \<Rightarrow> True | Some ov \<Rightarrow> \<not> ov_includedOnly ov \<or> ct_priceIncludesTax c)"

text \<open>Inversion of one step.\<close>

lemma calc_step_Inr:
  assumes "calc_step net ov adj s (i, c) = Inr s'" "toUnits (cs_priorEligibleTax s) = Inr pe"
    "toUnits (cs_priorTax s) = Inr pt" "toUnits net = Inr n"
  obtains comp t where "cs_computed s' = cs_computed s @ [comp]" "component_units comp t"
    "ct_calculationType comp = kind_of c" "ct_priceIncludesTax comp = includes_tax c"
    "toUnits (cs_priorEligibleTax s') = Inr (if eligible ov c then pe + t else pe)"
    "toUnits (cs_priorTax s') = Inr (if kind_of c \<noteq> Withholding then pt + t else pt)"
    "\<And>o'. adj = Some i \<Longrightarrow> ov = Some o' \<Longrightarrow> toUnits (ov_amount o') = Inr (pe + t)"
proof -
  from assms(1) obtain ta tx ut pe' rec ur comp pt' where
    ct: "component_tax net ov (adj = Some i) s c = Inr (ta, tx)" and ut: "toUnits tx = Inr ut" "\<not> ut < 0"
    and pe': "(if eligible ov c then add_money (cs_priorEligibleTax s) tx else Inr (cs_priorEligibleTax s)) = Inr pe'"
    and rec: "mulPercent tx (recoverable_of c) 4 = Inr rec" "toUnits rec = Inr ur"
    and comp: "computed_component c ta tx rec (fromUnits (ut - ur)) (adj = Some i) = Inr comp"
    and pt': "(if kind_of c \<noteq> Withholding then add_money (cs_priorTax s) tx else Inr (cs_priorTax s)) = Inr pt'"
    and s': "s' = \<lparr>cs_priorEligibleTax = pe', cs_priorTax = pt', cs_computed = cs_computed s @ [comp]\<rparr>"
    unfolding calc_step_def Let_def prod.case
    by (elim bindE_InrE) (auto simp: ensure_Inr_iff elim!: bindE_InrE split: prod.splits)
  have fields: "ct_taxAmount comp = tx" "ct_recoverableAmount comp = rec" "ct_nonrecoverableAmount comp = fromUnits (ut - ur)"
    "ct_calculationType comp = kind_of c" "ct_priceIncludesTax comp = includes_tax c" "ct_taxableAmount comp = ta"
    using comp by (auto simp: computed_component_def elim!: bindE_InrE)
  have "rec = fromUnits ur" using mulPercent_text [OF rec(1)] rec(2) by auto
  moreover have "\<exists>ua. toUnits ta = Inr ua"
    using ct assms(3,4) unfolding component_tax_def
    by (elim bindE_InrE) (auto simp: add_money_def split: if_splits elim!: bindE_InrE)
  ultimately have cu: "component_units comp ut" using ut fields by (auto simp: component_units_def)
  have "toUnits pe' = Inr (if eligible ov c then pe + ut else pe)"
    using pe' assms(2) ut by (auto simp: add_money_units split: if_splits)
  moreover have "toUnits pt' = Inr (if kind_of c \<noteq> Withholding then pt + ut else pt)"
    using pt' assms(3) ut by (auto simp: add_money_units split: if_splits)
  moreover have "toUnits (ov_amount o') = Inr (pe + ut)" if "adj = Some i" "ov = Some o'" for o'
    using ct ut that assms(2) unfolding component_tax_def
    by (elim bindE_InrE) (auto simp: normalizeMoney_def elim!: bindE_InrE)
  ultimately show thesis using s' cu fields(4,5) by (intro that [of comp ut]) simp_all
qed

text \<open>Invariant of the loop: the running eligible tax is the sum of the eligible components so far.\<close>

definition calc_inv :: "tax_override option \<Rightarrow> calc_state \<Rightarrow> bool" where
  "calc_inv ov s \<longleftrightarrow> (\<forall>c \<in> set (cs_computed s). component_ok c) \<and> (\<exists>pt. toUnits (cs_priorTax s) = Inr pt)
     \<and> toUnits (cs_priorEligibleTax s) = Inr (sum_list (map tax_of (filter (eligible_component ov) (cs_computed s))))"

lemma calc_inv_step:
  assumes "toUnits net = Inr n" "calc_inv ov s" "calc_step net ov adj s ic = Inr s'"
  shows "calc_inv ov s'"
proof -
  obtain i c where ic: "ic = (i, c)" by (cases ic)
  obtain pt where pt: "toUnits (cs_priorTax s) = Inr pt" using assms(2) by (auto simp: calc_inv_def)
  have pe: "toUnits (cs_priorEligibleTax s) = Inr (sum_list (map tax_of (filter (eligible_component ov) (cs_computed s))))"
    using assms(2) by (simp add: calc_inv_def)
  obtain comp t where st: "cs_computed s' = cs_computed s @ [comp]" "component_units comp t"
    "ct_calculationType comp = kind_of c" "ct_priceIncludesTax comp = includes_tax c"
    "toUnits (cs_priorEligibleTax s') = Inr (if eligible ov c then sum_list (map tax_of (filter (eligible_component ov) (cs_computed s))) + t
       else sum_list (map tax_of (filter (eligible_component ov) (cs_computed s))))"
    "toUnits (cs_priorTax s') = Inr (if kind_of c \<noteq> Withholding then pt + t else pt)"
    by (rule calc_step_Inr [OF assms(3) [unfolded ic] pe pt assms(1)])
  have "eligible_component ov comp = eligible ov c" using st(3,4)
    by (simp add: eligible_component_def eligible_def split: option.split)
  then show ?thesis using assms(2) st component_okI [OF st(2)] component_units_tax_of [OF st(2)]
    by (auto simp: calc_inv_def)
qed

lemma calculateFromNet_ok:
  assumes "calculateFromNet net configs ov = Inr cs" "toUnits net = Inr n"
  shows "\<forall>c \<in> set cs. component_ok c"
proof -
  define adj where "adj = (case ov of None \<Rightarrow> None | Some _ \<Rightarrow> last_index (eligible ov) configs)"
  obtain s where f: "foldE (calc_step net ov adj) \<lparr>cs_priorEligibleTax = ''0'', cs_priorTax = ''0'', cs_computed = []\<rparr>
      (zip [0..<length configs] configs) = Inr s" and cs: "cs = cs_computed s"
    using assms(1) unfolding calculateFromNet_def Let_def adj_def [symmetric] by (auto elim!: bindE_InrE split: if_splits)
  have "calc_inv ov s"
    by (rule foldE_invariant [where P = "calc_inv ov", OF f])
      (simp add: calc_inv_def, rule calc_inv_step [OF assms(2)])
  then show ?thesis by (simp add: calc_inv_def cs)
qed

section \<open>An override is met exactly\<close>

lemma last_index_Some:
  assumes "last_index p xs = Some j"
  shows "j < length xs" "p (xs ! j)" "\<And>k. j < k \<Longrightarrow> k < length xs \<Longrightarrow> \<not> p (xs ! k)"
proof -
  let ?is = "filter (\<lambda>i. p (xs ! i)) [0..<length xs]"
  have j: "?is \<noteq> []" "j = last ?is" using assms by (auto simp: last_index_def Let_def split: if_splits)
  then have "j \<in> set ?is" using last_in_set by blast
  then show "j < length xs" "p (xs ! j)" by simp_all
  have sorted: "sorted ?is" by (rule sorted_wrt_filter) simp
  show "\<not> p (xs ! k)" if "j < k" "k < length xs" for k
  proof
    assume "p (xs ! k)"
    then have "k \<in> set ?is" using that by simp
    then obtain m where m: "m < length ?is" "?is ! m = k" unfolding in_set_conv_nth by blast
    have "?is ! m \<le> ?is ! (length ?is - 1)" using sorted m(1) by (intro sorted_nth_mono) auto
    then show False using m j that(1) by (simp add: last_conv_nth)
  qed
qed

text \<open>From index \<open>i\<close> on: once the adjusted component is past, nothing eligible follows.\<close>

lemma calc_loop_override:
  assumes "foldE (calc_step net (Some ov) (Some j)) s (zip [i..<i + length cs] cs) = Inr s'"
    and "toUnits net = Inr n" "toUnits (cs_priorEligibleTax s) = Inr pe" "toUnits (cs_priorTax s) = Inr pt"
    and "toUnits (ov_amount ov) = Inr ua"
    and "\<forall>k < length cs. j < i + k \<longrightarrow> \<not> eligible (Some ov) (cs ! k)"
    and "\<forall>k < length cs. i + k = j \<longrightarrow> eligible (Some ov) (cs ! k)"
    and "j < i + length cs" "j < i \<longrightarrow> pe = ua"
  shows "toUnits (cs_priorEligibleTax s') = Inr ua"
  using assms
proof (induction cs arbitrary: i s pe pt)
  case Nil
  then show ?case by simp
next
  case (Cons c cs)
  have z: "zip [i..<i + length (c # cs)] (c # cs) = (i, c) # zip [Suc i..<Suc i + length cs] cs"
    by (simp add: upt_conv_Cons del: upt_Suc)
  from Cons.prems(1) obtain s1 where s1: "calc_step net (Some ov) (Some j) s (i, c) = Inr s1"
    "foldE (calc_step net (Some ov) (Some j)) s1 (zip [Suc i..<Suc i + length cs] cs) = Inr s'"
    unfolding z by (auto elim!: bindE_InrE)
  obtain t where t: "toUnits (cs_priorEligibleTax s1) = Inr (if eligible (Some ov) c then pe + t else pe)"
    "toUnits (cs_priorTax s1) = Inr (if kind_of c \<noteq> Withholding then pt + t else pt)"
    "Some j = Some i \<Longrightarrow> toUnits (ov_amount ov) = Inr (pe + t)"
    by (rule calc_step_Inr [OF s1(1) Cons.prems(3,4,2)]) blast
  have el: "j < i \<Longrightarrow> \<not> eligible (Some ov) c" "i = j \<Longrightarrow> eligible (Some ov) c"
    using Cons.prems(6,7) by (auto dest: spec [of _ 0])
  have later: "\<forall>k < length cs. j < Suc i + k \<longrightarrow> \<not> eligible (Some ov) (cs ! k)"
    "\<forall>k < length cs. Suc i + k = j \<longrightarrow> eligible (Some ov) (cs ! k)"
  proof (intro allI impI)
    fix k assume "k < length cs" "j < Suc i + k"
    then show "\<not> eligible (Some ov) (cs ! k)" using spec [OF Cons.prems(6), of "Suc k"] by simp
  next
    show "\<forall>k < length cs. Suc i + k = j \<longrightarrow> eligible (Some ov) (cs ! k)"
    proof (intro allI impI)
      fix k assume "k < length cs" "Suc i + k = j"
      then show "eligible (Some ov) (cs ! k)" using spec [OF Cons.prems(7), of "Suc k"] by simp
    qed
  qed
  have "(if eligible (Some ov) c then pe + t else pe) = ua" if "j < Suc i"
  proof (cases "j = i")
    case True
    then show ?thesis using t(3) el(2) Cons.prems(5) by simp
  next
    case False
    then show ?thesis using that el(1) Cons.prems(9) by simp
  qed
  then show ?case using Cons.IH [OF s1(2) Cons.prems(2) t(1,2) Cons.prems(5) later] Cons.prems(8) by simp
qed

lemma calculateFromNet_override:
  assumes "calculateFromNet net configs (Some ov) = Inr cs" "toUnits net = Inr n" "toUnits (ov_amount ov) = Inr ua"
  shows "sum_list (map tax_of (filter (eligible_component (Some ov)) cs)) = ua"
proof -
  obtain j where j: "last_index (eligible (Some ov)) configs = Some j"
    using assms(1) by (auto simp: calculateFromNet_def Let_def split: if_splits)
  obtain s where f: "foldE (calc_step net (Some ov) (Some j)) \<lparr>cs_priorEligibleTax = ''0'', cs_priorTax = ''0'', cs_computed = []\<rparr>
      (zip [0..<0 + length configs] configs) = Inr s" and cs: "cs = cs_computed s"
    using assms(1) by (auto simp: calculateFromNet_def j elim!: bindE_InrE)
  have "calc_inv (Some ov) s"
    by (rule foldE_invariant [where P = "calc_inv (Some ov)", OF f])
      (simp add: calc_inv_def, rule calc_inv_step [OF assms(2)])
  moreover have "toUnits (cs_priorEligibleTax s) = Inr ua"
    by (rule calc_loop_override [OF f assms(2) _ _ assms(3)]) (use last_index_Some [OF j] in auto)
  ultimately show ?thesis by (simp add: calc_inv_def cs)
qed

section \<open>Cross-footing\<close>

definition included :: "computed_tax_component \<Rightarrow> bool" where
  "included c \<longleftrightarrow> ct_calculationType c = Standard \<and> ct_priceIncludesTax c"

lemma cross_foot_included:
  assumes "cross_foot (fromUnits ui) net configs comps = Inr cs" "toUnits net = Inr n" "\<forall>c \<in> set comps. component_ok c"
  shows "sum_list (map tax_of (filter included cs)) = ui - n \<and> (\<forall>c \<in> set cs. component_ok c)"
proof -
  have inc: "includedStandardTax comps = Inr (fromUnits (sum_list (map tax_of (filter included comps))))"
    unfolding includedStandardTax_def included_def [symmetric]
    by (rule sum_money_units, rule traverse_tax) (use assms(3) in auto)
  let ?ov = "\<lparr>ov_amount = fromUnits (ui - n), ov_includedOnly = True\<rparr>"
  have r: "(if ui - n \<noteq> sum_list (map tax_of (filter included comps)) then calculateFromNet net configs (Some ?ov) else Inr comps) = Inr cs"
    using assms(1,2) unfolding cross_foot_def Let_def
    by (simp add: inc cmp_money_units [OF toUnits_fromUnits toUnits_fromUnits] sgn_eq_0_iff)
  show ?thesis
  proof (cases "ui - n = sum_list (map tax_of (filter included comps))")
    case True
    then show ?thesis using r assms(3) by simp
  next
    case False
    then have c: "calculateFromNet net configs (Some ?ov) = Inr cs" using r by simp
    have "eligible_component (Some ?ov) = included" by (rule ext) (simp add: eligible_component_def included_def)
    with calculateFromNet_override [OF c assms(2), of "ui - n"] calculateFromNet_ok [OF c assms(2)]
    show ?thesis by simp
  qed
qed

section \<open>Lines\<close>

definition tax_sum :: "(computed_tax_component \<Rightarrow> bool) \<Rightarrow> computed_tax_component list \<Rightarrow> int" where
  "tax_sum p cs = sum_list (map tax_of (filter p cs))"

abbreviation is_standard :: "computed_tax_component \<Rightarrow> bool" where
  "is_standard c \<equiv> ct_calculationType c = Standard"

abbreviation is_withholding :: "computed_tax_component \<Rightarrow> bool" where
  "is_withholding c \<equiv> ct_calculationType c = Withholding"

text \<open>A line whose amounts fit together: the total is the net plus standard less withholding tax.\<close>

definition line_units :: "computed_line_tax \<Rightarrow> int \<Rightarrow> bool" where
  "line_units line n \<longleftrightarrow> toUnits (lt_netAmount line) = Inr n
     \<and> toUnits (lt_taxTotal line) = Inr (tax_sum is_standard (lt_components line) - tax_sum is_withholding (lt_components line))
     \<and> toUnits (lt_total line)
         = Inr (n + tax_sum is_standard (lt_components line) - tax_sum is_withholding (lt_components line))"

lemma sum_taxes:
  assumes "\<forall>c \<in> set cs. component_ok c"
  shows "sum_money (map ct_taxAmount (filter p cs)) = Inr (fromUnits (tax_sum p cs))"
  unfolding tax_sum_def by (rule sum_money_units, rule traverse_tax) (use assms in auto)

lemma line_totals_units:
  assumes "line_totals inp net cs = Inr line" "toUnits net = Inr n" "\<forall>c \<in> set cs. component_ok c"
  shows "lt_components line = cs \<and> line_units line n"
  using assms(1,2) unfolding line_totals_def sum_taxes [OF assms(3)]
  by (auto simp: line_units_def add_money_units [OF assms(2) toUnits_fromUnits] Let_def add_diff_eq)

lemma calculateFromNet_kinds:
  assumes "calculateFromNet net configs ov = Inr cs" "toUnits net = Inr n" "cmpt \<in> set cs"
  shows "\<exists>c \<in> set configs. ct_calculationType cmpt = kind_of c \<and> ct_priceIncludesTax cmpt = includes_tax c"
proof -
  define adj where "adj = (case ov of None \<Rightarrow> None | Some _ \<Rightarrow> last_index (eligible ov) configs)"
  let ?P = "\<lambda>s. calc_inv ov s \<and> (\<forall>cmpt \<in> set (cs_computed s). \<exists>c \<in> set configs.
      ct_calculationType cmpt = kind_of c \<and> ct_priceIncludesTax cmpt = includes_tax c)"
  obtain s where f: "foldE (calc_step net ov adj) \<lparr>cs_priorEligibleTax = ''0'', cs_priorTax = ''0'', cs_computed = []\<rparr>
      (zip [0..<length configs] configs) = Inr s" and cs: "cs = cs_computed s"
    using assms(1) unfolding calculateFromNet_def Let_def adj_def [symmetric] by (auto elim!: bindE_InrE split: if_splits)
  have "?P s"
  proof (rule foldE_invariant [where P = ?P, OF f])
    show "?P \<lparr>cs_priorEligibleTax = ''0'', cs_priorTax = ''0'', cs_computed = []\<rparr>" by (simp add: calc_inv_def)
    fix s ic s' assume P: "?P s" and mem: "ic \<in> set (zip [0..<length configs] configs)" and st: "calc_step net ov adj s ic = Inr s'"
    obtain i c where ic: "ic = (i, c)" by (cases ic)
    then have c: "c \<in> set configs" using mem by (auto dest: set_zip_rightD)
    from P obtain pe pt where "toUnits (cs_priorEligibleTax s) = Inr pe" "toUnits (cs_priorTax s) = Inr pt"
      by (auto simp: calc_inv_def)
    then obtain cmpt where "cs_computed s' = cs_computed s @ [cmpt]"
      "ct_calculationType cmpt = kind_of c" "ct_priceIncludesTax cmpt = includes_tax c"
      by (rule calc_step_Inr [OF st [unfolded ic] _ _ assms(2)]) blast
    then show "?P s'" using P c calc_inv_step [OF assms(2) _ st] by auto
  qed
  then show ?thesis using assms(3) cs by blast
qed

lemma validateConfig_inclusive:
  assumes "validateConfig raw = Inr configs" "list_ex includes_tax configs" "c \<in> set configs" "kind_of c = Standard"
  shows "includes_tax c"
proof -
  let ?sorted = "js_sort (\<lambda>a b. tc_sequence a - tc_sequence b) raw"
  let ?st = "filter (\<lambda>c. kind_of c = Standard) ?sorted"
  obtain seen where f: "foldE check_config [] ?sorted = Inr seen" and c: "configs = ?sorted"
    and m: "\<not> (length (filter includes_tax ?st) > 0 \<and> length (filter includes_tax ?st) \<noteq> length ?st)"
    using assms(1) unfolding validateConfig_def Let_def by (auto elim!: bindE_InrE split: if_splits)
  have "\<forall>c \<in> set ?sorted. includes_tax c \<longrightarrow> kind_of c = Standard"
  proof -
    have "\<forall>c \<in> set xs. includes_tax c \<longrightarrow> kind_of c = Standard" if "foldE check_config s xs = Inr t" for s xs t
      using that
    proof (induction xs arbitrary: s)
      case (Cons x xs)
      from Cons.prems obtain s' where x: "check_config s x = Inr s'" and r: "foldE check_config s' xs = Inr t"
        by (auto elim!: bindE_InrE)
      have "includes_tax x \<longrightarrow> kind_of x = Standard"
        using x unfolding check_config_def by (auto elim!: bindE_InrE simp: ensure_Inr_iff)
      with Cons.IH [OF r] show ?case by simp
    qed simp
    with f show ?thesis by blast
  qed
  then have "length (filter includes_tax ?st) > 0" using assms(2) c by (auto simp: list_ex_iff filter_empty_conv)
  with m have "length (filter includes_tax ?st) = length ?st" by simp
  then have "\<forall>c \<in> set ?st. includes_tax c" using length_filter_less [of _ ?st includes_tax] by (metis less_irrefl)
  with assms(3,4) c show ?thesis by auto
qed

lemma standard_included:
  assumes "validateConfig raw = Inr configs" "list_ex includes_tax configs"
    and "calculateFromNet net configs ov = Inr cs" "toUnits net = Inr n"
  shows "tax_sum included cs = tax_sum is_standard cs"
proof -
  have "\<forall>c \<in> set cs. included c \<longleftrightarrow> is_standard c"
  proof
    fix c assume "c \<in> set cs"
    then obtain d where "d \<in> set configs" "ct_calculationType c = kind_of d" "ct_priceIncludesTax c = includes_tax d"
      using calculateFromNet_kinds [OF assms(3,4)] by blast
    then show "included c \<longleftrightarrow> is_standard c"
      using validateConfig_inclusive [OF assms(1,2), of d] by (auto simp: included_def)
  qed
  then have "filter included cs = filter is_standard cs" by (intro filter_cong) auto
  then show ?thesis by (simp add: tax_sum_def)
qed

lemma extractInclusiveNet_text: "extractInclusiveNet inp configs ov = Inr t \<Longrightarrow> \<exists>n. t = fromUnits n"
  unfolding extractInclusiveNet_def Let_def
  by (auto elim!: bindE_InrE split: if_splits search_outcome.splits)

text \<open>What a computed line of a non-negative amount satisfies.\<close>

definition line_ok :: "int \<Rightarrow> bool \<Rightarrow> computed_line_tax \<Rightarrow> bool" where
  "line_ok u inclusive line \<longleftrightarrow> (\<forall>c \<in> set (lt_components line). component_ok c)
     \<and> (\<exists>n. line_units line n
          \<and> (inclusive \<longrightarrow> n + tax_sum is_standard (lt_components line) = u))"

lemma cross_foot_standard:
  assumes v: "validateConfig raw = Inr configs" "list_ex includes_tax configs" and n: "toUnits net = Inr n"
    and c0: "calculateFromNet net configs None = Inr cs0" and cf: "cross_foot (fromUnits u) net configs cs0 = Inr cs"
  shows "(\<forall>c \<in> set cs. component_ok c) \<and> n + tax_sum is_standard cs = u"
proof -
  have ok0: "\<forall>c \<in> set cs0. component_ok c" by (rule calculateFromNet_ok [OF c0 n])
  have inc: "tax_sum included cs = u - n" "\<forall>c \<in> set cs. component_ok c"
    using cross_foot_included [OF cf n ok0] by (simp_all add: tax_sum_def)
  have "cs = cs0 \<or> (\<exists>ov. calculateFromNet net configs ov = Inr cs)"
    using cf unfolding cross_foot_def Let_def by (auto elim!: bindE_InrE split: if_splits)
  then have "\<exists>ov. calculateFromNet net configs ov = Inr cs" using c0 by blast
  then have "tax_sum included cs = tax_sum is_standard cs" using standard_included [OF v _ n] by blast
  with inc show ?thesis by simp
qed

lemma compute_configured_ok:
  assumes "compute_configured (fromUnits u) configs mo = Inr line" "validateConfig raw = Inr configs"
  shows "line_ok u (list_ex includes_tax configs \<and> mo = None) line"
proof -
  from assms(1) obtain net cs0 cs where
    net: "(if list_ex includes_tax configs then extractInclusiveNet (fromUnits u) configs mo else Inr (fromUnits u)) = Inr net"
    and c0: "calculateFromNet net configs (case mo of None \<Rightarrow> None | Some a \<Rightarrow> Some \<lparr>ov_amount = a, ov_includedOnly = False\<rparr>) = Inr cs0"
    and cs: "(if list_ex includes_tax configs \<and> mo = None then cross_foot (fromUnits u) net configs cs0 else Inr cs0) = Inr cs"
    and line: "line_totals (fromUnits u) net cs = Inr line"
    unfolding compute_configured_def Let_def by (elim bindE_InrE) blast
  obtain n where n: "toUnits net = Inr n"
    using net extractInclusiveNet_text by (fastforce split: if_splits)
  have ok: "(\<forall>c \<in> set cs. component_ok c)
      \<and> (list_ex includes_tax configs \<and> mo = None \<longrightarrow> n + tax_sum is_standard cs = u)"
  proof (cases "list_ex includes_tax configs \<and> mo = None")
    case True
    then show ?thesis using cross_foot_standard [OF assms(2) _ n] c0 cs by auto
  next
    case False
    then have "cs = cs0" using cs by (auto split: if_splits)
    with calculateFromNet_ok [OF c0 n] False show ?thesis by auto
  qed
  from ok line_totals_units [OF line n] show ?thesis unfolding line_ok_def by auto
qed

lemma compute_nonnegative_ok:
  assumes "compute_nonnegative (fromUnits u) raw opts = Inr line" "validateConfig raw = Inr configs"
  shows "line_ok u (list_ex includes_tax configs \<and> \<not> to_overridden opts) line"
proof (cases "configs = []")
  case True
  then have "line = \<lparr>lt_inputAmount = fromUnits u, lt_netAmount = fromUnits u, lt_taxTotal = ''0.0000'',
      lt_total = fromUnits u, lt_components = [], lt_overridden = False\<rparr>"
    using assms unfolding compute_nonnegative_def by (auto split: if_splits)
  then show ?thesis using True by (simp add: line_ok_def line_units_def tax_sum_def)
next
  case False
  then obtain mo where "mo = None \<longleftrightarrow> \<not> to_overridden opts" "compute_configured (fromUnits u) configs mo = Inr line"
    using assms(1) unfolding compute_nonnegative_def assms(2) bindE.simps if_not_P [OF False]
    by (auto elim!: bindE_InrE split: if_splits)
  with compute_configured_ok [OF this(2) assms(2)] show ?thesis by (simp add: line_ok_def)
qed

section \<open>Signed lines\<close>

lemma negate_component_Inr:
  assumes "negate_component c = Inr c'" "component_ok c"
  shows "tax_of c' = - tax_of c" "ct_calculationType c' = ct_calculationType c" "ct_priceIncludesTax c' = ct_priceIncludesTax c"
    "\<exists>r. ct_recoverableAmount c' = fromUnits r \<and> ct_nonrecoverableAmount c' = fromUnits (tax_of c' - r)"
proof -
  have t: "toUnits (ct_taxAmount c) = Inr (tax_of c)" using component_ok_tax [OF assms(2)] by simp
  obtain r ta where r: "ct_recoverableAmount c = fromUnits r" "ct_nonrecoverableAmount c = fromUnits (tax_of c - r)"
    "toUnits (ct_taxableAmount c) = Inr ta"
    using assms(2) by (auto simp: component_ok_def component_units_def)
  have c': "c' = c\<lparr>ct_taxableAmount := fromUnits (- ta), ct_taxAmount := fromUnits (- tax_of c),
      ct_recoverableAmount := fromUnits (- r), ct_nonrecoverableAmount := fromUnits (- (tax_of c - r))\<rparr>"
    using assms(1) by (auto simp: negate_component_def neg_text_def t r)
  show t': "tax_of c' = - tax_of c" by (simp add: c' tax_of_def [of c'] tax_of_def [of "c\<lparr>ct_taxableAmount := _\<rparr>"])
      (simp add: tax_of_def)
  show "ct_calculationType c' = ct_calculationType c" "ct_priceIncludesTax c' = ct_priceIncludesTax c" by (simp_all add: c')
  show "\<exists>r. ct_recoverableAmount c' = fromUnits r \<and> ct_nonrecoverableAmount c' = fromUnits (tax_of c' - r)"
    unfolding t' by (rule exI [of _ "- r"]) (simp add: c')
qed

lemma negate_components_sum:
  assumes "traverse negate_component cs = Inr cs'" "\<forall>c \<in> set cs. component_ok c"
    and "p = is_standard \<or> p = is_withholding"
  shows "tax_sum p cs' = - tax_sum p cs"
  using assms
proof (induction cs arbitrary: cs')
  case Nil
  then show ?case by (simp add: tax_sum_def)
next
  case (Cons c cs)
  then obtain c' ds where d: "negate_component c = Inr c'" "traverse negate_component cs = Inr ds" "cs' = c' # ds"
    by (auto elim!: bindE_InrE)
  have ok: "component_ok c" using Cons.prems(2) by simp
  have "p c' = p c" using negate_component_Inr(2) [OF d(1) ok] Cons.prems(3) by auto
  moreover have "tax_sum p ds = - tax_sum p cs" by (rule Cons.IH [OF d(2)]) (use Cons.prems in auto)
  ultimately show ?case using negate_component_Inr(1) [OF d(1) ok] d(3) by (simp add: tax_sum_def)
qed

lemma computeLineTaxes_sign:
  assumes "computeLineTaxes x raw opts = Inr line" "toUnits x = Inr u"
  obtains (nonneg) "0 \<le> u" "compute_nonnegative (fromUnits u) raw opts = Inr line"
  | (neg) mag o' where "u < 0" "compute_nonnegative (fromUnits (- u)) raw o' = Inr mag"
      "to_overridden o' = to_overridden opts" "negate_line (fromUnits u) mag = Inr line"
  using assms unfolding computeLineTaxes_def normalizeMoney_units [OF assms(2)] bindE.simps toUnits_fromUnits
  by (cases "u < 0") (auto elim!: bindE_InrE split: if_splits option.splits)

lemma computeLineTaxes_validated:
  assumes "computeLineTaxes x raw opts = Inr line" "toUnits x = Inr u"
  obtains configs where "validateConfig raw = Inr configs"
  using assms by (rule computeLineTaxes_sign) (auto simp: compute_nonnegative_def elim!: bindE_InrE)

text \<open>A line of either sign, seen from its input: amounts of the input's sign that fit together.\<close>

definition signed_line_ok :: "int \<Rightarrow> bool \<Rightarrow> computed_line_tax \<Rightarrow> bool" where
  "signed_line_ok u inclusive line \<longleftrightarrow>
     (\<forall>c \<in> set (lt_components line). (0 \<le> u \<longrightarrow> 0 \<le> tax_of c) \<and> (u < 0 \<longrightarrow> tax_of c \<le> 0)
        \<and> (\<exists>r. ct_recoverableAmount c = fromUnits r \<and> ct_nonrecoverableAmount c = fromUnits (tax_of c - r)))
     \<and> (\<exists>n. line_units line n \<and> (inclusive \<longrightarrow> n + tax_sum is_standard (lt_components line) = u))"

lemma line_ok_signed: "line_ok u inclusive line \<Longrightarrow> 0 \<le> u \<Longrightarrow> signed_line_ok u inclusive line"
  by (auto simp: line_ok_def signed_line_ok_def component_ok_def component_units_def)

lemma negate_line_ok:
  assumes "line_ok (- u) inclusive mag" "negate_line (fromUnits u) mag = Inr line" "u < 0"
  shows "signed_line_ok u inclusive line"
proof -
  obtain n where ok: "\<forall>c \<in> set (lt_components mag). component_ok c" and n: "line_units mag n"
    and inc: "inclusive \<longrightarrow> n + tax_sum is_standard (lt_components mag) = - u"
    using assms(1) by (auto simp: line_ok_def)
  note amounts = n [unfolded line_units_def]
  define S where "S = tax_sum is_standard (lt_components mag)"
  define W where "W = tax_sum is_withholding (lt_components mag)"
  have nt: "neg_text (lt_netAmount mag) = Inr (fromUnits (- n))" "neg_text (lt_taxTotal mag) = Inr (fromUnits (- (S - W)))"
    "neg_text (lt_total mag) = Inr (fromUnits (- (n + S - W)))"
    using amounts by (simp_all add: neg_text_def S_def W_def)
  from assms(2) obtain cs where cs: "traverse negate_component (lt_components mag) = Inr cs"
    and line: "line = mag\<lparr>lt_inputAmount := fromUnits u, lt_netAmount := fromUnits (- n), lt_taxTotal := fromUnits (- (S - W)),
      lt_total := fromUnits (- (n + S - W)), lt_components := cs\<rparr>"
    unfolding negate_line_def nt by (auto elim!: bindE_InrE)
  have sums: "tax_sum is_standard cs = - S" "tax_sum is_withholding cs = - W"
    unfolding S_def W_def by (rule negate_components_sum [OF cs ok], simp)+
  have "tax_of c \<le> 0 \<and> (\<exists>r. ct_recoverableAmount c = fromUnits r \<and> ct_nonrecoverableAmount c = fromUnits (tax_of c - r))"
    if "c \<in> set cs" for c
  proof -
    from that obtain i where i: "i < length cs" "c = cs ! i" unfolding in_set_conv_nth by blast
    then have l: "i < length (lt_components mag)" and st: "negate_component (lt_components mag ! i) = Inr c"
      using cs by (auto simp: traverse_Inr_iff list_all2_conv_all_nth)
    then have okc: "component_ok (lt_components mag ! i)" using ok by simp
    show ?thesis using negate_component_Inr(1,4) [OF st okc] component_ok_tax [OF okc] by simp
  qed
  moreover have "line_units line (- n)" using sums by (simp add: line_units_def line)
  moreover have "inclusive \<longrightarrow> - n + tax_sum is_standard (lt_components line) = u" using inc sums(1)
    by (simp add: line S_def) linarith
  ultimately show ?thesis using assms(3) by (auto simp: signed_line_ok_def line)
qed

lemma computeLineTaxes_ok:
  assumes "computeLineTaxes x raw opts = Inr line" "toUnits x = Inr u" "validateConfig raw = Inr configs"
  shows "signed_line_ok u (list_ex includes_tax configs \<and> \<not> to_overridden opts) line"
  using assms(1,2)
proof (cases rule: computeLineTaxes_sign)
  case nonneg
  then show ?thesis using compute_nonnegative_ok [OF _ assms(3)] line_ok_signed by blast
next
  case (neg mag o')
  then show ?thesis using compute_nonnegative_ok [OF neg(2) assms(3)] negate_line_ok [OF _ neg(4,1)] by simp
qed

section \<open>The binary search\<close>

lemma inclusive_search_total:
  "\<forall>n. low \<le> n \<and> n \<le> high \<longrightarrow> (\<exists>r. g n = Inr r) \<Longrightarrow> \<exists>out. inclusive_search g target low high = Inr out"
proof (induction g target low high rule: inclusive_search.induct)
  case (1 g target low high)
  show ?case
  proof (cases "low \<le> high")
    case False
    then show ?thesis by (simp add: inclusive_search.simps)
  next
    case True
    define mid where "mid = (low + high) sdiv 2"
    have mid: "low \<le> mid" "mid \<le> high" using sdiv_mid [OF True] by (simp_all add: mid_def)
    obtain r where r: "g mid = Inr r" using "1.prems" mid by blast
    have lo: "\<exists>out. inclusive_search g target low (mid - 1) = Inr out" if "r = None \<or> (\<exists>v. r = Some v \<and> v \<noteq> target \<and> \<not> v < target)"
      using that "1.IH"(1) [OF True mid_def r] "1.IH"(3) [OF True mid_def r] "1.prems" mid by force
    have hi: "\<exists>out. inclusive_search g target (mid + 1) high = Inr out" if "\<exists>v. r = Some v \<and> v \<noteq> target \<and> v < target"
      using that "1.IH"(2) [OF True mid_def r] "1.prems" mid by force
    show ?thesis using True r lo hi
      by (subst inclusive_search.simps) (auto simp: mid_def [symmetric] Let_def split: option.splits)
  qed
qed

text \<open>With a strictly increasing gross the search finds the net of every reachable amount.\<close>

lemma inclusive_search_finds:
  assumes "\<forall>n. low \<le> n \<and> n \<le> high \<longrightarrow> g n = Inr (Some (G n))"
    and "\<forall>m n. low \<le> m \<and> m < n \<and> n \<le> high \<longrightarrow> G m < G n"
    and "low \<le> x" "x \<le> high" "G x = target"
  shows "inclusive_search g target low high = Inr (Found x)"
  using assms
proof (induction g target low high rule: inclusive_search.induct)
  case (1 g target low high)
  have le: "low \<le> high" using "1.prems"(3,4) by simp
  define mid where "mid = (low + high) sdiv 2"
  have mid: "low \<le> mid" "mid \<le> high" using sdiv_mid [OF le] by (simp_all add: mid_def)
  have gm: "g mid = Inr (Some (G mid))" using "1.prems"(1) mid by simp
  have step: "inclusive_search g target low high = (if G mid = target then Inr (Found mid)
      else if G mid < target then inclusive_search g target (mid + 1) high
      else inclusive_search g target low (mid - 1))"
    using le gm by (subst inclusive_search.simps) (simp add: mid_def [symmetric] Let_def)
  consider "x = mid" | "x < mid" | "mid < x" by linarith
  then show ?case
  proof cases
    case 1
    then show ?thesis using step "1.prems"(5) by simp
  next
    case 2
    then have "target < G mid" using "1.prems"(2,3,5) mid by auto
    moreover have "inclusive_search g target low (mid - 1) = Inr (Found x)"
      by (rule "1.IH"(3) [OF le mid_def gm refl]) (use \<open>target < G mid\<close> 2 mid "1.prems" in auto)
    ultimately show ?thesis using step by simp
  next
    case 3
    then have "G mid < target" using "1.prems"(2,4,5) mid by auto
    moreover have "inclusive_search g target (mid + 1) high = Inr (Found x)"
      by (rule "1.IH"(2) [OF le mid_def gm refl]) (use \<open>G mid < target\<close> 3 mid "1.prems" in auto)
    ultimately show ?thesis using step by simp
  qed
qed

section \<open>The gross of a net\<close>

text \<open>
  A configuration the arithmetic accepts: plain decimal rates with at most 18 places (what
  \<open>mulPercent\<close> reads), not negative, that are ledger amounts too, and a rounding scale in range.
\<close>

definition good_config :: "tax_component_config \<Rightarrow> bool" where
  "good_config c \<longleftrightarrow> 0 \<le> scale_of c \<and> scale_of c \<le> 4
     \<and> signed_plain_decimal (trim (tc_ratePercent c)) \<and> length (snd (split_dot (strip_sign (trim (tc_ratePercent c))))) \<le> 18
     \<and> 0 \<le> plain_value (trim (tc_ratePercent c)) \<and> (\<exists>u. toUnits (tc_ratePercent c) = Inr u)
     \<and> signed_plain_decimal (trim (recoverable_of c)) \<and> length (snd (split_dot (strip_sign (trim (recoverable_of c))))) \<le> 18
     \<and> (\<exists>u. toUnits (recoverable_of c) = Inr u)"

definition percent_units :: "tax_component_config \<Rightarrow> int \<Rightarrow> int" where
  "percent_units c x = half_away (of_int x * plain_value (trim (tc_ratePercent c)) / (100 * 10 ^ nat (4 - scale_of c)))
     * 10 ^ nat (4 - scale_of c)"

text \<open>The included standard tax on a net \<open>n\<close>, with \<open>p\<close> the compounding tax so far.\<close>

fun gross_tax :: "tax_component_config list \<Rightarrow> int \<Rightarrow> int \<Rightarrow> int" where
  "gross_tax [] n p = 0"
| "gross_tax (c # cs) n p = (let t = percent_units c (if compounds c then n + p else n) in
     (if kind_of c = Standard \<and> includes_tax c then t else 0)
     + gross_tax cs n (if kind_of c \<noteq> Withholding then p + t else p))"

lemma percent_units_mono:
  assumes "good_config c" "x \<le> y"
  shows "percent_units c x \<le> percent_units c y"
proof -
  have "(of_int x :: rat) * plain_value (trim (tc_ratePercent c)) \<le> of_int y * plain_value (trim (tc_ratePercent c))"
    using assms by (intro mult_right_mono) (simp_all add: good_config_def)
  then have "half_away (of_int x * plain_value (trim (tc_ratePercent c)) / (100 * 10 ^ nat (4 - scale_of c)))
      \<le> half_away (of_int y * plain_value (trim (tc_ratePercent c)) / (100 * 10 ^ nat (4 - scale_of c)))"
    by (intro half_away_mono divide_right_mono) simp_all
  then show ?thesis unfolding percent_units_def by (intro mult_right_mono) simp_all
qed

lemma percent_units_zero [simp]: "percent_units c 0 = 0"
  using half_away_of_int [of 0] by (simp add: percent_units_def)

lemma percent_units_nonneg: "good_config c \<Longrightarrow> 0 \<le> x \<Longrightarrow> 0 \<le> percent_units c x"
  using percent_units_mono [of c 0 x] by simp

lemma gross_tax_mono:
  "\<forall>c \<in> set cs. good_config c \<Longrightarrow> n \<le> m \<Longrightarrow> p \<le> q \<Longrightarrow> gross_tax cs n p \<le> gross_tax cs m q"
proof (induction cs arbitrary: p q)
  case (Cons c cs)
  define t where "t = percent_units c (if compounds c then n + p else n)"
  define t' where "t' = percent_units c (if compounds c then m + q else m)"
  have "t \<le> t'" unfolding t_def t'_def using Cons.prems by (intro percent_units_mono) auto
  then have "gross_tax cs n (if kind_of c \<noteq> Withholding then p + t else p)
      \<le> gross_tax cs m (if kind_of c \<noteq> Withholding then q + t' else q)"
    using Cons.prems by (intro Cons.IH) auto
  with \<open>t \<le> t'\<close> show ?case
    unfolding gross_tax.simps Let_def t_def [symmetric] t'_def [symmetric] by (intro add_mono) auto
qed simp

lemma mulPercent_config:
  "good_config c \<Longrightarrow> mulPercent (fromUnits x) (tc_ratePercent c) (scale_of c) = Inr (fromUnits (percent_units c x))"
  unfolding percent_units_def by (rule mulPercent_units) (simp_all add: good_config_def)

lemma mulPercent_recoverable: "good_config c \<Longrightarrow> \<exists>r. mulPercent (fromUnits x) (recoverable_of c) 4 = Inr (fromUnits r)"
  using mulPercent_units [OF toUnits_fromUnits, of 4 "recoverable_of c" x] by (simp add: good_config_def)

lemma calc_step_total:
  assumes "good_config c" "0 \<le> n" "0 \<le> p" "toUnits (cs_priorTax s) = Inr p" "toUnits (cs_priorEligibleTax s) = Inr pe"
  defines "t \<equiv> percent_units c (if compounds c then n + p else n)"
  shows "\<exists>s' cmpt. calc_step (fromUnits n) None None s (i, c) = Inr s' \<and> cs_computed s' = cs_computed s @ [cmpt]
    \<and> toUnits (cs_priorEligibleTax s') = Inr (if eligible None c then pe + t else pe)
    \<and> toUnits (cs_priorTax s') = Inr (if kind_of c \<noteq> Withholding then p + t else p)
    \<and> component_ok cmpt \<and> tax_of cmpt = t \<and> ct_calculationType cmpt = kind_of c \<and> ct_priceIncludesTax cmpt = includes_tax c"
proof -
  let ?x = "if compounds c then n + p else n"
  obtain r where r: "mulPercent (fromUnits t) (recoverable_of c) 4 = Inr (fromUnits r)"
    using mulPercent_recoverable [OF assms(1)] by blast
  obtain ur ur' where u: "toUnits (tc_ratePercent c) = Inr ur" "toUnits (recoverable_of c) = Inr ur'"
    using assms(1) by (auto simp: good_config_def)
  have t0: "0 \<le> t" unfolding t_def using assms(1-3) by (intro percent_units_nonneg) auto
  have ct: "component_tax (fromUnits n) None False s c = Inr (fromUnits ?x, fromUnits t)"
    unfolding component_tax_def t_def using assms(4) mulPercent_config [OF assms(1)]
    by (auto simp: add_money_units)
  obtain cmpt where cc: "computed_component c (fromUnits ?x) (fromUnits t) (fromUnits r) (fromUnits (t - r)) False = Inr cmpt"
    "ct_taxAmount cmpt = fromUnits t" "ct_calculationType cmpt = kind_of c" "ct_priceIncludesTax cmpt = includes_tax c"
    "ct_recoverableAmount cmpt = fromUnits r" "ct_nonrecoverableAmount cmpt = fromUnits (t - r)" "ct_taxableAmount cmpt = fromUnits ?x"
    using u by (auto simp: computed_component_def normalizeMoney_units)
  define s' where "s' = \<lparr>cs_priorEligibleTax = (if eligible None c then fromUnits (pe + t) else cs_priorEligibleTax s),
      cs_priorTax = (if kind_of c \<noteq> Withholding then fromUnits (p + t) else cs_priorTax s), cs_computed = cs_computed s @ [cmpt]\<rparr>"
  have "calc_step (fromUnits n) None None s (i, c) = Inr s'"
    using t0 by (simp add: calc_step_def Let_def ct r cc(1) s'_def add_money_units [OF assms(4) toUnits_fromUnits]
        add_money_units [OF assms(5) toUnits_fromUnits])
  moreover have "component_units cmpt t" using cc t0 by (simp add: component_units_def)
  ultimately show ?thesis using cc assms(4,5) component_okI component_units_tax_of
    by (intro exI [of _ s'] exI [of _ cmpt]) (simp add: s'_def)
qed

lemma calc_loop_gross:
  assumes "\<forall>c \<in> set cs. good_config c" "0 \<le> n" "0 \<le> p"
    and "toUnits (cs_priorTax s) = Inr p" "toUnits (cs_priorEligibleTax s) = Inr pe" "length is = length cs"
  shows "\<exists>s' cmpts. foldE (calc_step (fromUnits n) None None) s (zip is cs) = Inr s'
    \<and> cs_computed s' = cs_computed s @ cmpts \<and> tax_sum included cmpts = gross_tax cs n p"
  using assms
proof (induction cs arbitrary: s p pe "is")
  case Nil
  then show ?case by (simp add: tax_sum_def)
next
  case (Cons c cs)
  obtain i is' where idx: "is = i # is'" "length is' = length cs" using Cons.prems(6) by (cases "is") auto
  define t where "t = percent_units c (if compounds c then n + p else n)"
  define p' where "p' = (if kind_of c \<noteq> Withholding then p + t else p)"
  have g: "good_config c" using Cons.prems(1) by simp
  obtain s1 cmpt where st: "calc_step (fromUnits n) None None s (i, c) = Inr s1" "cs_computed s1 = cs_computed s @ [cmpt]"
    "toUnits (cs_priorEligibleTax s1) = Inr (if eligible None c then pe + t else pe)" "toUnits (cs_priorTax s1) = Inr p'"
    and cm: "component_ok cmpt" "tax_of cmpt = t" "ct_calculationType cmpt = kind_of c" "ct_priceIncludesTax cmpt = includes_tax c"
    using calc_step_total [OF g Cons.prems(2-5), of i] unfolding t_def [symmetric] p'_def by blast
  have "0 \<le> p'" using Cons.prems(3) component_ok_tax [OF cm(1)] cm(2) by (simp add: p'_def)
  then obtain s' cmpts where "foldE (calc_step (fromUnits n) None None) s1 (zip is' cs) = Inr s'"
    "cs_computed s' = cs_computed s1 @ cmpts" "tax_sum included cmpts = gross_tax cs n p'"
    using Cons.IH [OF _ Cons.prems(2) _ st(4,3) idx(2)] Cons.prems(1) by auto
  moreover have "included cmpt \<longleftrightarrow> kind_of c = Standard \<and> includes_tax c" using cm by (simp add: included_def)
  ultimately show ?case using st(1,2) cm(2) idx(1)
    by (intro exI [of _ s'] exI [of _ "cmpt # cmpts"])
      (simp add: Let_def t_def [symmetric] p'_def tax_sum_def)
qed

lemma gross_at_units:
  assumes "\<forall>c \<in> set configs. good_config c" "0 \<le> n"
  shows "gross_at configs None n = Inr (Some (n + gross_tax configs n 0))"
proof -
  obtain s cs where f: "foldE (calc_step (fromUnits n) None None) \<lparr>cs_priorEligibleTax = ''0'', cs_priorTax = ''0'', cs_computed = []\<rparr>
      (zip [0..<length configs] configs) = Inr s" "cs_computed s = cs" "tax_sum included cs = gross_tax configs n 0"
    using calc_loop_gross [OF assms, of 0 "\<lparr>cs_priorEligibleTax = ''0'', cs_priorTax = ''0'', cs_computed = []\<rparr>" 0 "[0..<length configs]"]
    by auto
  have c: "calculateFromNet (fromUnits n) configs None = Inr cs" using f(1,2) by (simp add: calculateFromNet_def)
  have "includedStandardTax cs = Inr (fromUnits (tax_sum included cs))"
    unfolding includedStandardTax_def included_def [symmetric]
    by (rule sum_taxes [OF calculateFromNet_ok [OF c toUnits_fromUnits]])
  then show ?thesis using c f(3) by (simp add: gross_at_def components_at_def)
qed

lemma gross_increasing: "\<forall>c \<in> set configs. good_config c \<Longrightarrow> m < n \<Longrightarrow> m + gross_tax configs m 0 < n + gross_tax configs n 0"
  using gross_tax_mono [of configs m n 0 0] by simp

lemma candidate_fold_total:
  assumes "\<forall>c \<in> set xs. \<exists>r. g c = Inr r"
  shows "\<exists>b d. foldE (candidate_step g target) acc xs = Inr (b, d)"
  using assms
proof (induction xs arbitrary: acc)
  case Nil
  then show ?case by (cases acc) simp
next
  case (Cons x xs)
  then obtain r where r: "g x = Inr r" by auto
  obtain acc' where "candidate_step g target acc x = Inr acc'"
    using r by (cases acc; cases r) (auto simp: candidate_step_def Let_def)
  with Cons show ?case by simp
qed

lemma extractInclusiveNet_total:
  assumes "\<forall>c \<in> set configs. good_config c" "toUnits inp = Inr target" "0 \<le> target"
  shows "\<exists>net. extractInclusiveNet inp configs None = Inr net"
proof -
  have g: "\<exists>r. gross_at configs None n = Inr r" if "0 \<le> n" for n using gross_at_units [OF assms(1) that] by simp
  then obtain out where out: "inclusive_search (gross_at configs None) target 0 target = Inr out"
    using inclusive_search_total [of 0 target "gross_at configs None" target] by blast
  show ?thesis
  proof (cases out)
    case (Found n)
    then show ?thesis using out assms(2,3) by (simp add: extractInclusiveNet_def)
  next
    case (Closed l h)
    let ?cs = "filter (\<lambda>u. 0 \<le> u \<and> u \<le> target) [h, l]"
    obtain b d where "foldE (candidate_step (gross_at configs None) target) (case ?cs of [] \<Rightarrow> 0 | c # _ \<Rightarrow> c, None) ?cs = Inr (b, d)"
      using candidate_fold_total [of ?cs "gross_at configs None"] g by fastforce
    then show ?thesis using out Closed assms(2,3) by (simp add: extractInclusiveNet_def Let_def)
  qed
qed


section \<open>Properties\<close>

text \<open>
  C16: every line the tax engine returns fits together exactly, for invoices and credits alike.  The
  tax total is the standard tax less the withholding, the document total is net plus tax total, each
  component's tax is its recoverable part plus its non-recoverable part and never has the sign
  opposite to the line's, and for a tax-inclusive profile without a manual override the net and the
  standard tax add up to the very amount that was entered.
\<close>

theorem computeLineTaxes_cross_foots:
  assumes "computeLineTaxes inp profile opts = Inr line" "toUnits inp = Inr u" "validateConfig profile = Inr configs"
  shows "\<exists>n. toUnits (lt_netAmount line) = Inr n
    \<and> toUnits (lt_taxTotal line) = Inr (tax_sum is_standard (lt_components line) - tax_sum is_withholding (lt_components line))
    \<and> toUnits (lt_total line) = Inr (n + tax_sum is_standard (lt_components line) - tax_sum is_withholding (lt_components line))
    \<and> (list_ex includes_tax configs \<and> \<not> to_overridden opts \<longrightarrow> n + tax_sum is_standard (lt_components line) = u)
    \<and> (\<forall>c \<in> set (lt_components line). (0 \<le> u \<longrightarrow> 0 \<le> tax_of c) \<and> (u < 0 \<longrightarrow> tax_of c \<le> 0)
         \<and> (\<exists>r. toUnits (ct_recoverableAmount c) = Inr r \<and> toUnits (ct_nonrecoverableAmount c) = Inr (tax_of c - r)))"
  using computeLineTaxes_ok [OF assms] unfolding signed_line_ok_def line_units_def by fastforce

lemma extractInclusiveNet_finds:
  assumes "\<forall>c \<in> set configs. good_config c" "toUnits inp = Inr target" "0 \<le> n" "gross_at configs None n = Inr (Some target)"
  shows "extractInclusiveNet inp configs None = Inr (fromUnits n)"
proof -
  have t: "n + gross_tax configs n 0 = target" using gross_at_units [OF assms(1,3)] assms(4) by simp
  have "gross_tax configs 0 0 \<le> gross_tax configs n 0" by (rule gross_tax_mono [OF assms(1,3)]) simp
  moreover have "gross_tax configs 0 0 = 0"
    by (induction configs) (auto simp: Let_def)
  ultimately have "n \<le> target" using t by simp
  then have "inclusive_search (gross_at configs None) target 0 target = Inr (Found n)"
    using inclusive_search_finds [of 0 target "gross_at configs None" "\<lambda>n. n + gross_tax configs n 0" n target]
      gross_at_units [OF assms(1)] gross_increasing [OF assms(1)] assms(3) t by blast
  then show ?thesis using assms(2,3) \<open>n \<le> target\<close> by (simp add: extractInclusiveNet_def)
qed

text \<open>
  C17: taking the net out of a tax-inclusive amount.  Assume that the amount is not negative and is money text, that no tax is overridden by hand, and that every configuration has
  a rounding scale from zero to four, a rate that is not negative and a recoverable percentage, both plain decimals (not in scientific notation) of at most eighteen fraction digits
  that the money reader reads.  Then the extraction returns, and by strict monotonicity of the gross the binary search finds the exact net whenever there is one: an amount
  that is the gross of some net \<open>n\<close> gives back \<open>n\<close>.
\<close>

theorem extractInclusiveNet_inverts_gross:
  assumes "\<forall>c \<in> set configs. good_config c" "toUnits inp = Inr target" "0 \<le> target"
  shows "(\<exists>net. extractInclusiveNet inp configs None = Inr net)
    \<and> (\<forall>n \<ge> 0. gross_at configs None n = Inr (Some target) \<longrightarrow> extractInclusiveNet inp configs None = Inr (fromUnits n))"
  using extractInclusiveNet_total [OF assms] extractInclusiveNet_finds [OF assms(1,2)] by blast

abbreviation hst_13 :: tax_component_config where
  "hst_13 \<equiv> \<lparr>tc_taxCodeId = ''hst'', tc_code = Some ''HST'', tc_sequence = 1, tc_ratePercent = ''13'',
     tc_recoverablePercent = Some ''50'', tc_calculationType = Some Standard, tc_priceIncludesTax = Some True,
     tc_compoundOnPrevious = Some False, tc_roundingScale = Some 2, tc_collectedAccountId = None,
     tc_paidAccountId = None, tc_withholdingAccountId = None\<rparr>"

abbreviation hst_line :: computed_line_tax where
  "hst_line \<equiv> \<lparr>lt_inputAmount = ''-0.1000'', lt_netAmount = ''-0.0900'', lt_taxTotal = ''-0.0100'', lt_total = ''-0.1000'',
     lt_components = [\<lparr>ct_taxCodeId = ''hst'', ct_code = Some ''HST'', ct_sequence = 1, ct_ratePercent = ''13.0000'',
       ct_recoverablePercent = ''50.0000'', ct_taxableAmount = ''-0.0900'', ct_taxAmount = ''-0.0100'',
       ct_recoverableAmount = ''-0.0050'', ct_nonrecoverableAmount = ''-0.0050'', ct_calculationType = Standard,
       ct_priceIncludesTax = True, ct_compoundOnPrevious = False, ct_roundingScale = 2, ct_collectedAccountId = None,
       ct_paidAccountId = None, ct_withholdingAccountId = None, ct_overridden = False\<rparr>], lt_overridden = False\<rparr>"

lemma hst_good: "good_config hst_13"
proof -
  have "signed_plain_decimal (trim ''13'') \<and> length (snd (split_dot (strip_sign (trim ''13'')))) \<le> 18
      \<and> 0 \<le> plain_value (trim ''13'') \<and> toUnits ''13'' = Inr 130000" by code_simp
  moreover have "signed_plain_decimal (trim ''50'') \<and> length (snd (split_dot (strip_sign (trim ''50'')))) \<le> 18
      \<and> toUnits ''50'' = Inr 500000" by code_simp
  ultimately show ?thesis by (auto simp: good_config_def scale_of_def recoverable_of_def or_default_def)
qed

lemma hst_validates: "validateConfig [hst_13] = Inr [hst_13]"
  by code_simp

lemma hst_gross: "gross_at [hst_13] None 900 = Inr (Some 1000)"
  by code_simp

lemma units_tenth: "toUnits ''-0.1'' = Inr (- 1000)" "toUnits ''0.1000'' = Inr 1000" "fromUnits 900 = ''0.0900''"
  by code_simp+

lemma hst_net: "extractInclusiveNet ''0.1000'' [hst_13] None = Inr ''0.0900''"
  using extractInclusiveNet_finds [of "[hst_13]" "''0.1000''" 1000 900] hst_good hst_gross units_tenth by simp

abbreviation hst_component :: computed_tax_component where
  "hst_component \<equiv> \<lparr>ct_taxCodeId = ''hst'', ct_code = Some ''HST'', ct_sequence = 1, ct_ratePercent = ''13.0000'',
     ct_recoverablePercent = ''50.0000'', ct_taxableAmount = ''0.0900'', ct_taxAmount = ''0.0100'',
     ct_recoverableAmount = ''0.0050'', ct_nonrecoverableAmount = ''0.0050'', ct_calculationType = Standard,
     ct_priceIncludesTax = True, ct_compoundOnPrevious = False, ct_roundingScale = 2, ct_collectedAccountId = None,
     ct_paidAccountId = None, ct_withholdingAccountId = None, ct_overridden = False\<rparr>"

abbreviation hst_magnitude :: computed_line_tax where
  "hst_magnitude \<equiv> \<lparr>lt_inputAmount = ''0.1000'', lt_netAmount = ''0.0900'', lt_taxTotal = ''0.0100'', lt_total = ''0.1000'',
     lt_components = [hst_component], lt_overridden = False\<rparr>"

lemma hst_stages:
  "calculateFromNet ''0.0900'' [hst_13] None = Inr [hst_component]"
  "cross_foot ''0.1000'' ''0.0900'' [hst_13] [hst_component] = Inr [hst_component]"
  "line_totals ''0.1000'' ''0.0900'' [hst_component] = Inr hst_magnitude"
  "negate_line ''-0.1000'' hst_magnitude = Inr hst_line"
  "normalizeMoney ''-0.1'' = Inr ''-0.1000''" "toUnits ''-0.1000'' = Inr (- 1000)" "fromUnits 1000 = ''0.1000''"
  by code_simp+

lemma hst_line_eq: "computeLineTaxes ''-0.1'' [hst_13] \<lparr>to_overridden = False, to_taxAmount = None\<rparr> = Inr hst_line"
proof -
  have "compute_configured ''0.1000'' [hst_13] None = Inr hst_magnitude"
    unfolding compute_configured_def by (simp add: hst_net hst_stages includes_tax_def or_default_def)
  then have "compute_nonnegative ''0.1000'' [hst_13] \<lparr>to_overridden = False, to_taxAmount = None\<rparr> = Inr hst_magnitude"
    unfolding compute_nonnegative_def hst_validates by simp
  then show ?thesis unfolding computeLineTaxes_def hst_stages(5) by (simp add: hst_stages missing_amount_def)
qed

theorem extractInclusiveNet_inverts_gross_witness: "extractInclusiveNet ''0.1000'' [hst_13] None = Inr (fromUnits 900)"
  using extractInclusiveNet_inverts_gross [of "[hst_13]" "''0.1000''" 1000] hst_good hst_gross units_tenth(2) by simp

theorem computeLineTaxes_cross_foots_witness:
  "\<exists>n. toUnits (lt_netAmount hst_line) = Inr n \<and> n + tax_sum is_standard (lt_components hst_line) = - 1000"
proof -
  from computeLineTaxes_cross_foots [OF hst_line_eq units_tenth(1) hst_validates] show ?thesis
    by (auto simp: includes_tax_def or_default_def)
qed

end
