(* ===== verification/Js_Date.thy ===== *)
theory Js_Date
  imports Prelude
begin

text \<open>
  The part of JavaScript's \<open>Date\<close> the engine uses, after the ECMAScript definitions.  A \<open>Date\<close> is a
  time value in milliseconds since the Unix epoch, or invalid; \<open>None\<close> is both the invalid date and
  \<open>NaN\<close>.  \<open>day_from_year\<close>, \<open>make_day\<close> and the year, month and date of a day number are the abstract
  operations of the standard; the UTC getters and setters are built from them.  The facts give the
  calendar: the year of a day is unique, every day number is one valid civil date and every valid
  civil date is its own day number.
\<close>

section \<open>Day numbers\<close>

definition leap_year :: "int \<Rightarrow> bool" where
  "leap_year y \<longleftrightarrow> y mod 4 = 0 \<and> (y mod 100 \<noteq> 0 \<or> y mod 400 = 0)"

definition day_from_year :: "int \<Rightarrow> int" where
  "day_from_year y = 365 * (y - 1970) + (y - 1969) div 4 - (y - 1901) div 100 + (y - 1601) div 400"

definition month_lengths :: "bool \<Rightarrow> int list" where
  "month_lengths leap = [31, if leap then 29 else 28, 31, 30, 31, 30, 31, 31, 30, 31, 30, 31]"

definition days_before_month :: "int \<Rightarrow> int \<Rightarrow> int" where
  "days_before_month y m = sum_list (take (nat m) (month_lengths (leap_year y)))"

text \<open>\<open>MakeDay\<close>: the month index carries into the year, the date is an offset.\<close>

definition make_day :: "int \<Rightarrow> int \<Rightarrow> int \<Rightarrow> int" where
  "make_day year month date = (let ym = year + month div 12; mn = month mod 12 in
     day_from_year ym + days_before_month ym mn + date - 1)"

text \<open>\<open>YearFromTime\<close>: the year whose days include the day, found from the mean year length.\<close>

definition year_from_day :: "int \<Rightarrow> int" where
  "year_from_day n = (let y = 1970 + (400 * n) div 146097 in
     if n < day_from_year y then y - 1 else if day_from_year (y + 1) \<le> n then y + 1 else y)"

text \<open>\<open>MonthFromTime\<close> and \<open>DateFromTime\<close>: walk the month lengths with the day within the year.\<close>

fun month_in :: "int list \<Rightarrow> int \<Rightarrow> int \<times> int" where
  "month_in [] d = (0, d)"
| "month_in (l # ls) d = (if d < l then (0, d) else case month_in ls (d - l) of (m, r) \<Rightarrow> (m + 1, r))"

definition civil_of_day :: "int \<Rightarrow> int \<times> int \<times> int" where
  "civil_of_day n = (let y = year_from_day n; (m, r) = month_in (month_lengths (leap_year y)) (n - day_from_year y)
     in (y, m, r + 1))"

text \<open>A civil date: a year, a month index from 0 and a day that exists in the month.\<close>

definition days_in_month :: "int \<Rightarrow> int \<Rightarrow> int" where
  "days_in_month y m = month_lengths (leap_year y) ! nat m"

definition valid_civil :: "int \<Rightarrow> int \<Rightarrow> int \<Rightarrow> bool" where
  "valid_civil y m d \<longleftrightarrow> 0 \<le> m \<and> m < 12 \<and> 1 \<le> d \<and> d \<le> days_in_month y m"

section \<open>Years\<close>

lemma day_from_year_eq: "day_from_year y = 365 * (y - 1970) + (y - 1) div 4 - (y - 1) div 100 + (y - 1) div 400 - 477"
proof -
  have "(y - 1969) div 4 = (y - 1) div 4 - 492" "(y - 1901) div 100 = (y - 1) div 100 - 19"
    "(y - 1601) div 400 = (y - 1) div 400 - 4" by simp_all
  then show ?thesis by (simp add: day_from_year_def)
qed

lemma leap_step:
  "(y::int) div 4 - y div 100 + y div 400 = (y - 1) div 4 - (y - 1) div 100 + (y - 1) div 400 + (if leap_year y then 1 else 0)"
proof -
  have d: "y div k = (y - 1) div k + (if y mod k = 0 then 1 else 0)" if "0 < k" for k :: int
  proof (cases "y mod k = 0")
    case True
    then obtain q where "y = k * q" by (auto elim: dvdE simp: dvd_eq_mod_eq_0 [symmetric])
    then show ?thesis using that div_int_iff [OF that, of "k * q - 1" "q - 1"] by (simp add: algebra_simps)
  next
    case False
    have "0 < y mod k" "y mod k < k" using False that pos_mod_sign [of k y] pos_mod_bound [of k y] by linarith+
    moreover have "y div k * k = y - y mod k" by (simp add: minus_mod_eq_div_mult)
    ultimately have "(y - 1) div k = y div k" unfolding div_int_iff [OF that] by linarith
    with False show ?thesis by simp
  qed
  have m: "y mod 100 = 0 \<Longrightarrow> y mod 4 = 0" "y mod 400 = 0 \<Longrightarrow> y mod 100 = 0" by presburger+
  define a where "a = (y - 1) div 4"
  define b where "b = (y - 1) div 100"
  define c where "c = (y - 1) div 400"
  note e = d [of 4, folded a_def] d [of 100, folded b_def] d [of 400, folded c_def]
  show ?thesis unfolding leap_year_def a_def [symmetric] b_def [symmetric] c_def [symmetric]
    by (cases "y mod 4 = 0"; cases "y mod 100 = 0"; cases "y mod 400 = 0") (use e m in simp_all)
qed

lemma day_from_year_Suc: "day_from_year (y + 1) = day_from_year y + 365 + (if leap_year y then 1 else 0)"
  using leap_step [of y] by (simp add: day_from_year_eq)

lemma day_from_year_less: "x < y \<Longrightarrow> day_from_year x < day_from_year y"
proof (induction "nat (y - x)" arbitrary: y)
  case (Suc n)
  have "day_from_year (y - 1) < day_from_year y" using day_from_year_Suc [of "y - 1"] by simp
  moreover have "x = y - 1 \<or> day_from_year x < day_from_year (y - 1)"
    using Suc by (cases "x = y - 1") auto
  ultimately show ?case by auto
qed simp

lemma day_from_year_le: "x \<le> y \<Longrightarrow> day_from_year x \<le> day_from_year y"
  using day_from_year_less [of x y] by (cases "x = y") auto

lemma day_from_year_mean:
  "146097 * (y - 1970) - 1000 \<le> 400 * day_from_year y" "400 * day_from_year y \<le> 146097 * (y - 1970) + 1000"
proof -
  define a where "a = (y - 1) div 4"
  define b where "b = (y - 1) div 100"
  define c where "c = (y - 1) div 400"
  have ab: "4 * a \<le> y - 1" "y - 1 < 4 * a + 4" "100 * b \<le> y - 1" "y - 1 < 100 * b + 100" "400 * c \<le> y - 1" "y - 1 < 400 * c + 400"
    using div_int_iff [of 4 "y - 1" a] div_int_iff [of 100 "y - 1" b] div_int_iff [of 400 "y - 1" c]
    by (simp_all add: a_def b_def c_def)
  have "400 * a \<le> 100 * (y - 1)" "100 * (y - 1) \<le> 400 * a + 300" using ab(1,2) by simp_all
  moreover have "400 * b \<le> 4 * (y - 1)" "4 * (y - 1) \<le> 400 * b + 396" using ab(3,4) by simp_all
  moreover have "400 * c \<le> y - 1" "y - 1 \<le> 400 * c + 399" using ab(5,6) by simp_all
  moreover have "400 * day_from_year y = 146000 * (y - 1970) + 400 * a - 400 * b + 400 * c - 190800" by (simp add: day_from_year_eq a_def b_def c_def)
  ultimately show "146097 * (y - 1970) - 1000 \<le> 400 * day_from_year y" "400 * day_from_year y \<le> 146097 * (y - 1970) + 1000"
    by (simp_all add: algebra_simps)
qed

lemma year_from_day_bounds: "day_from_year (year_from_day n) \<le> n \<and> n < day_from_year (year_from_day n + 1)"
proof -
  define y where "y = 1970 + (400 * n) div 146097"
  have "146097 * ((400 * n) div 146097) \<le> 400 * n" "400 * n < 146097 * ((400 * n) div 146097) + 146097"
    using div_int_iff [of 146097 "400 * n" "(400 * n) div 146097"] by simp_all
  then have n: "146097 * (y - 1970) \<le> 400 * n" "400 * n < 146097 * (y - 1970) + 146097" by (simp_all add: y_def)
  have lo: "day_from_year (y - 1) \<le> n" using day_from_year_mean(2) [of "y - 1"] n by simp
  have hi: "n < day_from_year (y + 2)" using day_from_year_mean(1) [of "y + 2"] n by simp
  show ?thesis using lo hi unfolding year_from_day_def y_def [symmetric] by (simp add: Let_def add.commute)
qed

lemma year_from_day_eq: "day_from_year y \<le> n \<Longrightarrow> n < day_from_year (y + 1) \<Longrightarrow> year_from_day n = y"
proof (rule ccontr)
  assume *: "day_from_year y \<le> n" "n < day_from_year (y + 1)" "year_from_day n \<noteq> y"
  then consider "year_from_day n + 1 \<le> y" | "y + 1 \<le> year_from_day n" by linarith
  then show False using * year_from_day_bounds [of n] by cases (auto dest: day_from_year_le)
qed

section \<open>Months\<close>

lemma month_in_split:
  "\<forall>l \<in> set ls. 0 \<le> l \<Longrightarrow> 0 \<le> d \<Longrightarrow> d < sum_list ls \<Longrightarrow> month_in ls d = (m, r)
    \<Longrightarrow> 0 \<le> m \<and> m < int (length ls) \<and> 0 \<le> r \<and> r < ls ! nat m \<and> d = sum_list (take (nat m) ls) + r"
proof (induction ls arbitrary: d m r)
  case (Cons l ls)
  show ?case
  proof (cases "d < l")
    case False
    obtain m' r' where *: "month_in ls (d - l) = (m', r')" by force
    then have "m = m' + 1" "r = r'" using Cons.prems(4) False by simp_all
    moreover have "0 \<le> m' \<and> m' < int (length ls) \<and> 0 \<le> r' \<and> r' < ls ! nat m' \<and> d - l = sum_list (take (nat m') ls) + r'"
      using Cons.IH [OF _ _ _ *] Cons.prems False by simp
    ultimately show ?thesis by (simp add: nat_add_distrib)
  qed (use Cons.prems in auto)
qed simp

lemma month_in_unique:
  "\<forall>l \<in> set ls. 0 \<le> l \<Longrightarrow> m < length ls \<Longrightarrow> 0 \<le> r \<Longrightarrow> r < ls ! m \<Longrightarrow> month_in ls (sum_list (take m ls) + r) = (int m, r)"
proof (induction ls arbitrary: m)
  case (Cons l ls)
  show ?case
  proof (cases m)
    case (Suc k)
    have "0 \<le> sum_list (take k ls)" using Cons.prems(1) by (intro sum_list_nonneg) (auto dest: in_set_takeD)
    moreover have "month_in ls (sum_list (take k ls) + r) = (int k, r)" using Cons Suc by simp
    ultimately show ?thesis using Suc Cons.prems(3) by simp
  qed (use Cons.prems in simp)
qed simp

lemma month_lengths_simps [simp]:
  "length (month_lengths b) = 12" "\<forall>l \<in> set (month_lengths b). 0 \<le> l"
  "sum_list (month_lengths b) = 365 + (if b then 1 else 0)"
  by (simp_all add: month_lengths_def)

lemma civil_of_day_valid:
  assumes "civil_of_day n = (y, m, d)"
  shows "valid_civil y m d" "make_day y m d = n"
proof -
  let ?ls = "month_lengths (leap_year (year_from_day n))" and ?d = "n - day_from_year (year_from_day n)"
  obtain m' r where mr: "month_in ?ls ?d = (m', r)" by force
  then have y: "y = year_from_day n" "m = m'" "d = r + 1" using assms by (simp_all add: civil_of_day_def Let_def)
  have "0 \<le> ?d" "?d < sum_list ?ls"
    using year_from_day_bounds [of n] day_from_year_Suc [of "year_from_day n"] by auto
  from month_in_split [OF _ this mr] have s: "0 \<le> m \<and> m < 12 \<and> 0 \<le> r \<and> r < ?ls ! nat m \<and> ?d = sum_list (take (nat m) ?ls) + r"
    using y by simp
  then show "valid_civil y m d" using y by (simp add: valid_civil_def days_in_month_def)
  show "make_day y m d = n" using s y by (simp add: make_day_def days_before_month_def Let_def)
qed

lemma days_before_month_less: "valid_civil y m d \<Longrightarrow> 0 \<le> days_before_month y m + d - 1 \<and> days_before_month y m + d - 1 < 365 + (if leap_year y then 1 else 0)"
proof -
  assume v: "valid_civil y m d"
  let ?ls = "month_lengths (leap_year y)"
  have m: "nat m < 12" using v unfolding valid_civil_def by linarith
  have "sum_list ?ls = sum_list (take (Suc (nat m)) ?ls) + sum_list (drop (Suc (nat m)) ?ls)"
    by (metis append_take_drop_id sum_list_append)
  moreover have "0 \<le> sum_list (drop (Suc (nat m)) ?ls)" "0 \<le> sum_list (take (nat m) ?ls)"
    by (intro sum_list_nonneg; use month_lengths_simps(2) in \<open>blast dest: in_set_dropD in_set_takeD\<close>)+
  moreover have "sum_list (take (Suc (nat m)) ?ls) = sum_list (take (nat m) ?ls) + ?ls ! nat m"
    using m by (simp add: take_Suc_conv_app_nth)
  ultimately show ?thesis using v by (simp add: valid_civil_def days_in_month_def days_before_month_def)
qed

lemma civil_of_make_day:
  assumes "valid_civil y m d"
  shows "civil_of_day (make_day y m d) = (y, m, d)"
proof -
  have m: "0 \<le> m" "m < 12" using assms by (simp_all add: valid_civil_def)
  then have md: "make_day y m d = day_from_year y + (days_before_month y m + (d - 1))" by (simp add: make_day_def)
  have y: "year_from_day (make_day y m d) = y"
    by (rule year_from_day_eq; use days_before_month_less [OF assms] day_from_year_Suc [of y] md in \<open>simp split: if_splits\<close>)
  have "month_in (month_lengths (leap_year y)) (days_before_month y m + (d - 1)) = (m, d - 1)"
    using month_in_unique [of "month_lengths (leap_year y)" "nat m" "d - 1"] m assms
    by (simp add: valid_civil_def days_in_month_def days_before_month_def)
  then show ?thesis unfolding civil_of_day_def y by (simp add: md Let_def)
qed

lemma make_day_inject:
  assumes "valid_civil y m d" "valid_civil y' m' d'"
  shows "make_day y m d = make_day y' m' d' \<longleftrightarrow> (y, m, d) = (y', m', d')"
proof
  assume "make_day y m d = make_day y' m' d'"
  then have "civil_of_day (make_day y m d) = civil_of_day (make_day y' m' d')" by simp
  then show "(y, m, d) = (y', m', d')" unfolding civil_of_make_day [OF assms(1)] civil_of_make_day [OF assms(2)] .
qed simp

section \<open>\<open>Date\<close> objects\<close>

text \<open>
  A number argument is an integer or \<open>NaN\<close>.  The standard computes in doubles; every intermediate value of
  a date inside the range that \<open>TimeClip\<close> keeps is an exactly represented integer.
\<close>

type_synonym js_date = "int option"

abbreviation MS_PER_DAY :: int where "MS_PER_DAY \<equiv> 86400000"

definition time_clip :: "int \<Rightarrow> js_date" where
  "time_clip t = (if \<bar>t\<bar> \<le> 8640000000000000 then Some t else None)"

definition getUTCFullYear :: "js_date \<Rightarrow> int option" where
  "getUTCFullYear date = map_option (\<lambda>t. fst (civil_of_day (t div MS_PER_DAY))) date"

definition getUTCMonth :: "js_date \<Rightarrow> int option" where
  "getUTCMonth date = map_option (\<lambda>t. fst (snd (civil_of_day (t div MS_PER_DAY)))) date"

definition getUTCDate :: "js_date \<Rightarrow> int option" where
  "getUTCDate date = map_option (\<lambda>t. snd (snd (civil_of_day (t div MS_PER_DAY)))) date"

definition getUTCDay :: "js_date \<Rightarrow> int option" where
  "getUTCDay date = map_option (\<lambda>t. (t div MS_PER_DAY + 4) mod 7) date"

definition setUTCDate :: "js_date \<Rightarrow> int option \<Rightarrow> js_date" where
  "setUTCDate date x = Option.bind date (\<lambda>t. Option.bind x (\<lambda>dt.
     case civil_of_day (t div MS_PER_DAY) of (y, m, _) \<Rightarrow> time_clip (make_day y m dt * MS_PER_DAY + t mod MS_PER_DAY)))"

text \<open>The second argument of \<open>setUTCMonth\<close> defaults to the date's own day of month.\<close>

definition setUTCMonth :: "js_date \<Rightarrow> int option \<Rightarrow> int option \<Rightarrow> js_date" where
  "setUTCMonth date x dx = Option.bind date (\<lambda>t. Option.bind x (\<lambda>m. Option.bind dx (\<lambda>dt.
     time_clip (make_day (fst (civil_of_day (t div MS_PER_DAY))) m dt * MS_PER_DAY + t mod MS_PER_DAY))))"

text \<open>\<open>setUTCFullYear\<close> starts from the epoch when the date is invalid.\<close>

definition setUTCFullYear :: "js_date \<Rightarrow> int \<Rightarrow> int \<Rightarrow> int \<Rightarrow> js_date" where
  "setUTCFullYear date y m dt = time_clip (make_day y m dt * MS_PER_DAY
     + (case date of None \<Rightarrow> 0 | Some t \<Rightarrow> t mod MS_PER_DAY))"

definition setUTCHours :: "js_date \<Rightarrow> int \<Rightarrow> int \<Rightarrow> int \<Rightarrow> int \<Rightarrow> js_date" where
  "setUTCHours date h mi s ms = Option.bind date (\<lambda>t.
     time_clip (t div MS_PER_DAY * MS_PER_DAY + (h * 3600000 + mi * 60000 + s * 1000 + ms)))"

lemma getters_midnight [simp]:
  "civil_of_day n = (y, m, d) \<Longrightarrow> getUTCFullYear (Some (n * MS_PER_DAY)) = Some y"
  "civil_of_day n = (y, m, d) \<Longrightarrow> getUTCMonth (Some (n * MS_PER_DAY)) = Some m"
  "civil_of_day n = (y, m, d) \<Longrightarrow> getUTCDate (Some (n * MS_PER_DAY)) = Some d"
  "getUTCDay (Some (n * MS_PER_DAY)) = Some ((n + 4) mod 7)"
  by (simp_all add: getUTCFullYear_def getUTCMonth_def getUTCDate_def getUTCDay_def)

lemma setUTCDate_midnight:
  "civil_of_day n = (y, m, d) \<Longrightarrow> setUTCDate (Some (n * MS_PER_DAY)) (Some dt) = time_clip (make_day y m dt * MS_PER_DAY)"
  by (simp add: setUTCDate_def)

lemma setUTCMonth_midnight:
  "civil_of_day n = (y, m, d) \<Longrightarrow> setUTCMonth (Some (n * MS_PER_DAY)) (Some k) (Some dt) = time_clip (make_day y k dt * MS_PER_DAY)"
  by (simp add: setUTCMonth_def)

lemma time_clip_midnight: "\<bar>n\<bar> \<le> 100000000 \<Longrightarrow> time_clip (n * MS_PER_DAY) = Some (n * MS_PER_DAY)"
  by (simp add: time_clip_def abs_mult)

text \<open>The day number is linear in the date; the month index carries into the year.\<close>

lemma make_day_date: "make_day y m (d + k) = make_day y m d + k"
  by (simp add: make_day_def Let_def)

lemma make_day_month: "make_day y (m + 12 * k) d = make_day (y + k) m d"
  by (simp add: make_day_def Let_def add.assoc)


text \<open>Day numbers order civil dates lexicographically.\<close>

lemma days_before_month_mono:
  assumes "0 \<le> m" "m < m'" "m' < 12"
  shows "days_before_month y m + days_in_month y m \<le> days_before_month y m'"
proof -
  let ?ls = "month_lengths (leap_year y)"
  have n: "nat m < 12" "Suc (nat m) \<le> nat m'" using assms by linarith+
  have "take (nat m') ?ls = take (Suc (nat m)) ?ls @ take (nat m' - Suc (nat m)) (drop (Suc (nat m)) ?ls)"
    using n(2) by (metis le_add_diff_inverse take_add)
  moreover have "0 \<le> sum_list (take (nat m' - Suc (nat m)) (drop (Suc (nat m)) ?ls))"
    by (intro sum_list_nonneg) (use month_lengths_simps(2) in \<open>blast dest: in_set_takeD in_set_dropD\<close>)
  moreover have "sum_list (take (Suc (nat m)) ?ls) = sum_list (take (nat m) ?ls) + ?ls ! nat m"
    using n(1) by (simp add: take_Suc_conv_app_nth)
  ultimately show ?thesis by (simp add: days_before_month_def days_in_month_def)
qed

lemma make_day_valid: "valid_civil y m d \<Longrightarrow> make_day y m d = day_from_year y + (days_before_month y m + d - 1)"
  by (simp add: make_day_def valid_civil_def)

lemma make_day_less:
  assumes "valid_civil y m d" "valid_civil y' m' d'"
    and "y < y' \<or> (y = y' \<and> (m < m' \<or> (m = m' \<and> d < d')))"
  shows "make_day y m d < make_day y' m' d'"
proof -
  note b = days_before_month_less [OF assms(1)] days_before_month_less [OF assms(2)]
  consider "y < y'" | "y = y'" "m < m'" | "y = y'" "m = m'" "d < d'" using assms(3) by auto
  then show ?thesis
  proof cases
    case 1
    then have "day_from_year (y + 1) \<le> day_from_year y'" by (intro day_from_year_le) simp
    then show ?thesis using b day_from_year_Suc [of y] by (simp add: make_day_valid assms(1,2))
  next
    case 2
    then show ?thesis using days_before_month_mono [of m m' y] assms(1,2) by (simp add: make_day_valid valid_civil_def)
  next
    case 3
    then show ?thesis unfolding make_day_valid [OF assms(1)] make_day_valid [OF assms(2)] by simp
  qed
qed

text \<open>Months numbered through the years: the \<open>d\<close>-th day of month \<open>q = 12 * year + month\<close>.\<close>

definition month_day :: "int \<Rightarrow> int \<Rightarrow> int" where
  "month_day q d = make_day (q div 12) (q mod 12) d"

lemma make_day_month_day: "make_day y m d = month_day (12 * y + m) d"
  by (simp add: month_day_def make_day_def Let_def)

lemma month_day_add: "month_day q (d + k) = month_day q d + k"
  by (simp add: month_day_def make_day_date)

lemma month_end: "month_day (q + 1) 0 = month_day q (days_in_month (q div 12) (q mod 12))"
proof -
  define y where "y = q div 12"
  define m where "m = q mod 12"
  have q: "q = 12 * y + m" "0 \<le> m" "m < 12" by (simp_all add: y_def m_def)
  have "month_day (q + 1) 0 = make_day y (m + 1) 0" by (simp add: make_day_month_day q(1) add.assoc)
  also have "\<dots> = make_day y m (days_in_month y m)"
  proof (cases "m = 11")
    case True
    have "days_before_month y 11 + days_in_month y 11 = 365 + (if leap_year y then 1 else 0)"
      by (simp add: days_before_month_def days_in_month_def month_lengths_def numeral_eq_Suc)
    moreover have "days_before_month (y + 1) 0 = 0" by (simp add: days_before_month_def)
    ultimately show ?thesis using True day_from_year_Suc [of y] by (simp add: make_day_def)
  next
    case False
    have "nat (m + 1) = Suc (nat m)" "nat m < 12" using q(2,3) by simp_all
    then have "days_before_month y (m + 1) = days_before_month y m + days_in_month y m"
      by (simp add: days_before_month_def days_in_month_def take_Suc_conv_app_nth)
    then show ?thesis using False q(2,3) by (simp add: make_day_def)
  qed
  finally show ?thesis by (simp add: month_day_def y_def m_def)
qed

end
