(* ===== verification/Civil_Date.thy ===== *)
theory Civil_Date
  imports Js_Text Js_Date "HOL-Library.List_Lexorder" "HOL-Library.Char_ord"
begin

text \<open>
  \<open>engine/src/platform/civil-date.ts\<close> and \<open>iso-date.ts\<close>: civil-date arithmetic on \<open>YYYY-MM-DD\<close> texts for the
  years 1 through 9999.  The operations go through JavaScript's \<open>Date\<close> (theory \<open>Js_Date\<close>) or, in
  \<open>civilDayIndex\<close>, through integer arithmetic in 400-year eras.  The facts show that a supported date text is
  one day number and that every operation is the corresponding operation on day numbers.
\<close>

section \<open>ISO date texts\<close>

definition MONTH_DAYS :: "int list" where
  "MONTH_DAYS = [31, 28, 31, 30, 31, 30, 31, 31, 30, 31, 30, 31]"

text \<open>\<open>/^(\d{4})-(\d{2})-(\d{2})$/\<close> with its three groups as numbers\<close>

definition iso_parts :: "string \<Rightarrow> (int \<times> int \<times> int) option" where
  "iso_parts s = (if length s = 10 \<and> list_all is_digit (take 4 s) \<and> s ! 4 = CHR ''-''
       \<and> list_all is_digit (take 2 (drop 5 s)) \<and> s ! 7 = CHR ''-'' \<and> list_all is_digit (drop 8 s)
     then Some (int (digits_val (take 4 s)), int (digits_val (take 2 (drop 5 s))), int (digits_val (drop 8 s)))
     else None)"

definition isIsoCalendarDate :: "string \<Rightarrow> bool" where
  "isIsoCalendarDate value = (case iso_parts value of None \<Rightarrow> False
     | Some (year, month, day) \<Rightarrow>
         if year < 1 \<or> month < 1 \<or> month > 12 \<or> day < 1 then False
         else let leap = (year mod 4 = 0 \<and> (year mod 100 \<noteq> 0 \<or> year mod 400 = 0)) in
           day \<le> (if month = 2 \<and> leap then 29 else MONTH_DAYS ! nat (month - 1)))"

text \<open>\<open>Number(iso.slice(0, 4))\<close>, \<open>Number(iso.slice(5, 7))\<close> and \<open>Number(iso.slice(8, 10))\<close> of a checked text\<close>

definition iso_year :: "string \<Rightarrow> int" where
  "iso_year isoText = int (digits_val (take 4 isoText))"

definition iso_month :: "string \<Rightarrow> int" where
  "iso_month isoText = int (digits_val (take 2 (drop 5 isoText)))"

definition iso_day :: "string \<Rightarrow> int" where
  "iso_day isoText = int (digits_val (take 2 (drop 8 isoText)))"

definition parseIsoDate :: "string \<Rightarrow> js_date result" where
  "parseIsoDate isoText = (if \<not> isIsoCalendarDate isoText
     then Inl (RangeError ''business date must be a valid YYYY-MM-DD calendar date in years 0001 through 9999'')
     else Inr (time_clip (make_day (iso_year isoText) (iso_month isoText - 1) (iso_day isoText) * MS_PER_DAY)))"

section \<open>Dates from parts\<close>

abbreviation MAX_SAFE_INTEGER :: int where "MAX_SAFE_INTEGER \<equiv> 9007199254740991"

definition civilPart :: "int option \<Rightarrow> int result" where
  "civilPart value = (case value of
     Some v \<Rightarrow> if \<bar>v\<bar> \<le> MAX_SAFE_INTEGER then Inr v else Inl (RangeError ''civil date part must be a safe whole number'')
   | None \<Rightarrow> Inl (RangeError ''civil date part must be a safe whole number''))"

definition utcDateFromTime ::
  "int option \<Rightarrow> int option \<Rightarrow> int option \<Rightarrow> int \<Rightarrow> int \<Rightarrow> int \<Rightarrow> int \<Rightarrow> js_date result" where
  "utcDateFromTime year monthIndex day hour minute second ms =
     bindE (civilPart year) (\<lambda>y. bindE (civilPart monthIndex) (\<lambda>m. bindE (civilPart day) (\<lambda>d.
     bindE (civilPart (Some hour)) (\<lambda>h. bindE (civilPart (Some minute)) (\<lambda>mi.
     bindE (civilPart (Some second)) (\<lambda>s. bindE (civilPart (Some ms)) (\<lambda>l.
       Inr (setUTCHours (setUTCFullYear (time_clip 0) y m d) h mi s l))))))))"

abbreviation utcDateFromParts :: "int option \<Rightarrow> int option \<Rightarrow> int option \<Rightarrow> js_date result" where
  "utcDateFromParts year monthIndex day \<equiv> utcDateFromTime year monthIndex day 0 0 0 0"

text \<open>\<open>String(n)\<close>\<close>

definition number_text :: "int option \<Rightarrow> string" where
  "number_text n = (case n of None \<Rightarrow> ''NaN'' | Some v \<Rightarrow> bigint_text v)"

definition isoDateOf :: "js_date \<Rightarrow> string" where
  "isoDateOf date = padStart (number_text (getUTCFullYear date)) 4 CHR ''0'' @ ''-''
     @ padStart (number_text (map_option (\<lambda>m. m + 1) (getUTCMonth date))) 2 CHR ''0'' @ ''-''
     @ padStart (number_text (getUTCDate date)) 2 CHR ''0''"

definition calendarOffset :: "int \<Rightarrow> unit result" where
  "calendarOffset value = ensure (\<bar>value\<bar> \<le> MAX_SAFE_INTEGER) (RangeError ''calendar offset must be a safe whole number'')"

definition civilDayIndex :: "string \<Rightarrow> int result" where
  "civilDayIndex isoText = bindE (parseIsoDate isoText) (\<lambda>_.
     let year = iso_year isoText; month = iso_month isoText; day = iso_day isoText;
         y = (if month \<le> 2 then year - 1 else year);
         era = y div 400; yearOfEra = y - era * 400;
         dayOfYear = (153 * (month + (if month > 2 then - 3 else 9)) + 2) div 5 + day - 1;
         dayOfEra = yearOfEra * 365 + yearOfEra div 4 - yearOfEra div 100 + dayOfYear
     in Inr (era * 146097 + dayOfEra - 719468))"

definition isoFromCivilDayIndex :: "int \<Rightarrow> string result" where
  "isoFromCivilDayIndex day = bindE (calendarOffset day) (\<lambda>_. Inr (isoDateOf (time_clip (day * 86400000))))"

definition calendarDaysBetween :: "string \<Rightarrow> string \<Rightarrow> int result" where
  "calendarDaysBetween fromIso toIso = bindE (civilDayIndex toIso) (\<lambda>b. bindE (civilDayIndex fromIso) (\<lambda>a. Inr (b - a)))"

definition inclusiveCalendarDays :: "string \<Rightarrow> string \<Rightarrow> int result" where
  "inclusiveCalendarDays fromIso toIso = bindE (civilDayIndex toIso) (\<lambda>b. bindE (civilDayIndex fromIso) (\<lambda>a. Inr (b - a + 1)))"

definition daysInCivilMonth :: "int option \<Rightarrow> int option \<Rightarrow> int option result" where
  "daysInCivilMonth year month1 = bindE (utcDateFromParts year month1 (Some 0)) (\<lambda>d. Inr (getUTCDate d))"

definition civilDateFromParts :: "int option \<Rightarrow> int option \<Rightarrow> int option \<Rightarrow> string result" where
  "civilDateFromParts year month1 day =
     bindE (utcDateFromParts year (map_option (\<lambda>m. m - 1) month1) day) (\<lambda>d. Inr (isoDateOf d))"

text \<open>\<open>toISOString().slice(0, 10)\<close> of a year from 1 through 9999 prints the same ten characters as \<open>isoDateOf\<close>.\<close>

definition isoDay :: "js_date \<Rightarrow> string result" where
  "isoDay date = (case getUTCFullYear date of
     None \<Rightarrow> Inl (RangeError ''business date exceeds the supported calendar (0001 through 9999)'')
   | Some y \<Rightarrow> if y < 1 \<or> y > 9999 then Inl (RangeError ''business date exceeds the supported calendar (0001 through 9999)'')
               else Inr (isoDateOf date))"

section \<open>Stepping\<close>

definition startOfMonth :: "string \<Rightarrow> string result" where
  "startOfMonth isoText = bindE (parseIsoDate isoText) (\<lambda>_. Inr (take 7 isoText @ ''-01''))"

definition addCalendarDays :: "string \<Rightarrow> int \<Rightarrow> string result" where
  "addCalendarDays isoText days = bindE (calendarOffset days) (\<lambda>_. bindE (parseIsoDate isoText) (\<lambda>date.
     isoDay (setUTCDate date (map_option (\<lambda>d. d + days) (getUTCDate date)))))"

definition endOfMonth :: "string \<Rightarrow> string result" where
  "endOfMonth isoText = bindE (parseIsoDate isoText) (\<lambda>_. let year = Some (iso_year isoText); month1 = Some (iso_month isoText) in
     bindE (daysInCivilMonth year month1) (\<lambda>n. civilDateFromParts year month1 n))"

definition addMonthsStart :: "string \<Rightarrow> int \<Rightarrow> string result" where
  "addMonthsStart isoText months = bindE (calendarOffset months) (\<lambda>_. bindE (parseIsoDate isoText) (\<lambda>date0.
     let date = setUTCDate date0 (Some 1) in
     isoDay (setUTCMonth date (map_option (\<lambda>m. m + months) (getUTCMonth date)) (getUTCDate date))))"

text \<open>\<open>Math.min\<close>\<close>

definition js_min :: "int option \<Rightarrow> int option \<Rightarrow> int option" where
  "js_min a b = Option.bind a (\<lambda>x. map_option (min x) b)"

definition addMonthsClamped :: "string \<Rightarrow> int \<Rightarrow> string result" where
  "addMonthsClamped isoText months = bindE (calendarOffset months) (\<lambda>_. bindE (parseIsoDate isoText) (\<lambda>date.
     let day = getUTCDate date in
     bindE (addMonthsStart isoText months) (\<lambda>targetIso. bindE (parseIsoDate targetIso) (\<lambda>target.
     let year = getUTCFullYear target; month1 = map_option (\<lambda>m. m + 1) (getUTCMonth target) in
     bindE (daysInCivilMonth year month1) (\<lambda>n. civilDateFromParts year month1 (js_min day n))))))"

definition mondayOfIsoWeek :: "string \<Rightarrow> string result" where
  "mondayOfIsoWeek isoText = bindE (parseIsoDate isoText) (\<lambda>date.
     let day = map_option (\<lambda>d. (d + 6) smod 7) (getUTCDay date) in
     isoDay (setUTCDate date (Option.bind day (\<lambda>k. map_option (\<lambda>d. d - k) (getUTCDate date)))))"

definition weekStartsEndingOn :: "string \<Rightarrow> int \<Rightarrow> string list result" where
  "weekStartsEndingOn isoText weeks = bindE (calendarOffset weeks) (\<lambda>_.
     if weeks < 0 then Inl (RangeError ''week count must not be negative'')
     else bindE (mondayOfIsoWeek isoText) (\<lambda>m. bindE (parseIsoDate m) (\<lambda>monday.
       traverse (\<lambda>i. isoDay (setUTCDate monday (map_option (\<lambda>d. d - i * 7) (getUTCDate monday))))
         (rev (map int [0..<nat weeks])))))"

record quarter_bounds =
  qb_start :: string
  qb_end :: string

definition calendarQuarterBounds :: "string \<Rightarrow> quarter_bounds result" where
  "calendarQuarterBounds isoText = bindE (parseIsoDate isoText) (\<lambda>date.
     let quarter = map_option (\<lambda>m. m div 3) (getUTCMonth date);
         start = setUTCMonth date (map_option (\<lambda>q. q * 3) quarter) (Some 1);
         finish = setUTCMonth date (map_option (\<lambda>q. q * 3 + 3) quarter) (Some 0) in
     bindE (isoDay start) (\<lambda>s. bindE (isoDay finish) (\<lambda>e. Inr \<lparr>qb_start = s, qb_end = e\<rparr>)))"

section \<open>Texts and day numbers\<close>

text \<open>The text of a civil date, and the date texts of the supported calendar.\<close>

definition civil_text :: "int \<Rightarrow> int \<Rightarrow> int \<Rightarrow> string" where
  "civil_text y m d = padStart (bigint_text y) 4 CHR ''0'' @ ''-'' @ padStart (bigint_text (m + 1)) 2 CHR ''0'' @ ''-''
     @ padStart (bigint_text d) 2 CHR ''0''"

definition iso_of_day :: "int \<Rightarrow> string" where
  "iso_of_day n = (case civil_of_day n of (y, m, d) \<Rightarrow> civil_text y m d)"

definition supported :: "int \<Rightarrow> bool" where
  "supported n \<longleftrightarrow> - 719162 \<le> n \<and> n \<le> 2932896"

lemma supported_year: "supported n \<longleftrightarrow> 1 \<le> fst (civil_of_day n) \<and> fst (civil_of_day n) \<le> 9999"
proof -
  have f: "fst (civil_of_day n) = year_from_day n" by (simp add: civil_of_day_def Let_def split: prod.splits)
  have d: "day_from_year 1 = - 719162" "day_from_year 10000 = 2932897" by (simp_all add: day_from_year_def)
  have a: "1 \<le> year_from_day n \<longleftrightarrow> - 719162 \<le> n"
  proof
    assume "1 \<le> year_from_day n"
    then show "- 719162 \<le> n" using day_from_year_le [of 1 "year_from_day n"] year_from_day_bounds [of n] d by simp
  next
    assume n: "- 719162 \<le> n"
    show "1 \<le> year_from_day n"
    proof (rule ccontr)
      assume "\<not> 1 \<le> year_from_day n"
      then have "day_from_year (year_from_day n + 1) \<le> day_from_year 1" by (intro day_from_year_le) simp
      with n year_from_day_bounds [of n] d show False by simp
    qed
  qed
  have b: "year_from_day n \<le> 9999 \<longleftrightarrow> n \<le> 2932896"
  proof
    assume "year_from_day n \<le> 9999"
    then have "day_from_year (year_from_day n + 1) \<le> day_from_year 10000" by (intro day_from_year_le) simp
    then show "n \<le> 2932896" using year_from_day_bounds [of n] d by simp
  next
    assume n: "n \<le> 2932896"
    show "year_from_day n \<le> 9999"
    proof (rule ccontr)
      assume "\<not> year_from_day n \<le> 9999"
      then have "day_from_year 10000 \<le> day_from_year (year_from_day n)" by (intro day_from_year_le) simp
      with n year_from_day_bounds [of n] d show False by simp
    qed
  qed
  show ?thesis using a b f by (simp add: supported_def)
qed

lemma days_in_month_bounds: "0 \<le> m \<Longrightarrow> m < 12 \<Longrightarrow> 28 \<le> days_in_month y m \<and> days_in_month y m \<le> 31"
proof -
  assume "0 \<le> m" "m < 12"
  then have "nat m \<in> {0..<12}" by auto
  then show ?thesis unfolding days_in_month_def month_lengths_def by (auto simp: atLeastLessThan_nat_numeral)
qed

text \<open>Digit texts of one length: determined and ordered by their value.\<close>

lemma digit_less: "is_digit c \<Longrightarrow> is_digit d \<Longrightarrow> c < d \<longleftrightarrow> digit_val c < digit_val d"
  by (auto simp: less_char_def is_digit_def digit_val_def)

lemma digit_inject: "is_digit c \<Longrightarrow> is_digit d \<Longrightarrow> digit_val c = digit_val d \<Longrightarrow> c = d"
  by (metis digit_less less_irrefl linorder_neqE)

lemma digits_less:
  "length s = length t \<Longrightarrow> list_all is_digit s \<Longrightarrow> list_all is_digit t \<Longrightarrow> s < t \<longleftrightarrow> digits_val s < digits_val t"
proof (induction s t rule: list_induct2)
  case (Cons c s d t)
  let ?p = "10 ^ length t :: nat"
  have v: "digits_val s < ?p" "digits_val t < ?p" using Cons.hyps Cons.prems digits_val_less [of s] digits_val_less [of t] by simp_all
  consider "digit_val c < digit_val d" | "c = d" | "digit_val d < digit_val c"
    using digit_inject [of c d] Cons.prems by (metis linorder_cases list.pred_inject(2))
  then show ?case
  proof cases
    case 1
    then have "digit_val c * ?p + ?p \<le> digit_val d * ?p" by (metis Suc_leI add.commute mult_Suc mult_le_mono1)
    then show ?thesis using 1 v Cons.hyps Cons.prems digit_less [of c d] by (simp add: digits_val_Cons)
  next
    case 2
    then show ?thesis using Cons by (simp add: digits_val_Cons)
  next
    case 3
    then have "digit_val d * ?p + ?p \<le> digit_val c * ?p" by (metis Suc_leI add.commute mult_Suc mult_le_mono1)
    then show ?thesis using 3 v Cons.hyps Cons.prems digit_less [of c d] by (auto simp: digits_val_Cons)
  qed
qed simp

lemma digits_inject:
  "length s = length t \<Longrightarrow> list_all is_digit s \<Longrightarrow> list_all is_digit t \<Longrightarrow> digits_val s = digits_val t \<Longrightarrow> s = t"
  by (metis digits_less less_irrefl linorder_neqE)

lemma append_less: "length (a :: string) = length b \<Longrightarrow> a @ x < b @ y \<longleftrightarrow> a < b \<or> (a = b \<and> x < y)"
  by (induction a b rule: list_induct2) auto

lemma padded_digits:
  assumes "0 \<le> v" "v < 10 ^ k" "0 < k"
  shows "length (padStart (bigint_text v) k CHR ''0'') = k" "list_all is_digit (padStart (bigint_text v) k CHR ''0'')"
    "int (digits_val (padStart (bigint_text v) k CHR ''0'')) = v"
proof -
  have "nat v < 10 ^ k" using assms by (simp add: nat_less_iff)
  then have "length (nat_text (nat v)) \<le> k" using assms(3) by (rule length_nat_text_le)
  then show "length (padStart (bigint_text v) k CHR ''0'') = k" using assms(1) by (simp add: bigint_text_def max_def)
  show "list_all is_digit (padStart (bigint_text v) k CHR ''0'')" "int (digits_val (padStart (bigint_text v) k CHR ''0'')) = v"
    using assms(1) by (simp_all add: bigint_text_def)
qed

lemma padded_inverse:
  assumes "list_all is_digit w" "w \<noteq> []"
  shows "padStart (bigint_text (int (digits_val w))) (length w) CHR ''0'' = w"
proof (rule digits_inject)
  let ?v = "int (digits_val w)"
  have b: "0 \<le> ?v" "?v < 10 ^ length w" "0 < length w" using digits_val_less [OF assms(1)] assms(2) by (simp_all flip: of_nat_less_iff)
  show "length (padStart (bigint_text ?v) (length w) CHR ''0'') = length w" "list_all is_digit (padStart (bigint_text ?v) (length w) CHR ''0'')"
    by (rule padded_digits [OF b])+
  show "digits_val (padStart (bigint_text ?v) (length w) CHR ''0'') = digits_val w" using padded_digits(3) [OF b] by simp
qed (rule assms)

text \<open>A civil date in the supported years prints as ten characters whose groups read back.\<close>

definition printable :: "int \<Rightarrow> int \<Rightarrow> int \<Rightarrow> bool" where
  "printable y m d \<longleftrightarrow> 0 \<le> y \<and> y \<le> 9999 \<and> 0 \<le> m \<and> m < 12 \<and> 0 \<le> d \<and> d \<le> 99"

lemma civil_text_parts:
  assumes "printable y m d"
  obtains a b c where "civil_text y m d = a @ CHR ''-'' # b @ CHR ''-'' # c"
    "length a = 4" "length b = 2" "length c = 2" "list_all is_digit a" "list_all is_digit b" "list_all is_digit c"
    "int (digits_val a) = y" "int (digits_val b) = m + 1" "int (digits_val c) = d"
proof -
  have "0 \<le> y" "y < 10 ^ 4" "0 \<le> m + 1" "m + 1 < 10 ^ 2" "0 \<le> d" "d < 10 ^ 2" "(0::nat) < 4" "(0::nat) < 2"
    using assms by (simp_all add: printable_def)
  note p = padded_digits [OF this(1,2,7)] padded_digits [OF this(3,4,8)] padded_digits [OF this(5,6,8)]
  show thesis by (rule that [OF _ p(1,4,7,2,5,8,3,6,9)]) (simp add: civil_text_def)
qed

lemma iso_parts_civil_text: "printable y m d \<Longrightarrow> iso_parts (civil_text y m d) = Some (y, m + 1, d)"
  and iso_fields_civil_text: "printable y m d \<Longrightarrow> iso_year (civil_text y m d) = y \<and> iso_month (civil_text y m d) = m + 1
    \<and> iso_day (civil_text y m d) = d"
proof -
  assume "printable y m d"
  then obtain a b c where s: "civil_text y m d = a @ CHR ''-'' # b @ CHR ''-'' # c"
    and l: "length a = 4" "length b = 2" "length c = 2"
    and g: "list_all is_digit a" "list_all is_digit b" "list_all is_digit c"
    and v: "int (digits_val a) = y" "int (digits_val b) = m + 1" "int (digits_val c) = d" by (rule civil_text_parts)
  have t: "take 4 (civil_text y m d) = a" "drop 5 (civil_text y m d) = b @ CHR ''-'' # c" "drop 8 (civil_text y m d) = c"
    "length (civil_text y m d) = 10" "civil_text y m d ! 4 = CHR ''-''" "civil_text y m d ! 7 = CHR ''-''"
    using l by (simp_all add: s nth_append numeral_eq_Suc)
  show "iso_parts (civil_text y m d) = Some (y, m + 1, d)" using t l g v by (simp add: iso_parts_def)
  show "iso_year (civil_text y m d) = y \<and> iso_month (civil_text y m d) = m + 1 \<and> iso_day (civil_text y m d) = d"
    using t l v by (simp add: iso_year_def iso_month_def iso_day_def)
qed

lemma MONTH_DAYS_eq: "0 \<le> m \<Longrightarrow> m < 12 \<Longrightarrow>
  (if m + 1 = 2 \<and> leap_year y then 29 else MONTH_DAYS ! nat m) = days_in_month y m"
proof -
  assume "0 \<le> m" "m < 12"
  then obtain k where k: "m = int k" "k \<in> {0..<12}" by (auto elim: nonneg_int_cases)
  then show ?thesis by (auto simp: days_in_month_def month_lengths_def MONTH_DAYS_def atLeastLessThan_nat_numeral)
qed

lemma valid_printable: "valid_civil y m d \<Longrightarrow> 0 \<le> y \<Longrightarrow> y \<le> 9999 \<Longrightarrow> printable y m d"
  using days_in_month_bounds [of m y] by (simp add: valid_civil_def printable_def)

lemma isIso_civil_text:
  "1 \<le> y \<Longrightarrow> y \<le> 9999 \<Longrightarrow> valid_civil y m d \<Longrightarrow> isIsoCalendarDate (civil_text y m d)"
  using MONTH_DAYS_eq [of m y] iso_parts_civil_text [OF valid_printable, of y m d]
  by (auto simp: isIsoCalendarDate_def valid_civil_def leap_year_def Let_def split: if_splits)

lemma isIso_iff: "isIsoCalendarDate s \<longleftrightarrow> (\<exists>y m d. 1 \<le> y \<and> y \<le> 9999 \<and> valid_civil y m d \<and> s = civil_text y m d)"
proof
  assume i: "isIsoCalendarDate s"
  then obtain y mo d where p: "iso_parts s = Some (y, mo, d)" and b: "1 \<le> y" "1 \<le> mo" "mo \<le> 12" "1 \<le> d"
    and dm: "d \<le> (if mo = 2 \<and> leap_year y then 29 else MONTH_DAYS ! nat (mo - 1))"
    by (auto simp: isIsoCalendarDate_def leap_year_def Let_def split: option.splits if_splits)
  let ?a = "take 4 s" and ?b = "take 2 (drop 5 s)" and ?c = "drop 8 s"
  have s: "length s = 10" "list_all is_digit ?a" "list_all is_digit ?b" "list_all is_digit ?c" "s ! 4 = CHR ''-''" "s ! 7 = CHR ''-''"
    and v: "y = int (digits_val ?a)" "mo = int (digits_val ?b)" "d = int (digits_val ?c)"
    using p by (auto simp: iso_parts_def split: if_splits)
  have l: "length ?a = 4" "length ?b = 2" "length ?c = 2" using s(1) by simp_all
  have "s = ?a @ (s ! 4) # ?b @ (s ! 7) # ?c"
  proof -
    have "s = ?a @ drop 4 s" by simp
    also have "drop 4 s = s ! 4 # drop 5 s" using s(1) Cons_nth_drop_Suc [of 4 s] by simp
    also have "drop 5 s = ?b @ drop 2 (drop 5 s)" by (rule append_take_drop_id [symmetric])
    also have "drop 2 (drop 5 s) = drop 7 s" by simp
    also have "drop 7 s = s ! 7 # ?c" using s(1) Cons_nth_drop_Suc [of 7 s] by simp
    finally show ?thesis .
  qed
  moreover have "?a = padStart (bigint_text y) 4 CHR ''0''" "?b = padStart (bigint_text mo) 2 CHR ''0''" "?c = padStart (bigint_text d) 2 CHR ''0''"
    using padded_inverse [of ?a] padded_inverse [of ?b] padded_inverse [of ?c] s l v by fastforce+
  ultimately have "s = civil_text y (mo - 1) d" using s(5,6) by (simp add: civil_text_def)
  moreover have "y \<le> 9999" using digits_val_less [OF s(2)] l v by simp
  moreover have "valid_civil y (mo - 1) d" using b dm MONTH_DAYS_eq [of "mo - 1" y] by (auto simp: valid_civil_def)
  ultimately show "\<exists>y m d. 1 \<le> y \<and> y \<le> 9999 \<and> valid_civil y m d \<and> s = civil_text y m d" using b(1) by blast
qed (auto intro: isIso_civil_text)

section \<open>A supported date text is a day number\<close>

lemma civil_of_day_cases:
  assumes "supported n"
  obtains y m d where "civil_of_day n = (y, m, d)" "1 \<le> y" "y \<le> 9999" "valid_civil y m d" "make_day y m d = n"
    "iso_of_day n = civil_text y m d"
proof -
  obtain y m d where c: "civil_of_day n = (y, m, d)" by (cases "civil_of_day n")
  show thesis using that [OF c] assms civil_of_day_valid [OF c] by (simp add: supported_year c iso_of_day_def)
qed

lemma iso_of_make_day: "valid_civil y m d \<Longrightarrow> iso_of_day (make_day y m d) = civil_text y m d"
  by (simp add: iso_of_day_def civil_of_make_day)

lemma supported_make_day: "valid_civil y m d \<Longrightarrow> supported (make_day y m d) \<longleftrightarrow> 1 \<le> y \<and> y \<le> 9999"
  by (simp add: supported_year civil_of_make_day)

lemma isIso_day_iff: "isIsoCalendarDate s \<longleftrightarrow> (\<exists>n. supported n \<and> s = iso_of_day n)"
proof
  assume "isIsoCalendarDate s"
  then obtain y m d where "1 \<le> y" "y \<le> 9999" "valid_civil y m d" "s = civil_text y m d" unfolding isIso_iff by blast
  then show "\<exists>n. supported n \<and> s = iso_of_day n"
    by (intro exI [of _ "make_day y m d"]) (simp add: supported_make_day iso_of_make_day)
next
  assume "\<exists>n. supported n \<and> s = iso_of_day n"
  then show "isIsoCalendarDate s" by (auto elim!: civil_of_day_cases intro: isIso_civil_text)
qed

lemma supported_abs: "supported n \<Longrightarrow> \<bar>n\<bar> \<le> 100000000"
  unfolding supported_def by linarith

lemma iso_fields:
  assumes "supported n" "civil_of_day n = (y, m, d)"
  shows "iso_year (iso_of_day n) = y" "iso_month (iso_of_day n) = m + 1" "iso_day (iso_of_day n) = d"
proof -
  have "1 \<le> y" "y \<le> 9999" "valid_civil y m d"
    using assms civil_of_day_valid [OF assms(2)] by (simp_all add: supported_year)
  then have "printable y m d" by (intro valid_printable) simp_all
  then show "iso_year (iso_of_day n) = y" "iso_month (iso_of_day n) = m + 1" "iso_day (iso_of_day n) = d"
    using iso_fields_civil_text by (simp_all add: iso_of_day_def assms(2))
qed

lemma parse_iso_of_day:
  assumes "supported n"
  shows "parseIsoDate (iso_of_day n) = Inr (Some (n * MS_PER_DAY))"
proof -
  obtain y m d where c: "civil_of_day n = (y, m, d)" by (cases "civil_of_day n")
  have "isIsoCalendarDate (iso_of_day n)" using assms isIso_day_iff by blast
  then show ?thesis
    using iso_fields [OF assms c] civil_of_day_valid(2) [OF c] time_clip_midnight [OF supported_abs [OF assms]]
    by (simp add: parseIsoDate_def)
qed

lemma parse_Inr_iff: "parseIsoDate s = Inr t \<longleftrightarrow> (\<exists>n. supported n \<and> s = iso_of_day n \<and> t = Some (n * MS_PER_DAY))"
proof
  assume p: "parseIsoDate s = Inr t"
  then have "isIsoCalendarDate s" by (simp add: parseIsoDate_def split: if_splits)
  then obtain n where n: "supported n" "s = iso_of_day n" unfolding isIso_day_iff by blast
  with p show "\<exists>n. supported n \<and> s = iso_of_day n \<and> t = Some (n * MS_PER_DAY)" by (auto simp: parse_iso_of_day)
qed (auto simp: parse_iso_of_day)

lemma isoDateOf_midnight: "isoDateOf (Some (n * MS_PER_DAY)) = iso_of_day n"
proof -
  obtain y m d where c: "civil_of_day n = (y, m, d)" by (cases "civil_of_day n")
  then show ?thesis by (simp add: isoDateOf_def number_text_def iso_of_day_def civil_text_def)
qed

abbreviation calendar_error :: error where
  "calendar_error \<equiv> RangeError ''business date exceeds the supported calendar (0001 through 9999)''"

lemma isoDay_midnight: "isoDay (time_clip (n * MS_PER_DAY)) = (if supported n then Inr (iso_of_day n) else Inl calendar_error)"
proof (cases "time_clip (n * MS_PER_DAY)")
  case None
  then have "\<not> supported n" using time_clip_midnight [OF supported_abs] by fastforce
  then show ?thesis by (simp add: None isoDay_def getUTCFullYear_def)
next
  case (Some t)
  then have t: "t = n * MS_PER_DAY" by (simp add: time_clip_def split: if_splits)
  obtain y m d where c: "civil_of_day n = (y, m, d)" by (cases "civil_of_day n")
  show ?thesis unfolding Some t using c by (simp add: isoDay_def isoDateOf_midnight supported_year not_less)
qed

text \<open>The era arithmetic of \<open>civilDayIndex\<close> is the day number of the date.\<close>

lemma march_based:
  assumes "2 \<le> k" "k < 12"
  shows "(153 * (int k + 1 - 3) + 2) div 5 = days_before_month y (int k) - 59 - (if leap_year y then 1 else 0)"
proof -
  have "k = 2 \<or> k = 3 \<or> k = 4 \<or> k = 5 \<or> k = 6 \<or> k = 7 \<or> k = 8 \<or> k = 9 \<or> k = 10 \<or> k = 11" using assms by presburger
  then show ?thesis by (elim disjE) (simp_all add: days_before_month_def month_lengths_def)
qed

lemma era_split:
  fixes y :: int
  defines "e \<equiv> y div 400" and "r \<equiv> y - y div 400 * 400"
  shows "e * 146097 + (r * 365 + r div 4 - r div 100) = 365 * y + (y div 4 - y div 100 + y div 400)"
proof -
  have y: "y = 400 * e + r" by (simp add: r_def e_def)
  have "y div 4 = (r + 100 * e * 4) div 4" by (rule arg_cong [where f = "\<lambda>x. x div 4"]) (use y in linarith)
  then have a: "y div 4 = 100 * e + r div 4" by (simp only: div_mult_self1)
  have "y div 100 = (r + 4 * e * 100) div 100" by (rule arg_cong [where f = "\<lambda>x. x div 100"]) (use y in linarith)
  then have b: "y div 100 = 4 * e + r div 100" by (simp only: div_mult_self1)
  have c: "y div 400 = e" by (simp add: e_def)
  show ?thesis unfolding a b c using y by linarith
qed

lemma era_arithmetic:
  assumes "valid_civil y m d"
  defines "yy \<equiv> if m + 1 \<le> 2 then y - 1 else y"
  shows "365 * yy + (yy div 4 - yy div 100 + yy div 400) + ((153 * (m + 1 + (if m + 1 > 2 then - 3 else 9)) + 2) div 5 + d - 1) - 719468
    = make_day y m d"
proof -
  obtain k where k: "m = int k" "k < 12" using assms(1) by (auto simp: valid_civil_def elim: nonneg_int_cases)
  have md: "make_day y m d = day_from_year y + (days_before_month y m + d - 1)" by (rule make_day_valid [OF assms(1)])
  show ?thesis
  proof (cases "m + 1 \<le> 2")
    case True
    then have yy: "yy = y - 1" and "k = 0 \<or> k = 1" using k(1) by (auto simp: yy_def)
    then have D: "(153 * (m + 1 + (if m + 1 > 2 then - 3 else 9)) + 2) div 5 = 306 + days_before_month y m"
      using k(1) by (auto simp: days_before_month_def month_lengths_def)
    show ?thesis unfolding yy md day_from_year_eq D by simp
  next
    case False
    then have yy: "yy = y" by (simp add: yy_def)
    have D: "(153 * (m + 1 + (if m + 1 > 2 then - 3 else 9)) + 2) div 5 = days_before_month y m - 59 - (if leap_year y then 1 else 0)"
      using march_based [of k y] False k by simp
    show ?thesis unfolding yy md day_from_year_eq D leap_step [of y] by simp
  qed
qed

lemma add_era: "(a::int) + b = c \<Longrightarrow> c + p - k = m \<Longrightarrow> a + (b + p) - k = m"
  by simp

lemma civilDayIndex_day:
  assumes "supported n"
  shows "civilDayIndex (iso_of_day n) = Inr n"
proof -
  obtain y m d where c: "civil_of_day n = (y, m, d)" by (cases "civil_of_day n")
  let ?yy = "if m + 1 \<le> 2 then y - 1 else y"
  have "?yy div 400 * 146097 + ((?yy - ?yy div 400 * 400) * 365 + (?yy - ?yy div 400 * 400) div 4 - (?yy - ?yy div 400 * 400) div 100
      + ((153 * (m + 1 + (if m + 1 > 2 then - 3 else 9)) + 2) div 5 + d - 1)) - 719468 = make_day y m d"
    by (rule add_era [OF era_split era_arithmetic [OF civil_of_day_valid(1) [OF c]]])
  then show ?thesis unfolding civilDayIndex_def iso_fields [OF assms c] parse_iso_of_day [OF assms] civil_of_day_valid(2) [OF c]
    unfolding Let_def bindE.simps by (rule arg_cong [where f = Inr])
qed

lemma civilDayIndex_Inr: "civilDayIndex s = Inr n \<Longrightarrow> supported n \<and> iso_of_day n = s"
proof -
  assume c: "civilDayIndex s = Inr n"
  then obtain t where "parseIsoDate s = Inr t" by (auto simp: civilDayIndex_def bindE_Inr_iff)
  then obtain k where "supported k" "s = iso_of_day k" unfolding parse_Inr_iff by blast
  with c show ?thesis by (simp add: civilDayIndex_day)
qed

interpretation civil: exact_codec iso_of_day civilDayIndex supported
  by unfold_locales (auto simp: civilDayIndex_day dest: civilDayIndex_Inr)

lemma isoFromCivilDayIndex_day: "supported n \<Longrightarrow> isoFromCivilDayIndex n = Inr (iso_of_day n)"
  using supported_abs [of n] time_clip_midnight [of n]
  by (simp add: isoFromCivilDayIndex_def calendarOffset_def isoDateOf_midnight)

lemma iso_of_day_less: "supported n \<Longrightarrow> supported k \<Longrightarrow> iso_of_day n < iso_of_day k \<longleftrightarrow> n < k"
proof -
  have less: "iso_of_day n < iso_of_day k" if "supported n" "supported k" "n < k" for n k
  proof -
    note h = that
    obtain y m d where a: "1 \<le> y" "y \<le> 9999" "valid_civil y m d" "make_day y m d = n" "iso_of_day n = civil_text y m d"
      using h(1) by (elim civil_of_day_cases)
    obtain y' m' d' where b: "1 \<le> y'" "y' \<le> 9999" "valid_civil y' m' d'" "make_day y' m' d' = k" "iso_of_day k = civil_text y' m' d'"
      using h(2) by (elim civil_of_day_cases)
    have pa: "printable y m d" and pb: "printable y' m' d'" using a b by (simp_all add: valid_printable)
    have lex: "y < y' \<or> (y = y' \<and> (m < m' \<or> (m = m' \<and> d < d')))"
    proof (rule ccontr)
      assume "\<not> ?thesis"
      then have "(y', m', d') = (y, m, d) \<or> y' < y \<or> (y' = y \<and> (m' < m \<or> (m' = m \<and> d' < d)))" by auto
      then show False using make_day_less [OF b(3) a(3)] a(4) b(4) h(3) by auto
    qed
    obtain a1 b1 c1 where s: "civil_text y m d = a1 @ CHR ''-'' # b1 @ CHR ''-'' # c1"
      "length a1 = 4" "length b1 = 2" "length c1 = 2" "list_all is_digit a1" "list_all is_digit b1" "list_all is_digit c1"
      "int (digits_val a1) = y" "int (digits_val b1) = m + 1" "int (digits_val c1) = d" using pa by (rule civil_text_parts)
    obtain a2 b2 c2 where t: "civil_text y' m' d' = a2 @ CHR ''-'' # b2 @ CHR ''-'' # c2"
      "length a2 = 4" "length b2 = 2" "length c2 = 2" "list_all is_digit a2" "list_all is_digit b2" "list_all is_digit c2"
      "int (digits_val a2) = y'" "int (digits_val b2) = m' + 1" "int (digits_val c2) = d'" using pb by (rule civil_text_parts)
    have eq: "y = y' \<Longrightarrow> a1 = a2" "m = m' \<Longrightarrow> b1 = b2"
      using digits_inject [of a1 a2] digits_inject [of b1 b2] s t by auto
    have "a1 < a2 \<longleftrightarrow> y < y'" "b1 < b2 \<longleftrightarrow> m < m'" "c1 < c2 \<longleftrightarrow> d < d'"
      using digits_less [of a1 a2] digits_less [of b1 b2] digits_less [of c1 c2] s t by auto
    then show ?thesis using lex eq unfolding a(5) b(5) s(1) t(1) by (auto simp: append_less s(2,3) t(2,3))
  qed
  assume sup: "supported n" "supported k"
  show ?thesis using less [OF sup] less [OF sup(2,1)] by (metis linorder_neqE not_less_iff_gr_or_eq)
qed

section \<open>Operations on day numbers\<close>

abbreviation safe_int :: "int \<Rightarrow> bool" where "safe_int k \<equiv> \<bar>k\<bar> \<le> MAX_SAFE_INTEGER"

lemma addCalendarDays_day:
  assumes "supported n" "safe_int k"
  shows "addCalendarDays (iso_of_day n) k = (if supported (n + k) then Inr (iso_of_day (n + k)) else Inl calendar_error)"
proof -
  obtain y m d where c: "civil_of_day n = (y, m, d)" by (cases "civil_of_day n")
  have "make_day y m (d + k) = n + k" using civil_of_day_valid(2) [OF c] by (simp add: make_day_date)
  then show ?thesis
    using assms c isoDay_midnight [of "n + k"]
    by (simp add: addCalendarDays_def calendarOffset_def parse_iso_of_day setUTCDate_midnight)
qed

text \<open>The month a day lies in, numbered through the years.\<close>

definition month_of_day :: "int \<Rightarrow> int" where
  "month_of_day n = (case civil_of_day n of (y, m, _) \<Rightarrow> 12 * y + m)"

abbreviation day_of_month :: "int \<Rightarrow> int" where "day_of_month n \<equiv> snd (snd (civil_of_day n))"

abbreviation month_length :: "int \<Rightarrow> int" where "month_length q \<equiv> days_in_month (q div 12) (q mod 12)"

lemma month_of_day_cases:
  assumes "civil_of_day n = (y, m, d)"
  shows "month_of_day n = 12 * y + m" "month_of_day n div 12 = y" "month_of_day n mod 12 = m" "month_day (month_of_day n) d = n"
proof -
  have m: "0 \<le> m" "m < 12" using civil_of_day_valid(1) [OF assms] by (simp_all add: valid_civil_def)
  show q: "month_of_day n = 12 * y + m" by (simp add: month_of_day_def assms)
  show "month_of_day n div 12 = y" "month_of_day n mod 12 = m" using m by (simp_all add: q)
  show "month_day (month_of_day n) d = n" using civil_of_day_valid(2) [OF assms] by (simp add: q make_day_month_day)
qed

lemma civil_of_month_day: "1 \<le> d \<Longrightarrow> d \<le> month_length q \<Longrightarrow> civil_of_day (month_day q d) = (q div 12, q mod 12, d)"
  unfolding month_day_def by (rule civil_of_make_day) (simp add: valid_civil_def)

lemma month_length_bounds: "28 \<le> month_length q \<and> month_length q \<le> 31"
  by (rule days_in_month_bounds) simp_all

lemma addMonthsStart_day:
  assumes "supported n" "safe_int k"
  shows "addMonthsStart (iso_of_day n) k = (let f = month_day (month_of_day n + k) 1 in
    if supported f then Inr (iso_of_day f) else Inl calendar_error)"
proof -
  obtain y m d where c: "civil_of_day n = (y, m, d)" by (cases "civil_of_day n")
  have v: "valid_civil y m 1" "0 \<le> m" "m < 12"
    using civil_of_day_valid(1) [OF c] days_in_month_bounds [of m y] by (simp_all add: valid_civil_def)
  define f where "f = make_day y m 1"
  have fc: "civil_of_day f = (y, m, 1)" using v(1) by (simp add: f_def civil_of_make_day)
  have "supported f" using assms(1) by (simp add: supported_year c fc)
  then have clip: "time_clip (f * MS_PER_DAY) = Some (f * MS_PER_DAY)" by (intro time_clip_midnight supported_abs)
  have "setUTCDate (Some (n * MS_PER_DAY)) (Some 1) = Some (f * MS_PER_DAY)"
    using setUTCDate_midnight [OF c, of 1] clip by (simp add: f_def)
  then show ?thesis
    using assms fc month_of_day_cases(1) [OF c]
    by (simp add: addMonthsStart_def calendarOffset_def parse_iso_of_day setUTCMonth_midnight isoDay_midnight
        make_day_month_day add.assoc)
qed

lemma startOfMonth_day:
  assumes "supported n"
  shows "supported (month_day (month_of_day n) 1)" "startOfMonth (iso_of_day n) = Inr (iso_of_day (month_day (month_of_day n) 1))"
proof -
  obtain y m d where c: "civil_of_day n = (y, m, d)" "1 \<le> y" "y \<le> 9999" "valid_civil y m d" "iso_of_day n = civil_text y m d"
    using assms by (elim civil_of_day_cases)
  have v: "valid_civil y m 1" using c(4) days_in_month_bounds [of m y] by (simp add: valid_civil_def)
  have f: "month_day (month_of_day n) 1 = make_day y m 1" by (simp add: month_of_day_cases(1) [OF c(1)] make_day_month_day)
  show "supported (month_day (month_of_day n) 1)" using c(2,3) by (simp add: f supported_make_day [OF v])
  have p: "length (padStart (bigint_text y) 4 CHR ''0'') = 4" "length (padStart (bigint_text (m + 1)) 2 CHR ''0'') = 2"
    using padded_digits(1) [of y 4] padded_digits(1) [of "m + 1" 2] c(2,3,4) by (simp_all add: valid_civil_def)
  have "padStart (bigint_text 1) 2 CHR ''0'' = ''01''" by code_simp
  then have "take 7 (civil_text y m d) @ ''-01'' = civil_text y m 1" using p by (simp add: civil_text_def)
  then show "startOfMonth (iso_of_day n) = Inr (iso_of_day (month_day (month_of_day n) 1))"
    unfolding f iso_of_make_day [OF v] using assms by (simp add: startOfMonth_def parse_iso_of_day c(5) flip: c(5))
qed

lemma utcDateFromParts_day:
  assumes "safe_int y" "safe_int m" "safe_int d" "\<bar>make_day y m d\<bar> \<le> 100000000"
  shows "utcDateFromParts (Some y) (Some m) (Some d) = Inr (Some (make_day y m d * MS_PER_DAY))"
  using assms time_clip_midnight [of "make_day y m d"]
  by (simp add: utcDateFromTime_def civilPart_def setUTCFullYear_def time_clip_def [of 0] setUTCHours_def)

text \<open>The month \<open>q\<close> of the supported years.\<close>

lemma supported_month: "1 \<le> d \<Longrightarrow> d \<le> month_length q \<Longrightarrow> supported (month_day q d) \<longleftrightarrow> 1 \<le> q div 12 \<and> q div 12 \<le> 9999"
  by (simp add: supported_year civil_of_month_day)

lemma daysInCivilMonth_month:
  assumes "1 \<le> y" "y \<le> 9999" "0 \<le> m" "m < 12"
  shows "daysInCivilMonth (Some y) (Some (m + 1)) = Inr (Some (days_in_month y m))"
proof -
  define q where "q = 12 * y + m"
  have q: "q div 12 = y" "q mod 12 = m" using assms by (simp_all add: q_def)
  have e: "make_day y (m + 1) 0 = month_day q (month_length q)" using month_end [of q] by (simp add: make_day_month_day q_def add.assoc)
  have l: "1 \<le> month_length q" "month_length q \<le> month_length q" using month_length_bounds [of q] by simp_all
  have "supported (month_day q (month_length q))" using supported_month [OF l] q assms by simp
  then have b: "\<bar>make_day y (m + 1) 0\<bar> \<le> 100000000" unfolding e by (rule supported_abs)
  have "utcDateFromParts (Some y) (Some (m + 1)) (Some 0) = Inr (Some (month_day q (month_length q) * MS_PER_DAY))"
    using utcDateFromParts_day [OF _ _ _ b] assms unfolding e by simp
  then show ?thesis using civil_of_month_day [OF l] q by (simp add: daysInCivilMonth_def)
qed

lemma civilDateFromParts_day:
  assumes "1 \<le> y" "y \<le> 9999" "valid_civil y m d"
  shows "civilDateFromParts (Some y) (Some (m + 1)) (Some d) = Inr (iso_of_day (make_day y m d))"
proof -
  have "\<bar>make_day y m d\<bar> \<le> 100000000" using assms supported_make_day [OF assms(3)] by (intro supported_abs) simp
  moreover have "d \<le> 31" "1 \<le> d" "0 \<le> m" "m < 12" using assms(3) days_in_month_bounds [of m y] by (simp_all add: valid_civil_def)
  ultimately show ?thesis using utcDateFromParts_day [of y m d] assms(1,2)
    by (simp add: civilDateFromParts_def isoDateOf_midnight)
qed

lemma endOfMonth_day:
  assumes "supported n"
  defines "q \<equiv> month_of_day n"
  shows "supported (month_day q (month_length q))" "endOfMonth (iso_of_day n) = Inr (iso_of_day (month_day q (month_length q)))"
proof -
  obtain y m d where c: "civil_of_day n = (y, m, d)" "1 \<le> y" "y \<le> 9999" "valid_civil y m d"
    using assms(1) by (elim civil_of_day_cases)
  have m: "0 \<le> m" "m < 12" using c(4) by (simp_all add: valid_civil_def)
  have q: "q = 12 * y + m" "q div 12 = y" "q mod 12 = m" using month_of_day_cases [OF c(1)] by (simp_all add: q_def)
  show "supported (month_day q (month_length q))" using supported_month [of "month_length q" q] month_length_bounds [of q] c(2,3) q by simp
  have "valid_civil y m (days_in_month y m)" using m days_in_month_bounds [OF m, of y] by (simp add: valid_civil_def)
  then show "endOfMonth (iso_of_day n) = Inr (iso_of_day (month_day q (month_length q)))"
    using daysInCivilMonth_month [OF c(2,3) m] civilDateFromParts_day [OF c(2,3)] iso_fields [OF assms(1) c(1)] parse_iso_of_day [OF assms(1)] q
    by (simp add: endOfMonth_def make_day_month_day)
qed

lemma addMonthsClamped_day:
  assumes "supported n" "safe_int k"
  defines "q \<equiv> month_of_day n + k"
  shows "addMonthsClamped (iso_of_day n) k = (if 1 \<le> q div 12 \<and> q div 12 \<le> 9999
    then Inr (iso_of_day (month_day q (min (day_of_month n) (month_length q)))) else Inl calendar_error)"
proof -
  obtain y m d where c: "civil_of_day n = (y, m, d)" by (cases "civil_of_day n")
  have l: "(1::int) \<le> 1" "1 \<le> month_length q" using month_length_bounds [of q] by simp_all
  note f = supported_month [OF l] civil_of_month_day [OF l]
  have st: "addMonthsStart (iso_of_day n) k = (if supported (month_day q 1) then Inr (iso_of_day (month_day q 1)) else Inl calendar_error)"
    using addMonthsStart_day [OF assms(1,2)] by (simp add: q_def)
  show ?thesis
  proof (cases "1 \<le> q div 12 \<and> q div 12 \<le> 9999")
    case False
    then show ?thesis using st f(1) assms(1,2) by (auto simp: addMonthsClamped_def calendarOffset_def parse_iso_of_day)
  next
    case True
    define e where "e = min d (month_length q)"
    have sup: "supported (month_day q 1)" using True f(1) by simp
    have "1 \<le> d" using civil_of_day_valid(1) [OF c] by (simp add: valid_civil_def)
    then have "valid_civil (q div 12) (q mod 12) e" using l(2) by (simp add: valid_civil_def e_def)
    then show ?thesis
      using True st sup assms(1,2) c f(2) daysInCivilMonth_month [of "q div 12" "q mod 12"]
        civilDateFromParts_day [of "q div 12" "q mod 12" e]
      by (simp add: addMonthsClamped_def calendarOffset_def parse_iso_of_day js_min_def e_def month_day_def)
  qed
qed

text \<open>The Monday of a week: the last day number not after the date that is a Monday.\<close>

lemma mondayOfIsoWeek_day:
  assumes "supported n"
  shows "mondayOfIsoWeek (iso_of_day n) = (let k = n - (n + 3) mod 7 in if supported k then Inr (iso_of_day k) else Inl calendar_error)"
proof -
  obtain y m d where c: "civil_of_day n = (y, m, d)" by (cases "civil_of_day n")
  define k where "k = (n + 3) mod 7"
  have "0 \<le> (n + 4) mod 7 + 6" by simp
  then have day: "((n + 4) mod 7 + 6) smod 7 = k" unfolding k_def by (subst smod_nonneg) (simp_all, presburger)
  have "make_day y m (d - k) = n - k" using make_day_date [of y m d "- k"] civil_of_day_valid(2) [OF c] by simp
  then show ?thesis using assms c day isoDay_midnight [of "n - k"]
    by (simp add: mondayOfIsoWeek_def parse_iso_of_day setUTCDate_midnight k_def Let_def)
qed

lemma month_of_day_bounds: "month_day (month_of_day n) 1 \<le> n" "n < month_day (month_of_day n + 1) 1"
proof -
  obtain y m d where c: "civil_of_day n = (y, m, d)" by (cases "civil_of_day n")
  note q = month_of_day_cases [OF c]
  have d: "1 \<le> d" "d \<le> month_length (month_of_day n)" using civil_of_day_valid(1) [OF c] q(2,3) by (simp_all add: valid_civil_def)
  have n: "n = month_day (month_of_day n) 1 + (d - 1)" using q(4) month_day_add [of "month_of_day n" 1 "d - 1"] by simp
  show "month_day (month_of_day n) 1 \<le> n" using n d by simp
  have "month_day (month_of_day n + 1) 1 = month_day (month_of_day n + 1) 0 + 1" using month_day_add [of _ 0 1] by simp
  also have "month_day (month_of_day n + 1) 0 = month_day (month_of_day n) 1 + (month_length (month_of_day n) - 1)"
    unfolding month_end using month_day_add [of "month_of_day n" 1 "month_length (month_of_day n) - 1"] by simp
  finally show "n < month_day (month_of_day n + 1) 1" using n d by simp
qed

section \<open>Months in order\<close>

lemma month_day_next: "month_day (q + 1) 1 = month_day q 1 + month_length q"
  using month_day_add [of "q + 1" 0 1] month_end [of q] month_day_add [of q 1 "month_length q - 1"] by simp

lemma month_day_less: "q < q' \<Longrightarrow> month_day q 1 < month_day q' 1"
proof (induction "nat (q' - q)" arbitrary: q')
  case (Suc n)
  have "month_day (q' - 1) 1 < month_day q' 1"
    using month_day_next [of "q' - 1"] month_length_bounds [of "q' - 1"] by simp
  moreover have "q = q' - 1 \<or> month_day q 1 < month_day (q' - 1) 1" using Suc by (cases "q = q' - 1") auto
  ultimately show ?case by auto
qed simp

lemma month_of_day_mono: "n \<le> k \<Longrightarrow> month_of_day n \<le> month_of_day k"
proof (rule ccontr)
  assume *: "n \<le> k" "\<not> month_of_day n \<le> month_of_day k"
  then have "month_of_day k + 1 = month_of_day n \<or> month_of_day k + 1 < month_of_day n" by auto
  then have "month_day (month_of_day k + 1) 1 \<le> month_day (month_of_day n) 1" by (auto dest: month_day_less)
  then show False using * month_of_day_bounds(1) [of n] month_of_day_bounds(2) [of k] by simp
qed

lemma month_of_month_day: "1 \<le> d \<Longrightarrow> d \<le> month_length q \<Longrightarrow> month_of_day (month_day q d) = q"
  by (simp add: month_of_day_def civil_of_month_day)

lemma day_in_month: "month_day (month_of_day n) (day_of_month n) = n"
  by (metis month_of_day_cases(4) prod.collapse)

lemma month_start_fields:
  assumes "1 \<le> q div 12" "q div 12 \<le> 9999"
  shows "supported (month_day q 1)" "iso_year (iso_of_day (month_day q 1)) = q div 12"
    "iso_month (iso_of_day (month_day q 1)) = q mod 12 + 1" "month_of_day (month_day q 1) = q"
proof -
  have l: "(1::int) \<le> 1" "1 \<le> month_length q" using month_length_bounds [of q] by simp_all
  show s: "supported (month_day q 1)" using supported_month [OF l] assms by simp
  show "iso_year (iso_of_day (month_day q 1)) = q div 12" "iso_month (iso_of_day (month_day q 1)) = q mod 12 + 1"
    using iso_fields [OF s civil_of_month_day [OF l]] by simp_all
  show "month_of_day (month_day q 1) = q" by (rule month_of_month_day [OF l])
qed

lemma month_years: "supported n \<Longrightarrow> 1 \<le> month_of_day n div 12 \<and> month_of_day n div 12 \<le> 9999"
  by (metis civil_of_day_cases month_of_day_cases(2))

lemma addMonthsStart_month:
  assumes "1 \<le> q div 12" "q div 12 \<le> 9999" "safe_int k"
  shows "addMonthsStart (iso_of_day (month_day q 1)) k
    = (if 1 \<le> (q + k) div 12 \<and> (q + k) div 12 \<le> 9999 then Inr (iso_of_day (month_day (q + k) 1)) else Inl calendar_error)"
  using addMonthsStart_day [OF month_start_fields(1) [OF assms(1,2)] assms(3)] month_start_fields(4) [OF assms(1,2)]
    supported_month [of 1 "q + k"] month_length_bounds [of "q + k"] by (simp add: Let_def)

section \<open>Midnight of an ISO date\<close>

text \<open>
  \<open>new Date(`${value}T00:00:00Z`)\<close> and \<open>Date.parse\<close> of the same text, for a value of the form \<open>YYYY-MM-DD\<close>: a day up to 31 is
  carried into the next month, other fields out of range give the invalid date.
\<close>

definition utc_midnight :: "string \<Rightarrow> js_date" where
  "utc_midnight value = (case iso_parts value of None \<Rightarrow> None
     | Some (year, month, day) \<Rightarrow> if 1 \<le> month \<and> month \<le> 12 \<and> 1 \<le> day \<and> day \<le> 31
         then time_clip (make_day year (month - 1) day * MS_PER_DAY) else None)"

lemma utc_midnight_day:
  assumes "supported n"
  shows "utc_midnight (iso_of_day n) = Some (n * MS_PER_DAY)"
proof -
  obtain y m d where c: "civil_of_day n = (y, m, d)" "valid_civil y m d" using assms by (elim civil_of_day_cases)
  have "isIsoCalendarDate (iso_of_day n)" using assms isIso_day_iff by blast
  then have "iso_parts (iso_of_day n) = Some (y, m + 1, d)"
    using iso_fields [OF assms c(1)] by (auto simp: isIsoCalendarDate_def iso_parts_def iso_year_def iso_month_def iso_day_def take_drop split: if_splits)
  moreover have "d \<le> 31" using c(2) days_in_month_bounds [of m y] by (simp add: valid_civil_def)
  ultimately show ?thesis using c civil_of_day_valid(2) [OF c(1)] time_clip_midnight [OF supported_abs [OF assms]]
    by (simp add: utc_midnight_def valid_civil_def)
qed

section \<open>Properties\<close>

text \<open>
  C34: the era arithmetic of \<open>civilDayIndex\<close> agrees with JavaScript's own calendar.  For every text, the two readers accept
  the same texts, and the day number is the one the \<open>Date\<close> of that text has: midnight UTC is that many
  days of 86400000 milliseconds after the epoch.
\<close>

theorem civilDayIndex_is_date_day:
  "parseIsoDate s = Inr date \<longleftrightarrow> (\<exists>n. civilDayIndex s = Inr n \<and> date = Some (n * MS_PER_DAY))"
  by (auto simp: parse_Inr_iff civil.decode_Inr_iff)

text \<open>
  Date texts and day numbers are interchangeable: \<open>civilDayIndex\<close> reads exactly the texts that
  \<open>isoFromCivilDayIndex\<close> prints for the days from 0001-01-01 through 9999-12-31, and each undoes the other.
\<close>

theorem civil_date_roundtrip:
  "civilDayIndex s = Inr n \<longleftrightarrow> supported n \<and> isoFromCivilDayIndex n = Inr s"
  by (auto simp: civil.decode_Inr_iff isoFromCivilDayIndex_day)

text \<open>
  Day arithmetic is exact on the whole supported calendar.  \<open>addCalendarDays\<close> moves the day number by the
  offset and refuses exactly when the result leaves the years 1 through 9999; \<open>inclusiveCalendarDays\<close> counts
  the days; and comparing date texts as strings compares the dates.
\<close>

theorem civil_day_arithmetic:
  assumes "civilDayIndex s = Inr n" "civilDayIndex t = Inr k" "safe_int j"
  shows "addCalendarDays s j = (if supported (n + j) then isoFromCivilDayIndex (n + j) else Inl calendar_error)
    \<and> inclusiveCalendarDays s t = Inr (k - n + 1) \<and> (s < t \<longleftrightarrow> n < k)"
proof -
  have s: "supported n" "s = iso_of_day n" and t: "supported k" "t = iso_of_day k"
    using assms(1,2) by (simp_all add: civil.decode_Inr_iff)
  have "addCalendarDays s j = (if supported (n + j) then isoFromCivilDayIndex (n + j) else Inl calendar_error)"
    unfolding s(2) addCalendarDays_day [OF s(1) assms(3)] by (simp add: isoFromCivilDayIndex_day)
  moreover have "inclusiveCalendarDays s t = Inr (k - n + 1)" by (simp add: inclusiveCalendarDays_def assms(1,2))
  ultimately show ?thesis using s t by (simp add: iso_of_day_less)
qed

theorem civil_day_arithmetic_witness:
  "addCalendarDays ''2024-02-28'' 2 = isoFromCivilDayIndex 19783 \<and> inclusiveCalendarDays ''2024-02-28'' ''2024-03-01'' = Inr 3"
proof -
  have "civilDayIndex ''2024-02-28'' = Inr 19781" "civilDayIndex ''2024-03-01'' = Inr 19783" by code_simp+
  from civil_day_arithmetic [OF this, of 2] show ?thesis by (simp add: supported_def)
qed

text \<open>
  \<open>addMonthsClamped\<close> lands in the intended month.  From a valid date it returns exactly when the target month
  lies in the years 1 through 9999; the result is a valid date of the month \<open>months\<close> away, on the same day of
  month or on the month's last day when that is earlier.
\<close>

theorem addMonthsClamped_lands:
  assumes "isIsoCalendarDate s" "safe_int k"
  defines "q \<equiv> 12 * iso_year s + (iso_month s - 1) + k"
  shows "if 1 \<le> q div 12 \<and> q div 12 \<le> 9999
    then \<exists>r. addMonthsClamped s k = Inr r \<and> isIsoCalendarDate r \<and> iso_year r = q div 12 \<and> iso_month r = q mod 12 + 1
      \<and> iso_day r = min (iso_day s) (days_in_month (q div 12) (q mod 12))
    else addMonthsClamped s k = Inl calendar_error"
proof -
  obtain n where n: "supported n" "s = iso_of_day n" using assms(1) isIso_day_iff by blast
  obtain y m d where c: "civil_of_day n = (y, m, d)" by (cases "civil_of_day n")
  have f: "iso_year s = y" "iso_month s = m + 1" "iso_day s = d" using iso_fields [OF n(1) c] n(2) by simp_all
  have q: "q = month_of_day n + k" using month_of_day_cases(1) [OF c] f by (simp add: q_def)
  define e where "e = min d (month_length q)"
  have "1 \<le> d" using civil_of_day_valid(1) [OF c] by (simp add: valid_civil_def)
  then have e: "1 \<le> e" "e \<le> month_length q" using month_length_bounds [of q] by (simp_all add: e_def)
  note r = addMonthsClamped_day [OF n(1) assms(2), folded n(2) q]
  have "supported (month_day q e)" if "1 \<le> q div 12 \<and> q div 12 \<le> 9999" using supported_month [OF e] that by simp
  then show ?thesis using r iso_fields [OF _ civil_of_month_day [OF e]] isIso_day_iff f(3) c by (auto simp: e_def)
qed

theorem addMonthsClamped_lands_witness: "\<exists>r. addMonthsClamped ''2024-01-31'' 1 = Inr r \<and> iso_month r = 2 \<and> iso_day r = 29"
proof -
  have "isIsoCalendarDate ''2024-01-31''" "iso_year ''2024-01-31'' = 2024" "iso_month ''2024-01-31'' = 1" "iso_day ''2024-01-31'' = 31"
    "days_in_month 2024 1 = 29" by code_simp+
  with addMonthsClamped_lands [of "''2024-01-31''" 1] show ?thesis by auto
qed

end
