(* ===== verification/Payment_Terms.thy ===== *)
theory Payment_Terms
  imports Civil_Date
begin

text \<open>
  \<open>engine/src/ledger/payment-terms-due-date.ts\<close>: the due date of a document under payment terms, counted in days or
  falling on a day of the month.  The facts show that day-of-month terms pick the first due day more than
  the net days after the document date.
\<close>

text \<open>A stored rule value: null, a whole number, or anything else.\<close>

datatype rule_value = Null | Whole int | Other_value

record payment_terms_due_rule =
  netDays :: rule_value
  dueDayOfMonth :: rule_value

abbreviation (input) PAYMENT_TERMS_MAX_NET_DAYS :: int where "PAYMENT_TERMS_MAX_NET_DAYS \<equiv> 3652058"
abbreviation (input) PAYMENT_TERMS_DUE_DAY_MIN :: int where "PAYMENT_TERMS_DUE_DAY_MIN \<equiv> 1"
abbreviation (input) PAYMENT_TERMS_DUE_DAY_MAX :: int where "PAYMENT_TERMS_DUE_DAY_MAX \<equiv> 31"

definition whole_between :: "int \<Rightarrow> int \<Rightarrow> rule_value \<Rightarrow> bool" where
  "whole_between lo hi v = (case v of Whole n \<Rightarrow> safe_int n \<and> lo \<le> n \<and> n \<le> hi | _ \<Rightarrow> False)"

definition paymentTermsDueRuleRefusal :: "payment_terms_due_rule \<Rightarrow> string option" where
  "paymentTermsDueRuleRefusal rule =
     (if \<not> whole_between 0 PAYMENT_TERMS_MAX_NET_DAYS (netDays rule)
      then Some ''Payment terms must state zero or more whole net days''
      else if dueDayOfMonth rule \<noteq> Null \<and> \<not> whole_between PAYMENT_TERMS_DUE_DAY_MIN PAYMENT_TERMS_DUE_DAY_MAX (dueDayOfMonth rule)
      then Some ''Payment terms due day of month must be a whole day''
      else None)"

definition dueDayIn :: "string \<Rightarrow> int \<Rightarrow> string result" where
  "dueDayIn date dueDay = (let year = Some (iso_year date); month1 = Some (iso_month date) in
     bindE (daysInCivilMonth year month1) (\<lambda>n. civilDateFromParts year month1 (js_min (Some dueDay) n)))"

text \<open>\<open>catch (error) { if (error instanceof RangeError) throw ...; throw error; }\<close>\<close>

definition catch_range :: "error \<Rightarrow> 'a result \<Rightarrow> 'a result" where
  "catch_range e m = (case m of Inl (RangeError _) \<Rightarrow> Inl e | _ \<Rightarrow> m)"

text \<open>The due date once the rule has been accepted: net days, and the due day of the month if there is one.\<close>

definition due_date_of :: "string \<Rightarrow> int \<Rightarrow> int option \<Rightarrow> string result" where
  "due_date_of documentDate net dueDay = catch_range
     (PaymentTermsDueDateError ''The payment terms put the due date past the supported calendar (year 9999)'')
     (bindE (addCalendarDays documentDate net) (\<lambda>earliest. case dueDay of
        None \<Rightarrow> Inr earliest
      | Some dd \<Rightarrow> bindE (dueDayIn earliest dd) (\<lambda>sameMonth.
          if sameMonth > earliest then Inr sameMonth
          else bindE (addMonthsStart earliest 1) (\<lambda>nextMonth. dueDayIn nextMonth dd))))"

definition paymentTermsDueDate :: "string \<Rightarrow> payment_terms_due_rule \<Rightarrow> string result" where
  "paymentTermsDueDate documentDate rule =
     (if \<not> isIsoCalendarDate documentDate
      then Inl (PaymentTermsDueDateError ''document date must be a calendar date (YYYY-MM-DD)'')
      else case paymentTermsDueRuleRefusal rule of
        Some refusal \<Rightarrow> Inl (PaymentTermsDueDateError refusal)
      | None \<Rightarrow> (case netDays rule of
            Whole net \<Rightarrow> due_date_of documentDate net (case dueDayOfMonth rule of Whole dd \<Rightarrow> Some dd | _ \<Rightarrow> None)
          | _ \<Rightarrow> Inl (PaymentTermsDueDateError ''Payment terms must state zero or more whole net days'')))"

section \<open>Due days\<close>

text \<open>The due day of month \<open>q\<close>: the stated day, or the last day of a shorter month.\<close>

definition due_day :: "int \<Rightarrow> int \<Rightarrow> int" where
  "due_day dd q = month_day q (min dd (month_length q))"

definition is_due_day :: "int \<Rightarrow> int \<Rightarrow> bool" where
  "is_due_day dd n \<longleftrightarrow> day_of_month n = min dd (month_length (month_of_day n))"

lemma due_day_facts:
  assumes "1 \<le> dd"
  shows "month_of_day (due_day dd q) = q" "is_due_day dd (due_day dd q)" "is_due_day dd n \<Longrightarrow> n = due_day dd (month_of_day n)"
proof -
  have b: "1 \<le> min dd (month_length q)" "min dd (month_length q) \<le> month_length q" for q
    using assms month_length_bounds [of q] by simp_all
  show "month_of_day (due_day dd q) = q" unfolding due_day_def by (rule month_of_month_day [OF b])
  then show "is_due_day dd (due_day dd q)" using civil_of_month_day [OF b] by (simp add: is_due_day_def due_day_def)
  show "n = due_day dd (month_of_day n)" if "is_due_day dd n" using that day_in_month [of n] by (simp add: is_due_day_def due_day_def)
qed

lemma due_day_supported:
  assumes "1 \<le> dd"
  shows "supported (due_day dd q) \<longleftrightarrow> 1 \<le> q div 12 \<and> q div 12 \<le> 9999"
  unfolding due_day_def by (rule supported_month) (use assms month_length_bounds [of q] in simp_all)

lemma dueDayIn_day:
  assumes "supported n" "1 \<le> dd"
  shows "supported (due_day dd (month_of_day n))" "dueDayIn (iso_of_day n) dd = Inr (iso_of_day (due_day dd (month_of_day n)))"
proof -
  obtain y m d where c: "civil_of_day n = (y, m, d)" "1 \<le> y" "y \<le> 9999" "valid_civil y m d"
    using assms(1) by (elim civil_of_day_cases)
  have m: "0 \<le> m" "m < 12" using c(4) by (simp_all add: valid_civil_def)
  note q = month_of_day_cases [OF c(1)]
  show "supported (due_day dd (month_of_day n))" using due_day_supported [OF assms(2)] q c(2,3) by simp
  have "valid_civil y m (min dd (days_in_month y m))" using m assms(2) days_in_month_bounds [OF m, of y] by (simp add: valid_civil_def)
  then show "dueDayIn (iso_of_day n) dd = Inr (iso_of_day (due_day dd (month_of_day n)))"
    using daysInCivilMonth_month [OF c(2,3) m] civilDateFromParts_day [OF c(2,3)] iso_fields [OF assms(1) c(1)] q(2,3)
    by (simp add: dueDayIn_def js_min_def due_day_def month_day_def)
qed

text \<open>The due day after an earliest day, and that it is the first one.\<close>

definition next_due_day :: "int \<Rightarrow> int \<Rightarrow> int" where
  "next_due_day dd e = (let s = due_day dd (month_of_day e) in if e < s then s else due_day dd (month_of_day e + 1))"

lemma next_due_day_first:
  assumes "1 \<le> dd"
  shows "e < next_due_day dd e" "is_due_day dd (next_due_day dd e)" "e < j \<Longrightarrow> is_due_day dd j \<Longrightarrow> next_due_day dd e \<le> j"
proof -
  define q where "q = month_of_day e"
  have nx: "e < due_day dd (q + 1)"
    using month_of_day_bounds(1) [of "due_day dd (q + 1)"] month_of_day_bounds(2) [of e] due_day_facts(1) [OF assms]
    by (simp add: q_def)
  have sq: "due_day dd q < due_day dd (q + 1)"
    using month_of_day_bounds(1) [of "due_day dd (q + 1)"] month_of_day_bounds(2) [of "due_day dd q"] due_day_facts(1) [OF assms]
    by simp
  show "e < next_due_day dd e" "is_due_day dd (next_due_day dd e)"
    using nx due_day_facts(2) [OF assms] by (simp_all add: next_due_day_def Let_def q_def)
  assume j: "e < j" "is_due_day dd j"
  then have jq: "j = due_day dd (month_of_day j)" "q \<le> month_of_day j"
    using due_day_facts(3) [OF assms] month_of_day_mono [of e j] by (simp_all add: q_def)
  show "next_due_day dd e \<le> j"
  proof (rule ccontr)
    assume less: "\<not> next_due_day dd e \<le> j"
    have "next_due_day dd e = due_day dd q \<or> next_due_day dd e = due_day dd (q + 1)" by (simp add: next_due_day_def Let_def q_def)
    then have "month_of_day (next_due_day dd e) \<le> q + 1" using due_day_facts(1) [OF assms] by auto
    then have "month_of_day j \<le> q + 1" using less month_of_day_mono [of j "next_due_day dd e"] by simp
    then have "month_of_day j = q \<or> month_of_day j = q + 1" using jq(2) by auto
    then have "j = due_day dd q \<or> j = due_day dd (q + 1)" using jq(1) by auto
    then show False using less j(1) sq by (auto simp: next_due_day_def Let_def q_def [symmetric] split: if_splits)
  qed
qed

abbreviation past_calendar :: error where
  "past_calendar \<equiv> PaymentTermsDueDateError ''The payment terms put the due date past the supported calendar (year 9999)''"

lemma due_date_of_day:
  assumes "supported n" "safe_int k" "1 \<le> dd"
  shows "due_date_of (iso_of_day n) k None = (if supported (n + k) then Inr (iso_of_day (n + k)) else Inl past_calendar)"
    and "due_date_of (iso_of_day n) k (Some dd) = (if supported (n + k) \<and> supported (next_due_day dd (n + k))
      then Inr (iso_of_day (next_due_day dd (n + k))) else Inl past_calendar)"
proof -
  note a = addCalendarDays_day [OF assms(1,2)]
  show "due_date_of (iso_of_day n) k None = (if supported (n + k) then Inr (iso_of_day (n + k)) else Inl past_calendar)"
    by (simp add: due_date_of_def a catch_range_def)
  show "due_date_of (iso_of_day n) k (Some dd) = (if supported (n + k) \<and> supported (next_due_day dd (n + k))
      then Inr (iso_of_day (next_due_day dd (n + k))) else Inl past_calendar)"
  proof (cases "supported (n + k)")
    case False
    then show ?thesis by (simp add: due_date_of_def a catch_range_def)
  next
    case True
    define e where "e = n + k"
    define q where "q = month_of_day e"
    have e: "supported e" using True by (simp add: e_def)
    note s = dueDayIn_day [OF e assms(3), folded q_def]
    have nd: "next_due_day dd e = (if e < due_day dd q then due_day dd q else due_day dd (q + 1))"
      by (simp add: next_due_day_def Let_def q_def)
    have cmp: "iso_of_day e < iso_of_day (due_day dd q) \<longleftrightarrow> e < due_day dd q" by (rule iso_of_day_less [OF e s(1)])
    have l: "(1::int) \<le> 1" "1 \<le> month_length (q + 1)" using month_length_bounds [of "q + 1"] by simp_all
    have ms: "addMonthsStart (iso_of_day e) 1
        = (if supported (month_day (q + 1) 1) then Inr (iso_of_day (month_day (q + 1) 1)) else Inl calendar_error)"
      using addMonthsStart_day [OF e, of 1] by (simp add: q_def)
    have sm: "supported (month_day (q + 1) 1) \<longleftrightarrow> supported (due_day dd (q + 1))"
      using supported_month [OF l] due_day_supported [OF assms(3)] by simp
    have nm: "dueDayIn (iso_of_day (month_day (q + 1) 1)) dd = Inr (iso_of_day (due_day dd (q + 1)))" if "supported (month_day (q + 1) 1)"
      using dueDayIn_day(2) [OF that assms(3)] month_of_month_day [OF l] by simp
    show ?thesis unfolding e_def [symmetric] nd
      using e s cmp ms sm nm by (simp add: due_date_of_def a [folded e_def] catch_range_def)
  qed
qed

section \<open>Properties\<close>

text \<open>
  C35: payment terms pick the right day.  For a valid document date and accepted terms, net-day terms are due exactly
  the net days later, and day-of-month terms are due on the first due day (the stated day, or the last
  day of a shorter month) that falls more than the net days after the document date; the terms are refused
  only when that day lies past year 9999.
\<close>

theorem paymentTermsDueDate_first_due_day:
  assumes "civilDayIndex s = Inr n" "0 \<le> net" "net \<le> PAYMENT_TERMS_MAX_NET_DAYS" "1 \<le> dd" "dd \<le> 31"
  shows "paymentTermsDueDate s \<lparr>netDays = Whole net, dueDayOfMonth = Null\<rparr>
      = (if supported (n + net) then isoFromCivilDayIndex (n + net) else Inl past_calendar)
    \<and> (\<exists>r. n + net < r \<and> is_due_day dd r \<and> (\<forall>j. n + net < j \<and> is_due_day dd j \<longrightarrow> r \<le> j)
      \<and> paymentTermsDueDate s \<lparr>netDays = Whole net, dueDayOfMonth = Whole dd\<rparr>
        = (if supported r then isoFromCivilDayIndex r else Inl past_calendar))"
proof -
  have s: "supported n" "s = iso_of_day n" using assms(1) by (simp_all add: civil.decode_Inr_iff)
  then have iso: "isIsoCalendarDate s" using isIso_day_iff by blast
  have safe: "safe_int net" using assms(2,3) by simp
  have w: "whole_between 0 PAYMENT_TERMS_MAX_NET_DAYS (Whole net)" "whole_between 1 31 (Whole dd)"
    using assms(2-5) by (simp_all add: whole_between_def)
  define r where "r = next_due_day dd (n + net)"
  note f = next_due_day_first [OF assms(4), of "n + net", folded r_def]
  have sup: "supported (n + net) \<and> supported r \<longleftrightarrow> supported r" using f(1) s(1) assms(2) by (auto simp: supported_def)
  have "paymentTermsDueDate s \<lparr>netDays = Whole net, dueDayOfMonth = Null\<rparr>
      = (if supported (n + net) then isoFromCivilDayIndex (n + net) else Inl past_calendar)"
    using iso w(1) due_date_of_day(1) [OF s(1) safe assms(4)] s(2)
    by (simp add: paymentTermsDueDate_def paymentTermsDueRuleRefusal_def isoFromCivilDayIndex_day)
  moreover have "paymentTermsDueDate s \<lparr>netDays = Whole net, dueDayOfMonth = Whole dd\<rparr>
      = (if supported r then isoFromCivilDayIndex r else Inl past_calendar)"
    using iso w due_date_of_day(2) [OF s(1) safe assms(4), folded r_def, unfolded sup] s(2)
    by (simp add: paymentTermsDueDate_def paymentTermsDueRuleRefusal_def isoFromCivilDayIndex_day)
  ultimately show ?thesis using f by blast
qed

theorem paymentTermsDueDate_first_due_day_witness:
  "\<exists>r. 20413 < r \<and> is_due_day 1 r \<and> paymentTermsDueDate ''2025-10-22'' \<lparr>netDays = Whole 30, dueDayOfMonth = Whole 1\<rparr>
    = (if supported r then isoFromCivilDayIndex r else Inl past_calendar)"
proof -
  have "civilDayIndex ''2025-10-22'' = Inr 20383" by code_simp
  from paymentTermsDueDate_first_due_day [OF this, of 30 1] show ?thesis by auto
qed

end
