(* ===== verification/Cadence.thy ===== *)
theory Cadence
  imports Civil_Date Payment_Terms
begin

text \<open>
  \<open>engine/src/billing/cadence.ts\<close>: the month steps of subscription billing and recurring schedules.  Each date takes its
  year and month from the step and its day from a stored anchor.  The facts show that the anchor keeps a
  schedule from drifting: steps compose, and a step back undoes a step forward.
\<close>

definition shiftAnchoredMonth :: "int \<Rightarrow> int \<Rightarrow> int \<Rightarrow> int \<Rightarrow> int \<Rightarrow> string result" where
  "shiftAnchoredMonth year month1 monthStep anchorDay direction =
     (if \<not> safe_int year \<or> \<not> safe_int month1 \<or> month1 < 1 \<or> month1 > 12
      then Inl (Error ''cadence source month is not a valid calendar month'')
      else if \<not> safe_int monthStep \<or> monthStep < 1 then Inl (Error ''cadence month step must be a positive integer'')
      else if \<not> safe_int anchorDay \<or> anchorDay < 1 \<or> anchorDay > 31
      then Inl (Error ''cadence anchor day must be between 1 and 31'')
      else let targetMonthIndex = month1 - 1 + direction * monthStep;
               targetYear = year + targetMonthIndex div 12 in
        if \<not> safe_int targetYear \<or> targetYear < 1 \<or> targetYear > 9999
        then Inl (Error ''cadence step falls outside the supported date range'')
        else let targetMonth1 = (targetMonthIndex smod 12 + 12) smod 12 + 1 in
          bindE (daysInCivilMonth (Some targetYear) (Some targetMonth1)) (\<lambda>n.
            let day = js_min (Some anchorDay) n in
            Inr (padStart (bigint_text targetYear) 4 CHR ''0'' @ ''-'' @ padStart (bigint_text targetMonth1) 2 CHR ''0'' @ ''-''
                 @ padStart (number_text day) 2 CHR ''0'')))"

definition advanceAnchoredMonth :: "int \<Rightarrow> int \<Rightarrow> int \<Rightarrow> int \<Rightarrow> string result" where
  "advanceAnchoredMonth year month1 monthStep anchorDay = shiftAnchoredMonth year month1 monthStep anchorDay 1"

definition retreatAnchoredMonth :: "int \<Rightarrow> int \<Rightarrow> int \<Rightarrow> int \<Rightarrow> string result" where
  "retreatAnchoredMonth year month1 monthStep anchorDay = shiftAnchoredMonth year month1 monthStep anchorDay (- 1)"

text \<open>Comparing date texts; an empty \<open>guardedThrough\<close> is falsy.\<close>

definition unbilledBoundary :: "string \<Rightarrow> string option \<Rightarrow> string" where
  "unbilledBoundary nextBillOn guardedThrough = (case guardedThrough of
     Some g \<Rightarrow> if g \<noteq> [] \<and> g > nextBillOn then g else nextBillOn
   | None \<Rightarrow> nextBillOn)"

record paid_through_input =
  pt_startOn :: string
  pt_nextBillOn :: string
  pt_billed :: bool
  pt_guardedThrough :: "string option"

definition subscriptionPaidThrough :: "paid_through_input \<Rightarrow> string" where
  "subscriptionPaidThrough inp =
     (if pt_billed inp then unbilledBoundary (pt_nextBillOn inp) (pt_guardedThrough inp) else pt_startOn inp)"

section \<open>Steps as month arithmetic\<close>

lemma js_mod_12: "(x smod 12 + 12) smod 12 = (x mod 12 :: int)"
proof -
  have "\<bar>x smod 12\<bar> < 12" by (rule abs_smod_less) simp
  then have "(x smod 12 + 12) smod 12 = (x smod 12 + 12) mod 12" by (intro smod_nonneg) simp_all
  also have "\<dots> = x smod 12 mod 12" by simp
  also have "\<dots> = x mod 12"
  proof -
    have "x smod 12 = x + (- (x sdiv 12)) * 12" using sdiv_mult_smod_eq [of x 12] by simp
    then show ?thesis by (simp only: mod_mult_self1)
  qed
  finally show ?thesis .
qed

lemma shiftAnchoredMonth_month:
  assumes "safe_int y" "1 \<le> m" "m \<le> 12" "safe_int k" "1 \<le> k" "1 \<le> a" "a \<le> 31" "dir = 1 \<or> dir = - 1"
  defines "q \<equiv> 12 * y + (m - 1) + dir * k"
  shows "shiftAnchoredMonth y m k a dir = (if 1 \<le> q div 12 \<and> q div 12 \<le> 9999 then Inr (iso_of_day (due_day a q))
    else Inl (Error ''cadence step falls outside the supported date range''))"
proof -
  have qy: "y + (m - 1 + dir * k) div 12 = q div 12" and qm: "(m - 1 + dir * k) mod 12 = q mod 12"
    by (simp_all add: q_def add.assoc)
  have range: "\<not> safe_int (q div 12) \<or> q div 12 < 1 \<or> 9999 < q div 12 \<longleftrightarrow> \<not> (1 \<le> q div 12 \<and> q div 12 \<le> 9999)" by auto
  have tx: "civil_text (q div 12) (q mod 12) (min a (month_length q)) = iso_of_day (due_day a q)"
    using assms(6) month_length_bounds [of q] by (simp add: iso_of_day_def due_day_def civil_of_month_day)
  show ?thesis unfolding shiftAnchoredMonth_def Let_def qy js_mod_12 qm range
    using assms(1-7) daysInCivilMonth_month [of "q div 12" "q mod 12"] tx
    by (simp add: js_min_def number_text_def civil_text_def)
qed

lemma due_day_fields:
  assumes "1 \<le> a" "1 \<le> q div 12" "q div 12 \<le> 9999"
  shows "iso_year (iso_of_day (due_day a q)) = q div 12" "iso_month (iso_of_day (due_day a q)) = q mod 12 + 1"
proof -
  have l: "1 \<le> min a (month_length q)" "min a (month_length q) \<le> month_length q"
    using assms(1) month_length_bounds [of q] by simp_all
  have "supported (due_day a q)" using assms due_day_supported by simp
  from iso_fields [OF this, of "q div 12" "q mod 12" "min a (month_length q)"] civil_of_month_day [OF l]
  show "iso_year (iso_of_day (due_day a q)) = q div 12" "iso_month (iso_of_day (due_day a q)) = q mod 12 + 1"
    by (simp_all add: due_day_def)
qed

section \<open>Properties\<close>

text \<open>
  A billing schedule never drifts from its anchor.  Once a step has landed on a date, stepping on from that
  date's year and month by another step gives exactly what one combined step from the start gives, month-end
  clamping included; and stepping back by the same number of months returns the anchored date of the
  month the schedule came from.
\<close>

theorem cadence_steps_compose:
  assumes "advanceAnchoredMonth y m j a = Inr t" "1 \<le> y" "y \<le> 9999" "1 \<le> k" "safe_int (j + k)" "safe_int k"
  shows "advanceAnchoredMonth (iso_year t) (iso_month t) k a = advanceAnchoredMonth y m (j + k) a
    \<and> retreatAnchoredMonth (iso_year t) (iso_month t) j a = Inr (iso_of_day (due_day a (12 * y + (m - 1))))"
proof -
  have ok: "1 \<le> m" "m \<le> 12" "safe_int j" "1 \<le> j" "1 \<le> a" "a \<le> 31" "safe_int y"
    using assms(1) by (auto simp: advanceAnchoredMonth_def shiftAnchoredMonth_def split: if_splits)
  define q where "q = 12 * y + (m - 1)"
  have q0: "q div 12 = y" "q mod 12 = m - 1" using ok by (simp_all add: q_def)
  have t: "1 \<le> (q + j) div 12" "(q + j) div 12 \<le> 9999" "t = iso_of_day (due_day a (q + j))"
    using assms(1) shiftAnchoredMonth_month [OF ok(7,1-6), of 1]
    by (simp_all add: advanceAnchoredMonth_def q_def split: if_splits)
  have f: "iso_year t = (q + j) div 12" "iso_month t = (q + j) mod 12 + 1" using due_day_fields [OF ok(5) t(1,2)] t(3) by simp_all
  have b: "safe_int (iso_year t)" "1 \<le> iso_month t" "iso_month t \<le> 12" using f t by simp_all
  have e: "12 * iso_year t + (iso_month t - 1) = q + j" using f by simp
  have "advanceAnchoredMonth (iso_year t) (iso_month t) k a = advanceAnchoredMonth y m (j + k) a"
    using shiftAnchoredMonth_month [OF b assms(6,4) ok(5,6), of 1] shiftAnchoredMonth_month [OF ok(7,1,2) assms(5) _ ok(5,6), of 1]
      ok(4) assms(4) unfolding e q_def [symmetric] by (simp add: advanceAnchoredMonth_def add.assoc)
  moreover have "retreatAnchoredMonth (iso_year t) (iso_month t) j a = Inr (iso_of_day (due_day a q))"
    using shiftAnchoredMonth_month [OF b ok(3-6), of "- 1"] q0 assms(2,3) unfolding e by (simp add: retreatAnchoredMonth_def)
  ultimately show ?thesis by (simp add: q_def)
qed

theorem cadence_steps_compose_witness:
  "advanceAnchoredMonth 2025 2 1 31 = advanceAnchoredMonth 2025 1 2 31 \<and> advanceAnchoredMonth 2025 1 2 31 = Inr ''2025-03-31''"
proof -
  have "advanceAnchoredMonth 2025 1 1 31 = Inr ''2025-02-28''" "iso_year ''2025-02-28'' = 2025" "iso_month ''2025-02-28'' = 2"
    "advanceAnchoredMonth 2025 1 2 31 = Inr ''2025-03-31''" by code_simp+
  with cadence_steps_compose [OF this(1), of 1] show ?thesis by simp
qed

end
