(* ===== verification/Amortization.thy ===== *)
theory Amortization
  imports Money_Split Payment_Terms
begin

text \<open>
  \<open>engine/src/amortization/plan.ts\<close>: amortization plans.  A template policy is validated, the service window of a source
  line is resolved to a term of calendar months, each method turns the term into one weight per month, and
  the amount is split over the weights in whole quanta with the remainder on the last weighted month.
  A refusal carries its code.
\<close>

section \<open>Policies\<close>

datatype amortization_method = Straight_line | Prorated_first_last | Exact_days | Variable_table

datatype amortization_term_source = Template_term | Service_dates

abbreviation (input) MAX_AMORTIZATION_PERIODS :: int where "MAX_AMORTIZATION_PERIODS \<equiv> 600"
abbreviation (input) MAX_AMORTIZATION_PERIOD_OFFSET :: int where "MAX_AMORTIZATION_PERIOD_OFFSET \<equiv> 120"
abbreviation (input) AMORTIZATION_PERCENT_SCALE :: nat where "AMORTIZATION_PERCENT_SCALE \<equiv> 6"
abbreviation (input) PERCENT_UNIT :: int where "PERCENT_UNIT \<equiv> 1000000"
abbreviation (input) HUNDRED_PERCENT :: int where "HUNDRED_PERCENT \<equiv> 100000000"
abbreviation (input) MONTH_DAY_LCM :: int where "MONTH_DAY_LCM \<equiv> 377580"

record amortization_policy =
  ap_method :: amortization_method
  ap_termSource :: amortization_term_source
  ap_periodCount :: "int option"
  ap_percentages :: "string list option"
  ap_periodOffset :: int

record amortization_term_input =
  ti_serviceStartOn :: "string option"
  ti_serviceEndOn :: "string option"
  ti_transactionDate :: string

record amortization_term =
  at_startOn :: string
  at_endOn :: string
  at_firstPeriodOn :: string
  at_periodCount :: int

record planned_period =
  pp_periodStart :: string
  pp_periodEnd :: string
  pp_amount :: int

definition requireDate :: "string \<Rightarrow> unit result" where
  "requireDate value = ensure (isIsoCalendarDate value) (AmortizationError ''amortization_date_invalid'')"

definition monthSpan :: "string \<Rightarrow> string \<Rightarrow> int result" where
  "monthSpan fromIso toIso = bindE (startOfMonth fromIso) (\<lambda>a. bindE (startOfMonth toIso) (\<lambda>b.
     Inr ((iso_year b - iso_year a) * 12 + (iso_month b - iso_month a) + 1)))"

definition requirePeriodCount :: "int option \<Rightarrow> int result" where
  "requirePeriodCount cnt = (case cnt of
     Some c \<Rightarrow> if \<not> safe_int c \<or> c < 1 \<or> c > MAX_AMORTIZATION_PERIODS
               then Inl (AmortizationError ''amortization_period_count_invalid'') else Inr c
   | None \<Rightarrow> Inl (AmortizationError ''amortization_period_count_invalid''))"

text \<open>\<open>/^(\d{1,3})(?:\.(\d{1,6}))?$/\<close> with its two groups; the second is empty when absent\<close>

definition percent_match :: "string \<Rightarrow> (string \<times> string) option" where
  "percent_match t = (let w = takeWhile is_digit t; r = dropWhile is_digit t in
     if length w < 1 \<or> length w > 3 then None
     else case r of [] \<Rightarrow> Some (w, [])
       | c # f \<Rightarrow> if c = CHR ''.'' \<and> 1 \<le> length f \<and> length f \<le> 6 \<and> list_all is_digit f then Some (w, f) else None)"

definition parse_percentage :: "string \<Rightarrow> int result" where
  "parse_percentage raw = (case percent_match (trim raw) of
     None \<Rightarrow> Inl (AmortizationError ''amortization_percentage_invalid'')
   | Some (w, f) \<Rightarrow> Inr (bigint_of_text w * PERCENT_UNIT + bigint_of_text (padEnd f AMORTIZATION_PERCENT_SCALE CHR ''0'')))"

definition parsePercentageTable :: "string list option \<Rightarrow> int list result" where
  "parsePercentageTable percentages = (case percentages of
     None \<Rightarrow> Inl (AmortizationError ''amortization_percentages_missing'')
   | Some ps \<Rightarrow>
       if ps = [] then Inl (AmortizationError ''amortization_percentages_missing'')
       else if int (length ps) > MAX_AMORTIZATION_PERIODS then Inl (AmortizationError ''amortization_percentages_too_long'')
       else bindE (traverse parse_percentage ps) (\<lambda>parsed.
         if sum_list parsed \<noteq> HUNDRED_PERCENT then Inl (AmortizationError ''amortization_percentages_total'')
         else Inr parsed))"

definition validateAmortizationPolicy :: "amortization_policy \<Rightarrow> unit result" where
  "validateAmortizationPolicy policy =
     bindE (ensure (\<not> (\<not> safe_int (ap_periodOffset policy) \<or> ap_periodOffset policy < 0
              \<or> ap_periodOffset policy > MAX_AMORTIZATION_PERIOD_OFFSET))
       (AmortizationError ''amortization_offset_invalid'')) (\<lambda>_.
     if ap_method policy = Variable_table then
       bindE (ensure (ap_termSource policy = Template_term) (AmortizationError ''amortization_variable_term'')) (\<lambda>_.
       bindE (parsePercentageTable (ap_percentages policy)) (\<lambda>table.
         ensure (ap_periodCount policy = Some (int (length table))) (AmortizationError ''amortization_percentages_count'')))
     else
       bindE (ensure (\<not> (case ap_percentages policy of None \<Rightarrow> False | Some ps \<Rightarrow> ps \<noteq> []))
         (AmortizationError ''amortization_percentages_unexpected'')) (\<lambda>_.
       if ap_termSource policy = Template_term then bindE (requirePeriodCount (ap_periodCount policy)) (\<lambda>_. Inr ())
       else Inr ()))"

section \<open>Terms\<close>

definition optional_date :: "string option \<Rightarrow> unit result" where
  "optional_date d = (case d of None \<Rightarrow> Inr () | Some s \<Rightarrow> requireDate s)"

text \<open>Start, end and number of periods, by the source of the term.\<close>

definition service_window :: "amortization_term_input \<Rightarrow> (string \<times> string \<times> int) result" where
  "service_window inp = (case (ti_serviceStartOn inp, ti_serviceEndOn inp) of
     (Some startOn, Some endOn) \<Rightarrow>
       bindE (civilDayIndex endOn) (\<lambda>e. bindE (civilDayIndex startOn) (\<lambda>s.
         if e < s then Inl (AmortizationError ''amortization_service_dates_inverted'')
         else bindE (monthSpan startOn endOn) (\<lambda>n. Inr (startOn, endOn, n))))
   | _ \<Rightarrow> Inl (AmortizationError ''amortization_service_dates_missing''))"

definition template_window :: "amortization_policy \<Rightarrow> amortization_term_input \<Rightarrow> (string \<times> string \<times> int) result" where
  "template_window policy inp =
     (let startOn = (case ti_serviceStartOn inp of Some s \<Rightarrow> s | None \<Rightarrow> ti_transactionDate inp) in
      bindE (requirePeriodCount (ap_periodCount policy)) (\<lambda>periodCount.
      bindE (addMonthsClamped startOn periodCount) (\<lambda>anniversary.
      bindE (addCalendarDays anniversary (- 1)) (\<lambda>endOn.
        if ap_method policy = Straight_line \<or> ap_method policy = Variable_table
        then bindE (addMonthsStart startOn (periodCount - 1)) (\<lambda>l. bindE (endOfMonth l) (\<lambda>monthEnd.
          Inr (startOn, monthEnd, periodCount)))
        else bindE (monthSpan startOn endOn) (\<lambda>n. Inr (startOn, endOn, n))))))"

definition resolveAmortizationTerm :: "amortization_policy \<Rightarrow> amortization_term_input \<Rightarrow> amortization_term result" where
  "resolveAmortizationTerm policy inp =
     bindE (validateAmortizationPolicy policy) (\<lambda>_.
     bindE (requireDate (ti_transactionDate inp)) (\<lambda>_.
     bindE (optional_date (ti_serviceStartOn inp)) (\<lambda>_.
     bindE (optional_date (ti_serviceEndOn inp)) (\<lambda>_.
     bindE (if ap_termSource policy = Service_dates then service_window inp else template_window policy inp)
       (\<lambda>(startOn, endOn, periodCount).
     if periodCount > MAX_AMORTIZATION_PERIODS then Inl (AmortizationError ''amortization_term_too_long'')
     else bindE (addMonthsStart startOn (ap_periodOffset policy)) (\<lambda>first.
       Inr \<lparr>at_startOn = startOn, at_endOn = endOn, at_firstPeriodOn = first, at_periodCount = periodCount\<rparr>))))))"

section \<open>Weights and amounts\<close>

definition overlapDays :: "string \<Rightarrow> string \<Rightarrow> string \<Rightarrow> int result" where
  "overlapDays monthStart startOn endOn =
     bindE (civilDayIndex monthStart) (\<lambda>a. bindE (civilDayIndex startOn) (\<lambda>b.
     bindE (endOfMonth monthStart) (\<lambda>me. bindE (civilDayIndex me) (\<lambda>c. bindE (civilDayIndex endOn) (\<lambda>d.
     let f = max a b; t = min c d in Inr (if t \<ge> f then t - f + 1 else 0))))))"

definition month_share :: "string \<Rightarrow> string \<Rightarrow> string \<Rightarrow> int result" where
  "month_share startOn endOn month = bindE (daysInCivilMonth (Some (iso_year month)) (Some (iso_month month))) (\<lambda>days.
     bindE (civilPart days) (\<lambda>n. bindE (overlapDays month startOn endOn) (\<lambda>k. Inr ((k * MONTH_DAY_LCM) sdiv n))))"

definition termWeights :: "amortization_policy \<Rightarrow> amortization_term \<Rightarrow> int list result" where
  "termWeights policy aterm =
     bindE (traverse (\<lambda>i. addMonthsStart (at_startOn aterm) i) (map int [0..<nat (at_periodCount aterm)])) (\<lambda>months.
     case ap_method policy of
       Straight_line \<Rightarrow> Inr (map (\<lambda>_. 1) months)
     | Exact_days \<Rightarrow> traverse (\<lambda>month. overlapDays month (at_startOn aterm) (at_endOn aterm)) months
     | Prorated_first_last \<Rightarrow> traverse (month_share (at_startOn aterm) (at_endOn aterm)) months
     | Variable_table \<Rightarrow> bindE (parsePercentageTable (ap_percentages policy)) (\<lambda>table.
         if length table \<noteq> length months then Inl (AmortizationError ''amortization_percentages_count'') else Inr table))"

text \<open>The last index that carries weight, \<open>-1\<close> when none does.\<close>

definition last_weighted :: "int list \<Rightarrow> int" where
  "last_weighted weights = fold (\<lambda>i l. if weights ! i > 0 then int i else l) [0..<length weights] (- 1)"

definition allocateRemainderToLast :: "int \<Rightarrow> int list \<Rightarrow> int \<Rightarrow> int list result" where
  "allocateRemainderToLast amount weights quantum =
     (if amount < 0 then Inl (AmortizationError ''amortization_amount_negative'')
      else if quantum \<le> 0 then Inl (AmortizationError ''The currency quantum must be positive.'')
      else if list_ex (\<lambda>w. w < 0) weights then Inl (AmortizationError ''Amortization weights cannot be negative.'')
      else let totalWeight = sum_list weights in
        if totalWeight = 0 then Inl (AmortizationError ''amortization_zero_weights'')
        else let l = last_weighted weights;
                 parts = map (\<lambda>i. if int i = l then 0 else (((amount * weights ! i) sdiv totalWeight) sdiv quantum) * quantum) [0..<length weights]
             in Inr (parts[nat l := amount - sum_list parts]))"

definition planQuantum :: "int \<Rightarrow> int \<Rightarrow> int result" where
  "planQuantum amount currencyExponent =
     (if currencyExponent < 0 \<or> currencyExponent > 4 then Inl (AmortizationError ''amortization_currency_exponent'')
      else let minor = 10 ^ nat (4 - currencyExponent) in Inr (if amount smod minor = 0 then minor else 1))"

definition planned :: "string \<Rightarrow> int \<Rightarrow> planned_period result" where
  "planned periodStart amount = bindE (endOfMonth periodStart) (\<lambda>e.
     Inr \<lparr>pp_periodStart = periodStart, pp_periodEnd = e, pp_amount = amount\<rparr>)"

definition buildAmortizationPlan :: "amortization_policy \<Rightarrow> amortization_term \<Rightarrow> int \<Rightarrow> int \<Rightarrow> planned_period list result" where
  "buildAmortizationPlan policy aterm amount quantum =
     (if amount \<le> 0 then Inl (AmortizationError ''amortization_amount_not_positive'')
      else bindE (termWeights policy aterm) (\<lambda>weights. bindE (allocateRemainderToLast amount weights quantum) (\<lambda>amounts.
        traverse (\<lambda>(i, a). bindE (addMonthsStart (at_firstPeriodOn aterm) (int i)) (\<lambda>periodStart. planned periodStart a))
          (zip [0..<length amounts] amounts))))"

section \<open>Re-forecasting\<close>

record weighted_period =
  wp_periodStart :: string
  wp_weight :: int

record reforecast_input =
  rf_policy :: amortization_policy
  rf_currentPlan :: "weighted_period list"
  rf_remaining :: int
  rf_fromPeriod :: string
  rf_newLastPeriod :: "string option"
  rf_quantum :: int

definition changed_term_periods :: "reforecast_input \<Rightarrow> string \<Rightarrow> string \<Rightarrow> weighted_period list result" where
  "changed_term_periods inp fromPeriod newLast =
     (if ap_method (rf_policy inp) = Variable_table then Inl (AmortizationError ''amortization_variable_term_change'')
      else bindE (startOfMonth newLast) (\<lambda>l. bindE (monthSpan fromPeriod l) (\<lambda>n.
        if n < 1 then Inl (AmortizationError ''amortization_term_change_inverted'')
        else if n > MAX_AMORTIZATION_PERIODS then Inl (AmortizationError ''amortization_term_too_long'')
        else traverse (\<lambda>i. bindE (addMonthsStart fromPeriod i) (\<lambda>p. Inr \<lparr>wp_periodStart = p, wp_weight = 1\<rparr>))
               (map int [0..<nat n]))))"

definition remaining_periods :: "reforecast_input \<Rightarrow> string \<Rightarrow> weighted_period list result" where
  "remaining_periods inp fromPeriod =
     bindE (foldE (\<lambda>acc p. bindE (civilDayIndex (wp_periodStart p)) (\<lambda>a. bindE (civilDayIndex fromPeriod) (\<lambda>b.
              Inr (if a \<ge> b then acc @ [p] else acc)))) [] (rf_currentPlan inp)) (\<lambda>ps.
       Inr (if ps = [] \<or> list_all (\<lambda>p. wp_weight p = 0) ps then [\<lparr>wp_periodStart = fromPeriod, wp_weight = 1\<rparr>] else ps))"

definition reforecastAmortizationPlan :: "reforecast_input \<Rightarrow> planned_period list result" where
  "reforecastAmortizationPlan inp = bindE (startOfMonth (rf_fromPeriod inp)) (\<lambda>fromPeriod.
     if rf_remaining inp < 0 then Inl (AmortizationError ''amortization_remaining_negative'')
     else if rf_remaining inp = 0 then Inr []
     else bindE (case rf_newLastPeriod inp of
          Some l \<Rightarrow> if l \<noteq> [] then changed_term_periods inp fromPeriod l else remaining_periods inp fromPeriod
        | None \<Rightarrow> remaining_periods inp fromPeriod) (\<lambda>periods.
       bindE (allocateRemainderToLast (rf_remaining inp) (map wp_weight periods) (rf_quantum inp)) (\<lambda>amounts.
         traverse (\<lambda>(p, a). planned (wp_periodStart p) a) (zip periods amounts))))"

section \<open>The remainder split\<close>

lemma last_weighted_aux:
  "n \<le> length ws \<Longrightarrow> (let l = fold (\<lambda>i l. if ws ! i > 0 then int i else l) [0..<n] (- 1) in
    (l = - 1 \<and> (\<forall>i < n. \<not> ws ! i > 0)) \<or> (0 \<le> l \<and> l < int n \<and> ws ! nat l > 0 \<and> (\<forall>i < n. l < int i \<longrightarrow> \<not> ws ! i > 0)))"
proof (induction n)
  case (Suc n)
  then show ?case by (auto simp: Let_def less_Suc_eq)
qed simp

lemma last_weighted_index:
  assumes "\<not> list_ex (\<lambda>w. w < 0) ws" "sum_list ws \<noteq> 0"
  shows "0 \<le> last_weighted ws" "nat (last_weighted ws) < length ws" "0 < ws ! nat (last_weighted ws)"
    "i < length ws \<Longrightarrow> last_weighted ws < int i \<Longrightarrow> ws ! i = 0"
proof -
  have nn: "\<forall>w \<in> set ws. 0 \<le> w" using assms(1) by (auto simp: list_ex_iff)
  have ex: "\<exists>i < length ws. 0 < ws ! i"
  proof (rule ccontr)
    assume "\<not> ?thesis"
    then have "\<forall>w \<in> set ws. w = 0" using nn by (metis in_set_conv_nth order_antisym not_less)
    then have "sum_list ws = 0" by (induction ws) auto
    with assms(2) show False by simp
  qed
  have l: "(last_weighted ws = - 1 \<and> (\<forall>i < length ws. \<not> ws ! i > 0)) \<or> (0 \<le> last_weighted ws \<and> last_weighted ws < int (length ws)
      \<and> ws ! nat (last_weighted ws) > 0 \<and> (\<forall>i < length ws. last_weighted ws < int i \<longrightarrow> \<not> ws ! i > 0))"
    using last_weighted_aux [of "length ws" ws] by (simp add: last_weighted_def Let_def)
  with ex show "0 \<le> last_weighted ws" "nat (last_weighted ws) < length ws" "0 < ws ! nat (last_weighted ws)" by auto
  show "ws ! i = 0" if "i < length ws" "last_weighted ws < int i"
    using l ex that nn by (metis less_le nth_mem)
qed

text \<open>What the split gives: the shape of its parts.\<close>

lemma remainder_split:
  assumes "allocateRemainderToLast amount ws q = Inr ps"
  defines "l \<equiv> nat (last_weighted ws)"
  shows "0 \<le> amount" "0 < q" "\<not> list_ex (\<lambda>w. w < 0) ws" "0 < sum_list ws" "length ps = length ws"
    "i < length ws \<Longrightarrow> i \<noteq> l \<Longrightarrow> ps ! i = amount * ws ! i div sum_list ws div q * q" "sum_list ps = amount"
proof -
  show b: "0 \<le> amount" "0 < q" "\<not> list_ex (\<lambda>w. w < 0) ws"
    using assms(1) by (auto simp: allocateRemainderToLast_def Let_def split: if_splits)
  have nz: "sum_list ws \<noteq> 0" using assms(1) by (auto simp: allocateRemainderToLast_def Let_def split: if_splits)
  show W: "0 < sum_list ws" using sum_list_pos_weights [OF b(3) nz] .
  note lw = last_weighted_index [OF b(3) nz]
  have li: "last_weighted ws = int l" "l < length ws" using lw by (simp_all add: l_def)
  define parts where "parts = map (\<lambda>i. if int i = last_weighted ws then 0
    else amount * ws ! i sdiv sum_list ws sdiv q * q) [0..<length ws]"
  have ps: "ps = parts[l := amount - sum_list parts]"
    using assms(1) b nz by (simp add: allocateRemainderToLast_def Let_def parts_def l_def)
  show "length ps = length ws" by (simp add: ps parts_def)
  have w0: "0 \<le> ws ! i" if "i < length ws" for i using b(3) nth_mem [OF that] by (force simp: list_ex_iff)
  show "ps ! i = amount * ws ! i div sum_list ws div q * q" if "i < length ws" "i \<noteq> l"
  proof -
    have "0 \<le> amount * ws ! i" using b(1) w0 [OF that(1)] by simp
    then have "amount * ws ! i sdiv sum_list ws sdiv q = amount * ws ! i div sum_list ws div q"
      using W b(2) by (simp add: sdiv_nonneg pos_imp_zdiv_nonneg_iff)
    then show ?thesis using that li(1) by (simp add: ps parts_def)
  qed
  have "parts ! l = 0" using li by (simp add: parts_def)
  then show "sum_list ps = amount" using li(2) by (simp add: ps sum_list_update_int parts_def)
qed

lemma remainder_split_accepts:
  "(\<exists>ps. allocateRemainderToLast amount ws q = Inr ps) \<longleftrightarrow> 0 \<le> amount \<and> 0 < q \<and> \<not> list_ex (\<lambda>w. w < 0) ws \<and> sum_list ws \<noteq> 0"
  by (auto simp: allocateRemainderToLast_def Let_def)

interpretation remainder_last: unit_splitter "\<lambda>amount ws. allocateRemainderToLast amount ws q"
  "\<lambda>amount ws. 0 \<le> amount \<and> 0 < q \<and> \<not> list_ex (\<lambda>w. w < 0) ws \<and> sum_list ws \<noteq> 0" for q
  by unfold_locales (simp_all add: remainder_split_accepts remainder_split(5,7))

lemma floor_mult_le: "0 < d \<Longrightarrow> x div d * d \<le> (x :: int)"
  using div_int_iff [of d x "x div d"] by simp

lemma remainder_split_bounds:
  assumes "allocateRemainderToLast amount ws q = Inr ps" "i < length ws"
  shows "0 \<le> ps ! i" "ws ! i = 0 \<Longrightarrow> ps ! i = 0"
    "int i \<noteq> last_weighted ws \<Longrightarrow> q dvd ps ! i \<and> sum_list ws * ps ! i \<le> amount * ws ! i"
proof -
  note r = remainder_split [OF assms(1)]
  let ?l = "nat (last_weighted ws)" and ?W = "sum_list ws"
  have w0: "0 \<le> ws ! k" if "k < length ws" for k using r(3) nth_mem [OF that] by (force simp: list_ex_iff)
  have nz: "?W \<noteq> 0" using r(4) by simp
  note lw = last_weighted_index [OF r(3) nz]
  have other: "0 \<le> ps ! k \<and> ?W * ps ! k \<le> amount * ws ! k" if "k < length ws" "k \<noteq> ?l" for k
  proof -
    have a: "0 \<le> amount * ws ! k" using r(1) w0 [OF that(1)] by simp
    have "?W * ps ! k \<le> ?W * (amount * ws ! k div ?W)"
      unfolding r(6) [OF that] using r(2,4) by (intro mult_left_mono floor_mult_le) simp_all
    also have "\<dots> \<le> amount * ws ! k" using floor_mult_le [OF r(4)] by (simp add: mult.commute)
    finally have "?W * ps ! k \<le> amount * ws ! k" .
    then show ?thesis using r(6) [OF that] a r(2,4) by (simp add: pos_imp_zdiv_nonneg_iff)
  qed
  let ?I = "{0..<length ws} - {?l}"
  have sums: "sum_list ps = ps ! ?l + (\<Sum>k\<in>?I. ps ! k)" "?W = ws ! ?l + (\<Sum>k\<in>?I. ws ! k)"
    using lw(2) r(5) by (simp_all add: sum_list_sum_nth sum.remove)
  have "?W * (\<Sum>k\<in>?I. ps ! k) \<le> amount * (\<Sum>k\<in>?I. ws ! k)"
    unfolding sum_distrib_left by (rule sum_mono) (use other in auto)
  also have "\<dots> \<le> amount * ?W" using sums(2) lw(3) r(1) by (intro mult_left_mono) simp_all
  finally have "(\<Sum>k\<in>?I. ps ! k) \<le> amount" using r(4) by (simp add: mult.commute)
  then have "0 \<le> ps ! ?l" using sums(1) r(7) by simp
  then show "0 \<le> ps ! i" using other [OF assms(2)] by (cases "i = ?l") auto
  show "ps ! i = 0" if "ws ! i = 0"
    using that lw(3) r(6) [OF assms(2)] by (cases "i = ?l") auto
  show "q dvd ps ! i \<and> ?W * ps ! i \<le> amount * ws ! i" if "int i \<noteq> last_weighted ws"
  proof -
    have "i \<noteq> ?l" using that lw(1) by auto
    then show ?thesis using other [OF assms(2)] r(6) [OF assms(2)] by simp
  qed
qed

section \<open>Resolved terms\<close>

lemma monthSpan_day:
  assumes "supported n" "supported k"
  shows "monthSpan (iso_of_day n) (iso_of_day k) = Inr (month_of_day k - month_of_day n + 1)"
proof -
  have f: "iso_year (iso_of_day (month_day (month_of_day j) 1)) * 12 + iso_month (iso_of_day (month_day (month_of_day j) 1)) = month_of_day j + 1"
    if "supported j" for j using month_start_fields(2,3) [of "month_of_day j"] month_years [OF that] by simp
  have "(iso_year b - iso_year a) * 12 + (iso_month b - iso_month a) + 1 = (iso_year b * 12 + iso_month b) - (iso_year a * 12 + iso_month a) + 1" for a b
    by (simp add: algebra_simps)
  then show ?thesis using f [OF assms(1)] f [OF assms(2)] startOfMonth_day(2) [OF assms(1)] startOfMonth_day(2) [OF assms(2)]
    by (simp add: monthSpan_def)
qed

definition term_days :: "amortization_term \<Rightarrow> int \<Rightarrow> int \<Rightarrow> bool" where
  "term_days aterm n e \<longleftrightarrow> supported n \<and> supported e \<and> n \<le> e \<and> at_startOn aterm = iso_of_day n \<and> at_endOn aterm = iso_of_day e
     \<and> at_periodCount aterm = month_of_day e - month_of_day n + 1"

lemma requireDate_Inr: "requireDate s = Inr u \<longleftrightarrow> (\<exists>n. supported n \<and> s = iso_of_day n)"
  by (simp add: requireDate_def ensure_Inr_iff isIso_day_iff)

lemma requirePeriodCount_Inr: "requirePeriodCount cnt = Inr c \<Longrightarrow> cnt = Some c \<and> 1 \<le> c \<and> c \<le> 600"
  by (auto simp: requirePeriodCount_def split: option.splits if_splits)

lemma service_window_days:
  assumes "service_window inp = Inr (s, e, cnt)"
  shows "\<exists>n k. supported n \<and> supported k \<and> n \<le> k \<and> s = iso_of_day n \<and> e = iso_of_day k \<and> cnt = month_of_day k - month_of_day n + 1"
proof -
  from assms obtain k n where "civilDayIndex e = Inr k" "civilDayIndex s = Inr n" "n \<le> k" "monthSpan s e = Inr cnt"
    by (auto simp: service_window_def bindE_Inr_iff split: option.splits if_splits)
  then show ?thesis using monthSpan_day [of n k] by (auto simp: civil.decode_Inr_iff)
qed

lemma template_window_days:
  assumes "template_window policy inp = Inr (s, e, cnt)" "supported n"
    and "(case ti_serviceStartOn inp of Some s \<Rightarrow> s | None \<Rightarrow> ti_transactionDate inp) = iso_of_day n"
  shows "s = iso_of_day n \<and> (\<exists>k. supported k \<and> n \<le> k \<and> e = iso_of_day k \<and> cnt = month_of_day k - month_of_day n + 1)
    \<and> (ap_method policy = Variable_table \<longrightarrow> ap_periodCount policy = Some cnt)"
proof -
  define q where "q = month_of_day n"
  from assms(1) obtain c a e0 where c: "requirePeriodCount (ap_periodCount policy) = Inr c"
    and a: "addMonthsClamped (iso_of_day n) c = Inr a" and e0: "addCalendarDays a (- 1) = Inr e0"
    and res: "(if ap_method policy = Straight_line \<or> ap_method policy = Variable_table
        then bindE (addMonthsStart (iso_of_day n) (c - 1)) (\<lambda>l. bindE (endOfMonth l) (\<lambda>me. Inr (iso_of_day n, me, c)))
        else bindE (monthSpan (iso_of_day n) e0) (\<lambda>m. Inr (iso_of_day n, e0, m))) = Inr (s, e, cnt)"
    unfolding template_window_def Let_def assms(3) by (elim bindE_InrE)
  have c1: "ap_periodCount policy = Some c" "1 \<le> c" "c \<le> 600" using requirePeriodCount_Inr [OF c] by simp_all
  have safe: "safe_int c" "safe_int (c - 1)" using c1 by simp_all
  show ?thesis
  proof (cases "ap_method policy = Straight_line \<or> ap_method policy = Variable_table")
    case True
    with res obtain l where l: "addMonthsStart (iso_of_day n) (c - 1) = Inr l" "endOfMonth l = Inr e" "s = iso_of_day n" "cnt = c"
      by (auto elim!: bindE_InrE)
    define f where "f = month_day (q + (c - 1)) 1"
    have f: "supported f" "l = iso_of_day f" "month_of_day f = q + (c - 1)"
      using l(1) addMonthsStart_day [OF assms(2) safe(2)] month_of_month_day [of 1 "q + (c - 1)"] month_length_bounds [of "q + (c - 1)"]
      by (simp_all add: Let_def f_def q_def split: if_splits)
    define k where "k = month_day (q + (c - 1)) (month_length (q + (c - 1)))"
    have k: "supported k" "e = iso_of_day k" using endOfMonth_day [OF f(1)] l(2) f(2,3) by (simp_all add: k_def)
    have mk: "month_of_day k = q + (c - 1)"
      unfolding k_def using month_length_bounds [of "q + (c - 1)"] by (intro month_of_month_day) simp_all
    have "n < month_day (q + 1) 1" using month_of_day_bounds(2) [of n] by (simp add: q_def)
    also have "month_day (q + 1) 1 \<le> month_day (q + (c - 1) + 1) 1"
      using c1(2) month_day_less [of "q + 1" "q + (c - 1) + 1"] by (cases "c = 1") auto
    also have "\<dots> = k + 1" unfolding month_day_next k_def using month_day_add [of "q + (c - 1)" 1 "month_length (q + (c - 1)) - 1"] by simp
    finally have "n \<le> k" by simp
    then show ?thesis using k mk l(3,4) c1(1) by (auto simp: q_def)
  next
    case False
    define j where "j = month_day (q + c) (min (day_of_month n) (month_length (q + c)))"
    have d1: "1 \<le> day_of_month n" using civil_of_day_valid(1) [of n] by (metis prod.collapse valid_civil_def)
    then have dj: "1 \<le> min (day_of_month n) (month_length (q + c))" "min (day_of_month n) (month_length (q + c)) \<le> month_length (q + c)"
      using month_length_bounds [of "q + c"] by simp_all
    have yr: "1 \<le> (q + c) div 12 \<and> (q + c) div 12 \<le> 9999" and aj: "a = iso_of_day j"
      using a addMonthsClamped_day [OF assms(2) safe(1)] by (simp_all add: j_def q_def split: if_splits)
    have sj: "supported j" unfolding j_def supported_month [OF dj] by (rule yr)
    have mj: "month_of_day j = q + c" unfolding j_def by (rule month_of_month_day [OF dj])
    have e1: "supported (j - 1)" "e0 = iso_of_day (j - 1)"
      using e0 addCalendarDays_day [OF sj, of "- 1"] aj by (simp_all split: if_splits)
    have "n < j" using month_of_day_mono [of j n] mj c1(2) by (force simp: q_def)
    moreover have "s = iso_of_day n" "e = e0" "cnt = month_of_day (j - 1) - month_of_day n + 1"
      using res False monthSpan_day [OF assms(2) e1(1)] e1(2) by auto
    ultimately show ?thesis using e1 False by auto
  qed
qed

lemma resolve_term_days:
  assumes "resolveAmortizationTerm policy inp = Inr aterm"
  obtains n e where "term_days aterm n e" "validateAmortizationPolicy policy = Inr ()"
    "at_periodCount aterm \<le> 600" "0 \<le> ap_periodOffset policy" "ap_periodOffset policy \<le> 120"
    "supported (month_day (month_of_day n + ap_periodOffset policy) 1)"
    "at_firstPeriodOn aterm = iso_of_day (month_day (month_of_day n + ap_periodOffset policy) 1)"
    "ap_method policy = Variable_table \<longrightarrow> ap_periodCount policy = Some (at_periodCount aterm)"
proof -
  from assms obtain s e cnt first where v: "validateAmortizationPolicy policy = Inr ()"
    and td: "requireDate (ti_transactionDate inp) = Inr ()" and sd: "optional_date (ti_serviceStartOn inp) = Inr ()"
    and w: "(if ap_termSource policy = Service_dates then service_window inp else template_window policy inp) = Inr (s, e, cnt)"
    and c: "cnt \<le> 600" and f: "addMonthsStart s (ap_periodOffset policy) = Inr first"
    and t: "aterm = \<lparr>at_startOn = s, at_endOn = e, at_firstPeriodOn = first, at_periodCount = cnt\<rparr>"
    unfolding resolveAmortizationTerm_def by (auto elim!: bindE_InrE split: if_splits)
  have off: "0 \<le> ap_periodOffset policy" "ap_periodOffset policy \<le> 120"
    using v by (auto simp: validateAmortizationPolicy_def bindE_Inr_iff ensure_Inr_iff)
  have var: "ap_method policy = Variable_table \<longrightarrow> ap_termSource policy = Template_term"
    using v by (auto simp: validateAmortizationPolicy_def bindE_Inr_iff ensure_Inr_iff)
  have "\<exists>n k. supported n \<and> supported k \<and> n \<le> k \<and> s = iso_of_day n \<and> e = iso_of_day k \<and> cnt = month_of_day k - month_of_day n + 1
      \<and> (ap_method policy = Variable_table \<longrightarrow> ap_periodCount policy = Some cnt)"
  proof (cases "ap_termSource policy = Service_dates")
    case True
    then show ?thesis using w service_window_days [of inp s e cnt] var by auto
  next
    case False
    have "\<exists>n. supported n \<and> (case ti_serviceStartOn inp of Some s \<Rightarrow> s | None \<Rightarrow> ti_transactionDate inp) = iso_of_day n"
      using td sd by (auto simp: optional_date_def requireDate_Inr split: option.splits)
    then show ?thesis using w False template_window_days [of policy inp s e cnt] by auto
  qed
  then obtain n k where n: "supported n" "supported k" "n \<le> k" "s = iso_of_day n" "e = iso_of_day k"
    "cnt = month_of_day k - month_of_day n + 1" "ap_method policy = Variable_table \<longrightarrow> ap_periodCount policy = Some cnt" by blast
  have "supported (month_day (month_of_day n + ap_periodOffset policy) 1)" "first = iso_of_day (month_day (month_of_day n + ap_periodOffset policy) 1)"
    using f addMonthsStart_day [OF n(1), of "ap_periodOffset policy"] off n(4) by (simp_all add: Let_def split: if_splits)
  then show thesis using that [of n k] n v c off t by (simp add: term_days_def)
qed

section \<open>Weights of a resolved term\<close>

lemma term_months:
  assumes "term_days aterm n e" "0 \<le> i" "i < at_periodCount aterm"
  shows "1 \<le> (month_of_day n + i) div 12 \<and> (month_of_day n + i) div 12 \<le> 9999"
proof -
  have "month_of_day n \<le> month_of_day n + i" "month_of_day n + i \<le> month_of_day e"
    using assms by (auto simp: term_days_def)
  then have "month_of_day n div 12 \<le> (month_of_day n + i) div 12" "(month_of_day n + i) div 12 \<le> month_of_day e div 12"
    by (simp_all add: zdiv_mono1)
  then show ?thesis using assms(1) month_years [of n] month_years [of e] by (auto simp: term_days_def)
qed

text \<open>The service days a month holds.\<close>

definition held_days :: "int \<Rightarrow> int \<Rightarrow> int \<Rightarrow> int" where
  "held_days n e q = (let f = max (month_day q 1) n; t = min (month_day q (month_length q)) e in if t \<ge> f then t - f + 1 else 0)"

lemma overlapDays_month:
  assumes "supported n" "supported e" "1 \<le> q div 12 \<and> q div 12 \<le> 9999"
  shows "overlapDays (iso_of_day (month_day q 1)) (iso_of_day n) (iso_of_day e) = Inr (held_days n e q)"
proof -
  have f: "supported (month_day q 1)" "month_of_day (month_day q 1) = q" using month_start_fields assms(3) by simp_all
  show ?thesis using endOfMonth_day [OF f(1)] f assms by (simp add: overlapDays_def civilDayIndex_day held_days_def Let_def)
qed

lemma held_days_first:
  assumes "n \<le> e"
  shows "0 < held_days n e (month_of_day n)" "0 \<le> held_days n e q"
proof -
  have "n \<le> month_day (month_of_day n) (month_length (month_of_day n))"
    using month_of_day_bounds(2) [of n] month_day_next [of "month_of_day n"] month_day_add [of "month_of_day n" 1 "month_length (month_of_day n) - 1"]
    by simp
  then show "0 < held_days n e (month_of_day n)" using assms month_of_day_bounds(1) [of n] by (simp add: held_days_def Let_def)
qed (simp add: held_days_def Let_def)

lemma month_share_month:
  assumes "supported n" "supported e" "1 \<le> q div 12 \<and> q div 12 \<le> 9999" "n \<le> e"
  shows "month_share (iso_of_day n) (iso_of_day e) (iso_of_day (month_day q 1)) = Inr (held_days n e q * (377580 div month_length q))"
proof -
  have l: "28 \<le> month_length q" "month_length q \<le> 31" using month_length_bounds [of q] by simp_all
  then have "month_length q \<in> {28, 29, 30, 31}" by auto
  then have dvd: "month_length q dvd 377580" by auto
  have "daysInCivilMonth (Some (q div 12)) (Some (q mod 12 + 1)) = Inr (Some (month_length q))"
    using assms(3) by (intro daysInCivilMonth_month) simp_all
  moreover have "held_days n e q * 377580 sdiv month_length q = held_days n e q * (377580 div month_length q)"
    using l held_days_first(2) [OF assms(4), of q] dvd by (simp add: sdiv_nonneg div_mult_swap)
  ultimately show ?thesis using month_start_fields [of q] assms(3) overlapDays_month [OF assms(1-3)] l
    by (simp add: month_share_def civilPart_def)
qed

lemma parse_percentage_nonneg: "parse_percentage s = Inr p \<Longrightarrow> 0 \<le> p"
proof -
  assume "parse_percentage s = Inr p"
  then obtain w f where m: "percent_match (trim s) = Some (w, f)"
    and p: "p = bigint_of_text w * 1000000 + bigint_of_text (padEnd f 6 CHR ''0'')"
    by (auto simp: parse_percentage_def split: option.splits)
  have "w = takeWhile is_digit (trim s)" "list_all is_digit f"
    using m by (auto simp: percent_match_def Let_def split: if_splits list.splits)
  moreover have "list_all is_digit (takeWhile is_digit (trim s))" by (auto simp: list_all_iff dest: set_takeWhileD)
  ultimately have "list_all is_digit w" "list_all is_digit (padEnd f 6 CHR ''0'')" by (simp_all add: padEnd_def)
  then show ?thesis by (simp add: p bigint_of_digits)
qed

lemma percentages_total:
  assumes "parsePercentageTable ps = Inr table"
  shows "sum_list table = 100000000" "\<not> list_ex (\<lambda>w. w < 0) table"
proof -
  from assms obtain xs where x: "traverse parse_percentage xs = Inr table" "sum_list table = 100000000"
    by (auto simp: parsePercentageTable_def bindE_Inr_iff split: option.splits if_splits)
  then show "sum_list table = 100000000" by simp
  have "\<forall>w \<in> set table. 0 \<le> w"
  proof
    fix w assume "w \<in> set table"
    then obtain i where "i < length table" "table ! i = w" by (auto simp: in_set_conv_nth)
    then show "0 \<le> w" using x(1) parse_percentage_nonneg [of "xs ! i" w] by (auto simp: traverse_Inr_iff list_all2_conv_all_nth)
  qed
  then show "\<not> list_ex (\<lambda>w. w < 0) table" by (auto simp: list_ex_iff)
qed

lemma weights_positive:
  assumes "\<forall>i < length ws. 0 \<le> (ws ! i :: int)" "ws \<noteq> []" "0 < ws ! 0"
  shows "\<not> list_ex (\<lambda>w. w < 0) ws" "sum_list ws \<noteq> 0"
proof -
  have nn: "\<forall>w \<in> set ws. 0 \<le> w" using assms(1) by (auto simp: in_set_conv_nth)
  then show "\<not> list_ex (\<lambda>w. w < 0) ws" by (auto simp: list_ex_iff)
  have "0 \<le> sum_list (tl ws)" using nn assms(2) by (intro sum_list_nonneg) (auto dest: list.set_sel(2))
  moreover have "sum_list ws = ws ! 0 + sum_list (tl ws)" using assms(2) by (cases ws) auto
  ultimately show "sum_list ws \<noteq> 0" using assms(3) by simp
qed

lemma termWeights_total:
  assumes "term_days aterm n e" "validateAmortizationPolicy policy = Inr ()"
    and "ap_method policy = Variable_table \<longrightarrow> ap_periodCount policy = Some (at_periodCount aterm)"
  shows "\<exists>ws. termWeights policy aterm = Inr ws \<and> int (length ws) = at_periodCount aterm
    \<and> \<not> list_ex (\<lambda>w. w < 0) ws \<and> sum_list ws \<noteq> 0"
proof -
  define c where "c = nat (at_periodCount aterm)"
  have s: "supported n" "supported e" "n \<le> e" "at_startOn aterm = iso_of_day n" "at_endOn aterm = iso_of_day e"
    and c: "at_periodCount aterm = month_of_day e - month_of_day n + 1" using assms(1) by (simp_all add: term_days_def)
  have c1: "int c = at_periodCount aterm" "0 < c" using c month_of_day_mono [OF s(3)] by (simp_all add: c_def)
  define months where "months = map (\<lambda>i. iso_of_day (month_day (month_of_day n + int i) 1)) [0..<c]"
  have yr: "1 \<le> (month_of_day n + int i) div 12 \<and> (month_of_day n + int i) div 12 \<le> 9999" if "i < c" for i
    using term_months [OF assms(1), of "int i"] that c1(1) by simp
  have "addMonthsStart (iso_of_day n) (int i) = Inr (iso_of_day (month_day (month_of_day n + int i) 1))" if "i < c" for i
  proof -
    have "i < 200000" using that yr [OF that] month_years [OF s(1)] by linarith
    then show ?thesis using addMonthsStart_day [OF s(1), of "int i"] month_start_fields(1) [of "month_of_day n + int i"] yr [OF that]
      by (simp add: Let_def)
  qed
  then have m: "traverse (\<lambda>i. addMonthsStart (at_startOn aterm) i) (map int [0..<c]) = Inr months"
    unfolding traverse_map s(4) months_def by (intro traverse_map_Inr) simp
  note tw = termWeights_def [of policy aterm, folded c_def, unfolded m, unfolded bindE.simps s(4,5)]
  have maps: "\<exists>ws. Inr (map g [0..<c]) = Inr ws \<and> int (length ws) = at_periodCount aterm \<and> \<not> list_ex (\<lambda>w. w < 0) ws \<and> sum_list ws \<noteq> 0"
    if "\<forall>i < c. 0 \<le> (g i :: int)" "0 < g 0" for g
  proof -
    have "\<forall>i < length (map g [0..<c]). 0 \<le> map g [0..<c] ! i" "map g [0..<c] \<noteq> []" "0 < map g [0..<c] ! 0" using that c1 by simp_all
    from weights_positive [OF this] show ?thesis using c1(1) by simp
  qed
  show ?thesis
  proof (cases "ap_method policy")
    case Straight_line
    then show ?thesis using maps [of "\<lambda>_. 1"] by (simp add: tw months_def comp_def)
  next
    case Exact_days
    have "traverse (\<lambda>month. overlapDays month (iso_of_day n) (iso_of_day e)) months
        = Inr (map (\<lambda>i. held_days n e (month_of_day n + int i)) [0..<c])"
      unfolding months_def traverse_map by (intro traverse_map_Inr) (use yr overlapDays_month [OF s(1,2)] in simp)
    then show ?thesis using maps [of "\<lambda>i. held_days n e (month_of_day n + int i)"] held_days_first [OF s(3)] Exact_days by (simp add: tw)
  next
    case Prorated_first_last
    let ?g = "\<lambda>i. held_days n e (month_of_day n + int i) * (377580 div month_length (month_of_day n + int i))"
    have "traverse (month_share (iso_of_day n) (iso_of_day e)) months = Inr (map ?g [0..<c])"
      unfolding months_def traverse_map by (intro traverse_map_Inr) (use yr month_share_month [OF s(1,2) _ s(3)] in simp)
    moreover have "0 < 377580 div month_length q" for q using month_length_bounds [of q] by (simp add: pos_imp_zdiv_pos_iff)
    then have "0 \<le> ?g i" "0 < ?g 0" for i using held_days_first [OF s(3)] by (simp_all add: less_imp_le)
    ultimately show ?thesis using maps [of ?g] Prorated_first_last by (simp add: tw)
  next
    case Variable_table
    then obtain table where t: "parsePercentageTable (ap_percentages policy) = Inr table" "ap_periodCount policy = Some (int (length table))"
      using assms(2) by (auto simp: validateAmortizationPolicy_def bindE_Inr_iff ensure_Inr_iff)
    then have "int (length table) = at_periodCount aterm" using assms(3) Variable_table by simp
    then show ?thesis using percentages_total [OF t(1)] t(1) Variable_table c1(1) by (simp add: tw months_def)
  qed
qed

section \<open>Properties\<close>

text \<open>
  The remainder split keeps every unit and never goes negative.  \<open>allocateRemainderToLast\<close> accepts exactly a
  non-negative amount, a positive quantum and non-negative weights that are not all zero; the parts then
  sum to the amount, none is negative, a month without weight gets nothing, and every part but the last
  weighted one is a whole number of quanta not above its exact share.
\<close>

theorem allocateRemainderToLast_conserves:
  "((\<exists>ps. allocateRemainderToLast amount ws q = Inr ps)
      \<longleftrightarrow> 0 \<le> amount \<and> 0 < q \<and> \<not> list_ex (\<lambda>w. w < 0) ws \<and> sum_list ws \<noteq> 0)
   \<and> (\<forall>ps. allocateRemainderToLast amount ws q = Inr ps \<longrightarrow> length ps = length ws \<and> sum_list ps = amount
     \<and> (\<forall>i < length ws. 0 \<le> ps ! i \<and> (ws ! i = 0 \<longrightarrow> ps ! i = 0)
          \<and> (int i \<noteq> last_weighted ws \<longrightarrow> q dvd ps ! i \<and> sum_list ws * ps ! i \<le> amount * ws ! i)))"
  using remainder_split_accepts remainder_split(5,7) remainder_split_bounds by (intro conjI allI impI) auto

lemma quarter_split: "allocateRemainderToLast 1000000 [1, 0, 1, 1, 0] 100 = Inr [333300, 0, 333300, 333400, 0]"
  by code_simp

theorem allocateRemainderToLast_conserves_witness:
  "allocateRemainderToLast 1000000 [1, 0, 1, 1, 0] 100 = Inr [333300, 0, 333300, 333400, 0]
   \<and> sum_list [333300, 0, 333300, 333400, 0 :: int] = 1000000 \<and> (100 :: int) dvd [333300, 0, 333300, 333400, 0] ! 2"
  using allocateRemainderToLast_conserves [of 1000000 "[1, 0, 1, 1, 0]" 100] quarter_split by fastforce

text \<open>
  C28: a resolved term always becomes a plan.  Once \<open>resolveAmortizationTerm\<close> has accepted a policy and a source line,
  \<open>buildAmortizationPlan\<close> succeeds for every positive amount and every positive quantum, whatever the method, as
  long as the last planned month is not after the year 9999: one row per month of the term, on consecutive
  calendar months from the first period on, each from the first to the last day of its month, with
  amounts that are not negative and sum to the amount.
\<close>

theorem buildAmortizationPlan_total:
  assumes "resolveAmortizationTerm policy inp = Inr aterm" "0 < amount" "0 < quantum"
    and "civilDayIndex (at_firstPeriodOn aterm) = Inr f" "(month_of_day f + at_periodCount aterm - 1) div 12 \<le> 9999"
  shows "\<exists>plan. buildAmortizationPlan policy aterm amount quantum = Inr plan \<and> int (length plan) = at_periodCount aterm
    \<and> sum_list (map pp_amount plan) = amount
    \<and> (\<forall>i < length plan. 0 \<le> pp_amount (plan ! i)
         \<and> pp_periodStart (plan ! i) = iso_of_day (month_day (month_of_day f + int i) 1)
         \<and> pp_periodEnd (plan ! i) = iso_of_day (month_day (month_of_day f + int i) (month_length (month_of_day f + int i))))"
proof -
  obtain n e where t: "term_days aterm n e" "validateAmortizationPolicy policy = Inr ()" "at_periodCount aterm \<le> 600"
      "supported (month_day (month_of_day n + ap_periodOffset policy) 1)"
      "at_firstPeriodOn aterm = iso_of_day (month_day (month_of_day n + ap_periodOffset policy) 1)"
      "ap_method policy = Variable_table \<longrightarrow> ap_periodCount policy = Some (at_periodCount aterm)"
    using resolve_term_days [OF assms(1)] by metis
  have f: "at_firstPeriodOn aterm = iso_of_day f" "supported f" using assms(4) by (auto simp: civil.decode_Inr_iff)
  obtain ws where ws: "termWeights policy aterm = Inr ws" "int (length ws) = at_periodCount aterm" "\<not> list_ex (\<lambda>w. w < 0) ws" "sum_list ws \<noteq> 0"
    using termWeights_total [OF t(1,2,6)] by blast
  obtain ps where ps: "allocateRemainderToLast amount ws quantum = Inr ps"
    using remainder_split_accepts [of amount ws quantum] ws(3,4) assms(2,3) by auto
  have l: "length ps = length ws" "sum_list ps = amount" using remainder_split [OF ps] by simp_all
  let ?q = "\<lambda>i. month_of_day f + int i"
  let ?row = "\<lambda>(i, a). \<lparr>pp_periodStart = iso_of_day (month_day (?q i) 1), pp_periodEnd = iso_of_day (month_day (?q i) (month_length (?q i))), pp_amount = a\<rparr>"
  have row: "bindE (addMonthsStart (at_firstPeriodOn aterm) (int i)) (\<lambda>p. planned p a) = Inr (?row (i, a))" if "i < length ps" for i a
  proof -
    have "month_of_day f div 12 \<le> ?q i div 12" "?q i div 12 \<le> (month_of_day f + at_periodCount aterm - 1) div 12"
      using that ws(2) l(1) by (intro zdiv_mono1; simp)+
    then have y: "1 \<le> ?q i div 12" "?q i div 12 \<le> 9999" using month_years [OF f(2)] assms(5) by linarith+
    note m = month_start_fields [OF y]
    have "safe_int (int i)" using that ws(2) l(1) t(3) by simp
    then have "addMonthsStart (iso_of_day f) (int i) = Inr (iso_of_day (month_day (?q i) 1))"
      using addMonthsStart_day [OF f(2), of "int i"] m(1) by (simp add: Let_def)
    then show ?thesis using endOfMonth_day [OF m(1)] m(4) by (simp add: f(1) planned_def)
  qed
  let ?plan = "map ?row (zip [0..<length ps] ps)"
  have "buildAmortizationPlan policy aterm amount quantum = Inr ?plan"
    using assms(2) ws(1) ps
    by (simp add: buildAmortizationPlan_def, intro traverse_map_Inr) (auto simp: row dest: set_zip_leftD)
  moreover have "map pp_amount ?plan = ps" by (auto intro!: nth_equalityI)
  moreover have "0 \<le> ps ! i" if "i < length ps" for i using remainder_split_bounds(1) [OF ps] that l(1) by simp
  ultimately show ?thesis using l ws(2) by (intro exI [of _ ?plan]) auto
qed

definition quarter_policy :: amortization_policy where
  "quarter_policy = \<lparr>ap_method = Prorated_first_last, ap_termSource = Service_dates, ap_periodCount = None, ap_percentages = None, ap_periodOffset = 1\<rparr>"

definition quarter_line :: amortization_term_input where
  "quarter_line = \<lparr>ti_serviceStartOn = Some ''2024-01-15'', ti_serviceEndOn = Some ''2024-03-20'', ti_transactionDate = ''2024-01-10''\<rparr>"

definition quarter_term :: amortization_term where
  "quarter_term = \<lparr>at_startOn = ''2024-01-15'', at_endOn = ''2024-03-20'', at_firstPeriodOn = ''2024-02-01'', at_periodCount = 3\<rparr>"

lemma quarter_resolved: "resolveAmortizationTerm quarter_policy quarter_line = Inr quarter_term"
  by code_simp

lemma quarter_first: "civilDayIndex (at_firstPeriodOn quarter_term) = Inr 19754" "month_of_day 19754 = 2024 * 12 + 1"
  by code_simp+

theorem buildAmortizationPlan_total_witness:
  "\<exists>plan. buildAmortizationPlan quarter_policy quarter_term 1000000 100 = Inr plan \<and> length plan = 3
    \<and> sum_list (map pp_amount plan) = 1000000"
  using buildAmortizationPlan_total [OF quarter_resolved _ _ quarter_first(1), of 1000000 100] quarter_first(2)
  by (auto simp: quarter_term_def)

end
