(* ===== verification/Present_Value.thy ===== *)
theory Present_Value
  imports Money
begin

text \<open>
  Exact intermediate arithmetic (\<open>engine/src/money/rational.ts\<close>) and present values
  (\<open>engine/src/money/present-value.ts\<close>): reduced fractions of \<open>BigInt\<close>s with a size limit, the present value of a level payment
  stream summed over one denominator and rounded once, and the accretion of a balance to zero with the
  rounding plugged into the last period.
\<close>

section \<open>Reduced fractions\<close>

record Rational =
  numerator :: int
  denominator :: int

abbreviation (input) RATIONAL_DIGITS :: nat where "RATIONAL_DIGITS \<equiv> 256"

lemma abs_smod_less_abs: "b \<noteq> 0 \<Longrightarrow> \<bar>a smod b\<bar> < \<bar>b :: int\<bar>"
  by (simp add: signed_modulo_int_def abs_mult abs_sgn_eq)

text \<open>\<open>while (right !== 0n) [left, right] = [right, left % right]\<close>\<close>

function gcd_loop :: "int \<Rightarrow> int \<Rightarrow> int" where
  "gcd_loop left right = (if right = 0 then left else gcd_loop right (left smod right))"
  by pat_completeness auto
termination
  by (relation "measure (\<lambda>(_, right). nat \<bar>right\<bar>)") (simp_all add: abs_smod_less_abs)

declare gcd_loop.simps [simp del]

definition gcd_bigint :: "int \<Rightarrow> int \<Rightarrow> int" where
  "gcd_bigint a b = gcd_loop (if a < 0 then - a else a) b"

definition rational :: "int \<Rightarrow> int \<Rightarrow> Rational result" where
  "rational n d =
     (if d = 0 then Inl (RationalError ''DIVISION_BY_ZERO'')
      else let (n, d) = (if d < 0 then (- n, - d) else (n, d)) in
        if length (bigint_text n) > RATIONAL_DIGITS \<or> length (bigint_text d) > RATIONAL_DIGITS
        then Inl (RationalError ''LIMIT'')
        else let divisor = gcd_bigint n d in Inr \<lparr>numerator = n sdiv divisor, denominator = d sdiv divisor\<rparr>)"

definition compareRational :: "Rational \<Rightarrow> Rational \<Rightarrow> int" where
  "compareRational a b = (let difference = numerator a * denominator b - numerator b * denominator a in
     if difference < 0 then - 1 else if difference > 0 then 1 else 0)"

definition addRational :: "Rational \<Rightarrow> Rational \<Rightarrow> Rational result" where
  "addRational a b = rational (numerator a * denominator b + numerator b * denominator a) (denominator a * denominator b)"

definition subtractRational :: "Rational \<Rightarrow> Rational \<Rightarrow> Rational result" where
  "subtractRational a b = rational (numerator a * denominator b - numerator b * denominator a) (denominator a * denominator b)"

definition multiplyRational :: "Rational \<Rightarrow> Rational \<Rightarrow> Rational result" where
  "multiplyRational a b = rational (numerator a * numerator b) (denominator a * denominator b)"

definition divideRational :: "Rational \<Rightarrow> Rational \<Rightarrow> Rational result" where
  "divideRational a b = rational (numerator a * denominator b) (denominator a * numerator b)"

definition roundRational :: "Rational \<Rightarrow> int \<Rightarrow> int result" where
  "roundRational v quantum =
     (if quantum \<le> 0 then Inl (Error ''Exact arithmetic requires a positive rounding quantum.'')
      else bindE (roundDiv (numerator v) (denominator v * quantum)) (\<lambda>q. Inr (q * quantum)))"

section \<open>Rates and streams\<close>

abbreviation (input) PERCENT_SCALE :: int where "PERCENT_SCALE \<equiv> 10000000000"
abbreviation (input) MAX_PRESENT_VALUE_PERIODS :: int where "MAX_PRESENT_VALUE_PERIODS \<equiv> 1200"

record period_rate =
  num :: int
  den :: int

datatype payment_timing = Arrears | Advance

record level_payment_stream =
  ls_payment :: string
  ls_periods :: int
  ls_rate :: period_rate
  ls_timing :: payment_timing

record accretion_period =
  ac_sequence :: int
  ac_opening :: string
  ac_interest :: string
  ac_payment :: string
  ac_closing :: string

definition assertPeriodCount :: "int \<Rightarrow> unit result" where
  "assertPeriodCount periods = ensure (\<not> (periods < 1 \<or> periods > MAX_PRESENT_VALUE_PERIODS))
     (PresentValueError ''periods must be a whole number of periods from 1 through 1200'')"

text \<open>\<open>/^\d+(\.\d+)?$/\<close>\<close>

definition percent_text :: "string \<Rightarrow> bool" where
  "percent_text s = (let w = takeWhile is_digit s; r = dropWhile is_digit s in
     w \<noteq> [] \<and> (case r of [] \<Rightarrow> True | c # f \<Rightarrow> c = CHR ''.'' \<and> f \<noteq> [] \<and> list_all is_digit f))"

definition periodRateFromAnnualPercent :: "string \<Rightarrow> int \<Rightarrow> period_rate result" where
  "periodRateFromAnnualPercent percent periodsPerYear =
     (let trimmed = trim percent in
      if \<not> percent_text trimmed then Inl (PresentValueError ''invalid rate percent: '')
      else if \<bar>periodsPerYear\<bar> > 9007199254740991 \<or> periodsPerYear \<le> 0
      then Inl (PresentValueError ''periodsPerYear must be a positive whole number'')
      else let (whole, frac) = split_dot trimmed in
        if length frac > 10 then Inl (PresentValueError ''rate percent precision is limited to 10 decimal places'')
        else let fracPadded = take 10 (frac @ ''0000000000'');
                 percentUnits = bigint_of_text whole * PERCENT_SCALE + bigint_of_text fracPadded
             in Inr \<lparr>num = percentUnits, den = 100 * PERCENT_SCALE * periodsPerYear\<rparr>)"

text \<open>\<open>for (let i = 0; i < exp; i++) out *= base\<close>\<close>

definition pow_loop :: "int \<Rightarrow> int \<Rightarrow> int" where
  "pow_loop base e = fold (\<lambda>_ out. out * base) [0..<nat e] 1"

definition presentValueOfLevelStream :: "level_payment_stream \<Rightarrow> string result" where
  "presentValueOfLevelStream stream =
     bindE (assertPeriodCount (ls_periods stream)) (\<lambda>_.
     bindE (toUnits (ls_payment stream)) (\<lambda>paymentUnits.
     if paymentUnits \<le> 0 then Inl (PresentValueError ''payment must be positive'')
     else if num (ls_rate stream) = 0 then Inr (fromUnits (paymentUnits * ls_periods stream))
     else let S = den (ls_rate stream); D = den (ls_rate stream) + num (ls_rate stream);
              first = (if ls_timing stream = Arrears then 1 else 0);
              last = (if ls_timing stream = Arrears then ls_periods stream else ls_periods stream - 1);
              n = fold (\<lambda>t acc. acc + paymentUnits * pow_loop S t * pow_loop D (ls_periods stream - t)) [first..last] 0
          in bindE (roundDiv n (pow_loop D (ls_periods stream))) (\<lambda>q. Inr (fromUnits q))))"

definition periodInterest :: "int \<Rightarrow> period_rate \<Rightarrow> int result" where
  "periodInterest balanceUnits rate = roundDiv (balanceUnits * num rate) (den rate)"

record accretion_args =
  aa_opening :: string
  aa_payment :: string
  aa_periods :: int
  aa_rate :: period_rate

text \<open>Interest and principal of period \<open>t\<close>: the last period takes the whole balance.\<close>

definition accretion_parts :: "int \<Rightarrow> int \<Rightarrow> period_rate \<Rightarrow> int \<Rightarrow> int \<Rightarrow> (int \<times> int) result" where
  "accretion_parts paymentUnits periods rate t opening =
     (if t < periods then bindE (periodInterest opening rate) (\<lambda>interest. Inr (interest, paymentUnits - interest))
      else let principal = opening; interest = paymentUnits - principal in
        bindE (periodInterest opening rate) (\<lambda>computed.
        let drift = interest - computed; tolerance = periods * 100 in
        if interest < 0 \<or> drift > tolerance \<or> - drift > tolerance
        then Inl (PresentValueError ''accretion does not close: final plug '')
        else Inr (interest, principal)))"

definition accretion_step ::
  "int \<Rightarrow> int \<Rightarrow> period_rate \<Rightarrow> accretion_period list \<times> int \<Rightarrow> int \<Rightarrow> (accretion_period list \<times> int) result" where
  "accretion_step paymentUnits periods rate st t = (case st of (out, opening) \<Rightarrow>
     bindE (accretion_parts paymentUnits periods rate t opening) (\<lambda>(interest, principal).
     let closing = opening - principal in
     Inr (out @ [\<lparr>ac_sequence = t, ac_opening = fromUnits opening, ac_interest = fromUnits interest,
       ac_payment = fromUnits paymentUnits, ac_closing = fromUnits closing\<rparr>], closing)))"

definition accreteToZero :: "accretion_args \<Rightarrow> accretion_period list result" where
  "accreteToZero args =
     bindE (assertPeriodCount (aa_periods args)) (\<lambda>_.
     bindE (toUnits (aa_payment args)) (\<lambda>paymentUnits.
     bindE (toUnits (aa_opening args)) (\<lambda>opening.
     bindE (foldE (accretion_step paymentUnits (aa_periods args) (aa_rate args)) ([], opening) [1..aa_periods args]) (\<lambda>(out, opening).
     if opening \<noteq> 0 then Inl (PresentValueError ''accretion left a residual balance of '') else Inr out))))"

section \<open>Fractions are exact and canonical\<close>

definition rational_value :: "Rational \<Rightarrow> rat" where
  "rational_value r = of_int (numerator r) / of_int (denominator r)"

definition canonical_rational :: "Rational \<Rightarrow> bool" where
  "canonical_rational r \<longleftrightarrow> 0 < denominator r \<and> coprime (numerator r) (denominator r)"

lemma gcd_loop_gcd: "0 \<le> a \<Longrightarrow> 0 \<le> b \<Longrightarrow> gcd_loop a b = gcd a b"
proof (induction a b rule: gcd_loop.induct)
  case (1 a b)
  show ?case
  proof (cases "b = 0")
    case False
    then have "0 < b" using "1.prems"(2) by simp
    then have m: "a smod b = a mod b" using "1.prems"(1) by (simp add: smod_nonneg)
    then have "gcd_loop b (a smod b) = gcd b (a mod b)" using "1.IH" [OF False] "1.prems" \<open>0 < b\<close> by simp
    then show ?thesis using False m by (simp add: gcd_loop.simps [of a b] gcd_red_int [of a b])
  qed (use "1.prems" in \<open>simp add: gcd_loop.simps [of a 0]\<close>)
qed

lemma gcd_bigint_gcd: "0 \<le> b \<Longrightarrow> gcd_bigint a b = gcd a b"
  by (simp add: gcd_bigint_def gcd_loop_gcd)

lemma sdiv_dvd: "0 < g \<Longrightarrow> g dvd a \<Longrightarrow> a sdiv g = a div (g :: int)"
  by (auto simp: signed_divide_int_def abs_mult sgn_mult mult_sgn_abs elim!: dvdE)

text \<open>The size limit of a fraction before it is reduced.\<close>

definition within_digits :: "int \<Rightarrow> int \<Rightarrow> bool" where
  "within_digits n d \<longleftrightarrow> length (bigint_text (sgn d * n)) \<le> RATIONAL_DIGITS \<and> length (bigint_text \<bar>d\<bar>) \<le> RATIONAL_DIGITS"

lemma rational_eq:
  "rational n d = (if d = 0 then Inl (RationalError ''DIVISION_BY_ZERO'')
    else if \<not> within_digits n d then Inl (RationalError ''LIMIT'')
    else Inr \<lparr>numerator = sgn d * n div gcd n d, denominator = \<bar>d\<bar> div gcd n d\<rparr>)"
proof (cases "d = 0")
  case False
  then have g: "0 < gcd n d" by simp
  have "gcd_bigint (sgn d * n) \<bar>d\<bar> = gcd n d"
    using False by (cases "d < 0") (simp_all add: gcd_bigint_gcd)
  moreover have "(if d < 0 then (- n, - d) else (n, d)) = (sgn d * n, \<bar>d\<bar>)" using False by auto
  moreover have "(sgn d * n) sdiv gcd n d = sgn d * n div gcd n d" "\<bar>d\<bar> sdiv gcd n d = \<bar>d\<bar> div gcd n d"
    using g by (simp_all add: sdiv_dvd)
  ultimately show ?thesis using False by (simp add: rational_def within_digits_def Let_def)
qed (simp add: rational_def)

lemma rational_exact:
  assumes "rational n d = Inr r"
  shows "d \<noteq> 0" "canonical_rational r" "rational_value r = of_int n / of_int d"
proof -
  show d: "d \<noteq> 0" using assms by (auto simp: rational_eq split: if_splits)
  let ?g = "gcd n d"
  have r: "numerator r = sgn d * n div ?g" "denominator r = \<bar>d\<bar> div ?g"
    using assms d by (auto simp: rational_eq split: if_splits)
  have g: "0 < ?g" using d by simp
  have s: "sgn d * n div ?g = sgn d * (n div ?g)" by (simp add: div_mult_swap)
  have a: "\<bar>d\<bar> div ?g = sgn d * (d div ?g)" using d by (simp add: abs_sgn mult.commute div_mult_swap)
  have p: "0 < \<bar>d\<bar> div ?g" using d g by (simp add: pos_imp_zdiv_pos_iff zdvd_imp_le)
  have "coprime (n div ?g) (d div ?g)" using d by (simp add: div_gcd_coprime)
  then have "coprime (sgn d * (n div ?g)) (sgn d * (d div ?g))" using d by (cases "d < 0") simp_all
  then show "canonical_rational r" using p by (simp add: canonical_rational_def r s a)
  have nd: "of_int n = (of_int (n div ?g) :: rat) * of_int ?g" "of_int d = (of_int (d div ?g) :: rat) * of_int ?g"
    by (simp_all flip: of_int_mult)
  have "rational_value r = of_int (n div ?g) / of_int (d div ?g)"
    unfolding rational_value_def r s a of_int_mult using d by (intro mult_divide_mult_cancel_left) (simp add: sgn_0_0)
  also have "\<dots> = of_int n / of_int d" unfolding nd using g by simp
  finally show "rational_value r = of_int n / of_int d" .
qed

lemma canonical_rational_unique:
  assumes "canonical_rational a" "canonical_rational b" "rational_value a = rational_value b"
  shows "a = b"
proof -
  have p: "0 < denominator a" "0 < denominator b" "coprime (numerator a) (denominator a)" "coprime (numerator b) (denominator b)"
    using assms(1,2) by (simp_all add: canonical_rational_def)
  have "(of_int (numerator a * denominator b) :: rat) = of_int (numerator b * denominator a)"
    using assms(3) p by (simp add: rational_value_def field_simps)
  then have e: "numerator a * denominator b = numerator b * denominator a" using of_int_eq_iff by blast
  have "denominator a dvd denominator b"
    using e p(3) by (metis coprime_commute coprime_dvd_mult_right_iff dvd_triv_right)
  moreover have "denominator b dvd denominator a"
    using e p(4) by (metis coprime_commute coprime_dvd_mult_right_iff dvd_triv_right)
  ultimately have "denominator a = denominator b" using p zdvd_antisym_nonneg by simp
  then show ?thesis using e p by (simp add: Rational.equality)
qed

lemma rational_ops_exact:
  assumes "canonical_rational a" "canonical_rational b"
  shows "addRational a b = Inr r \<Longrightarrow> canonical_rational r \<and> rational_value r = rational_value a + rational_value b"
    "subtractRational a b = Inr r \<Longrightarrow> canonical_rational r \<and> rational_value r = rational_value a - rational_value b"
    "multiplyRational a b = Inr r \<Longrightarrow> canonical_rational r \<and> rational_value r = rational_value a * rational_value b"
    "divideRational a b = Inr r \<Longrightarrow> canonical_rational r \<and> rational_value b \<noteq> 0 \<and> rational_value r = rational_value a / rational_value b"
proof -
  have p: "(of_int (denominator a) :: rat) \<noteq> 0" "(of_int (denominator b) :: rat) \<noteq> 0" using assms by (auto simp: canonical_rational_def)
  note e = rational_exact(2,3)
  show "addRational a b = Inr r \<Longrightarrow> canonical_rational r \<and> rational_value r = rational_value a + rational_value b"
    using e p by (simp add: addRational_def rational_value_def [of a] rational_value_def [of b] add_frac_eq)
  show "subtractRational a b = Inr r \<Longrightarrow> canonical_rational r \<and> rational_value r = rational_value a - rational_value b"
    using e p by (simp add: subtractRational_def rational_value_def [of a] rational_value_def [of b] diff_frac_eq)
  show "multiplyRational a b = Inr r \<Longrightarrow> canonical_rational r \<and> rational_value r = rational_value a * rational_value b"
    using e p by (simp add: multiplyRational_def rational_value_def [of a] rational_value_def [of b])
  show "divideRational a b = Inr r \<Longrightarrow> canonical_rational r \<and> rational_value b \<noteq> 0 \<and> rational_value r = rational_value a / rational_value b"
    using e rational_exact(1) p by (fastforce simp: divideRational_def rational_value_def [of a] rational_value_def [of b])
qed

lemma roundRational_half_away:
  assumes "canonical_rational v" "0 < quantum"
  shows "roundRational v quantum = Inr (half_away (rational_value v / of_int quantum) * quantum)"
  using assms by (simp add: roundRational_def roundDiv_pos round_quot_half_away rational_value_def canonical_rational_def)

lemma compareRational_sgn:
  assumes "canonical_rational a" "canonical_rational b"
  shows "compareRational a b = \<lfloor>sgn (rational_value a - rational_value b)\<rfloor>"
proof -
  have p: "0 < (of_int (denominator a) :: rat)" "0 < (of_int (denominator b) :: rat)" using assms by (simp_all add: canonical_rational_def)
  let ?d = "numerator a * denominator b - numerator b * denominator a"
  have "rational_value a - rational_value b = of_int ?d / (of_int (denominator a) * of_int (denominator b))"
    using p by (simp add: rational_value_def field_simps)
  then have "sgn (rational_value a - rational_value b) = of_int (sgn ?d)"
    using p by (cases ?d "0 :: int" rule: linorder_cases) (simp_all add: sgn_divide sgn_mult del: of_int_diff of_int_mult)
  then have "\<lfloor>sgn (rational_value a - rational_value b)\<rfloor> = sgn ?d" by (metis floor_of_int)
  then show ?thesis by (auto simp: compareRational_def Let_def)
qed

section \<open>Streams\<close>

lemma pow_loop_power: "pow_loop b e = b ^ nat e"
proof -
  have "fold (\<lambda>_ out. out * b) [0..<n] 1 = b ^ n" for n by (induction n) simp_all
  then show ?thesis by (simp add: pow_loop_def)
qed

lemma fold_upto_sum: "fold (\<lambda>t acc. acc + f t) [i..j] a = a + (\<Sum>t = i..j. f t :: int)" for i j :: int
  by (simp add: fold_plus_sum_list sum_list_distinct_conv_sum_set)

text \<open>The textbook present value of \<open>n\<close> payments of \<open>P\<close> units at the ends of the periods, in exact rationals.\<close>

definition growth :: "period_rate \<Rightarrow> rat" where
  "growth rate = 1 + of_int (num rate) / of_int (den rate)"

definition annuity :: "int \<Rightarrow> period_rate \<Rightarrow> nat \<Rightarrow> rat" where
  "annuity P rate n = (\<Sum>t = 1..n. of_int P / growth rate ^ t)"

lemma annuity_0 [simp]: "annuity P rate 0 = 0"
  by (simp add: annuity_def)

lemma annuity_Suc:
  assumes "growth rate \<noteq> 0"
  shows "annuity P rate n = annuity P rate (Suc n) * growth rate - of_int P"
proof -
  have "annuity P rate (Suc n) * growth rate = (\<Sum>t = 1..Suc n. of_int P / growth rate ^ (t - 1))"
    unfolding annuity_def sum_distrib_right
  proof (rule sum.cong [OF refl])
    fix t assume "t \<in> {1..Suc n}"
    then obtain k where "t = Suc k" by (cases t) auto
    then show "of_int P / growth rate ^ t * growth rate = of_int P / growth rate ^ (t - 1)" using assms by simp
  qed
  also have "\<dots> = (\<Sum>t = 0..n. of_int P / growth rate ^ t)"
    using sum.shift_bounds_cl_Suc_ivl [of "\<lambda>t. of_int P / growth rate ^ (t - 1)" 0 n] by simp
  also have "\<dots> = of_int P + annuity P rate n" by (simp add: annuity_def sum.atLeast_Suc_atMost)
  finally show ?thesis by simp
qed

lemma growth_frac: "0 < den rate \<Longrightarrow> growth rate = of_int (den rate + num rate) / of_int (den rate)"
  by (simp add: growth_def field_simps)

lemma discounted_frac:
  assumes "0 < den rate" "0 \<le> num rate" "0 \<le> t" "t \<le> n"
  shows "(of_int (P * den rate ^ nat t * (den rate + num rate) ^ nat (n - t)) :: rat) / of_int ((den rate + num rate) ^ nat n)
    = of_int P / growth rate ^ nat t"
proof -
  let ?S = "of_int (den rate) :: rat" and ?D = "of_int (den rate + num rate) :: rat"
  have D: "?D \<noteq> 0" "?S \<noteq> 0" using assms by (simp_all del: of_int_add)
  have "nat n = nat t + nat (n - t)" using assms by simp
  then have "?D ^ nat n = ?D ^ nat t * ?D ^ nat (n - t)" by (simp add: power_add)
  then show ?thesis using D growth_frac [OF assms(1)] by (simp add: power_divide del: of_int_add)
qed

lemma level_stream_sum:
  assumes "0 < den rate" "0 \<le> num rate" "0 \<le> i" "j \<le> n"
  shows "(of_int (\<Sum>t = i..j. P * den rate ^ nat t * (den rate + num rate) ^ nat (n - t)) :: rat) / of_int ((den rate + num rate) ^ nat n)
    = (\<Sum>t = i..j. of_int P / growth rate ^ nat t)"
  unfolding of_int_sum sum_divide_distrib
  by (rule sum.cong [OF refl]) (use assms in \<open>auto intro: discounted_frac [simplified]\<close>)

lemma presentValue_rounds:
  assumes "1 \<le> ls_periods s" "ls_periods s \<le> 1200" "toUnits (ls_payment s) = Inr P" "0 < P"
    and "0 < den (ls_rate s)" "0 \<le> num (ls_rate s)"
  shows "presentValueOfLevelStream s = Inr (fromUnits (half_away (case ls_timing s of
      Arrears \<Rightarrow> \<Sum>t = 1..ls_periods s. of_int P / growth (ls_rate s) ^ nat t
    | Advance \<Rightarrow> \<Sum>t = 0..ls_periods s - 1. of_int P / growth (ls_rate s) ^ nat t)))"
proof (cases "num (ls_rate s) = 0")
  case True
  then have g: "growth (ls_rate s) = 1" by (simp add: growth_def)
  have "half_away (of_int P * of_int n) = P * n" "half_away (of_int n * of_int P) = P * n" for n :: int
    using half_away_of_int [of "P * n"] by (simp_all add: mult.commute)
  then show ?thesis using assms True
    by (cases "ls_timing s") (simp_all add: presentValueOfLevelStream_def assertPeriodCount_def g)
next
  case False
  have D: "0 < (den (ls_rate s) + num (ls_rate s)) ^ nat (ls_periods s)" using assms by simp
  show ?thesis using assms False round_quot_half_away [OF D]
      level_stream_sum [OF assms(5,6), of 1 "ls_periods s" "ls_periods s" P]
      level_stream_sum [OF assms(5,6), of 0 "ls_periods s - 1" "ls_periods s" P]
    by (cases "ls_timing s") (simp_all add: presentValueOfLevelStream_def assertPeriodCount_def fold_upto_sum pow_loop_power Let_def roundDiv_pos D)
qed

lemma annuity_int_sum: "0 \<le> n \<Longrightarrow> (\<Sum>t = 1..n. of_int P / growth rate ^ nat t) = annuity P rate (nat n)"
proof -
  assume "0 \<le> n"
  then have "{1..n} = int ` {1..nat n}" by (simp add: image_int_atLeastAtMost)
  then show ?thesis unfolding annuity_def by (simp add: sum.reindex)
qed

section \<open>Accretion\<close>

text \<open>The balance after \<open>k\<close> periods in which interest is rounded and the payment is taken.\<close>

fun balance :: "int \<Rightarrow> period_rate \<Rightarrow> int \<Rightarrow> nat \<Rightarrow> int" where
  "balance P rate b 0 = b"
| "balance P rate b (Suc k) = balance P rate b k + round_quot (balance P rate b k * num rate) (den rate) - P"

definition accretion_row :: "int \<Rightarrow> nat \<Rightarrow> int \<Rightarrow> int \<Rightarrow> int \<Rightarrow> accretion_period" where
  "accretion_row P k b i c = \<lparr>ac_sequence = int k + 1, ac_opening = fromUnits b, ac_interest = fromUnits i,
     ac_payment = fromUnits P, ac_closing = fromUnits c\<rparr>"

definition interior_row :: "int \<Rightarrow> period_rate \<Rightarrow> int \<Rightarrow> nat \<Rightarrow> accretion_period" where
  "interior_row P rate b k = accretion_row P k (balance P rate b k)
     (round_quot (balance P rate b k * num rate) (den rate)) (balance P rate b (Suc k))"

lemma upto_map: "[1..int n] = map (\<lambda>k. int k + 1) [0..<n]"
proof (induction n)
  case (Suc n)
  have "[1..int (Suc n)] = [1..int n] @ [int n + 1]" using upto_rec2 [of 1 "int (Suc n)"] by (simp add: add.commute)
  then show ?case using Suc.IH by simp
qed simp

lemma accretion_prefix:
  assumes "0 < den rate" "int n < T"
  shows "foldE (accretion_step P T rate) ([], b) (map (\<lambda>k. int k + 1) [0..<n])
    = Inr (map (interior_row P rate b) [0..<n], balance P rate b n)"
  using assms(2)
proof (induction n)
  case (Suc n)
  then have "int n + 1 < T" by simp
  then have "accretion_step P T rate (map (interior_row P rate b) [0..<n], balance P rate b n) (int n + 1)
      = Inr (map (interior_row P rate b) [0..<Suc n], balance P rate b (Suc n))"
    using assms(1) by (simp add: accretion_step_def accretion_parts_def periodInterest_def roundDiv_pos interior_row_def accretion_row_def Let_def)
  with Suc show ?case by (simp add: foldE_append)
qed simp

lemma accreteToZero_eq:
  assumes "toUnits (aa_payment args) = Inr P" "toUnits (aa_opening args) = Inr b" "0 < den (aa_rate args)"
    and "aa_periods args = int (Suc m)" "m < 1200"
  shows "accreteToZero args = (let e = balance P (aa_rate args) b m; i = P - e; c = round_quot (e * num (aa_rate args)) (den (aa_rate args)) in
    if i < 0 \<or> \<bar>i - c\<bar> > 100 * int (Suc m) then Inl (PresentValueError ''accretion does not close: final plug '')
    else Inr (map (interior_row P (aa_rate args) b) [0..<m] @ [accretion_row P m e i 0]))"
proof -
  let ?o = "balance P (aa_rate args) b m"
  let ?c = "round_quot (?o * num (aa_rate args)) (den (aa_rate args))"
  have drift: "(d > t \<or> - d > t) = (\<bar>d\<bar> > t)" for d t :: int by auto
  have last: "accretion_step P (int (Suc m)) (aa_rate args) (rows, ?o) (int m + 1) =
      (if P - ?o < 0 \<or> \<bar>P - ?o - ?c\<bar> > 100 * int (Suc m) then Inl (PresentValueError ''accretion does not close: final plug '')
       else Inr (rows @ [accretion_row P m ?o (P - ?o) 0], 0))" for rows
    using assms(3) drift [of "int (Suc m) * 100" "P - ?o - ?c"]
    by (simp add: accretion_step_def accretion_parts_def periodInterest_def roundDiv_pos accretion_row_def Let_def)
  have "[1..aa_periods args] = map (\<lambda>k. int k + 1) [0..<m] @ [int m + 1]" unfolding assms(4) upto_map by simp
  then have "foldE (accretion_step P (aa_periods args) (aa_rate args)) ([], b) [1..aa_periods args]
      = accretion_step P (int (Suc m)) (aa_rate args) (map (interior_row P (aa_rate args) b) [0..<m], ?o) (int m + 1)"
    using accretion_prefix [OF assms(3), of m "int (Suc m)" P b] assms(4)
    by (cases "accretion_step P (int (Suc m)) (aa_rate args) (map (interior_row P (aa_rate args) b) [0..<m], ?o) (int m + 1)") (simp_all add: foldE_append)
  then show ?thesis unfolding last using assms by (simp add: accreteToZero_def assertPeriodCount_def Let_def)
qed

text \<open>Twice the rounding that can have accumulated after \<open>k\<close> periods.\<close>

definition rounding_growth :: "period_rate \<Rightarrow> nat \<Rightarrow> rat" where
  "rounding_growth rate k = (\<Sum>j = 0..k. growth rate ^ j)"

lemma rounding_growth_Suc: "rounding_growth rate (Suc k) = growth rate * rounding_growth rate k + 1"
  unfolding rounding_growth_def sum_distrib_left sum.atLeast0_atMost_Suc_shift by simp

lemma growth_ge_1: "0 < den rate \<Longrightarrow> 0 \<le> num rate \<Longrightarrow> 1 \<le> growth rate"
  by (simp add: growth_def)

lemma balance_near_annuity:
  assumes "0 < den rate" "0 \<le> num rate" "k \<le> n"
  shows "2 * \<bar>of_int (balance P rate (half_away (annuity P rate n)) k) - annuity P rate (n - k)\<bar> \<le> rounding_growth rate k"
  using assms(3)
proof (induction k)
  case 0
  then show ?case using half_away_near [of "annuity P rate n"] by (simp add: rounding_growth_def)
next
  case (Suc k)
  let ?b = "balance P rate (half_away (annuity P rate n))" and ?g = "growth rate"
  have g: "1 \<le> ?g" using growth_ge_1 assms by simp
  have a: "annuity P rate (n - Suc k) = annuity P rate (n - k) * ?g - of_int P"
    using annuity_Suc [of rate P "n - Suc k"] g Suc.prems by (simp add: Suc_diff_Suc)
  define x :: rat where "x = of_int (?b k)"
  define i :: rat where "i = of_int (round_quot (?b k * num rate) (den rate))"
  have "2 * \<bar>i - x * (?g - 1)\<bar> \<le> 1"
    using half_away_near [of "of_int (?b k * num rate) / of_int (den rate)"] assms(1)
    by (simp add: i_def x_def growth_def round_quot_half_away)
  moreover have "2 * \<bar>(x - annuity P rate (n - k)) * ?g\<bar> \<le> rounding_growth rate k * ?g"
    using Suc g by (simp add: x_def abs_mult)
  moreover have "of_int (?b (Suc k)) - annuity P rate (n - Suc k) = (x - annuity P rate (n - k)) * ?g + (i - x * (?g - 1))"
    by (simp add: a x_def i_def algebra_simps)
  ultimately show ?case unfolding rounding_growth_Suc mult.commute [of ?g]
    using abs_triangle_ineq [of "(x - annuity P rate (n - k)) * ?g" "i - x * (?g - 1)"] by simp
qed

lemma period_count_Suc: "1 \<le> T \<Longrightarrow> T \<le> 1200 \<Longrightarrow> \<exists>m. T = int (Suc m) \<and> m < 1200"
  by (intro exI [of _ "nat (T - 1)"]) simp

lemma accreteToZero_accepts:
  assumes "accreteToZero args = Inr rows"
  shows "1 \<le> aa_periods args" "aa_periods args \<le> 1200" "0 < den (aa_rate args)"
proof -
  from assms obtain P b st where T: "1 \<le> aa_periods args" "aa_periods args \<le> 1200"
    and f: "foldE (accretion_step P (aa_periods args) (aa_rate args)) ([], b) [1..aa_periods args] = Inr st"
    unfolding accreteToZero_def by (auto simp: assertPeriodCount_def ensure_Inr_iff elim!: bindE_InrE split: prod.splits)
  show "1 \<le> aa_periods args" "aa_periods args \<le> 1200" using T by simp_all
  have "[1..aa_periods args] = 1 # [2..aa_periods args]" using upto_rec1 [of 1 "aa_periods args"] T by simp
  then obtain st' where "accretion_step P (aa_periods args) (aa_rate args) ([], b) 1 = Inr st'" using f by (auto elim!: bindE_InrE)
  then show "0 < den (aa_rate args)"
    by (auto simp: accretion_step_def accretion_parts_def periodInterest_def Let_def bindE_Inr_iff roundDiv_Inr_iff split: if_splits)
qed

lemma presentValue_closes:
  assumes "toUnits payment = Inr P" "0 < P" "1 \<le> T" "T \<le> 1200" "0 < den rate" "0 \<le> num rate"
    and "rounding_growth rate (nat T) \<le> 200 * of_int T"
    and "growth rate * rounding_growth rate (nat T - 1) \<le> 2 * of_int P * (growth rate - 1)"
    and "presentValueOfLevelStream \<lparr>ls_payment = payment, ls_periods = T, ls_rate = rate, ls_timing = Arrears\<rparr> = Inr pv"
  shows "\<exists>rows. accreteToZero \<lparr>aa_opening = pv, aa_payment = payment, aa_periods = T, aa_rate = rate\<rparr> = Inr rows"
proof -
  obtain m where m: "T = int (Suc m)" "m < 1200" using period_count_Suc [of T] assms(3,4) by blast
  let ?b = "half_away (annuity P rate (Suc m))"
  let ?o = "balance P rate ?b m"
  have g: "1 \<le> growth rate" using growth_ge_1 assms(5,6) by simp
  have T: "nat T = Suc m" using m(1) by simp
  have pv: "toUnits pv = Inr ?b"
    using presentValue_rounds [of "\<lparr>ls_payment = payment, ls_periods = T, ls_rate = rate, ls_timing = Arrears\<rparr>" P] assms
      annuity_int_sum [of T P rate] T by auto
  have "2 * \<bar>of_int (balance P rate ?b (Suc m)) :: rat\<bar> \<le> 200 * of_int T"
    using balance_near_annuity [OF assms(5,6), of "Suc m" "Suc m" P] assms(7) T annuity_0 by (simp del: balance.simps)
  then have "\<bar>balance P rate ?b (Suc m)\<bar> \<le> 100 * T" by (simp del: balance.simps flip: of_int_abs)
  then have drift: "\<bar>P - ?o - round_quot (?o * num rate) (den rate)\<bar> \<le> 100 * int (Suc m)" using m(1) by simp
  have a: "annuity P rate 1 * growth rate = of_int P" using g by (simp add: annuity_def)
  have "2 * (of_int ?o - annuity P rate 1) \<le> rounding_growth rate m"
    using balance_near_annuity [OF assms(5,6) le_SucI [OF order_refl], of P m] abs_ge_self [of "of_int ?o - annuity P rate 1"] by simp
  then have "growth rate * (2 * (of_int ?o - annuity P rate 1)) \<le> growth rate * rounding_growth rate m"
    using g by (intro mult_left_mono) simp_all
  also have "\<dots> \<le> 2 * of_int P * (growth rate - 1)" using assms(8) T by simp
  finally have "growth rate * of_int ?o \<le> growth rate * of_int P" using a by (simp add: algebra_simps)
  then have "?o \<le> P" using g by simp
  then show ?thesis
    using accreteToZero_eq [of "\<lparr>aa_opening = pv, aa_payment = payment, aa_periods = T, aa_rate = rate\<rparr>" P ?b m] drift pv assms(1,5) m
    by (simp add: Let_def)
qed

text \<open>At a zero rate nothing is rounded: the balance falls by the payment and reaches it in the last period.\<close>

lemma balance_zero_rate: "num rate = 0 \<Longrightarrow> 0 < den rate \<Longrightarrow> balance P rate b k = b - int k * P"
  by (induction k) (simp_all add: round_quot_half_away algebra_simps)

lemma annuity_zero_rate: "num rate = 0 \<Longrightarrow> half_away (annuity P rate n) = int n * P"
proof -
  assume "num rate = 0"
  then have "annuity P rate n = of_int (int n * P)" by (simp add: annuity_def growth_def)
  then show ?thesis by (simp only: half_away_of_int)
qed

lemma zero_rate_closes:
  assumes "toUnits payment = Inr P" "0 \<le> P" "1 \<le> T" "T \<le> 1200" "0 < den rate" "num rate = 0" "toUnits opening = Inr (half_away (annuity P rate (nat T)))"
  shows "\<exists>rows. accreteToZero \<lparr>aa_opening = opening, aa_payment = payment, aa_periods = T, aa_rate = rate\<rparr> = Inr rows"
proof -
  obtain m where m: "T = int (Suc m)" "m < 1200" using period_count_Suc [of T] assms(3,4) by blast
  let ?args = "\<lparr>aa_opening = opening, aa_payment = payment, aa_periods = T, aa_rate = rate\<rparr>"
  have b: "balance P rate (half_away (annuity P rate (nat T))) m = P"
    using assms(5,6) m(1) by (simp add: balance_zero_rate annuity_zero_rate algebra_simps)
  have "round_quot (P * num rate) (den rate) = 0" using assms(5,6) by (simp add: round_quot_half_away)
  then show ?thesis
    using accreteToZero_eq [of ?args P "half_away (annuity P rate (nat T))" m] assms(1,5,7) m b by (simp add: Let_def)
qed

section \<open>Properties\<close>

text \<open>
  Intermediate arithmetic is exact.  A fraction that \<open>rational\<close>, and so any of the four operations, returns has the exact value of the
  quotient and is in lowest terms over a positive denominator, so two fractions of equal value are the same record;
  the operation refuses only a zero divisor or more than 256 digits before reduction, and
  \<open>compareRational\<close> orders by value.
\<close>

theorem rational_arithmetic_exact:
  assumes "canonical_rational a" "canonical_rational b"
  shows "(\<forall>r. addRational a b = Inr r \<longrightarrow> canonical_rational r \<and> rational_value r = rational_value a + rational_value b)
    \<and> (\<forall>r. subtractRational a b = Inr r \<longrightarrow> canonical_rational r \<and> rational_value r = rational_value a - rational_value b)
    \<and> (\<forall>r. multiplyRational a b = Inr r \<longrightarrow> canonical_rational r \<and> rational_value r = rational_value a * rational_value b)
    \<and> (\<forall>r. divideRational a b = Inr r \<longrightarrow> canonical_rational r \<and> rational_value b \<noteq> 0 \<and> rational_value r = rational_value a / rational_value b)
    \<and> (\<forall>n d. (\<exists>r. rational n d = Inr r) \<longleftrightarrow> d \<noteq> 0 \<and> within_digits n d)
    \<and> compareRational a b = \<lfloor>sgn (rational_value a - rational_value b)\<rfloor>
    \<and> (rational_value a = rational_value b \<longrightarrow> a = b)"
  using rational_ops_exact [OF assms] compareRational_sgn [OF assms] canonical_rational_unique [OF assms]
  by (simp add: rational_eq)

lemma third_half: "canonical_rational \<lparr>numerator = - 1, denominator = 3\<rparr>" "canonical_rational \<lparr>numerator = 1, denominator = 2\<rparr>"
  "addRational \<lparr>numerator = - 1, denominator = 3\<rparr> \<lparr>numerator = 1, denominator = 2\<rparr> = Inr \<lparr>numerator = 1, denominator = 6\<rparr>"
  by code_simp+

theorem rational_arithmetic_exact_witness:
  "rational_value \<lparr>numerator = 1, denominator = 6\<rparr>
    = rational_value \<lparr>numerator = - 1, denominator = 3\<rparr> + rational_value \<lparr>numerator = 1, denominator = 2\<rparr>"
  using rational_arithmetic_exact [OF third_half(1,2)] third_half(3) by blast

text \<open>
  A present value is rounded exactly once.  For every positive payment, non-negative rate and supported number of
  periods, the printed present value is the exact sum of the discounted payments, at the ends of the periods in arrears
  and at their starts in advance, rounded half away from zero to the ledger's four decimals.
\<close>

theorem presentValue_rounds_once:
  assumes "1 \<le> ls_periods s" "ls_periods s \<le> 1200" "toUnits (ls_payment s) = Inr P" "0 < P"
    and "0 < den (ls_rate s)" "0 \<le> num (ls_rate s)"
  shows "presentValueOfLevelStream s = Inr (fromUnits (half_away (case ls_timing s of
      Arrears \<Rightarrow> \<Sum>t = 1..ls_periods s. of_int P / growth (ls_rate s) ^ nat t
    | Advance \<Rightarrow> \<Sum>t = 0..ls_periods s - 1. of_int P / growth (ls_rate s) ^ nat t)))"
  by (rule presentValue_rounds [OF assms])

definition lease_rate :: period_rate where "lease_rate = \<lparr>num = 50000000000, den = 12000000000000\<rparr>"

definition lease_stream :: level_payment_stream where
  "lease_stream = \<lparr>ls_payment = ''1000'', ls_periods = 3, ls_rate = lease_rate, ls_timing = Arrears\<rparr>"

lemma thousand_units: "toUnits ''1000'' = Inr 10000000"
  by code_simp

theorem presentValue_rounds_once_witness:
  "presentValueOfLevelStream lease_stream = Inr (fromUnits (half_away (\<Sum>t = 1..3. 10000000 / growth lease_rate ^ nat t)))"
  using presentValue_rounds_once [of lease_stream 10000000] thousand_units by (simp add: lease_stream_def) (simp add: lease_rate_def)

text \<open>
  An accretion schedule rolls forward and ends at zero.  Whenever \<open>accreteToZero\<close> returns, it returns one row per period;
  every row opens where the previous one closed and closes at opening plus interest minus payment; the first row
  opens at the given balance, the last closes at exactly zero, interest before the last period is the rounded
  product of balance and rate, and the interest of the last is not negative and within one cent per period of it.
\<close>

theorem accretion_rolls_forward:
  assumes "accreteToZero args = Inr rows" "toUnits (aa_opening args) = Inr b" "toUnits (aa_payment args) = Inr P"
  shows "\<exists>bal i. int (length rows) = aa_periods args \<and> bal 0 = b \<and> bal (length rows) = 0
    \<and> (\<forall>k < length rows. rows ! k = accretion_row P k (bal k) (i k) (bal (Suc k)) \<and> bal (Suc k) = bal k + i k - P
         \<and> (if Suc k < length rows then periodInterest (bal k) (aa_rate args) = Inr (i k)
            else 0 \<le> i k \<and> (\<exists>c. periodInterest (bal k) (aa_rate args) = Inr c \<and> \<bar>i k - c\<bar> \<le> 100 * aa_periods args)))"
proof -
  note acc = accreteToZero_accepts [OF assms(1)]
  obtain m where m: "aa_periods args = int (Suc m)" "m < 1200" using period_count_Suc [OF acc(1,2)] by blast
  let ?bal = "balance P (aa_rate args) b"
  let ?c = "\<lambda>k. round_quot (?bal k * num (aa_rate args)) (den (aa_rate args))"
  have c: "periodInterest (?bal k) (aa_rate args) = Inr (?c k)" for k using acc(3) by (simp add: periodInterest_def roundDiv_pos)
  have ok: "0 \<le> P - ?bal m" "\<bar>P - ?bal m - ?c m\<bar> \<le> 100 * int (Suc m)"
    and rows: "rows = map (interior_row P (aa_rate args) b) [0..<m] @ [accretion_row P m (?bal m) (P - ?bal m) 0]"
    using accreteToZero_eq [OF assms(3,2) acc(3) m] assms(1) by (simp_all add: Let_def split: if_splits)
  have len: "length rows = Suc m" by (simp add: rows)
  define bb where "bb = (\<lambda>k. if k \<le> m then ?bal k else 0)"
  define ii where "ii = (\<lambda>k. if k < m then ?c k else P - ?bal m)"
  have "rows ! k = accretion_row P k (bb k) (ii k) (bb (Suc k)) \<and> bb (Suc k) = bb k + ii k - P
      \<and> (if Suc k < length rows then periodInterest (bb k) (aa_rate args) = Inr (ii k)
         else 0 \<le> ii k \<and> (\<exists>c. periodInterest (bb k) (aa_rate args) = Inr c \<and> \<bar>ii k - c\<bar> \<le> 100 * aa_periods args))" if "k < Suc m" for k
  proof (cases "k < m")
    case True
    then show ?thesis using c [of k] len by (simp add: rows nth_append interior_row_def bb_def ii_def)
  next
    case False
    then have "k = m" using that by simp
    then show ?thesis using c [of m] ok len m(1) by (simp add: rows nth_append bb_def ii_def)
  qed
  then have "\<forall>k < length rows. rows ! k = accretion_row P k (bb k) (ii k) (bb (Suc k)) \<and> bb (Suc k) = bb k + ii k - P
      \<and> (if Suc k < length rows then periodInterest (bb k) (aa_rate args) = Inr (ii k)
         else 0 \<le> ii k \<and> (\<exists>c. periodInterest (bb k) (aa_rate args) = Inr c \<and> \<bar>ii k - c\<bar> \<le> 100 * aa_periods args))"
    unfolding len by blast
  moreover have "int (length rows) = aa_periods args" "bb 0 = b" "bb (length rows) = 0" using len m(1) by (simp_all add: bb_def)
  ultimately show ?thesis by blast
qed

theorem accretion_rolls_forward_witness:
  "\<exists>rows (bal :: nat \<Rightarrow> int) (i :: nat \<Rightarrow> int). accreteToZero \<lparr>aa_opening = ''3000'', aa_payment = ''1000'', aa_periods = 3, aa_rate = \<lparr>num = 0, den = 1\<rparr>\<rparr> = Inr rows
    \<and> length rows = 3 \<and> bal 0 = 30000000 \<and> bal 3 = 0
    \<and> rows ! 2 = accretion_row 10000000 2 (bal 2) (i 2) (bal 3) \<and> bal 3 = bal 2 + i 2 - 10000000"
proof -
  let ?args = "\<lparr>aa_opening = ''3000'', aa_payment = ''1000'', aa_periods = 3, aa_rate = \<lparr>num = 0, den = 1\<rparr>\<rparr>"
  have u: "toUnits (aa_opening ?args) = Inr 30000000" "toUnits (aa_payment ?args) = Inr 10000000" by code_simp+
  then obtain rows where r: "accreteToZero ?args = Inr rows"
    using accreteToZero_eq [of ?args 10000000 30000000 2] by (simp add: eval_nat_numeral)
  obtain bal i where b: "int (length rows) = aa_periods ?args" "bal 0 = 30000000" "bal (length rows) = 0"
    and k: "\<forall>k < length rows. rows ! k = accretion_row 10000000 k (bal k) (i k) (bal (Suc k)) \<and> bal (Suc k) = bal k + i k - 10000000"
    using accretion_rolls_forward [OF r u] by blast
  have l: "length rows = 3" using b(1) by simp
  have "rows ! 2 = accretion_row 10000000 2 (bal 2) (i 2) (bal 3) \<and> bal 3 = bal 2 + i 2 - 10000000"
    using k [rule_format, of 2] l by (simp add: eval_nat_numeral)
  then show ?thesis using r b(2,3) l by (intro exI [of _ rows] exI [of _ bal] exI [of _ i]) simp
qed

text \<open>
  C29: the accretion of a present value closes.  When a balance opens at the present value of its own payment stream,
  \<open>accreteToZero\<close> never refuses, at a zero rate always and at a positive one as long as the accumulated rounding stays within
  the tolerance of one cent per period and below the interest of the last period.  It returns one row per period: the first
  opens at the present value (the discounted payments rounded once), every row closes at opening plus interest minus
  payment, which the next one opens at, interest before the last period is the rounded product of balance and rate, and the
  last closing balance is exactly zero.
\<close>

theorem accretion_of_present_value_closes:
  assumes "toUnits payment = Inr P" "0 < P" "1 \<le> T" "T \<le> 1200" "0 < den rate" "0 \<le> num rate"
    and small: "num rate = 0 \<or> rounding_growth rate (nat T) \<le> 200 * of_int T
      \<and> growth rate * rounding_growth rate (nat T - 1) \<le> 2 * of_int P * (growth rate - 1)"
  shows "\<exists>pv b rows bal i. presentValueOfLevelStream \<lparr>ls_payment = payment, ls_periods = T, ls_rate = rate, ls_timing = Arrears\<rparr> = Inr pv
    \<and> toUnits pv = Inr b \<and> b = half_away (\<Sum>t = 1..T. of_int P / growth rate ^ nat t)
    \<and> accreteToZero \<lparr>aa_opening = pv, aa_payment = payment, aa_periods = T, aa_rate = rate\<rparr> = Inr rows
    \<and> int (length rows) = T \<and> bal 0 = b \<and> bal (length rows) = 0 \<and> ac_closing (last rows) = ''0.0000''
    \<and> (\<forall>k < length rows. rows ! k = accretion_row P k (bal k) (i k) (bal (Suc k)) \<and> bal (Suc k) = bal k + i k - P
         \<and> (if Suc k < length rows then periodInterest (bal k) rate = Inr (i k)
            else 0 \<le> i k \<and> (\<exists>c. periodInterest (bal k) rate = Inr c \<and> \<bar>i k - c\<bar> \<le> 100 * T)))"
proof -
  let ?s = "\<lparr>ls_payment = payment, ls_periods = T, ls_rate = rate, ls_timing = Arrears\<rparr>"
  let ?b = "half_away (\<Sum>t = 1..T. of_int P / growth rate ^ nat t)"
  obtain pv where pv: "presentValueOfLevelStream ?s = Inr pv" "pv = fromUnits ?b"
    using presentValue_rounds [of ?s P] assms(1-6) by simp
  have u: "toUnits pv = Inr ?b" by (simp add: pv(2))
  let ?args = "\<lparr>aa_opening = pv, aa_payment = payment, aa_periods = T, aa_rate = rate\<rparr>"
  obtain rows where rows: "accreteToZero ?args = Inr rows"
  proof (cases "num rate = 0")
    case True
    then show ?thesis using that zero_rate_closes [OF assms(1) less_imp_le [OF assms(2)] assms(3-5)] u annuity_int_sum [of T P rate] assms(3) by auto
  next
    case False
    then show ?thesis using that presentValue_closes [OF assms(1-6) _ _ pv(1)] small by blast
  qed
  obtain bal i where bal: "int (length rows) = T" "bal 0 = ?b" "bal (length rows) = 0"
    and steps: "\<forall>k < length rows. rows ! k = accretion_row P k (bal k) (i k) (bal (Suc k)) \<and> bal (Suc k) = bal k + i k - P
         \<and> (if Suc k < length rows then periodInterest (bal k) rate = Inr (i k)
            else 0 \<le> i k \<and> (\<exists>c. periodInterest (bal k) rate = Inr c \<and> \<bar>i k - c\<bar> \<le> 100 * T))"
    using accretion_rolls_forward [OF rows, unfolded accretion_args.simps, OF u assms(1)] by blast
  have zero: "fromUnits 0 = ''0.0000''" by code_simp
  have ne: "length rows \<noteq> 0" using bal(1) assms(3) by auto
  then have "last rows = accretion_row P (length rows - 1) (bal (length rows - 1)) (i (length rows - 1)) (bal (length rows))"
    using steps [rule_format, of "length rows - 1"] by (simp add: last_conv_nth)
  then have closing: "ac_closing (last rows) = ''0.0000''" by (simp add: accretion_row_def bal(3) zero)
  show ?thesis
    by (intro exI [of _ pv] exI [of _ ?b] exI [of _ rows] exI [of _ bal] exI [of _ i] conjI pv(1) u refl rows bal closing steps)
qed

theorem accretion_of_present_value_closes_witness:
  "\<exists>pv rows. presentValueOfLevelStream lease_stream = Inr pv
    \<and> accreteToZero \<lparr>aa_opening = pv, aa_payment = ''1000'', aa_periods = 3, aa_rate = lease_rate\<rparr> = Inr rows \<and> length rows = 3 \<and> ac_closing (last rows) = ''0.0000''"
proof -
  have r: "0 < den lease_rate" "0 \<le> num lease_rate" "growth lease_rate = 241 / 240" by (simp_all add: lease_rate_def growth_def)
  have small: "num lease_rate = 0 \<or> rounding_growth lease_rate (nat 3) \<le> 200 * of_int 3
    \<and> growth lease_rate * rounding_growth lease_rate (nat 3 - 1) \<le> 2 * of_int 10000000 * (growth lease_rate - 1)"
    by (simp add: rounding_growth_def r eval_nat_numeral power_divide)
  have "0 < (10000000 :: int)" "1 \<le> (3 :: int)" "(3 :: int) \<le> 1200" by simp_all
  from accretion_of_present_value_closes [OF thousand_units this r(1,2) small] show ?thesis
    unfolding lease_stream_def by (metis nat_int nat_numeral)
qed

end
