(* ===== verification/Recognition.thy ===== *)
theory Recognition
  imports Money_Split Exact_Decimal Civil_Date
begin

text \<open>
  Revenue recognition: the input readers of \<open>engine/src/revenue/recognition-dates.ts\<close>, the month-by-month schedule of
  \<open>recognition-schedule.ts\<close> with the bounds of \<open>recognition-limits.ts\<close>, and the allocation of a bundle price over obligations by
  relative selling price of \<open>recognition-apportionment.ts\<close>.
\<close>

section \<open>Input readers\<close>

abbreviation (input) MAX_RECOGNITION_TERM_MONTHS :: int where "MAX_RECOGNITION_TERM_MONTHS \<equiv> 1200"
abbreviation (input) MIN_RECOGNITION_DAY_OFFSET :: int where "MIN_RECOGNITION_DAY_OFFSET \<equiv> - 2147483648"
abbreviation (input) MAX_RECOGNITION_DAY_OFFSET :: int where "MAX_RECOGNITION_DAY_OFFSET \<equiv> 2147483647"
abbreviation (input) MIN_RECOGNITION_INITIAL_PERCENT :: string where "MIN_RECOGNITION_INITIAL_PERCENT \<equiv> ''0''"
abbreviation (input) MAX_RECOGNITION_INITIAL_PERCENT :: string where "MAX_RECOGNITION_INITIAL_PERCENT \<equiv> ''100''"

text \<open>\<open>/^\d{4}-\d{2}-\d{2}$/\<close> is \<open>iso_parts\<close>; of such a text with a valid date, \<open>toISOString().slice(0, 10)\<close> is \<open>isoDateOf\<close>.\<close>

definition recognitionDate :: "string \<Rightarrow> string \<Rightarrow> js_date result" where
  "recognitionDate value label = (let date = utc_midnight value in
     if iso_parts value = None \<or> take 5 value = ''0000-'' \<or> date = None \<or> isoDateOf date \<noteq> value
     then Inl (RevenueRecognitionError (label @ '' must be a valid ISO calendar date'')) else Inr date)"

definition recognitionInteger :: "int \<Rightarrow> string \<Rightarrow> int \<Rightarrow> int result" where
  "recognitionInteger value label minimum =
     (if \<not> safe_int value \<or> value < minimum \<or> value > MAX_RECOGNITION_DAY_OFFSET
      then Inl (RevenueRecognitionError (label @ '' must be a whole number from '')) else Inr value)"

definition recognitionEventDecimal :: "string \<Rightarrow> string \<Rightarrow> string result" where
  "recognitionEventDecimal value label = (case canonicalDecimal value 4 of
     Some decimal \<Rightarrow> if length (fst (split_dot (if starts_minus decimal then tl decimal else decimal))) > 15
       then Inl (RevenueRecognitionError (label @ '' must be an exact decimal within numeric(19,4) precision'')) else Inr decimal
   | None \<Rightarrow> Inl (RevenueRecognitionError (label @ '' must be an exact decimal within numeric(19,4) precision'')))"

definition eventMonth :: "string \<Rightarrow> unit result" where
  "eventMonth value = bindE (recognitionDate value ''event month'') (\<lambda>_.
     ensure (last_chars 3 value = ''-01'') (RevenueRecognitionError ''event month must be the first day of a calendar month''))"

definition onRecognitionCalendar :: "'a result \<Rightarrow> 'a result" where
  "onRecognitionCalendar step = (case step of
     Inl (RangeError _) \<Rightarrow> Inl (RevenueRecognitionError ''recognition date exceeds the supported calendar'')
   | r \<Rightarrow> r)"

definition shiftRecognitionDate :: "string \<Rightarrow> int \<Rightarrow> string result" where
  "shiftRecognitionDate date days = bindE (recognitionDate date ''recognition date'') (\<lambda>_.
     bindE (recognitionInteger days ''day offset'' MIN_RECOGNITION_DAY_OFFSET) (\<lambda>_.
     onRecognitionCalendar (addCalendarDays date days)))"

section \<open>Schedules\<close>

datatype recognition_method = Point_in_time | Straight_line_even | Straight_line_prorate_first_last
  | Straight_line_daily | Percent_complete | Milestone | Usage

record recognition_event =
  re_periodMonth :: string
  re_amount :: string

record recognition_input =
  ri_total :: string
  ri_method :: recognition_method
  ri_startOn :: string
  ri_endOn :: "string option"
  ri_termPeriods :: "int option"
  ri_startOffsetDays :: "int option"
  ri_initialAmountPercent :: "string option"
  ri_periodOffset :: "int option"
  ri_percentComplete :: "string option"
  ri_alreadyRecognized :: "string option"
  ri_events :: "recognition_event list option"

record recognition_line_plan =
  rl_sequence :: int
  rl_periodMonth :: string
  rl_planned :: string
  rl_cumulative :: string

definition pctOf :: "int \<Rightarrow> string \<Rightarrow> int result" where
  "pctOf totalUnits pct = rethrow (RevenueRecognitionError ''recognition percentage must be a decimal from 0 through 100'')
     (bindE (cmp_money pct MIN_RECOGNITION_INITIAL_PERCENT) (\<lambda>a. bindE (cmp_money pct MAX_RECOGNITION_INITIAL_PERCENT) (\<lambda>b.
      if a < 0 \<or> b > 0 then Inl (Error ''out of range'')
      else bindE (mulPercent (fromUnits totalUnits) pct 4) toUnits)))"

definition resolveEnd :: "string \<Rightarrow> recognition_input \<Rightarrow> string result" where
  "resolveEnd startOn inp = (if or_else (ri_endOn inp) [] \<noteq> [] then Inr (or_else (ri_endOn inp) [])
     else bindE (recognitionInteger (or_else (ri_termPeriods inp) 1) ''recognition term'' 1) (\<lambda>months.
       onRecognitionCalendar (bindE (addMonthsStart startOn (months - 1)) endOfMonth)))"

definition recognitionMonthSpan :: "string \<Rightarrow> string \<Rightarrow> int result" where
  "recognitionMonthSpan startOn endOn = bindE (startOfMonth startOn) (\<lambda>s. bindE (startOfMonth endOn) (\<lambda>e.
     Inr (iso_year e * 12 + (iso_month e - 1) - (iso_year s * 12 + (iso_month s - 1)) + 1)))"

record schedule_line =
  sl_month :: string
  sl_units :: int

definition spreadWithInitial :: "recognition_input \<Rightarrow> string \<Rightarrow> int list \<Rightarrow> schedule_line list result" where
  "spreadWithInitial inp start weights =
     bindE (toUnits (ri_total inp)) (\<lambda>totalUnits.
     bindE (pctOf totalUnits (or_else (ri_initialAmountPercent inp) ''0'')) (\<lambda>initialUnits.
     bindE (apportion (totalUnits - initialUnits) weights Largest_remainder) (\<lambda>parts.
     let parts = (if length weights > 0 then parts[0 := parts ! 0 + initialUnits] else parts) in
     traverse (\<lambda>(i, units). bindE (addMonthsStart start (int i)) (\<lambda>month. Inr \<lparr>sl_month = month, sl_units = units\<rparr>))
       (zip [0..<length parts] parts))))"

definition is_straight_line :: "recognition_method \<Rightarrow> bool" where
  "is_straight_line m \<longleftrightarrow> m = Straight_line_even \<or> m = Straight_line_prorate_first_last \<or> m = Straight_line_daily"

definition prorated_weight :: "string \<Rightarrow> string \<Rightarrow> string \<Rightarrow> int \<Rightarrow> int \<Rightarrow> int result" where
  "prorated_weight start rawStart end_on n i = bindE (addMonthsStart start i) (\<lambda>m.
     if n = 1 then inclusiveCalendarDays rawStart end_on
     else if i = 0 then bindE (endOfMonth rawStart) (inclusiveCalendarDays rawStart)
     else if i = n - 1 then inclusiveCalendarDays m end_on
     else bindE (endOfMonth m) (inclusiveCalendarDays m))"

definition daily_weight :: "string \<Rightarrow> string \<Rightarrow> string \<Rightarrow> int \<Rightarrow> int \<Rightarrow> int result" where
  "daily_weight start rawStart end_on n i = bindE (addMonthsStart start i) (\<lambda>m.
     let segStart = (if i = 0 then rawStart else m) in
     bindE (if i = n - 1 then Inr end_on else endOfMonth m) (\<lambda>segEnd. inclusiveCalendarDays segStart segEnd))"

definition spread_months :: "recognition_input \<Rightarrow> string \<Rightarrow> string \<Rightarrow> (string \<Rightarrow> int \<Rightarrow> int \<Rightarrow> int result) \<Rightarrow> schedule_line list result" where
  "spread_months inp start rawStart weight = bindE (resolveEnd rawStart inp) (\<lambda>end_on.
     bindE (recognitionMonthSpan rawStart end_on) (\<lambda>span. let n = max 1 span in
     bindE (traverse (weight end_on n) (map int [0..<nat n])) (spreadWithInitial inp start)))"

definition schedule_lines :: "recognition_input \<Rightarrow> string \<Rightarrow> string \<Rightarrow> schedule_line list result" where
  "schedule_lines inp start rawStart = (case ri_method inp of
     Point_in_time \<Rightarrow> bindE (toUnits (ri_total inp)) (\<lambda>u. Inr [\<lparr>sl_month = start, sl_units = u\<rparr>])
   | Percent_complete \<Rightarrow>
       bindE (toUnits (ri_total inp)) (\<lambda>u. bindE (pctOf u (or_else (ri_percentComplete inp) ''0'')) (\<lambda>targetUnits.
       bindE (toUnits (or_else (ri_alreadyRecognized inp) ''0'')) (\<lambda>already. Inr [\<lparr>sl_month = start, sl_units = targetUnits - already\<rparr>])))
   | Milestone \<Rightarrow> traverse (\<lambda>e. bindE (eventMonth (re_periodMonth e)) (\<lambda>_. bindE (toUnits (re_amount e)) (\<lambda>u.
       Inr \<lparr>sl_month = re_periodMonth e, sl_units = u\<rparr>))) (or_else (ri_events inp) [])
   | Usage \<Rightarrow> traverse (\<lambda>e. bindE (eventMonth (re_periodMonth e)) (\<lambda>_. bindE (toUnits (re_amount e)) (\<lambda>u.
       Inr \<lparr>sl_month = re_periodMonth e, sl_units = u\<rparr>))) (or_else (ri_events inp) [])
   | Straight_line_even \<Rightarrow> spread_months inp start rawStart (\<lambda>_ _ _. Inr 1)
   | Straight_line_prorate_first_last \<Rightarrow> spread_months inp start rawStart (prorated_weight start rawStart)
   | Straight_line_daily \<Rightarrow> spread_months inp start rawStart (daily_weight start rawStart))"

text \<open>The last \<open>map\<close>: months shifted by the deferral, amounts printed with the running total.\<close>

definition plan_row :: "int \<Rightarrow> recognition_line_plan list \<times> int \<Rightarrow> schedule_line \<Rightarrow> (recognition_line_plan list \<times> int) result" where
  "plan_row periodOffset st l = (case st of (out, cumulative) \<Rightarrow> let cumulative = cumulative + sl_units l in
     bindE (onRecognitionCalendar (addMonthsStart (sl_month l) periodOffset)) (\<lambda>month.
     Inr (out @ [\<lparr>rl_sequence = int (length out), rl_periodMonth = month, rl_planned = fromUnits (sl_units l),
       rl_cumulative = fromUnits cumulative\<rparr>], cumulative)))"

definition check_term :: "recognition_input \<Rightarrow> unit result" where
  "check_term inp = (case ri_termPeriods inp of None \<Rightarrow> Inr ()
     | Some k \<Rightarrow> bindE (recognitionInteger k ''recognition term'' 1) (\<lambda>_.
         ensure (\<not> k > MAX_RECOGNITION_TERM_MONTHS) (RevenueRecognitionError ''recognition term must be a whole number from 1 through '')))"

definition check_window :: "recognition_input \<Rightarrow> string \<Rightarrow> unit result" where
  "check_window inp rawStart = (if is_straight_line (ri_method inp)
     then bindE (resolveEnd rawStart inp) (\<lambda>end_on. bindE (calendarDaysBetween rawStart end_on) (\<lambda>days.
       if days < 0 then Inl (RevenueRecognitionError ''recognition end ('')
       else bindE (recognitionMonthSpan rawStart end_on) (\<lambda>span.
         ensure (\<not> span > MAX_RECOGNITION_TERM_MONTHS) (RevenueRecognitionError ''recognition schedule must span no more than ''))))
     else Inr ())"

definition computeRecognitionSchedule :: "recognition_input \<Rightarrow> recognition_line_plan list result" where
  "computeRecognitionSchedule inp =
     bindE (recognitionDate (ri_startOn inp) ''recognition start'') (\<lambda>_.
     bindE (case ri_endOn inp of None \<Rightarrow> Inr () | Some e \<Rightarrow> bindE (recognitionDate e ''recognition end'') (\<lambda>_. Inr ())) (\<lambda>_.
     bindE (check_term inp) (\<lambda>_.
     bindE (recognitionInteger (or_else (ri_periodOffset inp) 0) ''period offset'' 0) (\<lambda>periodOffset.
     if periodOffset > MAX_RECOGNITION_TERM_MONTHS then Inl (RevenueRecognitionError ''period offset must be a whole number from 0 through '')
     else bindE (shiftRecognitionDate (ri_startOn inp) (or_else (ri_startOffsetDays inp) 0)) (\<lambda>rawStart.
     bindE (startOfMonth rawStart) (\<lambda>start.
     bindE (check_window inp rawStart) (\<lambda>_.
     bindE (schedule_lines inp start rawStart) (\<lambda>lines.
     bindE (foldE (plan_row periodOffset) ([], 0) lines) (\<lambda>(out, _). Inr out)))))))))"

section \<open>Relative selling prices\<close>

record ssp_obligation =
  so_ssp :: "string option"
  so_booked :: "string option"
  so_quantity :: "string option"

definition recognitionQuantityUnits :: "string \<Rightarrow> int result" where
  "recognitionQuantityUnits quantity = (case canonicalDecimal quantity 8 of
     Some value \<Rightarrow> if starts_minus value \<or> length (fst (split_dot value)) > 20
       then Inl (RevenueRecognitionError ''Revenue quantity must be a non-negative exact numeric(28,8) decimal'')
       else bindE (fixedDecimal value 8) (\<lambda>t. Inr (bigint_of_text (remove1 CHR ''.'' t)))
   | None \<Rightarrow> Inl (RevenueRecognitionError ''Revenue quantity must be a non-negative exact numeric(28,8) decimal''))"

definition ssp_weight :: "ssp_obligation \<Rightarrow> int result" where
  "ssp_weight ob = (let ssp = or_else (so_ssp ob) [] in
     bindE (if ssp \<noteq> [] then bindE (toUnits ssp) (\<lambda>u.
         if u < 0 then Inl (RevenueRecognitionError ''Revenue allocation requires non-negative selling prices'')
         else bindE (recognitionQuantityUnits (or_else (so_quantity ob) ''1'')) (\<lambda>q. Inr (u * q)))
       else bindE (toUnits (or_else (so_booked ob) ''0'')) (\<lambda>u. Inr (u * 100000000))) (\<lambda>weight.
     if weight < 0 then Inl (RevenueRecognitionError ''Revenue allocation requires non-negative selling prices and weights'')
     else Inr weight))"

definition allocateByRelativeSSP :: "string \<Rightarrow> ssp_obligation list \<Rightarrow> string list result" where
  "allocateByRelativeSSP tot obligations = bindE (traverse ssp_weight obligations) (\<lambda>weights.
     bindE (toUnits tot) (\<lambda>totalUnits.
     if totalUnits \<noteq> 0 \<and> list_all (\<lambda>w. w = 0) weights
     then Inl (RevenueRecognitionError ''Revenue allocation requires a positive selling price weight for a nonzero total'')
     else bindE (apportion totalUnits weights Largest_remainder) (\<lambda>parts. Inr (map fromUnits parts))))"

datatype range_flag = Below_range | Above_range

definition fairValueRangeFlag :: "string \<Rightarrow> string option \<Rightarrow> string option \<Rightarrow> string option \<Rightarrow> range_flag option result" where
  "fairValueRangeFlag allocated quantity low high =
     (if low = None \<and> high = None then Inr None
      else bindE (recognitionQuantityUnits (or_else quantity ''1'')) (\<lambda>quantityUnits.
        let qty = (if quantityUnits > 0 then quantityUnits else 100000000) in
        bindE (toUnits allocated) (\<lambda>u. let amount = u * 100000000 in
        bindE (case low of None \<Rightarrow> Inr False | Some l \<Rightarrow> bindE (toUnits l) (\<lambda>lu. Inr (amount < lu * qty))) (\<lambda>below.
        if below then Inr (Some Below_range)
        else bindE (case high of None \<Rightarrow> Inr False | Some h \<Rightarrow> bindE (toUnits h) (\<lambda>hu. Inr (amount > hu * qty))) (\<lambda>above.
        Inr (if above then Some Above_range else None))))))"

section \<open>Dates that are read\<close>

lemma iso_parts_text:
  assumes "iso_parts s = Some (y, m, d)"
  shows "0 \<le> y" "y \<le> 9999" "y = 0 \<Longrightarrow> take 5 s = ''0000-''"
proof -
  have s: "length s = 10" "list_all is_digit (take 4 s)" "s ! 4 = CHR ''-''" "y = int (digits_val (take 4 s))"
    using assms by (auto simp: iso_parts_def split: if_splits)
  have l: "length (take 4 s) = 4" using s(1) by simp
  show "0 \<le> y" "y \<le> 9999" using digits_val_less [OF s(2)] l s(4) by simp_all
  assume "y = 0"
  then have "digits_val (take 4 s) = digits_val (replicate 4 CHR ''0'')" using s(4) by simp
  then have "take 4 s = replicate 4 CHR ''0''" using digits_inject [of "take 4 s" "replicate 4 CHR ''0''"] s(2) l by simp
  moreover have "take 5 s = take 4 s @ [s ! 4]" using s(1) take_Suc_conv_app_nth [of 4 s] by simp
  ultimately show "take 5 s = ''0000-''" using s(3) by (simp add: numeral_eq_Suc)
qed

lemma iso_parts_zero:
  assumes "iso_parts s = Some (y, m, d)" "take 5 s = ''0000-''"
  shows "y = 0"
proof -
  have "take 4 s = take 4 (take 5 s)" by simp
  also have "\<dots> = replicate 4 CHR ''0''" unfolding assms(2) by code_simp
  finally have "take 4 s = replicate 4 CHR ''0''" .
  moreover have "y = int (digits_val (take 4 s))" using assms(1) by (simp add: iso_parts_def split: if_splits)
  ultimately show ?thesis by simp
qed

lemma carried_day_supported:
  assumes "1 \<le> y" "y \<le> 9999" "0 \<le> m" "m < 12" "1 \<le> d" "d \<le> 31"
  shows "supported (make_day y m d)"
proof -
  define q where "q = 12 * y + m"
  have q: "q div 12 = y" "q mod 12 = m" using assms by (simp_all add: q_def)
  have k: "make_day y m d = month_day q d" by (simp add: q_def make_day_month_day)
  show ?thesis
  proof (cases "d \<le> month_length q")
    case True
    then show ?thesis unfolding k using assms q by (simp add: supported_month)
  next
    case False
    have "m \<noteq> 11" using False q assms(6) by (auto simp: days_in_month_def month_lengths_def)
    then have "m + 1 < 12" "0 \<le> m + 1" using assms by simp_all
    then have "(12 * y + (m + 1)) div 12 = y" by simp
    then have "(q + 1) div 12 = y" by (simp add: q_def add.assoc)
    then have a: "supported (month_day (q + 1) 3)" using supported_month [of 3 "q + 1"] month_length_bounds [of "q + 1"] assms(1,2) by simp
    have b: "supported (month_day q 1)" using supported_month [of 1 q] month_length_bounds [of q] assms q by simp
    have "month_day q d = month_day q 1 + (d - 1)" using month_day_add [of q 1 "d - 1"] by simp
    moreover have "month_day (q + 1) 3 = month_day q 1 + month_length q + 2" using month_day_add [of "q + 1" 1 2] month_day_next [of q] by simp
    ultimately have "month_day q 1 \<le> month_day q d" "month_day q d \<le> month_day (q + 1) 3"
      using assms(5,6) month_length_bounds [of q] by linarith+
    then show ?thesis unfolding k using a b unfolding supported_def by linarith
  qed
qed

lemma recognitionDate_Inr: "recognitionDate v l = Inr t \<longleftrightarrow> (\<exists>n. supported n \<and> v = iso_of_day n \<and> t = Some (n * MS_PER_DAY))"
proof
  assume r: "recognitionDate v l = Inr t"
  then obtain y m d where p: "iso_parts v = Some (y, m, d)" and z: "take 5 v \<noteq> ''0000-''" and t: "t = utc_midnight v" "t \<noteq> None" "isoDateOf t = v"
    by (auto simp: recognitionDate_def Let_def split: if_splits)
  have "y \<noteq> 0" using iso_parts_text(3) [OF p] z by blast
  then have y: "1 \<le> y" "y \<le> 9999" using iso_parts_text(1,2) [OF p] by simp_all
  have m: "1 \<le> m" "m \<le> 12" "1 \<le> d" "d \<le> 31" "t = time_clip (make_day y (m - 1) d * MS_PER_DAY)"
    using t p by (auto simp: utc_midnight_def split: if_splits)
  then have s: "supported (make_day y (m - 1) d)" using carried_day_supported y by simp
  then show "\<exists>n. supported n \<and> v = iso_of_day n \<and> t = Some (n * MS_PER_DAY)"
    using m(5) t(3) time_clip_midnight [OF supported_abs [OF s]] isoDateOf_midnight by metis
next
  assume "\<exists>n. supported n \<and> v = iso_of_day n \<and> t = Some (n * MS_PER_DAY)"
  then obtain n where n: "supported n" "v = iso_of_day n" "t = Some (n * MS_PER_DAY)" by blast
  obtain y m d where i: "iso_parts v = Some (y, m, d)" using utc_midnight_day [OF n(1)] n(2) by (auto simp: utc_midnight_def split: option.splits)
  have "isIsoCalendarDate v" using n isIso_day_iff by blast
  then have "1 \<le> y" using i by (auto simp: isIsoCalendarDate_def split: if_splits)
  then have "take 5 v \<noteq> ''0000-''" using iso_parts_zero [OF i] by auto
  then show "recognitionDate v l = Inr t" using n i utc_midnight_day [OF n(1)] by (simp add: recognitionDate_def isoDateOf_midnight)
qed

lemma onRecognitionCalendar_Inr [simp]: "onRecognitionCalendar (Inr x) = Inr x"
  by (simp add: onRecognitionCalendar_def)

lemma onRecognitionCalendar_Inr_iff: "onRecognitionCalendar m = Inr x \<longleftrightarrow> m = Inr x"
  by (auto simp: onRecognitionCalendar_def split: sum.splits error.splits)

lemma recognitionMonthSpan_day:
  assumes "supported n" "supported k"
  shows "recognitionMonthSpan (iso_of_day n) (iso_of_day k) = Inr (month_of_day k - month_of_day n + 1)"
proof -
  have f: "iso_year (iso_of_day (month_day (month_of_day j) 1)) * 12 + (iso_month (iso_of_day (month_day (month_of_day j) 1)) - 1) = month_of_day j"
    if "supported j" for j using month_start_fields(2,3) [of "month_of_day j"] month_years [OF that] by simp
  show ?thesis using startOfMonth_day(2) [OF assms(1)] startOfMonth_day(2) [OF assms(2)] f [OF assms(1)] f [OF assms(2)]
    by (simp add: recognitionMonthSpan_def)
qed

section \<open>Rows of a schedule\<close>

definition plan_rows :: "recognition_line_plan list \<Rightarrow> int \<Rightarrow> schedule_line list \<Rightarrow> bool" where
  "plan_rows plan off lines \<longleftrightarrow> length plan = length lines \<and> (\<forall>i < length lines. \<exists>m. addMonthsStart (sl_month (lines ! i)) off = Inr m
     \<and> plan ! i = \<lparr>rl_sequence = int i, rl_periodMonth = m, rl_planned = fromUnits (sl_units (lines ! i)),
         rl_cumulative = fromUnits (sum_list (map sl_units (take (Suc i) lines)))\<rparr>)"

lemma plan_fold:
  "foldE (plan_row off) ([], 0) lines = Inr (plan, c) \<Longrightarrow> plan_rows plan off lines \<and> c = sum_list (map sl_units lines)"
proof (induction lines arbitrary: plan c rule: rev_induct)
  case Nil
  then show ?case by (simp add: plan_rows_def)
next
  case (snoc l lines)
  then obtain plan0 c0 where f: "foldE (plan_row off) ([], 0) lines = Inr (plan0, c0)" and r: "plan_row off (plan0, c0) l = Inr (plan, c)"
    by (auto simp: foldE_append bindE_Inr_iff)
  have ih: "length plan0 = length lines" "c0 = sum_list (map sl_units lines)" "plan_rows plan0 off lines"
    using snoc.IH [OF f] by (simp_all add: plan_rows_def)
  from r obtain m where m: "addMonthsStart (sl_month l) off = Inr m" "c = c0 + sl_units l"
    "plan = plan0 @ [\<lparr>rl_sequence = int (length plan0), rl_periodMonth = m, rl_planned = fromUnits (sl_units l), rl_cumulative = fromUnits c\<rparr>]"
    by (auto simp: plan_row_def Let_def bindE_Inr_iff onRecognitionCalendar_Inr_iff)
  have "plan_rows plan off (lines @ [l])"
    unfolding plan_rows_def
  proof (intro conjI allI impI)
    show "length plan = length (lines @ [l])" using m(3) ih(1) by simp
    fix i assume i: "i < length (lines @ [l])"
    show "\<exists>m. addMonthsStart (sl_month ((lines @ [l]) ! i)) off = Inr m
       \<and> plan ! i = \<lparr>rl_sequence = int i, rl_periodMonth = m, rl_planned = fromUnits (sl_units ((lines @ [l]) ! i)),
           rl_cumulative = fromUnits (sum_list (map sl_units (take (Suc i) (lines @ [l]))))\<rparr>"
    proof (cases "i < length lines")
      case True
      then show ?thesis using ih(1,3) m(3) by (simp add: plan_rows_def nth_append)
    next
      case False
      then have "i = length lines" using i by simp
      then show ?thesis using ih(1,2) m by (simp add: nth_append)
    qed
  qed
  then show ?case using m(2) ih(2) by simp
qed

lemma plan_rows_sum:
  assumes "plan_rows plan off lines"
  shows "sum_money (map rl_planned plan) = Inr (fromUnits (sum_list (map sl_units lines)))"
proof -
  have "map rl_planned plan = map (\<lambda>l. fromUnits (sl_units l)) lines"
    using assms by (intro nth_equalityI) (auto simp: plan_rows_def)
  then show ?thesis using sum_money_units [OF traverse_toUnits_map] by simp
qed

section \<open>Spreading\<close>

lemma spread_facts:
  assumes "spreadWithInitial inp (iso_of_day (month_day q 1)) ws = Inr lines" "toUnits (ri_total inp) = Inr T" "ws \<noteq> []"
    and "1 \<le> q div 12" "q div 12 \<le> 9999" "length ws \<le> 1200"
  shows "length lines = length ws" "sum_list (map sl_units lines) = T"
    "\<forall>i < length lines. (q + int i) div 12 \<le> 9999 \<and> sl_month (lines ! i) = iso_of_day (month_day (q + int i) 1)"
proof -
  from assms(1,2) obtain I ps where ps: "apportion (T - I) ws Largest_remainder = Inr ps"
    and tr: "traverse (\<lambda>(i, units). bindE (addMonthsStart (iso_of_day (month_day q 1)) (int i)) (\<lambda>month. Inr \<lparr>sl_month = month, sl_units = units\<rparr>))
       (zip [0..<length (ps[0 := ps ! 0 + I])] (ps[0 := ps ! 0 + I])) = Inr lines"
    using assms(3) by (auto simp: spreadWithInitial_def Let_def bindE_Inr_iff)
  let ?ps = "ps[0 := ps ! 0 + I]"
  have sp: "sum_list ?ps = T" "length ?ps = length ws" using largest.split_then_add [OF ps assms(3)] by simp_all
  have l: "length lines = length ?ps" using traverse_length [OF tr] by simp
  then show "length lines = length ws" using sp(2) by simp
  have row: "\<exists>m. addMonthsStart (iso_of_day (month_day q 1)) (int i) = Inr m \<and> lines ! i = \<lparr>sl_month = m, sl_units = ?ps ! i\<rparr>" if "i < length lines" for i
    using tr that l by (auto simp: traverse_Inr_iff list_all2_conv_all_nth bindE_Inr_iff)
  have "sl_units (lines ! i) = ?ps ! i" if "i < length lines" for i using row [OF that] by auto
  then have "map sl_units lines = ?ps" using l by (intro nth_equalityI) simp_all
  then show "sum_list (map sl_units lines) = T" using sp(1) by simp
  show "\<forall>i < length lines. (q + int i) div 12 \<le> 9999 \<and> sl_month (lines ! i) = iso_of_day (month_day (q + int i) 1)"
  proof (intro allI impI)
    fix i assume i: "i < length lines"
    have "safe_int (int i)" using i l sp(2) assms(6) by simp
    then show "(q + int i) div 12 \<le> 9999 \<and> sl_month (lines ! i) = iso_of_day (month_day (q + int i) 1)"
      using row [OF i] addMonthsStart_month [OF assms(4,5), of "int i"] by (auto split: if_splits)
  qed
qed

lemma spread_returns:
  assumes "toUnits (ri_total inp) = Inr T" "pctOf T (or_else (ri_initialAmountPercent inp) ''0'') = Inr I"
    and "\<forall>w \<in> set ws. 0 < w" "ws \<noteq> []" "length ws \<le> 1200" "1 \<le> q div 12" "(q + int (length ws) - 1) div 12 \<le> 9999"
  shows "\<exists>lines. spreadWithInitial inp (iso_of_day (month_day q 1)) ws = Inr lines"
proof -
  have nn: "\<not> list_ex (\<lambda>w. w < 0) ws" using assms(3) by (auto simp: list_ex_iff)
  have "0 < sum_list ws" using assms(3,4) by (induction ws) (auto intro: add_pos_nonneg sum_list_nonneg less_imp_le)
  then obtain ps where ps: "apportion (T - I) ws Largest_remainder = Inr ps" "length ps = length ws"
    using nn largest.split_conserves [of ws "T - I"] by (metis less_irrefl)
  have months: "addMonthsStart (iso_of_day (month_day q 1)) (int i) = Inr (iso_of_day (month_day (q + int i) 1))" if "i < length ws" for i
  proof -
    have "q div 12 \<le> (q + int i) div 12" "(q + int i) div 12 \<le> (q + int (length ws) - 1) div 12" using that by (intro zdiv_mono1; simp)+
    moreover from this have "q div 12 \<le> 9999" using assms(7) by linarith
    moreover have "safe_int (int i)" using that assms(5) by simp
    ultimately show ?thesis using addMonthsStart_month [OF assms(6) _, of "int i"] assms(6,7) by simp
  qed
  let ?ps = "ps[0 := ps ! 0 + I]"
  have "traverse (\<lambda>(i, units). bindE (addMonthsStart (iso_of_day (month_day q 1)) (int i)) (\<lambda>month. Inr \<lparr>sl_month = month, sl_units = units\<rparr>))
      (zip [0..<length ?ps] ?ps)
    = Inr (map (\<lambda>(i, u). \<lparr>sl_month = iso_of_day (month_day (q + int i) 1), sl_units = u\<rparr>) (zip [0..<length ?ps] ?ps))"
    by (rule traverse_map_Inr) (use ps(2) months in \<open>auto dest!: set_zip_leftD\<close>)
  then show ?thesis using assms(1,2,4) ps by (simp add: spreadWithInitial_def Let_def)
qed

section \<open>Weights of the days methods\<close>

lemma daily_weight_month:
  assumes "supported s" "supported e" "s \<le> e" "0 \<le> i" "i < n" "n = month_of_day e - month_of_day s + 1" "n \<le> 1200"
  shows "\<exists>w > 0. daily_weight (iso_of_day (month_day (month_of_day s) 1)) (iso_of_day s) (iso_of_day e) n i = Inr w"
proof -
  define q where "q = month_of_day s"
  have y: "1 \<le> q div 12" "q div 12 \<le> 9999" "month_of_day e div 12 \<le> 9999" using month_years assms(1,2) by (simp_all add: q_def)
  have "q div 12 \<le> (q + i) div 12" "(q + i) div 12 \<le> month_of_day e div 12" using assms by (intro zdiv_mono1; simp add: q_def)+
  then have yi: "1 \<le> (q + i) div 12" "(q + i) div 12 \<le> 9999" using y by linarith+
  have m: "addMonthsStart (iso_of_day (month_day q 1)) i = Inr (iso_of_day (month_day (q + i) 1))"
    using addMonthsStart_month [OF y(1,2), of i] yi assms(4,5,7) by simp
  note f = month_start_fields [OF yi]
  define a where "a = (if i = 0 then s else month_day (q + i) 1)"
  define b where "b = (if i = n - 1 then e else month_day (q + i) (month_length (q + i)))"
  have sup: "supported a" "supported b" using assms(1,2) f(1) endOfMonth_day(1) [OF f(1)] f(4) by (simp_all add: a_def b_def)
  have next_month: "month_day (q + i) (month_length (q + i)) + 1 = month_day (q + i + 1) 1"
    using month_day_next [of "q + i"] month_day_add [of "q + i" 1 "month_length (q + i) - 1"] by simp
  have "month_day (q + i) 1 \<le> month_day (q + i) (month_length (q + i))"
    using month_day_add [of "q + i" 1 "month_length (q + i) - 1"] month_length_bounds [of "q + i"] by simp
  moreover have "i = 0 \<Longrightarrow> s < month_day (q + i + 1) 1" using month_of_day_bounds(2) [of s] by (simp add: q_def)
  moreover have "i = n - 1 \<Longrightarrow> month_day (q + i) 1 \<le> e" using month_of_day_bounds(1) [of e] assms(6) by (simp add: q_def)
  ultimately have "a \<le> b" using next_month assms(3) by (auto simp: a_def b_def)
  moreover have "daily_weight (iso_of_day (month_day q 1)) (iso_of_day s) (iso_of_day e) n i = inclusiveCalendarDays (iso_of_day a) (iso_of_day b)"
    using m endOfMonth_day(2) [OF f(1)] f(4) by (simp add: daily_weight_def a_def b_def)
  ultimately show ?thesis using sup by (simp add: inclusiveCalendarDays_def civilDayIndex_day q_def)
qed

text \<open>The two days methods weigh every month alike.\<close>

lemma prorated_is_daily:
  assumes "supported s" "0 \<le> i" "safe_int i" "i < n"
  shows "prorated_weight (iso_of_day (month_day (month_of_day s) 1)) (iso_of_day s) end_on n i
    = daily_weight (iso_of_day (month_day (month_of_day s) 1)) (iso_of_day s) end_on n i"
proof (cases "i = 0")
  case True
  have y: "1 \<le> month_of_day s div 12" "month_of_day s div 12 \<le> 9999" using month_years [OF assms(1)] by simp_all
  note f = month_start_fields [OF y]
  have "addMonthsStart (iso_of_day (month_day (month_of_day s) 1)) i = Inr (iso_of_day (month_day (month_of_day s) 1))"
    using addMonthsStart_month [OF y assms(3)] y True by simp
  moreover have "endOfMonth (iso_of_day (month_day (month_of_day s) 1)) = endOfMonth (iso_of_day s)"
    using endOfMonth_day(2) [OF f(1)] endOfMonth_day(2) [OF assms(1)] f(4) by simp
  ultimately show ?thesis using True by (auto simp: prorated_weight_def daily_weight_def Let_def)
next
  case False
  then show ?thesis using assms(2,4)
    by (cases "addMonthsStart (iso_of_day (month_day (month_of_day s) 1)) i") (auto simp: prorated_weight_def daily_weight_def Let_def)
qed

section \<open>Accepted inputs\<close>

lemma addCalendarDays_Inr: "addCalendarDays s k = Inr r \<Longrightarrow> \<exists>n. supported n \<and> r = iso_of_day n"
proof -
  assume a: "addCalendarDays s k = Inr r"
  then obtain t where k: "safe_int k" and "parseIsoDate s = Inr t"
    by (auto simp: addCalendarDays_def calendarOffset_def bindE_Inr_iff ensure_Inr_iff)
  then obtain n where "supported n" "s = iso_of_day n" by (auto simp: parse_Inr_iff)
  then show ?thesis using a addCalendarDays_day [OF _ k, of n] by (auto split: if_splits)
qed

lemma shift_Inr: "shiftRecognitionDate s k = Inr r \<Longrightarrow> \<exists>n. supported n \<and> r = iso_of_day n"
  by (auto simp: shiftRecognitionDate_def bindE_Inr_iff onRecognitionCalendar_Inr_iff intro: addCalendarDays_Inr)

lemma shift_day:
  assumes "supported d" "- 2147483648 \<le> k" "k \<le> 2147483647" "supported (d + k)"
  shows "shiftRecognitionDate (iso_of_day d) k = Inr (iso_of_day (d + k))"
proof -
  have r: "recognitionDate (iso_of_day d) l = Inr (Some (d * MS_PER_DAY))" for l using assms(1) by (auto simp: recognitionDate_Inr)
  have "safe_int k" using assms(2,3) by simp
  then show ?thesis using assms r addCalendarDays_day [OF assms(1), of k]
    by (simp add: shiftRecognitionDate_def recognitionInteger_def)
qed

lemma compute_cases:
  assumes "computeRecognitionSchedule inp = Inr plan"
  obtains s off lines where "supported s" "0 \<le> off" "off \<le> 1200" "check_window inp (iso_of_day s) = Inr ()"
    "schedule_lines inp (iso_of_day (month_day (month_of_day s) 1)) (iso_of_day s) = Inr lines" "plan_rows plan off lines"
proof -
  from assms obtain rs st lines off c where raw: "shiftRecognitionDate (ri_startOn inp) (or_else (ri_startOffsetDays inp) 0) = Inr rs"
    and st: "startOfMonth rs = Inr st" and w: "check_window inp rs = Inr ()" and lines: "schedule_lines inp st rs = Inr lines"
    and f: "foldE (plan_row off) ([], 0) lines = Inr (plan, c)"
    and off: "recognitionInteger (or_else (ri_periodOffset inp) 0) ''period offset'' 0 = Inr off" "\<not> off > 1200"
    unfolding computeRecognitionSchedule_def by (auto elim!: bindE_InrE split: if_splits)
  obtain s where s: "supported s" "rs = iso_of_day s" using shift_Inr [OF raw] by blast
  have "st = iso_of_day (month_day (month_of_day s) 1)" using st startOfMonth_day(2) [OF s(1)] s(2) by simp
  moreover have "0 \<le> off" "off \<le> 1200" using off by (auto simp: recognitionInteger_def split: if_splits)
  ultimately show thesis using that [of s off lines] s w lines plan_fold [OF f] by simp
qed

lemma spread_months_cases:
  assumes "spread_months inp st rs weight = Inr lines" "check_window inp rs = Inr ()" "is_straight_line (ri_method inp)"
  obtains ws where "spreadWithInitial inp st ws = Inr lines" "ws \<noteq> []" "length ws \<le> 1200"
proof -
  from assms(1) obtain e span ws where e: "resolveEnd rs inp = Inr e" and sp: "recognitionMonthSpan rs e = Inr span"
    and ws: "traverse (weight e (max 1 span)) (map int [0..<nat (max 1 span)]) = Inr ws" and l: "spreadWithInitial inp st ws = Inr lines"
    unfolding spread_months_def Let_def by (elim bindE_InrE)
  have "span \<le> 1200" using assms(2,3) e sp by (auto simp: check_window_def bindE_Inr_iff ensure_Inr_iff split: if_splits)
  then have "length ws = nat (max 1 span)" "nat (max 1 span) \<le> 1200" "0 < nat (max 1 span)" using traverse_length [OF ws] by simp_all
  then show thesis using that [OF l] by fastforce
qed

lemma straight_line_cases:
  assumes "schedule_lines inp st rs = Inr lines" "check_window inp rs = Inr ()" "is_straight_line (ri_method inp)"
  obtains ws where "spreadWithInitial inp st ws = Inr lines" "ws \<noteq> []" "length ws \<le> 1200"
proof -
  obtain weight where "spread_months inp st rs weight = Inr lines"
    using assms(1,3) by (cases "ri_method inp") (auto simp: schedule_lines_def is_straight_line_def)
  then show thesis using spread_months_cases assms(2,3) that by blast
qed

lemma window_returns:
  assumes "is_straight_line (ri_method inp)" "supported s" "supported e" "s \<le> e" "resolveEnd (iso_of_day s) inp = Inr (iso_of_day e)"
    and "n = month_of_day e - month_of_day s + 1" "n \<le> 1200"
    and "toUnits (ri_total inp) = Inr T" "pctOf T (or_else (ri_initialAmountPercent inp) ''0'') = Inr I"
  shows "check_window inp (iso_of_day s) = Inr ()"
    "\<exists>lines. schedule_lines inp (iso_of_day (month_day (month_of_day s) 1)) (iso_of_day s) = Inr lines \<and> int (length lines) = n"
proof -
  have span: "recognitionMonthSpan (iso_of_day s) (iso_of_day e) = Inr n" using recognitionMonthSpan_day assms(2,3,6) by simp
  show "check_window inp (iso_of_day s) = Inr ()"
    using assms span by (simp add: check_window_def calendarDaysBetween_def civilDayIndex_day)
  have n1: "1 \<le> n" using month_of_day_mono [OF assms(4)] assms(6) by simp
  let ?st = "iso_of_day (month_day (month_of_day s) 1)" and ?is = "map int [0..<nat n]"
  have day: "\<exists>w > 0. daily_weight ?st (iso_of_day s) (iso_of_day e) n i = Inr w
      \<and> prorated_weight ?st (iso_of_day s) (iso_of_day e) n i = Inr w" if "i \<in> set ?is" for i
  proof -
    have i: "0 \<le> i" "i < n" using that by auto
    then show ?thesis using daily_weight_month [OF assms(2-4) i assms(6,7)] prorated_is_daily [OF assms(2) i(1) _ i(2)] assms(7) by simp
  qed
  have returns: "\<exists>lines. spread_months inp ?st (iso_of_day s) weight = Inr lines \<and> int (length lines) = n"
    if w: "\<And>i. i \<in> set ?is \<Longrightarrow> \<exists>w > 0. weight (iso_of_day e) n i = Inr w" for weight
  proof -
    obtain f where f: "\<And>i. i \<in> set ?is \<Longrightarrow> 0 < f i \<and> weight (iso_of_day e) n i = Inr (f i)" using w by metis
    have ws: "traverse (weight (iso_of_day e) n) ?is = Inr (map f ?is)" by (rule traverse_map_Inr) (use f in simp)
    have y: "1 \<le> month_of_day s div 12" "month_of_day s div 12 \<le> 9999" "month_of_day e div 12 \<le> 9999" using month_years assms(2,3) by simp_all
    have len: "length (map f ?is) = nat n" "map f ?is \<noteq> []" "nat n \<le> 1200" using n1 assms(7) by simp_all
    have "month_of_day s + int (nat n) - 1 = month_of_day e" using n1 assms(6) by simp
    then obtain lines where l: "spreadWithInitial inp ?st (map f ?is) = Inr lines"
      using spread_returns [OF assms(8,9), of "map f ?is" "month_of_day s"] f len y assms(7) by auto
    have "length lines = length (map f ?is)" using spread_facts(1) [OF l assms(8) len(2) y(1,2)] len(1) assms(7) by simp
    then show ?thesis using l ws span assms(5) n1 by (simp add: spread_months_def max_def)
  qed
  show "\<exists>lines. schedule_lines inp ?st (iso_of_day s) = Inr lines \<and> int (length lines) = n"
    using assms(1) returns [of "\<lambda>_ _ _. Inr 1"] returns [of "prorated_weight ?st (iso_of_day s)"] returns [of "daily_weight ?st (iso_of_day s)"] day
    by (cases "ri_method inp") (force simp: schedule_lines_def is_straight_line_def)+
qed

lemma method_update [simp]:
  "resolveEnd rs (inp\<lparr>ri_method := m\<rparr>) = resolveEnd rs inp"
  "spreadWithInitial (inp\<lparr>ri_method := m\<rparr>) = spreadWithInitial inp"
  "check_term (inp\<lparr>ri_method := m\<rparr>) = check_term inp"
  by (simp_all add: resolveEnd_def spreadWithInitial_def check_term_def fun_eq_iff)

lemma schedule_returns:
  assumes "is_straight_line (ri_method inp)" "civilDayIndex (ri_startOn inp) = Inr d"
    and "or_else (ri_startOffsetDays inp) 0 = k" "- 2147483648 \<le> k" "k \<le> 2147483647" "supported (d + k)"
    and "or_else (ri_periodOffset inp) 0 = p" "0 \<le> p" "p \<le> 1200"
    and "\<forall>t. ri_endOn inp = Some t \<longrightarrow> isIsoCalendarDate t" "\<forall>m. ri_termPeriods inp = Some m \<longrightarrow> 1 \<le> m \<and> m \<le> 1200"
    and "resolveEnd (iso_of_day (d + k)) inp = Inr (iso_of_day e)" "supported e" "d + k \<le> e"
    and "month_of_day e - month_of_day (d + k) + 1 \<le> 1200" "(month_of_day e + p) div 12 \<le> 9999"
    and "toUnits (ri_total inp) = Inr T" "pctOf T (or_else (ri_initialAmountPercent inp) ''0'') = Inr I"
  shows "\<exists>plan. computeRecognitionSchedule inp = Inr plan \<and> int (length plan) = month_of_day e - month_of_day (d + k) + 1"
proof -
  have d: "supported d" "ri_startOn inp = iso_of_day d" using assms(2) by (simp_all add: civil.decode_Inr_iff)
  let ?q = "month_of_day (d + k)" and ?n = "month_of_day e - month_of_day (d + k) + 1"
  let ?st = "iso_of_day (month_day ?q 1)"
  have dates: "recognitionDate (ri_startOn inp) l = Inr (Some (d * MS_PER_DAY))" for l using d by (auto simp: recognitionDate_Inr)
  have e_ok: "(case ri_endOn inp of None \<Rightarrow> Inr () | Some e \<Rightarrow> bindE (recognitionDate e ''recognition end'') (\<lambda>_. Inr ())) = Inr ()"
    using assms(10) by (cases "ri_endOn inp") (auto simp: isIso_day_iff bindE_Inr_iff recognitionDate_Inr)
  have t_ok: "check_term inp = Inr ()" using assms(11) by (cases "ri_termPeriods inp") (auto simp: check_term_def recognitionInteger_def)
  have p_ok: "recognitionInteger (or_else (ri_periodOffset inp) 0) ''period offset'' 0 = Inr p" using assms(7-9) by (simp add: recognitionInteger_def)
  have s_ok: "shiftRecognitionDate (ri_startOn inp) (or_else (ri_startOffsetDays inp) 0) = Inr (iso_of_day (d + k))"
    using shift_day [OF d(1) assms(4-6)] d(2) assms(3) by simp
  note w = window_returns [OF assms(1,6,13,14,12) refl assms(15,17,18)]
  obtain lines where l: "schedule_lines inp ?st (iso_of_day (d + k)) = Inr lines" "int (length lines) = ?n" using w(2) by blast
  have y: "1 \<le> ?q div 12" "?q div 12 \<le> 9999" using month_years [OF assms(6)] by simp_all
  obtain ws where ws: "spreadWithInitial inp ?st ws = Inr lines" "ws \<noteq> []" "length ws \<le> 1200"
    by (rule straight_line_cases [OF l(1) w(1) assms(1)])
  note f = spread_facts [OF ws(1) assms(17) ws(2) y ws(3)]
  have "\<exists>m. addMonthsStart (sl_month (lines ! i)) p = Inr m" if "i < length lines" for i
  proof -
    have m: "?q div 12 \<le> (?q + int i) div 12" "(?q + int i) div 12 \<le> (?q + int i + p) div 12"
      "(?q + int i + p) div 12 \<le> (month_of_day e + p) div 12" using that l(2) assms(8) by (intro zdiv_mono1; simp)+
    have "1 \<le> (?q + int i) div 12" "(?q + int i) div 12 \<le> 9999" "safe_int p" using m y assms(8,9,16) by linarith+
    then show ?thesis using addMonthsStart_month [of "?q + int i" p] f(3) that m assms(16) y(1) by force
  qed
  then have "\<exists>m. addMonthsStart (sl_month x) p = Inr m" if "x \<in> set lines" for x using that by (auto simp: in_set_conv_nth)
  then have "\<exists>st'. plan_row p st x = Inr st'" if "x \<in> set lines" for st x
    using that by (fastforce simp: plan_row_def Let_def split: prod.splits)
  then obtain plan c where pc: "foldE (plan_row p) ([], 0) lines = Inr (plan, c)" using foldE_Inr_total [of lines "plan_row p" "([], 0)"] by auto
  then have "computeRecognitionSchedule inp = Inr plan"
    using dates e_ok t_ok p_ok s_ok assms(9) startOfMonth_day(2) [OF assms(6)] w(1) l(1) by (simp add: computeRecognitionSchedule_def)
  then show ?thesis using plan_fold [OF pc] l(2) by (simp add: plan_rows_def)
qed

section \<open>Relative selling prices are fair\<close>

lemma apportion_near:
  assumes "apportion T ws Largest_remainder = Inr ps" "T \<noteq> 0" "i < length ws" "0 < sum_list ws"
  shows "\<bar>sum_list ws * ps ! i - T * ws ! i\<bar> < sum_list ws"
proof -
  let ?W = "sum_list ws" and ?x = "\<bar>T\<bar> * ws ! i"
  have m: "?W * (?x div ?W) + ?x mod ?W = ?x" "0 \<le> ?x mod ?W" "?x mod ?W < ?W" using assms(4) by simp_all
  have "ps ! i = sgn T * (?x div ?W) \<or> (0 < ?x mod ?W \<and> ps ! i = sgn T * (?x div ?W + 1))"
    by (rule apportion_largest_parts [OF assms(1) disjI1 [OF refl] assms(2,3)])
  moreover have "\<bar>?W * (?x div ?W) - ?x\<bar> < ?W" "0 < ?x mod ?W \<Longrightarrow> \<bar>?W * (?x div ?W + 1) - ?x\<bar> < ?W"
    unfolding distrib_left using m by linarith+
  ultimately obtain k where k: "ps ! i = sgn T * k" "\<bar>?W * k - ?x\<bar> < ?W" by blast
  have "?W * ps ! i - T * ws ! i = sgn T * (?W * k - ?x)" using k(1) by (simp add: algebra_simps abs_mult_sgn)
  then show ?thesis using k(2) assms(2) by (simp add: abs_mult abs_sgn_eq)
qed

lemma ssp_weight_nonneg: "ssp_weight ob = Inr w \<Longrightarrow> 0 \<le> w"
  by (auto simp: ssp_weight_def Let_def bindE_Inr_iff split: if_splits)

lemma ssp_weights_nonneg:
  assumes "traverse ssp_weight obs = Inr ws"
  shows "\<not> list_ex (\<lambda>w. w < 0) ws"
proof -
  have "0 \<le> ws ! i" if "i < length ws" for i
    using assms that ssp_weight_nonneg [of "obs ! i"] by (auto simp: traverse_Inr_iff list_all2_conv_all_nth)
  then show ?thesis by (metis in_set_conv_nth list_ex_iff not_less)
qed

section \<open>Properties\<close>

text \<open>
  C26: a recognition schedule recognises the whole amount, no more and no less.  Whenever a straight-line or point-in-time
  schedule is computed, the planned amounts add up to the total exactly, up-front percentage included; the rows fall on
  consecutive calendar months, each row's cumulative amount is the sum of the rows so far, and the last is the total.
\<close>

theorem recognition_schedule_exact:
  assumes "computeRecognitionSchedule inp = Inr plan" "is_straight_line (ri_method inp) \<or> ri_method inp = Point_in_time"
    and "toUnits (ri_total inp) = Inr T"
  shows "plan \<noteq> [] \<and> sum_money (map rl_planned plan) = Inr (fromUnits T) \<and> rl_cumulative (last plan) = fromUnits T
    \<and> (\<exists>q. \<forall>i < length plan. rl_sequence (plan ! i) = int i \<and> rl_periodMonth (plan ! i) = iso_of_day (month_day (q + int i) 1)
         \<and> sum_money (map rl_planned (take (Suc i) plan)) = Inr (rl_cumulative (plan ! i)))"
proof -
  from assms(1) obtain s off lines where s: "supported s" "0 \<le> off" "off \<le> 1200" "check_window inp (iso_of_day s) = Inr ()"
    and lines: "schedule_lines inp (iso_of_day (month_day (month_of_day s) 1)) (iso_of_day s) = Inr lines" and rows: "plan_rows plan off lines"
    by (rule compute_cases)
  define q where "q = month_of_day s"
  have y: "1 \<le> q div 12" "q div 12 \<le> 9999" using month_years [OF s(1)] by (simp_all add: q_def)
  have facts: "lines \<noteq> [] \<and> sum_list (map sl_units lines) = T
      \<and> (\<forall>i < length lines. (q + int i) div 12 \<le> 9999 \<and> sl_month (lines ! i) = iso_of_day (month_day (q + int i) 1))"
  proof (cases "is_straight_line (ri_method inp)")
    case True
    obtain ws where ws: "spreadWithInitial inp (iso_of_day (month_day q 1)) ws = Inr lines" "ws \<noteq> []" "length ws \<le> 1200"
      using straight_line_cases [OF lines s(4) True] q_def by blast
    show ?thesis using spread_facts [OF ws(1) assms(3) ws(2) y ws(3)] ws(2) by auto
  next
    case False
    then have "lines = [\<lparr>sl_month = iso_of_day (month_day q 1), sl_units = T\<rparr>]"
      using lines assms(2,3) by (simp add: schedule_lines_def q_def)
    then show ?thesis using y by simp
  qed
  have n: "length plan = length lines" using rows by (simp add: plan_rows_def)
  have row: "rl_sequence (plan ! i) = int i \<and> rl_periodMonth (plan ! i) = iso_of_day (month_day (q + off + int i) 1)
      \<and> rl_planned (plan ! i) = fromUnits (sl_units (lines ! i))
      \<and> rl_cumulative (plan ! i) = fromUnits (sum_list (map sl_units (take (Suc i) lines)))" if "i < length plan" for i
  proof -
    have i: "(q + int i) div 12 \<le> 9999" "sl_month (lines ! i) = iso_of_day (month_day (q + int i) 1)" using facts that n by simp_all
    have "q div 12 \<le> (q + int i) div 12" by (rule zdiv_mono1) simp_all
    then have "1 \<le> (q + int i) div 12" using y(1) by simp
    moreover have "safe_int off" using s(2,3) by simp
    ultimately show ?thesis using rows that n addMonthsStart_month [of "q + int i" off] i
      by (fastforce simp: plan_rows_def add.commute add.left_commute split: if_splits)
  qed
  have prefix: "sum_money (map rl_planned (take (Suc i) plan)) = Inr (rl_cumulative (plan ! i))" if "i < length plan" for i
  proof -
    have "map rl_planned (take (Suc i) plan) = map (\<lambda>l. fromUnits (sl_units l)) (take (Suc i) lines)"
      using n row that by (intro nth_equalityI) simp_all
    then show ?thesis using sum_money_units [OF traverse_toUnits_map] row [OF that] by simp
  qed
  have ne: "plan \<noteq> []" using facts n by auto
  then have "rl_cumulative (last plan) = fromUnits T"
    using row [of "length plan - 1"] facts n by (simp add: last_conv_nth)
  then show ?thesis using ne plan_rows_sum [OF rows] facts row prefix by (intro conjI exI [of _ "q + off"]) auto
qed



definition subscription :: recognition_input where
  "subscription = \<lparr>ri_total = ''1000'', ri_method = Straight_line_daily, ri_startOn = ''2026-01-15'', ri_endOn = None,
     ri_termPeriods = Some 2, ri_startOffsetDays = None, ri_initialAmountPercent = Some ''10'', ri_periodOffset = Some 1,
     ri_percentComplete = None, ri_alreadyRecognized = None, ri_events = None\<rparr>"

lemma subscription_start: "civilDayIndex (ri_startOn subscription) = Inr 20468" "iso_of_day 20468 = ''2026-01-15''" "iso_of_day 20512 = ''2026-02-28''"
  "month_of_day 20468 = 24312" "month_of_day 20512 = 24313" "supported 20468" "supported 20512"
  by code_simp+

lemma subscription_end: "resolveEnd ''2026-01-15'' subscription = Inr ''2026-02-28''"
  by code_simp

lemma subscription_amounts: "toUnits (ri_total subscription) = Inr 10000000"
  "pctOf 10000000 (or_else (ri_initialAmountPercent subscription) ''0'') = Inr 1000000"
  by code_simp+

lemma subscription_returns: "\<exists>plan. computeRecognitionSchedule subscription = Inr plan \<and> length plan = 2"
  using schedule_returns [of subscription 20468 0 1 20512 10000000 1000000] subscription_start subscription_end subscription_amounts
  by (force simp: subscription_def is_straight_line_def)

theorem recognition_schedule_exact_witness:
  "\<exists>plan. computeRecognitionSchedule subscription = Inr plan \<and> sum_money (map rl_planned plan) = Inr (fromUnits 10000000)"
proof -
  obtain plan where p: "computeRecognitionSchedule subscription = Inr plan" using subscription_returns by blast
  have "is_straight_line (ri_method subscription)" by (simp add: subscription_def is_straight_line_def)
  then show ?thesis using recognition_schedule_exact [OF p _ subscription_amounts(1)] p by blast
qed

text \<open>
  \<open>straight_line_prorate_first_last\<close> and \<open>straight_line_daily\<close> are the same method: for every input the two compute the same schedule, or
  refuse it with the same error.  Full months in the middle of the term are weighted by their length in both.
\<close>

theorem prorate_first_last_is_daily:
  "computeRecognitionSchedule (inp\<lparr>ri_method := Straight_line_prorate_first_last\<rparr>)
    = computeRecognitionSchedule (inp\<lparr>ri_method := Straight_line_daily\<rparr>)"
proof -
  let ?p = "inp\<lparr>ri_method := Straight_line_prorate_first_last\<rparr>" and ?d = "inp\<lparr>ri_method := Straight_line_daily\<rparr>"
  have window: "check_window ?p rs = check_window ?d rs" for rs
    by (simp add: check_window_def is_straight_line_def)
  have lines: "schedule_lines ?p st rs = schedule_lines ?d st rs"
    if "shiftRecognitionDate d k = Inr rs" "startOfMonth rs = Inr st" "check_window ?d rs = Inr u" for d k st rs u
  proof -
    note h = that
    obtain s where s: "supported s" "rs = iso_of_day s" using shift_Inr [OF h(1)] by blast
    have st: "st = iso_of_day (month_day (month_of_day s) 1)" using h(2) startOfMonth_day(2) [OF s(1)] s(2) by simp
    have "traverse (prorated_weight st rs e (max 1 span)) (map int [0..<nat (max 1 span)])
        = traverse (daily_weight st rs e (max 1 span)) (map int [0..<nat (max 1 span)])"
      if "resolveEnd rs inp = Inr e" "recognitionMonthSpan rs e = Inr span" for e span
    proof (rule traverse_cong [OF refl])
      have "resolveEnd rs ?d = Inr e" using that(1) by simp
      then have "span \<le> 1200" using \<open>check_window ?d rs = Inr u\<close> that(2)
        by (auto simp: check_window_def is_straight_line_def bindE_Inr_iff ensure_Inr_iff split: if_splits)
      fix i assume "i \<in> set (map int [0..<nat (max 1 span)])"
      then have "0 \<le> i" "i < max 1 span" by auto
      then show "prorated_weight st rs e (max 1 span) i = daily_weight st rs e (max 1 span) i"
        unfolding s(2) st using prorated_is_daily [OF s(1), of i "max 1 span" e] \<open>span \<le> 1200\<close> by simp
    qed
    then show ?thesis unfolding schedule_lines_def spread_months_def Let_def
      by (simp cong: bindE_cong)
  qed
  show ?thesis unfolding computeRecognitionSchedule_def
    by (simp cong: bindE_cong if_cong add: window lines)
qed

text \<open>
  C27: straight-line schedules are always computed.  From a valid start date, a day offset that stays on the calendar, a valid end
  (explicit, or by the term) not before the start and at most 1200 months away, a deferral of at most 1200 periods that
  ends by the year 9999, a readable total and an accepted up-front percentage, the computation returns one row for every month the
  term touches.
\<close>

theorem recognition_schedule_returns:
  assumes "is_straight_line (ri_method inp)" "civilDayIndex (ri_startOn inp) = Inr d"
    and "or_else (ri_startOffsetDays inp) 0 = k" "- 2147483648 \<le> k" "k \<le> 2147483647" "supported (d + k)"
    and "or_else (ri_periodOffset inp) 0 = p" "0 \<le> p" "p \<le> 1200"
    and "\<forall>t. ri_endOn inp = Some t \<longrightarrow> isIsoCalendarDate t" "\<forall>m. ri_termPeriods inp = Some m \<longrightarrow> 1 \<le> m \<and> m \<le> 1200"
    and "resolveEnd (iso_of_day (d + k)) inp = Inr (iso_of_day e)" "supported e" "d + k \<le> e"
    and "month_of_day e - month_of_day (d + k) + 1 \<le> 1200" "(month_of_day e + p) div 12 \<le> 9999"
    and "toUnits (ri_total inp) = Inr T" "pctOf T (or_else (ri_initialAmountPercent inp) ''0'') = Inr I"
  shows "\<exists>plan. computeRecognitionSchedule inp = Inr plan \<and> int (length plan) = month_of_day e - month_of_day (d + k) + 1"
  by (rule schedule_returns [OF assms])

theorem recognition_schedule_returns_witness: "\<exists>plan. computeRecognitionSchedule subscription = Inr plan \<and> length plan = 2"
  using recognition_schedule_returns [of subscription 20468 0 1 20512 10000000 1000000] subscription_start subscription_end subscription_amounts
  by (force simp: subscription_def is_straight_line_def)

text \<open>
  Relative-SSP allocation is complete, exact and fair.  Once every obligation has a readable weight (unit price times quantity at
  twelve decimals, or the booked amount), a total is allocated unless it is nonzero and all weights are zero; the
  allocated amounts add up to the total exactly, and every obligation's amount is less than one ledger unit
  away from its proportional share.
\<close>

theorem relative_ssp_exact:
  assumes "traverse ssp_weight obs = Inr ws" "toUnits tot = Inr T" "T = 0 \<or> \<not> list_all (\<lambda>w. w = 0) ws"
  shows "\<exists>ps. allocateByRelativeSSP tot obs = Inr (map fromUnits ps) \<and> length ps = length obs \<and> sum_list ps = T
    \<and> (\<forall>i < length ps. T = 0 \<and> ps ! i = 0 \<or> \<bar>sum_list ws * ps ! i - T * ws ! i\<bar> < sum_list ws)"
proof -
  have nn: "\<not> list_ex (\<lambda>w. w < 0) ws" by (rule ssp_weights_nonneg [OF assms(1)])
  have pos: "T = 0 \<or> 0 < sum_list ws"
  proof (cases "T = 0")
    case False
    then have "sum_list ws \<noteq> 0" using assms(3) nn sum_list_nonneg_eq_0_iff [of ws] by (force simp: list_all_iff list_ex_iff)
    then show ?thesis using sum_list_pos_weights [OF nn] by simp
  qed simp
  then obtain ps where ps: "apportion T ws Largest_remainder = Inr ps" "length ps = length ws" "sum_list ps = T"
    using nn largest.split_conserves [of ws T] by (metis less_irrefl)
  have "T = 0 \<and> ps ! i = 0 \<or> \<bar>sum_list ws * ps ! i - T * ws ! i\<bar> < sum_list ws" if "i < length ps" for i
  proof (cases "T = 0")
    case True
    then show ?thesis using ps(1,2) that by (cases rule: apportion_Inr_cases [OF ps(1)]) auto
  next
    case False
    then show ?thesis using apportion_near [OF ps(1)] pos ps(2) that by simp
  qed
  moreover have "allocateByRelativeSSP tot obs = Inr (map fromUnits ps)" using assms ps(1) by (auto simp: allocateByRelativeSSP_def)
  ultimately show ?thesis using ps traverse_length [OF assms(1)] by (intro exI [of _ ps]) simp
qed

definition two_part_sale :: "ssp_obligation list" where
  "two_part_sale = [\<lparr>so_ssp = Some ''0.0100'', so_booked = None, so_quantity = Some ''0.5''\<rparr>, \<lparr>so_ssp = None, so_booked = Some ''0.0100'', so_quantity = None\<rparr>]"

theorem relative_ssp_exact_witness:
  "\<exists>ps. allocateByRelativeSSP ''100'' two_part_sale = Inr (map fromUnits ps) \<and> length ps = 2 \<and> sum_list ps = 1000000"
proof -
  have w: "traverse ssp_weight two_part_sale = Inr [5000000000, 10000000000]" by code_simp
  have "length two_part_sale = 2" by (simp add: two_part_sale_def)
  then show ?thesis using relative_ssp_exact [OF w, of "''100''" 1000000] by auto
qed

end
