(* ===== verification/Lifecycles.thy ===== *)
theory Lifecycles
  imports Prelude
begin

text \<open>
  Lifecycles and approvals: the status machines of service visits, jobs and requests
  (\<open>engine/src/service/status.ts\<close>), what pins an approved timesheet week (\<open>engine/src/projects/time-lifecycle.ts\<close>) and how a group of approval
  gates resolves (\<open>engine/src/flows/quorum.ts\<close>).  The status machines share the contract of the locale \<open>lifecycle\<close>.
\<close>

section \<open>Statuses of a visit\<close>

datatype visit_status = Unscheduled | Scheduled | Dispatched | En_route | On_site | Completed | Unable_to_complete | Cancelled

definition VISIT_STATUSES :: "visit_status list" where
  "VISIT_STATUSES = [Unscheduled, Scheduled, Dispatched, En_route, On_site, Completed, Unable_to_complete, Cancelled]"

datatype visit_actor_mode = Technician | Staff

fun VISIT_TRANSITIONS :: "visit_status \<Rightarrow> visit_status list" where
  "VISIT_TRANSITIONS Unscheduled = [Scheduled, Cancelled]"
| "VISIT_TRANSITIONS Scheduled = [Unscheduled, Dispatched, En_route, Cancelled]"
| "VISIT_TRANSITIONS Dispatched = [Unscheduled, Scheduled, En_route, Cancelled]"
| "VISIT_TRANSITIONS En_route = [On_site, Unable_to_complete]"
| "VISIT_TRANSITIONS On_site = [Completed, Unable_to_complete]"
| "VISIT_TRANSITIONS Completed = [On_site]"
| "VISIT_TRANSITIONS Unable_to_complete = []"
| "VISIT_TRANSITIONS Cancelled = []"

definition TECHNICIAN_TARGETS :: "visit_status set" where
  "TECHNICIAN_TARGETS = {En_route, On_site, Completed, Unable_to_complete}"

definition visitTransitionAllowed :: "visit_status \<Rightarrow> visit_status \<Rightarrow> bool" where
  "visitTransitionAllowed from to \<longleftrightarrow> to \<in> set (VISIT_TRANSITIONS from)"

definition visitTransitionPermitted :: "visit_status \<Rightarrow> visit_status \<Rightarrow> visit_actor_mode \<Rightarrow> bool" where
  "visitTransitionPermitted from to mode =
     (if \<not> visitTransitionAllowed from to then False
      else if from = Completed then False
      else if mode = Technician then to \<in> TECHNICIAN_TARGETS
      else True)"

definition nextVisitStatuses :: "visit_status \<Rightarrow> visit_actor_mode \<Rightarrow> visit_status list" where
  "nextVisitStatuses from mode =
     filter (\<lambda>to. to \<noteq> Scheduled \<and> to \<noteq> Unscheduled \<and> visitTransitionPermitted from to mode) VISIT_STATUSES"

definition visitIsBooked :: "visit_status \<Rightarrow> bool" where
  "visitIsBooked status \<longleftrightarrow> status = Scheduled \<or> status = Dispatched \<or> status = En_route \<or> status = On_site"

definition visitIsReschedulable :: "visit_status \<Rightarrow> bool" where
  "visitIsReschedulable status \<longleftrightarrow> status = Unscheduled \<or> status = Scheduled \<or> status = Dispatched"

definition visitIsFinished :: "visit_status \<Rightarrow> bool" where
  "visitIsFinished status \<longleftrightarrow> status = Completed \<or> status = Unable_to_complete \<or> status = Cancelled"

section \<open>Jobs, requests, priorities\<close>

datatype job_status = Job_open | Job_completed | Job_cancelled

fun JOB_TRANSITIONS :: "job_status \<Rightarrow> job_status list" where
  "JOB_TRANSITIONS Job_open = [Job_completed, Job_cancelled]"
| "JOB_TRANSITIONS Job_completed = [Job_open]"
| "JOB_TRANSITIONS Job_cancelled = []"

definition jobTransitionAllowed :: "job_status \<Rightarrow> job_status \<Rightarrow> bool" where
  "jobTransitionAllowed from to \<longleftrightarrow> to \<in> set (JOB_TRANSITIONS from)"

datatype request_status = New | Assessment_scheduled | Assessed | Quoted | Converted | Declined | Request_cancelled

fun REQUEST_TRANSITIONS :: "request_status \<Rightarrow> request_status list" where
  "REQUEST_TRANSITIONS New = [Assessment_scheduled, Assessed, Quoted, Converted, Declined, Request_cancelled]"
| "REQUEST_TRANSITIONS Assessment_scheduled = [New, Assessed, Quoted, Converted, Declined, Request_cancelled]"
| "REQUEST_TRANSITIONS Assessed = [Quoted, Converted, Declined, Request_cancelled]"
| "REQUEST_TRANSITIONS Quoted = [Assessed, Converted, Declined, Request_cancelled]"
| "REQUEST_TRANSITIONS Converted = []"
| "REQUEST_TRANSITIONS Declined = []"
| "REQUEST_TRANSITIONS Request_cancelled = []"

definition requestTransitionAllowed :: "request_status \<Rightarrow> request_status \<Rightarrow> bool" where
  "requestTransitionAllowed from to \<longleftrightarrow> to \<in> set (REQUEST_TRANSITIONS from)"

definition requestIsOpen :: "request_status \<Rightarrow> bool" where
  "requestIsOpen status \<longleftrightarrow> status \<noteq> Converted \<and> status \<noteq> Declined \<and> status \<noteq> Request_cancelled"

datatype service_priority = Low | Normal | High | Urgent

record response_policy =
  urgentResponseHours :: "int option"
  highResponseHours :: "int option"
  normalResponseHours :: "int option"
  lowResponseHours :: "int option"

definition responseHours :: "response_policy \<Rightarrow> service_priority \<Rightarrow> int option" where
  "responseHours policy priority =
     (if priority = Urgent then urgentResponseHours policy
      else if priority = High then highResponseHours policy
      else if priority = Normal then normalResponseHours policy
      else lowResponseHours policy)"

definition priorityRank :: "service_priority \<Rightarrow> int" where
  "priorityRank priority = (if priority = Urgent then 0 else if priority = High then 1 else if priority = Normal then 2 else 3)"

section \<open>Timesheet weeks\<close>

datatype lock_reason = Invoiced | Paid | Costed | Ticketed

definition LOCK_REASONS :: "lock_reason list" where
  "LOCK_REASONS = [Invoiced, Paid, Costed, Ticketed]"

datatype billing_status = Unbilled | Billed

record entry_provenance =
  invoicedByLineId :: "string option"
  payrollBatchRef :: "string option"
  costJournalEntryId :: "string option"
  productionConsumedOperationId :: "string option"
  overheadJournalEntryId :: "string option"
  fieldTicketId :: "string option"
  billingStatus :: "billing_status option"

text \<open>An identifier is truthy when it is present and not empty.\<close>

definition truthy :: "string option \<Rightarrow> bool" where
  "truthy v \<longleftrightarrow> or_else v [] \<noteq> []"

definition lockReasonsFor :: "entry_provenance \<Rightarrow> lock_reason list" where
  "lockReasonsFor entry =
     (if truthy (invoicedByLineId entry) \<or> billingStatus entry = Some Billed then [Invoiced] else [])
     @ (if truthy (payrollBatchRef entry) then [Paid] else [])
     @ (if truthy (costJournalEntryId entry) \<or> truthy (overheadJournalEntryId entry) \<or> truthy (productionConsumedOperationId entry)
        then [Costed] else [])
     @ (if truthy (fieldTicketId entry) then [Ticketed] else [])"

definition weekLockReasons :: "entry_provenance list \<Rightarrow> lock_reason list" where
  "weekLockReasons entries =
     (let found = fold (\<lambda>entry found. fold insert (lockReasonsFor entry) found) entries {} in
      filter (\<lambda>reason. reason \<in> found) LOCK_REASONS)"

record reopen_decision =
  rd_allowed :: bool
  rd_reasons :: "lock_reason list"
  rd_lockedCount :: nat

definition canReopenWeek :: "entry_provenance list \<Rightarrow> reopen_decision" where
  "canReopenWeek entries =
     (let lockedCount = length (filter (\<lambda>entry. length (lockReasonsFor entry) > 0) entries);
          reasons = weekLockReasons entries
      in \<lparr>rd_allowed = (lockedCount = 0), rd_reasons = reasons, rd_lockedCount = lockedCount\<rparr>)"

definition isReopenableStatus :: "string \<Rightarrow> bool" where
  "isReopenableStatus status \<longleftrightarrow> status = ''approved''"

section \<open>Approval gates\<close>

datatype gate_quorum = Any | All
datatype gate_decision = Approved_decision | Rejected_decision
datatype gate_status = Pending | Approved | Rejected | Gate_cancelled | Escalated
datatype gate_branch = Approve | Reject

record sibling_gate =
  sg_id :: string
  sg_escalatedFromGateId :: "string option"
  sg_status :: gate_status

record quorum_outcome =
  qo_resume :: "gate_branch option"
  qo_cancelIds :: "string list"

definition cancellable :: "sibling_gate list \<Rightarrow> string list" where
  "cancellable siblings = map sg_id (filter (\<lambda>s. sg_status s = Pending \<or> sg_status s = Escalated) siblings)"

definition approvedReplacements :: "sibling_gate list \<Rightarrow> string set" where
  "approvedReplacements siblings =
     set (map (\<lambda>s. or_else (sg_escalatedFromGateId s) []) (filter (\<lambda>s. sg_status s = Approved \<and> truthy (sg_escalatedFromGateId s)) siblings))"

definition resolveQuorumOutcome :: "gate_quorum \<Rightarrow> gate_decision \<Rightarrow> sibling_gate list \<Rightarrow> quorum_outcome result" where
  "resolveQuorumOutcome quorum decision siblings =
     (if quorum = Any
      then Inr \<lparr>qo_resume = Some (if decision = Approved_decision then Approve else Reject), qo_cancelIds = cancellable siblings\<rparr>
      else if decision = Rejected_decision then Inr \<lparr>qo_resume = Some Reject, qo_cancelIds = cancellable siblings\<rparr>
      else if list_ex (\<lambda>s. sg_status s = Pending) siblings then Inr \<lparr>qo_resume = None, qo_cancelIds = []\<rparr>
      else if list_ex (\<lambda>s. sg_status s = Rejected) siblings then Inr \<lparr>qo_resume = Some Reject, qo_cancelIds = cancellable siblings\<rparr>
      else if list_ex (\<lambda>s. sg_status s \<noteq> Approved \<and> sg_id s \<notin> approvedReplacements siblings) siblings
      then Inl (Error ''This approval group has an unresolved required decision. Recall the submission and review its Flow before resubmitting.'')
      else Inr \<lparr>qo_resume = Some Approve, qo_cancelIds = cancellable siblings\<rparr>)"

section \<open>The contract of a lifecycle\<close>

text \<open>A lifecycle names the moves it allows and the states it calls closed; a closed state is exactly one with no move left.\<close>

locale lifecycle =
  fixes allowed :: "'s \<Rightarrow> 's \<Rightarrow> bool" and closed :: "'s \<Rightarrow> bool"
  assumes closed_iff: "closed s \<longleftrightarrow> (\<forall>t. \<not> allowed s t)"
begin

lemma closed_absorbing: "allowed\<^sup>*\<^sup>* s t \<Longrightarrow> closed s \<Longrightarrow> t = s"
  by (induction rule: converse_rtranclp_induct) (auto simp: closed_iff)

lemma open_moves: "\<not> closed s \<Longrightarrow> \<exists>t. allowed s t"
  by (simp add: closed_iff)

text \<open>A property of states that every move keeps holds of everything reachable.\<close>

lemma reachable_invariant:
  assumes "allowed\<^sup>*\<^sup>* s t" "I s" "\<And>s t. I s \<Longrightarrow> allowed s t \<Longrightarrow> I t"
  shows "I t"
  using assms by (induction rule: rtranclp_induct) auto

end

text \<open>In some lifecycles every open state can still be brought to a close.\<close>

locale closable_lifecycle = lifecycle +
  assumes close_in_reach: "\<not> closed s \<Longrightarrow> \<exists>t. allowed s t \<and> closed t"
begin

lemma always_closable: "\<exists>t. allowed\<^sup>*\<^sup>* s t \<and> closed t"
  using close_in_reach [of s] by (cases "closed s") auto

end

text \<open>The moves people make on a visit: some actor is permitted to make them.\<close>

inductive visit_move :: "visit_status \<Rightarrow> visit_status \<Rightarrow> bool" where
  "visitTransitionPermitted from to mode \<Longrightarrow> visit_move from to"

lemma visit_move_iff: "visit_move from to \<longleftrightarrow> visitTransitionAllowed from to \<and> from \<noteq> Completed"
  by (auto simp: visit_move.simps visitTransitionPermitted_def)

lemmas visit_simps = visit_move_iff visitTransitionAllowed_def visitIsFinished_def

interpretation visits: closable_lifecycle visit_move visitIsFinished
proof
  show "visitIsFinished s \<longleftrightarrow> (\<forall>t. \<not> visit_move s t)" for s by (cases s) (auto simp: visit_simps)
  show "\<exists>t. visit_move s t \<and> visitIsFinished t" if "\<not> visitIsFinished s" for s using that by (cases s) (auto simp: visit_simps)
qed

interpretation requests: closable_lifecycle requestTransitionAllowed "\<lambda>s. \<not> requestIsOpen s"
proof
  show "\<not> requestIsOpen s \<longleftrightarrow> (\<forall>t. \<not> requestTransitionAllowed s t)" for s
    by (cases s) (auto simp: requestTransitionAllowed_def requestIsOpen_def)
  show "\<exists>t. requestTransitionAllowed s t \<and> \<not> requestIsOpen t" if "\<not> \<not> requestIsOpen s" for s
    using that by (cases s) (auto simp: requestTransitionAllowed_def requestIsOpen_def)
qed

interpretation jobs: lifecycle jobTransitionAllowed "\<lambda>s. s = Job_cancelled"
proof
  show "s = Job_cancelled \<longleftrightarrow> (\<forall>t. \<not> jobTransitionAllowed s t)" for s by (cases s) (auto simp: jobTransitionAllowed_def)
qed

section \<open>Orders of the listings\<close>

text \<open>Statuses in lifecycle order and lock reasons in reporting order, as the source's arrays list them.\<close>

instantiation visit_status :: linorder
begin

definition less_eq_visit_status :: "visit_status \<Rightarrow> visit_status \<Rightarrow> bool" where
  "less_eq_visit_status a b \<longleftrightarrow> findIndex ((=) a) VISIT_STATUSES \<le> findIndex ((=) b) VISIT_STATUSES"

definition less_visit_status :: "visit_status \<Rightarrow> visit_status \<Rightarrow> bool" where
  "less_visit_status a b \<longleftrightarrow> findIndex ((=) a) VISIT_STATUSES < findIndex ((=) b) VISIT_STATUSES"

instance
proof
  fix a b :: visit_status
  assume "a \<le> b" "b \<le> a"
  then have "findIndex ((=) a) VISIT_STATUSES = findIndex ((=) b) VISIT_STATUSES" by (simp add: less_eq_visit_status_def)
  then show "a = b" by (cases a; cases b) (simp_all add: findIndex_def VISIT_STATUSES_def Let_def)
qed (auto simp: less_eq_visit_status_def less_visit_status_def)

end

instantiation lock_reason :: linorder
begin

definition less_eq_lock_reason :: "lock_reason \<Rightarrow> lock_reason \<Rightarrow> bool" where
  "less_eq_lock_reason a b \<longleftrightarrow> findIndex ((=) a) LOCK_REASONS \<le> findIndex ((=) b) LOCK_REASONS"

definition less_lock_reason :: "lock_reason \<Rightarrow> lock_reason \<Rightarrow> bool" where
  "less_lock_reason a b \<longleftrightarrow> findIndex ((=) a) LOCK_REASONS < findIndex ((=) b) LOCK_REASONS"

instance
proof
  fix a b :: lock_reason
  assume "a \<le> b" "b \<le> a"
  then have "findIndex ((=) a) LOCK_REASONS = findIndex ((=) b) LOCK_REASONS" by (simp add: less_eq_lock_reason_def)
  then show "a = b" by (cases a; cases b) (simp_all add: findIndex_def LOCK_REASONS_def Let_def)
qed (auto simp: less_eq_lock_reason_def less_lock_reason_def)

end

lemma listings_strict: "sorted_wrt (<) VISIT_STATUSES" "sorted_wrt (<) LOCK_REASONS"
  by (simp_all add: VISIT_STATUSES_def LOCK_REASONS_def less_visit_status_def less_lock_reason_def findIndex_def Let_def)

lemma listings_complete: "set VISIT_STATUSES = UNIV" "set LOCK_REASONS = UNIV"
proof -
  have "x \<in> set VISIT_STATUSES" for x by (cases x) (simp_all add: VISIT_STATUSES_def)
  moreover have "x \<in> set LOCK_REASONS" for x by (cases x) (simp_all add: LOCK_REASONS_def)
  ultimately show "set VISIT_STATUSES = UNIV" "set LOCK_REASONS = UNIV" by auto
qed

section \<open>Histories of a visit\<close>

text \<open>The statuses a visit has had, latest first.\<close>

inductive visit_history :: "visit_status list \<Rightarrow> bool" where
  created: "visit_history [Unscheduled]"
| moved: "visit_history (s # h) \<Longrightarrow> visit_move s t \<Longrightarrow> visit_history (t # s # h)"

inductive_cases visit_historyE: "visit_history (t # h)"

lemma history_needs:
  "visit_history h \<Longrightarrow> (hd h \<in> {On_site, Completed, Unable_to_complete} \<longrightarrow> En_route \<in> set h)
    \<and> (hd h = Completed \<longrightarrow> On_site \<in> set h) \<and> (En_route \<in> set h \<longrightarrow> \<not> visitIsReschedulable (hd h) \<and> hd h \<noteq> Cancelled)"
proof (induction rule: visit_history.induct)
  case created
  then show ?case by simp
next
  case (moved s h t)
  then show ?case by (cases s) (auto simp: visit_simps visitIsReschedulable_def)
qed

section \<open>Lock reasons of a week\<close>

lemma fold_insert_set: "fold insert xs A = A \<union> set xs"
  by (induction xs arbitrary: A) auto

lemma found_reasons: "fold (\<lambda>entry found. fold insert (lockReasonsFor entry) found) entries A = A \<union> (\<Union>e \<in> set entries. set (lockReasonsFor e))"
  by (induction entries arbitrary: A) (auto simp: fold_insert_set)

lemma set_weekLockReasons: "set (weekLockReasons entries) = (\<Union>e \<in> set entries. set (lockReasonsFor e))"
  by (auto simp: weekLockReasons_def found_reasons listings_complete)

section \<open>Properties\<close>

text \<open>
  C39: a visit's history has the field work in order.  Whatever moves technicians and staff make from the creation of a visit, a visit that is
  on site, completed or could not be completed was en route before, a completed visit was on site before,
  and once someone was en route the visit is never rescheduled or cancelled.
\<close>

theorem visit_history_ordered:
  assumes "visit_history h"
  shows "(hd h \<in> {On_site, Completed, Unable_to_complete} \<longrightarrow> En_route \<in> set h) \<and> (hd h = Completed \<longrightarrow> On_site \<in> set h)
    \<and> (En_route \<in> set h \<longrightarrow> \<not> visitIsReschedulable (hd h) \<and> hd h \<noteq> Cancelled)"
  using history_needs [OF assms] .

theorem visit_history_ordered_witness: "visit_history [Completed, On_site, En_route, Scheduled, Unscheduled] \<and> On_site \<in> set [Completed, On_site, En_route, Scheduled, Unscheduled]"
proof -
  have h: "visit_history [Completed, On_site, En_route, Scheduled, Unscheduled]"
    by (intro visit_history.intros) (simp_all add: visit_simps)
  show ?thesis using visit_history_ordered [OF h] h by simp
qed

text \<open>
  Finished means finished, open means it can be finished.  For visits and for requests, the statuses the code calls finished (for
  requests: not open) are exactly those no move leads out of, nothing else is reachable from them, and from every
  status some finished status is in reach; a cancelled job stays cancelled.
\<close>

theorem lifecycles_close:
  "(visitIsFinished v \<longleftrightarrow> (\<forall>t. \<not> visit_move v t)) \<and> (\<exists>t. visit_move\<^sup>*\<^sup>* v t \<and> visitIsFinished t)
   \<and> (requestIsOpen r \<longleftrightarrow> (\<exists>t. requestTransitionAllowed r t)) \<and> (\<exists>t. requestTransitionAllowed\<^sup>*\<^sup>* r t \<and> \<not> requestIsOpen t)
   \<and> (visit_move\<^sup>*\<^sup>* v v' \<longrightarrow> visitIsFinished v \<longrightarrow> v' = v) \<and> (requestTransitionAllowed\<^sup>*\<^sup>* r r' \<longrightarrow> \<not> requestIsOpen r \<longrightarrow> r' = r)
   \<and> (jobTransitionAllowed\<^sup>*\<^sup>* Job_cancelled j \<longrightarrow> j = Job_cancelled)"
  using visits.closed_iff [of v] visits.always_closable [of v] visits.closed_absorbing [of v v']
    requests.closed_iff [of r] requests.always_closable [of r] requests.closed_absorbing [of r r'] jobs.closed_absorbing [of Job_cancelled j]
  by blast

theorem lifecycles_close_witness: "requestIsOpen Quoted \<and> (\<exists>t. requestTransitionAllowed Quoted t) \<and> \<not> visit_move Cancelled Scheduled"
  using lifecycles_close [of Cancelled Quoted Cancelled Quoted Job_cancelled] by (simp add: requestIsOpen_def visitIsFinished_def)

text \<open>
  The offered moves are the permitted ones.  \<open>nextVisitStatuses\<close> lists, in lifecycle order and without repetition, exactly the field statuses the actor may
  move the visit to; a technician is offered only field statuses, and staff are offered a move exactly while the visit is not finished.
\<close>

theorem nextVisitStatuses_permitted:
  "set (nextVisitStatuses s m) = {t. visitTransitionPermitted s t m \<and> t \<noteq> Scheduled \<and> t \<noteq> Unscheduled}
   \<and> sorted_wrt (<) (nextVisitStatuses s m) \<and> set (nextVisitStatuses s Technician) \<subseteq> TECHNICIAN_TARGETS
   \<and> (nextVisitStatuses s Staff = [] \<longleftrightarrow> visitIsFinished s)"
proof -
  have "nextVisitStatuses s Staff = [] \<longleftrightarrow> visitIsFinished s"
    by (cases s) (simp_all add: nextVisitStatuses_def VISIT_STATUSES_def visitTransitionPermitted_def visitTransitionAllowed_def visitIsFinished_def)
  moreover have "sorted_wrt (<) (nextVisitStatuses s m)" using listings_strict(1) by (simp add: nextVisitStatuses_def sorted_wrt_filter)
  ultimately show ?thesis
    by (auto simp: nextVisitStatuses_def listings_complete visitTransitionPermitted_def split: if_splits)
qed

text \<open>
  A week is reopened only when nothing holds it.  \<open>canReopenWeek\<close> allows a week exactly when no entry was invoiced, paid, costed or ticketed; the
  reasons it gives are those of all entries together, each once and in reporting order, and there are none exactly when
  the week is allowed, and the count is the number of pinned entries.
\<close>

theorem canReopenWeek_exact:
  "(rd_allowed (canReopenWeek entries) \<longleftrightarrow> (\<forall>e \<in> set entries. lockReasonsFor e = []))
   \<and> (rd_allowed (canReopenWeek entries) \<longleftrightarrow> rd_reasons (canReopenWeek entries) = [])
   \<and> set (rd_reasons (canReopenWeek entries)) = (\<Union>e \<in> set entries. set (lockReasonsFor e))
   \<and> sorted_wrt (<) (rd_reasons (canReopenWeek entries))
   \<and> rd_lockedCount (canReopenWeek entries) = length (filter (\<lambda>e. lockReasonsFor e \<noteq> []) entries)"
proof -
  have a: "rd_allowed (canReopenWeek entries) \<longleftrightarrow> (\<forall>e \<in> set entries. lockReasonsFor e = [])"
    by (auto simp: canReopenWeek_def filter_empty_conv)
  have r: "rd_reasons (canReopenWeek entries) = weekLockReasons entries" by (simp add: canReopenWeek_def Let_def)
  have "weekLockReasons entries = [] \<longleftrightarrow> (\<forall>e \<in> set entries. lockReasonsFor e = [])"
    using set_weekLockReasons [of entries] by (metis (mono_tags, lifting) SUP_bot_conv(2) set_empty)
  moreover have "sorted_wrt (<) (weekLockReasons entries)" using listings_strict(2) by (simp add: weekLockReasons_def Let_def sorted_wrt_filter)
  moreover have "rd_lockedCount (canReopenWeek entries) = length (filter (\<lambda>e. lockReasonsFor e \<noteq> []) entries)"
    by (simp add: canReopenWeek_def Let_def)
  ultimately show ?thesis unfolding a r using set_weekLockReasons by simp
qed

definition billed_import :: entry_provenance where
  "billed_import = \<lparr>invoicedByLineId = None, payrollBatchRef = None, costJournalEntryId = Some [], productionConsumedOperationId = None,
     overheadJournalEntryId = None, fieldTicketId = Some ''T-7'', billingStatus = Some Billed\<rparr>"

theorem canReopenWeek_exact_witness:
  "\<not> rd_allowed (canReopenWeek [billed_import]) \<and> rd_lockedCount (canReopenWeek [billed_import]) = 1"
proof -
  have "lockReasonsFor billed_import = [Invoiced, Ticketed]" by code_simp
  then show ?thesis using canReopenWeek_exact [of "[billed_import]"] by simp
qed

text \<open>
  An \<open>all\<close> quorum approves only unanimously.  Under \<open>all\<close>, the approve branch resumes exactly when the decision approves, nobody is pending, nobody rejected, and every
  gate is approved or was replaced by an approved gate; it waits exactly when the decision approves and someone is
  pending; a rejecting decision always resumes the reject branch; and a resolved group cancels exactly its undecided and
  escalated gates.  Under \<open>any\<close> the first decision wins.
\<close>

theorem quorum_all_unanimous:
  "((\<exists>cs. resolveQuorumOutcome All d sibs = Inr \<lparr>qo_resume = Some Approve, qo_cancelIds = cs\<rparr>)
      \<longleftrightarrow> d = Approved_decision \<and> (\<forall>s \<in> set sibs. sg_status s \<noteq> Pending \<and> sg_status s \<noteq> Rejected
        \<and> (sg_status s = Approved \<or> (\<exists>r \<in> set sibs. sg_status r = Approved \<and> sg_id s \<noteq> [] \<and> sg_escalatedFromGateId r = Some (sg_id s)))))
   \<and> ((\<exists>cs. resolveQuorumOutcome All d sibs = Inr \<lparr>qo_resume = None, qo_cancelIds = cs\<rparr>)
      \<longleftrightarrow> d = Approved_decision \<and> (\<exists>s \<in> set sibs. sg_status s = Pending))
   \<and> (\<forall>q b cs. resolveQuorumOutcome q d sibs = Inr \<lparr>qo_resume = Some b, qo_cancelIds = cs\<rparr> \<longrightarrow> cs = cancellable sibs)
   \<and> resolveQuorumOutcome All Rejected_decision sibs = Inr \<lparr>qo_resume = Some Reject, qo_cancelIds = cancellable sibs\<rparr>
   \<and> resolveQuorumOutcome Any d sibs = Inr \<lparr>qo_resume = Some (if d = Approved_decision then Approve else Reject), qo_cancelIds = cancellable sibs\<rparr>"
proof -
  have rep: "x \<in> approvedReplacements sibs \<longleftrightarrow> (\<exists>r \<in> set sibs. sg_status r = Approved \<and> x \<noteq> [] \<and> sg_escalatedFromGateId r = Some x)" for x
    by (auto simp: approvedReplacements_def truthy_def or_else_def image_iff split: option.splits)
  show ?thesis by (cases d) (auto simp: resolveQuorumOutcome_def list_ex_iff rep [symmetric])
qed

definition escalated_group :: "sibling_gate list" where
  "escalated_group = [\<lparr>sg_id = ''a'', sg_escalatedFromGateId = None, sg_status = Approved\<rparr>,
     \<lparr>sg_id = ''b'', sg_escalatedFromGateId = None, sg_status = Escalated\<rparr>,
     \<lparr>sg_id = ''c'', sg_escalatedFromGateId = Some ''b'', sg_status = Approved\<rparr>]"

theorem quorum_all_unanimous_witness:
  "\<exists>cs. resolveQuorumOutcome All Approved_decision escalated_group = Inr \<lparr>qo_resume = Some Approve, qo_cancelIds = cs\<rparr>"
  using quorum_all_unanimous [of Approved_decision escalated_group] by (simp add: escalated_group_def)

end
