(* ===== verification/Journal_Balance.thy ===== *)
theory Journal_Balance
  imports Money Exact_Decimal
begin

text \<open>
  The last checks before a ledger write, \<open>engine/src/journal/posting-invariants.ts\<close>: which projected legs are kept, that the kept legs balance in
  functional currency in total and for every subsidiary, and that credit memos are stated in their own direction.
\<close>

section \<open>Legs\<close>

text \<open>What the checks read of a line: its money and its measurement; the final check reads its legal entity too.\<close>

record measured_leg =
  kl_amount :: string
  kl_quantity :: "string option"
  kl_unit :: "string option"

record kernel_leg = measured_leg +
  kl_subsidiaryId :: string

text \<open>\<open>canonicalDecimal(canonicalDecimal(quantity, 8), 4)\<close>: an absent or unreadable quantity is \<open>null\<close>.\<close>

definition measured_quantity :: "string option \<Rightarrow> string option" where
  "measured_quantity quantity = Option.bind (Option.bind quantity (\<lambda>q. canonicalDecimal q 8)) (\<lambda>c. canonicalDecimal c 4)"

text \<open>\<open>quantity !== null && toUnits(quantity) !== 0n\<close>\<close>

definition nonzero_quantity :: "string option \<Rightarrow> bool result" where
  "nonzero_quantity q = (case q of None \<Rightarrow> Inr False | Some t \<Rightarrow> bindE (toUnits t) (\<lambda>u. Inr (u \<noteq> 0)))"

definition isMeasurementLeg :: "'a measured_leg_scheme \<Rightarrow> bool result" where
  "isMeasurementLeg line = (let quantity = measured_quantity (kl_quantity line) in
     bindE (isZero (kl_amount line)) (\<lambda>z.
       if z \<and> trim (or_else (kl_unit line) []) \<noteq> [] then nonzero_quantity quantity else Inr False))"

definition keeps_leg :: "bool \<Rightarrow> 'a measured_leg_scheme \<Rightarrow> bool result" where
  "keeps_leg statistical line = bindE (isZero (kl_amount line)) (\<lambda>z.
     if \<not> z then Inr True
     else if statistical \<and> or_else (kl_quantity line) [] \<noteq> [] then Inr True
     else isMeasurementLeg line)"

definition retainedKernelLines :: "'a measured_leg_scheme list \<Rightarrow> bool \<Rightarrow> 'a measured_leg_scheme list result" where
  "retainedKernelLines lines statistical =
     bindE (foldE (\<lambda>kept line. bindE (keeps_leg statistical line) (\<lambda>k. Inr (if k then kept @ [line] else kept))) [] lines) (\<lambda>kept.
     bindE (if length kept = 1 then (if statistical then Inr True else isMeasurementLeg (hd kept)) else Inr False) (\<lambda>single_ok.
     if length kept < 2 \<and> \<not> single_ok then Inl (PostingError ''posting produced fewer than 2 lines'') else Inr kept))"

text \<open>\<open>bySubsidiary\<close>: a \<open>Map\<close> in insertion order from subsidiary to its amounts.\<close>

fun push_amount :: "string \<Rightarrow> string \<Rightarrow> (string \<times> string list) list \<Rightarrow> (string \<times> string list) list" where
  "push_amount k a [] = [(k, [a])]"
| "push_amount k a ((k', as) # m) = (if k = k' then (k', as @ [a]) # m else (k', as) # push_amount k a m)"

definition by_subsidiary :: "kernel_leg list \<Rightarrow> (string \<times> string list) list" where
  "by_subsidiary lines = fold (\<lambda>line m. push_amount (kl_subsidiaryId line) (kl_amount line) m) lines []"

definition assert_balanced :: "string list \<Rightarrow> error \<Rightarrow> unit result" where
  "assert_balanced amounts e = bindE (sum_money amounts) (\<lambda>t. bindE (isZero t) (\<lambda>z. ensure z e))"

definition assertFinalKernelBalance :: "kernel_leg list \<Rightarrow> unit result" where
  "assertFinalKernelBalance lines =
     bindE (if length lines = 1 then isMeasurementLeg (hd lines) else Inr False) (\<lambda>measurement.
     if length lines < 2 \<and> \<not> measurement then Inl (PostingError ''posting produced fewer than 2 lines'')
     else bindE (assert_balanced (map kl_amount lines) (PostingError ''functional-currency journal does not balance (sum='')) (\<lambda>_.
       foldE (\<lambda>_ (_, amounts). assert_balanced amounts (PostingError ''functional-currency journal does not balance for subsidiary ''))
         () (by_subsidiary lines)))"

datatype credit_kind = Customer_credit | Cash_refund | Vendor_credit | Other_kind

definition assertCreditMemoDirection :: "credit_kind \<Rightarrow> string \<Rightarrow> bool \<Rightarrow> unit result" where
  "assertCreditMemoDirection kind tot migration =
     (if kind = Other_kind \<or> migration then Inr ()
      else bindE (toUnits tot) (\<lambda>u. ensure (\<not> u < 0) (PostingError (case kind of
          Customer_credit \<Rightarrow> ''a credit memo must carry a positive total; a negative balance owed by the customer is an invoice''
        | Cash_refund \<Rightarrow> ''a cash refund must carry a positive total; money taken from the customer is a cash sale''
        | _ \<Rightarrow> ''a credit memo must carry a positive total; a negative balance owed to the vendor is a bill''))))"

section \<open>Balances\<close>

text \<open>The units of a leg, and the balance of a subsidiary over a list of legs.\<close>

definition leg_units :: "'a measured_leg_scheme \<Rightarrow> int" where
  "leg_units line = (case toUnits (kl_amount line) of Inr u \<Rightarrow> u | Inl _ \<Rightarrow> 0)"

definition subsidiary_balance :: "kernel_leg list \<Rightarrow> string \<Rightarrow> int" where
  "subsidiary_balance lines s = sum_list (map leg_units (filter (\<lambda>l. kl_subsidiaryId l = s) lines))"

definition readable :: "'a measured_leg_scheme list \<Rightarrow> bool" where
  "readable lines \<longleftrightarrow> (\<forall>l \<in> set lines. \<exists>u. toUnits (kl_amount l) = Inr u)"

lemma leg_units_Inr: "toUnits (kl_amount l) = Inr u \<Longrightarrow> leg_units l = u"
  by (simp add: leg_units_def)

lemma readable_units: "readable lines \<Longrightarrow> l \<in> set lines \<Longrightarrow> toUnits (kl_amount l) = Inr (leg_units l)"
  by (auto simp: readable_def leg_units_def split: sum.splits)

lemma assert_balanced_units:
  "(\<And>l. l \<in> set lines \<Longrightarrow> toUnits (kl_amount l) = Inr (leg_units l))
    \<Longrightarrow> assert_balanced (map kl_amount lines) e = ensure (sum_list (map leg_units lines) = 0) e"
proof -
  assume a: "\<And>l. l \<in> set lines \<Longrightarrow> toUnits (kl_amount l) = Inr (leg_units l)"
  have "traverse toUnits (map kl_amount lines) = Inr (map leg_units lines)"
    unfolding traverse_map by (rule traverse_map_Inr) (rule a)
  then show ?thesis by (simp add: assert_balanced_def sum_money_units isZero_units)
qed

lemma push_amount_keys: "set (map fst (push_amount k a m)) = insert k (set (map fst m))"
proof (induction m)
  case (Cons p m)
  obtain k' as where p: "p = (k', as)" by (cases p)
  show ?case using Cons by (simp add: p insert_commute)
qed simp

lemma push_amount_distinct: "distinct (map fst m) \<Longrightarrow> distinct (map fst (push_amount k a m))"
proof (induction m)
  case (Cons p m)
  obtain k' as where p: "p = (k', as)" by (cases p)
  show ?case using Cons push_amount_keys [of k a m] by (auto simp: p)
qed simp

lemma push_amount_map_of: "map_of (push_amount k a m) s = (if s = k then Some (or_else (map_of m k) [] @ [a]) else map_of m s)"
proof (induction m)
  case (Cons p m)
  obtain k' as where p: "p = (k', as)" by (cases p)
  show ?case using Cons by (cases "s = k") (auto simp: p)
qed simp

lemma by_subsidiary_groups:
  "distinct (map fst (by_subsidiary lines)) \<and> set (map fst (by_subsidiary lines)) = kl_subsidiaryId ` set lines
    \<and> (\<forall>s xs. map_of (by_subsidiary lines) s = Some xs \<longrightarrow> xs = map kl_amount (filter (\<lambda>l. kl_subsidiaryId l = s) lines))"
proof (induction lines rule: rev_induct)
  case Nil
  then show ?case by (simp add: by_subsidiary_def)
next
  case (snoc l lines)
  let ?m = "by_subsidiary lines" and ?k = "kl_subsidiaryId l"
  have d: "distinct (map fst ?m)" "set (map fst ?m) = kl_subsidiaryId ` set lines"
    and g: "\<And>s xs. map_of ?m s = Some xs \<Longrightarrow> xs = map kl_amount (filter (\<lambda>l. kl_subsidiaryId l = s) lines)" using snoc by simp_all
  have step: "by_subsidiary (lines @ [l]) = push_amount ?k (kl_amount l) ?m" by (simp add: by_subsidiary_def)
  have old: "or_else (map_of ?m ?k) [] = map kl_amount (filter (\<lambda>l. kl_subsidiaryId l = ?k) lines)"
  proof (cases "map_of ?m ?k")
    case None
    then have "?k \<notin> kl_subsidiaryId ` set lines" using d(2) by (simp add: map_of_eq_None_iff)
    then show ?thesis using None by (auto simp: filter_empty_conv image_iff)
  next
    case (Some xs)
    then show ?thesis using g [OF Some] by simp
  qed
  have "map_of (push_amount ?k (kl_amount l) ?m) s = Some xs \<Longrightarrow> xs = map kl_amount (filter (\<lambda>l. kl_subsidiaryId l = s) (lines @ [l]))" for s xs
    using g [of s xs] old by (auto simp: push_amount_map_of split: if_splits)
  then show ?case unfolding step using push_amount_distinct [OF d(1)] push_amount_keys [of ?k "kl_amount l" ?m] d(2) by simp
qed

lemma foldE_checks: "foldE (\<lambda>_ x. f x) () xs = Inr () \<longleftrightarrow> (\<forall>x \<in> set xs. f x = Inr ())"
  by (induction xs) (auto simp: bindE_Inr_iff)

lemma subsidiaries_balanced:
  assumes "readable lines"
  shows "foldE (\<lambda>_ (_, amounts). assert_balanced amounts e) () (by_subsidiary lines) = Inr () \<longleftrightarrow> (\<forall>s. subsidiary_balance lines s = 0)"
proof -
  have each: "assert_balanced xs e = ensure (subsidiary_balance lines s = 0) e" if "(s, xs) \<in> set (by_subsidiary lines)" for s xs
  proof -
    have "xs = map kl_amount (filter (\<lambda>l. kl_subsidiaryId l = s) lines)" using by_subsidiary_groups [of lines] that by (metis map_of_is_SomeI)
    then show ?thesis using assert_balanced_units [of "filter (\<lambda>l. kl_subsidiaryId l = s) lines" e] readable_units [OF assms]
      by (simp add: subsidiary_balance_def)
  qed
  have other: "subsidiary_balance lines s = 0" if "s \<notin> set (map fst (by_subsidiary lines))" for s
  proof -
    have "filter (\<lambda>l. kl_subsidiaryId l = s) lines = []" using by_subsidiary_groups [of lines] that by (auto simp: filter_empty_conv)
    then show ?thesis by (simp add: subsidiary_balance_def)
  qed
  have "foldE (\<lambda>_ (_, amounts). assert_balanced amounts e) () (by_subsidiary lines) = Inr ()
      \<longleftrightarrow> (\<forall>(s, xs) \<in> set (by_subsidiary lines). assert_balanced xs e = Inr ())"
    unfolding foldE_checks by (auto split: prod.splits)
  also have "\<dots> \<longleftrightarrow> (\<forall>(s, xs) \<in> set (by_subsidiary lines). subsidiary_balance lines s = 0)"
    using each by (auto simp: ensure_Inr_iff)
  also have "\<dots> \<longleftrightarrow> (\<forall>s. subsidiary_balance lines s = 0)" using other by (force simp: image_iff)
  finally show ?thesis .
qed

lemma total_by_subsidiary:
  "sum_list (map leg_units lines) = (\<Sum>s \<in> kl_subsidiaryId ` set lines. subsidiary_balance lines s)"
proof -
  have "sum_list (map leg_units lines) = (\<Sum>s \<in> S. subsidiary_balance lines s)" if "finite S" "kl_subsidiaryId ` set lines \<subseteq> S" for S
    using that(2)
  proof (induction lines)
    case Nil
    then show ?case by (simp add: subsidiary_balance_def)
  next
    case (Cons l lines)
    have "(\<Sum>s \<in> S. subsidiary_balance (l # lines) s) = (\<Sum>s \<in> S. (if s = kl_subsidiaryId l then leg_units l else 0) + subsidiary_balance lines s)"
      by (rule sum.cong) (auto simp: subsidiary_balance_def)
    also have "\<dots> = leg_units l + (\<Sum>s \<in> S. subsidiary_balance lines s)"
      using Cons.prems that(1) by (simp add: sum.distrib sum.delta)
    finally show ?case using Cons by simp
  qed
  then show ?thesis by blast
qed

lemma final_balance_iff:
  assumes "readable lines"
  shows "assertFinalKernelBalance lines = Inr () \<longleftrightarrow>
    (2 \<le> length lines \<or> (\<exists>l. lines = [l] \<and> isMeasurementLeg l = Inr True)) \<and> (\<forall>s. subsidiary_balance lines s = 0)"
proof -
  have tot: "(\<forall>s. subsidiary_balance lines s = 0) \<Longrightarrow> sum_list (map leg_units lines) = 0" by (simp add: total_by_subsidiary)
  have checks: "bindE (assert_balanced (map kl_amount lines) e) (\<lambda>_.
      foldE (\<lambda>_ (_, amounts). assert_balanced amounts e') () (by_subsidiary lines)) = Inr () \<longleftrightarrow> (\<forall>s. subsidiary_balance lines s = 0)" for e e'
    using subsidiaries_balanced [OF assms, of e'] assert_balanced_units [of lines e] readable_units [OF assms] tot
    by (auto simp: bindE_Inr_iff ensure_Inr_iff)
  have "lines = [hd lines]" if "length lines = 1" using that by (cases lines) auto
  then show ?thesis unfolding assertFinalKernelBalance_def using checks
    by (cases "length lines = 1"; cases "length lines < 2") (auto simp: bindE_Inr_iff split: if_splits)
qed

section \<open>Kept legs\<close>

lemma kept_is_filter:
  "foldE (\<lambda>kept line. bindE (keeps_leg st line) (\<lambda>k. Inr (if k then kept @ [line] else kept))) acc lines = Inr kept
    \<Longrightarrow> kept = acc @ filter (\<lambda>l. keeps_leg st l = Inr True) lines \<and> (\<forall>l \<in> set lines. \<exists>k. keeps_leg st l = Inr k)"
  by (induction lines arbitrary: acc) (fastforce simp: bindE_Inr_iff)+

lemma dropped_is_zero: "keeps_leg st l = Inr False \<Longrightarrow> leg_units l = 0"
  by (auto simp: keeps_leg_def isZero_def leg_units_def bindE_Inr_iff split: if_splits sum.splits)

lemma retained_filter:
  assumes "retainedKernelLines lines st = Inr kept"
  shows "kept = filter (\<lambda>l. keeps_leg st l = Inr True) lines" "\<forall>l \<in> set lines. l \<notin> set kept \<longrightarrow> leg_units l = 0"
    "2 \<le> length kept \<or> (\<exists>l. kept = [l] \<and> (st \<or> isMeasurementLeg l = Inr True))"
proof -
  from assms obtain ok where f: "foldE (\<lambda>kept line. bindE (keeps_leg st line) (\<lambda>k. Inr (if k then kept @ [line] else kept))) [] lines = Inr kept"
    and ok: "(if length kept = 1 then (if st then Inr True else isMeasurementLeg (hd kept)) else Inr False) = Inr ok" "\<not> (length kept < 2 \<and> \<not> ok)"
    by (auto simp: retainedKernelLines_def bindE_Inr_iff split: if_splits)
  show k: "kept = filter (\<lambda>l. keeps_leg st l = Inr True) lines" using kept_is_filter [OF f] by simp
  show "\<forall>l \<in> set lines. l \<notin> set kept \<longrightarrow> leg_units l = 0"
  proof (intro ballI impI)
    fix l assume l: "l \<in> set lines" "l \<notin> set kept"
    then obtain b where "keeps_leg st l = Inr b" using kept_is_filter [OF f] by blast
    then show "leg_units l = 0" using l k dropped_is_zero by (cases b) auto
  qed
  have "kept = [hd kept]" if "length kept = 1" using that by (cases kept) auto
  then show "2 \<le> length kept \<or> (\<exists>l. kept = [l] \<and> (st \<or> isMeasurementLeg l = Inr True))"
    using ok by (cases "length kept = 1") (auto split: if_splits)
qed

lemma retained_balance:
  assumes "retainedKernelLines lines st = Inr kept"
  shows "subsidiary_balance kept s = subsidiary_balance lines s"
proof -
  have "sum_list (map leg_units (filter (\<lambda>l. kl_subsidiaryId l = s) (filter P ls))) = sum_list (map leg_units (filter (\<lambda>l. kl_subsidiaryId l = s) ls))"
    if "\<forall>l \<in> set ls. \<not> P l \<longrightarrow> leg_units l = 0" for P ls using that by (induction ls) auto
  then show ?thesis using retained_filter(1,2) [OF assms] by (auto simp: subsidiary_balance_def)
qed

section \<open>Properties\<close>

text \<open>
  C4: the final check accepts exactly the balanced journals.  For legs with readable amounts, \<open>assertFinalKernelBalance\<close> passes exactly when there are at least two legs, or
  one that is a measurement, and the amounts of every subsidiary sum to zero; the check of the total is implied by those.
\<close>

theorem kernel_balance_iff:
  assumes "readable lines"
  shows "assertFinalKernelBalance lines = Inr () \<longleftrightarrow>
    (2 \<le> length lines \<or> (\<exists>l. lines = [l] \<and> isMeasurementLeg l = Inr True)) \<and> (\<forall>s. subsidiary_balance lines s = 0)"
  by (rule final_balance_iff [OF assms])

definition sale_legs :: "kernel_leg list" where
  "sale_legs = [\<lparr>kl_amount = ''113.0000'', kl_quantity = None, kl_unit = None, kl_subsidiaryId = ''ca''\<rparr>,
     \<lparr>kl_amount = ''0'', kl_quantity = None, kl_unit = None, kl_subsidiaryId = ''us''\<rparr>,
     \<lparr>kl_amount = ''-113'', kl_quantity = None, kl_unit = None, kl_subsidiaryId = ''ca''\<rparr>]"

lemma sale_units: "toUnits ''113.0000'' = Inr 1130000" "toUnits ''-113'' = Inr (- 1130000)"
  by code_simp+

lemma sale_readable: "readable sale_legs"
  using sale_units by (simp add: readable_def sale_legs_def)

theorem kernel_balance_iff_witness: "assertFinalKernelBalance sale_legs = Inr ()"
proof -
  have "\<forall>s. subsidiary_balance sale_legs s = 0" using sale_units by (simp add: subsidiary_balance_def sale_legs_def leg_units_def)
  moreover have "2 \<le> length sale_legs" by (simp add: sale_legs_def)
  ultimately show ?thesis using kernel_balance_iff [OF sale_readable] by blast
qed

text \<open>
  Dropping empty legs never unbalances a journal.  \<open>retainedKernelLines\<close> keeps the legs in order, drops only legs of zero money, and leaves the balance of every subsidiary as it
  was; so what it returns from a balanced money journal passes the final check.
\<close>

theorem retained_lines_post:
  assumes "retainedKernelLines lines st = Inr kept" "readable lines"
  shows "(\<exists>P. kept = filter P lines) \<and> (\<forall>l \<in> set lines. leg_units l \<noteq> 0 \<longrightarrow> l \<in> set kept)
    \<and> (\<forall>s. subsidiary_balance kept s = subsidiary_balance lines s)
    \<and> (\<not> st \<longrightarrow> (\<forall>s. subsidiary_balance lines s = 0) \<longrightarrow> assertFinalKernelBalance kept = Inr ())"
proof -
  note r = retained_filter [OF assms(1)]
  have "readable kept" using assms(2) r(1) by (auto simp: readable_def)
  then have "\<not> st \<longrightarrow> (\<forall>s. subsidiary_balance lines s = 0) \<longrightarrow> assertFinalKernelBalance kept = Inr ()"
    using final_balance_iff [of kept] r(3) retained_balance [OF assms(1)] by auto
  then show ?thesis using r retained_balance [OF assms(1)] by blast
qed

theorem retained_lines_post_witness: "\<exists>kept. retainedKernelLines sale_legs False = Inr kept \<and> assertFinalKernelBalance kept = Inr ()"
proof -
  have k: "retainedKernelLines sale_legs False = Inr [sale_legs ! 0, sale_legs ! 2]" by code_simp
  have "\<forall>s. subsidiary_balance sale_legs s = 0" using sale_units by (simp add: subsidiary_balance_def sale_legs_def leg_units_def)
  then show ?thesis using retained_lines_post [OF k sale_readable] k by blast
qed

end
