(* ===== verification/Brands.thy ===== *)
theory Brands
  imports Money Exact_Decimal
begin

text \<open>
  The branded decimal boundary, \<open>engine/src/money/brands.ts\<close>: canonical money, rates and quantities are parsed from texts here and nowhere else.  The other exports of
  that file are the money operations under branded names.
\<close>

section \<open>Branded money\<close>

abbreviation (input) ZERO_MONEY :: string where "ZERO_MONEY \<equiv> ''0.0000''"

definition parseMoney :: "string \<Rightarrow> string result" where
  "parseMoney v = (case canonicalDecimal v 4 of
     None \<Rightarrow> Inl (Error ''money must be an exact decimal string'') | Some canonical \<Rightarrow> fixedDecimal canonical 4)"

definition parseRate :: "string \<Rightarrow> string result" where
  "parseRate v = (case canonicalDecimal v 10 of
     None \<Rightarrow> Inl (Error ''rate must be an exact decimal string'') | Some canonical \<Rightarrow> Inr canonical)"

definition parseQuantity :: "string \<Rightarrow> string result" where
  "parseQuantity v = (case canonicalDecimal v 8 of
     None \<Rightarrow> Inl (Error ''quantity must be an exact decimal string'') | Some canonical \<Rightarrow> Inr canonical)"

definition subMoney :: "string \<Rightarrow> string \<Rightarrow> string result" where
  "subMoney a b = bindE (neg_money b) (add_money a)"

section \<open>Money results\<close>

text \<open>The units of an amount, and what a successful operation says of its operands and its result.\<close>

definition units_of :: "string \<Rightarrow> int" where
  "units_of s = (case toUnits s of Inr u \<Rightarrow> u | Inl _ \<Rightarrow> 0)"

definition reads :: "string \<Rightarrow> bool" where
  "reads s \<longleftrightarrow> toUnits s = Inr (units_of s)"

lemma readsI: "toUnits s = Inr u \<Longrightarrow> reads s \<and> units_of s = u"
  by (simp add: reads_def units_of_def)

lemma reads_fromUnits [simp]: "reads (fromUnits u)" "units_of (fromUnits u) = u"
  by (simp_all add: reads_def units_of_def)

lemma reads_zero_texts [simp]: "reads ''0''" "units_of ''0'' = 0" "reads ''0.0000''" "units_of ''0.0000'' = 0"
  by (simp_all add: reads_def units_of_def)

lemma add_money_reads: "add_money a b = Inr t \<Longrightarrow> reads a \<and> reads b \<and> reads t \<and> units_of t = units_of a + units_of b"
  by (auto simp: add_money_def bindE_Inr_iff dest!: readsI)

lemma neg_money_reads: "neg_money a = Inr t \<Longrightarrow> reads a \<and> reads t \<and> units_of t = - units_of a"
  by (auto simp: neg_money_def bindE_Inr_iff dest!: readsI)

lemma abs_money_reads: "abs_money a = Inr t \<Longrightarrow> reads a \<and> reads t \<and> units_of t = \<bar>units_of a\<bar>"
  by (auto simp: abs_money_def bindE_Inr_iff dest!: readsI)

lemma isZero_reads: "isZero a = Inr z \<Longrightarrow> reads a \<and> (z \<longleftrightarrow> units_of a = 0)"
  by (auto simp: isZero_def bindE_Inr_iff dest!: readsI)

lemma cmp_money_reads: "cmp_money a b = Inr c \<Longrightarrow> reads a \<and> reads b \<and> (c = 0 \<longleftrightarrow> units_of a = units_of b)
    \<and> (c < 0 \<longleftrightarrow> units_of a < units_of b) \<and> (c > 0 \<longleftrightarrow> units_of a > units_of b)"
  by (auto simp: cmp_money_def Let_def bindE_Inr_iff dest!: readsI split: if_splits)

lemma toUnits_reads: "toUnits a = Inr u \<Longrightarrow> reads a \<and> units_of a = u"
  by (rule readsI)

lemma traverse_toUnits_reads: "traverse toUnits xs = Inr us \<Longrightarrow> (\<forall>x \<in> set xs. reads x) \<and> us = map units_of xs"
  by (induction xs arbitrary: us) (auto simp: bindE_Inr_iff dest!: readsI)

lemma sum_money_traverse: "sum_money xs = Inr t \<Longrightarrow> \<exists>us. traverse toUnits xs = Inr us"
proof -
  have "foldE (\<lambda>acc x. bindE (toUnits x) (\<lambda>u. Inr (f acc u))) a xs = Inr t \<Longrightarrow> \<exists>us. traverse toUnits xs = Inr us" for f a t
    by (induction xs arbitrary: a) (auto simp: bindE_Inr_iff)
  then show "sum_money xs = Inr t \<Longrightarrow> ?thesis" unfolding sum_money_def by (auto simp: bindE_Inr_iff)
qed

lemma sum_money_reads:
  "sum_money xs = Inr t \<Longrightarrow> (\<forall>x \<in> set xs. reads x) \<and> reads t \<and> units_of t = sum_list (map units_of xs)"
  using sum_money_traverse [of xs t] traverse_toUnits_reads [of xs] by (fastforce simp: sum_money_units)

lemma parseMoney_reads: "parseMoney s = Inr t \<Longrightarrow> reads s \<and> reads t \<and> units_of t = units_of s"
proof -
  assume s: "parseMoney s = Inr t"
  then obtain c where c: "canonicalPlainDecimal s 4 = Some c" "fixedDecimal c 4 = Inr t"
    by (auto simp: parseMoney_def canonicalDecimal_def split: option.splits)
  obtain p :: exact_decimal where p: "parseExactDecimalParts s False = Some p" "int (ed_scale p) \<le> 4" "decimal_value s = Some (exact_value p)"
    by (rule canonicalPlainDecimal_Some [OF c(1)]) blast
  let ?u = "ed_units p * 10 ^ (4 - ed_scale p)"
  have e: "(10000::rat) = 10 ^ (4 - ed_scale p) * 10 ^ ed_scale p" using p(2) by (simp flip: power_add)
  have v: "decimal_value s = Some (of_int ?u / 10000)" unfolding e using p(3) by (simp add: exact_value_def)
  have "exponent_in_range s" using p(1) parseExactDecimalParts_iff(2) parse_plain_iff by blast
  then have "toUnits s = Inr ?u" using v by (simp add: toUnits_value)
  moreover have "toUnits t = Inr ?u"
    using fixedDecimal_value [OF c(2)] canonicalPlainDecimal_value [OF c(1)] v by (simp add: toUnits_value)
  ultimately show ?thesis by (auto dest!: readsI)
qed

lemmas money_reads = add_money_reads neg_money_reads abs_money_reads isZero_reads cmp_money_reads toUnits_reads sum_money_reads parseMoney_reads

end
