(* ===== verification/Posting_Contracts.thy ===== *)
theory Posting_Contracts
  imports Journal_Balance Brands
begin

text \<open>
  The contracts of document posting and the builders its rules share: \<open>engine/src/journal/posting-contracts.ts\<close>,
  \<open>ledger/posting-tax-policy.ts\<close> and \<open>ledger/posting-rule-builders.ts\<close>.

  An optional member of an interface and a nullable column are an \<open>option\<close>; every reader of them uses \<open>??\<close>, \<open>?.\<close> or \<open>!= null\<close>, so
  \<open>undefined\<close> and \<open>null\<close> are both \<open>None\<close>.  A \<open>Map\<close> of the dependencies is only ever read with \<open>?.get\<close>: it is a partial function, an absent one being empty.
  Members that only other components read (replay and currency-gain settings, component sequence and requote fields, a rule's name) are left out.
\<close>

section \<open>Documents\<close>

text \<open>A stored \<open>jsonb\<close> value, its member access, and the members that are texts.\<close>

datatype json = JNull | JBool bool | JNum string | JStr string | JArr "json list" | JObj "(string \<times> json) list"

definition json_get :: "json \<Rightarrow> string \<Rightarrow> json option" where
  "json_get j key = (case j of JObj m \<Rightarrow> map_of m key | _ \<Rightarrow> None)"

definition json_text :: "json option \<Rightarrow> string option" where
  "json_text j = (case j of Some (JStr s) \<Rightarrow> Some s | _ \<Rightarrow> None)"

type_synonym segment_values = "string \<rightharpoonup> string option"

record doc =
  d_kind :: string
  d_documentNumber :: string
  d_documentDate :: string
  d_postingDate :: "string option"
  d_dueDate :: "string option"
  d_currency :: string
  d_subsidiaryId :: "string option"
  d_partyId :: "string option"
  d_departmentId :: "string option"
  d_projectId :: "string option"
  d_locationId :: "string option"
  d_classId :: "string option"
  d_extraDims :: segment_values
  d_paymentCardId :: "string option"
  d_internalBillingRuleId :: "string option"
  d_journalMode :: "string option"
  d_custom :: json

record doc_line =
  l_id :: string
  l_lineNumber :: nat
  l_accountId :: "string option"
  l_recoveryAccountId :: "string option"
  l_description :: "string option"
  l_amount :: string
  l_taxAmount :: "string option"
  l_taxCodeId :: "string option"
  l_taxGroupId :: "string option"
  l_quantity :: string
  l_unit :: "string option"
  l_partyId :: "string option"
  l_subsidiaryId :: "string option"
  l_departmentId :: "string option"
  l_projectId :: "string option"
  l_locationId :: "string option"
  l_classId :: "string option"
  l_equipmentUnitId :: "string option"
  l_extraDims :: segment_values
  l_settlementType :: "string option"
  l_isBillable :: bool
  l_journalCurrency :: "string option"
  l_journalFxRate :: "string option"
  l_journalEliminate :: "bool option"
  l_custom :: json

definition effectivePostingDate :: "doc \<Rightarrow> string" where
  "effectivePostingDate d = (case d_postingDate d of Some p \<Rightarrow> if p \<noteq> [] then p else d_documentDate d | None \<Rightarrow> d_documentDate d)"

text \<open>A kernel line is a measured leg with its account, its entity and its analytical context.\<close>

record kernel_line = measured_leg +
  k_accountId :: string
  k_payrollExpense :: "bool option"
  k_payComponentId :: "string option"
  k_payrollEmployeePartyId :: "string option"
  k_payrollTimeTypeId :: "string option"
  k_payrollItemId :: "string option"
  k_eliminate :: "bool option"
  k_isCurrencyAdjustment :: "bool option"
  k_balanceTxnAmount :: "string option"
  k_currency :: "string option"
  k_txnAmount :: "string option"
  k_fxRate :: "string option"
  k_subsidiaryId :: "string option"
  k_partyId :: "string option"
  k_departmentId :: "string option"
  k_projectId :: "string option"
  k_locationId :: "string option"
  k_classId :: "string option"
  k_equipmentUnitId :: "string option"
  k_extraDims :: segment_values
  k_paymentCardId :: "string option"
  k_taxCodeId :: "string option"
  k_memo :: "string option"
  k_dueDate :: "string option"
  k_isOpenItem :: "bool option"
  k_amortizationSourceLineId :: "string option"

text \<open>An object literal that states only the two required members.\<close>

definition leg :: "string \<Rightarrow> string \<Rightarrow> kernel_line" where
  "leg accountId amount = \<lparr>kl_amount = amount, kl_quantity = None, kl_unit = None, k_accountId = accountId,
     k_payrollExpense = None, k_payComponentId = None, k_payrollEmployeePartyId = None, k_payrollTimeTypeId = None, k_payrollItemId = None,
     k_eliminate = None, k_isCurrencyAdjustment = None, k_balanceTxnAmount = None, k_currency = None, k_txnAmount = None, k_fxRate = None,
     k_subsidiaryId = None, k_partyId = None, k_departmentId = None, k_projectId = None, k_locationId = None, k_classId = None,
     k_equipmentUnitId = None, k_extraDims = Map.empty, k_paymentCardId = None, k_taxCodeId = None, k_memo = None, k_dueDate = None,
     k_isOpenItem = None, k_amortizationSourceLineId = None\<rparr>"

section \<open>Dependencies\<close>

record control_accounts =
  ca_ar :: string
  ca_ap :: string
  ca_bank :: string
  ca_taxCollected :: "string option"
  ca_taxPaid :: "string option"
  ca_employeePayable :: "string option"
  ca_employeeReceivable :: "string option"

datatype collected_by = Merchant | Marketplace
datatype calculation_type = Standard | Withholding | Reverse_charge
datatype clearing_mode = Gross | Net

record tax_posting_component =
  c_taxCodeId :: string
  c_collectedBy :: collected_by
  c_facilitatorName :: "string option"
  c_taxAmount :: string
  c_recoverableAmount :: string
  c_nonrecoverableAmount :: string
  c_calculationType :: calculation_type
  c_collectedAccountId :: "string option"
  c_paidAccountId :: "string option"
  c_withholdingAccountId :: "string option"

record cash_posting_tender =
  t_kind :: string
  t_methodLabel :: string
  t_accountId :: string
  t_amount :: string
  t_reference :: "string option"
  t_storedValueAccountId :: "string option"

record cash_sale_closeout =
  co_tipsTotal :: string
  co_feeTotal :: string
  co_overShort :: string
  co_serverPartyId :: "string option"
  co_tipsPayableAccountId :: "string option"
  co_processorFeeAccountId :: "string option"
  co_cashOverShortAccountId :: "string option"

record internal_billing_account_facts =
  ba_id :: string
  ba_label :: string
  ba_type :: string
  ba_eliminate :: bool
  ba_isActive :: bool
  ba_isSummary :: bool

datatype billing_method = Revenue_credit | Cost_transfer | Intercompany_sale

record internal_billing_rule_facts =
  br_id :: string
  br_code :: string
  br_method :: billing_method
  br_debitAccountId :: string
  br_creditAccountId :: string
  br_effectiveFrom :: string
  br_effectiveTo :: "string option"
  br_isActive :: bool

record internal_billing_context =
  bc_rule :: internal_billing_rule_facts
  bc_debitAccount :: internal_billing_account_facts
  bc_creditAccount :: internal_billing_account_facts
  bc_providerSubsidiaryId :: string
  bc_multiSubsidiary :: bool

record posting_deps =
  p_agencyByLine :: "string \<rightharpoonup> string \<times> string"
  p_control :: control_accounts
  p_cardLiabilityAccountId :: "string option"
  p_openItemAccountIds :: "string list"
  p_taxCollectedByCode :: "string \<rightharpoonup> string"
  p_taxPaidByCode :: "string \<rightharpoonup> string"
  p_taxComponentsByLine :: "string \<rightharpoonup> tax_posting_component list"
  p_marketplaceClearingByName :: "string \<rightharpoonup> string \<times> clearing_mode"
  p_deferralAccountByLine :: "string \<rightharpoonup> string"
  p_inventoryAssetByLine :: "string \<rightharpoonup> string"
  p_inventoryReturnOffsetByLine :: "string \<rightharpoonup> string"
  p_amortizationByLine :: "string \<rightharpoonup> string"
  p_storedValueLiabilityByLine :: "string \<rightharpoonup> string"
  p_storeCreditLiabilityAccountId :: "string option"
  p_cashTenders :: "cash_posting_tender list"
  p_cashCloseout :: "cash_sale_closeout option"
  p_noChargeUnitsAccountId :: "string option"
  p_internalBilling :: "internal_billing_context option"

type_synonym rule_fn = "doc \<Rightarrow> doc_line list \<Rightarrow> posting_deps \<Rightarrow> kernel_line list result"

text \<open>\<open>x ?? y\<close> between two values that may be absent, and the truth of an optional text.\<close>

definition nullish :: "'a option \<Rightarrow> 'a option \<Rightarrow> 'a option" where
  "nullish x y = (case x of None \<Rightarrow> y | Some v \<Rightarrow> Some v)"

definition truthy :: "string option \<Rightarrow> bool" where
  "truthy x \<longleftrightarrow> (case x of None \<Rightarrow> False | Some s \<Rightarrow> s \<noteq> [])"

section \<open>Tax policy\<close>

definition refuseMarketplaceOnPurchase :: "tax_posting_component list \<Rightarrow> unit result" where
  "refuseMarketplaceOnPurchase components = ensure (\<forall>c \<in> set components. c_collectedBy c \<noteq> Marketplace)
     (PostingError ''carries marketplace-collected tax on a purchase document'')"

definition componentSettlementTotal :: "tax_posting_component list \<Rightarrow> string result" where
  "componentSettlementTotal components =
     bindE (sum_money (map c_taxAmount (filter (\<lambda>c. c_calculationType c = Standard) components))) (\<lambda>standard.
     bindE (sum_money (map c_taxAmount (filter (\<lambda>c. c_calculationType c = Withholding) components))) (\<lambda>withholding.
     bindE (neg_money withholding) (add_money standard)))"

text \<open>The clearing account a marketplace-collected component settles through, and the amount gross facilitators keep inside the line total.\<close>

definition marketplace_clearing :: "posting_deps \<Rightarrow> tax_posting_component \<Rightarrow> (string \<times> clearing_mode) result" where
  "marketplace_clearing deps c =
     (if c_calculationType c \<noteq> Standard then Inl (PostingError ''only standard output tax can be marketplace-collected'')
      else case p_marketplaceClearingByName deps (or_else (c_facilitatorName c) []) of
        None \<Rightarrow> Inl (PostingError ''names marketplace facilitator with no clearing account'') | Some clearing \<Rightarrow> Inr clearing)"

definition gross_expected :: "posting_deps \<Rightarrow> tax_posting_component list \<Rightarrow> string result" where
  "gross_expected deps components = foldE (\<lambda>expected c.
     if c_collectedBy c \<noteq> Marketplace then Inr expected
     else bindE (marketplace_clearing deps c) (\<lambda>clearing.
       if snd clearing = Gross then add_money expected (c_taxAmount c) else Inr expected)) ''0'' components"

text \<open>The settlement of a line's components compared with its stored tax amount.\<close>

definition crossfoot :: "doc_line \<Rightarrow> posting_deps \<Rightarrow> tax_posting_component list \<Rightarrow> unit result" where
  "crossfoot line deps components =
     bindE (gross_expected deps components) (\<lambda>expected.
     bindE (componentSettlementTotal (filter (\<lambda>c. c_collectedBy c \<noteq> Marketplace) components)) (\<lambda>merchant.
     bindE (add_money merchant expected) (\<lambda>settlement.
     bindE (cmp_money settlement (or_else (l_taxAmount line) ''0'')) (\<lambda>c.
     ensure (c = 0) (PostingError ''tax components do not match stored tax total'')))))"

definition componentsForLine :: "doc_line \<Rightarrow> posting_deps \<Rightarrow> bool \<Rightarrow> tax_posting_component list result" where
  "componentsForLine line deps salesSide = (let components = or_else (p_taxComponentsByLine deps (l_id line)) [];
       hasTaxProfile = truthy (l_taxCodeId line) \<or> truthy (l_taxGroupId line) in
     bindE (if salesSide then Inr () else refuseMarketplaceOnPurchase components) (\<lambda>_.
     bindE (ensure (\<not> (hasTaxProfile \<and> components = [])) (PostingError ''has a tax profile but no calculation evidence'')) (\<lambda>_.
     bindE (if components = []
       then bindE (isZero (or_else (l_taxAmount line) ''0'')) (\<lambda>z. ensure z (PostingError ''has a tax amount but no calculation evidence''))
       else crossfoot line deps components) (\<lambda>_.
     Inr components))))"

datatype tax_side = Collected | Paid | Withheld

definition taxControlAccount :: "tax_posting_component \<Rightarrow> posting_deps \<Rightarrow> tax_side \<Rightarrow> string option" where
  "taxControlAccount c deps side = (let configured =
       (if side = Collected
        then nullish (c_collectedAccountId c) (nullish (p_taxCollectedByCode deps (c_taxCodeId c)) (ca_taxCollected (p_control deps)))
        else nullish (c_paidAccountId c) (nullish (p_taxPaidByCode deps (c_taxCodeId c)) (ca_taxPaid (p_control deps))))
     in if truthy configured then configured else None)"

definition assertTaxControlAccount :: "tax_posting_component \<Rightarrow> posting_deps \<Rightarrow> tax_side \<Rightarrow> string result" where
  "assertTaxControlAccount c deps side =
     (if side = Withheld then
        (if truthy (c_withholdingAccountId c) then Inr (or_else (c_withholdingAccountId c) [])
         else Inl (PostingError ''withholding tax has no withholding account''))
      else (case taxControlAccount c deps side of
          None \<Rightarrow> Inl (PostingError ''tax has no configured tax control account'') | Some account \<Rightarrow> Inr account))"

abbreviation (input) MARKETPLACE_SALES_KINDS :: "string list" where
  "MARKETPLACE_SALES_KINDS \<equiv> [''customer_invoice'', ''customer_credit'', ''cash_sale'', ''cash_refund'']"

abbreviation (input) PURCHASE_TAX_KINDS :: "string list" where
  "PURCHASE_TAX_KINDS \<equiv> [''vendor_bill'', ''vendor_credit'', ''expense_report'', ''check'', ''card_charge'', ''card_refund'']"

definition validate_component :: "bool \<Rightarrow> posting_deps \<Rightarrow> tax_posting_component \<Rightarrow> unit result" where
  "validate_component sales deps c = bindE (isZero (c_taxAmount c)) (\<lambda>z.
     if z then Inr ()
     else if c_collectedBy c = Marketplace then
       (if \<not> sales then Inl (PostingError ''carries marketplace-collected tax on a purchase document'')
        else ensure (p_marketplaceClearingByName deps (or_else (c_facilitatorName c) []) \<noteq> None)
          (PostingError ''names marketplace facilitator with no clearing account''))
     else if c_calculationType c = Withholding then bindE (assertTaxControlAccount c deps Withheld) (\<lambda>_. Inr ())
     else if sales then
       (if c_calculationType c \<noteq> Reverse_charge then bindE (assertTaxControlAccount c deps Collected) (\<lambda>_. Inr ()) else Inr ())
     else bindE (isZero (c_recoverableAmount c)) (\<lambda>rz.
       bindE (if rz then Inr None else bindE (assertTaxControlAccount c deps Paid) (\<lambda>a. Inr (Some a))) (\<lambda>paid.
       if c_calculationType c = Reverse_charge then
         bindE (assertTaxControlAccount c deps Collected) (\<lambda>collected.
           ensure (paid \<noteq> Some collected)
             (PostingError ''reverse-charge tax posts its output tax and its reclaimed input tax to the same account''))
       else Inr ())))"

definition validateTaxControlAccounts :: "doc \<Rightarrow> doc_line list \<Rightarrow> posting_deps \<Rightarrow> unit result" where
  "validateTaxControlAccounts d lines deps =
     (let purchase = d_kind d \<in> set PURCHASE_TAX_KINDS; sales = d_kind d \<in> set MARKETPLACE_SALES_KINDS in
      if \<not> purchase \<and> \<not> sales then Inr ()
      else foldE (\<lambda>_ line. bindE (componentsForLine line deps (\<not> purchase \<and> sales)) (\<lambda>components.
        foldE (\<lambda>_ c. validate_component (\<not> purchase \<and> sales) deps c) () components)) () lines)"

section \<open>Line builders\<close>

text \<open>A \<open>for\<close> loop that pushes the legs of each element, and \<open>flatMap\<close>.\<close>

definition collectE :: "('a \<Rightarrow> kernel_line list result) \<Rightarrow> 'a list \<Rightarrow> kernel_line list result" where
  "collectE f xs = bindE (traverse f xs) (\<lambda>kss. Inr (concat kss))"

definition resolvedLineAccount :: "string option \<Rightarrow> string result" where
  "resolvedLineAccount resolved = (case resolved of
     Some a \<Rightarrow> if a \<noteq> [] then Inr a else Inl (PostingError ''document line has no resolvable account'')
   | None \<Rightarrow> Inl (PostingError ''document line has no resolvable account''))"

definition tenderMemo :: "cash_posting_tender \<Rightarrow> string option" where
  "tenderMemo t = (if truthy (t_reference t) then Some (t_methodLabel t @ '' '' @ or_else (t_reference t) []) else Some (t_methodLabel t))"

text \<open>\<open>...dims(doc)\<close>, \<open>...dims(doc, line)\<close> and \<open>...taxControlDims(doc, line)\<close> spread into a leg.\<close>

definition dims :: "doc \<Rightarrow> kernel_line \<Rightarrow> kernel_line" where
  "dims d k = k\<lparr>k_departmentId := d_departmentId d, k_projectId := d_projectId d, k_locationId := d_locationId d, k_classId := d_classId d,
     k_equipmentUnitId := None, k_extraDims := d_extraDims d\<rparr>"

definition line_dims :: "doc \<Rightarrow> doc_line \<Rightarrow> kernel_line \<Rightarrow> kernel_line" where
  "line_dims d l k = k\<lparr>k_departmentId := nullish (l_departmentId l) (d_departmentId d), k_projectId := nullish (l_projectId l) (d_projectId d),
     k_locationId := nullish (l_locationId l) (d_locationId d), k_classId := nullish (l_classId l) (d_classId d),
     k_equipmentUnitId := l_equipmentUnitId l, k_extraDims := d_extraDims d ++ l_extraDims l\<rparr>"

definition taxControlDims :: "doc \<Rightarrow> doc_line \<Rightarrow> kernel_line \<Rightarrow> kernel_line" where
  "taxControlDims d l k = k\<lparr>k_departmentId := nullish (l_departmentId l) (d_departmentId d), k_projectId := None,
     k_locationId := nullish (l_locationId l) (d_locationId d), k_classId := nullish (l_classId l) (d_classId d),
     k_equipmentUnitId := None, k_extraDims := d_extraDims d ++ l_extraDims l\<rparr>"

definition lineTotal :: "doc_line \<Rightarrow> string result" where
  "lineTotal l = add_money (l_amount l) (or_else (l_taxAmount l) ''0'')"

definition controlOverride :: "doc \<Rightarrow> string option" where
  "controlOverride d = (let c = json_text (json_get (d_custom d) ''controlAccountId'') in if truthy c then c else None)"

definition signed_money :: "string \<Rightarrow> int \<Rightarrow> string result" where
  "signed_money amount direction = bindE (parseMoney amount) (\<lambda>money. if direction = 1 then Inr money else neg_money money)"

datatype expense_settlement = Out_of_pocket | Company_paid | Personal

definition settlementOf :: "doc_line \<Rightarrow> expense_settlement result" where
  "settlementOf line = (let s = or_else (l_settlementType line) ''out_of_pocket'' in
     if s = ''out_of_pocket'' then Inr Out_of_pocket else if s = ''company_paid'' then Inr Company_paid
     else if s = ''personal'' then Inr Personal else Inl (PostingError ''document line has unknown settlement type ''))"

definition purchaseBaseAmount :: "doc_line \<Rightarrow> posting_deps \<Rightarrow> string result" where
  "purchaseBaseAmount line deps = bindE (componentsForLine line deps False) (\<lambda>components.
     bindE (sum_money (map c_nonrecoverableAmount (filter (\<lambda>c. c_calculationType c \<noteq> Withholding) components))) (\<lambda>nonrecoverable.
     bindE (parseMoney (l_amount line)) (\<lambda>amount. add_money amount nonrecoverable)))"

definition personalReceivableAmount :: "doc_line \<Rightarrow> posting_deps \<Rightarrow> string result" where
  "personalReceivableAmount line deps = bindE (componentsForLine line deps False) (\<lambda>components.
     bindE (foldE (\<lambda>recoverable c. if c_calculationType c \<noteq> Standard then Inl (PostingError ''personal expense line cannot carry tax'')
       else add_money recoverable (c_recoverableAmount c)) ''0'' components) (\<lambda>recoverable.
     bindE (purchaseBaseAmount line deps) (\<lambda>base. add_money base recoverable)))"

text \<open>The legs of one component, and the tax legs of a document's lines.\<close>

definition purchase_common :: "doc \<Rightarrow> doc_line \<Rightarrow> tax_posting_component \<Rightarrow> string \<Rightarrow> string \<Rightarrow> kernel_line" where
  "purchase_common d line c accountId amount =
     taxControlDims d line ((leg accountId amount)\<lparr>k_taxCodeId := Some (c_taxCodeId c), k_partyId := nullish (l_partyId line) (d_partyId d)\<rparr>)"

definition purchase_component_lines :: "doc \<Rightarrow> posting_deps \<Rightarrow> int \<Rightarrow> doc_line \<Rightarrow> tax_posting_component \<Rightarrow> kernel_line list result" where
  "purchase_component_lines d deps direction line c =
     (if c_calculationType c = Withholding then
        bindE (assertTaxControlAccount c deps Withheld) (\<lambda>account.
        bindE (neg_money (c_taxAmount c)) (\<lambda>n. bindE (signed_money n direction) (\<lambda>amount.
        Inr [purchase_common d line c account amount])))
      else
        bindE (isZero (c_recoverableAmount c)) (\<lambda>rz.
        bindE (if rz then Inr [] else bindE (assertTaxControlAccount c deps Paid) (\<lambda>account.
          bindE (signed_money (c_recoverableAmount c) direction) (\<lambda>amount. Inr [purchase_common d line c account amount]))) (\<lambda>input_legs.
        bindE (if c_calculationType c = Reverse_charge then bindE (isZero (c_taxAmount c)) (\<lambda>z. Inr (\<not> z)) else Inr False) (\<lambda>owes.
        bindE (if owes then bindE (assertTaxControlAccount c deps Collected) (\<lambda>account.
          bindE (neg_money (c_taxAmount c)) (\<lambda>n. bindE (signed_money n direction) (\<lambda>amount. Inr [purchase_common d line c account amount])))
          else Inr []) (\<lambda>output_legs.
        Inr (input_legs @ output_legs))))))"

definition purchaseTaxLines :: "doc \<Rightarrow> doc_line list \<Rightarrow> posting_deps \<Rightarrow> int \<Rightarrow> kernel_line list result" where
  "purchaseTaxLines d lines deps direction = foldE (\<lambda>out line.
     bindE (componentsForLine line deps False) (\<lambda>components.
     foldE (\<lambda>out c. bindE (purchase_component_lines d deps direction line c) (\<lambda>ks. Inr (out @ ks))) out components)) [] lines"

definition sales_common :: "doc \<Rightarrow> doc_line \<Rightarrow> tax_posting_component \<Rightarrow> string \<Rightarrow> string \<Rightarrow> kernel_line" where
  "sales_common d line c accountId amount = taxControlDims d line ((leg accountId amount)\<lparr>k_taxCodeId := Some (c_taxCodeId c),
     k_partyId := nullish (l_partyId line) (d_partyId d), k_subsidiaryId := l_subsidiaryId line\<rparr>)"

definition sales_component_lines :: "doc \<Rightarrow> posting_deps \<Rightarrow> int \<Rightarrow> doc_line \<Rightarrow> tax_posting_component \<Rightarrow> kernel_line list result" where
  "sales_component_lines d deps direction line c =
     (if c_collectedBy c = Marketplace then
        bindE (marketplace_clearing deps c) (\<lambda>clearing.
        if snd clearing = Net then Inr []
        else bindE (neg_money (c_taxAmount c)) (\<lambda>n. bindE (signed_money n direction) (\<lambda>amount.
          Inr [sales_common d line c (fst clearing) amount])))
      else if c_calculationType c = Reverse_charge then Inr []
      else if c_calculationType c = Withholding then
        bindE (assertTaxControlAccount c deps Withheld) (\<lambda>account.
        bindE (signed_money (c_taxAmount c) direction) (\<lambda>amount. Inr [sales_common d line c account amount]))
      else
        bindE (assertTaxControlAccount c deps Collected) (\<lambda>account.
        bindE (neg_money (c_taxAmount c)) (\<lambda>n. bindE (signed_money n direction) (\<lambda>amount.
          Inr [sales_common d line c account amount]))))"

definition salesTaxLines :: "doc \<Rightarrow> doc_line list \<Rightarrow> posting_deps \<Rightarrow> int \<Rightarrow> kernel_line list result" where
  "salesTaxLines d lines deps direction = foldE (\<lambda>out line.
     bindE (componentsForLine line deps True) (\<lambda>components.
     foldE (\<lambda>out c. bindE (sales_component_lines d deps direction line c) (\<lambda>ks. Inr (out @ ks))) out components)) [] lines"

section \<open>Legs carry the amount they are built with\<close>

lemma leg_units_of: "leg_units l = units_of (kl_amount l)"
  by (simp add: leg_units_def units_of_def)

lemma leg_units_fun: "leg_units = (\<lambda>l. units_of (kl_amount l))"
  by (rule ext) (rule leg_units_of)

lemma readable_reads: "readable ls \<longleftrightarrow> (\<forall>l \<in> set ls. reads (kl_amount l))"
  by (fastforce simp: readable_def reads_def units_of_def)

lemma readable_simps [simp]:
  "readable []" "readable (l # ls) \<longleftrightarrow> reads (kl_amount l) \<and> readable ls" "readable (ks @ ls) \<longleftrightarrow> readable ks \<and> readable ls"
  by (auto simp: readable_reads)

lemma readable_concat: "readable (concat kss) \<longleftrightarrow> (\<forall>ks \<in> set kss. readable ks)"
  by (auto simp: readable_reads)

lemma sum_legs:
  "sum_money (map kl_amount legs) = Inr t \<Longrightarrow> readable legs \<and> reads t \<and> units_of t = sum_list (map leg_units legs)"
  by (auto simp: readable_reads leg_units_fun comp_def dest!: sum_money_reads)

lemma signed_money_reads:
  "signed_money a dir = Inr t \<Longrightarrow> dir \<in> {1, - 1} \<Longrightarrow> reads a \<and> reads t \<and> units_of t = dir * units_of a"
  by (auto simp: signed_money_def bindE_Inr_iff dest!: money_reads split: if_splits)

lemma built_amounts [simp]:
  "kl_amount (leg a m) = m" "kl_amount (dims d k) = kl_amount k" "kl_amount (line_dims d l k) = kl_amount k"
  "kl_amount (taxControlDims d l k) = kl_amount k" "kl_amount (purchase_common d l c a m) = m" "kl_amount (sales_common d l c a m) = m"
  by (simp_all add: leg_def dims_def line_dims_def taxControlDims_def purchase_common_def sales_common_def)

lemma collectE_total:
  assumes "collectE f xs = Inr legs" "\<And>x ks. x \<in> set xs \<Longrightarrow> f x = Inr ks \<Longrightarrow> readable ks \<and> sum_list (map leg_units ks) = g x"
  shows "readable legs \<and> sum_list (map leg_units legs) = sum_list (map g xs)"
proof -
  have "traverse f xs = Inr kss \<Longrightarrow> readable (concat kss) \<and> sum_list (map leg_units (concat kss)) = sum_list (map g xs)" for kss
    using assms(2) by (induction xs arbitrary: kss) (fastforce simp: bindE_Inr_iff)+
  then show ?thesis using assms(1) by (auto simp: collectE_def bindE_Inr_iff)
qed

lemma traverse_total:
  assumes "traverse f xs = Inr legs" "\<And>x k. x \<in> set xs \<Longrightarrow> f x = Inr k \<Longrightarrow> reads (kl_amount k) \<and> leg_units k = g x"
  shows "readable legs \<and> sum_list (map leg_units legs) = sum_list (map g xs)"
  using assms by (induction xs arbitrary: legs) (fastforce simp: bindE_Inr_iff)+

text \<open>A loop that appends the legs of each element.\<close>

lemma foldE_pushes:
  assumes "foldE (\<lambda>out x. bindE (f x) (\<lambda>ks. Inr (out @ ks))) acc xs = Inr legs"
    "\<And>x ks. x \<in> set xs \<Longrightarrow> f x = Inr ks \<Longrightarrow> readable ks \<and> sum_list (map leg_units ks) = g x"
  shows "\<exists>ks. legs = acc @ ks \<and> readable ks \<and> sum_list (map leg_units ks) = sum_list (map g xs)"
  using assms
proof (induction xs arbitrary: acc)
  case (Cons x xs)
  then obtain ks where ks: "f x = Inr ks" "foldE (\<lambda>out x. bindE (f x) (\<lambda>ks. Inr (out @ ks))) (acc @ ks) xs = Inr legs"
    by (auto simp: bindE_Inr_iff)
  obtain ks' where "legs = (acc @ ks) @ ks' \<and> readable ks' \<and> sum_list (map leg_units ks') = sum_list (map g xs)"
    using Cons.IH [OF ks(2)] Cons.prems(2) by fastforce
  then show ?case using Cons.prems(2) [OF _ ks(1)] by (intro exI [of _ "ks @ ks'"]) simp
qed simp

section \<open>Tax components\<close>

definition line_components :: "posting_deps \<Rightarrow> doc_line \<Rightarrow> tax_posting_component list" where
  "line_components deps line = or_else (p_taxComponentsByLine deps (l_id line)) []"

text \<open>What a component adds to the total a line settles at, and the legs' money of a component on either side.\<close>

definition settle_units :: "posting_deps \<Rightarrow> tax_posting_component \<Rightarrow> int" where
  "settle_units deps c = (if c_collectedBy c = Marketplace
     then (case p_marketplaceClearingByName deps (or_else (c_facilitatorName c) []) of Some (_, Gross) \<Rightarrow> units_of (c_taxAmount c) | _ \<Rightarrow> 0)
     else (case c_calculationType c of Standard \<Rightarrow> units_of (c_taxAmount c) | Withholding \<Rightarrow> - units_of (c_taxAmount c) | Reverse_charge \<Rightarrow> 0))"

definition purchase_units :: "tax_posting_component \<Rightarrow> int" where
  "purchase_units c = (if c_calculationType c = Withholding then - units_of (c_taxAmount c)
     else units_of (c_recoverableAmount c) - (if c_calculationType c = Reverse_charge then units_of (c_taxAmount c) else 0))"

lemma marketplace_clearing_Inr:
  "marketplace_clearing deps c = Inr p \<longleftrightarrow> c_calculationType c = Standard
     \<and> p_marketplaceClearingByName deps (or_else (c_facilitatorName c) []) = Some p"
  by (auto simp: marketplace_clearing_def split: option.splits)

lemma gross_expected_units:
  assumes "gross_expected deps cs = Inr t"
  shows "reads t \<and> units_of t = sum_list (map (settle_units deps) (filter (\<lambda>c. c_collectedBy c = Marketplace) cs))"
proof -
  have "foldE (\<lambda>expected c. if c_collectedBy c \<noteq> Marketplace then Inr expected
     else bindE (marketplace_clearing deps c) (\<lambda>clearing.
       if snd clearing = Gross then add_money expected (c_taxAmount c) else Inr expected)) a cs = Inr t
     \<Longrightarrow> reads a \<Longrightarrow> reads t \<and> units_of t = units_of a + sum_list (map (settle_units deps) (filter (\<lambda>c. c_collectedBy c = Marketplace) cs))" for a
  proof (induction cs arbitrary: a)
    case (Cons c cs)
    obtain a' where a': "(if c_collectedBy c \<noteq> Marketplace then Inr a else bindE (marketplace_clearing deps c) (\<lambda>clearing.
        if snd clearing = Gross then add_money a (c_taxAmount c) else Inr a)) = Inr a'"
      "foldE (\<lambda>expected c. if c_collectedBy c \<noteq> Marketplace then Inr expected
       else bindE (marketplace_clearing deps c) (\<lambda>clearing.
         if snd clearing = Gross then add_money expected (c_taxAmount c) else Inr expected)) a' cs = Inr t"
      using Cons.prems(1) by (auto simp only: foldE.simps bindE_Inr_iff)
    have "reads a' \<and> units_of a' = units_of a + (if c_collectedBy c = Marketplace then settle_units deps c else 0)"
      using a'(1) Cons.prems(2)
      by (auto simp: bindE_Inr_iff marketplace_clearing_Inr settle_units_def split: if_splits clearing_mode.splits dest!: add_money_reads)
    then show ?case using Cons.IH [OF a'(2)] by auto
  qed simp
  then show ?thesis using assms unfolding gross_expected_def by fastforce
qed

lemma componentSettlementTotal_units:
  assumes "componentSettlementTotal cs = Inr t" "\<forall>c \<in> set cs. c_collectedBy c \<noteq> Marketplace"
  shows "reads t \<and> units_of t = sum_list (map (settle_units deps) cs)"
proof -
  obtain s w n where sw: "sum_money (map c_taxAmount (filter (\<lambda>c. c_calculationType c = Standard) cs)) = Inr s"
    "sum_money (map c_taxAmount (filter (\<lambda>c. c_calculationType c = Withholding) cs)) = Inr w" "neg_money w = Inr n" "add_money s n = Inr t"
    using assms(1) by (auto simp: componentSettlementTotal_def bindE_Inr_iff)
  have "(\<Sum>c\<leftarrow>filter (\<lambda>c. c_calculationType c = Standard) cs. units_of (c_taxAmount c))
      - (\<Sum>c\<leftarrow>filter (\<lambda>c. c_calculationType c = Withholding) cs. units_of (c_taxAmount c)) = sum_list (map (settle_units deps) cs)"
    using assms(2) by (induction cs) (auto simp: settle_units_def split: calculation_type.splits)
  then show ?thesis using sum_money_reads [OF sw(1)] sum_money_reads [OF sw(2)] neg_money_reads [OF sw(3)] add_money_reads [OF sw(4)]
    by (simp add: comp_def)
qed

lemma sum_list_partition: "sum_list (map f (filter P xs)) + sum_list (map f (filter (\<lambda>x. \<not> P x) xs)) = (sum_list (map f xs) :: int)"
  by (induction xs) auto

text \<open>
  The cross-foot of a line: its components are those resolved for it, on the purchase side none is marketplace-collected, and their settlement is the
  stored tax amount.
\<close>

lemma componentsForLine_Inr:
  assumes "componentsForLine line deps side = Inr cs"
  shows "cs = line_components deps line" "side \<or> (\<forall>c \<in> set cs. c_collectedBy c \<noteq> Marketplace)"
    "reads (or_else (l_taxAmount line) ''0'')" "units_of (or_else (l_taxAmount line) ''0'') = sum_list (map (settle_units deps) cs)"
proof -
  let ?cs = "line_components deps line" and ?tax = "or_else (l_taxAmount line) ''0''"
  have guard: "(if side then Inr () else refuseMarketplaceOnPurchase ?cs) = Inr ()" and cs: "cs = ?cs"
    and foot: "(if ?cs = [] then bindE (isZero ?tax) (\<lambda>z. ensure z (PostingError ''has a tax amount but no calculation evidence''))
      else crossfoot line deps ?cs) = Inr ()"
    using assms unfolding componentsForLine_def Let_def line_components_def [symmetric] bindE_Inr_iff by auto
  show "cs = ?cs" by (fact cs)
  show "side \<or> (\<forall>c \<in> set cs. c_collectedBy c \<noteq> Marketplace)"
    using guard unfolding cs by (auto simp: refuseMarketplaceOnPurchase_def ensure_Inr_iff split: if_splits)
  have "reads ?tax \<and> units_of ?tax = sum_list (map (settle_units deps) ?cs)"
  proof (cases "?cs = []")
    case True
    then show ?thesis using foot by (auto simp: bindE_Inr_iff ensure_Inr_iff dest!: isZero_reads)
  next
    case False
    then obtain g m s where f: "gross_expected deps ?cs = Inr g" "componentSettlementTotal (filter (\<lambda>c. c_collectedBy c \<noteq> Marketplace) ?cs) = Inr m"
        "add_money m g = Inr s" "cmp_money s ?tax = Inr 0"
      using foot by (auto simp: crossfoot_def bindE_Inr_iff ensure_Inr_iff)
    then show ?thesis using gross_expected_units [OF f(1)] componentSettlementTotal_units [OF f(2), of deps]
        add_money_reads [OF f(3)] cmp_money_reads [OF f(4)]
        sum_list_partition [of "settle_units deps" "\<lambda>c. c_collectedBy c = Marketplace" ?cs] by simp
  qed
  then show "reads ?tax" "units_of ?tax = sum_list (map (settle_units deps) cs)" using cs by simp_all
qed

lemma purchase_component_total:
  assumes "purchase_component_lines d deps dir line c = Inr ks" "dir \<in> {1, - 1}"
  shows "readable ks \<and> sum_list (map leg_units ks) = dir * purchase_units c"
proof (cases "c_calculationType c = Withholding")
  case True
  then show ?thesis using assms
    by (auto simp: purchase_component_lines_def purchase_units_def leg_units_of bindE_Inr_iff dest!: neg_money_reads signed_money_reads [OF _ assms(2)])
next
  case False
  have sole: "readable ks' \<and> sum_list (map leg_units ks') = dir * units_of a"
    if "bindE (assertTaxControlAccount c deps side) (\<lambda>account. bindE (signed_money a dir) (\<lambda>amount. Inr [purchase_common d line c account amount])) = Inr ks'"
    for ks' a side using that by (auto simp: leg_units_of bindE_Inr_iff dest!: signed_money_reads [OF _ assms(2)])
  have owed: "readable ks' \<and> sum_list (map leg_units ks') = - dir * units_of a"
    if "bindE (assertTaxControlAccount c deps side) (\<lambda>account. bindE (neg_money a) (\<lambda>n. bindE (signed_money n dir) (\<lambda>amount.
      Inr [purchase_common d line c account amount]))) = Inr ks'"
    for ks' a side using that by (auto simp: leg_units_of bindE_Inr_iff dest!: neg_money_reads signed_money_reads [OF _ assms(2)])
  obtain rz i owes o' where parts: "isZero (c_recoverableAmount c) = Inr rz"
    "(if rz then Inr [] else bindE (assertTaxControlAccount c deps Paid) (\<lambda>account.
          bindE (signed_money (c_recoverableAmount c) dir) (\<lambda>amount. Inr [purchase_common d line c account amount]))) = Inr i"
    "(if c_calculationType c = Reverse_charge then bindE (isZero (c_taxAmount c)) (\<lambda>z. Inr (\<not> z)) else Inr False) = Inr owes"
    "(if owes then bindE (assertTaxControlAccount c deps Collected) (\<lambda>account.
          bindE (neg_money (c_taxAmount c)) (\<lambda>n. bindE (signed_money n dir) (\<lambda>amount. Inr [purchase_common d line c account amount])))
          else Inr []) = Inr o'" "ks = i @ o'"
    using assms(1) False unfolding purchase_component_lines_def by (auto simp only: if_False bindE_Inr_iff sum.inject)
  have i: "readable i \<and> sum_list (map leg_units i) = dir * units_of (c_recoverableAmount c)"
    using parts(2) isZero_reads [OF parts(1)] sole [of Paid "c_recoverableAmount c" i] by (cases rz) auto
  have owes: "owes \<longleftrightarrow> c_calculationType c = Reverse_charge \<and> units_of (c_taxAmount c) \<noteq> 0"
    using parts(3) by (auto simp: bindE_Inr_iff split: if_splits dest!: isZero_reads)
  have "readable o' \<and> sum_list (map leg_units o') = - dir * (if c_calculationType c = Reverse_charge then units_of (c_taxAmount c) else 0)"
    using parts(4) owed [of Collected "c_taxAmount c" o'] owes by (cases owes) auto
  then show ?thesis using i False parts(5) by (simp add: purchase_units_def algebra_simps)
qed

lemma sales_component_total:
  assumes "sales_component_lines d deps dir line c = Inr ks" "dir \<in> {1, - 1}"
  shows "readable ks \<and> sum_list (map leg_units ks) = - dir * settle_units deps c"
proof (cases "c_collectedBy c = Marketplace")
  case True
  obtain p where p: "marketplace_clearing deps c = Inr p" "(if snd p = Net then Inr []
        else bindE (neg_money (c_taxAmount c)) (\<lambda>n. bindE (signed_money n dir) (\<lambda>amount. Inr [sales_common d line c (fst p) amount]))) = Inr ks"
    using assms(1) True by (auto simp: sales_component_lines_def bindE_Inr_iff)
  then show ?thesis using True
    by (cases "snd p"; cases p) (auto simp: settle_units_def marketplace_clearing_Inr leg_units_of bindE_Inr_iff
        dest!: neg_money_reads signed_money_reads [OF _ assms(2)])
next
  case False
  then show ?thesis using assms(1)
    by (cases "c_calculationType c") (auto simp: sales_component_lines_def settle_units_def leg_units_of bindE_Inr_iff
        dest!: neg_money_reads signed_money_reads [OF _ assms(2)])
qed

text \<open>The tax legs of a document's lines.\<close>

lemma tax_lines_total:
  assumes "foldE (\<lambda>out line. bindE (componentsForLine line deps side) (\<lambda>components.
      foldE (\<lambda>out c. bindE (f line c) (\<lambda>ks. Inr (out @ ks))) out components)) acc lines = Inr legs"
    and "\<And>line c ks. f line c = Inr ks \<Longrightarrow> readable ks \<and> sum_list (map leg_units ks) = g c"
  shows "\<exists>ks. legs = acc @ ks \<and> readable ks
    \<and> sum_list (map leg_units ks) = sum_list (map (\<lambda>line. sum_list (map g (line_components deps line))) lines)
    \<and> (\<forall>line \<in> set lines. componentsForLine line deps side = Inr (line_components deps line))"
  using assms(1)
proof (induction lines arbitrary: acc)
  case (Cons line lines)
  obtain cs acc' where cs: "componentsForLine line deps side = Inr cs"
    and step: "foldE (\<lambda>out c. bindE (f line c) (\<lambda>ks. Inr (out @ ks))) acc cs = Inr acc'"
    and rest: "foldE (\<lambda>out line. bindE (componentsForLine line deps side) (\<lambda>components.
      foldE (\<lambda>out c. bindE (f line c) (\<lambda>ks. Inr (out @ ks))) out components)) acc' lines = Inr legs"
    using Cons.prems by (auto simp: bindE_Inr_iff)
  obtain ks where "acc' = acc @ ks" "readable ks" "sum_list (map leg_units ks) = sum_list (map g cs)"
    using foldE_pushes [OF step, of g] assms(2) by blast
  then show ?case using Cons.IH [OF rest] componentsForLine_Inr(1) [OF cs] cs by auto
qed simp

definition line_tax_units :: "doc_line \<Rightarrow> int" where
  "line_tax_units line = units_of (or_else (l_taxAmount line) ''0'')"

definition line_units :: "doc_line \<Rightarrow> int" where
  "line_units line = units_of (l_amount line) + line_tax_units line"

lemma purchaseTaxLines_total:
  assumes "purchaseTaxLines d lines deps dir = Inr legs" "dir \<in> {1, - 1}"
  shows "readable legs \<and> sum_list (map leg_units legs) = dir * sum_list (map (\<lambda>line. sum_list (map purchase_units (line_components deps line))) lines)"
    "\<forall>line \<in> set lines. componentsForLine line deps False = Inr (line_components deps line)"
  using tax_lines_total [OF assms(1) [unfolded purchaseTaxLines_def], of "\<lambda>c. dir * purchase_units c"] purchase_component_total [OF _ assms(2)]
  by (auto simp: sum_list_const_mult)

lemma salesTaxLines_total:
  assumes "salesTaxLines d lines deps dir = Inr legs" "dir \<in> {1, - 1}"
  shows "readable legs \<and> sum_list (map leg_units legs) = - dir * sum_list (map line_tax_units lines)"
proof -
  obtain k: "readable legs" "sum_list (map leg_units legs) = sum_list (map (\<lambda>line. sum_list (map (\<lambda>c. - dir * settle_units deps c) (line_components deps line))) lines)"
    and c: "\<forall>line \<in> set lines. componentsForLine line deps True = Inr (line_components deps line)"
    using tax_lines_total [OF assms(1) [unfolded salesTaxLines_def], of "\<lambda>c. - dir * settle_units deps c"] sales_component_total [OF _ assms(2)] by auto
  have "line_tax_units line = sum_list (map (settle_units deps) (line_components deps line))" if "line \<in> set lines" for line
    using componentsForLine_Inr(4) [OF bspec [OF c that]] by (simp add: line_tax_units_def)
  then have "sum_list (map (\<lambda>line. sum_list (map (\<lambda>c. - dir * settle_units deps c) (line_components deps line))) lines)
      = sum_list (map (\<lambda>line. - dir * line_tax_units line) lines)"
    by (intro arg_cong [where f = sum_list] map_cong refl) (simp only: sum_list_const_mult)
  then show ?thesis using k by (simp only: sum_list_const_mult)
qed

text \<open>
  The basis of a purchase line and its recoverable tax: when every component splits its tax into a recoverable and a nonrecoverable part, they add up to
  the line's total.
\<close>

definition tax_split :: "posting_deps \<Rightarrow> doc_line \<Rightarrow> bool" where
  "tax_split deps line \<longleftrightarrow> (\<forall>c \<in> set (line_components deps line). c_calculationType c \<noteq> Withholding
     \<longrightarrow> units_of (c_recoverableAmount c) + units_of (c_nonrecoverableAmount c) = units_of (c_taxAmount c))"

definition nonrecoverable_units :: "posting_deps \<Rightarrow> doc_line \<Rightarrow> int" where
  "nonrecoverable_units deps line =
     sum_list (map (\<lambda>c. units_of (c_nonrecoverableAmount c)) (filter (\<lambda>c. c_calculationType c \<noteq> Withholding) (line_components deps line)))"

lemma purchaseBaseAmount_reads:
  assumes "purchaseBaseAmount line deps = Inr t"
  shows "reads t \<and> reads (l_amount line) \<and> units_of t = units_of (l_amount line) + nonrecoverable_units deps line"
  using assms by (auto simp: purchaseBaseAmount_def bindE_Inr_iff nonrecoverable_units_def comp_def
      dest: componentsForLine_Inr(1) dest!: money_reads)

lemma purchase_line_total:
  assumes "componentsForLine line deps False = Inr (line_components deps line)" "tax_split deps line"
  shows "units_of (l_amount line) + nonrecoverable_units deps line + sum_list (map purchase_units (line_components deps line)) = line_units line"
proof -
  note c = componentsForLine_Inr [OF assms(1)]
  have "sum_list (map (\<lambda>c. units_of (c_nonrecoverableAmount c)) (filter (\<lambda>c. c_calculationType c \<noteq> Withholding) cs)) + sum_list (map purchase_units cs)
      = sum_list (map (settle_units deps) cs)"
    if "\<forall>c \<in> set cs. c_collectedBy c \<noteq> Marketplace" "\<forall>c \<in> set cs. c_calculationType c \<noteq> Withholding
      \<longrightarrow> units_of (c_recoverableAmount c) + units_of (c_nonrecoverableAmount c) = units_of (c_taxAmount c)" for cs
    using that by (induction cs) (auto simp: purchase_units_def settle_units_def split: calculation_type.splits)
  then have "nonrecoverable_units deps line + sum_list (map purchase_units (line_components deps line))
      = sum_list (map (settle_units deps) (line_components deps line))"
    using c(2) assms(2) unfolding nonrecoverable_units_def tax_split_def by blast
  then show ?thesis using c(4) by (simp add: line_units_def line_tax_units_def)
qed

end
