(* ===== verification/Internal_Billing.thy ===== *)
theory Internal_Billing
  imports Posting_Contracts
begin

text \<open>
  The internal billing policy and its ledger projection, \<open>engine/src/ledger/internal-billing-policy.ts\<close>: a provider (the document header) bills
  receivers (its lines) under one of three methods, and each line becomes a debit with the receiver's dimensions and a credit with the provider's.
\<close>

section \<open>Policy\<close>

abbreviation (input) INTERNAL_BILLING_INCOME_TYPES :: "string list" where
  "INTERNAL_BILLING_INCOME_TYPES \<equiv> [''income'', ''income_other'']"
abbreviation (input) INTERNAL_BILLING_COST_TYPES :: "string list" where
  "INTERNAL_BILLING_COST_TYPES \<equiv> [''cogs'', ''expense'', ''expense_other'']"

definition internalBillingAccountTypes :: "billing_method \<Rightarrow> string list \<times> string list" where
  "internalBillingAccountTypes m = (case m of
     Revenue_credit \<Rightarrow> (INTERNAL_BILLING_INCOME_TYPES, INTERNAL_BILLING_INCOME_TYPES)
   | Cost_transfer \<Rightarrow> (INTERNAL_BILLING_COST_TYPES, INTERNAL_BILLING_COST_TYPES)
   | Intercompany_sale \<Rightarrow> (INTERNAL_BILLING_COST_TYPES, INTERNAL_BILLING_INCOME_TYPES))"

definition internalBillingAllowsBillable :: "billing_method \<Rightarrow> bool" where
  "internalBillingAllowsBillable m \<longleftrightarrow> m \<noteq> Revenue_credit"

definition billing_account_ok :: "billing_method \<Rightarrow> internal_billing_account_facts \<times> string list \<Rightarrow> unit result" where
  "billing_account_ok m p = (let account = fst p in
     bindE (ensure (ba_isActive account \<and> \<not> ba_isSummary account) (InternalBillingPolicyError ''choose an active posting account'')) (\<lambda>_.
     bindE (ensure (ba_type account \<in> set (snd p)) (InternalBillingPolicyError ''cannot be the account of this rule'')) (\<lambda>_.
     ensure (\<not> (m = Intercompany_sale \<and> \<not> ba_eliminate account)) (InternalBillingPolicyError ''is not eliminated in consolidation''))))"

definition assertInternalBillingRuleAccounts :: "billing_method \<Rightarrow> internal_billing_account_facts \<Rightarrow> internal_billing_account_facts \<Rightarrow> unit result" where
  "assertInternalBillingRuleAccounts m debit credit =
     bindE (ensure (ba_id debit \<noteq> ba_id credit) (InternalBillingPolicyError ''the receiving and providing accounts must be different'')) (\<lambda>_.
     let allowed = internalBillingAccountTypes m in
     foldE (\<lambda>_. billing_account_ok m) () [(debit, fst allowed), (credit, snd allowed)])"

definition internalBillingRuleInEffect :: "internal_billing_rule_facts \<Rightarrow> string \<Rightarrow> bool" where
  "internalBillingRuleInEffect rule date \<longleftrightarrow> br_isActive rule \<and> text_less_eq (br_effectiveFrom rule) date
     \<and> (case br_effectiveTo rule of None \<Rightarrow> True | Some e \<Rightarrow> text_less_eq date e)"

record internal_billing_party =
  bp_subsidiaryId :: string
  bp_departmentId :: "string option"
  bp_projectId :: "string option"
  bp_locationId :: "string option"
  bp_classId :: "string option"

definition internalBillingProvider :: "doc \<Rightarrow> string \<Rightarrow> internal_billing_party" where
  "internalBillingProvider d providerSubsidiaryId = \<lparr>bp_subsidiaryId = providerSubsidiaryId, bp_departmentId = d_departmentId d,
     bp_projectId = d_projectId d, bp_locationId = d_locationId d, bp_classId = d_classId d\<rparr>"

definition internalBillingReceiver :: "internal_billing_party \<Rightarrow> doc_line \<Rightarrow> internal_billing_party" where
  "internalBillingReceiver provider l = \<lparr>bp_subsidiaryId = or_else (l_subsidiaryId l) (bp_subsidiaryId provider),
     bp_departmentId = nullish (l_departmentId l) (bp_departmentId provider), bp_projectId = nullish (l_projectId l) (bp_projectId provider),
     bp_locationId = nullish (l_locationId l) (bp_locationId provider), bp_classId = nullish (l_classId l) (bp_classId provider)\<rparr>"

definition assertInternalBillingLine :: "billing_method \<Rightarrow> internal_billing_party \<Rightarrow> internal_billing_party \<Rightarrow> string option \<Rightarrow> bool \<Rightarrow> bool \<Rightarrow> unit result" where
  "assertInternalBillingLine m provider receiver lineProjectId isBillable multiSubsidiary =
     bindE (if m = Intercompany_sale then
         bindE (ensure multiSubsidiary (InternalBillingPolicyError ''an intercompany sale needs Multi-subsidiary'')) (\<lambda>_.
         ensure (bp_subsidiaryId receiver \<noteq> bp_subsidiaryId provider) (InternalBillingPolicyError ''an intercompany sale must bill a different subsidiary''))
       else ensure (bp_subsidiaryId receiver = bp_subsidiaryId provider) (InternalBillingPolicyError ''stays within one subsidiary'')) (\<lambda>_.
     bindE (case m of
         Revenue_credit \<Rightarrow>
           bindE (ensure (\<not> isBillable) (InternalBillingPolicyError ''a department credit is not billable to a customer'')) (\<lambda>_.
           ensure (bp_departmentId receiver \<noteq> bp_departmentId provider \<or> bp_locationId receiver \<noteq> bp_locationId provider
               \<or> bp_classId receiver \<noteq> bp_classId provider)
             (InternalBillingPolicyError ''choose who receives the work''))
       | Cost_transfer \<Rightarrow>
           ensure (bp_departmentId receiver \<noteq> bp_departmentId provider \<or> bp_projectId receiver \<noteq> bp_projectId provider
               \<or> bp_locationId receiver \<noteq> bp_locationId provider \<or> bp_classId receiver \<noteq> bp_classId provider)
             (InternalBillingPolicyError ''choose who receives the cost'')
       | Intercompany_sale \<Rightarrow> Inr ()) (\<lambda>_.
     ensure (\<not> (isBillable \<and> \<not> truthy lineProjectId)) (InternalBillingPolicyError ''a billable line needs the receiving project'')))"

definition billing_pair :: "doc \<Rightarrow> internal_billing_context \<Rightarrow> doc_line \<Rightarrow> kernel_line list result" where
  "billing_pair d context line = (let rule = bc_rule context;
       provider = internalBillingProvider d (bc_providerSubsidiaryId context);
       receiver = internalBillingReceiver provider line;
       stampsProject = (br_method rule \<noteq> Revenue_credit) in
     bindE (ensure (\<not> (l_accountId line \<noteq> Some (br_debitAccountId rule) \<or> l_recoveryAccountId line \<noteq> Some (br_creditAccountId rule)))
       (InternalBillingPolicyError ''does not carry the accounts of rule'')) (\<lambda>_.
     bindE (parseMoney (l_amount line)) (\<lambda>amount.
     bindE (cmp_money amount ''0'') (\<lambda>c.
     bindE (ensure (\<not> c \<le> 0) (InternalBillingPolicyError ''the amount must be greater than zero'')) (\<lambda>_.
     bindE (assertInternalBillingLine (br_method rule) provider receiver (l_projectId line) (l_isBillable line) (bc_multiSubsidiary context)) (\<lambda>_.
     bindE (neg_money amount) (\<lambda>credit.
     Inr [(leg (br_debitAccountId rule) amount)\<lparr>k_memo := l_description line,
           k_subsidiaryId := (if bp_subsidiaryId receiver \<noteq> bp_subsidiaryId provider then Some (bp_subsidiaryId receiver) else None),
           k_departmentId := bp_departmentId receiver, k_projectId := (if stampsProject then bp_projectId receiver else None),
           k_locationId := bp_locationId receiver, k_classId := bp_classId receiver, k_equipmentUnitId := None,
           k_extraDims := d_extraDims d ++ l_extraDims line\<rparr>,
          (leg (br_creditAccountId rule) credit)\<lparr>k_memo := l_description line,
           k_departmentId := bp_departmentId provider, k_projectId := (if stampsProject then bp_projectId provider else None),
           k_locationId := bp_locationId provider, k_classId := bp_classId provider, k_equipmentUnitId := None,
           k_extraDims := d_extraDims d\<rparr>])))))))"

definition internalBillingKernelLines :: "doc \<Rightarrow> doc_line list \<Rightarrow> internal_billing_context option \<Rightarrow> kernel_line list result" where
  "internalBillingKernelLines d lines context = (case context of
     None \<Rightarrow> Inl (InternalBillingPolicyError ''internal billing posting context was not resolved'')
   | Some ctx \<Rightarrow> let rule = bc_rule ctx in
       bindE (ensure (d_internalBillingRuleId d = Some (br_id rule)) (InternalBillingPolicyError ''internal billing rule changed'')) (\<lambda>_.
       bindE (ensure (internalBillingRuleInEffect rule (take 10 (d_documentDate d))) (InternalBillingPolicyError ''internal billing rule is not in effect'')) (\<lambda>_.
       bindE (assertInternalBillingRuleAccounts (br_method rule) (bc_debitAccount ctx) (bc_creditAccount ctx)) (\<lambda>_.
       collectE (billing_pair d ctx) lines))))"

section \<open>Each pair balances\<close>

lemma billing_pair_total: "billing_pair d ctx line = Inr ks \<Longrightarrow> readable ks \<and> sum_list (map leg_units ks) = 0"
  by (auto simp: billing_pair_def Let_def bindE_Inr_iff leg_units_of dest!: money_reads)

lemma internal_billing_total:
  assumes "internalBillingKernelLines d lines context = Inr legs"
  shows "readable legs \<and> sum_list (map leg_units legs) = 0"
proof -
  obtain ctx where "collectE (billing_pair d ctx) lines = Inr legs"
    using assms by (auto simp: internalBillingKernelLines_def Let_def bindE_Inr_iff split: option.splits)
  from collectE_total [OF this, of "\<lambda>_. 0"] show ?thesis using billing_pair_total by simp
qed

text \<open>The two legs of a line under a method: who carries them, and what they never restate.\<close>

definition pair_ok :: "internal_billing_context \<Rightarrow> kernel_line \<times> kernel_line \<Rightarrow> bool" where
  "pair_ok ctx p \<longleftrightarrow> (let rule = bc_rule ctx; debit = fst p; credit = snd p in
     0 < leg_units debit \<and> leg_units credit = - leg_units debit
     \<and> k_accountId debit = br_debitAccountId rule \<and> k_accountId credit = br_creditAccountId rule \<and> k_subsidiaryId credit = None
     \<and> (if br_method rule = Intercompany_sale then bc_multiSubsidiary ctx \<and> (\<exists>s. k_subsidiaryId debit = Some s \<and> s \<noteq> bc_providerSubsidiaryId ctx)
         else k_subsidiaryId debit = None)
     \<and> (br_method rule = Revenue_credit \<longrightarrow> k_projectId debit = None \<and> k_projectId credit = None))"

lemma billing_pair_ok:
  assumes "billing_pair d ctx line = Inr ks"
  shows "\<exists>p. ks = [fst p, snd p] \<and> pair_ok ctx p"
proof -
  define provider where "provider = internalBillingProvider d (bc_providerSubsidiaryId ctx)"
  define receiver where "receiver = internalBillingReceiver provider line"
  have sub: "bp_subsidiaryId provider = bc_providerSubsidiaryId ctx" by (simp add: provider_def internalBillingProvider_def)
  obtain amount c credit where m: "parseMoney (l_amount line) = Inr amount" "cmp_money amount ''0'' = Inr c" "\<not> c \<le> 0" "neg_money amount = Inr credit"
    and line: "assertInternalBillingLine (br_method (bc_rule ctx)) provider receiver (l_projectId line) (l_isBillable line) (bc_multiSubsidiary ctx) = Inr ()"
    and ks: "ks = [(leg (br_debitAccountId (bc_rule ctx)) amount)\<lparr>k_memo := l_description line,
           k_subsidiaryId := (if bp_subsidiaryId receiver \<noteq> bp_subsidiaryId provider then Some (bp_subsidiaryId receiver) else None),
           k_departmentId := bp_departmentId receiver, k_projectId := (if br_method (bc_rule ctx) \<noteq> Revenue_credit then bp_projectId receiver else None),
           k_locationId := bp_locationId receiver, k_classId := bp_classId receiver, k_equipmentUnitId := None,
           k_extraDims := d_extraDims d ++ l_extraDims line\<rparr>,
          (leg (br_creditAccountId (bc_rule ctx)) credit)\<lparr>k_memo := l_description line,
           k_departmentId := bp_departmentId provider, k_projectId := (if br_method (bc_rule ctx) \<noteq> Revenue_credit then bp_projectId provider else None),
           k_locationId := bp_locationId provider, k_classId := bp_classId provider, k_equipmentUnitId := None,
           k_extraDims := d_extraDims d\<rparr>]" (is "ks = [?debit, ?credit]")
    using assms unfolding billing_pair_def Let_def provider_def [symmetric] receiver_def [symmetric]
    by (auto simp: bindE_Inr_iff ensure_Inr_iff)
  have units: "0 < units_of amount" "units_of credit = - units_of amount" using cmp_money_reads [OF m(2)] neg_money_reads [OF m(4)] m(3) by auto
  have entity: "if br_method (bc_rule ctx) = Intercompany_sale then bc_multiSubsidiary ctx \<and> bp_subsidiaryId receiver \<noteq> bp_subsidiaryId provider
      else bp_subsidiaryId receiver = bp_subsidiaryId provider"
    using line by (auto simp: assertInternalBillingLine_def bindE_Inr_iff ensure_Inr_iff)
  have "pair_ok ctx (?debit, ?credit)" using units entity sub by (auto simp: pair_ok_def Let_def leg_units_of leg_def)
  then show ?thesis using ks by (intro exI [of _ "(?debit, ?credit)"]) simp
qed

lemma billing_pairs:
  assumes "traverse (billing_pair d ctx) lines = Inr kss"
  shows "\<exists>pairs. concat kss = concat (map (\<lambda>p. [fst p, snd p]) pairs) \<and> length pairs = length lines \<and> (\<forall>p \<in> set pairs. pair_ok ctx p)"
  using assms
proof (induction lines arbitrary: kss)
  case (Cons line lines)
  then obtain ks kss' where k: "billing_pair d ctx line = Inr ks" "traverse (billing_pair d ctx) lines = Inr kss'" "kss = ks # kss'"
    by (auto simp: bindE_Inr_iff)
  obtain p pairs where "ks = [fst p, snd p]" "pair_ok ctx p" "concat kss' = concat (map (\<lambda>p. [fst p, snd p]) pairs)" "length pairs = length lines"
    "\<forall>p \<in> set pairs. pair_ok ctx p" using billing_pair_ok [OF k(1)] Cons.IH [OF k(2)] by blast
  then show ?case using k(3) by (intro exI [of _ "p # pairs"]) simp
qed simp

lemma rule_accounts_ok:
  assumes "assertInternalBillingRuleAccounts m debit credit = Inr ()"
  shows "ba_id debit \<noteq> ba_id credit" "m \<noteq> Intercompany_sale \<longrightarrow> (ba_type debit \<in> set INTERNAL_BILLING_COST_TYPES \<longleftrightarrow> ba_type credit \<in> set INTERNAL_BILLING_COST_TYPES)"
    "m = Intercompany_sale \<longrightarrow> ba_eliminate debit \<and> ba_eliminate credit" "ba_isActive debit \<and> ba_isActive credit"
  using assms by (cases m; auto simp: assertInternalBillingRuleAccounts_def internalBillingAccountTypes_def billing_account_ok_def Let_def bindE_Inr_iff ensure_Inr_iff)+

section \<open>Properties\<close>

definition transfer_account :: "string \<Rightarrow> internal_billing_account_facts" where
  "transfer_account i = \<lparr>ba_id = i, ba_label = i, ba_type = ''expense'', ba_eliminate = False, ba_isActive = True, ba_isSummary = False\<rparr>"

definition transfer_context :: internal_billing_context where
  "transfer_context = \<lparr>bc_rule = \<lparr>br_id = ''r1'', br_code = ''CT'', br_method = Cost_transfer, br_debitAccountId = ''5000'', br_creditAccountId = ''5900'',
     br_effectiveFrom = ''2026-01-01'', br_effectiveTo = None, br_isActive = True\<rparr>, bc_debitAccount = transfer_account ''5000'',
     bc_creditAccount = transfer_account ''5900'', bc_providerSubsidiaryId = ''ca'', bc_multiSubsidiary = False\<rparr>"

definition transfer_doc :: doc where
  "transfer_doc = \<lparr>d_kind = ''internal_billing'', d_documentNumber = ''IB-1'', d_documentDate = ''2026-03-31'', d_postingDate = None, d_dueDate = None,
     d_currency = ''CAD'', d_subsidiaryId = None, d_partyId = None, d_departmentId = Some ''shop'', d_projectId = None, d_locationId = None, d_classId = None,
     d_extraDims = Map.empty, d_paymentCardId = None, d_internalBillingRuleId = Some ''r1'', d_journalMode = None, d_custom = JNull\<rparr>"

definition transfer_line :: doc_line where
  "transfer_line = \<lparr>l_id = ''l1'', l_lineNumber = 1, l_accountId = Some ''5000'', l_recoveryAccountId = Some ''5900'', l_description = None,
     l_amount = ''250.00'', l_taxAmount = None, l_taxCodeId = None, l_taxGroupId = None, l_quantity = ''1'', l_unit = None, l_partyId = None,
     l_subsidiaryId = None, l_departmentId = Some ''field'', l_projectId = Some ''job'', l_locationId = None, l_classId = None, l_equipmentUnitId = None,
     l_extraDims = Map.empty, l_settlementType = None, l_isBillable = False, l_journalCurrency = None, l_journalFxRate = None, l_journalEliminate = None,
     l_custom = JNull\<rparr>"

text \<open>
  C15: internal billing stays within its policy.  Every line becomes a positive debit and the equal credit on the rule's two accounts; the credit stays with the provider; only an
  intercompany sale lands its debit in another legal entity, and then both accounts are eliminated in consolidation and the feature is on, while the other two methods keep both
  legs in the provider's entity on accounts of the same class; a department credit never carries a project.  The rule is in effect on the document's date.
\<close>

theorem internal_billing_within_policy:
  assumes "internalBillingKernelLines d lines (Some ctx) = Inr legs"
  shows "(\<exists>pairs. legs = concat (map (\<lambda>p. [fst p, snd p]) pairs) \<and> length pairs = length lines \<and> (\<forall>p \<in> set pairs. pair_ok ctx p))
    \<and> internalBillingRuleInEffect (bc_rule ctx) (take 10 (d_documentDate d))
    \<and> ba_id (bc_debitAccount ctx) \<noteq> ba_id (bc_creditAccount ctx)
    \<and> (br_method (bc_rule ctx) = Intercompany_sale \<longrightarrow> ba_eliminate (bc_debitAccount ctx) \<and> ba_eliminate (bc_creditAccount ctx))
    \<and> (br_method (bc_rule ctx) \<noteq> Intercompany_sale \<longrightarrow> (ba_type (bc_debitAccount ctx) \<in> set [''cogs'', ''expense'', ''expense_other'']
        \<longleftrightarrow> ba_type (bc_creditAccount ctx) \<in> set [''cogs'', ''expense'', ''expense_other'']))"
proof -
  obtain kss where k: "internalBillingRuleInEffect (bc_rule ctx) (take 10 (d_documentDate d))"
    "assertInternalBillingRuleAccounts (br_method (bc_rule ctx)) (bc_debitAccount ctx) (bc_creditAccount ctx) = Inr ()"
    "traverse (billing_pair d ctx) lines = Inr kss" "legs = concat kss"
    using assms by (auto simp: internalBillingKernelLines_def Let_def collectE_def bindE_Inr_iff ensure_Inr_iff)
  show ?thesis using k(1,4) rule_accounts_ok [OF k(2)] billing_pairs [OF k(3)] by auto
qed

theorem internal_billing_within_policy_witness:
  "\<exists>legs pairs. internalBillingKernelLines transfer_doc [transfer_line] (Some transfer_context) = Inr legs
    \<and> legs = concat (map (\<lambda>p. [fst p, snd p]) pairs) \<and> length pairs = 1 \<and> (\<forall>p \<in> set pairs. pair_ok transfer_context p)"
proof -
  have "(case internalBillingKernelLines transfer_doc [transfer_line] (Some transfer_context) of Inr _ \<Rightarrow> True | Inl _ \<Rightarrow> False)" by code_simp
  then obtain legs where l: "internalBillingKernelLines transfer_doc [transfer_line] (Some transfer_context) = Inr legs" by (auto split: sum.splits)
  from internal_billing_within_policy [OF l] l show ?thesis by auto
qed

end
