(* ===== verification/Posting_Rules.thy ===== *)
theory Posting_Rules
  imports Internal_Billing
begin

text \<open>
  The projection of documents to ledger legs: the rules table of \<open>engine/src/ledger/posting-rules.ts\<close> with \<open>posting-rule-cash-sale.ts\<close>,
  \<open>posting-rule-support.ts\<close>, \<open>sales/cash-tenders.ts\<close> and \<open>posting-projection.ts\<close>.  The dashes of the memos are written \<open>-\<close>.
\<close>

section \<open>Cash tenders\<close>

text \<open>\<open>engine/src/sales/cash-tenders.ts\<close>\<close>

definition assertCashTendersPresent :: "cash_posting_tender list \<Rightarrow> string \<Rightarrow> unit result" where
  "assertCashTendersPresent tenders amountToTender =
     (if tenders = [] then bindE (cmp_money amountToTender ''0'') (\<lambda>c. ensure (c = 0) (PostingError ''has no tenders'')) else Inr ())"

definition assertTendersMatchTotal :: "cash_posting_tender list \<Rightarrow> string \<Rightarrow> unit result" where
  "assertTendersMatchTotal tenders incomeAndTaxTotal = bindE (sum_money (map t_amount tenders)) (\<lambda>tendered.
     bindE (abs_money incomeAndTaxTotal) (\<lambda>a. bindE (cmp_money tendered a) (\<lambda>c.
     ensure (c = 0) (PostingError ''tenders must sum to the document total''))))"

definition expectedTenderedForCloseout :: "string \<Rightarrow> string \<Rightarrow> string \<Rightarrow> string \<Rightarrow> string result" where
  "expectedTenderedForCloseout documentTotal tipsTotal feeTotal overShort =
     bindE (neg_money feeTotal) (\<lambda>fee. sum_money [documentTotal, tipsTotal, fee, overShort])"

definition closeout_expected :: "string \<Rightarrow> cash_sale_closeout \<Rightarrow> string result" where
  "closeout_expected incomeAndTaxTotal closeout = bindE (abs_money incomeAndTaxTotal) (\<lambda>a.
     expectedTenderedForCloseout a (co_tipsTotal closeout) (co_feeTotal closeout) (co_overShort closeout))"

definition assertCloseoutTendersMatchTotal :: "cash_posting_tender list \<Rightarrow> string \<Rightarrow> cash_sale_closeout \<Rightarrow> unit result" where
  "assertCloseoutTendersMatchTotal tenders incomeAndTaxTotal closeout = bindE (sum_money (map t_amount tenders)) (\<lambda>tendered.
     bindE (closeout_expected incomeAndTaxTotal closeout) (\<lambda>expected. bindE (cmp_money tendered expected) (\<lambda>c.
     ensure (c = 0) (PostingError ''tenders must sum to the document total + tips - fees +/- over/short''))))"

section \<open>Support\<close>

text \<open>\<open>engine/src/ledger/posting-rule-support.ts\<close>\<close>

definition controlLineIsOpenItem :: "string \<Rightarrow> string option \<Rightarrow> string list \<Rightarrow> bool" where
  "controlLineIsOpenItem accountId partyId openItemAccountIds \<longleftrightarrow> partyId \<noteq> None \<and> accountId \<in> set openItemAccountIds"

text \<open>The measurement leg of one line: nothing for a quantity of zero.\<close>

definition no_charge_leg :: "doc \<Rightarrow> string \<Rightarrow> int \<Rightarrow> doc_line \<Rightarrow> kernel_line list result" where
  "no_charge_leg d accountId sign line = (case measured_quantity (Some (l_quantity line)) of
     None \<Rightarrow> Inl (PostingError ''cannot be recorded at no charge'')
   | Some quantity \<Rightarrow> bindE (isZero quantity) (\<lambda>z. if z then Inr []
       else bindE (if sign = 1 then Inr (Some quantity) else bindE (neg_money quantity) (\<lambda>n. Inr (canonicalDecimal n 4))) (\<lambda>q.
       Inr [line_dims d line ((leg accountId ZERO_MONEY)\<lparr>kl_quantity := q,
         kl_unit := Some (or_text (trim (or_else (l_unit line) [])) ''unit''),
         k_memo := Some (if truthy (l_description line) then ''No charge - '' @ or_else (l_description line) [] else ''No charge''),
         k_partyId := nullish (l_partyId line) (d_partyId d)\<rparr>)])))"

definition noChargeMeasurementLegs :: "doc \<Rightarrow> doc_line list \<Rightarrow> string \<Rightarrow> int \<Rightarrow> kernel_line list result" where
  "noChargeMeasurementLegs d lines accountId sign =
     bindE (foldE (\<lambda>out line. bindE (no_charge_leg d accountId sign line) (\<lambda>ks. Inr (out @ ks))) [] lines) (\<lambda>legs.
     if legs = [] then Inl (PostingError ''settles nothing and records no quantity'') else Inr legs)"

definition settledAtNoCharge :: "doc \<Rightarrow> doc_line list \<Rightarrow> kernel_line list \<Rightarrow> posting_deps \<Rightarrow> int \<Rightarrow> kernel_line list result" where
  "settledAtNoCharge d lines legs deps sign =
     bindE (foldE (\<lambda>found k. if found then Inr True else bindE (isZero (kl_amount k)) (\<lambda>z. Inr (\<not> z))) False legs) (\<lambda>moves.
     if moves then Inr legs
     else if \<not> truthy (p_noChargeUnitsAccountId deps) then Inl (PostingError ''settles exactly zero'')
     else noChargeMeasurementLegs d lines (or_else (p_noChargeUnitsAccountId deps) []) sign)"

definition amortizationSource :: "doc_line \<Rightarrow> posting_deps \<Rightarrow> kernel_line \<Rightarrow> kernel_line" where
  "amortizationSource l deps k = (if p_amortizationByLine deps (l_id l) \<noteq> None then k\<lparr>k_amortizationSourceLineId := Some (l_id l)\<rparr> else k)"

definition project_charge_pair :: "doc \<Rightarrow> doc_line \<Rightarrow> kernel_line list result" where
  "project_charge_pair d line = bindE (resolvedLineAccount (l_accountId line)) (\<lambda>accountId.
     if \<not> truthy (l_recoveryAccountId line) then Inl (PostingError ''project charge requires a cost recovery account'')
     else if l_recoveryAccountId line = Some accountId then Inl (PostingError ''project charge cost and recovery accounts must be different'')
     else bindE (parseMoney (l_amount line)) (\<lambda>amount. bindE (neg_money (l_amount line)) (\<lambda>relief.
       Inr [line_dims d line ((leg accountId amount)\<lparr>k_memo := l_description line\<rparr>),
         (leg (or_else (l_recoveryAccountId line) []) relief)\<lparr>k_memo := l_description line, k_departmentId := d_departmentId d,
            k_locationId := d_locationId d, k_classId := d_classId d, k_projectId := None, k_equipmentUnitId := l_equipmentUnitId line,
            k_extraDims := d_extraDims d\<rparr>])))"

definition projectChargeKernelLines :: rule_fn where
  "projectChargeKernelLines d lines deps = collectE (project_charge_pair d) lines"

section \<open>Purchase rules\<close>

text \<open>One leg per line on its resolved account, for an amount computed from the line.\<close>

definition line_leg :: "(doc_line \<Rightarrow> string option) \<Rightarrow> (doc_line \<Rightarrow> string result) \<Rightarrow> (doc_line \<Rightarrow> string \<Rightarrow> string \<Rightarrow> kernel_line) \<Rightarrow> doc_line \<Rightarrow> kernel_line result" where
  "line_leg account amount build l = bindE (resolvedLineAccount (account l)) (\<lambda>a. bindE (amount l) (\<lambda>m. Inr (build l a m)))"

text \<open>The amounts of several lists of legs summed and negated: what the control leg carries.\<close>

definition closing_amount :: "kernel_line list \<Rightarrow> string result" where
  "closing_amount legs = bindE (sum_money (map kl_amount legs)) neg_money"

definition detail_leg :: "doc \<Rightarrow> doc_line \<Rightarrow> string \<Rightarrow> string \<Rightarrow> kernel_line" where
  "detail_leg d l accountId amount = line_dims d l ((leg accountId amount)\<lparr>k_memo := l_description l, k_partyId := nullish (l_partyId l) (d_partyId d)\<rparr>)"

definition open_item_leg :: "doc \<Rightarrow> string \<Rightarrow> string \<Rightarrow> kernel_line" where
  "open_item_leg d accountId amount = dims d ((leg accountId amount)\<lparr>k_partyId := d_partyId d, k_dueDate := d_dueDate d, k_isOpenItem := Some True\<rparr>)"

definition vendor_bill :: rule_fn where
  "vendor_bill d lines deps =
     bindE (traverse (line_leg (\<lambda>l. nullish (map_option fst (p_agencyByLine deps (l_id l))) (nullish (p_inventoryAssetByLine deps (l_id l))
         (nullish (p_amortizationByLine deps (l_id l)) (l_accountId l)))) (\<lambda>l. purchaseBaseAmount l deps)
         (\<lambda>l a m. amortizationSource l deps (detail_leg d l a m))) lines) (\<lambda>expense.
     bindE (purchaseTaxLines d lines deps 1) (\<lambda>tax.
     bindE (closing_amount (expense @ tax)) (\<lambda>credit.
     Inr (expense @ tax @ [open_item_leg d (or_else (controlOverride d) (ca_ap (p_control deps))) credit]))))"

definition cardRule :: rule_fn where
  "cardRule d lines deps =
     bindE (traverse (line_leg l_accountId (\<lambda>l. purchaseBaseAmount l deps)
         (\<lambda>l a m. (detail_leg d l a m)\<lparr>k_paymentCardId := d_paymentCardId d\<rparr>)) lines) (\<lambda>expense.
     bindE (purchaseTaxLines d lines deps 1) (\<lambda>tax.
     bindE (sum_money (map kl_amount (expense @ tax))) (\<lambda>tot.
     let cardLiability = nullish (controlOverride d) (p_cardLiabilityAccountId deps) in
     if \<not> truthy cardLiability then Inl (PostingError ''card_charge requires a payment card'')
     else bindE (neg_money tot) (\<lambda>credit.
       Inr (expense @ tax @ [dims d ((leg (or_else cardLiability []) credit)\<lparr>k_paymentCardId := d_paymentCardId d\<rparr>)])))))"

definition check_rule :: rule_fn where
  "check_rule d lines deps =
     bindE (traverse (line_leg l_accountId (\<lambda>l. purchaseBaseAmount l deps)
         (\<lambda>l a m. (detail_leg d l a m)\<lparr>k_isOpenItem := Some (controlLineIsOpenItem a (nullish (l_partyId l) (d_partyId d)) (p_openItemAccountIds deps))\<rparr>))
         lines) (\<lambda>expense.
     bindE (purchaseTaxLines d lines deps 1) (\<lambda>tax.
     bindE (closing_amount (expense @ tax)) (\<lambda>credit.
     Inr (expense @ tax @ [dims d (leg (or_else (controlOverride d) (ca_bank (p_control deps))) credit)]))))"

definition vendor_credit :: rule_fn where
  "vendor_credit d lines deps =
     bindE (traverse (line_leg (\<lambda>l. nullish (p_inventoryReturnOffsetByLine deps (l_id l)) (l_accountId l))
         (\<lambda>l. bindE (purchaseBaseAmount l deps) neg_money) (detail_leg d)) lines) (\<lambda>expense.
     bindE (purchaseTaxLines d lines deps (-1)) (\<lambda>tax.
     bindE (closing_amount (expense @ tax)) (\<lambda>debit.
     Inr (open_item_leg d (or_else (controlOverride d) (ca_ap (p_control deps))) debit # expense @ tax))))"

text \<open>Expense reports: three settlements, three counterparties.\<close>

definition settled_lines :: "expense_settlement \<Rightarrow> doc_line list \<Rightarrow> doc_line list result" where
  "settled_lines s lines = bindE (traverse settlementOf lines) (\<lambda>ss. Inr (map fst (filter (\<lambda>p. snd p = s) (zip lines ss))))"

definition bookExpense :: "doc \<Rightarrow> posting_deps \<Rightarrow> bool \<Rightarrow> doc_line list \<Rightarrow> kernel_line list result" where
  "bookExpense d deps cardStamp = traverse (line_leg (\<lambda>l. nullish (p_amortizationByLine deps (l_id l)) (l_accountId l))
     (\<lambda>l. purchaseBaseAmount l deps)
     (\<lambda>l a m. amortizationSource l deps (if cardStamp then (detail_leg d l a m)\<lparr>k_paymentCardId := d_paymentCardId d\<rparr> else detail_leg d l a m)))"

definition personal_debit :: "doc \<Rightarrow> posting_deps \<Rightarrow> doc_line \<Rightarrow> kernel_line result" where
  "personal_debit d deps l = (let account = or_else (ca_employeeReceivable (p_control deps)) [] in
     bindE (personalReceivableAmount l deps) (\<lambda>m.
     Inr ((detail_leg d l account m)\<lparr>k_isOpenItem := Some (controlLineIsOpenItem account (nullish (l_partyId l) (d_partyId d)) (p_openItemAccountIds deps))\<rparr>)))"

text \<open>A control leg that is left out when the amounts it closes sum to zero.\<close>

definition closing_leg_unless_zero :: "string \<Rightarrow> (string \<Rightarrow> kernel_line) \<Rightarrow> kernel_line list result" where
  "closing_leg_unless_zero tot build = bindE (isZero tot) (\<lambda>z. if z then Inr [] else bindE (neg_money tot) (\<lambda>m. Inr [build m]))"

definition expense_report :: rule_fn where
  "expense_report d lines deps =
     bindE (settled_lines Out_of_pocket lines) (\<lambda>oop. bindE (settled_lines Company_paid lines) (\<lambda>card.
     bindE (settled_lines Personal lines) (\<lambda>personal.
     bindE (ensure (\<not> (card @ personal \<noteq> [] \<and> \<not> truthy (p_cardLiabilityAccountId deps)))
       (PostingError ''company-paid and personal expense lines require a payment card on the report'')) (\<lambda>_.
     bindE (ensure (\<not> (personal \<noteq> [] \<and> \<not> truthy (ca_employeeReceivable (p_control deps))))
       (PostingError ''personal expense lines require an employee-receivable control account'')) (\<lambda>_.
     bindE (bookExpense d deps False oop) (\<lambda>oopExpense. bindE (purchaseTaxLines d oop deps 1) (\<lambda>oopTax.
     bindE (sum_money (map kl_amount (oopExpense @ oopTax))) (\<lambda>oopTotal.
     let oopControlId = or_else (nullish (controlOverride d) (ca_employeePayable (p_control deps))) (ca_ap (p_control deps)) in
     bindE (bookExpense d deps True card) (\<lambda>cardExpense. bindE (purchaseTaxLines d card deps 1) (\<lambda>cardTax.
     bindE (traverse (personal_debit d deps) personal) (\<lambda>personalDebit.
     bindE (sum_money (map kl_amount personalDebit)) (\<lambda>personalTotal.
     bindE (sum_money (map kl_amount (cardExpense @ cardTax))) (\<lambda>cardSubtotal.
     bindE (closing_leg_unless_zero oopTotal (\<lambda>m. dims d ((leg oopControlId m)\<lparr>k_partyId := d_partyId d,
       k_isOpenItem := Some (controlLineIsOpenItem oopControlId (d_partyId d) (p_openItemAccountIds deps))\<rparr>))) (\<lambda>oopLeg.
     bindE (sum_money [cardSubtotal, personalTotal]) (\<lambda>cardFunded.
     bindE (closing_leg_unless_zero cardFunded (\<lambda>m. dims d ((leg (or_else (p_cardLiabilityAccountId deps) []) m)\<lparr>
       k_paymentCardId := d_paymentCardId d, k_isOpenItem := Some False\<rparr>))) (\<lambda>cardLeg.
     Inr (oopExpense @ oopTax @ cardExpense @ cardTax @ personalDebit @ oopLeg @ cardLeg)))))))))))))))))"

section \<open>Sales rules\<close>

text \<open>
  The income legs of a line: an agency line splits its amount between the agent's own income and the vendor's consideration.
  \<open>keepsEntity\<close> is how \<open>customer_invoice\<close> carries a line's own legal entity, which \<open>cash_sale\<close> does not.
\<close>

definition income_legs :: "doc \<Rightarrow> posting_deps \<Rightarrow> (doc_line \<Rightarrow> string option) \<Rightarrow> bool \<Rightarrow> doc_line \<Rightarrow> kernel_line list result" where
  "income_legs d deps account keepsEntity l = (case p_agencyByLine deps (l_id l) of
     Some (agencyAccount, vendorAmount) \<Rightarrow>
       bindE (resolvedLineAccount (l_accountId l)) (\<lambda>a.
       bindE (neg_money vendorAmount) (\<lambda>nv. bindE (add_money (l_amount l) nv) (\<lambda>own. bindE (neg_money own) (\<lambda>m.
       bindE (neg_money vendorAmount) (\<lambda>v.
       Inr [detail_leg d l a m, (detail_leg d l agencyAccount v)\<lparr>k_memo := Some ''Vendor pass-through consideration''\<rparr>])))))
   | None \<Rightarrow> bindE (resolvedLineAccount (account l)) (\<lambda>a. bindE (neg_money (l_amount l)) (\<lambda>m.
       Inr [if keepsEntity then (detail_leg d l a m)\<lparr>k_subsidiaryId := l_subsidiaryId l\<rparr> else detail_leg d l a m])))"

definition customer_invoice :: rule_fn where
  "customer_invoice d lines deps =
     bindE (collectE (income_legs d deps (\<lambda>l. nullish (p_storedValueLiabilityByLine deps (l_id l))
       (nullish (p_deferralAccountByLine deps (l_id l)) (l_accountId l))) True) lines) (\<lambda>income.
     bindE (salesTaxLines d lines deps 1) (\<lambda>tax.
     bindE (closing_amount (income @ tax)) (\<lambda>debit.
     Inr (open_item_leg d (or_else (controlOverride d) (ca_ar (p_control deps))) debit # income @ tax))))"

definition customer_credit :: rule_fn where
  "customer_credit d lines deps =
     bindE (traverse (line_leg l_accountId (\<lambda>l. parseMoney (l_amount l)) (detail_leg d)) lines) (\<lambda>income.
     bindE (salesTaxLines d lines deps (-1)) (\<lambda>tax.
     bindE (closing_amount (income @ tax)) (\<lambda>credit.
     Inr ((if truthy (p_storeCreditLiabilityAccountId deps)
           then dims d ((leg (or_else (p_storeCreditLiabilityAccountId deps) []) credit)\<lparr>k_partyId := d_partyId d\<rparr>)
           else open_item_leg d (or_else (controlOverride d) (ca_ar (p_control deps))) credit) # income @ tax))))"

definition tender_leg :: "doc \<Rightarrow> cash_posting_tender \<Rightarrow> string \<Rightarrow> kernel_line" where
  "tender_leg d t amount = dims d ((leg (t_accountId t) amount)\<lparr>k_memo := tenderMemo t\<rparr>)"

text \<open>The guards and the legs of a close-out: tips owed, processor fees, the counted over or short.\<close>

definition closeout_guards :: "cash_sale_closeout \<Rightarrow> unit result" where
  "closeout_guards c =
     bindE (cmp_money (co_tipsTotal c) ''0'') (\<lambda>tips.
     bindE (ensure (\<not> (tips \<noteq> 0 \<and> \<not> truthy (co_tipsPayableAccountId c))) (PostingError ''records tips with no tips-payable liability'')) (\<lambda>_.
     bindE (cmp_money (co_feeTotal c) ''0'') (\<lambda>fee.
     bindE (ensure (\<not> (fee \<noteq> 0 \<and> \<not> truthy (co_processorFeeAccountId c))) (PostingError ''records processor fees with no fee expense account'')) (\<lambda>_.
     bindE (cmp_money (co_overShort c) ''0'') (\<lambda>over.
     ensure (\<not> (over \<noteq> 0 \<and> \<not> truthy (co_cashOverShortAccountId c))) (PostingError ''records cash over/short with no over/short account''))))))"

definition closeout_legs :: "doc \<Rightarrow> cash_sale_closeout \<Rightarrow> kernel_line list result" where
  "closeout_legs d c =
     bindE (cmp_money (co_tipsTotal c) ''0'') (\<lambda>tips.
     bindE (if tips \<noteq> 0 then bindE (neg_money (co_tipsTotal c)) (\<lambda>m. Inr [dims d ((leg (or_else (co_tipsPayableAccountId c) []) m)\<lparr>
         k_memo := Some (''Card tips - cash sale '' @ d_documentNumber d), k_partyId := co_serverPartyId c\<rparr>)]) else Inr []) (\<lambda>tipLegs.
     bindE (cmp_money (co_feeTotal c) ''0'') (\<lambda>fee.
     let feeLegs = (if fee \<noteq> 0 then [dims d ((leg (or_else (co_processorFeeAccountId c) []) (co_feeTotal c))\<lparr>
         k_memo := Some (''Processor fees - cash sale '' @ d_documentNumber d)\<rparr>)] else []) in
     bindE (cmp_money (co_overShort c) ''0'') (\<lambda>over.
     bindE (if over \<noteq> 0 then bindE (neg_money (co_overShort c)) (\<lambda>m. Inr [dims d ((leg (or_else (co_cashOverShortAccountId c) []) m)\<lparr>
         k_memo := Some ((if over > 0 then ''Cash over - cash sale '' else ''Cash short - cash sale '') @ d_documentNumber d)\<rparr>)]) else Inr []) (\<lambda>overLegs.
     Inr (tipLegs @ feeLegs @ overLegs))))))"

definition cashSaleRule :: rule_fn where
  "cashSaleRule d lines deps =
     bindE (collectE (income_legs d deps (\<lambda>l. nullish (p_deferralAccountByLine deps (l_id l)) (l_accountId l)) False) lines) (\<lambda>income.
     bindE (salesTaxLines d lines deps 1) (\<lambda>tax.
     bindE (sum_money (map kl_amount (income @ tax))) (\<lambda>incomeAndTax.
     let tenders = p_cashTenders deps in
     bindE (case p_cashCloseout deps of Some c \<Rightarrow> closeout_expected incomeAndTax c | None \<Rightarrow> abs_money incomeAndTax) (\<lambda>due.
     bindE (assertCashTendersPresent tenders due) (\<lambda>_.
     if tenders = [] then settledAtNoCharge d lines (income @ tax) deps 1
     else bindE (case p_cashCloseout deps of
           Some c \<Rightarrow> bindE (assertCloseoutTendersMatchTotal tenders incomeAndTax c) (\<lambda>_. closeout_guards c)
         | None \<Rightarrow> assertTendersMatchTotal tenders incomeAndTax) (\<lambda>_.
       bindE (case p_cashCloseout deps of Some c \<Rightarrow> closeout_legs d c | None \<Rightarrow> Inr []) (\<lambda>closing.
       Inr (map (\<lambda>t. tender_leg d t (t_amount t)) tenders @ closing @ income @ tax))))))))"

definition cash_refund :: rule_fn where
  "cash_refund d lines deps =
     bindE (traverse (line_leg l_accountId (\<lambda>l. parseMoney (l_amount l)) (detail_leg d)) lines) (\<lambda>income.
     bindE (salesTaxLines d lines deps (-1)) (\<lambda>tax.
     bindE (sum_money (map kl_amount (income @ tax))) (\<lambda>incomeAndTax.
     let tenders = p_cashTenders deps in
     bindE (abs_money incomeAndTax) (\<lambda>due.
     bindE (assertCashTendersPresent tenders due) (\<lambda>_.
     if tenders = [] then settledAtNoCharge d lines (income @ tax) deps (-1)
     else bindE (assertTendersMatchTotal tenders incomeAndTax) (\<lambda>_.
       bindE (traverse (\<lambda>t. bindE (neg_money (t_amount t)) (\<lambda>m. Inr (tender_leg d t m))) tenders) (\<lambda>payouts.
       Inr (payouts @ income @ tax))))))))"

section \<open>Payments\<close>

text \<open>\<open>toUnits(value) < 0n\<close> refused.\<close>

definition refuse_negative :: "string \<Rightarrow> string \<Rightarrow> unit result" where
  "refuse_negative v message = bindE (toUnits v) (\<lambda>u. ensure (\<not> u < 0) (PostingError message))"

text \<open>\<open>withholdingLegs\<close>: a \<open>Map\<close> in insertion order from liability account to the tax withheld for it.\<close>

fun add_withheld :: "string \<Rightarrow> string \<Rightarrow> (string \<times> string) list \<Rightarrow> (string \<times> string) list result" where
  "add_withheld account amount [] = bindE (add_money ZERO_MONEY amount) (\<lambda>s. Inr [(account, s)])"
| "add_withheld account amount ((a, m) # legs) =
     (if a = account then bindE (add_money m amount) (\<lambda>s. Inr ((a, s) # legs))
      else bindE (add_withheld account amount legs) (\<lambda>legs'. Inr ((a, m) # legs')))"

definition withholding_step :: "(string \<times> string) list \<Rightarrow> json \<Rightarrow> (string \<times> string) list result" where
  "withholding_step legs entry =
     (if entry = JNull then Inl (TypeError ''Cannot read properties of null'')
      else case (json_text (json_get entry ''liabilityAccountId''), json_text (json_get entry ''deducted'')) of
        (Some account, Some deducted) \<Rightarrow>
          bindE (refuse_negative deducted ''vendor payment withholding cannot be negative'') (\<lambda>_.
          bindE (parseMoney deducted) (\<lambda>m. add_withheld account m legs))
      | _ \<Rightarrow> Inl (PostingError ''vendor payment withholding needs a liability account and an amount''))"

definition withholding_legs :: "json \<Rightarrow> (string \<times> string) list result" where
  "withholding_legs custom = (case json_get custom ''withholdings'' of
     None \<Rightarrow> Inr [] | Some JNull \<Rightarrow> Inr []
   | Some (JArr entries) \<Rightarrow> foldE withholding_step [] entries
   | _ \<Rightarrow> Inl (PostingError ''vendor payment withholdings are malformed''))"

definition withheld_leg :: "doc \<Rightarrow> string \<times> string \<Rightarrow> kernel_line list result" where
  "withheld_leg d p = bindE (isZero (snd p)) (\<lambda>z. if z then Inr [] else bindE (neg_money (snd p)) (\<lambda>m.
     Inr [dims d ((leg (fst p) m)\<lparr>k_partyId := d_partyId d, k_memo := Some ''Contractor withholding''\<rparr>)]))"

definition vendor_payment :: rule_fn where
  "vendor_payment d lines deps =
     bindE (bindE (traverse lineTotal lines) sum_money) (\<lambda>cash.
     let discount = or_else (json_text (json_get (d_custom d) ''discountAmount'')) ''0'';
         discountAccountId = json_text (json_get (d_custom d) ''discountAccountId'') in
     bindE (refuse_negative discount ''vendor payment discount cannot be negative'') (\<lambda>_.
     bindE (isZero discount) (\<lambda>noDiscount.
     bindE (ensure (\<not> (\<not> noDiscount \<and> \<not> truthy discountAccountId)) (PostingError ''vendor payment discount account is required'')) (\<lambda>_.
     bindE (withholding_legs (d_custom d)) (\<lambda>withholdingLegs.
     bindE (sum_money (map snd withholdingLegs)) (\<lambda>withheld.
     bindE (case json_text (json_get (d_custom d) ''withholdingAmount'') of
         Some stated \<Rightarrow> bindE (toUnits stated) (\<lambda>u. bindE (toUnits withheld) (\<lambda>w.
           ensure (u = w) (PostingError ''vendor payment withholding total does not match its deductions'')))
       | None \<Rightarrow> Inr ()) (\<lambda>_.
     bindE (bindE (add_money cash discount) (\<lambda>s. add_money s withheld)) (\<lambda>payable.
     bindE (neg_money cash) (\<lambda>bank.
     bindE (if noDiscount then Inr [] else bindE (neg_money discount) (\<lambda>m.
       Inr [dims d ((leg (or_else discountAccountId []) m)\<lparr>k_partyId := d_partyId d\<rparr>)])) (\<lambda>discountLegs.
     bindE (collectE (withheld_leg d) withholdingLegs) (\<lambda>taxLegs.
     Inr (dims d ((leg (or_else (controlOverride d) (ca_ap (p_control deps))) payable)\<lparr>k_partyId := d_partyId d, k_isOpenItem := Some True\<rparr>)
       # dims d (leg (or_else (case lines of [] \<Rightarrow> None | l # _ \<Rightarrow> l_accountId l) (ca_bank (p_control deps))) bank)
       # discountLegs @ taxLegs))))))))))))"

text \<open>\<open>debitByAccount\<close>: the line totals by tender account, in the order the accounts appear.\<close>

definition debit_by_account :: "posting_deps \<Rightarrow> doc_line list \<Rightarrow> (string \<times> string list) list result" where
  "debit_by_account deps lines = foldE (\<lambda>m line. bindE (lineTotal line) (\<lambda>t.
     Inr (push_amount (or_else (l_accountId line) (ca_bank (p_control deps))) t m))) [] lines"

definition fee_guards :: "string \<Rightarrow> string \<Rightarrow> string option \<Rightarrow> unit result" where
  "fee_guards tot fee feeAccountId =
     bindE (refuse_negative fee ''customer payment fee cannot be negative'') (\<lambda>_.
     bindE (cmp_money tot ''0'') (\<lambda>sign.
     bindE (isZero fee) (\<lambda>noFee.
     bindE (if sign < 0 then ensure noFee (PostingError ''customer refund cannot carry a payment-acceptance fee'')
            else bindE (cmp_money fee tot) (\<lambda>c. ensure (\<not> c > 0) (PostingError ''customer payment fee exceeds the receipt''))) (\<lambda>_.
     ensure (\<not> (\<not> noFee \<and> \<not> truthy feeAccountId)) (PostingError ''customer payment fee income account is required'')))))"

definition customer_payment :: rule_fn where
  "customer_payment d lines deps =
     bindE (bindE (traverse lineTotal lines) sum_money) (\<lambda>tot.
     let fee = or_else (json_text (json_get (d_custom d) ''feeAmount'')) ''0'';
         feeAccountId = json_text (json_get (d_custom d) ''feeIncomeAccountId'') in
     bindE (fee_guards tot fee feeAccountId) (\<lambda>_.
     bindE (bindE (neg_money fee) (add_money tot)) (\<lambda>receivable.
     bindE (debit_by_account deps lines) (\<lambda>debitByAccount.
     bindE (traverse (\<lambda>(accountId, amounts). bindE (sum_money amounts) (\<lambda>m. Inr (dims d (leg accountId m)))) debitByAccount) (\<lambda>debits.
     bindE (neg_money receivable) (\<lambda>credit.
     bindE (closing_leg_unless_zero fee (\<lambda>m. dims d (leg (or_else feeAccountId []) m))) (\<lambda>feeLegs.
     Inr (debits @ dims d ((leg (or_else (controlOverride d) (ca_ar (p_control deps))) credit)\<lparr>k_partyId := d_partyId d, k_isOpenItem := Some True\<rparr>)
       # feeLegs))))))))"

section \<open>Journals, deposits and transfers\<close>

definition journal_leg :: "doc \<Rightarrow> posting_deps \<Rightarrow> doc_line \<Rightarrow> kernel_line result" where
  "journal_leg d deps l = (let partyId = nullish (l_partyId l) (d_partyId d);
       adjusts = (d_journalMode d = Some ''currency_adjustment''); statistical = (d_journalMode d = Some ''statistical'') in
     bindE (resolvedLineAccount (nullish (p_amortizationByLine deps (l_id l)) (l_accountId l))) (\<lambda>accountId.
     bindE (parseMoney (l_amount l)) (\<lambda>amount.
     Inr (line_dims d l ((amortizationSource l deps (leg accountId amount))\<lparr>
       k_currency := (if adjusts then nullish (l_journalCurrency l) (Some (d_currency d)) else l_journalCurrency l),
       k_fxRate := (if adjusts then Some ''1'' else l_journalFxRate l),
       k_txnAmount := Some (if adjusts \<and> truthy (l_journalCurrency l) then ''0'' else l_amount l),
       k_isCurrencyAdjustment := Some (adjusts \<and> truthy (l_journalCurrency l)),
       k_eliminate := Some (or_else (l_journalEliminate l) False),
       kl_quantity := (if statistical then Some (l_quantity l) else None),
       kl_unit := (if statistical then l_unit l else None),
       k_subsidiaryId := l_subsidiaryId l, k_memo := l_description l, k_partyId := partyId,
       k_isOpenItem := Some (\<not> adjusts \<and> \<not> statistical \<and> controlLineIsOpenItem accountId partyId (p_openItemAccountIds deps))\<rparr>)))))"

definition journal :: rule_fn where
  "journal d lines deps = traverse (journal_leg d deps) lines"

definition pay_run_leg :: "doc \<Rightarrow> doc_line \<Rightarrow> kernel_line result" where
  "pay_run_leg d l = bindE (resolvedLineAccount (l_accountId l)) (\<lambda>accountId. bindE (parseMoney (l_amount l)) (\<lambda>amount.
     Inr (line_dims d l ((leg accountId amount)\<lparr>k_memo := l_description l, k_partyId := l_partyId l,
       k_payrollExpense := Some (json_get (l_custom l) ''payrollExpense'' = Some (JBool True)),
       k_payComponentId := json_text (json_get (l_custom l) ''payComponentId''),
       k_payrollEmployeePartyId := json_text (json_get (l_custom l) ''employeePartyId''),
       k_payrollTimeTypeId := json_text (json_get (l_custom l) ''timeTypeId''),
       k_payrollItemId := json_text (json_get (l_custom l) ''itemId''),
       k_isOpenItem := Some (l_partyId l \<noteq> None)\<rparr>))))"

definition pay_run :: rule_fn where
  "pay_run d lines deps = traverse (pay_run_leg d) lines"

definition deposit :: rule_fn where
  "deposit d lines deps =
     bindE (traverse (line_leg l_accountId (\<lambda>l. bindE (parseMoney (l_amount l)) neg_money)
         (\<lambda>l a m. (detail_leg d l a m)\<lparr>k_isOpenItem := Some (controlLineIsOpenItem a (nullish (l_partyId l) (d_partyId d)) (p_openItemAccountIds deps))\<rparr>))
         lines) (\<lambda>sources.
     bindE (sum_money (map l_amount lines)) (\<lambda>received.
     Inr (dims d (leg (or_else (controlOverride d) (ca_bank (p_control deps))) received) # sources)))"

definition transfer :: rule_fn where
  "transfer d lines deps = (case lines of
     [dest, src] \<Rightarrow>
       if \<not> truthy (l_accountId dest) \<or> \<not> truthy (l_accountId src)
       then Inl (PostingError ''transfer lines must name both the destination and the source account'')
       else if l_accountId dest = l_accountId src then Inl (PostingError ''transfer destination and source must be different accounts'')
       else bindE (toUnits (l_amount dest)) (\<lambda>u.
         if u \<le> 0 then Inl (PostingError ''transfer amount must be positive'')
         else bindE (isZero (l_amount src)) (\<lambda>z.
           if \<not> z then Inl (PostingError ''transfer amount must ride exactly one line: the source leg must carry zero'')
           else bindE (parseMoney (l_amount dest)) (\<lambda>amount. bindE (neg_money amount) (\<lambda>relief.
             Inr [dims d (leg (or_else (l_accountId dest) []) amount), dims d (leg (or_else (l_accountId src) []) relief)]))))
   | _ \<Rightarrow> Inl (PostingError ''transfer needs exactly two lines''))"

text \<open>A policy refusal surfaces as a posting refusal; any other error is thrown on.\<close>

definition internal_billing :: rule_fn where
  "internal_billing d lines deps = (case internalBillingKernelLines d lines (p_internalBilling deps) of
     Inl (InternalBillingPolicyError message) \<Rightarrow> Inl (PostingError message) | r \<Rightarrow> r)"

section \<open>The rules table and the projection\<close>

definition RULES :: "string \<Rightarrow> rule_fn option" where
  "RULES = map_of [(''vendor_bill'', vendor_bill), (''customer_invoice'', customer_invoice), (''cash_sale'', cashSaleRule),
     (''vendor_payment'', vendor_payment), (''customer_payment'', customer_payment), (''expense_report'', expense_report),
     (''card_charge'', cardRule), (''card_refund'', cardRule), (''journal'', journal), (''pay_run'', pay_run), (''check'', check_rule),
     (''deposit'', deposit), (''transfer'', transfer), (''vendor_credit'', vendor_credit), (''customer_credit'', customer_credit),
     (''cash_refund'', cash_refund), (''project_charge'', projectChargeKernelLines), (''internal_billing'', internal_billing)]"

text \<open>\<open>engine/src/ledger/posting-projection.ts\<close>\<close>

definition is_orphan :: "kernel_line \<Rightarrow> bool" where
  "is_orphan l \<longleftrightarrow> k_isOpenItem l = Some True \<and> \<not> truthy (k_partyId l)"

definition buildProjection :: "doc \<Rightarrow> doc_line list \<Rightarrow> posting_deps \<Rightarrow> bool \<Rightarrow> kernel_line list result" where
  "buildProjection d lines deps deferCurrencyBalance = (case RULES (d_kind d) of
     None \<Rightarrow> Inl (PostingError ''no posting rule for document kind'')
   | Some rule \<Rightarrow> bindE (rule d lines deps) (\<lambda>legs.
       bindE (retainedKernelLines legs (d_journalMode d = Some ''statistical'')) (\<lambda>kl.
       bindE (if deferCurrencyBalance then Inr () else assert_balanced (map kl_amount kl) (PostingError ''posting rule does not balance'')) (\<lambda>_.
       if list_ex is_orphan kl then Inl (PostingError ''open-item line has no party'') else Inr kl))))"

section \<open>Balance\<close>

lemma rule_amounts [simp]:
  "kl_amount (detail_leg d l a m) = m" "kl_amount (open_item_leg d a m) = m" "kl_amount (tender_leg d t m) = m"
  "kl_amount (amortizationSource l deps k) = kl_amount k"
  by (simp_all add: detail_leg_def open_item_leg_def tender_leg_def amortizationSource_def)

lemma line_legs_total:
  assumes "traverse (line_leg account amount build) lines = Inr legs" "\<And>l a m. kl_amount (build l a m) = m"
    "\<And>l m. l \<in> set lines \<Longrightarrow> amount l = Inr m \<Longrightarrow> reads m \<and> units_of m = g l"
  shows "readable legs \<and> sum_list (map leg_units legs) = sum_list (map g lines)"
  by (rule traverse_total [OF assms(1)]) (use assms(2,3) in \<open>auto simp: line_leg_def bindE_Inr_iff leg_units_of\<close>)

lemma closing_amount_reads:
  "closing_amount legs = Inr c \<Longrightarrow> readable legs \<and> reads c \<and> units_of c = - sum_list (map leg_units legs)"
  by (auto simp: closing_amount_def bindE_Inr_iff dest!: sum_legs neg_money_reads)

lemma closing_leg_total:
  "closing_leg_unless_zero tot build = Inr ks \<Longrightarrow> (\<And>m. kl_amount (build m) = m)
    \<Longrightarrow> reads tot \<and> readable ks \<and> sum_list (map leg_units ks) = - units_of tot"
  by (auto simp: closing_leg_unless_zero_def bindE_Inr_iff leg_units_of split: if_splits dest!: money_reads)

text \<open>
  The contract of a rule: whatever it projects is readable money that sums to zero.  A projection of such a rule always passes the balance check,
  and keeps the total when its empty legs are dropped.
\<close>

lemma sum_list_filter_zero:
  "(\<And>x. x \<in> set xs \<Longrightarrow> \<not> P x \<Longrightarrow> f x = 0) \<Longrightarrow> sum_list (map f (filter P xs)) = (sum_list (map f xs) :: int)"
  by (induction xs) auto

lemma retained_total:
  assumes "retainedKernelLines legs st = Inr kl" "readable legs"
  shows "readable kl" "sum_list (map leg_units kl) = sum_list (map leg_units legs)"
proof -
  note r = retained_filter [OF assms(1)]
  show "readable kl" unfolding r(1) using assms(2) by (simp add: readable_reads)
  have "leg_units l = 0" if "l \<in> set legs" "keeps_leg st l \<noteq> Inr True" for l
  proof -
    have "l \<notin> set kl" unfolding r(1) using that(2) by simp
    then show ?thesis using r(2) that(1) by blast
  qed
  then show "sum_list (map leg_units kl) = sum_list (map leg_units legs)" unfolding r(1) by (intro sum_list_filter_zero)
qed

lemma balanced_check: "readable legs \<Longrightarrow> assert_balanced (map kl_amount legs) e = ensure (sum_list (map leg_units legs) = 0) e"
  using assert_balanced_units [of legs e] readable_units [of legs] by blast

locale balanced_rule =
  fixes rule :: rule_fn
  assumes balances: "rule d lines deps = Inr legs \<Longrightarrow> readable legs \<and> sum_list (map leg_units legs) = 0"
begin

lemma projection_total:
  assumes "rule d lines deps = Inr legs" "retainedKernelLines legs st = Inr kl"
  shows "readable kl \<and> sum_list (map leg_units kl) = 0"
  using balances [OF assms(1)] retained_total [OF assms(2)] by simp

lemma never_refused_for_balance:
  assumes "rule d lines deps = Inr legs" "retainedKernelLines legs st = Inr kl"
  shows "assert_balanced (map kl_amount kl) e = Inr ()"
  using projection_total [OF assms] by (simp add: balanced_check)

end

text \<open>The detail legs of the purchase rules and of the sales rules.\<close>

definition purchase_line_units :: "posting_deps \<Rightarrow> doc_line \<Rightarrow> int" where
  "purchase_line_units deps l = units_of (l_amount l) + nonrecoverable_units deps l + sum_list (map purchase_units (line_components deps l))"

lemma purchase_detail_total:
  assumes "traverse (line_leg account (\<lambda>l. purchaseBaseAmount l deps) build) lines = Inr expense" "\<And>l a m. kl_amount (build l a m) = m"
    "purchaseTaxLines d lines deps 1 = Inr tax"
  shows "readable (expense @ tax) \<and> sum_list (map leg_units (expense @ tax)) = sum_list (map (purchase_line_units deps) lines)"
proof -
  have "readable expense \<and> sum_list (map leg_units expense) = sum_list (map (\<lambda>l. units_of (l_amount l) + nonrecoverable_units deps l) lines)"
    by (rule line_legs_total [OF assms(1,2)]) (auto dest: purchaseBaseAmount_reads)
  with purchaseTaxLines_total(1) [OF assms(3)] show ?thesis unfolding purchase_line_units_def sum_list_addf by simp
qed

lemma purchase_lines_settle:
  assumes "purchaseTaxLines d lines deps dir = Inr tax" "dir \<in> {1, - 1}" "\<forall>l \<in> set lines. tax_split deps l"
  shows "sum_list (map (purchase_line_units deps) lines) = sum_list (map line_units lines)"
  using purchaseTaxLines_total(2) [OF assms(1,2)] assms(3) purchase_line_total
  by (intro arg_cong [where f = sum_list] map_cong refl) (simp add: purchase_line_units_def)

lemma closed_last:
  "closing_amount detail = Inr c \<Longrightarrow> kl_amount k = c \<Longrightarrow> readable (detail @ [k]) \<and> sum_list (map leg_units (detail @ [k])) = 0"
  by (auto simp: leg_units_of dest!: closing_amount_reads)

lemma closed_first:
  "closing_amount detail = Inr c \<Longrightarrow> kl_amount k = c \<Longrightarrow> readable (k # detail) \<and> sum_list (map leg_units (k # detail)) = 0"
  by (auto simp: leg_units_of dest!: closing_amount_reads)

text \<open>
  A rule that closes its detail legs with one control leg, last or first: what the detail legs sum to.
\<close>

definition closes :: "kernel_line list \<Rightarrow> kernel_line \<Rightarrow> int \<Rightarrow> bool" where
  "closes detail k u \<longleftrightarrow> closing_amount detail = Inr (kl_amount k) \<and> readable detail \<and> sum_list (map leg_units detail) = u"

lemma closes_total:
  assumes "closes detail k u"
  shows "leg_units k = - u" "readable (detail @ [k]) \<and> sum_list (map leg_units (detail @ [k])) = 0"
    "readable (k # detail) \<and> sum_list (map leg_units (k # detail)) = 0"
  using assms by (auto simp: closes_def leg_units_of dest!: closing_amount_reads)

lemma vendor_bill_closes:
  assumes "vendor_bill d lines deps = Inr legs"
  shows "\<exists>detail k. legs = detail @ [k] \<and> closes detail k (sum_list (map (purchase_line_units deps) lines)) \<and> (\<exists>tax. purchaseTaxLines d lines deps 1 = Inr tax)"
  using assms unfolding vendor_bill_def
  apply (elim bindE_InrE)
  subgoal premises p for expense tax c
    using p(1,2,3) p(4) [symmetric] purchase_detail_total [OF p(1) _ p(2)]
    by (intro exI [of _ "expense @ tax"] exI [of _ "open_item_leg d (or_else (controlOverride d) (ca_ap (p_control deps))) c"]) (simp add: closes_def)
  done

lemma check_closes:
  assumes "check_rule d lines deps = Inr legs"
  shows "\<exists>detail k. legs = detail @ [k] \<and> closes detail k (sum_list (map (purchase_line_units deps) lines)) \<and> (\<exists>tax. purchaseTaxLines d lines deps 1 = Inr tax)"
  using assms unfolding check_rule_def
  apply (elim bindE_InrE)
  subgoal premises p for expense tax c
    using p(1,2,3) p(4) [symmetric] purchase_detail_total [OF p(1) _ p(2)]
    by (intro exI [of _ "expense @ tax"] exI [of _ "dims d (leg (or_else (controlOverride d) (ca_bank (p_control deps))) c)"]) (simp add: closes_def)
  done

lemma card_closes:
  assumes "cardRule d lines deps = Inr legs"
  shows "\<exists>detail k. legs = detail @ [k] \<and> closes detail k (sum_list (map (purchase_line_units deps) lines)) \<and> (\<exists>tax. purchaseTaxLines d lines deps 1 = Inr tax)"
proof -
  obtain expense tax t c where p: "traverse (line_leg l_accountId (\<lambda>l. purchaseBaseAmount l deps)
         (\<lambda>l a m. (detail_leg d l a m)\<lparr>k_paymentCardId := d_paymentCardId d\<rparr>)) lines = Inr expense" "purchaseTaxLines d lines deps 1 = Inr tax"
    and c: "sum_money (map kl_amount (expense @ tax)) = Inr t" "neg_money t = Inr c" and
    legs: "legs = expense @ tax @ [dims d ((leg (or_else (nullish (controlOverride d) (p_cardLiabilityAccountId deps)) []) c)\<lparr>k_paymentCardId := d_paymentCardId d\<rparr>)]"
    using assms unfolding cardRule_def Let_def by (elim bindE_InrE) (auto split: if_splits elim!: bindE_InrE)
  have "closing_amount (expense @ tax) = Inr c" using c by (simp add: closing_amount_def)
  then show ?thesis using p(2) purchase_detail_total [OF p(1) _ p(2)]
    by (intro exI [of _ "expense @ tax"] exI conjI, unfold legs) (auto simp: closes_def)
qed

lemma purchase_credit_total:
  assumes "traverse (line_leg account (\<lambda>l. bindE (purchaseBaseAmount l deps) neg_money) build) lines = Inr expense" "\<And>l a m. kl_amount (build l a m) = m"
    "purchaseTaxLines d lines deps (- 1) = Inr tax"
  shows "readable (expense @ tax) \<and> sum_list (map leg_units (expense @ tax)) = - sum_list (map (purchase_line_units deps) lines)"
proof -
  have "readable expense \<and> sum_list (map leg_units expense) = sum_list (map (\<lambda>l. - (units_of (l_amount l) + nonrecoverable_units deps l)) lines)"
    by (rule line_legs_total [OF assms(1,2)]) (auto simp: bindE_Inr_iff dest!: purchaseBaseAmount_reads neg_money_reads)
  with purchaseTaxLines_total(1) [OF assms(3)] show ?thesis
    unfolding purchase_line_units_def sum_list_addf sum_list_map_uminus by simp
qed

lemma vendor_credit_closes:
  assumes "vendor_credit d lines deps = Inr legs"
  shows "\<exists>detail k. legs = k # detail \<and> closes detail k (- sum_list (map (purchase_line_units deps) lines)) \<and> (\<exists>tax. purchaseTaxLines d lines deps (- 1) = Inr tax)"
  using assms unfolding vendor_credit_def
  apply (elim bindE_InrE)
  subgoal premises p for expense tax c
    using p(1,2,3) p(4) [symmetric] purchase_credit_total [OF p(1) _ p(2)]
    by (intro exI [of _ "expense @ tax"] exI [of _ "open_item_leg d (or_else (controlOverride d) (ca_ap (p_control deps))) c"]) (simp add: closes_def)
  done

text \<open>Sales: the income legs of a line carry its amount, the tax legs its tax amount.\<close>

lemma income_legs_total:
  assumes "income_legs d deps account keeps l = Inr ks"
  shows "readable ks \<and> sum_list (map leg_units ks) = - units_of (l_amount l)"
  using assms by (auto simp: income_legs_def bindE_Inr_iff leg_units_of split: option.splits dest!: money_reads)

lemma sales_detail_total:
  assumes "collectE (income_legs d deps account keeps) lines = Inr income" "salesTaxLines d lines deps 1 = Inr tax"
  shows "readable (income @ tax) \<and> sum_list (map leg_units (income @ tax)) = - sum_list (map line_units lines)"
  using collectE_total [OF assms(1), of "\<lambda>l. - units_of (l_amount l)"] income_legs_total salesTaxLines_total [OF assms(2)]
  unfolding line_units_def sum_list_addf sum_list_map_uminus by simp

lemma sales_reversal_total:
  assumes "traverse (line_leg l_accountId (\<lambda>l. parseMoney (l_amount l)) (detail_leg d)) lines = Inr income" "salesTaxLines d lines deps (- 1) = Inr tax"
  shows "readable (income @ tax) \<and> sum_list (map leg_units (income @ tax)) = sum_list (map line_units lines)"
proof -
  have "readable income \<and> sum_list (map leg_units income) = sum_list (map (\<lambda>l. units_of (l_amount l)) lines)"
    by (rule line_legs_total [OF assms(1)]) (auto dest: parseMoney_reads)
  with salesTaxLines_total [OF assms(2)] show ?thesis unfolding line_units_def sum_list_addf by simp
qed

lemma customer_invoice_closes:
  assumes "customer_invoice d lines deps = Inr legs"
  shows "\<exists>detail k. legs = k # detail \<and> closes detail k (- sum_list (map line_units lines))"
  using assms unfolding customer_invoice_def
  apply (elim bindE_InrE)
  subgoal premises p for income tax c
    using p(3) p(4) [symmetric] sales_detail_total [OF p(1,2)]
    by (intro exI [of _ "income @ tax"] exI [of _ "open_item_leg d (or_else (controlOverride d) (ca_ar (p_control deps))) c"]) (simp add: closes_def)
  done

lemma customer_credit_closes:
  assumes "customer_credit d lines deps = Inr legs"
  shows "\<exists>detail k. legs = k # detail \<and> closes detail k (sum_list (map line_units lines))"
  using assms unfolding customer_credit_def
  apply (elim bindE_InrE)
  subgoal premises p for income tax c
    using p(3) p(4) [symmetric] sales_reversal_total [OF p(1,2)]
    by (intro exI [of _ "income @ tax"] exI [of _ "hd legs"]) (auto simp: closes_def)
  done
section \<open>The other rules\<close>

lemma lineTotal_reads: "lineTotal l = Inr t \<Longrightarrow> reads t \<and> units_of t = line_units l"
  by (auto simp: lineTotal_def line_units_def line_tax_units_def dest!: add_money_reads)

lemma lineTotals_sum:
  assumes "traverse lineTotal lines = Inr ts" "sum_money ts = Inr t"
  shows "reads t \<and> units_of t = sum_list (map line_units lines)"
proof -
  have "map units_of ts = map line_units lines" using assms(1)
    by (induction lines arbitrary: ts) (auto simp: bindE_Inr_iff dest!: lineTotal_reads)
  then show ?thesis using sum_money_reads [OF assms(2)] by simp
qed

lemma deposit_total:
  assumes "deposit d lines deps = Inr legs"
  shows "readable legs \<and> sum_list (map leg_units legs) = 0"
  using assms unfolding deposit_def
  apply (elim bindE_InrE)
  subgoal premises p for sources received
  proof -
    have "readable sources \<and> sum_list (map leg_units sources) = sum_list (map (\<lambda>l. - units_of (l_amount l)) lines)"
      by (rule line_legs_total [OF p(1)]) (auto simp: bindE_Inr_iff dest!: parseMoney_reads neg_money_reads)
    then show ?thesis using p(3) [symmetric] sum_money_reads [OF p(2)] by (simp add: leg_units_of comp_def sum_list_map_uminus)
  qed
  done

lemma transfer_Inr:
  "transfer d lines deps = Inr legs \<Longrightarrow> \<exists>dest src amount relief. lines = [dest, src] \<and> l_accountId dest \<noteq> l_accountId src
     \<and> truthy (l_accountId dest) \<and> truthy (l_accountId src) \<and> reads (l_amount dest) \<and> 0 < units_of (l_amount dest) \<and> units_of (l_amount src) = 0
     \<and> parseMoney (l_amount dest) = Inr amount \<and> neg_money amount = Inr relief
     \<and> legs = [dims d (leg (or_else (l_accountId dest) []) amount), dims d (leg (or_else (l_accountId src) []) relief)]"
  by (auto simp: transfer_def bindE_Inr_iff split: list.splits if_splits dest!: toUnits_reads isZero_reads)

lemma transfer_total: "transfer d lines deps = Inr legs \<Longrightarrow> readable legs \<and> sum_list (map leg_units legs) = 0"
  by (auto simp: leg_units_of dest!: transfer_Inr money_reads)

lemma project_charge_total:
  assumes "projectChargeKernelLines d lines deps = Inr legs"
  shows "readable legs \<and> sum_list (map leg_units legs) = 0"
proof -
  have "readable ks \<and> sum_list (map leg_units ks) = 0" if "project_charge_pair d l = Inr ks" for l ks
    using that by (auto simp: project_charge_pair_def bindE_Inr_iff leg_units_of split: if_splits dest!: money_reads)
  then show ?thesis using collectE_total [OF assms [unfolded projectChargeKernelLines_def], of "\<lambda>_. 0"] by simp
qed

lemma internal_billing_rule_total: "internal_billing d lines deps = Inr legs \<Longrightarrow> readable legs \<and> sum_list (map leg_units legs) = 0"
  unfolding internal_billing_def by (auto split: sum.splits error.splits dest: internal_billing_total)

text \<open>Vendor payments: the withheld tax by liability account.\<close>

lemma add_withheld_total:
  assumes "add_withheld a m legs = Inr legs'" "\<forall>x \<in> set (map snd legs). reads x"
  shows "(\<forall>x \<in> set (map snd legs'). reads x) \<and> sum_list (map (\<lambda>p. units_of (snd p)) legs') = sum_list (map (\<lambda>p. units_of (snd p)) legs) + units_of m"
  using assms by (induction a m legs arbitrary: legs' rule: add_withheld.induct)
    (fastforce simp: bindE_Inr_iff split: if_splits dest!: add_money_reads)+

lemma withheld_legs_total:
  assumes "collectE (withheld_leg d) ps = Inr legs"
  shows "readable legs \<and> sum_list (map leg_units legs) = - sum_list (map (\<lambda>p. units_of (snd p)) ps)"
proof -
  have "readable ks \<and> sum_list (map leg_units ks) = - units_of (snd p)" if "withheld_leg d p = Inr ks" for p ks
    using that by (auto simp: withheld_leg_def bindE_Inr_iff leg_units_of split: if_splits dest!: money_reads)
  then show ?thesis using collectE_total [OF assms, of "\<lambda>p. - units_of (snd p)"] by (simp add: sum_list_map_uminus)
qed

definition payment_discount :: "doc \<Rightarrow> string" where
  "payment_discount d = or_else (json_text (json_get (d_custom d) ''discountAmount'')) ''0''"

text \<open>Customer payments: the line totals grouped by tender account keep their sum.\<close>

lemma push_amount_sum: "sum_list (map (\<lambda>p. sum_list (map f (snd p))) (push_amount k a m)) = sum_list (map (\<lambda>p. sum_list (map f (snd p))) m) + (f a :: int)"
  by (induction k a m rule: push_amount.induct) simp_all

lemma debit_by_account_total:
  assumes "debit_by_account deps lines = Inr m"
  shows "sum_list (map (\<lambda>p. sum_list (map units_of (snd p))) m) = sum_list (map line_units lines)"
proof -
  have "foldE (\<lambda>m line. bindE (lineTotal line) (\<lambda>t.
      Inr (push_amount (or_else (l_accountId line) (ca_bank (p_control deps))) t m))) acc lines = Inr m
    \<Longrightarrow> sum_list (map (\<lambda>p. sum_list (map units_of (snd p))) m) = sum_list (map (\<lambda>p. sum_list (map units_of (snd p))) acc) + sum_list (map line_units lines)" for acc
    by (induction lines arbitrary: acc) (auto simp: bindE_Inr_iff push_amount_sum dest!: lineTotal_reads)
  then show ?thesis using assms unfolding debit_by_account_def by fastforce
qed

definition payment_fee :: "doc \<Rightarrow> string" where
  "payment_fee d = or_else (json_text (json_get (d_custom d) ''feeAmount'')) ''0''"

lemma fee_guards_Inr:
  "fee_guards tot fee account = Inr u \<Longrightarrow> 0 \<le> units_of fee \<and> (if units_of tot < 0 then units_of fee = 0 else units_of fee \<le> units_of tot)"
  by (auto simp: fee_guards_def refuse_negative_def bindE_Inr_iff ensure_Inr_iff split: if_splits dest!: money_reads)

text \<open>What the legs on one account add up to.\<close>

definition account_total :: "string \<Rightarrow> kernel_line list \<Rightarrow> int" where
  "account_total a legs = sum_list (map leg_units (filter (\<lambda>k. k_accountId k = a) legs))"

definition keyed_total :: "string \<Rightarrow> (string \<times> int) list \<Rightarrow> int" where
  "keyed_total a ps = sum_list (map snd (filter (\<lambda>p. fst p = a) ps))"

lemma keyed_total_simps [simp]:
  "keyed_total a [] = 0" "keyed_total a (p # ps) = (if fst p = a then snd p else 0) + keyed_total a ps"
  by (simp_all add: keyed_total_def)

lemma account_total_keyed:
  "map (\<lambda>k. (k_accountId k, leg_units k)) legs = ps \<Longrightarrow> account_total a legs = keyed_total a ps"
  unfolding account_total_def by (induction legs arbitrary: ps) auto

lemma keyed_total_filter: "keyed_total a (filter (\<lambda>p. snd p \<noteq> 0) ps) = keyed_total a ps"
  by (induction ps) auto

lemma keyed_total_uminus: "keyed_total a (map (\<lambda>p. (fst p, - snd p)) ps) = - keyed_total a ps"
  by (induction ps) auto

lemma keyed_total_all: "sum_list (map (\<lambda>a. keyed_total a ps) as) = sum_list (map snd ps)" if "distinct as" "fst ` set ps \<subseteq> set as"
  using that
proof (induction ps)
  case (Cons p ps)
  have "sum_list (map (\<lambda>a. if fst p = a then snd p else 0) as) = snd p"
    using Cons.prems by (simp add: sum_list_map_eq_sum_count2 sum_list_distinct_conv_sum_set sum.delta)
  then show ?case using Cons by (simp add: sum_list_addf)
qed simp

text \<open>The withholdings a payment states, entry by entry.\<close>

definition withheld_entry :: "json \<Rightarrow> string \<times> int" where
  "withheld_entry entry = (or_else (json_text (json_get entry ''liabilityAccountId'')) [], units_of (or_else (json_text (json_get entry ''deducted'')) []))"

definition withheld_entries :: "json \<Rightarrow> (string \<times> int) list" where
  "withheld_entries custom = (case json_get custom ''withholdings'' of Some (JArr entries) \<Rightarrow> map withheld_entry entries | _ \<Rightarrow> [])"

abbreviation (input) in_units :: "(string \<times> string) list \<Rightarrow> (string \<times> int) list" where
  "in_units ws \<equiv> map (\<lambda>p. (fst p, units_of (snd p))) ws"

lemma add_withheld_keyed:
  assumes "add_withheld k m ws = Inr ws'"
  shows "keyed_total a (in_units ws') = keyed_total a (in_units ws) + (if k = a then units_of m else 0)
    \<and> set (map fst ws') = insert k (set (map fst ws)) \<and> (distinct (map fst ws) \<longrightarrow> distinct (map fst ws'))"
  using assms
proof (induction k m ws arbitrary: ws' rule: add_withheld.induct)
  case (1 k m)
  then show ?case by (auto simp: bindE_Inr_iff dest!: add_money_reads)
next
  case (2 k m b s ws)
  show ?case
  proof (cases "b = k")
    case True
    then show ?thesis using "2.prems" by (auto simp: bindE_Inr_iff dest!: add_money_reads)
  next
    case False
    then obtain ws1 where w: "add_withheld k m ws = Inr ws1" "ws' = (b, s) # ws1" using "2.prems" by (auto simp: bindE_Inr_iff)
    show ?thesis using "2.IH" [OF False w(1)] False w(2) by auto
  qed
qed

lemma withholding_step_Inr:
  assumes "withholding_step ws e = Inr ws'"
  shows "0 \<le> snd (withheld_entry e) \<and> (\<exists>m. add_withheld (fst (withheld_entry e)) m ws = Inr ws' \<and> units_of m = snd (withheld_entry e))"
  using assms unfolding withholding_step_def withheld_entry_def
  by (auto simp: bindE_Inr_iff refuse_negative_def ensure_Inr_iff split: if_splits option.splits dest!: toUnits_reads parseMoney_reads)

lemma withholding_fold:
  assumes "foldE withholding_step ws es = Inr ws'" "distinct (map fst ws)"
  shows "(\<forall>a. keyed_total a (in_units ws') = keyed_total a (in_units ws) + keyed_total a (map withheld_entry es))
    \<and> distinct (map fst ws') \<and> (\<forall>p \<in> set (map withheld_entry es). 0 \<le> snd p)"
  using assms
proof (induction es arbitrary: ws)
  case (Cons e es)
  obtain ws1 where w: "withholding_step ws e = Inr ws1" "foldE withholding_step ws1 es = Inr ws'" using Cons.prems(1) by (auto simp: bindE_Inr_iff)
  obtain m where m: "add_withheld (fst (withheld_entry e)) m ws = Inr ws1" "units_of m = snd (withheld_entry e)" "0 \<le> snd (withheld_entry e)"
    using withholding_step_Inr [OF w(1)] by blast
  note k = add_withheld_keyed [OF m(1)]
  have "distinct (map fst ws1)" using k Cons.prems(2) by blast
  note IH = Cons.IH [OF w(2) this]
  show ?case using IH k m(2,3) by auto
qed simp

lemma withholding_legs_keyed:
  assumes "withholding_legs custom = Inr ws"
  shows "\<And>a. keyed_total a (in_units ws) = keyed_total a (withheld_entries custom)"
    and "distinct (map fst ws)" and "\<forall>p \<in> set (withheld_entries custom). 0 \<le> snd p"
proof -
  have "(\<forall>a. keyed_total a (in_units ws) = keyed_total a (withheld_entries custom)) \<and> distinct (map fst ws) \<and> (\<forall>p \<in> set (withheld_entries custom). 0 \<le> snd p)"
  proof (cases "\<exists>es. json_get custom ''withholdings'' = Some (JArr es)")
    case True
    then obtain es where es: "json_get custom ''withholdings'' = Some (JArr es)" by blast
    have "foldE withholding_step [] es = Inr ws" using assms es by (simp add: withholding_legs_def)
    from withholding_fold [OF this] show ?thesis by (simp add: withheld_entries_def es)
  next
    case False
    then have "ws = []" using assms by (auto simp: withholding_legs_def split: option.splits json.splits)
    then show ?thesis using False by (auto simp: withheld_entries_def split: option.splits json.splits)
  qed
  then show "\<And>a. keyed_total a (in_units ws) = keyed_total a (withheld_entries custom)"
    "distinct (map fst ws)" "\<forall>p \<in> set (withheld_entries custom). 0 \<le> snd p" by blast+
qed

lemma keyed_totals_sum:
  assumes "\<And>a. keyed_total a ps = keyed_total a qs"
  shows "sum_list (map snd ps) = sum_list (map snd qs)"
proof -
  let ?as = "remdups (map fst (ps @ qs))"
  have "sum_list (map snd ps) = sum_list (map (\<lambda>a. keyed_total a ps) ?as)" by (rule keyed_total_all [symmetric]) auto
  also have "\<dots> = sum_list (map (\<lambda>a. keyed_total a qs) ?as)" using assms by simp
  also have "\<dots> = sum_list (map snd qs)" by (rule keyed_total_all) auto
  finally show ?thesis .
qed

lemma withheld_legs_keyed:
  assumes "collectE (withheld_leg d) ws = Inr legs"
  shows "map (\<lambda>k. (k_accountId k, leg_units k)) legs = map (\<lambda>p. (fst p, - snd p)) (filter (\<lambda>p. snd p \<noteq> 0) (in_units ws))"
    and "\<forall>k \<in> set legs. k_partyId k = d_partyId d"
proof -
  have one: "map (\<lambda>k. (k_accountId k, leg_units k)) ks = (if units_of (snd p) = 0 then [] else [(fst p, - units_of (snd p))])
      \<and> (\<forall>k \<in> set ks. k_partyId k = d_partyId d)" if "withheld_leg d p = Inr ks" for p ks
    using that by (auto simp: withheld_leg_def bindE_Inr_iff leg_units_of dims_def leg_def split: if_splits dest!: money_reads)
  have "traverse (withheld_leg d) ws = Inr kss \<Longrightarrow> map (\<lambda>k. (k_accountId k, leg_units k)) (concat kss) = map (\<lambda>p. (fst p, - snd p)) (filter (\<lambda>p. snd p \<noteq> 0) (in_units ws))
      \<and> (\<forall>k \<in> set (concat kss). k_partyId k = d_partyId d)" for kss
  proof (induction ws arbitrary: kss)
    case (Cons p ws)
    obtain ks kss' where k: "withheld_leg d p = Inr ks" "traverse (withheld_leg d) ws = Inr kss'" "kss = ks # kss'"
      using Cons.prems by (auto simp: bindE_Inr_iff)
    show ?case using Cons.IH [OF k(2)] one [OF k(1)] k(3) by auto
  qed simp
  then show "map (\<lambda>k. (k_accountId k, leg_units k)) legs = map (\<lambda>p. (fst p, - snd p)) (filter (\<lambda>p. snd p \<noteq> 0) (in_units ws))"
    "\<forall>k \<in> set legs. k_partyId k = d_partyId d"
    using assms by (auto simp: collectE_def bindE_Inr_iff)
qed

lemma push_amount_keyed:
  "keyed_total a (map (\<lambda>p. (fst p, sum_list (map units_of (snd p)))) (push_amount k t m))
    = keyed_total a (map (\<lambda>p. (fst p, sum_list (map units_of (snd p)))) m) + (if k = a then units_of t else 0)"
  by (induction k t m rule: push_amount.induct) auto

lemma debit_by_account_keyed:
  assumes "debit_by_account deps lines = Inr m"
  shows "keyed_total a (map (\<lambda>p. (fst p, sum_list (map units_of (snd p)))) m)
      = sum_list (map line_units (filter (\<lambda>l. or_else (l_accountId l) (ca_bank (p_control deps)) = a) lines))"
    and "distinct (map fst m)"
proof -
  have "foldE (\<lambda>m line. bindE (lineTotal line) (\<lambda>t.
      Inr (push_amount (or_else (l_accountId line) (ca_bank (p_control deps))) t m))) acc lines = Inr m \<Longrightarrow> distinct (map fst acc)
    \<Longrightarrow> keyed_total a (map (\<lambda>p. (fst p, sum_list (map units_of (snd p)))) m)
      = keyed_total a (map (\<lambda>p. (fst p, sum_list (map units_of (snd p)))) acc)
        + sum_list (map line_units (filter (\<lambda>l. or_else (l_accountId l) (ca_bank (p_control deps)) = a) lines)) \<and> distinct (map fst m)" for acc
    by (induction lines arbitrary: acc) (auto simp: bindE_Inr_iff push_amount_keyed push_amount_distinct dest!: lineTotal_reads)
  from this [of "[]"] assms show "keyed_total a (map (\<lambda>p. (fst p, sum_list (map units_of (snd p)))) m)
      = sum_list (map line_units (filter (\<lambda>l. or_else (l_accountId l) (ca_bank (p_control deps)) = a) lines))" "distinct (map fst m)"
    by (simp_all add: debit_by_account_def)
qed

lemma debit_legs_keyed:
  assumes "traverse (\<lambda>(accountId, amounts). bindE (sum_money amounts) (\<lambda>m. Inr (dims d (leg accountId m)))) ps = Inr ks"
  shows "map (\<lambda>k. (k_accountId k, leg_units k)) ks = map (\<lambda>p. (fst p, sum_list (map units_of (snd p)))) ps"
  using assms by (induction ps arbitrary: ks) (auto simp: bindE_Inr_iff leg_units_of dims_def leg_def dest!: sum_money_reads)

lemma withheld_legs_total_by_account:
  assumes "collectE (withheld_leg d) ws = Inr legs" "\<And>a. keyed_total a (in_units ws) = keyed_total a es" "distinct (map fst ws)"
  shows "distinct (map k_accountId legs)" "\<forall>k \<in> set legs. k_partyId k = d_partyId d" "\<forall>a. account_total a legs = - keyed_total a es"
    "sum_list (map (\<lambda>p. units_of (snd p)) ws) = sum_list (map snd es)"
proof -
  note k = withheld_legs_keyed [OF assms(1)]
  have "map k_accountId legs = map fst (filter (\<lambda>p. units_of (snd p) \<noteq> 0) ws)"
    using arg_cong [OF k(1), of "map fst"] by (simp add: comp_def filter_map)
  then show "distinct (map k_accountId legs)" using distinct_map_filter [OF assms(3)] by simp
  show "\<forall>k \<in> set legs. k_partyId k = d_partyId d" by (rule k(2))
  show "\<forall>a. account_total a legs = - keyed_total a es"
    unfolding account_total_keyed [OF k(1)] keyed_total_uminus keyed_total_filter assms(2) by blast
  have "sum_list (map snd (in_units ws)) = sum_list (map snd es)" by (rule keyed_totals_sum) (rule assms(2))
  then show "sum_list (map (\<lambda>p. units_of (snd p)) ws) = sum_list (map snd es)" by (simp add: comp_def)
qed

lemma vendor_payment_legs:
  assumes "vendor_payment d lines deps = Inr legs"
  obtains ap bank discountLegs taxLegs ws where "legs = ap # bank # discountLegs @ taxLegs" "readable legs" "sum_list (map leg_units legs) = 0"
    "withholding_legs (d_custom d) = Inr ws" "collectE (withheld_leg d) ws = Inr taxLegs" "0 \<le> units_of (payment_discount d)"
    "leg_units ap = sum_list (map line_units lines) + units_of (payment_discount d) + sum_list (map (\<lambda>p. units_of (snd p)) ws)"
    "k_accountId ap = or_else (controlOverride d) (ca_ap (p_control deps))" "k_partyId ap = d_partyId d" "k_isOpenItem ap = Some True"
    "leg_units bank = - sum_list (map line_units lines)" "k_accountId bank = or_else (case lines of [] \<Rightarrow> None | l # _ \<Rightarrow> l_accountId l) (ca_bank (p_control deps))"
    "if units_of (payment_discount d) = 0 then discountLegs = [] else \<exists>k. discountLegs = [k] \<and> leg_units k = - units_of (payment_discount d)
       \<and> json_text (json_get (d_custom d) ''discountAccountId'') = Some (k_accountId k) \<and> k_partyId k = d_partyId d"
proof (rule bindE_InrE [OF assms [unfolded vendor_payment_def Let_def payment_discount_def [symmetric]]], elim bindE_InrE)
  fix cash ts u1 noDiscount u2 ws withheld u3 payable s bank discountLegs taxLegs
  assume p: "traverse lineTotal lines = Inr ts" "sum_money ts = Inr cash" "refuse_negative (payment_discount d) ''vendor payment discount cannot be negative'' = Inr u1"
    "isZero (payment_discount d) = Inr noDiscount"
    "ensure (\<not> (\<not> noDiscount \<and> \<not> truthy (json_text (json_get (d_custom d) ''discountAccountId'')))) (PostingError ''vendor payment discount account is required'') = Inr u2"
    "withholding_legs (d_custom d) = Inr ws" "sum_money (map snd ws) = Inr withheld" "add_money cash (payment_discount d) = Inr s" "add_money s withheld = Inr payable"
    "neg_money cash = Inr bank" "(if noDiscount then Inr [] else bindE (neg_money (payment_discount d)) (\<lambda>m.
       Inr [dims d ((leg (or_else (json_text (json_get (d_custom d) ''discountAccountId'')) []) m)\<lparr>k_partyId := d_partyId d\<rparr>)])) = Inr discountLegs"
    "collectE (withheld_leg d) ws = Inr taxLegs"
    "Inr (dims d ((leg (or_else (controlOverride d) (ca_ap (p_control deps))) payable)\<lparr>k_partyId := d_partyId d, k_isOpenItem := Some True\<rparr>)
       # dims d (leg (or_else (case lines of [] \<Rightarrow> None | l # _ \<Rightarrow> l_accountId l) (ca_bank (p_control deps))) bank)
       # discountLegs @ taxLegs) = (Inr legs :: kernel_line list result)"
  note cash = lineTotals_sum [OF p(1,2)] and w = sum_money_reads [OF p(7), unfolded map_map comp_def] and z = isZero_reads [OF p(4)]
  have pos: "0 \<le> units_of (payment_discount d)" using p(3) by (auto simp: refuse_negative_def bindE_Inr_iff ensure_Inr_iff dest!: toUnits_reads)
  have disc: "readable discountLegs \<and> sum_list (map leg_units discountLegs) = - units_of (payment_discount d)"
    using p(11) z by (auto simp: bindE_Inr_iff leg_units_of split: if_splits dest!: neg_money_reads)
  let ?ap = "dims d ((leg (or_else (controlOverride d) (ca_ap (p_control deps))) payable)\<lparr>k_partyId := d_partyId d, k_isOpenItem := Some True\<rparr>)"
    and ?bank = "dims d (leg (or_else (case lines of [] \<Rightarrow> None | l # _ \<Rightarrow> l_accountId l) (ca_bank (p_control deps))) bank)"
  have legs: "legs = ?ap # ?bank # discountLegs @ taxLegs" using p(13) by simp
  have ap: "leg_units ?ap = sum_list (map line_units lines) + units_of (payment_discount d) + sum_list (map (\<lambda>p. units_of (snd p)) ws)" "reads (kl_amount ?ap)"
    using cash w add_money_reads [OF p(8)] add_money_reads [OF p(9)] by (simp_all add: leg_units_of)
  have bank: "leg_units ?bank = - sum_list (map line_units lines)" "reads (kl_amount ?bank)"
    using cash neg_money_reads [OF p(10)] by (simp_all add: leg_units_of)
  have total: "readable legs" "sum_list (map leg_units legs) = 0"
    unfolding legs using ap bank disc withheld_legs_total [OF p(12)] by simp_all
  have discount: "if units_of (payment_discount d) = 0 then discountLegs = [] else \<exists>k. discountLegs = [k] \<and> leg_units k = - units_of (payment_discount d)
       \<and> json_text (json_get (d_custom d) ''discountAccountId'') = Some (k_accountId k) \<and> k_partyId k = d_partyId d"
    using p(5,11) z by (auto simp: bindE_Inr_iff ensure_Inr_iff truthy_def leg_units_of dims_def leg_def split: if_splits option.splits dest!: neg_money_reads)
  show thesis
    by (rule that [OF legs total p(6,12) pos ap(1) _ _ _ bank(1) _ discount]) (simp_all add: dims_def leg_def)
qed


lemma vendor_payment_total:
  "vendor_payment d lines deps = Inr legs \<Longrightarrow> readable legs \<and> sum_list (map leg_units legs) = 0"
  by (erule vendor_payment_legs) (rule conjI)

lemma customer_payment_legs:
  assumes "customer_payment d lines deps = Inr legs"
  obtains debit_legs ar feeLegs m where "legs = debit_legs @ ar # feeLegs" "readable legs" "sum_list (map leg_units legs) = 0"
    "debit_by_account deps lines = Inr m" "map (\<lambda>k. (k_accountId k, leg_units k)) debit_legs = map (\<lambda>p. (fst p, sum_list (map units_of (snd p)))) m"
    "leg_units ar = units_of (payment_fee d) - sum_list (map line_units lines)"
    "k_accountId ar = or_else (controlOverride d) (ca_ar (p_control deps))" "k_partyId ar = d_partyId d" "k_isOpenItem ar = Some True"
    "0 \<le> units_of (payment_fee d)" "units_of (payment_fee d) \<le> max 0 (sum_list (map line_units lines))"
    "if units_of (payment_fee d) = 0 then feeLegs = [] else \<exists>k. feeLegs = [k] \<and> leg_units k = - units_of (payment_fee d)
       \<and> json_text (json_get (d_custom d) ''feeIncomeAccountId'') = Some (k_accountId k)"
proof (rule bindE_InrE [OF assms [unfolded customer_payment_def Let_def payment_fee_def [symmetric]]], elim bindE_InrE)
  fix cash ts u receivable nfee m ks credit feeLegs
  assume p: "traverse lineTotal lines = Inr ts" "sum_money ts = Inr cash"
    "fee_guards cash (payment_fee d) (json_text (json_get (d_custom d) ''feeIncomeAccountId'')) = Inr u"
    "neg_money (payment_fee d) = Inr nfee" "add_money cash nfee = Inr receivable" "debit_by_account deps lines = Inr m"
    "traverse (\<lambda>(accountId, amounts). bindE (sum_money amounts) (\<lambda>m. Inr (dims d (leg accountId m)))) m = Inr ks" "neg_money receivable = Inr credit"
    "closing_leg_unless_zero (payment_fee d) (\<lambda>m. dims d (leg (or_else (json_text (json_get (d_custom d) ''feeIncomeAccountId'')) []) m)) = Inr feeLegs"
    "Inr (ks @ dims d ((leg (or_else (controlOverride d) (ca_ar (p_control deps))) credit)\<lparr>k_partyId := d_partyId d, k_isOpenItem := Some True\<rparr>)
       # feeLegs) = (Inr legs :: kernel_line list result)"
  note cash = lineTotals_sum [OF p(1,2)] and fee = fee_guards_Inr [OF p(3)]
  let ?ar = "dims d ((leg (or_else (controlOverride d) (ca_ar (p_control deps))) credit)\<lparr>k_partyId := d_partyId d, k_isOpenItem := Some True\<rparr>)"
  have legs: "legs = ks @ ?ar # feeLegs" using p(10) by simp
  have deb: "readable ks \<and> sum_list (map leg_units ks) = sum_list (map line_units lines)"
    unfolding debit_by_account_total [OF p(6), symmetric]
    by (rule traverse_total [OF p(7)]) (auto simp: bindE_Inr_iff leg_units_of dest!: sum_money_reads)
  have ar: "leg_units ?ar = units_of (payment_fee d) - sum_list (map line_units lines)" "reads (kl_amount ?ar)"
    using cash neg_money_reads [OF p(4)] add_money_reads [OF p(5)] neg_money_reads [OF p(8)] by (simp_all add: leg_units_of)
  have fees: "readable feeLegs" "sum_list (map leg_units feeLegs) = - units_of (payment_fee d)"
    using closing_leg_total [OF p(9)] by simp_all
  have total: "readable legs" "sum_list (map leg_units legs) = 0" unfolding legs using deb ar fees by simp_all
  have "\<not> (units_of (payment_fee d) \<noteq> 0 \<and> \<not> truthy (json_text (json_get (d_custom d) ''feeIncomeAccountId'')))"
    using p(3) by (auto simp: fee_guards_def bindE_Inr_iff ensure_Inr_iff dest!: isZero_reads split: if_splits)
  then have feeLeg: "if units_of (payment_fee d) = 0 then feeLegs = [] else \<exists>k. feeLegs = [k] \<and> leg_units k = - units_of (payment_fee d)
       \<and> json_text (json_get (d_custom d) ''feeIncomeAccountId'') = Some (k_accountId k)"
    using p(9) by (auto simp: closing_leg_unless_zero_def bindE_Inr_iff truthy_def leg_units_of dims_def leg_def split: if_splits option.splits dest!: money_reads)
  have bound: "units_of (payment_fee d) \<le> max 0 (sum_list (map line_units lines))" using fee cash by (auto split: if_splits)
  show thesis
    by (rule that [OF legs total p(6) debit_legs_keyed [OF p(7)] ar(1) _ _ _ _ bound feeLeg]) (use fee in \<open>simp_all add: dims_def leg_def\<close>)
qed

lemma customer_payment_total:
  "customer_payment d lines deps = Inr legs \<Longrightarrow> readable legs \<and> sum_list (map leg_units legs) = 0"
  by (erule customer_payment_legs) (rule conjI)

lemma vendor_payment_relieves:
  assumes "vendor_payment d lines deps = Inr legs"
  shows "\<exists>ap bank discountLegs taxLegs. legs = ap # bank # discountLegs @ taxLegs
      \<and> k_accountId ap = or_else (controlOverride d) (ca_ap (p_control deps)) \<and> k_partyId ap = d_partyId d \<and> k_isOpenItem ap = Some True
      \<and> leg_units ap = sum_list (map line_units lines) + units_of (payment_discount d) + sum_list (map snd (withheld_entries (d_custom d)))
      \<and> k_accountId bank = or_else (case lines of [] \<Rightarrow> None | l # _ \<Rightarrow> l_accountId l) (ca_bank (p_control deps))
      \<and> leg_units bank = - sum_list (map line_units lines)
      \<and> 0 \<le> units_of (payment_discount d) \<and> (\<forall>p \<in> set (withheld_entries (d_custom d)). 0 \<le> snd p)
      \<and> (if units_of (payment_discount d) = 0 then discountLegs = [] else \<exists>k. discountLegs = [k] \<and> leg_units k = - units_of (payment_discount d)
           \<and> json_text (json_get (d_custom d) ''discountAccountId'') = Some (k_accountId k) \<and> k_partyId k = d_partyId d)
      \<and> distinct (map k_accountId taxLegs) \<and> (\<forall>k \<in> set taxLegs. k_partyId k = d_partyId d)
      \<and> (\<forall>a. account_total a taxLegs = - keyed_total a (withheld_entries (d_custom d)))"
  using assms
proof (rule vendor_payment_legs)
  fix ap bank discountLegs taxLegs ws
  assume v: "legs = ap # bank # discountLegs @ taxLegs" "withholding_legs (d_custom d) = Inr ws" "collectE (withheld_leg d) ws = Inr taxLegs"
    "0 \<le> units_of (payment_discount d)"
    "leg_units ap = sum_list (map line_units lines) + units_of (payment_discount d) + sum_list (map (\<lambda>p. units_of (snd p)) ws)"
    "k_accountId ap = or_else (controlOverride d) (ca_ap (p_control deps))" "k_partyId ap = d_partyId d" "k_isOpenItem ap = Some True"
    "leg_units bank = - sum_list (map line_units lines)" "k_accountId bank = or_else (case lines of [] \<Rightarrow> None | l # _ \<Rightarrow> l_accountId l) (ca_bank (p_control deps))"
    and disc: "if units_of (payment_discount d) = 0 then discountLegs = [] else \<exists>k. discountLegs = [k] \<and> leg_units k = - units_of (payment_discount d)
     \<and> json_text (json_get (d_custom d) ''discountAccountId'') = Some (k_accountId k) \<and> k_partyId k = d_partyId d"
  note w = withholding_legs_keyed [OF v(2)]
  note tax = withheld_legs_total_by_account [OF v(3) w(1,2)]
  show ?thesis
    by (intro exI [of _ ap] exI [of _ bank] exI [of _ discountLegs] exI [of _ taxLegs] conjI v(1,4,6-10) w(3) disc tax(1,2,3) v(5) [unfolded tax(4)])
qed

lemma customer_payment_relieves:
  assumes "customer_payment d lines deps = Inr legs"
  shows "\<exists>received ar feeLegs. legs = received @ ar # feeLegs
      \<and> distinct (map k_accountId received)
      \<and> (\<forall>a. account_total a received = sum_list (map line_units (filter (\<lambda>l. or_else (l_accountId l) (ca_bank (p_control deps)) = a) lines)))
      \<and> k_accountId ar = or_else (controlOverride d) (ca_ar (p_control deps)) \<and> k_partyId ar = d_partyId d \<and> k_isOpenItem ar = Some True
      \<and> leg_units ar = - (sum_list (map line_units lines) - units_of (payment_fee d))
      \<and> 0 \<le> units_of (payment_fee d) \<and> units_of (payment_fee d) \<le> max 0 (sum_list (map line_units lines))
      \<and> (if units_of (payment_fee d) = 0 then feeLegs = [] else \<exists>k. feeLegs = [k] \<and> leg_units k = - units_of (payment_fee d)
           \<and> json_text (json_get (d_custom d) ''feeIncomeAccountId'') = Some (k_accountId k))"
  using assms
proof (rule customer_payment_legs)
  fix received ar feeLegs m
  assume v: "legs = received @ ar # feeLegs" "debit_by_account deps lines = Inr m"
    "map (\<lambda>k. (k_accountId k, leg_units k)) received = map (\<lambda>p. (fst p, sum_list (map units_of (snd p)))) m"
    "leg_units ar = units_of (payment_fee d) - sum_list (map line_units lines)"
    "k_accountId ar = or_else (controlOverride d) (ca_ar (p_control deps))" "k_partyId ar = d_partyId d" "k_isOpenItem ar = Some True"
    "0 \<le> units_of (payment_fee d)" "units_of (payment_fee d) \<le> max 0 (sum_list (map line_units lines))"
    and fee: "if units_of (payment_fee d) = 0 then feeLegs = [] else \<exists>k. feeLegs = [k] \<and> leg_units k = - units_of (payment_fee d)
     \<and> json_text (json_get (d_custom d) ''feeIncomeAccountId'') = Some (k_accountId k)"
  have "map k_accountId received = map fst m" using arg_cong [OF v(3), of "map fst"] by (simp add: comp_def)
  then have d: "distinct (map k_accountId received)" using debit_by_account_keyed(2) [OF v(2)] by simp
  have a: "\<forall>a. account_total a received = sum_list (map line_units (filter (\<lambda>l. or_else (l_accountId l) (ca_bank (p_control deps)) = a) lines))"
    using account_total_keyed [OF v(3)] debit_by_account_keyed(1) [OF v(2)] by simp
  have u: "leg_units ar = - (sum_list (map line_units lines) - units_of (payment_fee d))" using v(4) by simp
  show ?thesis by (intro exI [of _ received] exI [of _ ar] exI [of _ feeLegs] conjI v(1,5-9) d a u fee)
qed

text \<open>Expense reports.\<close>

lemma personalReceivableAmount_reads:
  assumes "personalReceivableAmount l deps = Inr t"
  shows "reads t \<and> units_of t = purchase_line_units deps l"
proof -
  obtain cs r b where p: "componentsForLine l deps False = Inr cs" "foldE (\<lambda>recoverable c. if c_calculationType c \<noteq> Standard
      then Inl (PostingError ''personal expense line cannot carry tax'') else add_money recoverable (c_recoverableAmount c)) ''0'' cs = Inr r"
    "purchaseBaseAmount l deps = Inr b" "add_money b r = Inr t"
    using assms by (auto simp: personalReceivableAmount_def bindE_Inr_iff)
  have "foldE (\<lambda>recoverable c. if c_calculationType c \<noteq> Standard
      then Inl (PostingError ''personal expense line cannot carry tax'') else add_money recoverable (c_recoverableAmount c)) a cs = Inr r
    \<Longrightarrow> reads a \<Longrightarrow> reads r \<and> units_of r = units_of a + sum_list (map purchase_units cs)" for a
    by (induction cs arbitrary: a) (auto simp: bindE_Inr_iff purchase_units_def split: if_splits dest!: add_money_reads)
  from this [OF p(2)] show ?thesis
    using purchaseBaseAmount_reads [OF p(3)] add_money_reads [OF p(4)] componentsForLine_Inr(1) [OF p(1)] by (simp add: purchase_line_units_def)
qed

lemma booked_total:
  assumes "bookExpense d deps stamp lines = Inr expense" "purchaseTaxLines d lines deps 1 = Inr tax"
  shows "readable (expense @ tax) \<and> sum_list (map leg_units (expense @ tax)) = sum_list (map (purchase_line_units deps) lines)"
  by (rule purchase_detail_total [OF assms(1) [unfolded bookExpense_def] _ assms(2)]) simp

lemma personal_debits_total:
  assumes "traverse (personal_debit d deps) lines = Inr legs"
  shows "readable legs \<and> sum_list (map leg_units legs) = sum_list (map (purchase_line_units deps) lines)"
  by (rule traverse_total [OF assms]) (auto simp: personal_debit_def Let_def bindE_Inr_iff leg_units_of dest!: personalReceivableAmount_reads)

text \<open>Who a line of an expense report says has paid it: a line that says nothing was paid out of pocket.\<close>

definition paid_by :: "string \<Rightarrow> doc_line \<Rightarrow> bool" where
  "paid_by s l \<longleftrightarrow> or_else (l_settlementType l) ''out_of_pocket'' = s"

lemma settlementOf_paid_by:
  "settlementOf l = Inr Out_of_pocket \<longleftrightarrow> paid_by ''out_of_pocket'' l" "settlementOf l = Inr Company_paid \<longleftrightarrow> paid_by ''company_paid'' l"
  "settlementOf l = Inr Personal \<longleftrightarrow> paid_by ''personal'' l"
  by (auto simp: settlementOf_def paid_by_def Let_def)

lemma settled_lines_filter:
  assumes "settled_lines s lines = Inr ls"
  shows "ls = filter (\<lambda>l. settlementOf l = Inr s) lines" "\<forall>l \<in> set lines. paid_by ''out_of_pocket'' l \<or> paid_by ''company_paid'' l \<or> paid_by ''personal'' l"
proof -
  obtain ss where ss: "traverse settlementOf lines = Inr ss" "ls = map fst (filter (\<lambda>p. snd p = s) (zip lines ss))"
    using assms by (auto simp: settled_lines_def bindE_Inr_iff)
  from ss(1) have "map fst (filter (\<lambda>p. snd p = s) (zip lines ss)) = filter (\<lambda>l. settlementOf l = Inr s) lines
    \<and> (\<forall>l \<in> set lines. \<exists>x. settlementOf l = Inr x)"
    by (induction lines arbitrary: ss) (auto simp: bindE_Inr_iff)
  moreover have "paid_by ''out_of_pocket'' l \<or> paid_by ''company_paid'' l \<or> paid_by ''personal'' l" if "settlementOf l = Inr x" for l x
    using that by (auto simp: settlementOf_def paid_by_def Let_def split: if_splits)
  ultimately show "ls = filter (\<lambda>l. settlementOf l = Inr s) lines"
    "\<forall>l \<in> set lines. paid_by ''out_of_pocket'' l \<or> paid_by ''company_paid'' l \<or> paid_by ''personal'' l" using ss(2) by blast+
qed

lemma settled_lines_paid_by:
  "settled_lines Out_of_pocket lines = Inr ls \<Longrightarrow> ls = filter (paid_by ''out_of_pocket'') lines"
  "settled_lines Company_paid lines = Inr ls \<Longrightarrow> ls = filter (paid_by ''company_paid'') lines"
  "settled_lines Personal lines = Inr ls \<Longrightarrow> ls = filter (paid_by ''personal'') lines"
  using settled_lines_filter(1) by (fastforce simp: settlementOf_paid_by)+

lemma personal_line_settles:
  assumes "personalReceivableAmount l deps = Inr t" "tax_split deps l"
  shows "purchase_line_units deps l = line_units l"
proof -
  obtain cs where cs: "componentsForLine l deps False = Inr cs" using assms(1) by (auto simp: personalReceivableAmount_def bindE_Inr_iff)
  then show ?thesis using purchase_line_total [of l deps] componentsForLine_Inr(1) [OF cs] assms(2) by (simp add: purchase_line_units_def)
qed

lemma personal_debits_settle:
  assumes "traverse (personal_debit d deps) ls = Inr legs" "\<forall>l \<in> set ls. tax_split deps l"
  shows "map leg_units legs = map line_units ls \<and> (\<forall>k \<in> set legs. k_accountId k = or_else (ca_employeeReceivable (p_control deps)) [])"
  using assms
proof (induction ls arbitrary: legs)
  case (Cons l ls)
  obtain k legs' where l: "personal_debit d deps l = Inr k" "traverse (personal_debit d deps) ls = Inr legs'" "legs = k # legs'"
    using Cons.prems(1) by (auto simp: bindE_Inr_iff)
  obtain t where t: "personalReceivableAmount l deps = Inr t" "kl_amount k = t" "k_accountId k = or_else (ca_employeeReceivable (p_control deps)) []"
    using l(1) by (auto simp: personal_debit_def Let_def bindE_Inr_iff detail_leg_def line_dims_def leg_def)
  show ?case using Cons.IH [OF l(2)] Cons.prems(2) l(3) t(2,3) personal_line_settles [OF t(1)] personalReceivableAmount_reads [OF t(1)]
    by (simp add: leg_units_of)
qed simp

text \<open>The one leg that closes an amount, or none for nothing.\<close>

lemma closing_leg_shape:
  assumes "closing_leg_unless_zero tot build = Inr ks" "\<And>m. kl_amount (build m) = m"
  shows "if units_of tot = 0 then ks = [] else ks = [build (fromUnits (- units_of tot))]"
  using assms by (auto simp: closing_leg_unless_zero_def bindE_Inr_iff neg_money_units reads_def split: if_splits dest!: isZero_reads)

lemma expense_report_legs:
  assumes "expense_report d lines deps = Inr legs"
  obtains booked receivable payable cardLegs oop card personal tax1 tax2 where
    "legs = booked @ receivable @ payable @ cardLegs" "readable legs" "sum_list (map leg_units legs) = 0"
    "settled_lines Out_of_pocket lines = Inr oop" "settled_lines Company_paid lines = Inr card" "settled_lines Personal lines = Inr personal"
    "purchaseTaxLines d oop deps 1 = Inr tax1" "purchaseTaxLines d card deps 1 = Inr tax2" "traverse (personal_debit d deps) personal = Inr receivable"
    "card @ personal \<noteq> [] \<longrightarrow> truthy (p_cardLiabilityAccountId deps)" "personal \<noteq> [] \<longrightarrow> truthy (ca_employeeReceivable (p_control deps))"
    "sum_list (map leg_units booked) = sum_list (map (purchase_line_units deps) oop) + sum_list (map (purchase_line_units deps) card)"
    "if sum_list (map (purchase_line_units deps) oop) = 0 then payable = []
     else \<exists>k. payable = [k] \<and> leg_units k = - sum_list (map (purchase_line_units deps) oop) \<and> k_partyId k = d_partyId d
       \<and> k_accountId k = or_else (nullish (controlOverride d) (ca_employeePayable (p_control deps))) (ca_ap (p_control deps))
       \<and> k_isOpenItem k = Some (d_partyId d \<noteq> None \<and> k_accountId k \<in> set (p_openItemAccountIds deps))"
    "if sum_list (map (purchase_line_units deps) (card @ personal)) = 0 then cardLegs = []
     else \<exists>k. cardLegs = [k] \<and> leg_units k = - sum_list (map (purchase_line_units deps) (card @ personal)) \<and> k_partyId k = None
       \<and> p_cardLiabilityAccountId deps = Some (k_accountId k) \<and> k_isOpenItem k = Some False"
proof (rule bindE_InrE [OF assms [unfolded expense_report_def Let_def]], elim bindE_InrE)
  let ?control = "or_else (nullish (controlOverride d) (ca_employeePayable (p_control deps))) (ca_ap (p_control deps))"
  let ?pay = "\<lambda>m. dims d ((leg ?control m)\<lparr>k_partyId := d_partyId d, k_isOpenItem := Some (controlLineIsOpenItem ?control (d_partyId d) (p_openItemAccountIds deps))\<rparr>)"
  let ?fund = "\<lambda>m. dims d ((leg (or_else (p_cardLiabilityAccountId deps) []) m)\<lparr>k_paymentCardId := d_paymentCardId d, k_isOpenItem := Some False\<rparr>)"
  fix oop card personal u1 u2 oopExpense oopTax oopTotal cardExpense cardTax personalDebit personalTotal cardSubtotal oopLeg cardFunded cardLeg
  assume p: "settled_lines Out_of_pocket lines = Inr oop" "settled_lines Company_paid lines = Inr card" "settled_lines Personal lines = Inr personal"
    "ensure (\<not> (card @ personal \<noteq> [] \<and> \<not> truthy (p_cardLiabilityAccountId deps)))
       (PostingError ''company-paid and personal expense lines require a payment card on the report'') = Inr u1"
    "ensure (\<not> (personal \<noteq> [] \<and> \<not> truthy (ca_employeeReceivable (p_control deps))))
       (PostingError ''personal expense lines require an employee-receivable control account'') = Inr u2"
    "bookExpense d deps False oop = Inr oopExpense" "purchaseTaxLines d oop deps 1 = Inr oopTax" "sum_money (map kl_amount (oopExpense @ oopTax)) = Inr oopTotal"
    "bookExpense d deps True card = Inr cardExpense" "purchaseTaxLines d card deps 1 = Inr cardTax" "traverse (personal_debit d deps) personal = Inr personalDebit"
    "sum_money (map kl_amount personalDebit) = Inr personalTotal" "sum_money (map kl_amount (cardExpense @ cardTax)) = Inr cardSubtotal"
    "closing_leg_unless_zero oopTotal ?pay = Inr oopLeg" "sum_money [cardSubtotal, personalTotal] = Inr cardFunded" "closing_leg_unless_zero cardFunded ?fund = Inr cardLeg"
    "Inr (oopExpense @ oopTax @ cardExpense @ cardTax @ personalDebit @ oopLeg @ cardLeg) = (Inr legs :: kernel_line list result)"
  note o1 = booked_total [OF p(6,7)] and o2 = sum_legs [OF p(8)] and c1 = booked_total [OF p(9,10)] and c2 = sum_legs [OF p(13)]
    and q1 = personal_debits_total [OF p(11)] and q2 = sum_legs [OF p(12)] and f = sum_money_reads [OF p(15)]
  let ?booked = "(oopExpense @ oopTax) @ cardExpense @ cardTax"
  have legs: "legs = ?booked @ personalDebit @ oopLeg @ cardLeg" using p(17) by simp
  have cards: "card @ personal \<noteq> [] \<longrightarrow> truthy (p_cardLiabilityAccountId deps)" and recv: "personal \<noteq> [] \<longrightarrow> truthy (ca_employeeReceivable (p_control deps))"
    using p(4,5) by (auto simp: ensure_Inr_iff)
  have bk: "sum_list (map leg_units ?booked) = sum_list (map (purchase_line_units deps) oop) + sum_list (map (purchase_line_units deps) card)" "readable ?booked"
    using o1 c1 by simp_all
  have O: "units_of oopTotal = sum_list (map (purchase_line_units deps) oop)" using o1 o2 by simp
  have C: "units_of cardFunded = sum_list (map (purchase_line_units deps) (card @ personal))" using c1 c2 q1 q2 f by simp
  have pl: "reads oopTotal \<and> readable oopLeg \<and> sum_list (map leg_units oopLeg) = - units_of oopTotal" by (rule closing_leg_total [OF p(14)]) (simp add: dims_def leg_def)
  have fl: "reads cardFunded \<and> readable cardLeg \<and> sum_list (map leg_units cardLeg) = - units_of cardFunded" by (rule closing_leg_total [OF p(16)]) (simp add: dims_def leg_def)
  have total: "readable legs" "sum_list (map leg_units legs) = 0" unfolding legs using bk q1 pl fl O C by simp_all
  have "if units_of oopTotal = 0 then oopLeg = [] else oopLeg = [?pay (fromUnits (- units_of oopTotal))]"
    by (rule closing_leg_shape [OF p(14)]) (simp add: dims_def leg_def)
  then have pay: "if sum_list (map (purchase_line_units deps) oop) = 0 then oopLeg = []
     else \<exists>k. oopLeg = [k] \<and> leg_units k = - sum_list (map (purchase_line_units deps) oop) \<and> k_partyId k = d_partyId d \<and> k_accountId k = ?control
       \<and> k_isOpenItem k = Some (d_partyId d \<noteq> None \<and> k_accountId k \<in> set (p_openItemAccountIds deps))"
    unfolding O by (auto simp: leg_units_of dims_def leg_def controlLineIsOpenItem_def)
  have "if units_of cardFunded = 0 then cardLeg = [] else cardLeg = [?fund (fromUnits (- units_of cardFunded))]"
    by (rule closing_leg_shape [OF p(16)]) (simp add: dims_def leg_def)
  moreover have "\<exists>a. p_cardLiabilityAccountId deps = Some a" if "units_of cardFunded \<noteq> 0"
    using that cards unfolding C by (auto simp: truthy_def split: option.splits)
  ultimately have fund: "if sum_list (map (purchase_line_units deps) (card @ personal)) = 0 then cardLeg = []
     else \<exists>k. cardLeg = [k] \<and> leg_units k = - sum_list (map (purchase_line_units deps) (card @ personal)) \<and> k_partyId k = None
       \<and> p_cardLiabilityAccountId deps = Some (k_accountId k) \<and> k_isOpenItem k = Some False"
    unfolding C by (auto simp: leg_units_of dims_def leg_def)
  show thesis by (rule that [OF legs total p(1,2,3,7,10,11) cards recv bk(1) pay fund])
qed

lemma expense_report_total: "expense_report d lines deps = Inr legs \<Longrightarrow> readable legs \<and> sum_list (map leg_units legs) = 0"
  by (erule expense_report_legs) (rule conjI)

section \<open>Cash documents\<close>

lemma no_charge_legs_total:
  assumes "noChargeMeasurementLegs d lines account sign = Inr legs"
  shows "readable legs \<and> sum_list (map leg_units legs) = 0"
proof -
  have f: "foldE (\<lambda>out line. bindE (no_charge_leg d account sign line) (\<lambda>ks. Inr (out @ ks))) [] lines = Inr legs"
    using assms by (auto simp: noChargeMeasurementLegs_def bindE_Inr_iff split: if_splits)
  have "readable ks \<and> sum_list (map leg_units ks) = 0" if "no_charge_leg d account sign l = Inr ks" for l ks
    using that unfolding no_charge_leg_def by (auto simp: bindE_Inr_iff leg_units_of split: option.splits if_splits)
  with foldE_pushes [OF f, of "\<lambda>_. 0"] show ?thesis by simp
qed

text \<open>A document with nothing to tender posts its legs as they are, or measurements when they are all zero.\<close>

lemma settledAtNoCharge_total:
  assumes "settledAtNoCharge d lines legs deps sign = Inr out" "readable legs"
  shows "readable out \<and> (sum_list (map leg_units legs) = 0 \<longrightarrow> sum_list (map leg_units out) = 0)"
  using assms no_charge_legs_total by (auto simp: settledAtNoCharge_def bindE_Inr_iff split: if_splits)

lemma assertTendersMatchTotal_units:
  "assertTendersMatchTotal tenders t = Inr u \<Longrightarrow> (\<forall>x \<in> set tenders. reads (t_amount x)) \<and> sum_list (map (\<lambda>x. units_of (t_amount x)) tenders) = \<bar>units_of t\<bar>"
  by (auto simp: assertTendersMatchTotal_def bindE_Inr_iff ensure_Inr_iff comp_def dest!: money_reads)

definition closeout_units :: "cash_sale_closeout \<Rightarrow> int" where
  "closeout_units c = units_of (co_tipsTotal c) - units_of (co_feeTotal c) + units_of (co_overShort c)"

lemma closeout_expected_reads:
  "closeout_expected t c = Inr e \<Longrightarrow> reads (co_feeTotal c) \<and> reads e \<and> units_of e = \<bar>units_of t\<bar> + closeout_units c"
  by (auto simp: closeout_expected_def expectedTenderedForCloseout_def closeout_units_def bindE_Inr_iff dest!: money_reads)

lemma assertCloseout_units:
  "assertCloseoutTendersMatchTotal tenders t c = Inr u \<Longrightarrow> (\<forall>x \<in> set tenders. reads (t_amount x))
    \<and> sum_list (map (\<lambda>x. units_of (t_amount x)) tenders) = \<bar>units_of t\<bar> + closeout_units c"
  by (auto simp: assertCloseoutTendersMatchTotal_def bindE_Inr_iff ensure_Inr_iff comp_def dest!: closeout_expected_reads money_reads)

lemma closeout_legs_total:
  assumes "closeout_legs d c = Inr ks"
  shows "readable ks \<and> sum_list (map leg_units ks) = - closeout_units c"
  using assms unfolding closeout_legs_def Let_def
  apply (elim bindE_InrE)
  subgoal premises p for tips tipLegs fee over overLegs
  proof -
    have "readable tipLegs \<and> sum_list (map leg_units tipLegs) = - units_of (co_tipsTotal c)"
      using p(1,2) by (auto simp: bindE_Inr_iff leg_units_of split: if_splits dest!: money_reads)
    moreover have "readable overLegs \<and> sum_list (map leg_units overLegs) = - units_of (co_overShort c)"
      using p(4,5) by (auto simp: bindE_Inr_iff leg_units_of split: if_splits dest!: money_reads)
    moreover have "reads (co_feeTotal c) \<and> (fee = 0 \<longleftrightarrow> units_of (co_feeTotal c) = 0)" using p(3) by (auto dest!: money_reads)
    ultimately show ?thesis using p(6) by (auto simp: closeout_units_def leg_units_of)
  qed
  done

lemma tender_legs_total:
  "\<forall>x \<in> set tenders. reads (t_amount x) \<Longrightarrow> readable (map (\<lambda>t. tender_leg d t (t_amount t)) tenders)
    \<and> sum_list (map leg_units (map (\<lambda>t. tender_leg d t (t_amount t)) tenders)) = sum_list (map (\<lambda>x. units_of (t_amount x)) tenders)"
  by (induction tenders) (auto simp: leg_units_of)

lemma payouts_total:
  assumes "traverse (\<lambda>t. bindE (neg_money (t_amount t)) (\<lambda>m. Inr (tender_leg d t m))) tenders = Inr payouts"
  shows "readable payouts \<and> sum_list (map leg_units payouts) = - sum_list (map (\<lambda>x. units_of (t_amount x)) tenders)"
  unfolding sum_list_map_uminus [symmetric] by (rule traverse_total [OF assms]) (auto simp: bindE_Inr_iff leg_units_of dest!: neg_money_reads)

lemma cash_sale_total:
  assumes "cashSaleRule d lines deps = Inr legs" "p_cashTenders deps \<noteq> [] \<or> p_cashCloseout deps = None" "0 \<le> sum_list (map line_units lines)"
  shows "readable legs \<and> sum_list (map leg_units legs) = 0"
  using assms(1) unfolding cashSaleRule_def Let_def
  apply (elim bindE_InrE)
  subgoal premises p for income tax incomeAndTax due u
  proof -
    note t = sales_detail_total [OF p(1,2)] and s = sum_legs [OF p(3)]
    have T: "units_of incomeAndTax = - sum_list (map line_units lines)" using t s by simp
    show ?thesis
    proof (cases "p_cashTenders deps = []")
      case True
      then have "p_cashCloseout deps = None" using assms(2) by simp
      then have "abs_money incomeAndTax = Inr due" "cmp_money due ''0'' = Inr 0" using p(4,5) True
        by (auto simp: assertCashTendersPresent_def bindE_Inr_iff ensure_Inr_iff)
      then have "units_of incomeAndTax = 0" by (auto dest!: money_reads)
      then show ?thesis using settledAtNoCharge_total [of d lines "income @ tax" deps 1 legs] p(6) True t T by simp
    next
      case False
      obtain closing where c: "(case p_cashCloseout deps of Some c \<Rightarrow> closeout_legs d c | None \<Rightarrow> Inr []) = Inr closing"
        "legs = map (\<lambda>t. tender_leg d t (t_amount t)) (p_cashTenders deps) @ closing @ income @ tax"
        and m: "(case p_cashCloseout deps of Some c \<Rightarrow> bindE (assertCloseoutTendersMatchTotal (p_cashTenders deps) incomeAndTax c) (\<lambda>_. closeout_guards c)
         | None \<Rightarrow> assertTendersMatchTotal (p_cashTenders deps) incomeAndTax) = Inr ()"
        using p(6) False by (auto elim!: bindE_InrE)
      show ?thesis
      proof (cases "p_cashCloseout deps")
        case None
        then show ?thesis using m c assertTendersMatchTotal_units [of "p_cashTenders deps" incomeAndTax "()"] tender_legs_total [of "p_cashTenders deps" d] t T assms(3)
          by simp
      next
        case (Some co)
        then have "assertCloseoutTendersMatchTotal (p_cashTenders deps) incomeAndTax co = Inr ()" "closeout_legs d co = Inr closing"
          using m c(1) by (auto simp: bindE_Inr_iff)
        then show ?thesis using c(2) assertCloseout_units [of "p_cashTenders deps" incomeAndTax co "()"] tender_legs_total [of "p_cashTenders deps" d]
            closeout_legs_total [of d co closing] t T assms(3) by simp
      qed
    qed
  qed
  done

lemma cash_refund_total:
  assumes "cash_refund d lines deps = Inr legs" "0 \<le> sum_list (map line_units lines)"
  shows "readable legs \<and> sum_list (map leg_units legs) = 0"
  using assms(1) unfolding cash_refund_def Let_def
  apply (elim bindE_InrE)
  subgoal premises p for income tax incomeAndTax due u
  proof -
    note t = sales_reversal_total [OF p(1,2)] and s = sum_legs [OF p(3)]
    have T: "units_of incomeAndTax = sum_list (map line_units lines)" using t s by simp
    show ?thesis
    proof (cases "p_cashTenders deps = []")
      case True
      then have "cmp_money due ''0'' = Inr 0" using p(5) by (auto simp: assertCashTendersPresent_def bindE_Inr_iff ensure_Inr_iff)
      then have "units_of incomeAndTax = 0" using p(4) by (auto dest!: money_reads)
      then show ?thesis using settledAtNoCharge_total [of d lines "income @ tax" deps "- 1" legs] p(6) True t T by simp
    next
      case False
      then obtain payouts where m: "assertTendersMatchTotal (p_cashTenders deps) incomeAndTax = Inr ()"
        and c: "traverse (\<lambda>t. bindE (neg_money (t_amount t)) (\<lambda>m. Inr (tender_leg d t m))) (p_cashTenders deps) = Inr payouts" "legs = payouts @ income @ tax"
        using p(6) by (auto elim!: bindE_InrE)
      then show ?thesis using assertTendersMatchTotal_units [OF m] payouts_total [OF c(1)] t T assms(2) by simp
    qed
  qed
  done

section \<open>The rules that balance by themselves\<close>

interpretation vendor_bill_rule: balanced_rule vendor_bill
  by unfold_locales (use vendor_bill_closes closes_total(2) in blast)

interpretation check_rule: balanced_rule check_rule
  by unfold_locales (use check_closes closes_total(2) in blast)

interpretation card_rule: balanced_rule cardRule
  by unfold_locales (use card_closes closes_total(2) in blast)

interpretation vendor_credit_rule: balanced_rule vendor_credit
  by unfold_locales (use vendor_credit_closes closes_total(3) in blast)

interpretation customer_invoice_rule: balanced_rule customer_invoice
  by unfold_locales (use customer_invoice_closes closes_total(3) in blast)

interpretation customer_credit_rule: balanced_rule customer_credit
  by unfold_locales (use customer_credit_closes closes_total(3) in blast)

interpretation vendor_payment_rule: balanced_rule vendor_payment
  by unfold_locales (rule vendor_payment_total)

interpretation customer_payment_rule: balanced_rule customer_payment
  by unfold_locales (rule customer_payment_total)

interpretation expense_report_rule: balanced_rule expense_report
  by unfold_locales (rule expense_report_total)

interpretation deposit_rule: balanced_rule deposit
  by unfold_locales (rule deposit_total)

interpretation transfer_rule: balanced_rule transfer
  by unfold_locales (rule transfer_total)

interpretation project_charge_rule: balanced_rule projectChargeKernelLines
  by unfold_locales (rule project_charge_total)

interpretation internal_billing_rule: balanced_rule internal_billing
  by unfold_locales (rule internal_billing_rule_total)

abbreviation (input) STATED_KINDS :: "string list" where
  "STATED_KINDS \<equiv> [''journal'', ''pay_run'', ''cash_sale'', ''cash_refund'']"

lemma rules_balance:
  assumes "RULES k = Some rule" "k \<notin> set STATED_KINDS"
  shows "balanced_rule rule"
  using assms vendor_bill_rule.balanced_rule_axioms check_rule.balanced_rule_axioms card_rule.balanced_rule_axioms
    vendor_credit_rule.balanced_rule_axioms customer_invoice_rule.balanced_rule_axioms customer_credit_rule.balanced_rule_axioms
    vendor_payment_rule.balanced_rule_axioms customer_payment_rule.balanced_rule_axioms expense_report_rule.balanced_rule_axioms
    deposit_rule.balanced_rule_axioms transfer_rule.balanced_rule_axioms project_charge_rule.balanced_rule_axioms
    internal_billing_rule.balanced_rule_axioms
  unfolding RULES_def map_of.simps by (auto split: if_split_asm)

lemma projection_Inr:
  assumes "buildProjection d lines deps defer = Inr kl" "d_kind d \<notin> set STATED_KINDS"
  shows "readable kl" "sum_list (map leg_units kl) = 0" "\<not> list_ex is_orphan kl"
    "\<exists>rule legs. RULES (d_kind d) = Some rule \<and> rule d lines deps = Inr legs \<and> retainedKernelLines legs (d_journalMode d = Some ''statistical'') = Inr kl"
proof -
  obtain rule legs where r: "RULES (d_kind d) = Some rule" "rule d lines deps = Inr legs"
    "retainedKernelLines legs (d_journalMode d = Some ''statistical'') = Inr kl" "\<not> list_ex is_orphan kl"
    using assms(1) unfolding buildProjection_def by (auto split: option.splits if_split_asm elim!: bindE_InrE)
  show "readable kl" "sum_list (map leg_units kl) = 0"
    using balanced_rule.projection_total [OF rules_balance [OF r(1) assms(2)] r(2,3)] by simp_all
  show "\<not> list_ex is_orphan kl" "\<exists>rule legs. RULES (d_kind d) = Some rule \<and> rule d lines deps = Inr legs
    \<and> retainedKernelLines legs (d_journalMode d = Some ''statistical'') = Inr kl" using r by blast+
qed

lemma balance_check_idle:
  assumes "d_kind d \<notin> set STATED_KINDS"
  shows "buildProjection d lines deps False = buildProjection d lines deps True"
proof (cases "RULES (d_kind d)")
  case (Some rule)
  have "bindE (retainedKernelLines legs st) (\<lambda>kl. bindE (assert_balanced (map kl_amount kl) e) (\<lambda>_. f kl)) = bindE (retainedKernelLines legs st) f"
    if "rule d lines deps = Inr legs" for legs st e and f :: "kernel_line list \<Rightarrow> kernel_line list result"
    using balanced_rule.never_refused_for_balance [OF rules_balance [OF Some assms] that] by (cases "retainedKernelLines legs st") simp_all
  then show ?thesis unfolding buildProjection_def using Some by (cases "rule d lines deps") simp_all
qed (simp add: buildProjection_def)

text \<open>The functional-currency stamp of a line in its legal entity, \<open>engine/src/ledger/posting-subsidiaries.ts\<close>.\<close>

definition stamp_line :: "string \<Rightarrow> string \<Rightarrow> kernel_line \<Rightarrow> kernel_leg result" where
  "stamp_line docSubId fxRate line =
     bindE (if k_isCurrencyAdjustment line = Some True then Inr (kl_amount line) else mulRate (kl_amount line) fxRate) (\<lambda>amount.
     Inr \<lparr>kl_amount = amount, kl_quantity = kl_quantity line, kl_unit = kl_unit line, kl_subsidiaryId = or_else (k_subsidiaryId line) docSubId\<rparr>)"

lemma mulRate_one: "reads a \<Longrightarrow> mulRate a ''1'' = Inr (fromUnits (units_of a))"
proof -
  assume a: "reads a"
  have "fx_rate_units ''1'' = Inr RATE_SCALE" by code_simp
  then show ?thesis using mulRate_units [OF a [unfolded reads_def]] by simp
qed

lemma stamp_line_one:
  assumes "reads (kl_amount k)" "k_subsidiaryId k \<in> {None, Some s}"
  shows "\<exists>l. stamp_line s ''1'' k = Inr l \<and> kl_subsidiaryId l = s \<and> reads (kl_amount l) \<and> leg_units l = leg_units k \<and> isMeasurementLeg l = isMeasurementLeg k"
proof -
  have "isZero (fromUnits (units_of (kl_amount k))) = isZero (kl_amount k)" using assms(1) by (simp add: isZero_units reads_def)
  then show ?thesis using assms by (auto simp: stamp_line_def mulRate_one leg_units_of isMeasurementLeg_def cong: if_cong)
qed

lemma stamped_one_entity:
  assumes "\<forall>k \<in> set kl. k_subsidiaryId k \<in> {None, Some s}" "readable kl"
  shows "\<exists>legs. traverse (stamp_line s ''1'') kl = Inr legs \<and> length legs = length kl \<and> readable legs \<and> map leg_units legs = map leg_units kl
    \<and> map isMeasurementLeg legs = map isMeasurementLeg kl \<and> (\<forall>l \<in> set legs. kl_subsidiaryId l = s)"
  using assms
proof (induction kl)
  case (Cons k kl)
  then obtain legs where "traverse (stamp_line s ''1'') kl = Inr legs" "length legs = length kl" "readable legs" "map leg_units legs = map leg_units kl"
    "map isMeasurementLeg legs = map isMeasurementLeg kl" "\<forall>l \<in> set legs. kl_subsidiaryId l = s" by auto
  moreover obtain l where "stamp_line s ''1'' k = Inr l" "kl_subsidiaryId l = s" "reads (kl_amount l)" "leg_units l = leg_units k"
    "isMeasurementLeg l = isMeasurementLeg k" using stamp_line_one [of k s] Cons.prems by auto
  ultimately show ?case by (intro exI [of _ "l # legs"]) simp
qed simp

lemma one_entity_posts:
  assumes "\<forall>k \<in> set kl. k_subsidiaryId k \<in> {None, Some s}" "readable kl" "sum_list (map leg_units kl) = 0"
    "2 \<le> length kl \<or> (\<exists>l. kl = [l] \<and> isMeasurementLeg l = Inr True)"
  shows "\<exists>legs. traverse (stamp_line s ''1'') kl = Inr legs \<and> assertFinalKernelBalance legs = Inr ()"
proof -
  obtain legs where l: "traverse (stamp_line s ''1'') kl = Inr legs" "length legs = length kl" "readable legs" "map leg_units legs = map leg_units kl"
    "map isMeasurementLeg legs = map isMeasurementLeg kl" "\<forall>l \<in> set legs. kl_subsidiaryId l = s"
    using stamped_one_entity [OF assms(1,2)] by blast
  have "subsidiary_balance legs t = 0" for t
  proof (cases "t = s")
    case True
    then have "filter (\<lambda>l. kl_subsidiaryId l = t) legs = legs" using l(6) by simp
    then show ?thesis using l(4) assms(3) by (simp add: subsidiary_balance_def)
  next
    case False
    then have "filter (\<lambda>l. kl_subsidiaryId l = t) legs = []" using l(6) by (auto simp: filter_empty_conv)
    then show ?thesis by (simp add: subsidiary_balance_def)
  qed
  moreover have "2 \<le> length legs \<or> (\<exists>l. legs = [l] \<and> isMeasurementLeg l = Inr True)"
    using assms(4) l(2,5) by (cases legs; cases "tl legs") auto
  ultimately show ?thesis using l(1) final_balance_iff [OF l(3)] by blast
qed

section \<open>Example documents\<close>

definition sample_doc :: doc where
  "sample_doc = \<lparr>d_kind = ''customer_invoice'', d_documentNumber = ''INV-7'', d_documentDate = ''2026-03-31'', d_postingDate = None,
     d_dueDate = Some ''2026-04-30'', d_currency = ''CAD'', d_subsidiaryId = None, d_partyId = Some ''acme'', d_departmentId = Some ''shop'',
     d_projectId = None, d_locationId = None, d_classId = None, d_extraDims = Map.empty, d_paymentCardId = Some ''visa'',
     d_internalBillingRuleId = Some ''r1'', d_journalMode = None, d_custom = JNull\<rparr>"

definition sample_line :: doc_line where
  "sample_line = \<lparr>l_id = ''l1'', l_lineNumber = 1, l_accountId = Some ''4000'', l_recoveryAccountId = Some ''4900'', l_description = Some ''Work'',
     l_amount = ''100.00'', l_taxAmount = Some ''13.0000'', l_taxCodeId = Some ''HST'', l_taxGroupId = None, l_quantity = ''1'', l_unit = None,
     l_partyId = None, l_subsidiaryId = None, l_departmentId = Some ''field'', l_projectId = None, l_locationId = None, l_classId = None,
     l_equipmentUnitId = None, l_extraDims = Map.empty, l_settlementType = None, l_isBillable = False, l_journalCurrency = None,
     l_journalFxRate = None, l_journalEliminate = None, l_custom = JNull\<rparr>"

definition sample_component :: tax_posting_component where
  "sample_component = \<lparr>c_taxCodeId = ''HST'', c_collectedBy = Merchant, c_facilitatorName = None, c_taxAmount = ''13'', c_recoverableAmount = ''10'',
     c_nonrecoverableAmount = ''3'', c_calculationType = Standard, c_collectedAccountId = Some ''2310'', c_paidAccountId = Some ''2320'', c_withholdingAccountId = None\<rparr>"

definition sample_deps :: posting_deps where
  "sample_deps = \<lparr>p_agencyByLine = Map.empty, p_control = \<lparr>ca_ar = ''1200'', ca_ap = ''2000'', ca_bank = ''1000'', ca_taxCollected = None,
       ca_taxPaid = None, ca_employeePayable = None, ca_employeeReceivable = Some ''1250''\<rparr>,
     p_cardLiabilityAccountId = Some ''2100'', p_openItemAccountIds = [''1200'', ''2000''], p_taxCollectedByCode = Map.empty, p_taxPaidByCode = Map.empty,
     p_taxComponentsByLine = (\<lambda>l. if l = ''l1'' then Some [sample_component] else None), p_marketplaceClearingByName = Map.empty,
     p_deferralAccountByLine = Map.empty, p_inventoryAssetByLine = Map.empty, p_inventoryReturnOffsetByLine = Map.empty,
     p_amortizationByLine = Map.empty, p_storedValueLiabilityByLine = Map.empty, p_storeCreditLiabilityAccountId = None,
     p_cashTenders = [\<lparr>t_kind = ''cash'', t_methodLabel = ''Cash'', t_accountId = ''1010'', t_amount = ''113.0000'', t_reference = None, t_storedValueAccountId = None\<rparr>],
     p_cashCloseout = None, p_noChargeUnitsAccountId = None, p_internalBilling = None\<rparr>"

abbreviation (input) sample_lines :: "doc_line list" where "sample_lines \<equiv> [sample_line]"

lemma sample_units: "units_of ''100.00'' = 1000000" "units_of ''13.0000'' = 130000" "units_of ''13'' = 130000" "units_of ''10'' = 100000" "units_of ''3'' = 30000"
  by code_simp+

lemma sample_totals: "sum_list (map line_units sample_lines) = 1130000" "tax_split sample_deps sample_line"
  by (simp_all add: line_units_def line_tax_units_def sample_line_def sample_units tax_split_def line_components_def sample_deps_def sample_component_def)

definition expense_lines :: "doc_line list" where
  "expense_lines = [sample_line, sample_line\<lparr>l_settlementType := Some ''company_paid''\<rparr>, sample_line\<lparr>l_settlementType := Some ''personal''\<rparr>]"

lemma sample_projects:
  "returns (buildProjection sample_doc sample_lines sample_deps False)"
  "returns (customer_invoice sample_doc sample_lines sample_deps)" "returns (customer_credit sample_doc sample_lines sample_deps)"
  "returns (vendor_bill sample_doc sample_lines sample_deps)" "returns (check_rule sample_doc sample_lines sample_deps)"
  "returns (cardRule sample_doc sample_lines sample_deps)" "returns (vendor_credit sample_doc sample_lines sample_deps)"
  "returns (cashSaleRule sample_doc sample_lines sample_deps)" "returns (cash_refund sample_doc sample_lines sample_deps)"
  "returns (vendor_payment sample_doc sample_lines sample_deps)" "returns (customer_payment sample_doc sample_lines sample_deps)"
  "returns (expense_report sample_doc expense_lines sample_deps)"
  by code_simp+

definition paying_doc :: doc where
  "paying_doc = sample_doc\<lparr>d_custom := JObj [(''discountAmount'', JStr ''1.50''), (''discountAccountId'', JStr ''4950''), (''withholdings'', JArr [
     JObj [(''liabilityAccountId'', JStr ''2400''), (''deducted'', JStr ''5'')], JObj [(''liabilityAccountId'', JStr ''2410''), (''deducted'', JStr ''2'')],
     JObj [(''liabilityAccountId'', JStr ''2400''), (''deducted'', JStr ''3'')]])]\<rparr>"

lemma paying_figures:
  "returns (vendor_payment paying_doc sample_lines sample_deps)" "units_of (payment_discount paying_doc) = 15000"
  "withheld_entries (d_custom paying_doc) = [(''2400'', 50000), (''2410'', 20000), (''2400'', 30000)]"
  by code_simp+

section \<open>Boundary cases\<close>

text \<open>
  A close-out that expects exactly nothing in the tenders, and no tenders: the close-out legs are left out and the rule returns legs that do not balance, which the projection's
  balance check then refuses.
\<close>

lemma closeout_without_tenders_unbalanced:
  "\<exists>legs. cashSaleRule sample_doc sample_lines (sample_deps\<lparr>p_cashTenders := [], p_cashCloseout := Some \<lparr>co_tipsTotal = ''0.0000'', co_feeTotal = ''0.0000'',
      co_overShort = ''-113.0000'', co_serverPartyId = None, co_tipsPayableAccountId = None, co_processorFeeAccountId = None, co_cashOverShortAccountId = Some ''6900''\<rparr>\<rparr>)
    = Inr legs \<and> sum_list (map leg_units legs) = - 1130000"
proof -
  let ?r = "cashSaleRule sample_doc sample_lines (sample_deps\<lparr>p_cashTenders := [], p_cashCloseout := Some \<lparr>co_tipsTotal = ''0.0000'', co_feeTotal = ''0.0000'',
      co_overShort = ''-113.0000'', co_serverPartyId = None, co_tipsPayableAccountId = None, co_processorFeeAccountId = None, co_cashOverShortAccountId = Some ''6900''\<rparr>\<rparr>)"
  have "(case ?r of Inr legs \<Rightarrow> sum_list (map leg_units legs) = - 1130000 | Inl _ \<Rightarrow> False)" by code_simp
  then show ?thesis by (auto split: sum.splits)
qed

text \<open>
  A standard component of zero tax passes \<open>validateTaxControlAccounts\<close> without a control account, and is then refused by the sales rule for lacking one.
\<close>

lemma zero_tax_still_needs_account:
  assumes "c_collectedBy c = Merchant" "c_calculationType c = Standard" "isZero (c_taxAmount c) = Inr True" "taxControlAccount c deps Collected = None"
  shows "validate_component True deps c = Inr ()" "sales_component_lines d deps dir line c = Inl (PostingError ''tax has no configured tax control account'')"
  using assms by (simp_all add: validate_component_def sales_component_lines_def assertTaxControlAccount_def)

section \<open>Properties\<close>

text \<open>
  C5: a document's projection never fails to balance, and never leaves a subledger balance without its party.  For every document kind but the ones whose legs are stated by
  the document itself (journals, pay runs, cash sales and refunds), the balance check of \<open>buildProjection\<close> refuses nothing: checking or deferring it gives the same
  result.  Whatever is returned has readable amounts that sum to exactly zero, and every open-item leg carries a party.
\<close>

theorem projection_never_unbalanced:
  assumes "d_kind d \<notin> set [''journal'', ''pay_run'', ''cash_sale'', ''cash_refund'']"
  shows "buildProjection d lines deps False = buildProjection d lines deps True \<and>
    (\<forall>kl. buildProjection d lines deps False = Inr kl \<longrightarrow> readable kl \<and> sum_list (map leg_units kl) = 0
       \<and> (\<forall>k \<in> set kl. k_isOpenItem k = Some True \<longrightarrow> truthy (k_partyId k)))"
  using balance_check_idle [OF assms, of lines deps] projection_Inr(1-3) [OF _ assms, of lines deps False]
  by (auto simp: list_ex_iff is_orphan_def)

theorem projection_never_unbalanced_witness:
  "\<exists>kl. buildProjection sample_doc sample_lines sample_deps False = Inr kl \<and> sum_list (map leg_units kl) = 0"
proof -
  have k: "d_kind sample_doc \<notin> set [''journal'', ''pay_run'', ''cash_sale'', ''cash_refund'']" by (simp add: sample_doc_def)
  obtain kl where "buildProjection sample_doc sample_lines sample_deps False = Inr kl" by (rule returnsE [OF sample_projects(1)])
  then show ?thesis using projection_never_unbalanced [OF k, of sample_lines sample_deps] by blast
qed

text \<open>
  C6: what is projected posts.  When such a document lives in one legal entity and its functional currency, the stamped legs of its projection pass the final check before
  the ledger write, \<open>assertFinalKernelBalance\<close>: projection, stamp and final check compose.
\<close>

theorem projection_posts:
  assumes "buildProjection d lines deps defer = Inr kl" "d_kind d \<notin> set [''journal'', ''pay_run'', ''cash_sale'', ''cash_refund'']"
    "d_journalMode d \<noteq> Some ''statistical''" "\<forall>k \<in> set kl. k_subsidiaryId k \<in> {None, Some s}"
  shows "\<exists>legs. traverse (stamp_line s ''1'') kl = Inr legs \<and> assertFinalKernelBalance legs = Inr ()"
proof (rule one_entity_posts [OF assms(4) projection_Inr(1,2) [OF assms(1,2)]])
  obtain legs where "retainedKernelLines legs False = Inr kl" using projection_Inr(4) [OF assms(1,2)] assms(3) by auto
  then show "2 \<le> length kl \<or> (\<exists>l. kl = [l] \<and> isMeasurementLeg l = Inr True)" using retained_filter(3) by blast
qed

theorem projection_posts_witness:
  "\<exists>kl legs. buildProjection sample_doc sample_lines sample_deps False = Inr kl \<and> traverse (stamp_line ''ca'' ''1'') kl = Inr legs \<and> assertFinalKernelBalance legs = Inr ()"
proof -
  obtain kl where kl: "buildProjection sample_doc sample_lines sample_deps False = Inr kl" by (rule returnsE [OF sample_projects(1)])
  have "(case buildProjection sample_doc sample_lines sample_deps False of Inr kl \<Rightarrow> list_all (\<lambda>k. k_subsidiaryId k = None) kl | Inl _ \<Rightarrow> False)" by code_simp
  then have "\<forall>k \<in> set kl. k_subsidiaryId k \<in> {None, Some ''ca''}" by (simp add: kl list_all_iff)
  then show ?thesis using projection_posts [OF kl, of "''ca''"] kl by (auto simp: sample_doc_def)
qed

text \<open>
  C8: the receivable of a sales document is its total.  Whatever its tax components are (output tax, withholding, reverse charge, tax a marketplace collects inside or outside
  the charged total, agency pass-through), the receivable leg of an invoice is exactly the sum of the lines' amounts and tax amounts, the control leg of a credit memo its
  negation, and both are the first leg.
\<close>

theorem sales_control_is_total:
  "(customer_invoice d lines deps = Inr legs \<longrightarrow> legs \<noteq> [] \<and> leg_units (hd legs) = sum_list (map line_units lines)) \<and>
   (customer_credit d lines deps = Inr legs \<longrightarrow> legs \<noteq> [] \<and> leg_units (hd legs) = - sum_list (map line_units lines))"
  by (auto dest!: customer_invoice_closes customer_credit_closes closes_total(1))

theorem sales_control_is_total_witness:
  "\<exists>legs. customer_invoice sample_doc sample_lines sample_deps = Inr legs \<and> leg_units (hd legs) = 1130000"
proof -
  obtain legs where l: "customer_invoice sample_doc sample_lines sample_deps = Inr legs" by (rule returnsE [OF sample_projects(2)])
  show ?thesis using sales_control_is_total [of sample_doc sample_lines sample_deps legs] l unfolding sample_totals(1) by blast
qed

text \<open>
  C9: the payable of a purchase document is its total.  When every input tax component splits its tax into a recoverable and a nonrecoverable part, the control leg of a bill, a
  check and a card charge is minus the sum of the lines' amounts and tax amounts, and that of a vendor credit is the sum itself: capitalizing the nonrecoverable part, claiming the
  recoverable part, self-assessing reverse charges and holding back withholding tax lose nothing.
\<close>

theorem purchase_control_is_total:
  assumes "\<forall>l \<in> set lines. tax_split deps l"
  shows "(vendor_bill d lines deps = Inr legs \<longrightarrow> leg_units (last legs) = - sum_list (map line_units lines)) \<and>
    (check_rule d lines deps = Inr legs \<longrightarrow> leg_units (last legs) = - sum_list (map line_units lines)) \<and>
    (cardRule d lines deps = Inr legs \<longrightarrow> leg_units (last legs) = - sum_list (map line_units lines)) \<and>
    (vendor_credit d lines deps = Inr legs \<longrightarrow> leg_units (hd legs) = sum_list (map line_units lines))"
  using purchase_lines_settle [OF _ _ assms]
  by (fastforce dest!: vendor_bill_closes check_closes card_closes vendor_credit_closes closes_total(1))

theorem purchase_control_is_total_witness:
  "\<exists>legs. vendor_bill sample_doc sample_lines sample_deps = Inr legs \<and> leg_units (last legs) = - 1130000"
proof -
  obtain legs where l: "vendor_bill sample_doc sample_lines sample_deps = Inr legs" by (rule returnsE [OF sample_projects(4)])
  have "\<forall>l \<in> set sample_lines. tax_split sample_deps l" using sample_totals(2) by simp
  from purchase_control_is_total [OF this, of sample_doc legs] show ?thesis using l unfolding sample_totals(1) by blast
qed

text \<open>
  C11: cash documents balance against their tenders.  A cash sale whose total is not negative posts legs that sum to zero, with or without a close-out of tips, processor fees and
  counted over or short, provided tenders were taken or there is no close-out; a cash refund whose total is not negative does too.
\<close>

theorem cash_documents_balance:
  assumes "0 \<le> sum_list (map line_units lines)"
  shows "(cashSaleRule d lines deps = Inr legs \<longrightarrow> p_cashTenders deps \<noteq> [] \<or> p_cashCloseout deps = None \<longrightarrow> readable legs \<and> sum_list (map leg_units legs) = 0) \<and>
    (cash_refund d lines deps = Inr legs \<longrightarrow> readable legs \<and> sum_list (map leg_units legs) = 0)"
  using cash_sale_total [OF _ _ assms] cash_refund_total [OF _ assms] by blast

theorem cash_documents_balance_witness:
  "\<exists>legs. cashSaleRule sample_doc sample_lines sample_deps = Inr legs \<and> sum_list (map leg_units legs) = 0"
proof -
  obtain legs where l: "cashSaleRule sample_doc sample_lines sample_deps = Inr legs" by (rule returnsE [OF sample_projects(8)])
  have "0 \<le> sum_list (map line_units sample_lines)" by (simp only: sample_totals(1))
  from cash_documents_balance [OF this, of sample_doc sample_deps legs] show ?thesis using l by (auto simp: sample_deps_def)
qed

text \<open>
  C12: who fronted the money.  Every line of an expense report says whether it was paid out of pocket (when it says nothing it was), by the company or for personal use.  When every
  component splits its tax, the report books the out-of-pocket and company-paid lines and a receivable from the employee for each personal one, and closes them with at most two legs:
  one payable, on the override or the employee-payable account (accounts payable when there is none), to the document's party and an open item when that account is one, for minus
  the total of the out-of-pocket lines, and one leg on the card liability, with no party and never an open item, for minus the total of the company-paid and personal lines.  So
  exactly the out-of-pocket lines are reimbursed.
\<close>

theorem expense_report_settles:
  assumes "expense_report d lines deps = Inr legs" "\<forall>l \<in> set lines. tax_split deps l"
  shows "\<exists>booked receivable payable cardLegs. legs = booked @ receivable @ payable @ cardLegs
    \<and> (\<forall>l \<in> set lines. paid_by ''out_of_pocket'' l \<or> paid_by ''company_paid'' l \<or> paid_by ''personal'' l)
    \<and> sum_list (map leg_units booked) = sum_list (map line_units (filter (paid_by ''out_of_pocket'') lines))
        + sum_list (map line_units (filter (paid_by ''company_paid'') lines))
    \<and> map leg_units receivable = map line_units (filter (paid_by ''personal'') lines)
    \<and> (\<forall>k \<in> set receivable. ca_employeeReceivable (p_control deps) = Some (k_accountId k))
    \<and> (let reimbursed = sum_list (map line_units (filter (paid_by ''out_of_pocket'') lines)) in
       if reimbursed = 0 then payable = []
       else \<exists>k. payable = [k] \<and> leg_units k = - reimbursed \<and> k_partyId k = d_partyId d
         \<and> k_accountId k = or_else (nullish (controlOverride d) (ca_employeePayable (p_control deps))) (ca_ap (p_control deps))
         \<and> k_isOpenItem k = Some (d_partyId d \<noteq> None \<and> k_accountId k \<in> set (p_openItemAccountIds deps)))
    \<and> (let charged = sum_list (map line_units (filter (paid_by ''company_paid'') lines)) + sum_list (map line_units (filter (paid_by ''personal'') lines)) in
       if charged = 0 then cardLegs = []
       else \<exists>k. cardLegs = [k] \<and> leg_units k = - charged \<and> k_partyId k = None
         \<and> p_cardLiabilityAccountId deps = Some (k_accountId k) \<and> k_isOpenItem k = Some False)"
proof (rule expense_report_legs [OF assms(1)])
  fix booked receivable payable cardLegs oop card personal tax1 tax2
  assume e: "legs = booked @ receivable @ payable @ cardLegs" "settled_lines Out_of_pocket lines = Inr oop" "settled_lines Company_paid lines = Inr card"
      "settled_lines Personal lines = Inr personal" "purchaseTaxLines d oop deps 1 = Inr tax1" "purchaseTaxLines d card deps 1 = Inr tax2"
      "traverse (personal_debit d deps) personal = Inr receivable" "personal \<noteq> [] \<longrightarrow> truthy (ca_employeeReceivable (p_control deps))"
    and booked: "sum_list (map leg_units booked) = sum_list (map (purchase_line_units deps) oop) + sum_list (map (purchase_line_units deps) card)"
    and pay: "if sum_list (map (purchase_line_units deps) oop) = 0 then payable = []
     else \<exists>k. payable = [k] \<and> leg_units k = - sum_list (map (purchase_line_units deps) oop) \<and> k_partyId k = d_partyId d
       \<and> k_accountId k = or_else (nullish (controlOverride d) (ca_employeePayable (p_control deps))) (ca_ap (p_control deps))
       \<and> k_isOpenItem k = Some (d_partyId d \<noteq> None \<and> k_accountId k \<in> set (p_openItemAccountIds deps))"
    and fund: "if sum_list (map (purchase_line_units deps) (card @ personal)) = 0 then cardLegs = []
     else \<exists>k. cardLegs = [k] \<and> leg_units k = - sum_list (map (purchase_line_units deps) (card @ personal)) \<and> k_partyId k = None
       \<and> p_cardLiabilityAccountId deps = Some (k_accountId k) \<and> k_isOpenItem k = Some False"
  note who = settled_lines_paid_by(1) [OF e(2)] settled_lines_paid_by(2) [OF e(3)] settled_lines_paid_by(3) [OF e(4)]
  have O: "sum_list (map (purchase_line_units deps) oop) = sum_list (map line_units oop)"
    by (rule purchase_lines_settle [OF e(5)]) (use assms(2) in \<open>simp_all add: who(1)\<close>)
  have C: "sum_list (map (purchase_line_units deps) card) = sum_list (map line_units card)"
    by (rule purchase_lines_settle [OF e(6)]) (use assms(2) in \<open>simp_all add: who(2)\<close>)
  have split: "\<forall>l \<in> set personal. tax_split deps l" using assms(2) by (simp add: who(3))
  note P = personal_debits_settle [OF e(7) split]
  have "\<forall>l \<in> set personal. \<exists>t. personalReceivableAmount l deps = Inr t" using e(7)
    by (induction personal arbitrary: receivable) (auto simp: personal_debit_def Let_def bindE_Inr_iff)
  then have Q: "sum_list (map (purchase_line_units deps) personal) = sum_list (map line_units personal)"
    using personal_line_settles split by (intro arg_cong [where f = sum_list] map_cong refl) blast
  have "\<forall>k \<in> set receivable. ca_employeeReceivable (p_control deps) = Some (k_accountId k)"
  proof (cases "personal = []")
    case True
    then show ?thesis using e(7) by simp
  next
    case False
    then show ?thesis using e(8) P by (auto simp: truthy_def split: option.splits)
  qed
  then show ?thesis
    using e(1) P booked pay fund settled_lines_filter(2) [OF e(2)] unfolding map_append sum_list_append O C Q Let_def who [symmetric]
    by (intro exI [of _ booked] exI [of _ receivable] exI [of _ payable] exI [of _ cardLegs] conjI; (simp only:)?)
qed

theorem expense_report_settles_witness:
  "\<exists>legs booked receivable payable cardLegs. expense_report sample_doc expense_lines sample_deps = Inr legs \<and> legs = booked @ receivable @ [payable, cardLegs]
    \<and> map leg_units receivable = [1130000] \<and> leg_units payable = - 1130000 \<and> k_accountId payable = ''2000'' \<and> k_partyId payable = Some ''acme''
    \<and> leg_units cardLegs = - 2260000 \<and> k_accountId cardLegs = ''2100'' \<and> k_partyId cardLegs = None"
proof -
  obtain legs where l: "expense_report sample_doc expense_lines sample_deps = Inr legs" by (rule returnsE [OF sample_projects(12)])
  have t: "\<forall>l \<in> set expense_lines. tax_split sample_deps l" using sample_totals(2) by (simp add: expense_lines_def tax_split_def line_components_def)
  have s: "map line_units (filter (paid_by ''out_of_pocket'') expense_lines) = [1130000]" "map line_units (filter (paid_by ''company_paid'') expense_lines) = [1130000]"
    "map line_units (filter (paid_by ''personal'') expense_lines) = [1130000]"
    by code_simp+
  have a: "or_else (nullish (controlOverride sample_doc) (ca_employeePayable (p_control sample_deps))) (ca_ap (p_control sample_deps)) = ''2000''"
    "d_partyId sample_doc = Some ''acme''" "p_cardLiabilityAccountId sample_deps = Some ''2100''"
    by code_simp+
  obtain booked r k c where "legs = booked @ [r, k, c]" "leg_units r = 1130000" "leg_units k = - 1130000" "k_partyId k = Some ''acme''" "k_accountId k = ''2000''"
    "leg_units c = - 2260000" "k_partyId c = None" "k_accountId c = ''2100''"
    using expense_report_settles [OF l t] unfolding s a Let_def by auto
  then show ?thesis using l by (intro exI [of _ legs] exI [of _ booked] exI [of _ "[r]"] exI [of _ k] exI [of _ c]) simp
qed

text \<open>
  C13: a payment relieves what it settles.  The payable leg of a vendor payment, the party's open item on the override or accounts payable, is the cash paid plus the discount taken plus
  the amounts of all withholdings the document states, none of them negative; against it stand the bank for the cash, the discount account for the discount, and one leg per liability
  account for minus all that was withheld for that account, entries for the same account accumulating.  A customer payment debits each tender account once, with the total of its lines,
  and its receivable leg, the party's open item on the override or accounts receivable, is minus the receipt less the acceptance fee, which goes to the fee income account and lies
  between zero and the receipt (zero on a refund).
\<close>

theorem payments_relieve_control:
  "(vendor_payment d lines deps = Inr legs \<longrightarrow> (\<exists>ap bank discountLegs taxLegs. legs = ap # bank # discountLegs @ taxLegs
      \<and> k_accountId ap = or_else (controlOverride d) (ca_ap (p_control deps)) \<and> k_partyId ap = d_partyId d \<and> k_isOpenItem ap = Some True
      \<and> leg_units ap = sum_list (map line_units lines) + units_of (payment_discount d) + sum_list (map snd (withheld_entries (d_custom d)))
      \<and> k_accountId bank = or_else (case lines of [] \<Rightarrow> None | l # _ \<Rightarrow> l_accountId l) (ca_bank (p_control deps))
      \<and> leg_units bank = - sum_list (map line_units lines)
      \<and> 0 \<le> units_of (payment_discount d) \<and> (\<forall>p \<in> set (withheld_entries (d_custom d)). 0 \<le> snd p)
      \<and> (if units_of (payment_discount d) = 0 then discountLegs = [] else \<exists>k. discountLegs = [k] \<and> leg_units k = - units_of (payment_discount d)
           \<and> json_text (json_get (d_custom d) ''discountAccountId'') = Some (k_accountId k) \<and> k_partyId k = d_partyId d)
      \<and> distinct (map k_accountId taxLegs) \<and> (\<forall>k \<in> set taxLegs. k_partyId k = d_partyId d)
      \<and> (\<forall>a. account_total a taxLegs = - keyed_total a (withheld_entries (d_custom d))))) \<and>
   (customer_payment d lines deps = Inr legs \<longrightarrow> (\<exists>received ar feeLegs. legs = received @ ar # feeLegs
      \<and> distinct (map k_accountId received)
      \<and> (\<forall>a. account_total a received = sum_list (map line_units (filter (\<lambda>l. or_else (l_accountId l) (ca_bank (p_control deps)) = a) lines)))
      \<and> k_accountId ar = or_else (controlOverride d) (ca_ar (p_control deps)) \<and> k_partyId ar = d_partyId d \<and> k_isOpenItem ar = Some True
      \<and> leg_units ar = - (sum_list (map line_units lines) - units_of (payment_fee d))
      \<and> 0 \<le> units_of (payment_fee d) \<and> units_of (payment_fee d) \<le> max 0 (sum_list (map line_units lines))
      \<and> (if units_of (payment_fee d) = 0 then feeLegs = [] else \<exists>k. feeLegs = [k] \<and> leg_units k = - units_of (payment_fee d)
           \<and> json_text (json_get (d_custom d) ''feeIncomeAccountId'') = Some (k_accountId k))))"
  using vendor_payment_relieves [of d lines deps legs] customer_payment_relieves [of d lines deps legs] by simp

theorem payments_relieve_control_witness:
  "\<exists>legs ap bank k taxLegs. vendor_payment paying_doc sample_lines sample_deps = Inr legs \<and> legs = ap # bank # k # taxLegs
    \<and> leg_units ap = 1245000 \<and> leg_units bank = - 1130000 \<and> leg_units k = - 15000 \<and> account_total ''2400'' taxLegs = - 80000 \<and> account_total ''2410'' taxLegs = - 20000"
proof -
  obtain legs where l: "vendor_payment paying_doc sample_lines sample_deps = Inr legs" by (rule returnsE [OF paying_figures(1)])
  obtain ap bank discountLegs taxLegs where v: "legs = ap # bank # discountLegs @ taxLegs"
      "leg_units ap = sum_list (map line_units sample_lines) + units_of (payment_discount paying_doc) + sum_list (map snd (withheld_entries (d_custom paying_doc)))"
      "leg_units bank = - sum_list (map line_units sample_lines)"
      "if units_of (payment_discount paying_doc) = 0 then discountLegs = [] else \<exists>k. discountLegs = [k] \<and> leg_units k = - units_of (payment_discount paying_doc)
         \<and> json_text (json_get (d_custom paying_doc) ''discountAccountId'') = Some (k_accountId k) \<and> k_partyId k = d_partyId paying_doc"
      "\<forall>a. account_total a taxLegs = - keyed_total a (withheld_entries (d_custom paying_doc))"
    using payments_relieve_control [of paying_doc sample_lines sample_deps legs] l by blast
  note f = v(2-5) [unfolded sample_totals(1) paying_figures]
  then obtain k where k: "discountLegs = [k]" "leg_units k = - 15000" by auto
  show ?thesis
    by (intro exI [of _ legs] exI [of _ ap] exI [of _ bank] exI [of _ k] exI [of _ taxLegs] conjI l) (use v(1) k f in simp_all)
qed

text \<open>
  C14: a transfer moves one amount.  \<open>transfer\<close> succeeds exactly for two lines on two different named accounts, the destination carrying a positive amount that is money text and the
  source carrying zero; it then debits the destination and credits the source with that amount, once.  Everything else is refused.
\<close>

theorem transfer_exact:
  "transfer d lines deps = Inr legs \<longleftrightarrow> (\<exists>dest src a b t. lines = [dest, src] \<and> l_accountId dest = Some a \<and> l_accountId src = Some b \<and> a \<noteq> [] \<and> b \<noteq> []
     \<and> a \<noteq> b \<and> 0 < units_of (l_amount dest) \<and> isZero (l_amount src) = Inr True \<and> parseMoney (l_amount dest) = Inr t \<and> units_of t = units_of (l_amount dest)
     \<and> legs = [dims d (leg a t), dims d (leg b (fromUnits (- units_of (l_amount dest))))])"
  (is "?L \<longleftrightarrow> ?R")
proof
  assume l: ?L
  then obtain dest src t r where t: "lines = [dest, src]" "l_accountId dest \<noteq> l_accountId src" "truthy (l_accountId dest)" "truthy (l_accountId src)"
    "0 < units_of (l_amount dest)" "parseMoney (l_amount dest) = Inr t" "neg_money t = Inr r"
    "legs = [dims d (leg (or_else (l_accountId dest) []) t), dims d (leg (or_else (l_accountId src) []) r)]"
    by (auto dest!: transfer_Inr)
  have z: "isZero (l_amount src) = Inr True" using l t(1) by (auto simp: transfer_def bindE_Inr_iff split: if_splits)
  obtain a b where ab: "l_accountId dest = Some a" "l_accountId src = Some b" "a \<noteq> []" "b \<noteq> []" using t(3,4) by (auto simp: truthy_def split: option.splits)
  have "r = fromUnits (- units_of (l_amount dest))" using t(7) neg_money_units parseMoney_reads [OF t(6)] by (auto simp: reads_def)
  then show ?R using t z ab parseMoney_reads [OF t(6)] by simp
next
  assume ?R
  then obtain dest src a b t where t: "lines = [dest, src]" "l_accountId dest = Some a" "l_accountId src = Some b" "a \<noteq> []" "b \<noteq> []" "a \<noteq> b"
    "0 < units_of (l_amount dest)" "isZero (l_amount src) = Inr True" "parseMoney (l_amount dest) = Inr t"
    "legs = [dims d (leg a t), dims d (leg b (fromUnits (- units_of (l_amount dest))))]" by blast
  have "toUnits (l_amount dest) = Inr (units_of (l_amount dest))" "neg_money t = Inr (fromUnits (- units_of (l_amount dest)))"
    using parseMoney_reads [OF t(9)] by (simp_all add: reads_def neg_money_units)
  then show ?L using t by (simp add: transfer_def truthy_def)
qed
end
