(* ===== verification/Formula_Value.thy ===== *)
theory Formula_Value
  imports Exact_Decimal
begin

text \<open>
  The fixed-point values of the depreciation formula language, \<open>engine/src/assets/depreciation-formula.ts\<close> (\<open>exactUnits\<close>, \<open>exactString\<close>,
  \<open>exactRatio\<close>, \<open>mulExact\<close>, \<open>divExact\<close>, \<open>powExact\<close>): integers that count \<open>10 ^ -12\<close>.  A \<open>DecimalInput\<close> is the text \<open>String(value)\<close> the
  code reads.  The lemmas connect every operation with the rational number it rounds.
\<close>

section \<open>Values with twelve decimals\<close>

abbreviation (input) PRECISION :: nat where "PRECISION \<equiv> 12"
abbreviation (input) EXACT_SCALE :: int where "EXACT_SCALE \<equiv> 1000000000000"
abbreviation (input) MONEY_TO_EXACT :: int where "MONEY_TO_EXACT \<equiv> 100000000"

text \<open>The digits of a number text before and after the point once the exponent is applied.\<close>

definition normalized_parts :: "string \<Rightarrow> string \<Rightarrow> int \<Rightarrow> string \<times> string" where
  "normalized_parts whole fraction exponent =
     (let digits = or_text (whole @ fraction) ''0''; decimalPosition = int (length whole) + exponent in
      if decimalPosition \<le> 0 then (''0'', replicate (nat (- decimalPosition)) CHR ''0'' @ digits)
      else if decimalPosition \<ge> int (length digits)
      then (digits @ replicate (nat (decimalPosition - int (length digits))) CHR ''0'', [])
      else (take (nat decimalPosition) digits, drop (nat decimalPosition) digits))"

definition rounded_units :: "string \<times> string \<Rightarrow> int" where
  "rounded_units parts = (case parts of (normalizedWhole, normalizedFraction) \<Rightarrow>
     let kept = padEnd (take PRECISION normalizedFraction) PRECISION CHR ''0'';
         discarded = drop PRECISION normalizedFraction;
         units = bigint_of_text (or_text normalizedWhole ''0'') * EXACT_SCALE + bigint_of_text (or_text kept ''0'')
     in if length discarded > 0 \<and> digit_val (hd discarded) \<ge> 5 then units + 1 else units)"

definition exactUnits :: "string \<Rightarrow> int result" where
  "exactUnits value = (let raw = trim value in
     if \<not> decimal_number raw then Inl (DepreciationFormulaError ''not a decimal number: '')
     else let negative = starts_minus raw; u = strip_sign raw;
              (m, exponent) = (case exponent_match u of None \<Rightarrow> (u, 0) | Some (m, t) \<Rightarrow> (m, number_of_integer_text t));
              (whole, fraction) = split_dot m;
              units = rounded_units (normalized_parts whole fraction exponent)
          in Inr (if negative then - units else units))"

definition exactString :: "int \<Rightarrow> string" where
  "exactString units = (let negative = units < 0; absolute = (if negative then - units else units);
     whole = absolute sdiv EXACT_SCALE;
     fraction = strip_trailing_zeros (padStart (bigint_text (absolute smod EXACT_SCALE)) PRECISION CHR ''0'')
     in (if negative then ''-'' else []) @ bigint_text whole @ (if fraction \<noteq> [] then CHR ''.'' # fraction else []))"

definition mulExact :: "int \<Rightarrow> int \<Rightarrow> int result" where
  "mulExact a b = roundDiv (a * b) EXACT_SCALE"

definition divExact :: "int \<Rightarrow> int \<Rightarrow> int result" where
  "divExact a b = (if b = 0 then Inl (DepreciationFormulaError ''formula denominator cannot be zero'')
     else bindE (roundDiv (a * EXACT_SCALE) (if b < 0 then - b else b)) (\<lambda>q. Inr (q * (if b < 0 then - 1 else 1))))"

definition exactRatio :: "string \<Rightarrow> string \<Rightarrow> string result" where
  "exactRatio n d = bindE (exactUnits d) (\<lambda>divisor.
     if divisor = 0 then Inl (DepreciationFormulaError ''ratio denominator cannot be zero'')
     else bindE (exactUnits n) (\<lambda>a. bindE (divExact a divisor) (\<lambda>q. Inr (exactString q))))"

text \<open>The square-and-multiply loop, every product rounded to twelve decimals.\<close>

function pow_rounds :: "int \<Rightarrow> int \<Rightarrow> int \<Rightarrow> int result" where
  "pow_rounds n acc factor =
     (if n \<le> 0 then Inr acc
      else bindE (if n mod 2 = 1 then mulExact acc factor else Inr acc) (\<lambda>acc'.
        bindE (if n div 2 > 0 then mulExact factor factor else Inr factor) (\<lambda>factor'. pow_rounds (n div 2) acc' factor')))"
  by pat_completeness auto
termination
  by (relation "measure (\<lambda>(n, _, _). nat n)") auto

declare pow_rounds.simps [simp del]

definition powExact :: "int \<Rightarrow> int \<Rightarrow> int result" where
  "powExact base exponent =
     (if exponent smod EXACT_SCALE \<noteq> 0 then Inl (DepreciationFormulaError ''formula exponent must be an integer'')
      else let n = exponent sdiv EXACT_SCALE in
        if n > 1000 \<or> n < - 1000 then Inl (DepreciationFormulaError ''formula exponent is out of range'')
        else bindE (pow_rounds (if n < 0 then - n else n) EXACT_SCALE base) (\<lambda>r.
          if n < 0 then divExact EXACT_SCALE r else Inr r))"

section \<open>Reading\<close>

lemma exactUnits_parts:
  "exactUnits s = (case decimal_parts s of
     None \<Rightarrow> Inl (DepreciationFormulaError ''not a decimal number: '')
   | Some (n, w, f, e) \<Rightarrow> Inr ((if n then - 1 else 1) * rounded_units (normalized_parts w f e)))"
  by (simp add: exactUnits_def decimal_parts_def Let_def split: option.splits prod.splits)

lemma normalized_parts_digits:
  assumes "list_all is_digit w" "list_all is_digit f" "normalized_parts w f e = (i, g)"
  shows "list_all is_digit i" "list_all is_digit g"
proof -
  have "list_all is_digit (or_text (w @ f) ''0'')" using assms(1,2) by (intro or_zero_digits(1)) simp
  then show "list_all is_digit i" "list_all is_digit g"
    using assms(3)
    by (auto simp: normalized_parts_def Let_def list_all_iff split: if_splits dest!: in_set_takeD in_set_dropD)
qed

text \<open>Moving the point keeps the value.\<close>

lemma powi_of_nat: "0 \<le> e \<Longrightarrow> (10::rat) powi e = 10 ^ nat e" "e \<le> 0 \<Longrightarrow> (10::rat) powi e = 1 / 10 ^ nat (- e)"
  by (auto simp: power_int_def field_simps)

lemma powi_quotient: "(10::rat) powi (int a - int b) = 10 ^ a / 10 ^ b"
  by (simp add: power_int_diff)

lemma normalized_parts_value:
  assumes "w \<noteq> [] \<or> f \<noteq> []" "normalized_parts w f e = (i, g)"
  shows "(of_nat (digits_val (i @ g)) / 10 ^ length g :: rat) = of_nat (digits_val (w @ f)) / 10 ^ length f * 10 powi e"
proof -
  have ds: "or_text (w @ f) ''0'' = w @ f" using assms(1) by (auto simp: or_text_def)
  define p where "p = int (length w) + e"
  have e: "of_nat n / 10 ^ length f * 10 powi e = (of_nat n * (10 powi p / 10 ^ length (w @ f)) :: rat)" for n
    by (simp add: p_def power_int_add power_add)
  consider "p \<le> 0" | "0 < p" "int (length (w @ f)) \<le> p" | "0 < p" "p < int (length (w @ f))" by linarith
  then show ?thesis
  proof cases
    case 1
    then have "i = ''0''" "g = replicate (nat (- p)) CHR ''0'' @ w @ f"
      using assms(2) by (auto simp: normalized_parts_def ds p_def Let_def)
    then have "digits_val (i @ g) = digits_val (w @ f)" "length g = nat (- p) + length (w @ f)"
      by (simp_all add: digits_val_append digits_val_Cons)
    moreover have "(10::rat) powi p = 1 / 10 ^ nat (- p)" by (rule powi_of_nat(2) [OF 1])
    ultimately show ?thesis unfolding e by (simp add: power_add)
  next
    case 2
    then have "i = (w @ f) @ replicate (nat (p - int (length (w @ f)))) CHR ''0''" "g = []"
      using assms(2) by (auto simp: normalized_parts_def ds p_def Let_def)
    then have "digits_val (i @ g) = digits_val (w @ f) * 10 ^ nat (p - int (length (w @ f)))"
      by (simp only: append_Nil2 digits_val_append digits_val_zeros) simp
    moreover have "(10::rat) ^ nat (p - int (length (w @ f))) = 10 powi p / 10 ^ length (w @ f)"
      using 2(2) powi_of_nat(1) [of "p - int (length (w @ f))"] power_int_diff [of "10::rat" p "int (length (w @ f))"]
      by (simp only: power_int_of_nat) simp
    ultimately show ?thesis unfolding e using \<open>g = []\<close> by simp
  next
    case 3
    then have ig: "i = take (nat p) (w @ f)" "g = drop (nat p) (w @ f)"
      using assms(2) by (auto simp: normalized_parts_def ds p_def Let_def)
    then have "i @ g = w @ f" "length g = length (w @ f) - nat p" by (simp_all only: append_take_drop_id length_drop)
    moreover have "(10::rat) ^ (length (w @ f) - nat p) = 10 ^ length (w @ f) / 10 ^ nat p"
      using 3 by (simp add: power_diff)
    moreover have "(10::rat) powi p = 10 ^ nat p" using 3 by (intro powi_of_nat(1)) simp
    ultimately show ?thesis unfolding e by simp
  qed
qed

text \<open>The first discarded digit decides the rounding: it is at least five exactly when the rest is at least one half.\<close>

lemma half_away_digit:
  assumes "list_all is_digit d" "d \<noteq> []"
  shows "half_away (of_nat a + of_nat (digits_val d) / 10 ^ length d) = int a + (if digit_val (hd d) \<ge> 5 then 1 else 0)"
proof -
  obtain c r where d: "d = c # r" using assms(2) by (cases d) auto
  define x :: rat where "x = of_nat (digits_val d) / 10 ^ length d"
  have r: "digits_val r < 10 ^ length r" using assms(1) d by (auto intro: digits_val_less)
  have c: "digit_val c < 10" using assms(1) d by (simp add: digit_val_less)
  have val: "digits_val d = digit_val c * 10 ^ length r + digits_val r" by (simp add: d digits_val_Cons)
  have up: "digit_val c * 10 ^ length r \<le> digits_val d" "digits_val d < (digit_val c + 1) * 10 ^ length r"
    using r by (simp_all add: val)
  have "0 \<le> x" by (simp add: x_def)
  moreover have "x < 1"
  proof -
    have "(of_nat (digits_val d) :: rat) < of_nat (10 ^ length d)"
      using digits_val_less [OF assms(1)] by (simp only: of_nat_less_iff)
    then show ?thesis by (simp add: x_def)
  qed
  moreover have "1 / 2 \<le> x \<longleftrightarrow> 10 ^ length d \<le> 2 * digits_val d"
  proof -
    have "1 / 2 \<le> x \<longleftrightarrow> (of_nat (10 ^ length d) :: rat) \<le> of_nat (2 * digits_val d)"
      by (simp add: x_def le_divide_eq mult.commute)
    then show ?thesis by (simp only: of_nat_le_iff)
  qed
  moreover have "10 ^ length d \<le> 2 * digits_val d \<longleftrightarrow> 5 \<le> digit_val c"
  proof
    assume "10 ^ length d \<le> 2 * digits_val d"
    then have "5 * 10 ^ length r \<le> digits_val d" by (simp add: d)
    from this up(2) have "5 * 10 ^ length r < (digit_val c + 1) * 10 ^ length r" by (rule le_less_trans)
    then have "5 < digit_val c + 1" by (simp only: mult_less_cancel2)
    then show "5 \<le> digit_val c" by simp
  next
    assume "5 \<le> digit_val c"
    then have "5 * 10 ^ length r \<le> digit_val c * 10 ^ length r" by simp
    then have "5 * 10 ^ length r \<le> digits_val d" using up(1) by (rule order_trans)
    then show "10 ^ length d \<le> 2 * digits_val d" by (simp add: d)
  qed
  ultimately have "\<lfloor>of_nat a + x + 1 / 2\<rfloor> = int a + (if 5 \<le> digit_val c then 1 else 0)"
    by (intro floor_unique) auto
  moreover have "\<not> of_nat a + x < 0" using \<open>0 \<le> x\<close> by (simp add: not_less)
  ultimately have "half_away (of_nat a + x) = int a + (if 5 \<le> digit_val c then 1 else 0)" by (simp add: half_away_def)
  then show ?thesis unfolding x_def by (simp add: d)
qed

lemma rounded_units_half_away:
  assumes "list_all is_digit i" "list_all is_digit g"
  shows "rounded_units (i, g) = half_away (of_nat (digits_val (i @ g)) / 10 ^ length g * 10 ^ 12)"
proof -
  let ?k = "padEnd (take 12 g) 12 CHR ''0''" and ?d = "drop 12 g"
  have k: "list_all is_digit ?k" "length ?k = 12"
    using assms(2) by (auto simp: padEnd_def list_all_iff dest: in_set_takeD)
  then have ne: "or_text ?k ''0'' = ?k" by (auto simp: or_text_def)
  define a where "a = digits_val (i @ ?k)"
  have units: "bigint_of_text (or_text i ''0'') * EXACT_SCALE + bigint_of_text (or_text ?k ''0'') = int a"
    using k assms(1) by (simp add: ne bigint_of_digits or_zero_digits a_def digits_val_append)
  have dd: "list_all is_digit ?d" using assms(2) by (auto simp: list_all_iff dest: in_set_dropD)
  have val: "(of_nat (digits_val (i @ g)) / 10 ^ length g * 10 ^ 12 :: rat) = of_nat a + of_nat (digits_val ?d) / 10 ^ length ?d"
  proof (cases "length g \<le> 12")
    case True
    then have "?k = g @ replicate (12 - length g) CHR ''0''" "?d = []" by (simp_all add: padEnd_def)
    then have "i @ ?k = (i @ g) @ replicate (12 - length g) CHR ''0''" by simp
    then have "a = digits_val (i @ g) * 10 ^ (12 - length g)" unfolding a_def by (simp only: digits_val_append [of "i @ g"]) simp
    moreover have "(10::rat) ^ (12 - length g) = 10 ^ 12 / 10 ^ length g" using True by (simp add: power_diff)
    ultimately show ?thesis using \<open>?d = []\<close> by simp
  next
    case False
    then have "?k = take 12 g" by (simp add: padEnd_def)
    then have "digits_val (i @ g) = a * 10 ^ length ?d + digits_val ?d"
      using digits_val_append [of "i @ take 12 g" "drop 12 g"] by (simp add: a_def)
    moreover have "(10::rat) ^ length g = 10 ^ 12 * 10 ^ length ?d" using False power_add [of "10::rat" 12 "length ?d"] by simp
    ultimately show ?thesis by (simp add: field_simps)
  qed
  show ?thesis
  proof (cases "?d = []")
    case True
    then show ?thesis unfolding val using units half_away_of_int [of "int a"] by (simp add: rounded_units_def)
  next
    case False
    then show ?thesis unfolding val half_away_digit [OF dd False] using units by (simp add: rounded_units_def Let_def)
  qed
qed

lemma exactUnits_value:
  "exactUnits s = (case decimal_value s of
     None \<Rightarrow> Inl (DepreciationFormulaError ''not a decimal number: '') | Some v \<Rightarrow> Inr (half_away (v * 10 ^ 12)))"
proof (cases "decimal_parts s")
  case (Some p)
  then obtain n w f e where p: "decimal_parts s = Some (n, w, f, e)" by (cases p) auto
  note d = decimal_parts_digits [OF p]
  obtain i g where ig: "normalized_parts w f e = (i, g)" by (cases "normalized_parts w f e")
  have "signed_value n w f e = (if n then - 1 else 1) * (of_nat (digits_val (i @ g)) / 10 ^ length g)"
    by (simp add: signed_value_def normalized_parts_value [OF d(3) ig])
  then show ?thesis
    using rounded_units_half_away [OF normalized_parts_digits [OF d(1,2) ig]]
      half_away_minus [of "of_nat (digits_val (i @ g)) / 10 ^ length g * 10 ^ 12"]
    by (simp add: exactUnits_parts decimal_value_def p ig)
qed (simp add: exactUnits_parts decimal_value_def)

lemma exactUnits_of_value: "decimal_value s = Some v \<Longrightarrow> v * 10 ^ 12 = of_int u \<Longrightarrow> exactUnits s = Inr u"
  by (simp add: exactUnits_value)

lemma exactUnits_fromUnits [simp]: "exactUnits (fromUnits u) = Inr (u * MONEY_TO_EXACT)"
  by (rule exactUnits_of_value [OF fromUnits_value]) simp

lemma exactUnits_bigint [simp]: "exactUnits (bigint_text n) = Inr (n * EXACT_SCALE)"
  by (rule exactUnits_of_value [OF bigint_text_value(1)]) simp

section \<open>Printing\<close>

lemma exactString_value: "decimal_value (exactString u) = Some (of_int u / 10 ^ 12)"
proof -
  let ?a = "\<bar>u\<bar>" and ?w = "nat_text (nat (\<bar>u\<bar> div EXACT_SCALE))"
  let ?p = "padStart (nat_text (nat (\<bar>u\<bar> mod EXACT_SCALE))) 12 CHR ''0''"
  let ?f = "strip_trailing_zeros ?p"
  have len: "length ?p = 12"
    using length_nat_text_le [of "nat (\<bar>u\<bar> mod EXACT_SCALE)" 12] by (simp add: nat_less_iff)
  have f: "list_all is_digit ?f" by (rule list_all_strip_trailing_zeros) simp
  have shown: "exactString u = (if u < 0 then ''-'' else []) @ ?w @ (if ?f \<noteq> [] then CHR ''.'' # ?f else [])"
    by (simp add: exactString_def Let_def bigint_text_nonneg sdiv_nonneg smod_nonneg pos_imp_zdiv_nonneg_iff abs_if)
  have "digits_val (?w @ ?p) = nat (?a div EXACT_SCALE) * 10 ^ 12 + nat (?a mod EXACT_SCALE)"
    using len by (simp add: digits_val_append del: length_padStart)
  then have whole: "int (digits_val (?w @ ?p)) = ?a" by (simp add: pos_imp_zdiv_nonneg_iff)
  define m where "m = length ?p - length ?f"
  have lf: "length ?f + m = 12" using len arg_cong [OF strip_trailing_zeros_split [of ?p], of length] by (simp add: m_def)
  have "?p = ?f @ replicate m CHR ''0''" unfolding m_def by (rule strip_trailing_zeros_split)
  then have "digits_val (?w @ ?p) = digits_val (?w @ ?f) * 10 ^ m"
    by (metis append.assoc digits_val_append digits_val_zeros add.right_neutral length_replicate)
  with whole have a: "?a = int (digits_val (?w @ ?f)) * 10 ^ m" by simp
  define q v where "q = int (digits_val (?w @ ?f))" and "v = sgn u * q"
  have aq: "?a = q * 10 ^ m" and "0 \<le> q" using a by (simp_all add: q_def)
  then have "0 < q" if "u \<noteq> 0" using that by (cases "q = 0") auto
  then have uv: "u = v * 10 ^ m" "u < 0 \<longleftrightarrow> v < 0" and "q = \<bar>v\<bar>"
    using aq \<open>0 \<le> q\<close> unfolding v_def by (auto simp: sgn_if abs_if split: if_splits)
  have digits: "int (digits_val (?w @ ?f)) = \<bar>v\<bar>" using \<open>q = \<bar>v\<bar>\<close> by (simp only: q_def)
  have "decimal_value (exactString u) = Some (of_int v / 10 ^ length ?f)"
  proof (cases "?f = []")
    case True
    then show ?thesis using decimal_value_integer [of ?w v] uv(2) digits unfolding shown by simp
  next
    case False
    then show ?thesis using decimal_value_fixed [of ?w ?f v] f uv(2) digits unfolding shown by simp
  qed
  moreover have "of_int v / 10 ^ length ?f = (of_int u / 10 ^ 12 :: rat)"
  proof -
    have "(of_int u :: rat) / 10 ^ (length ?f + m) = of_int v / 10 ^ length ?f" by (subst uv(1)) (simp add: power_add)
    then show ?thesis unfolding lf by (rule sym)
  qed
  ultimately show ?thesis by simp
qed

lemma exactUnits_exactString [simp]: "exactUnits (exactString u) = Inr u"
  by (rule exactUnits_of_value [OF exactString_value]) simp

interpretation exact_text: text_codec exactString exactUnits "\<lambda>_. True"
  by unfold_locales simp

section \<open>Arithmetic\<close>

lemma mulExact_eq: "mulExact a b = Inr (half_away (of_int (a * b) / 10 ^ 12))"
  by (simp add: mulExact_def roundDiv_pos round_quot_half_away)

lemma divExact_eq:
  "divExact a b = (if b = 0 then Inl (DepreciationFormulaError ''formula denominator cannot be zero'')
     else Inr (half_away (of_int (a * EXACT_SCALE) / of_int b)))"
proof (cases "b < 0")
  case True
  then show ?thesis
    using half_away_minus [of "of_int (a * EXACT_SCALE) / of_int b"]
    by (simp add: divExact_def roundDiv_pos round_quot_half_away)
next
  case False
  then show ?thesis by (simp add: divExact_def roundDiv_pos round_quot_half_away)
qed

lemma mulExact_one [simp]: "mulExact EXACT_SCALE b = Inr b" "mulExact a EXACT_SCALE = Inr a"
  by (simp_all add: mulExact_def roundDiv_pos)

section \<open>Properties\<close>

text \<open>
  A formula value is read as the decimal's exact value rounded once to twelve decimals, halves away from zero (a text that is no decimal is
  refused); printed values read back to themselves; products and quotients are rounded once in the same way, a zero divisor refused.
\<close>

theorem formula_values_round_once:
  "exactUnits s = (case decimal_value s of
      None \<Rightarrow> Inl (DepreciationFormulaError ''not a decimal number: '') | Some v \<Rightarrow> Inr (half_away (v * 10 ^ 12)))
    \<and> exactUnits (exactString u) = Inr u
    \<and> mulExact a b = Inr (half_away (of_int (a * b) / 10 ^ 12))
    \<and> divExact a b = (if b = 0 then Inl (DepreciationFormulaError ''formula denominator cannot be zero'')
        else Inr (half_away (of_int (a * EXACT_SCALE) / of_int b)))"
  by (intro conjI exactUnits_value exactUnits_exactString mulExact_eq divExact_eq)

end
