(* ===== verification/Formula_Language.thy ===== *)
theory Formula_Language
  imports Formula_Value
begin

text \<open>
  The formula language of \<open>engine/src/assets/depreciation-formula.ts\<close>: the tokenizer, the recursive-descent parser (the methods of the class
  \<open>Parser\<close>, the position in the token array replaced by the tokens that are left) and the evaluator.  A compiled \<open>Node\<close>, a closure over the
  context in the source, is a syntax tree here with its evaluation; the memo table of compiled formulas does not change a result and has no
  counterpart.  The parser consumes its input, which is why it terminates; the texts it accepts are exactly
  the phrases of a stratified grammar, stated as an inductive relation, and the trees it builds are exactly the well-formed ones.
\<close>

section \<open>Tokens\<close>

datatype tok = TNum string | TId string | TOp string

definition is_letter :: "char \<Rightarrow> bool" where
  "is_letter c \<longleftrightarrow> (65 \<le> (of_char c :: nat) \<and> (of_char c :: nat) \<le> 90) \<or> (97 \<le> (of_char c :: nat) \<and> (of_char c :: nat) \<le> 122)"

definition is_alnum :: "char \<Rightarrow> bool" where
  "is_alnum c \<longleftrightarrow> is_letter c \<or> is_digit c"

text \<open>\<open>(?:[eE][-+]?\d+)?\<close>\<close>

definition exponent_prefix :: "string \<Rightarrow> string" where
  "exponent_prefix s = (case s of [] \<Rightarrow> []
     | c # r \<Rightarrow> if is_exp_mark c
         then let sg = (case r of [] \<Rightarrow> [] | d # _ \<Rightarrow> if is_sign d then [d] else []);
                  ds = takeWhile is_digit (drop (length sg) r)
              in if ds \<noteq> [] then c # sg @ ds else []
         else [])"

text \<open>\<open>/^\d*\.?\d+(?:[eE][-+]?\d+)?/\<close>\<close>

definition number_prefix :: "string \<Rightarrow> string option" where
  "number_prefix s = (let ds = takeWhile is_digit s; r = dropWhile is_digit s;
     fs = (case r of [] \<Rightarrow> [] | c # r' \<Rightarrow> if c = CHR ''.'' then takeWhile is_digit r' else []);
     m = (if fs \<noteq> [] then ds @ CHR ''.'' # fs else ds)
     in if m = [] then None else Some (m @ exponent_prefix (drop (length m) s)))"

text \<open>\<open>/^(<=|>=|==|!=|[-+*/^~()<>,])/\<close>\<close>

definition op_prefix :: "string \<Rightarrow> string option" where
  "op_prefix s = (if take 2 s \<in> {''<='', ''>='', ''=='', ''!=''} then Some (take 2 s)
     else if s \<noteq> [] \<and> hd s \<in> set ''-+*/^~()<>,'' then Some [hd s] else None)"

lemma number_prefix_pos: "number_prefix s = Some w \<Longrightarrow> 0 < length w"
  by (auto simp: number_prefix_def Let_def split: if_splits)

lemma op_prefix_pos: "op_prefix s = Some w \<Longrightarrow> 0 < length w"
  by (auto simp: op_prefix_def split: if_splits)

function tokenize :: "string \<Rightarrow> tok list result" where
  "tokenize src = (case src of [] \<Rightarrow> Inr []
     | char # rest \<Rightarrow>
         if is_white char then tokenize rest
         else if is_digit char \<or> char = CHR ''.''
         then (case number_prefix src of None \<Rightarrow> Inl (DepreciationFormulaError ''bad number at '')
           | Some w \<Rightarrow> bindE (tokenize (drop (length w) src)) (\<lambda>ts. Inr (TNum w # ts)))
         else if is_letter char
         then bindE (tokenize (dropWhile is_alnum rest)) (\<lambda>ts. Inr (TId (char # takeWhile is_alnum rest) # ts))
         else (case op_prefix src of None \<Rightarrow> Inl (DepreciationFormulaError ''unexpected '')
           | Some w \<Rightarrow> bindE (tokenize (drop (length w) src)) (\<lambda>ts. Inr (TOp w # ts))))"
  by pat_completeness auto
termination
  by (relation "measure length") (auto dest: number_prefix_pos op_prefix_pos simp: le_imp_less_Suc length_dropWhile_le)

declare tokenize.simps [simp del]

section \<open>Syntax trees\<close>

datatype comparison = Le | Lt | Eq | Ne | Ge | Gt

datatype dep_expr =
    Num int
  | Scalar string
  | Remaining_life
  | Rate int
  | Larger dep_expr dep_expr
  | Plus dep_expr dep_expr
  | Minus dep_expr dep_expr
  | Times dep_expr dep_expr
  | Divide dep_expr dep_expr
  | Power dep_expr dep_expr
  | Negate dep_expr
  | If_then_else comparison dep_expr dep_expr dep_expr dep_expr
  | Round_to nat dep_expr

definition SCALAR_VARS :: "string list" where
  "SCALAR_VARS = [''OC'', ''CC'', ''NB'', ''RV'', ''AL'', ''CP'', ''TD'', ''LD'', ''CU'', ''LU'', ''DH'', ''DP'', ''FY'', ''PB'']"

definition KEYWORDS :: "string list" where
  "KEYWORDS = [''IF'', ''THEN'', ''ELSE'', ''ENDIF'', ''ROUND'']"

definition upper_char :: "char \<Rightarrow> char" where
  "upper_char c = (let n = of_char c :: nat in if 97 \<le> n \<and> n \<le> 122 then char_of (n - 32) else c)"

definition toUpperCase :: "string \<Rightarrow> string" where
  "toUpperCase s = map upper_char s"

definition resolveVar :: "string \<Rightarrow> dep_expr result" where
  "resolveVar name =
     (if name \<in> set SCALAR_VARS then Inr (Scalar name)
      else if name = ''RL'' then Inr Remaining_life
      else if name \<noteq> [] \<and> hd name = CHR ''R'' \<and> tl name \<noteq> [] \<and> list_all is_digit (tl name)
      then Inr (Rate (int (digits_val (tl name)) - 1))
      else Inl (DepreciationFormulaError ''unknown variable ''))"

definition eatOp :: "string \<Rightarrow> tok list \<Rightarrow> tok list result" where
  "eatOp v ts = (case ts of TOp w # r \<Rightarrow> if w = v then Inr r else Inl (DepreciationFormulaError ''expected '')
     | _ \<Rightarrow> Inl (DepreciationFormulaError ''expected ''))"

definition eatKeyword :: "string \<Rightarrow> tok list \<Rightarrow> tok list result" where
  "eatKeyword v ts = (case ts of TId w # r \<Rightarrow> if toUpperCase w = v then Inr r else Inl (DepreciationFormulaError ''expected '')
     | _ \<Rightarrow> Inl (DepreciationFormulaError ''expected ''))"

definition comparison_of :: "tok list \<Rightarrow> (comparison \<times> tok list) result" where
  "comparison_of ts = (case ts of
     TOp w # r \<Rightarrow>
       if w = ''<='' then Inr (Le, r) else if w = ''<'' then Inr (Lt, r) else if w = ''=='' then Inr (Eq, r)
       else if w = ''!='' then Inr (Ne, r) else if w = ''>='' then Inr (Ge, r) else if w = ''>'' then Inr (Gt, r)
       else Inl (DepreciationFormulaError ''expected a comparison in '')
   | _ \<Rightarrow> Inl (DepreciationFormulaError ''expected a comparison in ''))"

text \<open>The digits of \<open>ROUND(x, n)\<close>: two when no comma follows.\<close>

definition round_digits :: "tok list \<Rightarrow> (nat \<times> tok list) result" where
  "round_digits ts = (case ts of
     TOp w # r \<Rightarrow> if w = '','' then (case r of
         TNum v # r' \<Rightarrow> if v \<noteq> [] \<and> list_all is_digit v then Inr (digits_val v, r')
           else Inl (DepreciationFormulaError ''ROUND digits must be an integer in '')
       | _ \<Rightarrow> Inl (DepreciationFormulaError ''ROUND digits must be an integer in ''))
       else Inr (2, ts)
   | _ \<Rightarrow> Inr (2, ts))"

definition first_op :: "tok list \<Rightarrow> string" where
  "first_op ts = (case ts of TOp w # _ \<Rightarrow> w | _ \<Rightarrow> [])"

function (sequential)
  parse_expression :: "tok list \<Rightarrow> (dep_expr \<times> tok list) result"
  and expression_loop :: "dep_expr \<Rightarrow> tok list \<Rightarrow> (dep_expr \<times> tok list) result"
  and parse_add :: "tok list \<Rightarrow> (dep_expr \<times> tok list) result"
  and add_loop :: "dep_expr \<Rightarrow> tok list \<Rightarrow> (dep_expr \<times> tok list) result"
  and parse_multiply :: "tok list \<Rightarrow> (dep_expr \<times> tok list) result"
  and multiply_loop :: "dep_expr \<Rightarrow> tok list \<Rightarrow> (dep_expr \<times> tok list) result"
  and parse_power :: "tok list \<Rightarrow> (dep_expr \<times> tok list) result"
  and parse_unary :: "tok list \<Rightarrow> (dep_expr \<times> tok list) result"
  and parse_primary :: "tok list \<Rightarrow> (dep_expr \<times> tok list) result"
  and parse_condition :: "tok list \<Rightarrow> ((comparison \<times> dep_expr \<times> dep_expr) \<times> tok list) result"
  and parse_if :: "tok list \<Rightarrow> (dep_expr \<times> tok list) result"
  and parse_round :: "tok list \<Rightarrow> (dep_expr \<times> tok list) result"
where
  "parse_expression ts = bindE (parse_add ts) (\<lambda>p. expression_loop (fst p) (snd p))"
| "expression_loop left ts = (if first_op ts = ''~''
     then bindE (parse_add (tl ts)) (\<lambda>p. expression_loop (Larger left (fst p)) (snd p)) else Inr (left, ts))"
| "parse_add ts = bindE (parse_multiply ts) (\<lambda>p. add_loop (fst p) (snd p))"
| "add_loop left ts = (if first_op ts = ''+'' \<or> first_op ts = ''-''
     then bindE (parse_multiply (tl ts)) (\<lambda>p. add_loop (if first_op ts = ''+'' then Plus left (fst p) else Minus left (fst p)) (snd p))
     else Inr (left, ts))"
| "parse_multiply ts = bindE (parse_power ts) (\<lambda>p. multiply_loop (fst p) (snd p))"
| "multiply_loop left ts = (if first_op ts = ''*'' \<or> first_op ts = ''/''
     then bindE (parse_power (tl ts)) (\<lambda>p. multiply_loop (if first_op ts = ''*'' then Times left (fst p) else Divide left (fst p)) (snd p))
     else Inr (left, ts))"
| "parse_power ts = bindE (parse_unary ts) (\<lambda>p. if first_op (snd p) = ''^''
     then bindE (parse_power (tl (snd p))) (\<lambda>q. Inr (Power (fst p) (fst q), snd q)) else Inr p)"
| "parse_unary ts = (if first_op ts = ''-''
     then bindE (parse_unary (tl ts)) (\<lambda>p. Inr (Negate (fst p), snd p)) else parse_primary ts)"
| "parse_primary ts = (case ts of
     [] \<Rightarrow> Inl (DepreciationFormulaError ''unexpected end of '')
   | TNum v # r \<Rightarrow> bindE (exactUnits v) (\<lambda>u. Inr (Num u, r))
   | TOp w # r \<Rightarrow> if w = ''('' then bindE (parse_expression r) (\<lambda>p. bindE (eatOp '')'' (snd p)) (\<lambda>r'. Inr (fst p, r')))
       else Inl (DepreciationFormulaError ''unexpected '')
   | TId w # r \<Rightarrow> if toUpperCase w = ''IF'' then parse_if r
       else if toUpperCase w = ''ROUND'' then parse_round r
       else if toUpperCase w \<in> set KEYWORDS then Inl (DepreciationFormulaError ''unexpected '')
       else bindE (resolveVar w) (\<lambda>e. Inr (e, r)))"
| "parse_condition ts = bindE (parse_expression ts) (\<lambda>a. bindE (comparison_of (snd a)) (\<lambda>c. bindE (parse_expression (snd c)) (\<lambda>b.
     Inr ((fst c, fst a, fst b), snd b))))"
| "parse_if ts = bindE (parse_condition ts) (\<lambda>c. bindE (eatKeyword ''THEN'' (snd c)) (\<lambda>r1. bindE (parse_expression r1) (\<lambda>t.
     bindE (eatKeyword ''ELSE'' (snd t)) (\<lambda>r2. bindE (parse_expression r2) (\<lambda>f.
     bindE (eatKeyword ''ENDIF'' (snd f)) (\<lambda>r3.
       Inr (If_then_else (fst (fst c)) (fst (snd (fst c))) (snd (snd (fst c))) (fst t) (fst f), r3)))))))"
| "parse_round ts = bindE (eatOp ''('' ts) (\<lambda>r. bindE (parse_expression r) (\<lambda>p. bindE (round_digits (snd p)) (\<lambda>d.
     bindE (eatOp '')'' (snd d)) (\<lambda>r'.
     if fst d > PRECISION then Inl (DepreciationFormulaError ''ROUND digits must be 0 through 12'')
     else Inr (Round_to (fst d) (fst p), r')))))"
  by pat_completeness auto

section \<open>The parser consumes its input\<close>

definition shorter :: "('a \<times> tok list) result \<Rightarrow> tok list \<Rightarrow> bool" where
  "shorter m ts \<longleftrightarrow> (\<forall>p. m = Inr p \<longrightarrow> length (snd p) < length ts)"

definition no_longer :: "('a \<times> tok list) result \<Rightarrow> tok list \<Rightarrow> bool" where
  "no_longer m ts \<longleftrightarrow> (\<forall>p. m = Inr p \<longrightarrow> length (snd p) \<le> length ts)"

lemma shorterD: "shorter m ts \<Longrightarrow> m = Inr p \<Longrightarrow> length (snd p) < length ts"
  by (simp add: shorter_def)

lemma no_longerD: "no_longer m ts \<Longrightarrow> m = Inr p \<Longrightarrow> length (snd p) \<le> length ts"
  by (simp add: no_longer_def)

lemma eatOp_length: "eatOp v ts = Inr r \<Longrightarrow> length r < length ts"
  by (auto simp: eatOp_def split: list.splits tok.splits if_splits)

lemma eatKeyword_length: "eatKeyword v ts = Inr r \<Longrightarrow> length r < length ts"
  by (auto simp: eatKeyword_def split: list.splits tok.splits if_splits)

lemma comparison_of_length: "comparison_of ts = Inr p \<Longrightarrow> length (snd p) < length ts"
  by (auto simp: comparison_of_def split: list.splits tok.splits if_splits)

lemma round_digits_length: "round_digits ts = Inr p \<Longrightarrow> length (snd p) \<le> length ts"
  by (auto simp: round_digits_def split: list.splits tok.splits if_splits)

lemma first_op_Cons: "first_op ts \<noteq> [] \<Longrightarrow> ts \<noteq> []"
  by (auto simp: first_op_def)

lemma first_op_CharD: "first_op ts = c # w \<Longrightarrow> \<exists>t r. ts = t # r"
  by (cases ts) (auto simp: first_op_def)

lemmas consumed = eatOp_length eatKeyword_length comparison_of_length round_digits_length

text \<open>The rules that carry consumption through a parser's body.\<close>

lemma shorter_bind:
  assumes "\<And>p. m = Inr p \<Longrightarrow> shorter (f p) ts"
  shows "shorter (bindE m f) ts"
  using assms by (cases m) (auto simp: shorter_def)

lemma no_longer_bind:
  assumes "\<And>p. m = Inr p \<Longrightarrow> no_longer (f p) ts"
  shows "no_longer (bindE m f) ts"
  using assms by (cases m) (auto simp: no_longer_def)

lemma shorter_simps [simp]:
  "shorter (Inl e) ts" "shorter (Inr p) ts \<longleftrightarrow> length (snd p) < length ts"
  "no_longer (Inl e) ts" "no_longer (Inr p) ts \<longleftrightarrow> length (snd p) \<le> length ts"
  by (auto simp: shorter_def no_longer_def)

lemma shorter_trans:
  "no_longer m ts' \<Longrightarrow> length ts' < length ts \<Longrightarrow> shorter m ts"
  "shorter m ts' \<Longrightarrow> length ts' \<le> length ts \<Longrightarrow> shorter m ts"
  "no_longer m ts' \<Longrightarrow> length ts' \<le> length ts \<Longrightarrow> no_longer m ts"
  by (fastforce simp: shorter_def no_longer_def)+

lemma shorter_chain:
  assumes "shorter m ts" "\<And>p. m = Inr p \<Longrightarrow> no_longer (f p) (snd p)"
  shows "shorter (bindE m f) ts"
  using assms by (cases m) (auto intro: shorter_trans)

lemma no_longer_loop:
  assumes "c \<Longrightarrow> shorter m (tl ts)" "\<And>p. c \<Longrightarrow> m = Inr p \<Longrightarrow> no_longer (f p) (snd p)"
  shows "no_longer (if c then bindE m f else Inr (left, ts)) ts"
proof (cases "c \<and> (\<exists>p. m = Inr p)")
  case True
  then obtain p where p: "c" "m = Inr p" by blast
  have "length (snd p) \<le> length ts" using shorterD [OF assms(1) [OF p(1)] p(2)] by (cases ts) auto
  then show ?thesis using shorter_trans(3) [OF assms(2) [OF p]] p by simp
qed (cases m; auto)

abbreviation (input) parser_dom where
  "parser_dom \<equiv> parse_expression_expression_loop_parse_add_add_loop_parse_multiply_multiply_loop_parse_power_parse_unary_parse_primary_parse_condition_parse_if_parse_round_dom"

lemma parsers_consume_partial:
  shows "parser_dom (Inl (Inl (Inl ts1))) \<Longrightarrow> shorter (parse_expression ts1) ts1"
    and "parser_dom (Inl (Inl (Inr (Inl (e2, ts2))))) \<Longrightarrow> no_longer (expression_loop e2 ts2) ts2"
    and "parser_dom (Inl (Inl (Inr (Inr ts3)))) \<Longrightarrow> shorter (parse_add ts3) ts3"
    and "parser_dom (Inl (Inr (Inl (e4, ts4)))) \<Longrightarrow> no_longer (add_loop e4 ts4) ts4"
    and "parser_dom (Inl (Inr (Inr (Inl ts5)))) \<Longrightarrow> shorter (parse_multiply ts5) ts5"
    and "parser_dom (Inl (Inr (Inr (Inr (e6, ts6))))) \<Longrightarrow> no_longer (multiply_loop e6 ts6) ts6"
    and "parser_dom (Inr (Inl (Inl ts7))) \<Longrightarrow> shorter (parse_power ts7) ts7"
    and "parser_dom (Inr (Inl (Inr (Inl ts8)))) \<Longrightarrow> shorter (parse_unary ts8) ts8"
    and "parser_dom (Inr (Inl (Inr (Inr ts9)))) \<Longrightarrow> shorter (parse_primary ts9) ts9"
    and "parser_dom (Inr (Inr (Inl ts10))) \<Longrightarrow> shorter (parse_condition ts10) ts10"
    and "parser_dom (Inr (Inr (Inr (Inl ts11)))) \<Longrightarrow> shorter (parse_if ts11) ts11"
    and "parser_dom (Inr (Inr (Inr (Inr ts12)))) \<Longrightarrow> shorter (parse_round ts12) ts12"
proof (induction ts1 and e2 ts2 and ts3 and e4 ts4 and ts5 and e6 ts6 and ts7 and ts8 and ts9 and ts10 and ts11 and ts12
    rule: parse_expression_expression_loop_parse_add_add_loop_parse_multiply_multiply_loop_parse_power_parse_unary_parse_primary_parse_condition_parse_if_parse_round.pinduct)
  case (1 ts)
  show ?case unfolding parse_expression.psimps [OF 1(1)] by (rule shorter_chain) (fact 1)+
next
  case (2 left ts)
  show ?case unfolding expression_loop.psimps [OF 2(1)] by (rule no_longer_loop) (fact 2)+
next
  case (3 ts)
  show ?case unfolding parse_add.psimps [OF 3(1)] by (rule shorter_chain) (fact 3)+
next
  case (4 left ts)
  show ?case unfolding add_loop.psimps [OF 4(1)] by (rule no_longer_loop) (fact 4)+
next
  case (5 ts)
  show ?case unfolding parse_multiply.psimps [OF 5(1)] by (rule shorter_chain) (fact 5)+
next
  case (6 left ts)
  show ?case unfolding multiply_loop.psimps [OF 6(1)] by (rule no_longer_loop) (fact 6)+
next
  case (7 ts)
  show ?case unfolding parse_power.psimps [OF 7(1)]
  proof (rule shorter_bind)
    fix p assume p: "parse_unary ts = Inr p"
    have len: "length (snd p) < length ts" by (rule shorterD [OF 7(2) p])
    then show "shorter (if first_op (snd p) = ''^'' then bindE (parse_power (tl (snd p))) (\<lambda>q. Inr (Power (fst p) (fst q), snd q)) else Inr p) ts"
      by (auto intro!: shorter_bind dest!: shorterD [OF 7(3) [OF p]])
  qed
next
  case (8 ts)
  show ?case unfolding parse_unary.psimps [OF 8(1)]
    by (auto intro!: shorter_bind 8(3) dest!: shorterD [OF 8(2)])
next
  case (9 ts)
  note step = parse_primary.psimps [OF 9(1)]
  show ?case
  proof (cases ts)
    case Nil
    then show ?thesis by (subst step) simp
  next
    case (Cons t r)
    show ?thesis
    proof (cases t)
      case (TId w)
      then show ?thesis using shorter_trans(2) [OF 9(2), of t r w ts] shorter_trans(2) [OF 9(3), of t r w ts] Cons
        by (subst step) (auto intro!: shorter_bind)
    next
      case (TOp w)
      then show ?thesis using shorterD [OF 9(4), of t r w] Cons
        by (subst step) (auto intro!: shorter_bind dest!: consumed)
    qed (subst step, use Cons in \<open>auto intro!: shorter_bind\<close>)
  qed
next
  case (10 ts)
  show ?case unfolding parse_condition.psimps [OF 10(1)]
  proof (intro shorter_bind)
    fix a c b assume h: "parse_expression ts = Inr a" "comparison_of (snd a) = Inr c" "parse_expression (snd c) = Inr b"
    show "shorter (Inr ((fst c, fst a, fst b), snd b)) ts"
      using shorterD [OF 10(2) h(1)] comparison_of_length [OF h(2)] shorterD [OF 10(3) [OF h(1,2)] h(3)] by simp
  qed
next
  case (11 ts)
  show ?case unfolding parse_if.psimps [OF 11(1)]
  proof (intro shorter_bind)
    fix c r1 t r2 f r3
    assume h: "parse_condition ts = Inr c" "eatKeyword ''THEN'' (snd c) = Inr r1" "parse_expression r1 = Inr t"
      "eatKeyword ''ELSE'' (snd t) = Inr r2" "parse_expression r2 = Inr f" "eatKeyword ''ENDIF'' (snd f) = Inr r3"
    show "shorter (Inr (If_then_else (fst (fst c)) (fst (snd (fst c))) (snd (snd (fst c))) (fst t) (fst f), r3)) ts"
      using shorterD [OF 11(2) h(1)] shorterD [OF 11(3) [OF h(1,2)] h(3)] shorterD [OF 11(4) [OF h(1-4)] h(5)]
        h(2,4,6) [THEN eatKeyword_length] by simp
  qed
next
  case (12 ts)
  show ?case unfolding parse_round.psimps [OF 12(1)]
  proof (intro shorter_bind)
    fix r p d r' assume h: "eatOp ''('' ts = Inr r" "parse_expression r = Inr p" "round_digits (snd p) = Inr d" "eatOp '')'' (snd d) = Inr r'"
    show "shorter (if fst d > PRECISION then Inl (DepreciationFormulaError ''ROUND digits must be 0 through 12'')
        else Inr (Round_to (fst d) (fst p), r')) ts"
      using h(1,4) [THEN eatOp_length] shorterD [OF 12(2) [OF h(1)] h(2)] round_digits_length [OF h(3)] by simp
  qed
qed

definition parser_measure where
  "parser_measure x = (case x of
     Inl (Inl (Inl ts)) \<Rightarrow> 8 * length ts + 5
   | Inl (Inl (Inr (Inl p))) \<Rightarrow> 8 * length (snd p)
   | Inl (Inl (Inr (Inr ts))) \<Rightarrow> 8 * length ts + 4
   | Inl (Inr (Inl p)) \<Rightarrow> 8 * length (snd p)
   | Inl (Inr (Inr (Inl ts))) \<Rightarrow> 8 * length ts + 3
   | Inl (Inr (Inr (Inr p))) \<Rightarrow> 8 * length (snd p)
   | Inr (Inl (Inl ts)) \<Rightarrow> 8 * length ts + 2
   | Inr (Inl (Inr (Inl ts))) \<Rightarrow> 8 * length ts + 1
   | Inr (Inl (Inr (Inr ts))) \<Rightarrow> 8 * length ts
   | Inr (Inr (Inl ts)) \<Rightarrow> 8 * length ts + 6
   | Inr (Inr (Inr (Inl ts))) \<Rightarrow> 8 * length ts + 7
   | Inr (Inr (Inr (Inr ts))) \<Rightarrow> 8 * length ts)"

lemmas parsers_shorten = shorterD [OF parsers_consume_partial(1)] shorterD [OF parsers_consume_partial(3)]
  shorterD [OF parsers_consume_partial(5)] shorterD [OF parsers_consume_partial(7)] shorterD [OF parsers_consume_partial(8)]
  shorterD [OF parsers_consume_partial(9)] shorterD [OF parsers_consume_partial(10)] shorterD [OF parsers_consume_partial(11)]
  shorterD [OF parsers_consume_partial(12)]

termination parse_expression
  by (relation "measure parser_measure")
    (auto simp: parser_measure_def dest!: parsers_shorten consumed first_op_CharD)

lemmas parser_equations = parse_expression.simps expression_loop.simps parse_add.simps add_loop.simps parse_multiply.simps
  multiply_loop.simps parse_power.simps parse_unary.simps parse_primary.simps parse_condition.simps parse_if.simps parse_round.simps

declare parser_equations [simp del]

section \<open>Evaluation\<close>

record dep_context =
  ctx_OC :: string
  ctx_CC :: string
  ctx_NB :: string
  ctx_RV :: string
  ctx_AL :: string
  ctx_CP :: string
  ctx_TD :: string
  ctx_LD :: string
  ctx_CU :: string
  ctx_LU :: string
  ctx_DH :: string
  ctx_DP :: string
  ctx_FY :: string
  ctx_PB :: string
  ctx_RL :: "string option"
  ctx_R :: "string list option"

text \<open>\<open>context[name] ?? "0"\<close>\<close>

definition scalar_text :: "dep_context \<Rightarrow> string \<Rightarrow> string" where
  "scalar_text c name = or_else (map_of
     [(''OC'', ctx_OC c), (''CC'', ctx_CC c), (''NB'', ctx_NB c), (''RV'', ctx_RV c), (''AL'', ctx_AL c), (''CP'', ctx_CP c),
      (''TD'', ctx_TD c), (''LD'', ctx_LD c), (''CU'', ctx_CU c), (''LU'', ctx_LU c), (''DH'', ctx_DH c), (''DP'', ctx_DP c),
      (''FY'', ctx_FY c), (''PB'', ctx_PB c)] name) ''0''"

text \<open>\<open>context.R?.[index] ?? "0"\<close>\<close>

definition rate_text :: "dep_context \<Rightarrow> int \<Rightarrow> string" where
  "rate_text c index = (case ctx_R c of None \<Rightarrow> ''0''
     | Some rs \<Rightarrow> if 0 \<le> index \<and> index < int (length rs) then rs ! nat index else ''0'')"

fun compare_values :: "comparison \<Rightarrow> int \<Rightarrow> int \<Rightarrow> bool" where
  "compare_values Le a b = (a \<le> b)"
| "compare_values Lt a b = (a < b)"
| "compare_values Eq a b = (a = b)"
| "compare_values Ne a b = (a \<noteq> b)"
| "compare_values Ge a b = (a \<ge> b)"
| "compare_values Gt a b = (a > b)"

primrec eval_expr :: "dep_context \<Rightarrow> dep_expr \<Rightarrow> int result" where
  "eval_expr c (Num u) = Inr u"
| "eval_expr c (Scalar name) = exactUnits (scalar_text c name)"
| "eval_expr c Remaining_life = (case ctx_RL c of
     Some rl \<Rightarrow> exactUnits rl
   | None \<Rightarrow> bindE (exactUnits (ctx_AL c)) (\<lambda>al. bindE (exactUnits (ctx_CP c)) (\<lambda>cp. Inr (al - cp + EXACT_SCALE))))"
| "eval_expr c (Rate index) = exactUnits (rate_text c index)"
| "eval_expr c (Larger l r) = bindE (eval_expr c l) (\<lambda>a. bindE (eval_expr c r) (\<lambda>b. Inr (if a > b then a else b)))"
| "eval_expr c (Plus l r) = bindE (eval_expr c l) (\<lambda>a. bindE (eval_expr c r) (\<lambda>b. Inr (a + b)))"
| "eval_expr c (Minus l r) = bindE (eval_expr c l) (\<lambda>a. bindE (eval_expr c r) (\<lambda>b. Inr (a - b)))"
| "eval_expr c (Times l r) = bindE (eval_expr c l) (\<lambda>a. bindE (eval_expr c r) (\<lambda>b. mulExact a b))"
| "eval_expr c (Divide l r) = bindE (eval_expr c l) (\<lambda>a. bindE (eval_expr c r) (\<lambda>b. divExact a b))"
| "eval_expr c (Power l r) = bindE (eval_expr c l) (\<lambda>a. bindE (eval_expr c r) (\<lambda>b. powExact a b))"
| "eval_expr c (Negate e) = bindE (eval_expr c e) (\<lambda>a. Inr (- a))"
| "eval_expr c (If_then_else op l r t f) = bindE (eval_expr c l) (\<lambda>a. bindE (eval_expr c r) (\<lambda>b.
     if compare_values op a b then eval_expr c t else eval_expr c f))"
| "eval_expr c (Round_to digits e) = bindE (eval_expr c e) (\<lambda>a.
     let quantum = 10 ^ (PRECISION - digits) in bindE (roundDiv a quantum) (\<lambda>q. Inr (q * quantum)))"

definition parse_formula :: "tok list \<Rightarrow> dep_expr result" where
  "parse_formula ts = bindE (parse_expression ts) (\<lambda>p.
     if snd p \<noteq> [] then Inl (DepreciationFormulaError ''trailing tokens in '') else Inr (fst p))"

definition compileExactFormula :: "string \<Rightarrow> dep_expr result" where
  "compileExactFormula source = bindE (tokenize source) parse_formula"

definition compileFormula :: "string \<Rightarrow> (dep_context \<Rightarrow> string result) result" where
  "compileFormula source = bindE (compileExactFormula source) (\<lambda>e.
     Inr (\<lambda>c. bindE (eval_expr c e) (\<lambda>u. Inr (exactString u))))"

definition evalDepFormula :: "string \<Rightarrow> dep_context \<Rightarrow> string result" where
  "evalDepFormula source c = bindE (compileFormula source) (\<lambda>f. f c)"

section \<open>Well-formed trees\<close>

text \<open>A tree of the language: constants are not negative, the variables are the named ones and a rounding keeps at most twelve digits.\<close>

primrec wf_expr :: "dep_expr \<Rightarrow> bool" where
  "wf_expr (Num u) \<longleftrightarrow> 0 \<le> u"
| "wf_expr (Scalar name) \<longleftrightarrow> name \<in> set SCALAR_VARS"
| "wf_expr Remaining_life \<longleftrightarrow> True"
| "wf_expr (Rate index) \<longleftrightarrow> - 1 \<le> index"
| "wf_expr (Larger l r) \<longleftrightarrow> wf_expr l \<and> wf_expr r"
| "wf_expr (Plus l r) \<longleftrightarrow> wf_expr l \<and> wf_expr r"
| "wf_expr (Minus l r) \<longleftrightarrow> wf_expr l \<and> wf_expr r"
| "wf_expr (Times l r) \<longleftrightarrow> wf_expr l \<and> wf_expr r"
| "wf_expr (Divide l r) \<longleftrightarrow> wf_expr l \<and> wf_expr r"
| "wf_expr (Power l r) \<longleftrightarrow> wf_expr l \<and> wf_expr r"
| "wf_expr (Negate e) \<longleftrightarrow> wf_expr e"
| "wf_expr (If_then_else op l r t f) \<longleftrightarrow> wf_expr l \<and> wf_expr r \<and> wf_expr t \<and> wf_expr f"
| "wf_expr (Round_to digits e) \<longleftrightarrow> digits \<le> PRECISION \<and> wf_expr e"

text \<open>A number token starts with a digit or a point, so it denotes no negative constant.\<close>

fun unsigned_tok :: "tok \<Rightarrow> bool" where
  "unsigned_tok (TNum v) \<longleftrightarrow> v \<noteq> [] \<and> (is_digit (hd v) \<or> hd v = CHR ''.'')"
| "unsigned_tok _ \<longleftrightarrow> True"

lemma number_prefix_hd: "number_prefix (c # s) = Some w \<Longrightarrow> w \<noteq> [] \<and> hd w = c"
  by (auto simp: number_prefix_def Let_def split: if_splits list.splits)

lemma tokenize_unsigned: "tokenize s = Inr ts \<Longrightarrow> list_all unsigned_tok ts"
proof (induction s arbitrary: ts rule: tokenize.induct)
  case (1 src)
  note prem = 1(5)
  note IH = 1(1-4)
  show ?case
  proof (cases src)
    case Nil
    then show ?thesis using prem by (simp add: tokenize.simps)
  next
    case (Cons c rest)
    note step = tokenize.simps [of src, unfolded Cons list.case, folded Cons]
    consider "is_white c" | "\<not> is_white c" "is_digit c \<or> c = CHR ''.''" | "\<not> is_white c" "\<not> (is_digit c \<or> c = CHR ''.'')" "is_letter c"
      | "\<not> is_white c" "\<not> (is_digit c \<or> c = CHR ''.'')" "\<not> is_letter c" by blast
    then show ?thesis
    proof cases
      case 1
      then show ?thesis using IH(1) [OF Cons] prem step by simp
    next
      case 2
      then obtain w where w: "number_prefix src = Some w" using prem step by (cases "number_prefix src") auto
      then obtain us where "tokenize (drop (length w) src) = Inr us" "ts = TNum w # us"
        using prem step 2 by (auto elim!: bindE_InrE)
      then show ?thesis using IH(2) [OF Cons 2 w] number_prefix_hd [of c rest w] w 2 Cons by simp
    next
      case 3
      then show ?thesis using IH(3) [OF Cons 3(1,2,3)] prem step by (auto elim!: bindE_InrE)
    next
      case 4
      then obtain w where w: "op_prefix src = Some w" using prem step by (cases "op_prefix src") auto
      then show ?thesis using IH(4) [OF Cons 4 w] prem step 4 by (auto elim!: bindE_InrE)
    qed
  qed
qed

lemma bigint_of_digits_nonneg: "list_all is_digit s \<Longrightarrow> 0 \<le> bigint_of_text s"
  by (simp add: bigint_of_digits)

lemma trim_unsigned:
  assumes "v \<noteq> []" "is_digit (hd v) \<or> hd v = CHR ''.''"
  shows "\<not> starts_minus (trim v)"
proof -
  obtain c r where v: "v = c # r" using assms(1) by (cases v) auto
  have "\<not> is_white c" using assms(2) by (auto simp: digit_not_mark v)
  then have "trim v = c # rev (dropWhile is_white (rev r))"
    by (simp add: trim_def v dropWhile_append)
  then show ?thesis using assms(2) by (auto simp: v starts_minus_def digit_not_mark)
qed

lemma rounded_units_nonneg:
  assumes "list_all is_digit i" "list_all is_digit g"
  shows "0 \<le> rounded_units (i, g)"
  unfolding rounded_units_half_away [OF assms] by (rule half_away_nonneg) simp

lemma exactUnits_unsigned:
  assumes "v \<noteq> []" "is_digit (hd v) \<or> hd v = CHR ''.''" "exactUnits v = Inr u"
  shows "0 \<le> u"
proof -
  obtain n w f e where p: "decimal_parts v = Some (n, w, f, e)"
    using assms(3) by (cases "decimal_parts v") (auto simp: exactUnits_parts)
  have "n = starts_minus (trim v)" using p by (auto simp: decimal_parts_def Let_def split: if_splits option.splits prod.splits)
  then have "\<not> n" using trim_unsigned [OF assms(1,2)] by simp
  obtain i g where ig: "normalized_parts w f e = (i, g)" by (cases "normalized_parts w f e")
  note d = decimal_parts_digits [OF p]
  show ?thesis
    using assms(3) \<open>\<not> n\<close> rounded_units_nonneg [OF normalized_parts_digits [OF d(1,2) ig]]
    by (auto simp: exactUnits_parts p ig)
qed

text \<open>What a parser returns: a well-formed tree and tokens of its input.\<close>

definition sound :: "('a \<Rightarrow> bool) \<Rightarrow> ('a \<times> tok list) result \<Rightarrow> tok list \<Rightarrow> bool" where
  "sound P m ts \<longleftrightarrow> (\<forall>p. m = Inr p \<longrightarrow> P (fst p) \<and> set (snd p) \<subseteq> set ts)"

lemma soundD: "sound P m ts \<Longrightarrow> m = Inr p \<Longrightarrow> P (fst p) \<and> set (snd p) \<subseteq> set ts"
  by (simp add: sound_def)

lemma sound_simps [simp]:
  "sound P (Inl e) ts" "sound P (Inr p) ts \<longleftrightarrow> P (fst p) \<and> set (snd p) \<subseteq> set ts"
  by (auto simp: sound_def)

lemma sound_bind: "(\<And>p. m = Inr p \<Longrightarrow> sound P (f p) ts) \<Longrightarrow> sound P (bindE m f) ts"
  by (cases m) auto

lemma sound_mono: "sound P m ts' \<Longrightarrow> set ts' \<subseteq> set ts \<Longrightarrow> sound P m ts"
  by (auto simp: sound_def)

lemma eatOp_set: "eatOp v ts = Inr r \<Longrightarrow> set r \<subseteq> set ts"
  by (auto simp: eatOp_def split: list.splits tok.splits if_splits)

lemma eatKeyword_set: "eatKeyword v ts = Inr r \<Longrightarrow> set r \<subseteq> set ts"
  by (auto simp: eatKeyword_def split: list.splits tok.splits if_splits)

lemma comparison_of_set: "comparison_of ts = Inr p \<Longrightarrow> set (snd p) \<subseteq> set ts"
  by (auto simp: comparison_of_def split: list.splits tok.splits if_splits)

lemma round_digits_set: "round_digits ts = Inr p \<Longrightarrow> set (snd p) \<subseteq> set ts"
  by (auto simp: round_digits_def split: list.splits tok.splits if_splits)

lemma set_tl: "set (tl ts) \<subseteq> set ts"
  by (cases ts) auto

lemma unsigned_mono: "set ts' \<subseteq> set ts \<Longrightarrow> list_all unsigned_tok ts \<Longrightarrow> list_all unsigned_tok ts'"
  by (auto simp: list_all_iff)

lemma unsigned_tl: "list_all unsigned_tok ts \<Longrightarrow> list_all unsigned_tok (tl ts)"
  by (rule unsigned_mono [OF set_tl])

lemma resolveVar_wf: "resolveVar name = Inr e \<Longrightarrow> wf_expr e"
  by (auto simp: resolveVar_def split: if_splits)

text \<open>The two shapes of the binary levels: an operand and then a loop over its operators.\<close>

lemma sound_chain:
  assumes "sound wf_expr m ts" "list_all unsigned_tok ts"
    and "\<And>p. m = Inr p \<Longrightarrow> wf_expr (fst p) \<Longrightarrow> list_all unsigned_tok (snd p) \<Longrightarrow> sound wf_expr (f p) (snd p)"
  shows "sound wf_expr (bindE m f) ts"
proof (rule sound_bind)
  fix p assume p: "m = Inr p"
  note h = soundD [OF assms(1) p]
  show "sound wf_expr (f p) ts"
    by (rule sound_mono [OF assms(3) [OF p]]) (use h unsigned_mono [OF _ assms(2)] in auto)
qed

lemma sound_loop:
  assumes "c \<Longrightarrow> list_all unsigned_tok (tl ts) \<Longrightarrow> sound wf_expr m (tl ts)" "list_all unsigned_tok ts" "wf_expr left"
    and "\<And>p. c \<Longrightarrow> m = Inr p \<Longrightarrow> wf_expr (fst p) \<Longrightarrow> list_all unsigned_tok (snd p) \<Longrightarrow> sound wf_expr (f p) (snd p)"
  shows "sound wf_expr (if c then bindE m f else Inr (left, ts)) ts"
  using sound_mono [OF sound_chain [OF assms(1)] set_tl] unsigned_tl [OF assms(2)] assms(3,4) by auto

lemmas parser_induct =
  parse_expression_expression_loop_parse_add_add_loop_parse_multiply_multiply_loop_parse_power_parse_unary_parse_primary_parse_condition_parse_if_parse_round.induct

lemma parsers_sound:
  shows "list_all unsigned_tok ts1 \<Longrightarrow> sound wf_expr (parse_expression ts1) ts1"
    and "wf_expr e2 \<Longrightarrow> list_all unsigned_tok ts2 \<Longrightarrow> sound wf_expr (expression_loop e2 ts2) ts2"
    and "list_all unsigned_tok ts3 \<Longrightarrow> sound wf_expr (parse_add ts3) ts3"
    and "wf_expr e4 \<Longrightarrow> list_all unsigned_tok ts4 \<Longrightarrow> sound wf_expr (add_loop e4 ts4) ts4"
    and "list_all unsigned_tok ts5 \<Longrightarrow> sound wf_expr (parse_multiply ts5) ts5"
    and "wf_expr e6 \<Longrightarrow> list_all unsigned_tok ts6 \<Longrightarrow> sound wf_expr (multiply_loop e6 ts6) ts6"
    and "list_all unsigned_tok ts7 \<Longrightarrow> sound wf_expr (parse_power ts7) ts7"
    and "list_all unsigned_tok ts8 \<Longrightarrow> sound wf_expr (parse_unary ts8) ts8"
    and "list_all unsigned_tok ts9 \<Longrightarrow> sound wf_expr (parse_primary ts9) ts9"
    and "list_all unsigned_tok ts10 \<Longrightarrow> sound (\<lambda>c. wf_expr (fst (snd c)) \<and> wf_expr (snd (snd c))) (parse_condition ts10) ts10"
    and "list_all unsigned_tok ts11 \<Longrightarrow> sound wf_expr (parse_if ts11) ts11"
    and "list_all unsigned_tok ts12 \<Longrightarrow> sound wf_expr (parse_round ts12) ts12"
proof (induction ts1 and e2 ts2 and ts3 and e4 ts4 and ts5 and e6 ts6 and ts7 and ts8 and ts9 and ts10 and ts11 and ts12 rule: parser_induct)
  case (1 ts)
  show ?case unfolding parse_expression.simps [of ts] by (rule sound_chain [OF 1(1) 1(3)]) (use 1 in auto)
next
  case (2 left ts)
  show ?case unfolding expression_loop.simps [of left ts] by (rule sound_loop [OF 2(1) 2(4,3)]) (use 2 in auto)
next
  case (3 ts)
  show ?case unfolding parse_add.simps [of ts] by (rule sound_chain [OF 3(1) 3(3)]) (use 3 in auto)
next
  case (4 left ts)
  show ?case unfolding add_loop.simps [of left ts] by (rule sound_loop [OF 4(1) 4(4,3)]) (use 4 in auto)
next
  case (5 ts)
  show ?case unfolding parse_multiply.simps [of ts] by (rule sound_chain [OF 5(1) 5(3)]) (use 5 in auto)
next
  case (6 left ts)
  show ?case unfolding multiply_loop.simps [of left ts] by (rule sound_loop [OF 6(1) 6(4,3)]) (use 6 in auto)
next
  case (7 ts)
  show ?case unfolding parse_power.simps [of ts]
  proof (rule sound_chain [OF 7(1) 7(3)])
    fix p assume p: "parse_unary ts = Inr p" "wf_expr (fst p)" "list_all unsigned_tok (snd p)"
    show "sound wf_expr (if first_op (snd p) = ''^'' then bindE (parse_power (tl (snd p))) (\<lambda>q. Inr (Power (fst p) (fst q), snd q)) else Inr p) (snd p)"
      using soundD [OF 7(2) [OF p(1) _ unsigned_tl [OF p(3)]]] set_tl [of "snd p"] p(2) by (auto intro!: sound_bind; blast)
  qed (rule 7(3))
next
  case (8 ts)
  show ?case unfolding parse_unary.simps [of ts]
    using soundD [OF 8(1) [OF _ unsigned_tl [OF 8(3)]]] set_tl [of ts] 8(2,3) by (auto intro!: sound_bind; blast)
next
  case (9 ts)
  show ?case
  proof (cases ts)
    case (Cons t r)
    have r: "list_all unsigned_tok r" "unsigned_tok t" "set r \<subseteq> set ts" using 9(4) Cons by auto
    show ?thesis
    proof (cases t)
      case (TNum v)
      then show ?thesis unfolding parse_primary.simps [of ts] using Cons r(2)
        by (auto intro!: sound_bind dest: exactUnits_unsigned)
    next
      case (TId w)
      then show ?thesis unfolding parse_primary.simps [of ts]
        using Cons sound_mono [OF 9(1) [OF Cons TId _ r(1)] r(3)] sound_mono [OF 9(2) [OF Cons TId _ _ r(1)] r(3)]
        by (auto intro!: sound_bind dest: resolveVar_wf)
    next
      case (TOp w)
      then show ?thesis unfolding parse_primary.simps [of ts]
        using Cons soundD [OF 9(3) [OF Cons TOp _ r(1)]] by (auto 0 3 intro!: sound_bind dest!: eatOp_set)
    qed
  qed (simp add: parse_primary.simps)
next
  case (10 ts)
  show ?case unfolding parse_condition.simps [of ts]
  proof (intro sound_bind)
    fix a c b assume h: "parse_expression ts = Inr a" "comparison_of (snd a) = Inr c" "parse_expression (snd c) = Inr b"
    note a = soundD [OF 10(1) [OF 10(3)] h(1)]
    have c: "set (snd c) \<subseteq> set ts" using comparison_of_set [OF h(2)] a by auto
    show "sound (\<lambda>c. wf_expr (fst (snd c)) \<and> wf_expr (snd (snd c))) (Inr ((fst c, fst a, fst b), snd b)) ts"
      using a c soundD [OF 10(2) [OF h(1,2) unsigned_mono [OF c 10(3)]] h(3)] by auto
  qed
next
  case (11 ts)
  show ?case unfolding parse_if.simps [of ts]
  proof (intro sound_bind)
    fix c r1 t r2 f r3
    assume h: "parse_condition ts = Inr c" "eatKeyword ''THEN'' (snd c) = Inr r1" "parse_expression r1 = Inr t"
      "eatKeyword ''ELSE'' (snd t) = Inr r2" "parse_expression r2 = Inr f" "eatKeyword ''ENDIF'' (snd f) = Inr r3"
    note c = soundD [OF 11(1) [OF 11(4)] h(1)]
    have r1: "set r1 \<subseteq> set ts" using eatKeyword_set [OF h(2)] c by auto
    note t = soundD [OF 11(2) [OF h(1,2) unsigned_mono [OF r1 11(4)]] h(3)]
    have r2: "set r2 \<subseteq> set ts" using eatKeyword_set [OF h(4)] t r1 by auto
    note f = soundD [OF 11(3) [OF h(1-4) unsigned_mono [OF r2 11(4)]] h(5)]
    show "sound wf_expr (Inr (If_then_else (fst (fst c)) (fst (snd (fst c))) (snd (snd (fst c))) (fst t) (fst f), r3)) ts"
      using c t f r2 eatKeyword_set [OF h(6)] by auto
  qed
next
  case (12 ts)
  show ?case unfolding parse_round.simps [of ts]
  proof (intro sound_bind)
    fix r p d r' assume h: "eatOp ''('' ts = Inr r" "parse_expression r = Inr p" "round_digits (snd p) = Inr d" "eatOp '')'' (snd d) = Inr r'"
    note r = eatOp_set [OF h(1)]
    note p = soundD [OF 12(1) [OF h(1) unsigned_mono [OF r 12(2)]] h(2)]
    show "sound wf_expr (if fst d > PRECISION then Inl (DepreciationFormulaError ''ROUND digits must be 0 through 12'')
        else Inr (Round_to (fst d) (fst p), r')) ts"
      using r p round_digits_set [OF h(3)] eatOp_set [OF h(4)] by auto
  qed
qed

lemma compileExactFormula_wf: "compileExactFormula s = Inr e \<Longrightarrow> wf_expr e"
  unfolding compileExactFormula_def parse_formula_def
  by (auto elim!: bindE_InrE split: if_splits dest!: tokenize_unsigned soundD [OF parsers_sound(1)])

section \<open>Printing\<close>

text \<open>The tokens of a tree, every operation in parentheses, and the formula text they spell.\<close>

fun comparison_op :: "comparison \<Rightarrow> string" where
  "comparison_op Le = ''<=''"
| "comparison_op Lt = ''<''"
| "comparison_op Eq = ''==''"
| "comparison_op Ne = ''!=''"
| "comparison_op Ge = ''>=''"
| "comparison_op Gt = ''>''"

definition infix_toks :: "tok list \<Rightarrow> string \<Rightarrow> tok list \<Rightarrow> tok list" where
  "infix_toks l op r = TOp ''('' # l @ TOp op # r @ [TOp '')'']"

primrec expr_toks :: "dep_expr \<Rightarrow> tok list" where
  "expr_toks (Num u) = [TNum (exactString u)]"
| "expr_toks (Scalar name) = [TId name]"
| "expr_toks Remaining_life = [TId ''RL'']"
| "expr_toks (Rate index) = [TId (CHR ''R'' # nat_text (nat (index + 1)))]"
| "expr_toks (Larger l r) = infix_toks (expr_toks l) ''~'' (expr_toks r)"
| "expr_toks (Plus l r) = infix_toks (expr_toks l) ''+'' (expr_toks r)"
| "expr_toks (Minus l r) = infix_toks (expr_toks l) ''-'' (expr_toks r)"
| "expr_toks (Times l r) = infix_toks (expr_toks l) ''*'' (expr_toks r)"
| "expr_toks (Divide l r) = infix_toks (expr_toks l) ''/'' (expr_toks r)"
| "expr_toks (Power l r) = infix_toks (expr_toks l) ''^'' (expr_toks r)"
| "expr_toks (Negate e) = TOp ''('' # TOp ''-'' # expr_toks e @ [TOp '')'']"
| "expr_toks (If_then_else op l r t f) = TId ''IF'' # expr_toks l @ TOp (comparison_op op) # expr_toks r
     @ TId ''THEN'' # expr_toks t @ TId ''ELSE'' # expr_toks f @ [TId ''ENDIF'']"
| "expr_toks (Round_to digits e) = TId ''ROUND'' # TOp ''('' # expr_toks e @ [TOp '','', TNum (nat_text digits), TOp '')'']"

fun tok_text :: "tok \<Rightarrow> string" where
  "tok_text (TNum v) = v"
| "tok_text (TId v) = v"
| "tok_text (TOp v) = v"

definition formula_text :: "dep_expr \<Rightarrow> string" where
  "formula_text e = concat (map (\<lambda>t. tok_text t @ '' '') (expr_toks e))"

lemma first_op_simps [simp]:
  "first_op [] = []" "first_op (TOp w # r) = w" "first_op (TId v # r) = []" "first_op (TNum v # r) = []"
  by (simp_all add: first_op_def)

text \<open>A primary is an operand of every level whose operators do not follow it.\<close>

lemma primary_operand:
  assumes "parse_primary ts = Inr (e, r)" "first_op ts \<noteq> ''-''"
  shows "parse_unary ts = Inr (e, r)"
    and "first_op r \<noteq> ''^'' \<Longrightarrow> parse_power ts = Inr (e, r)"
    and "first_op r \<notin> {''^'', ''*'', ''/''} \<Longrightarrow> parse_multiply ts = Inr (e, r)"
    and "first_op r \<notin> {''^'', ''*'', ''/'', ''+'', ''-''} \<Longrightarrow> parse_add ts = Inr (e, r)"
    and "first_op r \<notin> {''^'', ''*'', ''/'', ''+'', ''-'', ''~''} \<Longrightarrow> parse_expression ts = Inr (e, r)"
proof -
  show u: "parse_unary ts = Inr (e, r)" using assms by (simp add: parse_unary.simps)
  show p: "parse_power ts = Inr (e, r)" if "first_op r \<noteq> ''^''" using u that by (simp add: parse_power.simps)
  show m: "parse_multiply ts = Inr (e, r)" if "first_op r \<notin> {''^'', ''*'', ''/''}"
    using p that by (simp add: parse_multiply.simps multiply_loop.simps)
  show a: "parse_add ts = Inr (e, r)" if "first_op r \<notin> {''^'', ''*'', ''/'', ''+'', ''-''}"
    using m that by (simp add: parse_add.simps add_loop.simps)
  show "parse_expression ts = Inr (e, r)" if "first_op r \<notin> {''^'', ''*'', ''/'', ''+'', ''-'', ''~''}"
    using a that by (simp add: parse_expression.simps expression_loop.simps)
qed

definition operand :: "tok list \<Rightarrow> dep_expr \<Rightarrow> bool" where
  "operand ts e \<longleftrightarrow> (\<forall>r. parse_primary (ts @ r) = Inr (e, r) \<and> first_op (ts @ r) \<noteq> ''-'')"

lemma operandD: "operand ts e \<Longrightarrow> parse_primary (ts @ r) = Inr (e, r)" "operand ts e \<Longrightarrow> first_op (ts @ r) \<noteq> ''-''"
  by (auto simp: operand_def)

lemma operand_levels:
  assumes "operand ts e"
  shows "parse_unary (ts @ r) = Inr (e, r)"
    and "first_op r \<noteq> ''^'' \<Longrightarrow> parse_power (ts @ r) = Inr (e, r)"
    and "first_op r \<notin> {''^'', ''*'', ''/''} \<Longrightarrow> parse_multiply (ts @ r) = Inr (e, r)"
    and "first_op r \<notin> {''^'', ''*'', ''/'', ''+'', ''-''} \<Longrightarrow> parse_add (ts @ r) = Inr (e, r)"
    and "first_op r \<notin> {''^'', ''*'', ''/'', ''+'', ''-'', ''~''} \<Longrightarrow> parse_expression (ts @ r) = Inr (e, r)"
  using primary_operand [OF operandD [OF assms]] by blast+

lemma eatOp_simps [simp]: "eatOp v (TOp v # r) = Inr r"
  by (simp add: eatOp_def)

lemma eatKeyword_simps [simp]: "toUpperCase v = v \<Longrightarrow> eatKeyword v (TId v # r) = Inr r"
  by (simp add: eatKeyword_def)

lemma operand_parens:
  assumes "\<And>r. parse_expression (ts @ TOp '')'' # r) = Inr (e, TOp '')'' # r)"
  shows "operand (TOp ''('' # ts @ [TOp '')'']) e"
  using assms by (simp add: operand_def parse_primary.simps)

lemma operand_infix:
  assumes "operand l a" "operand r b"
  shows "operand (infix_toks l ''~'' r) (Larger a b)" "operand (infix_toks l ''+'' r) (Plus a b)"
    "operand (infix_toks l ''-'' r) (Minus a b)" "operand (infix_toks l ''*'' r) (Times a b)"
    "operand (infix_toks l ''/'' r) (Divide a b)" "operand (infix_toks l ''^'' r) (Power a b)"
proof -
  note lr = operand_levels [OF assms(1)] operand_levels [OF assms(2)]
  have shape: "infix_toks l op r = TOp ''('' # (l @ TOp op # r) @ [TOp '')'']" for op by (simp add: infix_toks_def)
  show "operand (infix_toks l ''~'' r) (Larger a b)" "operand (infix_toks l ''+'' r) (Plus a b)"
    "operand (infix_toks l ''-'' r) (Minus a b)" "operand (infix_toks l ''*'' r) (Times a b)"
    "operand (infix_toks l ''/'' r) (Divide a b)" "operand (infix_toks l ''^'' r) (Power a b)"
    unfolding shape by (rule operand_parens, simp add: lr parser_equations(1-7))+
qed

lemma comparison_of_op [simp]: "comparison_of (TOp (comparison_op c) # r) = Inr (c, r)"
  by (cases c) (simp_all add: comparison_of_def)

lemma comparison_op_not_infix: "comparison_op c \<notin> {''^'', ''*'', ''/'', ''+'', ''-'', ''~''}"
  by (cases c) simp_all

lemma keywords_upper: "toUpperCase ''IF'' = ''IF''" "toUpperCase ''ROUND'' = ''ROUND''" "toUpperCase ''THEN'' = ''THEN''"
  "toUpperCase ''ELSE'' = ''ELSE''" "toUpperCase ''ENDIF'' = ''ENDIF''" "toUpperCase ''RL'' = ''RL''"
  by code_simp+

lemma operand_if:
  assumes "operand l a" "operand r b" "operand t x" "operand f y"
  shows "operand (TId ''IF'' # l @ TOp (comparison_op c) # r @ TId ''THEN'' # t @ TId ''ELSE'' # f @ [TId ''ENDIF''])
    (If_then_else c a b x y)"
proof -
  note levels = operand_levels(5) [OF assms(1)] operand_levels(5) [OF assms(2)] operand_levels(5) [OF assms(3)] operand_levels(5) [OF assms(4)]
  have "parse_condition (l @ TOp (comparison_op c) # r @ TId ''THEN'' # s) = Inr ((c, a, b), TId ''THEN'' # s)" for s
    using comparison_op_not_infix [of c] by (simp add: parse_condition.simps levels)
  then have "parse_if (l @ TOp (comparison_op c) # r @ TId ''THEN'' # t @ TId ''ELSE'' # f @ TId ''ENDIF'' # s)
      = Inr (If_then_else c a b x y, s)" for s
    by (simp add: parse_if.simps levels keywords_upper)
  then show ?thesis by (simp add: operand_def parse_primary.simps keywords_upper)
qed

lemma round_digits_two [simp]: "round_digits (TOp '','' # TNum (nat_text d) # r) = Inr (d, r)"
  by (simp add: round_digits_def)

lemma operand_round:
  assumes "operand ts e" "d \<le> PRECISION"
  shows "operand (TId ''ROUND'' # TOp ''('' # ts @ [TOp '','', TNum (nat_text d), TOp '')'']) (Round_to d e)"
proof -
  have "parse_round (TOp ''('' # ts @ TOp '','' # TNum (nat_text d) # TOp '')'' # s) = Inr (Round_to d e, s)" for s
    using assms(2) by (simp add: parse_round.simps operand_levels(5) [OF assms(1)])
  then show ?thesis by (simp add: operand_def parse_primary.simps keywords_upper)
qed

lemma operand_negate:
  assumes "operand ts e"
  shows "operand (TOp ''('' # TOp ''-'' # ts @ [TOp '')'']) (Negate e)"
  using operand_parens [of "TOp ''-'' # ts" "Negate e"] operand_levels(1) [OF assms]
  by (simp add: parser_equations(1-8))

lemma upper_digit: "is_digit c \<Longrightarrow> upper_char c = c"
  by (auto simp: upper_char_def is_digit_def Let_def)

lemma upper_rate:
  assumes "list_all is_digit ds"
  shows "toUpperCase (CHR ''R'' # ds) = CHR ''R'' # ds"
proof -
  have "map upper_char ds = ds" using assms by (intro map_idI) (auto simp: list_all_iff upper_digit)
  moreover have "upper_char CHR ''R'' = CHR ''R''" by code_simp
  ultimately show ?thesis by (simp add: toUpperCase_def)
qed

lemma rate_not_keyword:
  assumes "list_all is_digit ds" "ds \<noteq> []"
  shows "CHR ''R'' # ds \<notin> set KEYWORDS" "CHR ''R'' # ds \<notin> set SCALAR_VARS" "CHR ''R'' # ds \<noteq> ''RL''"
  using assms by (auto simp: KEYWORDS_def SCALAR_VARS_def is_digit_def)

lemma operand_id:
  assumes "toUpperCase w \<notin> set KEYWORDS" "resolveVar w = Inr e"
  shows "operand [TId w] e"
  using assms by (auto simp: operand_def parse_primary.simps KEYWORDS_def)

lemma scalar_not_keyword: "name \<in> set SCALAR_VARS \<Longrightarrow> toUpperCase name \<notin> set KEYWORDS"
proof -
  have "list_all (\<lambda>name. toUpperCase name \<notin> set KEYWORDS) SCALAR_VARS" by code_simp
  then show "name \<in> set SCALAR_VARS \<Longrightarrow> toUpperCase name \<notin> set KEYWORDS" by (simp add: list_all_iff)
qed

lemma rate_operand:
  assumes "- 1 \<le> index"
  shows "operand [TId (CHR ''R'' # nat_text (nat (index + 1)))] (Rate index)"
proof (rule operand_id)
  let ?n = "nat_text (nat (index + 1))"
  note n = rate_not_keyword [OF nat_text_digits nat_text_not_Nil, of "nat (index + 1)"]
  show "toUpperCase (CHR ''R'' # ?n) \<notin> set KEYWORDS" using n(1) by (simp add: upper_rate)
  show "resolveVar (CHR ''R'' # ?n) = Inr (Rate index)" using n(2,3) assms by (simp add: resolveVar_def)
qed

text \<open>Every well-formed tree reads back from its tokens.\<close>

lemma expr_toks_operand: "wf_expr e \<Longrightarrow> operand (expr_toks e) e"
proof (induction e)
  case (Num u)
  then show ?case by (simp add: operand_def parse_primary.simps)
next
  case (Scalar name)
  then show ?case using operand_id [OF scalar_not_keyword] by (simp add: resolveVar_def)
next
  case Remaining_life
  have "resolveVar ''RL'' = Inr Remaining_life" by code_simp
  then show ?case using operand_id [of "''RL''"] by (simp add: keywords_upper KEYWORDS_def)
next
  case (Rate index)
  then show ?case using rate_operand by simp
next
  case (Round_to d e)
  then show ?case using operand_round by simp
qed (simp_all add: operand_infix operand_negate operand_if)

lemma parse_formula_expr_toks: "wf_expr e \<Longrightarrow> parse_formula (expr_toks e) = Inr e"
  using operand_levels(5) [OF expr_toks_operand, of e "[]"] by (simp add: parse_formula_def)

text \<open>Tokens followed by a space read back one at a time.\<close>

definition number_text_form :: "string \<Rightarrow> bool" where
  "number_text_form v \<longleftrightarrow> (\<exists>w f. list_all is_digit w \<and> w \<noteq> [] \<and> list_all is_digit f
     \<and> v = w @ (if f \<noteq> [] then CHR ''.'' # f else []))"

definition name_form :: "string \<Rightarrow> bool" where
  "name_form v \<longleftrightarrow> v \<noteq> [] \<and> is_letter (hd v) \<and> list_all is_alnum v"

definition OPERATORS :: "string list" where
  "OPERATORS = [''<='', ''>='', ''=='', ''!='', ''-'', ''+'', ''*'', ''/'', ''^'', ''~'', ''('', '')'', ''<'', ''>'', '','']"

fun printable :: "tok \<Rightarrow> bool" where
  "printable (TNum v) \<longleftrightarrow> number_text_form v"
| "printable (TId v) \<longleftrightarrow> name_form v"
| "printable (TOp v) \<longleftrightarrow> v \<in> set OPERATORS"

lemma space_facts: "\<not> is_digit CHR '' ''" "\<not> is_alnum CHR '' ''" "is_white CHR '' ''" "\<not> is_exp_mark CHR '' ''"
  by code_simp+

lemma takeWhile_stop: "list_all P w \<Longrightarrow> \<not> P c \<Longrightarrow> takeWhile P (w @ c # s) = w \<and> dropWhile P (w @ c # s) = c # s"
  by (induction w) auto

lemma number_prefix_text:
  assumes "number_text_form v"
  shows "number_prefix (v @ CHR '' '' # s) = Some v"
proof -
  obtain w f where v: "list_all is_digit w" "w \<noteq> []" "list_all is_digit f" "v = w @ (if f \<noteq> [] then CHR ''.'' # f else [])"
    using assms by (auto simp: number_text_form_def)
  have e: "exponent_prefix (CHR '' '' # s) = []" by (simp add: exponent_prefix_def space_facts)
  show ?thesis
  proof (cases "f = []")
    case True
    then show ?thesis using v takeWhile_stop [of is_digit w "CHR '' ''" s] e by (simp add: number_prefix_def Let_def space_facts)
  next
    case False
    then show ?thesis
      using v takeWhile_stop [of is_digit w "CHR ''.''" "f @ CHR '' '' # s"] takeWhile_stop [of is_digit f "CHR '' ''" s] e
      by (simp add: number_prefix_def Let_def space_facts)
  qed
qed

lemma number_text_hd: "number_text_form v \<Longrightarrow> \<exists>c r. v = c # r \<and> is_digit c"
  by (auto simp: number_text_form_def neq_Nil_conv)

lemma digit_not_white: "is_digit c \<Longrightarrow> \<not> is_white c"
  by (auto simp: digit_not_mark)

lemma letter_classes: "is_letter c \<Longrightarrow> \<not> is_white c \<and> \<not> is_digit c \<and> c \<noteq> CHR ''.''"
  by (auto simp: is_letter_def is_white_def is_digit_def)

lemma tokenize_space: "tokenize (CHR '' '' # s) = tokenize s"
  by (simp add: tokenize.simps [of "CHR '' '' # s"] space_facts)

lemma operator_chars:
  assumes "v \<in> set OPERATORS"
  shows "v \<noteq> []" "\<not> is_white (hd v)" "\<not> (is_digit (hd v) \<or> hd v = CHR ''.'')" "\<not> is_letter (hd v)"
proof -
  have "list_all (\<lambda>v. v \<noteq> [] \<and> \<not> is_white (hd v) \<and> \<not> (is_digit (hd v) \<or> hd v = CHR ''.'') \<and> \<not> is_letter (hd v)) OPERATORS"
    by code_simp
  then have "\<forall>v \<in> set OPERATORS. v \<noteq> [] \<and> \<not> is_white (hd v) \<and> \<not> (is_digit (hd v) \<or> hd v = CHR ''.'') \<and> \<not> is_letter (hd v)"
    by (simp only: list_all_iff)
  with assms show "v \<noteq> []" "\<not> is_white (hd v)" "\<not> (is_digit (hd v) \<or> hd v = CHR ''.'')" "\<not> is_letter (hd v)" by blast+
qed

lemma op_prefix_operator: "v \<in> set OPERATORS \<Longrightarrow> op_prefix (v @ CHR '' '' # s) = Some v"
  unfolding OPERATORS_def by (simp only: list.set insert_iff empty_iff, elim disjE) (simp_all add: op_prefix_def)

lemma tokenize_operator:
  assumes "printable (TOp v)"
  shows "tokenize (v @ CHR '' '' # s) = bindE (tokenize s) (\<lambda>ts. Inr (TOp v # ts))"
proof -
  have v: "v \<in> set OPERATORS" using assms by simp
  note operator_chars [OF v] op_prefix_operator [OF v, of s]
  then obtain c r where v: "v = c # r" "\<not> is_white c" "\<not> (is_digit c \<or> c = CHR ''.'')" "\<not> is_letter c"
    and p: "op_prefix (c # r @ CHR '' '' # s) = Some (c # r)" by (cases v) auto
  have "drop (length (c # r)) (c # r @ CHR '' '' # s) = CHR '' '' # s" by simp
  with v p show ?thesis
    by (simp only: tokenize.simps [of "c # r @ CHR '' '' # s"] list.case append_Cons if_False option.case tokenize_space)
qed

lemma tokenize_number:
  assumes "printable (TNum v)"
  shows "tokenize (v @ CHR '' '' # s) = bindE (tokenize s) (\<lambda>ts. Inr (TNum v # ts))"
proof -
  obtain c r where v: "v = c # r" "is_digit c" using number_text_hd [of v] assms by auto
  have p: "number_prefix (c # r @ CHR '' '' # s) = Some (c # r)" using number_prefix_text [of v s] assms v by simp
  have "drop (length (c # r)) (c # r @ CHR '' '' # s) = CHR '' '' # s" "\<not> is_white c" "is_digit c \<or> c = CHR ''.''"
    using v by (simp_all add: digit_not_white)
  with v p show ?thesis
    by (simp only: tokenize.simps [of "c # r @ CHR '' '' # s"] list.case append_Cons if_False if_True option.case tokenize_space)
qed

lemma tokenize_identifier:
  assumes "printable (TId v)"
  shows "tokenize (v @ CHR '' '' # s) = bindE (tokenize s) (\<lambda>ts. Inr (TId v # ts))"
proof -
  obtain c r where v: "v = c # r" "is_letter c" "list_all is_alnum r" using assms by (cases v) (auto simp: name_form_def)
  note stop = takeWhile_stop [OF v(3) space_facts(2), of s]
  have "\<not> is_white c" "\<not> (is_digit c \<or> c = CHR ''.'')" using letter_classes [OF v(2)] by simp_all
  with v stop show ?thesis
    by (simp only: tokenize.simps [of "c # r @ CHR '' '' # s"] list.case append_Cons if_False if_True tokenize_space)
qed

lemma tokenize_printed:
  "list_all printable ts \<Longrightarrow> tokenize (concat (map (\<lambda>t. tok_text t @ '' '') ts)) = Inr ts"
proof (induction ts)
  case Nil
  then show ?case by (simp add: tokenize.simps [of "[]"])
next
  case (Cons t ts)
  then show ?case using tokenize_number tokenize_identifier tokenize_operator by (cases t) simp_all
qed

lemma exactString_form: "0 \<le> u \<Longrightarrow> number_text_form (exactString u)"
proof -
  assume u: "0 \<le> u"
  let ?f = "strip_trailing_zeros (padStart (nat_text (nat (u mod EXACT_SCALE))) 12 CHR ''0'')"
  have "list_all is_digit ?f" by (rule list_all_strip_trailing_zeros) simp
  moreover have "exactString u = nat_text (nat (u div EXACT_SCALE)) @ (if ?f \<noteq> [] then CHR ''.'' # ?f else [])"
    using u by (simp add: exactString_def Let_def bigint_text_nonneg sdiv_nonneg smod_nonneg pos_imp_zdiv_nonneg_iff)
  ultimately show ?thesis unfolding number_text_form_def
    by (intro exI [of _ "nat_text (nat (u div EXACT_SCALE))"] exI [of _ ?f]) simp
qed

lemma nat_text_form: "number_text_form (nat_text n)"
  unfolding number_text_form_def by (intro exI [of _ "nat_text n"] exI [of _ "[]"]) simp

lemma names_printable:
  "name \<in> set (''RL'' # SCALAR_VARS @ KEYWORDS) \<Longrightarrow> printable (TId name)"
proof -
  have "list_all name_form (''RL'' # SCALAR_VARS @ KEYWORDS)" by code_simp
  then show "name \<in> set (''RL'' # SCALAR_VARS @ KEYWORDS) \<Longrightarrow> printable (TId name)"
    by (simp only: list_all_iff printable.simps)
qed

lemma toks_printable:
  "name \<in> set SCALAR_VARS \<Longrightarrow> printable (TId name)" "printable (TId ''RL'')" "printable (TId ''IF'')" "printable (TId ''THEN'')"
  "printable (TId ''ELSE'')" "printable (TId ''ENDIF'')" "printable (TId ''ROUND'')"
  "printable (TOp ''('')" "printable (TOp '')'')" "printable (TOp '','')" "printable (TOp ''-'')" "printable (TOp ''+'')"
  "printable (TOp ''*'')" "printable (TOp ''/'')" "printable (TOp ''^'')" "printable (TOp ''~'')" "printable (TOp (comparison_op c))"
  "list_all is_digit ds \<Longrightarrow> printable (TId (CHR ''R'' # ds))" "0 \<le> u \<Longrightarrow> printable (TNum (exactString u))" "printable (TNum (nat_text n))"
proof -
  show "printable (TOp (comparison_op c))" by (cases c) (simp_all add: OPERATORS_def)
  show "list_all is_digit ds \<Longrightarrow> printable (TId (CHR ''R'' # ds))"
    by (auto simp: name_form_def list_all_iff is_alnum_def is_letter_def)
qed (auto simp: OPERATORS_def exactString_form nat_text_form simp del: printable.simps(2) intro!: names_printable simp: KEYWORDS_def)

lemma expr_toks_printable: "wf_expr e \<Longrightarrow> list_all printable (expr_toks e)"
  by (induction e) (simp_all add: infix_toks_def toks_printable del: printable.simps)

lemma compileExactFormula_text: "wf_expr e \<Longrightarrow> compileExactFormula (formula_text e) = Inr e"
  by (simp add: compileExactFormula_def formula_text_def tokenize_printed expr_toks_printable parse_formula_expr_toks)

section \<open>The grammar\<close>

text \<open>
  What the formula language is, stated without the parser: a stratified grammar over tokens.  The binary operators of a level associate to the
  left, \<open>^\<close> to the right with an operand of the unary level on its left, and each level's operands are phrases of the next, so \<open>~\<close> binds least, then
  \<open>+\<close> and \<open>-\<close>, then \<open>*\<close> and \<open>/\<close>, then \<open>^\<close>, then the sign.  Keywords may be written in either case, variables only in capitals.
\<close>

datatype level = Largest_level | Sum_level | Product_level | Power_level | Signed_level | Primary_level

inductive derives :: "level \<Rightarrow> tok list \<Rightarrow> dep_expr \<Rightarrow> bool" where
  sum_phrase: "derives Sum_level us a \<Longrightarrow> derives Largest_level us a"
| larger: "\<lbrakk>derives Largest_level us a; derives Sum_level vs b\<rbrakk> \<Longrightarrow> derives Largest_level (us @ TOp ''~'' # vs) (Larger a b)"
| product_phrase: "derives Product_level us a \<Longrightarrow> derives Sum_level us a"
| plus: "\<lbrakk>derives Sum_level us a; derives Product_level vs b\<rbrakk> \<Longrightarrow> derives Sum_level (us @ TOp ''+'' # vs) (Plus a b)"
| minus: "\<lbrakk>derives Sum_level us a; derives Product_level vs b\<rbrakk> \<Longrightarrow> derives Sum_level (us @ TOp ''-'' # vs) (Minus a b)"
| power_phrase: "derives Power_level us a \<Longrightarrow> derives Product_level us a"
| times: "\<lbrakk>derives Product_level us a; derives Power_level vs b\<rbrakk> \<Longrightarrow> derives Product_level (us @ TOp ''*'' # vs) (Times a b)"
| divide: "\<lbrakk>derives Product_level us a; derives Power_level vs b\<rbrakk> \<Longrightarrow> derives Product_level (us @ TOp ''/'' # vs) (Divide a b)"
| signed_phrase: "derives Signed_level us a \<Longrightarrow> derives Power_level us a"
| power: "\<lbrakk>derives Signed_level us a; derives Power_level vs b\<rbrakk> \<Longrightarrow> derives Power_level (us @ TOp ''^'' # vs) (Power a b)"
| primary_phrase: "derives Primary_level us a \<Longrightarrow> derives Signed_level us a"
| negate: "derives Signed_level us a \<Longrightarrow> derives Signed_level (TOp ''-'' # us) (Negate a)"
| number: "exactUnits v = Inr u \<Longrightarrow> derives Primary_level [TNum v] (Num u)"
| scalar: "name \<in> {''OC'', ''CC'', ''NB'', ''RV'', ''AL'', ''CP'', ''TD'', ''LD'', ''CU'', ''LU'', ''DH'', ''DP'', ''FY'', ''PB''}
    \<Longrightarrow> derives Primary_level [TId name] (Scalar name)"
| remaining_life: "derives Primary_level [TId ''RL''] Remaining_life"
| rate: "\<lbrakk>ds \<noteq> []; list_all is_digit ds\<rbrakk> \<Longrightarrow> derives Primary_level [TId (CHR ''R'' # ds)] (Rate (int (digits_val ds) - 1))"
| parens: "derives Largest_level us a \<Longrightarrow> derives Primary_level (TOp ''('' # us @ [TOp '')'']) a"
| conditional: "\<lbrakk>derives Largest_level us a; (w, c) \<in> {(''<='', Le), (''<'', Lt), (''=='', Eq), (''!='', Ne), (''>='', Ge), (''>'', Gt)};
      derives Largest_level vs b; derives Largest_level ts x; derives Largest_level fs y;
      toUpperCase ki = ''IF''; toUpperCase kt = ''THEN''; toUpperCase ke = ''ELSE''; toUpperCase kf = ''ENDIF''\<rbrakk>
    \<Longrightarrow> derives Primary_level (TId ki # us @ TOp w # vs @ TId kt # ts @ TId ke # fs @ [TId kf]) (If_then_else c a b x y)"
| cents: "\<lbrakk>derives Largest_level us a; toUpperCase k = ''ROUND''\<rbrakk>
    \<Longrightarrow> derives Primary_level (TId k # TOp ''('' # us @ [TOp '')'']) (Round_to 2 a)"
| rounded: "\<lbrakk>derives Largest_level us a; toUpperCase k = ''ROUND''; v \<noteq> []; list_all is_digit v; digits_val v \<le> 12\<rbrakk>
    \<Longrightarrow> derives Primary_level (TId k # TOp ''('' # us @ [TOp '','', TNum v, TOp '')'']) (Round_to (digits_val v) a)"

text \<open>Every phrase is read back: an operand of a level is followed by the loop over the operators of that level.\<close>

fun reads :: "level \<Rightarrow> tok list \<Rightarrow> dep_expr \<Rightarrow> bool" where
  "reads Largest_level us e \<longleftrightarrow> (\<forall>r. first_op r \<notin> {''^'', ''*'', ''/'', ''+'', ''-''} \<longrightarrow> parse_expression (us @ r) = expression_loop e r)"
| "reads Sum_level us e \<longleftrightarrow> (\<forall>r. first_op r \<notin> {''^'', ''*'', ''/''} \<longrightarrow> parse_add (us @ r) = add_loop e r)"
| "reads Product_level us e \<longleftrightarrow> (\<forall>r. first_op r \<noteq> ''^'' \<longrightarrow> parse_multiply (us @ r) = multiply_loop e r)"
| "reads Power_level us e \<longleftrightarrow> (\<forall>r. first_op r \<noteq> ''^'' \<longrightarrow> parse_power (us @ r) = Inr (e, r))"
| "reads Signed_level us e \<longleftrightarrow> (\<forall>r. parse_unary (us @ r) = Inr (e, r))"
| "reads Primary_level us e \<longleftrightarrow> operand us e"

lemma loops_stop:
  "first_op r \<noteq> ''~'' \<Longrightarrow> expression_loop e r = Inr (e, r)"
  "first_op r \<notin> {''+'', ''-''} \<Longrightarrow> add_loop e r = Inr (e, r)"
  "first_op r \<notin> {''*'', ''/''} \<Longrightarrow> multiply_loop e r = Inr (e, r)"
  by (simp_all add: expression_loop.simps add_loop.simps multiply_loop.simps)

lemma reads_whole:
  assumes "reads Largest_level us e" "first_op r \<notin> {''^'', ''*'', ''/'', ''+'', ''-'', ''~''}"
  shows "parse_expression (us @ r) = Inr (e, r)"
  using assms by (simp add: loops_stop)

lemma comparison_of_pair:
  "(w, c) \<in> {(''<='', Le), (''<'', Lt), (''=='', Eq), (''!='', Ne), (''>='', Ge), (''>'', Gt)} \<Longrightarrow> comparison_of (TOp w # r) = Inr (c, r)
    \<and> w \<notin> {''^'', ''*'', ''/'', ''+'', ''-'', ''~''}"
  by (auto simp: comparison_of_def)

lemma reads_conditional:
  assumes e: "reads Largest_level us a" "reads Largest_level vs b" "reads Largest_level ts x" "reads Largest_level fs y"
    and w: "comparison_of (TOp w # vs @ TId kt # ts @ TId ke # fs @ TId kf # s) = Inr (c, vs @ TId kt # ts @ TId ke # fs @ TId kf # s)"
      "w \<notin> {''^'', ''*'', ''/'', ''+'', ''-'', ''~''}"
    and k: "toUpperCase kt = ''THEN''" "toUpperCase ke = ''ELSE''" "toUpperCase kf = ''ENDIF''"
  shows "parse_if (us @ TOp w # vs @ TId kt # ts @ TId ke # fs @ TId kf # s) = Inr (If_then_else c a b x y, s)"
proof -
  note whole = reads_whole [OF e(1)] reads_whole [OF e(2)] reads_whole [OF e(3)] reads_whole [OF e(4)]
  have "parse_condition (us @ TOp w # vs @ TId kt # ts @ TId ke # fs @ TId kf # s) = Inr ((c, a, b), TId kt # ts @ TId ke # fs @ TId kf # s)"
    using w by (simp add: parse_condition.simps whole del: reads.simps)
  then show ?thesis by (simp add: parse_if.simps eatKeyword_def k whole del: reads.simps)
qed

lemma reads_rounded:
  assumes e: "reads Largest_level us a" and k: "toUpperCase k = ''ROUND''"
  shows "operand (TId k # TOp ''('' # us @ [TOp '')'']) (Round_to 2 a)"
    and "v \<noteq> [] \<Longrightarrow> list_all is_digit v \<Longrightarrow> digits_val v \<le> 12
      \<Longrightarrow> operand (TId k # TOp ''('' # us @ [TOp '','', TNum v, TOp '')'']) (Round_to (digits_val v) a)"
proof -
  note whole = reads_whole [OF e]
  have "parse_round (TOp ''('' # us @ TOp '')'' # s) = Inr (Round_to 2 a, s)" for s
    by (simp add: parse_round.simps whole round_digits_def del: reads.simps)
  then show "operand (TId k # TOp ''('' # us @ [TOp '')'']) (Round_to 2 a)"
    by (simp add: operand_def parse_primary.simps k)
  assume v: "v \<noteq> []" "list_all is_digit v" "digits_val v \<le> 12"
  have "parse_round (TOp ''('' # us @ TOp '','' # TNum v # TOp '')'' # s) = Inr (Round_to (digits_val v) a, s)" for s
    using v by (simp add: parse_round.simps whole round_digits_def del: reads.simps)
  then show "operand (TId k # TOp ''('' # us @ [TOp '','', TNum v, TOp '')'']) (Round_to (digits_val v) a)"
    by (simp add: operand_def parse_primary.simps k)
qed

lemma derives_reads: "derives L us e \<Longrightarrow> reads L us e"
proof (induction rule: derives.induct)
  case (conditional us a w c vs b ts x fs y ki kt ke kf)
  note w = comparison_of_pair [OF conditional(2)]
  have "parse_if (us @ TOp w # vs @ TId kt # ts @ TId ke # fs @ TId kf # s) = Inr (If_then_else c a b x y, s)" for s
    using conditional w by (intro reads_conditional) blast+
  then show ?case using conditional(6) by (simp add: operand_def parse_primary.simps)
next
  case (cents us a k)
  then show ?case using reads_rounded(1) by (simp del: reads.simps(1))
next
  case (rounded us a k v)
  then show ?case using reads_rounded(2) by (simp del: reads.simps(1))
next
  case (parens us a)
  show ?case using reads_whole [OF parens(2)] by (simp only: reads.simps) (rule operand_parens, simp)
next
  case (scalar name)
  then have "name \<in> set SCALAR_VARS" by (simp only: SCALAR_VARS_def list.set)
  then show ?case using operand_id [OF scalar_not_keyword] by (simp add: resolveVar_def)
next
  case remaining_life
  have "resolveVar ''RL'' = Inr Remaining_life" by code_simp
  then show ?case using operand_id [of "''RL''"] by (simp add: keywords_upper KEYWORDS_def)
next
  case (rate ds)
  note n = rate_not_keyword [OF rate(2,1)]
  have "operand [TId (CHR ''R'' # ds)] (Rate (int (digits_val ds) - 1))"
    by (rule operand_id) (use n rate in \<open>simp_all add: upper_rate resolveVar_def\<close>)
  then show ?case by simp
next
  case (number v u)
  then show ?case by (simp add: operand_def parse_primary.simps)
next
  case (primary_phrase us a)
  then show ?case using operand_levels(1) by simp
next
  case (larger us a vs b)
  then show ?case by (simp add: expression_loop.simps [of a] loops_stop)
next
  case (plus us a vs b)
  then show ?case by (simp add: add_loop.simps [of a] loops_stop)
next
  case (minus us a vs b)
  then show ?case by (simp add: add_loop.simps [of a] loops_stop)
next
  case (times us a vs b)
  then show ?case by (simp add: multiply_loop.simps [of a])
next
  case (divide us a vs b)
  then show ?case by (simp add: multiply_loop.simps [of a])
qed (simp_all add: parse_expression.simps parse_add.simps parse_multiply.simps parse_power.simps parse_unary.simps loops_stop)

text \<open>And the parser reads nothing but phrases.\<close>

definition phrase_of :: "level \<Rightarrow> (dep_expr \<times> tok list) result \<Rightarrow> tok list \<Rightarrow> bool" where
  "phrase_of L m ts \<longleftrightarrow> (\<forall>p. m = Inr p \<longrightarrow> (\<exists>us. ts = us @ snd p \<and> derives L us (fst p)))"

definition continues :: "level \<Rightarrow> dep_expr \<Rightarrow> (dep_expr \<times> tok list) result \<Rightarrow> tok list \<Rightarrow> bool" where
  "continues L left m ts \<longleftrightarrow> (\<forall>p. m = Inr p \<longrightarrow> (\<exists>us. ts = us @ snd p \<and> (\<forall>ls. derives L ls left \<longrightarrow> derives L (ls @ us) (fst p))))"

lemma phrase_ofD: "phrase_of L m ts \<Longrightarrow> m = Inr p \<Longrightarrow> \<exists>us. ts = us @ snd p \<and> derives L us (fst p)"
  by (simp add: phrase_of_def)

lemma phrase_chain:
  assumes m: "phrase_of L m ts" and f: "\<And>p. m = Inr p \<Longrightarrow> continues K (fst p) (f p) (snd p)"
    and up: "\<And>us a. derives L us a \<Longrightarrow> derives K us a"
  shows "phrase_of K (bindE m f) ts"
  unfolding phrase_of_def
proof (intro allI impI)
  fix q assume "bindE m f = Inr q"
  then obtain p where p: "m = Inr p" "f p = Inr q" by (auto elim: bindE_InrE)
  obtain us where us: "ts = us @ snd p" "derives L us (fst p)" using phrase_ofD [OF m p(1)] by blast
  obtain vs where "snd p = vs @ snd q" "\<forall>ls. derives K ls (fst p) \<longrightarrow> derives K (ls @ vs) (fst q)"
    using f [OF p(1)] p(2) by (auto simp: continues_def)
  then show "\<exists>us. ts = us @ snd q \<and> derives K us (fst q)"
    using us up by (intro exI [of _ "us @ vs"]) auto
qed

lemma continues_stop: "continues L left (Inr (left, ts)) ts"
  by (simp add: continues_def)

lemma continues_step:
  assumes ts: "ts = TOp w # rest" and m: "phrase_of L m rest"
    and f: "\<And>p. m = Inr p \<Longrightarrow> continues K (mk (fst p)) (f p) (snd p)"
    and build: "\<And>us vs b. derives K us left \<Longrightarrow> derives L vs b \<Longrightarrow> derives K (us @ TOp w # vs) (mk b)"
  shows "continues K left (bindE m f) ts"
  unfolding continues_def
proof (intro allI impI)
  fix q assume "bindE m f = Inr q"
  then obtain p where p: "m = Inr p" "f p = Inr q" by (auto elim: bindE_InrE)
  obtain us where us: "rest = us @ snd p" "derives L us (fst p)" using phrase_ofD [OF m p(1)] by blast
  obtain vs where vs: "snd p = vs @ snd q" "\<And>ls. derives K ls (mk (fst p)) \<Longrightarrow> derives K (ls @ vs) (fst q)"
    using f [OF p(1)] p(2) by (auto simp: continues_def)
  show "\<exists>us. ts = us @ snd q \<and> (\<forall>ls. derives K ls left \<longrightarrow> derives K (ls @ us) (fst q))"
    using ts us vs(1) vs(2) [OF build [OF _ us(2)]] by (intro exI [of _ "TOp w # us @ vs"]) simp
qed

lemma first_op_Op: "first_op ts = c # w \<Longrightarrow> ts = TOp (c # w) # tl ts"
  by (auto simp: first_op_def split: list.splits tok.splits)

lemma eatOp_Inr: "eatOp v ts = Inr r \<longleftrightarrow> ts = TOp v # r"
  by (auto simp: eatOp_def split: list.splits tok.splits if_splits)

lemma eatKeyword_Inr: "eatKeyword v ts = Inr r \<longleftrightarrow> (\<exists>w. ts = TId w # r \<and> toUpperCase w = v)"
  by (auto simp: eatKeyword_def split: list.splits tok.splits if_splits)

lemma comparison_of_Inr:
  "comparison_of ts = Inr (c, r) \<Longrightarrow> \<exists>w. ts = TOp w # r
    \<and> (w, c) \<in> {(''<='', Le), (''<'', Lt), (''=='', Eq), (''!='', Ne), (''>='', Ge), (''>'', Gt)}"
  by (auto simp: comparison_of_def split: list.splits tok.splits if_splits)

lemma round_digits_Inr:
  "round_digits ts = Inr (d, r) \<Longrightarrow> (ts = r \<and> d = 2) \<or> (\<exists>v. ts = TOp '','' # TNum v # r \<and> v \<noteq> [] \<and> list_all is_digit v \<and> d = digits_val v)"
  by (auto simp: round_digits_def split: list.splits tok.splits if_splits)

lemma resolveVar_derives: "resolveVar w = Inr e \<Longrightarrow> derives Primary_level [TId w] e"
proof -
  assume e: "resolveVar w = Inr e"
  consider "w \<in> set SCALAR_VARS" "e = Scalar w" | "w = ''RL''" "e = Remaining_life"
    | "w \<noteq> []" "hd w = CHR ''R''" "tl w \<noteq> []" "list_all is_digit (tl w)" "e = Rate (int (digits_val (tl w)) - 1)"
    using e by (auto simp: resolveVar_def split: if_splits)
  then show ?thesis
  proof cases
    case 1
    then show ?thesis by (simp only: SCALAR_VARS_def list.set derives.scalar)
  next
    case 2
    then show ?thesis by (simp add: derives.remaining_life)
  next
    case 3
    then show ?thesis using derives.rate [of "tl w"] by (cases w) simp_all
  qed
qed

lemma parsers_derive:
  shows "phrase_of Largest_level (parse_expression ts1) ts1"
    and "continues Largest_level e2 (expression_loop e2 ts2) ts2"
    and "phrase_of Sum_level (parse_add ts3) ts3"
    and "continues Sum_level e4 (add_loop e4 ts4) ts4"
    and "phrase_of Product_level (parse_multiply ts5) ts5"
    and "continues Product_level e6 (multiply_loop e6 ts6) ts6"
    and "phrase_of Power_level (parse_power ts7) ts7"
    and "phrase_of Signed_level (parse_unary ts8) ts8"
    and "phrase_of Primary_level (parse_primary ts9) ts9"
    and "\<forall>p. parse_condition ts10 = Inr p \<longrightarrow> (\<exists>us w vs. ts10 = us @ TOp w # vs @ snd p
      \<and> (w, fst (fst p)) \<in> {(''<='', Le), (''<'', Lt), (''=='', Eq), (''!='', Ne), (''>='', Ge), (''>'', Gt)}
      \<and> derives Largest_level us (fst (snd (fst p))) \<and> derives Largest_level vs (snd (snd (fst p))))"
    and "\<forall>ki. toUpperCase ki = ''IF'' \<longrightarrow> (\<forall>p. parse_if ts11 = Inr p \<longrightarrow> (\<exists>us. ts11 = us @ snd p \<and> derives Primary_level (TId ki # us) (fst p)))"
    and "\<forall>k. toUpperCase k = ''ROUND'' \<longrightarrow> (\<forall>p. parse_round ts12 = Inr p \<longrightarrow> (\<exists>us. ts12 = us @ snd p \<and> derives Primary_level (TId k # us) (fst p)))"
proof (induction ts1 and e2 ts2 and ts3 and e4 ts4 and ts5 and e6 ts6 and ts7 and ts8 and ts9 and ts10 and ts11 and ts12 rule: parser_induct)
  case (1 ts)
  show ?case unfolding parse_expression.simps [of ts] by (rule phrase_chain [OF 1(1)]) (use 1(2) in \<open>auto intro: derives.intros\<close>)
next
  case (2 left ts)
  show ?case
  proof (cases "first_op ts = ''~''")
    case True
    show ?thesis unfolding expression_loop.simps [of left ts] if_P [OF True]
      by (rule continues_step [OF first_op_Op [OF True] 2(1) [OF True], where mk = "Larger left"]) (use 2(2) [OF True] in \<open>auto intro: derives.intros\<close>)
  qed (simp add: expression_loop.simps [of left ts] continues_stop)
next
  case (3 ts)
  show ?case unfolding parse_add.simps [of ts] by (rule phrase_chain [OF 3(1)]) (use 3(2) in \<open>auto intro: derives.intros\<close>)
next
  case (4 left ts)
  consider "first_op ts = ''+''" | "first_op ts = ''-''" | "\<not> (first_op ts = ''+'' \<or> first_op ts = ''-'')" by blast
  then show ?case
  proof cases
    case 1
    note c = disjI1 [OF 1]
    have f: "continues Sum_level (Plus left (fst p)) (add_loop (Plus left (fst p)) (snd p)) (snd p)" if "parse_multiply (tl ts) = Inr p" for p
      using 4(2) [OF c that] 1 by simp
    show ?thesis unfolding add_loop.simps [of left ts] if_P [OF c] if_P [OF 1]
      by (rule continues_step [OF first_op_Op [OF 1] 4(1) [OF c], where mk = "Plus left"]) (erule f, rule derives.plus)
  next
    case 2
    note c = disjI2 [OF 2]
    have n: "first_op ts \<noteq> ''+''" using 2 by simp
    have f: "continues Sum_level (Minus left (fst p)) (add_loop (Minus left (fst p)) (snd p)) (snd p)" if "parse_multiply (tl ts) = Inr p" for p
      using 4(2) [OF c that] n by simp
    show ?thesis unfolding add_loop.simps [of left ts] if_P [OF c] if_not_P [OF n]
      by (rule continues_step [OF first_op_Op [OF 2] 4(1) [OF c], where mk = "Minus left"]) (erule f, rule derives.minus)
  next
    case 3
    show ?thesis unfolding add_loop.simps [of left ts] if_not_P [OF 3] by (rule continues_stop)
  qed
next
  case (5 ts)
  show ?case unfolding parse_multiply.simps [of ts] by (rule phrase_chain [OF 5(1)]) (use 5(2) in \<open>auto intro: derives.intros\<close>)
next
  case (6 left ts)
  consider "first_op ts = ''*''" | "first_op ts = ''/''" | "\<not> (first_op ts = ''*'' \<or> first_op ts = ''/'')" by blast
  then show ?case
  proof cases
    case 1
    note c = disjI1 [OF 1]
    have f: "continues Product_level (Times left (fst p)) (multiply_loop (Times left (fst p)) (snd p)) (snd p)" if "parse_power (tl ts) = Inr p" for p
      using 6(2) [OF c that] 1 by simp
    show ?thesis unfolding multiply_loop.simps [of left ts] if_P [OF c] if_P [OF 1]
      by (rule continues_step [OF first_op_Op [OF 1] 6(1) [OF c], where mk = "Times left"]) (erule f, rule derives.times)
  next
    case 2
    note c = disjI2 [OF 2]
    have n: "first_op ts \<noteq> ''*''" using 2 by simp
    have f: "continues Product_level (Divide left (fst p)) (multiply_loop (Divide left (fst p)) (snd p)) (snd p)" if "parse_power (tl ts) = Inr p" for p
      using 6(2) [OF c that] n by simp
    show ?thesis unfolding multiply_loop.simps [of left ts] if_P [OF c] if_not_P [OF n]
      by (rule continues_step [OF first_op_Op [OF 2] 6(1) [OF c], where mk = "Divide left"]) (erule f, rule derives.divide)
  next
    case 3
    show ?thesis unfolding multiply_loop.simps [of left ts] if_not_P [OF 3] by (rule continues_stop)
  qed
next
  case (7 ts)
  show ?case unfolding phrase_of_def parse_power.simps [of ts]
  proof (intro allI impI, elim bindE_InrE)
    fix q p
    assume p: "parse_unary ts = Inr p"
      and q: "(if first_op (snd p) = ''^'' then bindE (parse_power (tl (snd p))) (\<lambda>q. Inr (Power (fst p) (fst q), snd q)) else Inr p) = Inr q"
    obtain us where us: "ts = us @ snd p" "derives Signed_level us (fst p)" using phrase_ofD [OF 7(1) p] by blast
    show "\<exists>us. ts = us @ snd q \<and> derives Power_level us (fst q)"
    proof (cases "first_op (snd p) = ''^''")
      case True
      obtain r where r: "parse_power (tl (snd p)) = Inr r" "q = (Power (fst p) (fst r), snd r)" using q True by (auto elim: bindE_InrE)
      obtain vs where vs: "tl (snd p) = vs @ snd r" "derives Power_level vs (fst r)" using phrase_ofD [OF 7(2) [OF p True] r(1)] by blast
      show ?thesis
        by (rule exI [of _ "us @ TOp ''^'' # vs"]) (use us vs r(2) first_op_Op [OF True] derives.power [OF us(2) vs(2)] in simp)
    next
      case False
      then show ?thesis using q us derives.signed_phrase by auto
    qed
  qed
next
  case (8 ts)
  show ?case
  proof (cases "first_op ts = ''-''")
    case True
    show ?thesis unfolding phrase_of_def parse_unary.simps [of ts] if_P [OF True]
    proof (intro allI impI, elim bindE_InrE)
      fix q p assume p: "parse_unary (tl ts) = Inr p" "Inr (Negate (fst p), snd p) = (Inr q :: (dep_expr \<times> tok list) result)"
      obtain us where "tl ts = us @ snd p" "derives Signed_level us (fst p)" using phrase_ofD [OF 8(1) [OF True] p(1)] by blast
      then show "\<exists>us. ts = us @ snd q \<and> derives Signed_level us (fst q)"
        using p(2) first_op_Op [OF True] by (intro exI [of _ "TOp ''-'' # us"]) (auto intro: derives.negate)
    qed
  next
    case False
    then have "phrase_of Primary_level (parse_unary ts) ts" using 8(2) by (simp add: parse_unary.simps [of ts])
    then show ?thesis unfolding phrase_of_def using derives.primary_phrase by blast
  qed
next
  case (9 ts)
  show ?case unfolding phrase_of_def
  proof (intro allI impI)
    fix p assume p: "parse_primary ts = Inr p"
    then obtain t r where ts: "ts = t # r" by (cases ts) (simp_all add: parse_primary.simps)
    note e = p [unfolded parse_primary.simps [of ts], unfolded ts list.case]
    show "\<exists>us. ts = us @ snd p \<and> derives Primary_level us (fst p)"
    proof (cases t)
      case (TNum v)
      obtain u where "exactUnits v = Inr u" "p = (Num u, r)" using e TNum by (auto elim: bindE_InrE)
      then show ?thesis using derives.number [of v u] ts TNum by (intro exI [of _ "[t]"]) simp
    next
      case (TOp w)
      have w: "w = ''(''" using e TOp by (simp split: if_splits)
      then obtain q r' where q: "parse_expression r = Inr q" "eatOp '')'' (snd q) = Inr r'" "p = (fst q, r')" using e TOp by (auto elim!: bindE_InrE)
      obtain us where us: "r = us @ snd q" "derives Largest_level us (fst q)" using phrase_ofD [OF 9(3) [OF ts TOp w] q(1)] by blast
      then show ?thesis using derives.parens [OF us(2)] q(2,3) ts TOp w
        by (intro exI [of _ "TOp ''('' # us @ [TOp '')'']"]) (simp add: eatOp_Inr)
    next
      case (TId w)
      consider "toUpperCase w = ''IF''" "parse_if r = Inr p" | "toUpperCase w \<noteq> ''IF''" "toUpperCase w = ''ROUND''" "parse_round r = Inr p"
        | x where "resolveVar w = Inr x" "p = (x, r)"
        using e TId by (auto split: if_splits elim!: bindE_InrE)
      then show ?thesis
      proof cases
        case 1
        obtain us where "r = us @ snd p" "derives Primary_level (TId w # us) (fst p)" using 9(1) [OF ts TId 1(1), rule_format, OF 1] by (elim exE conjE)
        then show ?thesis using ts TId by (intro exI [of _ "TId w # us"]) simp
      next
        case 2
        obtain us where "r = us @ snd p" "derives Primary_level (TId w # us) (fst p)" using 9(2) [OF ts TId 2(1,2), rule_format, OF 2(2,3)] by (elim exE conjE)
        then show ?thesis using ts TId by (intro exI [of _ "TId w # us"]) simp
      next
        case 3
        then show ?thesis using resolveVar_derives [OF 3(1)] ts TId by (intro exI [of _ "[TId w]"]) simp
      qed
    qed
  qed
next
  case (10 ts)
  show ?case unfolding parse_condition.simps [of ts]
  proof (intro allI impI, elim bindE_InrE)
    fix p a c b
    assume h: "parse_expression ts = Inr a" "comparison_of (snd a) = Inr c" "parse_expression (snd c) = Inr b"
      "Inr ((fst c, fst a, fst b), snd b) = (Inr p :: ((comparison \<times> dep_expr \<times> dep_expr) \<times> tok list) result)"
    obtain us where us: "ts = us @ snd a" "derives Largest_level us (fst a)" using phrase_ofD [OF 10(1) h(1)] by blast
    obtain w where w: "snd a = TOp w # snd c" "(w, fst c) \<in> {(''<='', Le), (''<'', Lt), (''=='', Eq), (''!='', Ne), (''>='', Ge), (''>'', Gt)}"
      using comparison_of_Inr [of "snd a" "fst c" "snd c"] h(2) by auto
    obtain vs where vs: "snd c = vs @ snd b" "derives Largest_level vs (fst b)" using phrase_ofD [OF 10(2) [OF h(1,2)] h(3)] by blast
    have p: "p = ((fst c, fst a, fst b), snd b)" using h(4) by simp
    show "\<exists>us w vs. ts = us @ TOp w # vs @ snd p
      \<and> (w, fst (fst p)) \<in> {(''<='', Le), (''<'', Lt), (''=='', Eq), (''!='', Ne), (''>='', Ge), (''>'', Gt)}
      \<and> derives Largest_level us (fst (snd (fst p))) \<and> derives Largest_level vs (snd (snd (fst p)))"
      unfolding p fst_conv snd_conv using us w vs by (intro exI [of _ us] exI [of _ w] exI [of _ vs] conjI) simp_all
  qed
next
  case (11 ts)
  show ?case unfolding parse_if.simps [of ts]
  proof (intro allI impI, elim bindE_InrE)
    fix ki p c r1 t r2 f r3
    assume k: "toUpperCase ki = ''IF''"
    assume h: "parse_condition ts = Inr c" "eatKeyword ''THEN'' (snd c) = Inr r1" "parse_expression r1 = Inr t"
      "eatKeyword ''ELSE'' (snd t) = Inr r2" "parse_expression r2 = Inr f" "eatKeyword ''ENDIF'' (snd f) = Inr r3"
      "Inr (If_then_else (fst (fst c)) (fst (snd (fst c))) (snd (snd (fst c))) (fst t) (fst f), r3) = (Inr p :: (dep_expr \<times> tok list) result)"
    obtain us w vs where c: "ts = us @ TOp w # vs @ snd c" "(w, fst (fst c)) \<in> {(''<='', Le), (''<'', Lt), (''=='', Eq), (''!='', Ne), (''>='', Ge), (''>'', Gt)}"
      "derives Largest_level us (fst (snd (fst c)))" "derives Largest_level vs (snd (snd (fst c)))" using 11(1) [rule_format, OF h(1)] by (elim exE conjE)
    obtain kt where kt: "snd c = TId kt # r1" "toUpperCase kt = ''THEN''" using h(2) by (auto simp: eatKeyword_Inr)
    obtain xs where xs: "r1 = xs @ snd t" "derives Largest_level xs (fst t)" using phrase_ofD [OF 11(2) [OF h(1,2)] h(3)] by blast
    obtain ke where ke: "snd t = TId ke # r2" "toUpperCase ke = ''ELSE''" using h(4) by (auto simp: eatKeyword_Inr)
    obtain ys where ys: "r2 = ys @ snd f" "derives Largest_level ys (fst f)" using phrase_ofD [OF 11(3) [OF h(1-4)] h(5)] by blast
    obtain kf where kf: "snd f = TId kf # r3" "toUpperCase kf = ''ENDIF''" using h(6) by (auto simp: eatKeyword_Inr)
    have p: "p = (If_then_else (fst (fst c)) (fst (snd (fst c))) (snd (snd (fst c))) (fst t) (fst f), r3)" using h(7) by simp
    show "\<exists>us. ts = us @ snd p \<and> derives Primary_level (TId ki # us) (fst p)"
      using derives.conditional [OF c(3,2,4) xs(2) ys(2) k kt(2) ke(2) kf(2)] c(1) kt(1) xs(1) ke(1) ys(1) kf(1)
      by (intro exI [of _ "us @ TOp w # vs @ TId kt # xs @ TId ke # ys @ [TId kf]"]) (simp add: p)
  qed
next
  case (12 ts)
  show ?case unfolding parse_round.simps [of ts]
  proof (intro allI impI, elim bindE_InrE)
    fix k q r p d r'
    assume k: "toUpperCase k = ''ROUND''"
    assume h: "eatOp ''('' ts = Inr r" "parse_expression r = Inr p" "round_digits (snd p) = Inr d" "eatOp '')'' (snd d) = Inr r'"
      "(if fst d > PRECISION then Inl (DepreciationFormulaError ''ROUND digits must be 0 through 12'') else Inr (Round_to (fst d) (fst p), r')) = Inr q"
    obtain us where us: "r = us @ snd p" "derives Largest_level us (fst p)" using phrase_ofD [OF 12(1) [OF h(1)] h(2)] by blast
    have ts: "ts = TOp ''('' # r" "snd d = TOp '')'' # r'" using h(1,4) by (simp_all add: eatOp_Inr)
    have q: "q = (Round_to (fst d) (fst p), r')" "fst d \<le> 12" using h(5) by (auto split: if_splits)
    consider "snd p = snd d" "fst d = 2"
      | v where "snd p = TOp '','' # TNum v # snd d" "v \<noteq> []" "list_all is_digit v" "fst d = digits_val v"
      using round_digits_Inr [of "snd p" "fst d" "snd d"] h(3) by auto
    then show "\<exists>us. ts = us @ snd q \<and> derives Primary_level (TId k # us) (fst q)"
    proof cases
      case 1
      then show ?thesis using derives.cents [OF us(2) k] us(1) ts q by (intro exI [of _ "TOp ''('' # us @ [TOp '')'']"]) simp
    next
      case 2
      then show ?thesis using derives.rounded [OF us(2) k 2(2,3)] us(1) ts q
        by (intro exI [of _ "TOp ''('' # us @ [TOp '','', TNum v, TOp '')'']"]) simp
    qed
  qed
qed

text \<open>The parser accepts exactly the phrases of the grammar and returns their trees.\<close>

lemma parse_formula_derives: "parse_formula ts = Inr e \<longleftrightarrow> derives Largest_level ts e"
proof
  assume "parse_formula ts = Inr e"
  then obtain p where "parse_expression ts = Inr p" "snd p = []" "fst p = e" by (auto simp: parse_formula_def bindE_Inr_iff split: if_splits)
  then show "derives Largest_level ts e" using phrase_ofD [OF parsers_derive(1)] by fastforce
next
  assume "derives Largest_level ts e"
  then have "parse_expression (ts @ []) = Inr (e, [])" by (intro reads_whole derives_reads) simp_all
  then show "parse_formula ts = Inr e" by (simp add: parse_formula_def)
qed

text \<open>Each token is a form of the language, and a text's tokens spell it up to the white space between them.\<close>

definition number_form :: "string \<Rightarrow> bool" where
  "number_form v \<longleftrightarrow> (\<exists>w f x. list_all is_digit w \<and> list_all is_digit f \<and> (w \<noteq> [] \<or> f \<noteq> [])
     \<and> (x = [] \<or> (\<exists>c sg ds. x = c # sg @ ds \<and> is_exp_mark c \<and> (sg = [] \<or> (\<exists>s. sg = [s] \<and> is_sign s)) \<and> ds \<noteq> [] \<and> list_all is_digit ds))
     \<and> v = w @ (if f \<noteq> [] then CHR ''.'' # f else []) @ x)"

fun token_form :: "tok \<Rightarrow> bool" where
  "token_form (TNum v) \<longleftrightarrow> number_form v"
| "token_form (TId v) \<longleftrightarrow> name_form v"
| "token_form (TOp v) \<longleftrightarrow> v \<in> set OPERATORS"

lemma list_all_takeWhile: "list_all P (takeWhile P xs)"
  by (induction xs) simp_all

lemma exponent_prefix_form:
  "(exponent_prefix s = [] \<or> (\<exists>c sg ds. exponent_prefix s = c # sg @ ds \<and> is_exp_mark c \<and> (sg = [] \<or> (\<exists>s. sg = [s] \<and> is_sign s)) \<and> ds \<noteq> [] \<and> list_all is_digit ds))
    \<and> (\<exists>rest. s = exponent_prefix s @ rest)"
proof (cases "exponent_prefix s = []")
  case False
  then obtain c r where s: "s = c # r" "is_exp_mark c" by (cases s) (auto simp: exponent_prefix_def split: if_splits)
  define sg where "sg = (case r of [] \<Rightarrow> [] | d # _ \<Rightarrow> if is_sign d then [d] else [])"
  let ?ds = "takeWhile is_digit (drop (length sg) r)"
  have e: "exponent_prefix s = c # sg @ ?ds" "?ds \<noteq> []" using False s by (auto simp: exponent_prefix_def Let_def sg_def split: if_splits)
  have sg: "sg = [] \<or> (\<exists>s. sg = [s] \<and> is_sign s)" "r = sg @ drop (length sg) r" by (auto simp: sg_def split: list.splits)
  have ds: "list_all is_digit ?ds" by (simp add: list_all_takeWhile)
  have "c # r = (c # sg @ ?ds) @ dropWhile is_digit (drop (length sg) r)" using sg(2) by simp
  from trans [OF s(1) this] have "s = exponent_prefix s @ dropWhile is_digit (drop (length sg) r)" unfolding e(1) .
  moreover have "\<exists>c sg ds. exponent_prefix s = c # sg @ ds \<and> is_exp_mark c \<and> (sg = [] \<or> (\<exists>s. sg = [s] \<and> is_sign s)) \<and> ds \<noteq> [] \<and> list_all is_digit ds"
    by (intro exI [of _ c] exI [of _ sg] exI [of _ ?ds] conjI e s(2) sg(1) ds)
  ultimately show ?thesis by blast
qed (simp)

lemma number_prefix_form:
  assumes "number_prefix s = Some v"
  shows "number_form v \<and> (\<exists>rest. s = v @ rest)"
proof -
  define w r where "w = takeWhile is_digit s" and "r = dropWhile is_digit s"
  define f where "f = (case r of [] \<Rightarrow> [] | c # r' \<Rightarrow> if c = CHR ''.'' then takeWhile is_digit r' else [])"
  define m where "m = w @ (if f \<noteq> [] then CHR ''.'' # f else [])"
  have v: "m \<noteq> []" "v = m @ exponent_prefix (drop (length m) s)"
    using assms unfolding number_prefix_def Let_def m_def f_def r_def w_def by (auto split: if_splits)
  have d: "list_all is_digit w" "list_all is_digit f" unfolding w_def f_def by (simp_all add: list_all_takeWhile split: list.splits)
  have "r = (if f \<noteq> [] then CHR ''.'' # f else []) @ (if f \<noteq> [] then dropWhile is_digit (tl r) else r)"
    unfolding f_def by (simp split: list.splits)
  then have r: "s = m @ (if f \<noteq> [] then dropWhile is_digit (tl r) else r)"
    using takeWhile_dropWhile_id [of is_digit s] unfolding m_def w_def [symmetric] r_def [symmetric] by simp
  have ne: "w \<noteq> [] \<or> f \<noteq> []" using v(1) by (auto simp: m_def)
  let ?x = "exponent_prefix (drop (length m) s)"
  note x = exponent_prefix_form [of "drop (length m) s"]
  have "number_form v" unfolding number_form_def
    by (rule exI [of _ w], rule exI [of _ f], rule exI [of _ ?x]) (intro conjI d ne x [THEN conjunct1], simp add: v(2) m_def)
  moreover obtain rest where "drop (length m) s = ?x @ rest" using x by blast
  then have "s = v @ rest" using r v(2) by (metis append_assoc append_eq_conv_conj)
  ultimately show ?thesis by blast
qed

lemma op_prefix_form: "op_prefix s = Some v \<Longrightarrow> v \<in> set OPERATORS \<and> (\<exists>rest. s = v @ rest)"
proof -
  assume p: "op_prefix s = Some v"
  have "v \<in> set OPERATORS" using p by (auto simp: op_prefix_def OPERATORS_def split: if_splits)
  moreover have "v = take 2 s \<or> (s \<noteq> [] \<and> v = [hd s])" using p by (auto simp: op_prefix_def split: if_splits)
  then have "\<exists>rest. s = v @ rest" by (metis append_Cons append_Nil append_take_drop_id list.collapse)
  ultimately show ?thesis by blast
qed

text \<open>No token has white space in it.\<close>

lemma mark_solid: "is_exp_mark c \<Longrightarrow> \<not> is_white c" "is_sign c \<Longrightarrow> \<not> is_white c" "\<not> is_white CHR ''.''"
  by (auto simp: is_exp_mark_def is_sign_def is_white_def)

lemma number_form_solid: "number_form v \<Longrightarrow> list_all (\<lambda>c. \<not> is_white c) v"
  unfolding number_form_def list_all_iff by (auto simp: mark_solid digit_not_white split: if_splits)

lemma token_form_solid: "token_form t \<Longrightarrow> list_all (\<lambda>c. \<not> is_white c) (tok_text t)"
proof (cases t)
  case (TNum v)
  then show "token_form t \<Longrightarrow> ?thesis" using number_form_solid by simp
next
  case (TId v)
  then show "token_form t \<Longrightarrow> ?thesis" by (auto simp: name_form_def list_all_iff is_alnum_def letter_classes digit_not_white)
next
  case (TOp v)
  have "list_all (\<lambda>v. list_all (\<lambda>c. \<not> is_white c) v) OPERATORS" by code_simp
  then show "token_form t \<Longrightarrow> ?thesis" using TOp by (simp add: list_all_iff)
qed

lemma tokenize_spells:
  "tokenize s = Inr ts \<Longrightarrow> list_all token_form ts \<and> concat (map tok_text ts) = filter (\<lambda>c. \<not> is_white c) s"
proof (induction s arbitrary: ts rule: tokenize.induct)
  case (1 src)
  note prem = 1(5)
  note IH = 1(1-4)
  show ?case
  proof (cases src)
    case Nil
    then show ?thesis using prem by (simp add: tokenize.simps)
  next
    case (Cons c rest)
    note step = tokenize.simps [of src, unfolded Cons list.case, folded Cons]
    have solid: ?thesis if "token_form t" "src = tok_text t @ rest'" "list_all token_form us \<and> concat (map tok_text us) = filter (\<lambda>c. \<not> is_white c) rest'" "ts = t # us" for t us rest'
      using that token_form_solid [OF that(1)] by (simp add: list_all_iff)
    consider "is_white c" | "\<not> is_white c" "is_digit c \<or> c = CHR ''.''" | "\<not> is_white c" "\<not> (is_digit c \<or> c = CHR ''.'')" "is_letter c"
      | "\<not> is_white c" "\<not> (is_digit c \<or> c = CHR ''.'')" "\<not> is_letter c" by blast
    then show ?thesis
    proof cases
      case 1
      then show ?thesis using IH(1) [OF Cons] prem step Cons by simp
    next
      case 2
      then obtain w where w: "number_prefix src = Some w" using prem step by (cases "number_prefix src") auto
      then obtain us where us: "tokenize (drop (length w) src) = Inr us" "ts = TNum w # us" using prem step 2 by (auto elim!: bindE_InrE)
      obtain rest' where "number_form w" "src = w @ rest'" using number_prefix_form [OF w] by blast
      then show ?thesis using solid [of "TNum w" rest' us] IH(2) [OF Cons 2 w, of us] us by simp
    next
      case 3
      then obtain us where us: "tokenize (dropWhile is_alnum rest) = Inr us" "ts = TId (c # takeWhile is_alnum rest) # us" using prem step by (auto elim!: bindE_InrE)
      have "name_form (c # takeWhile is_alnum rest)" using 3 by (auto simp: name_form_def is_alnum_def list_all_iff dest: set_takeWhileD)
      then show ?thesis using solid [of "TId (c # takeWhile is_alnum rest)" "dropWhile is_alnum rest" us] IH(3) [OF Cons 3, of us] us Cons by simp
    next
      case 4
      then obtain w where w: "op_prefix src = Some w" using prem step by (cases "op_prefix src") auto
      then obtain us where us: "tokenize (drop (length w) src) = Inr us" "ts = TOp w # us" using prem step 4 by (auto elim!: bindE_InrE)
      obtain rest' where "w \<in> set OPERATORS" "src = w @ rest'" using op_prefix_form [OF w] by blast
      then show ?thesis using solid [of "TOp w" rest' us] IH(4) [OF Cons 4 w, of us] us by simp
    qed
  qed
qed

text \<open>And tokens of these forms, each followed by a space, are read back one at a time.\<close>

lemma exponent_prefix_read:
  assumes "x = [] \<or> (\<exists>c sg ds. x = c # sg @ ds \<and> is_exp_mark c \<and> (sg = [] \<or> (\<exists>s. sg = [s] \<and> is_sign s)) \<and> ds \<noteq> [] \<and> list_all is_digit ds)"
  shows "exponent_prefix (x @ CHR '' '' # s) = x"
proof (cases "x = []")
  case True
  then show ?thesis by (simp add: exponent_prefix_def space_facts)
next
  case False
  then obtain c sg ds where x: "x = c # sg @ ds" "is_exp_mark c" "sg = [] \<or> (\<exists>s. sg = [s] \<and> is_sign s)" "ds \<noteq> []" "list_all is_digit ds" using assms by blast
  obtain a ds' where a: "ds = a # ds'" "is_digit a" using x(4,5) by (cases ds) auto
  have "(case (sg @ ds @ CHR '' '' # s) of [] \<Rightarrow> [] | d # _ \<Rightarrow> if is_sign d then [d] else []) = sg"
    using x(3) a digit_not_mark(1) [OF a(2)] by auto
  moreover have "takeWhile is_digit (ds @ CHR '' '' # s) = ds" using takeWhile_stop [OF x(5), of "CHR '' ''" s] space_facts(1) by blast
  ultimately show ?thesis using x(1,2,4) by (simp add: exponent_prefix_def Let_def)
qed

lemma number_prefix_read:
  assumes "number_form v"
  shows "number_prefix (v @ CHR '' '' # s) = Some v"
proof -
  obtain w f x where v: "list_all is_digit w" "list_all is_digit f" "w \<noteq> [] \<or> f \<noteq> []" "v = w @ (if f \<noteq> [] then CHR ''.'' # f else []) @ x"
    and x: "x = [] \<or> (\<exists>c sg ds. x = c # sg @ ds \<and> is_exp_mark c \<and> (sg = [] \<or> (\<exists>s. sg = [s] \<and> is_sign s)) \<and> ds \<noteq> [] \<and> list_all is_digit ds)"
    using assms unfolding number_form_def by blast
  note e = exponent_prefix_read [OF x, of s]
  obtain c t where t: "x @ CHR '' '' # s = c # t" "\<not> is_digit c" "c \<noteq> CHR ''.''"
    using x by (cases x) (auto simp: space_facts digit_not_mark is_exp_mark_def is_digit_def)
  note stop = takeWhile_stop [OF v(1) t(2), of t]
  show ?thesis
  proof (cases "f = []")
    case True
    then show ?thesis using v(3,4) stop t e by (simp add: number_prefix_def Let_def)
  next
    case False
    have "\<not> is_digit CHR ''.''" by (simp add: is_digit_def)
    then show ?thesis
      using v(4) t e False takeWhile_stop [OF v(1), of "CHR ''.''" "f @ c # t"] takeWhile_stop [OF v(2) t(2), of t]
      by (simp add: number_prefix_def Let_def)
  qed
qed

lemma number_form_hd: "number_form v \<Longrightarrow> \<exists>c r. v = c # r \<and> (is_digit c \<or> c = CHR ''.'')"
proof -
  assume "number_form v"
  then obtain w f x where "list_all is_digit w" "w \<noteq> [] \<or> f \<noteq> []" "v = w @ (if f \<noteq> [] then CHR ''.'' # f else []) @ x"
    unfolding number_form_def by blast
  then show ?thesis by (cases w) auto
qed

lemma tokenize_number_form:
  assumes "number_form v"
  shows "tokenize (v @ CHR '' '' # s) = bindE (tokenize s) (\<lambda>ts. Inr (TNum v # ts))"
proof -
  obtain c r where v: "v = c # r" "is_digit c \<or> c = CHR ''.''" using number_form_hd [OF assms] by blast
  have p: "number_prefix (c # r @ CHR '' '' # s) = Some (c # r)" using number_prefix_read [OF assms, of s] v by simp
  have "drop (length (c # r)) (c # r @ CHR '' '' # s) = CHR '' '' # s" "\<not> is_white c"
    using v by (auto simp: digit_not_white mark_solid)
  with v p show ?thesis
    by (simp only: tokenize.simps [of "c # r @ CHR '' '' # s"] list.case append_Cons if_False if_True option.case tokenize_space)
qed

lemma tokenize_spaced: "list_all token_form ts \<Longrightarrow> tokenize (concat (map (\<lambda>t. tok_text t @ '' '') ts)) = Inr ts"
proof (induction ts)
  case Nil
  then show ?case by (simp add: tokenize.simps [of "[]"])
next
  case (Cons t ts)
  then show ?case using tokenize_number_form tokenize_identifier tokenize_operator by (cases t) simp_all
qed

section \<open>Properties\<close>

text \<open>
  C33: The compiler accepts exactly the formula language.  A text compiles to a tree exactly when its tokens are a phrase of the grammar with that tree: the whole text
  is read, \<open>~\<close>, the sums, the products and the powers bind in that order, the powers to the right and the others to the left, a sign binds tighter than a power, and nothing outside
  the grammar is accepted.  The tokens are numbers, names and operators that spell the text up to its white space, and any such tokens written with spaces between them are read as
  they are.  The trees that occur are the well-formed ones (named variables, non-negative constants, at most twelve rounding digits), each of them compiled back exactly from the
  formula text that spells it.
\<close>

theorem compiled_trees_are_the_language:
  "(compileExactFormula s = Inr e \<longleftrightarrow> (\<exists>ts. tokenize s = Inr ts \<and> derives Largest_level ts e))
    \<and> (\<forall>ts. tokenize s = Inr ts \<longrightarrow> list_all token_form ts \<and> concat (map tok_text ts) = filter (\<lambda>c. \<not> is_white c) s)
    \<and> (\<forall>ts. list_all token_form ts \<longrightarrow> tokenize (concat (map (\<lambda>t. tok_text t @ '' '') ts)) = Inr ts)
    \<and> ((\<exists>text. compileExactFormula text = Inr e) \<longleftrightarrow> wf_expr e)
    \<and> (wf_expr e \<longrightarrow> compileExactFormula (formula_text e) = Inr e)"
proof (intro conjI)
  show "compileExactFormula s = Inr e \<longleftrightarrow> (\<exists>ts. tokenize s = Inr ts \<and> derives Largest_level ts e)"
    by (simp add: compileExactFormula_def bindE_Inr_iff parse_formula_derives)
  show "\<forall>ts. tokenize s = Inr ts \<longrightarrow> list_all token_form ts \<and> concat (map tok_text ts) = filter (\<lambda>c. \<not> is_white c) s"
    by (intro allI impI) (rule tokenize_spells)
  show "\<forall>ts. list_all token_form ts \<longrightarrow> tokenize (concat (map (\<lambda>t. tok_text t @ '' '') ts)) = Inr ts"
    by (intro allI impI) (rule tokenize_spaced)
  show "(\<exists>text. compileExactFormula text = Inr e) \<longleftrightarrow> wf_expr e" "wf_expr e \<longrightarrow> compileExactFormula (formula_text e) = Inr e"
    using compileExactFormula_wf compileExactFormula_text by blast+
qed

definition sample_tree :: dep_expr where
  "sample_tree = Larger (Minus (Minus (Scalar ''NB'') (Times (Scalar ''RV'') (Num 2000000000000))) (Power (Negate (Rate 0)) (Power (Num 3000000000000) Remaining_life)))
     (Round_to 2 (If_then_else Ge (Scalar ''AL'') (Num 5000000000000) (Num 0) (Num 1000000000000)))"

lemma sample_tree_compiles:
  "compileExactFormula ''NB - RV*2 - -R1^3^RL ~ round(if AL >= 5 then 0 else 1e0 endif)'' = Inr sample_tree" "wf_expr sample_tree"
  by code_simp+

theorem compiled_trees_are_the_language_witness:
  "(\<exists>ts. tokenize ''NB - RV*2 - -R1^3^RL ~ round(if AL >= 5 then 0 else 1e0 endif)'' = Inr ts \<and> derives Largest_level ts sample_tree)
    \<and> compileExactFormula (formula_text sample_tree) = Inr sample_tree"
  using compiled_trees_are_the_language [of "''NB - RV*2 - -R1^3^RL ~ round(if AL >= 5 then 0 else 1e0 endif)''" sample_tree] sample_tree_compiles by blast

end
