(* ===== verification/Formula_Schedule.thy ===== *)
theory Formula_Schedule
  imports Formula_Language
begin

text \<open>
  Depreciation schedules by formula: \<open>computeScheduleByFormula\<close> and \<open>BUILTIN_FORMULAS\<close> of \<open>engine/src/assets/depreciation-formula.ts\<close> and
  the period bound of \<open>engine/src/assets/depreciation-limits.ts\<close>.  The loop body is \<open>schedule_step\<close>, folded over the periods with the
  accumulated charge, the last charge and the lines; the values the loop only reads are the record \<open>formula_plan\<close>.
\<close>

section \<open>Period bounds\<close>

abbreviation (input) MAX_DEPRECIATION_PERIODS :: int where "MAX_DEPRECIATION_PERIODS \<equiv> 12000"

text \<open>A value of unknown type: a finite number, a text, or anything else (with \<open>NaN\<close> and the infinities).\<close>

datatype period_value = Number_value rat | Text_value string | Other_value

text \<open>\<open>/^\d+(?:\.0+)?$/\<close>\<close>

definition whole_number_text :: "string \<Rightarrow> bool" where
  "whole_number_text s = (let ds = takeWhile is_digit s; r = dropWhile is_digit s in
     ds \<noteq> [] \<and> (case r of [] \<Rightarrow> True | c # z \<Rightarrow> c = CHR ''.'' \<and> z \<noteq> [] \<and> list_all (\<lambda>d. d = CHR ''0'') z))"

definition depreciationPeriodCount :: "period_value \<Rightarrow> int result" where
  "depreciationPeriodCount v =
     (let n = (case v of
            Number_value x \<Rightarrow> if of_int \<lfloor>x\<rfloor> = x then Some \<lfloor>x\<rfloor> else None
          | Text_value s \<Rightarrow> if whole_number_text (trim s) then Some (int (digits_val (takeWhile is_digit (trim s)))) else None
          | Other_value \<Rightarrow> None)
      in case n of
           Some k \<Rightarrow> if k < 1 \<or> k > MAX_DEPRECIATION_PERIODS
             then Inl (Error ''Depreciation periods must be a whole number between 1 and 12000'') else Inr k
         | None \<Rightarrow> Inl (Error ''Depreciation periods must be a whole number between 1 and 12000''))"

section \<open>Schedules\<close>

datatype end_of_life = Fully_depreciate | Retain_balance

record formula_schedule_input =
  fs_cost :: string
  fs_salvage :: string
  fs_lifePeriods :: period_value
  fs_formula :: string
  fs_endOfLife :: "end_of_life option"
  fs_usage :: "string list option"
  fs_lifetimeUsage :: "string option"
  fs_rateTable :: "string list option"
  fs_firstPeriodFraction :: "string option"
  fs_firstFractionPeriods :: "period_value option"

record formula_schedule_line =
  sl_sequence :: int
  sl_planned :: string
  sl_accumulated :: string
  sl_netBookValue :: string

text \<open>\<open>(input.usage ?? []).reduce((total, usage) => total + exactUnits(usage), 0n)\<close>\<close>

definition lifetime_usage_units :: "formula_schedule_input \<Rightarrow> int result" where
  "lifetime_usage_units i = (case fs_lifetimeUsage i of
     Some u \<Rightarrow> exactUnits u
   | None \<Rightarrow> foldE (\<lambda>t u. bindE (exactUnits u) (\<lambda>x. Inr (t + x))) 0 (or_else (fs_usage i) []))"

definition schedule_extension :: "end_of_life \<Rightarrow> int \<Rightarrow> int \<Rightarrow> int result" where
  "schedule_extension endOfLife fractionPeriods firstPeriodFraction =
     (if firstPeriodFraction < EXACT_SCALE \<and> endOfLife = Fully_depreciate
      then bindE (roundDiv (fractionPeriods * (EXACT_SCALE - firstPeriodFraction)) EXACT_SCALE) (\<lambda>q. Inr (max 1 q))
      else Inr 0)"

text \<open>The values the loop reads and does not change.\<close>

record formula_plan =
  fp_cost :: int
  fp_salvage :: int
  fp_life :: int
  fp_fractionPeriods :: int
  fp_fraction :: int
  fp_endOfLife :: end_of_life
  fp_totalPeriods :: int
  fp_lifetimeUsage :: int
  fp_usage :: "string list option"
  fp_rateTable :: "string list option"

definition remainingLife :: "formula_plan \<Rightarrow> int \<Rightarrow> int" where
  "remainingLife pl period =
     (let reduced = (if fp_fraction pl < EXACT_SCALE then fp_fractionPeriods pl else 0);
          reducedLeft = max 0 (reduced - period + 1);
          fullLeft = fp_totalPeriods pl - max period (reduced + 1) + 1
      in reducedLeft * fp_fraction pl + (if fullLeft > 0 then fullLeft else 0) * EXACT_SCALE)"

definition period_context :: "formula_plan \<Rightarrow> int \<Rightarrow> int \<Rightarrow> int \<Rightarrow> dep_context" where
  "period_context pl currentPeriod accumulated prev =
     \<lparr>ctx_OC = fromUnits (fp_cost pl), ctx_CC = fromUnits (fp_cost pl), ctx_NB = fromUnits (fp_cost pl - accumulated),
      ctx_RV = fromUnits (fp_salvage pl), ctx_AL = bigint_text (fp_life pl), ctx_CP = bigint_text currentPeriod,
      ctx_TD = fromUnits accumulated, ctx_LD = fromUnits prev,
      ctx_CU = (case fp_usage pl of None \<Rightarrow> ''0''
        | Some us \<Rightarrow> if nat (currentPeriod - 1) < length us then us ! nat (currentPeriod - 1) else ''0''),
      ctx_LU = exactString (fp_lifetimeUsage pl), ctx_DH = ''1'', ctx_DP = ''1'', ctx_FY = ''12'', ctx_PB = ''0'',
      ctx_RL = Some (exactString (remainingLife pl currentPeriod)), ctx_R = fp_rateTable pl\<rparr>"

text \<open>The charge the formula gives, scaled by the convention and kept between zero and the balance.\<close>

definition formula_charge :: "formula_plan \<Rightarrow> dep_expr \<Rightarrow> int \<Rightarrow> int \<Rightarrow> int \<Rightarrow> int result" where
  "formula_charge pl e currentPeriod accumulated prev =
     bindE (eval_expr (period_context pl currentPeriod accumulated prev) e) (\<lambda>v.
     bindE (if currentPeriod \<le> fp_fractionPeriods pl \<and> fp_fraction pl < EXACT_SCALE then mulExact v (fp_fraction pl) else Inr v) (\<lambda>v'.
     bindE (roundDiv v' MONEY_TO_EXACT) (\<lambda>q.
       let charge = (if q < 0 then 0 else q); remaining = fp_cost pl - accumulated - fp_salvage pl
       in Inr (if charge > remaining then remaining else charge))))"

definition period_charge :: "formula_plan \<Rightarrow> dep_expr \<Rightarrow> int \<Rightarrow> int \<Rightarrow> int \<Rightarrow> int result" where
  "period_charge pl e currentPeriod accumulated prev =
     (let remaining = fp_cost pl - accumulated - fp_salvage pl in
      if fp_endOfLife pl = Fully_depreciate \<and> currentPeriod = fp_totalPeriods pl then Inr remaining
      else if currentPeriod > fp_life pl then roundDiv remaining (fp_totalPeriods pl - currentPeriod + 1)
      else formula_charge pl e currentPeriod accumulated prev)"

definition schedule_step :: "formula_plan \<Rightarrow> dep_expr \<Rightarrow> int \<times> int \<times> formula_schedule_line list \<Rightarrow> int
    \<Rightarrow> (int \<times> int \<times> formula_schedule_line list) result" where
  "schedule_step pl e s currentPeriod = (case s of (accumulated, prev, lines) \<Rightarrow>
     bindE (period_charge pl e currentPeriod accumulated prev) (\<lambda>charge.
       let acc = accumulated + charge in
       Inr (acc, charge, lines @ [\<lparr>sl_sequence = currentPeriod - 1, sl_planned = fromUnits charge,
         sl_accumulated = fromUnits acc, sl_netBookValue = fromUnits (fp_cost pl - acc)\<rparr>])))"

definition computeScheduleByFormula :: "formula_schedule_input \<Rightarrow> formula_schedule_line list result" where
  "computeScheduleByFormula i =
     bindE (depreciationPeriodCount (fs_lifePeriods i)) (\<lambda>life.
     bindE (depreciationPeriodCount (or_else (fs_firstFractionPeriods i) (Number_value 1))) (\<lambda>fractionPeriods.
     bindE (toUnits (fs_cost i)) (\<lambda>cost. bindE (toUnits (fs_salvage i)) (\<lambda>salvage.
     if cost - salvage \<le> 0 then Inr []
     else bindE (compileExactFormula (fs_formula i)) (\<lambda>e.
       let endOfLife = or_else (fs_endOfLife i) Fully_depreciate in
       bindE (lifetime_usage_units i) (\<lambda>lifetimeUsage.
       bindE (exactUnits (or_else (fs_firstPeriodFraction i) ''1'')) (\<lambda>fraction.
       if fraction < 0 \<or> fraction > EXACT_SCALE
       then Inl (DepreciationFormulaError ''first-period fraction must be between zero and one'')
       else bindE (schedule_extension endOfLife fractionPeriods fraction) (\<lambda>extension.
         let pl = \<lparr>fp_cost = cost, fp_salvage = salvage, fp_life = life, fp_fractionPeriods = fractionPeriods,
               fp_fraction = fraction, fp_endOfLife = endOfLife, fp_totalPeriods = life + extension,
               fp_lifetimeUsage = lifetimeUsage, fp_usage = fs_usage i, fp_rateTable = fs_rateTable i\<rparr>
         in bindE (foldE (schedule_step pl e) (0, 0, []) [1..life + extension]) (\<lambda>s. Inr (snd (snd s)))))))))))"

definition BUILTIN_FORMULAS :: "(string \<times> string) list" where
  "BUILTIN_FORMULAS =
    [(''straight_line'', ''(OC-RV)/AL''),
     (''straight_line_remaining'', ''(NB-RV)/RL''),
     (''declining_150'', ''(NB-RV)*(1.5/AL)~(NB-RV)/RL''),
     (''double_declining'', ''(NB-RV)*(2/AL)~(NB-RV)/RL''),
     (''declining_250'', ''(NB-RV)*(2.5/AL)~(NB-RV)/RL''),
     (''sum_of_years_digits'', ''(OC-RV)*(AL-CP+1)/(AL*(AL+1)/2)''),
     (''units_of_production'', ''(OC-RV)*CU/LU''),
     (''zero'', ''0'')]"

section \<open>The shape of a schedule\<close>

text \<open>The lines a list of charges determines: running totals, book values and sequence numbers.\<close>

fun lines_of :: "int \<Rightarrow> int \<Rightarrow> int \<Rightarrow> int list \<Rightarrow> formula_schedule_line list" where
  "lines_of cost acc k [] = []"
| "lines_of cost acc k (u # us) =
     \<lparr>sl_sequence = k, sl_planned = fromUnits u, sl_accumulated = fromUnits (acc + u), sl_netBookValue = fromUnits (cost - (acc + u))\<rparr>
       # lines_of cost (acc + u) (k + 1) us"

lemma length_lines_of [simp]: "length (lines_of cost acc k us) = length us"
  by (induction us arbitrary: acc k) auto

lemma lines_of_book_values:
  assumes "\<forall>u \<in> set us. 0 \<le> u" "l \<in> set (lines_of cost acc k us)"
  shows "\<exists>b. sl_netBookValue l = fromUnits b \<and> cost - acc - sum_list us \<le> b \<and> b \<le> cost - acc"
  using assms
proof (induction us arbitrary: acc k)
  case (Cons u us)
  have s: "0 \<le> sum_list us" using Cons.prems(1) by (intro sum_list_nonneg) auto
  show ?case
  proof (cases "l \<in> set (lines_of cost (acc + u) (k + 1) us)")
    case True
    then obtain b where "sl_netBookValue l = fromUnits b" "cost - (acc + u) - sum_list us \<le> b" "b \<le> cost - (acc + u)"
      using Cons.IH Cons.prems(1) by fastforce
    then show ?thesis using Cons.prems(1) by (intro exI [of _ b]) auto
  next
    case False
    then show ?thesis using Cons.prems s by (intro exI [of _ "cost - (acc + u)"]) auto
  qed
qed simp

lemma lines_of_last:
  "us \<noteq> [] \<Longrightarrow> sl_netBookValue (last (lines_of cost acc k us)) = fromUnits (cost - acc - sum_list us)"
proof (induction us arbitrary: acc k)
  case (Cons u us)
  show ?case
  proof (cases "us = []")
    case False
    then have "lines_of cost (acc + u) (k + 1) us \<noteq> []" by (metis length_0_conv length_lines_of)
    then show ?thesis using Cons.IH [OF False, of "acc + u" "k + 1"] by (simp add: diff_diff_eq add.assoc)
  qed simp
qed simp

lemma lines_of_planned: "map sl_planned (lines_of cost acc k us) = map fromUnits us"
  by (induction us arbitrary: acc k) auto

section \<open>One period\<close>

lemma round_quot_le: "0 \<le> n \<Longrightarrow> 1 \<le> d \<Longrightarrow> round_quot n d \<le> n"
proof (cases "n = 0")
  case False
  assume h: "0 \<le> n" "1 \<le> d"
  then have "n + d div 2 < (n + 1) * d"
  proof (cases "d = 1")
    case False
    then have "n \<le> n * d" "d div 2 < d" using h by (simp_all add: mult_le_cancel_left1)
    then show ?thesis by (simp add: algebra_simps)
  qed simp
  moreover have "round_quot n d * d \<le> n + d div 2"
    using h div_int_iff [of d "n + d div 2" "round_quot n d"] by (simp add: round_quot_nonneg_eq)
  ultimately have "round_quot n d * d < (n + 1) * d" by linarith
  then show ?thesis using h by simp
qed simp

lemma formula_charge_bounds:
  assumes "formula_charge pl e k acc prev = Inr q" "acc \<le> fp_cost pl - fp_salvage pl"
  shows "0 \<le> q" "q \<le> fp_cost pl - acc - fp_salvage pl"
proof -
  obtain c where "q = (if (if c < 0 then 0 else c) > fp_cost pl - acc - fp_salvage pl then fp_cost pl - acc - fp_salvage pl else if c < 0 then 0 else c)"
    using assms(1) unfolding formula_charge_def Let_def bindE_Inr_iff sum.inject by blast
  then show "0 \<le> q" "q \<le> fp_cost pl - acc - fp_salvage pl" using assms(2) by (simp_all split: if_splits)
qed

lemma period_charge_cases:
  assumes "period_charge pl e k acc prev = Inr q"
  obtains "q = fp_cost pl - acc - fp_salvage pl"
    | "q = round_quot (fp_cost pl - acc - fp_salvage pl) (fp_totalPeriods pl - k + 1)"
    | "formula_charge pl e k acc prev = Inr q"
  using assms unfolding period_charge_def Let_def by (metis roundDiv_Inr_iff sum.inject(2))

lemma period_charge_bounds:
  assumes "period_charge pl e k acc prev = Inr q" "acc \<le> fp_cost pl - fp_salvage pl" "k \<le> fp_totalPeriods pl"
  shows "0 \<le> q" "q \<le> fp_cost pl - acc - fp_salvage pl"
proof -
  have r: "0 \<le> fp_cost pl - acc - fp_salvage pl" "1 \<le> fp_totalPeriods pl - k + 1" using assms(2,3) by simp_all
  from assms(1) have "0 \<le> q \<and> q \<le> fp_cost pl - acc - fp_salvage pl"
  proof (cases rule: period_charge_cases)
    case 2
    then show ?thesis using round_quot_nonneg [OF r(1), of "fp_totalPeriods pl - k + 1"] round_quot_le [OF r] r(2) by simp
  next
    case 3
    then show ?thesis using formula_charge_bounds [OF 3 assms(2)] by simp
  qed (use r in simp)
  then show "0 \<le> q" "q \<le> fp_cost pl - acc - fp_salvage pl" by simp_all
qed

lemma schedule_step_Inr:
  assumes "schedule_step pl e (acc, prev, ls) k = Inr s"
  obtains q where "period_charge pl e k acc prev = Inr q" "s = (acc + q, q, ls @ lines_of (fp_cost pl) acc (k - 1) [q])"
  using assms by (auto simp: schedule_step_def Let_def elim!: bindE_InrE)

text \<open>The loop: the charges are non-negative, stay within the depreciable base and, when the balance is written off, use it up.\<close>

lemma schedule_loop:
  assumes "foldE (schedule_step pl e) (acc, prev, ls) [k..fp_totalPeriods pl] = Inr (acc', prev', ls')"
    and "acc \<le> fp_cost pl - fp_salvage pl"
  shows "\<exists>us. ls' = ls @ lines_of (fp_cost pl) acc (k - 1) us \<and> acc' = acc + sum_list us \<and> (\<forall>u \<in> set us. 0 \<le> u)
    \<and> acc' \<le> fp_cost pl - fp_salvage pl \<and> length us = nat (fp_totalPeriods pl - k + 1)
    \<and> (fp_endOfLife pl = Fully_depreciate \<and> k \<le> fp_totalPeriods pl \<longrightarrow> acc' = fp_cost pl - fp_salvage pl)"
  using assms
proof (induction "nat (fp_totalPeriods pl - k + 1)" arbitrary: k acc prev ls)
  case 0
  then have "fp_totalPeriods pl < k" by simp
  then show ?case using 0 by (intro exI [of _ "[]"]) simp
next
  case (Suc n)
  let ?T = "fp_totalPeriods pl" and ?c = "fp_cost pl" and ?base = "fp_cost pl - fp_salvage pl"
  have k: "k \<le> ?T" using Suc.hyps(2) by simp
  then have "[k..?T] = k # [k + 1..?T]" by (simp add: upto_rec1)
  then obtain s where s: "schedule_step pl e (acc, prev, ls) k = Inr s" "foldE (schedule_step pl e) s [k + 1..?T] = Inr (acc', prev', ls')"
    using Suc.prems(1) by (auto elim!: bindE_InrE)
  obtain q where q: "period_charge pl e k acc prev = Inr q" and seq: "s = (acc + q, q, ls @ lines_of ?c acc (k - 1) [q])"
    using s(1) by (rule schedule_step_Inr)
  note b = period_charge_bounds [OF q Suc.prems(2) k]
  have "n = nat (?T - (k + 1) + 1)" using Suc.hyps(2) k by simp
  from Suc.hyps(1) [OF this s(2) [unfolded seq]] obtain us where us:
    "ls' = (ls @ lines_of ?c acc (k - 1) [q]) @ lines_of ?c (acc + q) k us" "acc' = acc + q + sum_list us" "\<forall>u \<in> set us. 0 \<le> u"
    "acc' \<le> ?base" "length us = nat (?T - k)"
    "fp_endOfLife pl = Fully_depreciate \<and> k + 1 \<le> ?T \<longrightarrow> acc' = ?base"
    using b(2) by auto
  have full: "acc' = ?base" if "fp_endOfLife pl = Fully_depreciate"
  proof (cases "k + 1 \<le> ?T")
    case False
    then have "k = ?T" "us = []" using k us(5) by simp_all
    then show ?thesis using q that us(2) by (auto simp: period_charge_def Let_def)
  qed (use us(6) that in simp)
  show ?case
    by (intro exI [of _ "q # us"]) (use us b(1) k full in \<open>auto simp: nat_diff_distrib'\<close>)
qed

section \<open>The whole schedule\<close>

lemma depreciationPeriodCount_bounds: "depreciationPeriodCount v = Inr n \<Longrightarrow> 1 \<le> n \<and> n \<le> MAX_DEPRECIATION_PERIODS"
  unfolding depreciationPeriodCount_def Let_def by (auto split: option.splits if_splits period_value.splits)

lemma depreciationPeriodCount_of_int:
  "1 \<le> n \<Longrightarrow> n \<le> MAX_DEPRECIATION_PERIODS \<Longrightarrow> depreciationPeriodCount (Number_value (of_int n)) = Inr n"
  by (simp add: depreciationPeriodCount_def)

lemma schedule_extension_eq:
  "schedule_extension eol fp f = Inr (if f < EXACT_SCALE \<and> eol = Fully_depreciate
     then max 1 (round_quot (fp * (EXACT_SCALE - f)) EXACT_SCALE) else 0)"
  by (simp add: schedule_extension_def roundDiv_pos)

lemma schedule_extension_bounds:
  assumes "schedule_extension eol fp f = Inr x" "1 \<le> fp" "0 \<le> f" "f \<le> EXACT_SCALE"
  shows "0 \<le> x" "x \<le> fp"
proof -
  have "fp * (EXACT_SCALE - f) \<le> fp * EXACT_SCALE" using assms(2,3) by (intro mult_left_mono) auto
  then have "round_quot (fp * (EXACT_SCALE - f)) EXACT_SCALE \<le> fp"
    using round_quot_mono [of "fp * (EXACT_SCALE - f)" "fp * EXACT_SCALE" EXACT_SCALE] by simp
  then show "0 \<le> x" "x \<le> fp" using assms(1,2) by (auto simp: schedule_extension_eq)
qed

text \<open>The plan a valid input determines, and the loop that remains.\<close>

definition plan_of :: "formula_schedule_input \<Rightarrow> int \<Rightarrow> int \<Rightarrow> int \<Rightarrow> int \<Rightarrow> int \<Rightarrow> int \<Rightarrow> int \<Rightarrow> formula_plan" where
  "plan_of i life fp cost salvage usage fraction extension =
     \<lparr>fp_cost = cost, fp_salvage = salvage, fp_life = life, fp_fractionPeriods = fp,
      fp_fraction = fraction, fp_endOfLife = or_else (fs_endOfLife i) Fully_depreciate, fp_totalPeriods = life + extension,
      fp_lifetimeUsage = usage, fp_usage = fs_usage i, fp_rateTable = fs_rateTable i\<rparr>"

lemma plan_of_simps [simp]:
  "fp_cost (plan_of i life fp cost salvage usage fraction extension) = cost"
  "fp_salvage (plan_of i life fp cost salvage usage fraction extension) = salvage"
  "fp_life (plan_of i life fp cost salvage usage fraction extension) = life"
  "fp_fractionPeriods (plan_of i life fp cost salvage usage fraction extension) = fp"
  "fp_fraction (plan_of i life fp cost salvage usage fraction extension) = fraction"
  "fp_endOfLife (plan_of i life fp cost salvage usage fraction extension) = or_else (fs_endOfLife i) Fully_depreciate"
  "fp_totalPeriods (plan_of i life fp cost salvage usage fraction extension) = life + extension"
  "fp_lifetimeUsage (plan_of i life fp cost salvage usage fraction extension) = usage"
  "fp_usage (plan_of i life fp cost salvage usage fraction extension) = fs_usage i"
  "fp_rateTable (plan_of i life fp cost salvage usage fraction extension) = fs_rateTable i"
  by (simp_all add: plan_of_def)

lemma compute_InrE:
  assumes "computeScheduleByFormula i = Inr lines" "toUnits (fs_cost i) = Inr c" "toUnits (fs_salvage i) = Inr s" "s < c"
  obtains life fp e u f x st where "depreciationPeriodCount (fs_lifePeriods i) = Inr life"
    "depreciationPeriodCount (or_else (fs_firstFractionPeriods i) (Number_value 1)) = Inr fp"
    "compileExactFormula (fs_formula i) = Inr e" "0 \<le> f" "f \<le> EXACT_SCALE"
    "schedule_extension (or_else (fs_endOfLife i) Fully_depreciate) fp f = Inr x"
    "foldE (schedule_step (plan_of i life fp c s u f x) e) (0, 0, []) [1..life + x] = Inr st" "lines = snd (snd st)"
proof -
  have "\<not> c - s \<le> 0" using assms(4) by simp
  then show thesis
    using assms(1) that unfolding computeScheduleByFormula_def assms(2,3) Let_def bindE.simps plan_of_def [symmetric]
    by (elim bindE_InrE) (auto elim!: bindE_InrE split: if_splits simp: not_less)
qed

lemma schedule_closes:
  assumes "computeScheduleByFormula i = Inr lines" "toUnits (fs_cost i) = Inr c" "toUnits (fs_salvage i) = Inr s" "s < c"
  shows "\<exists>us. lines = lines_of c 0 0 us \<and> (\<forall>u \<in> set us. 0 \<le> u) \<and> sum_list us \<le> c - s
    \<and> 1 \<le> length us \<and> length us \<le> 24000
    \<and> (or_else (fs_endOfLife i) Fully_depreciate = Fully_depreciate \<longrightarrow> sum_list us = c - s)"
proof -
  obtain life fp e u f x st where h: "depreciationPeriodCount (fs_lifePeriods i) = Inr life"
    "depreciationPeriodCount (or_else (fs_firstFractionPeriods i) (Number_value 1)) = Inr fp"
    "compileExactFormula (fs_formula i) = Inr e" "0 \<le> f" "f \<le> EXACT_SCALE"
    "schedule_extension (or_else (fs_endOfLife i) Fully_depreciate) fp f = Inr x"
    "foldE (schedule_step (plan_of i life fp c s u f x) e) (0, 0, []) [1..life + x] = Inr st" "lines = snd (snd st)"
    using assms by (rule compute_InrE)
  note n = depreciationPeriodCount_bounds [OF h(1)] depreciationPeriodCount_bounds [OF h(2)]
  note x = schedule_extension_bounds [OF h(6) _ h(4,5)]
  obtain acc prev where st: "st = (acc, prev, lines)" using h(8) by (cases st) auto
  let ?pl = "plan_of i life fp c s u f x"
  obtain us where us: "lines = [] @ lines_of c 0 0 us" "acc = 0 + sum_list us" "\<forall>u \<in> set us. 0 \<le> u" "acc \<le> c - s"
    "length us = nat (life + x - 1 + 1)"
    "or_else (fs_endOfLife i) Fully_depreciate = Fully_depreciate \<and> 1 \<le> life + x \<longrightarrow> acc = c - s"
    using schedule_loop [of ?pl e 0 0 "[]" 1 acc prev lines] h(7) assms(4) unfolding st by auto
  show ?thesis
    by (intro exI [of _ us]) (use us n x in auto)
qed

section \<open>When a schedule is returned\<close>

lemma period_charge_total:
  assumes "k \<le> fp_life pl \<Longrightarrow> \<exists>v. eval_expr (period_context pl k acc prev) e = Inr v" "k \<le> fp_totalPeriods pl"
  shows "\<exists>q. period_charge pl e k acc prev = Inr q"
proof (cases "k > fp_life pl \<or> (fp_endOfLife pl = Fully_depreciate \<and> k = fp_totalPeriods pl)")
  case True
  then show ?thesis using assms(2) by (auto simp: period_charge_def Let_def roundDiv_pos)
next
  case False
  then obtain v where v: "eval_expr (period_context pl k acc prev) e = Inr v" using assms(1) by fastforce
  obtain v' where "(if k \<le> fp_fractionPeriods pl \<and> fp_fraction pl < EXACT_SCALE then mulExact v (fp_fraction pl) else Inr v) = Inr v'"
    by (cases "k \<le> fp_fractionPeriods pl \<and> fp_fraction pl < EXACT_SCALE") (simp_all add: mulExact_eq)
  then have "\<exists>q. formula_charge pl e k acc prev = Inr q"
    unfolding formula_charge_def v bindE.simps by (simp add: roundDiv_pos Let_def)
  then show ?thesis using False unfolding period_charge_def Let_def by auto
qed

lemma schedule_fold_total:
  assumes "\<And>k acc prev. 1 \<le> k \<Longrightarrow> k \<le> fp_life pl \<Longrightarrow> \<exists>v. eval_expr (period_context pl k acc prev) e = Inr v"
  shows "\<exists>st. foldE (schedule_step pl e) s0 [1..fp_totalPeriods pl] = Inr st"
proof (rule foldE_Inr_total)
  fix s :: "int \<times> int \<times> formula_schedule_line list" and k assume "k \<in> set [1..fp_totalPeriods pl]"
  then have k: "1 \<le> k" "k \<le> fp_totalPeriods pl" by simp_all
  obtain acc prev ls where s: "s = (acc, prev, ls)" by (cases s)
  obtain q where "period_charge pl e k acc prev = Inr q"
    using period_charge_total [of k pl acc prev e] assms k by blast
  then show "\<exists>s'. schedule_step pl e s k = Inr s'" by (simp add: schedule_step_def s Let_def)
qed

lemma formula_plan_returns:
  assumes "depreciationPeriodCount (fs_lifePeriods i) = Inr life"
    "depreciationPeriodCount (or_else (fs_firstFractionPeriods i) (Number_value 1)) = Inr fp"
    "toUnits (fs_cost i) = Inr c" "toUnits (fs_salvage i) = Inr s"
    "compileExactFormula (fs_formula i) = Inr e" "lifetime_usage_units i = Inr u"
    "exactUnits (or_else (fs_firstPeriodFraction i) ''1'') = Inr f" "0 \<le> f" "f \<le> EXACT_SCALE"
    "schedule_extension (or_else (fs_endOfLife i) Fully_depreciate) fp f = Inr x"
    and evals: "\<And>k acc prev. 1 \<le> k \<Longrightarrow> k \<le> life \<Longrightarrow> \<exists>v. eval_expr (period_context (plan_of i life fp c s u f x) k acc prev) e = Inr v"
  shows "\<exists>lines. computeScheduleByFormula i = Inr lines"
proof -
  obtain st where st: "foldE (schedule_step (plan_of i life fp c s u f x) e) (0, 0, []) [1..life + x] = Inr st"
    using schedule_fold_total [of "plan_of i life fp c s u f x" e "(0, 0, [])"] evals by auto
  show ?thesis
    unfolding computeScheduleByFormula_def assms(1-7,10) bindE.simps Let_def plan_of_def [symmetric] st using assms(8,9) by simp
qed

text \<open>The remaining life a formula divides by is positive in every period the formula charges.\<close>

lemma remainingLife_pos:
  assumes "schedule_extension (or_else (fs_endOfLife i) Fully_depreciate) fp f = Inr x" "1 \<le> fp" "0 \<le> f" "f \<le> EXACT_SCALE"
    "0 < f \<or> or_else (fs_endOfLife i) Fully_depreciate = Fully_depreciate" "1 \<le> k" "k \<le> life"
  shows "0 < remainingLife (plan_of i life fp c s u f x) k"
proof -
  note x = schedule_extension_bounds [OF assms(1-4)]
  define reduced where "reduced = (if f < EXACT_SCALE then fp else 0)"
  define full where "full = life + x - max k (reduced + 1) + 1"
  have rl: "remainingLife (plan_of i life fp c s u f x) k
      = max 0 (reduced - k + 1) * f + (if full > 0 then full else 0) * EXACT_SCALE"
    by (simp only: remainingLife_def Let_def reduced_def full_def plan_of_simps)
  have nonneg: "0 \<le> max 0 (reduced - k + 1) * f" "0 \<le> (if full > 0 then full else 0) * EXACT_SCALE" using assms(3) by auto
  show ?thesis
  proof (cases "k \<le> reduced \<and> 0 < f")
    case True
    then have "0 < max 0 (reduced - k + 1) * f" by (simp add: max_def)
    then show ?thesis unfolding rl using nonneg(2) by linarith
  next
    case False
    have "0 < full"
    proof (cases "k \<le> reduced")
      case True
      then have "f = 0" using False assms(3) by simp
      then have "reduced = fp" "x = max 1 fp" using assms(1,5) by (simp_all add: reduced_def schedule_extension_eq)
      then show ?thesis using True assms(2,6,7) by (simp add: full_def)
    qed (use x assms(7) in \<open>simp add: full_def\<close>)
    then have "0 < (if full > 0 then full else 0) * EXACT_SCALE" by simp
    then show ?thesis unfolding rl using nonneg(1) by linarith
  qed
qed

section \<open>The built-in formulas\<close>

abbreviation (input) base_tree :: "string \<Rightarrow> dep_expr" where
  "base_tree v \<equiv> Minus (Scalar v) (Scalar ''RV'')"

abbreviation (input) crossover_tree :: "dep_expr \<Rightarrow> dep_expr" where
  "crossover_tree r \<equiv> Larger (Times (base_tree ''NB'') r) (Divide (base_tree ''NB'') Remaining_life)"

text \<open>What each built-in text compiles to; the declining-balance method of the schedule uses \<open>(NB-RV)*R1~(NB-RV)/RL\<close> in the same way.\<close>

lemma builtin_trees:
  "compileExactFormula ''(OC-RV)/AL'' = Inr (Divide (base_tree ''OC'') (Scalar ''AL''))"
  "compileExactFormula ''(NB-RV)/RL'' = Inr (Divide (base_tree ''NB'') Remaining_life)"
  "compileExactFormula ''(NB-RV)*(1.5/AL)~(NB-RV)/RL'' = Inr (crossover_tree (Divide (Num 1500000000000) (Scalar ''AL'')))"
  "compileExactFormula ''(NB-RV)*(2/AL)~(NB-RV)/RL'' = Inr (crossover_tree (Divide (Num 2000000000000) (Scalar ''AL'')))"
  "compileExactFormula ''(NB-RV)*(2.5/AL)~(NB-RV)/RL'' = Inr (crossover_tree (Divide (Num 2500000000000) (Scalar ''AL'')))"
  "compileExactFormula ''(NB-RV)*R1~(NB-RV)/RL'' = Inr (crossover_tree (Rate 0))"
  "compileExactFormula ''(OC-RV)*(AL-CP+1)/(AL*(AL+1)/2)''
    = Inr (Divide (Times (base_tree ''OC'') (Plus (Minus (Scalar ''AL'') (Scalar ''CP'')) (Num 1000000000000)))
        (Divide (Times (Scalar ''AL'') (Plus (Scalar ''AL'') (Num 1000000000000))) (Num 2000000000000)))"
  "compileExactFormula ''(OC-RV)*CU/LU'' = Inr (Divide (Times (base_tree ''OC'') (Scalar ''CU'')) (Scalar ''LU''))"
  "compileExactFormula ''0'' = Inr (Num 0)"
  by code_simp+

lemma eval_context:
  "eval_expr (period_context pl k acc prev) (Scalar ''OC'') = Inr (fp_cost pl * MONEY_TO_EXACT)"
  "eval_expr (period_context pl k acc prev) (Scalar ''NB'') = Inr ((fp_cost pl - acc) * MONEY_TO_EXACT)"
  "eval_expr (period_context pl k acc prev) (Scalar ''RV'') = Inr (fp_salvage pl * MONEY_TO_EXACT)"
  "eval_expr (period_context pl k acc prev) (Scalar ''AL'') = Inr (fp_life pl * EXACT_SCALE)"
  "eval_expr (period_context pl k acc prev) (Scalar ''CP'') = Inr (k * EXACT_SCALE)"
  "eval_expr (period_context pl k acc prev) (Scalar ''LU'') = Inr (fp_lifetimeUsage pl)"
  "eval_expr (period_context pl k acc prev) Remaining_life = Inr (remainingLife pl k)"
  by (simp_all add: scalar_text_def period_context_def)

text \<open>The trees that divide by the life, the remaining life or the sum of the digits always have a value.\<close>

lemma crossover_evaluates:
  assumes "0 < remainingLife pl k" "eval_expr (period_context pl k acc prev) r = Inr v"
  shows "\<exists>x. eval_expr (period_context pl k acc prev) (crossover_tree r) = Inr x"
  using assms(1) by (simp add: eval_expr.simps(5-9) assms(2) eval_context mulExact_eq divExact_eq del: eval_expr.simps(2,3))

lemma rate_of_life_evaluates:
  assumes "1 \<le> fp_life pl"
  shows "\<exists>v. eval_expr (period_context pl k acc prev) (Divide (Num a) (Scalar ''AL'')) = Inr v"
  using assms by (simp add: eval_context divExact_eq del: eval_expr.simps(2))

lemma digits_sum_positive:
  assumes "1 \<le> n"
  shows "0 < half_away (of_int (half_away (of_int (n * EXACT_SCALE * (n * EXACT_SCALE + 1000000000000)) / 10 ^ 12) * EXACT_SCALE) / 2000000000000)"
proof -
  have "(of_int (n * EXACT_SCALE * (n * EXACT_SCALE + 1000000000000)) / 10 ^ 12 :: rat) = of_int (n * (n + 1) * EXACT_SCALE)"
    by (simp add: algebra_simps)
  then have p: "half_away (of_int (n * EXACT_SCALE * (n * EXACT_SCALE + 1000000000000)) / 10 ^ 12) = n * (n + 1) * EXACT_SCALE"
    by (simp only: half_away_of_int)
  define m where "m = n * (n + 1)"
  have "2 \<le> m" using mult_mono [of 1 n 2 "n + 1"] assms by (simp add: m_def)
  then have "(1::rat) \<le> of_int (m * EXACT_SCALE * EXACT_SCALE) / 2000000000000" by simp
  then have "half_away 1 \<le> half_away (of_int (m * EXACT_SCALE * EXACT_SCALE) / 2000000000000)" by (rule half_away_mono)
  then show ?thesis using half_away_of_int [of 1] unfolding p m_def by simp
qed

lemma builtin_evaluates:
  assumes "formula \<in> {''(OC-RV)/AL'', ''(NB-RV)/RL'', ''(NB-RV)*(1.5/AL)~(NB-RV)/RL'', ''(NB-RV)*(2/AL)~(NB-RV)/RL'',
      ''(NB-RV)*(2.5/AL)~(NB-RV)/RL'', ''(OC-RV)*(AL-CP+1)/(AL*(AL+1)/2)'', ''0''}"
    "compileExactFormula formula = Inr e" "1 \<le> fp_life pl" "0 < remainingLife pl k"
  shows "\<exists>v. eval_expr (period_context pl k acc prev) e = Inr v"
proof -
  obtain v where v: "eval_expr (period_context pl k acc prev) (Divide (Num a) (Scalar ''AL'')) = Inr (v a)" for a
    using rate_of_life_evaluates [OF assms(3)] by metis
  note cross = crossover_evaluates [OF assms(4) v]
  have line: "\<exists>v. eval_expr (period_context pl k acc prev) (Divide (base_tree ''OC'') (Scalar ''AL'')) = Inr v"
    "\<exists>v. eval_expr (period_context pl k acc prev) (Divide (base_tree ''NB'') Remaining_life) = Inr v"
    using assms(3,4) by (simp_all add: eval_context divExact_eq del: eval_expr.simps(2,3))
  have digits: "\<exists>v. eval_expr (period_context pl k acc prev)
      (Divide (Times (base_tree ''OC'') (Plus (Minus (Scalar ''AL'') (Scalar ''CP'')) (Num 1000000000000)))
        (Divide (Times (Scalar ''AL'') (Plus (Scalar ''AL'') (Num 1000000000000))) (Num 2000000000000))) = Inr v"
    using digits_sum_positive [OF assms(3)] by (simp add: eval_context mulExact_eq divExact_eq del: eval_expr.simps(2))
  show ?thesis using assms(1,2) builtin_trees cross line digits by auto
qed

lemma builtin_schedule_total:
  assumes "fs_formula i \<in> {''(OC-RV)/AL'', ''(NB-RV)/RL'', ''(NB-RV)*(1.5/AL)~(NB-RV)/RL'', ''(NB-RV)*(2/AL)~(NB-RV)/RL'',
      ''(NB-RV)*(2.5/AL)~(NB-RV)/RL'', ''(OC-RV)*(AL-CP+1)/(AL*(AL+1)/2)'', ''0''}"
    "depreciationPeriodCount (fs_lifePeriods i) = Inr life"
    "depreciationPeriodCount (or_else (fs_firstFractionPeriods i) (Number_value 1)) = Inr fp"
    "toUnits (fs_cost i) = Inr c" "toUnits (fs_salvage i) = Inr s" "lifetime_usage_units i = Inr u"
    "exactUnits (or_else (fs_firstPeriodFraction i) ''1'') = Inr f" "0 \<le> f" "f \<le> EXACT_SCALE"
    "0 < f \<or> or_else (fs_endOfLife i) Fully_depreciate = Fully_depreciate"
  shows "\<exists>lines. computeScheduleByFormula i = Inr lines"
proof -
  note n = depreciationPeriodCount_bounds [OF assms(2)] depreciationPeriodCount_bounds [OF assms(3)]
  obtain x where x: "schedule_extension (or_else (fs_endOfLife i) Fully_depreciate) fp f = Inr x" by (simp add: schedule_extension_eq)
  obtain e where e: "compileExactFormula (fs_formula i) = Inr e" using assms(1) builtin_trees by auto
  show ?thesis
  proof (rule formula_plan_returns [OF assms(2-5) e assms(6-9) x])
    fix k acc prev assume k: "1 \<le> k" "k \<le> life"
    have "0 < remainingLife (plan_of i life fp c s u f x) k" by (rule remainingLife_pos [OF x]) (use n assms k in auto)
    then show "\<exists>v. eval_expr (period_context (plan_of i life fp c s u f x) k acc prev) e = Inr v"
      using n by (intro builtin_evaluates [OF assms(1) e]) simp_all
  qed
qed

section \<open>Properties\<close>

text \<open>
  C30: Whatever the formula computes, a schedule that is returned is closed: no charge is negative, the running totals and book values are those of the
  charges, the book value never leaves the range from cost down to salvage, a fully depreciating schedule charges exactly cost less salvage and ends at the
  salvage value, and no schedule has more than 24,000 lines.
\<close>

theorem formula_schedule_closes:
  assumes "computeScheduleByFormula i = Inr lines" "toUnits (fs_cost i) = Inr c" "toUnits (fs_salvage i) = Inr s" "s < c"
  shows "\<exists>us. lines = lines_of c 0 0 us \<and> (\<forall>u \<in> set us. 0 \<le> u) \<and> sum_list us \<le> c - s
    \<and> 1 \<le> length lines \<and> length lines \<le> 24000
    \<and> (\<forall>l \<in> set lines. \<exists>b. sl_netBookValue l = fromUnits b \<and> s \<le> b \<and> b \<le> c)
    \<and> (or_else (fs_endOfLife i) Fully_depreciate = Fully_depreciate
         \<longrightarrow> sum_list us = c - s \<and> sl_netBookValue (last lines) = fromUnits s)"
proof -
  obtain us where us: "lines = lines_of c 0 0 us" "\<forall>u \<in> set us. 0 \<le> u" "sum_list us \<le> c - s" "1 \<le> length us" "length us \<le> 24000"
    "or_else (fs_endOfLife i) Fully_depreciate = Fully_depreciate \<longrightarrow> sum_list us = c - s"
    using schedule_closes [OF assms] by blast
  have "us \<noteq> []" using us(4) by auto
  have "\<exists>b. sl_netBookValue l = fromUnits b \<and> s \<le> b \<and> b \<le> c" if "l \<in> set lines" for l
    using lines_of_book_values [OF us(2) that [unfolded us(1)]] us(3) by auto
  then show ?thesis using us lines_of_last [OF \<open>us \<noteq> []\<close>, of c 0 0] by (intro exI [of _ us]) auto
qed

definition van_schedule :: formula_schedule_input where
  "van_schedule = \<lparr>fs_cost = ''1000'', fs_salvage = ''100'', fs_lifePeriods = Number_value 3, fs_formula = ''(OC-RV)/AL'', fs_endOfLife = None,
     fs_usage = None, fs_lifetimeUsage = None, fs_rateTable = None, fs_firstPeriodFraction = Some ''0.5'', fs_firstFractionPeriods = None\<rparr>"

lemma van_facts:
  "toUnits (fs_cost van_schedule) = Inr 10000000" "toUnits (fs_salvage van_schedule) = Inr 1000000"
  "depreciationPeriodCount (fs_lifePeriods van_schedule) = Inr 3"
  "depreciationPeriodCount (or_else (fs_firstFractionPeriods van_schedule) (Number_value 1)) = Inr 1"
  "lifetime_usage_units van_schedule = Inr 0"
  "exactUnits (or_else (fs_firstPeriodFraction van_schedule) ''1'') = Inr 500000000000"
  "fs_formula van_schedule = ''(OC-RV)/AL''" "fs_endOfLife van_schedule = None"
  by code_simp+

lemma van_returns: "\<exists>lines. computeScheduleByFormula van_schedule = Inr lines"
  by (rule builtin_schedule_total [OF _ van_facts(3,4,1,2,5,6)]) (simp_all add: van_facts)

theorem formula_schedule_closes_witness:
  "\<exists>lines us. computeScheduleByFormula van_schedule = Inr lines \<and> lines = lines_of 10000000 0 0 us
    \<and> sum_list us = 9000000 \<and> sl_netBookValue (last lines) = fromUnits 1000000"
proof -
  obtain lines where l: "computeScheduleByFormula van_schedule = Inr lines" using van_returns by blast
  from formula_schedule_closes [OF l van_facts(1,2)] show ?thesis using l by (auto simp: van_facts)
qed

text \<open>
  The built-in formulas other than units of production always give a schedule: for every life and convention window within the bound, every readable
  cost and salvage value and every first-period fraction between zero and one, no division by zero or other refusal stops the loop (with a fraction of
  zero, provided the balance is written off at the end).
\<close>

theorem builtin_schedules_return:
  assumes "map_of BUILTIN_FORMULAS method = Some (fs_formula i)" "method \<noteq> ''units_of_production''"
    "depreciationPeriodCount (fs_lifePeriods i) = Inr life"
    "depreciationPeriodCount (or_else (fs_firstFractionPeriods i) (Number_value 1)) = Inr fp"
    "toUnits (fs_cost i) = Inr c" "toUnits (fs_salvage i) = Inr s" "lifetime_usage_units i = Inr u"
    "exactUnits (or_else (fs_firstPeriodFraction i) ''1'') = Inr f" "0 \<le> f" "f \<le> 10 ^ 12"
    "0 < f \<or> or_else (fs_endOfLife i) Fully_depreciate = Fully_depreciate"
  shows "\<exists>lines. computeScheduleByFormula i = Inr lines"
proof -
  have "fs_formula i \<in> {''(OC-RV)/AL'', ''(NB-RV)/RL'', ''(NB-RV)*(1.5/AL)~(NB-RV)/RL'', ''(NB-RV)*(2/AL)~(NB-RV)/RL'',
      ''(NB-RV)*(2.5/AL)~(NB-RV)/RL'', ''(OC-RV)*(AL-CP+1)/(AL*(AL+1)/2)'', ''0''}"
    using assms(1,2) by (auto simp: BUILTIN_FORMULAS_def split: if_splits)
  then show ?thesis using assms(3-9,11) builtin_schedule_total [of i life fp c s u f] assms(10) by simp
qed

theorem builtin_schedules_return_witness: "\<exists>lines. computeScheduleByFormula van_schedule = Inr lines"
  by (rule builtin_schedules_return [OF _ _ van_facts(3,4,1,2,5,6), of "''straight_line''"])
    (simp_all add: BUILTIN_FORMULAS_def van_facts)

end
