(* ===== verification/Depreciation.thy ===== *)
theory Depreciation
  imports Formula_Schedule Civil_Date
begin

text \<open>
  The monthly depreciation plan of an asset: the conventions of \<open>engine/src/assets/depreciation-conventions.ts\<close> and the schedule mathematics of
  \<open>engine/src/assets/depreciation-schedule-math.ts\<close> (\<open>resolveAssetAccounts\<close>, \<open>computeUnitsOfProductionCharge\<close>, \<open>computeSchedule\<close>,
  \<open>formulaForMethod\<close>), which drives the formula engine with the formula of a method.  A convention is its name, as the code looks it up.
\<close>

section \<open>Conventions\<close>

abbreviation (input) MONTHS_PER_YEAR :: int where "MONTHS_PER_YEAR \<equiv> 12"

record convention_shape =
  cs_reducedMonths :: int
  cs_reducedFraction :: string
  cs_dateDependent :: bool

definition CONVENTION_SHAPES :: "(string \<times> convention_shape) list" where
  "CONVENTION_SHAPES =
    [(''full_month'', \<lparr>cs_reducedMonths = 0, cs_reducedFraction = ''1'', cs_dateDependent = False\<rparr>),
     (''mid_month'', \<lparr>cs_reducedMonths = 1, cs_reducedFraction = ''0.5'', cs_dateDependent = True\<rparr>),
     (''mid_quarter'', \<lparr>cs_reducedMonths = 3, cs_reducedFraction = ''0.5'', cs_dateDependent = True\<rparr>),
     (''half_year'', \<lparr>cs_reducedMonths = MONTHS_PER_YEAR, cs_reducedFraction = ''0.5'', cs_dateDependent = False\<rparr>)]"

definition bookConventionWindow :: "string option \<Rightarrow> string \<times> int" where
  "bookConventionWindow convention =
     (case (case convention of None \<Rightarrow> None | Some c \<Rightarrow> map_of CONVENTION_SHAPES c) of
        None \<Rightarrow> (''1'', 1)
      | Some shape \<Rightarrow> if cs_reducedMonths shape = 0 then (''1'', 1) else (cs_reducedFraction shape, cs_reducedMonths shape))"

definition shape_of :: "string \<Rightarrow> convention_shape result" where
  "shape_of convention = (case map_of CONVENTION_SHAPES convention of
     None \<Rightarrow> Inl (Error ''Cannot read properties of undefined'') | Some shape \<Rightarrow> Inr shape)"

definition firstYearFraction :: "string \<Rightarrow> (int \<times> int) option result" where
  "firstYearFraction convention = bindE (shape_of convention) (\<lambda>shape.
     if cs_dateDependent shape then Inr None
     else let withheldHalves = (if cs_reducedFraction shape = ''0.5'' then cs_reducedMonths shape else 0)
          in Inr (Some (MONTHS_PER_YEAR * 2 - withheldHalves, MONTHS_PER_YEAR * 2)))"

datatype tax_convention = Tax_half_year | Tax_mid_quarter | Tax_mid_month

datatype service_event = Placed | Disposed

text \<open>\<open>Math.ceil(month / 3)\<close> is \<open>- ((- month) div 3)\<close>.\<close>

definition taxConventionHalfMonths :: "tax_convention \<Rightarrow> int \<Rightarrow> service_event \<Rightarrow> int" where
  "taxConventionHalfMonths convention month kind =
     (if convention = Tax_half_year then 12
      else if convention = Tax_mid_month then (if kind = Placed then 25 - month * 2 else month * 2 - 1)
      else let quarter = - ((- month) div 3) in (if kind = Placed then 27 - quarter * 6 else quarter * 6 - 3))"

section \<open>Accounts\<close>

record asset_accounts_override =
  ao_asset :: "string option"
  ao_accumulated :: "string option"
  ao_expense :: "string option"

record asset_accounts =
  aa_assetAccountId :: string
  aa_accumulatedDepreciationAccountId :: string
  aa_depreciationExpenseAccountId :: string

text \<open>\<open>a || b\<close>: the category's account unless the asset names a non-empty one.\<close>

definition or_category :: "string option \<Rightarrow> string \<Rightarrow> string" where
  "or_category a b = (case a of None \<Rightarrow> b | Some v \<Rightarrow> or_text v b)"

definition resolveAssetAccounts :: "asset_accounts_override \<Rightarrow> asset_accounts \<Rightarrow> asset_accounts" where
  "resolveAssetAccounts asset category =
     \<lparr>aa_assetAccountId = or_category (ao_asset asset) (aa_assetAccountId category),
      aa_accumulatedDepreciationAccountId = or_category (ao_accumulated asset) (aa_accumulatedDepreciationAccountId category),
      aa_depreciationExpenseAccountId = or_category (ao_expense asset) (aa_depreciationExpenseAccountId category)\<rparr>"

section \<open>Units of production\<close>

record production_input =
  pr_cost :: string
  pr_salvage :: string
  pr_lifetimeUnits :: string
  pr_periodUnits :: string
  pr_unitsAlreadyRecorded :: "string option"
  pr_depreciationAlreadyPlanned :: string

definition production_charge :: "int \<Rightarrow> int \<Rightarrow> int \<Rightarrow> int \<Rightarrow> int \<Rightarrow> string result" where
  "production_charge basis lifetime period priorUnits already =
     (if basis < 0 then Inl (DepreciationRefusalError ''salvage value cannot exceed acquisition cost'')
      else if lifetime \<le> 0 then Inl (DepreciationRefusalError ''expected lifetime production units must be greater than zero'')
      else if period = 0 then Inl (DepreciationRefusalError ''period production units must be non-zero'')
      else if priorUnits < 0 \<or> priorUnits > lifetime \<or> priorUnits + period < 0 \<or> priorUnits + period > lifetime
      then Inl (DepreciationRefusalError ''recorded production must remain between zero and expected lifetime units'')
      else if already < 0 \<or> already > basis then Inl (DepreciationRefusalError ''existing depreciation exceeds the depreciable basis'')
      else let remaining = basis - already in
        if priorUnits + period = lifetime then Inr (fromUnits remaining)
        else bindE (bindE (mulRatio (fromUnits basis) (if period < 0 then - period else period) lifetime) toUnits) (\<lambda>magnitude.
          let proportional = (if period < 0 then - magnitude else magnitude) in
          if proportional > remaining then Inr (fromUnits remaining)
          else if proportional < - already then Inr (fromUnits (- already))
          else Inr (fromUnits proportional)))"

definition computeUnitsOfProductionCharge :: "production_input \<Rightarrow> string result" where
  "computeUnitsOfProductionCharge i =
     bindE (toUnits (pr_cost i)) (\<lambda>cost. bindE (toUnits (pr_salvage i)) (\<lambda>salvage.
     bindE (toUnits (pr_lifetimeUnits i)) (\<lambda>lifetime. bindE (toUnits (pr_periodUnits i)) (\<lambda>period.
     bindE (toUnits (or_else (pr_unitsAlreadyRecorded i) ''0'')) (\<lambda>priorUnits.
     bindE (toUnits (pr_depreciationAlreadyPlanned i)) (\<lambda>already.
       production_charge (cost - salvage) lifetime period priorUnits already))))))"

section \<open>The monthly plan\<close>

datatype depreciation_method = Straight_line | Declining_balance | Double_declining | Units_of_production | Manual

record schedule_input =
  si_cost :: string
  si_salvage :: string
  si_inServiceOn :: string
  si_lifeMonths :: period_value
  si_method :: depreciation_method
  si_ratePercent :: "string option"
  si_convention :: "string option"

record schedule_line_plan =
  lp_sequence :: int
  lp_periodMonth :: string
  lp_planned :: string
  lp_accumulated :: string
  lp_netBookValue :: string

definition monthStart :: "string \<Rightarrow> string" where
  "monthStart date = take 7 date @ ''-01''"

definition conventionFraction :: "string option \<Rightarrow> string \<times> int" where
  "conventionFraction convention = bookConventionWindow convention"

definition builtin_formula :: "string \<Rightarrow> string" where
  "builtin_formula name = the (map_of BUILTIN_FORMULAS name)"

definition formulaForMethod :: "depreciation_method \<Rightarrow> string option \<Rightarrow> int \<Rightarrow> (string \<times> string list option) result" where
  "formulaForMethod method ratePercent lifeMonths = (case method of
     Double_declining \<Rightarrow> Inr (builtin_formula ''double_declining'', None)
   | Declining_balance \<Rightarrow>
       bindE (case ratePercent of None \<Rightarrow> Inr False | Some r \<Rightarrow> bindE (cmp_money r ''0'') (\<lambda>c. Inr (c > 0))) (\<lambda>given.
       bindE (if given then exactRatio (the ratePercent) ''1200'' else exactRatio ''1'' (bigint_text lifeMonths)) (\<lambda>monthlyRate.
         Inr (''(NB-RV)*R1~(NB-RV)/RL'', Some [monthlyRate])))
   | Straight_line \<Rightarrow> Inr (builtin_formula ''straight_line'', None)
   | Manual \<Rightarrow> Inl (DepreciationRefusalError ''manual depreciation requires a recorded period amount and evidence'')
   | Units_of_production \<Rightarrow>
       Inl (DepreciationRefusalError ''units-of-production depreciation requires recorded period usage and lifetime units''))"

definition formula_input :: "schedule_input \<Rightarrow> int \<Rightarrow> string \<times> string list option \<Rightarrow> formula_schedule_input" where
  "formula_input i life m = (let (firstPeriodFraction, firstFractionPeriods) = conventionFraction (si_convention i) in
     \<lparr>fs_cost = si_cost i, fs_salvage = si_salvage i, fs_lifePeriods = Number_value (of_int life), fs_formula = fst m, fs_endOfLife = None,
      fs_usage = None, fs_lifetimeUsage = None, fs_rateTable = snd m, fs_firstPeriodFraction = Some firstPeriodFraction,
      fs_firstFractionPeriods = Some (Number_value (of_int firstFractionPeriods))\<rparr>)"

definition plan_line :: "string \<Rightarrow> formula_schedule_line \<Rightarrow> schedule_line_plan result" where
  "plan_line start r = bindE (addMonthsStart start (sl_sequence r)) (\<lambda>month.
     Inr \<lparr>lp_sequence = sl_sequence r, lp_periodMonth = month, lp_planned = sl_planned r, lp_accumulated = sl_accumulated r,
       lp_netBookValue = sl_netBookValue r\<rparr>)"

definition computeSchedule :: "schedule_input \<Rightarrow> schedule_line_plan list result" where
  "computeSchedule i = bindE (depreciationPeriodCount (si_lifeMonths i)) (\<lambda>life.
     bindE (formulaForMethod (si_method i) (si_ratePercent i) life) (\<lambda>m.
     bindE (computeScheduleByFormula (formula_input i life m)) (\<lambda>rows.
       traverse (plan_line (monthStart (si_inServiceOn i))) rows)))"

section \<open>Units of production\<close>

text \<open>The charge of one reading, on units: proportional to the production, kept so that the accumulated charge stays within the basis.\<close>

definition production_units :: "int \<Rightarrow> int \<Rightarrow> int \<Rightarrow> int \<Rightarrow> int \<Rightarrow> int" where
  "production_units basis lifetime period prior already =
     (if prior + period = lifetime then basis - already
      else max (- already) (min (basis - already) (round_quot (basis * period) lifetime)))"

definition production_ok :: "int \<Rightarrow> int \<Rightarrow> int \<Rightarrow> int \<Rightarrow> int \<Rightarrow> bool" where
  "production_ok basis lifetime period prior already \<longleftrightarrow> 0 < lifetime \<and> period \<noteq> 0 \<and> 0 \<le> prior \<and> prior \<le> lifetime
     \<and> 0 \<le> prior + period \<and> prior + period \<le> lifetime \<and> 0 \<le> already \<and> already \<le> basis"

lemma production_charge_iff:
  "production_charge basis lifetime period prior already = Inr t
    \<longleftrightarrow> production_ok basis lifetime period prior already \<and> t = fromUnits (production_units basis lifetime period prior already)"
proof (cases "production_ok basis lifetime period prior already")
  case True
  then have l: "0 < lifetime" and p: "period \<noteq> 0" and b: "0 \<le> already" "already \<le> basis" by (simp_all add: production_ok_def)
  have "mulRatio (fromUnits basis) (if period < 0 then - period else period) lifetime = Inr (fromUnits (round_quot (basis * \<bar>period\<bar>) lifetime))"
    using mulRatio_units [OF toUnits_fromUnits _ l, of "\<bar>period\<bar>" basis] by (simp add: abs_if)
  moreover have "(if period < 0 then - round_quot (basis * \<bar>period\<bar>) lifetime else round_quot (basis * \<bar>period\<bar>) lifetime) = round_quot (basis * period) lifetime"
    using round_quot_minus [of "basis * period" lifetime] by (simp add: abs_if)
  ultimately show ?thesis using True b
    by (auto simp: production_charge_def production_ok_def production_units_def Let_def max_def min_def split: if_splits)
next
  case False
  then show ?thesis by (auto simp: production_charge_def production_ok_def Let_def split: if_splits)
qed

lemma production_units_bounds:
  assumes "production_ok basis lifetime period prior already"
  shows "0 \<le> already + production_units basis lifetime period prior already"
    "already + production_units basis lifetime period prior already \<le> basis"
  using assms by (auto simp: production_ok_def production_units_def)

text \<open>A sequence of readings, each charged on top of what was recorded before it.\<close>

definition production_step :: "int \<Rightarrow> int \<Rightarrow> int \<times> int \<Rightarrow> int \<Rightarrow> (int \<times> int) result" where
  "production_step basis lifetime s period =
     bindE (bindE (production_charge basis lifetime period (fst s) (snd s)) toUnits) (\<lambda>u. Inr (fst s + period, snd s + u))"

definition production_run :: "int \<Rightarrow> int \<Rightarrow> int list \<Rightarrow> (int \<times> int) result" where
  "production_run basis lifetime periods = foldE (production_step basis lifetime) (0, 0) periods"

lemma production_step_Inr:
  assumes "production_step basis lifetime (prior, already) period = Inr s"
  shows "production_ok basis lifetime period prior already"
    "s = (prior + period, already + production_units basis lifetime period prior already)"
  using assms by (auto simp: production_step_def production_charge_iff elim!: bindE_InrE)

lemma production_run_snoc:
  assumes "production_run basis lifetime (ps @ [p]) = Inr (units, charged)"
  shows "units = sum_list (ps @ [p]) \<and> 0 \<le> charged \<and> charged \<le> basis \<and> (units = lifetime \<longrightarrow> charged = basis)"
proof -
  obtain prior already where s: "production_run basis lifetime ps = Inr (prior, already)"
    "production_step basis lifetime (prior, already) p = Inr (units, charged)"
    using assms by (auto simp: production_run_def foldE_append elim!: bindE_InrE)
  have "prior = sum_list ps" using s(1)
  proof (induction ps arbitrary: prior already rule: rev_induct)
    case (snoc q qs)
    then obtain prior' already' where "production_run basis lifetime qs = Inr (prior', already')"
      "production_step basis lifetime (prior', already') q = Inr (prior, already)"
      by (auto simp: production_run_def foldE_append elim!: bindE_InrE)
    then show ?case using snoc.IH production_step_Inr(2) by fastforce
  qed (simp add: production_run_def)
  then show ?thesis
    using production_step_Inr [OF s(2)] production_units_bounds [OF production_step_Inr(1) [OF s(2)]]
    by (auto simp: production_units_def)
qed

lemma production_run_returns:
  assumes "0 < lifetime" "0 \<le> basis" "\<forall>k \<le> length ps. 0 \<le> sum_list (take k ps) \<and> sum_list (take k ps) \<le> lifetime" "0 \<notin> set ps"
  shows "\<exists>charged. production_run basis lifetime ps = Inr (sum_list ps, charged) \<and> 0 \<le> charged \<and> charged \<le> basis"
  using assms(3,4)
proof (induction ps rule: rev_induct)
  case Nil
  then show ?case using assms(2) by (simp add: production_run_def)
next
  case (snoc p ps)
  have "0 \<le> sum_list (take k ps) \<and> sum_list (take k ps) \<le> lifetime" if "k \<le> length ps" for k
    using snoc.prems(1) [rule_format, of k] that by simp
  then obtain already where r: "production_run basis lifetime ps = Inr (sum_list ps, already)" "0 \<le> already" "already \<le> basis"
    using snoc.IH snoc.prems(2) by auto
  have "production_ok basis lifetime p (sum_list ps) already"
    using assms(1) r(2,3) snoc.prems(1) [rule_format, of "length ps"] snoc.prems(1) [rule_format, of "Suc (length ps)"] snoc.prems(2)
    by (auto simp: production_ok_def)
  note ok = this
  have "production_charge basis lifetime p (sum_list ps) already = Inr (fromUnits (production_units basis lifetime p (sum_list ps) already))"
    using ok by (simp add: production_charge_iff)
  then show ?case using r(1) production_units_bounds [OF ok] by (simp add: production_run_def foldE_append production_step_def)
qed

section \<open>Conventions\<close>

lemma window_cases: "bookConventionWindow convention \<in> {(''1'', 1), (''0.5'', 1), (''0.5'', 3), (''0.5'', 12)}"
  by (auto simp: bookConventionWindow_def CONVENTION_SHAPES_def split: option.split)

lemma window_fraction:
  assumes "bookConventionWindow convention = (f, n)"
  shows "\<exists>u. exactUnits f = Inr u \<and> 0 < u \<and> u \<le> EXACT_SCALE" "1 \<le> n" "n \<le> 12"
proof -
  have v: "exactUnits ''1'' = Inr 1000000000000" "exactUnits ''0.5'' = Inr 500000000000" by code_simp+
  show "\<exists>u. exactUnits f = Inr u \<and> 0 < u \<and> u \<le> EXACT_SCALE" "1 \<le> n" "n \<le> 12"
    using window_cases [of convention] assms v by auto
qed

text \<open>
  Half-months of a tax year: within the year, and what an asset placed in a month misses is what one disposed of in that month uses; for the
  half-year convention this is the first-year share the book engine states.
\<close>

lemma tax_half_months:
  assumes "1 \<le> month" "month \<le> 12"
  shows "1 \<le> taxConventionHalfMonths c month k" "taxConventionHalfMonths c month k \<le> 23"
    "taxConventionHalfMonths c month Placed + taxConventionHalfMonths c month Disposed = 24"
    "firstYearFraction ''half_year'' = Inr (Some (taxConventionHalfMonths Tax_half_year month k, 24))"
proof -
  have q: "1 \<le> - ((- month) div 3)" "- ((- month) div 3) \<le> 4" using assms by linarith+
  show "1 \<le> taxConventionHalfMonths c month k" "taxConventionHalfMonths c month k \<le> 23"
    "taxConventionHalfMonths c month Placed + taxConventionHalfMonths c month Disposed = 24"
    using assms q by (auto simp: taxConventionHalfMonths_def Let_def)
  show "firstYearFraction ''half_year'' = Inr (Some (taxConventionHalfMonths Tax_half_year month k, 24))"
    by (simp add: firstYearFraction_def shape_of_def CONVENTION_SHAPES_def taxConventionHalfMonths_def)
qed

section \<open>The monthly plan\<close>

lemma lines_of_nth_sequence: "j < length us \<Longrightarrow> sl_sequence (lines_of c acc k us ! j) = k + int j"
proof (induction us arbitrary: acc k j)
  case (Cons u us)
  then show ?case by (cases j) auto
qed simp

lemma monthStart_day:
  assumes "supported n"
  shows "monthStart (iso_of_day n) = iso_of_day (month_day (month_of_day n) 1)"
  using startOfMonth_day(2) [OF assms] unfolding startOfMonth_def monthStart_def by (auto elim: bindE_InrE)

lemma formula_input_simps [simp]:
  "fs_cost (formula_input i life m) = si_cost i" "fs_salvage (formula_input i life m) = si_salvage i"
  "fs_lifePeriods (formula_input i life m) = Number_value (of_int life)" "fs_formula (formula_input i life m) = fst m"
  "fs_endOfLife (formula_input i life m) = None" "fs_rateTable (formula_input i life m) = snd m"
  "fs_firstPeriodFraction (formula_input i life m) = Some (fst (bookConventionWindow (si_convention i)))"
  "fs_firstFractionPeriods (formula_input i life m) = Some (Number_value (of_int (snd (bookConventionWindow (si_convention i)))))"
  "lifetime_usage_units (formula_input i life m) = Inr 0"
  by (simp_all add: formula_input_def conventionFraction_def lifetime_usage_units_def split: prod.split)

lemma window_count:
  "depreciationPeriodCount (Number_value (of_int (snd (bookConventionWindow convention)))) = Inr (snd (bookConventionWindow convention))"
proof -
  obtain f n where w: "bookConventionWindow convention = (f, n)" by (cases "bookConventionWindow convention")
  show ?thesis using window_fraction(2,3) [OF w] depreciationPeriodCount_of_int [of n] by (simp add: w)
qed

lemma month_row:
  assumes "supported n" "0 \<le> q" "(month_of_day n + q) div 12 \<le> 9999" "q \<le> 24000"
  shows "addMonthsStart (monthStart (iso_of_day n)) q = Inr (iso_of_day (month_day (month_of_day n + q) 1))"
proof -
  note y = month_years [OF assms(1)]
  have "1 \<le> (month_of_day n + q) div 12" using y assms(2) zdiv_mono1 [of "month_of_day n" "month_of_day n + q" 12] by linarith
  then show ?thesis unfolding monthStart_day [OF assms(1)]
    using addMonthsStart_month [of "month_of_day n" q] y assms(2-4) by simp
qed

lemma month_row_Inr:
  assumes "supported n" "addMonthsStart (monthStart (iso_of_day n)) q = Inr t" "0 \<le> q" "q \<le> 24000"
  shows "t = iso_of_day (month_day (month_of_day n + q) 1)"
proof -
  note y = month_years [OF assms(1)]
  show ?thesis using assms(2-4) addMonthsStart_month [of "month_of_day n" q] y unfolding monthStart_day [OF assms(1)]
    by (auto split: if_splits)
qed

text \<open>A returned plan: the schedule of the formula with a calendar month on every line.\<close>

lemma computeSchedule_rows:
  assumes "computeSchedule i = Inr plan"
  obtains life m rows where "depreciationPeriodCount (si_lifeMonths i) = Inr life" "formulaForMethod (si_method i) (si_ratePercent i) life = Inr m"
    "computeScheduleByFormula (formula_input i life m) = Inr rows" "traverse (plan_line (monthStart (si_inServiceOn i))) rows = Inr plan"
  using assms unfolding computeSchedule_def by (elim bindE_InrE) (rule that)

lemma plan_line_Inr:
  assumes "plan_line start r = Inr l"
  shows "addMonthsStart start (sl_sequence r) = Inr (lp_periodMonth l)" "lp_sequence l = sl_sequence r" "lp_planned l = sl_planned r"
    "lp_accumulated l = sl_accumulated r" "lp_netBookValue l = sl_netBookValue r"
  using assms by (auto simp: plan_line_def elim!: bindE_InrE)

lemma computeSchedule_exact:
  assumes "computeSchedule i = Inr plan" "toUnits (si_cost i) = Inr c" "toUnits (si_salvage i) = Inr s" "s < c"
    "si_inServiceOn i = iso_of_day n" "supported n"
  shows "\<exists>us. map lp_planned plan = map fromUnits us \<and> (\<forall>u \<in> set us. 0 \<le> u) \<and> sum_list us = c - s
    \<and> (\<forall>l \<in> set plan. \<exists>b. lp_netBookValue l = fromUnits b \<and> s \<le> b \<and> b \<le> c) \<and> lp_netBookValue (last plan) = fromUnits s
    \<and> (\<forall>j < length plan. lp_sequence (plan ! j) = int j \<and> lp_periodMonth (plan ! j) = iso_of_day (month_day (month_of_day n + int j) 1))"
proof -
  obtain life m rows where h: "computeScheduleByFormula (formula_input i life m) = Inr rows"
    "traverse (plan_line (monthStart (si_inServiceOn i))) rows = Inr plan"
    using assms(1) by (rule computeSchedule_rows)
  obtain us where us: "rows = lines_of c 0 0 us" "\<forall>u \<in> set us. 0 \<le> u" "1 \<le> length us" "length us \<le> 24000" "sum_list us = c - s"
    using schedule_closes [OF h(1), of c s] assms(2-4) by auto
  have all: "list_all2 (\<lambda>r l. plan_line (monthStart (iso_of_day n)) r = Inr l) rows plan" using h(2) assms(5) by (simp add: traverse_Inr_iff)
  then have len: "length plan = length us" using us(1) list_all2_lengthD by fastforce
  have row: "plan_line (monthStart (iso_of_day n)) (rows ! j) = Inr (plan ! j)" if "j < length us" for j
    using all that len us(1) by (simp add: list_all2_conv_all_nth)
  have planned: "map lp_planned plan = map sl_planned rows"
    by (rule nth_equalityI) (use len us(1) plan_line_Inr(3) [OF row] in auto)
  have books: "map lp_netBookValue plan = map sl_netBookValue rows"
    by (rule nth_equalityI) (use len us(1) plan_line_Inr(5) [OF row] in auto)
  have "length rows = length us" by (simp add: us(1))
  then have "us \<noteq> []" "rows \<noteq> []" "plan \<noteq> []" using us(3) len by auto
  have "\<exists>b. lp_netBookValue l = fromUnits b \<and> s \<le> b \<and> b \<le> c" if "l \<in> set plan" for l
  proof -
    have "lp_netBookValue l \<in> set (map sl_netBookValue rows)" using that books by (metis image_eqI set_map)
    then obtain r where "r \<in> set rows" "lp_netBookValue l = sl_netBookValue r" by auto
    then show ?thesis using lines_of_book_values [OF us(2)] us(1,5) by fastforce
  qed
  moreover have "lp_netBookValue (last plan) = fromUnits s"
    using arg_cong [OF books, of last] lines_of_last [OF \<open>us \<noteq> []\<close>, of c 0 0] us(1,5) \<open>plan \<noteq> []\<close> \<open>rows \<noteq> []\<close> by (simp add: last_map)
  moreover have "lp_sequence (plan ! j) = int j \<and> lp_periodMonth (plan ! j) = iso_of_day (month_day (month_of_day n + int j) 1)"
    if "j < length plan" for j
  proof -
    have j: "j < length us" using that len by simp
    have "sl_sequence (rows ! j) = int j" using lines_of_nth_sequence [OF j, of c 0 0] us(1) by simp
    then show ?thesis using plan_line_Inr(1,2) [OF row [OF j]] month_row_Inr [OF assms(6), of "int j"] us(4) j by simp
  qed
  ultimately show ?thesis using us planned lines_of_planned [of c 0 0 us] by (intro exI [of _ us]) auto
qed

section \<open>When a plan is returned\<close>

lemma rate_units:
  assumes "exactRatio a b = Inr r"
  shows "\<exists>u. exactUnits r = Inr u"
  using assms by (auto simp: exactRatio_def elim!: bindE_InrE split: if_splits)

lemma exactUnits_of_money: "toUnits r = Inr u \<Longrightarrow> exactUnits r = Inr (u * MONEY_TO_EXACT)"
  by (rule exactUnits_of_value [of _ "of_int u / 10000"]) (simp_all add: toUnits_value)

lemma exactRatio_total:
  assumes "exactUnits a = Inr x" "exactUnits b = Inr y" "y \<noteq> 0"
  shows "\<exists>r. exactRatio a b = Inr r"
  using assms by (simp add: exactRatio_def divExact_eq)

lemma rated_evaluates:
  assumes "fp_rateTable pl = Some [r]" "exactUnits r = Inr v" "0 < remainingLife pl k"
  shows "\<exists>x. eval_expr (period_context pl k acc prev) (crossover_tree (Rate 0)) = Inr x"
  by (rule crossover_evaluates [OF assms(3)]) (use assms(1,2) in \<open>simp add: rate_text_def period_context_def\<close>)

text \<open>The formulas a method maps to, and that each of them evaluates.\<close>

lemma formulaForMethod_cases:
  assumes "formulaForMethod method rate life = Inr m"
  obtains (builtin) "fst m \<in> {''(OC-RV)/AL'', ''(NB-RV)*(2/AL)~(NB-RV)/RL''}" "snd m = None"
    | (rated) r u where "m = (''(NB-RV)*R1~(NB-RV)/RL'', Some [r])" "exactUnits r = Inr u"
proof (cases "method")
  case Declining_balance
  then obtain r where "m = (''(NB-RV)*R1~(NB-RV)/RL'', Some [r])" "\<exists>u. exactUnits r = Inr u"
    using assms by (auto simp: formulaForMethod_def elim!: bindE_InrE split: if_splits dest!: rate_units)
  then show ?thesis using rated by blast
qed (use assms builtin in \<open>auto simp: formulaForMethod_def builtin_formula_def BUILTIN_FORMULAS_def\<close>)

lemma formulaForMethod_total:
  assumes "method \<in> {Straight_line, Declining_balance, Double_declining}" "1 \<le> life"
    "\<And>r. rate = Some r \<Longrightarrow> \<exists>u. toUnits r = Inr u"
  shows "\<exists>m. formulaForMethod method rate life = Inr m"
proof (cases "method = Declining_balance")
  case True
  have one: "\<exists>r. exactRatio ''1'' (bigint_text life) = Inr r"
    by (rule exactRatio_total [OF exactUnits_of_money exactUnits_bigint]) (use assms(2) in simp_all)
  show ?thesis
  proof (cases rate)
    case None
    then show ?thesis using True one by (auto simp: formulaForMethod_def)
  next
    case (Some r)
    then obtain u where u: "toUnits r = Inr u" using assms(3) by blast
    have "exactUnits ''1200'' = Inr 1200000000000000" by code_simp
    then obtain q where "exactRatio r ''1200'' = Inr q" using exactRatio_total [OF exactUnits_of_money [OF u]] by fastforce
    then show ?thesis using True Some one cmp_money_units [OF u, of "''0''" 0] by (auto simp: formulaForMethod_def)
  qed
qed (use assms(1) in \<open>auto simp: formulaForMethod_def\<close>)

lemma formula_rows_return:
  assumes "formulaForMethod method rate life = Inr m" "1 \<le> life" "life \<le> MAX_DEPRECIATION_PERIODS"
    "toUnits (si_cost i) = Inr c" "toUnits (si_salvage i) = Inr s"
  shows "\<exists>rows. computeScheduleByFormula (formula_input i life m) = Inr rows"
proof -
  obtain f n where w: "bookConventionWindow (si_convention i) = (f, n)" by (cases "bookConventionWindow (si_convention i)")
  obtain u where f: "exactUnits f = Inr u" "0 < u" "u \<le> EXACT_SCALE" using window_fraction(1) [OF w] by blast
  let ?i = "formula_input i life m"
  obtain x where x: "schedule_extension (or_else (fs_endOfLife ?i) Fully_depreciate) n u = Inr x" by (simp add: schedule_extension_eq)
  have pos: "0 < remainingLife (plan_of ?i life n c s 0 u x) k" if "1 \<le> k" "k \<le> life" for k
    by (rule remainingLife_pos [OF x]) (use that f window_fraction(2) [OF w] in auto)
  obtain e where e: "compileExactFormula (fst m) = Inr e"
    and ev: "\<And>k acc prev. 1 \<le> k \<Longrightarrow> k \<le> life \<Longrightarrow> \<exists>v. eval_expr (period_context (plan_of ?i life n c s 0 u x) k acc prev) e = Inr v"
    using assms(1)
  proof (cases rule: formulaForMethod_cases)
    case builtin
    obtain e where e: "compileExactFormula (fst m) = Inr e" using builtin(1) builtin_trees by auto
    have "\<exists>v. eval_expr (period_context (plan_of ?i life n c s 0 u x) k acc prev) e = Inr v" if "1 \<le> k" "k \<le> life" for k acc prev
      by (rule builtin_evaluates [OF _ e]) (use builtin(1) assms(2) pos [OF that] in auto)
    then show thesis using that e by blast
  next
    case (rated r v)
    have "\<exists>v. eval_expr (period_context (plan_of ?i life n c s 0 u x) k acc prev) (crossover_tree (Rate 0)) = Inr v"
      if "1 \<le> k" "k \<le> life" for k acc prev
      by (rule rated_evaluates [OF _ rated(2) pos [OF that]]) (simp add: rated(1))
    then show thesis using that builtin_trees(6) rated(1) by simp
  qed
  show ?thesis
    by (rule formula_plan_returns [where life = life and fp = n and c = c and s = s and u = 0 and f = u and x = x and e = e])
      (use assms(2-5) depreciationPeriodCount_of_int [of life] window_count [of "si_convention i"] w f e x ev in simp_all)
qed

lemma plan_lines_total:
  assumes "supported n" "\<And>r. r \<in> set rows \<Longrightarrow> 0 \<le> sl_sequence r \<and> sl_sequence r < N" "N \<le> 24000" "(month_of_day n + N) div 12 \<le> 9999"
  shows "\<exists>plan. traverse (plan_line (monthStart (iso_of_day n))) rows = Inr plan"
  using assms(2)
proof (induction rows)
  case (Cons r rows)
  have q: "0 \<le> sl_sequence r" "sl_sequence r < N" using Cons.prems by auto
  have "(month_of_day n + sl_sequence r) div 12 \<le> (month_of_day n + N) div 12" using q by (intro zdiv_mono1) simp_all
  then have "addMonthsStart (monthStart (iso_of_day n)) (sl_sequence r) = Inr (iso_of_day (month_day (month_of_day n + sl_sequence r) 1))"
    using q assms(3,4) by (intro month_row [OF assms(1)]) simp_all
  then show ?case using Cons by (auto simp: plan_line_def)
qed simp

lemma lines_of_sequences: "r \<in> set (lines_of c acc k us) \<Longrightarrow> k \<le> sl_sequence r \<and> sl_sequence r < k + int (length us)"
  by (induction us arbitrary: acc k) force+

lemma schedule_length:
  assumes "computeScheduleByFormula (formula_input i life m) = Inr rows" "toUnits (si_cost i) = Inr c" "toUnits (si_salvage i) = Inr s" "s < c"
  shows "int (length rows) \<le> life + 12"
proof -
  let ?i = "formula_input i life m"
  have money: "toUnits (fs_cost ?i) = Inr c" "toUnits (fs_salvage ?i) = Inr s" using assms(2,3) by simp_all
  obtain life' fp e u f x st where h: "depreciationPeriodCount (fs_lifePeriods ?i) = Inr life'"
    "depreciationPeriodCount (or_else (fs_firstFractionPeriods ?i) (Number_value 1)) = Inr fp"
    "compileExactFormula (fs_formula ?i) = Inr e" "0 \<le> f" "f \<le> EXACT_SCALE"
    "schedule_extension (or_else (fs_endOfLife ?i) Fully_depreciate) fp f = Inr x"
    "foldE (schedule_step (plan_of ?i life' fp c s u f x) e) (0, 0, []) [1..life' + x] = Inr st" "rows = snd (snd st)"
    using assms(1) money assms(4) by (rule compute_InrE)
  obtain w n where w: "bookConventionWindow (si_convention i) = (w, n)" by (cases "bookConventionWindow (si_convention i)")
  have fp: "fp = n" using h(2) window_count [of "si_convention i"] w by simp
  have life: "life' = life" "1 \<le> life" using h(1) depreciationPeriodCount_bounds [OF h(1)]
    by (auto simp: depreciationPeriodCount_def split: if_splits)
  have x: "0 \<le> x" "x \<le> 12" using schedule_extension_bounds [OF h(6)] h(4,5) window_fraction(2,3) [OF w] fp by force+
  obtain acc prev where st: "st = (acc, prev, rows)" using h(8) by (cases st) auto
  have "\<exists>us. rows = lines_of c 0 0 us \<and> length us = nat (life + x)"
    using schedule_loop [of "plan_of ?i life' fp c s u f x" e 0 0 "[]" 1 acc prev rows] h(7) assms(4) unfolding st life(1) by auto
  then show ?thesis using x life(2) by auto
qed

lemma empty_schedule:
  assumes "depreciationPeriodCount (fs_lifePeriods i) = Inr life"
    "depreciationPeriodCount (or_else (fs_firstFractionPeriods i) (Number_value 1)) = Inr fp"
    "toUnits (fs_cost i) = Inr c" "toUnits (fs_salvage i) = Inr s" "c \<le> s"
  shows "computeScheduleByFormula i = Inr []"
  using assms by (simp add: computeScheduleByFormula_def)

lemma computeSchedule_total:
  assumes "si_method i \<in> {Straight_line, Declining_balance, Double_declining}"
    "depreciationPeriodCount (si_lifeMonths i) = Inr life"
    "toUnits (si_cost i) = Inr c" "toUnits (si_salvage i) = Inr s" "\<And>r. si_ratePercent i = Some r \<Longrightarrow> \<exists>u. toUnits r = Inr u"
    "si_inServiceOn i = iso_of_day n" "supported n" "(month_of_day n + life + 12) div 12 \<le> 9999"
  shows "\<exists>plan. computeSchedule i = Inr plan"
proof -
  note b = depreciationPeriodCount_bounds [OF assms(2)]
  obtain m where m: "formulaForMethod (si_method i) (si_ratePercent i) life = Inr m"
    using formulaForMethod_total [OF assms(1) _ assms(5)] b by blast
  obtain rows where rows: "computeScheduleByFormula (formula_input i life m) = Inr rows"
    using formula_rows_return [OF m _ _ assms(3,4)] b by blast
  have seq: "\<And>r. r \<in> set rows \<Longrightarrow> 0 \<le> sl_sequence r \<and> sl_sequence r < life + 12"
  proof (cases "s < c")
    case True
    fix r assume "r \<in> set rows"
    moreover obtain us where "rows = lines_of c 0 0 us" using schedule_closes [OF rows, of c s] assms(3,4) True by auto
    ultimately show "0 \<le> sl_sequence r \<and> sl_sequence r < life + 12"
      using lines_of_sequences [of r c 0 0 us] schedule_length [OF rows assms(3,4) True] by auto
  next
    case False
    have "rows = []" using empty_schedule [of "formula_input i life m" life _ c s] rows False b assms(3,4)
        depreciationPeriodCount_of_int [of life] window_count [of "si_convention i"] by simp
    then show "\<And>r. r \<in> set rows \<Longrightarrow> 0 \<le> sl_sequence r \<and> sl_sequence r < life + 12" by simp
  qed
  obtain plan where "traverse (plan_line (monthStart (iso_of_day n))) rows = Inr plan"
    using plan_lines_total [OF assms(7) seq, of rows] b assms(8) by (auto simp: add.assoc)
  then show ?thesis unfolding computeSchedule_def using assms(2,6) m rows by simp
qed

section \<open>Properties\<close>

text \<open>
  C31: The monthly plan of an asset is exact: its charges are non-negative and total cost less salvage to the unit, the book value stays between cost and
  salvage and ends at the salvage value, and line j carries the j-th calendar month from the in-service month, whatever the method, rate and convention.
\<close>

theorem depreciation_plan_exact:
  assumes "computeSchedule i = Inr plan" "toUnits (si_cost i) = Inr c" "toUnits (si_salvage i) = Inr s" "s < c"
    "si_inServiceOn i = iso_of_day n" "supported n"
  shows "\<exists>us. map lp_planned plan = map fromUnits us \<and> (\<forall>u \<in> set us. 0 \<le> u) \<and> sum_list us = c - s
    \<and> (\<forall>l \<in> set plan. \<exists>b. lp_netBookValue l = fromUnits b \<and> s \<le> b \<and> b \<le> c) \<and> lp_netBookValue (last plan) = fromUnits s
    \<and> (\<forall>j < length plan. lp_sequence (plan ! j) = int j \<and> lp_periodMonth (plan ! j) = iso_of_day (month_day (month_of_day n + int j) 1))"
  using assms by (rule computeSchedule_exact)

definition laptop :: schedule_input where
  "laptop = \<lparr>si_cost = ''2400'', si_salvage = ''0'', si_inServiceOn = ''2024-03-15'', si_lifeMonths = Number_value 24, si_method = Declining_balance,
     si_ratePercent = Some ''30'', si_convention = Some ''half_year''\<rparr>"

lemma laptop_facts:
  "depreciationPeriodCount (si_lifeMonths laptop) = Inr 24" "toUnits (si_cost laptop) = Inr 24000000" "toUnits (si_salvage laptop) = Inr 0"
  "si_inServiceOn laptop = iso_of_day 19797" "supported 19797" "toUnits ''30'' = Inr 300000" "(month_of_day 19797 + 24 + 12) div 12 \<le> 9999"
proof -
  show "depreciationPeriodCount (si_lifeMonths laptop) = Inr 24" by code_simp
  show "toUnits (si_cost laptop) = Inr 24000000" by code_simp
  show "toUnits (si_salvage laptop) = Inr 0" by code_simp
  show "si_inServiceOn laptop = iso_of_day 19797" by code_simp
  show "supported 19797" by code_simp
  show "toUnits ''30'' = Inr 300000" by code_simp
  show "(month_of_day 19797 + 24 + 12) div 12 \<le> 9999" by code_simp
qed

lemma laptop_returns: "\<exists>plan. computeSchedule laptop = Inr plan"
  by (rule computeSchedule_total [OF _ laptop_facts(1-3) _ laptop_facts(4,5,7)]) (auto simp: laptop_def laptop_facts)

theorem depreciation_plan_exact_witness:
  "\<exists>plan us. computeSchedule laptop = Inr plan \<and> map lp_planned plan = map fromUnits us \<and> sum_list us = 24000000
    \<and> lp_netBookValue (last plan) = fromUnits 0"
proof -
  obtain plan where p: "computeSchedule laptop = Inr plan" using laptop_returns by blast
  from depreciation_plan_exact [OF p laptop_facts(2,3) _ laptop_facts(4,5)] show ?thesis using p by auto
qed

text \<open>
  C32: The plan is always returned for the straight-line, declining-balance and double-declining methods: any life within the bound, any convention, any
  readable cost, salvage and rate, and an in-service date whose plan stays within the calendar.
\<close>

theorem depreciation_plan_returns:
  assumes "si_method i \<in> {Straight_line, Declining_balance, Double_declining}"
    "depreciationPeriodCount (si_lifeMonths i) = Inr life"
    "toUnits (si_cost i) = Inr c" "toUnits (si_salvage i) = Inr s" "\<And>r. si_ratePercent i = Some r \<Longrightarrow> \<exists>u. toUnits r = Inr u"
    "si_inServiceOn i = iso_of_day n" "supported n" "(month_of_day n + life + 12) div 12 \<le> 9999"
  shows "\<exists>plan. computeSchedule i = Inr plan"
  using assms by (rule computeSchedule_total)

theorem depreciation_plan_returns_witness: "\<exists>plan. computeSchedule laptop = Inr plan"
  by (rule depreciation_plan_returns [OF _ laptop_facts(1-3) _ laptop_facts(4,5,7)]) (auto simp: laptop_def laptop_facts)

text \<open>
  Units-of-production charges over a whole life: readings that never leave the range from zero to the lifetime production are always charged, the
  accumulated charge stays between zero and the basis after every reading, and when the production reaches the lifetime units exactly the whole basis is charged.
\<close>

theorem production_life_charges_basis:
  assumes "0 < lifetime" "0 \<le> basis" "0 \<notin> set ps" "ps \<noteq> []"
    "\<forall>k \<le> length ps. 0 \<le> sum_list (take k ps) \<and> sum_list (take k ps) \<le> lifetime"
  shows "\<exists>charged. production_run basis lifetime ps = Inr (sum_list ps, charged) \<and> 0 \<le> charged \<and> charged \<le> basis
    \<and> (sum_list ps = lifetime \<longrightarrow> charged = basis)"
proof -
  obtain charged where r: "production_run basis lifetime ps = Inr (sum_list ps, charged)" "0 \<le> charged" "charged \<le> basis"
    using production_run_returns [OF assms(1,2,5,3)] by blast
  obtain qs q where ps: "ps = qs @ [q]" using assms(4) by (cases ps rule: rev_cases) auto
  have "sum_list ps = lifetime \<longrightarrow> charged = basis"
    using production_run_snoc [OF r(1) [unfolded ps]] unfolding ps by blast
  then show ?thesis using r by blast
qed

theorem production_life_charges_basis_witness:
  "\<exists>charged. production_run 9000000 1000000 [400000, - 100000, 700000] = Inr (1000000, charged) \<and> charged = 9000000"
proof -
  have "\<forall>k \<le> length [400000, - 100000, 700000 :: int]. 0 \<le> sum_list (take k [400000, - 100000, 700000 :: int])
      \<and> sum_list (take k [400000, - 100000, 700000 :: int]) \<le> 1000000"
    by (auto simp: take_Cons split: nat.split)
  from production_life_charges_basis [OF _ _ _ _ this, of 9000000] show ?thesis by simp
qed

end
