(* ===== verification/Usage_Rating.thy ===== *)
theory Usage_Rating
  imports Brands
begin

text \<open>
  The usage-rating kernel, \<open>engine/src/billing/usage/rating.ts\<close>: usage records are aggregated over a window, the aggregate is priced through rating bands, commitments are
  trued up and prepaid balances drawn.  Quantities have eight decimals, amounts four; every line is rounded once.
\<close>

section \<open>Quantities\<close>

abbreviation (input) QUANTITY_UNITS :: int where "QUANTITY_UNITS \<equiv> 100000000"

definition quantityUnits :: "string \<Rightarrow> int result" where
  "quantityUnits v = bindE (rethrow (Error ''must be a decimal with at most 8 decimal places'') (fixedDecimal v 8)) (\<lambda>fixed.
     let (whole, fraction) = split_dot fixed; negative = starts_minus whole;
         digits = or_text (if negative then tl whole else whole) ''0'';
         units = bigint_of_text digits * QUANTITY_UNITS + bigint_of_text fraction
     in Inr (if negative then - units else units))"

definition formatQuantity :: "int \<Rightarrow> string result" where
  "formatQuantity units = (let negative = units < 0; magnitude = (if negative then - units else units);
       whole = bigint_text (magnitude sdiv QUANTITY_UNITS);
       fraction = strip_trailing_zeros (padStart (bigint_text (magnitude smod QUANTITY_UNITS)) 8 CHR ''0'')
     in parseQuantity ((if negative then ''-'' else []) @ whole @ (if fraction = [] then [] else CHR ''.'' # fraction)))"

definition moneyUnits :: "string \<Rightarrow> int result" where
  "moneyUnits v = rethrow (Error ''must be a money amount with at most 4 decimal places'') (toUnits v)"

definition checkUnitPrice :: "string \<Rightarrow> unit result" where
  "checkUnitPrice v = ensure (canonicalDecimal v 8 \<noteq> None) (Error ''unitPrice accepts at most 8 decimal places'')"

section \<open>Aggregation\<close>

datatype usage_aggregation = Agg_sum | Agg_count | Agg_max | Agg_last | Agg_unique_count

record usage_record =
  ur_id :: string
  ur_occurredOn :: string
  ur_quantity :: string
  ur_distinctKey :: "string option"
  ur_reversesId :: "string option"

definition liveRecords :: "usage_record list \<Rightarrow> usage_record list" where
  "liveRecords records = filter (\<lambda>r. ur_reversesId r = None \<and> Some (ur_id r) \<notin> set (map ur_reversesId records)) records"

definition compareRecords :: "usage_record \<Rightarrow> usage_record \<Rightarrow> int" where
  "compareRecords a b = (if ur_occurredOn a \<noteq> ur_occurredOn b then (if text_less (ur_occurredOn a) (ur_occurredOn b) then - 1 else 1)
     else if ur_id a \<noteq> ur_id b then (if text_less (ur_id a) (ur_id b) then - 1 else 1) else 0)"

definition aggregateUsage :: "usage_aggregation \<Rightarrow> usage_record list \<Rightarrow> string result" where
  "aggregateUsage aggregation records = (let live = liveRecords records in
     case aggregation of
       Agg_sum \<Rightarrow> bindE (foldE (\<lambda>tot r. bindE (quantityUnits (ur_quantity r)) (\<lambda>u. Inr (tot + u))) 0 live) formatQuantity
     | Agg_count \<Rightarrow> formatQuantity (int (length live) * QUANTITY_UNITS)
     | Agg_max \<Rightarrow> bindE (foldE (\<lambda>best r. bindE (quantityUnits (ur_quantity r)) (\<lambda>u.
         Inr (case best of None \<Rightarrow> Some u | Some b \<Rightarrow> if u > b then Some u else Some b))) None live) (\<lambda>best. formatQuantity (or_else best 0))
     | Agg_last \<Rightarrow> if live = [] then formatQuantity 0
         else bindE (quantityUnits (ur_quantity (last (js_sort compareRecords live)))) formatQuantity
     | Agg_unique_count \<Rightarrow> bindE (foldE (\<lambda>keys r. case ur_distinctKey r of
           None \<Rightarrow> Inl (Error ''aggregates unique_count but carries no distinct key'')
         | Some k \<Rightarrow> Inr (if k \<in> set keys then keys else keys @ [k])) [] live) (\<lambda>keys. formatQuantity (int (length keys) * QUANTITY_UNITS)))"

section \<open>Bands\<close>

datatype rating_band_kind = Graduated | Volume | Package | Overage | Commit_shortfall | Prepaid_drawdown
datatype package_rounding = Up | Down

record rating_band =
  rb_kind :: rating_band_kind
  rb_seq :: int
  rb_upToQty :: "string option"
  rb_unitPrice :: string
  rb_flatAmount :: string
  rb_includedQty :: string
  rb_packageSize :: "string option"
  rb_packageRounding :: "package_rounding option"

record rate_line =
  rl_kind :: rating_band_kind
  rl_bandSeq :: int
  rl_quantity :: string
  rl_unitPrice :: string
  rl_amount :: string

type_synonym placed_band = "rating_band \<times> int option"

definition usageLine :: "rating_band_kind \<Rightarrow> int \<Rightarrow> int \<Rightarrow> string \<Rightarrow> rate_line result" where
  "usageLine kind bandSeq qtyUnits unitPrice = bindE (formatQuantity qtyUnits) (\<lambda>quantity.
     bindE (bindE (mulDecimalFactors ''1'' [unitPrice, quantity] 1 1 4) parseMoney) (\<lambda>amount.
     Inr \<lparr>rl_kind = kind, rl_bandSeq = bandSeq, rl_quantity = quantity, rl_unitPrice = unitPrice, rl_amount = amount\<rparr>))"

definition pushFlatLine :: "rate_line list \<Rightarrow> rating_band_kind \<Rightarrow> rating_band \<Rightarrow> rate_line list result" where
  "pushFlatLine lines kind band = bindE (moneyUnits (rb_flatAmount band)) (\<lambda>u. if u = 0 then Inr lines
     else bindE (parseRate (rb_flatAmount band)) (\<lambda>unitPrice. bindE (parseQuantity ''1'') (\<lambda>one.
       bindE (bindE (mulDecimalFactors ''1'' [unitPrice, ''1''] 1 1 4) parseMoney) (\<lambda>amount.
       Inr (lines @ [\<lparr>rl_kind = kind, rl_bandSeq = rb_seq band, rl_quantity = one, rl_unitPrice = unitPrice, rl_amount = amount\<rparr>])))))"

text \<open>The quantity a band takes between its floor and its ceiling, and the loop over the bands.\<close>

definition band_take :: "int \<Rightarrow> int \<Rightarrow> int option \<Rightarrow> int" where
  "band_take tot base lmt = (let upper = or_else lmt tot; remaining = tot - base in
     if remaining \<le> 0 then 0 else if remaining < upper - base then remaining else upper - base)"

fun graduated_loop :: "int \<Rightarrow> int \<Rightarrow> rate_line list \<Rightarrow> placed_band list \<Rightarrow> rate_line list result" where
  "graduated_loop tot base lines [] = Inr lines"
| "graduated_loop tot base lines ((band, lmt) # placed) = (let tk = band_take tot base lmt in
     bindE (if tk > 0 then bindE (usageLine Graduated (rb_seq band) tk (rb_unitPrice band)) (\<lambda>l. pushFlatLine (lines @ [l]) Graduated band) else Inr lines) (\<lambda>lines'.
     case lmt of None \<Rightarrow> Inr lines' | Some t \<Rightarrow> graduated_loop tot t lines' placed))"

definition rateGraduated :: "int \<Rightarrow> placed_band list \<Rightarrow> rate_line list result" where
  "rateGraduated tot placed = graduated_loop tot 0 [] placed"

definition findLandedBand :: "int \<Rightarrow> placed_band list \<Rightarrow> placed_band result" where
  "findLandedBand tot placed = (case find (\<lambda>(_, lmt). case lmt of None \<Rightarrow> True | Some t \<Rightarrow> tot \<le> t) placed of
     None \<Rightarrow> Inl (Error ''rating bands must cover [0, infinity)'') | Some landed \<Rightarrow> Inr landed)"

definition rateVolume :: "int \<Rightarrow> placed_band list \<Rightarrow> rate_line list result" where
  "rateVolume tot placed = bindE (findLandedBand tot placed) (\<lambda>(band, _).
     bindE (usageLine Volume (rb_seq band) tot (rb_unitPrice band)) (\<lambda>l. pushFlatLine [l] Volume band))"

definition ratePackage :: "int \<Rightarrow> placed_band list \<Rightarrow> rate_line list result" where
  "ratePackage tot placed = bindE (findLandedBand tot placed) (\<lambda>(band, _). case (rb_packageSize band, rb_packageRounding band) of
       (None, _) \<Rightarrow> Inl (Error ''is a package band without a packageSize'')
     | (Some s, None) \<Rightarrow> Inl (Error ''packageRounding must be up or down'')
     | (Some s, Some rounding) \<Rightarrow> bindE (quantityUnits s) (\<lambda>size.
         if size \<le> 0 then Inl (Error ''packageSize must be greater than zero'')
         else let blocks = tot sdiv size + (if rounding = Up \<and> tot smod size \<noteq> 0 then 1 else 0) in
           if blocks = 0 then Inr []
           else bindE (usageLine Package (rb_seq band) (blocks * QUANTITY_UNITS) (rb_unitPrice band)) (\<lambda>l. pushFlatLine [l] Package band)))"

definition rateOverage :: "int \<Rightarrow> placed_band list \<Rightarrow> rate_line list result" where
  "rateOverage tot placed = (case placed of
     [(band, _)] \<Rightarrow> bindE (quantityUnits (rb_includedQty band)) (\<lambda>included.
       if included < 0 then Inl (Error ''includedQty cannot be negative'')
       else let excess = tot - included in if excess \<le> 0 then Inr []
         else bindE (usageLine Overage (rb_seq band) excess (rb_unitPrice band)) (\<lambda>l. pushFlatLine [l] Overage band))
   | _ \<Rightarrow> Inl (Error ''overage rates a single band: includedQty at zero, the excess at unitPrice''))"

section \<open>Rating\<close>

definition check_bands :: "rating_band list \<Rightarrow> unit result" where
  "check_bands bands = foldE (\<lambda>_ band. bindE (checkUnitPrice (rb_unitPrice band)) (\<lambda>_. bindE (moneyUnits (rb_flatAmount band)) (\<lambda>_. Inr ()))) () bands"

definition place_band :: "rating_band \<Rightarrow> placed_band result" where
  "place_band band = (case rb_upToQty band of None \<Rightarrow> Inr (band, None) | Some q \<Rightarrow> bindE (quantityUnits q) (\<lambda>t. Inr (band, Some t)))"

fun ascending_tops :: "int \<Rightarrow> placed_band list \<Rightarrow> bool" where
  "ascending_tops base [] = True"
| "ascending_tops base ((_, None) # placed) = True"
| "ascending_tops base ((_, Some t) # placed) = (base < t \<and> ascending_tops t placed)"

definition open_ended :: "placed_band list \<Rightarrow> bool" where
  "open_ended placed \<longleftrightarrow> length (filter (\<lambda>p. snd p = None) placed) = 1 \<and> snd (last placed) = None"

definition rate_placed :: "rating_band_kind \<Rightarrow> int \<Rightarrow> placed_band list \<Rightarrow> rate_line list result" where
  "rate_placed kind tot placed = (case kind of Graduated \<Rightarrow> rateGraduated tot placed | Volume \<Rightarrow> rateVolume tot placed
     | Package \<Rightarrow> ratePackage tot placed | Overage \<Rightarrow> rateOverage tot placed
     | Commit_shortfall \<Rightarrow> Inl (Error ''commit_shortfall bands are not invoice lines'')
     | Prepaid_drawdown \<Rightarrow> Inl (Error ''prepaid_drawdown bands are not invoice lines''))"

definition rateUsage :: "string \<Rightarrow> rating_band list \<Rightarrow> rate_line list result" where
  "rateUsage quantity bands = bindE (quantityUnits quantity) (\<lambda>tot.
     if tot < 0 then Inl (Error ''rated quantity cannot be negative'')
     else if bands = [] then Inl (Error ''rateUsage requires at least one rating band'')
     else if tot = 0 then Inr []
     else if length (remdups (map rb_kind bands)) > 1 then Inl (Error ''rateUsage rates one band kind per call'')
     else let ordered = js_sort (\<lambda>a b. rb_seq a - rb_seq b) bands in
       bindE (check_bands ordered) (\<lambda>_. bindE (traverse place_band ordered) (\<lambda>placed.
       if \<not> open_ended placed then Inl (Error ''rating bands must cover [0, infinity)'')
       else if \<not> ascending_tops 0 placed then Inl (Error ''upToQty must sit above the previous band'')
       else rate_placed (rb_kind (hd bands)) tot placed)))"

definition commitShortfall :: "string \<Rightarrow> string \<Rightarrow> string result" where
  "commitShortfall commitAmount ratedInWindow = bindE (moneyUnits commitAmount) (\<lambda>commit.
     if commit < 0 then Inl (Error ''commitAmount cannot be negative'')
     else bindE (moneyUnits ratedInWindow) (\<lambda>rated.
       if rated < 0 then Inl (Error ''ratedInWindow cannot be negative'')
       else let shortfall = commit - rated in parseMoney (fromUnits (if shortfall > 0 then shortfall else 0))))"

record prepaid_split =
  ps_drawn :: string
  ps_billable :: string

definition applyPrepaid :: "string \<Rightarrow> string \<Rightarrow> bool \<Rightarrow> prepaid_split result" where
  "applyPrepaid rated balance allowOverage = bindE (moneyUnits rated) (\<lambda>r.
     if r < 0 then Inl (Error ''rated cannot be negative'')
     else bindE (moneyUnits balance) (\<lambda>b.
       if b < 0 then Inl (Error ''balance cannot be negative'')
       else let drawn = (if r < b then r else b); billable = r - drawn in
         if billable > 0 \<and> \<not> allowOverage then Inl (UsageBillingError ''prepaid_overage_disallowed'')
         else bindE (parseMoney (fromUnits drawn)) (\<lambda>d. bindE (parseMoney (fromUnits billable)) (\<lambda>b'. Inr \<lparr>ps_drawn = d, ps_billable = b'\<rparr>))))"

section \<open>Quantities are read and printed exactly\<close>

lemma quantityUnits_value:
  assumes "quantityUnits v = Inr u"
  shows "decimal_value v = Some (of_int u / 10 ^ 8)"
proof -
  obtain t where t: "fixedDecimal v 8 = Inr t" using assms by (auto simp: quantityUnits_def bindE_Inr_iff rethrow_Inr_iff)
  obtain w f x where s: "t = (if x < 0 then ''-'' else []) @ w @ CHR ''.'' # f" and d: "list_all is_digit w" "w \<noteq> []" "list_all is_digit f" "length f = 8"
    "int (digits_val (w @ f)) = \<bar>x\<bar>" "decimal_value v = Some (of_int x / 10 ^ 8)" by (rule fixedDecimal_shape [OF t]) simp
  have sp: "split_dot t = ((if x < 0 then ''-'' else []) @ w, f)" using s d(1,3) by (simp add: split_dot_def list_all_iff digit_not_mark)
  have "starts_minus ((if x < 0 then ''-'' else []) @ w) \<longleftrightarrow> x < 0" using d(1,2) by (cases w) (auto simp: digit_not_mark)
  then have "u = (if x < 0 then - 1 else 1) * (bigint_of_text w * 100000000 + bigint_of_text f)"
    using assms t sp d(2) by (auto simp: quantityUnits_def or_text_def)
  also have "\<dots> = (if x < 0 then - 1 else 1) * int (digits_val (w @ f))" using d(1,3,4) by (simp add: bigint_of_digits digits_val_append)
  finally have "u = x" using d(5) by auto
  then show ?thesis using d(6) by simp
qed

lemma canonicalPlainDecimal_render:
  assumes "signed_plain_decimal (trim s)" "exponent_in_range s" "length (snd (split_dot (strip_sign (trim s)))) \<le> k" "decimal_value s = Some (of_int u / 10 ^ k)"
  shows "canonicalPlainDecimal s (int k) = Some (renderExactDecimal u k)"
proof -
  obtain p where p: "parseExactDecimalParts s True = Some p" "decimal_value s = Some (exact_value p)"
    using assms(2) parseExactDecimalParts_iff(1) by blast
  then have q: "parseExactDecimalParts s False = Some p" using parse_plain_iff assms(1) by simp
  have "renderExactDecimal (ed_units p) (ed_scale p) = renderExactDecimal u k"
    using p(2) assms(4) by (intro renderExactDecimal_cong) (simp add: exact_value_def)
  then show ?thesis using q parse_plain_scale [OF q] assms(3) by (simp add: canonicalPlainDecimal_def)
qed

lemma quantityUnits_render: "quantityUnits (renderExactDecimal u 8) = Inr u"
proof -
  note r = renderExactDecimal_text [of u 8]
  have "canonicalPlainDecimal (renderExactDecimal u 8) (int 8) = Some (renderExactDecimal u 8)"
    by (rule canonicalPlainDecimal_render) (use r in simp_all)
  then have "\<exists>t. fixedDecimal (renderExactDecimal u 8) 8 = Inr t" by (simp add: fixedDecimal_def canonicalDecimal_def Let_def split: prod.split)
  then have "\<exists>u'. quantityUnits (renderExactDecimal u 8) = Inr u'" by (auto simp: quantityUnits_def Let_def split: prod.split)
  then obtain u' where u': "quantityUnits (renderExactDecimal u 8) = Inr u'" by blast
  then show ?thesis using quantityUnits_value [OF u'] r by simp
qed

lemma formatQuantity_render: "formatQuantity u = Inr (renderExactDecimal u 8)"
proof -
  let ?m = "nat \<bar>u\<bar>"
  let ?w = "nat_text (?m div 100000000)" and ?p = "padStart (nat_text (?m mod 100000000)) 8 CHR ''0''"
  define f where "f = strip_trailing_zeros ?p"
  define s where "s = (if u < 0 then ''-'' else []) @ ?w @ (if f = [] then [] else CHR ''.'' # f)"
  have q: "bigint_text (\<bar>u\<bar> sdiv 100000000) = ?w" "bigint_text (\<bar>u\<bar> smod 100000000) = nat_text (?m mod 100000000)"
    by (simp_all add: bigint_text_def sdiv_nonneg smod_nonneg nat_div_distrib nat_mod_distrib pos_imp_zdiv_nonneg_iff)
  have mag: "(if u < 0 then - u else u) = \<bar>u\<bar>" by simp
  have fmt: "formatQuantity u = parseQuantity s" unfolding formatQuantity_def Let_def mag q s_def f_def by simp
  have "length ?p = 8" using length_nat_text_le [of "?m mod 100000000" 8] by simp
  then have len: "length f \<le> 8" "digits_val ?p = digits_val f * 10 ^ (8 - length f)"
    using digits_val_strip_trailing_zeros [of ?p] strip_trailing_zeros_split [of ?p] unfolding f_def by (metis le_add1 length_append, metis)
  have fd: "list_all is_digit f" unfolding f_def by (intro list_all_strip_trailing_zeros) simp
  define x where "x = sgn u * int (digits_val (?w @ f))"
  have "?m mod 100000000 = digits_val f * 10 ^ (8 - length f)" using len(2) by simp
  then have "?m = ?m div 100000000 * 100000000 + digits_val f * 10 ^ (8 - length f)" using div_mult_mod_eq [of ?m 100000000] by linarith
  moreover have "(100000000::nat) = 10 ^ length f * 10 ^ (8 - length f)" using len(1) by (simp flip: power_add)
  ultimately have m: "?m = digits_val (?w @ f) * 10 ^ (8 - length f)" by (simp add: digits_val_append algebra_simps)
  then have "\<bar>u\<bar> = int (digits_val (?w @ f)) * 10 ^ (8 - length f)" by (metis abs_ge_zero int_nat_eq of_nat_mult of_nat_numeral of_nat_power)
  then have ux: "u = x * 10 ^ (8 - length f)" by (simp add: x_def mult.assoc mult_sgn_abs)
  have "digits_val (?w @ f) = 0" if "u = 0" using m that by simp
  then have x1: "int (digits_val (?w @ f)) = \<bar>x\<bar>" by (cases "u = 0") (simp_all add: x_def abs_mult)
  have x2: "u < 0 \<longleftrightarrow> x < 0" by (subst ux) (simp add: mult_less_0_iff)
  note x = x1 x2
  have ten: "(10::rat) ^ 8 = 10 ^ (8 - length f) * 10 ^ length f" using len(1) by (simp flip: power_add)
  have val: "(of_int x / 10 ^ length f :: rat) = of_int u / 10 ^ 8" unfolding ten by (subst ux) simp
  have "canonicalPlainDecimal s (int 8) = Some (renderExactDecimal u 8)"
  proof (cases "f = []")
    case True
    then have s: "s = (if x < 0 then ''-'' else []) @ ?w" by (simp add: s_def x(2))
    note g = decimal_parts_integer [OF nat_text_digits nat_text_not_Nil s]
    show ?thesis by (rule canonicalPlainDecimal_render)
      (use g decimal_value_integer [OF nat_text_digits nat_text_not_Nil, of _ x] s True x(1) val nat_text_digits in \<open>simp_all add: exponent_in_range_def\<close>)
  next
    case False
    then have s: "s = (if x < 0 then ''-'' else []) @ ?w @ CHR ''.'' # f" by (simp add: s_def x(2))
    note g = decimal_parts_fixed [OF nat_text_digits nat_text_not_Nil fd False s]
    show ?thesis by (rule canonicalPlainDecimal_render)
      (use g decimal_value_fixed [OF nat_text_digits nat_text_not_Nil fd False, of _ x] s x(1) val nat_text_digits fd len(1) in \<open>simp_all add: exponent_in_range_def\<close>)
  qed
  then show ?thesis using fmt by (simp add: parseQuantity_def canonicalDecimal_def)
qed

interpretation quantity_text: text_codec "\<lambda>u. renderExactDecimal u 8" quantityUnits "\<lambda>_. True"
  by unfold_locales (rule quantityUnits_render)

section \<open>Lines round once\<close>

lemma decimalFactorUnits_value:
  assumes "signed_plain_decimal (trim s)" "decimal_value s = Some (of_int u / 10 ^ 10)"
  shows "decimalFactorUnits s = Inr u"
proof -
  obtain w f where wf: "split_dot (strip_sign (trim s)) = (w, f)" by (cases "split_dot (strip_sign (trim s))")
  have pl: "plain_decimal (strip_sign (trim s))" using assms(1) by (simp add: signed_plain_decimal_def)
  note d = plain_split_digits [OF pl wf]
  have v: "decimal_value s = Some ((if starts_minus (trim s) then - 1 else 1) * (of_nat (digits_val (w @ f)) / 10 ^ length f))"
    using pl wf by (simp add: decimal_value_def decimal_parts_def decimal_number_def exponent_match_plain Let_def signed_value_def)
  let ?v = "(if starts_minus (trim s) then - u else u)"
  have e: "(of_int ?v :: rat) = of_nat (digits_val (w @ f)) / 10 ^ length f * 10 ^ 10"
    using v assms(2) by (auto simp: field_simps split: if_splits)
  then have l: "\<not> loses_precision 10 f" using loses_precision_not_integral [of w f 10 ?v] d by auto
  have "(of_int ?v :: rat) = of_int (scaled_units 10 w f)" using e scaled_units_exact [of w f 10] d l by simp
  then have "scaled_units 10 w f = ?v" by (simp only: of_int_eq_iff)
  then show ?thesis using assms(1) wf l by (auto simp: decimalFactorUnits_def Let_def)
qed

text \<open>A price of at most eight decimals, in units of a hundred-millionth.\<close>

lemma checked_price:
  assumes "canonicalDecimal p 8 = Some c"
  obtains u where "decimal_value p = Some (of_int u / 10 ^ 8)" "signed_plain_decimal (trim p)"
proof -
  obtain q :: exact_decimal where q: "parseExactDecimalParts p False = Some q" "int (ed_scale q) \<le> 8" "decimal_value p = Some (exact_value q)"
    by (rule canonicalPlainDecimal_Some [OF assms [unfolded canonicalDecimal_def]]) blast
  have ten: "(10::rat) ^ 8 = 10 ^ (8 - ed_scale q) * 10 ^ ed_scale q" using q(2) by (simp flip: power_add)
  have "decimal_value p = Some (of_int (ed_units q * 10 ^ (8 - ed_scale q)) / 10 ^ 8)" unfolding ten using q(3) by (simp add: exact_value_def)
  moreover have "signed_plain_decimal (trim p)" using q(1) parse_plain_iff by blast
  ultimately show thesis by (rule that)
qed

definition price_value :: "string \<Rightarrow> rat" where
  "price_value p = or_else (decimal_value p) 0"

lemma factor_of_eight:
  assumes "decimal_value p = Some (of_int u / 10 ^ 8)" "signed_plain_decimal (trim p)"
  shows "decimalFactorUnits p = Inr (u * 100)"
  by (rule decimalFactorUnits_value [OF assms(2)]) (simp add: assms(1))

lemma parseMoney_fromUnits: "\<exists>t. parseMoney (fromUnits u) = Inr t \<and> toUnits t = Inr u"
proof -
  have "canonicalPlainDecimal (fromUnits u) (int 4) = Some (renderExactDecimal u 4)"
  proof (rule canonicalPlainDecimal_render)
    obtain w f where f: "fromUnits u = (if u < 0 then ''-'' else []) @ w @ CHR ''.'' # f"
      "list_all is_digit w" "w \<noteq> []" "list_all is_digit f" "length f = 4" by (rule fromUnits_shape)
    have "f \<noteq> []" using f(5) by auto
    note g = decimal_parts_fixed [OF f(2-4) this f(1)]
    show "signed_plain_decimal (trim (fromUnits u))" by simp
    show "exponent_in_range (fromUnits u)" using g(1) by (simp add: exponent_in_range_def)
    show "length (snd (split_dot (strip_sign (trim (fromUnits u))))) \<le> 4" using g(4) f(2,4,5) by simp
    show "decimal_value (fromUnits u) = Some (of_int u / 10 ^ 4)" by (simp add: fromUnits_value)
  qed
  then obtain c where c: "canonicalDecimal (fromUnits u) 4 = Some c" "c = renderExactDecimal u 4" by (simp add: canonicalDecimal_def)
  have "canonicalPlainDecimal c (int 4) = Some c" using canonicalPlainDecimal_idem c by (simp add: canonicalDecimal_def)
  then have "\<exists>t. fixedDecimal c 4 = Inr t" by (simp add: fixedDecimal_def canonicalDecimal_def Let_def split: prod.split)
  then obtain t where t: "parseMoney (fromUnits u) = Inr t" using c by (auto simp: parseMoney_def)
  then show ?thesis using parseMoney_reads [OF t] by (simp add: reads_def)
qed

lemma usageLine_total:
  assumes "canonicalDecimal p 8 = Some c"
  shows "\<exists>l. usageLine k n q p = Inr l \<and> rl_kind l = k \<and> rl_bandSeq l = n \<and> rl_unitPrice l = p \<and> quantityUnits (rl_quantity l) = Inr q
    \<and> toUnits (rl_amount l) = Inr (half_away (price_value p * (of_int q / 10 ^ 8) * 10 ^ 4))"
proof -
  obtain u where u: "decimal_value p = Some (of_int u / 10 ^ 8)" "signed_plain_decimal (trim p)" by (rule checked_price [OF assms])
  note r = renderExactDecimal_text [of q 8]
  have f: "decimalFactorUnits (renderExactDecimal q 8) = Inr (q * 100)" "decimalFactorUnits p = Inr (u * 100)"
    using factor_of_eight [OF u] r by (auto intro: factor_of_eight)
  have one: "toUnits ''1'' = Inr 10000" by code_simp
  have "round_quot (10000 * (u * 100) * (q * 100)) (RATE_SCALE * RATE_SCALE) = half_away (of_int (10000 * (u * 100) * (q * 100)) / of_int (RATE_SCALE * RATE_SCALE))"
    by (rule round_quot_half_away) simp
  also have "of_int (10000 * (u * 100) * (q * 100)) / of_int (RATE_SCALE * RATE_SCALE) = price_value p * (of_int q / 10 ^ 8) * (10 ^ 4 :: rat)"
    using u(1) by (simp add: price_value_def)
  finally have "mulDecimalFactors ''1'' [p, renderExactDecimal q 8] 1 1 4 = Inr (fromUnits (half_away (price_value p * (of_int q / 10 ^ 8) * 10 ^ 4)))"
    using f one by (simp add: mulDecimalFactors_def roundDiv_pos)
  moreover obtain t where "parseMoney (fromUnits (half_away (price_value p * (of_int q / 10 ^ 8) * 10 ^ 4))) = Inr t"
      "toUnits t = Inr (half_away (price_value p * (of_int q / 10 ^ 8) * 10 ^ 4))" using parseMoney_fromUnits by blast
  ultimately show ?thesis by (simp add: usageLine_def formatQuantity_render quantityUnits_render)
qed

lemma pushFlatLine_Inr:
  assumes "pushFlatLine lines k band = Inr out"
  shows "\<exists>flat. out = lines @ flat \<and> length flat \<le> 1 \<and> sum_list (map (\<lambda>l. units_of (rl_amount l)) flat) = units_of (rb_flatAmount band)"
proof -
  obtain u where m: "toUnits (rb_flatAmount band) = Inr u" using assms by (auto simp: pushFlatLine_def moneyUnits_def bindE_Inr_iff rethrow_Inr_iff)
  then have u: "units_of (rb_flatAmount band) = u" by (auto dest: readsI)
  show ?thesis
  proof (cases "u = 0")
    case True
    then show ?thesis using assms m u by (intro exI [of _ "[]"]) (auto simp: pushFlatLine_def moneyUnits_def)
  next
    case False
    obtain rate one money t where r: "parseRate (rb_flatAmount band) = Inr rate" "mulDecimalFactors ''1'' [rate, ''1''] 1 1 4 = Inr money"
      "parseMoney money = Inr t" "out = lines @ [\<lparr>rl_kind = k, rl_bandSeq = rb_seq band, rl_quantity = one, rl_unitPrice = rate, rl_amount = t\<rparr>]"
      using assms m False by (auto simp: pushFlatLine_def moneyUnits_def bindE_Inr_iff)
    have c: "canonicalPlainDecimal (rb_flatAmount band) 10 = Some rate" using r(1) by (auto simp: parseRate_def canonicalDecimal_def split: option.splits)
    obtain q :: exact_decimal where q: "rate = renderExactDecimal (ed_units q) (ed_scale q)" by (rule canonicalPlainDecimal_Some [OF c]) blast
    have v: "decimal_value rate = Some (of_int (u * 1000000) / 10 ^ 10)" using m canonicalPlainDecimal_value [OF c] by (simp add: toUnits_value)
    have "decimalFactorUnits rate = Inr (u * 1000000)"
      by (rule decimalFactorUnits_value) (use renderExactDecimal_text [of "ed_units q" "ed_scale q"] q v in simp_all)
    moreover have "decimalFactorUnits ''1'' = Inr RATE_SCALE" "toUnits ''1'' = Inr 10000" by code_simp+
    moreover have "round_quot (10000 * (u * 1000000) * RATE_SCALE) (RATE_SCALE * RATE_SCALE) = u"
      using round_quot_half_away [of "RATE_SCALE * RATE_SCALE" "10000 * (u * 1000000) * RATE_SCALE"] half_away_of_int [of u] by simp
    ultimately have "money = fromUnits u" using r(2) by (simp add: mulDecimalFactors_def roundDiv_pos)
    then have "units_of t = u" using parseMoney_reads [OF r(3)] by simp
    then show ?thesis using r(4) u by (intro exI [of _ "[\<lparr>rl_kind = k, rl_bandSeq = rb_seq band, rl_quantity = one, rl_unitPrice = rate, rl_amount = t\<rparr>]"]) simp
  qed
qed

section \<open>Graduated bands cover the quantity\<close>

text \<open>Bands that tile the line from \<open>base\<close>: rising limits, then one open band.\<close>

fun covers :: "int \<Rightarrow> placed_band list \<Rightarrow> bool" where
  "covers base [] = False"
| "covers base ((_, None) # placed) = (placed = [])"
| "covers base ((_, Some t) # placed) = (base < t \<and> covers t placed)"

lemma validated_covers: "placed \<noteq> [] \<Longrightarrow> open_ended placed \<Longrightarrow> ascending_tops base placed \<Longrightarrow> covers base placed"
proof (induction base placed rule: covers.induct)
  case (2 base b placed)
  have "filter (\<lambda>p. snd p = None) placed = []" using 2(2) by (simp add: open_ended_def)
  then have "\<forall>p \<in> set placed. snd p \<noteq> None" by (simp add: filter_empty_conv)
  then have closed: "\<And>p. p \<in> set placed \<Longrightarrow> snd p \<noteq> None" by blast
  have "placed = []"
  proof (rule ccontr)
    assume "placed \<noteq> []"
    then show False using closed [OF last_in_set] 2(2) by (simp add: open_ended_def)
  qed
  then show ?case by simp
next
  case (3 base b t placed)
  then have "placed \<noteq> []" by (auto simp: open_ended_def)
  then show ?case using 3 by (auto simp: open_ended_def)
qed simp

text \<open>The part of the quantity inside each band.\<close>

fun band_takes :: "int \<Rightarrow> int \<Rightarrow> placed_band list \<Rightarrow> (rating_band \<times> int) list" where
  "band_takes tot base [] = []"
| "band_takes tot base ((b, l) # placed) = (b, max 0 (min tot (or_else l tot) - base)) # (case l of None \<Rightarrow> [] | Some t \<Rightarrow> band_takes tot t placed)"

lemma band_takes_sum: "covers base placed \<Longrightarrow> sum_list (map snd (band_takes tot base placed)) = max 0 (tot - base)"
  by (induction base placed rule: covers.induct) auto

lemma band_take_overlap: "base < or_else l tot \<or> tot \<le> base \<Longrightarrow> band_take tot base l = max 0 (min tot (or_else l tot) - base)"
  by (auto simp: band_take_def Let_def)

definition part_ok :: "rating_band \<times> int \<Rightarrow> rate_line list \<Rightarrow> bool" where
  "part_ok p ls \<longleftrightarrow> (\<exists>l flat. ls = l # flat \<and> rl_bandSeq l = rb_seq (fst p) \<and> quantityUnits (rl_quantity l) = Inr (snd p)
     \<and> toUnits (rl_amount l) = Inr (half_away (price_value (rb_unitPrice (fst p)) * (of_int (snd p) / 10 ^ 8) * 10 ^ 4))
     \<and> length flat \<le> 1 \<and> sum_list (map (\<lambda>l. units_of (rl_amount l)) flat) = units_of (rb_flatAmount (fst p)))"

lemma graduated_step:
  assumes "usageLine k (rb_seq band) tk (rb_unitPrice band) = Inr l" "pushFlatLine (acc @ [l]) k band = Inr out" "canonicalDecimal (rb_unitPrice band) 8 = Some c"
  shows "\<exists>ls. out = acc @ ls \<and> part_ok (band, tk) ls"
proof -
  obtain flat where f: "out = (acc @ [l]) @ flat" "length flat \<le> 1" "sum_list (map (\<lambda>l. units_of (rl_amount l)) flat) = units_of (rb_flatAmount band)"
    using pushFlatLine_Inr [OF assms(2)] by blast
  show ?thesis using f usageLine_total [OF assms(3), of k "rb_seq band" tk] assms(1) by (intro exI [of _ "l # flat"]) (auto simp: part_ok_def)
qed

lemma graduated_loop_parts:
  assumes "graduated_loop tot base acc placed = Inr lines" "covers base placed" "\<forall>p \<in> set placed. canonicalDecimal (rb_unitPrice (fst p)) 8 \<noteq> None"
  shows "\<exists>lss. lines = acc @ concat lss \<and> list_all2 part_ok (filter (\<lambda>p. 0 < snd p) (band_takes tot base placed)) lss"
  using assms
proof (induction placed arbitrary: base acc lines)
  case (Cons p placed)
  obtain band l where p: "p = (band, l)" by (cases p)
  let ?tk = "max 0 (min tot (or_else l tot) - base)"
  have "base < or_else l tot \<or> tot \<le> base" using Cons.prems(2) by (cases l) (auto simp: p)
  then have tk: "band_take tot base l = ?tk" by (rule band_take_overlap)
  obtain acc' where step: "(if ?tk > 0 then bindE (usageLine Graduated (rb_seq band) ?tk (rb_unitPrice band)) (\<lambda>l. pushFlatLine (acc @ [l]) Graduated band) else Inr acc) = Inr acc'"
    and rest: "(case l of None \<Rightarrow> Inr acc' | Some t \<Rightarrow> graduated_loop tot t acc' placed) = Inr lines"
    using Cons.prems(1) by (auto simp: p tk Let_def bindE_Inr_iff)
  obtain c where c: "canonicalDecimal (rb_unitPrice band) 8 = Some c" using Cons.prems(3) by (auto simp: p)
  obtain here where here: "acc' = acc @ concat here" "list_all2 part_ok (filter (\<lambda>p. 0 < snd p) [(band, ?tk)]) here"
  proof (cases "?tk > 0")
    case True
    then obtain l' where "usageLine Graduated (rb_seq band) ?tk (rb_unitPrice band) = Inr l'" "pushFlatLine (acc @ [l']) Graduated band = Inr acc'"
      using step by (auto simp: bindE_Inr_iff)
    from graduated_step [OF this c] obtain ls where "acc' = acc @ ls" "part_ok (band, ?tk) ls" by blast
    then show ?thesis using that [of "[ls]"] True by simp
  next
    case False
    then show ?thesis using that [of "[]"] step by simp
  qed
  obtain later where later: "lines = acc' @ concat later"
    "list_all2 part_ok (filter (\<lambda>p. 0 < snd p) (case l of None \<Rightarrow> [] | Some t \<Rightarrow> band_takes tot t placed)) later"
  proof (cases l)
    case None
    then show ?thesis using that [of "[]"] rest by simp
  next
    case (Some t)
    then have g: "graduated_loop tot t acc' placed = Inr lines" "covers t placed" using rest Cons.prems(2) by (simp_all add: p)
    have "\<forall>p \<in> set placed. canonicalDecimal (rb_unitPrice (fst p)) 8 \<noteq> None" using Cons.prems(3) by simp
    from Cons.IH [OF g this] show ?thesis using that Some by auto
  qed
  have "list_all2 part_ok (filter (\<lambda>p. 0 < snd p) (band_takes tot base (p # placed))) (here @ later)"
    using list_all2_appendI [OF here(2) later(2)] by (simp only: p band_takes.simps flip: filter_append) simp
  then show ?case using here(1) later(1) by (intro exI [of _ "here @ later"]) simp
qed simp

section \<open>Aggregation does not see the order of arrival\<close>

lemma compareRecords_le: "compareRecords a b \<le> 0 \<longleftrightarrow>
  ur_occurredOn a \<noteq> ur_occurredOn b \<and> text_less_eq (ur_occurredOn a) (ur_occurredOn b) \<or> ur_occurredOn a = ur_occurredOn b \<and> text_less_eq (ur_id a) (ur_id b)"
  by (auto simp: compareRecords_def text_less_def)

lemma compareRecords_order:
  shows "compareRecords a b \<le> 0 \<or> compareRecords b a \<le> 0" and "transp (\<lambda>a b. compareRecords a b \<le> 0)"
    and "compareRecords a b \<le> 0 \<Longrightarrow> compareRecords b a \<le> 0 \<Longrightarrow> ur_id a = ur_id b"
proof -
  show "compareRecords a b \<le> 0 \<or> compareRecords b a \<le> 0" using text_less_eq_total unfolding compareRecords_le by metis
  show "transp (\<lambda>a b. compareRecords a b \<le> 0)"
  proof (rule transpI)
    fix a b c assume ab: "compareRecords a b \<le> 0" and bc: "compareRecords b c \<le> 0"
    have "ur_occurredOn a = ur_occurredOn c \<Longrightarrow> ur_occurredOn a = ur_occurredOn b" using ab bc text_less_eq_antisym by (auto simp: compareRecords_le)
    then show "compareRecords a c \<le> 0" using ab bc text_less_eq_trans by (auto simp: compareRecords_le) 
  qed
  show "compareRecords a b \<le> 0 \<Longrightarrow> compareRecords b a \<le> 0 \<Longrightarrow> ur_id a = ur_id b"
    using text_less_eq_antisym by (auto simp: compareRecords_le)
qed

lemma mset_liveRecords:
  assumes "mset rs = mset rs'"
  shows "mset (liveRecords rs) = mset (liveRecords rs')"
proof -
  have "set (map ur_reversesId rs) = set (map ur_reversesId rs')" using assms by (metis list.set_map set_mset_mset)
  then show ?thesis using assms by (simp only: liveRecords_def mset_filter)
qed

lemma quantityUnits_Inl: "quantityUnits v = Inl e \<Longrightarrow> e = Error ''must be a decimal with at most 8 decimal places''"
  by (auto simp: quantityUnits_def rethrow_def Let_def split: sum.splits prod.splits)

lemma quantity_fold_perm:
  fixes xs :: "usage_record list"
  assumes "\<And>u v a. h (h a u) v = h (h a v) u" "mset xs = mset ys"
  shows "foldE (\<lambda>a r. bindE (quantityUnits (ur_quantity r)) (\<lambda>u. Inr (h a u))) s xs = foldE (\<lambda>a r. bindE (quantityUnits (ur_quantity r)) (\<lambda>u. Inr (h a u))) s ys"
proof (rule foldE_perm [OF _ assms(2)])
  fix x y :: usage_record and a
  show "bindE (bindE (quantityUnits (ur_quantity x)) (\<lambda>u. Inr (h a u))) (\<lambda>b. bindE (quantityUnits (ur_quantity y)) (\<lambda>u. Inr (h b u)))
    = bindE (bindE (quantityUnits (ur_quantity y)) (\<lambda>u. Inr (h a u))) (\<lambda>b. bindE (quantityUnits (ur_quantity x)) (\<lambda>u. Inr (h b u)))"
    by (cases "quantityUnits (ur_quantity x)"; cases "quantityUnits (ur_quantity y)") (auto dest: quantityUnits_Inl simp: assms(1))
qed

text \<open>The distinct keys: all present, each counted once.\<close>

definition distinct_keys :: "string list \<Rightarrow> usage_record \<Rightarrow> string list result" where
  "distinct_keys keys r = (case ur_distinctKey r of None \<Rightarrow> Inl (Error ''aggregates unique_count but carries no distinct key'')
     | Some k \<Rightarrow> Inr (if k \<in> set keys then keys else keys @ [k]))"

lemma distinct_keys_fold:
  assumes "distinct ks"
  shows "if None \<in> ur_distinctKey ` set rs then foldE distinct_keys ks rs = Inl (Error ''aggregates unique_count but carries no distinct key'')
    else \<exists>ks'. foldE distinct_keys ks rs = Inr ks' \<and> distinct ks' \<and> set ks' = set ks \<union> (the \<circ> ur_distinctKey) ` set rs"
  using assms
proof (induction rs arbitrary: ks)
  case (Cons r rs)
  show ?case
  proof (cases "ur_distinctKey r")
    case None
    then show ?thesis by (auto simp: distinct_keys_def)
  next
    case (Some k)
    let ?ks = "if k \<in> set ks then ks else ks @ [k]"
    have ks: "distinct ?ks" "set ?ks = insert k (set ks)" using Cons.prems by auto
    have "foldE distinct_keys ks (r # rs) = foldE distinct_keys ?ks rs" using Some by (simp add: distinct_keys_def [of ks r])
    then show ?thesis using Cons.IH [OF ks(1)] unfolding ks(2) using Some by (simp only: list.simps image_insert insert_iff o_apply option.sel Un_insert_left Un_insert_right) simp
  qed
qed simp

lemma distinct_keys_count:
  assumes "mset rs = mset rs'"
  shows "bindE (foldE distinct_keys [] rs) (\<lambda>ks. g (length ks)) = bindE (foldE distinct_keys [] rs') (\<lambda>ks. g (length ks))"
proof -
  have s: "set rs = set rs'" using assms by (metis set_mset_mset)
  note a = distinct_keys_fold [of "[]" rs] and b = distinct_keys_fold [of "[]" rs']
  show ?thesis
  proof (cases "None \<in> ur_distinctKey ` set rs")
    case True
    then show ?thesis using a b s by simp
  next
    case False
    then obtain ks ks' where "foldE distinct_keys [] rs = Inr ks" "foldE distinct_keys [] rs' = Inr ks'" "distinct ks" "distinct ks'" "set ks = set ks'"
      using a b s by auto
    then show ?thesis by (simp flip: distinct_card)
  qed
qed

text \<open>
  C24: Usage may arrive in any order.  Two listings of the same records, with distinct ids, have the same sum, count, maximum, last reading and number of distinct
  keys, and are refused alike.
\<close>

theorem aggregateUsage_order_free:
  assumes "mset rs = mset rs'" "distinct (map ur_id rs)"
  shows "aggregateUsage agg rs = aggregateUsage agg rs'"
proof (cases agg)
  case Agg_sum
  have "foldE (\<lambda>tot r. bindE (quantityUnits (ur_quantity r)) (\<lambda>u. Inr (tot + u))) 0 (liveRecords rs)
    = foldE (\<lambda>tot r. bindE (quantityUnits (ur_quantity r)) (\<lambda>u. Inr (tot + u))) 0 (liveRecords rs')"
    by (rule quantity_fold_perm [OF _ mset_liveRecords [OF assms(1)]]) simp
  then show ?thesis unfolding Agg_sum aggregateUsage_def by (simp only: Let_def usage_aggregation.case)
next
  case Agg_count
  then show ?thesis using mset_eq_length [OF mset_liveRecords [OF assms(1)]] by (simp add: aggregateUsage_def)
next
  case Agg_max
  let ?h = "\<lambda>best u. case best of None \<Rightarrow> Some u | Some b \<Rightarrow> if u > b then Some u else Some (b :: int)"
  have "foldE (\<lambda>best r. bindE (quantityUnits (ur_quantity r)) (\<lambda>u. Inr (?h best u))) None (liveRecords rs)
    = foldE (\<lambda>best r. bindE (quantityUnits (ur_quantity r)) (\<lambda>u. Inr (?h best u))) None (liveRecords rs')"
    by (rule quantity_fold_perm [OF _ mset_liveRecords [OF assms(1)]]) (auto split: option.splits)
  then show ?thesis unfolding Agg_max aggregateUsage_def by (simp only: Let_def usage_aggregation.case)
next
  case Agg_last
  have d: "distinct (map ur_id (liveRecords rs))" using assms(2) by (simp add: liveRecords_def distinct_map_filter)
  have "js_sort compareRecords (liveRecords rs) = js_sort compareRecords (liveRecords rs')"
  proof (rule js_sort_perm [OF compareRecords_order(1,2) mset_liveRecords [OF assms(1)]])
    fix x y assume m: "x \<in> set (liveRecords rs)" "y \<in> set (liveRecords rs)" "compareRecords x y \<le> 0" "compareRecords y x \<le> 0"
    have "inj_on ur_id (set (liveRecords rs))" using d unfolding distinct_map by (rule conjunct2)
    then show "x = y" using compareRecords_order(3) [OF m(3,4)] m(1,2) by (rule inj_onD)
  qed
  moreover have "liveRecords rs = [] \<longleftrightarrow> liveRecords rs' = []" using mset_liveRecords [OF assms(1)] by (metis mset_zero_iff)
  ultimately show ?thesis unfolding Agg_last aggregateUsage_def by (simp only: Let_def usage_aggregation.case)
next
  case Agg_unique_count
  have k: "distinct_keys = (\<lambda>keys r. case ur_distinctKey r of None \<Rightarrow> Inl (Error ''aggregates unique_count but carries no distinct key'')
     | Some k \<Rightarrow> Inr (if k \<in> set keys then keys else keys @ [k]))" by (intro ext) (simp add: distinct_keys_def)
  show ?thesis using distinct_keys_count [OF mset_liveRecords [OF assms(1)], of "\<lambda>n. formatQuantity (int n * QUANTITY_UNITS)", unfolded k]
    unfolding Agg_unique_count aggregateUsage_def by (simp only: Let_def usage_aggregation.case)
qed

text \<open>
  C25: Reversing a record erases it: appending a reversal of the record \<open>i\<close> gives, under every aggregation, what the window gives without that record.
\<close>

theorem reversal_erases_record:
  assumes "ur_reversesId v = Some i" "\<forall>r \<in> set rs. ur_id r = i \<longrightarrow> ur_reversesId r = None"
  shows "aggregateUsage agg (rs @ [v]) = aggregateUsage agg (filter (\<lambda>r. ur_id r \<noteq> i) rs)"
proof -
  have "(\<lambda>r. ur_reversesId r) ` set rs - {None} = (\<lambda>r. ur_reversesId r) ` set (filter (\<lambda>r. ur_id r \<noteq> i) rs) - {None}" using assms(2) by (auto 4 3)
  then have "Some j \<in> ur_reversesId ` set rs \<longleftrightarrow> Some j \<in> ur_reversesId ` set (filter (\<lambda>r. ur_id r \<noteq> i) rs)" for j by blast
  then have "liveRecords (rs @ [v]) = liveRecords (filter (\<lambda>r. ur_id r \<noteq> i) rs)"
    using assms(1) by (auto simp: liveRecords_def intro!: filter_cong)
  then show ?thesis by (simp add: aggregateUsage_def)
qed

section \<open>Rating\<close>

lemma check_bands_Inr:
  assumes "check_bands bands = Inr u" "b \<in> set bands"
  shows "canonicalDecimal (rb_unitPrice b) 8 \<noteq> None"
  using assms by (induction bands) (auto simp: check_bands_def checkUnitPrice_def bindE_Inr_iff ensure_Inr_iff)

lemma place_bands_fst: "traverse place_band bands = Inr placed \<Longrightarrow> map fst placed = bands"
  by (induction bands arbitrary: placed) (auto simp: bindE_Inr_iff place_band_def split: option.splits)

lemma rateUsage_Inr:
  assumes "rateUsage q bands = Inr lines" "quantityUnits q = Inr tot" "tot \<noteq> 0"
  obtains placed where "traverse place_band (js_sort (\<lambda>a b. rb_seq a - rb_seq b) bands) = Inr placed" "covers 0 placed"
    "\<forall>p \<in> set placed. canonicalDecimal (rb_unitPrice (fst p)) 8 \<noteq> None" "rate_placed (rb_kind (hd bands)) tot placed = Inr lines" "0 < tot" "placed \<noteq> []"
proof -
  let ?o = "js_sort (\<lambda>a b. rb_seq a - rb_seq b) bands"
  from assms obtain placed where p: "check_bands ?o = Inr ()" "traverse place_band ?o = Inr placed" "open_ended placed" "ascending_tops 0 placed"
      "rate_placed (rb_kind (hd bands)) tot placed = Inr lines" "bands \<noteq> []" "\<not> tot < 0"
    by (auto simp: rateUsage_def Let_def bindE_Inr_iff split: if_splits)
  have f: "map fst placed = ?o" by (rule place_bands_fst [OF p(2)])
  have "length placed = length bands" using arg_cong [OF f, of length] by simp
  then have ne: "placed \<noteq> []" using p(6) by auto
  have "\<forall>p \<in> set placed. canonicalDecimal (rb_unitPrice (fst p)) 8 \<noteq> None"
    using check_bands_Inr [OF p(1)] unfolding f [symmetric] by simp
  then show thesis using that [OF p(2) validated_covers [OF ne p(3,4)] _ p(5)] p(7) assms(3) ne by auto
qed

text \<open>
  C18: Graduated rating charges every unit of usage once.  The bands tile the quantity; each band with a positive part yields one line for exactly that part, at its price
  rounded once, and its flat amount; the parts add up to the quantity rated.
\<close>

theorem graduated_rating_tiles:
  assumes "rateUsage q bands = Inr lines" "quantityUnits q = Inr tot" "0 < tot" "rb_kind (hd bands) = Graduated"
  shows "\<exists>placed lss. traverse place_band (js_sort (\<lambda>a b. rb_seq a - rb_seq b) bands) = Inr placed \<and> lines = concat lss
    \<and> list_all2 part_ok (filter (\<lambda>p. 0 < snd p) (band_takes tot 0 placed)) lss \<and> sum_list (map snd (band_takes tot 0 placed)) = tot"
proof -
  obtain placed where p: "traverse place_band (js_sort (\<lambda>a b. rb_seq a - rb_seq b) bands) = Inr placed" "covers 0 placed"
    "\<forall>p \<in> set placed. canonicalDecimal (rb_unitPrice (fst p)) 8 \<noteq> None" "rate_placed (rb_kind (hd bands)) tot placed = Inr lines"
    by (rule rateUsage_Inr [OF assms(1,2)]) (use assms(3) in auto)
  have "graduated_loop tot 0 [] placed = Inr lines" using p(4) assms(4) by (simp add: rate_placed_def rateGraduated_def)
  from graduated_loop_parts [OF this p(2,3)] obtain lss where "lines = concat lss" "list_all2 part_ok (filter (\<lambda>p. 0 < snd p) (band_takes tot 0 placed)) lss" by auto
  then show ?thesis using p(1) band_takes_sum [OF p(2), of tot] assms(3) by auto
qed

text \<open>Package rating counts whole packages, rounded as the band says.\<close>

lemma findLandedBand_in: "findLandedBand tot placed = Inr p \<Longrightarrow> p \<in> set placed \<and> (snd p = None \<or> tot \<le> the (snd p))"
  by (auto simp: findLandedBand_def find_Some_iff in_set_conv_nth split: option.splits)

lemma findLandedBand_covers: "covers base placed \<Longrightarrow> \<exists>p. findLandedBand tot placed = Inr p"
  by (induction base placed rule: covers.induct) (auto simp: findLandedBand_def)

lemma package_blocks:
  assumes "0 \<le> tot" "0 < sz"
  shows "tot sdiv sz + (if r = Up \<and> tot smod sz \<noteq> 0 then 1 else 0) = (case r of Up \<Rightarrow> \<lceil>of_int tot / of_int sz :: rat\<rceil> | Down \<Rightarrow> \<lfloor>of_int tot / of_int sz :: rat\<rfloor>)"
proof -
  have d: "tot sdiv sz = tot div sz" "tot smod sz = tot mod sz" using assms by (simp_all add: sdiv_nonneg smod_nonneg)
  have "\<lceil>of_int tot / of_int sz :: rat\<rceil> = tot div sz + (if tot mod sz \<noteq> 0 then 1 else 0)"
    using assms by (simp add: ceiling_divide_eq_div [of tot sz] zdiv_zminus1_eq_if)
  then show ?thesis by (cases r) (simp_all add: d floor_divide_of_int_eq)
qed

text \<open>
  Volume rating prices the whole quantity in the one band it lands in: the line carries the full quantity at that band's price, rounded once.
\<close>

theorem volume_rating_lands:
  assumes "rateUsage q bands = Inr lines" "quantityUnits q = Inr tot" "0 < tot" "rb_kind (hd bands) = Volume"
  shows "\<exists>placed p. traverse place_band (js_sort (\<lambda>a b. rb_seq a - rb_seq b) bands) = Inr placed \<and> findLandedBand tot placed = Inr p
    \<and> p \<in> set placed \<and> (snd p = None \<or> tot \<le> the (snd p)) \<and> part_ok (fst p, tot) lines"
proof -
  obtain placed where p: "traverse place_band (js_sort (\<lambda>a b. rb_seq a - rb_seq b) bands) = Inr placed"
    "\<forall>p \<in> set placed. canonicalDecimal (rb_unitPrice (fst p)) 8 \<noteq> None" "rate_placed (rb_kind (hd bands)) tot placed = Inr lines"
    by (rule rateUsage_Inr [OF assms(1,2)]) (use assms(3) in auto)
  obtain band lmt l where b: "findLandedBand tot placed = Inr (band, lmt)" "usageLine Volume (rb_seq band) tot (rb_unitPrice band) = Inr l" "pushFlatLine ([] @ [l]) Volume band = Inr lines"
    using p(3) assms(4) by (auto simp: rate_placed_def rateVolume_def bindE_Inr_iff)
  note i = findLandedBand_in [OF b(1)]
  obtain c where c: "canonicalDecimal (rb_unitPrice band) 8 = Some c" using i p(2) by force
  show ?thesis using p(1) b(1) i graduated_step [OF b(2,3) c] by auto
qed

text \<open>
  Package rating bills whole packages: the quantity divided by the package size, rounded up or down as the band in which it lands says, at that band's price; no package, no line.
\<close>

theorem package_rating_blocks:
  assumes "rateUsage q bands = Inr lines" "quantityUnits q = Inr tot" "0 < tot" "rb_kind (hd bands) = Package"
  shows "\<exists>placed p s sz r. traverse place_band (js_sort (\<lambda>a b. rb_seq a - rb_seq b) bands) = Inr placed \<and> findLandedBand tot placed = Inr p
    \<and> rb_packageSize (fst p) = Some s \<and> quantityUnits s = Inr sz \<and> 0 < sz \<and> rb_packageRounding (fst p) = Some r
    \<and> (let blocks = (case r of Up \<Rightarrow> \<lceil>of_int tot / of_int sz :: rat\<rceil> | Down \<Rightarrow> \<lfloor>of_int tot / of_int sz :: rat\<rfloor>)
        in if blocks = 0 then lines = [] else part_ok (fst p, blocks * QUANTITY_UNITS) lines)"
proof -
  obtain placed where p: "traverse place_band (js_sort (\<lambda>a b. rb_seq a - rb_seq b) bands) = Inr placed"
    "\<forall>p \<in> set placed. canonicalDecimal (rb_unitPrice (fst p)) 8 \<noteq> None" "ratePackage tot placed = Inr lines"
    by (rule rateUsage_Inr [OF assms(1,2)]) (use assms(3,4) in \<open>auto simp: rate_placed_def\<close>)
  obtain band lmt where b: "findLandedBand tot placed = Inr (band, lmt)" using p(3) by (auto simp: ratePackage_def bindE_Inr_iff)
  then obtain s sz r where s: "rb_packageSize band = Some s" "rb_packageRounding band = Some r" "quantityUnits s = Inr sz" "0 < sz"
    using p(3) by (auto simp: ratePackage_def bindE_Inr_iff split: option.splits if_splits)
  let ?n = "case r of Up \<Rightarrow> \<lceil>of_int tot / of_int sz :: rat\<rceil> | Down \<Rightarrow> \<lfloor>of_int tot / of_int sz :: rat\<rfloor>"
  have e: "(if ?n = 0 then Inr [] else bindE (usageLine Package (rb_seq band) (?n * QUANTITY_UNITS) (rb_unitPrice band)) (\<lambda>l. pushFlatLine ([] @ [l]) Package band)) = Inr lines"
    using p(3) s(4) by (simp only: ratePackage_def b s package_blocks [OF less_imp_le [OF assms(3)] s(4)] Let_def bindE.simps prod.case option.case append_Nil not_le [symmetric] if_False)
  obtain c where c: "canonicalDecimal (rb_unitPrice band) 8 = Some c" using findLandedBand_in [OF b] p(2) by force
  have "if ?n = 0 then lines = [] else part_ok (band, ?n * QUANTITY_UNITS) lines"
  proof (cases "?n = 0")
    case False
    then obtain l where "usageLine Package (rb_seq band) (?n * QUANTITY_UNITS) (rb_unitPrice band) = Inr l" "pushFlatLine ([] @ [l]) Package band = Inr lines"
      using e by (simp only: if_False) (blast elim: bindE_InrE)
    from graduated_step [OF this c] False show ?thesis by simp
  qed (use e in simp)
  then show ?thesis using p(1) b s unfolding Let_def
    by (intro exI [of _ placed] exI [of _ "(band, lmt)"] exI [of _ s] exI [of _ sz] exI [of _ r]) (simp only: fst_conv simp_thms)
qed

section \<open>The order of the bands does not matter\<close>

text \<open>
  Rating reads the bands by their sequence numbers: two listings of the same bands with distinct numbers rate alike, or are refused alike.
\<close>

theorem rateUsage_band_order:
  assumes "mset bands = mset bands'" "distinct (map rb_seq bands)"
  shows "rateUsage q bands = rateUsage q bands'"
proof -
  have s: "set bands = set bands'" using assms(1) by (metis set_mset_mset)
  have o: "js_sort (\<lambda>a b. rb_seq a - rb_seq b) bands = js_sort (\<lambda>a b. rb_seq a - rb_seq b) bands'"
  proof (rule js_sort_perm [OF _ _ assms(1)])
    have "inj_on rb_seq (set bands)" using assms(2) unfolding distinct_map by (rule conjunct2)
    then show "x = y" if "x \<in> set bands" "y \<in> set bands" "rb_seq x - rb_seq y \<le> 0" "rb_seq y - rb_seq x \<le> 0" for x y
      by (rule inj_onD) (use that in simp_all)
  qed (auto simp: transp_def)
  have k: "length (remdups (map rb_kind bands)) = length (remdups (map rb_kind bands'))" using s by (simp add: length_remdups_card_conv)
  have "bands = [] \<longleftrightarrow> bands' = []" using s by auto
  moreover have "rb_kind (hd bands) = rb_kind (hd bands')" if "bands \<noteq> []" "\<not> 1 < length (remdups (map rb_kind bands))"
  proof -
    have "card (rb_kind ` set bands) \<le> Suc 0" using that(2) by (simp add: length_remdups_card_conv)
    moreover have "hd bands \<in> set bands" "hd bands' \<in> set bands" using that(1) s by (auto intro!: hd_in_set)
    ultimately show ?thesis using card_le_Suc0_iff_eq [of "rb_kind ` set bands"] by blast
  qed
  ultimately show ?thesis by (cases "bands = []"; cases "1 < length (remdups (map rb_kind bands))") (simp_all only: rateUsage_def o k Let_def if_True if_False simp_thms)
qed

section \<open>Commitments and prepaid balances\<close>

lemma moneyUnits_Inr [simp]: "toUnits v = Inr u \<Longrightarrow> moneyUnits v = Inr u"
  by (simp add: moneyUnits_def)

text \<open>
  A commitment is a floor: the true-up together with what was rated is the larger of the two, to the unit.
\<close>

theorem commit_is_floor:
  assumes "toUnits c = Inr cu" "toUnits r = Inr ru" "0 \<le> cu" "0 \<le> ru"
  shows "\<exists>s. commitShortfall c r = Inr s \<and> ru + units_of s = max cu ru"
proof -
  obtain t where "parseMoney (fromUnits (max 0 (cu - ru))) = Inr t" "toUnits t = Inr (max 0 (cu - ru))" using parseMoney_fromUnits by blast
  moreover have "(if cu - ru > 0 then cu - ru else 0) = max 0 (cu - ru)" by auto
  ultimately show ?thesis using assms by (auto simp: commitShortfall_def Let_def units_of_def)
qed

text \<open>
  A prepaid grant pays first: the draw is the rated amount up to the balance and the rest is billable, the two adding up to the rated amount; usage beyond the balance
  is refused unless overage is allowed.
\<close>

theorem prepaid_split_exact:
  assumes "toUnits r = Inr ru" "toUnits b = Inr bu" "0 \<le> ru" "0 \<le> bu"
  shows "if ru \<le> bu \<or> allow then \<exists>s. applyPrepaid r b allow = Inr s \<and> units_of (ps_drawn s) = min ru bu \<and> units_of (ps_drawn s) + units_of (ps_billable s) = ru
    else applyPrepaid r b allow = Inl (UsageBillingError ''prepaid_overage_disallowed'')"
proof -
  obtain d where d: "parseMoney (fromUnits (min ru bu)) = Inr d" "toUnits d = Inr (min ru bu)" using parseMoney_fromUnits by blast
  obtain e where e: "parseMoney (fromUnits (ru - min ru bu)) = Inr e" "toUnits e = Inr (ru - min ru bu)" using parseMoney_fromUnits by blast
  have m: "(if ru < bu then ru else bu) = min ru bu" by auto
  show ?thesis using assms d e unfolding applyPrepaid_def by (auto simp: Let_def m units_of_def)
qed

section \<open>Worked examples\<close>

definition tier :: "rating_band_kind \<Rightarrow> int \<Rightarrow> string option \<Rightarrow> string \<Rightarrow> string \<Rightarrow> rating_band" where
  "tier k n top_qty price flat = \<lparr>rb_kind = k, rb_seq = n, rb_upToQty = top_qty, rb_unitPrice = price, rb_flatAmount = flat, rb_includedQty = ''0'',
     rb_packageSize = Some ''5'', rb_packageRounding = Some Up\<rparr>"

definition two_tiers :: "rating_band_kind \<Rightarrow> rating_band list" where
  "two_tiers k = [tier k 1 (Some ''10'') ''0.5'' ''0'', tier k 2 None ''0.25'' ''3'']"

definition reading :: "string \<Rightarrow> string \<Rightarrow> string \<Rightarrow> string option \<Rightarrow> usage_record" where
  "reading i d q back = \<lparr>ur_id = i, ur_occurredOn = d, ur_quantity = q, ur_distinctKey = Some i, ur_reversesId = back\<rparr>"

theorem aggregateUsage_order_free_witness:
  "aggregateUsage Agg_last [reading ''a'' ''2026-01-02'' ''7'' None, reading ''b'' ''2026-01-01'' ''9'' None] = Inr ''7''
   \<and> aggregateUsage Agg_last [reading ''b'' ''2026-01-01'' ''9'' None, reading ''a'' ''2026-01-02'' ''7'' None] = Inr ''7''"
proof -
  have "aggregateUsage Agg_last [reading ''a'' ''2026-01-02'' ''7'' None, reading ''b'' ''2026-01-01'' ''9'' None] = Inr ''7''" by code_simp
  moreover have "aggregateUsage Agg_last [reading ''a'' ''2026-01-02'' ''7'' None, reading ''b'' ''2026-01-01'' ''9'' None]
      = aggregateUsage Agg_last [reading ''b'' ''2026-01-01'' ''9'' None, reading ''a'' ''2026-01-02'' ''7'' None]"
    by (rule aggregateUsage_order_free) (simp_all add: reading_def)
  ultimately show ?thesis by simp
qed

theorem reversal_erases_record_witness:
  "aggregateUsage Agg_max ([reading ''a'' ''2026-01-02'' ''7'' None, reading ''b'' ''2026-01-01'' ''9'' None] @ [reading ''c'' ''2026-01-03'' ''9'' (Some ''b'')]) = Inr ''7''"
proof -
  have "aggregateUsage Agg_max ([reading ''a'' ''2026-01-02'' ''7'' None, reading ''b'' ''2026-01-01'' ''9'' None] @ [reading ''c'' ''2026-01-03'' ''9'' (Some ''b'')])
    = aggregateUsage Agg_max (filter (\<lambda>r. ur_id r \<noteq> ''b'') [reading ''a'' ''2026-01-02'' ''7'' None, reading ''b'' ''2026-01-01'' ''9'' None])"
    by (rule reversal_erases_record) (simp_all add: reading_def)
  moreover have "aggregateUsage Agg_max (filter (\<lambda>r. ur_id r \<noteq> ''b'') [reading ''a'' ''2026-01-02'' ''7'' None, reading ''b'' ''2026-01-01'' ''9'' None]) = Inr ''7''" by code_simp
  ultimately show ?thesis by simp
qed

theorem graduated_rating_tiles_witness:
  "\<exists>lines placed lss. rateUsage ''12.5'' (two_tiers Graduated) = Inr lines \<and> lines = concat lss
    \<and> list_all2 part_ok (filter (\<lambda>p. 0 < snd p) (band_takes 1250000000 0 placed)) lss \<and> sum_list (map snd (band_takes 1250000000 0 placed)) = 1250000000"
proof -
  have "returns (rateUsage ''12.5'' (two_tiers Graduated))" by code_simp
  then obtain lines where l: "rateUsage ''12.5'' (two_tiers Graduated) = Inr lines" by (rule returnsE)
  have q: "quantityUnits ''12.5'' = Inr 1250000000" by code_simp
  from graduated_rating_tiles [OF l q] l show ?thesis by (auto simp: two_tiers_def tier_def)
qed

theorem volume_rating_lands_witness:
  "\<exists>lines (p :: placed_band). rateUsage ''12.5'' (two_tiers Volume) = Inr lines \<and> part_ok (fst p, 1250000000) lines"
proof -
  have "returns (rateUsage ''12.5'' (two_tiers Volume))" by code_simp
  then obtain lines where l: "rateUsage ''12.5'' (two_tiers Volume) = Inr lines" by (rule returnsE)
  have q: "quantityUnits ''12.5'' = Inr 1250000000" by code_simp
  have "\<exists>p :: placed_band. part_ok (fst p, 1250000000) lines" using volume_rating_lands [OF l q] by (auto simp: two_tiers_def tier_def simp del: split_paired_Ex)
  then show ?thesis using l by blast
qed

theorem package_rating_blocks_witness:
  "\<exists>lines placed p. rateUsage ''12.5'' (two_tiers Package) = Inr lines \<and> findLandedBand 1250000000 placed = Inr p"
proof -
  have "returns (rateUsage ''12.5'' (two_tiers Package))" by code_simp
  then obtain lines where l: "rateUsage ''12.5'' (two_tiers Package) = Inr lines" by (rule returnsE)
  have q: "quantityUnits ''12.5'' = Inr 1250000000" by code_simp
  have "\<exists>placed p. findLandedBand 1250000000 placed = Inr p" using package_rating_blocks [OF l q] by (auto simp: two_tiers_def tier_def simp del: split_paired_Ex)
  then show ?thesis using l by blast
qed

theorem rateUsage_band_order_witness: "rateUsage ''12.5'' (rev (two_tiers Graduated)) = rateUsage ''12.5'' (two_tiers Graduated)"
  by (rule rateUsage_band_order) (simp_all add: two_tiers_def tier_def)

theorem commit_is_floor_witness: "\<exists>s. commitShortfall ''100'' ''62.5'' = Inr s \<and> 625000 + units_of s = 1000000"
proof -
  have "toUnits ''100'' = Inr 1000000" "toUnits ''62.5'' = Inr 625000" by code_simp+
  from commit_is_floor [OF this] show ?thesis by simp
qed

theorem prepaid_split_exact_witness:
  "\<exists>s. applyPrepaid ''100'' ''62.5'' True = Inr s \<and> units_of (ps_drawn s) = 625000 \<and> units_of (ps_drawn s) + units_of (ps_billable s) = 1000000"
proof -
  have "toUnits ''100'' = Inr 1000000" "toUnits ''62.5'' = Inr 625000" by code_simp+
  from prepaid_split_exact [OF this, of True] show ?thesis by simp
qed

end
