(* ===== verification/Rebates.thy ===== *)
theory Rebates
  imports Brands "HOL-Library.AList"
begin

text \<open>
  Rebate arithmetic, \<open>engine/src/revenue/rebate-math.ts\<close>: validation of the terms, the rebate each line earns under retrospective tiers or a guaranteed cost or margin, and
  the choice between competing agreements.  A \<open>Map\<close> is an association list in insertion order; \<open>localeCompare\<close> is the parameter \<open>locale_compare\<close> of the selection.
  Thresholds and rates are texts without surrounding blanks, as the numeric columns render them.
\<close>

section \<open>Terms\<close>

datatype rebate_method = Percent | Per_unit | Fixed_cost | Guaranteed_margin
datatype tier_basis = Basis_amount | Basis_quantity

record rebate_tier =
  rt_threshold :: string
  rt_rate :: string

record rebate_terms =
  tm_method :: rebate_method
  tm_tierBasis :: tier_basis
  tm_tiers :: "rebate_tier list"
  tm_targetUnitCost :: "string option"
  tm_marginPercent :: "string option"

record rebate_line_basis =
  bl_id :: string
  bl_amount :: string
  bl_quantity :: string
  bl_cost :: "string option"
  bl_marginRevenue :: "string option"

definition exact :: "string option \<Rightarrow> string result" where
  "exact v = (case v of None \<Rightarrow> Inl (RebateError ''requires a non-negative exact decimal'')
     | Some s \<Rightarrow> (case canonicalDecimal s 4 of
         None \<Rightarrow> Inl (RebateError ''requires a non-negative exact decimal'')
       | Some canonical \<Rightarrow> if starts_minus canonical then Inl (RebateError ''requires a non-negative exact decimal'') else Inr canonical))"

definition check_tier :: "rebate_method \<Rightarrow> string option \<Rightarrow> rebate_tier \<Rightarrow> string option result" where
  "check_tier m prev tier = bindE (exact (Some (rt_threshold tier))) (\<lambda>threshold. bindE (exact (Some (rt_rate tier))) (\<lambda>rate.
     bindE (case prev of None \<Rightarrow> Inr () | Some lst \<Rightarrow> bindE (cmp_money threshold lst) (\<lambda>c. ensure (c > 0) (RebateError ''Rebate thresholds must increase strictly''))) (\<lambda>_.
     bindE (if m = Percent then bindE (cmp_money rate ''100'') (\<lambda>c. ensure (c \<le> 0) (RebateError ''A rebate percentage cannot exceed 100'')) else Inr ()) (\<lambda>_.
     Inr (Some threshold)))))"

definition validateRebateTerms :: "rebate_terms \<Rightarrow> unit result" where
  "validateRebateTerms terms =
     (if length (tm_tiers terms) > 100 then Inl (RebateError ''Rebate tiers require at most one hundred rows'')
      else bindE (foldE (check_tier (tm_method terms)) None (tm_tiers terms)) (\<lambda>_.
        if tm_method terms \<in> {Percent, Per_unit} \<and> tm_tiers terms = [] then Inl (RebateError ''Configure at least one rebate tier'')
        else bindE (if tm_method terms = Fixed_cost then bindE (exact (tm_targetUnitCost terms)) (\<lambda>_. Inr ()) else Inr ()) (\<lambda>_.
          if tm_method terms = Guaranteed_margin
          then bindE (exact (tm_marginPercent terms)) (\<lambda>margin. bindE (cmp_money margin ''100'') (\<lambda>c.
            ensure (c < 0) (RebateError ''Guaranteed margin must be less than 100 percent'')))
          else Inr ())))"

section \<open>Earned rebates\<close>

definition rebate_quantityUnits :: "string \<Rightarrow> int result" where
  "rebate_quantityUnits v = (case canonicalDecimal v 8 of
     None \<Rightarrow> Inl (RebateError ''Rebate quantity requires an exact decimal with at most eight places'')
   | Some canonical \<Rightarrow> bindE (fixedDecimal canonical 8) (\<lambda>t. Inr (bigint_of_text (remove1 CHR ''.'' t))))"

definition quantityAmount :: "string \<Rightarrow> string \<Rightarrow> string result" where
  "quantityAmount v quantity = bindE (toUnits v) (\<lambda>u. bindE (rebate_quantityUnits quantity) (\<lambda>q.
     bindE (roundDiv (u * q) 100000000) (\<lambda>r. Inr (fromUnits r))))"

definition quantity_volume :: "int \<Rightarrow> string" where
  "quantity_volume qty = (let a = (if qty < 0 then - qty else qty) in
     (if qty < 0 then ''-'' else []) @ bigint_text (a sdiv 100000000) @ CHR ''.'' # padStart (bigint_text (a smod 100000000)) 8 CHR ''0'')"

text \<open>What the guarantee leaves to be refunded, never against the direction of the line.\<close>

definition guarantee_rebate :: "rebate_line_basis \<Rightarrow> string \<Rightarrow> string result" where
  "guarantee_rebate l rebate = bindE (cmp_money (bl_amount l) ''0'') (\<lambda>a.
     bindE (if a \<ge> 0 then bindE (rebate_quantityUnits (bl_quantity l)) (\<lambda>q. Inr (q \<ge> 0)) else Inr False) (\<lambda>forward.
     bindE (cmp_money rebate ''0'') (\<lambda>c. Inr (if forward then (if c > 0 then rebate else ''0'') else (if c < 0 then rebate else ''0'')))))"

definition lineRebate :: "rebate_terms \<Rightarrow> rebate_tier option \<Rightarrow> rebate_line_basis \<Rightarrow> string result" where
  "lineRebate terms tier l = (case tm_method terms of
     Percent \<Rightarrow> (case tier of Some t \<Rightarrow> mulPercent (bl_amount l) (rt_rate t) 4 | None \<Rightarrow> Inr ''0'')
   | Per_unit \<Rightarrow> (case tier of Some t \<Rightarrow> quantityAmount (rt_rate t) (bl_quantity l) | None \<Rightarrow> Inr ''0'')
   | m \<Rightarrow> (case bl_cost l of
       None \<Rightarrow> Inl (RebateError ''Guaranteed-cost and margin rebates require posted inventory cost or an approved cost attestation'')
     | Some cost \<Rightarrow>
         if m = Guaranteed_margin \<and> bl_marginRevenue l = None then Inl (RebateError ''Guaranteed margin requires documented downstream resale revenue'')
         else bindE (if m = Fixed_cost then quantityAmount (or_else (tm_targetUnitCost terms) []) (bl_quantity l)
             else bindE (neg_money (or_else (tm_marginPercent terms) [])) (\<lambda>n. bindE (add_money ''100'' n) (\<lambda>share.
               mulPercent (or_else (bl_marginRevenue l) []) share 4))) (\<lambda>guarantee.
           bindE (neg_money guarantee) (\<lambda>n. bindE (add_money cost n) (guarantee_rebate l)))))"

definition earned_tier :: "rebate_terms \<Rightarrow> string \<Rightarrow> rebate_tier option" where
  "earned_tier terms volume = (let reached = filter (\<lambda>t. compareDecimal volume (rt_threshold t) \<ge> 0) (tm_tiers terms)
     in if reached = [] then None else Some (last reached))"

definition earnedRebates :: "rebate_terms \<Rightarrow> rebate_line_basis list \<Rightarrow> (string \<times> string) list result" where
  "earnedRebates terms lines = bindE (validateRebateTerms terms) (\<lambda>_.
     bindE (foldE (\<lambda>n l. bindE (rebate_quantityUnits (bl_quantity l)) (\<lambda>q. Inr (n + q))) 0 lines) (\<lambda>qty.
     bindE (case tm_tierBasis terms of Basis_amount \<Rightarrow> sum_money (map bl_amount lines) | Basis_quantity \<Rightarrow> Inr (quantity_volume qty)) (\<lambda>volume.
     foldE (\<lambda>res l. bindE (lineRebate terms (earned_tier terms volume) l) (\<lambda>r. Inr (AList.update (bl_id l) r res))) [] lines)))"

section \<open>Competing agreements\<close>

datatype stacking = Stack | Best

record rebate_candidate =
  rc_agreementId :: string
  rc_lineId :: string
  rc_amount :: string
  rc_stacking :: stacking
  rc_selectionGroup :: string

definition magnitude_of :: "string \<Rightarrow> string result" where
  "magnitude_of amount = bindE (toUnits amount) (\<lambda>u. if u < 0 then neg_money amount else Inr amount)"

definition deal_key :: "rebate_candidate \<Rightarrow> string" where
  "deal_key c = rc_lineId c @ CHR '':'' # rc_selectionGroup c"

definition consider_deal :: "(string \<times> rebate_candidate) list \<Rightarrow> rebate_candidate \<Rightarrow> (string \<times> rebate_candidate) list result" where
  "consider_deal groups candidate =
     (if trim (rc_selectionGroup candidate) = [] then Inl (RebateError ''A best-deal selection group is required'')
      else bindE (magnitude_of (rc_amount candidate)) (\<lambda>magnitude.
        case map_of groups (deal_key candidate) of
          None \<Rightarrow> Inr (AList.update (deal_key candidate) candidate groups)
        | Some winner \<Rightarrow> bindE (magnitude_of (rc_amount winner)) (\<lambda>current. bindE (cmp_money magnitude current) (\<lambda>c.
            Inr (if c > 0 then AList.update (deal_key candidate) candidate groups else groups)))))"

definition selectRebateDeals :: "(string \<Rightarrow> string \<Rightarrow> int) \<Rightarrow> rebate_candidate list \<Rightarrow> rebate_candidate list result" where
  "selectRebateDeals locale_compare candidates = (let stacked = filter (\<lambda>c. rc_stacking c = Stack) candidates in
     bindE (foldE consider_deal [] (js_sort (\<lambda>a b. locale_compare (rc_agreementId a) (rc_agreementId b)) (filter (\<lambda>c. rc_stacking c = Best) candidates)))
       (\<lambda>groups. Inr (stacked @ map snd groups)))"

section \<open>Choosing between agreements\<close>

abbreviation (input) candidate_units :: "rebate_candidate \<Rightarrow> int" where "candidate_units c \<equiv> \<bar>units_of (rc_amount c)\<bar>"

lemma magnitude_of_reads: "magnitude_of a = Inr m \<Longrightarrow> reads a \<and> reads m \<and> units_of m = \<bar>units_of a\<bar>"
  by (auto simp: magnitude_of_def bindE_Inr_iff dest!: money_reads split: if_splits)

text \<open>
  The groups after the candidates \<open>seen\<close>: one entry per key, holding a candidate seen under that key, at least as large as every other seen, and before every other of the
  same size.
\<close>

definition winners_of :: "rebate_candidate list \<Rightarrow> (string \<times> rebate_candidate) list \<Rightarrow> bool" where
  "winners_of seen groups \<longleftrightarrow> distinct (map fst groups) \<and> fst ` set groups = deal_key ` set seen
     \<and> (\<forall>(k, w) \<in> set groups. deal_key w = k \<and> (\<exists>before after. seen = before @ w # after
          \<and> (\<forall>c \<in> set before. deal_key c = k \<longrightarrow> candidate_units c < candidate_units w) \<and> (\<forall>c \<in> set after. deal_key c = k \<longrightarrow> candidate_units c \<le> candidate_units w)))"

lemma winners_keep:
  assumes "winners_of seen groups" "(k, w) \<in> set groups" "deal_key c = k \<longrightarrow> candidate_units c \<le> candidate_units w"
  shows "\<exists>before after. seen @ [c] = before @ w # after
      \<and> (\<forall>c \<in> set before. deal_key c = k \<longrightarrow> candidate_units c < candidate_units w) \<and> (\<forall>c \<in> set after. deal_key c = k \<longrightarrow> candidate_units c \<le> candidate_units w)"
proof -
  obtain before after where "seen = before @ w # after" "\<forall>c \<in> set before. deal_key c = k \<longrightarrow> candidate_units c < candidate_units w"
      "\<forall>c \<in> set after. deal_key c = k \<longrightarrow> candidate_units c \<le> candidate_units w"
    using assms(1,2) unfolding winners_of_def by blast
  then show ?thesis using assms(3) by (intro exI [of _ before] exI [of _ "after @ [c]"]) simp
qed

lemma winners_replace:
  assumes "winners_of seen groups" "\<And>w. map_of groups (deal_key c) = Some w \<Longrightarrow> candidate_units w < candidate_units c"
  shows "winners_of (seen @ [c]) (AList.update (deal_key c) c groups)"
proof -
  have d: "distinct (map fst groups)" and key: "fst ` set groups = deal_key ` set seen" using assms(1) by (simp_all add: winners_of_def)
  have dom: "fst ` set (AList.update (deal_key c) c groups) = deal_key ` set (seen @ [c])" by (simp add: dom_update key)
  have small: "candidate_units x < candidate_units c" if x: "x \<in> set seen" "deal_key x = deal_key c" for x
  proof -
    have "deal_key c \<in> fst ` set groups" using x by (metis key image_eqI)
    then obtain w where w: "(deal_key c, w) \<in> set groups" by auto
    have "candidate_units w < candidate_units c" using assms(2) w d by (simp add: map_of_is_SomeI)
    moreover have "candidate_units x \<le> candidate_units w"
    proof -
      obtain before after where "seen = before @ w # after" "\<forall>c' \<in> set before. deal_key c' = deal_key c \<longrightarrow> candidate_units c' < candidate_units w"
          "\<forall>c' \<in> set after. deal_key c' = deal_key c \<longrightarrow> candidate_units c' \<le> candidate_units w"
        using assms(1) w unfolding winners_of_def by blast
      then show ?thesis using x by auto
    qed
    ultimately show ?thesis by simp
  qed
  have "deal_key w = k \<and> (\<exists>before after. seen @ [c] = before @ w # after
      \<and> (\<forall>c \<in> set before. deal_key c = k \<longrightarrow> candidate_units c < candidate_units w) \<and> (\<forall>c \<in> set after. deal_key c = k \<longrightarrow> candidate_units c \<le> candidate_units w))"
    if m: "(k, w) \<in> set (AList.update (deal_key c) c groups)" for k w
  proof (cases "k = deal_key c")
    case True
    have "map_of (AList.update (deal_key c) c groups) k = Some w" using m d by (intro map_of_is_SomeI distinct_update) 
    then have "w = c" using True by (simp add: update_conv)
    then show ?thesis using True small by (intro conjI exI [of _ seen] exI [of _ "[]"]) auto
  next
    case False
    have "map_of (AList.update (deal_key c) c groups) k = Some w" using m d by (intro map_of_is_SomeI distinct_update)
    then have g: "(k, w) \<in> set groups" using False by (simp add: update_conv map_of_SomeD)
    then show ?thesis using winners_keep [OF assms(1) g, of c] False assms(1) by (auto simp: winners_of_def)
  qed
  then show ?thesis using dom d unfolding winners_of_def by (auto simp: distinct_update)
qed

lemma consider_deal_winners:
  assumes "consider_deal groups c = Inr groups'" "winners_of seen groups"
  shows "winners_of (seen @ [c]) groups'"
proof (cases "map_of groups (deal_key c)")
  case None
  then have "groups' = AList.update (deal_key c) c groups" using assms(1) by (auto simp: consider_deal_def bindE_Inr_iff split: if_splits)
  moreover have "winners_of (seen @ [c]) (AList.update (deal_key c) c groups)" by (rule winners_replace [OF assms(2)]) (simp add: None)
  ultimately show ?thesis by simp
next
  case (Some w)
  obtain m m' r where m: "magnitude_of (rc_amount c) = Inr m" "magnitude_of (rc_amount w) = Inr m'" "cmp_money m m' = Inr r"
      "groups' = (if r > 0 then AList.update (deal_key c) c groups else groups)"
    using assms(1) Some by (auto simp: consider_deal_def bindE_Inr_iff split: if_splits)
  have r: "r > 0 \<longleftrightarrow> candidate_units w < candidate_units c" using magnitude_of_reads [OF m(1)] magnitude_of_reads [OF m(2)] cmp_money_reads [OF m(3)] by simp
  show ?thesis
  proof (cases "r > 0")
    case True
    then show ?thesis using winners_replace [OF assms(2), of c] m(4) r Some by simp
  next
    case False
    have w: "(deal_key c, w) \<in> set groups" using Some by (rule map_of_SomeD)
    have k: "fst ` set groups = deal_key ` set seen" "distinct (map fst groups)" using assms(2) by (simp_all add: winners_of_def)
    have only: "v = w" if "(deal_key c, v) \<in> set groups" for v using that w k(2) by (metis eq_key_imp_eq_value)
    have "deal_key v = k \<and> (\<exists>before after. seen @ [c] = before @ v # after
        \<and> (\<forall>c \<in> set before. deal_key c = k \<longrightarrow> candidate_units c < candidate_units v) \<and> (\<forall>c \<in> set after. deal_key c = k \<longrightarrow> candidate_units c \<le> candidate_units v))"
      if v: "(k, v) \<in> set groups" for k v
    proof
      show "deal_key v = k" using v assms(2) by (auto simp: winners_of_def)
      have "deal_key c = k \<longrightarrow> candidate_units c \<le> candidate_units v" using v only False r by auto
      from winners_keep [OF assms(2) v this] show "\<exists>before after. seen @ [c] = before @ v # after
        \<and> (\<forall>c \<in> set before. deal_key c = k \<longrightarrow> candidate_units c < candidate_units v) \<and> (\<forall>c \<in> set after. deal_key c = k \<longrightarrow> candidate_units c \<le> candidate_units v)" .
    qed
    moreover have "deal_key c \<in> fst ` set groups" using w by force
    ultimately show ?thesis using False m(4) k unfolding winners_of_def by auto
  qed
qed

lemma consider_deals_winners: "foldE consider_deal groups cs = Inr groups' \<Longrightarrow> winners_of seen groups \<Longrightarrow> winners_of (seen @ cs) groups'"
proof (induction cs arbitrary: seen groups)
  case (Cons c cs)
  from Cons.prems(1) obtain g where g: "consider_deal groups c = Inr g" "foldE consider_deal g cs = Inr groups'" by (auto simp: bindE_Inr_iff)
  show ?case using Cons.IH [OF g(2) consider_deal_winners [OF g(1) Cons.prems(2)]] by simp
qed simp

lemma order_of_split:
  assumes "sorted_wrt R (before @ w # after)" "x \<in> set (before @ w # after)" "\<And>x. R x x" "x \<notin> set before"
  shows "R w x"
  using assms by (auto simp: sorted_wrt_append)

text \<open>
  C20: Every stackable agreement is kept, and each best-deal group on a line has exactly one winner: the candidate with the greatest absolute rebate, and among equals the one
  whose agreement comes first in the locale's order.
\<close>

theorem best_deal_wins:
  assumes "selectRebateDeals lc cs = Inr out" "\<And>s t. lc s t \<le> 0 \<or> lc t s \<le> 0" "transp (\<lambda>s t. lc s t \<le> 0)"
  shows "\<exists>ws. out = filter (\<lambda>c. rc_stacking c = Stack) cs @ ws \<and> distinct (map deal_key ws)
    \<and> set (map deal_key ws) = deal_key ` {c \<in> set cs. rc_stacking c = Best}
    \<and> (\<forall>w \<in> set ws. w \<in> set cs \<and> rc_stacking w = Best \<and> (\<forall>c \<in> set cs. rc_stacking c = Best \<and> deal_key c = deal_key w \<longrightarrow>
         candidate_units c < candidate_units w \<or> candidate_units c = candidate_units w \<and> lc (rc_agreementId w) (rc_agreementId c) \<le> 0))"
proof -
  let ?R = "\<lambda>a b. lc (rc_agreementId a) (rc_agreementId b) \<le> 0"
  let ?s = "js_sort (\<lambda>a b. lc (rc_agreementId a) (rc_agreementId b)) (filter (\<lambda>c. rc_stacking c = Best) cs)"
  obtain gs where g: "foldE consider_deal [] ?s = Inr gs" "out = filter (\<lambda>c. rc_stacking c = Stack) cs @ map snd gs"
    using assms(1) by (auto simp: selectRebateDeals_def Let_def bindE_Inr_iff)
  have win: "winners_of ?s gs" using consider_deals_winners [OF g(1), of "[]"] by (simp add: winners_of_def)
  have keys: "map deal_key (map snd gs) = map fst gs" using win by (auto simp: winners_of_def)
  have "transp ?R" using assms(3) by (auto simp: transp_def)
  then have srt: "sorted_wrt ?R ?s" using assms(2) by (intro sorted_wrt_js_sort) auto
  have "w \<in> set cs \<and> rc_stacking w = Best \<and> (\<forall>c \<in> set cs. rc_stacking c = Best \<and> deal_key c = deal_key w \<longrightarrow>
      candidate_units c < candidate_units w \<or> candidate_units c = candidate_units w \<and> ?R w c)" if w: "w \<in> snd ` set gs" for w
  proof -
    from w obtain k where k: "(k, w) \<in> set gs" by auto
    obtain before after where s: "?s = before @ w # after" "deal_key w = k" "\<forall>c \<in> set before. deal_key c = k \<longrightarrow> candidate_units c < candidate_units w"
      "\<forall>c \<in> set after. deal_key c = k \<longrightarrow> candidate_units c \<le> candidate_units w" using win k unfolding winners_of_def by blast
    have m: "c \<in> set ?s \<longleftrightarrow> c \<in> set cs \<and> rc_stacking c = Best" for c by auto
    have refl: "?R x x" for x using assms(2) by auto
    have "candidate_units c < candidate_units w \<or> candidate_units c = candidate_units w \<and> ?R w c" if c: "c \<in> set ?s" "deal_key c = deal_key w" for c
    proof (cases "c \<in> set before")
      case False
      then have "?R w c" using srt c(1) by (intro order_of_split [of ?R before w after c]) (simp_all only: s(1) refl not_False_eq_True)
      moreover have "candidate_units c \<le> candidate_units w" using False c s by auto
      ultimately show ?thesis by auto
    qed (use c s in auto)
    moreover have "w \<in> set ?s" using s(1) by simp
    ultimately show ?thesis unfolding m by blast
  qed
  moreover have "set (map fst gs) = deal_key ` set ?s" "distinct (map fst gs)" using win by (simp_all add: winners_of_def)
  then have "set (map deal_key (map snd gs)) = deal_key ` {c \<in> set cs. rc_stacking c = Best}" "distinct (map deal_key (map snd gs))"
    unfolding keys by (auto simp: set_filter)
  ultimately show ?thesis using g(2) by (intro exI [of _ "map snd gs"]) simp
qed

section \<open>Earned rebates\<close>

lemma plain_decimal_value:
  assumes "signed_plain_decimal s" "trim s = s"
  shows "decimal_value s = Some (plain_value s)"
proof -
  obtain w f where wf: "split_dot (strip_sign s) = (w, f)" by (cases "split_dot (strip_sign s)")
  have "plain_decimal (strip_sign s)" using assms(1) by (simp add: signed_plain_decimal_def)
  then show ?thesis using assms(2) wf
    by (simp add: decimal_value_def decimal_parts_def decimal_number_def exponent_match_plain Let_def signed_value_def plain_value_def)
qed

text \<open>A tier as the numeric columns render it: plain texts that read as money.\<close>

definition tier_reads :: "rebate_tier \<Rightarrow> bool" where
  "tier_reads t \<longleftrightarrow> (\<forall>s \<in> {rt_threshold t, rt_rate t}. reads s \<and> signed_plain_decimal s \<and> trim s = s \<and> length (snd (split_dot (strip_sign s))) \<le> 18)"

lemma reads_plain: "reads s \<Longrightarrow> signed_plain_decimal s \<Longrightarrow> trim s = s \<Longrightarrow> plain_value s = of_int (units_of s) / 10000"
  using plain_decimal_value by (fastforce simp: reads_def toUnits_value)

lemma compare_units:
  assumes "reads s" "signed_plain_decimal s" "trim s = s"
  shows "compareDecimal (fromUnits u) s \<ge> 0 \<longleftrightarrow> units_of s \<le> u"
proof -
  have "of_int (compareDecimal (fromUnits u) s) = sgn (of_int (u - units_of s) / 10000 :: rat)"
    using compareDecimal_value [of "fromUnits u" s] assms by (simp add: fromUnits_plain reads_plain diff_divide_distrib)
  also have "\<dots> = of_int (sgn (u - units_of s))" by (simp add: sgn_if)
  finally show ?thesis by (simp only: of_int_eq_iff) (simp add: sgn_if)
qed

lemma exact_units: "exact (Some s) = Inr c \<Longrightarrow> reads s \<Longrightarrow> units_of c = units_of s"
proof -
  assume e: "exact (Some s) = Inr c" and r: "reads s"
  have c: "canonicalPlainDecimal s 4 = Some c" using e by (auto simp: exact_def canonicalDecimal_def split: option.splits if_splits)
  obtain p :: exact_decimal where "c = renderExactDecimal (ed_units p) (ed_scale p)" by (rule canonicalPlainDecimal_Some [OF c]) blast
  then have "exponent_in_range c" using renderExactDecimal_text [of "ed_units p" "ed_scale p"] by simp
  moreover have "decimal_value c = Some (of_int (units_of s) / 10000)"
    using canonicalPlainDecimal_value [OF c] r by (simp add: reads_def toUnits_value)
  ultimately have "toUnits c = Inr (units_of s)" by (simp add: toUnits_value)
  then show ?thesis by (auto dest: readsI)
qed

lemma check_tiers_increase:
  assumes "foldE (check_tier m) prev ts = Inr out" "\<forall>t \<in> set ts. reads (rt_threshold t)"
  shows "sorted_wrt (\<lambda>a b. units_of (rt_threshold a) < units_of (rt_threshold b)) ts \<and> (\<forall>t \<in> set ts. case prev of None \<Rightarrow> True | Some p \<Rightarrow> units_of p < units_of (rt_threshold t))"
  using assms
proof (induction ts arbitrary: prev)
  case (Cons t ts)
  from Cons.prems(1) obtain x where x: "check_tier m prev t = Inr x" "foldE (check_tier m) x ts = Inr out" by (auto simp: bindE_Inr_iff)
  obtain th where s: "exact (Some (rt_threshold t)) = Inr th" "x = Some th" using x(1) by (auto simp: check_tier_def [of m prev t] bindE_Inr_iff)
  have u: "units_of th = units_of (rt_threshold t)" using exact_units [OF s(1)] Cons.prems(2) by simp
  have p: "case prev of None \<Rightarrow> True | Some p \<Rightarrow> units_of p < units_of (rt_threshold t)"
    using x(1) s(1) u by (cases prev) (auto simp: check_tier_def bindE_Inr_iff ensure_Inr_iff dest: cmp_money_reads)
  from Cons.IH [OF x(2)] Cons.prems(2) u p s(2) show ?case by (cases prev) auto
qed simp

lemma last_filter_greatest:
  assumes "sorted_wrt (\<lambda>a b. f a < (f b :: int)) xs" "filter P xs \<noteq> []" "x \<in> set xs" "P x"
  shows "f x \<le> f (last (filter P xs))"
proof -
  have s: "sorted_wrt (\<lambda>a b. f a < f b) (filter P xs)" using assms(1) by (rule sorted_wrt_filter)
  have "x \<in> set (filter P xs)" using assms(3,4) by simp
  moreover obtain ys y where y: "filter P xs = ys @ [y]" using assms(2) by (metis rev_exhaust)
  ultimately show ?thesis using s by (auto simp: sorted_wrt_append)
qed

definition top_tier :: "rebate_tier list \<Rightarrow> int \<Rightarrow> rebate_tier option \<Rightarrow> bool" where
  "top_tier tiers volume t \<longleftrightarrow> (case t of
     None \<Rightarrow> \<forall>s \<in> set tiers. volume < units_of (rt_threshold s)
   | Some t \<Rightarrow> t \<in> set tiers \<and> units_of (rt_threshold t) \<le> volume
       \<and> (\<forall>s \<in> set tiers. units_of (rt_threshold s) \<le> volume \<longrightarrow> units_of (rt_threshold s) \<le> units_of (rt_threshold t)))"

lemma earned_tier_top:
  assumes "validateRebateTerms terms = Inr u" "\<forall>t \<in> set (tm_tiers terms). tier_reads t"
  shows "top_tier (tm_tiers terms) v (earned_tier terms (fromUnits v))"
proof -
  let ?P = "\<lambda>t. compareDecimal (fromUnits v) (rt_threshold t) \<ge> 0"
  have p: "?P t \<longleftrightarrow> units_of (rt_threshold t) \<le> v" if "t \<in> set (tm_tiers terms)" for t
    using assms(2) that by (intro compare_units) (auto simp: tier_reads_def)
  obtain out where "foldE (check_tier (tm_method terms)) None (tm_tiers terms) = Inr out"
    using assms(1) by (auto simp: validateRebateTerms_def bindE_Inr_iff split: if_splits)
  then have srt: "sorted_wrt (\<lambda>a b. units_of (rt_threshold a) < units_of (rt_threshold b)) (tm_tiers terms)"
    using check_tiers_increase assms(2) by (fastforce simp: tier_reads_def)
  show ?thesis
  proof (cases "filter ?P (tm_tiers terms) = []")
    case True
    then show ?thesis using p by (auto simp: earned_tier_def top_tier_def filter_empty_conv not_le)
  next
    case False
    define t where "t = last (filter ?P (tm_tiers terms))"
    have "t \<in> set (filter ?P (tm_tiers terms))" unfolding t_def using False by (rule last_in_set)
    then have "t \<in> set (tm_tiers terms)" "?P t" by simp_all
    moreover have "earned_tier terms (fromUnits v) = Some t" using False by (simp add: earned_tier_def t_def)
    ultimately show ?thesis using p last_filter_greatest [OF srt False, folded t_def] by (simp add: top_tier_def)
  qed
qed

lemma update_loop_lookup:
  assumes "foldE (\<lambda>res l. bindE (f l) (\<lambda>r. Inr (AList.update (k l) r res))) res0 xs = Inr out" "distinct (map k xs)"
  shows "(\<forall>x \<in> set xs. \<exists>r. f x = Inr r \<and> map_of out (k x) = Some r) \<and> (\<forall>i. i \<notin> k ` set xs \<longrightarrow> map_of out i = map_of res0 i)"
  using assms
proof (induction xs arbitrary: res0)
  case (Cons x xs)
  from Cons.prems(1) obtain r where r: "f x = Inr r" "foldE (\<lambda>res l. bindE (f l) (\<lambda>r. Inr (AList.update (k l) r res))) (AList.update (k x) r res0) xs = Inr out"
    by (auto simp: bindE_Inr_iff)
  note ih = Cons.IH [OF r(2)]
  have "k x \<notin> k ` set xs" "distinct (map k xs)" using Cons.prems(2) by auto
  then show ?case using ih r(1) by (simp add: update_conv)
qed simp

text \<open>
  C36: Tiers are retrospective.  Under percentage terms on amounts, the tier earned is the highest one that the whole period's amount reaches, and every line earns
  that tier's percentage of its amount, rounded once; without a tier reached, nothing.
\<close>

theorem percent_rebates_retrospective:
  assumes "earnedRebates terms lines = Inr out" "tm_method terms = Percent" "tm_tierBasis terms = Basis_amount"
    "\<forall>t \<in> set (tm_tiers terms). tier_reads t" "distinct (map bl_id lines)"
  shows "\<exists>tier. top_tier (tm_tiers terms) (\<Sum>l\<leftarrow>lines. units_of (bl_amount l)) tier
    \<and> (\<forall>l \<in> set lines. \<exists>r. map_of out (bl_id l) = Some r \<and> units_of r = (case tier of None \<Rightarrow> 0
         | Some t \<Rightarrow> half_away (of_int (units_of (bl_amount l)) * (of_int (units_of (rt_rate t)) / 10000) / 100)))"
proof -
  obtain u volume where e: "validateRebateTerms terms = Inr u" "sum_money (map bl_amount lines) = Inr volume"
      "foldE (\<lambda>res l. bindE (lineRebate terms (earned_tier terms volume) l) (\<lambda>r. Inr (AList.update (bl_id l) r res))) [] lines = Inr out"
    using assms(1,3) by (auto simp: earnedRebates_def bindE_Inr_iff)
  note s = sum_money_reads [OF e(2)]
  let ?v = "\<Sum>l\<leftarrow>lines. units_of (bl_amount l)"
  have v: "volume = fromUnits ?v"
    using e(2) s sum_money_units [of "map bl_amount lines"] by (auto simp: sum_money_def bindE_Inr_iff o_def)
  define tier where "tier = earned_tier terms volume"
  have top: "top_tier (tm_tiers terms) ?v tier" unfolding tier_def v by (rule earned_tier_top [OF e(1) assms(4)])
  have "\<exists>r. map_of out (bl_id l) = Some r \<and> units_of r = (case tier of None \<Rightarrow> 0
         | Some t \<Rightarrow> half_away (of_int (units_of (bl_amount l)) * (of_int (units_of (rt_rate t)) / 10000) / 100))" if l: "l \<in> set lines" for l
  proof -
    obtain r where r: "lineRebate terms tier l = Inr r" "map_of out (bl_id l) = Some r"
      using update_loop_lookup [OF e(3) assms(5)] l unfolding tier_def by blast
    show ?thesis
    proof (cases tier)
      case None
      then show ?thesis using r assms(2) by (auto simp: lineRebate_def)
    next
      case (Some t)
      then have t: "tier_reads t" using top assms(4) by (simp add: top_tier_def)
      have "toUnits (bl_amount l) = Inr (units_of (bl_amount l))" using s l by (simp add: reads_def)
      from mulPercent_units [OF this, of 4 "rt_rate t"] t have "mulPercent (bl_amount l) (rt_rate t) 4 = Inr (fromUnits (half_away (of_int (units_of (bl_amount l)) * plain_value (rt_rate t) / 100)))"
        by (simp add: tier_reads_def)
      then show ?thesis using r Some assms(2) t by (auto simp: lineRebate_def tier_reads_def reads_plain)
    qed
  qed
  then show ?thesis using top by blast
qed

section \<open>Guaranteed costs and margins\<close>

lemma rebate_quantityUnits_value:
  assumes "rebate_quantityUnits q = Inr u"
  shows "decimal_value q = Some (of_int u / 10 ^ 8)"
proof -
  obtain c t where c: "canonicalPlainDecimal q 8 = Some c" "fixedDecimal c 8 = Inr t" "u = bigint_of_text (remove1 CHR ''.'' t)"
    using assms by (auto simp: rebate_quantityUnits_def canonicalDecimal_def bindE_Inr_iff split: option.splits)
  obtain w f x where d: "t = (if x < 0 then ''-'' else []) @ w @ CHR ''.'' # f" "list_all is_digit w" "w \<noteq> []" "list_all is_digit f"
    "int (digits_val (w @ f)) = \<bar>x\<bar>" "decimal_value c = Some (of_int x / 10 ^ 8)" by (rule fixedDecimal_shape [OF c(2)]) auto
  have "CHR ''.'' \<notin> set w" using d(2) by (auto simp: list_all_iff)
  then have "remove1 CHR ''.'' t = (if x < 0 then ''-'' else []) @ w @ f" using d(1) by (simp add: remove1_append)
  then have "u = x" using c(3) d(5) digits_starts_minus [OF d(2,3), of f] by (cases "x < 0") (simp_all add: bigint_of_text_def)
  then show ?thesis using d(6) canonicalPlainDecimal_value [OF c(1)] by simp
qed

lemma quantityAmount_units:
  assumes "quantityAmount v q = Inr t"
  shows "\<exists>qu. rebate_quantityUnits q = Inr qu \<and> reads v \<and> reads t \<and> units_of t = half_away (of_int (units_of v) * (of_int qu / 10 ^ 8))"
proof -
  obtain u qu where u: "toUnits v = Inr u" "rebate_quantityUnits q = Inr qu" "t = fromUnits (round_quot (u * qu) 100000000)"
    using assms by (auto simp: quantityAmount_def bindE_Inr_iff roundDiv_Inr_iff)
  then show ?thesis using readsI [OF u(1)] round_quot_half_away [of 100000000 "u * qu"] by simp
qed

lemma guarantee_rebate_units:
  assumes "guarantee_rebate l r = Inr t"
  shows "\<exists>qu. (0 \<le> units_of (bl_amount l) \<longrightarrow> rebate_quantityUnits (bl_quantity l) = Inr qu)
    \<and> units_of t = (if 0 \<le> units_of (bl_amount l) \<and> 0 \<le> qu then max 0 (units_of r) else min 0 (units_of r))"
proof -
  obtain a c where a: "cmp_money (bl_amount l) ''0'' = Inr a" "cmp_money r ''0'' = Inr c" using assms by (auto simp: guarantee_rebate_def bindE_Inr_iff)
  note s = cmp_money_reads [OF a(1), simplified] cmp_money_reads [OF a(2), simplified]
  show ?thesis
  proof (cases "0 \<le> a")
    case True
    then obtain qu where "rebate_quantityUnits (bl_quantity l) = Inr qu" using assms a by (auto simp: guarantee_rebate_def bindE_Inr_iff)
    then show ?thesis using assms a s True by (intro exI [of _ qu]) (auto simp: guarantee_rebate_def)
  next
    case False
    then show ?thesis using assms a s by (auto simp: guarantee_rebate_def)
  qed
qed

text \<open>
  A guaranteed unit cost: the rebate is what the posted cost exceeds the guarantee (target times quantity, rounded once), and the other way on a return; it is never
  negative on a purchase and never positive on a return.
\<close>

theorem guaranteed_cost_refunds_excess:
  assumes "lineRebate terms tier l = Inr r" "tm_method terms = Fixed_cost"
  shows "\<exists>cost target qu. bl_cost l = Some cost \<and> target = or_else (tm_targetUnitCost terms) [] \<and> rebate_quantityUnits (bl_quantity l) = Inr qu
    \<and> (let excess = units_of cost - half_away (of_int (units_of target) * (of_int qu / 10 ^ 8))
       in units_of r = (if 0 \<le> units_of (bl_amount l) \<and> 0 \<le> qu then max 0 excess else min 0 excess))"
proof -
  obtain cost g n d where c: "bl_cost l = Some cost" "quantityAmount (or_else (tm_targetUnitCost terms) []) (bl_quantity l) = Inr g" "neg_money g = Inr n"
      "add_money cost n = Inr d" "guarantee_rebate l d = Inr r"
    using assms by (auto simp: lineRebate_def bindE_Inr_iff split: option.splits)
  obtain qu where q: "rebate_quantityUnits (bl_quantity l) = Inr qu" "units_of g = half_away (of_int (units_of (or_else (tm_targetUnitCost terms) [])) * (of_int qu / 10 ^ 8))"
    using quantityAmount_units [OF c(2)] by blast
  have d: "units_of d = units_of cost - units_of g" using neg_money_reads [OF c(3)] add_money_reads [OF c(4)] by simp
  have "units_of r = (if 0 \<le> units_of (bl_amount l) \<and> 0 \<le> qu then max 0 (units_of d) else min 0 (units_of d))"
    using guarantee_rebate_units [OF c(5)] q(1) by auto
  then show ?thesis using c(1) q d by (simp add: Let_def)
qed

section \<open>Worked examples\<close>

definition sample_terms :: rebate_terms where
  "sample_terms = \<lparr>tm_method = Percent, tm_tierBasis = Basis_amount, tm_tiers = [\<lparr>rt_threshold = ''0'', rt_rate = ''1''\<rparr>, \<lparr>rt_threshold = ''1000'', rt_rate = ''2.5''\<rparr>],
     tm_targetUnitCost = Some ''8'', tm_marginPercent = None\<rparr>"

definition sample_basis :: "string \<Rightarrow> string \<Rightarrow> rebate_line_basis" where
  "sample_basis i a = \<lparr>bl_id = i, bl_amount = a, bl_quantity = ''10'', bl_cost = Some ''90'', bl_marginRevenue = None\<rparr>"

definition sample_deal :: "string \<Rightarrow> string \<Rightarrow> stacking \<Rightarrow> rebate_candidate" where
  "sample_deal i a s = \<lparr>rc_agreementId = i, rc_lineId = ''line'', rc_amount = a, rc_stacking = s, rc_selectionGroup = ''g''\<rparr>"

definition code_unit_compare :: "string \<Rightarrow> string \<Rightarrow> int" where
  "code_unit_compare s t = (if s = t then 0 else if text_less_eq s t then - 1 else 1)"

theorem best_deal_wins_witness:
  "\<exists>out ws. selectRebateDeals code_unit_compare [sample_deal ''b'' ''7'' Best, sample_deal ''a'' ''7'' Best, sample_deal ''c'' ''1'' Stack] = Inr out
    \<and> out = [sample_deal ''c'' ''1'' Stack] @ ws \<and> set (map deal_key ws) = {''line:g''}"
proof -
  have "returns (selectRebateDeals code_unit_compare [sample_deal ''b'' ''7'' Best, sample_deal ''a'' ''7'' Best, sample_deal ''c'' ''1'' Stack])" by code_simp
  then obtain out where o: "selectRebateDeals code_unit_compare [sample_deal ''b'' ''7'' Best, sample_deal ''a'' ''7'' Best, sample_deal ''c'' ''1'' Stack] = Inr out"
    by (rule returnsE)
  have le: "code_unit_compare s t \<le> 0 \<longleftrightarrow> text_less_eq s t" for s t by (simp add: code_unit_compare_def)
  have "code_unit_compare s t \<le> 0 \<or> code_unit_compare t s \<le> 0" for s t unfolding le by (rule text_less_eq_total)
  moreover have "transp (\<lambda>s t. code_unit_compare s t \<le> 0)" unfolding le transp_def using text_less_eq_trans by blast
  moreover have "deal_key ` {c \<in> set [sample_deal ''b'' ''7'' Best, sample_deal ''a'' ''7'' Best, sample_deal ''c'' ''1'' Stack]. rc_stacking c = Best} = {''line:g''}"
  proof -
    have "{c \<in> set [sample_deal ''b'' ''7'' Best, sample_deal ''a'' ''7'' Best, sample_deal ''c'' ''1'' Stack]. rc_stacking c = Best} = {sample_deal ''b'' ''7'' Best, sample_deal ''a'' ''7'' Best}"
      by (auto simp: sample_deal_def)
    then show ?thesis by (simp add: sample_deal_def deal_key_def)
  qed
  moreover have "filter (\<lambda>c. rc_stacking c = Stack) [sample_deal ''b'' ''7'' Best, sample_deal ''a'' ''7'' Best, sample_deal ''c'' ''1'' Stack] = [sample_deal ''c'' ''1'' Stack]"
    by (simp add: sample_deal_def)
  ultimately show ?thesis using best_deal_wins [OF o] o by auto
qed

theorem percent_rebates_retrospective_witness:
  "\<exists>out tier. earnedRebates sample_terms [sample_basis ''x'' ''600'', sample_basis ''y'' ''500''] = Inr out \<and> top_tier (tm_tiers sample_terms) 11000000 tier"
proof -
  have "returns (earnedRebates sample_terms [sample_basis ''x'' ''600'', sample_basis ''y'' ''500''])" by code_simp
  then obtain out where o: "earnedRebates sample_terms [sample_basis ''x'' ''600'', sample_basis ''y'' ''500''] = Inr out" by (rule returnsE)
  have t: "\<forall>t \<in> set (tm_tiers sample_terms). tier_reads t" unfolding tier_reads_def reads_def sample_terms_def by code_simp
  have u: "units_of ''600'' = 6000000" "units_of ''500'' = 5000000" by code_simp+
  have "tm_method sample_terms = Percent" "tm_tierBasis sample_terms = Basis_amount" "distinct (map bl_id [sample_basis ''x'' ''600'', sample_basis ''y'' ''500''])"
    by (simp_all add: sample_terms_def sample_basis_def)
  from percent_rebates_retrospective [OF o this(1,2) t this(3)] u have "\<exists>tier. top_tier (tm_tiers sample_terms) 11000000 tier" by (auto simp: sample_basis_def)
  then show ?thesis using o by blast
qed

theorem guaranteed_cost_refunds_excess_witness:
  "\<exists>r cost. lineRebate (sample_terms\<lparr>tm_method := Fixed_cost\<rparr>) None (sample_basis ''x'' ''600'') = Inr r \<and> bl_cost (sample_basis ''x'' ''600'') = Some cost"
proof -
  have "returns (lineRebate (sample_terms\<lparr>tm_method := Fixed_cost\<rparr>) None (sample_basis ''x'' ''600''))" by code_simp
  then obtain r where "lineRebate (sample_terms\<lparr>tm_method := Fixed_cost\<rparr>) None (sample_basis ''x'' ''600'') = Inr r" by (rule returnsE)
  with guaranteed_cost_refunds_excess [OF this] show ?thesis by (auto simp: sample_terms_def)
qed

end
