(* ===== verification/Equity_Quantities.thy ===== *)
theory Equity_Quantities
  imports Present_Value Exact_Decimal
begin

text \<open>
  Exact quantities of the cap table, \<open>engine/src/equity/quantities.ts\<close>: decimals read as fractions, fractions quantized once at a stored scale, and scaled units printed.
  An \<open>EquityError\<close> carries its refusal key; the label and the figures of the message are not modelled.
\<close>

section \<open>Reading\<close>

abbreviation (input) PRICE_SCALE :: nat where "PRICE_SCALE \<equiv> 10"
abbreviation (input) MONEY_SCALE :: nat where "MONEY_SCALE \<equiv> 4"
abbreviation (input) PERCENT_SCALE :: nat where "PERCENT_SCALE \<equiv> 4"

definition ZERO :: Rational where "ZERO = \<lparr>numerator = 0, denominator = 1\<rparr>"
definition ONE :: Rational where "ONE = \<lparr>numerator = 1, denominator = 1\<rparr>"
definition HUNDRED :: Rational where "HUNDRED = \<lparr>numerator = 100, denominator = 1\<rparr>"

text \<open>\<open>/^(-)?(\d+)(?:\.(\d+))?$/\<close>: the sign, the whole digits and the fraction, empty when there is none.\<close>

definition DECIMAL_RE :: "string \<Rightarrow> (bool \<times> string \<times> string) option" where
  "DECIMAL_RE s = (let negative = starts_minus s; u = (if negative then tl s else s);
       w = takeWhile is_digit u; r = dropWhile is_digit u in
     if w = [] then None
     else case r of [] \<Rightarrow> Some (negative, w, [])
       | c # f \<Rightarrow> if c = CHR ''.'' \<and> f \<noteq> [] \<and> list_all is_digit f then Some (negative, w, f) else None)"

definition parseDecimal :: "string \<Rightarrow> nat \<Rightarrow> Rational result" where
  "parseDecimal v maxScale = (case DECIMAL_RE (trim v) of
     None \<Rightarrow> Inl (EquityError ''decimalInvalid'')
   | Some (negative, whole, rest) \<Rightarrow> let fraction = strip_trailing_zeros rest in
       if length fraction > maxScale then Inl (EquityError ''decimalPrecision'')
       else rational (bigint_of_text (whole @ fraction) * (if negative then - 1 else 1)) (10 ^ length fraction))"

definition requireDecimal :: "string option \<Rightarrow> nat \<Rightarrow> Rational result" where
  "requireDecimal v maxScale = (case v of None \<Rightarrow> Inl (EquityError ''valueMissing'')
     | Some s \<Rightarrow> if s = [] then Inl (EquityError ''valueMissing'') else parseDecimal s maxScale)"

definition parsePrice :: "string \<Rightarrow> Rational result" where
  "parsePrice v = parseDecimal v PRICE_SCALE"

definition equity_parseMoney :: "string \<Rightarrow> Rational result" where
  "equity_parseMoney v = parseDecimal v MONEY_SCALE"

definition parsePercent :: "string \<Rightarrow> Rational result" where
  "parsePercent v = bindE (parseDecimal v PERCENT_SCALE) (\<lambda>d. divideRational d HUNDRED)"

definition parseShares :: "string \<Rightarrow> int result" where
  "parseShares v = (let t = trim v in
     if t = [] \<or> \<not> list_all is_digit t then Inl (EquityError ''sharesInvalid'') else Inr (bigint_of_text t))"

section \<open>Quantizing\<close>

datatype rounding_rule = Half_up | Floor | Ceil

definition floorDiv :: "int \<Rightarrow> int \<Rightarrow> int" where
  "floorDiv n d = (let quotient = n sdiv d in if n smod d \<noteq> 0 \<and> (n < 0) \<noteq> (d < 0) then quotient - 1 else quotient)"

definition quantize :: "Rational \<Rightarrow> nat \<Rightarrow> rounding_rule \<Rightarrow> int" where
  "quantize v scale rule = (let n = numerator v * 10 ^ scale; d = denominator v; fl = floorDiv n d in
     if rule = Floor then fl
     else let remainder = n - fl * d in
       if remainder = 0 then fl
       else if rule = Ceil then fl + 1
       else let twice = remainder * 2 in
         if n \<ge> 0 then (if twice \<ge> d then fl + 1 else fl) else (if twice > d then fl + 1 else fl))"

definition floorShares :: "Rational \<Rightarrow> int" where
  "floorShares v = floorDiv (numerator v) (denominator v)"

definition ceilShares :: "Rational \<Rightarrow> int" where
  "ceilShares v = - floorDiv (- numerator v) (denominator v)"

definition formatUnits :: "int \<Rightarrow> nat \<Rightarrow> string" where
  "formatUnits units scale = (let negative = units < 0;
       digits = padStart (bigint_text (if negative then - units else units)) (scale + 1) CHR ''0'' in
     if scale = 0 then (if negative then ''-'' else []) @ digits
     else (if negative then ''-'' else []) @ but_last_chars scale digits @ CHR ''.'' # last_chars scale digits)"

definition formatPrice :: "Rational \<Rightarrow> rounding_rule \<Rightarrow> string" where
  "formatPrice v rule = formatUnits (quantize v PRICE_SCALE rule) PRICE_SCALE"

definition equity_formatMoney :: "Rational \<Rightarrow> rounding_rule \<Rightarrow> string" where
  "equity_formatMoney v rule = formatUnits (quantize v MONEY_SCALE rule) MONEY_SCALE"

definition formatPercent :: "Rational \<Rightarrow> nat \<Rightarrow> string result" where
  "formatPercent fraction scale = bindE (multiplyRational fraction HUNDRED) (\<lambda>r. Inr (formatUnits (quantize r scale Half_up) scale))"

text \<open>\<open>10n ** BigInt(MONEY_SCALE - exponent)\<close> throws for a negative power.\<close>

definition ledgerUnits :: "Rational \<Rightarrow> nat \<Rightarrow> int result" where
  "ledgerUnits v currencyExponent = (if currencyExponent > MONEY_SCALE then Inl (RangeError ''BigInt negative exponent'')
     else Inr (quantize v currencyExponent Half_up * 10 ^ (MONEY_SCALE - currencyExponent)))"

definition fromLedgerUnits :: "int \<Rightarrow> Rational result" where
  "fromLedgerUnits units = rational units (10 ^ MONEY_SCALE)"

definition minRational :: "Rational \<Rightarrow> Rational \<Rightarrow> Rational" where
  "minRational a b = (if compareRational a b \<le> 0 then a else b)"

definition maxRational :: "Rational \<Rightarrow> Rational \<Rightarrow> Rational" where
  "maxRational a b = (if compareRational a b \<ge> 0 then a else b)"

definition sumRational :: "Rational list \<Rightarrow> Rational result" where
  "sumRational values = foldE addRational ZERO values"

section \<open>Fractions stand for rationals\<close>

definition stands :: "Rational \<Rightarrow> rat \<Rightarrow> bool" where
  "stands r x \<longleftrightarrow> canonical_rational r \<and> rational_value r = x"

lemma stands_constants [simp]: "stands ZERO 0" "stands ONE 1" "stands HUNDRED 100"
  by (simp_all add: stands_def ZERO_def ONE_def HUNDRED_def canonical_rational_def rational_value_def)

lemma stands_unique: "stands a x \<Longrightarrow> stands b x \<Longrightarrow> a = b"
  using canonical_rational_unique by (simp add: stands_def)

lemma stands_value: "stands a x \<Longrightarrow> rational_value a = x"
  by (simp add: stands_def)

lemma stands_rational: "rational n d = Inr r \<Longrightarrow> stands r (of_int n / of_int d)"
  using rational_exact by (simp add: stands_def)

lemma stands_add: "addRational a b = Inr r \<Longrightarrow> stands a x \<Longrightarrow> stands b y \<Longrightarrow> stands r (x + y)"
  using rational_ops_exact(1) by (auto simp: stands_def)

lemma stands_subtract: "subtractRational a b = Inr r \<Longrightarrow> stands a x \<Longrightarrow> stands b y \<Longrightarrow> stands r (x - y)"
  using rational_ops_exact(2) by (auto simp: stands_def)

lemma stands_multiply: "multiplyRational a b = Inr r \<Longrightarrow> stands a x \<Longrightarrow> stands b y \<Longrightarrow> stands r (x * y)"
  using rational_ops_exact(3) by (auto simp: stands_def)

lemma stands_divide: "divideRational a b = Inr r \<Longrightarrow> stands a x \<Longrightarrow> stands b y \<Longrightarrow> stands r (x / y) \<and> y \<noteq> 0"
  using rational_ops_exact(4) by (auto simp: stands_def)

lemma stands_compare: "stands a x \<Longrightarrow> stands b y \<Longrightarrow> compareRational a b = (if x < y then - 1 else if x > y then 1 else 0)"
  using compareRational_sgn [of a b] by (auto simp: stands_def sgn_if floor_eq_iff)

lemma stands_numerator: "stands a x \<Longrightarrow> numerator a < 0 \<longleftrightarrow> x < 0" "stands a x \<Longrightarrow> numerator a = 0 \<longleftrightarrow> x = 0"
    "stands a x \<Longrightarrow> numerator a \<le> 0 \<longleftrightarrow> x \<le> 0"
  by (auto simp: stands_def canonical_rational_def rational_value_def divide_less_0_iff divide_le_0_iff)

lemma stands_min: "stands a x \<Longrightarrow> stands b y \<Longrightarrow> stands (minRational a b) (min x y)"
  by (auto simp: minRational_def stands_compare split: if_splits)

lemma stands_sum_from:
  assumes "foldE addRational s rs = Inr r" "stands s x" "list_all2 stands rs ys"
  shows "stands r (x + sum_list ys)"
  using assms
proof (induction rs arbitrary: s x ys)
  case (Cons a rs)
  obtain y ys' where y: "ys = y # ys'" "stands a y" "list_all2 stands rs ys'" using Cons.prems(3) by (auto simp: list_all2_Cons1)
  obtain s' where s: "addRational s a = Inr s'" "foldE addRational s' rs = Inr r" using Cons.prems(1) by (auto simp: bindE_Inr_iff)
  from Cons.IH [OF s(2) stands_add [OF s(1) Cons.prems(2) y(2)] y(3)] show ?case by (simp add: y(1) algebra_simps)
qed simp

lemma stands_sum: "sumRational rs = Inr r \<Longrightarrow> list_all2 stands rs ys \<Longrightarrow> stands r (sum_list ys)"
  using stands_sum_from [of ZERO rs r 0 ys] by (simp add: sumRational_def)

section \<open>Quantizing is rounding\<close>

lemma floorDiv_floor: "0 < d \<Longrightarrow> floorDiv n d = n div d"
proof -
  assume d: "0 < d"
  show ?thesis
  proof (cases "0 \<le> n")
    case True
    then show ?thesis using d by (simp add: floorDiv_def Let_def sdiv_nonneg)
  next
    case False
    have q: "n sdiv d = - ((- n) div d)" "n smod d = - ((- n) mod d)" using d False
      by (simp_all add: signed_divide_int_def signed_modulo_int_def)
    have "d \<noteq> n mod d" using pos_mod_bound [OF d, of n] by linarith
    then show ?thesis using d False q by (simp add: floorDiv_def Let_def zdiv_zminus1_eq_if zmod_zminus1_eq_if split: if_splits)
  qed
qed

lemma quantize_value:
  assumes "stands r x"
  shows "quantize r scale rule = (case rule of Floor \<Rightarrow> \<lfloor>x * 10 ^ scale\<rfloor> | Ceil \<Rightarrow> \<lceil>x * 10 ^ scale\<rceil> | Half_up \<Rightarrow> half_away (x * 10 ^ scale))"
proof -
  let ?n = "numerator r * 10 ^ scale" and ?d = "denominator r"
  have d: "0 < ?d" using assms by (simp add: stands_def canonical_rational_def)
  have x: "x * 10 ^ scale = of_int ?n / of_int ?d" using assms by (auto simp: stands_def rational_value_def)
  have fl: "floorDiv ?n ?d = \<lfloor>x * 10 ^ scale\<rfloor>" unfolding x floorDiv_floor [OF d] by (rule floor_divide_of_int_eq [symmetric])
  define k where "k = ?n div ?d"
  define m where "m = ?n mod ?d"
  have n: "?n = k * ?d + m" and m: "0 \<le> m" "m < ?d" using d by (simp_all add: k_def m_def)
  have v: "x * 10 ^ scale = of_int k + of_int m / of_int ?d" unfolding x n using d by (simp add: add_divide_distrib)
  have mm: "0 \<le> (of_int m / of_int ?d :: rat)" "of_int m / of_int ?d < (1 :: rat)" using m d by simp_all
  have f: "floorDiv ?n ?d = k" by (simp add: floorDiv_floor [OF d] k_def)
  have c: "\<lceil>x * 10 ^ scale\<rceil> = (if m = 0 then k else k + 1)"
  proof (cases "m = 0")
    case False
    then have "0 < (of_int m / of_int ?d :: rat)" using m d by simp
    then show ?thesis using mm(2) False by (simp add: v ceiling_eq_iff)
  qed (simp add: v)
  have h: "half_away (x * 10 ^ scale) = (if m = 0 then k else if 0 \<le> ?n then (if m * 2 \<ge> ?d then k + 1 else k) else (if m * 2 > ?d then k + 1 else k))"
  proof (cases "m = 0")
    case True
    then show ?thesis by (simp add: v)
  next
    case False
    have dr: "0 < (of_int ?d :: rat)" using d by simp
    have half: "(1 / 2 :: rat) \<le> of_int m / of_int ?d \<longleftrightarrow> m * 2 \<ge> ?d" "(1 / 2 :: rat) < of_int m / of_int ?d \<longleftrightarrow> m * 2 > ?d"
    proof -
      have "(1 / 2 :: rat) \<le> of_int m / of_int ?d \<longleftrightarrow> of_int ?d \<le> (of_int (m * 2) :: rat)" using dr by (simp add: pos_le_divide_eq) 
      then show "(1 / 2 :: rat) \<le> of_int m / of_int ?d \<longleftrightarrow> m * 2 \<ge> ?d" by (simp only: of_int_le_iff)
      have "(1 / 2 :: rat) < of_int m / of_int ?d \<longleftrightarrow> of_int ?d < (of_int (m * 2) :: rat)" using dr by (simp add: pos_less_divide_eq)
      then show "(1 / 2 :: rat) < of_int m / of_int ?d \<longleftrightarrow> m * 2 > ?d" by (simp only: of_int_less_iff)
    qed
    have neg: "x * 10 ^ scale < 0 \<longleftrightarrow> ?n < 0" unfolding x using d by (simp add: divide_less_0_iff mult_less_0_iff)
    define y where "y = (of_int m / of_int ?d :: rat)"
    have y: "0 \<le> y" "y < 1" using mm by (simp_all add: y_def)
    have up: "\<lfloor>of_int k + y + 1 / 2\<rfloor> = (if y \<ge> 1 / 2 then k + 1 else k)" using y by (auto simp: floor_eq_iff)
    have "\<lfloor>1 / 2 - (of_int k + y)\<rfloor> = - (if y > 1 / 2 then k + 1 else k)" using y by (auto simp: floor_eq_iff)
    then have down: "- \<lfloor>1 / 2 - (of_int k + y)\<rfloor> = (if y > 1 / 2 then k + 1 else k)" by simp
    have "half_away (x * 10 ^ scale) = (if ?n < 0 then (if y > 1 / 2 then k + 1 else k) else (if y \<ge> 1 / 2 then k + 1 else k))"
      unfolding half_away_def neg using up down by (simp add: v y_def)
    then show ?thesis using False unfolding half [folded y_def] by (simp add: not_less)
  qed
  have rm: "?n - k * ?d = m" using n by simp
  show ?thesis
  proof (cases rule)
    case Half_up
    then show ?thesis unfolding quantize_def Let_def f rm by (simp add: h)
  next
    case Floor
    then show ?thesis unfolding quantize_def Let_def using fl by simp
  next
    case Ceil
    then show ?thesis unfolding quantize_def Let_def f rm by (simp add: c)
  qed
qed

lemma floorShares_value: "stands r x \<Longrightarrow> floorShares r = \<lfloor>x\<rfloor>"
  by (auto simp: floorShares_def floorDiv_floor stands_def canonical_rational_def rational_value_def floor_divide_of_int_eq)

lemma ceilShares_value: "stands r x \<Longrightarrow> ceilShares r = \<lceil>x\<rceil>"
  by (auto simp: ceilShares_def floorDiv_floor stands_def canonical_rational_def rational_value_def ceiling_def floor_divide_of_int_eq simp flip: of_int_minus divide_minus_left)

section \<open>Decimals are read and printed exactly\<close>

lemma DECIMAL_RE_Some:
  assumes "DECIMAL_RE s = Some (n, w, f)"
  shows "s = (if n then ''-'' else []) @ w @ (if f = [] then [] else CHR ''.'' # f) \<and> list_all is_digit w \<and> w \<noteq> [] \<and> list_all is_digit f"
proof -
  define u where "u = (if starts_minus s then tl s else s)"
  have s: "s = (if starts_minus s then ''-'' else []) @ u" by (cases s) (auto simp: u_def starts_minus_def)
  have e: "n = starts_minus s" "w = takeWhile is_digit u" "w \<noteq> []" "dropWhile is_digit u = (if f = [] then [] else CHR ''.'' # f)" "list_all is_digit f"
    using assms unfolding DECIMAL_RE_def Let_def u_def [symmetric] by (auto split: if_splits list.splits)
  have "u = w @ (if f = [] then [] else CHR ''.'' # f)" using e(2,4) takeWhile_dropWhile_id [of is_digit u] by simp
  moreover have "list_all is_digit w" unfolding e(2) by (auto simp: list_all_iff dest: set_takeWhileD)
  ultimately show ?thesis using s e by simp
qed

lemma DECIMAL_RE_print:
  assumes "list_all is_digit w" "w \<noteq> []" "list_all is_digit f"
  shows "DECIMAL_RE ((if n then ''-'' else []) @ w @ (if f = [] then [] else CHR ''.'' # f)) = Some (n, w, f)"
proof -
  let ?u = "w @ (if f = [] then [] else CHR ''.'' # f)"
  have m: "\<not> starts_minus ?u" by (rule digits_starts_minus [OF assms(1,2)])
  have t: "takeWhile is_digit ?u = w" "dropWhile is_digit ?u = (if f = [] then [] else CHR ''.'' # f)"
    using assms(1) by (auto simp: list_all_iff takeWhile_append dropWhile_append)
  show ?thesis using m t assms by (cases n) (auto simp: DECIMAL_RE_def Let_def)
qed

lemma parse_decimal_value:
  assumes "DECIMAL_RE (trim v) = Some (n, w, f)" "parseDecimal v k = Inr r"
  shows "stands r ((if n then - 1 else 1) * (of_nat (digits_val (w @ f)) / 10 ^ length f))"
proof -
  note d = DECIMAL_RE_Some [OF assms(1)]
  define g where "g = strip_trailing_zeros f"
  obtain j where j: "f = g @ replicate j CHR ''0''" using strip_trailing_zeros_split [of f] by (auto simp: g_def)
  have dg: "list_all is_digit (w @ g)" using d list_all_strip_trailing_zeros [of is_digit f] by (simp add: g_def)
  have "rational (bigint_of_text (w @ g) * (if n then - 1 else 1)) (10 ^ length g) = Inr r"
    using assms by (auto simp: parseDecimal_def Let_def g_def split: if_splits)
  then have "stands r (of_int (bigint_of_text (w @ g) * (if n then - 1 else 1)) / of_int (10 ^ length g))" by (rule stands_rational)
  moreover have "bigint_of_text (w @ g) = int (digits_val (w @ g))" using dg by (rule bigint_of_digits)
  moreover have "digits_val (w @ f) = digits_val (w @ g) * 10 ^ j" using digits_val_append [of "w @ g" "replicate j CHR ''0''"] by (simp add: j)
  moreover have "length f = length g + j" by (simp add: j)
  ultimately show ?thesis by (cases n) (simp_all add: power_add)
qed

lemma rational_returns:
  assumes "0 < d" "\<bar>n\<bar> < 10 ^ 255" "d < 10 ^ 256"
  shows "\<exists>r. rational n d = Inr r"
proof -
  have l: "length (nat_text (nat \<bar>n\<bar>)) \<le> 255" using assms(2) by (intro length_nat_text_le) (simp_all add: nat_less_iff)
  have "length (nat_text (nat d)) \<le> 256" using assms(1,3) by (intro length_nat_text_le) (simp_all add: nat_less_iff)
  then have "within_digits n d" using l assms(1) by (auto simp: within_digits_def bigint_text_def)
  then show ?thesis using assms(1) by (simp add: rational_eq)
qed

lemma formatUnits_shape:
  obtains w f where "formatUnits u k = (if u < 0 then ''-'' else []) @ w @ (if f = [] then [] else CHR ''.'' # f)"
    "list_all is_digit w" "w \<noteq> []" "list_all is_digit f" "length f = k" "int (digits_val (w @ f)) = \<bar>u\<bar>"
proof -
  define p where "p = padStart (nat_text (nat \<bar>u\<bar>)) (Suc k) CHR ''0''"
  note s = pad_split [OF p_def]
  have b: "padStart (bigint_text (if u < 0 then - u else u)) (k + 1) CHR ''0'' = p" by (simp add: p_def bigint_text_nonneg)
  show thesis
  proof (cases "k = 0")
    case True
    have "list_all is_digit p" "p \<noteq> []" "digits_val p = nat \<bar>u\<bar>" using s(1,3-6) by (auto simp: p_def padStart_def)
    then show thesis using True b by (intro that [of p "[]"]) (simp_all add: formatUnits_def Let_def)
  next
    case False
    then have "last_chars k p \<noteq> []" using s(2) by auto
    then show thesis using False b s by (intro that [of "but_last_chars k p" "last_chars k p"]) (simp_all add: formatUnits_def Let_def)
  qed
qed

text \<open>
  Printed units read back: a quantity printed at a scale is read at that scale as exactly the fraction it denotes.
\<close>

theorem format_parse_roundtrip:
  assumes "\<bar>u\<bar> < 10 ^ 255" "k < 256"
  shows "\<exists>r. parseDecimal (formatUnits u k) k = Inr r \<and> stands r (of_int u / 10 ^ k)"
proof -
  obtain w f where s: "formatUnits u k = (if u < 0 then ''-'' else []) @ w @ (if f = [] then [] else CHR ''.'' # f)"
    "list_all is_digit w" "w \<noteq> []" "list_all is_digit f" "length f = k" "int (digits_val (w @ f)) = \<bar>u\<bar>" by (rule formatUnits_shape)
  have "\<forall>c \<in> set (formatUnits u k). \<not> is_white c"
    using s(1,2,4) by (auto simp: list_all_iff is_white_def is_digit_def split: if_splits)
  then have trim: "trim (formatUnits u k) = formatUnits u k" by (intro trim_id) (metis hd_in_set last_in_set)
  then have re: "DECIMAL_RE (trim (formatUnits u k)) = Some (u < 0, w, f)" unfolding s(1) [symmetric] trim using DECIMAL_RE_print [OF s(2-4)] s(1) by simp
  define g where "g = strip_trailing_zeros f"
  obtain j where j: "f = g @ replicate j CHR ''0''" using strip_trailing_zeros_split [of f] by (auto simp: g_def)
  have dg: "list_all is_digit (w @ g)" using s(2,4) list_all_strip_trailing_zeros [of is_digit f] by (simp add: g_def)
  have "digits_val (w @ f) = digits_val (w @ g) * 10 ^ j" using digits_val_append [of "w @ g" "replicate j CHR ''0''"] by (simp add: j)
  then have "digits_val (w @ g) \<le> digits_val (w @ f)" by simp
  then have small: "int (digits_val (w @ g)) < 10 ^ 255" using s(6) assms(1) by linarith
  have "length g \<le> k" using j s(5) by simp
  then have "(10::int) ^ length g < 10 ^ 256" using assms(2) by (intro power_strict_increasing) simp_all
  then have "\<exists>r. rational (bigint_of_text (w @ g) * (if u < 0 then - 1 else 1)) (10 ^ length g) = Inr r"
    using small by (intro rational_returns) (simp_all add: bigint_of_digits [OF dg])
  then obtain r where r: "parseDecimal (formatUnits u k) k = Inr r" using re \<open>length g \<le> k\<close> by (auto simp: parseDecimal_def Let_def g_def)
  have "(if u < 0 then - 1 else 1) * (of_nat (digits_val (w @ f)) / 10 ^ length f) = (of_int u / 10 ^ k :: rat)"
    using s(5) arg_cong [OF s(6), of "of_int :: int \<Rightarrow> rat"] by simp
  then show ?thesis using r parse_decimal_value [OF re r] by auto
qed

theorem format_parse_roundtrip_witness: "\<exists>r. parseDecimal (formatUnits (- 12500) 4) 4 = Inr r \<and> stands r (- 5 / 4)"
  using format_parse_roundtrip [of "- 12500" 4] by (simp add: power_numeral)

end
