(* ===== verification/Vesting.thy ===== *)
theory Vesting
  imports Equity_Quantities Civil_Date
begin

text \<open>
  Vesting schedules, \<open>engine/src/equity/vesting.ts\<close>: validation, the installments of a schedule, the quantity vested by a date and acceleration.  Months are whole
  numbers; texts are ordered as JavaScript orders them.  The reader of stored tranches, which inspects values of unknown type, is not modelled.
\<close>

section \<open>Schedules\<close>

datatype vesting_frequency = Monthly | Quarterly | Annual

definition VESTING_STEP_MONTHS :: "vesting_frequency \<Rightarrow> int" where
  "VESTING_STEP_MONTHS f = (case f of Monthly \<Rightarrow> 1 | Quarterly \<Rightarrow> 3 | Annual \<Rightarrow> 12)"

record vesting_tranche =
  tr_date :: string
  tr_quantity :: int

record vesting_terms =
  vt_issueDate :: string
  vt_quantity :: int
  vt_vestingStart :: "string option"
  vt_vestingMonths :: "int option"
  vt_cliffMonths :: "int option"
  vt_vestingFrequency :: "vesting_frequency option"
  vt_vestingTranches :: "vesting_tranche list option"

record vesting_installment =
  vi_date :: string
  vi_quantity :: int
  vi_cumulative :: int

definition daysInMonth :: "int \<Rightarrow> int \<Rightarrow> int" where
  "daysInMonth year month1 = (if month1 = 2 then (if (year smod 4 = 0 \<and> year smod 100 \<noteq> 0) \<or> year smod 400 = 0 then 29 else 28)
     else if month1 \<in> {4, 6, 9, 11} then 30 else 31)"

definition completedMonths :: "string \<Rightarrow> string \<Rightarrow> int" where
  "completedMonths from to = (if to \<le> from then 0
     else let fy = iso_year from; fm = iso_month from; ty = iso_year to; tm = iso_month to;
         months = (ty - fy) * 12 + (tm - fm);
         months' = (if iso_day to < min (iso_day from) (daysInMonth ty tm) then months - 1 else months)
       in max 0 months')"

definition hasVestingSchedule :: "vesting_terms \<Rightarrow> bool" where
  "hasVestingSchedule terms \<longleftrightarrow> or_else (vt_vestingMonths terms) 0 > 0 \<or> length (or_else (vt_vestingTranches terms) []) > 0"

definition timeBasedVested :: "int \<Rightarrow> int \<Rightarrow> int \<Rightarrow> int \<Rightarrow> int \<Rightarrow> int result" where
  "timeBasedVested quantity months cliff tot step =
     (if months < cliff then Inr 0
      else if months \<ge> tot then Inr quantity
      else let stepped = max cliff (months div step * step) in
        bindE (rational (quantity * stepped) tot) (\<lambda>r. Inr (floorShares r)))"

section \<open>Validation\<close>

definition check_tranche :: "string \<times> int \<Rightarrow> vesting_tranche \<Rightarrow> (string \<times> int) result" where
  "check_tranche st tranche = (case st of (previous, tot) \<Rightarrow>
     if \<not> isIsoCalendarDate (tr_date tranche) then Inl (EquityError ''vestingTrancheDateInvalid'')
     else if tr_date tranche \<le> previous then Inl (EquityError ''vestingTranchesUnordered'')
     else if tr_quantity tranche \<le> 0 then Inl (EquityError ''vestingTrancheEmpty'')
     else Inr (tr_date tranche, tot + tr_quantity tranche))"

definition validate_tranches :: "vesting_terms \<Rightarrow> vesting_tranche list \<Rightarrow> unit result" where
  "validate_tranches terms tranches =
     (if vt_vestingMonths terms \<noteq> None \<or> vt_cliffMonths terms \<noteq> None \<or> vt_vestingFrequency terms \<noteq> None then Inl (EquityError ''vestingShapesMixed'')
      else bindE (foldE check_tranche ([], 0) tranches) (\<lambda>(_, tot).
        ensure (tot = vt_quantity terms) (EquityError ''vestingTranchesTotalMismatch'')))"

definition validate_months :: "vesting_terms \<Rightarrow> int \<Rightarrow> unit result" where
  "validate_months terms months = (let cliff = or_else (vt_cliffMonths terms) 0 in
     if months < 1 \<or> months > 600 then Inl (EquityError ''vestingMonthsOutOfRange'')
     else if cliff < 0 \<or> cliff > months then Inl (EquityError ''vestingCliffOutOfRange'')
     else if vt_vestingFrequency terms = None then Inl (EquityError ''vestingFrequencyRequired'')
     else ensure (case vt_vestingStart terms of None \<Rightarrow> False | Some s \<Rightarrow> s \<noteq> [] \<and> isIsoCalendarDate s) (EquityError ''vestingStartRequired''))"

definition validateVestingTerms :: "vesting_terms \<Rightarrow> unit result" where
  "validateVestingTerms terms = (let tranches = or_else (vt_vestingTranches terms) [] in
     if tranches \<noteq> [] then validate_tranches terms tranches
     else case vt_vestingMonths terms of
       None \<Rightarrow> ensure (vt_cliffMonths terms = None \<and> vt_vestingFrequency terms = None) (EquityError ''vestingCliffWithoutTerm'')
     | Some months \<Rightarrow> validate_months terms months)"

section \<open>Installments and the vested quantity\<close>

fun tranche_installments :: "int \<Rightarrow> vesting_tranche list \<Rightarrow> vesting_installment list" where
  "tranche_installments cumulative [] = []"
| "tranche_installments cumulative (t # ts) = (let c = cumulative + tr_quantity t in
     \<lparr>vi_date = tr_date t, vi_quantity = tr_quantity t, vi_cumulative = c\<rparr> # tranche_installments c ts)"

definition month_installment :: "vesting_terms \<Rightarrow> string \<Rightarrow> int \<Rightarrow> int \<Rightarrow> int
    \<Rightarrow> vesting_installment list \<times> int \<Rightarrow> int \<Rightarrow> (vesting_installment list \<times> int) result" where
  "month_installment terms start cliff tot step st month = (case st of (out, previous) \<Rightarrow>
     bindE (timeBasedVested (vt_quantity terms) month cliff tot step) (\<lambda>vested.
       if vested > previous
       then bindE (addMonthsClamped start month) (\<lambda>date.
         Inr (out @ [\<lparr>vi_date = date, vi_quantity = vested - previous, vi_cumulative = vested\<rparr>], vested))
       else Inr (out, previous)))"

definition vestingInstallments :: "vesting_terms \<Rightarrow> vesting_installment list result" where
  "vestingInstallments terms = (let tranches = or_else (vt_vestingTranches terms) []; tot = or_else (vt_vestingMonths terms) 0 in
     if tranches \<noteq> [] then Inr (tranche_installments 0 tranches)
     else if tot \<le> 0 then Inr (if vt_quantity terms > 0
         then [\<lparr>vi_date = vt_issueDate terms, vi_quantity = vt_quantity terms, vi_cumulative = vt_quantity terms\<rparr>] else [])
     else let start = or_else (vt_vestingStart terms) (vt_issueDate terms); cliff = or_else (vt_cliffMonths terms) 0;
         step = VESTING_STEP_MONTHS (or_else (vt_vestingFrequency terms) Monthly)
       in bindE (foldE (month_installment terms start cliff tot step) ([], 0) [1..tot]) (\<lambda>(out, _). Inr out))"

definition scheduledVested :: "vesting_terms \<Rightarrow> string \<Rightarrow> int result" where
  "scheduledVested terms asOf = (let tranches = or_else (vt_vestingTranches terms) []; tot = or_else (vt_vestingMonths terms) 0 in
     if asOf < vt_issueDate terms then Inr 0
     else if tranches \<noteq> []
     then let vested = fold (\<lambda>t vested. if tr_date t \<le> asOf then vested + tr_quantity t else vested) tranches 0
       in Inr (if vested < vt_quantity terms then vested else vt_quantity terms)
     else if tot \<le> 0 then Inr (vt_quantity terms)
     else timeBasedVested (vt_quantity terms) (completedMonths (or_else (vt_vestingStart terms) (vt_issueDate terms)) asOf)
       (or_else (vt_cliffMonths terms) 0) tot (VESTING_STEP_MONTHS (or_else (vt_vestingFrequency terms) Monthly)))"

definition finalVestingDate :: "vesting_terms \<Rightarrow> string result" where
  "finalVestingDate terms = bindE (vestingInstallments terms) (\<lambda>installments.
     Inr (if installments = [] then vt_issueDate terms else vi_date (last installments)))"

section \<open>Acceleration\<close>

datatype acceleration = No_acceleration | Single | Double

definition acceleratedVested :: "int \<Rightarrow> int \<Rightarrow> acceleration \<Rightarrow> string option \<Rightarrow> bool \<Rightarrow> bool \<Rightarrow> int result" where
  "acceleratedVested vested outstanding acceleration accelerationPercent changeOfControl terminated =
     (let fires = (acceleration = Single \<and> changeOfControl) \<or> (acceleration = Double \<and> changeOfControl \<and> terminated);
          capped = (if vested < outstanding then vested else outstanding) in
      if \<not> fires then Inr capped
      else bindE (parsePercent (or_else accelerationPercent [])) (\<lambda>percent.
        bindE (rational (outstanding - capped) 1) (\<lambda>unvested. bindE (multiplyRational unvested percent) (\<lambda>part.
        let extra = floorShares part; tot = capped + extra in Inr (if tot < outstanding then tot else outstanding)))))"

section \<open>Completed months invert the month steps\<close>

lemma daysInMonth_length:
  assumes "1 \<le> y" "0 \<le> m" "m < 12"
  shows "daysInMonth y (m + 1) = days_in_month y m"
proof -
  have "y smod 4 = y mod 4" "y smod 100 = y mod 100" "y smod 400 = y mod 400" using assms(1) by (simp_all add: smod_nonneg)
  moreover have "y mod 400 = 0 \<longrightarrow> y mod 4 = 0" using mod_mod_cancel [of 4 400 y] by auto
  moreover have "m = 0 \<or> m = 1 \<or> m = 2 \<or> m = 3 \<or> m = 4 \<or> m = 5 \<or> m = 6 \<or> m = 7 \<or> m = 8 \<or> m = 9 \<or> m = 10 \<or> m = 11"
  proof -
    obtain k where "m = int k" "k \<in> {0..<12}" using assms(2,3) by (auto elim: nonneg_int_cases)
    then show ?thesis by (auto simp: atLeastLessThan_nat_numeral)
  qed
  ultimately show ?thesis by (elim disjE) (simp_all add: daysInMonth_def days_in_month_def leap_year_def month_lengths_def)
qed

definition months_between :: "int \<Rightarrow> int \<Rightarrow> int" where
  "months_between n k = (if k \<le> n then 0
     else month_of_day k - month_of_day n - (if day_of_month k < min (day_of_month n) (month_length (month_of_day k)) then 1 else 0))"

lemma month_day_le_iff:
  assumes "1 \<le> d" "d \<le> month_length q"
  shows "month_day q d \<le> k \<longleftrightarrow> q < month_of_day k \<or> q = month_of_day k \<and> d \<le> day_of_month k"
proof (cases q "month_of_day k" rule: linorder_cases)
  case less
  then have "month_day q d < k" using month_of_day_mono [of k "month_day q d"] month_of_month_day [OF assms] by (auto simp: not_le [symmetric])
  then show ?thesis using less by simp
next
  case equal
  have "month_day q d = month_day q 0 + d" "k = month_day q 0 + day_of_month k"
    using month_day_add [of q 0 d] month_day_add [of q 0 "day_of_month k"] day_in_month [of k] equal by simp_all
  then have "month_day q d \<le> k \<longleftrightarrow> d \<le> day_of_month k" by linarith
  then show ?thesis using equal by simp
next
  case greater
  then have "\<not> month_day q d \<le> k" using month_of_day_mono [of "month_day q d" k] month_of_month_day [OF assms] by auto
  then show ?thesis using greater by auto
qed

definition installment_day :: "int \<Rightarrow> int \<Rightarrow> int" where
  "installment_day n i = month_day (month_of_day n + i) (min (day_of_month n) (month_length (month_of_day n + i)))"

lemma day_of_month_pos: "1 \<le> day_of_month n"
proof -
  obtain y m d where "civil_of_day n = (y, m, d)" by (cases "civil_of_day n")
  then show ?thesis using civil_of_day_valid(1) by (fastforce simp: valid_civil_def)
qed

lemma clamped_day: "1 \<le> min (day_of_month n) (month_length q)" "min (day_of_month n) (month_length q) \<le> month_length q"
  using day_of_month_pos [of n] month_length_bounds [of q] by auto

lemma installment_day_le_iff: "1 \<le> i \<Longrightarrow> installment_day n i \<le> k \<longleftrightarrow> i \<le> months_between n k"
proof -
  assume i: "1 \<le> i"
  note iff = month_day_le_iff [OF clamped_day(1) [of n "month_of_day n + i"] clamped_day(2), of k, folded installment_day_def]
  show ?thesis
  proof (cases "k \<le> n")
    case True
    then have "month_of_day k \<le> month_of_day n" by (rule month_of_day_mono)
    then show ?thesis using iff i True by (simp add: months_between_def)
  next
    case False
    show ?thesis
    proof (cases "month_of_day n + i = month_of_day k")
      case True
      have "i \<le> months_between n k \<longleftrightarrow> min (day_of_month n) (month_length (month_of_day k)) \<le> day_of_month k"
        using False True by (auto simp: months_between_def)
      then show ?thesis unfolding iff using True by simp
    next
      case ne: False
      then show ?thesis unfolding iff using False by (auto simp: months_between_def)
    qed
  qed
qed

lemma months_between_nonneg: "0 \<le> months_between n k"
proof (cases "k \<le> n")
  case False
  then have "month_of_day n \<le> month_of_day k" by (intro month_of_day_mono) simp
  moreover have "day_of_month n \<le> day_of_month k" if "month_of_day n = month_of_day k"
    using False that month_day_add [of "month_of_day n" 0 "day_of_month n"] month_day_add [of "month_of_day n" 0 "day_of_month k"]
      day_in_month [of n] day_in_month [of k] by simp
  ultimately show ?thesis by (cases "month_of_day n = month_of_day k") (auto simp: months_between_def)
qed (simp add: months_between_def)

lemma completedMonths_day:
  assumes "supported n" "supported k"
  shows "completedMonths (iso_of_day n) (iso_of_day k) = months_between n k"
proof -
  obtain y m d where c: "civil_of_day n = (y, m, d)" by (cases "civil_of_day n")
  obtain y' m' d' where c': "civil_of_day k = (y', m', d')" by (cases "civil_of_day k")
  have y: "1 \<le> y'" "0 \<le> m'" "m' < 12" using assms(2) civil_of_day_valid(1) [OF c'] by (simp_all add: supported_year c' valid_civil_def)
  have le: "iso_of_day k \<le> iso_of_day n \<longleftrightarrow> k \<le> n" using iso_of_day_less [OF assms] by (simp add: not_less [symmetric])
  have "month_length (month_of_day k) = days_in_month y' m'" using month_of_day_cases(2,3) [OF c'] by simp
  moreover have "(y' - y) * 12 + (m' + 1 - (m + 1)) = month_of_day k - month_of_day n"
    using month_of_day_cases(1) [OF c] month_of_day_cases(1) [OF c'] by simp
  ultimately have "completedMonths (iso_of_day n) (iso_of_day k) = (if k \<le> n then 0 else max 0 (months_between n k))"
    unfolding completedMonths_def le Let_def iso_fields [OF assms(1) c] iso_fields [OF assms(2) c'] daysInMonth_length [OF y]
    by (simp only: months_between_def c c' snd_conv) simp
  moreover have "k \<le> n \<Longrightarrow> months_between n k = 0" by (simp add: months_between_def)
  ultimately show ?thesis using months_between_nonneg [of n k] by (cases "k \<le> n") simp_all
qed

section \<open>The vested quantity\<close>

definition vested_at :: "int \<Rightarrow> int \<Rightarrow> int \<Rightarrow> int \<Rightarrow> int \<Rightarrow> int" where
  "vested_at quantity cliff tot step months = (if months < cliff then 0 else if months \<ge> tot then quantity
     else quantity * max cliff (months div step * step) div tot)"

lemma stepped_bounds:
  assumes "0 < (step::int)" "cliff \<le> months" "0 \<le> cliff"
  shows "0 \<le> max cliff (months div step * step)" "max cliff (months div step * step) \<le> months"
proof -
  have "months div step * step + months mod step = months" "0 \<le> months mod step" using assms(1) by simp_all
  then have "months div step * step \<le> months" by linarith
  then show "0 \<le> max cliff (months div step * step)" "max cliff (months div step * step) \<le> months" using assms by auto
qed

lemma timeBasedVested_eq:
  assumes "0 \<le> q" "q < 10 ^ 250" "0 \<le> cliff" "0 < tot" "tot \<le> 600" "0 < step"
  shows "timeBasedVested q months cliff tot step = Inr (vested_at q cliff tot step months)"
proof (cases "months < cliff \<or> months \<ge> tot")
  case False
  let ?s = "max cliff (months div step * step)"
  have s: "0 \<le> ?s" "?s < 600" using stepped_bounds [of step cliff months] False assms by auto
  have "q * ?s \<le> q * 600" using s assms(1) by (intro mult_left_mono) auto
  also have "\<dots> < 10 ^ 250 * 1000" using assms(1,2) by simp
  also have "\<dots> < (10 ^ 255 :: int)" by simp
  finally have "\<bar>q * ?s\<bar> < 10 ^ 255" using s assms(1) by simp
  moreover have "tot < 10 ^ 256" using assms(5) by (rule le_less_trans) simp
  ultimately obtain r where r: "rational (q * ?s) tot = Inr r" using rational_returns [of tot "q * ?s"] assms(4) by blast
  have "floorShares r = q * ?s div tot" using floorShares_value [OF stands_rational [OF r]] by (simp only: floor_divide_of_int_eq)
  then show ?thesis using False r by (simp add: timeBasedVested_def vested_at_def Let_def)
qed (auto simp: timeBasedVested_def vested_at_def)

lemma vested_at_mono:
  assumes "0 \<le> q" "0 \<le> cliff" "0 < tot" "0 < step" "i \<le> j"
  shows "vested_at q cliff tot step i \<le> vested_at q cliff tot step j"
proof (cases "i < cliff \<or> i \<ge> tot")
  case True
  then show ?thesis using assms by (auto simp: vested_at_def intro!: pos_imp_zdiv_nonneg_iff [THEN iffD2] mult_nonneg_nonneg)
next
  case False
  let ?s = "\<lambda>m. max cliff (m div step * step)"
  have i: "0 \<le> ?s i" "?s i \<le> i" using stepped_bounds [of step cliff i] False assms by auto
  show ?thesis
  proof (cases "j \<ge> tot")
    case True
    have "q * ?s i div tot \<le> q * tot div tot" using i False assms by (intro zdiv_mono1 mult_left_mono) auto
    then show ?thesis using True False assms by (simp add: vested_at_def)
  next
    case j: False
    have "i div step * step \<le> j div step * step" using assms by (intro mult_right_mono zdiv_mono1) auto
    then have "?s i \<le> ?s j" by linarith
    then have "q * ?s i div tot \<le> q * ?s j div tot" using assms by (intro zdiv_mono1 mult_left_mono) auto
    then show ?thesis using False j assms by (simp add: vested_at_def)
  qed
qed

lemma vested_at_start: "0 \<le> cliff \<Longrightarrow> 0 < tot \<Longrightarrow> vested_at q cliff tot step 0 = 0"
  by (simp add: vested_at_def)

lemma vested_at_bounds: "0 \<le> q \<Longrightarrow> 0 \<le> cliff \<Longrightarrow> 0 < tot \<Longrightarrow> 0 < step \<Longrightarrow> cliff \<le> tot \<Longrightarrow> 0 \<le> vested_at q cliff tot step i \<and> vested_at q cliff tot step i \<le> q"
  using vested_at_mono [of q cliff tot step i "max i tot"] vested_at_mono [of q cliff tot step "min i 0" i] by (auto simp: vested_at_def split: if_splits)

section \<open>Installments\<close>

text \<open>The installments up to month \<open>i\<close>: the months in which the vested quantity rises, on their clamped dates.\<close>

definition rises :: "(int \<Rightarrow> int) \<Rightarrow> int \<Rightarrow> int list" where
  "rises V i = filter (\<lambda>m. V (m - 1) < V m) [1..i]"

definition month_row :: "int \<Rightarrow> (int \<Rightarrow> int) \<Rightarrow> int \<Rightarrow> vesting_installment" where
  "month_row n V m = \<lparr>vi_date = iso_of_day (installment_day n m), vi_quantity = V m - V (m - 1), vi_cumulative = V m\<rparr>"

lemma upto_snoc: "0 \<le> i \<Longrightarrow> [1..i + 1] = [1..i] @ [i + 1 :: int]"
  by (rule upto_rec2 [of 1 "i + 1", simplified])

lemma rises_snoc: "rises V (int k + 1) = rises V (int k) @ (if V (int k) < V (int k + 1) then [int k + 1] else [])"
  using upto_snoc [of "int k"] by (simp add: rises_def)

lemma month_loop:
  assumes "\<And>m. timeBasedVested (vt_quantity terms) m cliff tot step = Inr (V m)" "\<And>i j. i \<le> j \<Longrightarrow> V i \<le> V j" "V 0 = 0"
    and "\<And>m. 1 \<le> m \<Longrightarrow> m \<le> int k \<Longrightarrow> addMonthsClamped start m = Inr (iso_of_day (installment_day n m))"
  shows "foldE (month_installment terms start cliff tot step) ([], 0) [1..int k] = Inr (map (month_row n V) (rises V (int k)), V (int k))"
  using assms(4)
proof (induction k)
  case 0
  then show ?case by (simp add: rises_def assms(3))
next
  case (Suc k)
  have "foldE (month_installment terms start cliff tot step) ([], 0) [1..int k] = Inr (map (month_row n V) (rises V (int k)), V (int k))"
    by (rule Suc.IH) (use Suc.prems in simp)
  moreover have "V (int k) \<le> V (int k + 1)" by (rule assms(2)) simp
  moreover have "addMonthsClamped start (int k + 1) = Inr (iso_of_day (installment_day n (int k + 1)))" using Suc.prems [of "int k + 1"] by simp
  then have "month_installment terms start cliff tot step (out, V (int k)) (int k + 1)
      = Inr (if V (int k) < V (int k + 1) then (out @ [month_row n V (int k + 1)], V (int k + 1)) else (out, V (int k)))" for out
    by (simp add: month_installment_def assms(1) month_row_def)
  moreover have "int (Suc k) = int k + 1" by simp
  ultimately show ?case unfolding \<open>int (Suc k) = int k + 1\<close> upto_snoc [OF of_nat_0_le_iff] by (simp add: foldE_append rises_snoc)
qed

lemma rises_sum:
  assumes "V 0 = 0" "\<And>i j. i \<le> j \<Longrightarrow> V i \<le> (V j :: int)" "0 \<le> M"
  shows "(\<Sum>m\<leftarrow>filter (\<lambda>m. m \<le> M) (rises V (int k)). V m - V (m - 1)) = V (min M (int k))"
proof (induction k)
  case 0
  then show ?case using assms(1,3) by (simp add: rises_def)
next
  case (Suc k)
  have r: "rises V (int (Suc k)) = rises V (int k) @ (if V (int k) < V (int k + 1) then [int k + 1] else [])"
    using rises_snoc [of V k] by (simp add: add.commute)
  have e: "V (int k) < V (int k + 1) \<or> V (int k) = V (int k + 1)" using assms(2) [of "int k" "int k + 1"] by auto
  show ?case
  proof (cases "int k + 1 \<le> M")
    case True
    then have "min M (int k) = int k" "min M (int (Suc k)) = int k + 1" by auto
    then show ?thesis unfolding r using e Suc.IH True by (auto simp: add.commute)
  next
    case False
    then have "min M (int k) = min M (int (Suc k))" by auto
    then show ?thesis unfolding r using Suc.IH False by simp
  qed
qed

text \<open>
  C19: The installments are the schedule.  For validated time-based terms whose last month lies in the calendar, the quantity vested by any date from the issue date on is
  exactly what the installments dated up to then have landed, and all of them together land the whole quantity.
\<close>

theorem installments_are_schedule:
  assumes "validateVestingTerms terms = Inr ()" "or_else (vt_vestingTranches terms) [] = []" "vt_vestingMonths terms = Some tot"
    "0 \<le> vt_quantity terms" "vt_quantity terms < 10 ^ 250" "vt_vestingStart terms = Some start" "addMonthsClamped start tot = Inr final"
    "isIsoCalendarDate asOf" "vt_issueDate terms \<le> asOf"
  shows "\<exists>ins. vestingInstallments terms = Inr ins \<and> scheduledVested terms asOf = Inr (\<Sum>x\<leftarrow>filter (\<lambda>x. vi_date x \<le> asOf) ins. vi_quantity x)
    \<and> (\<Sum>x\<leftarrow>ins. vi_quantity x) = vt_quantity terms \<and> (\<forall>x \<in> set ins. 0 < vi_quantity x)"
proof -
  define cliff where "cliff = or_else (vt_cliffMonths terms) 0"
  define step where "step = VESTING_STEP_MONTHS (or_else (vt_vestingFrequency terms) Monthly)"
  define V where "V = vested_at (vt_quantity terms) cliff tot step"
  have v: "1 \<le> tot" "tot \<le> 600" "0 \<le> cliff" "cliff \<le> tot" "isIsoCalendarDate start"
    using assms(1,2,3,6) by (auto simp: validateVestingTerms_def validate_months_def cliff_def Let_def ensure_Inr_iff split: if_splits)
  have st: "0 < step" by (simp add: step_def VESTING_STEP_MONTHS_def split: vesting_frequency.split)
  obtain n where n: "supported n" "start = iso_of_day n" using v(5) isIso_day_iff by blast
  obtain a where a: "supported a" "asOf = iso_of_day a" using assms(8) isIso_day_iff by blast
  have tb: "timeBasedVested (vt_quantity terms) m cliff tot step = Inr (V m)" for m
    unfolding V_def using assms(4,5) v st by (intro timeBasedVested_eq) simp_all
  have mono: "V i \<le> V j" if "i \<le> j" for i j unfolding V_def using that assms(4) v st by (intro vested_at_mono) simp_all
  have V0: "V 0 = 0" unfolding V_def using v by (intro vested_at_start) simp_all
  have safe: "safe_int i" if "1 \<le> i" "i \<le> tot" for i using that v(2) by simp
  have last: "1 \<le> (month_of_day n + tot) div 12" "(month_of_day n + tot) div 12 \<le> 9999"
    using assms(7) addMonthsClamped_day [OF n(1) safe [of tot]] v(1) n(2) by (auto split: if_splits)
  have date: "addMonthsClamped start i = Inr (iso_of_day (installment_day n i))" "supported (installment_day n i)" if i: "1 \<le> i" "i \<le> tot" for i
  proof -
    have "1 \<le> (month_of_day n + i) div 12" using month_years [OF n(1)] i(1) zdiv_mono1 [of "month_of_day n" "month_of_day n + i" 12] by simp
    moreover have "(month_of_day n + i) div 12 \<le> 9999" using last(2) i(2) zdiv_mono1 [of "month_of_day n + i" "month_of_day n + tot" 12] by simp
    ultimately show "addMonthsClamped start i = Inr (iso_of_day (installment_day n i))" "supported (installment_day n i)"
      using addMonthsClamped_day [OF n(1) safe [OF i]] n(2) supported_month [OF clamped_day] by (simp_all add: installment_day_def)
  qed
  let ?ins = "map (month_row n V) (rises V tot)"
  have k: "int (nat tot) = tot" using v(1) by simp
  have "foldE (month_installment terms start cliff tot step) ([], 0) [1..tot] = Inr (?ins, V tot)"
    by (rule month_loop [OF tb mono V0, of "nat tot" start n, unfolded k]) (simp_all add: date(1))
  then have ins: "vestingInstallments terms = Inr ?ins" using assms(2,3,6) v(1) by (simp add: vestingInstallments_def cliff_def step_def Let_def)
  let ?M = "months_between n a"
  have "vi_date (month_row n V m) \<le> asOf \<longleftrightarrow> m \<le> ?M" if "m \<in> set (rises V tot)" for m
  proof -
    have m: "1 \<le> m" "m \<le> tot" using that by (simp_all add: rises_def)
    have "iso_of_day (installment_day n m) \<le> iso_of_day a \<longleftrightarrow> installment_day n m \<le> a"
      using iso_of_day_less [OF a(1) date(2) [OF m]] by (simp add: not_less [symmetric])
    then show ?thesis using installment_day_le_iff [OF m(1), of n a] a(2) by (simp add: month_row_def)
  qed
  then have "filter (\<lambda>x. vi_date x \<le> asOf) ?ins = map (month_row n V) (filter (\<lambda>m. m \<le> ?M) (rises V tot))"
    unfolding filter_map o_def by (metis (mono_tags, lifting) filter_cong)
  then have landed: "(\<Sum>x\<leftarrow>filter (\<lambda>x. vi_date x \<le> asOf) ?ins. vi_quantity x) = V (min ?M tot)"
    using rises_sum [of V, OF V0 mono months_between_nonneg [of n a], of "nat tot", unfolded k] by (simp add: month_row_def o_def)
  have "V tot = vt_quantity terms" "V ?M = V (min ?M tot)" using v by (auto simp: V_def vested_at_def min_def)
  moreover have "scheduledVested terms asOf = Inr (V ?M)"
    using assms(2,3,6) assms(9) [unfolded not_less [symmetric]] v(1) tb a(2) n completedMonths_day [OF n(1) a(1)] by (simp add: scheduledVested_def cliff_def step_def Let_def)
  moreover have "(\<Sum>x\<leftarrow>?ins. vi_quantity x) = V tot"
  proof -
    have "filter (\<lambda>m. m \<le> tot) (rises V tot) = rises V tot" by (rule filter_True) (auto simp: rises_def)
    then show ?thesis using rises_sum [of V, OF V0 mono, of tot "nat tot", unfolded k] v(1) by (simp add: month_row_def o_def)
  qed
  moreover have "\<forall>x \<in> set ?ins. 0 < vi_quantity x" by (auto simp: rises_def month_row_def)
  ultimately show ?thesis using ins landed by (intro exI [of _ ?ins]) simp
qed

definition sample_vesting :: vesting_terms where
  "sample_vesting = \<lparr>vt_issueDate = ''2024-01-31'', vt_quantity = 4800, vt_vestingStart = Some ''2024-01-31'', vt_vestingMonths = Some 48, vt_cliffMonths = Some 12,
     vt_vestingFrequency = Some Monthly, vt_vestingTranches = None\<rparr>"

theorem installments_are_schedule_witness:
  "\<exists>ins. vestingInstallments sample_vesting = Inr ins \<and> Inr 1300 = Inr (\<Sum>x\<leftarrow>filter (\<lambda>x. vi_date x \<le> ''2025-02-28'') ins. vi_quantity x) \<and> (\<Sum>x\<leftarrow>ins. vi_quantity x) = 4800"
proof -
  have e: "scheduledVested sample_vesting ''2025-02-28'' = Inr 1300" "validateVestingTerms sample_vesting = Inr ()" "isIsoCalendarDate ''2025-02-28''" by code_simp+
  have d: "addMonthsClamped ''2024-01-31'' 48 = Inr ''2028-01-31''" by code_simp
  have l: "vt_issueDate sample_vesting \<le> ''2025-02-28''" by code_simp
  have s: "or_else (vt_vestingTranches sample_vesting) [] = []" "vt_vestingMonths sample_vesting = Some 48" "0 \<le> vt_quantity sample_vesting"
    "vt_quantity sample_vesting < 10 ^ 250" "vt_vestingStart sample_vesting = Some ''2024-01-31''" "vt_quantity sample_vesting = 4800" by (simp_all add: sample_vesting_def)
  from installments_are_schedule [OF e(2) s(1-5) d e(3) l] e(1) s(6) show ?thesis by auto
qed

section \<open>Tranches and acceleration\<close>

lemma check_tranches_sum:
  "foldE check_tranche (prev, tot) ts = Inr (p, t) \<Longrightarrow> t = tot + (\<Sum>x\<leftarrow>ts. tr_quantity x) \<and> (\<forall>x \<in> set ts. 0 < tr_quantity x)"
proof (induction ts arbitrary: prev tot)
  case (Cons a ts)
  have "0 < tr_quantity a" "foldE check_tranche (tr_date a, tot + tr_quantity a) ts = Inr (p, t)"
    using Cons.prems by (auto simp: check_tranche_def [of "(prev, tot)" a] bindE_Inr_iff split: if_splits)
  with Cons.IH [OF this(2)] show ?case by simp
qed simp

lemma tranche_installments_sum: "(\<Sum>x\<leftarrow>filter (\<lambda>x. P (vi_date x)) (tranche_installments c ts). vi_quantity x) = (\<Sum>x\<leftarrow>filter (\<lambda>x. P (tr_date x)) ts. tr_quantity x)"
  by (induction ts arbitrary: c) (simp_all add: Let_def)

lemma fold_filter_sum: "fold (\<lambda>t v. if P t then v + f t else v) ts a = a + (\<Sum>t\<leftarrow>filter P ts. f t :: int)"
  by (induction ts arbitrary: a) auto

lemma filter_sum_le: "\<forall>x \<in> set ts. 0 \<le> f x \<Longrightarrow> (\<Sum>t\<leftarrow>filter P ts. f t) \<le> (\<Sum>t\<leftarrow>ts. f t :: int)"
  by (induction ts) auto

theorem tranches_are_schedule:
  assumes "validateVestingTerms terms = Inr ()" "vt_vestingTranches terms = Some ts" "ts \<noteq> []" "\<not> asOf < vt_issueDate terms"
  shows "\<exists>ins. vestingInstallments terms = Inr ins \<and> scheduledVested terms asOf = Inr (\<Sum>x\<leftarrow>filter (\<lambda>x. vi_date x \<le> asOf) ins. vi_quantity x)"
proof -
  obtain p where "foldE check_tranche ([], 0) ts = Inr (p, vt_quantity terms)"
    using assms(1-3) by (auto simp: validateVestingTerms_def validate_tranches_def bindE_Inr_iff ensure_Inr_iff Let_def split: if_splits)
  then have q: "vt_quantity terms = (\<Sum>x\<leftarrow>ts. tr_quantity x)" "\<forall>x \<in> set ts. 0 \<le> tr_quantity x" using check_tranches_sum by fastforce+
  then have "(\<Sum>x\<leftarrow>filter (\<lambda>x. tr_date x \<le> asOf) ts. tr_quantity x) \<le> vt_quantity terms" using filter_sum_le by simp
  then show ?thesis using assms(2-4) tranche_installments_sum [of "\<lambda>d. d \<le> asOf" 0 ts]
    by (simp add: vestingInstallments_def scheduledVested_def Let_def fold_filter_sum)
qed

text \<open>Acceleration moves the vested quantity up towards the outstanding one, never past it.\<close>

lemma acceleratedVested_bounds:
  assumes "acceleratedVested vested outstanding acc pct coc ended = Inr v" "\<And>p. parsePercent (or_else pct []) = Inr p \<Longrightarrow> \<exists>y. stands p y \<and> 0 \<le> y"
  shows "min vested outstanding \<le> v \<and> v \<le> outstanding"
proof (cases "(acc = Single \<and> coc) \<or> (acc = Double \<and> coc \<and> ended)")
  case True
  define c where "c = (if vested < outstanding then vested else outstanding)"
  obtain p u m where p: "parsePercent (or_else pct []) = Inr p" "rational (outstanding - c) 1 = Inr u" "multiplyRational u p = Inr m"
      "v = (if c + floorShares m < outstanding then c + floorShares m else outstanding)"
    using assms(1) True unfolding acceleratedVested_def Let_def c_def by (auto simp: bindE_Inr_iff)
  obtain y where y: "stands p y" "0 \<le> y" using assms(2) p(1) by blast
  have "stands m (of_int (outstanding - c) * y)" using stands_multiply [OF p(3) stands_rational [OF p(2)] y(1)] by simp
  then have "floorShares m = \<lfloor>of_int (outstanding - c) * y\<rfloor>" by (rule floorShares_value)
  moreover have "0 \<le> of_int (outstanding - c) * y" using y(2) by (intro mult_nonneg_nonneg) (simp_all add: c_def)
  ultimately have "0 \<le> floorShares m" by simp
  then show ?thesis using p(4) by (auto simp: c_def)
qed (use assms(1) in \<open>auto simp: acceleratedVested_def Let_def\<close>)

end
