(* ===== verification/Note_Interest.thy ===== *)
theory Note_Interest
  imports Vesting
begin

text \<open>
  Interest of convertible notes, \<open>engine/src/equity/interest.ts\<close>: day counts, year fractions and accrual.  The loop of the actual/actual basis ends because each round
  either reaches the closing date or moves to the next year, and the calendar refuses to leave the year 9999.
\<close>

section \<open>Day counts\<close>

datatype interest_basis = Simple | Compound_annual | Compound_semiannual | Compound_quarterly | Compound_monthly
datatype day_count = Actual_365 | Actual_360 | Thirty_360 | Actual_actual

definition COMPOUNDING_MONTHS :: "interest_basis \<Rightarrow> int option" where
  "COMPOUNDING_MONTHS b = (case b of Simple \<Rightarrow> None | Compound_annual \<Rightarrow> Some 12 | Compound_semiannual \<Rightarrow> Some 6 | Compound_quarterly \<Rightarrow> Some 3 | Compound_monthly \<Rightarrow> Some 1)"

definition isLeap :: "int \<Rightarrow> bool" where
  "isLeap year \<longleftrightarrow> (year smod 4 = 0 \<and> year smod 100 \<noteq> 0) \<or> year smod 400 = 0"

definition days360 :: "string \<Rightarrow> string \<Rightarrow> int" where
  "days360 from to = (let d1 = min (iso_day from) 30; d2 = (if iso_day to = 31 \<and> d1 = 30 then 30 else iso_day to)
     in 360 * (iso_year to - iso_year from) + 30 * (iso_month to - iso_month from) + (d2 - d1))"

definition next_year_text :: "string \<Rightarrow> string" where
  "next_year_text cursor = padStart (bigint_text (iso_year cursor + 1)) 4 CHR ''0'' @ ''-01-01''"

definition year_end :: "string \<Rightarrow> string \<Rightarrow> string" where
  "year_end cursor to = (if next_year_text cursor < to then next_year_text cursor else to)"

lemma calendarDaysBetween_valid: "calendarDaysBetween s t = Inr d \<Longrightarrow> \<exists>n k. supported n \<and> supported k \<and> s = iso_of_day n \<and> t = iso_of_day k \<and> d = k - n"
  by (auto simp: calendarDaysBetween_def bindE_Inr_iff dest!: civilDayIndex_Inr)

lemma next_year_day:
  assumes "supported n" "civil_of_day n = (y, m, d)"
  shows "if y < 9999 then next_year_text (iso_of_day n) = iso_of_day (day_from_year (y + 1)) \<and> supported (day_from_year (y + 1))
    else \<not> isIsoCalendarDate (next_year_text (iso_of_day n))"
proof (cases "y < 9999")
  case True
  have y: "1 \<le> y" using assms by (simp add: supported_year)
  have v: "valid_civil (y + 1) 0 1" by (simp add: valid_civil_def days_in_month_def month_lengths_def)
  have j: "make_day (y + 1) 0 1 = day_from_year (y + 1)" using make_day_valid [OF v] by (simp add: days_before_month_def)
  have "padStart (bigint_text (0 + 1)) 2 CHR ''0'' = ''01''" "padStart (bigint_text 1) 2 CHR ''0'' = ''01''" by code_simp+
  then have "next_year_text (iso_of_day n) = civil_text (y + 1) 0 1"
    unfolding next_year_text_def iso_fields [OF assms] civil_text_def by simp
  then show ?thesis using True y iso_of_make_day [OF v] supported_make_day [OF v] j by simp
next
  case False
  then have "y = 9999" using assms by (simp add: supported_year)
  moreover have "padStart (bigint_text (9999 + 1)) 4 CHR ''0'' @ ''-01-01'' = ''10000-01-01''" by code_simp
  ultimately have "next_year_text (iso_of_day n) = ''10000-01-01''" unfolding next_year_text_def iso_fields [OF assms] by simp
  moreover have "\<not> isIsoCalendarDate ''10000-01-01''" by code_simp
  ultimately show ?thesis using False by simp
qed

lemma year_loop_decreases:
  assumes "cursor < to" "calendarDaysBetween cursor (year_end cursor to) = Inr d"
  shows "(if year_end cursor to < to then nat (20000 - iso_year (year_end cursor to)) else 0) < (if cursor < to then nat (20000 - iso_year cursor) else 0)"
proof -
  obtain n k where n: "supported n" "supported k" "cursor = iso_of_day n" "year_end cursor to = iso_of_day k" using calendarDaysBetween_valid [OF assms(2)] by blast
  obtain y m e where c: "civil_of_day n = (y, m, e)" by (cases "civil_of_day n")
  have y: "iso_year cursor = y" "1 \<le> y" "y \<le> 9999" using iso_fields(1) [OF n(1) c] n(1,3) c by (simp_all add: supported_year)
  show ?thesis
  proof (cases "year_end cursor to < to")
    case True
    then have e: "year_end cursor to = next_year_text cursor" by (auto simp: year_end_def split: if_splits)
    then have "isIsoCalendarDate (next_year_text cursor)" using n isIso_day_iff by metis
    then have l: "y < 9999" "next_year_text cursor = iso_of_day (day_from_year (y + 1))" "supported (day_from_year (y + 1))"
      using next_year_day [OF n(1) c] n(3) by (auto split: if_splits)
    have v: "valid_civil (y + 1) 0 1" by (simp add: valid_civil_def days_in_month_def month_lengths_def)
    have "civil_of_day (day_from_year (y + 1)) = (y + 1, 0, 1)" using civil_of_make_day [OF v] make_day_valid [OF v] by (simp add: days_before_month_def)
    then have "iso_year (year_end cursor to) = y + 1" using iso_fields(1) [OF l(3)] e l(2) by simp
    then show ?thesis using y assms(1) True by simp
  next
    case False
    then show ?thesis using y assms(1) by simp
  qed
qed

function year_loop :: "string \<Rightarrow> string \<Rightarrow> Rational \<Rightarrow> Rational result" where
  "year_loop to cursor tot = (if cursor < to
     then bindE (calendarDaysBetween cursor (year_end cursor to)) (\<lambda>days.
       bindE (rational days (if isLeap (iso_year cursor) then 366 else 365)) (\<lambda>part.
       bindE (addRational tot part) (\<lambda>tot'. year_loop to (year_end cursor to) tot')))
     else Inr tot)"
  by pat_completeness auto
termination year_loop
  apply (relation "measure (\<lambda>(to, cursor, _). if cursor < to then nat (20000 - iso_year cursor) else 0)")
   apply (rule wf_measure)
  apply (unfold in_measure case_prod_conv)
  apply (erule (1) year_loop_decreases)
  done

declare year_loop.simps [simp del]

definition yearFraction :: "day_count option \<Rightarrow> string \<Rightarrow> string \<Rightarrow> Rational result" where
  "yearFraction dayCount from to = (if to \<le> from then Inr ZERO
     else case dayCount of
       Some Actual_365 \<Rightarrow> bindE (calendarDaysBetween from to) (\<lambda>d. rational d 365)
     | Some Actual_360 \<Rightarrow> bindE (calendarDaysBetween from to) (\<lambda>d. rational d 360)
     | Some Thirty_360 \<Rightarrow> rational (days360 from to) 360
     | Some Actual_actual \<Rightarrow> year_loop to from ZERO
     | None \<Rightarrow> Inl (EquityError ''noteDayCountMissing''))"

section \<open>Accrual\<close>

record interest_terms =
  it_issueDate :: string
  it_principal :: string
  it_interestRatePercent :: "string option"
  it_interestBasis :: "interest_basis option"
  it_interestDayCount :: "day_count option"

text \<open>The compounded balance, rounded to ten places at each period.\<close>

fun compound_loop :: "nat \<Rightarrow> Rational \<Rightarrow> Rational \<Rightarrow> Rational result" where
  "compound_loop 0 grow v = Inr v"
| "compound_loop (Suc k) grow v = bindE (multiplyRational v grow) (\<lambda>grown.
     bindE (rational (quantize grown PRICE_SCALE Half_up) (10 ^ PRICE_SCALE)) (compound_loop k grow))"

definition noteInterest :: "interest_terms \<Rightarrow> string \<Rightarrow> Rational result" where
  "noteInterest terms asOf = (if asOf \<le> it_issueDate terms then Inr ZERO
     else bindE (equity_parseMoney (it_principal terms)) (\<lambda>principal.
       bindE (parsePercent (or_else (it_interestRatePercent terms) [])) (\<lambda>rate.
       case it_interestBasis terms of None \<Rightarrow> Inl (EquityError ''noteInterestBasisMissing'')
       | Some b \<Rightarrow> (case COMPOUNDING_MONTHS b of
           None \<Rightarrow> bindE (yearFraction (it_interestDayCount terms) (it_issueDate terms) asOf) (\<lambda>frac.
             bindE (multiplyRational rate frac) (multiplyRational principal))
         | Some months \<Rightarrow>
             let periods = completedMonths (it_issueDate terms) asOf div months in
             bindE (addMonthsClamped (it_issueDate terms) (periods * months)) (\<lambda>lst.
             bindE (rational months 12) (\<lambda>share. bindE (multiplyRational rate share) (\<lambda>part. bindE (addRational ONE part) (\<lambda>grow.
             bindE (compound_loop (nat periods) grow principal) (\<lambda>balance.
             bindE (yearFraction (it_interestDayCount terms) lst asOf) (\<lambda>frac.
             bindE (multiplyRational rate frac) (\<lambda>accrual. bindE (addRational ONE accrual) (\<lambda>factor.
             bindE (multiplyRational balance factor) (\<lambda>v. subtractRational v principal)))))))))))))"

section \<open>Year fractions add up\<close>

text \<open>A day as a fractional year on the actual/actual basis.\<close>

definition year_point :: "int \<Rightarrow> rat" where
  "year_point n = (let y = year_from_day n in of_int y + of_int (n - day_from_year y) / of_int (day_from_year (y + 1) - day_from_year y))"

lemma year_length: "day_from_year (y + 1) - day_from_year y = (if leap_year y then 366 else 365)"
  by (simp add: day_from_year_Suc)

lemma year_point_start: "year_point (day_from_year y) = of_int y"
proof -
  have "year_from_day (day_from_year y) = y" by (rule year_from_day_eq) (simp_all add: day_from_year_Suc)
  then show ?thesis by (simp add: year_point_def Let_def)
qed

lemma year_point_within:
  assumes "n \<le> e" "e \<le> day_from_year (year_from_day n + 1)"
  shows "year_point e - year_point n = of_int (e - n) / of_int (if leap_year (year_from_day n) then 366 else 365)"
proof -
  define y where "y = year_from_day n"
  define L where "L = (if leap_year y then 366 else 365 :: int)"
  have L: "day_from_year (y + 1) = day_from_year y + L" "0 < L" using year_length [of y] by (auto simp: L_def)
  have n: "day_from_year y \<le> n" "n < day_from_year (y + 1)" using year_from_day_bounds [of n] by (simp_all add: y_def)
  have pn: "year_point n = of_int y + of_int (n - day_from_year y) / of_int L" by (simp add: year_point_def y_def [symmetric] L(1))
  have pe: "year_point e = of_int y + of_int (e - day_from_year y) / of_int L"
  proof (cases "e = day_from_year (y + 1)")
    case True
    have "(of_int L / of_int L :: rat) = 1" using L(2) by simp
    then show ?thesis using True year_point_start [of "y + 1"] L(1) by simp
  next
    case False
    then have "year_from_day e = y" using assms n by (intro year_from_day_eq) (simp_all add: y_def)
    then show ?thesis by (simp add: year_point_def L(1))
  qed
  have "year_point e - year_point n = of_int (e - n) / of_int L" unfolding pn pe by (simp add: diff_divide_distrib)
  then show ?thesis by (simp add: L_def y_def)
qed

lemma isLeap_year: "1 \<le> y \<Longrightarrow> isLeap y \<longleftrightarrow> leap_year y"
  using mod_mod_cancel [of 4 400 y] by (auto simp: isLeap_def leap_year_def smod_nonneg)

lemma civil_year: "civil_of_day n = (y, m, d) \<Longrightarrow> year_from_day n = y"
  by (auto simp: civil_of_day_def Let_def split: prod.splits)

lemma year_end_day:
  assumes "supported n" "supported k" "n < k" "calendarDaysBetween (iso_of_day n) (year_end (iso_of_day n) (iso_of_day k)) = Inr d"
  defines "e \<equiv> min (day_from_year (year_from_day n + 1)) k"
  shows "year_end (iso_of_day n) (iso_of_day k) = iso_of_day e" "supported e" "n < e" "d = e - n"
proof -
  obtain y m dd where c: "civil_of_day n = (y, m, dd)" by (cases "civil_of_day n")
  note y = civil_year [OF c]
  have "year_end (iso_of_day n) (iso_of_day k) = iso_of_day e \<and> supported e"
  proof (cases "y < 9999")
    case True
    then have j: "next_year_text (iso_of_day n) = iso_of_day (day_from_year (y + 1))" "supported (day_from_year (y + 1))"
      using next_year_day [OF assms(1) c] by simp_all
    then show ?thesis using iso_of_day_less [OF j(2) assms(2)] assms(2) by (auto simp: year_end_def e_def y min_def)
  next
    case False
    then have bad: "\<not> isIsoCalendarDate (next_year_text (iso_of_day n))" using next_year_day [OF assms(1) c] by simp
    have "isIsoCalendarDate (year_end (iso_of_day n) (iso_of_day k))" using calendarDaysBetween_valid [OF assms(4)] isIso_day_iff by metis
    then have "year_end (iso_of_day n) (iso_of_day k) = iso_of_day k" using bad by (auto simp: year_end_def split: if_splits)
    moreover have "k \<le> day_from_year (y + 1)"
    proof -
      have "y = 9999" using False assms(1) c by (simp add: supported_year)
      moreover obtain y' m' d' where c': "civil_of_day k = (y', m', d')" by (cases "civil_of_day k")
      ultimately have "year_from_day k \<le> y" using assms(2) civil_year [OF c'] by (simp add: supported_year)
      then have "day_from_year (year_from_day k + 1) \<le> day_from_year (y + 1)" by (intro day_from_year_le) simp
      then show ?thesis using year_from_day_bounds [of k] by simp
    qed
    ultimately show ?thesis using assms(2) by (simp add: e_def y min_def)
  qed
  then show "year_end (iso_of_day n) (iso_of_day k) = iso_of_day e" "supported e" by simp_all
  show "n < e" using assms(3) year_from_day_bounds [of n] by (simp add: e_def)
  show "d = e - n" using assms(1,4) \<open>year_end (iso_of_day n) (iso_of_day k) = iso_of_day e\<close> \<open>supported e\<close> civil.decode_encode
    by (auto simp: calendarDaysBetween_def)
qed

lemma year_loop_point:
  assumes "year_loop (iso_of_day k) (iso_of_day n) tot = Inr r" "supported n" "supported k" "n \<le> k" "stands tot x"
  shows "stands r (x + year_point k - year_point n)"
  using assms
proof (induction "nat (k - n)" arbitrary: n tot x rule: less_induct)
  case less
  show ?case
  proof (cases "n = k")
    case True
    then show ?thesis using less.prems by (simp add: year_loop.simps)
  next
    case False
    then have lt: "n < k" "iso_of_day n < iso_of_day k" using less.prems iso_of_day_less by auto
    obtain d p t where s: "calendarDaysBetween (iso_of_day n) (year_end (iso_of_day n) (iso_of_day k)) = Inr d"
        "rational d (if isLeap (iso_year (iso_of_day n)) then 366 else 365) = Inr p" "addRational tot p = Inr t"
        "year_loop (iso_of_day k) (year_end (iso_of_day n) (iso_of_day k)) t = Inr r"
      using less.prems(1) lt(2) by (auto simp: year_loop.simps [of _ "iso_of_day n"] bindE_Inr_iff)
    define e where "e = min (day_from_year (year_from_day n + 1)) k"
    note e = year_end_day [OF less.prems(2,3) lt(1) s(1), folded e_def]
    obtain y m dd where c: "civil_of_day n = (y, m, dd)" by (cases "civil_of_day n")
    have y: "iso_year (iso_of_day n) = y" "year_from_day n = y" "1 \<le> y"
      using iso_fields(1) [OF less.prems(2) c] civil_year [OF c] less.prems(2) c by (simp_all add: supported_year)
    have "stands p (of_int (e - n) / of_int (if leap_year y then 366 else 365))"
      using stands_rational [OF s(2)] by (simp add: y isLeap_year e(4))
    also have "of_int (e - n) / of_int (if leap_year y then 366 else 365) = year_point e - year_point n"
      using year_point_within [of n e] e(3) by (simp add: e_def y(2))
    finally have "stands t (x + (year_point e - year_point n))" by (rule stands_add [OF s(3) less.prems(5)])
    moreover have "year_loop (iso_of_day k) (iso_of_day e) t = Inr r" using s(4) e(1) by simp
    moreover have "e \<le> k" "nat (k - e) < nat (k - n)" using e(3) lt(1) by (auto simp: e_def)
    ultimately have "stands r (x + (year_point e - year_point n) + year_point k - year_point e)" using less.hyps e(2) less.prems(3) by blast
    then show ?thesis by (simp add: algebra_simps)
  qed
qed

text \<open>
  Actual/actual year fractions add up.  The fraction of an interval is the difference of the two dates' positions in their calendar years, so adjoining intervals add and
  a whole calendar year counts one.
\<close>

lemma actual_actual_telescopes:
  assumes "yearFraction (Some Actual_actual) (iso_of_day n) (iso_of_day k) = Inr r" "supported n" "supported k" "n \<le> k"
  shows "stands r (year_point k - year_point n)"
proof (cases "n = k")
  case True
  then show ?thesis using assms(1) by (simp add: yearFraction_def)
next
  case False
  then have "\<not> iso_of_day k \<le> iso_of_day n" using assms iso_of_day_less by (simp add: not_le)
  then have "year_loop (iso_of_day k) (iso_of_day n) ZERO = Inr r" using assms(1) by (simp add: yearFraction_def)
  from year_loop_point [OF this assms(2-4) stands_constants(1)] show ?thesis by simp
qed

section \<open>Accrued interest\<close>

text \<open>
  C38: Simple interest on the actual/actual basis is exact: principal times annual rate times the difference of the two dates' positions in their calendar years, so what
  accrues over adjoining periods adds up to what accrues over both.
\<close>

theorem simple_interest_exact:
  assumes "noteInterest terms (iso_of_day k) = Inr r" "it_issueDate terms = iso_of_day n" "supported n" "supported k" "n \<le> k"
    "it_interestBasis terms = Some Simple" "it_interestDayCount terms = Some Actual_actual"
    "equity_parseMoney (it_principal terms) = Inr pr" "stands pr P" "parsePercent (or_else (it_interestRatePercent terms) []) = Inr rt" "stands rt R"
  shows "stands r (P * R * (year_point k - year_point n))"
proof (cases "n = k")
  case True
  then show ?thesis using assms(1,2) by (simp add: noteInterest_def)
next
  case False
  then have "\<not> iso_of_day k \<le> iso_of_day n" using assms(3-5) iso_of_day_less by (simp add: not_le)
  then obtain f m where f: "yearFraction (Some Actual_actual) (iso_of_day n) (iso_of_day k) = Inr f" "multiplyRational rt f = Inr m" "multiplyRational pr m = Inr r"
    using assms by (auto simp: noteInterest_def COMPOUNDING_MONTHS_def bindE_Inr_iff)
  have "stands r (P * (R * (year_point k - year_point n)))"
    by (rule stands_multiply [OF f(3) assms(9) stands_multiply [OF f(2) assms(11) actual_actual_telescopes [OF f(1) assms(3-5)]]])
  then show ?thesis by (simp add: mult.assoc)
qed

text \<open>
  The compounded balance is rounded to ten places at each period; over \<open>k\<close> periods it stays within half a unit of the tenth place per period, grown to the end.
\<close>

lemma compound_loop_error:
  assumes "compound_loop k gr v = Inr r" "stands gr g" "stands v x" "1 \<le> g"
  shows "\<exists>y. stands r y \<and> \<bar>y - x * g ^ k\<bar> \<le> (\<Sum>i<k. g ^ i) / (2 * 10 ^ 10)"
  using assms(1,3)
proof (induction k arbitrary: v x)
  case 0
  then show ?case by auto
next
  case (Suc k)
  obtain m u where s: "multiplyRational v gr = Inr m" "rational (quantize m PRICE_SCALE Half_up) (10 ^ PRICE_SCALE) = Inr u" "compound_loop k gr u = Inr r"
    using Suc.prems(1) by (auto simp: bindE_Inr_iff)
  let ?h = "half_away (x * g * 10 ^ 10)"
  have u: "stands u (of_int ?h / 10 ^ 10)"
    using stands_rational [OF s(2)] quantize_value [OF stands_multiply [OF s(1) Suc.prems(2) assms(2)], of 10 Half_up] by simp
  obtain y where y: "stands r y" "\<bar>y - of_int ?h / 10 ^ 10 * g ^ k\<bar> \<le> (\<Sum>i<k. g ^ i) / (2 * 10 ^ 10)" using Suc.IH [OF s(3) u] by blast
  define d where "d = of_int ?h / 10 ^ 10 - x * g"
  have "\<bar>d\<bar> = \<bar>of_int ?h - x * g * 10 ^ 10\<bar> / 10 ^ 10" unfolding d_def by (simp add: field_simps abs_divide flip: abs_mult)
  also have "\<dots> \<le> 1 / (2 * 10 ^ 10)" using half_away_near [of "x * g * 10 ^ 10"] by simp
  finally have d: "\<bar>d\<bar> \<le> 1 / (2 * 10 ^ 10)" .
  have "0 < g ^ k" using assms(4) by simp
  then have "\<bar>d * g ^ k\<bar> \<le> g ^ k / (2 * 10 ^ 10)" using mult_right_mono [OF d, of "g ^ k"] by (simp add: abs_mult)
  moreover have "y - x * g ^ Suc k = (y - of_int ?h / 10 ^ 10 * g ^ k) + d * g ^ k" by (simp add: d_def algebra_simps)
  ultimately have "\<bar>y - x * g ^ Suc k\<bar> \<le> (\<Sum>i<k. g ^ i) / (2 * 10 ^ 10) + g ^ k / (2 * 10 ^ 10)" using y(2) by linarith
  then show ?case using y(1) by (auto simp: add_divide_distrib)
qed

definition sample_note :: interest_terms where
  "sample_note = \<lparr>it_issueDate = ''2023-07-01'', it_principal = ''100000'', it_interestRatePercent = Some ''8'', it_interestBasis = Some Simple, it_interestDayCount = Some Actual_actual\<rparr>"

theorem simple_interest_exact_witness:
  "\<exists>r. noteInterest sample_note ''2024-07-01'' = Inr r \<and> stands r (100000 * (8 / 100) * (year_point 19905 - year_point 19539))"
proof -
  have "returns (noteInterest sample_note ''2024-07-01'')" by code_simp
  then obtain r where r: "noteInterest sample_note ''2024-07-01'' = Inr r" by (rule returnsE)
  have d: "iso_of_day 19905 = ''2024-07-01''" "iso_of_day 19539 = ''2023-07-01''" by code_simp+
  have p: "equity_parseMoney ''100000'' = Inr \<lparr>numerator = 100000, denominator = 1\<rparr>" "parsePercent ''8'' = Inr \<lparr>numerator = 2, denominator = 25\<rparr>" by code_simp+
  have s: "stands \<lparr>numerator = 100000, denominator = 1\<rparr> 100000" "stands \<lparr>numerator = 2, denominator = 25\<rparr> (8 / 100)"
    by (simp_all add: stands_def canonical_rational_def rational_value_def)
  have "stands r (100000 * (8 / 100) * (year_point 19905 - year_point 19539))"
    by (rule simple_interest_exact [of sample_note _ r 19539]) (use r d p s in \<open>simp_all add: sample_note_def supported_def\<close>)
  then show ?thesis using r by blast
qed

end
