(* ===== verification/Share_Terms.thy ===== *)
theory Share_Terms
  imports Equity_Quantities "HOL-Library.List_Lexorder" "HOL-Library.Char_ord"
begin

text \<open>
  Stock splits (\<open>engine/src/equity/splits.ts\<close>) and price-based anti-dilution (\<open>anti-dilution.ts\<close>): restating quantities and prices through later splits, and the conversion
  price after a round below it.
\<close>

section \<open>Splits\<close>

record split_record =
  sp_shareClassId :: string
  sp_effectiveOn :: string
  sp_ratioNumerator :: int
  sp_ratioDenominator :: int

definition split_applies :: "string \<Rightarrow> string \<Rightarrow> string \<Rightarrow> split_record \<Rightarrow> bool" where
  "split_applies shareClassId after through sp \<longleftrightarrow> sp_shareClassId sp = shareClassId \<and> sp_effectiveOn sp > after \<and> sp_effectiveOn sp \<le> through"

definition splitFactor :: "split_record list \<Rightarrow> string \<Rightarrow> string \<Rightarrow> string \<Rightarrow> Rational result" where
  "splitFactor splits shareClassId after through = foldE (\<lambda>factor sp.
     if sp_shareClassId sp \<noteq> shareClassId then Inr factor
     else if sp_effectiveOn sp > after \<and> sp_effectiveOn sp \<le> through
     then bindE (rational (sp_ratioNumerator sp) (sp_ratioDenominator sp)) (multiplyRational factor)
     else Inr factor) ONE splits"

definition restateShares :: "split_record list \<Rightarrow> string \<Rightarrow> int \<Rightarrow> string \<Rightarrow> string \<Rightarrow> int result" where
  "restateShares splits shareClassId quantity statedOn asOf = bindE (rational quantity 1) (\<lambda>q.
     bindE (splitFactor splits shareClassId statedOn asOf) (\<lambda>f. bindE (multiplyRational q f) (\<lambda>r. Inr (floorShares r))))"

definition restatePrice :: "split_record list \<Rightarrow> string \<Rightarrow> Rational \<Rightarrow> string \<Rightarrow> string \<Rightarrow> Rational result" where
  "restatePrice splits shareClassId price statedOn asOf = bindE (splitFactor splits shareClassId statedOn asOf) (divideRational price)"

definition validateSplitRatio :: "int \<Rightarrow> int \<Rightarrow> unit result" where
  "validateSplitRatio n d = ensure (\<not> (n \<le> 0 \<or> d \<le> 0 \<or> n = d)) (EquityError ''splitRatioInvalid'')"

section \<open>Anti-dilution\<close>

datatype anti_dilution = No_protection | Full_ratchet | Broad_based | Narrow_based

record anti_dilution_inputs =
  ad_protection :: anti_dilution
  ad_conversionPrice :: Rational
  ad_newIssuePrice :: Rational
  ad_newMoney :: Rational
  ad_newShares :: Rational
  ad_fullyDilutedBefore :: int
  ad_outstandingBefore :: int

definition adjustedConversionPriceExact :: "anti_dilution_inputs \<Rightarrow> Rational result" where
  "adjustedConversionPriceExact i =
     (if ad_protection i = No_protection \<or> compareRational (ad_newIssuePrice i) (ad_conversionPrice i) \<ge> 0 then Inr (ad_conversionPrice i)
      else if ad_protection i = Full_ratchet then Inr (ad_newIssuePrice i)
      else bindE (rational (if ad_protection i = Broad_based then ad_fullyDilutedBefore i else ad_outstandingBefore i) 1) (\<lambda>base.
        if numerator base \<le> 0 then Inl (EquityError ''antiDilutionBaseMissing'')
        else bindE (divideRational (ad_newMoney i) (ad_conversionPrice i)) (\<lambda>wouldHaveBought.
          bindE (addRational base wouldHaveBought) (\<lambda>before. bindE (addRational base (ad_newShares i)) (\<lambda>after.
          bindE (divideRational before after) (multiplyRational (ad_conversionPrice i)))))))"

definition adjustedConversionPrice :: "anti_dilution_inputs \<Rightarrow> Rational result" where
  "adjustedConversionPrice i = bindE (adjustedConversionPriceExact i) (\<lambda>v. rational (quantize v PRICE_SCALE Half_up) (10 ^ PRICE_SCALE))"

section \<open>Splits multiply and keep values\<close>

lemma splitFactor_value:
  assumes "splitFactor sps c a t = Inr r"
  shows "stands r (\<Prod>sp\<leftarrow>filter (split_applies c a t) sps. of_int (sp_ratioNumerator sp) / of_int (sp_ratioDenominator sp))"
proof -
  let ?step = "\<lambda>factor sp. if sp_shareClassId sp \<noteq> c then Inr factor else if sp_effectiveOn sp > a \<and> sp_effectiveOn sp \<le> t
     then bindE (rational (sp_ratioNumerator sp) (sp_ratioDenominator sp)) (multiplyRational factor) else Inr factor"
  have "foldE ?step s sps = Inr r \<Longrightarrow> stands s x \<Longrightarrow> stands r (x * (\<Prod>sp\<leftarrow>filter (split_applies c a t) sps. of_int (sp_ratioNumerator sp) / of_int (sp_ratioDenominator sp)))" for s x
  proof (induction sps arbitrary: s x)
    case (Cons sp sps)
    obtain s' where s': "?step s sp = Inr s'" "foldE ?step s' sps = Inr r" using Cons.prems(1) by (auto simp: bindE_Inr_iff)
    show ?case
    proof (cases "split_applies c a t sp")
      case True
      then obtain q where q: "rational (sp_ratioNumerator sp) (sp_ratioDenominator sp) = Inr q" "multiplyRational s q = Inr s'"
        using s'(1) by (auto simp: split_applies_def bindE_Inr_iff)
      from Cons.IH [OF s'(2) stands_multiply [OF q(2) Cons.prems(2) stands_rational [OF q(1)]]] True show ?thesis by (simp add: mult.assoc)
    next
      case False
      then have "s' = s" using s'(1) by (auto simp: split_applies_def split: if_splits)
      then show ?thesis using Cons.IH [OF s'(2)] Cons.prems(2) False by simp
    qed
  qed simp
  from this [OF assms [unfolded splitFactor_def] stands_constants(2)] show ?thesis by simp
qed

text \<open>
  A split changes the count, not the value.  Restated shares are the quantity times the product of the later ratios, rounded down once; the restated price
  is the price divided by the same product, so their exact product is unchanged.
\<close>

theorem split_keeps_value:
  assumes "restatePrice sps c p a t = Inr p'" "restateShares sps c q a t = Inr s" "stands p x"
  shows "\<exists>f y. stands p' y \<and> s = \<lfloor>of_int q * f\<rfloor> \<and> y * (of_int q * f) = x * of_int q
    \<and> f = (\<Prod>sp\<leftarrow>filter (split_applies c a t) sps. of_int (sp_ratioNumerator sp) / of_int (sp_ratioDenominator sp))"
proof -
  define f where "f = (\<Prod>sp\<leftarrow>filter (split_applies c a t) sps. of_int (sp_ratioNumerator sp) / of_int (sp_ratioDenominator sp) :: rat)"
  obtain g where g: "splitFactor sps c a t = Inr g" "divideRational p g = Inr p'" using assms(1) by (auto simp: restatePrice_def bindE_Inr_iff)
  have sg: "stands g f" unfolding f_def by (rule splitFactor_value [OF g(1)])
  note y = stands_divide [OF g(2) assms(3) sg]
  obtain u m where u: "rational q 1 = Inr u" "multiplyRational u g = Inr m" "s = floorShares m"
    using assms(2) g(1) by (auto simp: restateShares_def bindE_Inr_iff)
  have "stands m (of_int q * f)" using stands_multiply [OF u(2) stands_rational [OF u(1)] sg] by simp
  then show ?thesis using y u(3) floorShares_value by (intro exI [of _ f] exI [of _ "x / f"]) (auto simp: f_def [symmetric])
qed

section \<open>The price after a round\<close>

definition weighted_price :: "rat \<Rightarrow> rat \<Rightarrow> rat \<Rightarrow> int \<Rightarrow> rat" where
  "weighted_price cp m n before = cp * (of_int before + m / cp) / (of_int before + n)"

lemma weighted_price_value:
  assumes "adjustedConversionPriceExact i = Inr r" "stands (ad_conversionPrice i) cp" "stands (ad_newIssuePrice i) np" "stands (ad_newMoney i) m" "stands (ad_newShares i) n"
    "ad_protection i \<noteq> No_protection" "np < cp" "ad_protection i \<noteq> Full_ratchet"
    "b = (if ad_protection i = Broad_based then ad_fullyDilutedBefore i else ad_outstandingBefore i)"
  shows "0 < b \<and> stands r (weighted_price cp m n b)"
proof -
  obtain base w x y q where e: "rational b 1 = Inr base" "\<not> numerator base \<le> 0" "divideRational (ad_newMoney i) (ad_conversionPrice i) = Inr w"
      "addRational base w = Inr x" "addRational base (ad_newShares i) = Inr y" "divideRational x y = Inr q" "multiplyRational (ad_conversionPrice i) q = Inr r"
    using assms by (auto simp: adjustedConversionPriceExact_def stands_compare bindE_Inr_iff split: if_splits)
  have sb: "stands base (of_int b)" using stands_rational [OF e(1)] by simp
  then have b: "0 < (of_int b :: rat)" using e(2) stands_numerator(3) by auto
  have sx: "stands x (of_int b + m / cp)" using stands_add [OF e(4) sb] stands_divide [OF e(3) assms(4,2)] by blast
  have sy: "stands y (of_int b + n)" by (rule stands_add [OF e(5) sb assms(5)])
  have "stands r (cp * ((of_int b + m / cp) / (of_int b + n)))" using stands_multiply [OF e(7) assms(2)] stands_divide [OF e(6) sx sy] by blast
  then show ?thesis using b by (simp add: weighted_price_def)
qed

lemma weighted_price_bounds:
  assumes "0 < cp" "0 \<le> n" "0 < b"
  shows "np \<le> cp \<Longrightarrow> np * n \<le> m \<Longrightarrow> np \<le> weighted_price cp m n b" "m \<le> cp * n \<Longrightarrow> weighted_price cp m n b \<le> cp"
proof -
  have pos: "0 < of_int b + n" using assms by simp
  have v: "weighted_price cp m n b = (cp * of_int b + m) / (of_int b + n)" using assms(1) by (simp add: weighted_price_def distrib_left)
  show "np \<le> weighted_price cp m n b" if "np \<le> cp" "np * n \<le> m"
  proof -
    have "np * of_int b \<le> cp * of_int b" using that(1) assms(3) by (simp add: mult_right_mono)
    then have "np * (of_int b + n) \<le> cp * of_int b + m" using that(2) by (simp add: distrib_left)
    then show ?thesis unfolding v using pos by (simp add: pos_le_divide_eq)
  qed
  show "weighted_price cp m n b \<le> cp" if "m \<le> cp * n" unfolding v using pos that by (simp add: pos_divide_le_eq distrib_left)
qed

text \<open>
  C37: The conversion price after a round is exactly the one its protection promises.  Without protection, or when the round is not below the current price, it is the current
  price; under a full ratchet it is the new issue price; under a weighted average it is the current price times (base + new money / current price) / (base + new shares), the base
  being the fully diluted count for the broad-based average and the outstanding count for the narrow-based one.  It never falls below the new price when the money is at least
  the new shares at the new price, and never rises above the current price when the money is at most the new shares at the current price.  Rounding the shares down, as the
  round model does before it calls this, keeps the first condition; the second can then fail for a round that buys next to no shares, and the round model drops a price that is
  not lower.
\<close>

theorem anti_dilution_between:
  assumes "adjustedConversionPriceExact i = Inr r" "stands (ad_conversionPrice i) cp" "stands (ad_newIssuePrice i) np" "stands (ad_newMoney i) m" "stands (ad_newShares i) n"
    "0 < cp" "0 \<le> n"
  shows "\<exists>y. stands r y
    \<and> y = (if ad_protection i = No_protection \<or> cp \<le> np then cp else case ad_protection i of
         Full_ratchet \<Rightarrow> np
       | Broad_based \<Rightarrow> cp * (of_int (ad_fullyDilutedBefore i) + m / cp) / (of_int (ad_fullyDilutedBefore i) + n)
       | _ \<Rightarrow> cp * (of_int (ad_outstandingBefore i) + m / cp) / (of_int (ad_outstandingBefore i) + n))
    \<and> (ad_protection i \<noteq> No_protection \<and> np < cp \<and> np * n \<le> m \<longrightarrow> np \<le> y) \<and> (m \<le> cp * n \<longrightarrow> y \<le> cp)"
proof (cases "ad_protection i = No_protection \<or> cp \<le> np")
  case True
  then have "r = ad_conversionPrice i" using assms(1-3) by (auto simp: adjustedConversionPriceExact_def stands_compare split: if_splits)
  then show ?thesis using True assms(2) by auto
next
  case low: False
  show ?thesis
  proof (cases "ad_protection i = Full_ratchet")
    case True
    then have "r = ad_newIssuePrice i" using low assms(1-3) by (simp add: adjustedConversionPriceExact_def stands_compare)
    then show ?thesis using low assms(3) True by auto
  next
    case False
    define b where "b = (if ad_protection i = Broad_based then ad_fullyDilutedBefore i else ad_outstandingBefore i)"
    have w: "0 < b" "stands r (weighted_price cp m n b)" using weighted_price_value [OF assms(1-5) _ _ False b_def] low by auto
    note bounds = weighted_price_bounds [OF assms(6,7) w(1)]
    show ?thesis
    proof (intro exI [of _ "weighted_price cp m n b"] conjI w(2) impI)
      show "weighted_price cp m n b = (if ad_protection i = No_protection \<or> cp \<le> np then cp else case ad_protection i of
         Full_ratchet \<Rightarrow> np
       | Broad_based \<Rightarrow> cp * (of_int (ad_fullyDilutedBefore i) + m / cp) / (of_int (ad_fullyDilutedBefore i) + n)
       | _ \<Rightarrow> cp * (of_int (ad_outstandingBefore i) + m / cp) / (of_int (ad_outstandingBefore i) + n))"
        using low False by (cases "ad_protection i") (simp_all add: weighted_price_def b_def)
    qed (use low bounds in auto)
  qed
qed

section \<open>Worked examples\<close>

lemma whole_stands: "stands \<lparr>numerator = n, denominator = 1\<rparr> (of_int n)"
  by (simp add: stands_def canonical_rational_def rational_value_def)

definition two_for_one :: split_record where
  "two_for_one = \<lparr>sp_shareClassId = ''common'', sp_effectiveOn = ''2025-06-01'', sp_ratioNumerator = 2, sp_ratioDenominator = 1\<rparr>"

theorem split_keeps_value_witness:
  "\<exists>p' f. restatePrice [two_for_one] ''common'' \<lparr>numerator = 10, denominator = 1\<rparr> ''2025-01-01'' ''2025-12-31'' = Inr p' \<and> (200::int) = \<lfloor>of_int 100 * (f :: rat)\<rfloor>"
proof -
  have "returns (restatePrice [two_for_one] ''common'' \<lparr>numerator = 10, denominator = 1\<rparr> ''2025-01-01'' ''2025-12-31'')" by code_simp
  then obtain p' where p: "restatePrice [two_for_one] ''common'' \<lparr>numerator = 10, denominator = 1\<rparr> ''2025-01-01'' ''2025-12-31'' = Inr p'" by (rule returnsE)
  have s: "restateShares [two_for_one] ''common'' 100 ''2025-01-01'' ''2025-12-31'' = Inr 200" by code_simp
  from split_keeps_value [OF p s whole_stands] p show ?thesis by blast
qed

definition down_round :: anti_dilution_inputs where
  "down_round = \<lparr>ad_protection = Broad_based, ad_conversionPrice = \<lparr>numerator = 2, denominator = 1\<rparr>, ad_newIssuePrice = ONE,
     ad_newMoney = \<lparr>numerator = 100, denominator = 1\<rparr>, ad_newShares = \<lparr>numerator = 100, denominator = 1\<rparr>, ad_fullyDilutedBefore = 900, ad_outstandingBefore = 800\<rparr>"

theorem anti_dilution_between_witness: "\<exists>r y. adjustedConversionPriceExact down_round = Inr r \<and> stands r y \<and> y = 19 / 10 \<and> 1 \<le> y \<and> y \<le> 2"
proof -
  have "returns (adjustedConversionPriceExact down_round)" by code_simp
  then obtain r where r: "adjustedConversionPriceExact down_round = Inr r" by (rule returnsE)
  have s: "stands (ad_conversionPrice down_round) 2" "stands (ad_newIssuePrice down_round) 1" "stands (ad_newMoney down_round) 100" "stands (ad_newShares down_round) 100"
    using whole_stands [of 2] whole_stands [of 100] by (simp_all add: down_round_def)
  have "\<exists>y. stands r y \<and> y = 19 / 10 \<and> 1 \<le> y \<and> y \<le> 2"
    using anti_dilution_between [OF r s] by (simp add: down_round_def)
  then show ?thesis using r by blast
qed

end
