(* ===== verification/Waterfall.thy ===== *)
theory Waterfall
  imports Equity_Quantities "HOL-Library.AList" "HOL-Library.List_Lexorder" "HOL-Library.Char_ord"
begin

text \<open>
  The liquidation waterfall, \<open>engine/src/equity/waterfall.ts\<close>: notes first, preferences by seniority, the residual per common-equivalent share with its in-the-money and cap
  iterations, the conversion elections, and the rounding of the payouts.  A \<open>Map\<close> is an association list in insertion order and a \<open>Set\<close> of ids a list; the prefixes that
  tell class claims from SAFE claims are the constructors of \<open>claim_id\<close>.  The loop bounds are those of the source.
\<close>

section \<open>Terms of the exit\<close>

datatype share_class_kind = Common | Preferred
datatype participation = No_participation | Full_participation | Capped
datatype convertible_kind = Safe | Note
datatype payout_kind = Share_payout | Award_payout | Safe_payout | Note_payout

record waterfall_holding =
  wh_securityId :: string
  wh_holderPartyId :: string
  wh_shares :: int
  wh_preferencePrice :: "Rational option"

record waterfall_class =
  wc_shareClassId :: string
  wc_code :: string
  wc_kind :: share_class_kind
  wc_seniority :: int
  wc_liquidationMultiple :: Rational
  wc_participation :: participation
  wc_participationCapMultiple :: "Rational option"
  wc_originalIssuePrice :: "Rational option"
  wc_conversionRatio :: Rational
  wc_holdings :: "waterfall_holding list"

record waterfall_award =
  wa_securityId :: string
  wa_holderPartyId :: string
  wa_shareClassId :: string
  wa_shares :: int
  wa_strike :: Rational

record waterfall_convertible =
  wv_securityId :: string
  wv_holderPartyId :: string
  wv_kind :: convertible_kind
  wv_amount :: Rational
  wv_cap :: "Rational option"
  wv_postMoney :: bool

record waterfall_input =
  wi_exitValue :: Rational
  wi_classes :: "waterfall_class list"
  wi_awards :: "waterfall_award list"
  wi_convertibles :: "waterfall_convertible list"
  wi_minorUnitScale :: int

type_synonym amounts = "(string \<times> Rational) list"

record distribution =
  di_classPreference :: amounts
  di_classParticipation :: amounts
  di_awardGross :: amounts
  di_convertiblePaid :: amounts
  di_safeShares :: amounts
  di_price :: Rational
  di_unallocated :: Rational

definition MAX_CONVERTING_CLAIM :: Rational where "MAX_CONVERTING_CLAIM = \<lparr>numerator = 19, denominator = 20\<rparr>"

abbreviation (input) get :: "amounts \<Rightarrow> string \<Rightarrow> Rational" where "get m k \<equiv> or_else (map_of m k) ZERO"

text \<open>\<open>sumRational(xs.map(f))\<close> and a filter whose test may throw\<close>

definition sum_of :: "('a \<Rightarrow> Rational result) \<Rightarrow> 'a list \<Rightarrow> Rational result" where
  "sum_of f xs = bindE (traverse f xs) sumRational"

definition filterE :: "('a \<Rightarrow> bool result) \<Rightarrow> 'a list \<Rightarrow> 'a list result" where
  "filterE p xs = bindE (traverse p xs) (\<lambda>bs. Inr (map snd (filter fst (zip bs xs))))"

section \<open>Classes\<close>

definition sharesOf :: "waterfall_class \<Rightarrow> int" where
  "sharesOf c = sum_list (map wh_shares (wc_holdings c))"

definition holdingPrice :: "waterfall_class \<Rightarrow> waterfall_holding \<Rightarrow> Rational option" where
  "holdingPrice c h = (case wh_preferencePrice h of Some p \<Rightarrow> Some p | None \<Rightarrow> wc_originalIssuePrice c)"

definition holdingBasis :: "waterfall_class \<Rightarrow> waterfall_holding \<Rightarrow> Rational result" where
  "holdingBasis c h = (case holdingPrice c h of None \<Rightarrow> Inr ZERO
     | Some price \<Rightarrow> bindE (rational (wh_shares h) 1) (\<lambda>s. multiplyRational s price))"

definition classBasis :: "waterfall_class \<Rightarrow> Rational result" where
  "classBasis c = sum_of (holdingBasis c) (wc_holdings c)"

definition preferenceOf :: "waterfall_class \<Rightarrow> Rational result" where
  "preferenceOf c = (if wc_kind c \<noteq> Preferred \<or> wc_originalIssuePrice c = None then Inr ZERO
     else bindE (classBasis c) (\<lambda>basis. multiplyRational basis (wc_liquidationMultiple c)))"

definition capOf :: "waterfall_class \<Rightarrow> Rational option result" where
  "capOf c = (case (wc_participation c, wc_participationCapMultiple c, wc_originalIssuePrice c) of
     (Capped, Some m, Some _) \<Rightarrow> bindE (classBasis c) (\<lambda>basis. bindE (multiplyRational basis m) (\<lambda>r. Inr (Some r)))
   | _ \<Rightarrow> Inr None)"

definition asConverted :: "waterfall_class \<Rightarrow> Rational result" where
  "asConverted c = bindE (rational (sharesOf c) 1) (\<lambda>s. multiplyRational s (wc_conversionRatio c))"

definition ratioByClass :: "waterfall_input \<Rightarrow> string \<Rightarrow> Rational" where
  "ratioByClass i k = or_else (map_of (rev (map (\<lambda>c. (wc_shareClassId c, wc_conversionRatio c)) (wi_classes i))) k) ONE"

definition awardUnits :: "waterfall_input \<Rightarrow> waterfall_award \<Rightarrow> Rational result" where
  "awardUnits i a = bindE (rational (wa_shares a) 1) (\<lambda>s. multiplyRational s (ratioByClass i (wa_shareClassId a)))"

definition awardStrike :: "waterfall_award \<Rightarrow> Rational result" where
  "awardStrike a = bindE (rational (wa_shares a) 1) (\<lambda>s. multiplyRational s (wa_strike a))"

section \<open>SAFE conversion\<close>

definition safe_claims :: "Rational \<Rightarrow> Rational \<times> Rational \<Rightarrow> waterfall_convertible \<Rightarrow> (Rational \<times> Rational) result" where
  "safe_claims base st safe = (case st of (fixed, claim) \<Rightarrow>
     if wv_postMoney safe then bindE (divideRational (wv_amount safe) (or_else (wv_cap safe) ZERO)) (\<lambda>q. bindE (addRational claim q) (\<lambda>claim'. Inr (fixed, claim')))
     else bindE (divideRational base (or_else (wv_cap safe) ZERO)) (\<lambda>q. bindE (multiplyRational (wv_amount safe) q) (\<lambda>s. bindE (addRational fixed s) (\<lambda>fixed'. Inr (fixed', claim)))))"

definition safe_share :: "Rational \<Rightarrow> Rational \<Rightarrow> waterfall_convertible \<Rightarrow> Rational result" where
  "safe_share base capitalization safe =
     (if wv_postMoney safe then bindE (divideRational (wv_amount safe) (or_else (wv_cap safe) ZERO)) (\<lambda>q. multiplyRational q capitalization)
      else bindE (divideRational base (or_else (wv_cap safe) ZERO)) (multiplyRational (wv_amount safe)))"

definition liquidity_base :: "waterfall_input \<Rightarrow> Rational result" where
  "liquidity_base i = bindE (sum_of asConverted (wi_classes i)) (\<lambda>cs. bindE (sum_of (awardUnits i) (wi_awards i)) (addRational cs))"

definition safeConversionShares :: "waterfall_input \<Rightarrow> string list \<Rightarrow> amounts option result" where
  "safeConversionShares i converting =
     (let safes = filter (\<lambda>v. wv_kind v = Safe \<and> wv_cap v \<noteq> None \<and> wv_securityId v \<in> set converting) (wi_convertibles i) in
      if safes = [] then Inr (Some [])
      else bindE (liquidity_base i) (\<lambda>base.
        if numerator base \<le> 0 then Inr None
        else bindE (foldE (safe_claims base) (ZERO, ZERO) safes) (\<lambda>(fixed, claim).
          if compareRational claim MAX_CONVERTING_CLAIM \<ge> 0 then Inr None
          else bindE (addRational base fixed) (\<lambda>n. bindE (subtractRational ONE claim) (\<lambda>d. bindE (divideRational n d) (\<lambda>capitalization.
            bindE (foldE (\<lambda>out safe. bindE (safe_share base capitalization safe) (\<lambda>s. Inr (AList.update (wv_securityId safe) s out))) [] safes)
              (\<lambda>out. Inr (Some out))))))))"

section \<open>Tiers\<close>

definition pay_claim :: "Rational \<Rightarrow> Rational \<Rightarrow> ('k \<times> Rational) list \<Rightarrow> 'k \<times> Rational \<Rightarrow> ('k \<times> Rational) list result" where
  "pay_claim pay want into claim = (case claim of (k, amount) \<Rightarrow> bindE (divideRational pay want) (\<lambda>q. bindE (multiplyRational amount q) (\<lambda>part.
     bindE (addRational (or_else (map_of into k) ZERO) part) (\<lambda>tot. Inr (AList.update k tot into)))))"

definition payTier :: "('k \<times> Rational) list \<Rightarrow> Rational \<Rightarrow> ('k \<times> Rational) list \<Rightarrow> (Rational \<times> ('k \<times> Rational) list) result" where
  "payTier claims available into = bindE (sumRational (map snd claims)) (\<lambda>want.
     if numerator want = 0 then Inr (available, into)
     else let pay = minRational available want in
       bindE (foldE (pay_claim pay want) into claims) (\<lambda>into'. bindE (subtractRational available pay) (\<lambda>left. Inr (left, into'))))"

datatype claim_id = Class_claim string | Safe_claim string

definition keeps_preference :: "string list \<Rightarrow> waterfall_class \<Rightarrow> bool result" where
  "keeps_preference converting c = (if wc_kind c \<noteq> Preferred \<or> wc_shareClassId c \<in> set converting then Inr False
     else bindE (preferenceOf c) (\<lambda>p. Inr (numerator p > 0)))"

definition class_claims :: "waterfall_class list \<Rightarrow> int \<Rightarrow> (claim_id \<times> Rational) list result" where
  "class_claims keeping tier = traverse (\<lambda>c. bindE (preferenceOf c) (\<lambda>p. Inr (Class_claim (wc_shareClassId c), p))) (filter (\<lambda>c. wc_seniority c = tier) keeping)"

definition safe_cash_claims :: "waterfall_convertible list \<Rightarrow> (claim_id \<times> Rational) list" where
  "safe_cash_claims safes = map (\<lambda>v. (Safe_claim (wv_securityId v), wv_amount v)) safes"

text \<open>What a tier paid, entered in the map of the classes or of the convertibles.\<close>

definition settle_paid :: "claim_id \<times> Rational \<Rightarrow> amounts \<times> amounts \<Rightarrow> amounts \<times> amounts" where
  "settle_paid paid maps = (case (paid, maps) of ((Class_claim k, a), (prefs, conv)) \<Rightarrow> (AList.update k a prefs, conv)
     | ((Safe_claim k, a), (prefs, conv)) \<Rightarrow> (prefs, AList.update k a conv))"

definition tier_step :: "waterfall_class list \<Rightarrow> waterfall_convertible list \<Rightarrow> int \<Rightarrow> Rational \<times> amounts \<times> amounts \<Rightarrow> int \<Rightarrow> (Rational \<times> amounts \<times> amounts) result" where
  "tier_step keeping safes juniorTier st tier = (case st of (available, prefs, conv) \<Rightarrow>
     bindE (class_claims keeping tier) (\<lambda>claims.
     bindE (payTier (claims @ (if tier = juniorTier then safe_cash_claims safes else [])) available []) (\<lambda>(available', paid).
     Inr (available', fold settle_paid paid (prefs, conv)))))"

definition tiers_of :: "waterfall_class list \<Rightarrow> int list" where
  "tiers_of keeping = js_sort (\<lambda>a b. b - a) (rev (remdups (rev (map wc_seniority keeping))))"

definition pay_preferences :: "waterfall_class list \<Rightarrow> waterfall_convertible list \<Rightarrow> Rational \<Rightarrow> amounts \<Rightarrow> (Rational \<times> amounts \<times> amounts) result" where
  "pay_preferences keeping safes afterNotes notesPaid = (let tiers = tiers_of keeping in
     if tiers \<noteq> [] then foldE (tier_step keeping safes (last tiers)) (afterNotes, [], notesPaid) tiers
     else if safes = [] then Inr (afterNotes, [], notesPaid)
     else bindE (payTier (map (\<lambda>v. (wv_securityId v, wv_amount v)) safes) afterNotes []) (\<lambda>(available, paid).
       Inr (available, [], fold (\<lambda>(k, a). AList.update k a) paid notesPaid)))"

section \<open>The residual\<close>

definition participates :: "string list \<Rightarrow> waterfall_class \<Rightarrow> bool" where
  "participates converting c \<longleftrightarrow> wc_kind c = Common \<or> wc_shareClassId c \<in> set converting \<or> wc_participation c \<noteq> No_participation"

definition pot_of :: "Rational \<Rightarrow> amounts \<Rightarrow> waterfall_award list \<Rightarrow> Rational result" where
  "pot_of available capped inMoney = bindE (sumRational (map snd capped)) (\<lambda>held. bindE (subtractRational available held) (\<lambda>rest.
     bindE (sum_of awardStrike inMoney) (addRational rest)))"

definition count_of :: "waterfall_input \<Rightarrow> waterfall_class list \<Rightarrow> amounts \<Rightarrow> waterfall_award list \<Rightarrow> amounts \<Rightarrow> Rational result" where
  "count_of i participants capped inMoney safeShares =
     bindE (sum_of asConverted (filter (\<lambda>c. map_of capped (wc_shareClassId c) = None) participants)) (\<lambda>cs.
     bindE (sum_of (awardUnits i) inMoney) (\<lambda>us. bindE (addRational cs us) (\<lambda>n. bindE (sumRational (map snd safeShares)) (addRational n))))"

definition price_of :: "Rational \<Rightarrow> Rational \<Rightarrow> Rational result" where
  "price_of pot cnt = (if numerator cnt > 0 \<and> compareRational pot ZERO > 0 then divideRational pot cnt else Inr ZERO)"

definition in_the_money :: "waterfall_input \<Rightarrow> Rational \<Rightarrow> waterfall_award \<Rightarrow> bool result" where
  "in_the_money i price a = bindE (multiplyRational price (ratioByClass i (wa_shareClassId a))) (\<lambda>v. Inr (compareRational v (wa_strike a) > 0))"

fun in_money_loop :: "nat \<Rightarrow> waterfall_input \<Rightarrow> waterfall_class list \<Rightarrow> amounts \<Rightarrow> Rational \<Rightarrow> amounts \<Rightarrow> waterfall_award list \<Rightarrow> Rational
    \<Rightarrow> (Rational \<times> waterfall_award list) result" where
  "in_money_loop 0 i participants safeShares available capped inMoney price = Inr (price, inMoney)"
| "in_money_loop (Suc k) i participants safeShares available capped inMoney price =
     bindE (pot_of available capped inMoney) (\<lambda>pot. bindE (count_of i participants capped inMoney safeShares) (\<lambda>cnt.
     bindE (price_of pot cnt) (\<lambda>price'. bindE (filterE (in_the_money i price') inMoney) (\<lambda>nxt.
     if length nxt = length inMoney then Inr (price', inMoney)
     else in_money_loop k i participants safeShares available capped nxt price'))))"

definition cap_step :: "string list \<Rightarrow> amounts \<Rightarrow> Rational \<Rightarrow> amounts \<times> bool \<Rightarrow> waterfall_class \<Rightarrow> (amounts \<times> bool) result" where
  "cap_step converting prefs price st c = (case st of (capped, grew) \<Rightarrow>
     if map_of capped (wc_shareClassId c) \<noteq> None \<or> wc_shareClassId c \<in> set converting then Inr (capped, grew)
     else bindE (capOf c) (\<lambda>cap. case cap of None \<Rightarrow> Inr (capped, grew)
       | Some cap \<Rightarrow> let preference = get prefs (wc_shareClassId c) in
           bindE (asConverted c) (\<lambda>units. bindE (multiplyRational price units) (\<lambda>part. bindE (addRational preference part) (\<lambda>tot.
           if compareRational tot cap > 0
           then bindE (subtractRational cap preference) (\<lambda>room.
             Inr (AList.update (wc_shareClassId c) (if compareRational room ZERO > 0 then room else ZERO) capped, True))
           else Inr (capped, grew))))))"

fun cap_loop :: "nat \<Rightarrow> waterfall_input \<Rightarrow> string list \<Rightarrow> waterfall_class list \<Rightarrow> amounts \<Rightarrow> amounts \<Rightarrow> Rational \<Rightarrow> amounts \<Rightarrow> Rational \<Rightarrow> waterfall_award list
    \<Rightarrow> (amounts \<times> Rational \<times> waterfall_award list) result" where
  "cap_loop 0 i converting participants safeShares prefs available capped price inMoney = Inr (capped, price, inMoney)"
| "cap_loop (Suc k) i converting participants safeShares prefs available capped price inMoney =
     bindE (in_money_loop (length (wi_awards i) + 2) i participants safeShares available capped (filter (\<lambda>a. wa_shares a > 0) (wi_awards i)) price) (\<lambda>(price', inMoney').
     bindE (foldE (cap_step converting prefs price') (capped, False) participants) (\<lambda>(capped', grew).
     if \<not> grew then Inr (capped', price', inMoney') else cap_loop k i converting participants safeShares prefs available capped' price' inMoney'))"

definition class_shares :: "amounts \<Rightarrow> Rational \<Rightarrow> waterfall_class list \<Rightarrow> amounts result" where
  "class_shares capped price participants = foldE (\<lambda>out c. bindE (case map_of capped (wc_shareClassId c) of Some r \<Rightarrow> Inr r
       | None \<Rightarrow> bindE (asConverted c) (multiplyRational price)) (\<lambda>r. Inr (AList.update (wc_shareClassId c) r out))) [] participants"

definition award_gross :: "waterfall_input \<Rightarrow> Rational \<Rightarrow> waterfall_award list \<Rightarrow> amounts result" where
  "award_gross i price inMoney = foldE (\<lambda>out a. bindE (awardUnits i a) (\<lambda>u. bindE (multiplyRational price u) (\<lambda>r. Inr (AList.update (wa_securityId a) r out)))) [] inMoney"

definition pay_safe_shares :: "Rational \<Rightarrow> amounts \<Rightarrow> amounts \<Rightarrow> amounts result" where
  "pay_safe_shares price safeShares conv = foldE (\<lambda>out (k, s). bindE (multiplyRational price s) (\<lambda>r. Inr (AList.update k r out))) conv safeShares"

definition unallocated_of :: "Rational \<Rightarrow> waterfall_award list \<Rightarrow> amounts \<Rightarrow> amounts \<Rightarrow> amounts \<Rightarrow> amounts \<Rightarrow> Rational result" where
  "unallocated_of available inMoney classPart gross conv safeShares = bindE (sum_of awardStrike inMoney) (\<lambda>strikes.
     bindE (sumRational (map snd classPart)) (\<lambda>a. bindE (sumRational (map snd gross)) (\<lambda>b. bindE (addRational a b) (\<lambda>ab.
     bindE (sumRational (map (\<lambda>(k, _). get conv k) safeShares)) (\<lambda>c. bindE (addRational ab c) (\<lambda>distributed.
     bindE (addRational available strikes) (\<lambda>pool. bindE (subtractRational pool distributed) (\<lambda>left.
     Inr (if compareRational left ZERO > 0 then left else ZERO)))))))))"

definition distribute :: "waterfall_input \<Rightarrow> Rational \<Rightarrow> string list \<Rightarrow> amounts \<Rightarrow> distribution option result" where
  "distribute i afterNotes converting notesPaid = bindE (safeConversionShares i converting) (\<lambda>ss. case ss of None \<Rightarrow> Inr None
     | Some safeShares \<Rightarrow>
       bindE (filterE (keeps_preference converting) (wi_classes i)) (\<lambda>keeping.
       let safes = filter (\<lambda>v. wv_kind v = Safe \<and> map_of safeShares (wv_securityId v) = None) (wi_convertibles i);
           participants = filter (participates converting) (wi_classes i) in
       bindE (pay_preferences keeping safes afterNotes notesPaid) (\<lambda>(available, prefs, conv).
       bindE (cap_loop (length participants + 2) i converting participants safeShares prefs available [] ZERO []) (\<lambda>(capped, price, inMoney).
       bindE (class_shares capped price participants) (\<lambda>classPart.
       bindE (award_gross i price inMoney) (\<lambda>gross.
       bindE (pay_safe_shares price safeShares conv) (\<lambda>conv'.
       bindE (unallocated_of available inMoney classPart gross conv' safeShares) (\<lambda>unallocated.
       Inr (Some \<lparr>di_classPreference = prefs, di_classParticipation = classPart, di_awardGross = gross, di_convertiblePaid = conv',
         di_safeShares = safeShares, di_price = price, di_unallocated = unallocated\<rparr>)))))))))"

section \<open>Elections\<close>

definition classTotal :: "distribution \<Rightarrow> string \<Rightarrow> Rational result" where
  "classTotal d k = addRational (get (di_classPreference d) k) (get (di_classParticipation d) k)"

definition electorTotal :: "distribution \<Rightarrow> string \<times> bool \<Rightarrow> Rational result" where
  "electorTotal d e = (case e of (k, safe) \<Rightarrow> if safe then Inr (get (di_convertiblePaid d) k) else classTotal d k)"

definition class_order :: "waterfall_class \<Rightarrow> waterfall_class \<Rightarrow> int" where
  "class_order a b = (if wc_seniority a - wc_seniority b \<noteq> 0 then wc_seniority a - wc_seniority b
     else if wc_code a < wc_code b then - 1 else if wc_code a > wc_code b then 1 else 0)"

definition candidates_of :: "waterfall_input \<Rightarrow> (string \<times> bool) list" where
  "candidates_of i = map (\<lambda>c. (wc_shareClassId c, False))
       (js_sort class_order (filter (\<lambda>c. wc_kind c = Preferred \<and> wc_participation c \<noteq> Full_participation) (wi_classes i)))
     @ map (\<lambda>v. (wv_securityId v, True)) (filter (\<lambda>v. wv_kind v = Safe \<and> wv_cap v \<noteq> None) (wi_convertibles i))"

definition toggle :: "string \<Rightarrow> string list \<Rightarrow> string list" where
  "toggle k ks = (if k \<in> set ks then filter (\<lambda>x. x \<noteq> k) ks else ks @ [k])"

text \<open>The first elector whose other choice pays it more.\<close>

fun first_change :: "(string list \<Rightarrow> distribution option result) \<Rightarrow> string list \<Rightarrow> distribution \<Rightarrow> (string \<times> bool) list \<Rightarrow> (string list \<times> distribution) option result" where
  "first_change pays converting d [] = Inr None"
| "first_change pays converting d (e # es) = bindE (pays (toggle (fst e) converting)) (\<lambda>alt. case alt of
     None \<Rightarrow> first_change pays converting d es
   | Some d' \<Rightarrow> bindE (electorTotal d' e) (\<lambda>other. bindE (electorTotal d e) (\<lambda>own.
       if compareRational other own > 0 then Inr (Some (toggle (fst e) converting, d')) else first_change pays converting d es)))"

fun settle_loop :: "nat \<Rightarrow> (string list \<Rightarrow> distribution option result) \<Rightarrow> (string \<times> bool) list \<Rightarrow> string list \<Rightarrow> distribution \<Rightarrow> (string list \<times> distribution) result" where
  "settle_loop 0 pays es converting d = Inl (EquityError ''waterfallUnsettled'')"
| "settle_loop (Suc k) pays es converting d = bindE (first_change pays converting d es) (\<lambda>change. case change of
     None \<Rightarrow> Inr (converting, d) | Some (converting', d') \<Rightarrow> settle_loop k pays es converting' d')"

definition alternatives_of :: "(string list \<Rightarrow> distribution option result) \<Rightarrow> string list \<Rightarrow> (string \<times> bool) list \<Rightarrow> amounts result" where
  "alternatives_of pays converting es = foldE (\<lambda>out e. bindE (pays (toggle (fst e) converting)) (\<lambda>alt. case alt of
     None \<Rightarrow> Inr out | Some d \<Rightarrow> bindE (electorTotal d e) (\<lambda>t. Inr (AList.update (fst e) t out)))) [] es"

section \<open>Payouts\<close>

record waterfall_payout =
  wp_securityId :: string
  wp_holderPartyId :: string
  wp_kind :: payout_kind
  wp_shareClassId :: "string option"
  wp_amount :: string

type_synonym payout_line = "waterfall_payout option \<times> Rational"

definition holding_line :: "distribution \<Rightarrow> waterfall_class \<Rightarrow> Rational \<Rightarrow> waterfall_holding \<Rightarrow> payout_line result" where
  "holding_line d c basis h = (let preference = get (di_classPreference d) (wc_shareClassId c);
       part = get (di_classParticipation d) (wc_shareClassId c); shares = sharesOf c in
     bindE (if numerator basis > 0 then bindE (holdingBasis c h) (\<lambda>hb. bindE (divideRational hb basis) (multiplyRational preference)) else Inr ZERO) (\<lambda>fromPreference.
     bindE (if shares > 0 then bindE (rational (wh_shares h) shares) (multiplyRational part) else Inr ZERO) (\<lambda>fromParticipation.
     bindE (addRational fromPreference fromParticipation) (\<lambda>x.
     Inr (Some \<lparr>wp_securityId = wh_securityId h, wp_holderPartyId = wh_holderPartyId h, wp_kind = Share_payout,
       wp_shareClassId = Some (wc_shareClassId c), wp_amount = []\<rparr>, x)))))"

definition class_lines :: "distribution \<Rightarrow> waterfall_class \<Rightarrow> payout_line list result" where
  "class_lines d c = bindE (classBasis c) (\<lambda>basis. traverse (holding_line d c basis) (wc_holdings c))"

definition award_line :: "distribution \<Rightarrow> waterfall_award \<Rightarrow> payout_line result" where
  "award_line d a = bindE (case map_of (di_awardGross d) (wa_securityId a) of None \<Rightarrow> Inr ZERO
       | Some gross \<Rightarrow> bindE (awardStrike a) (subtractRational gross)) (\<lambda>x.
     Inr (Some \<lparr>wp_securityId = wa_securityId a, wp_holderPartyId = wa_holderPartyId a, wp_kind = Award_payout,
       wp_shareClassId = Some (wa_shareClassId a), wp_amount = []\<rparr>, x))"

definition convertible_line :: "distribution \<Rightarrow> waterfall_convertible \<Rightarrow> payout_line" where
  "convertible_line d v = (Some \<lparr>wp_securityId = wv_securityId v, wp_holderPartyId = wv_holderPartyId v,
     wp_kind = (case wv_kind v of Safe \<Rightarrow> Safe_payout | Note \<Rightarrow> Note_payout), wp_shareClassId = None, wp_amount = []\<rparr>, get (di_convertiblePaid d) (wv_securityId v))"

definition payout_lines :: "waterfall_input \<Rightarrow> distribution \<Rightarrow> payout_line list result" where
  "payout_lines i d = bindE (traverse (class_lines d) (wi_classes i)) (\<lambda>cls. bindE (traverse (award_line d) (wi_awards i)) (\<lambda>aws.
     Inr (concat cls @ aws @ map (convertible_line d) (wi_convertibles i) @ [(None, di_unallocated d)])))"

text \<open>Largest-remainder rounding: floors, then one unit each in the order of the remainders.\<close>

definition rounding_order :: "Rational list \<Rightarrow> nat list" where
  "rounding_order remainders = js_sort (\<lambda>a b. if compareRational (remainders ! b) (remainders ! a) \<noteq> 0
     then compareRational (remainders ! b) (remainders ! a) else int a - int b) [0..<length remainders]"

fun deal_units :: "int list \<Rightarrow> int \<Rightarrow> nat list \<Rightarrow> int list" where
  "deal_units out remaining [] = out"
| "deal_units out remaining (k # ks) = (if remaining \<le> 0 then out else deal_units (out[k := out ! k + 1]) (remaining - 1) ks)"

definition roundToTotal :: "Rational list \<Rightarrow> Rational \<Rightarrow> int list result" where
  "roundToTotal amounts quantum = bindE (sumRational amounts) (\<lambda>tot. bindE (traverse (\<lambda>a. divideRational a quantum) amounts) (\<lambda>units.
     let floors = map (\<lambda>u. numerator u sdiv denominator u) units in
     bindE (divideRational tot quantum) (\<lambda>target. let remaining = numerator target sdiv denominator target - sum_list floors in
     bindE (traverse (\<lambda>(u, f). bindE (rational f 1) (subtractRational u)) (zip units floors)) (\<lambda>remainders.
     Inr (deal_units floors remaining (rounding_order remainders))))))"

definition toMoney :: "nat \<Rightarrow> int \<Rightarrow> string" where
  "toMoney scale units = formatUnits (units * 10 ^ (4 - scale)) 4"

definition add_units :: "string \<Rightarrow> int \<Rightarrow> (string \<times> int) list \<Rightarrow> (string \<times> int) list" where
  "add_units k u m = AList.update k (or_else (map_of m k) 0 + u) m"

record waterfall_class_row =
  cr_shareClassId :: string
  cr_code :: string
  cr_kind :: share_class_kind
  cr_seniority :: int
  cr_participationMode :: participation
  cr_converted :: bool
  cr_preference :: string
  cr_participation :: string
  cr_total :: string
  cr_perShare :: string
  cr_preferenceEntitlement :: string
  cr_participationCap :: "string option"
  cr_alternativeTotal :: "string option"

record waterfall_safe_row =
  sr_securityId :: string
  sr_holderPartyId :: string
  sr_converted :: bool
  sr_shares :: string
  sr_amount :: string
  sr_cashOutAmount :: string
  sr_alternativeAmount :: "string option"

record waterfall_holder_row =
  hr_holderPartyId :: string
  hr_amount :: string
  hr_percent :: string

record waterfall_result =
  wr_exitValue :: string
  wr_pricePerCommonShare :: string
  wr_classes :: "waterfall_class_row list"
  wr_payouts :: "waterfall_payout list"
  wr_holders :: "waterfall_holder_row list"
  wr_safes :: "waterfall_safe_row list"
  wr_unallocated :: string

definition class_row :: "nat \<Rightarrow> string list \<Rightarrow> distribution \<Rightarrow> amounts \<Rightarrow> (string \<times> int) list \<Rightarrow> waterfall_class \<Rightarrow> waterfall_class_row result" where
  "class_row scale converting d alternatives classTotals c = (let k = wc_shareClassId c; money = (\<lambda>r. toMoney scale (quantize r scale Half_up)) in
     bindE (capOf c) (\<lambda>cap.
     bindE (if sharesOf c > 0 then bindE (classTotal d k) (\<lambda>t. bindE (rational (sharesOf c) 1) (\<lambda>s. bindE (divideRational t s) (\<lambda>r. Inr (formatPrice r Half_up))))
       else Inr ''0.0000000000'') (\<lambda>perShare.
     bindE (preferenceOf c) (\<lambda>entitlement.
     Inr \<lparr>cr_shareClassId = k, cr_code = wc_code c, cr_kind = wc_kind c, cr_seniority = wc_seniority c, cr_participationMode = wc_participation c,
       cr_converted = (k \<in> set converting), cr_preference = money (get (di_classPreference d) k), cr_participation = money (get (di_classParticipation d) k),
       cr_total = toMoney scale (or_else (map_of classTotals k) 0), cr_perShare = perShare, cr_preferenceEntitlement = money entitlement,
       cr_participationCap = map_option money cap, cr_alternativeTotal = map_option money (map_of alternatives k)\<rparr>))))"

definition safe_row :: "nat \<Rightarrow> distribution \<Rightarrow> amounts \<Rightarrow> (string \<times> int) list \<Rightarrow> waterfall_convertible \<Rightarrow> waterfall_safe_row" where
  "safe_row scale d alternatives securityUnits v = (let k = wv_securityId v; shares = map_of (di_safeShares d) k in
     \<lparr>sr_securityId = k, sr_holderPartyId = wv_holderPartyId v, sr_converted = (shares \<noteq> None),
      sr_shares = (case shares of Some s \<Rightarrow> formatPrice s Half_up | None \<Rightarrow> ''0.0000000000''), sr_amount = toMoney scale (or_else (map_of securityUnits k) 0),
      sr_cashOutAmount = toMoney scale (quantize (wv_amount v) scale Half_up),
      sr_alternativeAmount = map_option (\<lambda>r. toMoney scale (quantize r scale Half_up)) (map_of alternatives k)\<rparr>)"

definition holder_order :: "string \<times> int \<Rightarrow> string \<times> int \<Rightarrow> int" where
  "holder_order a b = (if snd a = snd b then (if fst a < fst b then - 1 else 1) else if snd a > snd b then - 1 else 1)"

definition holder_row :: "nat \<Rightarrow> int \<Rightarrow> string \<times> int \<Rightarrow> waterfall_holder_row result" where
  "holder_row scale exitUnits h = bindE (if exitUnits > 0 then bindE (rational (snd h) exitUnits) (\<lambda>f. formatPercent f PERCENT_SCALE) else Inr ''0.0000'') (\<lambda>percent.
     Inr \<lparr>hr_holderPartyId = fst h, hr_amount = toMoney scale (snd h), hr_percent = percent\<rparr>)"

text \<open>The payouts with their rounded units, in the order of the lines; the line without a payout is what nobody takes.\<close>

definition paid_units :: "payout_line list \<Rightarrow> int list \<Rightarrow> (waterfall_payout \<times> int) list" where
  "paid_units lines rounded = concat (map2 (\<lambda>l u. case fst l of None \<Rightarrow> [] | Some p \<Rightarrow> [(p, u)]) lines rounded)"

definition unallocated_units :: "payout_line list \<Rightarrow> int list \<Rightarrow> int" where
  "unallocated_units lines rounded = fold (\<lambda>(l, u) acc. if fst l = None then u else acc) (zip lines rounded) 0"

definition waterfall_report :: "waterfall_input \<Rightarrow> nat \<Rightarrow> string list \<Rightarrow> distribution \<Rightarrow> amounts \<Rightarrow> payout_line list \<Rightarrow> int list \<Rightarrow> waterfall_result result" where
  "waterfall_report i scale converting d alternatives lines rounded =
     (let paid = paid_units lines rounded;
          securityUnits = fold (\<lambda>(p, u). add_units (wp_securityId p) u) paid [];
          holderTotals = fold (\<lambda>(p, u). add_units (wp_holderPartyId p) u) paid [];
          classTotals = fold (\<lambda>(p, u) m. if wp_kind p = Share_payout \<and> or_else (wp_shareClassId p) [] \<noteq> [] then add_units (or_else (wp_shareClassId p) []) u m else m) paid [];
          exitUnits = quantize (wi_exitValue i) scale Half_up in
      bindE (traverse (class_row scale converting d alternatives classTotals) (wi_classes i)) (\<lambda>classes.
      bindE (traverse (holder_row scale exitUnits) (js_sort holder_order holderTotals)) (\<lambda>holders.
      Inr \<lparr>wr_exitValue = toMoney scale exitUnits, wr_pricePerCommonShare = formatPrice (di_price d) Half_up, wr_classes = classes,
        wr_payouts = map (\<lambda>(p, u). p\<lparr>wp_amount := toMoney scale u\<rparr>) paid, wr_holders = holders,
        wr_safes = map (safe_row scale d alternatives securityUnits) (filter (\<lambda>v. wv_kind v = Safe) (wi_convertibles i)),
        wr_unallocated = toMoney scale (unallocated_units lines rounded)\<rparr>)))"

definition settled_choice :: "waterfall_input \<Rightarrow> (string list \<times> distribution \<times> amounts) result" where
  "settled_choice i = bindE (payTier (map (\<lambda>v. (wv_securityId v, wv_amount v)) (filter (\<lambda>v. wv_kind v = Note) (wi_convertibles i))) (wi_exitValue i) []) (\<lambda>(afterNotes, notesPaid).
     let es = candidates_of i; pays = (\<lambda>converting. distribute i afterNotes converting notesPaid) in
     bindE (pays []) (\<lambda>d0. case d0 of None \<Rightarrow> Inl (TypeError ''null distribution'')
       | Some d0 \<Rightarrow> bindE (settle_loop (4 * length es + 5) pays es [] d0) (\<lambda>(converting, d).
         bindE (alternatives_of pays converting es) (\<lambda>alternatives. Inr (converting, d, alternatives)))))"

definition runWaterfall :: "waterfall_input \<Rightarrow> waterfall_result result" where
  "runWaterfall i =
     (if compareRational (wi_exitValue i) ZERO < 0 then Inl (EquityError ''exitValueNegative'')
      else if wi_minorUnitScale i < 0 \<or> wi_minorUnitScale i > 4 then Inl (EquityError ''currencyPrecisionUnsupported'')
      else let scale = nat (wi_minorUnitScale i) in
        bindE (settled_choice i) (\<lambda>(converting, d, alternatives). bindE (payout_lines i d) (\<lambda>lines.
        bindE (rational 1 (10 ^ scale)) (\<lambda>quantum. bindE (roundToTotal (map snd lines) quantum) (\<lambda>rounded.
        waterfall_report i scale converting d alternatives lines rounded)))))"

section \<open>Amounts and their sums\<close>

abbreviation (input) ok :: "Rational \<Rightarrow> bool" where "ok \<equiv> canonical_rational"
abbreviation (input) val :: "Rational \<Rightarrow> rat" where "val \<equiv> rational_value"

lemma op_values:
  assumes "ok a" "ok b"
  shows "addRational a b = Inr r \<Longrightarrow> ok r \<and> val r = val a + val b" "subtractRational a b = Inr r \<Longrightarrow> ok r \<and> val r = val a - val b"
    "multiplyRational a b = Inr r \<Longrightarrow> ok r \<and> val r = val a * val b" "divideRational a b = Inr r \<Longrightarrow> ok r \<and> val r = val a / val b \<and> val b \<noteq> 0"
  using rational_ops_exact [OF assms] by blast+

lemma rational_val: "rational n d = Inr r \<Longrightarrow> ok r \<and> val r = of_int n / of_int d"
  using stands_rational by (simp add: stands_def)

lemma const_vals [simp]: "ok ZERO" "val ZERO = 0" "ok ONE" "val ONE = 1"
  using stands_constants by (simp_all add: stands_def)

lemma numerator_signs: "ok a \<Longrightarrow> numerator a = 0 \<longleftrightarrow> val a = 0" "ok a \<Longrightarrow> numerator a \<le> 0 \<longleftrightarrow> val a \<le> 0" "ok a \<Longrightarrow> 0 < numerator a \<longleftrightarrow> 0 < val a"
  using stands_numerator [of a "val a"] by (auto simp: stands_def not_le [symmetric])

lemma compare_vals: "ok a \<Longrightarrow> ok b \<Longrightarrow> compareRational a b = (if val a < val b then - 1 else if val a > val b then 1 else 0)"
  using stands_compare [of a "val a" b "val b"] by (simp add: stands_def)

lemma min_val: "ok a \<Longrightarrow> ok b \<Longrightarrow> ok (minRational a b) \<and> val (minRational a b) = min (val a) (val b)"
  using stands_min [of a "val a" b "val b"] by (simp add: stands_def)

lemma sumRational_val: "sumRational rs = Inr r \<Longrightarrow> \<forall>x \<in> set rs. ok x \<Longrightarrow> ok r \<and> val r = (\<Sum>x\<leftarrow>rs. val x)"
proof -
  assume r: "sumRational rs = Inr r" and o: "\<forall>x \<in> set rs. ok x"
  have "list_all2 stands rs (map val rs)" using o by (auto simp: list_all2_conv_all_nth stands_def)
  from stands_sum [OF r this] show ?thesis by (simp add: stands_def)
qed

lemma traverse_vals:
  assumes "traverse f xs = Inr ys" "\<And>x y. x \<in> set xs \<Longrightarrow> f x = Inr y \<Longrightarrow> ok y \<and> val y = g x"
  shows "(\<forall>y \<in> set ys. ok y) \<and> map val ys = map g xs"
  using assms
proof (induction xs arbitrary: ys)
  case (Cons x xs)
  obtain y zs where y: "f x = Inr y" "traverse f xs = Inr zs" "ys = y # zs" using Cons.prems(1) by (auto simp: bindE_Inr_iff)
  have "(\<forall>y \<in> set zs. ok y) \<and> map val zs = map g xs" by (rule Cons.IH [OF y(2)]) (rule Cons.prems(2), simp_all)
  then show ?case using y Cons.prems(2) [of x y] by simp
qed simp

lemma sum_of_val:
  assumes "sum_of f xs = Inr r" "\<And>x y. x \<in> set xs \<Longrightarrow> f x = Inr y \<Longrightarrow> ok y \<and> val y = g x"
  shows "ok r \<and> val r = (\<Sum>x\<leftarrow>xs. g x)"
proof -
  obtain ys where ys: "traverse f xs = Inr ys" "sumRational ys = Inr r" using assms(1) by (auto simp: sum_of_def bindE_Inr_iff)
  note v = traverse_vals [OF ys(1) assms(2)]
  show ?thesis using sumRational_val [OF ys(2)] v by simp
qed

lemma filterE_filter:
  assumes "filterE p xs = Inr ys" "\<And>x b. x \<in> set xs \<Longrightarrow> p x = Inr b \<Longrightarrow> b = q x"
  shows "ys = filter q xs"
proof -
  obtain bs where bs: "traverse p xs = Inr bs" "ys = map snd (filter fst (zip bs xs))" using assms(1) by (auto simp: filterE_def bindE_Inr_iff)
  have "traverse p xs = Inr bs \<Longrightarrow> (\<And>x b. x \<in> set xs \<Longrightarrow> p x = Inr b \<Longrightarrow> b = q x) \<Longrightarrow> bs = map q xs" for bs
    by (induction xs arbitrary: bs) (auto simp: bindE_Inr_iff)
  then have "bs = map q xs" using bs(1) assms(2) by blast
  then have "ys = map snd (filter fst (map (\<lambda>x. (q x, x)) xs))" using bs(2) by (simp add: zip_map1 zip_same_conv_map o_def)
  also have "\<dots> = filter q xs" by (induction xs) simp_all
  finally show ?thesis .
qed

text \<open>A map of non-negative fractions with distinct keys, and its total.\<close>

definition purse :: "('k \<times> Rational) list \<Rightarrow> bool" where
  "purse m \<longleftrightarrow> distinct (map fst m) \<and> (\<forall>(k, r) \<in> set m. ok r \<and> 0 \<le> val r)"

definition tot :: "('k \<times> Rational) list \<Rightarrow> rat" where
  "tot m = (\<Sum>x\<leftarrow>m. val (snd x))"

lemma tot_simps [simp]: "tot [] = 0" "tot ((k, r) # m) = val r + tot m" "tot (m @ m') = tot m + tot m'"
  by (simp_all add: tot_def)

lemma purse_Nil [simp]: "purse []"
  by (simp add: purse_def)

lemma purse_tot_nonneg: "purse m \<Longrightarrow> 0 \<le> tot m"
  by (fastforce simp: purse_def tot_def intro!: sum_list_nonneg)

lemma purse_snoc: "purse m \<Longrightarrow> k \<notin> fst ` set m \<Longrightarrow> ok r \<Longrightarrow> 0 \<le> val r \<Longrightarrow> purse (m @ [(k, r)])"
  by (auto simp: purse_def)

lemma update_fresh: "k \<notin> fst ` set m \<Longrightarrow> AList.update k r m = m @ [(k, r)]"
  by (induction m) auto

lemma purse_get: "purse m \<Longrightarrow> ok (get m k) \<and> 0 \<le> val (get m k)"
  by (cases "map_of m k") (auto simp: purse_def dest!: map_of_SomeD)

lemma sum_list_pick: "distinct ks \<Longrightarrow> (\<Sum>x\<leftarrow>ks. if x = k then v else 0) = (if k \<in> set ks then v else (0 :: rat))"
  by (induction ks) auto

lemma tot_lookup: "purse m \<Longrightarrow> fst ` set m \<subseteq> set ks \<Longrightarrow> distinct ks \<Longrightarrow> (\<Sum>k\<leftarrow>ks. val (get m k)) = tot m"
proof (induction m)
  case (Cons a m)
  obtain k r where a: "a = (k, r)" by (cases a)
  have m: "purse m" "k \<notin> fst ` set m" using Cons.prems(1) by (auto simp: purse_def a)
  have none: "map_of m k = None" using m(2) by (simp add: map_of_eq_None_iff)
  have "(\<Sum>x\<leftarrow>ks. val (get (a # m) x)) = (\<Sum>x\<leftarrow>ks. val (get m x) + (if x = k then val r else 0))"
    by (rule arg_cong [of _ _ sum_list], rule map_cong) (auto simp: a none)
  also have "\<dots> = (\<Sum>x\<leftarrow>ks. val (get m x)) + (\<Sum>x\<leftarrow>ks. if x = k then val r else 0)" by (rule sum_list_addf)
  also have "(\<Sum>x\<leftarrow>ks. if x = k then val r else 0) = val r"
    using Cons.prems(2,3) sum_list_pick [of ks k "val r"] by (simp add: a)
  also have "(\<Sum>x\<leftarrow>ks. val (get m x)) = tot m" by (rule Cons.IH) (use m Cons.prems in auto)
  finally show ?case by (simp add: a)
qed simp

section \<open>Tiers share what there is\<close>

lemma pay_claims:
  assumes "foldE (pay_claim pay want) into claims = Inr out" "ok pay" "ok want" "0 \<le> val pay" "0 < val want"
    "distinct (map fst claims)" "fst ` set claims \<inter> fst ` set into = {}" "\<forall>(k, r) \<in> set claims. ok r \<and> 0 \<le> val r" "purse into"
  shows "purse out \<and> tot out = tot into + tot claims * (val pay / val want) \<and> fst ` set out = fst ` set into \<union> fst ` set claims"
  using assms
proof (induction claims arbitrary: into)
  case (Cons c claims)
  obtain k a where c: "c = (k, a)" by (cases c)
  have fresh: "k \<notin> fst ` set into" using Cons.prems(7) by (auto simp: c)
  then have none: "map_of into k = None" by (simp add: map_of_eq_None_iff)
  obtain q part t where s: "divideRational pay want = Inr q" "multiplyRational a q = Inr part" "addRational ZERO part = Inr t"
      "foldE (pay_claim pay want) (AList.update k t into) claims = Inr out"
    using Cons.prems(1) by (auto simp: c pay_claim_def [of _ _ into] none bindE_Inr_iff)
  have a: "ok a" "0 \<le> val a" using Cons.prems(8) by (simp_all add: c)
  have q: "ok q" "val q = val pay / val want" using op_values(4) [OF Cons.prems(2,3) s(1)] by simp_all
  have p: "ok part" "val part = val a * val q" using op_values(3) [OF a(1) q(1) s(2)] by simp_all
  have t: "ok t" "val t = val a * (val pay / val want)" using op_values(1) [OF const_vals(1) p(1) s(3)] p(2) q(2) by simp_all
  have u: "AList.update k t into = into @ [(k, t)]" using fresh by (rule update_fresh)
  have "0 \<le> val t" using t(2) a(2) Cons.prems(4,5) by simp
  then have "purse (into @ [(k, t)])" using purse_snoc [OF Cons.prems(9) fresh t(1)] by simp
  from Cons.IH [OF s(4) [unfolded u] Cons.prems(2-5) _ _ _ this] Cons.prems(6-8) show ?case by (auto simp: c t(2) distrib_right add_divide_distrib)
qed simp

lemma payTier_shares:
  assumes "payTier claims available [] = Inr (left, paid)" "ok available" "0 \<le> val available" "distinct (map fst claims)" "\<forall>(k, r) \<in> set claims. ok r \<and> 0 \<le> val r"
  shows "ok left \<and> 0 \<le> val left \<and> purse paid \<and> val left + tot paid = val available \<and> fst ` set paid \<subseteq> fst ` set claims"
proof -
  obtain want where w: "sumRational (map snd claims) = Inr want" using assms(1) by (auto simp: payTier_def bindE_Inr_iff)
  have wv: "ok want" "val want = tot claims" using sumRational_val [OF w] assms(5) by (simp_all add: tot_def o_def case_prod_beta)
  have nn: "0 \<le> tot claims" using assms(5) by (fastforce simp: tot_def intro!: sum_list_nonneg)
  show ?thesis
  proof (cases "val want = 0")
    case True
    then have "left = available" "paid = []" using assms(1) w by (auto simp: payTier_def numerator_signs(1) [OF wv(1)])
    then show ?thesis using assms(2,3) by simp
  next
    case False
    then have pos: "0 < val want" using wv(2) nn by simp
    define pay where "pay = minRational available want"
    have p: "ok pay" "val pay = min (val available) (val want)" using min_val [OF assms(2) wv(1)] by (simp_all add: pay_def)
    have f: "foldE (pay_claim pay want) [] claims = Inr paid" "subtractRational available pay = Inr left"
      using assms(1) w False by (auto simp: payTier_def numerator_signs(1) [OF wv(1)] Let_def pay_def bindE_Inr_iff)
    have l: "ok left" "val left = val available - val pay" using op_values(2) [OF assms(2) p(1) f(2)] by simp_all
    have "0 \<le> val pay" using p(2) assms(3) pos by simp
    from pay_claims [OF f(1) p(1) wv(1) this pos assms(4) _ assms(5)] have o: "purse paid" "tot paid = tot claims * (val pay / val want)" "fst ` set paid = fst ` set claims" by auto
    have "tot paid = val pay" using o(2) wv(2) False by simp
    then show ?thesis using l p(2) o(1,3) by simp
  qed
qed

section \<open>Sane terms\<close>

abbreviation (input) nonneg :: "Rational \<Rightarrow> bool" where "nonneg r \<equiv> ok r \<and> 0 \<le> val r"

definition sane_class :: "waterfall_class \<Rightarrow> bool" where
  "sane_class c \<longleftrightarrow> nonneg (wc_liquidationMultiple c) \<and> nonneg (wc_conversionRatio c) \<and> pred_option nonneg (wc_participationCapMultiple c)
     \<and> pred_option nonneg (wc_originalIssuePrice c) \<and> (\<forall>h \<in> set (wc_holdings c). 0 \<le> wh_shares h \<and> pred_option nonneg (wh_preferencePrice h))"

definition sane :: "waterfall_input \<Rightarrow> bool" where
  "sane i \<longleftrightarrow> ok (wi_exitValue i) \<and> (\<forall>c \<in> set (wi_classes i). sane_class c) \<and> (\<forall>a \<in> set (wi_awards i). nonneg (wa_strike a))
     \<and> (\<forall>v \<in> set (wi_convertibles i). nonneg (wv_amount v) \<and> pred_option (\<lambda>r. ok r \<and> 0 < val r) (wv_cap v))
     \<and> distinct (map wc_shareClassId (wi_classes i)) \<and> distinct (map wa_securityId (wi_awards i)) \<and> distinct (map wv_securityId (wi_convertibles i))"

definition holding_value :: "waterfall_class \<Rightarrow> waterfall_holding \<Rightarrow> rat" where
  "holding_value c h = (case holdingPrice c h of None \<Rightarrow> 0 | Some p \<Rightarrow> of_int (wh_shares h) * val p)"

definition basis_value :: "waterfall_class \<Rightarrow> rat" where
  "basis_value c = (\<Sum>h\<leftarrow>wc_holdings c. holding_value c h)"

definition class_units :: "waterfall_class \<Rightarrow> rat" where
  "class_units c = of_int (sharesOf c) * val (wc_conversionRatio c)"

definition award_units :: "waterfall_input \<Rightarrow> waterfall_award \<Rightarrow> rat" where
  "award_units i a = of_int (wa_shares a) * val (ratioByClass i (wa_shareClassId a))"

definition strike_value :: "waterfall_award \<Rightarrow> rat" where
  "strike_value a = of_int (wa_shares a) * val (wa_strike a)"

lemma holding_price_nonneg: "sane_class c \<Longrightarrow> h \<in> set (wc_holdings c) \<Longrightarrow> holdingPrice c h = Some p \<Longrightarrow> nonneg p"
  by (auto simp: sane_class_def holdingPrice_def pred_option_def split: option.splits)

lemma holding_value_nonneg: "sane_class c \<Longrightarrow> h \<in> set (wc_holdings c) \<Longrightarrow> 0 \<le> holding_value c h"
proof (cases "holdingPrice c h")
  case (Some p)
  assume c: "sane_class c" "h \<in> set (wc_holdings c)"
  then have "0 \<le> wh_shares h" by (simp add: sane_class_def)
  then show ?thesis using holding_price_nonneg [OF c Some] Some by (simp add: holding_value_def)
qed (simp add: holding_value_def)

lemma holdingBasis_val: "sane_class c \<Longrightarrow> h \<in> set (wc_holdings c) \<Longrightarrow> holdingBasis c h = Inr r \<Longrightarrow> ok r \<and> val r = holding_value c h"
proof (cases "holdingPrice c h")
  case (Some p)
  assume c: "sane_class c" "h \<in> set (wc_holdings c)" and r: "holdingBasis c h = Inr r"
  obtain s where s: "rational (wh_shares h) 1 = Inr s" "multiplyRational s p = Inr r" using r Some by (auto simp: holdingBasis_def bindE_Inr_iff)
  show ?thesis using op_values(3) [OF _ _ s(2)] rational_val [OF s(1)] holding_price_nonneg [OF c Some] Some by (simp add: holding_value_def)
qed (auto simp: holdingBasis_def holding_value_def)

lemma classBasis_val: "sane_class c \<Longrightarrow> classBasis c = Inr r \<Longrightarrow> ok r \<and> val r = basis_value c"
  unfolding classBasis_def basis_value_def by (erule sum_of_val) (rule holdingBasis_val)

lemma basis_nonneg: "sane_class c \<Longrightarrow> 0 \<le> basis_value c"
  unfolding basis_value_def by (rule sum_list_nonneg) (auto intro: holding_value_nonneg)

lemma preferenceOf_val:
  assumes "sane_class c" "preferenceOf c = Inr r"
  shows "nonneg r \<and> (0 < val r \<longrightarrow> 0 < basis_value c)"
proof (cases "wc_kind c \<noteq> Preferred \<or> wc_originalIssuePrice c = None")
  case False
  then obtain b where b: "classBasis c = Inr b" "multiplyRational b (wc_liquidationMultiple c) = Inr r" using assms(2) by (auto simp: preferenceOf_def bindE_Inr_iff)
  note bv = classBasis_val [OF assms(1) b(1)]
  have m: "nonneg (wc_liquidationMultiple c)" using assms(1) by (simp add: sane_class_def)
  have "ok r \<and> val r = basis_value c * val (wc_liquidationMultiple c)" using op_values(3) [OF _ _ b(2)] bv m by auto
  then show ?thesis using m basis_nonneg [OF assms(1)] by (auto simp: zero_less_mult_iff)
qed (use assms(2) in \<open>auto simp: preferenceOf_def\<close>)

lemma capOf_val: "sane_class c \<Longrightarrow> capOf c = Inr (Some r) \<Longrightarrow> nonneg r"
proof -
  assume c: "sane_class c" "capOf c = Inr (Some r)"
  then obtain m b where b: "wc_participationCapMultiple c = Some m" "classBasis c = Inr b" "multiplyRational b m = Inr r"
    by (auto simp: capOf_def bindE_Inr_iff split: participation.splits option.splits)
  have m: "nonneg m" using c(1) b(1) by (simp add: sane_class_def)
  have "ok r \<and> val r = basis_value c * val m" using op_values(3) [OF _ _ b(3)] classBasis_val [OF c(1) b(2)] m by auto
  then show ?thesis using m basis_nonneg [OF c(1)] by simp
qed

lemma asConverted_val: "sane_class c \<Longrightarrow> asConverted c = Inr r \<Longrightarrow> ok r \<and> val r = class_units c"
  by (auto simp: asConverted_def class_units_def sane_class_def bindE_Inr_iff dest!: rational_val op_values(3) [rotated 2])

lemma sharesOf_nonneg: "sane_class c \<Longrightarrow> 0 \<le> sharesOf c"
  unfolding sharesOf_def by (rule sum_list_nonneg) (auto simp: sane_class_def)

lemma class_units_nonneg: "sane_class c \<Longrightarrow> 0 \<le> class_units c"
  using sharesOf_nonneg by (simp add: class_units_def sane_class_def)

lemma ratio_nonneg: "\<forall>c \<in> set (wi_classes i). sane_class c \<Longrightarrow> nonneg (ratioByClass i k)"
proof -
  assume s: "\<forall>c \<in> set (wi_classes i). sane_class c"
  show ?thesis
  proof (cases "map_of (rev (map (\<lambda>c. (wc_shareClassId c, wc_conversionRatio c)) (wi_classes i))) k")
    case (Some r)
    then have "(k, r) \<in> set (map (\<lambda>c. (wc_shareClassId c, wc_conversionRatio c)) (wi_classes i))" using map_of_SomeD [OF Some] by simp
    then show ?thesis using s Some by (auto simp: ratioByClass_def sane_class_def)
  qed (simp add: ratioByClass_def)
qed

lemma awardUnits_val: "\<forall>c \<in> set (wi_classes i). sane_class c \<Longrightarrow> awardUnits i a = Inr r \<Longrightarrow> ok r \<and> val r = award_units i a"
  using ratio_nonneg by (auto simp: awardUnits_def award_units_def bindE_Inr_iff dest!: rational_val op_values(3) [rotated 2])

lemma awardStrike_val: "ok (wa_strike a) \<Longrightarrow> awardStrike a = Inr r \<Longrightarrow> ok r \<and> val r = strike_value a"
  by (auto simp: awardStrike_def strike_value_def bindE_Inr_iff dest!: rational_val op_values(3) [rotated 2])

section \<open>Preferences are paid out of what the notes leave\<close>

lemma settle_paid_simps:
  "settle_paid (Class_claim k, a) (prefs, conv) = (AList.update k a prefs, conv)" "settle_paid (Safe_claim k, a) (prefs, conv) = (prefs, AList.update k a conv)"
  by (simp_all add: settle_paid_def)

lemma settle_fold:
  assumes "fold settle_paid paid (prefs, conv) = (prefs', conv')" "purse paid" "purse prefs" "purse conv"
    "\<And>k. Class_claim k \<in> fst ` set paid \<Longrightarrow> k \<notin> fst ` set prefs" "\<And>k. Safe_claim k \<in> fst ` set paid \<Longrightarrow> k \<notin> fst ` set conv"
  shows "purse prefs' \<and> purse conv' \<and> tot prefs' + tot conv' = tot prefs + tot conv + tot paid
    \<and> fst ` set prefs' = fst ` set prefs \<union> {k. Class_claim k \<in> fst ` set paid} \<and> fst ` set conv' = fst ` set conv \<union> {k. Safe_claim k \<in> fst ` set paid}"
  using assms
proof (induction paid arbitrary: prefs conv)
  case (Cons p paid)
  obtain k a where p: "p = (k, a)" by (cases p)
  have a: "nonneg a" "purse paid" "k \<notin> fst ` set paid" using Cons.prems(2) by (auto simp: purse_def p)
  show ?case
  proof (cases k)
    case (Class_claim x)
    have fresh: "x \<notin> fst ` set prefs" using Cons.prems(5) by (simp add: p Class_claim)
    have f: "fold settle_paid paid (prefs @ [(x, a)], conv) = (prefs', conv')" using Cons.prems(1) by (simp add: p Class_claim settle_paid_simps update_fresh [OF fresh])
    have "purse (prefs @ [(x, a)])" using purse_snoc [OF Cons.prems(3) fresh] a(1) by simp
    moreover have "y \<notin> fst ` set (prefs @ [(x, a)])" if "Class_claim y \<in> fst ` set paid" for y
      using Cons.prems(5) [of y] that a(3) by (auto simp: p Class_claim)
    moreover have "y \<notin> fst ` set conv" if "Safe_claim y \<in> fst ` set paid" for y using Cons.prems(6) [of y] that by (simp add: p)
    ultimately have "purse prefs' \<and> purse conv' \<and> tot prefs' + tot conv' = tot (prefs @ [(x, a)]) + tot conv + tot paid
        \<and> fst ` set prefs' = fst ` set (prefs @ [(x, a)]) \<union> {k. Class_claim k \<in> fst ` set paid} \<and> fst ` set conv' = fst ` set conv \<union> {k. Safe_claim k \<in> fst ` set paid}"
      by (rule Cons.IH [OF f a(2) _ Cons.prems(4)])
    then show ?thesis by (auto simp: p Class_claim)
  next
    case (Safe_claim x)
    have fresh: "x \<notin> fst ` set conv" using Cons.prems(6) by (simp add: p Safe_claim)
    have f: "fold settle_paid paid (prefs, conv @ [(x, a)]) = (prefs', conv')" using Cons.prems(1) by (simp add: p Safe_claim settle_paid_simps update_fresh [OF fresh])
    have "purse (conv @ [(x, a)])" using purse_snoc [OF Cons.prems(4) fresh] a(1) by simp
    moreover have "y \<notin> fst ` set (conv @ [(x, a)])" if "Safe_claim y \<in> fst ` set paid" for y
      using Cons.prems(6) [of y] that a(3) by (auto simp: p Safe_claim)
    moreover have "y \<notin> fst ` set prefs" if "Class_claim y \<in> fst ` set paid" for y using Cons.prems(5) [of y] that by (simp add: p)
    ultimately have "purse prefs' \<and> purse conv' \<and> tot prefs' + tot conv' = tot prefs + tot (conv @ [(x, a)]) + tot paid
        \<and> fst ` set prefs' = fst ` set prefs \<union> {k. Class_claim k \<in> fst ` set paid} \<and> fst ` set conv' = fst ` set (conv @ [(x, a)]) \<union> {k. Safe_claim k \<in> fst ` set paid}"
      using Cons.IH [OF f a(2) Cons.prems(3)] by blast
    then show ?thesis by (auto simp: p Safe_claim)
  qed
qed simp

end
