(* ===== verification/Waterfall_Distribution.thy ===== *)
theory Waterfall_Distribution
  imports Waterfall
begin

text \<open>
  What one distribution of the waterfall (\<open>distribute\<close> of \<open>engine/src/equity/waterfall.ts\<close>) gives away: tiers share what there is, the in-the-money and cap loops end at a price the
  residual can pay, and preferences, participations, exercised options (net of their strikes), convertibles and the unallocated rest add up to the money that came in.
\<close>

lemma class_claims_vals:
  assumes "class_claims keeping t = Inr claims" "\<forall>c \<in> set keeping. sane_class c" "distinct (map wc_shareClassId keeping)"
  shows "map fst claims = map (\<lambda>c. Class_claim (wc_shareClassId c)) (filter (\<lambda>c. wc_seniority c = t) keeping)" "\<forall>(k, r) \<in> set claims. nonneg r"
proof -
  have "traverse (\<lambda>c. bindE (preferenceOf c) (\<lambda>p. Inr (Class_claim (wc_shareClassId c), p))) cs = Inr claims \<Longrightarrow> \<forall>c \<in> set cs. sane_class c
      \<Longrightarrow> map fst claims = map (\<lambda>c. Class_claim (wc_shareClassId c)) cs \<and> (\<forall>(k, r) \<in> set claims. nonneg r)" for cs
    by (induction cs arbitrary: claims) (auto simp: bindE_Inr_iff dest: preferenceOf_val)
  from this [OF assms(1) [unfolded class_claims_def]] assms(2)
  show "map fst claims = map (\<lambda>c. Class_claim (wc_shareClassId c)) (filter (\<lambda>c. wc_seniority c = t) keeping)" "\<forall>(k, r) \<in> set claims. nonneg r" by simp_all
qed

lemma tier_step_pays:
  assumes "tier_step keeping safes j (av, prefs, conv) t = Inr (av', prefs', conv')" "\<forall>c \<in> set keeping. sane_class c" "distinct (map wc_shareClassId keeping)"
    "\<forall>v \<in> set safes. nonneg (wv_amount v)" "distinct (map wv_securityId safes)" "nonneg av" "purse prefs" "purse conv"
    "\<And>c. c \<in> set keeping \<Longrightarrow> wc_seniority c = t \<Longrightarrow> wc_shareClassId c \<notin> fst ` set prefs"
    "t = j \<Longrightarrow> wv_securityId ` set safes \<inter> fst ` set conv = {}"
  shows "nonneg av' \<and> purse prefs' \<and> purse conv' \<and> val av' + tot prefs' + tot conv' = val av + tot prefs + tot conv
    \<and> fst ` set prefs' \<subseteq> fst ` set prefs \<union> {wc_shareClassId c |c. c \<in> set keeping \<and> wc_seniority c = t}
    \<and> fst ` set conv' \<subseteq> fst ` set conv \<union> (if t = j then wv_securityId ` set safes else {})"
proof -
  obtain claims paid where s: "class_claims keeping t = Inr claims"
      "payTier (claims @ (if t = j then safe_cash_claims safes else [])) av [] = Inr (av', paid)" "fold settle_paid paid (prefs, conv) = (prefs', conv')"
    using assms(1) by (auto simp: tier_step_def bindE_Inr_iff)
  let ?all = "claims @ (if t = j then safe_cash_claims safes else [])"
  note c = class_claims_vals [OF s(1) assms(2,3)]
  have keys: "map fst ?all = map (\<lambda>c. Class_claim (wc_shareClassId c)) (filter (\<lambda>c. wc_seniority c = t) keeping) @ (if t = j then map (\<lambda>v. Safe_claim (wv_securityId v)) safes else [])"
    using c(1) by (simp add: safe_cash_claims_def)
  have "distinct (map (\<lambda>c. Class_claim (wc_shareClassId c)) (filter (\<lambda>c. wc_seniority c = t) keeping))" "distinct (map (\<lambda>v. Safe_claim (wv_securityId v)) safes)"
    using assms(3,5) by (auto simp: distinct_map inj_on_def)
  then have d: "distinct (map fst ?all)" unfolding keys by auto
  have n: "\<forall>(k, r) \<in> set ?all. nonneg r" using c(2) assms(4) by (auto simp: safe_cash_claims_def)
  have p: "nonneg av'" "purse paid" "val av' + tot paid = val av" "fst ` set paid \<subseteq> fst ` set ?all"
    using payTier_shares [OF s(2) _ _ d n] assms(6) by simp_all
  have sub: "fst ` set paid \<subseteq> set (map fst ?all)" using p(4) by (simp only: set_map)
  have f0: "k \<in> {wc_shareClassId c |c. c \<in> set keeping \<and> wc_seniority c = t}" if "Class_claim k \<in> fst ` set paid" for k
    using subsetD [OF sub that] unfolding keys by (auto split: if_splits)
  have g0: "t = j \<and> k \<in> wv_securityId ` set safes" if "Safe_claim k \<in> fst ` set paid" for k
    using subsetD [OF sub that] unfolding keys by (auto split: if_splits)
  have f: "k \<notin> fst ` set prefs" if "Class_claim k \<in> fst ` set paid" for k 
  proof -
    from f0 [OF that] obtain c where "k = wc_shareClassId c" "c \<in> set keeping" "wc_seniority c = t" by auto
    then show ?thesis using assms(9) by simp
  qed
  have g: "k \<notin> fst ` set conv" if "Safe_claim k \<in> fst ` set paid" for k using g0 [OF that] assms(10) by blast
  have r: "purse prefs'" "purse conv'" "tot prefs' + tot conv' = tot prefs + tot conv + tot paid"
    "fst ` set prefs' = fst ` set prefs \<union> {k. Class_claim k \<in> fst ` set paid}" "fst ` set conv' = fst ` set conv \<union> {k. Safe_claim k \<in> fst ` set paid}"
    using settle_fold [OF s(3) p(2) assms(7,8) f g] by auto
  have "{k. Class_claim k \<in> fst ` set paid} \<subseteq> {wc_shareClassId c |c. c \<in> set keeping \<and> wc_seniority c = t}" by (rule subsetI, drule CollectD, erule f0)
  moreover have "{k. Safe_claim k \<in> fst ` set paid} \<subseteq> (if t = j then wv_securityId ` set safes else {})" by (rule subsetI, drule CollectD, drule g0) simp
  ultimately show ?thesis using r(1-3) p(1,3) unfolding r(4,5) by (intro conjI Un_mono order_refl) simp_all
qed

lemma tiers_pay:
  assumes "foldE (tier_step keeping safes j) (av, prefs, conv) ts = Inr (av', prefs', conv')" "\<forall>c \<in> set keeping. sane_class c" "distinct (map wc_shareClassId keeping)"
    "\<forall>v \<in> set safes. nonneg (wv_amount v)" "distinct (map wv_securityId safes)" "nonneg av" "purse prefs" "purse conv" "distinct ts"
    "\<And>c. c \<in> set keeping \<Longrightarrow> wc_seniority c \<in> set ts \<Longrightarrow> wc_shareClassId c \<notin> fst ` set prefs"
    "j \<in> set ts \<Longrightarrow> wv_securityId ` set safes \<inter> fst ` set conv = {}"
  shows "nonneg av' \<and> purse prefs' \<and> purse conv' \<and> val av' + tot prefs' + tot conv' = val av + tot prefs + tot conv
    \<and> fst ` set prefs' \<subseteq> fst ` set prefs \<union> wc_shareClassId ` set keeping \<and> fst ` set conv' \<subseteq> fst ` set conv \<union> wv_securityId ` set safes"
  using assms(1,6-11)
proof (induction ts arbitrary: av prefs conv)
  case (Cons t ts)
  obtain av1 prefs1 conv1 where s: "tier_step keeping safes j (av, prefs, conv) t = Inr (av1, prefs1, conv1)" "foldE (tier_step keeping safes j) (av1, prefs1, conv1) ts = Inr (av', prefs', conv')"
    using Cons.prems(1) by (auto simp: bindE_Inr_iff)
  have p: "nonneg av1" "purse prefs1" "purse conv1" "val av1 + tot prefs1 + tot conv1 = val av + tot prefs + tot conv"
    "fst ` set prefs1 \<subseteq> fst ` set prefs \<union> {wc_shareClassId c |c. c \<in> set keeping \<and> wc_seniority c = t}"
    "fst ` set conv1 \<subseteq> fst ` set conv \<union> (if t = j then wv_securityId ` set safes else {})"
    using tier_step_pays [OF s(1) assms(2-5) Cons.prems(2-4)] Cons.prems(6,7) by auto
  have "wc_shareClassId c \<notin> fst ` set prefs1" if c: "c \<in> set keeping" "wc_seniority c \<in> set ts" for c
  proof
    assume "wc_shareClassId c \<in> fst ` set prefs1"
    then have "wc_shareClassId c \<in> fst ` set prefs \<union> {wc_shareClassId c |c. c \<in> set keeping \<and> wc_seniority c = t}" using p(5) by blast
    moreover have "wc_shareClassId c \<notin> fst ` set prefs" using Cons.prems(6) [OF c(1)] c(2) by simp
    ultimately obtain c' where "c' \<in> set keeping" "wc_seniority c' = t" "wc_shareClassId c = wc_shareClassId c'" by blast
    then have "c = c'" using assms(3) c(1) by (auto simp: distinct_map dest: inj_onD)
    then show False using c(2) \<open>wc_seniority c' = t\<close> Cons.prems(5) by simp
  qed
  moreover have "wv_securityId ` set safes \<inter> fst ` set conv1 = {}" if j: "j \<in> set ts"
  proof -
    have "t \<noteq> j" using j Cons.prems(5) by auto
    then have "fst ` set conv1 \<subseteq> fst ` set conv" using p(6) by simp
    moreover have "wv_securityId ` set safes \<inter> fst ` set conv = {}" using Cons.prems(7) j by simp
    ultimately show ?thesis by blast
  qed
  ultimately have r: "nonneg av'" "purse prefs'" "purse conv'" "val av' + tot prefs' + tot conv' = val av1 + tot prefs1 + tot conv1"
      "fst ` set prefs' \<subseteq> fst ` set prefs1 \<union> wc_shareClassId ` set keeping" "fst ` set conv' \<subseteq> fst ` set conv1 \<union> wv_securityId ` set safes"
    using Cons.IH [OF s(2) p(1-3)] Cons.prems(5) by simp_all
  have p5: "fst ` set prefs1 \<subseteq> fst ` set prefs \<union> wc_shareClassId ` set keeping" by (rule order_trans [OF p(5)]) auto
  have p6: "fst ` set conv1 \<subseteq> fst ` set conv \<union> wv_securityId ` set safes" by (rule order_trans [OF p(6)]) auto
  have "fst ` set prefs' \<subseteq> fst ` set prefs \<union> wc_shareClassId ` set keeping" "fst ` set conv' \<subseteq> fst ` set conv \<union> wv_securityId ` set safes"
    by (rule order_trans [OF r(5)], use p5 in blast) (rule order_trans [OF r(6)], use p6 in blast)
  then show ?case using r(1-4) p(4) by simp
qed simp

lemma fold_update_fresh:
  assumes "purse m" "purse paid" "fst ` set paid \<inter> fst ` set m = {}"
  shows "fold (\<lambda>(k, a). AList.update k a) paid m = m @ paid \<and> purse (m @ paid)"
  using assms
proof (induction paid arbitrary: m)
  case (Cons x paid)
  obtain k a where x: "x = (k, a)" by (cases x)
  have k: "k \<notin> fst ` set m" "nonneg a" "purse paid" using Cons.prems by (auto simp: x purse_def)
  have "purse (m @ [(k, a)])" using purse_snoc [OF Cons.prems(1) k(1)] k(2) by simp
  moreover have "fst ` set paid \<inter> fst ` set (m @ [(k, a)]) = {}" using Cons.prems(2,3) by (auto simp: x purse_def)
  ultimately show ?case using Cons.IH [of "m @ [(k, a)]"] k by (simp add: x update_fresh)
qed simp

lemma pay_preferences_conserves:
  assumes "pay_preferences keeping safes an np = Inr (av, prefs, conv)" "\<forall>c \<in> set keeping. sane_class c" "distinct (map wc_shareClassId keeping)"
    "\<forall>v \<in> set safes. nonneg (wv_amount v)" "distinct (map wv_securityId safes)" "nonneg an" "purse np" "wv_securityId ` set safes \<inter> fst ` set np = {}"
  shows "nonneg av \<and> purse prefs \<and> purse conv \<and> val av + tot prefs + tot conv = val an + tot np
    \<and> fst ` set prefs \<subseteq> wc_shareClassId ` set keeping \<and> fst ` set conv \<subseteq> fst ` set np \<union> wv_securityId ` set safes"
proof (cases "tiers_of keeping = []")
  case False
  have d: "distinct (tiers_of keeping)" by (simp add: tiers_of_def)
  have f: "foldE (tier_step keeping safes (last (tiers_of keeping))) (an, [], np) (tiers_of keeping) = Inr (av, prefs, conv)"
    using assms(1) False by (simp add: pay_preferences_def Let_def)
  from tiers_pay [OF f assms(2-6) purse_Nil assms(7) d] assms(8) show ?thesis by simp
next
  case True
  show ?thesis
  proof (cases "safes = []")
    case True
    then show ?thesis using assms(1,6,7) \<open>tiers_of keeping = []\<close> by (auto simp: pay_preferences_def)
  next
    case False
    then obtain paid where p: "payTier (map (\<lambda>v. (wv_securityId v, wv_amount v)) safes) an [] = Inr (av, paid)" "prefs = []" "conv = fold (\<lambda>(k, a). AList.update k a) paid np"
      using assms(1) True by (auto simp: pay_preferences_def bindE_Inr_iff)
    have q: "nonneg av" "purse paid" "val av + tot paid = val an" "fst ` set paid \<subseteq> wv_securityId ` set safes"
      using payTier_shares [OF p(1)] assms(4-6) by (auto simp: o_def image_image)
    have "fst ` set paid \<inter> fst ` set np = {}" using assms(8) q(4) by blast
    then have "conv = np @ paid" "purse conv" using p(3) fold_update_fresh [OF assms(7) q(2)] by simp_all
    then show ?thesis using q p(2) by auto
  qed
qed

section \<open>Maps filled one key at a time\<close>

lemma foldE_update:
  assumes "foldE (\<lambda>out x. bindE (f x) (\<lambda>r. Inr (AList.update (key x) r out))) m xs = Inr out"
    "\<And>x y. x \<in> set xs \<Longrightarrow> f x = Inr y \<Longrightarrow> ok y \<and> val y = g x" "\<And>x. x \<in> set xs \<Longrightarrow> 0 \<le> g x"
    "distinct (map key xs)" "key ` set xs \<inter> fst ` set m = {}" "purse m"
  shows "purse out \<and> tot out = tot m + (\<Sum>x\<leftarrow>xs. g x) \<and> fst ` set out = fst ` set m \<union> key ` set xs
    \<and> (\<forall>x \<in> set xs. \<exists>r. map_of out (key x) = Some r \<and> ok r \<and> val r = g x) \<and> (\<forall>k. k \<notin> key ` set xs \<longrightarrow> map_of out k = map_of m k)"
  using assms
proof (induction xs arbitrary: m)
  case (Cons x xs)
  obtain y where y: "f x = Inr y" "foldE (\<lambda>out x. bindE (f x) (\<lambda>r. Inr (AList.update (key x) r out))) (AList.update (key x) y m) xs = Inr out"
    using Cons.prems(1) by (auto simp: bindE_Inr_iff)
  have v: "ok y" "val y = g x" using Cons.prems(2) [OF _ y(1)] by simp_all
  have fresh: "key x \<notin> fst ` set m" using Cons.prems(5) by auto
  have u: "AList.update (key x) y m = m @ [(key x, y)]" using fresh by (rule update_fresh)
  have "purse (m @ [(key x, y)])" using purse_snoc [OF Cons.prems(6) fresh v(1)] v(2) Cons.prems(3) by simp
  moreover have "key ` set xs \<inter> fst ` set (m @ [(key x, y)]) = {}" using Cons.prems(4,5) by auto
  ultimately have "purse out \<and> tot out = tot (m @ [(key x, y)]) + (\<Sum>x\<leftarrow>xs. g x) \<and> fst ` set out = fst ` set (m @ [(key x, y)]) \<union> key ` set xs
      \<and> (\<forall>x \<in> set xs. \<exists>r. map_of out (key x) = Some r \<and> ok r \<and> val r = g x) \<and> (\<forall>k. k \<notin> key ` set xs \<longrightarrow> map_of out k = map_of (m @ [(key x, y)]) k)"
    by (intro Cons.IH [OF y(2) [unfolded u]]) ((rule Cons.prems(2) Cons.prems(3))?, simp_all add: Cons.prems(4) [simplified])+
  then have r: "purse out" "tot out = tot (m @ [(key x, y)]) + (\<Sum>x\<leftarrow>xs. g x)" "fst ` set out = fst ` set (m @ [(key x, y)]) \<union> key ` set xs"
      "\<forall>x \<in> set xs. \<exists>r. map_of out (key x) = Some r \<and> ok r \<and> val r = g x" "\<forall>k. k \<notin> key ` set xs \<longrightarrow> map_of out k = map_of (m @ [(key x, y)]) k"
    by blast+
  have none: "map_of m (key x) = None" using fresh by (simp add: map_of_eq_None_iff)
  have "key x \<notin> key ` set xs" using Cons.prems(4) by auto
  then have "map_of out (key x) = Some y" using r(5) none by (simp add: map_add_def)
  moreover have "map_of out k = map_of m k" if "k \<notin> key ` set (x # xs)" for k using r(5) that by (simp add: map_add_def split: option.splits)
  ultimately show ?case using r(1-4) v by auto
qed simp

section \<open>The residual price\<close>

definition strikes_value :: "waterfall_award list \<Rightarrow> rat" where
  "strikes_value as = (\<Sum>a\<leftarrow>as. strike_value a)"

definition open_units :: "amounts \<Rightarrow> waterfall_class list \<Rightarrow> rat" where
  "open_units capped cs = (\<Sum>c\<leftarrow>filter (\<lambda>c. map_of capped (wc_shareClassId c) = None) cs. class_units c)"

definition units_value :: "waterfall_input \<Rightarrow> waterfall_award list \<Rightarrow> rat" where
  "units_value i as = (\<Sum>a\<leftarrow>as. award_units i a)"

definition live_award :: "waterfall_award \<Rightarrow> bool" where
  "live_award a \<longleftrightarrow> nonneg (wa_strike a) \<and> 0 < wa_shares a"

lemma strikes_nonneg: "\<forall>a \<in> set as. live_award a \<Longrightarrow> 0 \<le> strikes_value as"
  unfolding strikes_value_def by (rule sum_list_nonneg) (auto simp: strike_value_def live_award_def)

lemma units_nonneg: "\<forall>c \<in> set (wi_classes i). sane_class c \<Longrightarrow> \<forall>a \<in> set as. live_award a \<Longrightarrow> 0 \<le> units_value i as"
  unfolding units_value_def by (rule sum_list_nonneg) (auto simp: award_units_def live_award_def ratio_nonneg)

lemma open_units_nonneg: "\<forall>c \<in> set cs. sane_class c \<Longrightarrow> 0 \<le> open_units capped cs"
  unfolding open_units_def by (rule sum_list_nonneg) (auto simp: class_units_nonneg)

lemma purse_sum: "purse m \<Longrightarrow> sumRational (map snd m) = Inr r \<Longrightarrow> ok r \<and> val r = tot m"
proof -
  assume m: "purse m" "sumRational (map snd m) = Inr r"
  have "\<forall>x \<in> set (map snd m). ok x" using m(1) by (auto simp: purse_def)
  from sumRational_val [OF m(2) this] show ?thesis by (simp add: tot_def o_def)
qed

lemma pot_val:
  assumes "pot_of av capped im = Inr pot" "ok av" "purse capped" "\<forall>a \<in> set im. live_award a"
  shows "ok pot \<and> val pot = val av - tot capped + strikes_value im"
proof -
  obtain held left st where s: "sumRational (map snd capped) = Inr held" "subtractRational av held = Inr left" "sum_of awardStrike im = Inr st" "addRational left st = Inr pot"
    using assms(1) by (auto simp: pot_of_def bindE_Inr_iff)
  have h: "ok held" "val held = tot capped" using purse_sum [OF assms(3) s(1)] by simp_all
  have l: "ok left" "val left = val av - tot capped" using op_values(2) [OF assms(2) h(1) s(2)] h(2) by simp_all
  have t: "ok st \<and> val st = strikes_value im" unfolding strikes_value_def
    by (rule sum_of_val [OF s(3)]) (use assms(4) in \<open>auto simp: live_award_def dest!: awardStrike_val [rotated]\<close>)
  show ?thesis using op_values(1) [OF l(1) _ s(4)] t l(2) by simp
qed

lemma count_val:
  assumes "count_of i cs capped im ss = Inr cnt" "\<forall>c \<in> set (wi_classes i). sane_class c" "\<forall>c \<in> set cs. sane_class c" "purse ss"
  shows "ok cnt \<and> val cnt = open_units capped cs + units_value i im + tot ss"
proof -
  obtain a b n s where s: "sum_of asConverted (filter (\<lambda>c. map_of capped (wc_shareClassId c) = None) cs) = Inr a" "sum_of (awardUnits i) im = Inr b"
      "addRational a b = Inr n" "sumRational (map snd ss) = Inr s" "addRational n s = Inr cnt"
    using assms(1) by (auto simp: count_of_def bindE_Inr_iff)
  have a: "ok a \<and> val a = open_units capped cs" unfolding open_units_def
    by (rule sum_of_val [OF s(1)]) (use assms(3) asConverted_val in auto)
  have b: "ok b \<and> val b = units_value i im" unfolding units_value_def by (rule sum_of_val [OF s(2)]) (rule awardUnits_val [OF assms(2)])
  have n: "ok n \<and> val n = open_units capped cs + units_value i im" using op_values(1) [OF _ _ s(3)] a b by auto
  show ?thesis using op_values(1) [OF _ _ s(5)] n purse_sum [OF assms(4) s(4)] by auto
qed

lemma price_val:
  assumes "price_of pot cnt = Inr p" "nonneg pot" "nonneg cnt"
  shows "nonneg p \<and> val p * val cnt \<le> val pot"
proof (cases "val cnt > 0 \<and> val pot > 0")
  case True
  then have "divideRational pot cnt = Inr p" using assms by (simp add: price_of_def numerator_signs compare_vals)
  from op_values(4) [OF _ _ this] assms(2,3) True show ?thesis by simp
next
  case False
  then have "p = ZERO" using assms by (auto simp: price_of_def numerator_signs compare_vals split: if_splits)
  then show ?thesis using assms(2) by simp
qed

text \<open>A price at which the residual is paid: what the open classes, the exercised awards and the SAFE shares take at it is no more than there is, and every exercised award is in the money.\<close>

definition in_money_at :: "waterfall_input \<Rightarrow> Rational \<Rightarrow> waterfall_award \<Rightarrow> bool" where
  "in_money_at i p a \<longleftrightarrow> val p * val (ratioByClass i (wa_shareClassId a)) > val (wa_strike a)"

definition priced :: "waterfall_input \<Rightarrow> waterfall_class list \<Rightarrow> amounts \<Rightarrow> rat \<Rightarrow> amounts \<Rightarrow> Rational \<Rightarrow> waterfall_award list \<Rightarrow> bool" where
  "priced i cs ss av capped p im \<longleftrightarrow> nonneg p \<and> (\<exists>q. im = filter q (wi_awards i)) \<and> (\<forall>a \<in> set im. live_award a \<and> in_money_at i p a)
     \<and> val p * (open_units capped cs + units_value i im + tot ss) \<le> av - tot capped + strikes_value im"

lemma in_the_money_val:
  assumes "in_the_money i p a = Inr b" "\<forall>c \<in> set (wi_classes i). sane_class c" "ok p" "live_award a"
  shows "b = in_money_at i p a"
proof -
  obtain v where v: "multiplyRational p (ratioByClass i (wa_shareClassId a)) = Inr v" "b \<longleftrightarrow> compareRational v (wa_strike a) > 0"
    using assms(1) by (auto simp: in_the_money_def bindE_Inr_iff)
  have "ok v" "val v = val p * val (ratioByClass i (wa_shareClassId a))" using op_values(3) [OF assms(3) _ v(1)] ratio_nonneg [OF assms(2)] by blast+
  then show ?thesis using v(2) assms(4) by (auto simp: compare_vals live_award_def in_money_at_def)
qed

lemma in_money_loop_priced:
  assumes "in_money_loop fuel i cs ss av capped im p0 = Inr (p, im')" "length im < fuel" "\<forall>c \<in> set (wi_classes i). sane_class c" "\<forall>c \<in> set cs. sane_class c"
    "purse ss" "purse capped" "ok av" "tot capped \<le> val av" "\<exists>q. im = filter q (wi_awards i)" "\<forall>a \<in> set im. live_award a"
  shows "priced i cs ss (val av) capped p im'"
  using assms(1,2,9,10)
proof (induction fuel arbitrary: im p0)
  case (Suc k)
  obtain pot cnt p1 nxt where s: "pot_of av capped im = Inr pot" "count_of i cs capped im ss = Inr cnt" "price_of pot cnt = Inr p1" "filterE (in_the_money i p1) im = Inr nxt"
      "(if length nxt = length im then Inr (p1, im) else in_money_loop k i cs ss av capped nxt p1) = Inr (p, im')"
    using Suc.prems(1) by (auto simp: bindE_Inr_iff)
  note pot = pot_val [OF s(1) assms(7,6) Suc.prems(4)] and cnt = count_val [OF s(2) assms(3,4,5)]
  have "0 \<le> val pot" using pot assms(8) strikes_nonneg [OF Suc.prems(4)] by simp
  moreover have "0 \<le> val cnt" using cnt open_units_nonneg [OF assms(4)] units_nonneg [OF assms(3) Suc.prems(4)] purse_tot_nonneg [OF assms(5)] by simp
  ultimately have p1: "nonneg p1" "val p1 * val cnt \<le> val pot" using price_val [OF s(3)] pot cnt by auto
  have nxt: "nxt = filter (in_money_at i p1) im"
    by (rule filterE_filter [OF s(4)]) (rule in_the_money_val [OF _ assms(3)], use p1 Suc.prems(4) in auto)
  obtain q where q: "im = filter q (wi_awards i)" using Suc.prems(3) by blast
  show ?case
  proof (cases "length nxt = length im")
    case True
    then have r: "p = p1" "im' = im" using s(5) by simp_all
    have "\<forall>a \<in> set im. in_money_at i p1 a" using True nxt length_filter_less [of _ im "in_money_at i p1"] by (metis less_irrefl)
    then show ?thesis using p1 pot cnt Suc.prems(3,4) by (simp add: priced_def r)
  next
    case False
    have "length nxt \<le> length im" using nxt by simp
    then have l: "length nxt < k" using False Suc.prems(2) by simp
    have "\<exists>q. nxt = filter q (wi_awards i)" unfolding nxt q filter_filter by blast
    moreover have "\<forall>a \<in> set nxt. live_award a" using Suc.prems(4) nxt by auto
    moreover have "in_money_loop k i cs ss av capped nxt p1 = Inr (p, im')" using s(5) False by simp
    ultimately show ?thesis using Suc.IH l by blast
  qed
qed simp

section \<open>Caps\<close>

lemma cap_step_bounds:
  assumes "cap_step cv prefs p (capped, g) c = Inr (capped', g')" "sane_class c" "purse prefs" "nonneg p" "purse capped"
  shows "purse capped' \<and> (capped' = capped \<and> g' = g
    \<or> (\<exists>r. wc_shareClassId c \<notin> fst ` set capped \<and> capped' = capped @ [(wc_shareClassId c, r)] \<and> g' \<and> nonneg r \<and> val r \<le> val p * class_units c))"
proof (cases "capped' = capped \<and> g' = g")
  case False
  let ?k = "wc_shareClassId c"
  have n: "map_of capped ?k = None" "?k \<notin> set cv" using assms(1) False by (auto simp: cap_step_def split: if_splits)
  then obtain co where co: "capOf c = Inr co" using assms(1) by (auto simp: cap_step_def bindE_Inr_iff)
  obtain cap where cap0: "co = Some cap" using assms(1) False n co by (cases co) (simp_all add: cap_step_def)
  have s0: "bindE (asConverted c) (\<lambda>u. bindE (multiplyRational p u) (\<lambda>part. bindE (addRational (get prefs ?k) part) (\<lambda>t.
      if compareRational t cap > 0 then bindE (subtractRational cap (get prefs ?k)) (\<lambda>room. Inr (AList.update ?k (if compareRational room ZERO > 0 then room else ZERO) capped, True))
      else Inr (capped, g)))) = Inr (capped', g')" using assms(1) n co by (simp add: cap_step_def cap0 Let_def)
  then obtain u part t where s1: "asConverted c = Inr u" "multiplyRational p u = Inr part" "addRational (get prefs ?k) part = Inr t" unfolding bindE_Inr_iff by blast
  have gt: "compareRational t cap > 0" using s0 s1 False by (auto split: if_splits)
  then obtain room where s2: "subtractRational cap (get prefs ?k) = Inr room" "capped' = AList.update ?k (if compareRational room ZERO > 0 then room else ZERO) capped" "g'"
    using s0 s1 by (auto simp: bindE_Inr_iff)
  note s = n(1) co [unfolded cap0] s1 gt s2
  have fresh: "?k \<notin> fst ` set capped" using s(1) by (simp add: map_of_eq_None_iff)
  note pr = purse_get [OF assms(3), of ?k]
  have u: "ok u" "val u = class_units c" using asConverted_val [OF assms(2) s(3)] by simp_all
  have pt: "ok part" "val part = val p * class_units c" using op_values(3) [OF _ u(1) s(4)] assms(4) u(2) by simp_all
  have t: "ok t" "val t = val (get prefs ?k) + val part" using op_values(1) [OF _ pt(1) s(5)] pr by simp_all
  have cap: "ok cap" using capOf_val [OF assms(2) s(2)] by simp
  have lt: "val cap < val t" using s(6) compare_vals [OF t(1) cap] by (simp split: if_splits)
  have room: "ok room" "val room = val cap - val (get prefs ?k)" using op_values(2) [OF cap _ s(7)] pr by simp_all
  define r where "r = (if compareRational room ZERO > 0 then room else ZERO)"
  have "0 \<le> val p * class_units c" using assms(4) class_units_nonneg [OF assms(2)] by simp
  then have r: "nonneg r" "val r \<le> val p * class_units c" using room lt t(2) pt(2) compare_vals [OF room(1) const_vals(1)] by (auto simp: r_def split: if_splits)
  have "capped' = capped @ [(?k, r)]" using s(8) update_fresh [OF fresh] by (simp add: r_def)
  then show ?thesis using r s(9) fresh purse_snoc [OF assms(5) fresh, of r] by auto
qed (use assms(5) in simp)

lemma open_units_Cons: "open_units capped (c # cs) = (if map_of capped (wc_shareClassId c) = None then class_units c else 0) + open_units capped cs"
  by (simp add: open_units_def)

lemma open_units_fresh: "k \<notin> wc_shareClassId ` set cs \<Longrightarrow> open_units (capped @ [(k, r)]) cs = open_units capped cs"
proof -
  assume "k \<notin> wc_shareClassId ` set cs"
  then have "filter (\<lambda>c. map_of (capped @ [(k, r)]) (wc_shareClassId c) = None) cs = filter (\<lambda>c. map_of capped (wc_shareClassId c) = None) cs"
    by (intro filter_cong) (auto simp: map_add_def split: option.splits)
  then show ?thesis by (simp add: open_units_def)
qed

lemma cap_fold_bounds:
  assumes "foldE (cap_step cv prefs p) (capped, g) cs = Inr (capped', g')" "\<forall>c \<in> set cs. sane_class c" "purse prefs" "nonneg p" "purse capped" "distinct (map wc_shareClassId cs)"
  shows "purse capped' \<and> tot capped' \<le> tot capped + val p * open_units capped cs \<and> fst ` set capped' \<subseteq> fst ` set capped \<union> wc_shareClassId ` set cs
    \<and> (g' = g \<and> capped' = capped \<or> g' \<and> length capped < length capped')
    \<and> (\<forall>(k, r) \<in> set capped'. (k, r) \<in> set capped \<or> (\<exists>c \<in> set cs. wc_shareClassId c = k \<and> val r \<le> val p * class_units c))"
  using assms(1,2,5,6)
proof (induction cs arbitrary: capped g)
  case (Cons c cs)
  obtain capped1 g1 where s: "cap_step cv prefs p (capped, g) c = Inr (capped1, g1)" "foldE (cap_step cv prefs p) (capped1, g1) cs = Inr (capped', g')"
    using Cons.prems(1) by (auto simp: bindE_Inr_iff)
  have sc: "sane_class c" "\<forall>c \<in> set cs. sane_class c" using Cons.prems(2) by simp_all
  have d: "distinct (map wc_shareClassId cs)" "wc_shareClassId c \<notin> wc_shareClassId ` set cs" using Cons.prems(4) by simp_all
  note step = cap_step_bounds [OF s(1) sc(1) assms(3,4) Cons.prems(3)]
  then have "purse capped1" by simp
  note ih = Cons.IH [OF s(2) sc(2) this d(1)]
  have nn: "0 \<le> val p * class_units c" using assms(4) class_units_nonneg [OF sc(1)] by simp
  from step consider "capped1 = capped" "g1 = g" | r where "wc_shareClassId c \<notin> fst ` set capped" "capped1 = capped @ [(wc_shareClassId c, r)]" "g1" "val r \<le> val p * class_units c" by blast
  then show ?case
  proof cases
    case 1
    have "tot capped' \<le> tot capped + val p * open_units capped (c # cs)" using ih nn by (auto simp: 1 open_units_Cons distrib_left)
    then show ?thesis using ih by (auto simp: 1)
  next
    case 2
    have "map_of capped (wc_shareClassId c) = None" using 2(1) by (simp add: map_of_eq_None_iff)
    then have "tot capped' \<le> tot capped + val p * open_units capped (c # cs)" using ih 2(4) open_units_fresh [OF d(2), of capped r] by (simp add: 2(2) open_units_Cons distrib_left)
    moreover have "fst ` set capped' \<subseteq> fst ` set capped \<union> wc_shareClassId ` set (c # cs)" using ih by (simp add: 2(2))
    moreover have "g' \<and> length capped < length capped'" using ih 2(3) by (auto simp: 2(2))
    moreover have "\<forall>(k, r) \<in> set capped'. (k, r) \<in> set capped \<or> (\<exists>c \<in> set (c # cs). wc_shareClassId c = k \<and> val r \<le> val p * class_units c)"
      using ih 2(4) by (auto simp: 2(2))
    ultimately show ?thesis using ih by blast
  qed
qed (simp add: open_units_def)

lemma strikes_covered: "\<forall>a \<in> set im. live_award a \<and> in_money_at i p a \<Longrightarrow> strikes_value im \<le> val p * units_value i im"
proof -
  assume im: "\<forall>a \<in> set im. live_award a \<and> in_money_at i p a"
  have "strike_value a \<le> val p * award_units i a" if "a \<in> set im" for a
  proof -
    have a: "0 \<le> (of_int (wa_shares a) :: rat)" "val (wa_strike a) \<le> val p * val (ratioByClass i (wa_shareClassId a))"
      using im that by (auto simp: live_award_def in_money_at_def)
    from mult_left_mono [OF a(2) a(1)] show ?thesis by (simp add: strike_value_def award_units_def algebra_simps)
  qed
  then have "strikes_value im \<le> (\<Sum>a\<leftarrow>im. val p * award_units i a)" unfolding strikes_value_def by (rule sum_list_mono)
  then show ?thesis by (simp add: units_value_def sum_list_const_mult)
qed

lemma priced_room: "priced i cs ss av capped p im \<Longrightarrow> purse ss \<Longrightarrow> tot capped + val p * open_units capped cs \<le> av"
proof -
  assume p: "priced i cs ss av capped p im" "purse ss"
  have "strikes_value im \<le> val p * units_value i im" by (rule strikes_covered) (use p in \<open>simp add: priced_def\<close>)
  moreover have "0 \<le> val p * tot ss" using p(1) purse_tot_nonneg [OF p(2)] by (simp add: priced_def)
  ultimately show ?thesis using p(1) by (simp add: priced_def distrib_left)
qed

lemma purse_map_of: "purse m \<Longrightarrow> (k, r) \<in> set m \<Longrightarrow> map_of m k = Some r"
  by (simp add: purse_def)

lemma capped_length: "purse m \<Longrightarrow> fst ` set m \<subseteq> f ` set cs \<Longrightarrow> length m \<le> length cs"
proof -
  assume m: "purse m" "fst ` set m \<subseteq> f ` set cs"
  have "length m = card (fst ` set m)" using m(1) distinct_card [of "map fst m"] by (simp add: purse_def)
  also have "\<dots> \<le> card (f ` set cs)" using m(2) by (intro card_mono) simp_all
  also have "\<dots> \<le> card (set cs)" by (rule card_image_le) simp
  also have "\<dots> \<le> length cs" by (rule card_length)
  finally show ?thesis .
qed

lemma cap_loop_priced:
  assumes "cap_loop fuel i cv cs ss prefs av capped p0 im0 = Inr (capped', p, im)" "length cs < fuel + length capped"
    "\<forall>c \<in> set (wi_classes i). sane_class c" "\<forall>c \<in> set cs. sane_class c" "distinct (map wc_shareClassId cs)" "\<forall>a \<in> set (wi_awards i). nonneg (wa_strike a)"
    "purse ss" "purse prefs" "ok av" "purse capped" "tot capped \<le> val av" "fst ` set capped \<subseteq> wc_shareClassId ` set cs"
    "\<forall>c \<in> set cs. class_units c = 0 \<longrightarrow> val (get capped (wc_shareClassId c)) = 0"
  shows "purse capped' \<and> fst ` set capped' \<subseteq> wc_shareClassId ` set cs \<and> priced i cs ss (val av) capped' p im \<and> tot capped' \<le> val av
    \<and> (\<forall>c \<in> set cs. class_units c = 0 \<longrightarrow> val (get capped' (wc_shareClassId c)) = 0)"
  using assms(1,2,10-13)
proof (induction fuel arbitrary: capped p0 im0)
  case 0
  then show ?case using capped_length [OF 0(3,5)] by simp
next
  case (Suc k)
  let ?live = "filter (\<lambda>a. wa_shares a > 0) (wi_awards i)"
  obtain p1 im1 capped1 grew where s: "in_money_loop (length (wi_awards i) + 2) i cs ss av capped ?live p0 = Inr (p1, im1)" "foldE (cap_step cv prefs p1) (capped, False) cs = Inr (capped1, grew)"
      "(if \<not> grew then Inr (capped1, p1, im1) else cap_loop k i cv cs ss prefs av capped1 p1 im1) = Inr (capped', p, im)"
    using Suc.prems(1) by (auto simp: bindE_Inr_iff)
  have "length ?live < length (wi_awards i) + 2" using length_filter_le [of "\<lambda>a. wa_shares a > 0" "wi_awards i"] by linarith
  moreover have "\<forall>a \<in> set ?live. live_award a" using assms(6) by (simp add: live_award_def)
  ultimately have pr: "priced i cs ss (val av) capped p1 im1"
    using in_money_loop_priced [OF s(1) _ assms(3,4,7) Suc.prems(3) assms(9) Suc.prems(4)] by blast
  then have p1: "nonneg p1" by (simp add: priced_def)
  have c: "purse capped1" "tot capped1 \<le> tot capped + val p1 * open_units capped cs" "fst ` set capped1 \<subseteq> fst ` set capped \<union> wc_shareClassId ` set cs"
      "grew = False \<and> capped1 = capped \<or> grew \<and> length capped < length capped1"
      "\<forall>(k, r) \<in> set capped1. (k, r) \<in> set capped \<or> (\<exists>c \<in> set cs. wc_shareClassId c = k \<and> val r \<le> val p1 * class_units c)"
    using cap_fold_bounds [OF s(2) assms(4,8) p1 Suc.prems(3) assms(5)] by blast+
  show ?case
  proof (cases grew)
    case False
    then show ?thesis using s(3) c(4) pr Suc.prems(3-6) by auto
  next
    case True
    have t: "tot capped1 \<le> val av" using c(2) priced_room [OF pr assms(7)] by linarith
    have z: "val (get capped1 (wc_shareClassId c)) = 0" if w: "c \<in> set cs" "class_units c = 0" for c
    proof (cases "map_of capped1 (wc_shareClassId c)")
      case (Some r)
      then have m: "(wc_shareClassId c, r) \<in> set capped1" by (rule map_of_SomeD)
      have nn: "0 \<le> val r" using purse_get [OF c(1), of "wc_shareClassId c"] Some by simp
      from c(5) m consider "(wc_shareClassId c, r) \<in> set capped" | c' where "c' \<in> set cs" "wc_shareClassId c' = wc_shareClassId c" "val r \<le> val p1 * class_units c'" by fastforce
      then show ?thesis
      proof cases
        case 1
        then show ?thesis using purse_map_of [OF Suc.prems(3) 1] Suc.prems(6) w Some by auto
      next
        case 2
        have "inj_on wc_shareClassId (set cs)" using assms(5) by (simp add: distinct_map)
        then have "c' = c" using 2(2,1) w(1) by (rule inj_onD)
        then show ?thesis using 2(3) w(2) nn Some by simp
      qed
    qed simp
    have "length cs < k + length capped1" using Suc.prems(2) c(4) True by auto
    moreover have "fst ` set capped1 \<subseteq> wc_shareClassId ` set cs" using c(3) Suc.prems(5) by blast
    moreover have "cap_loop k i cv cs ss prefs av capped1 p1 im1 = Inr (capped', p, im)" using s(3) True by simp
    ultimately show ?thesis using Suc.IH c(1) t z by blast
  qed
qed

section \<open>What is taken at the price\<close>

definition taken_value :: "amounts \<Rightarrow> Rational \<Rightarrow> waterfall_class \<Rightarrow> rat" where
  "taken_value capped p c = (case map_of capped (wc_shareClassId c) of Some r \<Rightarrow> val r | None \<Rightarrow> val p * class_units c)"

lemma taken_value_split: "taken_value capped p c = val (get capped (wc_shareClassId c)) + val p * (if map_of capped (wc_shareClassId c) = None then class_units c else 0)"
  by (cases "map_of capped (wc_shareClassId c)") (simp_all add: taken_value_def)

lemma taken_value_total:
  assumes "distinct (map wc_shareClassId cs)" "purse capped" "fst ` set capped \<subseteq> wc_shareClassId ` set cs"
  shows "(\<Sum>c\<leftarrow>cs. taken_value capped p c) = tot capped + val p * open_units capped cs"
proof -
  have "(\<Sum>c\<leftarrow>cs. val (get capped (wc_shareClassId c))) = tot capped"
    using tot_lookup [OF assms(2), of "map wc_shareClassId cs"] assms(1,3) by (simp add: o_def)
  moreover have "(\<Sum>c\<leftarrow>cs. if map_of capped (wc_shareClassId c) = None then class_units c else 0) = open_units capped cs"
    by (simp only: open_units_def sum_list_map_filter')
  ultimately show ?thesis by (simp only: taken_value_split sum_list_addf sum_list_const_mult)
qed

lemma class_shares_total:
  assumes "class_shares capped p cs = Inr cp" "\<forall>c \<in> set cs. sane_class c" "distinct (map wc_shareClassId cs)" "nonneg p" "purse capped" "fst ` set capped \<subseteq> wc_shareClassId ` set cs"
    "\<forall>c \<in> set cs. class_units c = 0 \<longrightarrow> val (get capped (wc_shareClassId c)) = 0"
  shows "purse cp \<and> tot cp = tot capped + val p * open_units capped cs \<and> fst ` set cp = wc_shareClassId ` set cs
    \<and> (\<forall>c \<in> set cs. class_units c = 0 \<longrightarrow> val (get cp (wc_shareClassId c)) = 0)"
proof -
  define g where "g = taken_value capped p"
  have v: "ok y \<and> val y = g c" if w: "c \<in> set cs" "(case map_of capped (wc_shareClassId c) of Some r \<Rightarrow> Inr r | None \<Rightarrow> bindE (asConverted c) (multiplyRational p)) = Inr y" for c y
  proof (cases "map_of capped (wc_shareClassId c)")
    case None
    then obtain u where u: "asConverted c = Inr u" "multiplyRational p u = Inr y" using w(2) by (auto simp: bindE_Inr_iff)
    have "ok u \<and> val u = class_units c" using asConverted_val [OF _ u(1)] assms(2) w(1) by simp
    then show ?thesis using op_values(3) [OF _ _ u(2)] assms(4) None by (simp add: g_def taken_value_def)
  next
    case (Some r)
    then show ?thesis using w(2) purse_get [OF assms(5), of "wc_shareClassId c"] by (simp add: g_def taken_value_def)
  qed
  have nn: "0 \<le> g c" if "c \<in> set cs" for c
    using purse_get [OF assms(5), of "wc_shareClassId c"] assms(2,4) that class_units_nonneg [of c] by (simp add: g_def taken_value_split)
  have e: "wc_shareClassId ` set cs \<inter> fst ` set ([] :: amounts) = {}" by simp
  note u = foldE_update [where g = g, OF assms(1) [unfolded class_shares_def] _ _ assms(3) e purse_Nil]
  have "purse cp \<and> tot cp = tot ([] :: amounts) + (\<Sum>c\<leftarrow>cs. g c) \<and> fst ` set cp = fst ` set ([] :: amounts) \<union> wc_shareClassId ` set cs
      \<and> (\<forall>c \<in> set cs. \<exists>r. map_of cp (wc_shareClassId c) = Some r \<and> ok r \<and> val r = g c)" using u v nn by blast
  then have r: "purse cp" "tot cp = (\<Sum>c\<leftarrow>cs. g c)" "fst ` set cp = wc_shareClassId ` set cs" "\<forall>c \<in> set cs. \<exists>r. map_of cp (wc_shareClassId c) = Some r \<and> ok r \<and> val r = g c"
    by simp_all
  have t: "tot cp = tot capped + val p * open_units capped cs" using r(2) taken_value_total [OF assms(3,5,6)] by (simp only: g_def)
  have "val (get cp (wc_shareClassId c)) = 0" if "c \<in> set cs" "class_units c = 0" for c
  proof -
    have "g c = 0" using that assms(7) by (cases "map_of capped (wc_shareClassId c)") (auto simp: g_def taken_value_def)
    moreover obtain r where "map_of cp (wc_shareClassId c) = Some r" "val r = g c" using r(4) \<open>c \<in> set cs\<close> by blast
    ultimately show ?thesis by simp
  qed
  then show ?thesis using r(1,3) t by (intro conjI ballI impI) simp_all
qed

lemma award_gross_total:
  assumes "award_gross i p im = Inr gr" "\<forall>c \<in> set (wi_classes i). sane_class c" "nonneg p" "\<forall>a \<in> set im. live_award a" "distinct (map wa_securityId im)"
  shows "purse gr \<and> tot gr = val p * units_value i im \<and> fst ` set gr = wa_securityId ` set im
    \<and> (\<forall>a \<in> set im. \<exists>r. map_of gr (wa_securityId a) = Some r \<and> ok r \<and> val r = val p * award_units i a)"
proof -
  have v: "ok y \<and> val y = val p * award_units i a" if w: "bindE (awardUnits i a) (multiplyRational p) = Inr y" for a y
  proof -
    obtain u where u: "awardUnits i a = Inr u" "multiplyRational p u = Inr y" using w by (auto simp: bindE_Inr_iff)
    show ?thesis using op_values(3) [OF _ _ u(2)] awardUnits_val [OF assms(2) u(1)] assms(3) by simp
  qed
  have nn: "0 \<le> val p * award_units i a" if "a \<in> set im" for a
    using assms(3,4) that ratio_nonneg [OF assms(2), of "wa_shareClassId a"] by (auto simp: award_units_def live_award_def intro!: mult_nonneg_nonneg)
  have "foldE (\<lambda>out a. bindE (bindE (awardUnits i a) (multiplyRational p)) (\<lambda>r. Inr (AList.update (wa_securityId a) r out))) [] im = Inr gr"
    using assms(1) by (simp add: award_gross_def bindE_assoc)
  from foldE_update [where g = "\<lambda>a. val p * award_units i a", OF this v nn assms(5)]
  show ?thesis by (simp add: units_value_def sum_list_const_mult)
qed

lemma pay_safe_shares_total:
  assumes "pay_safe_shares p ss conv = Inr conv'" "nonneg p" "purse ss" "purse conv" "fst ` set ss \<inter> fst ` set conv = {}"
  shows "purse conv' \<and> tot conv' = tot conv + val p * tot ss \<and> fst ` set conv' = fst ` set conv \<union> fst ` set ss
    \<and> (\<forall>x \<in> set ss. ok (get conv' (fst x)) \<and> val (get conv' (fst x)) = val p * val (snd x))"
proof -
  have s: "ok (snd x) \<and> 0 \<le> val (snd x)" if "x \<in> set ss" for x using assms(3) that by (auto simp: purse_def)
  have f: "(\<lambda>out (k, s). bindE (multiplyRational p s) (\<lambda>r. Inr (AList.update k r out))) = (\<lambda>out x. bindE (multiplyRational p (snd x)) (\<lambda>r. Inr (AList.update (fst x) r out)))"
    by (simp add: fun_eq_iff)
  have v: "ok y \<and> val y = val p * val (snd x)" if w: "x \<in> set ss" "multiplyRational p (snd x) = Inr y" for x y
    using op_values(3) [OF _ _ w(2)] s [OF w(1)] assms(2) by simp
  have nn: "0 \<le> val p * val (snd x)" if "x \<in> set ss" for x using s [OF that] assms(2) by simp
  have d: "distinct (map fst ss)" using assms(3) by (simp add: purse_def)
  note u = foldE_update [where g = "\<lambda>x. val p * val (snd x)", OF assms(1) [unfolded pay_safe_shares_def f] _ _ d assms(5,4)]
  have r: "purse conv'" "tot conv' = tot conv + (\<Sum>x\<leftarrow>ss. val p * val (snd x))" "fst ` set conv' = fst ` set conv \<union> fst ` set ss"
      "\<forall>x \<in> set ss. \<exists>r. map_of conv' (fst x) = Some r \<and> ok r \<and> val r = val p * val (snd x)" using u v nn by blast+
  have "ok (get conv' (fst x)) \<and> val (get conv' (fst x)) = val p * val (snd x)" if "x \<in> set ss" for x using r(4) that by force
  then show ?thesis using r(1-3) by (simp add: tot_def sum_list_const_mult)
qed

lemma unallocated_val:
  assumes "unallocated_of av im cp gr conv ss = Inr un" "ok av" "\<forall>a \<in> set im. live_award a" "purse cp" "purse gr"
    "\<forall>x \<in> set ss. ok (get conv (fst x)) \<and> val (get conv (fst x)) = val p * val (snd x)" "tot cp + tot gr + val p * tot ss \<le> val av + strikes_value im"
  shows "nonneg un \<and> val un = val av + strikes_value im - (tot cp + tot gr + val p * tot ss)"
proof -
  obtain st a b ab c di pool left where s: "sum_of awardStrike im = Inr st" "sumRational (map snd cp) = Inr a" "sumRational (map snd gr) = Inr b" "addRational a b = Inr ab"
      "sumRational (map (\<lambda>(k, _). get conv k) ss) = Inr c" "addRational ab c = Inr di" "addRational av st = Inr pool" "subtractRational pool di = Inr left"
      "un = (if compareRational left ZERO > 0 then left else ZERO)"
    using assms(1) by (auto simp: unallocated_of_def bindE_Inr_iff)
  have st: "ok st \<and> val st = strikes_value im" unfolding strikes_value_def
    by (rule sum_of_val [OF s(1)]) (use assms(3) in \<open>auto simp: live_award_def dest!: awardStrike_val [rotated]\<close>)
  have ab: "ok ab \<and> val ab = tot cp + tot gr" using op_values(1) [OF _ _ s(4)] purse_sum [OF assms(4) s(2)] purse_sum [OF assms(5) s(3)] by simp
  have "ok c \<and> val c = (\<Sum>x\<leftarrow>map (\<lambda>(k, _). get conv k) ss. val x)" by (rule sumRational_val [OF s(5)]) (use assms(6) in force)
  also have "(\<Sum>x\<leftarrow>map (\<lambda>(k, _). get conv k) ss. val x) = (\<Sum>x\<leftarrow>ss. val p * val (snd x))"
    unfolding map_map by (rule arg_cong [of _ _ sum_list], rule map_cong [OF refl]) (use assms(6) in \<open>simp add: case_prod_beta\<close>)
  finally have c: "ok c \<and> val c = val p * tot ss" by (simp add: tot_def sum_list_const_mult)
  have di: "ok di \<and> val di = tot cp + tot gr + val p * tot ss" using op_values(1) [OF _ _ s(6)] ab c by simp
  have pool: "ok pool \<and> val pool = val av + strikes_value im" using op_values(1) [OF assms(2) _ s(7)] st by simp
  have "ok left \<and> val left = val av + strikes_value im - (tot cp + tot gr + val p * tot ss)" using op_values(2) [OF _ _ s(8)] di pool by simp
  then show ?thesis using assms(7) by (auto simp: s(9) compare_vals)
qed

section \<open>A distribution gives away what there is\<close>

definition cap_sound :: "waterfall_convertible \<Rightarrow> bool" where
  "cap_sound v \<longleftrightarrow> nonneg (wv_amount v) \<and> (\<exists>c. wv_cap v = Some c \<and> ok c \<and> 0 < val c)"

lemma safe_claims_nonneg:
  assumes "foldE (safe_claims base) (fx, cl) safes = Inr (fx', cl')" "\<forall>v \<in> set safes. cap_sound v" "nonneg base" "nonneg fx" "nonneg cl"
  shows "nonneg fx' \<and> nonneg cl'"
  using assms(1,2,4,5)
proof (induction safes arbitrary: fx cl)
  case (Cons v safes)
  obtain fx1 cl1 where s: "safe_claims base (fx, cl) v = Inr (fx1, cl1)" "foldE (safe_claims base) (fx1, cl1) safes = Inr (fx', cl')" using Cons.prems(1) by (auto simp: bindE_Inr_iff)
  obtain c where c: "nonneg (wv_amount v)" "wv_cap v = Some c" "ok c" "0 < val c" using Cons.prems(2) by (auto simp: cap_sound_def)
  have "nonneg fx1 \<and> nonneg cl1"
  proof (cases "wv_postMoney v")
    case True
    then obtain q where q: "divideRational (wv_amount v) c = Inr q" "addRational cl q = Inr cl1" "fx1 = fx" using s(1) c(2) by (auto simp: safe_claims_def bindE_Inr_iff)
    have "nonneg q" using op_values(4) [OF _ c(3) q(1)] c by simp
    then show ?thesis using op_values(1) [OF _ _ q(2)] Cons.prems(3,4) q(3) by simp
  next
    case False
    then obtain q m where q: "divideRational base c = Inr q" "multiplyRational (wv_amount v) q = Inr m" "addRational fx m = Inr fx1" "cl1 = cl"
      using s(1) c(2) by (auto simp: safe_claims_def bindE_Inr_iff)
    have "nonneg q" using op_values(4) [OF _ c(3) q(1)] c assms(3) by simp
    then have "nonneg m" using op_values(3) [OF _ _ q(2)] c(1) by simp
    then show ?thesis using op_values(1) [OF _ _ q(3)] Cons.prems(3,4) q(4) by simp
  qed
  then show ?case using Cons.IH [OF s(2)] Cons.prems(2) by simp
qed simp

definition safe_share_value :: "Rational \<Rightarrow> Rational \<Rightarrow> waterfall_convertible \<Rightarrow> rat" where
  "safe_share_value base q v = (if wv_postMoney v then val (wv_amount v) / val (or_else (wv_cap v) ZERO) * val q else val (wv_amount v) * (val base / val (or_else (wv_cap v) ZERO)))"

lemma safe_share_val: "safe_share base q v = Inr r \<Longrightarrow> cap_sound v \<Longrightarrow> nonneg base \<Longrightarrow> nonneg q \<Longrightarrow> ok r \<and> val r = safe_share_value base q v"
proof -
  assume r: "safe_share base q v = Inr r" and v: "cap_sound v" and b: "nonneg base" and q: "nonneg q"
  obtain c where c: "nonneg (wv_amount v)" "wv_cap v = Some c" "ok c" "0 < val c" using v by (auto simp: cap_sound_def)
  show ?thesis
  proof (cases "wv_postMoney v")
    case True
    then obtain d where d: "divideRational (wv_amount v) c = Inr d" "multiplyRational d q = Inr r" using r c(2) by (auto simp: safe_share_def bindE_Inr_iff)
    show ?thesis using op_values(3) [OF _ _ d(2)] op_values(4) [OF _ c(3) d(1)] c(1,2) q True by (simp add: safe_share_value_def)
  next
    case False
    then obtain d where d: "divideRational base c = Inr d" "multiplyRational (wv_amount v) d = Inr r" using r c(2) by (auto simp: safe_share_def bindE_Inr_iff)
    show ?thesis using op_values(3) [OF _ _ d(2)] op_values(4) [OF _ c(3) d(1)] c(1,2) b False by (simp add: safe_share_value_def)
  qed
qed

lemma MAX_claim_val [simp]: "ok MAX_CONVERTING_CLAIM" "val MAX_CONVERTING_CLAIM = 19 / 20"
  by (simp_all add: MAX_CONVERTING_CLAIM_def canonical_rational_def rational_value_def coprime_iff_gcd_eq_1 gcd_non_0_int)

lemma liquidity_base_ok: "liquidity_base i = Inr b \<Longrightarrow> \<forall>c \<in> set (wi_classes i). sane_class c \<Longrightarrow> ok b"
proof -
  assume b: "liquidity_base i = Inr b" and s: "\<forall>c \<in> set (wi_classes i). sane_class c"
  obtain x y where xy: "sum_of asConverted (wi_classes i) = Inr x" "sum_of (awardUnits i) (wi_awards i) = Inr y" "addRational x y = Inr b" using b by (auto simp: liquidity_base_def bindE_Inr_iff)
  have "ok x" using sum_of_val [OF xy(1), of class_units] s asConverted_val by blast
  moreover have "ok y" using sum_of_val [OF xy(2) awardUnits_val [OF s]] by simp
  ultimately show ?thesis using op_values(1) [OF _ _ xy(3)] by simp
qed

lemma safe_shares_purse:
  assumes "safeConversionShares i cv = Inr (Some ss)" "sane i"
  shows "purse ss \<and> fst ` set ss \<subseteq> wv_securityId ` {v \<in> set (wi_convertibles i). wv_kind v = Safe}"
proof -
  define safes where "safes = filter (\<lambda>v. wv_kind v = Safe \<and> wv_cap v \<noteq> None \<and> wv_securityId v \<in> set cv) (wi_convertibles i)"
  have sc: "\<forall>c \<in> set (wi_classes i). sane_class c" "\<forall>v \<in> set safes. cap_sound v" "distinct (map wv_securityId safes)"
    using assms(2) by (auto simp: sane_def safes_def cap_sound_def pred_option_def intro!: distinct_map_filter)
  show ?thesis
  proof (cases "safes = []")
    case True
    then show ?thesis using assms(1) unfolding safeConversionShares_def Let_def safes_def [symmetric] by simp
  next
    case False
    note e = assms(1) [unfolded safeConversionShares_def Let_def safes_def [symmetric] if_not_P [OF False]]
    then obtain base where b: "liquidity_base i = Inr base" by (auto simp: bindE_Inr_iff)
    have bp: "0 < numerator base" using e b by (auto split: if_splits)
    obtain fixed claim where fc: "foldE (safe_claims base) (ZERO, ZERO) safes = Inr (fixed, claim)" using e b bp by (auto simp: bindE_Inr_iff)
    have lt: "compareRational claim MAX_CONVERTING_CLAIM < 0" using e b bp fc by (auto split: if_splits)
    obtain n d q where f: "addRational base fixed = Inr n" "subtractRational ONE claim = Inr d" "divideRational n d = Inr q"
        "foldE (\<lambda>out safe. bindE (safe_share base q safe) (\<lambda>s. Inr (AList.update (wv_securityId safe) s out))) [] safes = Inr ss"
      using e b bp fc lt by (auto simp: bindE_Inr_iff)
    have base: "nonneg base" using bp numerator_signs(3) liquidity_base_ok [OF b sc(1)] by (simp add: less_imp_le)
    have fcl: "nonneg fixed" "nonneg claim" using safe_claims_nonneg [OF fc sc(2) base] by simp_all
    have "val claim < 1" using lt compare_vals [OF _ MAX_claim_val(1), of claim] fcl(2) by (auto split: if_splits)
    then have d: "ok d" "0 < val d" using op_values(2) [OF const_vals(3) _ f(2)] fcl(2) by simp_all
    have n: "nonneg n" using op_values(1) [OF _ _ f(1)] base fcl(1) by simp
    have q: "nonneg q" using op_values(4) [OF _ d(1) f(3)] n d(2) by simp
    have g: "0 \<le> safe_share_value base q v" if "v \<in> set safes" for v
      using sc(2) that base q by (auto simp: safe_share_value_def cap_sound_def)
    have v: "ok r \<and> val r = safe_share_value base q v" if "v \<in> set safes" "safe_share base q v = Inr r" for v r
      using safe_share_val [OF that(2) _ base q] sc(2) that(1) by simp
    have "purse ss \<and> fst ` set ss = wv_securityId ` set safes" using foldE_update [where g = "safe_share_value base q", OF f(4) _ _ sc(3) _ purse_Nil] v g by simp
    then show ?thesis by (auto simp: safes_def)
  qed
qed

text \<open>A distribution that gives away exactly \<open>amount\<close>: class by class, award by award (net of its strike), convertible by convertible, and the rest.\<close>

definition gives_away :: "waterfall_input \<Rightarrow> distribution \<Rightarrow> waterfall_award list \<Rightarrow> rat \<Rightarrow> bool" where
  "gives_away i d im amount \<longleftrightarrow>
     purse (di_classPreference d) \<and> fst ` set (di_classPreference d) \<subseteq> wc_shareClassId ` {c \<in> set (wi_classes i). 0 < basis_value c}
   \<and> purse (di_classParticipation d) \<and> fst ` set (di_classParticipation d) \<subseteq> wc_shareClassId ` set (wi_classes i)
   \<and> (\<forall>c \<in> set (wi_classes i). sharesOf c = 0 \<longrightarrow> val (get (di_classParticipation d) (wc_shareClassId c)) = 0)
   \<and> purse (di_convertiblePaid d) \<and> fst ` set (di_convertiblePaid d) \<subseteq> wv_securityId ` set (wi_convertibles i) \<and> nonneg (di_unallocated d)
   \<and> (\<exists>q. im = filter q (wi_awards i)) \<and> purse (di_awardGross d) \<and> fst ` set (di_awardGross d) = wa_securityId ` set im
   \<and> (\<forall>a \<in> set im. \<exists>r. map_of (di_awardGross d) (wa_securityId a) = Some r \<and> ok r \<and> strike_value a \<le> val r)
   \<and> tot (di_classPreference d) + tot (di_classParticipation d) + (tot (di_awardGross d) - strikes_value im) + tot (di_convertiblePaid d) + val (di_unallocated d) = amount"

lemma keeps_preference_val: "keeps_preference cv c = Inr b \<Longrightarrow> sane_class c \<Longrightarrow> b \<Longrightarrow> 0 < basis_value c"
  by (auto simp: keeps_preference_def bindE_Inr_iff numerator_signs dest!: preferenceOf_val [rotated] split: if_splits)

lemma filterE_sub:
  assumes "filterE p xs = Inr ys"
  shows "\<exists>q. ys = filter q xs" and "\<forall>y \<in> set ys. p y = Inr True"
proof -
  define q where "q x = (p x = Inr True)" for x
  have y: "ys = filter q xs" by (rule filterE_filter [OF assms]) (simp add: q_def)
  show "\<exists>q. ys = filter q xs" using y by blast
  show "\<forall>y \<in> set ys. p y = Inr True" unfolding y by (simp add: q_def)
qed

lemma residual_conserves:
  assumes "cap_loop (length cs + 2) i cv cs ss prefs av [] ZERO [] = Inr (capped, p, im)" "class_shares capped p cs = Inr cp" "award_gross i p im = Inr gr"
    "pay_safe_shares p ss conv = Inr conv'" "unallocated_of av im cp gr conv' ss = Inr un"
    "sane i" "\<exists>q. cs = filter q (wi_classes i)" "purse ss" "purse prefs" "purse conv" "nonneg av" "fst ` set ss \<inter> fst ` set conv = {}"
  shows "purse cp" "fst ` set cp = wc_shareClassId ` set cs" "\<forall>c \<in> set cs. class_units c = 0 \<longrightarrow> val (get cp (wc_shareClassId c)) = 0"
    "purse conv'" "fst ` set conv' = fst ` set conv \<union> fst ` set ss" "nonneg un" "\<exists>q. im = filter q (wi_awards i)" "purse gr" "fst ` set gr = wa_securityId ` set im"
    "\<forall>a \<in> set im. \<exists>r. map_of gr (wa_securityId a) = Some r \<and> ok r \<and> strike_value a \<le> val r"
    "tot cp + (tot gr - strikes_value im) + tot conv' + val un = val av + tot conv"
proof -
  have sc: "\<forall>c \<in> set (wi_classes i). sane_class c" "\<forall>c \<in> set cs. sane_class c" "distinct (map wc_shareClassId cs)" "\<forall>a \<in> set (wi_awards i). nonneg (wa_strike a)"
    using assms(6,7) by (auto simp: sane_def intro!: distinct_map_filter)
  have c: "purse capped" "fst ` set capped \<subseteq> wc_shareClassId ` set cs" "priced i cs ss (val av) capped p im" "tot capped \<le> val av"
      "\<forall>c \<in> set cs. class_units c = 0 \<longrightarrow> val (get capped (wc_shareClassId c)) = 0"
    using cap_loop_priced [OF assms(1) _ sc(1-4) assms(8,9)] assms(11) by simp_all
  have p: "nonneg p" "\<exists>q. im = filter q (wi_awards i)" "\<forall>a \<in> set im. live_award a" "\<forall>a \<in> set im. live_award a \<and> in_money_at i p a"
      "val p * (open_units capped cs + units_value i im + tot ss) \<le> val av - tot capped + strikes_value im"
    using c(3) by (simp_all add: priced_def)
  have di: "distinct (map wa_securityId im)" using p(2) assms(6) by (auto simp: sane_def intro!: distinct_map_filter)
  note cp = class_shares_total [OF assms(2) sc(2,3) p(1) c(1,2,5)] and gr = award_gross_total [OF assms(3) sc(1) p(1,3) di]
    and cv = pay_safe_shares_total [OF assms(4) p(1) assms(8,10,12)]
  have le: "tot cp + tot gr + val p * tot ss \<le> val av + strikes_value im" using cp gr p(5) by (simp add: distrib_left)
  have un: "nonneg un" "val un = val av + strikes_value im - (tot cp + tot gr + val p * tot ss)"
    using unallocated_val [OF assms(5) _ p(3) _ _ _ le] assms(11) cp gr cv by simp_all
  have gain: "strike_value a \<le> val p * award_units i a" if "a \<in> set im" for a
    using strikes_covered [of "[a]" i p] p(4) that by (simp add: strikes_value_def units_value_def)
  show "purse cp" "fst ` set cp = wc_shareClassId ` set cs" "\<forall>c \<in> set cs. class_units c = 0 \<longrightarrow> val (get cp (wc_shareClassId c)) = 0" using cp by simp_all
  show "purse conv'" "fst ` set conv' = fst ` set conv \<union> fst ` set ss" using cv by simp_all
  show "nonneg un" by (rule un(1))
  show "\<exists>q. im = filter q (wi_awards i)" by (rule p(2))
  show "purse gr" "fst ` set gr = wa_securityId ` set im" using gr by simp_all
  show "\<forall>a \<in> set im. \<exists>r. map_of gr (wa_securityId a) = Some r \<and> ok r \<and> strike_value a \<le> val r" using gr gain by fastforce
  show "tot cp + (tot gr - strikes_value im) + tot conv' + val un = val av + tot conv" using un(2) cv by simp
qed

lemma distribute_steps:
  assumes "distribute i an cv np = Inr (Some d)"
  obtains ss keeping av prefs conv capped p im cp gr conv' un where "safeConversionShares i cv = Inr (Some ss)" "filterE (keeps_preference cv) (wi_classes i) = Inr keeping"
    "pay_preferences keeping (filter (\<lambda>v. wv_kind v = Safe \<and> map_of ss (wv_securityId v) = None) (wi_convertibles i)) an np = Inr (av, prefs, conv)"
    "cap_loop (length (filter (participates cv) (wi_classes i)) + 2) i cv (filter (participates cv) (wi_classes i)) ss prefs av [] ZERO [] = Inr (capped, p, im)"
    "class_shares capped p (filter (participates cv) (wi_classes i)) = Inr cp" "award_gross i p im = Inr gr" "pay_safe_shares p ss conv = Inr conv'" "unallocated_of av im cp gr conv' ss = Inr un"
    "d = \<lparr>di_classPreference = prefs, di_classParticipation = cp, di_awardGross = gr, di_convertiblePaid = conv', di_safeShares = ss, di_price = p, di_unallocated = un\<rparr>"
proof -
  obtain ss keeping where s0: "safeConversionShares i cv = Inr (Some ss)" "filterE (keeps_preference cv) (wi_classes i) = Inr keeping"
    using assms by (auto simp: distribute_def bindE_Inr_iff split: option.splits)
  note e = assms [unfolded distribute_def s0 bindE.simps option.case Let_def]
  obtain x where x: "pay_preferences keeping (filter (\<lambda>v. wv_kind v = Safe \<and> map_of ss (wv_securityId v) = None) (wi_convertibles i)) an np = Inr x" using e by (rule bindE_InrE)
  obtain av prefs conv where x3: "x = (av, prefs, conv)" by (cases x)
  note s1 = x [unfolded x3] and e1 = e [unfolded x x3 bindE.simps prod.case]
  obtain y where y: "cap_loop (length (filter (participates cv) (wi_classes i)) + 2) i cv (filter (participates cv) (wi_classes i)) ss prefs av [] ZERO [] = Inr y" using e1 by (rule bindE_InrE)
  obtain capped p im where y3: "y = (capped, p, im)" by (cases y)
  note s2 = y [unfolded y3] and e2 = e1 [unfolded y y3 bindE.simps prod.case]
  obtain cp where c: "class_shares capped p (filter (participates cv) (wi_classes i)) = Inr cp" using e2 by (rule bindE_InrE)
  note e3 = e2 [unfolded c bindE.simps]
  obtain gr where g: "award_gross i p im = Inr gr" using e3 by (rule bindE_InrE)
  note e4 = e3 [unfolded g bindE.simps]
  obtain conv' where k: "pay_safe_shares p ss conv = Inr conv'" using e4 by (rule bindE_InrE)
  note e5 = e4 [unfolded k bindE.simps]
  obtain un where u: "unallocated_of av im cp gr conv' ss = Inr un" using e5 by (rule bindE_InrE)
  note e6 = e5 [unfolded u bindE.simps]
  have "d = \<lparr>di_classPreference = prefs, di_classParticipation = cp, di_awardGross = gr, di_convertiblePaid = conv', di_safeShares = ss, di_price = p, di_unallocated = un\<rparr>"
    using e6 by (simp only: sum.inject option.inject)
  then show ?thesis by (rule that [OF s0 s1 s2 c g k u])
qed

lemma distribute_conserves:
  assumes "distribute i an cv np = Inr (Some d)" "sane i" "nonneg an" "purse np" "fst ` set np \<subseteq> wv_securityId ` {v \<in> set (wi_convertibles i). wv_kind v = Note}"
  shows "\<exists>im. gives_away i d im (val an + tot np)"
proof -
  obtain ss keeping av prefs conv capped p im cp gr conv' un where s0: "safeConversionShares i cv = Inr (Some ss)" "filterE (keeps_preference cv) (wi_classes i) = Inr keeping"
    and t: "pay_preferences keeping (filter (\<lambda>v. wv_kind v = Safe \<and> map_of ss (wv_securityId v) = None) (wi_convertibles i)) an np = Inr (av, prefs, conv)"
      "cap_loop (length (filter (participates cv) (wi_classes i)) + 2) i cv (filter (participates cv) (wi_classes i)) ss prefs av [] ZERO [] = Inr (capped, p, im)"
      "class_shares capped p (filter (participates cv) (wi_classes i)) = Inr cp" "award_gross i p im = Inr gr" "pay_safe_shares p ss conv = Inr conv'" "unallocated_of av im cp gr conv' ss = Inr un"
      "d = \<lparr>di_classPreference = prefs, di_classParticipation = cp, di_awardGross = gr, di_convertiblePaid = conv', di_safeShares = ss, di_price = p, di_unallocated = un\<rparr>"
    using distribute_steps [OF assms(1)] .
  define safes where "safes = filter (\<lambda>v. wv_kind v = Safe \<and> map_of ss (wv_securityId v) = None) (wi_convertibles i)"
  define cs where "cs = filter (participates cv) (wi_classes i)"
  note s = t [folded safes_def cs_def]
  note ss = safe_shares_purse [OF s0(1) assms(2)]
  obtain q where q: "keeping = filter q (wi_classes i)" using filterE_sub(1) [OF s0(2)] by blast
  have k: "\<forall>c \<in> set keeping. sane_class c" "distinct (map wc_shareClassId keeping)" "\<forall>v \<in> set safes. nonneg (wv_amount v)" "distinct (map wv_securityId safes)"
    using assms(2) by (auto simp: sane_def q safes_def intro!: distinct_map_filter)
  have inj: "inj_on wv_securityId (set (wi_convertibles i))" using assms(2) by (simp add: sane_def distinct_map)
  have apart: "wv_securityId v \<notin> fst ` set np" if "v \<in> set (wi_convertibles i)" "wv_kind v = Safe" for v
  proof
    assume "wv_securityId v \<in> fst ` set np"
    then obtain w where "w \<in> set (wi_convertibles i)" "wv_kind w = Note" "wv_securityId v = wv_securityId w" using assms(5) by blast
    then show False using inj_onD [OF inj, of v w] that by simp
  qed
  have dj: "wv_securityId ` set safes \<inter> fst ` set np = {}" using apart by (auto simp: safes_def)
  have pp: "nonneg av" "purse prefs" "purse conv" "val av + tot prefs + tot conv = val an + tot np" "fst ` set prefs \<subseteq> wc_shareClassId ` set keeping"
      "fst ` set conv \<subseteq> fst ` set np \<union> wv_securityId ` set safes"
    using pay_preferences_conserves [OF s(1) k assms(3,4) dj] by simp_all
  have far: "k \<notin> fst ` set conv" if k: "k \<in> fst ` set ss" for k
  proof
    assume "k \<in> fst ` set conv"
    then have "k \<in> fst ` set np \<or> k \<in> wv_securityId ` set safes" using subsetD [OF pp(6)] by simp
    moreover obtain v where v: "k = wv_securityId v" "v \<in> set (wi_convertibles i)" "wv_kind v = Safe" using subsetD [OF conjunct2 [OF ss] k] by auto
    then have "k \<notin> fst ` set np" using apart by simp
    ultimately obtain w where "w \<in> set safes" "k = wv_securityId w" by auto
    then have "map_of ss k = None" by (simp add: safes_def)
    then show False using k by (simp add: map_of_eq_None_iff)
  qed
  have "fst ` set ss \<inter> fst ` set conv = {}" unfolding disjoint_iff using far by simp
  note r = residual_conserves [OF s(2-6) assms(2) _ _ pp(2,3,1) this]
  have c: "\<exists>q. cs = filter q (wi_classes i)" "purse ss" using ss by (auto simp: cs_def)
  note r = r [OF c]
  have "set keeping \<subseteq> {c \<in> set (wi_classes i). 0 < basis_value c}" using filterE_sub(2) [OF s0(2)] k(1) keeps_preference_val by (auto simp: q)
  then have b: "fst ` set prefs \<subseteq> wc_shareClassId ` {c \<in> set (wi_classes i). 0 < basis_value c}" using pp(5) by blast
  have z: "val (get cp (wc_shareClassId c)) = 0" if w: "c \<in> set (wi_classes i)" "sharesOf c = 0" for c
  proof (cases "c \<in> set cs")
    case True
    then show ?thesis using r(3) w(2) by (simp add: class_units_def)
  next
    case False
    have "wc_shareClassId c \<notin> wc_shareClassId ` set cs"
    proof
      assume "wc_shareClassId c \<in> wc_shareClassId ` set cs"
      then obtain c' where c': "c' \<in> set cs" "wc_shareClassId c = wc_shareClassId c'" by blast
      have "inj_on wc_shareClassId (set (wi_classes i))" using assms(2) by (simp add: sane_def distinct_map)
      moreover have "c' \<in> set (wi_classes i)" using c'(1) by (simp add: cs_def)
      ultimately have "c = c'" using c'(2) w(1) by (metis inj_onD)
      then show False using False c'(1) by simp
    qed
    then have "map_of cp (wc_shareClassId c) = None" using r(2) by (simp add: map_of_eq_None_iff)
    then show ?thesis by simp
  qed
  have "wv_securityId ` set safes \<subseteq> wv_securityId ` set (wi_convertibles i)" by (auto simp: safes_def)
  moreover have "fst ` set np \<subseteq> wv_securityId ` set (wi_convertibles i)" "fst ` set ss \<subseteq> wv_securityId ` set (wi_convertibles i)"
    using order_trans [OF assms(5) image_mono] order_trans [OF conjunct2 [OF ss] image_mono] by auto
  ultimately have sub2: "fst ` set conv' \<subseteq> wv_securityId ` set (wi_convertibles i)" unfolding r(5) by (intro Un_least order_trans [OF pp(6)])
  have sub: "fst ` set cp \<subseteq> wc_shareClassId ` set (wi_classes i)" unfolding r(2) by (auto simp: cs_def)
  have "tot prefs + tot cp + (tot gr - strikes_value im) + tot conv' + val un = val an + tot np" using r(11) pp(4) by simp
  note total = this
  have "gives_away i d im (val an + tot np)" unfolding gives_away_def s(7) distribution.simps
    by (intro conjI pp(2) b r(1,4,6,7,8,9,10) sub sub2 total ballI impI z) simp_all
  then show ?thesis by (rule exI)
qed

end
