(* ===== verification/Waterfall_Payouts.thy ===== *)
theory Waterfall_Payouts
  imports Waterfall_Distribution
begin

text \<open>
  From a distribution to the report of \<open>runWaterfall\<close> (\<open>engine/src/equity/waterfall.ts\<close>): the lines of the payout add up to the distribution, the largest-remainder rounding keeps their
  total, and the elections settle where no elector gains by changing its own.
\<close>

section \<open>The lines of the payout\<close>

definition pays_line :: "payout_line \<Rightarrow> string \<times> rat \<Rightarrow> bool" where
  "pays_line l e \<longleftrightarrow> (\<exists>p. fst l = Some p \<and> wp_securityId p = fst e) \<and> ok (snd l) \<and> val (snd l) = snd e"

definition holding_due :: "distribution \<Rightarrow> waterfall_class \<Rightarrow> waterfall_holding \<Rightarrow> rat" where
  "holding_due d c h = (if 0 < basis_value c then val (get (di_classPreference d) (wc_shareClassId c)) * (holding_value c h / basis_value c) else 0)
     + (if 0 < sharesOf c then val (get (di_classParticipation d) (wc_shareClassId c)) * (of_int (wh_shares h) / of_int (sharesOf c)) else 0)"

definition award_due :: "distribution \<Rightarrow> waterfall_award \<Rightarrow> rat" where
  "award_due d a = (case map_of (di_awardGross d) (wa_securityId a) of None \<Rightarrow> 0 | Some g \<Rightarrow> val g - strike_value a)"

definition dues :: "waterfall_input \<Rightarrow> distribution \<Rightarrow> (string \<times> rat) list" where
  "dues i d = concat (map (\<lambda>c. map (\<lambda>h. (wh_securityId h, holding_due d c h)) (wc_holdings c)) (wi_classes i)) @ map (\<lambda>a. (wa_securityId a, award_due d a)) (wi_awards i)
     @ map (\<lambda>v. (wv_securityId v, val (get (di_convertiblePaid d) (wv_securityId v)))) (wi_convertibles i)"

lemma traverse_all2:
  assumes "traverse f xs = Inr ys" "\<And>x y. x \<in> set xs \<Longrightarrow> f x = Inr y \<Longrightarrow> R y (g x)"
  shows "list_all2 R ys (map g xs)"
  using assms
proof (induction xs arbitrary: ys)
  case (Cons x xs)
  obtain y zs where y: "f x = Inr y" "traverse f xs = Inr zs" "ys = y # zs" using Cons.prems(1) by (auto simp: bindE_Inr_iff)
  have "list_all2 R zs (map g xs)" by (rule Cons.IH [OF y(2)]) (rule Cons.prems(2), simp_all)
  then show ?case using y Cons.prems(2) [of x y] by simp
qed simp

lemma list_all2_concat: "list_all2 (list_all2 R) xss yss \<Longrightarrow> list_all2 R (concat xss) (concat yss)"
  by (induction rule: list_all2_induct) (auto intro: list_all2_appendI)

lemma holding_line_due:
  assumes "holding_line d c basis h = Inr l" "sane_class c" "h \<in> set (wc_holdings c)" "ok basis" "val basis = basis_value c" "purse (di_classPreference d)" "purse (di_classParticipation d)"
  shows "pays_line l (wh_securityId h, holding_due d c h)"
proof -
  let ?pr = "get (di_classPreference d) (wc_shareClassId c)" and ?pa = "get (di_classParticipation d) (wc_shareClassId c)"
  obtain x y z where s: "(if numerator basis > 0 then bindE (holdingBasis c h) (\<lambda>hb. bindE (divideRational hb basis) (multiplyRational ?pr)) else Inr ZERO) = Inr x"
      "(if sharesOf c > 0 then bindE (rational (wh_shares h) (sharesOf c)) (multiplyRational ?pa) else Inr ZERO) = Inr y" "addRational x y = Inr z"
      "l = (Some \<lparr>wp_securityId = wh_securityId h, wp_holderPartyId = wh_holderPartyId h, wp_kind = Share_payout, wp_shareClassId = Some (wc_shareClassId c), wp_amount = []\<rparr>, z)"
    using assms(1) unfolding holding_line_def Let_def by (elim bindE_InrE) simp
  note pr = purse_get [OF assms(6), of "wc_shareClassId c"] and pa = purse_get [OF assms(7), of "wc_shareClassId c"]
  have x: "ok x \<and> val x = (if 0 < basis_value c then val ?pr * (holding_value c h / basis_value c) else 0)"
  proof (cases "0 < basis_value c")
    case True
    then obtain hb q where q: "holdingBasis c h = Inr hb" "divideRational hb basis = Inr q" "multiplyRational ?pr q = Inr x"
      using s(1) by (auto simp: numerator_signs(3) [OF assms(4)] assms(5) bindE_Inr_iff)
    show ?thesis using op_values(3) [OF _ _ q(3)] op_values(4) [OF _ assms(4) q(2)] holdingBasis_val [OF assms(2,3) q(1)] pr True assms(5) by simp
  qed (use s(1) in \<open>auto simp: numerator_signs(3) [OF assms(4)] assms(5)\<close>)
  have y: "ok y \<and> val y = (if 0 < sharesOf c then val ?pa * (of_int (wh_shares h) / of_int (sharesOf c)) else 0)"
  proof (cases "0 < sharesOf c")
    case True
    then obtain q where q: "rational (wh_shares h) (sharesOf c) = Inr q" "multiplyRational ?pa q = Inr y" using s(2) by (auto simp: bindE_Inr_iff)
    show ?thesis using op_values(3) [OF _ _ q(2)] rational_val [OF q(1)] pa True by simp
  qed (use s(2) in auto)
  have "ok z \<and> val z = val x + val y" using op_values(1) [OF _ _ s(3)] x y by simp
  then show ?thesis using x y by (simp add: s(4) pays_line_def holding_due_def)
qed

lemma award_line_due:
  assumes "award_line d a = Inr l" "ok (wa_strike a)" "purse (di_awardGross d)"
  shows "pays_line l (wa_securityId a, award_due d a)"
proof (cases "map_of (di_awardGross d) (wa_securityId a)")
  case None
  then show ?thesis using assms(1) by (auto simp: award_line_def pays_line_def award_due_def)
next
  case (Some g)
  then obtain st x where s: "awardStrike a = Inr st" "subtractRational g st = Inr x"
      "l = (Some \<lparr>wp_securityId = wa_securityId a, wp_holderPartyId = wa_holderPartyId a, wp_kind = Award_payout, wp_shareClassId = Some (wa_shareClassId a), wp_amount = []\<rparr>, x)"
    using assms(1) by (auto simp: award_line_def bindE_Inr_iff)
  have "ok g" using purse_get [OF assms(3), of "wa_securityId a"] Some by simp
  then show ?thesis using op_values(2) [OF _ _ s(2)] awardStrike_val [OF assms(2) s(1)] Some by (simp add: s(3) pays_line_def award_due_def)
qed

lemma payout_lines_due:
  assumes "payout_lines i d = Inr lines" "sane i" "gives_away i d im amt"
  shows "\<exists>ls. lines = ls @ [(None, di_unallocated d)] \<and> list_all2 pays_line ls (dues i d)"
proof -
  have p: "purse (di_classPreference d)" "purse (di_classParticipation d)" "purse (di_awardGross d)" "purse (di_convertiblePaid d)" using assms(3) by (simp_all add: gives_away_def)
  obtain cls aws where s: "traverse (class_lines d) (wi_classes i) = Inr cls" "traverse (award_line d) (wi_awards i) = Inr aws"
      "lines = concat cls @ aws @ map (convertible_line d) (wi_convertibles i) @ [(None, di_unallocated d)]"
    using assms(1) by (auto simp: payout_lines_def bindE_Inr_iff)
  have "list_all2 (list_all2 pays_line) cls (map (\<lambda>c. map (\<lambda>h. (wh_securityId h, holding_due d c h)) (wc_holdings c)) (wi_classes i))"
  proof (rule traverse_all2 [OF s(1)])
    fix c y assume c: "c \<in> set (wi_classes i)" and y: "class_lines d c = Inr y"
    have sc: "sane_class c" using c assms(2) by (simp add: sane_def)
    obtain basis where b: "classBasis c = Inr basis" "traverse (holding_line d c basis) (wc_holdings c) = Inr y" using y by (auto simp: class_lines_def bindE_Inr_iff)
    note bv = classBasis_val [OF sc b(1)]
    show "list_all2 pays_line y (map (\<lambda>h. (wh_securityId h, holding_due d c h)) (wc_holdings c))"
      by (rule traverse_all2 [OF b(2)]) (rule holding_line_due [OF _ sc _ _ _ p(1,2)], use bv in auto)
  qed
  note cl = list_all2_concat [OF this]
  have aw: "list_all2 pays_line aws (map (\<lambda>a. (wa_securityId a, award_due d a)) (wi_awards i))"
    by (rule traverse_all2 [OF s(2)]) (rule award_line_due [OF _ _ p(3)], use assms(2) in \<open>auto simp: sane_def\<close>)
  have cv: "list_all2 pays_line (map (convertible_line d) (wi_convertibles i)) (map (\<lambda>v. (wv_securityId v, val (get (di_convertiblePaid d) (wv_securityId v)))) (wi_convertibles i))"
    using purse_get [OF p(4)] by (simp add: list_all2_conv_all_nth convertible_line_def pays_line_def)
  show ?thesis using list_all2_appendI [OF cl list_all2_appendI [OF aw cv]] by (simp add: s(3) dues_def)
qed

section \<open>What is due adds up to the exit\<close>

lemma sum_list_share: "(\<Sum>x\<leftarrow>xs. a * (f x / b)) = a * ((\<Sum>x\<leftarrow>xs. f x) / (b :: rat))"
  by (induction xs) (simp_all add: add_divide_distrib distrib_left)

lemma of_int_shares: "(of_int (\<Sum>x\<leftarrow>xs. f x) :: rat) = (\<Sum>x\<leftarrow>xs. of_int (f x))"
  by (induction xs) simp_all

lemma class_dues:
  assumes "sane_class c" "purse (di_classPreference d)" "purse (di_classParticipation d)" "basis_value c \<le> 0 \<Longrightarrow> val (get (di_classPreference d) (wc_shareClassId c)) = 0"
    "sharesOf c = 0 \<Longrightarrow> val (get (di_classParticipation d) (wc_shareClassId c)) = 0"
  shows "(\<Sum>h\<leftarrow>wc_holdings c. holding_due d c h) = val (get (di_classPreference d) (wc_shareClassId c)) + val (get (di_classParticipation d) (wc_shareClassId c))"
    "\<forall>h \<in> set (wc_holdings c). 0 \<le> holding_due d c h"
proof -
  let ?pr = "val (get (di_classPreference d) (wc_shareClassId c))" and ?pa = "val (get (di_classParticipation d) (wc_shareClassId c))"
  have a: "(\<Sum>h\<leftarrow>wc_holdings c. if 0 < basis_value c then ?pr * (holding_value c h / basis_value c) else 0) = ?pr"
  proof (cases "0 < basis_value c")
    case True
    then show ?thesis by (simp add: sum_list_share basis_value_def [symmetric] del: times_divide_eq_right)
  qed (use assms(4) in simp)
  have b: "(\<Sum>h\<leftarrow>wc_holdings c. if 0 < sharesOf c then ?pa * (of_int (wh_shares h) / of_int (sharesOf c)) else 0) = ?pa"
  proof (cases "0 < sharesOf c")
    case True
    have "(\<Sum>h\<leftarrow>wc_holdings c. ?pa * (of_int (wh_shares h) / of_int (sharesOf c))) = ?pa * (of_int (sharesOf c) / of_int (sharesOf c))"
      unfolding sum_list_share by (simp add: sharesOf_def of_int_shares)
    then show ?thesis using True by simp
  qed (use assms(1,5) sharesOf_nonneg in force)
  show "(\<Sum>h\<leftarrow>wc_holdings c. holding_due d c h) = ?pr + ?pa" unfolding holding_due_def sum_list_addf a b ..
  show "\<forall>h \<in> set (wc_holdings c). 0 \<le> holding_due d c h"
    using assms(1) purse_get [OF assms(2)] purse_get [OF assms(3)] holding_value_nonneg [OF assms(1)] by (auto simp: holding_due_def sane_class_def)
qed

lemma sum_list_concat_map: "(\<Sum>x\<leftarrow>concat (map f xs). g x) = (\<Sum>x\<leftarrow>xs. \<Sum>y\<leftarrow>f x. (g y :: rat))"
  by (induction xs) simp_all

lemma award_dues_total:
  assumes "im = filter q as" "distinct (map wa_securityId as)" "purse gr" "fst ` set gr = wa_securityId ` set im" "di_awardGross d = gr"
  shows "(\<Sum>a\<leftarrow>as. award_due d a) = tot gr - strikes_value im"
proof -
  have inj: "inj_on wa_securityId (set as)" using assms(2) by (simp add: distinct_map)
  have dom: "map_of gr (wa_securityId a) = None \<longleftrightarrow> a \<notin> set im" if "a \<in> set as" for a
  proof -
    have "map_of gr (wa_securityId a) = None \<longleftrightarrow> wa_securityId a \<notin> wa_securityId ` set im" by (simp add: map_of_eq_None_iff assms(4))
    also have "\<dots> \<longleftrightarrow> a \<notin> set im" using inj_on_image_mem_iff [OF inj that, of "set im"] assms(1) by auto
    finally show ?thesis .
  qed
  have "award_due d a = val (get gr (wa_securityId a)) - (if q a then strike_value a else 0)" if "a \<in> set as" for a
    using dom [OF that] that by (auto simp: award_due_def assms(1,5) split: option.splits)
  then have "(\<Sum>a\<leftarrow>as. award_due d a) = (\<Sum>a\<leftarrow>as. val (get gr (wa_securityId a)) - (if q a then strike_value a else 0))" by (metis (mono_tags, lifting) map_cong)
  also have "\<dots> = (\<Sum>a\<leftarrow>as. val (get gr (wa_securityId a))) - (\<Sum>a\<leftarrow>as. if q a then strike_value a else 0)" by (rule sum_list_subtractf)
  also have "(\<Sum>a\<leftarrow>as. if q a then strike_value a else 0) = strikes_value im" by (simp only: strikes_value_def assms(1) sum_list_map_filter')
  also have "(\<Sum>a\<leftarrow>as. val (get gr (wa_securityId a))) = tot gr"
    using tot_lookup [OF assms(3), of "map wa_securityId as"] assms(1,2,4) by (auto simp: o_def)
  finally show ?thesis .
qed

lemma dues_total:
  assumes "gives_away i d im amt" "sane i"
  shows "(\<Sum>e\<leftarrow>dues i d. snd e) + val (di_unallocated d) = amt" "\<forall>e \<in> set (dues i d). 0 \<le> snd e"
proof -
  have p: "purse (di_classPreference d)" "purse (di_classParticipation d)" "purse (di_awardGross d)" "purse (di_convertiblePaid d)"
    and sub: "fst ` set (di_classPreference d) \<subseteq> wc_shareClassId ` {c \<in> set (wi_classes i). 0 < basis_value c}" "fst ` set (di_classParticipation d) \<subseteq> wc_shareClassId ` set (wi_classes i)"
      "fst ` set (di_convertiblePaid d) \<subseteq> wv_securityId ` set (wi_convertibles i)" "fst ` set (di_awardGross d) = wa_securityId ` set im"
    and zero: "\<forall>c \<in> set (wi_classes i). sharesOf c = 0 \<longrightarrow> val (get (di_classParticipation d) (wc_shareClassId c)) = 0"
    and im: "\<exists>q. im = filter q (wi_awards i)" "\<forall>a \<in> set im. \<exists>r. map_of (di_awardGross d) (wa_securityId a) = Some r \<and> ok r \<and> strike_value a \<le> val r"
    and sums: "tot (di_classPreference d) + tot (di_classParticipation d) + (tot (di_awardGross d) - strikes_value im) + tot (di_convertiblePaid d) + val (di_unallocated d) = amt"
    using assms(1) unfolding gives_away_def by simp_all
  have dc: "distinct (map wc_shareClassId (wi_classes i))" and da: "distinct (map wa_securityId (wi_awards i))" and dv: "distinct (map wv_securityId (wi_convertibles i))"
    and sc: "\<And>c. c \<in> set (wi_classes i) \<Longrightarrow> sane_class c" using assms(2) by (simp_all add: sane_def)
  have inj: "inj_on wc_shareClassId (set (wi_classes i))" using dc by (simp add: distinct_map)
  have pz: "val (get (di_classPreference d) (wc_shareClassId c)) = 0" if c: "c \<in> set (wi_classes i)" "basis_value c \<le> 0" for c
  proof -
    have "wc_shareClassId c \<notin> wc_shareClassId ` {c \<in> set (wi_classes i). 0 < basis_value c}"
      using inj_on_image_mem_iff [OF inj c(1), of "{c \<in> set (wi_classes i). 0 < basis_value c}"] c(2) by auto
    then have "map_of (di_classPreference d) (wc_shareClassId c) = None" using sub(1) unfolding map_of_eq_None_iff by (meson subsetD)
    then show ?thesis by simp
  qed
  have cd: "(\<Sum>h\<leftarrow>wc_holdings c. holding_due d c h) = val (get (di_classPreference d) (wc_shareClassId c)) + val (get (di_classParticipation d) (wc_shareClassId c))"
      "\<forall>h \<in> set (wc_holdings c). 0 \<le> holding_due d c h" if "c \<in> set (wi_classes i)" for c
    by (rule class_dues [OF sc [OF that] p(1,2)]; use pz zero that in simp)+
  have "(\<Sum>c\<leftarrow>wi_classes i. \<Sum>h\<leftarrow>wc_holdings c. holding_due d c h)
      = (\<Sum>c\<leftarrow>wi_classes i. val (get (di_classPreference d) (wc_shareClassId c)) + val (get (di_classParticipation d) (wc_shareClassId c)))"
    by (rule arg_cong [of _ _ sum_list], rule map_cong [OF refl]) (rule cd(1))
  also have "\<dots> = tot (di_classPreference d) + tot (di_classParticipation d)"
  proof -
    have "wc_shareClassId ` {c \<in> set (wi_classes i). 0 < basis_value c} \<subseteq> wc_shareClassId ` set (wi_classes i)" by auto
    then have "fst ` set (di_classPreference d) \<subseteq> set (map wc_shareClassId (wi_classes i))" unfolding set_map by (rule order_trans [OF sub(1)])
    moreover have "fst ` set (di_classParticipation d) \<subseteq> set (map wc_shareClassId (wi_classes i))" using sub(2) by simp
    ultimately show ?thesis using tot_lookup [OF p(1) _ dc] tot_lookup [OF p(2) _ dc] by (simp add: sum_list_addf o_def)
  qed
  finally have a: "(\<Sum>c\<leftarrow>wi_classes i. \<Sum>h\<leftarrow>wc_holdings c. holding_due d c h) = tot (di_classPreference d) + tot (di_classParticipation d)" .
  obtain q where q: "im = filter q (wi_awards i)" using im(1) by blast
  have b: "(\<Sum>x\<leftarrow>wi_awards i. award_due d x) = tot (di_awardGross d) - strikes_value im" by (rule award_dues_total [OF q da p(3) sub(4) refl])
  have c: "(\<Sum>v\<leftarrow>wi_convertibles i. val (get (di_convertiblePaid d) (wv_securityId v))) = tot (di_convertiblePaid d)"
    using tot_lookup [OF p(4), of "map wv_securityId (wi_convertibles i)"] sub(3) dv by (simp add: o_def)
  have "(\<Sum>e\<leftarrow>dues i d. snd e) = tot (di_classPreference d) + tot (di_classParticipation d) + (tot (di_awardGross d) - strikes_value im) + tot (di_convertiblePaid d)"
    unfolding dues_def map_append sum_list_append sum_list_concat_map using a b c by (simp add: o_def)
  then show "(\<Sum>e\<leftarrow>dues i d. snd e) + val (di_unallocated d) = amt" using sums by simp
  have "0 \<le> award_due d x" if x: "x \<in> set (wi_awards i)" for x
  proof (cases "map_of (di_awardGross d) (wa_securityId x)")
    case (Some r)
    then have "wa_securityId x \<in> wa_securityId ` set im" using sub(4) by (metis domI dom_map_of_conv_image_fst)
    moreover have "inj_on wa_securityId (set (wi_awards i))" using da by (simp add: distinct_map)
    ultimately have "x \<in> set im" using inj_on_image_mem_iff [of wa_securityId "set (wi_awards i)" x "set im"] x q by auto
    then show ?thesis using im(2) Some by (auto simp: award_due_def)
  qed (simp add: award_due_def)
  then show "\<forall>e \<in> set (dues i d). 0 \<le> snd e" using cd(2) purse_get [OF p(4)] by (auto simp: dues_def)
qed

section \<open>Rounding to the minor unit\<close>

lemma deal_units_deals:
  assumes "distinct ks" "set ks \<subseteq> {..<length out}"
  shows "length (deal_units out n ks) = length out" "sum_list (deal_units out n ks) = sum_list out + min (max n 0) (int (length ks))"
    "\<forall>k < length out. deal_units out n ks ! k = out ! k \<or> deal_units out n ks ! k = out ! k + 1"
proof -
  have "length (deal_units out n ks) = length out \<and> sum_list (deal_units out n ks) = sum_list out + min (max n 0) (int (length ks))
      \<and> (\<forall>k < length out. deal_units out n ks ! k = out ! k \<or> k \<in> set ks \<and> deal_units out n ks ! k = out ! k + 1)"
    using assms
  proof (induction out n ks rule: deal_units.induct)
    case (2 out n k ks)
    show ?case
    proof (cases "n \<le> 0")
      case False
      have k: "k < length out" "k \<notin> set ks" using "2.prems" by auto
      have r: "length (deal_units (out[k := out ! k + 1]) (n - 1) ks) = length out"
          "sum_list (deal_units (out[k := out ! k + 1]) (n - 1) ks) = sum_list (out[k := out ! k + 1]) + min (max (n - 1) 0) (int (length ks))"
          "\<forall>j < length out. deal_units (out[k := out ! k + 1]) (n - 1) ks ! j = out[k := out ! k + 1] ! j
            \<or> j \<in> set ks \<and> deal_units (out[k := out ! k + 1]) (n - 1) ks ! j = out[k := out ! k + 1] ! j + 1"
        using "2.IH" [OF False] "2.prems" by auto
      have u: "sum_list (out[k := out ! k + 1]) = sum_list out + 1" using sum_list_update_int [OF k(1), of "out ! k + 1"] by simp
      have "deal_units out n (k # ks) ! j = out ! j \<or> j \<in> set (k # ks) \<and> deal_units out n (k # ks) ! j = out ! j + 1" if "j < length out" for j
        using r(3) that False k by (cases "j = k") auto
      then show ?thesis using False r(1,2) u by auto
    qed simp
  qed simp
  then show "length (deal_units out n ks) = length out" "sum_list (deal_units out n ks) = sum_list out + min (max n 0) (int (length ks))"
    "\<forall>k < length out. deal_units out n ks ! k = out ! k \<or> deal_units out n ks ! k = out ! k + 1" by auto
qed

lemma units_floor: "nonneg u \<Longrightarrow> numerator u sdiv denominator u = \<lfloor>val u\<rfloor>"
proof -
  assume u: "nonneg u"
  have d: "0 < denominator u" using u by (simp add: canonical_rational_def)
  have "0 \<le> numerator u" using u d by (simp add: rational_value_def zero_le_divide_iff)
  then show ?thesis using d by (simp add: sdiv_nonneg rational_value_def floor_divide_of_int_eq)
qed

lemma floor_sum_bounds: "\<forall>x \<in> set xs. 0 \<le> (x :: rat) \<Longrightarrow> sum_list (map floor xs) \<le> \<lfloor>sum_list xs\<rfloor> \<and> \<lfloor>sum_list xs\<rfloor> \<le> sum_list (map floor xs) + int (length xs)"
proof -
  have "of_int (sum_list (map floor xs)) \<le> sum_list xs \<and> sum_list xs \<le> of_int (sum_list (map floor xs)) + of_nat (length xs)"
  proof (induction xs)
    case (Cons x xs)
    show ?case using Cons by simp linarith
  qed simp
  then show ?thesis by linarith
qed

lemma roundToTotal_rounds:
  assumes "roundToTotal amounts q = Inr us" "\<forall>a \<in> set amounts. nonneg a" "ok q" "0 < val q"
  shows "length us = length amounts \<and> (\<forall>u \<in> set us. 0 \<le> u) \<and> sum_list us = \<lfloor>(\<Sum>a\<leftarrow>amounts. val a) / val q\<rfloor>"
proof -
  obtain t units target rems where s: "sumRational amounts = Inr t" "traverse (\<lambda>a. divideRational a q) amounts = Inr units" "divideRational t q = Inr target"
      "traverse (\<lambda>(u, f). bindE (rational f 1) (subtractRational u)) (zip units (map (\<lambda>u. numerator u sdiv denominator u) units)) = Inr rems"
      "us = deal_units (map (\<lambda>u. numerator u sdiv denominator u) units) (numerator target sdiv denominator target - sum_list (map (\<lambda>u. numerator u sdiv denominator u) units)) (rounding_order rems)"
    using assms(1) unfolding roundToTotal_def Let_def by (elim bindE_InrE) simp
  have t: "ok t" "val t = (\<Sum>a\<leftarrow>amounts. val a)" using sumRational_val [OF s(1)] assms(2) by simp_all
  have nn: "0 \<le> val t" unfolding t(2) by (rule sum_list_nonneg) (use assms(2) in auto)
  have dv: "ok y \<and> val y = val x / val q" if "x \<in> set amounts" "divideRational x q = Inr y" for x y
    using op_values(4) [OF _ assms(3) that(2)] assms(2) that(1) by simp
  note u = traverse_vals [OF s(2), of "\<lambda>a. val a / val q", OF dv]
  then have uv: "\<forall>y \<in> set units. ok y" "map val units = map (\<lambda>a. val a / val q) amounts" by simp_all
  have len: "length units = length amounts" using uv(2) by (metis length_map)
  have un: "\<forall>y \<in> set units. nonneg y"
  proof
    fix y assume y: "y \<in> set units"
    then have "val y \<in> set (map (\<lambda>a. val a / val q) amounts)" using uv(2) by (metis image_eqI list.set_map)
    then show "nonneg y" using uv(1) y assms(2,4) by auto
  qed
  define fl where "fl = map (\<lambda>u. numerator u sdiv denominator u) units"
  have fl: "fl = map floor (map val units)" unfolding fl_def using un by (simp add: units_floor)
  have tg: "numerator target sdiv denominator target = \<lfloor>val t / val q\<rfloor>" using op_values(4) [OF t(1) assms(3) s(3)] nn assms(4) units_floor [of target] by simp
  have st: "sum_list (map val units) = val t / val q" unfolding uv(2) t(2) using sum_list_share [of 1 val "val q" amounts] by simp
  have vn: "\<forall>x \<in> set (map val units). 0 \<le> x" using un by auto
  note fb = floor_sum_bounds [OF vn]
  have "length rems = length (zip units fl)" using s(4) [folded fl_def] by (rule traverse_length)
  then have lr: "length rems = length fl" by (simp add: fl_def)
  have m: "mset (rounding_order rems) = mset [0..<length rems]" by (simp add: rounding_order_def)
  have o: "distinct (rounding_order rems)" "set (rounding_order rems) \<subseteq> {..<length fl}" "length (rounding_order rems) = length fl"
    using mset_eq_imp_distinct_iff [OF m] mset_eq_setD [OF m] mset_eq_length [OF m] lr by auto
  let ?n = "\<lfloor>val t / val q\<rfloor> - sum_list fl"
  note dl = deal_units_deals [OF o(1,2), of ?n]
  have us: "us = deal_units fl ?n (rounding_order rems)" using s(5) by (simp only: tg fl_def)
  have "0 \<le> ?n" "?n \<le> int (length fl)" using fb by (simp_all add: fl st [symmetric])
  then have total: "sum_list us = \<lfloor>val t / val q\<rfloor>" unfolding us dl(2) o(3) by simp
  have "0 \<le> us ! k" if "k < length us" for k
  proof -
    have k: "k < length fl" using that us dl(1) by simp
    then have "0 \<le> fl ! k" using un by (simp add: fl)
    then show ?thesis using dl(3) k unfolding us by force
  qed
  then have "\<forall>u \<in> set us. 0 \<le> u" by (auto simp: in_set_conv_nth)
  moreover have "length us = length amounts" unfolding us dl(1) by (simp add: fl len)
  ultimately show ?thesis using total t(2) by simp
qed

section \<open>Elections settle\<close>

lemma first_change_None:
  assumes "first_change pays cv d es = Inr None" "e \<in> set es" "pays (toggle (fst e) cv) = Inr (Some d')"
  shows "\<exists>other own. electorTotal d' e = Inr other \<and> electorTotal d e = Inr own \<and> compareRational other own \<le> 0"
  using assms by (induction es) (auto simp: bindE_Inr_iff not_less split: option.splits if_splits)

lemma first_change_Some: "first_change pays cv d es = Inr (Some (cv', d')) \<Longrightarrow> pays cv' = Inr (Some d')"
  by (induction es) (auto simp: bindE_Inr_iff split: option.splits if_splits)

lemma settle_loop_settles:
  assumes "settle_loop k pays es cv d = Inr (cv', d')" "pays cv = Inr (Some d)"
  shows "pays cv' = Inr (Some d') \<and> first_change pays cv' d' es = Inr None"
  using assms
proof (induction k arbitrary: cv d)
  case (Suc k)
  obtain ch where ch: "first_change pays cv d es = Inr ch" using Suc.prems(1) by (auto simp: bindE_Inr_iff)
  show ?case
  proof (cases ch)
    case None
    then show ?thesis using Suc.prems ch by simp
  next
    case (Some x)
    then show ?thesis using Suc.IH [of "fst x" "snd x"] Suc.prems(1) ch first_change_Some [of pays cv d es "fst x" "snd x"] by (simp add: case_prod_beta)
  qed
qed simp

text \<open>Who may elect, and what a distribution pays an elector: a class its preference and participation, a SAFE its conversion or cash.\<close>

definition elects :: "waterfall_input \<Rightarrow> string \<Rightarrow> bool \<Rightarrow> bool" where
  "elects i k safe \<longleftrightarrow> (if safe then \<exists>v \<in> set (wi_convertibles i). wv_securityId v = k \<and> wv_kind v = Safe \<and> wv_cap v \<noteq> None
     else \<exists>c \<in> set (wi_classes i). wc_shareClassId c = k \<and> wc_kind c = Preferred \<and> wc_participation c \<noteq> Full_participation)"

definition takes :: "distribution \<Rightarrow> string \<Rightarrow> bool \<Rightarrow> rat" where
  "takes d k safe = (if safe then val (get (di_convertiblePaid d) k)
     else val (get (di_classPreference d) k) + val (get (di_classParticipation d) k))"

lemma candidates_elect: "(k, safe) \<in> set (candidates_of i) \<longleftrightarrow> elects i k safe"
  by (auto simp: candidates_of_def elects_def)

lemma candidates_distinct:
  assumes "sane i" "wc_shareClassId ` set (wi_classes i) \<inter> wv_securityId ` set (wi_convertibles i) = {}"
  shows "distinct (map fst (candidates_of i))"
proof -
  let ?cs = "filter (\<lambda>c. wc_kind c = Preferred \<and> wc_participation c \<noteq> Full_participation) (wi_classes i)"
    and ?vs = "filter (\<lambda>v. wv_kind v = Safe \<and> wv_cap v \<noteq> None) (wi_convertibles i)"
  have m: "mset (map wc_shareClassId (js_sort class_order ?cs)) = mset (map wc_shareClassId ?cs)" by simp
  have "distinct (map wc_shareClassId ?cs)" "distinct (map wv_securityId ?vs)" using assms(1) by (simp_all add: sane_def distinct_map_filter)
  then have "distinct (map wc_shareClassId (js_sort class_order ?cs))" "distinct (map wv_securityId ?vs)" using mset_eq_imp_distinct_iff [OF m] by simp_all
  moreover have "set (map wc_shareClassId (js_sort class_order ?cs)) \<inter> set (map wv_securityId ?vs) = {}"
    unfolding mset_eq_setD [OF m] using assms(2) by auto
  moreover have "map fst (candidates_of i) = map wc_shareClassId (js_sort class_order ?cs) @ map wv_securityId ?vs"
    by (simp add: candidates_of_def o_def)
  ultimately show ?thesis by (simp only: distinct_append)
qed

lemma alternatives_unchanged:
  assumes "foldE (\<lambda>out e. bindE (pays (toggle (fst e) cv)) (\<lambda>alt. case alt of None \<Rightarrow> Inr out
      | Some d \<Rightarrow> bindE (electorTotal d e) (\<lambda>t. Inr (AList.update (fst e) t out)))) out es = Inr alts" "k \<notin> fst ` set es"
  shows "map_of alts k = map_of out k"
  using assms by (induction es arbitrary: out) (fastforce simp: bindE_Inr_iff update_conv' split: option.splits)+

lemma alternatives_listed:
  assumes "foldE (\<lambda>out e. bindE (pays (toggle (fst e) cv)) (\<lambda>alt. case alt of None \<Rightarrow> Inr out
      | Some d \<Rightarrow> bindE (electorTotal d e) (\<lambda>t. Inr (AList.update (fst e) t out)))) out es = Inr alts" "distinct (map fst es)" "e \<in> set es"
  shows "\<exists>alt. pays (toggle (fst e) cv) = Inr alt \<and> (case alt of None \<Rightarrow> map_of alts (fst e) = map_of out (fst e)
     | Some d' \<Rightarrow> \<exists>t. electorTotal d' e = Inr t \<and> map_of alts (fst e) = Some t)"
  using assms
proof (induction es arbitrary: out)
  case (Cons a es)
  let ?step = "\<lambda>out e. bindE (pays (toggle (fst e) cv)) (\<lambda>alt. case alt of None \<Rightarrow> Inr out
      | Some d \<Rightarrow> bindE (electorTotal d e) (\<lambda>t. Inr (AList.update (fst e) t out)))"
  obtain out1 where o: "?step out a = Inr out1" "foldE ?step out1 es = Inr alts" using Cons.prems(1) by (auto simp: bindE_Inr_iff)
  obtain alt where alt: "pays (toggle (fst a) cv) = Inr alt" using o(1) by (rule bindE_InrE)
  show ?case
  proof (cases "e = a")
    case True
    have "fst a \<notin> fst ` set es" using Cons.prems(2) by simp
    note u = alternatives_unchanged [OF o(2) this]
    show ?thesis using u o(1) alt True by (cases alt) (auto simp: bindE_Inr_iff update_conv')
  next
    case False
    then have e: "e \<in> set es" using Cons.prems(3) by simp
    then have "fst e \<in> fst ` set es" by (rule imageI)
    moreover have "fst a \<notin> fst ` set es" using Cons.prems(2) by simp
    ultimately have "fst e \<noteq> fst a" by metis
    then have "map_of out1 (fst e) = map_of out (fst e)" using o(1) alt by (cases alt) (auto simp: bindE_Inr_iff update_conv')
    moreover have "distinct (map fst es)" using Cons.prems(2) by simp
    note Cons.IH [OF o(2) this e]
    ultimately show ?thesis by (simp only:)
  qed
qed simp

lemma electorTotal_takes:
  assumes "electorTotal d e = Inr t" "purse (di_classPreference d)" "purse (di_classParticipation d)" "purse (di_convertiblePaid d)"
  shows "ok t \<and> val t = takes d (fst e) (snd e)"
proof (cases "snd e")
  case True
  then show ?thesis using assms(1) purse_get [OF assms(4), of "fst e"] by (auto simp: electorTotal_def takes_def case_prod_beta)
next
  case False
  then have a: "addRational (get (di_classPreference d) (fst e)) (get (di_classParticipation d) (fst e)) = Inr t"
    using assms(1) by (simp add: electorTotal_def classTotal_def case_prod_beta)
  then show ?thesis using op_values(1) [OF _ _ a] purse_get [OF assms(2)] purse_get [OF assms(3)] False by (simp add: takes_def)
qed

lemma settled_choice_steps:
  assumes "settled_choice i = Inr (cv, d, alts)"
  obtains an np d0 where "payTier (map (\<lambda>v. (wv_securityId v, wv_amount v)) (filter (\<lambda>v. wv_kind v = Note) (wi_convertibles i))) (wi_exitValue i) [] = Inr (an, np)"
    "distribute i an cv np = Inr (Some d)" "first_change (\<lambda>cv. distribute i an cv np) cv d (candidates_of i) = Inr None"
    "alternatives_of (\<lambda>cv. distribute i an cv np) cv (candidates_of i) = Inr alts"
proof -
  obtain an np where n: "payTier (map (\<lambda>v. (wv_securityId v, wv_amount v)) (filter (\<lambda>v. wv_kind v = Note) (wi_convertibles i))) (wi_exitValue i) [] = Inr (an, np)"
    using assms by (auto simp: settled_choice_def bindE_Inr_iff)
  note e = assms [unfolded settled_choice_def n bindE.simps prod.case Let_def]
  obtain od where od: "distribute i an [] np = Inr od" using e by (rule bindE_InrE)
  obtain d0 where d0: "od = Some d0" using e by (cases od) (simp_all add: od)
  note e1 = e [unfolded od d0 bindE.simps option.case]
  obtain x where x: "settle_loop (4 * length (candidates_of i) + 5) (\<lambda>cv. distribute i an cv np) (candidates_of i) [] d0 = Inr x" using e1 by (rule bindE_InrE)
  obtain cv' d' where x2: "x = (cv', d')" by (cases x)
  note e2 = e1 [unfolded x x2 bindE.simps prod.case]
  obtain al where al: "alternatives_of (\<lambda>cv. distribute i an cv np) cv' (candidates_of i) = Inr al" using e2 by (rule bindE_InrE)
  have r: "cv' = cv" "d' = d" "al = alts" using e2 by (simp_all add: al)
  have "distribute i an cv np = Inr (Some d) \<and> first_change (\<lambda>cv. distribute i an cv np) cv d (candidates_of i) = Inr None"
    using settle_loop_settles [OF x [unfolded x2]] od d0 by (simp add: r)
  then show ?thesis using that [OF n _ _ al [unfolded r]] by simp
qed

section \<open>The exit is paid out\<close>

abbreviation (input) note_claims :: "waterfall_input \<Rightarrow> (string \<times> Rational) list" where
  "note_claims i \<equiv> map (\<lambda>v. (wv_securityId v, wv_amount v)) (filter (\<lambda>v. wv_kind v = Note) (wi_convertibles i))"

lemma distribution_purses:
  assumes "payTier (note_claims i) (wi_exitValue i) [] = Inr (an, np)" "distribute i an cv np = Inr (Some d)" "sane i" "0 \<le> val (wi_exitValue i)"
  shows "purse (di_classPreference d)" "purse (di_classParticipation d)" "purse (di_convertiblePaid d)"
    "\<exists>im. gives_away i d im (val (wi_exitValue i))"
proof -
  have ex: "ok (wi_exitValue i)" using assms(3) by (simp add: sane_def)
  have ds: "distinct (map fst (note_claims i))" using assms(3) by (auto simp: sane_def o_def intro!: distinct_map_filter)
  have nn: "\<forall>(k, r) \<in> set (note_claims i). nonneg r" using assms(3) by (auto simp: sane_def)
  have p: "nonneg an" "purse np" "val an + tot np = val (wi_exitValue i)" "fst ` set np \<subseteq> fst ` set (note_claims i)"
    using payTier_shares [OF assms(1) ex assms(4) ds nn] by simp_all
  have "fst ` set np \<subseteq> wv_securityId ` {v \<in> set (wi_convertibles i). wv_kind v = Note}" using p(4) by (rule order_trans) auto
  from distribute_conserves [OF assms(2,3) p(1,2) this] show g: "\<exists>im. gives_away i d im (val (wi_exitValue i))" by (simp only: p(3))
  then show "purse (di_classPreference d)" "purse (di_classParticipation d)" "purse (di_convertiblePaid d)" by (auto simp: gives_away_def)
qed

lemma elector_stable:
  assumes n: "payTier (note_claims i) (wi_exitValue i) [] = Inr (an, np)" and s: "distribute i an cv np = Inr (Some d)"
    and fc: "first_change (\<lambda>cv. distribute i an cv np) cv d (candidates_of i) = Inr None"
    and al: "alternatives_of (\<lambda>cv. distribute i an cv np) cv (candidates_of i) = Inr alts"
    and sane: "sane i" "0 \<le> val (wi_exitValue i)" "wc_shareClassId ` set (wi_classes i) \<inter> wv_securityId ` set (wi_convertibles i) = {}"
    and e: "elects i k safe"
  shows "\<exists>alt. distribute i an (if k \<in> set cv then filter (\<lambda>x. x \<noteq> k) cv else cv @ [k]) np = Inr alt
        \<and> (case alt of None \<Rightarrow> map_of alts k = None
           | Some d' \<Rightarrow> \<exists>t. map_of alts k = Some t \<and> rational_value t = takes d' k safe \<and> takes d' k safe \<le> takes d k safe)"
proof -
  have c: "(k, safe) \<in> set (candidates_of i)" using e by (simp add: candidates_elect)
  obtain alt where alt: "distribute i an (toggle k cv) np = Inr alt"
    "case alt of None \<Rightarrow> map_of alts k = None | Some d' \<Rightarrow> \<exists>t. electorTotal d' (k, safe) = Inr t \<and> map_of alts k = Some t"
    using alternatives_listed [OF al [unfolded alternatives_of_def] candidates_distinct [OF sane(1,3)] c] unfolding fst_conv map_of.simps(1) by blast
  show ?thesis
  proof (intro exI [of _ alt] conjI)
    show "distribute i an (if k \<in> set cv then filter (\<lambda>x. x \<noteq> k) cv else cv @ [k]) np = Inr alt" using alt(1) by (simp only: toggle_def)
    show "case alt of None \<Rightarrow> map_of alts k = None
         | Some d' \<Rightarrow> \<exists>t. map_of alts k = Some t \<and> rational_value t = takes d' k safe \<and> takes d' k safe \<le> takes d k safe"
    proof (cases alt)
      case None
      then show ?thesis using alt(2) by simp
    next
      case (Some d')
      then obtain t where t: "electorTotal d' (k, safe) = Inr t" "map_of alts k = Some t" using alt(2) by auto
      note p' = electorTotal_takes [OF t(1) distribution_purses(1-3) [OF n alt(1) [unfolded Some] sane(1,2)]]
      obtain own where own: "electorTotal d (k, safe) = Inr own" "compareRational t own \<le> 0"
        using first_change_None [OF fc c, of d'] alt(1) Some t(1) by auto
      note p = electorTotal_takes [OF own(1) distribution_purses(1-3) [OF n s sane(1,2)]]
      have "val t \<le> val own" using own(2) compare_vals [of t own] p p' by (simp split: if_splits)
      then show ?thesis using Some t(2) p p' by simp
    qed
  qed
qed

lemma settled_gives_away:
  assumes "settled_choice i = Inr (cv, d, alts)" "sane i" "0 \<le> val (wi_exitValue i)"
  shows "\<exists>im. gives_away i d im (val (wi_exitValue i))"
proof -
  obtain an np where s: "payTier (note_claims i) (wi_exitValue i) [] = Inr (an, np)" "distribute i an cv np = Inr (Some d)"
    using settled_choice_steps [OF assms(1)] by blast
  show ?thesis by (rule distribution_purses(4) [OF s assms(2,3)])
qed

lemma paid_units_zip:
  assumes "list_all2 pays_line ls es" "length us = length ls"
  shows "\<exists>ps. paid_units (ls @ [(None, r)]) (us @ [u0]) = zip ps us \<and> length ps = length us \<and> map wp_securityId ps = map fst es"
proof (intro exI conjI)
  let ?ps = "map (\<lambda>l. the (fst l)) ls"
  have l: "length ls = length es" using assms(1) by (rule list_all2_lengthD)
  show "length ?ps = length us" using assms(2) by simp
  have n: "\<exists>p. fst (ls ! k) = Some p \<and> wp_securityId p = fst (es ! k)" if "k < length ls" for k
    using list_all2_nthD [OF assms(1) that] by (auto simp: pays_line_def)
  show "map wp_securityId ?ps = map fst es" by (rule nth_equalityI) (use n l in force)+
  have "\<forall>l \<in> set ls. fst l \<noteq> None" using n by (metis in_set_conv_nth option.distinct(1))
  then have "concat (map2 (\<lambda>l u. case fst l of None \<Rightarrow> [] | Some p \<Rightarrow> [(p, u)]) ls us) = zip ?ps us"
    using assms(2) by (induction ls arbitrary: us) (auto simp: length_Suc_conv)
  then show "paid_units (ls @ [(None, r)]) (us @ [u0]) = zip ?ps us" using assms(2) by (simp add: paid_units_def)
qed

lemma unallocated_units_last: "length us = length ls \<Longrightarrow> unallocated_units (ls @ [(None, r)]) (us @ [u0]) = u0"
  by (simp add: unallocated_units_def)

abbreviation (input) minor_scale :: "waterfall_input \<Rightarrow> nat" where "minor_scale i \<equiv> nat (wi_minorUnitScale i)"

lemma runWaterfall_steps:
  assumes "runWaterfall i = Inr r"
  obtains cv d alts lines q us where "\<not> compareRational (wi_exitValue i) ZERO < 0" "settled_choice i = Inr (cv, d, alts)" "payout_lines i d = Inr lines" "rational 1 (10 ^ minor_scale i) = Inr q"
    "roundToTotal (map snd lines) q = Inr us" "waterfall_report i (minor_scale i) cv d alts lines us = Inr r"
proof -
  have c: "\<not> compareRational (wi_exitValue i) ZERO < 0" using assms by (auto simp: runWaterfall_def)
  have e: "bindE (settled_choice i) (\<lambda>(converting, d, alternatives). bindE (payout_lines i d) (\<lambda>lines. bindE (rational 1 (10 ^ minor_scale i)) (\<lambda>quantum.
      bindE (roundToTotal (map snd lines) quantum) (\<lambda>rounded. waterfall_report i (minor_scale i) converting d alternatives lines rounded)))) = Inr r"
    using assms by (auto simp: runWaterfall_def Let_def split: if_splits)
  obtain x where x: "settled_choice i = Inr x" using e by (rule bindE_InrE)
  obtain cv d alts where x3: "x = (cv, d, alts)" by (cases x)
  show ?thesis using e [unfolded x x3 bindE.simps prod.case] by (elim bindE_InrE) (rule that [OF c x [unfolded x3]])
qed

lemma waterfall_report_units:
  assumes "waterfall_report i s cv d alts lines us = Inr r"
  shows "wr_payouts r = map (\<lambda>(p, u). p\<lparr>wp_amount := toMoney s u\<rparr>) (paid_units lines us)" "wr_unallocated r = toMoney s (unallocated_units lines us)"
  using assms by (auto simp: waterfall_report_def Let_def bindE_Inr_iff)

lemma stamped_amounts: "length ps = length us \<Longrightarrow> map wp_amount (map (\<lambda>(p, u). p\<lparr>wp_amount := f u\<rparr>) (zip ps us)) = map f us
    \<and> map wp_securityId (map (\<lambda>(p, u). p\<lparr>wp_amount := f u\<rparr>) (zip ps us)) = map wp_securityId ps"
  by (induction ps us rule: list_induct2) simp_all

text \<open>
  C7: the waterfall pays the exit out exactly.  For sane terms (canonical, non-negative figures and distinct ids), whenever \<open>runWaterfall\<close> returns there are whole minor units, none negative,
  one per holding, award and convertible in the order of the input and one for what nobody takes, that are the reported amounts and add up to the exit value rounded down to the currency's
  quantum: through notes, seniority tiers, participation caps, exercised options, SAFE conversions, elections and the largest-remainder rounding, nothing is created and nothing lost.
\<close>

theorem waterfall_pays_exit:
  assumes "runWaterfall i = Inr r" "sane i"
  shows "\<exists>us rest. map wp_amount (wr_payouts r) = map (toMoney (minor_scale i)) us \<and> wr_unallocated r = toMoney (minor_scale i) rest
    \<and> map wp_securityId (wr_payouts r) = concat (map (\<lambda>c. map wh_securityId (wc_holdings c)) (wi_classes i)) @ map wa_securityId (wi_awards i) @ map wv_securityId (wi_convertibles i)
    \<and> (\<forall>u \<in> set us. 0 \<le> u) \<and> 0 \<le> rest \<and> sum_list us + rest = \<lfloor>rational_value (wi_exitValue i) * 10 ^ minor_scale i\<rfloor>"
proof -
  obtain cv d alts lines q rounded where s: "\<not> compareRational (wi_exitValue i) ZERO < 0" "settled_choice i = Inr (cv, d, alts)" "payout_lines i d = Inr lines" "rational 1 (10 ^ minor_scale i) = Inr q"
    "roundToTotal (map snd lines) q = Inr rounded" "waterfall_report i (minor_scale i) cv d alts lines rounded = Inr r" using runWaterfall_steps [OF assms(1)] .
  have "ok (wi_exitValue i)" using assms(2) by (simp add: sane_def)
  then have "0 \<le> val (wi_exitValue i)" using s(1) by (simp add: compare_vals split: if_splits)
  then obtain im where g: "gives_away i d im (val (wi_exitValue i))" using settled_gives_away [OF s(2) assms(2)] by blast
  obtain ls where ls: "lines = ls @ [(None, di_unallocated d)]" "list_all2 pays_line ls (dues i d)" using payout_lines_due [OF s(3) assms(2) g] by blast
  note du = dues_total [OF g assms(2)]
  have vals: "map (\<lambda>l. val (snd l)) ls = map snd (dues i d)" "\<forall>l \<in> set ls. ok (snd l)"
    using ls(2) by (induction rule: list_all2_induct) (auto simp: pays_line_def)
  have "\<forall>l \<in> set ls. 0 \<le> val (snd l)" using du(2) vals(1) by (metis (mono_tags, lifting) image_eqI image_iff list.set_map)
  then have nn: "\<forall>a \<in> set (map snd lines). nonneg a" using vals(2) g by (auto simp: ls(1) gives_away_def)
  have q: "ok q" "val q = 1 / 10 ^ minor_scale i" using rational_val [OF s(4)] by simp_all
  have rd: "length rounded = length lines" "\<forall>u \<in> set rounded. 0 \<le> u" "sum_list rounded = \<lfloor>(\<Sum>a\<leftarrow>map snd lines. val a) / val q\<rfloor>"
    using roundToTotal_rounds [OF s(5) nn q(1)] q(2) by simp_all
  obtain us rest where us: "rounded = us @ [rest]" "length us = length ls" using rd(1) ls(1) by (cases rounded rule: rev_cases) auto
  have "(\<Sum>a\<leftarrow>map snd lines. val a) = val (wi_exitValue i)" using du(1) vals(1) by (simp add: ls(1) o_def)
  then have total: "sum_list us + rest = \<lfloor>val (wi_exitValue i) * 10 ^ minor_scale i\<rfloor>" using rd(3) by (simp add: us(1) q(2))
  obtain ps where ps: "paid_units lines rounded = zip ps us" "length ps = length us" "map wp_securityId ps = map fst (dues i d)"
    using paid_units_zip [OF ls(2) us(2)] ls(1) us(1) by auto
  note rp = waterfall_report_units [OF s(6)]
  have "map wp_amount (wr_payouts r) = map (toMoney (minor_scale i)) us" unfolding rp(1) ps(1) using stamped_amounts [OF ps(2)] by blast
  moreover have "map wp_securityId (wr_payouts r) = map fst (dues i d)" unfolding rp(1) ps(1) ps(3) [symmetric] using stamped_amounts [OF ps(2)] by blast
  moreover have "wr_unallocated r = toMoney (minor_scale i) rest" unfolding rp(2) ls(1) us(1) using unallocated_units_last [OF us(2)] by simp
  moreover have "map fst (dues i d) = concat (map (\<lambda>c. map wh_securityId (wc_holdings c)) (wi_classes i)) @ map wa_securityId (wi_awards i) @ map wv_securityId (wi_convertibles i)"
    by (simp add: dues_def o_def map_concat)
  ultimately show ?thesis using rd(2) total by (intro exI [of _ us] exI [of _ rest]) (simp add: us(1))
qed

text \<open>
  C10: the elections are an equilibrium.  For sane terms, a non-negative exit value and ids that tell classes from convertibles, when the conversion loop returns, the distribution it
  reports is the one its elections give.  For every elector (a preferred class without full participation, a SAFE with a cap) the other choice is tried with every other election kept:
  it is either impossible and then not listed, or the amount listed as its alternative is exactly what it would be paid, and that is at most what the elector takes.  Nobody else is listed.
\<close>

theorem settled_elections_stable:
  assumes "settled_choice i = Inr (cv, d, alts)" "sane i" "0 \<le> rational_value (wi_exitValue i)"
    "wc_shareClassId ` set (wi_classes i) \<inter> wv_securityId ` set (wi_convertibles i) = {}"
  shows "\<exists>an np. payTier (note_claims i) (wi_exitValue i) [] = Inr (an, np) \<and> distribute i an cv np = Inr (Some d)
    \<and> (\<forall>k. map_of alts k \<noteq> None \<longrightarrow> (\<exists>safe. elects i k safe))
    \<and> (\<forall>k safe. elects i k safe \<longrightarrow> (\<exists>alt. distribute i an (if k \<in> set cv then filter (\<lambda>x. x \<noteq> k) cv else cv @ [k]) np = Inr alt
        \<and> (case alt of None \<Rightarrow> map_of alts k = None
           | Some d' \<Rightarrow> \<exists>t. map_of alts k = Some t \<and> rational_value t = takes d' k safe \<and> takes d' k safe \<le> takes d k safe)))"
proof -
  obtain an np where n: "payTier (note_claims i) (wi_exitValue i) [] = Inr (an, np)" and s: "distribute i an cv np = Inr (Some d)"
    and fc: "first_change (\<lambda>cv. distribute i an cv np) cv d (candidates_of i) = Inr None"
    and al: "alternatives_of (\<lambda>cv. distribute i an cv np) cv (candidates_of i) = Inr alts" using settled_choice_steps [OF assms(1)] by blast
  have listed: "\<forall>k. map_of alts k \<noteq> None \<longrightarrow> (\<exists>safe. elects i k safe)"
  proof (intro allI impI)
    fix k assume "map_of alts k \<noteq> None"
    then have "k \<in> fst ` set (candidates_of i)" using alternatives_unchanged [OF al [unfolded alternatives_of_def], of k] by (metis map_of.simps(1))
    then show "\<exists>safe. elects i k safe" by (auto simp: candidates_elect)
  qed
  show ?thesis using n s listed elector_stable [OF n s fc al assms(2-4)] by blast
qed

definition sample_exit :: waterfall_input where
  "sample_exit = \<lparr>wi_exitValue = \<lparr>numerator = 1000, denominator = 1\<rparr>,
     wi_classes = [
       \<lparr>wc_shareClassId = ''C'', wc_code = ''CS'', wc_kind = Common, wc_seniority = 0, wc_liquidationMultiple = ONE, wc_participation = No_participation, wc_participationCapMultiple = None,
         wc_originalIssuePrice = None, wc_conversionRatio = ONE, wc_holdings = [\<lparr>wh_securityId = ''s1'', wh_holderPartyId = ''A'', wh_shares = 60, wh_preferencePrice = None\<rparr>]\<rparr>,
       \<lparr>wc_shareClassId = ''P'', wc_code = ''PA'', wc_kind = Preferred, wc_seniority = 1, wc_liquidationMultiple = ONE, wc_participation = No_participation, wc_participationCapMultiple = None,
         wc_originalIssuePrice = Some \<lparr>numerator = 2, denominator = 1\<rparr>, wc_conversionRatio = ONE,
         wc_holdings = [\<lparr>wh_securityId = ''s2'', wh_holderPartyId = ''B'', wh_shares = 40, wh_preferencePrice = None\<rparr>]\<rparr>],
     wi_awards = [\<lparr>wa_securityId = ''o1'', wa_holderPartyId = ''A'', wa_shareClassId = ''C'', wa_shares = 10, wa_strike = \<lparr>numerator = 3, denominator = 1\<rparr>\<rparr>],
     wi_convertibles = [\<lparr>wv_securityId = ''n1'', wv_holderPartyId = ''D'', wv_kind = Note, wv_amount = \<lparr>numerator = 100, denominator = 1\<rparr>, wv_cap = None, wv_postMoney = False\<rparr>],
     wi_minorUnitScale = 2\<rparr>"

lemma sample_exit_sane: "sane sample_exit"
  by (simp add: sample_exit_def sane_def sane_class_def ZERO_def ONE_def canonical_rational_def rational_value_def)

abbreviation (input) fraction :: "int \<Rightarrow> int \<Rightarrow> Rational" where "fraction n d \<equiv> \<lparr>numerator = n, denominator = d\<rparr>"

definition sample_settled :: distribution where
  "sample_settled = \<lparr>di_classPreference = [], di_classParticipation = [(''C'', fraction 5580 11), (''P'', fraction 3720 11)], di_awardGross = [(''o1'', fraction 930 11)],
     di_convertiblePaid = [(''n1'', fraction 100 1)], di_safeShares = [], di_price = fraction 93 11, di_unallocated = fraction 0 1\<rparr>"

definition sample_kept :: distribution where
  "sample_kept = \<lparr>di_classPreference = [(''P'', fraction 80 1)], di_classParticipation = [(''C'', fraction 5100 7)], di_awardGross = [(''o1'', fraction 850 7)],
     di_convertiblePaid = [(''n1'', fraction 100 1)], di_safeShares = [], di_price = fraction 85 7, di_unallocated = fraction 0 1\<rparr>"

lemma sample_distributions:
  "distribute sample_exit (fraction 900 1) [] [(''n1'', fraction 100 1)] = Inr (Some sample_kept)"
  "distribute sample_exit (fraction 900 1) [''P''] [(''n1'', fraction 100 1)] = Inr (Some sample_settled)"
  "candidates_of sample_exit = [(''P'', False)]"
  "payTier (map (\<lambda>v. (wv_securityId v, wv_amount v)) (filter (\<lambda>v. wv_kind v = Note) (wi_convertibles sample_exit))) (wi_exitValue sample_exit) [] = Inr (fraction 900 1, [(''n1'', fraction 100 1)])"
  by code_simp+

lemma sample_elections:
  "electorTotal sample_kept (''P'', False) = Inr (fraction 80 1)" "electorTotal sample_settled (''P'', False) = Inr (fraction 3720 11)"
  "compareRational (fraction 3720 11) (fraction 80 1) = 1" "compareRational (fraction 80 1) (fraction 3720 11) = - 1"
  by code_simp+

lemma sample_choice: "settled_choice sample_exit = Inr ([''P''], sample_settled, [(''P'', fraction 80 1)])"
  by (simp add: settled_choice_def sample_distributions sample_elections toggle_def alternatives_of_def eval_nat_numeral)

definition sample_payout_lines :: "payout_line list" where
  "sample_payout_lines =
    [(Some \<lparr>wp_securityId = ''s1'', wp_holderPartyId = ''A'', wp_kind = Share_payout, wp_shareClassId = Some ''C'', wp_amount = []\<rparr>, fraction 5580 11),
     (Some \<lparr>wp_securityId = ''s2'', wp_holderPartyId = ''B'', wp_kind = Share_payout, wp_shareClassId = Some ''P'', wp_amount = []\<rparr>, fraction 3720 11),
     (Some \<lparr>wp_securityId = ''o1'', wp_holderPartyId = ''A'', wp_kind = Award_payout, wp_shareClassId = Some ''C'', wp_amount = []\<rparr>, fraction 600 11),
     (Some \<lparr>wp_securityId = ''n1'', wp_holderPartyId = ''D'', wp_kind = Note_payout, wp_shareClassId = None, wp_amount = []\<rparr>, fraction 100 1), (None, fraction 0 1)]"

lemma sample_lines:
  "payout_lines sample_exit sample_settled = Inr sample_payout_lines"
  "roundToTotal (map snd sample_payout_lines) (fraction 1 100) = Inr [50727, 33818, 5455, 10000, 0]" "rational 1 100 = Inr (fraction 1 100)"
  "compareRational (wi_exitValue sample_exit) ZERO = 1"
  by code_simp+

lemma sample_holders:
  "js_sort holder_order (fold (\<lambda>(p, u). add_units (wp_holderPartyId p) u) (paid_units sample_payout_lines [50727, 33818, 5455, 10000, 0]) []) = [(''A'', 56182), (''B'', 33818), (''D'', 10000)]"
  "quantize (wi_exitValue sample_exit) 2 Half_up = 100000"
  "\<not> isl (traverse (holder_row 2 100000) [(''A'', 56182), (''B'', 33818), (''D'', 10000)])"
  by code_simp+

lemma class_row_returns:
  assumes "\<not> isl (capOf c)" "\<not> isl (preferenceOf c)" "sharesOf c > 0 \<Longrightarrow> \<not> isl (bindE (classTotal d (wc_shareClassId c)) (\<lambda>t. bindE (rational (sharesOf c) 1) (divideRational t)))"
  shows "\<not> isl (class_row s cv d alts totals c)"
proof -
  obtain cap pr where c: "capOf c = Inr cap" "preferenceOf c = Inr pr" using assms(1,2) by (cases "capOf c"; cases "preferenceOf c") auto
  show ?thesis
  proof (cases "sharesOf c > 0")
    case True
    then obtain r where "bindE (classTotal d (wc_shareClassId c)) (\<lambda>t. bindE (rational (sharesOf c) 1) (divideRational t)) = Inr r" using assms(3) by (cases "bindE (classTotal d (wc_shareClassId c)) (\<lambda>t. bindE (rational (sharesOf c) 1) (divideRational t))") auto
    then show ?thesis using c True by (auto simp: class_row_def Let_def bindE_Inr_iff)
  qed (simp add: class_row_def Let_def c)
qed

lemma traverse_returns: "\<forall>x \<in> set xs. \<not> isl (f x) \<Longrightarrow> \<not> isl (traverse f xs)"
proof (induction xs)
  case (Cons x xs)
  then show ?case by (cases "f x"; cases "traverse f xs") auto
qed simp

lemma sample_class_rows: "\<not> isl (traverse (class_row 2 [''P''] sample_settled alts totals) (wi_classes sample_exit))"
proof (rule traverse_returns, rule ballI, rule class_row_returns)
  fix c assume c: "c \<in> set (wi_classes sample_exit)"
  have "list_all (\<lambda>c. \<not> isl (capOf c) \<and> \<not> isl (preferenceOf c) \<and> \<not> isl (bindE (classTotal sample_settled (wc_shareClassId c)) (\<lambda>t. bindE (rational (sharesOf c) 1) (divideRational t)))) (wi_classes sample_exit)"
    by code_simp
  then show "\<not> isl (capOf c)" "\<not> isl (preferenceOf c)" "\<not> isl (bindE (classTotal sample_settled (wc_shareClassId c)) (\<lambda>t. bindE (rational (sharesOf c) 1) (divideRational t)))"
    using c by (simp_all add: list_all_iff)
qed

lemma isl_returns: "\<not> isl m \<longleftrightarrow> (\<exists>x. m = Inr x)"
  by (cases m) simp_all

lemma sample_report: "\<exists>r. waterfall_report sample_exit 2 [''P''] sample_settled [(''P'', fraction 80 1)] sample_payout_lines [50727, 33818, 5455, 10000, 0] = Inr r"
proof -
  obtain classes where c: "traverse (class_row 2 [''P''] sample_settled [(''P'', fraction 80 1)] (fold (\<lambda>(p, u) m. if wp_kind p = Share_payout \<and> or_else (wp_shareClassId p) [] \<noteq> [] then add_units (or_else (wp_shareClassId p) []) u m else m)
      (paid_units sample_payout_lines [50727, 33818, 5455, 10000, 0]) [])) (wi_classes sample_exit) = Inr classes"
    using sample_class_rows [unfolded isl_returns] by (rule exE)
  obtain holders where h: "traverse (holder_row 2 100000) [(''A'', 56182), (''B'', 33818), (''D'', 10000)] = Inr holders" using sample_holders(3) [unfolded isl_returns] by (rule exE)
  show ?thesis unfolding waterfall_report_def Let_def sample_holders(1,2) c h bindE.simps by (rule exI, rule refl)
qed

lemma sample_runs: "\<exists>r. runWaterfall sample_exit = Inr r"
proof -
  have s: "wi_minorUnitScale sample_exit = 2" "nat 2 = 2" "(10 :: int) ^ 2 = 100" by (simp_all add: sample_exit_def)
  have "runWaterfall sample_exit = waterfall_report sample_exit 2 [''P''] sample_settled [(''P'', fraction 80 1)] sample_payout_lines [50727, 33818, 5455, 10000, 0]"
    unfolding runWaterfall_def sample_choice sample_lines s Let_def bindE.simps prod.case by simp
  then show ?thesis using sample_report by (simp only:)
qed

theorem waterfall_pays_exit_witness:
  "\<exists>r us rest. runWaterfall sample_exit = Inr r \<and> map wp_amount (wr_payouts r) = map (toMoney 2) us \<and> length us = 4 \<and> (\<forall>u \<in> set us. 0 \<le> u) \<and> sum_list us + rest = 100000"
proof -
  obtain r where r: "runWaterfall sample_exit = Inr r" using sample_runs by blast
  obtain us rest where w: "map wp_amount (wr_payouts r) = map (toMoney (minor_scale sample_exit)) us"
      "map wp_securityId (wr_payouts r) = concat (map (\<lambda>c. map wh_securityId (wc_holdings c)) (wi_classes sample_exit)) @ map wa_securityId (wi_awards sample_exit) @ map wv_securityId (wi_convertibles sample_exit)"
      "\<forall>u \<in> set us. 0 \<le> u" "sum_list us + rest = \<lfloor>rational_value (wi_exitValue sample_exit) * 10 ^ minor_scale sample_exit\<rfloor>"
    using waterfall_pays_exit [OF r sample_exit_sane] by blast
  have "length us = length (wr_payouts r)" using arg_cong [OF w(1), of length] by simp
  also have "\<dots> = 4" using arg_cong [OF w(2), of length] by (simp add: sample_exit_def)
  finally have "length us = 4" .
  moreover have "minor_scale sample_exit = 2" "rational_value (wi_exitValue sample_exit) * 10 ^ 2 = 100000" by (simp_all add: sample_exit_def rational_value_def)
  ultimately show ?thesis using r w by auto
qed

theorem settled_elections_stable_witness:
  "takes sample_kept ''P'' False \<le> takes sample_settled ''P'' False \<and> rational_value (fraction 80 1) = takes sample_kept ''P'' False"
proof -
  have e: "0 \<le> rational_value (wi_exitValue sample_exit)" "wc_shareClassId ` set (wi_classes sample_exit) \<inter> wv_securityId ` set (wi_convertibles sample_exit) = {}"
    "elects sample_exit ''P'' False"
    by (simp_all add: sample_exit_def rational_value_def elects_def)
  obtain an np where n: "payTier (note_claims sample_exit) (wi_exitValue sample_exit) [] = Inr (an, np)"
    and each: "\<forall>k safe. elects sample_exit k safe \<longrightarrow> (\<exists>alt. distribute sample_exit an (if k \<in> set [''P''] then filter (\<lambda>x. x \<noteq> k) [''P''] else [''P''] @ [k]) np = Inr alt
        \<and> (case alt of None \<Rightarrow> map_of [(''P'', fraction 80 1)] k = None
           | Some d' \<Rightarrow> \<exists>t. map_of [(''P'', fraction 80 1)] k = Some t \<and> rational_value t = takes d' k safe \<and> takes d' k safe \<le> takes sample_settled k safe))"
    using settled_elections_stable [OF sample_choice sample_exit_sane e(1,2)] by blast
  have "an = fraction 900 1" "np = [(''n1'', fraction 100 1)]" using n sample_distributions(4) by simp_all
  then show ?thesis using each [rule_format, OF e(3)] sample_distributions(1) by auto
qed

end
