(* ===== verification/Spec2Isabelle.thy ===== *)
theory Spec2Isabelle
  imports Allocation Costing Netting Tax Cadence Amortization Present_Value Recognition Lifecycles Posting_Rules Depreciation
    Usage_Rating Rebates Note_Interest Share_Terms Waterfall_Payouts
begin

text \<open>
  OpenBooks is an ERP system in TypeScript.  Its engine (\<open>src/engine/src\<close>) is written as pure cores (exact arithmetic, calendars, costing,
  taxes, schedules, status machines, posting checks) that asynchronous drivers call between SQL statements.  This development models the pure
  cores, function by function, and proves what the drivers rely on: amounts are read exactly and rounded once, splits lose no unit,
  schedules close, dates are the calendar's, status machines end where they should and a journal that is posted balances.

  \<^bold>\<open>How the program is modelled.\<close>  A \<open>BigInt\<close> is an \<open>int\<close> (its \<open>/\<close> and \<open>%\<close> are \<open>sdiv\<close> and \<open>smod\<close>), a money value is the text the program
  passes around, a \<open>Date\<close> is a number of milliseconds or invalid, \<open>null\<close> and \<open>undefined\<close> are \<open>None\<close>, an object is a \<open>record\<close>, a string union a \<open>datatype\<close>.
  A throwing function returns \<open>error + 'a\<close>; \<open>error\<close> has the program's error classes with the code or the fixed part of the message.  Loops are folds or
  recursive functions with a measure; only the three loops of the liquidation waterfall, which the program itself bounds by a number of passes, count that number down.  JavaScript strings are lists of 8-bit characters.

  \<^bold>\<open>Theories and sources.\<close>
  \<^item> \<open>Prelude\<close>: results, guards, throwing loops, the locales \<open>text_codec\<close> and \<open>exact_codec\<close>, stable sorting.  \<open>Rounding\<close>: half away from zero, as an
    integer quotient and as a function of rationals.  \<open>Js_Text\<close>: the string operations and regular expressions the readers use.
  \<^item> \<open>Money\<close>, \<open>Money_Split\<close> (\<open>money/money.ts\<close>): ledger units of a ten-thousandth, reading, printing, rates and percentages; the largest-remainder splits behind
    the locale \<open>unit_splitter\<close>.  \<open>Exact_Decimal\<close> (\<open>packages/forms-core/src/decimals.ts\<close>, \<open>money/exact-decimal.ts\<close>).
  \<^item> \<open>Allocation\<close> (\<open>allocations/apportion.ts\<close>), \<open>Costing\<close> (\<open>inventory/costing.ts\<close>), \<open>Netting\<close> (\<open>intercompany/netting-math.ts\<close>), \<open>Tax\<close> (\<open>tax/tax.ts\<close>).
  \<^item> \<open>Js_Date\<close>: the day arithmetic and the UTC accessors of ECMAScript.  \<open>Civil_Date\<close> (\<open>platform/iso-date.ts\<close>, \<open>platform/civil-date.ts\<close>), \<open>Payment_Terms\<close>
    (\<open>ledger/payment-terms-due-date.ts\<close>), \<open>Cadence\<close> (\<open>billing/cadence.ts\<close>).
  \<^item> \<open>Amortization\<close> (\<open>amortization/plan.ts\<close>), \<open>Present_Value\<close> (\<open>money/rational.ts\<close>, \<open>money/present-value.ts\<close>), \<open>Recognition\<close>
    (\<open>revenue/recognition-schedule.ts\<close>, \<open>-dates.ts\<close>, \<open>-limits.ts\<close>, \<open>-apportionment.ts\<close>).
  \<^item> \<open>Formula_Value\<close>, \<open>Formula_Language\<close>, \<open>Formula_Schedule\<close> (\<open>assets/depreciation-formula.ts\<close>, \<open>-limits.ts\<close>): values with twelve decimals, the tokenizer,
    the recursive-descent parser, the evaluator, schedules by formula.  \<open>Depreciation\<close> (\<open>assets/depreciation-conventions.ts\<close>, \<open>-schedule-math.ts\<close>).
  \<^item> \<open>Lifecycles\<close> (\<open>service/status.ts\<close>, \<open>projects/time-lifecycle.ts\<close>, \<open>flows/quorum.ts\<close>) over the locale \<open>lifecycle\<close>.
  \<^item> \<open>Journal_Balance\<close> (\<open>journal/posting-invariants.ts\<close>): leg retention and the final balance check.  \<open>Posting_Contracts\<close> (\<open>journal/posting-contracts.ts\<close>,
    \<open>ledger/posting-tax-policy.ts\<close>, \<open>ledger/posting-rule-builders.ts\<close>): documents, lines, dependencies, the tax cross-foot and the builders.
    \<open>Internal_Billing\<close> (\<open>ledger/internal-billing-policy.ts\<close>).  \<open>Posting_Rules\<close> (\<open>ledger/posting-rules.ts\<close>, \<open>-rule-support.ts\<close>, \<open>-rule-cash-sale.ts\<close>,
    \<open>-projection.ts\<close>, \<open>sales/cash-tenders.ts\<close>): the legs of all eighteen document kinds.  \<open>Brands\<close> (\<open>money/brands.ts\<close>): the branded readers of money, rates and quantities.
  \<^item> \<open>Usage_Rating\<close> (\<open>billing/usage/rating.ts\<close>): metered records, rating bands, minimum commits and prepaid draws.  \<open>Rebates\<close> (\<open>revenue/rebate-math.ts\<close>): tiered
    rebates and competing deals.
  \<^item> \<open>Equity_Quantities\<close>, \<open>Vesting\<close>, \<open>Note_Interest\<close> (\<open>equity/quantities.ts\<close>, \<open>vesting.ts\<close>, \<open>interest.ts\<close>), \<open>Share_Terms\<close> (\<open>equity/splits.ts\<close>, \<open>anti-dilution.ts\<close>).
    \<open>Waterfall\<close> has the definitions of \<open>equity/waterfall.ts\<close>, from the terms of an exit to its report; \<open>Waterfall_Distribution\<close> shows what one distribution gives away
    (\<open>distribute\<close>), \<open>Waterfall_Payouts\<close> what the elections, the payout lines and the rounding make of it (\<open>runWaterfall\<close>).

  \<^bold>\<open>Interfaces.\<close>  \<open>text_codec\<close> is what a reader and a printer promise each other; money texts, formula values and calendar dates interpret it, dates exactly.
  \<open>unit_splitter\<close> is what a split of units over weights promises: the three residual policies of \<open>apportion\<close> and the remainder split of the amortization plans
  interpret it, and allocation, recognition and plans use its laws.  \<open>lifecycle\<close> and \<open>closable_lifecycle\<close> are the contract of a status machine; visits, requests
  and jobs interpret them.  \<open>balanced_rule\<close> is the contract of a posting rule: what it projects sums to zero; thirteen rules interpret it and the projection relies on
  nothing else of them.

  \<^bold>\<open>What the lemmas show.\<close>  Readers accept exactly the texts of representable values and round trip; arithmetic is the rational result rounded once; splits conserve
  the total and are fair; FIFO and moving average refine a specification of stock and drain to nothing; pair netting balances; tax lines cross-foot and
  inclusive prices are inverted; the calendar agrees with \<open>Date\<close> on every day from 0001-01-01 through 9999-12-31; due dates, cadences, plans and schedules fall where they
  should, are always computed on accepted input and sum to their total; accretion closes at zero; the formula compiler
  accepts exactly the phrases of a stratified grammar, with the trees it gives them, and a depreciation plan, whatever its formula, charges the depreciable base to the unit; status machines keep their order and can be closed; a
  posted journal balances for every subsidiary; every document kind but journals, pay runs, cash sales and refunds, whose legs the document or its tenders state, projects legs that
  balance, and tendered cash sales and refunds do when their total is not negative; the control leg of a sales or purchase document is exactly its total, a payment relieves what it settles
  and an expense report reimburses what was paid out of pocket; usage is charged once
  whatever the order of its records and bands, and a reversal erases its record; rebate tiers are retrospective and the best deal wins; vesting installments land what the schedule vests; the price after a round is
  the one its protection promises; a liquidation waterfall pays out exactly the exit and its elections are an equilibrium.

  \<^bold>\<open>Bounds.\<close>  The bounds in the statements are the program's own: four decimals and fifteen whole digits of money, 600, 1200 and 12,000 periods, years 1 through 9999,
  \<open>2 ^ 53 - 1\<close> for whole numbers.  The waterfall runs at most two passes more than there are classes or awards, and the lemmas show that its price loops always end before
  that; its elections run at most four passes per elector and five more.  A JavaScript number that is not a whole number is outside the types of the model where the program checks for it first.

  \<^bold>\<open>Not modelled.\<close>  SQL, transactions and the asynchronous drivers; the web application; declarative registries; national payroll and tax packs, which are tables of
  law; functions that read IEEE doubles or values of unknown type.  Characters above 255, memory limits and locale-dependent collation are not represented.
  The waterfall's passes over the elections need not settle; the program then refuses the exit and so does the model, and no lemma claims that they settle.  Identifiers that the
  waterfall tells apart by a prefix are told apart by a constructor, and the locale's collation of agreement ids is a parameter of the rebate selection.
\<close>

end
